(* ===== verification/MavPrelude.thy ===== *)
theory MavPrelude
  imports Main "HOL-Library.Word" "HOL-Library.Monad_Syntax" "HOL-Library.AList"
begin

text \<open>
  Shared vocabulary of the development.

  \<^item> A Rust panic (\<^verbatim>\<open>panic!\<close>, \<^verbatim>\<open>assert!\<close>, \<^verbatim>\<open>expect\<close>, an index out of range) aborts
    the program: an operation that can panic returns an \<open>option\<close>, with \<open>None\<close> for the panic,
    and operations are chained in the option monad.
  \<^item> \<^verbatim>\<open>usize\<close> indices, sizes and \<^verbatim>\<open>u64\<close> identifiers are natural numbers (the counters of
    the compiler never come near \<open>2 ^ 64\<close>); the \<^verbatim>\<open>u128\<close> values on which the code
    computes bitwise are \<open>128 word\<close>.
  \<^item> A Rust \<^verbatim>\<open>HashMap\<close> is an association list with distinct keys; the order of the list is the
    (arbitrary) order in which the map iterates, so a theorem over all lists holds for every
    iteration order.
\<close>

named_theorems opt_simps \<open>unfolding of operations that may panic\<close>

type_synonym u128 = "128 word"
type_synonym value_id = nat
type_synonym block_id = nat
type_synonym function_id = nat

subsection \<open>Panics\<close>

text \<open>\<^verbatim>\<open>assert!(b)\<close>: continue when \<open>b\<close> holds, panic otherwise.\<close>

definition ensure :: "bool \<Rightarrow> unit option" where
  "ensure b = (if b then Some () else None)"

text \<open>Indexing a vector: a panic when the index is out of range.\<close>

definition nth_opt :: "'a list \<Rightarrow> nat \<Rightarrow> 'a option" where
  "nth_opt xs i = (if i < length xs then Some (xs ! i) else None)"

text \<open>Assigning to an element of a vector: a panic when the index is out of range.\<close>

definition upd_opt :: "'a list \<Rightarrow> nat \<Rightarrow> 'a \<Rightarrow> 'a list option" where
  "upd_opt xs i v = (if i < length xs then Some (xs[i := v]) else None)"

lemma ensure_Some [opt_simps, simp]: "ensure b = Some u \<longleftrightarrow> b"
  by (simp add: ensure_def)

lemma ensure_None [simp]: "ensure b = None \<longleftrightarrow> \<not> b"
  by (simp add: ensure_def)

lemma ensure_bind [simp]: "Option.bind (ensure b) f = (if b then f () else None)"
  by (simp add: ensure_def)

lemma nth_opt_Some [opt_simps, simp]: "nth_opt xs i = Some x \<longleftrightarrow> i < length xs \<and> xs ! i = x"
  by (simp add: nth_opt_def)

lemma nth_opt_None [simp]: "nth_opt xs i = None \<longleftrightarrow> length xs \<le> i"
  by (auto simp: nth_opt_def)

lemma nth_opt_in: "i < length xs \<Longrightarrow> nth_opt xs i = Some (xs ! i)"
  by simp

lemma upd_opt_Some [opt_simps, simp]: "upd_opt xs i v = Some ys \<longleftrightarrow> i < length xs \<and> ys = xs[i := v]"
  by (auto simp: upd_opt_def)

lemma upd_opt_None [simp]: "upd_opt xs i v = None \<longleftrightarrow> length xs \<le> i"
  by (auto simp: upd_opt_def)

lemma bind_Some_iff [opt_simps]:
  "Option.bind m f = Some y \<longleftrightarrow> (\<exists>x. m = Some x \<and> f x = Some y)"
  by (cases m) auto

subsection \<open>Loops over a collection whose body may panic\<close>

fun opt_map :: "('a \<Rightarrow> 'b option) \<Rightarrow> 'a list \<Rightarrow> 'b list option" where
  "opt_map f [] = Some []"
| "opt_map f (x # xs) = do { y \<leftarrow> f x; ys \<leftarrow> opt_map f xs; Some (y # ys) }"

fun opt_fold :: "('a \<Rightarrow> 's \<Rightarrow> 's option) \<Rightarrow> 'a list \<Rightarrow> 's \<Rightarrow> 's option" where
  "opt_fold f [] s = Some s"
| "opt_fold f (x # xs) s = do { s' \<leftarrow> f x s; opt_fold f xs s' }"

lemma opt_map_Some_iff:
  "opt_map f xs = Some ys \<longleftrightarrow> list_all2 (\<lambda>x y. f x = Some y) xs ys"
  by (induction xs arbitrary: ys)
    (auto simp: bind_Some_iff list_all2_Cons1)

lemma opt_map_length: "opt_map f xs = Some ys \<Longrightarrow> length ys = length xs"
  by (auto simp: opt_map_Some_iff dest: list_all2_lengthD)

lemma opt_map_total: "(\<And>x. x \<in> set xs \<Longrightarrow> f x = Some (g x)) \<Longrightarrow> opt_map f xs = Some (map g xs)"
  by (induction xs) auto

lemma opt_map_None_iff: "opt_map f xs = None \<longleftrightarrow> (\<exists>x\<in>set xs. f x = None)"
proof (induction xs)
  case (Cons x xs)
  then show ?case by (cases "f x"; cases "opt_map f xs") auto
qed simp

lemma opt_map_cong [fundef_cong]:
  "xs = ys \<Longrightarrow> (\<And>x. x \<in> set ys \<Longrightarrow> f x = g x) \<Longrightarrow> opt_map f xs = opt_map g ys"
  by (induction ys arbitrary: xs) auto

lemma opt_fold_append:
  "opt_fold f (xs @ ys) s = Option.bind (opt_fold f xs s) (opt_fold f ys)"
proof (induction xs arbitrary: s)
  case (Cons x xs)
  then show ?case by (cases "f x s") auto
qed simp

lemma opt_fold_inv:
  assumes "opt_fold f xs s = Some t" and "P s"
    and "\<And>x s t. x \<in> set xs \<Longrightarrow> P s \<Longrightarrow> f x s = Some t \<Longrightarrow> P t"
  shows "P t"
  using assms
proof (induction xs arbitrary: s)
  case (Cons x xs)
  from Cons.prems(1) obtain u where u: "f x s = Some u" "opt_fold f xs u = Some t"
    by (auto simp: bind_Some_iff)
  have "P u" using Cons.prems(2,3) u(1) by auto
  then show ?case using Cons.IH [OF u(2)] Cons.prems(3) by auto
qed simp

lemma opt_fold_total:
  assumes "P s" and "\<And>x s. x \<in> set xs \<Longrightarrow> P s \<Longrightarrow> \<exists>t. f x s = Some t \<and> P t"
  shows "\<exists>t. opt_fold f xs s = Some t \<and> P t"
  using assms
proof (induction xs arbitrary: s)
  case (Cons x xs)
  from Cons.prems(2) [of x s] Cons.prems(1) obtain u where u: "f x s = Some u" "P u" by auto
  from Cons.IH [OF u(2)] Cons.prems(2) obtain t where "opt_fold f xs u = Some t \<and> P t" by auto
  with u show ?case by auto
qed simp

subsection \<open>Decimal numerals\<close>

text \<open>Rust's decimal formatting of an unsigned integer.\<close>

fun nat_str :: "nat \<Rightarrow> string" where
  "nat_str n = (if n < 10 then [char_of (48 + n)] else nat_str (n div 10) @ [char_of (48 + n mod 10)])"

declare nat_str.simps [simp del]

text \<open>Joining rendered parts with a separator, as \<^verbatim>\<open>join(", ")\<close> does.\<close>

fun join_str :: "string \<Rightarrow> string list \<Rightarrow> string" where
  "join_str sep [] = []"
| "join_str sep [x] = x"
| "join_str sep (x # xs) = x @ sep @ join_str sep xs"

subsection \<open>Association lists as hash maps\<close>

lemma map_of_update [simp]: "map_of (AList.update k v xs) = (map_of xs)(k \<mapsto> v)"
  by (rule update_conv')

lemma map_of_delete_alist [simp]: "map_of (AList.delete k xs) = (map_of xs)(k := None)"
  by (rule delete_conv')

lemma distinct_keys_update:
  "distinct (map fst xs) \<Longrightarrow> distinct (map fst (AList.update k v xs))"
  by (rule distinct_update)

lemma distinct_keys_delete:
  "distinct (map fst xs) \<Longrightarrow> distinct (map fst (AList.delete k xs))"
  by (rule distinct_delete)

end
