(* ===== verification/Bits.thy ===== *)
theory Bits
  imports MavPrelude
begin

text \<open>
  The bit-spreading helpers of \<^verbatim>\<open>compiler/src/compiler/util.rs\<close>: \<open>spread_bits\<close> interleaves a zero
  between the bits of a value, \<open>unspread_bits\<close> separates the odd and the even bits of a value.
  The witness lowering of bitwise operations rests on them: the sum of two spread values holds
  the exclusive or in its even bits and the conjunction in its odd bits.
\<close>

unbundle bit_operations_syntax

subsection \<open>The code\<close>

definition spread_step :: "nat \<Rightarrow> u128 \<Rightarrow> u128 \<Rightarrow> u128" where
  "spread_step k m x = (x OR push_bit k x) AND m"

definition spread_bits :: "u128 \<Rightarrow> nat \<Rightarrow> u128 option" where
  "spread_bits v bits = do {
     ensure (bits \<le> 64);
     let x = v;
     let x = spread_step 32 0x00000000FFFFFFFF00000000FFFFFFFF x;
     let x = spread_step 16 0x0000FFFF0000FFFF0000FFFF0000FFFF x;
     let x = spread_step 8 0x00FF00FF00FF00FF00FF00FF00FF00FF x;
     let x = spread_step 4 0x0F0F0F0F0F0F0F0F0F0F0F0F0F0F0F0F x;
     let x = spread_step 2 0x33333333333333333333333333333333 x;
     let x = spread_step 1 0x55555555555555555555555555555555 x;
     Some x }"

definition compact_step :: "nat \<Rightarrow> u128 \<Rightarrow> u128 \<Rightarrow> u128" where
  "compact_step k m x = (x OR drop_bit k x) AND m"

definition compact_bits :: "u128 \<Rightarrow> u128" where
  "compact_bits x0 =
     (let x = x0 AND 0x55555555555555555555555555555555;
          x = compact_step 1 0x33333333333333333333333333333333 x;
          x = compact_step 2 0x0F0F0F0F0F0F0F0F0F0F0F0F0F0F0F0F x;
          x = compact_step 4 0x00FF00FF00FF00FF00FF00FF00FF00FF x;
          x = compact_step 8 0x0000FFFF0000FFFF0000FFFF0000FFFF x;
          x = compact_step 16 0x00000000FFFFFFFF00000000FFFFFFFF x;
          x = compact_step 32 0x0000000000000000FFFFFFFFFFFFFFFF x
      in x)"

definition unspread_bits :: "u128 \<Rightarrow> nat \<Rightarrow> (u128 \<times> u128) option" where
  "unspread_bits v bits = do {
     ensure (bits \<le> 128 \<and> bits mod 2 = 0);
     let even = compact_bits v;
     let odd = compact_bits (drop_bit 1 v);
     Some (odd, even) }"

definition unspread_u64 :: "64 word \<Rightarrow> (32 word \<times> 32 word) option" where
  "unspread_u64 v = do {
     (odd, even) \<leftarrow> unspread_bits (ucast v) 64;
     Some (ucast odd, ucast even) }"

definition spread_u64 :: "32 word \<Rightarrow> 64 word option" where
  "spread_u64 v = do { x \<leftarrow> spread_bits (ucast v) 32; Some (ucast x) }"

subsection \<open>Bits of the masks\<close>

text \<open>In the mask of block width \<open>w\<close>, bit \<open>n\<close> is set exactly when \<open>n div w\<close> is even.\<close>

definition block_mask :: "nat \<Rightarrow> u128 \<Rightarrow> bool" where
  "block_mask w m \<longleftrightarrow> list_all (\<lambda>n. bit m n = even (n div w)) [0..<128]"

lemma block_maskD: "block_mask w m \<Longrightarrow> n < 128 \<Longrightarrow> bit m n \<longleftrightarrow> even (n div w)"
  by (auto simp: block_mask_def list_all_iff)

lemma block_masks:
  "block_mask 1 0x55555555555555555555555555555555"
  "block_mask 2 0x33333333333333333333333333333333"
  "block_mask 4 0x0F0F0F0F0F0F0F0F0F0F0F0F0F0F0F0F"
  "block_mask 8 0x00FF00FF00FF00FF00FF00FF00FF00FF"
  "block_mask 16 0x0000FFFF0000FFFF0000FFFF0000FFFF"
  "block_mask 32 0x00000000FFFFFFFF00000000FFFFFFFF"
  "block_mask 64 0x0000000000000000FFFFFFFFFFFFFFFF"
  by code_simp+

lemma block_div: "r < w \<Longrightarrow> (w * c + r) div w = (c :: nat)"
  by (metis add.commute div_mult_self2 div_less add.right_neutral gr_implies_not_zero)

lemma bit_block_mask:
  assumes "block_mask w m" "r < w" "2 * w * q + r < 128"
  shows "bit m (2 * w * q + r)"
proof -
  have "(2 * w * q + r) div w = 2 * q"
    using block_div [OF assms(2), of "2 * q"] by (simp add: ac_simps)
  then show ?thesis using block_maskD [OF assms(1,3)] by simp
qed

lemma not_bit_block_mask:
  assumes "block_mask w m" "r < w"
  shows "\<not> bit m (2 * w * q + w + r)"
proof (cases "2 * w * q + w + r < 128")
  case True
  have "2 * w * q + w + r = w * (2 * q + 1) + r" by (simp add: algebra_simps)
  then have "(2 * w * q + w + r) div w = 2 * q + 1"
    using block_div [OF assms(2), of "2 * q + 1"] by (simp only:)
  then show ?thesis using block_maskD [OF assms(1) True] by simp
next
  case False
  then show ?thesis using bit_imp_le_length [of m] by fastforce
qed

subsection \<open>Layouts\<close>

text \<open>
  \<open>spread_layout w f x\<close>: the word \<open>x\<close> holds the bits \<open>f\<close> in blocks of width \<open>w\<close>, each followed by
  a block of \<open>w\<close> zeros. Spreading halves \<open>w\<close> from 64 to 1, compacting doubles it from 1 to 64.
\<close>

definition spread_layout :: "nat \<Rightarrow> (nat \<Rightarrow> bool) \<Rightarrow> u128 \<Rightarrow> bool" where
  "spread_layout w f x \<longleftrightarrow>
     (\<forall>q r. r < w \<longrightarrow> 2 * w * q + r < 128 \<longrightarrow> bit x (2 * w * q + r) = f (w * q + r)) \<and>
     (\<forall>q r. r < w \<longrightarrow> \<not> bit x (2 * w * q + w + r))"

lemma spread_layoutD1:
  "spread_layout w f x \<Longrightarrow> r < w \<Longrightarrow> 2 * w * q + r < 128 \<Longrightarrow> bit x (2 * w * q + r) = f (w * q + r)"
  by (simp add: spread_layout_def)

lemma spread_layoutD2: "spread_layout w f x \<Longrightarrow> r < w \<Longrightarrow> \<not> bit x (2 * w * q + w + r)"
  by (simp add: spread_layout_def)

lemma spread_step_layout:
  assumes x: "spread_layout (2 * k) f x" and m: "block_mask k m" and k: "0 < k"
  shows "spread_layout k f (spread_step k m x)"
  unfolding spread_layout_def
proof (intro conjI allI impI)
  fix q r assume r: "r < k" and n: "2 * k * q + r < 128"
  have mk: "bit m (2 * k * q + r)" by (rule bit_block_mask [OF m r n])
  show "bit (spread_step k m x) (2 * k * q + r) = f (k * q + r)"
  proof (cases "even q")
    case True
    then obtain p where q: "q = 2 * p" by blast
    have a: "bit x (2 * k * q + r) = f (k * q + r)"
      using spread_layoutD1 [OF x, of r p] r n q by (simp add: algebra_simps)
    have b: "\<not> (k \<le> 2 * k * q + r \<and> bit x (2 * k * q + r - k))"
    proof (cases p)
      case 0
      then show ?thesis using q r by simp
    next
      case (Suc j)
      have e: "2 * k * q + r - k = 2 * (2 * k) * j + 2 * k + (k + r)"
        using q Suc by (simp add: algebra_simps)
      show ?thesis using spread_layoutD2 [OF x, of "k + r" j] r by (simp add: e)
    qed
    show ?thesis using a b mk n by (auto simp: spread_step_def bit_simps)
  next
    case False
    then obtain p where q: "q = 2 * p + 1" by (metis oddE)
    have e: "2 * k * q + r = 2 * (2 * k) * p + 2 * k + r" using q by (simp add: algebra_simps)
    have a: "\<not> bit x (2 * k * q + r)"
      using spread_layoutD2 [OF x, of r p] r by (simp add: e)
    have e2: "2 * k * q + r - k = 2 * (2 * k) * p + (k + r)" using e by (simp add: algebra_simps)
    have b: "bit x (2 * k * q + r - k) = f (k * q + r)"
      using spread_layoutD1 [OF x, of "k + r" p] r n e2 q by (simp add: algebra_simps)
    have "k \<le> 2 * k * q + r" using e by simp
    with a b mk n show ?thesis by (auto simp: spread_step_def bit_simps)
  qed
next
  fix q r assume r: "r < k"
  show "\<not> bit (spread_step k m x) (2 * k * q + k + r)"
    using not_bit_block_mask [OF m r] by (simp add: spread_step_def bit_simps)
qed

lemma compact_step_layout:
  assumes x: "spread_layout k f x" and m: "block_mask (2 * k) m" and k: "4 * k dvd 128"
  shows "spread_layout (2 * k) f (compact_step k m x)"
  unfolding spread_layout_def
proof (intro conjI allI impI)
  fix q r assume r: "r < 2 * k" and n: "2 * (2 * k) * q + r < 128"
  from k obtain c where c: "128 = 4 * k * c" by (elim dvdE)
  have "q < c"
  proof (rule ccontr)
    assume "\<not> q < c"
    then have "4 * k * c \<le> 4 * k * q" by simp
    with n have "4 * k * c < 128" by linarith
    with c show False by linarith
  qed
  then have "4 * k * Suc q \<le> 4 * k * c" by (intro mult_le_mono2) simp
  then have top: "4 * k * q + 4 * k \<le> 128" unfolding c by simp
  have mk: "bit m (2 * (2 * k) * q + r)" by (rule bit_block_mask [OF m r n])
  show "bit (compact_step k m x) (2 * (2 * k) * q + r) = f (2 * k * q + r)"
  proof (cases "r < k")
    case True
    have a: "bit x (4 * k * q + r) = f (2 * k * q + r)"
      using spread_layoutD1 [OF x True, of "2 * q"] n by (simp add: algebra_simps)
    have b: "\<not> bit x (k + (4 * k * q + r))"
      using spread_layoutD2 [OF x True, of "2 * q"] by (simp add: algebra_simps)
    show ?thesis using a b mk n by (simp add: compact_step_def bit_simps)
  next
    case False
    then obtain s where s: "r = k + s" "s < k"
      using r le_Suc_ex [of k r] by auto
    have a: "\<not> bit x (4 * k * q + r)"
      using spread_layoutD2 [OF x s(2), of "2 * q"] s by (simp add: algebra_simps)
    have b: "bit x (k + (4 * k * q + r)) = f (2 * k * q + r)"
      using spread_layoutD1 [OF x s(2), of "2 * q + 1"] s top by (simp add: algebra_simps)
    show ?thesis using a b mk n by (simp add: compact_step_def bit_simps)
  qed
next
  fix q r assume r: "r < 2 * k"
  show "\<not> bit (compact_step k m x) (2 * (2 * k) * q + 2 * k + r)"
    using not_bit_block_mask [OF m r, of q] by (simp add: compact_step_def bit_simps)
qed

lemma word_high_bits_zero:
  fixes v :: u128
  assumes "v < 2 ^ k" "k < 128" "k \<le> n"
  shows "\<not> bit v n"
proof -
  have "uint v < 2 ^ k"
    using assms(1,2) by (simp add: word_2p_lem word_size)
  then have "take_bit k (uint v) = uint v"
    by (simp add: take_bit_int_eq_self)
  then have "\<not> bit (uint v) n" using assms(3) by (metis bit_take_bit_iff leD)
  then show ?thesis using bit_imp_le_length [of v n] by (auto simp: bit_uint_iff)
qed

lemma spread_layout_init: "v < 2 ^ 64 \<Longrightarrow> spread_layout 64 (bit v) v"
proof -
  have e: "128 * q + r < 128 \<longleftrightarrow> q = 0 \<and> r < 128" for q r :: nat by presburger
  assume "v < 2 ^ 64"
  then show ?thesis
    using word_high_bits_zero [of v 64] by (auto simp: spread_layout_def e)
qed

lemma even_mask_layout: "spread_layout 1 (\<lambda>i. bit v (2 * i)) (v AND 0x55555555555555555555555555555555)"
  unfolding spread_layout_def
proof (intro conjI allI impI)
  fix q r :: nat assume "r < 1" and n: "2 * 1 * q + r < 128"
  then show "bit (v AND 0x55555555555555555555555555555555) (2 * 1 * q + r) = bit v (2 * (1 * q + r))"
    using bit_block_mask [OF block_masks(1), of 0 q] by (simp add: bit_and_iff)
next
  fix q r :: nat assume "r < 1"
  then show "\<not> bit (v AND 0x55555555555555555555555555555555) (2 * 1 * q + 1 + r)"
    using not_bit_block_mask [OF block_masks(1), of 0 q] by (simp add: bit_and_iff)
qed

lemma spread_layout_1: "spread_layout 1 f x \<Longrightarrow> bit x n \<longleftrightarrow> n < 128 \<and> even n \<and> f (n div 2)"
proof (cases "even n")
  case True
  assume x: "spread_layout 1 f x"
  from True obtain q where "n = 2 * q" by blast
  then show ?thesis
    using spread_layoutD1 [OF x, of 0 q] bit_imp_le_length [of x n] by auto
next
  case False
  assume x: "spread_layout 1 f x"
  from False obtain q where "n = 2 * q + 1" by (metis oddE)
  then show ?thesis
    using spread_layoutD2 [OF x, of 0 q] by auto
qed

lemma spread_layout_64: "spread_layout 64 f x \<Longrightarrow> bit x n \<longleftrightarrow> n < 64 \<and> f n"
proof (cases "n < 64")
  case True
  assume "spread_layout 64 f x"
  then show ?thesis using spread_layoutD1 [of 64 f x n 0] True by simp
next
  case False
  assume x: "spread_layout 64 f x"
  then obtain r where "n = 64 + r" using False le_Suc_ex [of 64 n] by auto
  moreover have "bit x n \<Longrightarrow> n < 128" using bit_imp_le_length [of x n] by simp
  ultimately show ?thesis using spread_layoutD2 [OF x, of r 0] by auto
qed

subsection \<open>What the two functions compute\<close>

lemmas spread_step_layout_at =
  spread_step_layout [where k = 32, simplified, OF _ block_masks(6)]
  spread_step_layout [where k = 16, simplified, OF _ block_masks(5)]
  spread_step_layout [where k = 8, simplified, OF _ block_masks(4)]
  spread_step_layout [where k = 4, simplified, OF _ block_masks(3)]
  spread_step_layout [where k = 2, simplified, OF _ block_masks(2)]
  spread_step_layout [where k = 1, simplified, OF _ block_masks(1) [simplified]]

lemmas compact_step_layout_at =
  compact_step_layout [where k = 1, simplified, OF _ block_masks(2)]
  compact_step_layout [where k = 2, simplified, OF _ block_masks(3)]
  compact_step_layout [where k = 4, simplified, OF _ block_masks(4)]
  compact_step_layout [where k = 8, simplified, OF _ block_masks(5)]
  compact_step_layout [where k = 16, simplified, OF _ block_masks(6)]
  compact_step_layout [where k = 32, simplified, OF _ block_masks(7) [simplified]]

lemma spread_bits_layout:
  assumes "v < 2 ^ 64" "bits \<le> 64"
  shows "\<exists>x. spread_bits v bits = Some x \<and> spread_layout (Suc 0) (bit v) x"
  unfolding spread_bits_def Let_def ensure_bind if_P [OF assms(2)] option.inject One_nat_def
  by (rule exI, rule conjI, rule refl) (intro spread_step_layout_at spread_layout_init assms)

lemma compact_bits_layout: "spread_layout 64 (\<lambda>i. bit v (2 * i)) (compact_bits v)"
  unfolding compact_bits_def Let_def One_nat_def
  by (intro compact_step_layout_at even_mask_layout [simplified])

lemma bit_compact_bits: "bit (compact_bits v) n \<longleftrightarrow> n < 64 \<and> bit v (2 * n)"
  by (rule spread_layout_64 [OF compact_bits_layout])

lemma bit_spread_bits:
  assumes "v < 2 ^ 64" "spread_bits v bits = Some x"
  shows "bit x n \<longleftrightarrow> n < 128 \<and> even n \<and> bit v (n div 2)"
proof -
  have "bits \<le> 64" using assms(2) by (simp add: spread_bits_def split: if_splits)
  with spread_bits_layout [OF assms(1)] assms(2) have "spread_layout 1 (bit v) x" by fastforce
  then show ?thesis by (rule spread_layout_1)
qed

lemma spread_bits_total: "bits \<le> 64 \<Longrightarrow> spread_bits v bits \<noteq> None"
  by (simp add: spread_bits_def Let_def)

lemma unspread_bits_Some:
  "bits \<le> 128 \<Longrightarrow> even bits \<Longrightarrow> unspread_bits v bits = Some (compact_bits (drop_bit 1 v), compact_bits v)"
  by (simp add: unspread_bits_def Let_def even_iff_mod_2_eq_zero)

text \<open>Adding two words with bits only at even places: the exclusive or, with the conjunction
  one place to the left.\<close>

lemma word_add_even_bits:
  fixes a b :: "'a :: len word"
  assumes "\<And>n. odd n \<Longrightarrow> \<not> bit a n" "\<And>n. odd n \<Longrightarrow> \<not> bit b n"
  shows "bit (a + b) n \<longleftrightarrow> n < LENGTH('a) \<and>
           (if even n then bit a n \<noteq> bit b n else bit a (n - 1) \<and> bit b (n - 1))"
proof -
  define z where "z = push_bit 1 (a AND b)"
  have z: "bit z n \<longleftrightarrow> n < LENGTH('a) \<and> 0 < n \<and> bit a (n - 1) \<and> bit b (n - 1)" for n
    by (simp only: z_def bit_push_bit_iff bit_and_iff) auto
  have "a OR b = (a XOR b) OR (a AND b)" by (rule bit_eqI) (auto simp: bit_simps)
  also have "\<dots> = (a XOR b) + (a AND b)"
    by (rule disjunctive_add [symmetric]) (auto simp: bit_simps)
  finally have "a + b = (a XOR b) + z"
    using word_plus_and_or [of a b] by (simp add: z_def push_bit_eq_mult algebra_simps)
  also have "\<dots> = (a XOR b) OR z"
  proof (rule disjunctive_add)
    fix n show "\<not> bit (a XOR b) n \<or> \<not> bit z n"
      using assms(1) [of "n - 1"] assms(1) [of n] assms(2) [of n]
      by (cases n) (auto simp: bit_xor_iff z)
  qed
  finally have sum: "a + b = (a XOR b) OR z" .
  have "bit a n \<Longrightarrow> n < LENGTH('a)" "bit b n \<Longrightarrow> n < LENGTH('a)"
    using bit_imp_le_length [of a n] bit_imp_le_length [of b n] by auto
  then show ?thesis
    using assms(1) [of "n - 1"] assms(1) [of n] assms(2) [of n]
    by (cases n) (auto simp: sum bit_or_iff bit_xor_iff z)
qed

lemma compact_spread_sum:
  assumes a: "a < 2 ^ 64" "spread_bits a n = Some x" and b: "b < 2 ^ 64" "spread_bits b m = Some y"
  shows "compact_bits (x + y) = a XOR b" "compact_bits (drop_bit 1 (x + y)) = a AND b"
proof -
  note bits = bit_spread_bits [OF a] bit_spread_bits [OF b]
  have sum: "bit (x + y) k \<longleftrightarrow> k < 128 \<and>
      (if even k then bit x k \<noteq> bit y k else bit x (k - 1) \<and> bit y (k - 1))" for k
    using word_add_even_bits [of x y k] by (simp add: bits)
  note hi = word_high_bits_zero [OF a(1)] word_high_bits_zero [OF b(1)]
  show "compact_bits (x + y) = a XOR b"
  proof (rule bit_eqI)
    fix k show "bit (compact_bits (x + y)) k = bit (a XOR b) k"
      using hi [of k] by (cases "k < 64") (auto simp: sum bit_compact_bits bit_xor_iff bits)
  qed
  show "compact_bits (drop_bit 1 (x + y)) = a AND b"
  proof (rule bit_eqI)
    fix k show "bit (compact_bits (drop_bit 1 (x + y))) k = bit (a AND b) k"
      using hi [of k] by (cases "k < 64") (auto simp: sum bit_compact_bits bit_and_iff bit_drop_bit_eq bits)
  qed
qed

lemma ucast_less_2_64: "(ucast (a :: 32 word) :: u128) < 2 ^ 64"
proof -
  have "uint (ucast a :: u128) = uint a"
    using uint_lt2p [of a] by (simp add: unsigned_ucast_eq take_bit_int_eq_self)
  also have "\<dots> < 2 ^ 64" using uint_lt2p [of a] by simp
  finally show ?thesis by (simp add: word_less_alt)
qed

lemma bit_spread_u64:
  assumes "spread_u64 a = Some x"
  shows "bit x n \<longleftrightarrow> n < 64 \<and> even n \<and> bit a (n div 2)"
proof -
  from assms obtain y where y: "spread_bits (ucast a) 32 = Some y" "x = ucast y"
    by (auto simp: spread_u64_def bind_Some_iff)
  show ?thesis
    unfolding y(2) bit_ucast_iff bit_spread_bits [OF ucast_less_2_64 y(1)]
    by (auto simp: bit_ucast_iff)
qed

lemma spread_u64_total: "\<exists>x. spread_u64 a = Some x"
  using spread_bits_total [of 32 "ucast a"] by (auto simp: spread_u64_def)

subsection \<open>Properties\<close>

text \<open>C39. The bitwise gadget: for all 32-bit words, separating the bits of the (wrapping) 64-bit
  sum of two spread words gives the conjunction in the odd half and the exclusive or in the even
  half, and no step panics.\<close>

theorem unspread_u64_of_sum:
  "do { x \<leftarrow> spread_u64 a; y \<leftarrow> spread_u64 b; unspread_u64 (x + y) } = Some (a AND b, a XOR b)"
proof -
  obtain x y where xy: "spread_u64 a = Some x" "spread_u64 b = Some y"
    using spread_u64_total by meson
  note bits = bit_spread_u64 [OF xy(1)] bit_spread_u64 [OF xy(2)]
  have sum: "bit (x + y) k \<longleftrightarrow> k < 64 \<and>
      (if even k then bit x k \<noteq> bit y k else bit x (k - 1) \<and> bit y (k - 1))" for k
    using word_add_even_bits [of x y k] by (simp add: bits)
  have "ucast (compact_bits (ucast (x + y))) = a XOR b"
    by (rule bit_word_eqI) (auto simp: bit_ucast_iff bit_compact_bits sum bits bit_xor_iff)
  moreover have "ucast (compact_bits (drop_bit 1 (ucast (x + y)))) = a AND b"
    by (rule bit_word_eqI)
      (auto simp: bit_ucast_iff bit_compact_bits sum bits bit_and_iff bit_drop_bit_eq)
  ultimately show ?thesis
    by (simp add: xy unspread_u64_def unspread_bits_Some)
qed

text \<open>Round trip at the full width: spreading a value below \<open>2 ^ 64\<close> and separating the result
  gives the value back in the even half and zero in the odd half.\<close>

theorem unspread_spread_bits:
  assumes "v < 2 ^ 64" "bits \<le> 64"
  shows "Option.bind (spread_bits v bits) (\<lambda>x. unspread_bits x 128) = Some (0, v)"
proof -
  obtain x where x: "spread_bits v bits = Some x"
    using spread_bits_total [OF assms(2)] by auto
  obtain z where z: "spread_bits 0 bits = Some z"
    using spread_bits_total [OF assms(2)] by auto
  have "z = 0"
    by (rule bit_eqI) (simp add: bit_spread_bits [OF _ z])
  then show ?thesis
    using compact_spread_sum [OF assms(1) x _ z] by (simp add: x unspread_bits_Some)
qed

theorem unspread_spread_bits_witness:
  "(0xDEADBEEF :: u128) < 2 ^ 64 \<and> (40 :: nat) \<le> 64 \<and>
   Option.bind (spread_bits 0xDEADBEEF 40) (\<lambda>x. unspread_bits x 128) = Some (0, 0xDEADBEEF)"
  using unspread_spread_bits [of "0xDEADBEEF" 40] by simp

end
