(* ===== verification/R1CS_Artifacts.thy ===== *)
theory R1CS_Artifacts
  imports MavPrelude Complex_Main
begin

text \<open>
  The constraint system and its checkers (\<^verbatim>\<open>mavros-artifacts/src/lib.rs\<close>). The scalar field
  \<^verbatim>\<open>ark_bn254::Fr\<close> is a third-party type: the definitions are polymorphic in a type
  \<open>'f\<close> of class \<open>field\<close>, whose laws are all they use. Indexing a witness out of range panics
  (\<open>None\<close>).
\<close>

subsection \<open>Linear combinations and constraints\<close>

type_synonym 'f lc = "(nat \<times> 'f) list"

record 'f r1c =
  r1c_a :: "'f lc"
  r1c_b :: "'f lc"
  r1c_c :: "'f lc"

subsection \<open>Layouts\<close>

record witness_layout =
  wl_algebraic_size :: nat
  wl_multiplicities_size :: nat
  wl_challenges_size :: nat
  wl_tables_data_size :: nat
  wl_lookups_data_size :: nat

definition algebraic_start :: "witness_layout \<Rightarrow> nat" where
  "algebraic_start l = 0"

definition algebraic_end :: "witness_layout \<Rightarrow> nat" where
  "algebraic_end l = wl_algebraic_size l"

definition multiplicities_start :: "witness_layout \<Rightarrow> nat" where
  "multiplicities_start l = algebraic_end l"

definition multiplicities_end :: "witness_layout \<Rightarrow> nat" where
  "multiplicities_end l = multiplicities_start l + wl_multiplicities_size l"

definition challenges_start :: "witness_layout \<Rightarrow> nat" where
  "challenges_start l = multiplicities_end l"

definition challenges_end :: "witness_layout \<Rightarrow> nat" where
  "challenges_end l = challenges_start l + wl_challenges_size l"

definition next_challenge :: "witness_layout \<Rightarrow> nat \<times> witness_layout" where
  "next_challenge l = (challenges_end l, l\<lparr>wl_challenges_size := wl_challenges_size l + 1\<rparr>)"

definition tables_data_start :: "witness_layout \<Rightarrow> nat" where
  "tables_data_start l = challenges_end l"

definition tables_data_end :: "witness_layout \<Rightarrow> nat" where
  "tables_data_end l = wl_tables_data_size l + tables_data_start l"

definition next_table_data :: "witness_layout \<Rightarrow> nat \<times> witness_layout" where
  "next_table_data l = (tables_data_end l, l\<lparr>wl_tables_data_size := wl_tables_data_size l + 1\<rparr>)"

definition lookups_data_start :: "witness_layout \<Rightarrow> nat" where
  "lookups_data_start l = tables_data_end l"

definition lookups_data_end :: "witness_layout \<Rightarrow> nat" where
  "lookups_data_end l = wl_lookups_data_size l + lookups_data_start l"

definition next_lookups_data :: "witness_layout \<Rightarrow> nat \<times> witness_layout" where
  "next_lookups_data l = (lookups_data_end l, l\<lparr>wl_lookups_data_size := wl_lookups_data_size l + 1\<rparr>)"

definition witness_size :: "witness_layout \<Rightarrow> nat" where
  "witness_size l = wl_algebraic_size l + wl_multiplicities_size l + wl_challenges_size l
     + wl_tables_data_size l + wl_lookups_data_size l"

definition pre_commitment_size :: "witness_layout \<Rightarrow> nat" where
  "pre_commitment_size l = wl_algebraic_size l + wl_multiplicities_size l"

definition post_commitment_size :: "witness_layout \<Rightarrow> nat" where
  "post_commitment_size l = wl_challenges_size l + wl_tables_data_size l + wl_lookups_data_size l"

lemmas layout_defs = algebraic_start_def algebraic_end_def multiplicities_start_def
  multiplicities_end_def challenges_start_def challenges_end_def next_challenge_def
  tables_data_start_def tables_data_end_def next_table_data_def lookups_data_start_def
  lookups_data_end_def next_lookups_data_def witness_size_def pre_commitment_size_def
  post_commitment_size_def

record constraints_layout =
  cl_algebraic_size :: nat
  cl_tables_data_size :: nat
  cl_lookups_data_size :: nat

definition constraints_size :: "constraints_layout \<Rightarrow> nat" where
  "constraints_size l = cl_algebraic_size l + cl_tables_data_size l + cl_lookups_data_size l"

definition cl_tables_data_start :: "constraints_layout \<Rightarrow> nat" where
  "cl_tables_data_start l = cl_algebraic_size l"

definition cl_lookups_data_start :: "constraints_layout \<Rightarrow> nat" where
  "cl_lookups_data_start l = cl_algebraic_size l + cl_tables_data_size l"

record 'f r1cs =
  r_witness_layout :: witness_layout
  r_constraints_layout :: constraints_layout
  r_constraints :: "'f r1c list"

subsection \<open>Checking a witness\<close>

text \<open>The dot product of a linear combination with the witness.\<close>

definition lc_dot :: "'f::field list \<Rightarrow> 'f lc \<Rightarrow> 'f option" where
  "lc_dot witness lc = map_option sum_list
     (opt_map (\<lambda>(i, c). map_option (\<lambda>w. c * w) (nth_opt witness i)) lc)"

fun check_constraints ::
  "'f::field list \<Rightarrow> 'f list \<Rightarrow> 'f list \<Rightarrow> 'f list \<Rightarrow> nat \<Rightarrow> 'f r1c list \<Rightarrow> bool option" where
  "check_constraints witness a b c i [] = Some True"
| "check_constraints witness a b c i (r # rs) = do {
     av \<leftarrow> lc_dot witness (r1c_a r);
     bv \<leftarrow> lc_dot witness (r1c_b r);
     cv \<leftarrow> lc_dot witness (r1c_c r);
     let fail = (av * bv \<noteq> cv);
     ai \<leftarrow> nth_opt a i;
     let fail = (fail \<or> av \<noteq> ai);
     bi \<leftarrow> nth_opt b i;
     let fail = (fail \<or> bv \<noteq> bi);
     ci \<leftarrow> nth_opt c i;
     let fail = (fail \<or> cv \<noteq> ci);
     if fail then Some False else check_constraints witness a b c (i + 1) rs }"

definition check_witgen_output ::
  "'f::field r1cs \<Rightarrow> 'f list \<Rightarrow> 'f list \<Rightarrow> 'f list \<Rightarrow> 'f list \<Rightarrow> 'f list \<Rightarrow> bool option" where
  "check_witgen_output r pre_comm_witness post_comm_witness a b c =
     (let witness = pre_comm_witness @ post_comm_witness in
      if length a \<noteq> constraints_size (r_constraints_layout r) then Some False
      else if length b \<noteq> constraints_size (r_constraints_layout r) then Some False
      else if length c \<noteq> constraints_size (r_constraints_layout r) then Some False
      else check_constraints witness a b c 0 (r_constraints r))"

subsection \<open>Derivatives\<close>

text \<open>\<^verbatim>\<open>res[ix] += coeff * k\<close> for each term of a linear combination.\<close>

definition add_terms :: "'f::field \<Rightarrow> 'f lc \<Rightarrow> 'f list \<Rightarrow> 'f list option" where
  "add_terms k lc res = opt_fold (\<lambda>(ix, cf) res. do {
     v \<leftarrow> nth_opt res ix; upd_opt res ix (v + cf * k) }) lc res"

definition sub_terms :: "'f::field \<Rightarrow> 'f lc \<Rightarrow> 'f list \<Rightarrow> 'f list option" where
  "sub_terms k lc res = opt_fold (\<lambda>(ix, cf) res. do {
     v \<leftarrow> nth_opt res ix; upd_opt res ix (v - cf * k) }) lc res"

definition compute_derivatives ::
  "'f::field r1cs \<Rightarrow> 'f list \<Rightarrow> 'f list \<Rightarrow> 'f list \<Rightarrow> 'f list \<Rightarrow> ('f list \<times> 'f list \<times> 'f list) option" where
  "compute_derivatives r coeffs res_a res_b res_c =
     opt_fold (\<lambda>(r1c, k) (res_a, res_b, res_c). do {
        res_a \<leftarrow> add_terms k (r1c_a r1c) res_a;
        res_b \<leftarrow> add_terms k (r1c_b r1c) res_b;
        res_c \<leftarrow> add_terms k (r1c_c r1c) res_c;
        Some (res_a, res_b, res_c) })
       (zip (r_constraints r) coeffs) (res_a, res_b, res_c)"

text \<open>The count of the entries that are not zero, over the indices of \<open>a\<close>.\<close>

definition count_wrongs :: "'f::field list \<Rightarrow> 'f list \<Rightarrow> 'f list \<Rightarrow> nat option" where
  "count_wrongs a b c = opt_fold (\<lambda>i wrongs. do {
     ai \<leftarrow> nth_opt a i;
     let wrongs = (if ai \<noteq> 0 then wrongs + 1 else wrongs);
     bi \<leftarrow> nth_opt b i;
     let wrongs = (if bi \<noteq> 0 then wrongs + 1 else wrongs);
     ci \<leftarrow> nth_opt c i;
     let wrongs = (if ci \<noteq> 0 then wrongs + 1 else wrongs);
     Some wrongs }) [0..<length a] 0"

definition check_ad_output ::
  "'f::field r1cs \<Rightarrow> 'f list \<Rightarrow> 'f list \<Rightarrow> 'f list \<Rightarrow> 'f list \<Rightarrow> bool option" where
  "check_ad_output r coeffs a b c = do {
     (a, b, c) \<leftarrow> opt_fold (\<lambda>(r1c, k) (a, b, c). do {
        a \<leftarrow> sub_terms k (r1c_a r1c) a;
        b \<leftarrow> sub_terms k (r1c_b r1c) b;
        c \<leftarrow> sub_terms k (r1c_c r1c) c;
        Some (a, b, c) })
       (zip (r_constraints r) coeffs) (a, b, c);
     wrongs \<leftarrow> count_wrongs a b c;
     Some (\<not> wrongs > 0) }"

subsection \<open>ABI-ordered inputs\<close>

datatype 'f input_value =
    IvField 'f
  | IvString string
  | IvVec "'f input_value list"
  | IvStruct "(string \<times> 'f input_value) list"

fun field_sizes :: "'f input_value \<Rightarrow> nat list option" where
  "field_sizes (IvField _) = Some [4]"
| "field_sizes (IvString _) = None"
| "field_sizes (IvVec _) = Some [1]"
| "field_sizes (IvStruct fs) = map_option concat (opt_map (\<lambda>(_, v). field_sizes v) fs)"

subsection \<open>The value of a linear combination\<close>

definition lc_val :: "'f::field list \<Rightarrow> 'f lc \<Rightarrow> 'f" where
  "lc_val w lc = (\<Sum>(i, c)\<leftarrow>lc. c * w ! i)"

definition lc_in :: "nat \<Rightarrow> 'f lc \<Rightarrow> bool" where
  "lc_in n lc \<longleftrightarrow> (\<forall>(i, c) \<in> set lc. i < n)"

lemma lc_val_Nil [simp]: "lc_val w [] = 0"
  by (simp add: lc_val_def)

lemma lc_val_Cons [simp]: "lc_val w ((i, c) # lc) = c * w ! i + lc_val w lc"
  by (simp add: lc_val_def)

lemma lc_val_append [simp]: "lc_val w (l @ m) = lc_val w l + lc_val w m"
  by (simp add: lc_val_def)

lemma lc_in_Nil [simp]: "lc_in n []"
  by (simp add: lc_in_def)

lemma lc_in_Cons [simp]: "lc_in n ((i, c) # lc) \<longleftrightarrow> i < n \<and> lc_in n lc"
  by (simp add: lc_in_def)

lemma lc_in_append [simp]: "lc_in n (l @ m) \<longleftrightarrow> lc_in n l \<and> lc_in n m"
  by (auto simp: lc_in_def)

lemma lc_dot_eq: "lc_dot w lc = (if lc_in (length w) lc then Some (lc_val w lc) else None)"
proof (induction lc)
  case (Cons x lc)
  obtain i c where x: "x = (i, c)" by fastforce
  show ?case
  proof (cases "i < length w \<and> lc_in (length w) lc")
    case True
    then have "\<exists>vs. opt_map (\<lambda>(i, c). map_option ((*) c) (nth_opt w i)) lc = Some vs \<and>
        sum_list vs = lc_val w lc"
      using Cons by (simp add: lc_dot_def)
    then show ?thesis using True by (auto simp: x lc_dot_def nth_opt_in)
  next
    case False
    then show ?thesis using Cons
      by (cases "i < length w") (auto simp: x lc_dot_def nth_opt_def split: if_splits)
  qed
qed (simp add: lc_dot_def)

subsection \<open>What the checker of a witness accepts\<close>

text \<open>Row \<open>k\<close> is satisfied by the witness and the three given vectors hold its three values.\<close>

definition row_ok :: "'f::field list \<Rightarrow> 'f list \<Rightarrow> 'f list \<Rightarrow> 'f list \<Rightarrow> nat \<Rightarrow> 'f r1c \<Rightarrow> bool" where
  "row_ok w a b c k r \<longleftrightarrow>
     lc_in (length w) (r1c_a r) \<and> lc_in (length w) (r1c_b r) \<and> lc_in (length w) (r1c_c r) \<and>
     lc_val w (r1c_a r) * lc_val w (r1c_b r) = lc_val w (r1c_c r) \<and>
     k < length a \<and> a ! k = lc_val w (r1c_a r) \<and> k < length b \<and> b ! k = lc_val w (r1c_b r) \<and>
     k < length c \<and> c ! k = lc_val w (r1c_c r)"

definition r1cs_accepts :: "'f::field r1cs \<Rightarrow> 'f list \<Rightarrow> 'f list \<Rightarrow> 'f list \<Rightarrow> 'f list \<Rightarrow> bool" where
  "r1cs_accepts r w a b c \<longleftrightarrow>
     length a = constraints_size (r_constraints_layout r) \<and>
     length b = constraints_size (r_constraints_layout r) \<and>
     length c = constraints_size (r_constraints_layout r) \<and>
     (\<forall>k < length (r_constraints r). row_ok w a b c k (r_constraints r ! k))"

text \<open>The system is within its layouts: every index is one of a witness of length \<open>n\<close>, and
  there are no more constraints than the layout says.\<close>

definition r1cs_in :: "nat \<Rightarrow> 'f r1cs \<Rightarrow> bool" where
  "r1cs_in n r \<longleftrightarrow> (\<forall>x \<in> set (r_constraints r). lc_in n (r1c_a x) \<and> lc_in n (r1c_b x) \<and> lc_in n (r1c_c x))"

definition r1cs_fits :: "nat \<Rightarrow> 'f r1cs \<Rightarrow> bool" where
  "r1cs_fits n r \<longleftrightarrow> r1cs_in n r \<and>
     length (r_constraints r) \<le> constraints_size (r_constraints_layout r)"

lemma check_constraints_True:
  "check_constraints w a b c i rs = Some True \<longleftrightarrow> (\<forall>k < length rs. row_ok w a b c (i + k) (rs ! k))"
proof (induction rs arbitrary: i)
  case (Cons r rs)
  have "check_constraints w a b c i (r # rs) = Some True \<longleftrightarrow>
      row_ok w a b c i r \<and> check_constraints w a b c (i + 1) rs = Some True"
    by (auto simp: row_ok_def lc_dot_eq bind_Some_iff Let_def nth_opt_def)
  also have "\<dots> \<longleftrightarrow> row_ok w a b c (i + 0) ((r # rs) ! 0) \<and>
      (\<forall>k < length rs. row_ok w a b c (i + Suc k) ((r # rs) ! Suc k))"
    unfolding Cons.IH by simp
  finally show ?case unfolding length_Cons All_less_Suc2 .
qed simp

lemma check_constraints_total:
  "\<forall>r \<in> set rs. lc_in (length w) (r1c_a r) \<and> lc_in (length w) (r1c_b r) \<and> lc_in (length w) (r1c_c r) \<Longrightarrow>
     i + length rs \<le> length a \<Longrightarrow> i + length rs \<le> length b \<Longrightarrow> i + length rs \<le> length c \<Longrightarrow>
     check_constraints w a b c i rs \<noteq> None"
  by (induction rs arbitrary: i) (auto simp: lc_dot_eq nth_opt_in Let_def)

subsection \<open>Derivatives as transposed products\<close>

text \<open>The coefficient of variable \<open>j\<close>, repeated terms added up.\<close>

definition coeff_at :: "'f::field lc \<Rightarrow> nat \<Rightarrow> 'f" where
  "coeff_at lc j = (\<Sum>(i, c)\<leftarrow>lc. if i = j then c else 0)"

lemma coeff_at_Nil [simp]: "coeff_at [] j = 0"
  by (simp add: coeff_at_def)

lemma coeff_at_Cons [simp]: "coeff_at ((i, c) # lc) j = (if i = j then c else 0) + coeff_at lc j"
  by (simp add: coeff_at_def)

lemma lc_val_coeff_at: "lc_in (length w) lc \<Longrightarrow> lc_val w lc = (\<Sum>j < length w. coeff_at lc j * w ! j)"
proof (induction lc)
  case (Cons x lc)
  obtain i c where x: "x = (i, c)" by fastforce
  have "(\<Sum>j < length w. (if i = j then c else 0) * w ! j) = (\<Sum>j < length w. if i = j then c * w ! j else 0)"
    by (rule sum.cong) auto
  also have "\<dots> = c * w ! i" using Cons.prems by (simp add: x)
  finally show ?case using Cons by (simp add: x distrib_right sum.distrib)
qed simp

lemma add_terms_eq:
  "add_terms k lc res = (if lc_in (length res) lc
     then Some (map (\<lambda>j. res ! j + coeff_at lc j * k) [0..<length res]) else None)"
proof (induction lc arbitrary: res)
  case Nil
  show ?case by (simp add: add_terms_def map_nth)
next
  case (Cons x lc)
  obtain i c where x: "x = (i, c)" by fastforce
  have step: "add_terms k (x # lc) res =
      (if i < length res then add_terms k lc (res[i := res ! i + c * k]) else None)"
    by (simp add: add_terms_def x nth_opt_def upd_opt_def)
  show ?case unfolding step Cons.IH
    by (auto simp: x nth_list_update algebra_simps intro!: nth_equalityI)
qed

lemma sub_terms_eq: "sub_terms k lc res = add_terms (- k) lc res"
  by (simp add: sub_terms_def add_terms_def)

text \<open>One side of the constraints, row by row, weighted and added up.\<close>

definition deriv_at :: "('f::field r1c \<times> 'f) list \<Rightarrow> ('f r1c \<Rightarrow> 'f lc) \<Rightarrow> nat \<Rightarrow> 'f" where
  "deriv_at rows side j = (\<Sum>(r, k)\<leftarrow>rows. coeff_at (side r) j * k)"

definition accumulate :: "('f::field r1c \<times> 'f) list \<Rightarrow> ('f r1c \<Rightarrow> 'f lc) \<Rightarrow> 'f list \<Rightarrow> 'f list" where
  "accumulate rows side res = map (\<lambda>j. res ! j + deriv_at rows side j) [0..<length res]"

lemma length_accumulate [simp]: "length (accumulate rows side res) = length res"
  by (simp add: accumulate_def)

lemma accumulate_Nil [simp]: "accumulate [] side res = res"
  by (simp add: accumulate_def deriv_at_def map_nth)

lemma accumulate_Cons:
  "accumulate ((r, k) # rows) side res =
     accumulate rows side (map (\<lambda>j. res ! j + coeff_at (side r) j * k) [0..<length res])"
  by (auto simp: accumulate_def deriv_at_def add.assoc intro!: nth_equalityI)

lemma deriv_at_uminus:
  "deriv_at (map (\<lambda>(r, k). (r, - k)) rows) side j = - deriv_at rows side j"
  by (induction rows) (auto simp: deriv_at_def)

text \<open>The loop over the rows that both computations run, with the sign of the weights as a function.\<close>

definition rows_in :: "nat \<Rightarrow> nat \<Rightarrow> nat \<Rightarrow> ('f r1c \<times> 'f) list \<Rightarrow> bool" where
  "rows_in na nb nc rows \<longleftrightarrow>
     (\<forall>(r, k) \<in> set rows. lc_in na (r1c_a r) \<and> lc_in nb (r1c_b r) \<and> lc_in nc (r1c_c r))"

lemma accumulate_loop:
  "rows_in (length a) (length b) (length c) rows \<Longrightarrow>
   opt_fold (\<lambda>(r, k) (a, b, c). do {
        a \<leftarrow> add_terms (g k) (r1c_a r) a;
        b \<leftarrow> add_terms (g k) (r1c_b r) b;
        c \<leftarrow> add_terms (g k) (r1c_c r) c;
        Some (a, b, c) }) rows (a, b, c) =
   Some (accumulate (map (\<lambda>(r, k). (r, g k)) rows) r1c_a a,
         accumulate (map (\<lambda>(r, k). (r, g k)) rows) r1c_b b,
         accumulate (map (\<lambda>(r, k). (r, g k)) rows) r1c_c c)"
proof (induction rows arbitrary: a b c)
  case (Cons x rows)
  obtain r k where x: "x = (r, k)" by fastforce
  let ?f = "\<lambda>side res. map (\<lambda>j. res ! j + coeff_at (side r) j * g k) [0..<length res]"
  have "rows_in (length (?f r1c_a a)) (length (?f r1c_b b)) (length (?f r1c_c c)) rows"
    and "lc_in (length a) (r1c_a r)" "lc_in (length b) (r1c_b r)" "lc_in (length c) (r1c_c r)"
    using Cons.prems by (auto simp: x rows_in_def)
  then show ?case using Cons.IH by (simp add: x add_terms_eq accumulate_Cons)
qed simp

lemma rows_in_zip: "r1cs_in n r \<Longrightarrow> rows_in n n n (zip (r_constraints r) ks)"
  by (auto simp: r1cs_in_def rows_in_def dest: set_zip_leftD)

lemma compute_derivatives_eq:
  assumes "r1cs_in n r" "length a = n" "length b = n" "length c = n" "rows = zip (r_constraints r) ks"
  shows "compute_derivatives r ks a b c = Some (accumulate rows r1c_a a, accumulate rows r1c_b b, accumulate rows r1c_c c)"
  using accumulate_loop [of a b c rows "\<lambda>k. k"] rows_in_zip [OF assms(1)] assms(2-5)
  by (simp add: compute_derivatives_def case_prod_eta)

lemma count_wrongs_loop:
  "length a \<le> length b \<Longrightarrow> length a \<le> length c \<Longrightarrow> m \<le> length a \<Longrightarrow>
   \<exists>n. opt_fold (\<lambda>i wrongs. do {
     ai \<leftarrow> nth_opt a i;
     let wrongs = (if ai \<noteq> 0 then wrongs + 1 else wrongs);
     bi \<leftarrow> nth_opt b i;
     let wrongs = (if bi \<noteq> 0 then wrongs + 1 else wrongs);
     ci \<leftarrow> nth_opt c i;
     let wrongs = (if ci \<noteq> 0 then wrongs + 1 else wrongs);
     Some wrongs }) [0..<m] (0 :: nat) = Some n \<and>
   (n = 0 \<longleftrightarrow> (\<forall>i < m. a ! i = 0 \<and> b ! i = 0 \<and> c ! i = (0 :: 'f :: field)))"
proof (induction m)
  case (Suc m)
  then obtain n where "opt_fold (\<lambda>i wrongs. do {
     ai \<leftarrow> nth_opt a i;
     let wrongs = (if ai \<noteq> 0 then wrongs + 1 else wrongs);
     bi \<leftarrow> nth_opt b i;
     let wrongs = (if bi \<noteq> 0 then wrongs + 1 else wrongs);
     ci \<leftarrow> nth_opt c i;
     let wrongs = (if ci \<noteq> 0 then wrongs + 1 else wrongs);
     Some wrongs }) [0..<m] (0 :: nat) = Some n"
    "n = 0 \<longleftrightarrow> (\<forall>i < m. a ! i = 0 \<and> b ! i = 0 \<and> c ! i = (0 :: 'f))" by auto
  then show ?case using Suc.prems
    by (auto simp: opt_fold_append nth_opt_in Let_def less_Suc_eq)
qed simp

lemma all_zero_iff: "length a = n \<Longrightarrow> a = replicate n z \<longleftrightarrow> (\<forall>i < n. a ! i = z)"
  by (metis length_replicate nth_equalityI nth_replicate)

lemma count_wrongs_zero:
  assumes "length b = length a" "length c = length a"
  shows "\<exists>n. count_wrongs a b c = Some n \<and>
    (n = 0 \<longleftrightarrow> a = replicate (length a) 0 \<and> b = replicate (length a) 0 \<and> c = replicate (length a) 0)"
proof -
  have "a = replicate (length a) 0 \<and> b = replicate (length a) 0 \<and> c = replicate (length a) 0 \<longleftrightarrow>
      (\<forall>i < length a. a ! i = 0 \<and> b ! i = 0 \<and> c ! i = 0)"
    using all_zero_iff [of a "length a" 0] all_zero_iff [of b "length a" 0] all_zero_iff [of c "length a" 0]
      assms by blast
  then show ?thesis
    using count_wrongs_loop [of a b c "length a"] assms by (simp add: count_wrongs_def)
qed

lemma accumulate_zeros: "accumulate rows side (replicate n 0) = map (deriv_at rows side) [0..<n]"
  by (simp add: accumulate_def)

lemma accumulate_uminus_zero:
  "accumulate (map (\<lambda>(r, k). (r, - k)) rows) side a = replicate (length a) 0 \<longleftrightarrow>
     accumulate rows side (replicate (length a) 0) = a"
proof -
  have "accumulate (map (\<lambda>(r, k). (r, - k)) rows) side a = replicate (length a) 0 \<longleftrightarrow>
      (\<forall>i < length a. a ! i = deriv_at rows side i)"
    by (subst all_zero_iff) (simp_all add: accumulate_def deriv_at_uminus)
  also have "\<dots> \<longleftrightarrow> map (deriv_at rows side) [0..<length a] = a"
    by (subst list_eq_iff_nth_eq) auto
  finally show ?thesis by (simp add: accumulate_zeros)
qed

subsection \<open>Properties of the constraint system\<close>

text \<open>C27. The checker of a witness accepts exactly when the three vectors have the length the layout
  says and, for every constraint, all indices are in range, the witness satisfies the constraint and the
  vectors hold the values of its three sides.\<close>

theorem check_witgen_output_accepts:
  "check_witgen_output r pre_w post_w a b c = Some True \<longleftrightarrow> r1cs_accepts r (pre_w @ post_w) a b c"
  by (auto simp: check_witgen_output_def r1cs_accepts_def Let_def check_constraints_True)

lemma check_not_None:
  "r1cs_fits (length pre_w + length post_w) r \<Longrightarrow> check_witgen_output r pre_w post_w a b c \<noteq> None"
  using check_constraints_total [of "r_constraints r" "pre_w @ post_w" 0 a b c]
  by (auto simp: check_witgen_output_def Let_def r1cs_fits_def r1cs_in_def)

text \<open>On a system within its layouts the checker never panics: whatever the vectors, it returns
  the verdict.\<close>

theorem check_witgen_output_total:
  assumes "r1cs_fits (length pre_w + length post_w) r"
  shows "check_witgen_output r pre_w post_w a b c = Some (r1cs_accepts r (pre_w @ post_w) a b c)"
proof -
  have "check_witgen_output r pre_w post_w a b c \<noteq> None"
    using assms by (rule check_not_None)
  moreover have "check_witgen_output r pre_w post_w a b c = Some True \<longleftrightarrow> r1cs_accepts r (pre_w @ post_w) a b c"
    by (auto simp: check_witgen_output_def r1cs_accepts_def Let_def check_constraints_True)
  ultimately show ?thesis by (cases "check_witgen_output r pre_w post_w a b c") auto
qed

text \<open>The multiplication of variables 1 and 2 into variable 3, with the constant one as variable 0.\<close>

definition sample_r1cs :: "rat r1cs" where
  "sample_r1cs = \<lparr>r_witness_layout = \<lparr>wl_algebraic_size = 4, wl_multiplicities_size = 0,
       wl_challenges_size = 0, wl_tables_data_size = 0, wl_lookups_data_size = 0\<rparr>,
     r_constraints_layout = \<lparr>cl_algebraic_size = 1, cl_tables_data_size = 0, cl_lookups_data_size = 0\<rparr>,
     r_constraints = [\<lparr>r1c_a = [(1, 1)], r1c_b = [(2, 1), (0, 2)], r1c_c = [(3, 1)]\<rparr>]\<rparr>"

theorem check_witgen_output_total_witness:
  "check_witgen_output sample_r1cs [1, 5, 4, 30] [] [5] [6] [30] = Some True \<and>
   check_witgen_output sample_r1cs [1, 5, 4, 20] [] [5] [6] [20] = Some False"
proof -
  have "r1cs_fits (length [1, 5, 4, 30 :: rat] + length ([] :: rat list)) sample_r1cs"
    by (simp add: r1cs_fits_def r1cs_in_def sample_r1cs_def constraints_size_def)
  from check_witgen_output_total [OF this, of "[5]" "[6]" "[30]"]
    check_witgen_output_total [of "[1, 5, 4, 20]" "[]" sample_r1cs "[5]" "[6]" "[20]"] this
  show ?thesis
    by (simp add: r1cs_accepts_def row_ok_def sample_r1cs_def constraints_size_def)
qed

text \<open>The derivative computation never panics on buffers as long as the witness, and adds to
  entry \<open>j\<close> of each buffer the transposed product: the sum over the constraints of the coefficient of
  variable \<open>j\<close> times the weight of the constraint. Weights beyond the constraints are ignored, and
  constraints beyond the weights have weight zero.\<close>

theorem compute_derivatives_transposed:
  assumes "r1cs_in n r" "length a = n" "length b = n" "length c = n"
  shows "\<exists>da db dc. compute_derivatives r ks a b c = Some (da, db, dc) \<and>
    length da = n \<and> length db = n \<and> length dc = n \<and>
    (\<forall>j < n. da ! j = a ! j + (\<Sum>(x, k)\<leftarrow>zip (r_constraints r) ks. coeff_at (r1c_a x) j * k) \<and>
             db ! j = b ! j + (\<Sum>(x, k)\<leftarrow>zip (r_constraints r) ks. coeff_at (r1c_b x) j * k) \<and>
             dc ! j = c ! j + (\<Sum>(x, k)\<leftarrow>zip (r_constraints r) ks. coeff_at (r1c_c x) j * k))"
  using compute_derivatives_eq [OF assms refl, of ks] assms(2-4)
  by (simp add: accumulate_def deriv_at_def)

theorem compute_derivatives_transposed_witness:
  "\<exists>da db dc. compute_derivatives sample_r1cs [7] [0, 0, 0, 0] [1, 0, 0, 0] [0, 0, 0, 0] = Some (da, db, dc) \<and>
     da ! 1 = 7 \<and> db ! 0 = 15"
proof -
  have "r1cs_in 4 sample_r1cs" by (simp add: r1cs_in_def sample_r1cs_def)
  from compute_derivatives_transposed [OF this, of "[0, 0, 0, 0]" "[1, 0, 0, 0]" "[0, 0, 0, 0]" "[7]"]
  obtain da db dc where d: "compute_derivatives sample_r1cs [7] [0, 0, 0, 0] [1, 0, 0, 0] [0, 0, 0, 0] = Some (da, db, dc)"
    and e: "\<forall>j < 4. da ! j = [0, 0, 0, 0] ! j + (\<Sum>(x, k)\<leftarrow>zip (r_constraints sample_r1cs) [7]. coeff_at (r1c_a x) j * k) \<and>
             db ! j = [1, 0, 0, 0] ! j + (\<Sum>(x, k)\<leftarrow>zip (r_constraints sample_r1cs) [7]. coeff_at (r1c_b x) j * k)"
    by auto
  from e have "da ! 1 = 7" "db ! 0 = 15" by (simp_all add: sample_r1cs_def)
  with d show ?thesis by blast
qed

lemma sum_list_swap_rows:
  "(\<Sum>j < n. (\<Sum>(x, k)\<leftarrow>rows. coeff_at (side x) j * k) * w j) =
     (\<Sum>(x, k)\<leftarrow>rows. k * (\<Sum>j < n. coeff_at (side x) j * w j))"
  by (induction rows)
    (auto simp: algebra_simps sum.distrib sum_distrib_left)

lemma gradient_side:
  assumes "\<forall>x \<in> set (r_constraints r). lc_in (length w) (side x)"
  shows "(\<Sum>j < length w. deriv_at (zip (r_constraints r) ks) side j * w ! j) =
    (\<Sum>(x, k)\<leftarrow>zip (r_constraints r) ks. k * lc_val w (side x))"
proof -
  have "(\<Sum>(x, k)\<leftarrow>zip (r_constraints r) ks. k * lc_val w (side x)) =
      (\<Sum>(x, k)\<leftarrow>zip (r_constraints r) ks. k * (\<Sum>j < length w. coeff_at (side x) j * w ! j))"
    using assms by (intro arg_cong [where f = sum_list] map_cong)
      (auto simp: lc_val_coeff_at dest!: set_zip_leftD)
  then show ?thesis by (simp add: deriv_at_def sum_list_swap_rows)
qed

text \<open>C31. The derivatives are the gradient: on any witness, the derivatives computed from zero buffers,
  multiplied with the witness, give the weighted sum of the constraint sides evaluated on it.\<close>

theorem derivatives_are_gradient:
  assumes "r1cs_in (length w) r"
  shows "\<exists>da db dc. compute_derivatives r ks (replicate (length w) 0) (replicate (length w) 0)
       (replicate (length w) 0) = Some (da, db, dc) \<and>
     (\<Sum>j < length w. da ! j * w ! j) = (\<Sum>(x, k)\<leftarrow>zip (r_constraints r) ks. k * lc_val w (r1c_a x)) \<and>
     (\<Sum>j < length w. db ! j * w ! j) = (\<Sum>(x, k)\<leftarrow>zip (r_constraints r) ks. k * lc_val w (r1c_b x)) \<and>
     (\<Sum>j < length w. dc ! j * w ! j) = (\<Sum>(x, k)\<leftarrow>zip (r_constraints r) ks. k * lc_val w (r1c_c x))"
  using compute_derivatives_eq [OF assms _ _ _ refl, of "replicate (length w) 0"
      "replicate (length w) 0" "replicate (length w) 0" ks] assms
  by (simp add: accumulate_zeros gradient_side r1cs_in_def)

theorem derivatives_are_gradient_witness:
  "\<exists>da db dc. compute_derivatives sample_r1cs [7] [0, 0, 0, 0] [0, 0, 0, 0] [0, 0, 0, 0] = Some (da, db, dc) \<and>
     (\<Sum>j < 4. db ! j * [1, 5, 4, 30] ! j) = 42"
proof -
  have "r1cs_in (length [1, 5, 4, 30 :: rat]) sample_r1cs" by (simp add: r1cs_in_def sample_r1cs_def)
  from derivatives_are_gradient [OF this, of "[7]"] show ?thesis
    by (auto simp: sample_r1cs_def numeral_eq_Suc)
qed

text \<open>C32. Vectors of derivatives are accepted exactly when they are the derivatives: the check of the
  output of automatic differentiation returns, and says yes, if and only if the direct computation from
  zero buffers gives the same three vectors.\<close>

theorem check_ad_output_exact:
  assumes "r1cs_in n r" "length a = n" "length b = n" "length c = n"
  shows "check_ad_output r ks a b c = Some (compute_derivatives r ks (replicate n 0) (replicate n 0)
     (replicate n 0) = Some (a, b, c))"
proof -
  let ?rows = "zip (r_constraints r) ks"
  let ?neg = "map (\<lambda>(r, k). (r, - k)) ?rows"
  let ?a = "accumulate ?neg r1c_a a" and ?b = "accumulate ?neg r1c_b b" and ?c = "accumulate ?neg r1c_c c"
  obtain m where m: "count_wrongs ?a ?b ?c = Some m"
    "m = 0 \<longleftrightarrow> ?a = replicate (length a) 0 \<and> ?b = replicate (length b) 0 \<and> ?c = replicate (length c) 0"
    using count_wrongs_zero [of ?b ?a ?c] assms(2-4) by auto
  have "check_ad_output r ks a b c = Some (m = 0)"
    using accumulate_loop [of a b c ?rows uminus] rows_in_zip [OF assms(1), of ks] assms(2-4) m(1)
    by (simp add: check_ad_output_def sub_terms_eq case_prod_eta)
  moreover have "compute_derivatives r ks (replicate n 0) (replicate n 0) (replicate n 0) =
      Some (accumulate ?rows r1c_a (replicate n 0), accumulate ?rows r1c_b (replicate n 0),
            accumulate ?rows r1c_c (replicate n 0))"
    by (rule compute_derivatives_eq [OF assms(1)]) simp_all
  moreover have "m = 0 \<longleftrightarrow> accumulate ?rows r1c_a (replicate n 0) = a \<and>
      accumulate ?rows r1c_b (replicate n 0) = b \<and> accumulate ?rows r1c_c (replicate n 0) = c"
    using m(2) accumulate_uminus_zero [of ?rows r1c_a a] accumulate_uminus_zero [of ?rows r1c_b b]
      accumulate_uminus_zero [of ?rows r1c_c c] assms(2-4) by simp
  ultimately show ?thesis by simp
qed

theorem check_ad_output_exact_witness:
  "check_ad_output sample_r1cs [7] [0, 7, 0, 0] [14, 0, 7, 0] [0, 0, 0, 7] = Some True"
proof -
  have "r1cs_in 4 sample_r1cs" by (simp add: r1cs_in_def sample_r1cs_def)
  from check_ad_output_exact [OF this, of "[0, 7, 0, 0]" "[14, 0, 7, 0]" "[0, 0, 0, 7]" "[7]"]
  show ?thesis
    by (simp add: compute_derivatives_def add_terms_def sample_r1cs_def numeral_eq_Suc nth_opt_def upd_opt_def)
qed

text \<open>The sections of the witness follow one another without gap or overlap, the committed part is
  the first two, and an allocated index is the last one of its section, which grows by one while the
  sections before it stay.\<close>

theorem layout_sections:
  "algebraic_start l = 0 \<and> algebraic_end l = multiplicities_start l \<and>
   multiplicities_end l = challenges_start l \<and> challenges_end l = tables_data_start l \<and>
   tables_data_end l = lookups_data_start l \<and> lookups_data_end l = witness_size l \<and>
   pre_commitment_size l = multiplicities_end l \<and>
   pre_commitment_size l + post_commitment_size l = witness_size l \<and>
   (let (i, l') = next_challenge l in
      challenges_start l' = challenges_start l \<and> i = challenges_end l \<and> challenges_end l' = i + 1) \<and>
   (let (i, l') = next_table_data l in
      tables_data_start l' = tables_data_start l \<and> i = tables_data_end l \<and> tables_data_end l' = i + 1) \<and>
   (let (i, l') = next_lookups_data l in
      lookups_data_start l' = lookups_data_start l \<and> i = lookups_data_end l \<and> lookups_data_end l' = i + 1)"
  by (simp add: layout_defs)

end
