(* ===== verification/R1CS_Seal.thy ===== *)
theory R1CS_Seal
  imports R1CS_Artifacts Bits
begin

text \<open>
  The generator's state and its sealing into a constraint system
  (\<^verbatim>\<open>compiler/src/compiler/codegen/hlssa_to_r1cs.rs\<close>: \<^verbatim>\<open>Table\<close>, \<^verbatim>\<open>LookupConstraint\<close>,
  \<^verbatim>\<open>R1CGen\<close>, \<^verbatim>\<open>verify\<close>, \<^verbatim>\<open>seal\<close>). Sealing lays out the witness and adds, for every table and
  every lookup, the constraints of a LogUp argument. The main result is that the sealed system is
  satisfiable above a given prefix of the witness exactly when the algebraic constraints hold and the
  two sums of the argument agree for every table.
\<close>

subsection \<open>The generator's state\<close>

record 'f lookup_constraint =
  lk_table_id :: nat
  lk_elements :: "'f lc list"
  lk_flag :: "'f lc"

datatype 'f table = TabRange nat | TabOfElems "'f lc list" | TabSpread nat

record 'f r1c_gen =
  g_constraints :: "'f r1c list"
  g_tables :: "'f table list"
  g_lookups :: "'f lookup_constraint list"
  g_next_witness :: nat

definition r1c_gen_new :: "'f r1c_gen" where
  "r1c_gen_new = \<lparr>g_constraints = [], g_tables = [], g_lookups = [], g_next_witness = 0\<rparr>"

definition next_witness :: "'f r1c_gen \<Rightarrow> nat \<times> 'f r1c_gen" where
  "next_witness g = (g_next_witness g, g\<lparr>g_next_witness := g_next_witness g + 1\<rparr>)"

definition get_witness_size :: "'f r1c_gen \<Rightarrow> nat" where
  "get_witness_size g = g_next_witness g"

definition get_r1cs :: "'f r1c_gen \<Rightarrow> 'f r1c list" where
  "get_r1cs g = g_constraints g"

text \<open>\<^verbatim>\<open>verify\<close> stops at the first constraint that fails.\<close>

fun verify_constraints :: "'f::field list \<Rightarrow> 'f r1c list \<Rightarrow> bool option" where
  "verify_constraints witness [] = Some True"
| "verify_constraints witness (r # rs) = do {
     a \<leftarrow> lc_dot witness (r1c_a r);
     b \<leftarrow> lc_dot witness (r1c_b r);
     c \<leftarrow> lc_dot witness (r1c_c r);
     if a * b \<noteq> c then Some False else verify_constraints witness rs }"

definition verify :: "'f::field r1c_gen \<Rightarrow> 'f list \<Rightarrow> bool option" where
  "verify g witness = verify_constraints witness (g_constraints g)"

subsection \<open>Sealing\<close>

text \<open>First pass: where the multiplicities of each table start, and the width of the widest table.\<close>

record 'f table_info =
  ti_multiplicities_witness_off :: nat
  ti_table :: "'f table"
  ti_sum_constraint_idx :: nat

definition init_table ::
  "'f table \<Rightarrow> 'f table_info list \<times> nat \<times> witness_layout \<Rightarrow> 'f table_info list \<times> nat \<times> witness_layout" where
  "init_table table = (\<lambda>(infos, max_width, wl).
     (let info = \<lparr>ti_multiplicities_witness_off = wl_multiplicities_size wl + wl_algebraic_size wl,
                  ti_table = table, ti_sum_constraint_idx = 0\<rparr> in
      case table of
        TabRange bits \<Rightarrow> (infos @ [info], max max_width 1,
          wl\<lparr>wl_multiplicities_size := wl_multiplicities_size wl + 2 ^ bits\<rparr>)
      | TabOfElems els \<Rightarrow> (infos @ [info], max max_width 2,
          wl\<lparr>wl_multiplicities_size := wl_multiplicities_size wl + length els\<rparr>)
      | TabSpread bits \<Rightarrow> (infos @ [info], max max_width 2,
          wl\<lparr>wl_multiplicities_size := wl_multiplicities_size wl + 2 ^ bits\<rparr>)))"

text \<open>Second pass: the rows of one entry of a table. The state is the layout, the constraints so far
  and the terms of the sum.\<close>

definition range_entry ::
  "nat \<Rightarrow> nat \<Rightarrow> nat \<Rightarrow> witness_layout \<times> 'f::field r1c list \<times> 'f lc \<Rightarrow> witness_layout \<times> 'f r1c list \<times> 'f lc" where
  "range_entry alpha off i = (\<lambda>(wl, result, sum_lhs).
     let (y, wl) = next_table_data wl; m = off + i in
     (wl, result @ [\<lparr>r1c_a = [(y, 1)], r1c_b = [(alpha, 1), (0, - of_nat i)], r1c_c = [(m, 1)]\<rparr>],
      sum_lhs @ [(y, 1)]))"

definition pair_entry ::
  "nat \<Rightarrow> nat \<Rightarrow> nat \<Rightarrow> nat \<times> 'f lc \<Rightarrow> witness_layout \<times> 'f::field r1c list \<times> 'f lc
     \<Rightarrow> witness_layout \<times> 'f r1c list \<times> 'f lc" where
  "pair_entry alpha beta off = (\<lambda>(i, v) (wl, result, sum_lhs).
     let (x, wl) = next_table_data wl; (y, wl) = next_table_data wl; m = off + i in
     (wl, result @ [\<lparr>r1c_a = [(beta, 1)], r1c_b = v, r1c_c = [(x, - 1)]\<rparr>]
                 @ [\<lparr>r1c_a = [(y, 1)], r1c_b = [(alpha, 1), (0, - of_nat i), (x, - 1)], r1c_c = [(m, 1)]\<rparr>],
      sum_lhs @ [(y, 1)]))"

definition spread_entry ::
  "nat \<Rightarrow> nat \<Rightarrow> nat \<Rightarrow> nat \<Rightarrow> witness_layout \<times> 'f::field r1c list \<times> 'f lc
     \<Rightarrow> (witness_layout \<times> 'f r1c list \<times> 'f lc) option" where
  "spread_entry alpha beta off i st = do {
     spread_val \<leftarrow> spread_bits (of_nat i) 32;
     Some (pair_entry alpha beta off (i, [(0, of_nat (unat spread_val))]) st) }"

definition table_contents ::
  "nat \<Rightarrow> nat \<Rightarrow> 'f::field table_info \<Rightarrow> witness_layout \<times> 'f r1c list \<Rightarrow> (witness_layout \<times> 'f r1c list \<times> 'f lc) option" where
  "table_contents alpha beta info = (\<lambda>(wl, result).
     let off = ti_multiplicities_witness_off info in
     case ti_table info of
       TabRange bits \<Rightarrow> Some (fold (range_entry alpha off) [0..<2 ^ bits] (wl, result, []))
     | TabOfElems els \<Rightarrow> Some (fold (pair_entry alpha beta off) (enumerate 0 els) (wl, result, []))
     | TabSpread bits \<Rightarrow> opt_fold (spread_entry alpha beta off) [0..<2 ^ bits] (wl, result, []))"

text \<open>After its entries each table gets its sum constraint, whose right side the lookups will fill.\<close>

fun seal_tables ::
  "nat \<Rightarrow> nat \<Rightarrow> 'f::field table_info list \<Rightarrow> witness_layout \<times> 'f r1c list
     \<Rightarrow> (witness_layout \<times> 'f r1c list \<times> 'f table_info list) option" where
  "seal_tables alpha beta [] (wl, result) = Some (wl, result, [])"
| "seal_tables alpha beta (info # infos) (wl, result) = do {
     (wl, result, sum_lhs) \<leftarrow> table_contents alpha beta info (wl, result);
     let result = result @ [\<lparr>r1c_a = sum_lhs, r1c_b = [(0, 1)], r1c_c = []\<rparr>];
     let info = info\<lparr>ti_sum_constraint_idx := length result - 1\<rparr>;
     (wl, result, infos) \<leftarrow> seal_tables alpha beta infos (wl, result);
     Some (wl, result, info # infos) }"

text \<open>Third pass: the rows of one lookup, and its term in the sum constraint of its table.\<close>

definition neg_lc :: "'f::field lc \<Rightarrow> 'f lc" where
  "neg_lc lc = map (\<lambda>(w, coeff). (w, - coeff)) lc"

definition seal_lookup ::
  "nat \<Rightarrow> nat \<Rightarrow> 'f::field table_info list \<Rightarrow> 'f lookup_constraint \<Rightarrow> witness_layout \<times> 'f r1c list
     \<Rightarrow> (witness_layout \<times> 'f r1c list) option" where
  "seal_lookup alpha beta infos l = (\<lambda>(wl, result). do {
     (y_wit, wl, result) \<leftarrow>
       (case lk_elements l of
          [e0] \<Rightarrow>
            (let (y, wl) = next_lookups_data wl;
                 b = (alpha, 1) # neg_lc e0 in
             Some (y, wl, result @ [\<lparr>r1c_a = [(y, 1)], r1c_b = b, r1c_c = lk_flag l\<rparr>]))
        | [e0, e1] \<Rightarrow>
            (let (x, wl) = next_lookups_data wl; (y, wl) = next_lookups_data wl;
                 result = result @ [\<lparr>r1c_a = [(beta, 1)], r1c_b = e1, r1c_c = [(x, - 1)]\<rparr>];
                 b = (alpha, 1) # (x, - 1) # neg_lc e0 in
             Some (y, wl, result @ [\<lparr>r1c_a = [(y, 1)], r1c_b = b, r1c_c = lk_flag l\<rparr>]))
        | _ \<Rightarrow> None);
     info \<leftarrow> nth_opt infos (lk_table_id l);
     row \<leftarrow> nth_opt result (ti_sum_constraint_idx info);
     result \<leftarrow> upd_opt result (ti_sum_constraint_idx info) (row\<lparr>r1c_c := r1c_c row @ [(y_wit, 1)]\<rparr>);
     Some (wl, result) })"

definition seal :: "'f::field r1c_gen \<Rightarrow> 'f r1cs option" where
  "seal g = (
     let witness_layout = \<lparr>wl_algebraic_size = g_next_witness g, wl_multiplicities_size = 0,
           wl_challenges_size = 0, wl_tables_data_size = 0, wl_lookups_data_size = 0\<rparr>;
         constraints_layout = \<lparr>cl_algebraic_size = length (g_constraints g), cl_tables_data_size = 0,
           cl_lookups_data_size = 0\<rparr>;
         result = g_constraints g;
         (table_infos, max_width, witness_layout) = fold init_table (g_tables g) ([], 0, witness_layout)
     in if table_infos = []
        then Some \<lparr>r_witness_layout = witness_layout, r_constraints_layout = constraints_layout,
                   r_constraints = result\<rparr>
        else (
          let alpha = challenges_end witness_layout;
              witness_layout = witness_layout\<lparr>wl_challenges_size := wl_challenges_size witness_layout + 1\<rparr>;
              (beta, witness_layout) =
                (if max_width > 1
                 then (challenges_end witness_layout,
                       witness_layout\<lparr>wl_challenges_size := wl_challenges_size witness_layout + 1\<rparr>)
                 else (2 ^ 64 - 1, witness_layout))
          in do {
            (witness_layout, result, table_infos) \<leftarrow> seal_tables alpha beta table_infos (witness_layout, result);
            let constraints_layout = constraints_layout\<lparr>cl_tables_data_size :=
                  length result - cl_algebraic_size constraints_layout\<rparr>;
            (witness_layout, result) \<leftarrow>
              opt_fold (seal_lookup alpha beta table_infos) (g_lookups g) (witness_layout, result);
            let constraints_layout = constraints_layout\<lparr>cl_lookups_data_size :=
                  length result - cl_algebraic_size constraints_layout - cl_tables_data_size constraints_layout\<rparr>;
            Some \<lparr>r_witness_layout = witness_layout, r_constraints_layout = constraints_layout,
                  r_constraints = result\<rparr> }))"

end
