(* ===== verification/LogUp.thy ===== *)
theory LogUp
  imports R1CS_Seal
begin

text \<open>
  What sealing produces and why it is right: the sealed constraints in closed form, and the theorem
  that they are satisfiable above a prefix of the witness (algebraic part, multiplicities, challenges)
  exactly when the algebraic constraints hold and the LogUp sums of every table agree, which they do
  when every lookup finds a row of its table and the multiplicities count the lookups.
\<close>

subsection \<open>Satisfaction\<close>

definition sat :: "'f::field list \<Rightarrow> 'f r1c list \<Rightarrow> bool" where
  "sat w rows \<longleftrightarrow> (\<forall>r \<in> set rows. lc_val w (r1c_a r) * lc_val w (r1c_b r) = lc_val w (r1c_c r))"

lemma sat_Nil [simp]: "sat w []"
  by (simp add: sat_def)

lemma sat_Cons [simp]: "sat w (r # rs) \<longleftrightarrow>
    lc_val w (r1c_a r) * lc_val w (r1c_b r) = lc_val w (r1c_c r) \<and> sat w rs"
  by (simp add: sat_def)

lemma sat_append [simp]: "sat w (rs @ ss) \<longleftrightarrow> sat w rs \<and> sat w ss"
  by (auto simp: sat_def)

lemma lc_val_prefix: "lc_in (length u) lc \<Longrightarrow> lc_val (u @ t) lc = lc_val u lc"
  by (induction lc) (auto simp: nth_append)

definition row_in :: "nat \<Rightarrow> 'f r1c \<Rightarrow> bool" where
  "row_in n r \<longleftrightarrow> lc_in n (r1c_a r) \<and> lc_in n (r1c_b r) \<and> lc_in n (r1c_c r)"

lemma sat_prefix: "\<forall>r \<in> set rows. row_in (length u) r \<Longrightarrow> sat (u @ t) rows \<longleftrightarrow> sat u rows"
  by (auto simp: sat_def row_in_def lc_val_prefix)

lemma lc_in_mono: "lc_in n lc \<Longrightarrow> n \<le> m \<Longrightarrow> lc_in m lc"
  by (auto simp: lc_in_def)

lemma lc_val_neg_lc [simp]: "lc_val w (neg_lc lc) = - lc_val w lc"
  by (induction lc) (auto simp: neg_lc_def)

lemma lc_in_neg_lc [simp]: "lc_in n (neg_lc lc) \<longleftrightarrow> lc_in n lc"
  by (auto simp: lc_in_def neg_lc_def)

definition ones :: "nat list \<Rightarrow> 'f::field lc" where
  "ones ys = map (\<lambda>y. (y, 1)) ys"

lemma ones_append [simp]: "ones (xs @ ys) = ones xs @ ones ys"
  by (simp add: ones_def)

lemma ones_Nil [simp]: "ones [] = []" by (simp add: ones_def)

lemma ones_Cons [simp]: "ones (y # ys) = (y, 1) # ones ys" by (simp add: ones_def)

lemma lc_val_ones: "lc_val w (ones ys) = (\<Sum>y\<leftarrow>ys. w ! y)"
  by (induction ys) auto

subsection \<open>Items\<close>

text \<open>An entry of a table and a lookup add the same kind of rows, an item: with a value, \<open>x\<close> is fixed by
  \<open>\<beta> v = - x\<close>; then \<open>y\<close> is fixed by \<open>y (\<alpha> + pre - x + post) = num\<close>.\<close>

record 'f item =
  it_pre :: "'f lc"
  it_post :: "'f lc"
  it_val :: "'f lc option"
  it_num :: "'f lc"

definition item_width :: "'f item \<Rightarrow> nat" where
  "item_width it = (case it_val it of None \<Rightarrow> 1 | Some _ \<Rightarrow> 2)"

definition item_y :: "nat \<Rightarrow> 'f item \<Rightarrow> nat" where
  "item_y d it = (case it_val it of None \<Rightarrow> d | Some _ \<Rightarrow> d + 1)"

definition item_rows :: "nat \<Rightarrow> nat \<Rightarrow> nat \<Rightarrow> 'f::field item \<Rightarrow> 'f r1c list" where
  "item_rows alpha beta d it = (case it_val it of
     None \<Rightarrow> [\<lparr>r1c_a = [(d, 1)], r1c_b = (alpha, 1) # it_pre it @ it_post it, r1c_c = it_num it\<rparr>]
   | Some v \<Rightarrow> [\<lparr>r1c_a = [(beta, 1)], r1c_b = v, r1c_c = [(d, - 1)]\<rparr>,
       \<lparr>r1c_a = [(d + 1, 1)], r1c_b = (alpha, 1) # it_pre it @ (d, - 1) # it_post it, r1c_c = it_num it\<rparr>])"

fun items_rows :: "nat \<Rightarrow> nat \<Rightarrow> nat \<Rightarrow> 'f::field item list \<Rightarrow> 'f r1c list" where
  "items_rows alpha beta d [] = []"
| "items_rows alpha beta d (it # its) =
     item_rows alpha beta d it @ items_rows alpha beta (d + item_width it) its"

fun items_ys :: "nat \<Rightarrow> 'f item list \<Rightarrow> nat list" where
  "items_ys d [] = []"
| "items_ys d (it # its) = item_y d it # items_ys (d + item_width it) its"

definition items_width :: "'f item list \<Rightarrow> nat" where
  "items_width its = (\<Sum>it\<leftarrow>its. item_width it)"

lemma items_width_simps [simp]:
  "items_width [] = 0" "items_width (it # its) = item_width it + items_width its"
  "items_width (its @ its') = items_width its + items_width its'"
  by (simp_all add: items_width_def)

lemma length_item_rows [simp]: "length (item_rows alpha beta d it) = item_width it"
  by (simp add: item_rows_def item_width_def split: option.split)

lemma length_items_rows [simp]: "length (items_rows alpha beta d its) = items_width its"
  by (induction its arbitrary: d) auto

lemma items_rows_append: "items_rows alpha beta d (its @ its') =
    items_rows alpha beta d its @ items_rows alpha beta (d + items_width its) its'"
  by (induction its arbitrary: d) (auto simp: add.assoc)

lemma items_ys_append: "items_ys d (its @ its') = items_ys d its @ items_ys (d + items_width its) its'"
  by (induction its arbitrary: d) (auto simp: add.assoc)

definition item_den :: "'f::field list \<Rightarrow> nat \<Rightarrow> nat \<Rightarrow> 'f item \<Rightarrow> 'f" where
  "item_den w alpha beta it = w ! alpha + lc_val w (it_pre it) + lc_val w (it_post it) +
     (case it_val it of None \<Rightarrow> 0 | Some v \<Rightarrow> w ! beta * lc_val w v)"

text \<open>A witness that satisfies the rows holds the quotient in \<open>y\<close>.\<close>

lemma item_sound:
  assumes "sat w (item_rows alpha beta d it)" "item_den w alpha beta it \<noteq> 0"
  shows "w ! item_y d it = lc_val w (it_num it) / item_den w alpha beta it"
proof (cases "it_val it")
  case None
  then show ?thesis using assms
    by (simp add: item_rows_def item_den_def item_y_def eq_divide_eq add.assoc)
next
  case (Some v)
  then have x: "w ! d = - (w ! beta * lc_val w v)" using assms(1) by (simp add: item_rows_def)
  show ?thesis using assms Some
    by (simp add: item_rows_def item_den_def item_y_def eq_divide_eq x algebra_simps)
qed

lemma items_sound:
  "sat w (items_rows alpha beta d its) \<Longrightarrow> \<forall>it \<in> set its. item_den w alpha beta it \<noteq> 0 \<Longrightarrow>
     lc_val w (ones (items_ys d its)) = (\<Sum>it\<leftarrow>its. lc_val w (it_num it) / item_den w alpha beta it)"
  by (induction its arbitrary: d) (auto simp: item_sound)

text \<open>A prefix can be extended to satisfy the rows.\<close>

definition item_in :: "nat \<Rightarrow> 'f item \<Rightarrow> bool" where
  "item_in n it \<longleftrightarrow> lc_in n (it_pre it) \<and> lc_in n (it_post it) \<and> lc_in n (it_num it) \<and>
     (case it_val it of None \<Rightarrow> True | Some v \<Rightarrow> lc_in n v)"

lemma item_den_prefix:
  assumes "item_in (length u) it" "alpha < length u" "it_val it \<noteq> None \<Longrightarrow> beta < length u"
  shows "item_den (u @ t) alpha beta it = item_den u alpha beta it"
  using assms by (auto simp: item_den_def item_in_def lc_val_prefix nth_append split: option.splits)

definition solve_item :: "'f::field list \<Rightarrow> nat \<Rightarrow> nat \<Rightarrow> 'f item \<Rightarrow> 'f list" where
  "solve_item u alpha beta it = (case it_val it of
     None \<Rightarrow> [lc_val u (it_num it) / item_den u alpha beta it]
   | Some v \<Rightarrow> [- (u ! beta * lc_val u v), lc_val u (it_num it) / item_den u alpha beta it])"

lemma length_solve_item [simp]: "length (solve_item u alpha beta it) = item_width it"
  by (simp add: solve_item_def item_width_def split: option.split)

lemma solve_item_sat:
  assumes "item_in (length u) it" "alpha < length u" "it_val it \<noteq> None \<Longrightarrow> beta < length u"
    and "item_den u alpha beta it \<noteq> 0"
  shows "sat ((u @ t) @ solve_item u alpha beta it @ t') (item_rows alpha beta (length (u @ t)) it)"
proof (cases "it_val it")
  case None
  then show ?thesis using assms
    by (simp add: item_rows_def solve_item_def item_in_def nth_append lc_val_prefix item_den_def add.assoc)
next
  case (Some v)
  let ?w = "(u @ t) @ solve_item u alpha beta it @ t'"
  have "?w ! length (u @ t) = - (u ! beta * lc_val u v)"
    "?w ! (length (u @ t) + 1) = lc_val u (it_num it) / item_den u alpha beta it"
    using Some by (simp_all add: solve_item_def nth_append)
  moreover have "?w ! alpha = u ! alpha" "?w ! beta = u ! beta" using assms(2,3) Some by (simp_all add: nth_append)
  moreover have "lc_val ?w lc = lc_val u lc" if "lc_in (length u) lc" for lc
    using that by (simp add: lc_val_prefix)
  ultimately show ?thesis using Some assms(1,4)
    by (simp add: item_rows_def item_in_def item_den_def algebra_simps divide_eq_eq)
qed

lemma items_solvable:
  "\<forall>it \<in> set its. item_in (length u) it \<and> (it_val it \<noteq> None \<longrightarrow> beta < length u) \<and> item_den u alpha beta it \<noteq> 0 \<Longrightarrow>
     alpha < length u \<Longrightarrow>
     \<exists>s. length s = items_width its \<and>
       (\<forall>t'. sat ((u @ t) @ s @ t') (items_rows alpha beta (length (u @ t)) its))"
proof (induction its arbitrary: t)
  case (Cons it its)
  let ?s = "solve_item u alpha beta it"
  from Cons.IH [of "t @ ?s"] Cons.prems obtain s where s: "length s = items_width its"
    "\<And>t'. sat ((u @ t @ ?s) @ s @ t') (items_rows alpha beta (length (u @ t @ ?s)) its)" by auto
  have "sat ((u @ t) @ ?s @ t') (item_rows alpha beta (length (u @ t)) it)" for t'
    using Cons.prems by (intro solve_item_sat) auto
  then have "\<forall>t'. sat ((u @ t) @ (?s @ s) @ t') (items_rows alpha beta (length (u @ t)) (it # its))"
    using s(2) by (simp add: add.assoc)
  then show ?case using s(1) by (intro exI [of _ "?s @ s"]) simp
qed simp

subsection \<open>The tables in closed form\<close>

text \<open>The entries of a table: its keys, and the values where it has them.\<close>

definition spread_value :: "nat \<Rightarrow> 'f::field" where
  "spread_value i = of_nat (unat (the (spread_bits (of_nat i) 32)))"

fun entries :: "'f::field table \<Rightarrow> (nat \<times> 'f lc option) list" where
  "entries (TabRange bits) = map (\<lambda>i. (i, None)) [0..<2 ^ bits]"
| "entries (TabOfElems els) = map (\<lambda>(i, v). (i, Some v)) (enumerate 0 els)"
| "entries (TabSpread bits) = map (\<lambda>i. (i, Some [(0, spread_value i)])) [0..<2 ^ bits]"

definition entry_item :: "nat \<Rightarrow> nat \<times> 'f::field lc option \<Rightarrow> 'f item" where
  "entry_item off = (\<lambda>(i, v). \<lparr>it_pre = [(0, - of_nat i)], it_post = [], it_val = v, it_num = [(off + i, 1)]\<rparr>)"

definition table_items :: "nat \<Rightarrow> 'f::field table \<Rightarrow> 'f item list" where
  "table_items off table = map (entry_item off) (entries table)"

definition add_tables :: "nat \<Rightarrow> witness_layout \<Rightarrow> witness_layout" where
  "add_tables n wl = wl\<lparr>wl_tables_data_size := wl_tables_data_size wl + n\<rparr>"

lemma add_tables_add [simp]: "add_tables m (add_tables n wl) = add_tables (n + m) wl"
  by (simp add: add_tables_def)

lemma add_tables_end [simp]: "tables_data_end (add_tables n wl) = tables_data_end wl + n"
  by (simp add: add_tables_def layout_defs)

lemma add_tables_0 [simp]: "add_tables 0 wl = wl"
  by (simp add: add_tables_def)

lemma next_table_data_eq: "next_table_data wl = (tables_data_end wl, add_tables 1 wl)"
  by (simp add: next_table_data_def add_tables_def)

lemma range_entries:
  "fold (range_entry alpha off) is (wl, result, sum_lhs) =
     (let its = map (\<lambda>i. entry_item off (i, None)) is; d = tables_data_end wl in
      (add_tables (items_width its) wl, result @ items_rows alpha beta d its, sum_lhs @ ones (items_ys d its)))"
  by (induction "is" arbitrary: wl result sum_lhs)
    (simp_all add: range_entry_def next_table_data_eq entry_item_def item_width_def item_rows_def item_y_def Let_def)

lemma pair_entry_eq:
  "pair_entry alpha beta off (i, v) (wl, result, sum_lhs) =
     (let it = entry_item off (i, Some v); d = tables_data_end wl in
      (add_tables (item_width it) wl, result @ item_rows alpha beta d it, sum_lhs @ [(item_y d it, 1)]))"
  by (simp add: pair_entry_def next_table_data_eq entry_item_def item_width_def item_rows_def item_y_def
      Let_def numeral_2_eq_2)

lemma pair_entries:
  "fold (pair_entry alpha beta off) ivs (wl, result, sum_lhs) =
     (let its = map (\<lambda>(i, v). entry_item off (i, Some v)) ivs; d = tables_data_end wl in
      (add_tables (items_width its) wl, result @ items_rows alpha beta d its, sum_lhs @ ones (items_ys d its)))"
  by (induction ivs arbitrary: wl result sum_lhs) (auto simp: pair_entry_eq Let_def)

lemma spread_entries:
  "opt_fold (spread_entry alpha beta off) is st =
     Some (fold (pair_entry alpha beta off) (map (\<lambda>i. (i, [(0, spread_value i)])) is) st)"
proof (induction "is" arbitrary: st)
  case (Cons i "is")
  obtain v where "spread_bits (of_nat i) 32 = Some v"
    using spread_bits_total [of 32 "of_nat i"] by auto
  then show ?case using Cons.IH by (simp add: spread_entry_def spread_value_def)
qed simp

lemma table_contents_eq:
  "table_contents alpha beta info (wl, result) =
     (let its = table_items (ti_multiplicities_witness_off info) (ti_table info); d = tables_data_end wl in
      Some (add_tables (items_width its) wl, result @ items_rows alpha beta d its, ones (items_ys d its)))"
proof (cases "ti_table info")
  case (TabRange bits)
  then show ?thesis
    by (simp add: table_contents_def range_entries [where beta = beta] table_items_def Let_def comp_def)
next
  case (TabOfElems els)
  then show ?thesis
    by (simp add: table_contents_def pair_entries table_items_def Let_def comp_def case_prod_unfold)
next
  case (TabSpread bits)
  then show ?thesis
    by (simp add: table_contents_def spread_entries pair_entries table_items_def Let_def comp_def)
qed

text \<open>The rows of all tables, each followed by its sum constraint, whose right sides are given.\<close>

fun blocks :: "nat \<Rightarrow> nat \<Rightarrow> nat \<Rightarrow> 'f::field item list list \<Rightarrow> 'f lc list \<Rightarrow> 'f r1c list" where
  "blocks alpha beta d (its # itss) (cs # css) =
     items_rows alpha beta d its @ \<lparr>r1c_a = ones (items_ys d its), r1c_b = [(0, 1)], r1c_c = cs\<rparr>
     # blocks alpha beta (d + items_width its) itss css"
| "blocks alpha beta d _ _ = []"

fun sum_idxs :: "nat \<Rightarrow> 'f item list list \<Rightarrow> nat list" where
  "sum_idxs p [] = []"
| "sum_idxs p (its # itss) = (p + items_width its) # sum_idxs (p + items_width its + 1) itss"

lemma length_sum_idxs [simp]: "length (sum_idxs p itss) = length itss"
  by (induction itss arbitrary: p) auto

definition info_items :: "'f::field table_info \<Rightarrow> 'f item list" where
  "info_items info = table_items (ti_multiplicities_witness_off info) (ti_table info)"

lemma seal_tables_eq:
  "seal_tables alpha beta infos (wl, result) =
     (let itss = map info_items infos in
      Some (add_tables (items_width (concat itss)) wl,
        result @ blocks alpha beta (tables_data_end wl) itss (replicate (length infos) []),
        map2 (\<lambda>info s. info\<lparr>ti_sum_constraint_idx := s\<rparr>) infos (sum_idxs (length result) itss)))"
proof (induction infos arbitrary: wl result)
  case (Cons info infos)
  show ?case
    by (simp add: table_contents_eq Cons.IH info_items_def Let_def)
qed simp

text \<open>Adding a term to the right side of a sum constraint.\<close>

lemma sum_idxs_shift: "k < length itss \<Longrightarrow> sum_idxs p itss ! k = p + sum_idxs 0 itss ! k"
proof (induction itss arbitrary: p k)
  case (Cons its itss)
  show ?case
  proof (cases k)
    case (Suc j)
    then show ?thesis
      using Cons.IH [of j "p + items_width its + 1"] Cons.IH [of j "items_width its + 1"] Cons.prems by simp
  qed simp
qed simp

lemma blocks_sum_row:
  assumes "k < length itss" "length css = length itss"
  shows "sum_idxs 0 itss ! k < length (blocks alpha beta d itss css) \<and>
    r1c_c (blocks alpha beta d itss css ! (sum_idxs 0 itss ! k)) = css ! k \<and>
    (blocks alpha beta d itss css)[sum_idxs 0 itss ! k :=
        (blocks alpha beta d itss css ! (sum_idxs 0 itss ! k))\<lparr>r1c_c := c\<rparr>] =
      blocks alpha beta d itss (css[k := c])"
  using assms
proof (induction itss arbitrary: d css k)
  case (Cons its itss)
  obtain cs css' where css: "css = cs # css'" using Cons.prems(2) by (cases css) auto
  show ?case
  proof (cases k)
    case 0
    then show ?thesis by (simp add: css nth_append list_update_append)
  next
    case (Suc j)
    have j: "j < length itss" "length css' = length itss" using Cons.prems Suc css by auto
    have s: "sum_idxs 0 (its # itss) ! k = items_width its + Suc (sum_idxs 0 itss ! j)"
      using sum_idxs_shift [OF j(1), of "Suc (items_width its)"] by (simp add: Suc)
    show ?thesis
      using Cons.IH [OF j, of "d + items_width its"] unfolding s
      by (simp add: css Suc nth_append list_update_append)
  qed
qed simp

lemma sum_constraint_update:
  assumes "k < length itss" "length css = length itss" "i = sum_idxs (length pre) itss ! k"
    and "rows = pre @ blocks alpha beta d itss css @ post"
  shows "i < length rows" "r1c_c (rows ! i) = css ! k"
    and "rows[i := (rows ! i)\<lparr>r1c_c := c\<rparr>] = pre @ blocks alpha beta d itss (css[k := c]) @ post"
  using blocks_sum_row [OF assms(1,2), of alpha beta d c] sum_idxs_shift [OF assms(1), of "length pre"]
  by (simp_all add: assms(3,4) nth_append list_update_append)

subsection \<open>The lookups in closed form\<close>

definition add_lookups :: "nat \<Rightarrow> witness_layout \<Rightarrow> witness_layout" where
  "add_lookups n wl = wl\<lparr>wl_lookups_data_size := wl_lookups_data_size wl + n\<rparr>"

lemma add_lookups_simps [simp]:
  "add_lookups m (add_lookups n wl) = add_lookups (n + m) wl"
  "lookups_data_end (add_lookups n wl) = lookups_data_end wl + n"
  "add_lookups 0 wl = wl"
  by (simp_all add: add_lookups_def layout_defs)

lemma next_lookups_data_eq: "next_lookups_data wl = (lookups_data_end wl, add_lookups 1 wl)"
  by (simp add: next_lookups_data_def add_lookups_def)

definition lookup_item :: "'f::field lookup_constraint \<Rightarrow> 'f item" where
  "lookup_item l = \<lparr>it_pre = [], it_post = neg_lc (lk_elements l ! 0),
     it_val = (if length (lk_elements l) = 2 then Some (lk_elements l ! 1) else None), it_num = lk_flag l\<rparr>"

definition lookup_ok :: "nat \<Rightarrow> 'f lookup_constraint \<Rightarrow> bool" where
  "lookup_ok n l \<longleftrightarrow> lk_table_id l < n \<and> (length (lk_elements l) = 1 \<or> length (lk_elements l) = 2)"

fun lookup_sums :: "nat \<Rightarrow> 'f::field lookup_constraint list \<Rightarrow> 'f lc list \<Rightarrow> 'f lc list" where
  "lookup_sums d [] css = css"
| "lookup_sums d (l # ls) css = lookup_sums (d + item_width (lookup_item l)) ls
     (css[lk_table_id l := css ! lk_table_id l @ [(item_y d (lookup_item l), 1)]])"

lemma length_lookup_sums [simp]: "length (lookup_sums d ls css) = length css"
  by (induction ls arbitrary: d css) auto

definition sums_at :: "'f table_info list \<Rightarrow> nat \<Rightarrow> 'f item list list \<Rightarrow> bool" where
  "sums_at infos p itss \<longleftrightarrow> length infos = length itss \<and>
     (\<forall>k < length itss. ti_sum_constraint_idx (infos ! k) = sum_idxs p itss ! k)"

lemma seal_lookup_eq:
  assumes "lookup_ok (length itss) l" "sums_at infos (length pre) itss" "length css = length itss"
  shows "seal_lookup alpha beta infos l (wl, pre @ blocks alpha beta d itss css @ post) =
    (let it = lookup_item l; y = item_y (lookups_data_end wl) it in
     Some (add_lookups (item_width it) wl,
       pre @ blocks alpha beta d itss (css[lk_table_id l := css ! lk_table_id l @ [(y, 1)]]) @
       post @ item_rows alpha beta (lookups_data_end wl) it))"
proof -
  let ?k = "lk_table_id l" and ?it = "lookup_item l"
  let ?rows = "pre @ blocks alpha beta d itss css @ post @ item_rows alpha beta (lookups_data_end wl) ?it"
  let ?i = "ti_sum_constraint_idx (infos ! ?k)"
  have k: "?k < length itss" "?k < length infos" "?i = sum_idxs (length pre) itss ! ?k"
    using assms(1,2) by (auto simp: lookup_ok_def sums_at_def)
  note u = sum_constraint_update [OF k(1) assms(3) k(3) refl,
      of alpha beta d "post @ item_rows alpha beta (lookups_data_end wl) ?it"]
  consider (one) e0 where "lk_elements l = [e0]" | (two) e0 e1 where "lk_elements l = [e0, e1]"
    using assms(1) by (auto simp: lookup_ok_def length_Suc_conv numeral_2_eq_2)
  then show ?thesis
  proof cases
    case one
    then have rows: "item_rows alpha beta (lookups_data_end wl) ?it =
        [\<lparr>r1c_a = [(lookups_data_end wl, 1)], r1c_b = (alpha, 1) # neg_lc e0, r1c_c = lk_flag l\<rparr>]"
      "item_width ?it = 1" "item_y (lookups_data_end wl) ?it = lookups_data_end wl"
      by (simp_all add: lookup_item_def item_rows_def item_width_def item_y_def)
    show ?thesis using one k(2) u unfolding Let_def rows
      by (simp add: seal_lookup_def next_lookups_data_eq Let_def nth_opt_in upd_opt_def)
  next
    case two
    then have rows: "item_rows alpha beta (lookups_data_end wl) ?it =
        [\<lparr>r1c_a = [(beta, 1)], r1c_b = e1, r1c_c = [(lookups_data_end wl, - 1)]\<rparr>,
         \<lparr>r1c_a = [(lookups_data_end wl + 1, 1)],
           r1c_b = (alpha, 1) # (lookups_data_end wl, - 1) # neg_lc e0, r1c_c = lk_flag l\<rparr>]"
      "item_width ?it = 2" "item_y (lookups_data_end wl) ?it = lookups_data_end wl + 1"
      by (simp_all add: lookup_item_def item_rows_def item_width_def item_y_def)
    show ?thesis using two k(2) u unfolding Let_def rows
      by (simp add: seal_lookup_def next_lookups_data_eq Let_def nth_opt_in upd_opt_def numeral_2_eq_2)
  qed
qed

lemma seal_lookups_eq:
  "\<forall>l \<in> set ls. lookup_ok (length itss) l \<Longrightarrow> sums_at infos (length pre) itss \<Longrightarrow> length css = length itss \<Longrightarrow>
   opt_fold (seal_lookup alpha beta infos) ls (wl, pre @ blocks alpha beta d itss css @ post) =
     (let its = map lookup_item ls; e = lookups_data_end wl in
      Some (add_lookups (items_width its) wl,
        pre @ blocks alpha beta d itss (lookup_sums e ls css) @ post @ items_rows alpha beta e its))"
proof (induction ls arbitrary: wl css post)
  case (Cons l ls)
  then show ?case by (simp add: seal_lookup_eq Let_def)
qed (simp add: Let_def)

text \<open>The right side of the sum constraint of a table: one term per lookup of the table.\<close>

lemma lookup_sums_val:
  assumes "\<forall>l \<in> set ls. lk_table_id l < length css" "k < length css"
    and "sat w (items_rows alpha beta d (map lookup_item ls))"
    and "\<forall>l \<in> set ls. item_den w alpha beta (lookup_item l) \<noteq> 0"
  shows "lc_val w (lookup_sums d ls css ! k) = lc_val w (css ! k) +
    (\<Sum>l\<leftarrow>filter (\<lambda>l. lk_table_id l = k) ls.
       lc_val w (lk_flag l) / item_den w alpha beta (lookup_item l))"
  using assms
proof (induction ls arbitrary: d css)
  case (Cons l ls)
  have y: "w ! item_y d (lookup_item l) = lc_val w (lk_flag l) / item_den w alpha beta (lookup_item l)"
    using item_sound [of w alpha beta d "lookup_item l"] Cons.prems(3,4) by (simp add: lookup_item_def)
  show ?case using Cons.prems
    by (simp add: Cons.IH y nth_list_update)
qed simp

subsection \<open>The sealed system in closed form\<close>

definition wide :: "'f table \<Rightarrow> bool" where
  "wide t = (case t of TabRange _ \<Rightarrow> False | _ \<Rightarrow> True)"

definition table_len :: "'f::field table \<Rightarrow> nat" where
  "table_len t = length (entries t)"

text \<open>Where the multiplicities of table \<open>k\<close> start, and the two challenges.\<close>

definition mult_off :: "'f::field r1c_gen \<Rightarrow> nat \<Rightarrow> nat" where
  "mult_off g k = g_next_witness g + (\<Sum>t\<leftarrow>take k (g_tables g). table_len t)"

definition alpha_idx :: "'f::field r1c_gen \<Rightarrow> nat" where
  "alpha_idx g = g_next_witness g + (\<Sum>t\<leftarrow>g_tables g. table_len t)"

definition beta_idx :: "'f::field r1c_gen \<Rightarrow> nat" where
  "beta_idx g = (if \<exists>t \<in> set (g_tables g). wide t then alpha_idx g + 1 else 2 ^ 64 - 1)"

definition n_challenges :: "'f r1c_gen \<Rightarrow> nat" where
  "n_challenges g = (if \<exists>t \<in> set (g_tables g). wide t then 2 else 1)"

definition prefix_len :: "'f::field r1c_gen \<Rightarrow> nat" where
  "prefix_len g = alpha_idx g + n_challenges g"

definition gen_items :: "'f::field r1c_gen \<Rightarrow> 'f item list list" where
  "gen_items g = map (\<lambda>k. table_items (mult_off g k) (g_tables g ! k)) [0..<length (g_tables g)]"

fun infos_of :: "nat \<Rightarrow> 'f::field table list \<Rightarrow> 'f table_info list" where
  "infos_of off [] = []"
| "infos_of off (t # ts) = \<lparr>ti_multiplicities_witness_off = off, ti_table = t, ti_sum_constraint_idx = 0\<rparr>
     # infos_of (off + table_len t) ts"

lemma length_infos_of [simp]: "length (infos_of off ts) = length ts"
  by (induction ts arbitrary: off) auto

lemma infos_of_nth: "k < length ts \<Longrightarrow> infos_of off ts ! k =
    \<lparr>ti_multiplicities_witness_off = off + (\<Sum>t\<leftarrow>take k ts. table_len t), ti_table = ts ! k,
     ti_sum_constraint_idx = 0\<rparr>"
proof (induction ts arbitrary: off k)
  case (Cons t ts)
  then show ?case by (cases k) auto
qed simp

lemma info_items_infos_of: "map info_items (infos_of (g_next_witness g) (g_tables g)) = gen_items g"
  by (auto simp: gen_items_def info_items_def infos_of_nth mult_off_def intro!: nth_equalityI)

lemma init_tables_eq:
  "\<exists>mw. fold init_table ts (infos, m, wl) =
     (infos @ infos_of (wl_algebraic_size wl + wl_multiplicities_size wl) ts, mw,
      wl\<lparr>wl_multiplicities_size := wl_multiplicities_size wl + (\<Sum>t\<leftarrow>ts. table_len t)\<rparr>) \<and>
     (mw > 1 \<longleftrightarrow> m > 1 \<or> (\<exists>t \<in> set ts. wide t))"
proof (induction ts arbitrary: infos m wl)
  case (Cons t ts)
  let ?off = "wl_algebraic_size wl + wl_multiplicities_size wl"
  let ?info = "\<lparr>ti_multiplicities_witness_off = ?off, ti_table = t, ti_sum_constraint_idx = 0\<rparr>"
  let ?wl = "wl\<lparr>wl_multiplicities_size := wl_multiplicities_size wl + table_len t\<rparr>"
  have "init_table t (infos, m, wl) = (infos @ [?info], max m (if wide t then 2 else 1), ?wl)"
    by (cases t) (simp_all add: init_table_def wide_def table_len_def add.commute)
  moreover obtain mw where "fold init_table ts (infos @ [?info], max m (if wide t then 2 else 1), ?wl) =
      ((infos @ [?info]) @ infos_of (wl_algebraic_size ?wl + wl_multiplicities_size ?wl) ts, mw,
       ?wl\<lparr>wl_multiplicities_size := wl_multiplicities_size ?wl + (\<Sum>t\<leftarrow>ts. table_len t)\<rparr>)"
    "mw > 1 \<longleftrightarrow> max m (if wide t then 2 else 1) > 1 \<or> (\<exists>t \<in> set ts. wide t)"
    using Cons.IH by blast
  ultimately show ?case by (auto simp: add.assoc less_max_iff_disj)
qed simp

lemma gen_items_length [simp]: "length (gen_items g) = length (g_tables g)"
  by (simp add: gen_items_def)

definition sealed_rows :: "'f::field r1c_gen \<Rightarrow> 'f r1c list" where
  "sealed_rows g = (let d = prefix_len g; e = d + items_width (concat (gen_items g)) in
     g_constraints g @
     blocks (alpha_idx g) (beta_idx g) d (gen_items g)
       (lookup_sums e (g_lookups g) (replicate (length (g_tables g)) [])) @
     items_rows (alpha_idx g) (beta_idx g) e (map lookup_item (g_lookups g)))"

lemma length_blocks: "length css = length itss \<Longrightarrow>
    length (blocks alpha beta d itss css) = items_width (concat itss) + length itss"
proof (induction itss arbitrary: d css)
  case (Cons its itss)
  then show ?case by (cases css) auto
qed simp

lemma seal_eq:
  assumes "g_tables g \<noteq> []" "\<forall>l \<in> set (g_lookups g). lookup_ok (length (g_tables g)) l"
  shows "seal g = Some \<lparr>r_witness_layout =
      \<lparr>wl_algebraic_size = g_next_witness g, wl_multiplicities_size = (\<Sum>t\<leftarrow>g_tables g. table_len t),
       wl_challenges_size = n_challenges g, wl_tables_data_size = items_width (concat (gen_items g)),
       wl_lookups_data_size = items_width (map lookup_item (g_lookups g))\<rparr>,
    r_constraints_layout = \<lparr>cl_algebraic_size = length (g_constraints g),
       cl_tables_data_size = items_width (concat (gen_items g)) + length (g_tables g),
       cl_lookups_data_size = items_width (map lookup_item (g_lookups g))\<rparr>,
    r_constraints = sealed_rows g\<rparr>"
proof -
  let ?start = "\<lparr>wl_algebraic_size = g_next_witness g, wl_multiplicities_size = 0,
           wl_challenges_size = 0, wl_tables_data_size = 0, wl_lookups_data_size = 0\<rparr>"
  let ?infos = "infos_of (g_next_witness g) (g_tables g)"
  let ?M = "\<Sum>t\<leftarrow>g_tables g. table_len t"
  let ?wl = "\<lparr>wl_algebraic_size = g_next_witness g, wl_multiplicities_size = ?M,
           wl_challenges_size = n_challenges g, wl_tables_data_size = 0, wl_lookups_data_size = 0\<rparr>"
  let ?T = "items_width (concat (gen_items g))"
  let ?infos' = "map2 (\<lambda>info s. info\<lparr>ti_sum_constraint_idx := s\<rparr>) ?infos
      (sum_idxs (length (g_constraints g)) (gen_items g))"
  obtain mw where mw: "fold init_table (g_tables g) ([], 0, ?start) =
      (?infos, mw, ?start\<lparr>wl_multiplicities_size := ?M\<rparr>)" "mw > 1 \<longleftrightarrow> (\<exists>t \<in> set (g_tables g). wide t)"
    using init_tables_eq [of "g_tables g" "[]" 0 ?start] by auto
  have ends: "tables_data_end ?wl = prefix_len g" "lookups_data_end (add_tables ?T ?wl) = prefix_len g + ?T"
    by (simp_all add: layout_defs prefix_len_def alpha_idx_def add_tables_def)
  have st: "seal_tables (alpha_idx g) (beta_idx g) ?infos (?wl, g_constraints g) =
      Some (add_tables ?T ?wl, g_constraints g @ blocks (alpha_idx g) (beta_idx g) (prefix_len g)
        (gen_items g) (replicate (length (g_tables g)) []), ?infos')"
    by (simp add: seal_tables_eq info_items_infos_of Let_def ends)
  have at: "sums_at ?infos' (length (g_constraints g)) (gen_items g)"
    by (simp add: sums_at_def)
  have lk: "opt_fold (seal_lookup (alpha_idx g) (beta_idx g) ?infos') (g_lookups g)
      (add_tables ?T ?wl, g_constraints g @ blocks (alpha_idx g) (beta_idx g) (prefix_len g)
        (gen_items g) (replicate (length (g_tables g)) [])) =
      Some (add_lookups (items_width (map lookup_item (g_lookups g))) (add_tables ?T ?wl), sealed_rows g)"
    using seal_lookups_eq [OF _ at, of "g_lookups g" "replicate (length (g_tables g)) []" _ _ _ "prefix_len g" "[]"]
      assms(2) ends by (simp add: sealed_rows_def Let_def)
  have ne: "?infos \<noteq> []" using assms(1) by (cases "g_tables g") auto
  have ch: "challenges_end (?start\<lparr>wl_multiplicities_size := ?M\<rparr>) = alpha_idx g"
    by (simp add: layout_defs alpha_idx_def)
  have be: "if mw > 1 then beta_idx g = Suc (alpha_idx g) \<and> n_challenges g = 2
      else beta_idx g = 2 ^ 64 - 1 \<and> n_challenges g = 1"
    using mw(2) by (auto simp: beta_idx_def n_challenges_def)
  have ch': "challenges_end \<lparr>wl_algebraic_size = g_next_witness g, wl_multiplicities_size = ?M,
      wl_challenges_size = Suc 0, wl_tables_data_size = 0, wl_lookups_data_size = 0\<rparr> = Suc (alpha_idx g)"
    by (simp add: layout_defs alpha_idx_def)
  have len: "length (sealed_rows g) = length (g_constraints g) + (?T + length (g_tables g)) +
      items_width (map lookup_item (g_lookups g))"
    by (simp add: sealed_rows_def Let_def length_blocks)
  show ?thesis
    using ne be st lk len ch ch'
    by (cases "mw > 1") (simp_all add: seal_def mw(1) length_blocks add_lookups_def add_tables_def
        Let_def numeral_2_eq_2)
qed

subsection \<open>Well-formed generator states\<close>

text \<open>Every linear combination is over allocated witnesses, the constant one (witness 0) is one of
  them, and each lookup names a table and has as many elements as that table's entries.\<close>

definition lookup_wf :: "'f r1c_gen \<Rightarrow> 'f lookup_constraint \<Rightarrow> bool" where
  "lookup_wf g l \<longleftrightarrow> lk_table_id l < length (g_tables g) \<and>
     length (lk_elements l) = (if wide (g_tables g ! lk_table_id l) then 2 else 1) \<and>
     (\<forall>e \<in> set (lk_elements l). lc_in (g_next_witness g) e) \<and> lc_in (g_next_witness g) (lk_flag l)"

definition wf_gen :: "'f::field r1c_gen \<Rightarrow> bool" where
  "wf_gen g \<longleftrightarrow> 0 < g_next_witness g \<and>
     (\<forall>r \<in> set (g_constraints g). lc_in (g_next_witness g) (r1c_a r) \<and>
        lc_in (g_next_witness g) (r1c_b r) \<and> lc_in (g_next_witness g) (r1c_c r)) \<and>
     (\<forall>els. TabOfElems els \<in> set (g_tables g) \<longrightarrow> (\<forall>e \<in> set els. lc_in (g_next_witness g) e)) \<and>
     (\<forall>l \<in> set (g_lookups g). lookup_wf g l)"

lemma lookup_wf_ok: "lookup_wf g l \<Longrightarrow> lookup_ok (length (g_tables g)) l"
  by (auto simp: lookup_wf_def lookup_ok_def split: if_splits)

lemma n_challenges_pos [simp]: "0 < n_challenges g"
  by (simp add: n_challenges_def)

lemma alpha_in: "alpha_idx g < prefix_len g"
  by (simp add: prefix_len_def)

lemma next_witness_le: "g_next_witness g \<le> alpha_idx g"
  by (simp add: alpha_idx_def)

lemma wf_gen_prefix: "wf_gen g \<Longrightarrow> lc_in (g_next_witness g) lc \<Longrightarrow> lc_in (prefix_len g) lc"
  using alpha_in [of g] next_witness_le [of g] by (auto intro: lc_in_mono)

lemma mult_off_bound:
  "k < length (g_tables g) \<Longrightarrow> i < table_len (g_tables g ! k) \<Longrightarrow> mult_off g k + i < alpha_idx g"
proof -
  assume k: "k < length (g_tables g)" and i: "i < table_len (g_tables g ! k)"
  have "(\<Sum>t\<leftarrow>g_tables g. table_len t) =
      (\<Sum>t\<leftarrow>take k (g_tables g). table_len t) + table_len (g_tables g ! k) +
      (\<Sum>t\<leftarrow>drop (Suc k) (g_tables g). table_len t)"
    by (subst id_take_nth_drop [OF k]) simp
  then show ?thesis using i by (simp add: mult_off_def alpha_idx_def)
qed

lemma entries_keys: "(i, v) \<in> set (entries t) \<Longrightarrow> i < table_len t"
  by (cases t) (auto simp: table_len_def in_set_enumerate_eq)

lemma entries_val: "(i, Some v) \<in> set (entries t) \<Longrightarrow> wide t"
  by (cases t) (auto simp: wide_def)

lemma entries_val_in:
  assumes "wf_gen g" "t \<in> set (g_tables g)" "(i, Some v) \<in> set (entries t)"
  shows "lc_in (g_next_witness g) v"
proof (cases t)
  case (TabOfElems els)
  then have "v \<in> set els" using assms(3) by (auto simp: in_set_enumerate_eq)
  then show ?thesis using assms(1,2) TabOfElems by (auto simp: wf_gen_def)
qed (use assms in \<open>auto simp: wf_gen_def\<close>)

lemma table_item_in:
  assumes "wf_gen g" "k < length (g_tables g)" "it \<in> set (gen_items g ! k)"
  shows "item_in (prefix_len g) it" and "it_val it \<noteq> None \<Longrightarrow> beta_idx g < prefix_len g"
proof -
  obtain i v where iv: "(i, v) \<in> set (entries (g_tables g ! k))" "it = entry_item (mult_off g k) (i, v)"
    using assms(2,3) by (auto simp: gen_items_def table_items_def)
  have t: "g_tables g ! k \<in> set (g_tables g)" using assms(2) by simp
  have i: "mult_off g k + i < alpha_idx g" using mult_off_bound [OF assms(2)] entries_keys [OF iv(1)] by blast
  have z: "0 < prefix_len g" using alpha_in [of g] by linarith
  have v: "lc_in (prefix_len g) x" if "v = Some x" for x
    using entries_val_in [OF assms(1) t] iv(1) that wf_gen_prefix [OF assms(1)] by blast
  show "item_in (prefix_len g) it"
    using i z v alpha_in [of g] by (auto simp: iv(2) entry_item_def item_in_def split: option.split)
  show "beta_idx g < prefix_len g" if n: "it_val it \<noteq> None"
  proof -
    obtain x where "v = Some x" using n iv(2) by (auto simp: entry_item_def)
    then have "wide (g_tables g ! k)" using iv(1) entries_val by blast
    then show ?thesis using t by (auto simp: beta_idx_def prefix_len_def n_challenges_def)
  qed
qed

lemma lookup_item_in:
  assumes "wf_gen g" "l \<in> set (g_lookups g)"
  shows "item_in (prefix_len g) (lookup_item l)"
    and "it_val (lookup_item l) \<noteq> None \<Longrightarrow> beta_idx g < prefix_len g"
proof -
  have w: "lookup_wf g l" using assms by (simp add: wf_gen_def)
  have e: "lc_in (prefix_len g) (lk_elements l ! i)" if "i < length (lk_elements l)" for i
    using w nth_mem [OF that] wf_gen_prefix [OF assms(1)] unfolding lookup_wf_def by blast
  have "lc_in (prefix_len g) (lk_flag l)" using w wf_gen_prefix [OF assms(1)] by (auto simp: lookup_wf_def)
  then show "item_in (prefix_len g) (lookup_item l)"
    using e w by (auto simp: item_in_def lookup_item_def lookup_wf_def split: if_splits)
  show "beta_idx g < prefix_len g" if "it_val (lookup_item l) \<noteq> None"
  proof -
    have "wide (g_tables g ! lk_table_id l)" "g_tables g ! lk_table_id l \<in> set (g_tables g)"
      using that w by (auto simp: lookup_item_def lookup_wf_def split: if_splits)
    then show ?thesis by (auto simp: beta_idx_def prefix_len_def n_challenges_def)
  qed
qed

subsection \<open>The sums of the argument\<close>

text \<open>The LogUp sums over the prefix \<open>u\<close> of the witness, as the comments of the code give them: an
  entry with key \<open>i\<close> and value \<open>v\<close> has the denominator \<open>\<alpha> - i + \<beta> v\<close>.\<close>

definition entry_den :: "'f::field list \<Rightarrow> 'f r1c_gen \<Rightarrow> nat \<times> 'f lc option \<Rightarrow> 'f" where
  "entry_den u g = (\<lambda>(i, v). u ! alpha_idx g - of_nat i +
     (case v of None \<Rightarrow> 0 | Some v \<Rightarrow> u ! beta_idx g * lc_val u v))"

definition lookup_den :: "'f::field list \<Rightarrow> 'f r1c_gen \<Rightarrow> 'f lookup_constraint \<Rightarrow> 'f" where
  "lookup_den u g l = u ! alpha_idx g - lc_val u (lk_elements l ! 0) +
     (if length (lk_elements l) = 2 then u ! beta_idx g * lc_val u (lk_elements l ! 1) else 0)"

definition table_sum :: "'f::field list \<Rightarrow> 'f r1c_gen \<Rightarrow> nat \<Rightarrow> 'f" where
  "table_sum u g k = (\<Sum>(i, v)\<leftarrow>entries (g_tables g ! k). u ! (mult_off g k + i) / entry_den u g (i, v))"

definition lookups_sum :: "'f::field list \<Rightarrow> 'f r1c_gen \<Rightarrow> nat \<Rightarrow> 'f" where
  "lookups_sum u g k = (\<Sum>l\<leftarrow>filter (\<lambda>l. lk_table_id l = k) (g_lookups g). lc_val u (lk_flag l) / lookup_den u g l)"

text \<open>The challenges avoid the poles.\<close>

definition no_poles :: "'f::field list \<Rightarrow> 'f r1c_gen \<Rightarrow> bool" where
  "no_poles u g \<longleftrightarrow> (\<forall>t \<in> set (g_tables g). \<forall>e \<in> set (entries t). entry_den u g e \<noteq> 0) \<and>
     (\<forall>l \<in> set (g_lookups g). lookup_den u g l \<noteq> 0)"

lemma item_den_entry:
  "u ! 0 = 1 \<Longrightarrow> item_den u (alpha_idx g) (beta_idx g) (entry_item off e) = entry_den u g e"
  by (cases e) (simp add: item_den_def entry_item_def entry_den_def)

lemma item_den_lookup: "item_den u (alpha_idx g) (beta_idx g) (lookup_item l) = lookup_den u g l"
  by (simp add: item_den_def lookup_item_def lookup_den_def)

lemma table_sum_items:
  assumes "u ! 0 = 1" "k < length (g_tables g)"
  shows "table_sum u g k =
    (\<Sum>it\<leftarrow>gen_items g ! k. lc_val u (it_num it) / item_den u (alpha_idx g) (beta_idx g) it)"
  using assms
  by (simp add: table_sum_def gen_items_def table_items_def comp_def item_den_entry case_prod_unfold)
    (simp add: entry_item_def case_prod_unfold)

subsection \<open>Soundness and completeness of the sealed system\<close>

text \<open>The rows of all tables and lookups without the sum constraints.\<close>

lemma sat_blocks:
  "length css = length itss \<Longrightarrow> sat w (blocks alpha beta d itss css) \<longleftrightarrow>
     sat w (items_rows alpha beta d (concat itss)) \<and>
     (\<forall>k < length itss. lc_val w (ones (items_ys (d + items_width (concat (take k itss))) (itss ! k))) * w ! 0
        = lc_val w (css ! k))"
proof (induction itss arbitrary: d css)
  case (Cons its itss)
  then obtain cs css' where css: "css = cs # css'" "length css' = length itss" by (cases css) auto
  show ?case
    unfolding css(1) length_Cons All_less_Suc2
    by (simp add: Cons.IH [OF css(2)] items_rows_append add.assoc) blast
qed simp

lemma sat_items_nth:
  assumes "sat w (items_rows alpha beta d (concat itss))" "k < length itss"
  shows "sat w (items_rows alpha beta (d + items_width (concat (take k itss))) (itss ! k))"
proof -
  have "concat itss = concat (take k itss) @ itss ! k @ concat (drop (Suc k) itss)"
    by (subst (1) id_take_nth_drop [OF assms(2)]) simp
  then show ?thesis using assms(1) by (simp add: items_rows_append)
qed

lemma sealed_rows_sat:
  assumes "wf_gen g" "length u = prefix_len g" "u ! 0 = 1" "no_poles u g"
  defines "its \<equiv> concat (gen_items g) @ map lookup_item (g_lookups g)"
  shows "sat (u @ t) (sealed_rows g) \<longleftrightarrow> sat u (g_constraints g) \<and>
    sat (u @ t) (items_rows (alpha_idx g) (beta_idx g) (prefix_len g) its) \<and>
    (\<forall>k < length (g_tables g). table_sum u g k = lookups_sum u g k)"
proof -
  let ?A = "alpha_idx g" and ?B = "beta_idx g" and ?w = "u @ t" and ?d = "prefix_len g"
  let ?T = "items_width (concat (gen_items g))"
  let ?css = "lookup_sums (?d + ?T) (g_lookups g) (replicate (length (g_tables g)) [])"
  have u0: "?w ! 0 = 1" "0 < length u" using assms(2,3) alpha_in [of g] by (auto simp: nth_append)
  have den_t: "item_den ?w ?A ?B it = item_den u ?A ?B it" "lc_val ?w (it_num it) = lc_val u (it_num it)"
    "item_den u ?A ?B it \<noteq> 0" if k: "k < length (g_tables g)" and it: "it \<in> set (gen_items g ! k)" for k it
  proof -
    show "item_den ?w ?A ?B it = item_den u ?A ?B it" "lc_val ?w (it_num it) = lc_val u (it_num it)"
      using table_item_in [OF assms(1) k it] assms(2) alpha_in [of g]
      by (auto intro!: item_den_prefix lc_val_prefix simp: item_in_def)
    obtain e where "e \<in> set (entries (g_tables g ! k))" "it = entry_item (mult_off g k) e"
      using k it by (auto simp: gen_items_def table_items_def)
    then show "item_den u ?A ?B it \<noteq> 0"
      using assms(3,4) k by (auto simp: no_poles_def item_den_entry)
  qed
  have den_l: "item_den ?w ?A ?B (lookup_item l) = lookup_den u g l" "lc_val ?w (lk_flag l) = lc_val u (lk_flag l)"
    "lookup_den u g l \<noteq> 0" if "l \<in> set (g_lookups g)" for l
  proof -
    have "item_den ?w ?A ?B (lookup_item l) = item_den u ?A ?B (lookup_item l)"
      using lookup_item_in [OF assms(1) that] assms(2) alpha_in [of g] by (intro item_den_prefix) auto
    then show "item_den ?w ?A ?B (lookup_item l) = lookup_den u g l" by (simp add: item_den_lookup)
    show "lc_val ?w (lk_flag l) = lc_val u (lk_flag l)"
      using lookup_item_in(1) [OF assms(1) that] assms(2)
      by (auto intro!: lc_val_prefix simp: item_in_def lookup_item_def)
    show "lookup_den u g l \<noteq> 0" using assms(4) that by (simp add: no_poles_def)
  qed
  have alg: "sat ?w (g_constraints g) \<longleftrightarrow> sat u (g_constraints g)"
    using assms(1,2) wf_gen_prefix [OF assms(1)] by (intro sat_prefix) (auto simp: row_in_def wf_gen_def)
  have split: "items_rows ?A ?B ?d its = items_rows ?A ?B ?d (concat (gen_items g)) @
      items_rows ?A ?B (?d + ?T) (map lookup_item (g_lookups g))"
    by (simp add: its_def items_rows_append)
  have sums: "lc_val ?w (ones (items_ys (?d + items_width (concat (take k (gen_items g)))) (gen_items g ! k))) * ?w ! 0
        = lc_val ?w (?css ! k) \<longleftrightarrow> table_sum u g k = lookups_sum u g k"
    if s: "sat ?w (items_rows ?A ?B ?d its)" and k: "k < length (g_tables g)" for k
  proof -
    have "sat ?w (items_rows ?A ?B (?d + items_width (concat (take k (gen_items g)))) (gen_items g ! k))"
      using s k by (intro sat_items_nth) (auto simp: split)
    then have "lc_val ?w (ones (items_ys (?d + items_width (concat (take k (gen_items g)))) (gen_items g ! k))) =
        (\<Sum>it\<leftarrow>gen_items g ! k. lc_val ?w (it_num it) / item_den ?w ?A ?B it)"
      using den_t(1,3) [OF k] by (intro items_sound) auto
    also have "\<dots> = table_sum u g k"
      unfolding table_sum_items [OF assms(3) k]
      by (intro arg_cong [where f = sum_list] map_cong) (simp_all add: den_t [OF k])
    finally have left: "lc_val ?w (ones (items_ys (?d + items_width (concat (take k (gen_items g)))) (gen_items g ! k))) =
        table_sum u g k" .
    have "lc_val ?w (?css ! k) = lc_val ?w (replicate (length (g_tables g)) [] ! k) +
       (\<Sum>l\<leftarrow>filter (\<lambda>l. lk_table_id l = k) (g_lookups g).
          lc_val ?w (lk_flag l) / item_den ?w ?A ?B (lookup_item l))"
      using s k assms(1) den_l by (intro lookup_sums_val) (auto simp: split wf_gen_def lookup_wf_def)
    also have "\<dots> = lookups_sum u g k"
      using k unfolding lookups_sum_def
      by (simp, intro arg_cong [where f = sum_list] map_cong) (auto simp: den_l)
    finally show ?thesis using left u0 by simp
  qed
  have "sat ?w (sealed_rows g) \<longleftrightarrow> sat u (g_constraints g) \<and> sat ?w (items_rows ?A ?B ?d its) \<and>
      (\<forall>k < length (g_tables g). lc_val ?w (ones (items_ys (?d + items_width (concat (take k (gen_items g))))
         (gen_items g ! k))) * ?w ! 0 = lc_val ?w (?css ! k))"
    by (auto simp: sealed_rows_def Let_def sat_blocks alg split)
  then show ?thesis using sums by blast
qed

lemma seal_no_tables:
  assumes "g_tables g = []"
  shows "seal g = Some \<lparr>r_witness_layout =
      \<lparr>wl_algebraic_size = g_next_witness g, wl_multiplicities_size = 0, wl_challenges_size = 0,
       wl_tables_data_size = 0, wl_lookups_data_size = 0\<rparr>,
    r_constraints_layout = \<lparr>cl_algebraic_size = length (g_constraints g), cl_tables_data_size = 0,
       cl_lookups_data_size = 0\<rparr>, r_constraints = g_constraints g\<rparr>"
  by (simp add: seal_def assms)

subsection \<open>The sealed system is within its layout\<close>

lemma row_in_mono: "row_in n r \<Longrightarrow> n \<le> m \<Longrightarrow> row_in m r"
  by (auto simp: row_in_def intro: lc_in_mono)

lemma item_rows_in:
  assumes "item_in n it" "alpha < n" "it_val it \<noteq> None \<longrightarrow> beta < n" "n \<le> d" "d + item_width it \<le> m"
  shows "\<forall>r \<in> set (item_rows alpha beta d it). row_in m r" "item_y d it < m"
  using assms
  by (auto simp: item_rows_def item_in_def row_in_def item_width_def item_y_def
      intro: lc_in_mono split: option.splits)

lemma items_rows_in:
  "\<forall>it \<in> set its. item_in n it \<and> (it_val it \<noteq> None \<longrightarrow> beta < n) \<Longrightarrow> alpha < n \<Longrightarrow> n \<le> d \<Longrightarrow>
     d + items_width its \<le> m \<Longrightarrow>
     (\<forall>r \<in> set (items_rows alpha beta d its). row_in m r) \<and> (\<forall>y \<in> set (items_ys d its). y < m)"
proof (induction its arbitrary: d)
  case (Cons it its)
  then show ?case
    using Cons.IH [of "d + item_width it"] item_rows_in [of n it alpha beta d m] by auto
qed simp

lemma lc_in_ones: "lc_in m (ones ys) \<longleftrightarrow> (\<forall>y \<in> set ys. y < m)"
  by (auto simp: lc_in_def ones_def)

lemma blocks_in:
  "\<forall>its \<in> set itss. \<forall>it \<in> set its. item_in n it \<and> (it_val it \<noteq> None \<longrightarrow> beta < n) \<Longrightarrow> alpha < n \<Longrightarrow> n \<le> d \<Longrightarrow>
     d + items_width (concat itss) \<le> m \<Longrightarrow> \<forall>cs \<in> set css. lc_in m cs \<Longrightarrow> length css = length itss \<Longrightarrow>
     \<forall>r \<in> set (blocks alpha beta d itss css). row_in m r"
proof (induction itss arbitrary: d css)
  case (Cons its itss)
  then obtain cs css' where css: "css = cs # css'" "length css' = length itss" by (cases css) auto
  have "(\<forall>r \<in> set (items_rows alpha beta d its). row_in m r) \<and> (\<forall>y \<in> set (items_ys d its). y < m)"
    using Cons.prems by (intro items_rows_in [of _ n]) auto
  moreover have "\<forall>r \<in> set (blocks alpha beta (d + items_width its) itss css'). row_in m r"
    using Cons.prems css by (intro Cons.IH) auto
  moreover have "0 < m" using Cons.prems(2-4) by linarith
  ultimately show ?case using Cons.prems(5) by (auto simp: css(1) row_in_def lc_in_ones)
qed simp

lemma lookup_sums_in:
  "d + items_width (map lookup_item ls) \<le> m \<Longrightarrow> \<forall>cs \<in> set css. lc_in m cs \<Longrightarrow>
     \<forall>l \<in> set ls. lk_table_id l < length css \<Longrightarrow> \<forall>cs \<in> set (lookup_sums d ls css). lc_in m cs"
proof (induction ls arbitrary: d css)
  case (Cons l ls)
  have "item_y d (lookup_item l) < m"
    using Cons.prems(1) by (auto simp: item_y_def item_width_def split: option.splits)
  then have "\<forall>cs \<in> set (css[lk_table_id l := css ! lk_table_id l @ [(item_y d (lookup_item l), 1)]]). lc_in m cs"
    using Cons.prems(2,3) by (auto dest!: set_update_subset_insert [THEN subsetD])
  then show ?case unfolding lookup_sums.simps
    using Cons.prems by (intro Cons.IH) auto
qed simp

lemma sealed_rows_in:
  assumes "wf_gen g"
  shows "\<forall>r \<in> set (sealed_rows g). row_in (prefix_len g + items_width (concat (gen_items g)) +
     items_width (map lookup_item (g_lookups g))) r" (is "\<forall>r \<in> _. row_in ?m r")
proof -
  let ?e = "prefix_len g + items_width (concat (gen_items g))"
  let ?css = "lookup_sums ?e (g_lookups g) (replicate (length (g_tables g)) [])"
  have "\<forall>its \<in> set (gen_items g). \<forall>it \<in> set its. item_in (prefix_len g) it \<and> (it_val it \<noteq> None \<longrightarrow> beta_idx g < prefix_len g)"
    using table_item_in [OF assms] by (auto simp: in_set_conv_nth [of _ "gen_items g"])
  moreover have "\<forall>cs \<in> set ?css. lc_in ?m cs"
    using assms by (intro lookup_sums_in) (auto simp: wf_gen_def lookup_wf_def)
  ultimately have "\<forall>r \<in> set (blocks (alpha_idx g) (beta_idx g) (prefix_len g) (gen_items g) ?css). row_in ?m r"
    using alpha_in by (intro blocks_in [of _ "prefix_len g"]) auto
  moreover have "\<forall>r \<in> set (items_rows (alpha_idx g) (beta_idx g) ?e (map lookup_item (g_lookups g))). row_in ?m r"
    using lookup_item_in [OF assms] alpha_in
    by (intro items_rows_in [of _ "prefix_len g", THEN conjunct1]) (auto simp del: items_rows.simps)
  moreover have "row_in ?m r" if "r \<in> set (g_constraints g)" for r
  proof (rule row_in_mono [of "prefix_len g"])
    show "row_in (prefix_len g) r"
      using assms that wf_gen_prefix [OF assms] unfolding row_in_def wf_gen_def by blast
  qed simp
  ultimately show ?thesis by (auto simp: sealed_rows_def Let_def)
qed

subsection \<open>Properties of sealing\<close>

lemma sealed_fits:
  assumes "wf_gen g"
  shows "\<exists>r. seal g = Some r \<and> r1cs_fits (witness_size (r_witness_layout r)) r \<and>
    length (r_constraints r) = constraints_size (r_constraints_layout r) \<and>
    wl_algebraic_size (r_witness_layout r) = g_next_witness g \<and>
    cl_algebraic_size (r_constraints_layout r) = length (g_constraints g) \<and>
    take (length (g_constraints g)) (r_constraints r) = g_constraints g"
proof (cases "g_tables g = []")
  case True
  then show ?thesis using assms
    by (auto simp: seal_no_tables r1cs_fits_def r1cs_in_def witness_size_def constraints_size_def wf_gen_def)
next
  case False
  have "\<forall>l \<in> set (g_lookups g). lookup_ok (length (g_tables g)) l"
    using assms by (auto simp: wf_gen_def lookup_wf_ok)
  note e = seal_eq [OF False this]
  have "length (sealed_rows g) = length (g_constraints g) + (items_width (concat (gen_items g)) + length (g_tables g)) +
      items_width (map lookup_item (g_lookups g))"
    by (simp add: sealed_rows_def Let_def length_blocks)
  moreover have "take (length (g_constraints g)) (sealed_rows g) = g_constraints g"
    by (simp add: sealed_rows_def Let_def)
  ultimately show ?thesis
    using sealed_rows_in [OF assms] unfolding e
    by (auto simp: r1cs_fits_def r1cs_in_def row_in_def witness_size_def constraints_size_def
        prefix_len_def alpha_idx_def add.assoc)
qed

text \<open>C28. Sealing a well-formed state never panics and gives a system within its layouts: the
  algebraic section of the witness is the witness allocated so far, the algebraic constraints come
  first and unchanged, every index is below the size of the witness, and the number of constraints is
  the size of the constraints layout. So the checker of witnesses does not panic on it.\<close>

theorem seal_within_layout:
  assumes "wf_gen g"
  shows "\<exists>r. seal g = Some r \<and> r1cs_fits (witness_size (r_witness_layout r)) r \<and>
    length (r_constraints r) = constraints_size (r_constraints_layout r) \<and>
    wl_algebraic_size (r_witness_layout r) = g_next_witness g \<and>
    cl_algebraic_size (r_constraints_layout r) = length (g_constraints g) \<and>
    take (length (g_constraints g)) (r_constraints r) = g_constraints g"
  using assms by (rule sealed_fits)

text \<open>One witness besides the constant one, range-checked to one bit with a table of two entries.\<close>

definition sample_gen :: "rat r1c_gen" where
  "sample_gen = \<lparr>g_constraints = [\<lparr>r1c_a = [(1, 1)], r1c_b = [(1, 1)], r1c_c = [(1, 1)]\<rparr>],
     g_tables = [TabRange 1],
     g_lookups = [\<lparr>lk_table_id = 0, lk_elements = [[(1, 1)]], lk_flag = [(0, 1)]\<rparr>],
     g_next_witness = 2\<rparr>"

lemma sample_gen_wf: "wf_gen sample_gen"
  by (simp add: wf_gen_def sample_gen_def lookup_wf_def wide_def)

lemma sample_gen_sealed:
  "g_tables sample_gen \<noteq> []" "\<forall>l \<in> set (g_lookups sample_gen). lookup_ok (length (g_tables sample_gen)) l"
  "length (sealed_rows sample_gen) = 5" "n_challenges sample_gen = 1" "alpha_idx sample_gen = 4"
  "(\<Sum>t\<leftarrow>g_tables sample_gen. table_len t) = 2" "g_next_witness sample_gen = 2"
  "items_width (concat (gen_items sample_gen)) = 2" "items_width (map lookup_item (g_lookups sample_gen)) = 1"
  by (simp_all add: sample_gen_def lookup_ok_def sealed_rows_def Let_def length_blocks n_challenges_def
      alpha_idx_def wide_def table_len_def gen_items_def table_items_def entry_item_def item_width_def
      lookup_item_def numeral_2_eq_2)

theorem seal_within_layout_witness:
  "\<exists>r. seal sample_gen = Some r \<and> length (r_constraints r) = 5 \<and> witness_size (r_witness_layout r) = 8"
proof -
  from seal_within_layout [OF sample_gen_wf]
  obtain r where "seal sample_gen = Some r" by blast
  moreover from this have "length (r_constraints r) = 5 \<and> witness_size (r_witness_layout r) = 8"
    by (auto simp: seal_eq sample_gen_sealed witness_size_def)
  ultimately show ?thesis by blast
qed

lemma sealed_satisfiable_iff:
  assumes "wf_gen g" "g_tables g \<noteq> []" "length u = prefix_len g" "u ! 0 = 1" "no_poles u g"
  shows "\<exists>r. seal g = Some r \<and> challenges_end (r_witness_layout r) = length u \<and>
    ((\<exists>t. length (u @ t) = witness_size (r_witness_layout r) \<and> sat (u @ t) (r_constraints r)) \<longleftrightarrow>
     sat u (g_constraints g) \<and> (\<forall>k < length (g_tables g). table_sum u g k = lookups_sum u g k))"
proof -
  let ?its = "concat (gen_items g) @ map lookup_item (g_lookups g)"
  have "\<forall>l \<in> set (g_lookups g). lookup_ok (length (g_tables g)) l"
    using assms by (auto simp: wf_gen_def lookup_wf_ok)
  note e = seal_eq [OF assms(2) this]
  have "item_in (length u) it \<and> (it_val it \<noteq> None \<longrightarrow> beta_idx g < length u) \<and>
      item_den u (alpha_idx g) (beta_idx g) it \<noteq> 0" if it: "it \<in> set ?its" for it
  proof -
    from it consider (table) k where "k < length (g_tables g)" "it \<in> set (gen_items g ! k)"
      | (lookup) l where "l \<in> set (g_lookups g)" "it = lookup_item l"
      by (auto simp: in_set_conv_nth [of _ "gen_items g"])
    then show ?thesis
    proof cases
      case table
      then obtain x where "x \<in> set (entries (g_tables g ! k))" "it = entry_item (mult_off g k) x"
        by (auto simp: gen_items_def table_items_def simp del: split_paired_Ex)
      then show ?thesis
        using table_item_in [OF assms(1) table] table(1) assms(3-5)
        by (auto simp: no_poles_def item_den_entry)
    next
      case lookup
      then show ?thesis
        using lookup_item_in [OF assms(1) lookup(1)] assms(3,5)
        by (auto simp: no_poles_def item_den_lookup)
    qed
  qed
  then have "\<exists>s. length s = items_width ?its \<and>
      (\<forall>t'. sat ((u @ []) @ s @ t') (items_rows (alpha_idx g) (beta_idx g) (length (u @ [])) ?its))"
    using alpha_in [of g] assms(3) by (intro items_solvable ballI) (blast, simp)
  then obtain s where s: "length s = items_width ?its"
    and "\<forall>t'. sat ((u @ []) @ s @ t') (items_rows (alpha_idx g) (beta_idx g) (length (u @ [])) ?its)" by blast
  from spec [OF this(2), of "[]"]
  have sat: "sat (u @ s) (items_rows (alpha_idx g) (beta_idx g) (prefix_len g) ?its)"
    by (simp only: append_Nil2 assms(3))
  have "(\<exists>t. length (u @ t) = prefix_len g + items_width ?its \<and> sat (u @ t) (sealed_rows g)) \<longleftrightarrow>
      sat u (g_constraints g) \<and> (\<forall>k < length (g_tables g). table_sum u g k = lookups_sum u g k)"
    unfolding sealed_rows_sat [OF assms(1,3,4,5)] using s sat assms(3) by auto
  then show ?thesis unfolding e
    by (simp add: witness_size_def challenges_end_def challenges_start_def multiplicities_end_def
        multiplicities_start_def algebraic_end_def assms(3) prefix_len_def alpha_idx_def add.assoc)
qed

text \<open>C3. Soundness and completeness of the sealed system. Take a prefix \<open>u\<close> of the witness (algebraic
  part, multiplicities, challenges) with the constant one in place 0 and challenges that are no poles.
  The rest of the witness can be filled in so that every sealed constraint holds if and only if the
  algebraic constraints hold on \<open>u\<close> and, for every table, the sum of the multiplicities over the
  denominators of its entries equals the sum of the flags over the denominators of its lookups.\<close>

theorem seal_satisfiable_iff:
  assumes "wf_gen g" "g_tables g \<noteq> []" "length u = prefix_len g" "u ! 0 = 1" "no_poles u g"
  shows "\<exists>r. seal g = Some r \<and> challenges_end (r_witness_layout r) = length u \<and>
    ((\<exists>t. length (u @ t) = witness_size (r_witness_layout r) \<and> sat (u @ t) (r_constraints r)) \<longleftrightarrow>
     sat u (g_constraints g) \<and> (\<forall>k < length (g_tables g). table_sum u g k = lookups_sum u g k))"
  using assms by (rule sealed_satisfiable_iff)

theorem seal_satisfiable_iff_witness:
  "\<exists>r. seal sample_gen = Some r \<and>
     (\<exists>t. length ([1, 1, 0, 1, 7] @ t) = witness_size (r_witness_layout r) \<and> sat ([1, 1, 0, 1, 7] @ t) (r_constraints r)) \<and>
     \<not> (\<exists>t. length ([1, 1, 1, 0, 7] @ t) = witness_size (r_witness_layout r) \<and> sat ([1, 1, 1, 0, 7] @ t) (r_constraints r))"
proof -
  have ne: "g_tables sample_gen \<noteq> []" by (rule sample_gen_sealed(1))
  have defs: "sum_list (map table_len (g_tables sample_gen)) = 2" "alpha_idx sample_gen = 4" "prefix_len sample_gen = 5"
    by (simp_all add: sample_gen_sealed prefix_len_def)
  have np: "no_poles [1, 1, a, b, 7] sample_gen" for a b
    unfolding no_poles_def entry_den_def lookup_den_def defs
    by (simp add: sample_gen_def numeral_eq_Suc)
  have ts: "table_sum [1, 1, a, b, 7] sample_gen 0 = a / 7 + b / 6" for a b
    unfolding table_sum_def entry_den_def defs
    by (simp add: sample_gen_def mult_off_def numeral_eq_Suc)
  have ls: "lookups_sum [1, 1, a, b, 7] sample_gen 0 = 1 / 6" for a b
    unfolding lookups_sum_def lookup_den_def defs
    by (simp add: sample_gen_def numeral_eq_Suc)
  have al: "sat [1, 1, a, b, 7] (g_constraints sample_gen)" and n: "length (g_tables sample_gen) = 1" for a b
    by (simp_all add: sample_gen_def)
  from seal_satisfiable_iff [OF sample_gen_wf ne _ _ np [of 0 1]]
    seal_satisfiable_iff [OF sample_gen_wf ne _ _ np [of 1 0]] al
  show ?thesis by (auto simp: defs ts ls n)
qed

lemma entries_nth_key: "i < table_len t \<Longrightarrow> fst (entries t ! i) = i"
  by (cases t) (auto simp: table_len_def nth_enumerate_eq case_prod_unfold)

lemma table_sum_index:
  "table_sum u g k = (\<Sum>i < table_len (g_tables g ! k).
     u ! (mult_off g k + i) / entry_den u g (entries (g_tables g ! k) ! i))"
proof -
  let ?es = "entries (g_tables g ! k)"
  have "table_sum u g k = (\<Sum>i < length ?es.
      (\<lambda>(i, v). u ! (mult_off g k + i) / entry_den u g (i, v)) (?es ! i))"
    unfolding table_sum_def by (simp add: sum_list_sum_nth atLeast0LessThan)
  also have "\<dots> = (\<Sum>i < length ?es. u ! (mult_off g k + i) / entry_den u g (?es ! i))"
    using entries_nth_key [of _ "g_tables g ! k"]
    by (intro sum.cong) (auto simp: table_len_def case_prod_unfold)
  finally show ?thesis by (simp add: table_len_def)
qed

lemma count_quotients:
  fixes d :: "nat \<Rightarrow> 'f :: field"
  assumes "\<forall>l \<in> set ls. (F l = 0 \<or> F l = 1) \<and> (F l = 1 \<longrightarrow> f l < n \<and> D l = d (f l))"
  shows "(\<Sum>l\<leftarrow>ls. F l / D l) = (\<Sum>i < n. of_nat (length (filter (\<lambda>l. F l = 1 \<and> f l = i) ls)) / d i)"
  using assms
proof (induction ls)
  case (Cons l ls)
  let ?c = "\<lambda>ls i. of_nat (length (filter (\<lambda>l. F l = 1 \<and> f l = i) ls)) / d i"
  have "(\<Sum>i < n. ?c (l # ls) i) = (\<Sum>i < n. (if F l = 1 \<and> f l = i then 1 / d i else 0) + ?c ls i)"
    by (intro sum.cong) (auto simp: add_divide_distrib)
  also have "\<dots> = (\<Sum>i < n. if F l = 1 \<and> f l = i then 1 / d i else 0) + (\<Sum>i < n. ?c ls i)"
    by (rule sum.distrib)
  also have "(\<Sum>i < n. if F l = 1 \<and> f l = i then 1 / d i else 0) = F l / D l"
    using Cons.prems by (cases "F l = 1") (auto simp: sum.delta')
  finally show ?case using Cons by simp
qed simp

text \<open>An honest prover meets the sums: if the flags of the lookups of a table are zero or one, every
  lookup with flag one has the denominator of some entry, and the multiplicity of each entry counts the
  lookups with flag one sent to it, then the two sums of the table agree, whatever the challenges.\<close>

lemma honest_multiplicities:
  assumes "\<forall>l \<in> set (g_lookups g). lk_table_id l = k \<longrightarrow>
      (lc_val u (lk_flag l) = 0 \<or> lc_val u (lk_flag l) = 1) \<and>
      (lc_val u (lk_flag l) = 1 \<longrightarrow> f l < table_len (g_tables g ! k) \<and>
         lookup_den u g l = entry_den u g (entries (g_tables g ! k) ! f l))"
    and "\<forall>i < table_len (g_tables g ! k). u ! (mult_off g k + i) =
      of_nat (length (filter (\<lambda>l. lc_val u (lk_flag l) = 1 \<and> f l = i)
        (filter (\<lambda>l. lk_table_id l = k) (g_lookups g))))"
  shows "table_sum u g k = lookups_sum u g k"
proof -
  let ?ls = "filter (\<lambda>l. lk_table_id l = k) (g_lookups g)"
  have "lookups_sum u g k = (\<Sum>i < table_len (g_tables g ! k).
      of_nat (length (filter (\<lambda>l. lc_val u (lk_flag l) = 1 \<and> f l = i) ?ls)) /
      entry_den u g (entries (g_tables g ! k) ! i))"
    unfolding lookups_sum_def
    by (rule count_quotients [where d = "\<lambda>i. entry_den u g (entries (g_tables g ! k) ! i)"])
      (use assms(1) in auto)
  then show ?thesis using assms(2) by (simp add: table_sum_index del: filter_filter)
qed

text \<open>The tuple that a lookup looks up is row \<open>i\<close> of its table: the number \<open>i\<close>, with the element of that index in a table
  of elements and with the spread of \<open>i\<close> in a table of spreads.\<close>

definition finds :: "'f::field list \<Rightarrow> 'f r1c_gen \<Rightarrow> 'f lookup_constraint \<Rightarrow> nat \<Rightarrow> bool" where
  "finds u g l i \<longleftrightarrow> (case g_tables g ! lk_table_id l of
     TabRange bits \<Rightarrow> i < 2 ^ bits \<and> map (lc_val u) (lk_elements l) = [of_nat i]
   | TabOfElems els \<Rightarrow> i < length els \<and> map (lc_val u) (lk_elements l) = [of_nat i, lc_val u (els ! i)]
   | TabSpread bits \<Rightarrow> i < 2 ^ bits \<and> map (lc_val u) (lk_elements l) = [of_nat i, spread_value i])"

lemma finds_den:
  assumes "finds u g l i" "u ! 0 = 1"
  shows "i < table_len (g_tables g ! lk_table_id l) \<and>
    lookup_den u g l = entry_den u g (entries (g_tables g ! lk_table_id l) ! i)"
proof (cases "g_tables g ! lk_table_id l")
  case (TabRange bits)
  then obtain x where "lk_elements l = [x]" "lc_val u x = of_nat i" "i < 2 ^ bits" using assms(1) by (auto simp: finds_def)
  then show ?thesis by (simp add: TabRange table_len_def lookup_den_def entry_den_def)
next
  case (TabOfElems els)
  then obtain x y where "lk_elements l = [x, y]" "lc_val u x = of_nat i" "lc_val u y = lc_val u (els ! i)" "i < length els"
    using assms(1) by (auto simp: finds_def)
  then show ?thesis by (simp add: TabOfElems table_len_def lookup_den_def entry_den_def nth_enumerate_eq)
next
  case (TabSpread bits)
  then obtain x y where "lk_elements l = [x, y]" "lc_val u x = of_nat i" "lc_val u y = spread_value i" "i < 2 ^ bits"
    using assms(1) by (auto simp: finds_def)
  then show ?thesis using assms(2) by (simp add: TabSpread table_len_def lookup_den_def entry_den_def)
qed

text \<open>C30. Completeness of the sealed system for an honest prover. Take a prefix \<open>u\<close> of the witness on which the
  algebraic constraints hold, every lookup either is switched off by its flag \<open>0\<close> or has the flag \<open>1\<close> and looks up the row
  \<open>f l\<close> of its table, and the multiplicity of every row counts the lookups sent to it. Then sealing succeeds and, whatever
  the challenges, as long as they are no poles, the rest of the witness can be filled in so that every constraint of the
  sealed system holds.\<close>

theorem honest_prover_satisfies:
  assumes "wf_gen g" "g_tables g \<noteq> []" "length u = prefix_len g" "u ! 0 = 1" "no_poles u g" "sat u (g_constraints g)"
    "\<forall>l \<in> set (g_lookups g). lc_val u (lk_flag l) = 0 \<or> lc_val u (lk_flag l) = 1 \<and> finds u g l (f l)"
    "\<forall>k < length (g_tables g). \<forall>i < table_len (g_tables g ! k). u ! (mult_off g k + i) =
       of_nat (length (filter (\<lambda>l. lc_val u (lk_flag l) = 1 \<and> f l = i) (filter (\<lambda>l. lk_table_id l = k) (g_lookups g))))"
  shows "\<exists>r t. seal g = Some r \<and> length (u @ t) = witness_size (r_witness_layout r) \<and> sat (u @ t) (r_constraints r)"
proof -
  have "table_sum u g k = lookups_sum u g k" if k: "k < length (g_tables g)" for k
    by (rule honest_multiplicities [where f = f]) (use assms(7,8) finds_den [OF _ assms(4)] k in \<open>auto simp del: filter_filter\<close>)
  then show ?thesis using sealed_satisfiable_iff [OF assms(1-5)] assms(6) by blast
qed

lemma honest_prover_satisfies_witness:
  "\<exists>r t. seal sample_gen = Some r \<and> length ([1, 1, 0, 1, 7] @ t) = witness_size (r_witness_layout r) \<and>
    sat ([1, 1, 0, 1, 7] @ t) (r_constraints r)"
proof (rule honest_prover_satisfies [where f = "\<lambda>_. 1"])
  have defs: "sum_list (map table_len (g_tables sample_gen)) = 2" "alpha_idx sample_gen = 4" "prefix_len sample_gen = 5"
    by (simp_all add: sample_gen_sealed prefix_len_def)
  show "length [1, 1, 0, 1, 7 :: rat] = prefix_len sample_gen" by (simp add: defs)
  show "no_poles [1, 1, 0, 1, 7] sample_gen"
    unfolding no_poles_def entry_den_def lookup_den_def defs by (simp add: sample_gen_def numeral_eq_Suc)
  show "sat [1, 1, 0, 1, 7] (g_constraints sample_gen)" by (simp add: sample_gen_def)
  show "\<forall>l \<in> set (g_lookups sample_gen). lc_val [1, 1, 0, 1, 7] (lk_flag l) = 0 \<or>
      lc_val [1, 1, 0, 1, 7] (lk_flag l) = 1 \<and> finds [1, 1, 0, 1, 7] sample_gen l 1"
    by (simp add: sample_gen_def finds_def)
  show "\<forall>k < length (g_tables sample_gen). \<forall>i < table_len (g_tables sample_gen ! k). [1, 1, 0, 1, 7 :: rat] ! (mult_off sample_gen k + i) =
      of_nat (length (filter (\<lambda>l. lc_val [1, 1, 0, 1, 7] (lk_flag l) = 1 \<and> 1 = i)
        (filter (\<lambda>l. lk_table_id l = k) (g_lookups sample_gen))))"
    by (simp add: sample_gen_def table_len_def mult_off_def All_less_Suc2 numeral_eq_Suc)
qed (simp_all add: sample_gen_wf sample_gen_sealed)

end
