(* ===== verification/HL_Types.thy ===== *)
theory HL_Types
  imports MavPrelude
begin

text \<open>
  The type system of the high-level SSA (\<^verbatim>\<open>compiler/src/compiler/ssa/hlssa/type_system.rs\<close>):
  the types, their constructors, predicates and accessors, the \<open>WitnessOf\<close> subtyping relation,
  the join at merge points and the result type of arithmetic. Accessors that panic on a type of
  the wrong shape return an option.
\<close>

subsection \<open>Types\<close>

text \<open>The struct \<^verbatim>\<open>Type\<close> only wraps its \<^verbatim>\<open>TypeExpr\<close>; both are this datatype.\<close>

datatype ty =
    TField
  | TU nat
  | TI nat
  | TWitnessOf ty
  | TArray ty nat
  | TSlice ty
  | TRef ty
  | TTuple "ty list"
  | TFunction

fun show_ty :: "ty \<Rightarrow> string" where
  "show_ty TField = ''Field''"
| "show_ty (TU n) = ''u'' @ nat_str n"
| "show_ty (TI n) = ''i'' @ nat_str n"
| "show_ty (TWitnessOf inner) = ''WitnessOf('' @ show_ty inner @ '')''"
| "show_ty (TArray inner n) = ''Array<'' @ show_ty inner @ '', '' @ nat_str n @ ''>''"
| "show_ty (TSlice inner) = ''Slice<'' @ show_ty inner @ ''>''"
| "show_ty (TRef inner) = ''Ref<'' @ show_ty inner @ ''>''"
| "show_ty (TTuple elements) = ''Tuple<'' @ join_str '', '' (map show_ty elements) @ ''>''"
| "show_ty TFunction = ''Function''"

subsection \<open>Constructors\<close>

definition ty_bool :: ty where "ty_bool = TU 1"
definition ty_u32 :: ty where "ty_u32 = TU 32"

text \<open>Wrapping a type twice is a bug that the code asserts against.\<close>

definition witness_of :: "ty \<Rightarrow> ty option" where
  "witness_of inner = (case inner of TWitnessOf _ \<Rightarrow> None | _ \<Rightarrow> Some (TWitnessOf inner))"

subsection \<open>Predicates\<close>

fun is_numeric :: "ty \<Rightarrow> bool" where
  "is_numeric (TU _) = True"
| "is_numeric (TI _) = True"
| "is_numeric TField = True"
| "is_numeric (TWitnessOf inner) = is_numeric inner"
| "is_numeric _ = False"

definition is_field :: "ty \<Rightarrow> bool" where
  "is_field t = (case t of TField \<Rightarrow> True | _ \<Rightarrow> False)"
definition is_array :: "ty \<Rightarrow> bool" where
  "is_array t = (case t of TArray _ _ \<Rightarrow> True | _ \<Rightarrow> False)"
definition is_slice :: "ty \<Rightarrow> bool" where
  "is_slice t = (case t of TSlice _ \<Rightarrow> True | _ \<Rightarrow> False)"
definition is_array_or_slice :: "ty \<Rightarrow> bool" where
  "is_array_or_slice t = (case t of TArray _ _ \<Rightarrow> True | TSlice _ \<Rightarrow> True | _ \<Rightarrow> False)"
definition is_witness_of :: "ty \<Rightarrow> bool" where
  "is_witness_of t = (case t of TWitnessOf _ \<Rightarrow> True | _ \<Rightarrow> False)"
definition is_u :: "ty \<Rightarrow> bool" where
  "is_u t = (case t of TU _ \<Rightarrow> True | _ \<Rightarrow> False)"
definition is_i :: "ty \<Rightarrow> bool" where
  "is_i t = (case t of TI _ \<Rightarrow> True | _ \<Rightarrow> False)"
definition is_integer :: "ty \<Rightarrow> bool" where
  "is_integer t = (case t of TU _ \<Rightarrow> True | TI _ \<Rightarrow> True | _ \<Rightarrow> False)"
definition is_u32 :: "ty \<Rightarrow> bool" where
  "is_u32 t = (case t of TU n \<Rightarrow> n = 32 | _ \<Rightarrow> False)"
definition is_heap_allocated :: "ty \<Rightarrow> bool" where
  "is_heap_allocated t = (case t of TWitnessOf _ \<Rightarrow> True | TArray _ _ \<Rightarrow> True | TSlice _ \<Rightarrow> True
     | TRef _ \<Rightarrow> True | TTuple _ \<Rightarrow> True | _ \<Rightarrow> False)"
definition is_function :: "ty \<Rightarrow> bool" where
  "is_function t = (case t of TFunction \<Rightarrow> True | _ \<Rightarrow> False)"
definition has_eq :: "ty \<Rightarrow> bool" where
  "has_eq t = (case t of TField \<Rightarrow> True | TU _ \<Rightarrow> True | TI _ \<Rightarrow> True | _ \<Rightarrow> False)"
definition is_ref :: "ty \<Rightarrow> bool" where
  "is_ref t = (case t of TRef _ \<Rightarrow> True | _ \<Rightarrow> False)"
definition is_tuple :: "ty \<Rightarrow> bool" where
  "is_tuple t = (case t of TTuple _ \<Rightarrow> True | _ \<Rightarrow> False)"

subsection \<open>Accessors\<close>

fun get_array_element :: "ty \<Rightarrow> ty option" where
  "get_array_element (TArray inner _) = Some inner"
| "get_array_element (TSlice inner) = Some inner"
| "get_array_element (TWitnessOf inner) = Option.bind (get_array_element inner) witness_of"
| "get_array_element _ = None"

fun get_pointed :: "ty \<Rightarrow> ty option" where
  "get_pointed (TRef inner) = Some inner"
| "get_pointed _ = None"

fun get_tuple_element :: "ty \<Rightarrow> nat \<Rightarrow> ty option" where
  "get_tuple_element (TTuple elements) index = nth_opt elements index"
| "get_tuple_element (TWitnessOf inner) index = Option.bind (get_tuple_element inner index) witness_of"
| "get_tuple_element _ index = None"

fun get_tuple_elements :: "ty \<Rightarrow> ty list option" where
  "get_tuple_elements (TTuple elements) = Some elements"
| "get_tuple_elements (TWitnessOf inner) = Option.bind (get_tuple_elements inner) (opt_map witness_of)"
| "get_tuple_elements _ = None"

fun get_refered :: "ty \<Rightarrow> ty option" where
  "get_refered (TRef inner) = Some inner"
| "get_refered _ = None"

fun get_bit_size :: "ty \<Rightarrow> nat option" where
  "get_bit_size (TU n) = Some n"
| "get_bit_size (TI n) = Some n"
| "get_bit_size TField = Some 254"
| "get_bit_size (TWitnessOf inner) = get_bit_size inner"
| "get_bit_size _ = None"

subsection \<open>Helpers for \<open>WitnessOf\<close>\<close>

fun unwrap_witness_of :: "ty \<Rightarrow> ty option" where
  "unwrap_witness_of (TWitnessOf inner) = Some inner"
| "unwrap_witness_of _ = None"

fun try_unwrap_witness_of :: "ty \<Rightarrow> ty option" where
  "try_unwrap_witness_of (TWitnessOf inner) = Some inner"
| "try_unwrap_witness_of _ = None"

fun strip_witness :: "ty \<Rightarrow> ty" where
  "strip_witness (TWitnessOf inner) = inner"
| "strip_witness t = t"

fun strip_all_witness :: "ty \<Rightarrow> ty" where
  "strip_all_witness (TWitnessOf inner) = strip_all_witness inner"
| "strip_all_witness (TArray inner n) = TArray (strip_all_witness inner) n"
| "strip_all_witness (TSlice inner) = TSlice (strip_all_witness inner)"
| "strip_all_witness (TRef inner) = TRef (strip_all_witness inner)"
| "strip_all_witness (TTuple elements) = TTuple (map strip_all_witness elements)"
| "strip_all_witness t = t"

subsection \<open>Subtyping\<close>

text \<open>One equation per constructor of the first type; the rows of the code's match on the pair are
  the branches on the second type.\<close>

function is_subtype_of :: "ty \<Rightarrow> ty \<Rightarrow> bool" where
  "is_subtype_of (TWitnessOf inner_a) b = (case b of
      TWitnessOf inner_b \<Rightarrow> is_subtype_of inner_a inner_b | _ \<Rightarrow> False)"
| "is_subtype_of TField b = (case b of
      TWitnessOf inner_b \<Rightarrow> is_subtype_of TField inner_b | TField \<Rightarrow> True | _ \<Rightarrow> False)"
| "is_subtype_of (TU n) b = (case b of
      TWitnessOf inner_b \<Rightarrow> is_subtype_of (TU n) inner_b | TU m \<Rightarrow> n = m | _ \<Rightarrow> False)"
| "is_subtype_of (TI n) b = (case b of
      TWitnessOf inner_b \<Rightarrow> is_subtype_of (TI n) inner_b | TI m \<Rightarrow> n = m | _ \<Rightarrow> False)"
| "is_subtype_of (TArray x n) b = (case b of
      TWitnessOf inner_b \<Rightarrow> is_subtype_of (TArray x n) inner_b
    | TArray y m \<Rightarrow> n = m \<and> is_subtype_of x y | _ \<Rightarrow> False)"
| "is_subtype_of (TSlice x) b = (case b of
      TWitnessOf inner_b \<Rightarrow> is_subtype_of (TSlice x) inner_b
    | TSlice y \<Rightarrow> is_subtype_of x y | _ \<Rightarrow> False)"
| "is_subtype_of (TTuple xs) b = (case b of
      TWitnessOf inner_b \<Rightarrow> is_subtype_of (TTuple xs) inner_b
    | TTuple ys \<Rightarrow> length xs = length ys \<and> list_all (\<lambda>(x, y). is_subtype_of x y) (zip xs ys)
    | _ \<Rightarrow> False)"
| "is_subtype_of (TRef x) b = (case b of
      TWitnessOf inner_b \<Rightarrow> is_subtype_of (TRef x) inner_b | TRef y \<Rightarrow> x = y | _ \<Rightarrow> False)"
| "is_subtype_of TFunction b = (case b of
      TWitnessOf inner_b \<Rightarrow> is_subtype_of TFunction inner_b | TFunction \<Rightarrow> True | _ \<Rightarrow> False)"
  by pat_completeness auto

lemma size_zip_elems:
  "(x, y) \<in> set (zip xs ys) \<Longrightarrow> size x + size y < Suc (size_list size xs) + Suc (size_list size ys)"
  by (frule set_zip_leftD, drule set_zip_rightD)
    (metis add_less_mono less_Suc_eq_le size_list_estimation' order_refl)

termination is_subtype_of
  by (relation "measure (\<lambda>(a, b). size a + size b)") (auto dest!: size_zip_elems)

definition needs_witness_cast :: "ty \<Rightarrow> ty \<Rightarrow> bool" where
  "needs_witness_cast t target \<longleftrightarrow> t \<noteq> target \<and> is_subtype_of t target"

subsection \<open>Join\<close>

text \<open>The least upper bound at a merge point; the code panics when the shapes do not agree.\<close>

function join :: "ty \<Rightarrow> ty \<Rightarrow> ty option" where
  "join (TWitnessOf inner_a) b = (case b of
      TWitnessOf inner_b \<Rightarrow> Option.bind (join inner_a inner_b) witness_of
    | _ \<Rightarrow> Option.bind (join inner_a b) witness_of)"
| "join TField b = (case b of
      TWitnessOf inner_b \<Rightarrow> Option.bind (join TField inner_b) witness_of
    | TField \<Rightarrow> Some TField | _ \<Rightarrow> None)"
| "join (TU n) b = (case b of
      TWitnessOf inner_b \<Rightarrow> Option.bind (join (TU n) inner_b) witness_of
    | TU m \<Rightarrow> (if n = m then Some (TU n) else None) | _ \<Rightarrow> None)"
| "join (TI n) b = (case b of
      TWitnessOf inner_b \<Rightarrow> Option.bind (join (TI n) inner_b) witness_of
    | TI m \<Rightarrow> (if n = m then Some (TI n) else None) | _ \<Rightarrow> None)"
| "join (TArray x n) b = (case b of
      TWitnessOf inner_b \<Rightarrow> Option.bind (join (TArray x n) inner_b) witness_of
    | TArray y m \<Rightarrow> (if n = m then map_option (\<lambda>t. TArray t n) (join x y) else None) | _ \<Rightarrow> None)"
| "join (TSlice x) b = (case b of
      TWitnessOf inner_b \<Rightarrow> Option.bind (join (TSlice x) inner_b) witness_of
    | TSlice y \<Rightarrow> map_option TSlice (join x y) | _ \<Rightarrow> None)"
| "join (TTuple xs) b = (case b of
      TWitnessOf inner_b \<Rightarrow> Option.bind (join (TTuple xs) inner_b) witness_of
    | TTuple ys \<Rightarrow> (if length xs = length ys
        then map_option TTuple (opt_map (\<lambda>(x, y). join x y) (zip xs ys)) else None)
    | _ \<Rightarrow> None)"
| "join (TRef x) b = (case b of
      TWitnessOf inner_b \<Rightarrow> Option.bind (join (TRef x) inner_b) witness_of
    | TRef y \<Rightarrow> map_option TRef (join x y) | _ \<Rightarrow> None)"
| "join TFunction b = (case b of
      TWitnessOf inner_b \<Rightarrow> Option.bind (join TFunction inner_b) witness_of
    | TFunction \<Rightarrow> Some TFunction | _ \<Rightarrow> None)"
  by pat_completeness auto
termination join
  by (relation "measure (\<lambda>(a, b). size a + size b)") (auto dest!: size_zip_elems)

subsection \<open>Comparison, arithmetic and size\<close>

fun is_ref_of :: "ty \<Rightarrow> ty \<Rightarrow> bool" where
  "is_ref_of (TRef inner) other = (inner = other)"
| "is_ref_of _ other = False"

function get_arithmetic_result_type :: "ty \<Rightarrow> ty \<Rightarrow> ty option" where
  "get_arithmetic_result_type (TWitnessOf inner) other = (case other of
      TWitnessOf b \<Rightarrow> Option.bind (get_arithmetic_result_type inner b) witness_of
    | _ \<Rightarrow> Option.bind (get_arithmetic_result_type inner other) witness_of)"
| "get_arithmetic_result_type TField other = (case other of
      TWitnessOf inner \<Rightarrow> Option.bind (get_arithmetic_result_type TField inner) witness_of
    | _ \<Rightarrow> Some TField)"
| "get_arithmetic_result_type (TU size1) other = (case other of
      TWitnessOf inner \<Rightarrow> Option.bind (get_arithmetic_result_type (TU size1) inner) witness_of
    | TField \<Rightarrow> Some TField | TU size2 \<Rightarrow> Some (TU (max size1 size2)) | _ \<Rightarrow> None)"
| "get_arithmetic_result_type (TI size1) other = (case other of
      TWitnessOf inner \<Rightarrow> Option.bind (get_arithmetic_result_type (TI size1) inner) witness_of
    | TField \<Rightarrow> Some TField | TI size2 \<Rightarrow> Some (TI (max size1 size2)) | _ \<Rightarrow> None)"
| "get_arithmetic_result_type (TArray t n) other = (case other of
      TWitnessOf inner \<Rightarrow> Option.bind (get_arithmetic_result_type (TArray t n) inner) witness_of
    | TField \<Rightarrow> Some TField | _ \<Rightarrow> None)"
| "get_arithmetic_result_type (TSlice t) other = (case other of
      TWitnessOf inner \<Rightarrow> Option.bind (get_arithmetic_result_type (TSlice t) inner) witness_of
    | TField \<Rightarrow> Some TField | _ \<Rightarrow> None)"
| "get_arithmetic_result_type (TTuple ts) other = (case other of
      TWitnessOf inner \<Rightarrow> Option.bind (get_arithmetic_result_type (TTuple ts) inner) witness_of
    | TField \<Rightarrow> Some TField | _ \<Rightarrow> None)"
| "get_arithmetic_result_type (TRef t) other = (case other of
      TWitnessOf inner \<Rightarrow> Option.bind (get_arithmetic_result_type (TRef t) inner) witness_of
    | TField \<Rightarrow> Some TField | _ \<Rightarrow> None)"
| "get_arithmetic_result_type TFunction other = (case other of
      TWitnessOf inner \<Rightarrow> Option.bind (get_arithmetic_result_type TFunction inner) witness_of
    | TField \<Rightarrow> Some TField | _ \<Rightarrow> None)"
  by pat_completeness auto
termination get_arithmetic_result_type
  by (relation "measure (\<lambda>(a, b). size a + size b)") auto

fun contains_ptrs :: "ty \<Rightarrow> bool" where
  "contains_ptrs (TRef _) = True"
| "contains_ptrs (TArray inner _) = contains_ptrs inner"
| "contains_ptrs (TSlice inner) = contains_ptrs inner"
| "contains_ptrs (TWitnessOf inner) = contains_ptrs inner"
| "contains_ptrs TField = False"
| "contains_ptrs (TU _) = False"
| "contains_ptrs (TI _) = False"
| "contains_ptrs TFunction = False"
| "contains_ptrs (TTuple elements) = list_ex contains_ptrs elements"

fun calculate_type_size :: "ty \<Rightarrow> nat option" where
  "calculate_type_size TField = Some 1"
| "calculate_type_size (TArray _ _) = Some 1"
| "calculate_type_size (TTuple inner_types) = map_option sum_list (opt_map calculate_type_size inner_types)"
| "calculate_type_size TFunction = Some 1"
| "calculate_type_size (TU _) = Some 1"
| "calculate_type_size (TI _) = Some 1"
| "calculate_type_size (TWitnessOf _) = Some 1"
| "calculate_type_size _ = None"

subsection \<open>Subtyping: shared facts\<close>

lemma sub_witness_both [simp]: "is_subtype_of (TWitnessOf a) (TWitnessOf b) = is_subtype_of a b"
  by simp

lemma sub_into_witness [simp]:
  "\<not> is_witness_of a \<Longrightarrow> is_subtype_of a (TWitnessOf b) = is_subtype_of a b"
  by (cases a) (simp_all add: is_witness_of_def)

lemma sub_of_witness: "is_subtype_of (TWitnessOf a) b \<longleftrightarrow> (\<exists>b'. b = TWitnessOf b' \<and> is_subtype_of a b')"
  by (cases b) auto

lemma sub_tuples: "is_subtype_of (TTuple xs) (TTuple ys) = list_all2 is_subtype_of xs ys"
  by (auto simp: list_all2_iff list_all_iff)

lemma is_witness_of_iff: "is_witness_of t \<longleftrightarrow> (\<exists>t'. t = TWitnessOf t')"
  by (cases t) (auto simp: is_witness_of_def)

lemma size_elem: "x \<in> set xs \<Longrightarrow> size x < Suc (size_list size xs)"
  by (simp add: less_Suc_eq_le size_list_estimation')

lemmas sub_unfold = is_subtype_of.simps
declare is_subtype_of.simps [simp del]

lemma sub_right [simp]:
  "is_subtype_of a TField \<longleftrightarrow> a = TField"
  "is_subtype_of a TFunction \<longleftrightarrow> a = TFunction"
  "is_subtype_of a (TU n) \<longleftrightarrow> a = TU n"
  "is_subtype_of a (TI n) \<longleftrightarrow> a = TI n"
  "is_subtype_of a (TArray y n) \<longleftrightarrow> (\<exists>x. a = TArray x n \<and> is_subtype_of x y)"
  "is_subtype_of a (TSlice y) \<longleftrightarrow> (\<exists>x. a = TSlice x \<and> is_subtype_of x y)"
  "is_subtype_of a (TTuple ys) \<longleftrightarrow> (\<exists>xs. a = TTuple xs \<and> list_all2 is_subtype_of xs ys)"
  "is_subtype_of a (TRef y) \<longleftrightarrow> a = TRef y"
  by (cases a; auto simp: sub_unfold sub_tuples [unfolded sub_unfold ty.case])+

subsection \<open>Subtyping is a partial order\<close>

lemma sub_refl [simp]: "is_subtype_of t t"
  by (induction t) (auto intro: list.rel_refl_strong)

lemma sub_step_into: "is_subtype_of a b \<Longrightarrow> is_subtype_of a (TWitnessOf b)"
proof (induction a arbitrary: b)
  case (TWitnessOf a)
  then show ?case by (auto simp: sub_of_witness)
qed (simp_all add: is_witness_of_def)

lemma sub_trans:
  "is_subtype_of a b \<Longrightarrow> is_subtype_of b c \<Longrightarrow> is_subtype_of a c"
proof (induction "size a + size b + size c" arbitrary: a b c rule: less_induct)
  case less
  note IH = less.hyps and ab = less.prems(1) and bc = less.prems(2)
  show ?case
  proof (cases "is_witness_of c")
    case True
    then obtain c' where c: "c = TWitnessOf c'" by (auto simp: is_witness_of_iff)
    show ?thesis
    proof (cases "is_witness_of b")
      case True
      then obtain b' where b: "b = TWitnessOf b'" by (auto simp: is_witness_of_iff)
      show ?thesis
      proof (cases "is_witness_of a")
        case True
        then show ?thesis using ab bc IH [of _ b' c'] by (auto simp: is_witness_of_iff b c)
      next
        case False
        then show ?thesis using ab bc IH [of a b' c'] by (simp add: b c)
      qed
    next
      case False
      then show ?thesis using ab bc IH [of a b c'] by (auto simp: c intro: sub_step_into)
    qed
  next
    case False
    show ?thesis
    proof (cases c)
      case (TTuple zs)
      then obtain ys where b: "b = TTuple ys" and yz: "list_all2 is_subtype_of ys zs" using bc by auto
      then obtain xs where a: "a = TTuple xs" and xy: "list_all2 is_subtype_of xs ys" using ab by auto
      have "is_subtype_of x z" if "x \<in> set xs" "y \<in> set ys" "z \<in> set zs"
        "is_subtype_of x y" "is_subtype_of y z" for x y z
        using less.hyps [of x y z] that size_elem [OF that(1)] size_elem [OF that(2)] size_elem [OF that(3)]
        by (simp add: a b TTuple)
      then have "list_all2 is_subtype_of xs zs"
        using xy yz by (simp add: list_all2_conv_all_nth) (metis nth_mem)
      then show ?thesis by (simp add: a TTuple)
    next
      case (TArray z n)
      then obtain y where b: "b = TArray y n" "is_subtype_of y z" using bc by auto
      then obtain x where "a = TArray x n" "is_subtype_of x y" using ab by auto
      then show ?thesis using TArray b less.hyps [of x y z] by simp
    next
      case (TSlice z)
      then obtain y where b: "b = TSlice y" "is_subtype_of y z" using bc by auto
      then obtain x where "a = TSlice x" "is_subtype_of x y" using ab by auto
      then show ?thesis using TSlice b less.hyps [of x y z] by simp
    qed (use ab bc False in \<open>auto simp: is_witness_of_def\<close>)
  qed
qed

lemma sub_antisym: "is_subtype_of a b \<Longrightarrow> is_subtype_of b a \<Longrightarrow> a = b"
proof (induction b arbitrary: a)
  case (TTuple ys)
  then show ?case
    by (auto simp: list_all2_conv_all_nth intro!: nth_equalityI)
next
  case (TWitnessOf b)
  then show ?case by (auto simp: sub_of_witness)
qed auto

subsection \<open>Well-formed types and the join\<close>

text \<open>The types that the constructors of the code can build: \<open>witness_of\<close> never wraps twice.\<close>

fun wf_ty :: "ty \<Rightarrow> bool" where
  "wf_ty (TWitnessOf t) \<longleftrightarrow> \<not> is_witness_of t \<and> wf_ty t"
| "wf_ty (TArray t n) \<longleftrightarrow> wf_ty t"
| "wf_ty (TSlice t) \<longleftrightarrow> wf_ty t"
| "wf_ty (TRef t) \<longleftrightarrow> wf_ty t"
| "wf_ty (TTuple ts) \<longleftrightarrow> list_all wf_ty ts"
| "wf_ty _ \<longleftrightarrow> True"

lemma witness_of_Some [simp]: "witness_of t = Some u \<longleftrightarrow> \<not> is_witness_of t \<and> u = TWitnessOf t"
  by (cases t) (auto simp: witness_of_def is_witness_of_def)

lemma witness_of_None [simp]: "witness_of t = None \<longleftrightarrow> is_witness_of t"
  by (cases t) (auto simp: witness_of_def is_witness_of_def)

lemma join_witness_both [simp]:
  "join (TWitnessOf a) (TWitnessOf b) = Option.bind (join a b) witness_of"
  by simp

lemma join_witness_left [simp]:
  "\<not> is_witness_of b \<Longrightarrow> join (TWitnessOf a) b = Option.bind (join a b) witness_of"
  by (cases b) (simp_all add: is_witness_of_def)

lemma join_witness_right [simp]:
  "\<not> is_witness_of a \<Longrightarrow> join a (TWitnessOf b) = Option.bind (join a b) witness_of"
  by (cases a) (simp_all add: is_witness_of_def)

lemma join_tuples:
  "join (TTuple xs) (TTuple ys) = Some t \<longleftrightarrow>
     (\<exists>zs. t = TTuple zs \<and> length xs = length ys \<and> length zs = length ys \<and>
       (\<forall>i < length ys. join (xs ! i) (ys ! i) = Some (zs ! i)))"
  by (auto simp: opt_map_Some_iff list_all2_conv_all_nth)

lemma size_nth: "i < length xs \<Longrightarrow> size (xs ! i) < Suc (size_list size xs)"
  by (rule size_elem) simp

declare join.simps [simp del]

text \<open>The induction shared by the facts about the join: on the sizes of the two types, with the
  witness wrappers peeled first.\<close>

lemma join_induct [case_names both left right tuple base]:
  assumes "\<And>a b. P a b \<Longrightarrow> P (TWitnessOf a) (TWitnessOf b)"
    and "\<And>a b. \<not> is_witness_of b \<Longrightarrow> P a b \<Longrightarrow> P (TWitnessOf a) b"
    and "\<And>a b. \<not> is_witness_of a \<Longrightarrow> P a b \<Longrightarrow> P a (TWitnessOf b)"
    and "\<And>xs ys. (\<And>i. i < length xs \<Longrightarrow> i < length ys \<Longrightarrow> P (xs ! i) (ys ! i)) \<Longrightarrow>
           P (TTuple xs) (TTuple ys)"
    and "\<And>a b. \<not> is_witness_of a \<Longrightarrow> \<not> is_witness_of b \<Longrightarrow>
           (\<And>x y n m. a = TArray x n \<Longrightarrow> b = TArray y m \<Longrightarrow> P x y) \<Longrightarrow>
           (\<And>x y. a = TSlice x \<Longrightarrow> b = TSlice y \<Longrightarrow> P x y) \<Longrightarrow>
           (\<And>x y. a = TRef x \<Longrightarrow> b = TRef y \<Longrightarrow> P x y) \<Longrightarrow>
           \<not> (is_tuple a \<and> is_tuple b) \<Longrightarrow> P a b"
  shows "P a b"
proof (induction "size a + size b" arbitrary: a b rule: less_induct)
  case less
  consider (both) a' b' where "a = TWitnessOf a'" "b = TWitnessOf b'"
    | (left) a' where "a = TWitnessOf a'" "\<not> is_witness_of b"
    | (right) b' where "\<not> is_witness_of a" "b = TWitnessOf b'"
    | (tuple) xs ys where "a = TTuple xs" "b = TTuple ys"
    | (base) "\<not> is_witness_of a" "\<not> is_witness_of b" "\<not> (is_tuple a \<and> is_tuple b)"
    by (cases a; cases b) (auto simp: is_witness_of_def is_tuple_def)
  then show ?case
  proof cases
    case tuple
    show ?thesis unfolding tuple
    proof (rule assms(4), rule less)
      fix i assume "i < length xs" "i < length ys"
      then show "size (xs ! i) + size (ys ! i) < size a + size b"
        using size_nth [of i xs] size_nth [of i ys] by (simp add: tuple)
    qed
  next
    case base
    show ?thesis
      by (rule assms(5)) (use base in \<open>auto intro: less\<close>)
  next
    case both
    show ?thesis unfolding both by (rule assms(1), rule less) (simp add: both)
  next
    case left
    show ?thesis unfolding left(1) by (rule assms(2), rule left, rule less) (simp add: left)
  next
    case right
    show ?thesis unfolding right(2) by (rule assms(3), rule right, rule less) (simp add: right)
  qed
qed

lemma join_plain_cases:
  assumes "join a b = Some c" "\<not> is_witness_of a" "\<not> is_witness_of b" "\<not> (is_tuple a \<and> is_tuple b)"
  obtains (same) "b = a" "c = a" "a \<in> {TField, TFunction} \<union> range TU \<union> range TI"
  | (array) x y z n where "a = TArray x n" "b = TArray y n" "c = TArray z n" "join x y = Some z"
  | (slice) x y z where "a = TSlice x" "b = TSlice y" "c = TSlice z" "join x y = Some z"
  | (ref) x y z where "a = TRef x" "b = TRef y" "c = TRef z" "join x y = Some z"
  using assms
  by (cases a; cases b) (auto simp: join.simps is_witness_of_def is_tuple_def split: if_splits)

lemma join_props:
  "wf_ty a \<Longrightarrow> wf_ty b \<Longrightarrow> join a b = Some c \<Longrightarrow>
     wf_ty c \<and> (is_witness_of c \<longleftrightarrow> is_witness_of a \<or> is_witness_of b) \<and>
     strip_all_witness c = strip_all_witness a \<and> strip_all_witness c = strip_all_witness b"
proof (induction a b arbitrary: c rule: join_induct)
  case (tuple xs ys)
  then obtain zs where zs: "c = TTuple zs" "length xs = length ys" "length zs = length ys"
    "\<And>i. i < length ys \<Longrightarrow> join (xs ! i) (ys ! i) = Some (zs ! i)"
    by (auto simp: join_tuples)
  have *: "wf_ty (zs ! i) \<and> strip_all_witness (zs ! i) = strip_all_witness (xs ! i) \<and>
      strip_all_witness (zs ! i) = strip_all_witness (ys ! i)" if "i < length ys" for i
    using tuple.IH [of i "zs ! i"] tuple.prems(1,2) zs that by (auto simp: list_all_length)
  have 1: "map strip_all_witness zs = map strip_all_witness xs"
    by (rule nth_equalityI) (simp_all add: zs(2,3) *)
  have 2: "map strip_all_witness zs = map strip_all_witness ys"
    by (rule nth_equalityI) (simp_all add: zs(3), metis *)
  show ?case
    unfolding zs(1) strip_all_witness.simps wf_ty.simps is_witness_of_iff
    using * 1 2 zs(3) by (auto simp: list_all_length)
next
  case (base a b)
  from base.prems(3) base.hyps(1,2,3) show ?case
  proof (cases rule: join_plain_cases)
    case (array x y z n)
    then show ?thesis using base.IH(1) [of x n y n z] base.prems(1,2) by (auto simp: is_witness_of_def)
  next
    case (slice x y z)
    then show ?thesis using base.IH(2) [of x y z] base.prems(1,2) by (auto simp: is_witness_of_def)
  next
    case (ref x y z)
    then show ?thesis using base.IH(3) [of x y z] base.prems(1,2) by (auto simp: is_witness_of_def)
  qed auto
qed (auto simp: bind_Some_iff is_witness_of_iff)

lemma join_total:
  "wf_ty a \<Longrightarrow> wf_ty b \<Longrightarrow> strip_all_witness a = strip_all_witness b \<Longrightarrow> \<exists>c. join a b = Some c"
proof (induction a b rule: join_induct)
  case (both a b)
  then obtain e where "join a b = Some e" by auto
  with both join_props [of a b e] show ?case by simp
next
  case (left a b)
  then obtain e where "join a b = Some e" by auto
  with left join_props [of a b e] show ?case by simp
next
  case (right a b)
  then obtain e where "join a b = Some e" by auto
  with right join_props [of a b e] show ?case by simp
next
  case (tuple xs ys)
  have len: "length xs = length ys" using tuple.prems(3) by (auto dest: map_eq_imp_length_eq)
  have "\<exists>c. join (xs ! i) (ys ! i) = Some c" if "i < length ys" for i
    using tuple.IH [of i] tuple.prems(1,2) len that arg_cong [OF tuple.prems(3), of "\<lambda>t. case t of TTuple ts \<Rightarrow> ts ! i"]
    by (simp add: list_all_length)
  then have "\<exists>zs. length zs = length ys \<and> (\<forall>i < length ys. join (xs ! i) (ys ! i) = Some (zs ! i))"
    using Skolem_list_nth [of "length ys" "\<lambda>i c. join (xs ! i) (ys ! i) = Some c"] by blast
  then show ?case using len join_tuples [of xs ys] by (auto simp: eq_commute)
next
  case (base a b)
  then show ?case
    by (cases a; cases b) (auto simp: join.simps is_witness_of_def is_tuple_def)
qed

text \<open>The outermost constructor under the witness wrappers decides what lies above a plain type.\<close>

fun ty_core :: "ty \<Rightarrow> ty" where
  "ty_core (TWitnessOf t) = ty_core t"
| "ty_core t = t"

lemma ty_core_plain [simp]: "\<not> is_witness_of (ty_core t)"
  by (induction t) (simp_all add: is_witness_of_def)

lemma sub_ty_core: "\<not> is_witness_of a \<Longrightarrow> is_subtype_of a (ty_core d) = is_subtype_of a d"
  by (induction d) simp_all

definition least_upper :: "ty \<Rightarrow> ty \<Rightarrow> ty \<Rightarrow> bool" where
  "least_upper a b c \<longleftrightarrow> is_subtype_of a c \<and> is_subtype_of b c \<and>
     (\<forall>d. is_subtype_of a d \<longrightarrow> is_subtype_of b d \<longrightarrow> is_subtype_of c d)"

lemma least_upper_plain:
  assumes "\<not> is_witness_of a" "\<not> is_witness_of b" "\<not> is_witness_of c"
    and "is_subtype_of a c" "is_subtype_of b c"
    and "\<And>d. \<not> is_witness_of d \<Longrightarrow> is_subtype_of a d \<Longrightarrow> is_subtype_of b d \<Longrightarrow> is_subtype_of c d"
  shows "least_upper a b c"
  using assms sub_ty_core ty_core_plain unfolding least_upper_def by metis

lemma least_upper_witness:
  "least_upper a b c \<Longrightarrow> least_upper (TWitnessOf a) (TWitnessOf b) (TWitnessOf c)"
  "\<not> is_witness_of b \<Longrightarrow> least_upper a b c \<Longrightarrow> least_upper (TWitnessOf a) b (TWitnessOf c)"
  "\<not> is_witness_of a \<Longrightarrow> least_upper a b c \<Longrightarrow> least_upper a (TWitnessOf b) (TWitnessOf c)"
  by (auto simp: least_upper_def sub_of_witness)

lemma join_least_upper:
  "\<not> contains_ptrs a \<Longrightarrow> \<not> contains_ptrs b \<Longrightarrow> join a b = Some c \<Longrightarrow> least_upper a b c"
proof (induction a b arbitrary: c rule: join_induct)
  case (tuple xs ys)
  then obtain zs where zs: "c = TTuple zs" "length xs = length ys" "length zs = length ys"
    "\<And>i. i < length ys \<Longrightarrow> join (xs ! i) (ys ! i) = Some (zs ! i)"
    by (auto simp: join_tuples)
  have *: "least_upper (xs ! i) (ys ! i) (zs ! i)" if "i < length ys" for i
    using tuple.IH [of i "zs ! i"] tuple.prems(1,2) zs that by (auto simp: list_ex_length)
  show ?case unfolding zs(1)
  proof (rule least_upper_plain)
    fix d assume "\<not> is_witness_of d" "is_subtype_of (TTuple xs) d" "is_subtype_of (TTuple ys) d"
    then obtain ds where "d = TTuple ds" "list_all2 is_subtype_of xs ds" "list_all2 is_subtype_of ys ds"
      by (cases d) (auto simp: is_witness_of_def)
    then show "is_subtype_of (TTuple zs) d"
      using * zs(2,3) by (auto simp: list_all2_conv_all_nth least_upper_def)
  qed (use * zs(2,3) in \<open>auto simp: is_witness_of_def list_all2_conv_all_nth least_upper_def\<close>)
next
  case (base a b)
  from base.prems(3) base.hyps(1,2,3) show ?case
  proof (cases rule: join_plain_cases)
    case same
    then show ?thesis by (simp add: least_upper_def)
  next
    case (array x y z n)
    then have xyz: "least_upper x y z" using base.IH(1) base.prems(1,2) by simp
    show ?thesis unfolding array(1-3)
    proof (rule least_upper_plain)
      fix d assume "\<not> is_witness_of d" "is_subtype_of (TArray x n) d" "is_subtype_of (TArray y n) d"
      then show "is_subtype_of (TArray z n) d"
        using xyz by (cases d) (auto simp: is_witness_of_def least_upper_def)
    qed (use xyz in \<open>auto simp: is_witness_of_def least_upper_def\<close>)
  next
    case (slice x y z)
    then have xyz: "least_upper x y z" using base.IH(2) base.prems(1,2) by simp
    show ?thesis unfolding slice(1-3)
    proof (rule least_upper_plain)
      fix d assume "\<not> is_witness_of d" "is_subtype_of (TSlice x) d" "is_subtype_of (TSlice y) d"
      then show "is_subtype_of (TSlice z) d"
        using xyz by (cases d) (auto simp: is_witness_of_def least_upper_def)
    qed (use xyz in \<open>auto simp: is_witness_of_def least_upper_def\<close>)
  qed (use base.prems in auto)
qed (auto simp: bind_Some_iff intro: least_upper_witness)

lemma sub_strip: "is_subtype_of a b \<Longrightarrow> strip_all_witness a = strip_all_witness b"
proof (induction b arbitrary: a)
  case (TWitnessOf b)
  show ?case
  proof (cases "is_witness_of a")
    case True
    then obtain a' where "a = TWitnessOf a'" by (auto simp: is_witness_of_iff)
    then show ?thesis using TWitnessOf.prems TWitnessOf.IH [of a'] by simp
  next
    case False
    then show ?thesis using TWitnessOf.prems TWitnessOf.IH [of a] by simp
  qed
next
  case (TTuple ys)
  then obtain xs where a: "a = TTuple xs" and xy: "list_all2 is_subtype_of xs ys" by auto
  have "map strip_all_witness xs = map strip_all_witness ys"
    using xy TTuple.IH by (intro nth_equalityI) (simp_all add: list_all2_conv_all_nth)
  then show ?case by (simp add: a)
next
  case (TArray y n)
  then obtain x where "a = TArray x n" "is_subtype_of x y" by auto
  then show ?case using TArray.IH [of x] by simp
next
  case (TSlice y)
  then obtain x where "a = TSlice x" "is_subtype_of x y" by auto
  then show ?case using TSlice.IH [of x] by simp
next
  case (TRef t)
  from TRef.prems show ?case by simp
qed simp_all

lemma join_of_subtype:
  assumes "wf_ty a" "wf_ty b" "\<not> contains_ptrs a" "\<not> contains_ptrs b" "is_subtype_of a b"
  shows "join a b = Some b"
proof -
  obtain c where c: "join a b = Some c"
    using join_total [OF assms(1,2) sub_strip [OF assms(5)]] by auto
  have "least_upper a b c" by (rule join_least_upper [OF assms(3,4) c])
  then have "is_subtype_of b c" "is_subtype_of c b"
    using assms(5) by (auto simp: least_upper_def)
  then show ?thesis using c by (simp add: sub_antisym)
qed

lemma arithmetic_type_is_join:
  "is_numeric a \<Longrightarrow> is_numeric b \<Longrightarrow> strip_all_witness a = strip_all_witness b \<Longrightarrow>
   get_arithmetic_result_type a b = join a b"
proof (induction a b rule: join_induct)
  case (left a b)
  have "get_arithmetic_result_type a b = join a b" using left by simp
  then show ?case using left.hyps by (cases b) (simp_all add: is_witness_of_def join.simps)
next
  case (right a b)
  have "get_arithmetic_result_type a b = join a b" using right by simp
  then show ?case using right.hyps by (cases a) (simp_all add: is_witness_of_def join.simps)
next
  case (base a b)
  then show ?case by (cases a) (auto simp: is_witness_of_def join.simps elim: is_numeric.elims)
qed simp_all

subsection \<open>Properties\<close>

text \<open>The subtyping check of the \<open>WitnessOf\<close> lattice decides a partial order on all types:
  reflexive, transitive and antisymmetric.\<close>

theorem subtype_partial_order:
  "is_subtype_of a a \<and>
   (is_subtype_of a b \<and> is_subtype_of b c \<longrightarrow> is_subtype_of a c) \<and>
   (is_subtype_of a b \<and> is_subtype_of b a \<longrightarrow> a = b)"
  by (blast intro: sub_refl sub_trans sub_antisym)

theorem subtype_partial_order_witness:
  "is_subtype_of (TArray TField 5) (TWitnessOf (TArray TField 5)) \<and>
   is_subtype_of (TWitnessOf (TArray TField 5)) (TWitnessOf (TArray (TWitnessOf TField) 5)) \<and>
   is_subtype_of (TArray TField 5) (TWitnessOf (TArray (TWitnessOf TField) 5))"
proof -
  have 1: "is_subtype_of (TArray TField 5) (TWitnessOf (TArray TField 5))"
    and 2: "is_subtype_of (TWitnessOf (TArray TField 5)) (TWitnessOf (TArray (TWitnessOf TField) 5))"
    by (simp_all add: is_witness_of_def)
  then show ?thesis using subtype_partial_order by blast
qed

text \<open>C33. At a merge point of pointer-free types, a join that does not panic is the least upper bound
  of the two types in the subtyping order.\<close>

theorem join_is_least_upper_bound:
  assumes "\<not> contains_ptrs a" "\<not> contains_ptrs b" "join a b = Some c"
  shows "is_subtype_of a c \<and> is_subtype_of b c \<and>
    (\<forall>d. is_subtype_of a d \<and> is_subtype_of b d \<longrightarrow> is_subtype_of c d)"
  using join_least_upper [OF assms] by (simp add: least_upper_def)

theorem join_is_least_upper_bound_witness:
  "\<not> contains_ptrs (TArray (TWitnessOf TField) 5) \<and> \<not> contains_ptrs (TWitnessOf (TArray TField 5)) \<and>
   join (TArray (TWitnessOf TField) 5) (TWitnessOf (TArray TField 5)) = Some (TWitnessOf (TArray (TWitnessOf TField) 5)) \<and>
   is_subtype_of (TArray (TWitnessOf TField) 5) (TWitnessOf (TArray (TWitnessOf TField) 5))"
proof -
  have j: "join (TArray (TWitnessOf TField) 5) (TWitnessOf (TArray TField 5)) = Some (TWitnessOf (TArray (TWitnessOf TField) 5))"
    by (simp add: is_witness_of_def witness_of_def join.simps)
  show ?thesis using join_is_least_upper_bound [OF _ _ j] j by simp
qed

text \<open>C40. On the types the code can construct, the join panics exactly when the two types differ
  after erasing every \<open>WitnessOf\<close>; otherwise the result is again constructible and erases to the
  same type.\<close>

theorem join_defined_iff_same_shape:
  assumes "wf_ty a" "wf_ty b"
  shows "case join a b of
      None \<Rightarrow> strip_all_witness a \<noteq> strip_all_witness b
    | Some c \<Rightarrow> strip_all_witness a = strip_all_witness b \<and> strip_all_witness c = strip_all_witness a \<and> wf_ty c"
  using join_total [OF assms] join_props [OF assms] by (cases "join a b") auto

theorem join_defined_iff_same_shape_witness:
  "wf_ty (TTuple [TField, TU 8]) \<and> wf_ty (TTuple [TWitnessOf TField, TU 8]) \<and>
   join (TTuple [TField, TU 8]) (TTuple [TWitnessOf TField, TU 8]) = Some (TTuple [TWitnessOf TField, TU 8])"
  using join_defined_iff_same_shape [of "TTuple [TField, TU 8]" "TTuple [TWitnessOf TField, TU 8]"]
  by (simp add: is_witness_of_def witness_of_def join.simps)

text \<open>A subtype joins with its supertype to the supertype, and on numeric types of one shape the
  result type of arithmetic is the join.\<close>

theorem join_of_subtype_is_supertype:
  assumes "wf_ty a" "wf_ty b" "\<not> contains_ptrs a" "\<not> contains_ptrs b" "is_subtype_of a b"
  shows "join a b = Some b \<and> (is_numeric a \<and> is_numeric b \<longrightarrow> get_arithmetic_result_type a b = Some b)"
  using join_of_subtype [OF assms] arithmetic_type_is_join [of a b] sub_strip [OF assms(5)] assms(1,2)
  by simp

theorem join_of_subtype_is_supertype_witness:
  "join (TU 8) (TWitnessOf (TU 8)) = Some (TWitnessOf (TU 8)) \<and>
   get_arithmetic_result_type (TU 8) (TWitnessOf (TU 8)) = Some (TWitnessOf (TU 8))"
  using join_of_subtype_is_supertype [of "TU 8" "TWitnessOf (TU 8)"] by (simp add: is_witness_of_def)

text \<open>On references the join is not an upper bound: references are invariant for subtyping, but the
  join takes the join of what they point to.\<close>

theorem join_of_refs_not_upper_bound:
  "join (TRef TField) (TRef (TWitnessOf TField)) = Some (TRef (TWitnessOf TField)) \<and>
   \<not> is_subtype_of (TRef TField) (TRef (TWitnessOf TField))"
  by (simp add: join.simps is_witness_of_def witness_of_def)

text \<open>The join of an array of witnesses with a witness array is a type whose elements the code cannot
  read: taking the element type wraps an already wrapped type and panics.\<close>

theorem join_result_without_element_type:
  "Option.bind (join (TArray (TWitnessOf TField) 5) (TWitnessOf (TArray TField 5))) get_array_element = None"
  by (simp add: join.simps is_witness_of_def witness_of_def)

end
