(* ===== verification/SSA_Core.thy ===== *)
theory SSA_Core
  imports MavPrelude
begin

text \<open>
  The generic SSA structure (\<^verbatim>\<open>compiler/src/compiler/ssa/mod.rs\<close>, \<^verbatim>\<open>id.rs\<close>,
  \<^verbatim>\<open>traits.rs\<close>): blocks, functions and the program, parametric in the instructions, the types
  and the constants; the identifier counters; the interning table of constants and its locking;
  the duplication of a function. Identifiers are natural numbers. A hash map is an association list
  with distinct keys in an arbitrary order (the order in which the map iterates). The
  \<^verbatim>\<open>expect\<close> on a missing entry is \<open>None\<close>.
\<close>

subsection \<open>The instruction interface\<close>

text \<open>The trait \<^verbatim>\<open>Instruction\<close>: the values an instruction reads and writes, and the assignment of
  every operand through \<^verbatim>\<open>get_operands_mut\<close>.\<close>

record 'op instruction_ops =
  op_inputs :: "'op \<Rightarrow> value_id list"
  op_results :: "'op \<Rightarrow> value_id list"
  op_map_operands :: "(value_id \<Rightarrow> value_id) \<Rightarrow> 'op \<Rightarrow> 'op"
  op_static_calls :: "'op \<Rightarrow> function_id list"

subsection \<open>Terminators, blocks, functions, programs\<close>

datatype terminator =
    Jmp block_id "value_id list"
  | JmpIf value_id block_id block_id
  | Return "value_id list"

record ('op, 'ty) block =
  b_parameters :: "(value_id \<times> 'ty) list"
  b_instructions :: "'op list"
  b_terminator :: "terminator option"

record ('op, 'ty) func =
  f_entry_block :: block_id
  f_blocks :: "(block_id \<times> ('op, 'ty) block) list"
  f_name :: string
  f_returns :: "'ty list"
  f_next_block :: nat

record ('op, 'ty, 'c) ssa =
  s_functions :: "(function_id \<times> ('op, 'ty) func) list"
  s_global_types :: "'ty list"
  s_globals_init_fn :: "function_id option"
  s_globals_deinit_fn :: "function_id option"
  s_main_id :: function_id
  s_next_function_id :: nat
  s_next_value_id :: nat
  s_constants :: "(value_id \<times> 'c) list"

subsection \<open>Blocks\<close>

definition block_empty :: "('op, 'ty) block" where
  "block_empty = \<lparr>b_parameters = [], b_instructions = [], b_terminator = None\<rparr>"

definition take_instructions :: "('op, 'ty) block \<Rightarrow> 'op list \<times> ('op, 'ty) block" where
  "take_instructions b = (b_instructions b, b\<lparr>b_instructions := []\<rparr>)"

definition put_instructions :: "'op list \<Rightarrow> ('op, 'ty) block \<Rightarrow> ('op, 'ty) block" where
  "put_instructions is b = b\<lparr>b_instructions := is\<rparr>"

definition push_instruction :: "'op \<Rightarrow> ('op, 'ty) block \<Rightarrow> ('op, 'ty) block" where
  "push_instruction i b = b\<lparr>b_instructions := b_instructions b @ [i]\<rparr>"

definition set_terminator :: "terminator \<Rightarrow> ('op, 'ty) block \<Rightarrow> ('op, 'ty) block" where
  "set_terminator t b = b\<lparr>b_terminator := Some t\<rparr>"

definition take_parameters :: "('op, 'ty) block \<Rightarrow> (value_id \<times> 'ty) list \<times> ('op, 'ty) block" where
  "take_parameters b = (b_parameters b, b\<lparr>b_parameters := []\<rparr>)"

definition put_parameters :: "(value_id \<times> 'ty) list \<Rightarrow> ('op, 'ty) block \<Rightarrow> ('op, 'ty) block" where
  "put_parameters ps b = b\<lparr>b_parameters := ps\<rparr>"

definition push_parameter :: "value_id \<Rightarrow> 'ty \<Rightarrow> ('op, 'ty) block \<Rightarrow> ('op, 'ty) block" where
  "push_parameter v t b = b\<lparr>b_parameters := b_parameters b @ [(v, t)]\<rparr>"

definition get_parameter_values :: "('op, 'ty) block \<Rightarrow> value_id list" where
  "get_parameter_values b = map fst (b_parameters b)"

definition get_instruction :: "nat \<Rightarrow> ('op, 'ty) block \<Rightarrow> 'op option" where
  "get_instruction i b = nth_opt (b_instructions b) i"

definition take_terminator :: "('op, 'ty) block \<Rightarrow> terminator option \<times> ('op, 'ty) block" where
  "take_terminator b = (b_terminator b, b\<lparr>b_terminator := None\<rparr>)"

definition has_parameters :: "('op, 'ty) block \<Rightarrow> bool" where
  "has_parameters b \<longleftrightarrow> length (b_parameters b) > 0"

subsection \<open>Functions\<close>

definition function_empty :: "string \<Rightarrow> ('op, 'ty) func" where
  "function_empty name = \<lparr>f_entry_block = 0, f_blocks = [(0, block_empty)], f_name = name,
     f_returns = [], f_next_block = 1\<rparr>"

definition function_prepare_rebuild ::
  "('op, 'ty) func \<Rightarrow> ('op, 'ty) func \<times> (block_id \<times> ('op, 'ty) block) list \<times> 'ty list" where
  "function_prepare_rebuild f =
     (\<lparr>f_entry_block = f_entry_block f, f_blocks = [], f_name = f_name f, f_returns = [],
       f_next_block = f_next_block f\<rparr>, f_blocks f, f_returns f)"

definition set_name :: "string \<Rightarrow> ('op, 'ty) func \<Rightarrow> ('op, 'ty) func" where
  "set_name name f = f\<lparr>f_name := name\<rparr>"

definition get_block :: "block_id \<Rightarrow> ('op, 'ty) func \<Rightarrow> ('op, 'ty) block option" where
  "get_block bid f = map_of (f_blocks f) bid"

definition get_entry :: "('op, 'ty) func \<Rightarrow> ('op, 'ty) block option" where
  "get_entry f = map_of (f_blocks f) (f_entry_block f)"

definition put_block :: "block_id \<Rightarrow> ('op, 'ty) block \<Rightarrow> ('op, 'ty) func \<Rightarrow> ('op, 'ty) func" where
  "put_block bid b f = f\<lparr>f_blocks := AList.update bid b (f_blocks f)\<rparr>"

definition take_block :: "block_id \<Rightarrow> ('op, 'ty) func \<Rightarrow> (('op, 'ty) block \<times> ('op, 'ty) func) option" where
  "take_block bid f = do {
     b \<leftarrow> map_of (f_blocks f) bid;
     Some (b, f\<lparr>f_blocks := AList.delete bid (f_blocks f)\<rparr>) }"

definition add_block :: "('op, 'ty) func \<Rightarrow> block_id \<times> ('op, 'ty) func" where
  "add_block f = (f_next_block f,
     f\<lparr>f_next_block := f_next_block f + 1,
       f_blocks := AList.update (f_next_block f) block_empty (f_blocks f)\<rparr>)"

definition block_is_terminated :: "block_id \<Rightarrow> ('op, 'ty) func \<Rightarrow> bool option" where
  "block_is_terminated bid f = map_option (\<lambda>b. b_terminator b \<noteq> None) (map_of (f_blocks f) bid)"

definition next_virtual_block :: "('op, 'ty) func \<Rightarrow> block_id \<times> ('op, 'ty) block \<times> ('op, 'ty) func" where
  "next_virtual_block f = (f_next_block f, block_empty, f\<lparr>f_next_block := f_next_block f + 1\<rparr>)"

definition add_return_type :: "'ty \<Rightarrow> ('op, 'ty) func \<Rightarrow> ('op, 'ty) func" where
  "add_return_type t f = f\<lparr>f_returns := f_returns f @ [t]\<rparr>"

definition get_param_types :: "('op, 'ty) func \<Rightarrow> 'ty list option" where
  "get_param_types f = map_option (\<lambda>b. map snd (b_parameters b)) (get_entry f)"

definition take_blocks :: "('op, 'ty) func \<Rightarrow> (block_id \<times> ('op, 'ty) block) list \<times> ('op, 'ty) func" where
  "take_blocks f = (f_blocks f, f\<lparr>f_blocks := []\<rparr>)"

definition put_blocks :: "(block_id \<times> ('op, 'ty) block) list \<Rightarrow> ('op, 'ty) func \<Rightarrow> ('op, 'ty) func" where
  "put_blocks bs f = f\<lparr>f_blocks := bs\<rparr>"

definition take_returns :: "('op, 'ty) func \<Rightarrow> 'ty list \<times> ('op, 'ty) func" where
  "take_returns f = (f_returns f, f\<lparr>f_returns := []\<rparr>)"

definition code_size :: "('op, 'm) instruction_ops_scheme \<Rightarrow> ('op, 'ty) func \<Rightarrow> nat" where
  "code_size I f = (\<Sum>(_, b)\<leftarrow>f_blocks f. \<Sum>i\<leftarrow>b_instructions b. length (op_inputs I i) + 1)"

definition terminate_block_with :: "block_id \<Rightarrow> terminator \<Rightarrow> ('op, 'ty) func \<Rightarrow> ('op, 'ty) func option" where
  "terminate_block_with bid t f = do {
     b \<leftarrow> map_of (f_blocks f) bid;
     Some (put_block bid (set_terminator t b) f) }"

definition terminate_block_with_jmp_if where
  "terminate_block_with_jmp_if bid condition then_destination else_destination =
     terminate_block_with bid (JmpIf condition then_destination else_destination)"

definition terminate_block_with_return where
  "terminate_block_with_return bid return_values = terminate_block_with bid (Return return_values)"

definition terminate_block_with_jmp where
  "terminate_block_with_jmp bid destination arguments = terminate_block_with bid (Jmp destination arguments)"

subsection \<open>Programs\<close>

definition with_main :: "string \<Rightarrow> ('op, 'ty, 'c) ssa" where
  "with_main name = \<lparr>s_functions = [(0, function_empty name)], s_global_types = [],
     s_globals_init_fn = None, s_globals_deinit_fn = None, s_main_id = 0,
     s_next_function_id = 1, s_next_value_id = 0, s_constants = []\<rparr>"

definition ssa_prepare_rebuild ::
  "('op, 'ty, 'c) ssa \<Rightarrow> ('op, 'ty, 'c) ssa \<times> (function_id \<times> ('op, 'ty) func) list \<times> 'ty list" where
  "ssa_prepare_rebuild s =
     (\<lparr>s_functions = [], s_global_types = [], s_globals_init_fn = s_globals_init_fn s,
       s_globals_deinit_fn = s_globals_deinit_fn s, s_main_id = s_main_id s,
       s_next_function_id = s_next_function_id s, s_next_value_id = s_next_value_id s,
       s_constants = s_constants s\<rparr>, s_functions s, s_global_types s)"

definition insert_function ::
  "('op, 'ty) func \<Rightarrow> ('op, 'ty, 'c) ssa \<Rightarrow> function_id \<times> ('op, 'ty, 'c) ssa" where
  "insert_function f s = (s_next_function_id s,
     s\<lparr>s_next_function_id := s_next_function_id s + 1,
       s_functions := AList.update (s_next_function_id s) f (s_functions s)\<rparr>)"

definition delete_function ::
  "function_id \<Rightarrow> ('op, 'ty, 'c) ssa \<Rightarrow> ('op, 'ty) func option \<times> ('op, 'ty, 'c) ssa" where
  "delete_function i s = (map_of (s_functions s) i, s\<lparr>s_functions := AList.delete i (s_functions s)\<rparr>)"

definition retain_functions ::
  "(function_id \<Rightarrow> ('op, 'ty) func \<Rightarrow> bool) \<Rightarrow> ('op, 'ty, 'c) ssa \<Rightarrow> ('op, 'ty, 'c) ssa" where
  "retain_functions p s = s\<lparr>s_functions := filter (\<lambda>(i, f). p i f) (s_functions s)\<rparr>"

definition set_entry_point :: "function_id \<Rightarrow> ('op, 'ty, 'c) ssa \<Rightarrow> ('op, 'ty, 'c) ssa" where
  "set_entry_point i s = s\<lparr>s_main_id := i\<rparr>"

definition get_main :: "('op, 'ty, 'c) ssa \<Rightarrow> ('op, 'ty) func option" where
  "get_main s = map_of (s_functions s) (s_main_id s)"

definition get_function :: "function_id \<Rightarrow> ('op, 'ty, 'c) ssa \<Rightarrow> ('op, 'ty) func option" where
  "get_function i s = map_of (s_functions s) i"

definition take_function ::
  "function_id \<Rightarrow> ('op, 'ty, 'c) ssa \<Rightarrow> (('op, 'ty) func \<times> ('op, 'ty, 'c) ssa) option" where
  "take_function i s = do {
     f \<leftarrow> map_of (s_functions s) i;
     Some (f, s\<lparr>s_functions := AList.delete i (s_functions s)\<rparr>) }"

definition put_function ::
  "function_id \<Rightarrow> ('op, 'ty) func \<Rightarrow> ('op, 'ty, 'c) ssa \<Rightarrow> ('op, 'ty, 'c) ssa" where
  "put_function i f s = s\<lparr>s_functions := AList.update i f (s_functions s)\<rparr>"

definition add_function :: "string \<Rightarrow> ('op, 'ty, 'c) ssa \<Rightarrow> function_id \<times> ('op, 'ty, 'c) ssa" where
  "add_function name s = (s_next_function_id s,
     s\<lparr>s_next_function_id := s_next_function_id s + 1,
       s_functions := AList.update (s_next_function_id s) (function_empty name) (s_functions s)\<rparr>)"

definition fresh_value :: "('op, 'ty, 'c) ssa \<Rightarrow> value_id \<times> ('op, 'ty, 'c) ssa" where
  "fresh_value s = (s_next_value_id s, s\<lparr>s_next_value_id := s_next_value_id s + 1\<rparr>)"

definition value_num_bound :: "('op, 'ty, 'c) ssa \<Rightarrow> nat" where
  "value_num_bound s = s_next_value_id s"

definition set_global_types :: "'ty list \<Rightarrow> ('op, 'ty, 'c) ssa \<Rightarrow> ('op, 'ty, 'c) ssa" where
  "set_global_types ts s = s\<lparr>s_global_types := ts\<rparr>"

definition num_globals :: "('op, 'ty, 'c) ssa \<Rightarrow> nat" where
  "num_globals s = length (s_global_types s)"

definition set_globals_init_fn :: "function_id \<Rightarrow> ('op, 'ty, 'c) ssa \<Rightarrow> ('op, 'ty, 'c) ssa" where
  "set_globals_init_fn i s = s\<lparr>s_globals_init_fn := Some i\<rparr>"

definition set_globals_deinit_fn :: "function_id \<Rightarrow> ('op, 'ty, 'c) ssa \<Rightarrow> ('op, 'ty, 'c) ssa" where
  "set_globals_deinit_fn i s = s\<lparr>s_globals_deinit_fn := Some i\<rparr>"

subsection \<open>The constants table\<close>

text \<open>The bidirectional map between identifiers and constants, looked up from either side.\<close>

definition get_const :: "value_id \<Rightarrow> ('op, 'ty, 'c) ssa \<Rightarrow> 'c option" where
  "get_const v s = map_of (s_constants s) v"

definition is_const :: "value_id \<Rightarrow> ('op, 'ty, 'c) ssa \<Rightarrow> bool" where
  "is_const v s \<longleftrightarrow> map_of (s_constants s) v \<noteq> None"

fun lookup_by_right :: "(value_id \<times> 'c) list \<Rightarrow> 'c \<Rightarrow> value_id option" where
  "lookup_by_right [] c = None"
| "lookup_by_right ((v, d) # xs) c = (if d = c then Some v else lookup_by_right xs c)"

text \<open>The two halves of interning a constant: the lookup under the read lock, and, on a miss, the
  second lookup and the insertion under the write lock.\<close>

definition add_const_fast :: "'c \<Rightarrow> ('op, 'ty, 'c) ssa \<Rightarrow> value_id option" where
  "add_const_fast c s = lookup_by_right (s_constants s) c"

definition add_const_slow :: "'c \<Rightarrow> ('op, 'ty, 'c) ssa \<Rightarrow> value_id \<times> ('op, 'ty, 'c) ssa" where
  "add_const_slow c s = (case lookup_by_right (s_constants s) c of
     Some v \<Rightarrow> (v, s)
   | None \<Rightarrow> (let (v, s') = fresh_value s in (v, s'\<lparr>s_constants := (v, c) # s_constants s'\<rparr>)))"

definition add_const :: "'c \<Rightarrow> ('op, 'ty, 'c) ssa \<Rightarrow> value_id \<times> ('op, 'ty, 'c) ssa" where
  "add_const c s = (case add_const_fast c s of Some v \<Rightarrow> (v, s) | None \<Rightarrow> add_const_slow c s)"

definition remove_const_by_id :: "value_id \<Rightarrow> ('op, 'ty, 'c) ssa \<Rightarrow> ('c \<times> ('op, 'ty, 'c) ssa) option" where
  "remove_const_by_id v s = do {
     c \<leftarrow> map_of (s_constants s) v;
     Some (c, s\<lparr>s_constants := AList.delete v (s_constants s)\<rparr>) }"

definition retain_constants ::
  "(value_id \<Rightarrow> 'c \<Rightarrow> bool) \<Rightarrow> ('op, 'ty, 'c) ssa \<Rightarrow> ('op, 'ty, 'c) ssa" where
  "retain_constants p s = s\<lparr>s_constants := filter (\<lambda>(v, c). p v c) (s_constants s)\<rparr>"

subsection \<open>Duplicating a function\<close>

fun terminator_values :: "terminator \<Rightarrow> value_id list" where
  "terminator_values (Jmp _ args) = args"
| "terminator_values (JmpIf cond _ _) = [cond]"
| "terminator_values (Return vs) = vs"

text \<open>Phase 1: every value identifier of the function, in the order of the walk.\<close>

definition block_value_ids :: "('op, 'm) instruction_ops_scheme \<Rightarrow> ('op, 'ty) block \<Rightarrow> value_id list" where
  "block_value_ids I b = map fst (b_parameters b)
     @ concat (map (\<lambda>i. op_inputs I i @ op_results I i) (b_instructions b))
     @ (case b_terminator b of None \<Rightarrow> [] | Some t \<Rightarrow> terminator_values t)"

definition function_value_ids :: "('op, 'm) instruction_ops_scheme \<Rightarrow> ('op, 'ty) func \<Rightarrow> value_id list" where
  "function_value_ids I f = concat (map (\<lambda>(_, b). block_value_ids I b) (f_blocks f))"

fun build_remap ::
  "value_id list \<Rightarrow> (value_id \<rightharpoonup> value_id) \<times> ('op, 'ty, 'c) ssa \<Rightarrow>
   (value_id \<rightharpoonup> value_id) \<times> ('op, 'ty, 'c) ssa" where
  "build_remap [] (remap, s) = (remap, s)"
| "build_remap (v # vs) (remap, s) =
     (if remap v \<noteq> None \<or> is_const v s then build_remap vs (remap, s)
      else let (fresh, s') = fresh_value s in build_remap vs (remap(v \<mapsto> fresh), s'))"

text \<open>Phase 2: the remapping applied to every reference.\<close>

definition apply_remap :: "(value_id \<rightharpoonup> value_id) \<Rightarrow> value_id \<Rightarrow> value_id" where
  "apply_remap remap v = (case remap v of Some new_id \<Rightarrow> new_id | None \<Rightarrow> v)"

fun map_terminator :: "(value_id \<Rightarrow> value_id) \<Rightarrow> terminator \<Rightarrow> terminator" where
  "map_terminator r (Jmp t args) = Jmp t (map r args)"
| "map_terminator r (JmpIf cond t e) = JmpIf (r cond) t e"
| "map_terminator r (Return vs) = Return (map r vs)"

definition map_block ::
  "('op, 'm) instruction_ops_scheme \<Rightarrow> (value_id \<Rightarrow> value_id) \<Rightarrow> ('op, 'ty) block \<Rightarrow> ('op, 'ty) block" where
  "map_block I r b = b\<lparr>b_parameters := map (\<lambda>(v, t). (r v, t)) (b_parameters b),
     b_instructions := map (op_map_operands I r) (b_instructions b),
     b_terminator := map_option (map_terminator r) (b_terminator b)\<rparr>"

definition duplicate_function ::
  "('op, 'm) instruction_ops_scheme \<Rightarrow> function_id \<Rightarrow> ('op, 'ty, 'c) ssa \<Rightarrow>
   (function_id \<times> ('op, 'ty, 'c) ssa) option" where
  "duplicate_function I fid s = do {
     cloned \<leftarrow> map_of (s_functions s) fid;
     let (remap, s') = build_remap (function_value_ids I cloned) (Map.empty, s);
     let cloned = cloned\<lparr>f_blocks := map (\<lambda>(i, b). (i, map_block I (apply_remap remap) b)) (f_blocks cloned)\<rparr>;
     Some (insert_function cloned s') }"

subsection \<open>Interning keeps the table a bijection\<close>

text \<open>The invariant of the table: both sides are without duplicates and every identifier in it has
  been issued by the counter.\<close>

definition const_inv :: "('op, 'ty, 'c) ssa \<Rightarrow> bool" where
  "const_inv s \<longleftrightarrow> distinct (map fst (s_constants s)) \<and> distinct (map snd (s_constants s)) \<and>
     (\<forall>v \<in> fst ` set (s_constants s). v < s_next_value_id s)"

lemma lookup_by_right_Some: "lookup_by_right xs c = Some v \<Longrightarrow> (v, c) \<in> set xs"
  by (induction xs c rule: lookup_by_right.induct) (auto split: if_splits)

lemma lookup_by_right_None: "lookup_by_right xs c = None \<longleftrightarrow> c \<notin> snd ` set xs"
  by (induction xs c rule: lookup_by_right.induct) auto

lemma lookup_by_right_iff:
  "distinct (map snd xs) \<Longrightarrow> lookup_by_right xs c = Some v \<longleftrightarrow> (v, c) \<in> set xs"
  by (induction xs c rule: lookup_by_right.induct) (auto simp: image_iff)

lemma get_const_iff: "const_inv s \<Longrightarrow> get_const v s = Some c \<longleftrightarrow> (v, c) \<in> set (s_constants s)"
  by (simp add: const_inv_def get_const_def)

lemma get_const_inj:
  "const_inv s \<Longrightarrow> get_const v s = Some c \<Longrightarrow> get_const w s = Some d \<Longrightarrow> v = w \<longleftrightarrow> c = d"
proof -
  assume inv: "const_inv s" and v: "get_const v s = Some c" and w: "get_const w s = Some d"
  have "(v, c) \<in> set (s_constants s)" "(w, d) \<in> set (s_constants s)"
    using inv v w by (simp_all add: get_const_iff)
  moreover have "inj_on fst (set (s_constants s))" "inj_on snd (set (s_constants s))"
    using inv by (simp_all add: const_inv_def distinct_map)
  ultimately show ?thesis
    using inj_onD [of fst _ "(v, c)" "(w, d)"] inj_onD [of snd _ "(v, c)" "(w, d)"] by auto
qed

lemma add_const_fastD:
  "const_inv s \<Longrightarrow> add_const_fast c s = Some v \<longleftrightarrow> get_const v s = Some c"
  by (simp add: add_const_fast_def get_const_iff lookup_by_right_iff const_inv_def)

lemma add_const_slow_props:
  assumes "const_inv s" "add_const_slow c s = (v, s')"
  shows "const_inv s'" "get_const v s' = Some c" "s_next_value_id s \<le> s_next_value_id s'"
    and "get_const u s = Some d \<Longrightarrow> get_const u s' = Some d"
proof -
  have "const_inv s' \<and> get_const v s' = Some c \<and> s_next_value_id s \<le> s_next_value_id s' \<and>
    (get_const u s = Some d \<longrightarrow> get_const u s' = Some d)"
  proof (cases "lookup_by_right (s_constants s) c")
    case None
    then have c: "c \<notin> snd ` set (s_constants s)" by (simp add: lookup_by_right_None)
    have v: "v = s_next_value_id s" and s': "s' = s\<lparr>s_next_value_id := Suc v, s_constants := (v, c) # s_constants s\<rparr>"
      using assms(2) None by (auto simp: add_const_slow_def fresh_value_def)
    have "u \<noteq> v" if "get_const u s = Some d"
      using that assms(1) v by (force simp: const_inv_def get_const_def dest!: map_of_SomeD)
    then show ?thesis
      using assms(1) c unfolding s' const_inv_def get_const_def v
      by (fastforce simp: less_Suc_eq)
  next
    case (Some w)
    then have "v = w" "s' = s" using assms(2) by (auto simp: add_const_slow_def)
    then show ?thesis using Some assms(1) by (simp add: get_const_iff lookup_by_right_Some)
  qed
  then show "const_inv s'" "get_const v s' = Some c" "s_next_value_id s \<le> s_next_value_id s'"
    "get_const u s = Some d \<Longrightarrow> get_const u s' = Some d" by auto
qed

lemma add_const_props:
  assumes "const_inv s" "add_const c s = (v, s')"
  shows "const_inv s'" "get_const v s' = Some c" "s_next_value_id s \<le> s_next_value_id s'"
    and "get_const u s = Some d \<Longrightarrow> get_const u s' = Some d"
  using assms add_const_slow_props [OF assms(1)]
  by (auto simp: add_const_def add_const_fastD [OF assms(1)] split: option.splits)

subsection \<open>The contract of an interning table\<close>

text \<open>What the passes rely on when they ask for the identifier of a constant.\<close>

locale interner =
  fixes intern :: "'c \<Rightarrow> 's \<Rightarrow> value_id \<times> 's"
    and find :: "value_id \<Rightarrow> 's \<Rightarrow> 'c option"
    and inv :: "'s \<Rightarrow> bool"
  assumes inv_intern: "inv s \<Longrightarrow> intern c s = (v, s') \<Longrightarrow> inv s'"
    and find_intern: "inv s \<Longrightarrow> intern c s = (v, s') \<Longrightarrow> find v s' = Some c"
    and find_kept: "inv s \<Longrightarrow> intern c s = (v, s') \<Longrightarrow> find u s = Some d \<Longrightarrow> find u s' = Some d"
    and find_inj: "inv s \<Longrightarrow> find v s = Some c \<Longrightarrow> find w s = Some d \<Longrightarrow> v = w \<longleftrightarrow> c = d"
begin

text \<open>Interning a list of constants, threading the table.\<close>

fun intern_all :: "'c list \<Rightarrow> 's \<Rightarrow> value_id list \<times> 's" where
  "intern_all [] s = ([], s)"
| "intern_all (c # cs) s =
     (let (v, s') = intern c s; (vs, s'') = intern_all cs s' in (v # vs, s''))"

lemma intern_all_props:
  "inv s \<Longrightarrow> intern_all cs s = (vs, s') \<Longrightarrow>
     inv s' \<and> length vs = length cs \<and> (\<forall>i < length cs. find (vs ! i) s' = Some (cs ! i)) \<and>
     (\<forall>u d. find u s = Some d \<longrightarrow> find u s' = Some d)"
proof (induction cs arbitrary: s vs)
  case (Cons c cs)
  obtain v s1 where 1: "intern c s = (v, s1)" by fastforce
  obtain ws s2 where 2: "intern_all cs s1 = (ws, s2)" by fastforce
  from Cons.prems 1 2 have vs: "vs = v # ws" "s' = s2" by auto
  have "inv s1" using inv_intern Cons.prems(1) 1 by blast
  from Cons.IH [OF this] 2 vs(2) have IH: "inv s' \<and> length ws = length cs \<and>
      (\<forall>i < length cs. find (ws ! i) s' = Some (cs ! i)) \<and> (\<forall>u d. find u s1 = Some d \<longrightarrow> find u s' = Some d)"
    by simp
  moreover have "find v s1 = Some c" using find_intern Cons.prems(1) 1 by blast
  moreover have "find u s1 = Some d" if "find u s = Some d" for u d
    using find_kept Cons.prems(1) 1 that by blast
  ultimately show ?case
    unfolding vs(1) by (auto simp: nth_Cons split: nat.splits)
qed auto

lemma intern_all_distinct:
  assumes "inv s" "intern_all cs s = (vs, s')" "i < length cs" "j < length cs"
  shows "vs ! i = vs ! j \<longleftrightarrow> cs ! i = cs ! j"
  using intern_all_props [OF assms(1,2)] assms(3,4) find_inj by blast

lemma intern_known: "inv s \<Longrightarrow> intern c s = (v, s') \<Longrightarrow> find u s = Some c \<Longrightarrow> u = v"
  by (meson find_inj find_intern find_kept inv_intern)

end

interpretation const_table: interner add_const get_const const_inv
  by unfold_locales (blast intro: add_const_props get_const_inj dest: get_const_inj)+

subsection \<open>Concurrent interning\<close>

text \<open>
  Constants are interned through a shared program by several threads. A thread first looks the
  constant up under the read lock; on a miss it takes the write lock, looks again and inserts. Between
  the two, other threads may intern constants or draw identifiers. \<open>tasks t\<close> is what thread \<open>t\<close> does.
\<close>

datatype 'c intern_task = Interning 'c | Missed 'c | Interned 'c value_id

inductive intern_step ::
  "('op, 'ty, 'c) ssa \<times> (nat \<Rightarrow> 'c intern_task) \<Rightarrow> ('op, 'ty, 'c) ssa \<times> (nat \<Rightarrow> 'c intern_task) \<Rightarrow> bool"
where
  fast_hit: "tasks t = Interning c \<Longrightarrow> add_const_fast c s = Some v \<Longrightarrow>
     intern_step (s, tasks) (s, tasks(t := Interned c v))"
| fast_miss: "tasks t = Interning c \<Longrightarrow> add_const_fast c s = None \<Longrightarrow>
     intern_step (s, tasks) (s, tasks(t := Missed c))"
| slow: "tasks t = Missed c \<Longrightarrow> add_const_slow c s = (v, s') \<Longrightarrow>
     intern_step (s, tasks) (s', tasks(t := Interned c v))"
| fresh: "fresh_value s = (v, s') \<Longrightarrow> intern_step (s, tasks) (s', tasks)"

inductive intern_steps ::
  "('op, 'ty, 'c) ssa \<times> (nat \<Rightarrow> 'c intern_task) \<Rightarrow> ('op, 'ty, 'c) ssa \<times> (nat \<Rightarrow> 'c intern_task) \<Rightarrow> bool"
where
  start: "intern_steps x x"
| step: "intern_steps x y \<Longrightarrow> intern_step y z \<Longrightarrow> intern_steps x z"

inductive_cases intern_stepE: "intern_step (s, tasks) y"

definition intern_inv :: "('op, 'ty, 'c) ssa \<times> (nat \<Rightarrow> 'c intern_task) \<Rightarrow> bool" where
  "intern_inv = (\<lambda>(s, tasks). const_inv s \<and> (\<forall>t c v. tasks t = Interned c v \<longrightarrow> get_const v s = Some c))"

lemma fresh_value_const_inv: "fresh_value s = (v, s') \<Longrightarrow> const_inv s \<Longrightarrow> const_inv s'"
  by (fastforce simp: fresh_value_def const_inv_def intro: less_SucI)

lemma fresh_value_get_const: "fresh_value s = (v, s') \<Longrightarrow> get_const u s' = get_const u s"
  by (auto simp: fresh_value_def get_const_def)

lemma intern_step_inv: "intern_step x y \<Longrightarrow> intern_inv x \<Longrightarrow> intern_inv y"
proof (induction rule: intern_step.induct)
  case (slow tasks t c s v s')
  then show ?case
    using add_const_slow_props [OF _ slow.hyps(2)] by (auto simp: intern_inv_def)
qed (auto simp: intern_inv_def add_const_fastD fresh_value_const_inv fresh_value_get_const)

lemma intern_steps_inv: "intern_steps x y \<Longrightarrow> intern_inv x \<Longrightarrow> intern_inv y"
  by (induction rule: intern_steps.induct) (auto intro: intern_step_inv)

subsection \<open>Duplicating a function renames it apart\<close>

text \<open>What the instruction interface promises: assigning the operands acts on the values read and
  the values written, each in place.\<close>

locale instruction =
  fixes I :: "('op, 'm) instruction_ops_scheme"
  assumes inputs_map: "op_inputs I (op_map_operands I r i) = map r (op_inputs I i)"
    and results_map: "op_results I (op_map_operands I r i) = map r (op_results I i)"
begin

lemma block_value_ids_map: "block_value_ids I (map_block I r b) = map r (block_value_ids I b)"
proof -
  have t: "terminator_values (map_terminator r t) = map r (terminator_values t)" for t
    by (cases t) auto
  show ?thesis
    by (simp add: block_value_ids_def map_block_def map_concat inputs_map results_map comp_def
        case_prod_unfold t split: option.split)
qed

lemma function_value_ids_map:
  "function_value_ids I (f\<lparr>f_blocks := map (\<lambda>(i, b). (i, map_block I r b)) (f_blocks f)\<rparr>) =
     map r (function_value_ids I f)"
  by (simp add: function_value_ids_def map_concat comp_def case_prod_unfold block_value_ids_map)

lemma code_size_map:
  "code_size I (f\<lparr>f_blocks := map (\<lambda>(i, b). (i, map_block I r b)) (f_blocks f)\<rparr>) = code_size I f"
  by (simp add: code_size_def map_block_def comp_def case_prod_unfold inputs_map)

end

lemma is_const_next [simp]: "is_const v (s\<lparr>s_next_value_id := k\<rparr>) = is_const v s"
  by (simp add: is_const_def)

lemma build_remap_props:
  "build_remap vs (m, s) = (m', s') \<Longrightarrow>
     (\<forall>v w. m v = Some w \<longrightarrow> n \<le> w \<and> w < s_next_value_id s) \<Longrightarrow> inj_on m (dom m) \<Longrightarrow> n \<le> s_next_value_id s \<Longrightarrow>
     (\<exists>k. s' = s\<lparr>s_next_value_id := k\<rparr> \<and> s_next_value_id s \<le> k) \<and>
     dom m' = dom m \<union> {v \<in> set vs. \<not> is_const v s} \<and>
     (\<forall>v w. m' v = Some w \<longrightarrow> n \<le> w \<and> w < s_next_value_id s') \<and> inj_on m' (dom m')"
proof (induction vs arbitrary: m s)
  case Nil
  then show ?case by auto (metis order_refl ssa.surjective ssa.update_convs(7))
next
  case (Cons v vs)
  show ?case
  proof (cases "m v \<noteq> None \<or> is_const v s")
    case True
    then have "build_remap vs (m, s) = (m', s')" using Cons.prems(1) by simp
    from Cons.IH [OF this Cons.prems(2-4)] True show ?thesis by auto
  next
    case False
    let ?x = "s_next_value_id s"
    let ?s = "s\<lparr>s_next_value_id := ?x + 1\<rparr>" and ?m = "m(v \<mapsto> ?x)"
    have b: "build_remap vs (?m, ?s) = (m', s')"
      using Cons.prems(1) False by (simp add: fresh_value_def)
    have m: "\<forall>u w. ?m u = Some w \<longrightarrow> n \<le> w \<and> w < s_next_value_id ?s"
      using Cons.prems(2,4) by (auto simp: less_Suc_eq)
    have "m y \<noteq> Some ?x" for y using Cons.prems(2) by fastforce
    then have i: "inj_on ?m (dom ?m)"
      using Cons.prems(3) by (auto simp: inj_on_def)
    have d: "dom ?m \<union> {u \<in> set vs. \<not> is_const u ?s} = dom m \<union> {u \<in> set (v # vs). \<not> is_const u s}"
      using False by (auto split: if_splits)
    have n: "n \<le> s_next_value_id ?s" using Cons.prems(4) by simp
    have "\<exists>k. s' = ?s\<lparr>s_next_value_id := k\<rparr> \<and> s_next_value_id ?s \<le> k"
      and rest: "dom m' = dom ?m \<union> {u \<in> set vs. \<not> is_const u ?s}"
        "\<forall>v w. m' v = Some w \<longrightarrow> n \<le> w \<and> w < s_next_value_id s'" "inj_on m' (dom m')"
      using Cons.IH [OF b m i n] by blast+
    then have "\<exists>k. s' = s\<lparr>s_next_value_id := k\<rparr> \<and> ?x \<le> k" by (auto intro: Suc_leD)
    with rest show ?thesis unfolding d by blast
  qed
qed

text \<open>The renaming that duplication applies.\<close>

lemma build_remap_renaming:
  assumes "build_remap vs (Map.empty, s) = (m, s')" "\<forall>v \<in> set vs. v < s_next_value_id s"
  shows "\<exists>k. s' = s\<lparr>s_next_value_id := k\<rparr> \<and> s_next_value_id s \<le> k \<and>
    (\<forall>v \<in> set vs. if is_const v s then apply_remap m v = v
                  else s_next_value_id s \<le> apply_remap m v \<and> apply_remap m v < k) \<and>
    inj_on (apply_remap m) (set vs)"
proof -
  let ?n = "s_next_value_id s"
  from build_remap_props [OF assms(1), of ?n]
  obtain k where k: "s' = s\<lparr>s_next_value_id := k\<rparr>" "?n \<le> k"
    and d: "dom m = {v \<in> set vs. \<not> is_const v s}"
    and r: "\<And>v w. m v = Some w \<Longrightarrow> ?n \<le> w \<and> w < s_next_value_id s'" and i: "inj_on m (dom m)"
    by auto
  have c: "apply_remap m v = v" if "is_const v s" for v
    using that d by (auto simp: apply_remap_def split: option.splits)
  have f: "m v = Some (apply_remap m v)" if "v \<in> set vs" "\<not> is_const v s" for v
  proof -
    have "v \<in> dom m" using that d by auto
    then show ?thesis by (auto simp: apply_remap_def)
  qed
  have g: "?n \<le> apply_remap m v \<and> apply_remap m v < k" if "v \<in> set vs" "\<not> is_const v s" for v
    using r [OF f [OF that]] k by simp
  have "v = w" if "v \<in> set vs" "w \<in> set vs" "apply_remap m v = apply_remap m w" for v w
  proof (cases "is_const v s \<or> is_const w s")
    case True
    then show ?thesis using c g assms(2) that by (metis not_le)
  next
    case False
    then have "m v = m w" using f that by metis
    then show ?thesis using False that d by (intro inj_onD [OF i]) auto
  qed
  then show ?thesis using k c g by (intro exI [of _ k]) (auto simp: inj_on_def)
qed

subsection \<open>Properties of the program structure\<close>

text \<open>C34. Interning two constants one after the other, from any table that is a bijection onto issued
  identifiers: the table stays one, each identifier is bound to its constant, the identifiers are equal
  exactly when the constants are, and no binding that was there is lost.\<close>

theorem add_const_interns:
  assumes "const_inv s" "add_const c s = (v, s')" "add_const d s' = (w, s'')"
  shows "const_inv s'' \<and> get_const v s'' = Some c \<and> get_const w s'' = Some d \<and> (v = w \<longleftrightarrow> c = d) \<and>
    (\<forall>u e. get_const u s = Some e \<longrightarrow> get_const u s'' = Some e)"
proof -
  have a: "const_table.intern_all [c, d] s = ([v, w], s'')" using assms(2,3) by simp
  from const_table.intern_all_props [OF assms(1) a]
    const_table.intern_all_distinct [OF assms(1) a, of 0 1]
  show ?thesis by (auto simp: less_Suc_eq)
qed

theorem add_const_interns_witness:
  "let s = \<lparr>s_functions = ([] :: (nat \<times> (nat, nat) func) list), s_global_types = [],
       s_globals_init_fn = None, s_globals_deinit_fn = None, s_main_id = 0, s_next_function_id = 1,
       s_next_value_id = 4, s_constants = [(3, ''a'')]\<rparr>;
     r = add_const ''b'' s; q = add_const ''a'' (snd r)
   in fst r = 4 \<and> fst q = 3 \<and> const_inv (snd q)"
proof -
  let ?s = "\<lparr>s_functions = ([] :: (nat \<times> (nat, nat) func) list), s_global_types = [],
       s_globals_init_fn = None, s_globals_deinit_fn = None, s_main_id = 0, s_next_function_id = 1,
       s_next_value_id = 4, s_constants = [(3, ''a'')]\<rparr>"
  let ?r = "add_const ''b'' ?s"
  let ?q = "add_const ''a'' (snd ?r)"
  have "const_inv ?s" by (simp add: const_inv_def)
  from add_const_interns [OF this, of "''b''" "fst ?r" "snd ?r" "''a''" "fst ?q" "snd ?q"]
  have "const_inv (snd ?q)" by simp
  moreover have "fst ?r = 4 \<and> fst ?q = 3"
    by (simp add: add_const_def add_const_fast_def add_const_slow_def fresh_value_def)
  ultimately show ?thesis by (simp add: Let_def)
qed

text \<open>C8. Any number of threads intern constants at the same time, each taking the read lock, missing,
  and taking the write lock, with other threads' steps and fresh identifiers in between. Whatever
  the interleaving, the table stays a bijection onto issued identifiers, and two threads that have
  finished got the same identifier exactly when they interned the same constant, the one the table
  binds it to.\<close>

theorem concurrent_interning:
  assumes "intern_steps (s, tasks) (s', tasks')" "const_inv s" "\<forall>t c v. tasks t \<noteq> Interned c v"
    and "tasks' t = Interned c v" "tasks' u = Interned d w"
  shows "const_inv s' \<and> get_const v s' = Some c \<and> get_const w s' = Some d \<and> (v = w \<longleftrightarrow> c = d)"
proof -
  have "intern_inv (s, tasks)" using assms(2,3) by (auto simp: intern_inv_def)
  from intern_steps_inv [OF assms(1) this] assms(4,5)
  have "const_inv s'" "get_const v s' = Some c" "get_const w s' = Some d"
    by (auto simp: intern_inv_def)
  then show ?thesis using const_table.find_inj [of s' v c w d] by simp
qed

theorem concurrent_interning_witness:
  "\<exists>s' :: (nat, nat, string) ssa. get_const 1 s' = Some ''one'' \<and>
     intern_steps (with_main ''main'', \<lambda>t. Interning ''one'')
       (s', (\<lambda>t. Interning ''one'')(0 := Interned ''one'' 1, 1 := Interned ''one'' 1))"
proof -
  let ?s = "with_main ''main'' :: (nat, nat, string) ssa"
  let ?t = "\<lambda>t :: nat. Interning ''one''"
  let ?s1 = "?s\<lparr>s_next_value_id := 1\<rparr>"
  let ?s2 = "?s\<lparr>s_next_value_id := 2, s_constants := [(1, ''one'')]\<rparr>"
  have s1: "intern_step (?s, ?t) (?s, ?t(0 := Missed ''one''))"
    by (rule fast_miss) (simp_all add: add_const_fast_def with_main_def)
  have s2: "intern_step (?s, ?t(0 := Missed ''one'')) (?s, ?t(0 := Missed ''one'', 1 := Missed ''one''))"
    by (rule fast_miss) (simp_all add: add_const_fast_def with_main_def)
  have s3: "intern_step (?s, ?t(0 := Missed ''one'', 1 := Missed ''one''))
      (?s1, ?t(0 := Missed ''one'', 1 := Missed ''one''))"
    by (rule fresh [where v = 0]) (simp add: fresh_value_def with_main_def)
  have s4: "intern_step (?s1, ?t(0 := Missed ''one'', 1 := Missed ''one''))
      (?s2, (?t(0 := Missed ''one'', 1 := Missed ''one''))(0 := Interned ''one'' 1))"
    by (rule slow) (simp_all add: add_const_slow_def fresh_value_def with_main_def)
  have s5: "intern_step (?s2, (?t(0 := Missed ''one'', 1 := Missed ''one''))(0 := Interned ''one'' 1))
      (?s2, ((?t(0 := Missed ''one'', 1 := Missed ''one''))(0 := Interned ''one'' 1))(1 := Interned ''one'' 1))"
    by (rule slow) (simp_all add: add_const_slow_def fresh_value_def with_main_def)
  note step = intern_steps.step
  have "intern_steps (?s, ?t)
      (?s2, ((?t(0 := Missed ''one'', 1 := Missed ''one''))(0 := Interned ''one'' 1))(1 := Interned ''one'' 1))"
    by (rule step [OF step [OF step [OF step [OF step [OF intern_steps.start s1] s2] s3] s4] s5])
  moreover have "((?t(0 := Missed ''one'', 1 := Missed ''one''))(0 := Interned ''one'' 1))(1 := Interned ''one'' 1) =
      ?t(0 := Interned ''one'' 1, 1 := Interned ''one'' 1)" by auto
  ultimately have steps: "intern_steps (?s, ?t) (?s2, ?t(0 := Interned ''one'' 1, 1 := Interned ''one'' 1))"
    by simp
  have "const_inv ?s" by (simp add: const_inv_def with_main_def)
  from concurrent_interning [OF steps this, of 0 "''one''" 1 1 "''one''" 1]
  have "get_const 1 ?s2 = Some ''one''" by simp
  with steps show ?thesis by blast
qed

end
