(* ===== verification/HL_Opcodes.thy ===== *)
theory HL_Opcodes
  imports HL_Types SSA_Core "HOL-Library.Multiset"
begin

text \<open>
  The opcodes of the high-level SSA (\<^verbatim>\<open>compiler/src/compiler/ssa/hlssa/mod.rs\<close>): the enums, the
  constants, the values each opcode reads and writes, the in-place renaming of those values, the calls
  it makes and its rendering. The opcodes are an instance of the instruction interface of
  \<^verbatim>\<open>ssa/mod.rs\<close>. The fields of a constructor are in the order of the source.
\<close>

subsection \<open>Enumerations\<close>

datatype call_target = CallStatic function_id | CallDynamic value_id

datatype binary_arith_op_kind =
  BopAdd | BopMul | BopDiv | BopSub | BopAnd | BopOr | BopXor | BopShl | BopShr | BopMod

datatype cmp_kind = CmpLt | CmpEq

datatype sequence_target_type = SeqArray nat | SeqSlice | SeqTuple

fun sequence_of :: "sequence_target_type \<Rightarrow> ty \<Rightarrow> ty option" where
  "sequence_of (SeqArray len) t = Some (TArray t len)"
| "sequence_of SeqSlice t = Some (TSlice t)"
| "sequence_of SeqTuple t = None"

fun show_sequence_target_type :: "sequence_target_type \<Rightarrow> string" where
  "show_sequence_target_type (SeqArray len) = ''Array['' @ nat_str len @ '']''"
| "show_sequence_target_type SeqSlice = ''Slice''"
| "show_sequence_target_type SeqTuple = ''Tuple''"

datatype cast_target = CastField | CastU nat | CastI nat | CastWitnessOf | CastNop | CastArrayToSlice

fun show_cast_target :: "cast_target \<Rightarrow> string" where
  "show_cast_target CastField = ''Field''"
| "show_cast_target (CastU n) = ''u'' @ nat_str n"
| "show_cast_target (CastI n) = ''i'' @ nat_str n"
| "show_cast_target CastWitnessOf = ''WitnessOf''"
| "show_cast_target CastNop = ''Nop''"
| "show_cast_target CastArrayToSlice = ''ArrayToSlice''"

datatype endianness = Big | Little

fun show_endianness :: "endianness \<Rightarrow> string" where
  "show_endianness Big = ''big''"
| "show_endianness Little = ''little''"

datatype slice_op_dir = Front | Back

text \<open>The constants of the side table. The field is a third-party type, a parameter here.\<close>

datatype 'f hl_constant = ConstU nat u128 | ConstI nat u128 | ConstField 'f | ConstFnPtr function_id

datatype ref_count_op = RcBump nat | RcDrop

datatype d_matrix = DMatA | DMatB | DMatC

datatype 'v lookup_target = LtRangecheck nat | LtDynRangecheck 'v | LtArray 'v | LtSpread nat

datatype 'v radix = RadixBytes | RadixDyn 'v

subsection \<open>The opcodes\<close>

datatype (plugins only: code size) opcode =
    OpCmp cmp_kind value_id value_id value_id
  | OpBinaryArithOp binary_arith_op_kind value_id value_id value_id
  | OpCast value_id value_id cast_target
  | OpSExt value_id value_id nat nat
  | OpBitRange value_id value_id nat nat
  | OpNot value_id value_id
  | OpMkSeq value_id "value_id list" sequence_target_type ty
  | OpMkRepeated value_id value_id sequence_target_type nat ty
  | OpAlloc value_id ty
  | OpStore value_id value_id
  | OpLoad value_id value_id
  | OpAssert value_id
  | OpAssertCmp cmp_kind value_id value_id
  | OpAssertR1C value_id value_id value_id
  | OpCall "value_id list" call_target "value_id list" bool
  | OpArrayGet value_id value_id value_id
  | OpArraySet value_id value_id value_id value_id
  | OpSlicePush slice_op_dir value_id value_id "value_id list"
  | OpSliceLen value_id value_id
  | OpSelect value_id value_id value_id value_id
  | OpToBits value_id value_id endianness nat
  | OpToRadix value_id value_id "value_id radix" endianness nat
  | OpMemOp ref_count_op value_id
  | OpValueOf value_id value_id
  | OpWriteWitness "value_id option" value_id bool
  | OpFreshWitness value_id ty
  | OpNextDCoeff value_id
  | OpBumpD d_matrix value_id value_id
  | OpConstrain value_id value_id value_id
  | OpLookup "value_id lookup_target" "value_id list" value_id
  | OpDLookup "value_id lookup_target" "value_id list" value_id
  | OpMulConst value_id value_id value_id
  | OpRangecheck value_id nat
  | OpReadGlobal value_id nat ty
  | OpTupleProj value_id value_id nat
  | OpMkTuple value_id "value_id list" "ty list"
  | OpTodo string "value_id list" "ty list"
  | OpInitGlobal nat value_id
  | OpDropGlobal nat
  | OpSpread value_id value_id nat
  | OpUnspread value_id value_id value_id nat
  | OpGuard value_id opcode

type_synonym hl_block = "(opcode, ty) block"
type_synonym hl_function = "(opcode, ty) func"
type_synonym 'f hlssa = "(opcode, ty, 'f hl_constant) ssa"

definition hlssa_new :: "'f hlssa" where
  "hlssa_new = with_main ''main''"

subsection \<open>The values of an opcode\<close>

fun get_static_call_targets :: "opcode \<Rightarrow> function_id list" where
  "get_static_call_targets (OpCall _ (CallStatic i) _ _) = [i]"
| "get_static_call_targets (OpGuard _ inner) = get_static_call_targets inner"
| "get_static_call_targets _ = []"

fun dyn_target :: "call_target \<Rightarrow> value_id list" where
  "dyn_target (CallDynamic fn_ptr) = [fn_ptr]"
| "dyn_target (CallStatic _) = []"

fun radix_values :: "'v radix \<Rightarrow> 'v list" where
  "radix_values RadixBytes = []"
| "radix_values (RadixDyn v) = [v]"

fun lookup_values :: "'v lookup_target \<Rightarrow> 'v list" where
  "lookup_values (LtRangecheck _) = []"
| "lookup_values (LtSpread _) = []"
| "lookup_values (LtDynRangecheck v) = [v]"
| "lookup_values (LtArray arr) = [arr]"

fun option_values :: "'v option \<Rightarrow> 'v list" where
  "option_values None = []"
| "option_values (Some v) = [v]"

primrec get_inputs :: "opcode \<Rightarrow> value_id list" where
  "get_inputs (OpCmp _ _ lhs rhs) = [lhs, rhs]"
| "get_inputs (OpBinaryArithOp _ _ lhs rhs) = [lhs, rhs]"
| "get_inputs (OpCast _ value _) = [value]"
| "get_inputs (OpSExt _ value _ _) = [value]"
| "get_inputs (OpBitRange _ value _ _) = [value]"
| "get_inputs (OpNot _ value) = [value]"
| "get_inputs (OpMkSeq _ elems _ _) = elems"
| "get_inputs (OpMkRepeated _ element _ _ _) = [element]"
| "get_inputs (OpAlloc _ _) = []"
| "get_inputs (OpStore ptr value) = [ptr, value]"
| "get_inputs (OpLoad _ ptr) = [ptr]"
| "get_inputs (OpAssert value) = [value]"
| "get_inputs (OpAssertCmp _ lhs rhs) = [lhs, rhs]"
| "get_inputs (OpAssertR1C a b c) = [a, b, c]"
| "get_inputs (OpCall _ function args _) = dyn_target function @ args"
| "get_inputs (OpArrayGet _ array index) = [array, index]"
| "get_inputs (OpArraySet _ array index value) = [array, index, value]"
| "get_inputs (OpSlicePush _ _ slc values) = [slc] @ values"
| "get_inputs (OpSliceLen _ slc) = [slc]"
| "get_inputs (OpSelect _ cond if_t if_f) = [cond, if_t, if_f]"
| "get_inputs (OpToBits _ value _ _) = [value]"
| "get_inputs (OpToRadix _ value radix _ _) = [value] @ radix_values radix"
| "get_inputs (OpMemOp _ value) = [value]"
| "get_inputs (OpValueOf _ value) = [value]"
| "get_inputs (OpWriteWitness _ value _) = [value]"
| "get_inputs (OpFreshWitness _ _) = []"
| "get_inputs (OpNextDCoeff _) = []"
| "get_inputs (OpBumpD _ variable sensitivity) = [variable, sensitivity]"
| "get_inputs (OpConstrain a b c) = [a, b, c]"
| "get_inputs (OpLookup target args flag) = lookup_values target @ args @ [flag]"
| "get_inputs (OpDLookup target args flag) = lookup_values target @ args @ [flag]"
| "get_inputs (OpMulConst _ const_val var) = [const_val, var]"
| "get_inputs (OpRangecheck value _) = [value]"
| "get_inputs (OpReadGlobal _ _ _) = []"
| "get_inputs (OpTupleProj _ tuple _) = [tuple]"
| "get_inputs (OpMkTuple _ elems _) = elems"
| "get_inputs (OpTodo _ _ _) = []"
| "get_inputs (OpInitGlobal _ value) = [value]"
| "get_inputs (OpDropGlobal _) = []"
| "get_inputs (OpSpread _ value _) = [value]"
| "get_inputs (OpUnspread _ _ value _) = [value]"
| "get_inputs (OpGuard condition inner) = condition # get_inputs inner"

primrec get_results :: "opcode \<Rightarrow> value_id list" where
  "get_results (OpCmp _ result _ _) = [result]"
| "get_results (OpBinaryArithOp _ result _ _) = [result]"
| "get_results (OpCast result _ _) = [result]"
| "get_results (OpSExt result _ _ _) = [result]"
| "get_results (OpBitRange result _ _ _) = [result]"
| "get_results (OpNot result _) = [result]"
| "get_results (OpMkSeq result _ _ _) = [result]"
| "get_results (OpMkRepeated result _ _ _ _) = [result]"
| "get_results (OpAlloc result _) = [result]"
| "get_results (OpStore _ _) = []"
| "get_results (OpLoad result _) = [result]"
| "get_results (OpAssert _) = []"
| "get_results (OpAssertCmp _ _ _) = []"
| "get_results (OpAssertR1C _ _ _) = []"
| "get_results (OpCall results _ _ _) = results"
| "get_results (OpArrayGet result _ _) = [result]"
| "get_results (OpArraySet result _ _ _) = [result]"
| "get_results (OpSlicePush _ result _ _) = [result]"
| "get_results (OpSliceLen result _) = [result]"
| "get_results (OpSelect result _ _ _) = [result]"
| "get_results (OpToBits result _ _ _) = [result]"
| "get_results (OpToRadix result _ _ _ _) = [result]"
| "get_results (OpMemOp _ _) = []"
| "get_results (OpValueOf result _) = [result]"
| "get_results (OpWriteWitness result _ _) = option_values result"
| "get_results (OpFreshWitness result _) = [result]"
| "get_results (OpNextDCoeff result) = [result]"
| "get_results (OpBumpD _ _ _) = []"
| "get_results (OpConstrain _ _ _) = []"
| "get_results (OpLookup _ _ _) = []"
| "get_results (OpDLookup _ _ _) = []"
| "get_results (OpMulConst result _ _) = [result]"
| "get_results (OpRangecheck _ _) = []"
| "get_results (OpReadGlobal result _ _) = [result]"
| "get_results (OpTupleProj result _ _) = [result]"
| "get_results (OpMkTuple result _ _) = [result]"
| "get_results (OpTodo _ results _) = results"
| "get_results (OpInitGlobal _ _) = []"
| "get_results (OpDropGlobal _) = []"
| "get_results (OpSpread result _ _) = [result]"
| "get_results (OpUnspread result_odd result_even _ _) = [result_odd, result_even]"
| "get_results (OpGuard _ inner) = get_results inner"

text \<open>The values behind the references that \<^verbatim>\<open>get_operands_mut\<close> yields, in its order.\<close>

primrec get_operands :: "opcode \<Rightarrow> value_id list" where
  "get_operands (OpCmp _ result lhs rhs) = [result, lhs, rhs]"
| "get_operands (OpBinaryArithOp _ result lhs rhs) = [result, lhs, rhs]"
| "get_operands (OpCast result value _) = [result, value]"
| "get_operands (OpSExt result value _ _) = [result, value]"
| "get_operands (OpBitRange result value _ _) = [result, value]"
| "get_operands (OpNot result value) = [result, value]"
| "get_operands (OpMkSeq result elems _ _) = [result] @ elems"
| "get_operands (OpMkRepeated result element _ _ _) = [result, element]"
| "get_operands (OpAlloc result _) = [result]"
| "get_operands (OpStore ptr value) = [ptr, value]"
| "get_operands (OpLoad result ptr) = [result, ptr]"
| "get_operands (OpAssert value) = [value]"
| "get_operands (OpAssertCmp _ lhs rhs) = [lhs, rhs]"
| "get_operands (OpAssertR1C a b c) = [a, b, c]"
| "get_operands (OpCall results function args _) = results @ dyn_target function @ args"
| "get_operands (OpArrayGet result array index) = [result, array, index]"
| "get_operands (OpArraySet result array index value) = [result, array, index, value]"
| "get_operands (OpSlicePush _ result slc values) = [result, slc] @ values"
| "get_operands (OpSliceLen result slc) = [result, slc]"
| "get_operands (OpSelect result cond if_t if_f) = [result, cond, if_t, if_f]"
| "get_operands (OpToBits result value _ _) = [result, value]"
| "get_operands (OpToRadix result value radix _ _) = [result, value] @ radix_values radix"
| "get_operands (OpMemOp _ value) = [value]"
| "get_operands (OpValueOf result value) = [result, value]"
| "get_operands (OpWriteWitness result value _) = option_values result @ [value]"
| "get_operands (OpFreshWitness result _) = [result]"
| "get_operands (OpNextDCoeff result) = [result]"
| "get_operands (OpBumpD _ variable sensitivity) = [variable, sensitivity]"
| "get_operands (OpConstrain a b c) = [a, b, c]"
| "get_operands (OpLookup target args flag) = lookup_values target @ args @ [flag]"
| "get_operands (OpDLookup target args flag) = lookup_values target @ args @ [flag]"
| "get_operands (OpMulConst result const_val var) = [result, const_val, var]"
| "get_operands (OpRangecheck value _) = [value]"
| "get_operands (OpReadGlobal result _ _) = [result]"
| "get_operands (OpTupleProj result tuple _) = [result, tuple]"
| "get_operands (OpMkTuple result elems _) = [result] @ elems"
| "get_operands (OpTodo _ results _) = results"
| "get_operands (OpInitGlobal _ value) = [value]"
| "get_operands (OpDropGlobal _) = []"
| "get_operands (OpSpread result value _) = [result, value]"
| "get_operands (OpUnspread result_odd result_even value _) = [result_odd, result_even, value]"
| "get_operands (OpGuard condition inner) = condition # get_operands inner"

text \<open>Assigning through the references of \<^verbatim>\<open>get_inputs_mut\<close>, \<^verbatim>\<open>get_results_mut\<close> and
  \<^verbatim>\<open>get_operands_mut\<close>: every value they yield is replaced by its image.\<close>

fun map_dyn_target :: "(value_id \<Rightarrow> value_id) \<Rightarrow> call_target \<Rightarrow> call_target" where
  "map_dyn_target r (CallDynamic fn_ptr) = CallDynamic (r fn_ptr)"
| "map_dyn_target r (CallStatic i) = CallStatic i"

primrec map_inputs :: "(value_id \<Rightarrow> value_id) \<Rightarrow> opcode \<Rightarrow> opcode" where
  "map_inputs r (OpCmp kind result lhs rhs) = OpCmp kind result (r lhs) (r rhs)"
| "map_inputs r (OpBinaryArithOp kind result lhs rhs) = OpBinaryArithOp kind result (r lhs) (r rhs)"
| "map_inputs r (OpCast result value target) = OpCast result (r value) target"
| "map_inputs r (OpSExt result value from_bits to_bits) = OpSExt result (r value) from_bits to_bits"
| "map_inputs r (OpBitRange result value offset width) = OpBitRange result (r value) offset width"
| "map_inputs r (OpNot result value) = OpNot result (r value)"
| "map_inputs r (OpMkSeq result elems seq_type elem_type) = OpMkSeq result (map r elems) seq_type elem_type"
| "map_inputs r (OpMkRepeated result element seq_type cnt elem_type) = OpMkRepeated result (r element) seq_type cnt elem_type"
| "map_inputs r (OpAlloc result elem_type) = OpAlloc result elem_type"
| "map_inputs r (OpStore ptr value) = OpStore (r ptr) (r value)"
| "map_inputs r (OpLoad result ptr) = OpLoad result (r ptr)"
| "map_inputs r (OpAssert value) = OpAssert (r value)"
| "map_inputs r (OpAssertCmp kind lhs rhs) = OpAssertCmp kind (r lhs) (r rhs)"
| "map_inputs r (OpAssertR1C a b c) = OpAssertR1C (r a) (r b) (r c)"
| "map_inputs r (OpCall results function args unconstrained) = OpCall results (map_dyn_target r function) (map r args) unconstrained"
| "map_inputs r (OpArrayGet result array index) = OpArrayGet result (r array) (r index)"
| "map_inputs r (OpArraySet result array index value) = OpArraySet result (r array) (r index) (r value)"
| "map_inputs r (OpSlicePush dir result slc values) = OpSlicePush dir result (r slc) (map r values)"
| "map_inputs r (OpSliceLen result slc) = OpSliceLen result (r slc)"
| "map_inputs r (OpSelect result cond if_t if_f) = OpSelect result (r cond) (r if_t) (r if_f)"
| "map_inputs r (OpToBits result value endianness cnt) = OpToBits result (r value) endianness cnt"
| "map_inputs r (OpToRadix result value radix endianness cnt) = OpToRadix result (r value) (map_radix r radix) endianness cnt"
| "map_inputs r (OpMemOp kind value) = OpMemOp kind (r value)"
| "map_inputs r (OpValueOf result value) = OpValueOf result (r value)"
| "map_inputs r (OpWriteWitness result value pinned) = OpWriteWitness result (r value) pinned"
| "map_inputs r (OpFreshWitness result result_type) = OpFreshWitness result result_type"
| "map_inputs r (OpNextDCoeff result) = OpNextDCoeff result"
| "map_inputs r (OpBumpD matrix variable sensitivity) = OpBumpD matrix (r variable) (r sensitivity)"
| "map_inputs r (OpConstrain a b c) = OpConstrain (r a) (r b) (r c)"
| "map_inputs r (OpLookup target args flag) = OpLookup (map_lookup_target r target) (map r args) (r flag)"
| "map_inputs r (OpDLookup target args flag) = OpDLookup (map_lookup_target r target) (map r args) (r flag)"
| "map_inputs r (OpMulConst result const_val var) = OpMulConst result (r const_val) (r var)"
| "map_inputs r (OpRangecheck value max_bits) = OpRangecheck (r value) max_bits"
| "map_inputs r (OpReadGlobal result offset result_type) = OpReadGlobal result offset result_type"
| "map_inputs r (OpTupleProj result tuple idx) = OpTupleProj result (r tuple) idx"
| "map_inputs r (OpMkTuple result elems element_types) = OpMkTuple result (map r elems) element_types"
| "map_inputs r (OpTodo payload results result_types) = OpTodo payload results result_types"
| "map_inputs r (OpInitGlobal global value) = OpInitGlobal global (r value)"
| "map_inputs r (OpDropGlobal global) = OpDropGlobal global"
| "map_inputs r (OpSpread result value bits) = OpSpread result (r value) bits"
| "map_inputs r (OpUnspread result_odd result_even value bits) = OpUnspread result_odd result_even (r value) bits"
| "map_inputs r (OpGuard condition inner) = OpGuard (r condition) (map_inputs r inner)"

primrec map_results :: "(value_id \<Rightarrow> value_id) \<Rightarrow> opcode \<Rightarrow> opcode" where
  "map_results r (OpCmp kind result lhs rhs) = OpCmp kind (r result) lhs rhs"
| "map_results r (OpBinaryArithOp kind result lhs rhs) = OpBinaryArithOp kind (r result) lhs rhs"
| "map_results r (OpCast result value target) = OpCast (r result) value target"
| "map_results r (OpSExt result value from_bits to_bits) = OpSExt (r result) value from_bits to_bits"
| "map_results r (OpBitRange result value offset width) = OpBitRange (r result) value offset width"
| "map_results r (OpNot result value) = OpNot (r result) value"
| "map_results r (OpMkSeq result elems seq_type elem_type) = OpMkSeq (r result) elems seq_type elem_type"
| "map_results r (OpMkRepeated result element seq_type cnt elem_type) = OpMkRepeated (r result) element seq_type cnt elem_type"
| "map_results r (OpAlloc result elem_type) = OpAlloc (r result) elem_type"
| "map_results r (OpStore ptr value) = OpStore ptr value"
| "map_results r (OpLoad result ptr) = OpLoad (r result) ptr"
| "map_results r (OpAssert value) = OpAssert value"
| "map_results r (OpAssertCmp kind lhs rhs) = OpAssertCmp kind lhs rhs"
| "map_results r (OpAssertR1C a b c) = OpAssertR1C a b c"
| "map_results r (OpCall results function args unconstrained) = OpCall (map r results) function args unconstrained"
| "map_results r (OpArrayGet result array index) = OpArrayGet (r result) array index"
| "map_results r (OpArraySet result array index value) = OpArraySet (r result) array index value"
| "map_results r (OpSlicePush dir result slc values) = OpSlicePush dir (r result) slc values"
| "map_results r (OpSliceLen result slc) = OpSliceLen (r result) slc"
| "map_results r (OpSelect result cond if_t if_f) = OpSelect (r result) cond if_t if_f"
| "map_results r (OpToBits result value endianness cnt) = OpToBits (r result) value endianness cnt"
| "map_results r (OpToRadix result value radix endianness cnt) = OpToRadix (r result) value radix endianness cnt"
| "map_results r (OpMemOp kind value) = OpMemOp kind value"
| "map_results r (OpValueOf result value) = OpValueOf (r result) value"
| "map_results r (OpWriteWitness result value pinned) = OpWriteWitness (map_option r result) value pinned"
| "map_results r (OpFreshWitness result result_type) = OpFreshWitness (r result) result_type"
| "map_results r (OpNextDCoeff result) = OpNextDCoeff (r result)"
| "map_results r (OpBumpD matrix variable sensitivity) = OpBumpD matrix variable sensitivity"
| "map_results r (OpConstrain a b c) = OpConstrain a b c"
| "map_results r (OpLookup target args flag) = OpLookup target args flag"
| "map_results r (OpDLookup target args flag) = OpDLookup target args flag"
| "map_results r (OpMulConst result const_val var) = OpMulConst (r result) const_val var"
| "map_results r (OpRangecheck value max_bits) = OpRangecheck value max_bits"
| "map_results r (OpReadGlobal result offset result_type) = OpReadGlobal (r result) offset result_type"
| "map_results r (OpTupleProj result tuple idx) = OpTupleProj (r result) tuple idx"
| "map_results r (OpMkTuple result elems element_types) = OpMkTuple (r result) elems element_types"
| "map_results r (OpTodo payload results result_types) = OpTodo payload (map r results) result_types"
| "map_results r (OpInitGlobal global value) = OpInitGlobal global value"
| "map_results r (OpDropGlobal global) = OpDropGlobal global"
| "map_results r (OpSpread result value bits) = OpSpread (r result) value bits"
| "map_results r (OpUnspread result_odd result_even value bits) = OpUnspread (r result_odd) (r result_even) value bits"
| "map_results r (OpGuard condition inner) = OpGuard condition (map_results r inner)"

primrec map_operands :: "(value_id \<Rightarrow> value_id) \<Rightarrow> opcode \<Rightarrow> opcode" where
  "map_operands r (OpCmp kind result lhs rhs) = OpCmp kind (r result) (r lhs) (r rhs)"
| "map_operands r (OpBinaryArithOp kind result lhs rhs) = OpBinaryArithOp kind (r result) (r lhs) (r rhs)"
| "map_operands r (OpCast result value target) = OpCast (r result) (r value) target"
| "map_operands r (OpSExt result value from_bits to_bits) = OpSExt (r result) (r value) from_bits to_bits"
| "map_operands r (OpBitRange result value offset width) = OpBitRange (r result) (r value) offset width"
| "map_operands r (OpNot result value) = OpNot (r result) (r value)"
| "map_operands r (OpMkSeq result elems seq_type elem_type) = OpMkSeq (r result) (map r elems) seq_type elem_type"
| "map_operands r (OpMkRepeated result element seq_type cnt elem_type) = OpMkRepeated (r result) (r element) seq_type cnt elem_type"
| "map_operands r (OpAlloc result elem_type) = OpAlloc (r result) elem_type"
| "map_operands r (OpStore ptr value) = OpStore (r ptr) (r value)"
| "map_operands r (OpLoad result ptr) = OpLoad (r result) (r ptr)"
| "map_operands r (OpAssert value) = OpAssert (r value)"
| "map_operands r (OpAssertCmp kind lhs rhs) = OpAssertCmp kind (r lhs) (r rhs)"
| "map_operands r (OpAssertR1C a b c) = OpAssertR1C (r a) (r b) (r c)"
| "map_operands r (OpCall results function args unconstrained) = OpCall (map r results) (map_dyn_target r function) (map r args) unconstrained"
| "map_operands r (OpArrayGet result array index) = OpArrayGet (r result) (r array) (r index)"
| "map_operands r (OpArraySet result array index value) = OpArraySet (r result) (r array) (r index) (r value)"
| "map_operands r (OpSlicePush dir result slc values) = OpSlicePush dir (r result) (r slc) (map r values)"
| "map_operands r (OpSliceLen result slc) = OpSliceLen (r result) (r slc)"
| "map_operands r (OpSelect result cond if_t if_f) = OpSelect (r result) (r cond) (r if_t) (r if_f)"
| "map_operands r (OpToBits result value endianness cnt) = OpToBits (r result) (r value) endianness cnt"
| "map_operands r (OpToRadix result value radix endianness cnt) = OpToRadix (r result) (r value) (map_radix r radix) endianness cnt"
| "map_operands r (OpMemOp kind value) = OpMemOp kind (r value)"
| "map_operands r (OpValueOf result value) = OpValueOf (r result) (r value)"
| "map_operands r (OpWriteWitness result value pinned) = OpWriteWitness (map_option r result) (r value) pinned"
| "map_operands r (OpFreshWitness result result_type) = OpFreshWitness (r result) result_type"
| "map_operands r (OpNextDCoeff result) = OpNextDCoeff (r result)"
| "map_operands r (OpBumpD matrix variable sensitivity) = OpBumpD matrix (r variable) (r sensitivity)"
| "map_operands r (OpConstrain a b c) = OpConstrain (r a) (r b) (r c)"
| "map_operands r (OpLookup target args flag) = OpLookup (map_lookup_target r target) (map r args) (r flag)"
| "map_operands r (OpDLookup target args flag) = OpDLookup (map_lookup_target r target) (map r args) (r flag)"
| "map_operands r (OpMulConst result const_val var) = OpMulConst (r result) (r const_val) (r var)"
| "map_operands r (OpRangecheck value max_bits) = OpRangecheck (r value) max_bits"
| "map_operands r (OpReadGlobal result offset result_type) = OpReadGlobal (r result) offset result_type"
| "map_operands r (OpTupleProj result tuple idx) = OpTupleProj (r result) (r tuple) idx"
| "map_operands r (OpMkTuple result elems element_types) = OpMkTuple (r result) (map r elems) element_types"
| "map_operands r (OpTodo payload results result_types) = OpTodo payload (map r results) result_types"
| "map_operands r (OpInitGlobal global value) = OpInitGlobal global (r value)"
| "map_operands r (OpDropGlobal global) = OpDropGlobal global"
| "map_operands r (OpSpread result value bits) = OpSpread (r result) (r value) bits"
| "map_operands r (OpUnspread result_odd result_even value bits) = OpUnspread (r result_odd) (r result_even) (r value) bits"
| "map_operands r (OpGuard condition inner) = OpGuard (r condition) (map_operands r inner)"

subsection \<open>Rendering\<close>

definition show_v :: "value_id \<Rightarrow> string" where "show_v v = ''v'' @ nat_str v"

definition show_vs :: "value_id list \<Rightarrow> string" where "show_vs vs = join_str '', '' (map show_v vs)"

fun show_cmp_kind :: "cmp_kind \<Rightarrow> string" where
  "show_cmp_kind CmpLt = ''<''"
| "show_cmp_kind CmpEq = ''==''"

fun show_binary_arith_op_kind :: "binary_arith_op_kind \<Rightarrow> string" where
  "show_binary_arith_op_kind BopAdd = ''+''"
| "show_binary_arith_op_kind BopSub = ''-''"
| "show_binary_arith_op_kind BopMul = ''*''"
| "show_binary_arith_op_kind BopDiv = ''/''"
| "show_binary_arith_op_kind BopAnd = ''&''"
| "show_binary_arith_op_kind BopOr = ''|''"
| "show_binary_arith_op_kind BopXor = ''^''"
| "show_binary_arith_op_kind BopShl = ''<<''"
| "show_binary_arith_op_kind BopShr = ''>>''"
| "show_binary_arith_op_kind BopMod = ''%''"

fun show_lookup_target :: "value_id lookup_target \<Rightarrow> string" where
  "show_lookup_target (LtRangecheck n) = ''rngchk('' @ nat_str n @ '')''"
| "show_lookup_target (LtDynRangecheck v) = ''rngchk(_ < '' @ show_v v @ '')''"
| "show_lookup_target (LtArray arr) = show_v arr"
| "show_lookup_target (LtSpread n) = ''spread('' @ nat_str n @ '')''"

text \<open>The partial-derivative sign, as its UTF-8 bytes.\<close>

definition partial_sign :: string where "partial_sign = [CHR 0xE2, CHR 0x88, CHR 0x82]"

primrec display_instruction ::
  "(function_id \<Rightarrow> string) \<Rightarrow> (value_id \<Rightarrow> string) \<Rightarrow> opcode \<Rightarrow> string" where
  "display_instruction _ a (OpCmp kind result lhs rhs) = show_v result @ a result @ '' = '' @ show_v lhs
     @ '' '' @ show_cmp_kind kind @ '' '' @ show_v rhs"
| "display_instruction _ a (OpBinaryArithOp kind result lhs rhs) = show_v result @ a result @ '' = ''
     @ show_v lhs @ '' '' @ show_binary_arith_op_kind kind @ '' '' @ show_v rhs"
| "display_instruction _ a (OpAlloc result typ) = show_v result @ a result @ '' = alloc('' @ show_ty typ
     @ '')''"
| "display_instruction _ a (OpStore ptr value) = ''*'' @ show_v ptr @ a ptr @ '' = '' @ show_v value"
| "display_instruction _ a (OpLoad result ptr) = show_v result @ a result @ '' = *'' @ show_v ptr"
| "display_instruction _ _ (OpAssert value) = ''assert '' @ show_v value"
| "display_instruction _ _ (OpAssertCmp kind lhs rhs) = ''assert '' @ show_v lhs @ '' ''
     @ show_cmp_kind kind @ '' '' @ show_v rhs"
| "display_instruction _ _ (OpAssertR1C lhs rhs cond) = ''assert '' @ show_v lhs @ '' * '' @ show_v rhs
     @ '' - '' @ show_v cond @ '' == 0''"
| "display_instruction fname a (OpCall results function args unconstrained) = (let args_str = show_vs args; result_str = join_str '', '' (map (\<lambda>v. show_v v
     @ a v) results); call_prefix = (if unconstrained then ''call_unconstrained'' else ''call'') in case function of CallStatic fn_id \<Rightarrow> result_str
     @ '' = '' @ call_prefix @ '' '' @ fname fn_id @ ''@'' @ nat_str fn_id @ ''('' @ args_str
     @ '')'' | CallDynamic fn_ptr \<Rightarrow> result_str @ '' = '' @ call_prefix @ ''_indirect ''
     @ show_v fn_ptr @ ''('' @ args_str @ '')'')"
| "display_instruction _ a (OpArrayGet result array index) = show_v result @ a result @ '' = ''
     @ show_v array @ ''['' @ show_v index @ '']''"
| "display_instruction _ a (OpArraySet result array index element) = show_v result @ a result @ '' = (''
     @ show_v array @ ''['' @ show_v index @ ''] = '' @ show_v element @ '')''"
| "display_instruction _ a (OpSlicePush dir result slc values) = show_v result @ a result
     @ '' = slice_push_'' @ (case dir of Front \<Rightarrow> ''front'' | Back \<Rightarrow> ''back'')
     @ ''('' @ show_v slc @ '', ['' @ show_vs values @ ''])''"
| "display_instruction _ a (OpSliceLen result slc) = show_v result @ a result @ '' = slice_len(''
     @ show_v slc @ '')''"
| "display_instruction _ a (OpSelect result cond if_t if_f) = show_v result @ a result @ '' = ''
     @ show_v cond @ '' ? '' @ show_v if_t @ '' : '' @ show_v if_f"
| "display_instruction _ a (OpWriteWitness result value pinned) = (case result of Some r \<Rightarrow> show_v r
     @ a r @ '' = '' | None \<Rightarrow> []) @ ''write_witness('' @ show_v value @ '')''
     @ (if pinned then '' [pinned]'' else [])"
| "display_instruction _ a (OpFreshWitness result typ) = show_v result @ a result
     @ '' = fresh_witness(): '' @ show_ty typ"
| "display_instruction _ _ (OpConstrain x y z) = ''constrain_r1c('' @ show_v x @ '' * '' @ show_v y
     @ '' - '' @ show_v z @ '' == 0)''"
| "display_instruction _ _ (OpLookup target args flag) = ''constrain_lookup('' @ show_lookup_target target
     @ '', ('' @ show_vs args @ ''), flag='' @ show_v flag @ '')''"
| "display_instruction _ a (OpNextDCoeff result) = show_v result @ a result @ '' = next_d_coeff()''"
| "display_instruction _ _ (OpBumpD matrix result value) = partial_sign
     @ (case matrix of DMatA \<Rightarrow> ''A'' | DMatB \<Rightarrow> ''B'' | DMatC \<Rightarrow> ''C'')
     @ '' / '' @ partial_sign @ show_v result @ '' += '' @ show_v value"
| "display_instruction _ _ (OpDLookup target args flag) = partial_sign @ ''lookup(''
     @ show_lookup_target target @ '', ('' @ show_vs args @ ''), flag='' @ show_v flag @ '')''"
| "display_instruction _ a (OpMkSeq result elems seq_type typ) = show_v result @ a result @ '' = [''
     @ show_vs elems @ ''] : '' @ show_sequence_target_type seq_type @ '' of '' @ show_ty typ"
| "display_instruction _ a (OpMkRepeated result element seq_type cnt elem_type) = show_v result @ a result
     @ '' = ['' @ show_v element @ ''; '' @ nat_str cnt @ ''] : '' @ show_sequence_target_type seq_type
     @ '' of '' @ show_ty elem_type"
| "display_instruction _ a (OpCast result value target) = show_v result @ a result @ '' = cast ''
     @ show_v value @ '' to '' @ show_cast_target target"
| "display_instruction _ a (OpSExt result value in_bits out_bits) = show_v result @ a result @ '' = sext ''
     @ show_v value @ '' from '' @ nat_str in_bits @ '' bits to '' @ nat_str out_bits @ '' bits''"
| "display_instruction _ a (OpBitRange result value offset width) = show_v result @ a result
     @ '' = bit_range('' @ show_v value @ '', '' @ nat_str offset @ '', '' @ nat_str width @ '')''"
| "display_instruction _ a (OpNot result value) = show_v result @ a result @ '' = ~'' @ show_v value"
| "display_instruction _ a (OpValueOf result value) = show_v result @ a result @ '' = value_of ''
     @ show_v value"
| "display_instruction _ a (OpToBits result value endianness output_size) = show_v result @ a result
     @ '' = to_bits '' @ show_v value @ '' (endianness: '' @ show_endianness endianness @ '', size: ''
     @ nat_str output_size @ '')''"
| "display_instruction _ a (OpToRadix result value radix endianness output_size) = show_v result @ a result
     @ '' = to_radix '' @ show_v value @ '' ''
     @ (case radix of RadixBytes \<Rightarrow> ''bytes'' | RadixDyn v \<Rightarrow> show_v v)
     @ '' (endianness: '' @ show_endianness endianness @ '', size: '' @ nat_str output_size @ '')''"
| "display_instruction _ _ (OpMemOp kind value) = (case kind of RcBump n \<Rightarrow> ''inc_rc[+''
     @ nat_str n @ '']'' | RcDrop \<Rightarrow> ''drop'') @ ''('' @ show_v value @ '')''"
| "display_instruction _ a (OpMulConst result const_val var) = show_v result @ a result @ '' = mul_const(''
     @ show_v const_val @ '', '' @ show_v var @ '')''"
| "display_instruction _ _ (OpRangecheck value max_bits) = ''rangecheck('' @ show_v value @ '', ''
     @ nat_str max_bits @ '')''"
| "display_instruction _ a (OpReadGlobal result index typ) = show_v result @ a result
     @ '' = read_global(g'' @ nat_str index @ '', '' @ show_ty typ @ '')''"
| "display_instruction _ a (OpTupleProj result tuple idx) = show_v result @ a result @ '' = ''
     @ show_v tuple @ ''.'' @ nat_str idx"
| "display_instruction _ a (OpMkTuple result elems _) = show_v result @ a result @ '' = ('' @ show_vs elems
     @ '')''"
| "display_instruction _ _ (OpTodo payload results result_types) = ''todo('' @ [CHR 0x22] @ payload
     @ [CHR 0x22] @ '', ['' @ join_str '', '' (map (\<lambda>(r, tp). show_v r @ '': ''
     @ show_ty tp) (zip results result_types)) @ ''])''"
| "display_instruction _ _ (OpInitGlobal global value) = ''init_global('' @ nat_str global @ '', ''
     @ show_v value @ '')''"
| "display_instruction _ _ (OpDropGlobal global) = ''drop_global('' @ nat_str global @ '')''"
| "display_instruction _ a (OpSpread result value bits) = show_v result @ a result @ '' = spread(''
     @ show_v value @ '', '' @ nat_str bits @ '')''"
| "display_instruction _ a (OpUnspread result_odd result_even value bits) = show_v result_odd
     @ a result_odd @ '', '' @ show_v result_even @ a result_even @ '' = unspread('' @ show_v value
     @ '', '' @ nat_str bits @ '')''"
| "display_instruction fname a (OpGuard condition inner) = ''guard('' @ show_v condition @ '') { ''
     @ display_instruction fname a inner @ '' }''"

subsection \<open>The opcodes implement the instruction interface\<close>

definition hl_instruction :: "opcode instruction_ops" where
  "hl_instruction = \<lparr>op_inputs = get_inputs, op_results = get_results,
     op_map_operands = map_operands, op_static_calls = get_static_call_targets\<rparr>"

lemma dyn_target_map [simp]: "dyn_target (map_dyn_target r t) = map r (dyn_target t)"
  by (cases t) auto

lemma radix_values_map [simp]: "radix_values (map_radix r x) = map r (radix_values x)"
  by (cases x) auto

lemma lookup_values_map [simp]: "lookup_values (map_lookup_target r t) = map r (lookup_values t)"
  by (cases t) auto

lemma option_values_map [simp]: "option_values (map_option r x) = map r (option_values x)"
  by (cases x) auto

lemma get_inputs_map: "get_inputs (map_operands r i) = map r (get_inputs i)"
  by (induction i) auto

lemma get_results_map: "get_results (map_operands r i) = map r (get_results i)"
  by (induction i) auto

lemma static_calls_map: "get_static_call_targets (map_operands r i) = get_static_call_targets i"
proof (induction i)
  case (OpCall rs fn args u)
  then show ?case by (cases fn) auto
qed auto

interpretation hl: instruction hl_instruction
  by unfold_locales (simp_all add: hl_instruction_def get_inputs_map get_results_map)

lemma map_results_inputs: "map_operands r i = map_inputs r (map_results r i)"
  by (induction i) auto

lemma inputs_of_map_results: "get_inputs (map_results r i) = get_inputs i"
  by (induction i) auto

lemma results_of_map_inputs: "get_results (map_inputs r i) = get_results i"
  by (induction i) auto

lemma operands_multiset: "mset (get_operands i) = mset (get_results i) + mset (get_inputs i)"
  by (induction i) auto

text \<open>C35. The views of an opcode agree: its operands are exactly its results and its inputs, with
  multiplicity; renaming the inputs leaves the results alone, renaming the results leaves the inputs
  alone, and renaming the operands is renaming both, and leaves the functions called alone.\<close>

theorem operand_views_agree:
  "mset (get_operands i) = mset (get_results i) + mset (get_inputs i) \<and>
   get_results (map_inputs r i) = get_results i \<and> get_inputs (map_results r i) = get_inputs i \<and>
   map_operands r i = map_inputs r (map_results r i) \<and>
   get_inputs (map_operands r i) = map r (get_inputs i) \<and>
   get_results (map_operands r i) = map r (get_results i) \<and>
   get_static_call_targets (map_operands r i) = get_static_call_targets i"
  by (intro conjI operands_multiset results_of_map_inputs inputs_of_map_results map_results_inputs
      get_inputs_map get_results_map static_calls_map)

subsection \<open>Duplicating a function\<close>

definition issued :: "'f hlssa \<Rightarrow> hl_function \<Rightarrow> bool" where
  "issued s f \<longleftrightarrow> (\<forall>v \<in> set (function_value_ids hl_instruction f). v < s_next_value_id s)"

text \<open>C9. Duplicating a function of a program whose identifiers have all been issued returns a new
  function identifier and leaves every other function in place. The copy is the original renamed: the
  renaming is injective on the values of the function, keeps the constants, and sends every other value to an
  identifier that no value had before. Block identifiers, entry, return types and code size are the
  original's, and the functions called are the same.\<close>

theorem duplicate_function_renames_apart:
  fixes s :: "'f hlssa"
  assumes "get_function fid s = Some f" "issued s f"
  shows "\<exists>s' g r. duplicate_function hl_instruction fid s = Some (s_next_function_id s, s') \<and>
    (\<forall>i. get_function i s' = (if i = s_next_function_id s then Some g else get_function i s)) \<and>
    g = f\<lparr>f_blocks := map (\<lambda>(i, b). (i, map_block hl_instruction r b)) (f_blocks f)\<rparr> \<and>
    function_value_ids hl_instruction g = map r (function_value_ids hl_instruction f) \<and>
    code_size hl_instruction g = code_size hl_instruction f \<and>
    inj_on r (set (function_value_ids hl_instruction f)) \<and>
    (\<forall>v \<in> set (function_value_ids hl_instruction f). if is_const v s then r v = v
        else s_next_value_id s \<le> r v \<and> r v < s_next_value_id s') \<and>
    s_constants s' = s_constants s \<and> issued s' f \<and> issued s' g"
proof -
  let ?vs = "function_value_ids hl_instruction f"
  obtain m s1 where m: "build_remap ?vs (Map.empty, s) = (m, s1)" by fastforce
  let ?r = "apply_remap m"
  let ?g = "f\<lparr>f_blocks := map (\<lambda>(i, b). (i, map_block hl_instruction ?r b)) (f_blocks f)\<rparr>"
  let ?s' = "snd (insert_function ?g s1)"
  from build_remap_renaming [OF m] assms(2) obtain k where k: "s1 = s\<lparr>s_next_value_id := k\<rparr>"
      "s_next_value_id s \<le> k" "inj_on ?r (set ?vs)"
    and r: "\<forall>v \<in> set ?vs. if is_const v s then ?r v = v else s_next_value_id s \<le> ?r v \<and> ?r v < k"
    unfolding issued_def by blast
  have old: "v < k" "?r v < k" if "v \<in> set ?vs" for v
    using that r k(2) assms(2) by (fastforce simp: issued_def split: if_splits)+
  have "duplicate_function hl_instruction fid s = Some (s_next_function_id s, ?s')"
    using assms(1) m k(1) by (simp add: duplicate_function_def get_function_def insert_function_def)
  moreover have "get_function i ?s' = (if i = s_next_function_id s then Some ?g else get_function i s)" for i
    by (simp add: k(1) insert_function_def get_function_def)
  moreover have "s_constants ?s' = s_constants s" "s_next_value_id ?s' = k"
    by (simp_all add: k(1) insert_function_def)
  moreover have "function_value_ids hl_instruction ?g = map ?r ?vs"
    by (rule hl.function_value_ids_map)
  moreover have "code_size hl_instruction ?g = code_size hl_instruction f"
    by (rule hl.code_size_map)
  ultimately show ?thesis
    using k(3) r old by (intro exI [of _ ?s'] exI [of _ ?g] exI [of _ ?r]) (simp add: issued_def)
qed

definition sample_function :: hl_function where
  "sample_function = \<lparr>f_entry_block = 0,
     f_blocks = [(0, \<lparr>b_parameters = [(1, TField)], b_instructions = [OpBinaryArithOp BopMul 2 1 0],
                  b_terminator = Some (Return [2])\<rparr>)],
     f_name = ''scale'', f_returns = [TField], f_next_block = 1\<rparr>"

definition sample_program :: "nat hlssa" where
  "sample_program = \<lparr>s_functions = [(0, sample_function)], s_global_types = [], s_globals_init_fn = None,
     s_globals_deinit_fn = None, s_main_id = 0, s_next_function_id = 1, s_next_value_id = 3,
     s_constants = [(0, ConstField 7)]\<rparr>"

theorem duplicate_function_renames_apart_witness:
  "\<exists>s'. duplicate_function hl_instruction 0 sample_program = Some (1, s') \<and>
     get_function 0 s' = Some sample_function \<and>
     map_option (\<lambda>f. f_blocks f) (get_function 1 s') =
       Some [(0, \<lparr>b_parameters = [(3, TField)], b_instructions = [OpBinaryArithOp BopMul 4 3 0],
                  b_terminator = Some (Return [4])\<rparr>)]"
proof -
  have "get_function 0 sample_program = Some sample_function" "issued sample_program sample_function"
    by (simp_all add: sample_program_def get_function_def issued_def function_value_ids_def
        sample_function_def block_value_ids_def hl_instruction_def)
  from duplicate_function_renames_apart [OF this]
  obtain s' g where d: "duplicate_function hl_instruction 0 sample_program =
        Some (s_next_function_id sample_program, s')"
    and k: "\<forall>i. get_function i s' = (if i = s_next_function_id sample_program then Some g
                                 else get_function i sample_program)"
    by blast
  have n: "s_next_function_id sample_program = 1" by (simp add: sample_program_def)
  have "duplicate_function hl_instruction 0 sample_program = Some (1, s')" using d n by simp
  moreover have "get_function 0 s' = Some sample_function"
    using k n \<open>get_function 0 sample_program = Some sample_function\<close> by simp
  moreover have "map_option (\<lambda>f. f_blocks f) (get_function 1 s') =
       Some [(0, \<lparr>b_parameters = [(3, TField)], b_instructions = [OpBinaryArithOp BopMul 4 3 0],
                  b_terminator = Some (Return [4])\<rparr>)]"
    using d
    by (auto simp: duplicate_function_def sample_program_def function_value_ids_def sample_function_def
        block_value_ids_def hl_instruction_def is_const_def fresh_value_def insert_function_def
        get_function_def map_block_def apply_remap_def)
  ultimately show ?thesis by blast
qed

end
