(* ===== verification/R1CS_Gen.thy ===== *)
theory R1CS_Gen
  imports R1CS_Seal HL_Opcodes
begin

text \<open>
  The values of the constraint generator and their operations
  (\<^verbatim>\<open>compiler/src/compiler/codegen/hlssa_to_r1cs.rs\<close>). Arrays and pointers are reference-counted
  cells that are mutated through any of their aliases (the table an array was turned into, the content
  of a pointer), so they are addresses into a heap that the context carries. Tuples are never mutated
  and are values.

  The field is a type of class \<open>field\<close>; what the code takes from its representation (the arkworks library) is
  the parameter \<open>fp\<close>. 128-bit integers are words.
\<close>

subsection \<open>Values and context\<close>

datatype 'f val =
    VConst 'f
  | VLC "'f lc"
  | VArray nat
  | VTuple "'f val list"
  | VPtr nat
  | VInvalid

record 'f array_data =
  ad_table_id :: "nat option"
  ad_data :: "'f val list"

record 'f gen_ctx =
  gc_gen :: "'f r1c_gen"
  gc_arrays :: "'f array_data list"
  gc_cells :: "'f val list"

text \<open>The third-party interface of the scalar field: the number an element represents (\<^verbatim>\<open>into_bigint\<close>),
  its bits and bytes in little-endian order, its lowest 64-bit limb, the element with given bits
  (\<^verbatim>\<open>from_bits_le\<close> and \<^verbatim>\<open>from_bigint\<close>, which refuses numbers from the modulus on), and the order.\<close>

record 'f prime_ops =
  fp_repr :: "'f \<Rightarrow> nat"
  fp_to_bits_le :: "'f \<Rightarrow> bool list"
  fp_to_bytes_le :: "'f \<Rightarrow> nat list"
  fp_low_limb :: "'f \<Rightarrow> nat"
  fp_from_bits_le :: "bool list \<Rightarrow> 'f option"
  fp_less :: "'f \<Rightarrow> 'f \<Rightarrow> bool"

definition of_u128 :: "u128 \<Rightarrow> 'f::field" where
  "of_u128 w = of_nat (unat w)"

subsection \<open>Fixed-width integers\<close>

definition bit_mask :: "nat \<Rightarrow> u128 option" where
  "bit_mask bits = do {
     ensure (1 \<le> bits \<and> bits \<le> 128);
     if bits = 128 then Some (- 1) else Some (push_bit bits 1 - 1) }"

definition wrap_unsigned :: "u128 \<Rightarrow> nat \<Rightarrow> u128 option" where
  "wrap_unsigned v bits = map_option (\<lambda>m. and v m) (bit_mask bits)"

text \<open>A signed result is the \<^verbatim>\<open>i128\<close> with the same bits. The subtraction wraps, as it does in a release build; at a
  width of 127 bits, where \<open>2 ^ 127\<close> as \<^verbatim>\<open>i128\<close> is negative, a build with overflow checks panics on it.\<close>

definition decode_signed :: "u128 \<Rightarrow> nat \<Rightarrow> u128 option" where
  "decode_signed v bits = do {
     ensure (bits > 0 \<and> bits \<le> 128);
     masked \<leftarrow> wrap_unsigned v bits;
     if bits = 128 then Some masked
     else let sign_bit = push_bit (bits - 1) 1 in
       if and masked sign_bit = 0 then Some masked else Some (masked - push_bit bits 1) }"

definition encode_signed :: "u128 \<Rightarrow> nat \<Rightarrow> u128 option" where
  "encode_signed v bits = wrap_unsigned v bits"

subsection \<open>Linear combinations\<close>

fun expect_linear_combination :: "'f val \<Rightarrow> 'f lc option" where
  "expect_linear_combination (VConst c) = Some [(0, c)]"
| "expect_linear_combination (VLC lc) = Some lc"
| "expect_linear_combination _ = None"

text \<open>The merge of two sorted linear combinations.\<close>

fun add_lc :: "'f::field lc \<Rightarrow> 'f lc \<Rightarrow> 'f lc" where
  "add_lc ((i, c) # lhs) ((j, d) # rhs) =
     (if i = j then (let r = c + d in if r \<noteq> 0 then (i, r) # add_lc lhs rhs else add_lc lhs rhs)
      else if i < j then (i, c) # add_lc lhs ((j, d) # rhs)
      else (j, d) # add_lc ((i, c) # lhs) rhs)"
| "add_lc lhs [] = lhs"
| "add_lc [] rhs = rhs"

definition val_add :: "'f::field val \<Rightarrow> 'f val \<Rightarrow> 'f val option" where
  "val_add a b = (case (a, b) of
     (VConst lhs, VConst rhs) \<Rightarrow> Some (VConst (lhs + rhs))
   | _ \<Rightarrow> do {
       lhs \<leftarrow> expect_linear_combination a;
       rhs \<leftarrow> expect_linear_combination b;
       Some (VLC (add_lc lhs rhs)) })"

fun val_neg :: "'f::field val \<Rightarrow> 'f val option" where
  "val_neg (VConst c) = Some (VConst (- c))"
| "val_neg (VLC lc) = Some (VLC (map (\<lambda>(i, c). (i, - c)) lc))"
| "val_neg _ = None"

definition val_sub :: "'f::field val \<Rightarrow> 'f val \<Rightarrow> 'f val option" where
  "val_sub a b = do { n \<leftarrow> val_neg b; val_add a n }"

fun scale_lc :: "'f::field \<Rightarrow> 'f lc \<Rightarrow> 'f val" where
  "scale_lc c lc = (if c = 0 then VConst 0 else VLC (map (\<lambda>(i, cl). (i, c * cl)) lc))"

fun val_mul :: "'f::field val \<Rightarrow> 'f val \<Rightarrow> 'f val option" where
  "val_mul (VConst lhs) (VConst rhs) = Some (VConst (lhs * rhs))"
| "val_mul (VConst c) (VLC lc) = Some (scale_lc c lc)"
| "val_mul (VLC lc) (VConst c) = Some (scale_lc c lc)"
| "val_mul _ _ = None"

text \<open>The division of the field panics on a zero divisor.\<close>

definition fdiv :: "'f::field \<Rightarrow> 'f \<Rightarrow> 'f option" where
  "fdiv a b = (if b = 0 then None else Some (a / b))"

definition val_div :: "'f::field val \<Rightarrow> 'f val \<Rightarrow> 'f val option" where
  "val_div a b = (case (a, b) of
     (VConst lhs, VConst rhs) \<Rightarrow> map_option VConst (fdiv lhs rhs)
   | (_, VConst rhs) \<Rightarrow> do { inv \<leftarrow> fdiv 1 rhs; val_mul a (VConst inv) }
   | _ \<Rightarrow> None)"

subsection \<open>Expectations\<close>

fun expect_constant :: "'f val \<Rightarrow> 'f option" where
  "expect_constant (VConst c) = Some c"
| "expect_constant _ = None"

text \<open>The conversion to an integer of \<open>w\<close> bits parses the decimal digits and panics when they do
  not fit.\<close>

definition expect_uint :: "nat \<Rightarrow> 'f prime_ops \<Rightarrow> 'f val \<Rightarrow> nat option" where
  "expect_uint w fp v = do {
     c \<leftarrow> expect_constant v;
     ensure (fp_repr fp c < 2 ^ w);
     Some (fp_repr fp c) }"

definition expect_u1 :: "'f prime_ops \<Rightarrow> 'f val \<Rightarrow> bool option" where
  "expect_u1 fp v = do {
     n \<leftarrow> expect_uint 128 fp v;
     ensure (n \<le> 1);
     Some (n = 1) }"

definition expect_u8 :: "'f prime_ops \<Rightarrow> 'f val \<Rightarrow> nat option" where
  "expect_u8 fp v = expect_uint 8 fp v"

definition expect_u32 :: "'f prime_ops \<Rightarrow> 'f val \<Rightarrow> nat option" where
  "expect_u32 fp v = expect_uint 32 fp v"

definition expect_u64 :: "'f prime_ops \<Rightarrow> 'f val \<Rightarrow> nat option" where
  "expect_u64 fp v = expect_uint 64 fp v"

definition expect_u128 :: "'f prime_ops \<Rightarrow> 'f val \<Rightarrow> u128 option" where
  "expect_u128 fp v = map_option of_nat (expect_uint 128 fp v)"

fun expect_ptr :: "'f val \<Rightarrow> nat option" where
  "expect_ptr (VPtr p) = Some p"
| "expect_ptr _ = None"

fun expect_array :: "'f val \<Rightarrow> nat option" where
  "expect_array (VArray a) = Some a"
| "expect_array _ = None"

fun expect_tuple :: "'f val \<Rightarrow> 'f val list option" where
  "expect_tuple (VTuple fs) = Some fs"
| "expect_tuple _ = None"

definition val_lt :: "'f::field prime_ops \<Rightarrow> 'f val \<Rightarrow> 'f val \<Rightarrow> 'f val option" where
  "val_lt fp a b = do {
     x \<leftarrow> expect_constant a;
     y \<leftarrow> expect_constant b;
     Some (VConst (if fp_less fp x y then 1 else 0)) }"

definition val_eq :: "'f::field val \<Rightarrow> 'f val \<Rightarrow> 'f val option" where
  "val_eq a b = do {
     x \<leftarrow> expect_constant a;
     y \<leftarrow> expect_constant b;
     Some (VConst (if x = y then 1 else 0)) }"

subsection \<open>The heap\<close>

definition mk_array :: "'f val list \<Rightarrow> 'f gen_ctx \<Rightarrow> 'f val \<times> 'f gen_ctx" where
  "mk_array data ctx = (VArray (length (gc_arrays ctx)),
     ctx\<lparr>gc_arrays := gc_arrays ctx @ [\<lparr>ad_table_id = None, ad_data = data\<rparr>]\<rparr>)"

definition mk_tuple :: "'f val list \<Rightarrow> 'f val" where
  "mk_tuple fs = VTuple fs"

definition array_at :: "'f gen_ctx \<Rightarrow> 'f val \<Rightarrow> (nat \<times> 'f array_data) option" where
  "array_at ctx v = do { a \<leftarrow> expect_array v; d \<leftarrow> nth_opt (gc_arrays ctx) a; Some (a, d) }"

text \<open>Flattening nested arrays. The elements of an array exist before it, so an array at address \<open>a\<close>
  nests at most \<open>a + 1\<close> deep: that is the fuel its callers pass.\<close>

fun flatten_array_into_table :: "nat \<Rightarrow> 'f array_data list \<Rightarrow> 'f val list \<Rightarrow> 'f lc list \<Rightarrow> 'f lc list option" where
  "flatten_array_into_table 0 arrays data out = None"
| "flatten_array_into_table (Suc n) arrays data out =
     opt_fold (\<lambda>elem out. case elem of
         VArray inner \<Rightarrow> do {
           d \<leftarrow> nth_opt arrays inner;
           flatten_array_into_table n arrays (ad_data d) out }
       | _ \<Rightarrow> do { lc \<leftarrow> expect_linear_combination elem; Some (out @ [lc]) }) data out"

subsection \<open>The operations of the context\<close>

text \<open>A range table is always the first table.\<close>

definition range_table :: "'f r1c_gen \<Rightarrow> 'f r1c_gen option" where
  "range_table g = (case g_tables g of
     [] \<Rightarrow> Some (g\<lparr>g_tables := [TabRange 8]\<rparr>)
   | TabRange i1 # _ \<Rightarrow> do { ensure (i1 = 8); Some g }
   | _ \<Rightarrow> None)"

definition push_lookup :: "nat \<Rightarrow> 'f lc list \<Rightarrow> 'f lc \<Rightarrow> 'f r1c_gen \<Rightarrow> 'f r1c_gen" where
  "push_lookup table_id els flag g =
     g\<lparr>g_lookups := g_lookups g @ [\<lparr>lk_table_id = table_id, lk_elements = els, lk_flag = flag\<rparr>]\<rparr>"

fun spread_position :: "nat \<Rightarrow> nat \<Rightarrow> 'f table list \<Rightarrow> nat option" where
  "spread_position k bits [] = None"
| "spread_position k bits (t # ts) =
     (case t of TabSpread n \<Rightarrow> if n = bits then Some k else spread_position (k + 1) bits ts
      | _ \<Rightarrow> spread_position (k + 1) bits ts)"

definition gen_lookup ::
  "'f prime_ops \<Rightarrow> 'f val lookup_target \<Rightarrow> 'f val list \<Rightarrow> 'f val \<Rightarrow> 'f gen_ctx \<Rightarrow> 'f gen_ctx option" where
  "gen_lookup fp target args flag ctx = do {
     flag_lc \<leftarrow> expect_linear_combination flag;
     els \<leftarrow> opt_map expect_linear_combination args;
     case target of
       LtRangecheck i \<Rightarrow> do {
         ensure (i = 8);
         g \<leftarrow> range_table (gc_gen ctx);
         Some (ctx\<lparr>gc_gen := push_lookup 0 els flag_lc g\<rparr>) }
     | LtDynRangecheck v \<Rightarrow> do {
         v \<leftarrow> expect_u32 fp v;
         ensure (v = 256);
         g \<leftarrow> range_table (gc_gen ctx);
         Some (ctx\<lparr>gc_gen := push_lookup 0 els flag_lc g\<rparr>) }
     | LtSpread bits \<Rightarrow>
         (let g = gc_gen ctx;
              (table_id, g) = (case spread_position 0 bits (g_tables g) of
                 Some idx \<Rightarrow> (idx, g)
               | None \<Rightarrow> (length (g_tables g), g\<lparr>g_tables := g_tables g @ [TabSpread bits]\<rparr>))
          in Some (ctx\<lparr>gc_gen := push_lookup table_id els flag_lc g\<rparr>))
     | LtArray arr \<Rightarrow> do {
         (a, d) \<leftarrow> array_at ctx arr;
         (table_id, ctx) \<leftarrow> (case ad_table_id d of
            None \<Rightarrow> do {
              elems \<leftarrow> flatten_array_into_table (a + 1) (gc_arrays ctx) (ad_data d) [];
              let idx = length (g_tables (gc_gen ctx));
              Some (idx, ctx\<lparr>gc_gen := (gc_gen ctx)\<lparr>g_tables := g_tables (gc_gen ctx) @ [TabOfElems elems]\<rparr>,
                            gc_arrays := (gc_arrays ctx)[a := d\<lparr>ad_table_id := Some idx\<rparr>]\<rparr>) }
          | Some idx \<Rightarrow> Some (idx, ctx));
         Some (ctx\<lparr>gc_gen := push_lookup table_id els flag_lc (gc_gen ctx)\<rparr>) } }"

definition gen_slice_push ::
  "'f val \<Rightarrow> 'f val list \<Rightarrow> slice_op_dir \<Rightarrow> 'f gen_ctx \<Rightarrow> ('f val \<times> 'f gen_ctx) option" where
  "gen_slice_push sl values dir ctx = do {
     (_, d) \<leftarrow> array_at ctx sl;
     (case dir of
        Front \<Rightarrow> Some (mk_array (values @ ad_data d) ctx)
      | Back \<Rightarrow> Some (mk_array (ad_data d @ values) ctx)) }"

definition gen_slice_len :: "'f::field val \<Rightarrow> 'f gen_ctx \<Rightarrow> ('f val \<times> 'f gen_ctx) option" where
  "gen_slice_len sl ctx = do {
     (_, d) \<leftarrow> array_at ctx sl;
     Some (VConst (of_nat (length (ad_data d))), ctx) }"

text \<open>Unconstrained calls are an internal error; the other hooks do nothing.\<close>

definition gen_on_call :: "bool \<Rightarrow> 'f gen_ctx \<Rightarrow> ('f val list option \<times> 'f gen_ctx) option" where
  "gen_on_call unconstrained ctx = do { ensure (\<not> unconstrained); Some (None, ctx) }"

subsection \<open>The operations of the values\<close>

definition val_slt :: "'f::field prime_ops \<Rightarrow> 'f val \<Rightarrow> 'f val \<Rightarrow> nat \<Rightarrow> 'f val option" where
  "val_slt fp a b bits = do {
     a \<leftarrow> Option.bind (expect_u128 fp a) (\<lambda>a. decode_signed a bits);
     b \<leftarrow> Option.bind (expect_u128 fp b) (\<lambda>b. decode_signed b bits);
     Some (VConst (if sint a < sint b then 1 else 0)) }"

fun is_const_val :: "'f val \<Rightarrow> bool" where
  "is_const_val (VConst _) = True"
| "is_const_val _ = False"

text \<open>\<^verbatim>\<open>wrapping_shl\<close> and \<^verbatim>\<open>wrapping_shr\<close> take the low bits of the shift amount, given as \<^verbatim>\<open>u32\<close>.\<close>

definition shift_amount :: "u128 \<Rightarrow> nat" where
  "shift_amount b = unat b mod 2 ^ 32 mod 128"

definition arith_u :: "binary_arith_op_kind \<Rightarrow> u128 \<Rightarrow> u128 \<Rightarrow> u128 option" where
  "arith_u kind a b = (case kind of
     BopAdd \<Rightarrow> Some (a + b)
   | BopSub \<Rightarrow> Some (a - b)
   | BopMul \<Rightarrow> Some (a * b)
   | BopDiv \<Rightarrow> if b = 0 then None else Some (a div b)
   | BopMod \<Rightarrow> if b = 0 then None else Some (a mod b)
   | BopAnd \<Rightarrow> Some (and a b)
   | BopOr \<Rightarrow> Some (or a b)
   | BopXor \<Rightarrow> Some (xor a b)
   | BopShl \<Rightarrow> Some (push_bit (shift_amount b) a)
   | BopShr \<Rightarrow> Some (drop_bit (shift_amount b) a))"

definition arith_i :: "binary_arith_op_kind \<Rightarrow> nat \<Rightarrow> u128 \<Rightarrow> u128 \<Rightarrow> u128 option" where
  "arith_i kind bits a b = do {
     b_bits \<leftarrow> wrap_unsigned b bits;
     case kind of
       BopAdd \<Rightarrow> encode_signed (a + b) bits
     | BopSub \<Rightarrow> encode_signed (a - b) bits
     | BopMul \<Rightarrow> encode_signed (a * b) bits
     | BopAnd \<Rightarrow> do { x \<leftarrow> wrap_unsigned a bits; y \<leftarrow> wrap_unsigned b bits; Some (and x y) }
     | BopOr \<Rightarrow> do { x \<leftarrow> wrap_unsigned a bits; y \<leftarrow> wrap_unsigned b bits; Some (or x y) }
     | BopXor \<Rightarrow> do { x \<leftarrow> wrap_unsigned a bits; y \<leftarrow> wrap_unsigned b bits; Some (xor x y) }
     | BopShl \<Rightarrow> do { x \<leftarrow> wrap_unsigned a bits; wrap_unsigned (push_bit (shift_amount b_bits) x) bits }
     | BopShr \<Rightarrow> do { x \<leftarrow> wrap_unsigned a bits; Some (drop_bit (shift_amount b_bits) x) }
     | BopDiv \<Rightarrow> None
     | BopMod \<Rightarrow> None }"

fun val_arith_field :: "binary_arith_op_kind \<Rightarrow> 'f::field val \<Rightarrow> 'f val \<Rightarrow> 'f val option" where
  "val_arith_field BopAdd a b = val_add a b"
| "val_arith_field BopSub a b = val_sub a b"
| "val_arith_field BopMul a b = val_mul a b"
| "val_arith_field BopDiv a b = val_div a b"
| "val_arith_field _ a b = None"

definition val_arith ::
  "'f::field prime_ops \<Rightarrow> 'f val \<Rightarrow> 'f val \<Rightarrow> binary_arith_op_kind \<Rightarrow> ty \<Rightarrow> 'f val option" where
  "val_arith fp x y kind out_type = (case strip_witness out_type of
     TU bits \<Rightarrow> do {
       ensure (bits > 0 \<and> bits \<le> 128);
       ensure (is_const_val x \<and> is_const_val y);
       a \<leftarrow> Option.bind (expect_u128 fp x) (\<lambda>a. wrap_unsigned a bits);
       b \<leftarrow> Option.bind (expect_u128 fp y) (\<lambda>b. wrap_unsigned b bits);
       result \<leftarrow> arith_u kind a b;
       result \<leftarrow> wrap_unsigned result bits;
       Some (VConst (of_u128 result)) }
   | TI bits \<Rightarrow> do {
       ensure (bits > 0 \<and> bits \<le> 128);
       ensure (is_const_val x \<and> is_const_val y);
       a \<leftarrow> Option.bind (expect_u128 fp x) (\<lambda>a. decode_signed a bits);
       b \<leftarrow> Option.bind (expect_u128 fp y) (\<lambda>b. decode_signed b bits);
       result \<leftarrow> arith_i kind bits a b;
       Some (VConst (of_u128 result)) }
   | TField \<Rightarrow> val_arith_field kind x y
   | TWitnessOf _ \<Rightarrow> val_arith_field kind x y
   | _ \<Rightarrow> None)"

definition assert_bool :: "'f::field val \<Rightarrow> unit option" where
  "assert_bool v = do { c \<leftarrow> expect_constant v; ensure (c \<noteq> 0) }"

text \<open>\<^verbatim>\<open>1u64 << (bits - 1)\<close> is out of range for widths that are zero or over 64.\<close>

definition assert_cmp :: "'f::field prime_ops \<Rightarrow> cmp_kind \<Rightarrow> 'f val \<Rightarrow> 'f val \<Rightarrow> ty \<Rightarrow> unit option" where
  "assert_cmp fp kind a b lhs_type = do {
     a_val \<leftarrow> expect_constant a;
     b_val \<leftarrow> expect_constant b;
     case kind of
       CmpEq \<Rightarrow> ensure (a_val = b_val)
     | CmpLt \<Rightarrow> (case strip_witness lhs_type of
         TI bits \<Rightarrow> do {
           ensure (1 \<le> bits \<and> bits \<le> 64);
           let a_int = fp_repr fp a_val;
           let b_int = fp_repr fp b_val;
           let half = fp_repr fp (of_nat (2 ^ (bits - 1)));
           let a_neg = (a_int \<ge> half);
           let b_neg = (b_int \<ge> half);
           ensure (if a_neg \<and> \<not> b_neg then True else if \<not> a_neg \<and> b_neg then False else a_int < b_int) }
       | _ \<Rightarrow> ensure (fp_less fp a_val b_val)) }"

definition assert_r1c :: "'f::field val \<Rightarrow> 'f val \<Rightarrow> 'f val \<Rightarrow> unit option" where
  "assert_r1c a b c = do {
     a \<leftarrow> expect_constant a; b \<leftarrow> expect_constant b; c \<leftarrow> expect_constant c;
     ensure (a * b = c) }"

definition array_get :: "'f prime_ops \<Rightarrow> 'f val \<Rightarrow> 'f val \<Rightarrow> 'f gen_ctx \<Rightarrow> 'f val option" where
  "array_get fp arr index ctx = do {
     i \<leftarrow> expect_u32 fp index;
     (_, d) \<leftarrow> array_at ctx arr;
     nth_opt (ad_data d) i }"

definition tuple_get :: "'f val \<Rightarrow> nat \<Rightarrow> 'f val option" where
  "tuple_get v index = do { fs \<leftarrow> expect_tuple v; nth_opt fs index }"

definition array_set ::
  "'f prime_ops \<Rightarrow> 'f val \<Rightarrow> 'f val \<Rightarrow> 'f val \<Rightarrow> 'f gen_ctx \<Rightarrow> ('f val \<times> 'f gen_ctx) option" where
  "array_set fp arr index v ctx = do {
     (_, d) \<leftarrow> array_at ctx arr;
     i \<leftarrow> expect_u32 fp index;
     new_array \<leftarrow> upd_opt (ad_data d) i v;
     Some (mk_array new_array ctx) }"

definition val_bit_range :: "'f::field prime_ops \<Rightarrow> 'f val \<Rightarrow> nat \<Rightarrow> nat \<Rightarrow> 'f val option" where
  "val_bit_range fp v offset width = do {
     c \<leftarrow> expect_constant v;
     let new_value = take width (drop offset (fp_to_bits_le fp c));
     map_option VConst (fp_from_bits_le fp new_value) }"

text \<open>The shifts \<^verbatim>\<open>1u128 << to\<close> and \<^verbatim>\<open>1u128 << from\<close> are out of range from 128 on.\<close>

definition val_sext :: "'f::field prime_ops \<Rightarrow> 'f val \<Rightarrow> nat \<Rightarrow> nat \<Rightarrow> 'f val option" where
  "val_sext fp v from_bits to_bits = do {
     c \<leftarrow> expect_constant v;
     let bits = fp_to_bits_le fp c;
     let sign_bit = (if from_bits > 0 \<and> from_bits - 1 < length bits then bits ! (from_bits - 1) else False);
     if sign_bit then do {
       ensure (to_bits < 128 \<and> from_bits < 128);
       let extension = of_nat (2 ^ to_bits) - of_nat (2 ^ from_bits);
       Some (VConst (c + extension)) }
     else Some v }"

definition gen_constrain :: "'f val \<Rightarrow> 'f val \<Rightarrow> 'f val \<Rightarrow> 'f gen_ctx \<Rightarrow> 'f gen_ctx option" where
  "gen_constrain a b c ctx = do {
     a \<leftarrow> expect_linear_combination a;
     b \<leftarrow> expect_linear_combination b;
     c \<leftarrow> expect_linear_combination c;
     Some (ctx\<lparr>gc_gen := (gc_gen ctx)\<lparr>g_constraints :=
       g_constraints (gc_gen ctx) @ [\<lparr>r1c_a = a, r1c_b = b, r1c_c = c\<rparr>]\<rparr>\<rparr>) }"

definition bits_of_size :: "endianness \<Rightarrow> nat \<Rightarrow> bool list \<Rightarrow> bool list" where
  "bits_of_size e n bits =
     (let bits = (if length bits > n then take n bits else bits @ replicate (n - length bits) False) in
      case e of Little \<Rightarrow> bits | Big \<Rightarrow> rev bits)"

definition val_to_bits ::
  "'f::field prime_ops \<Rightarrow> 'f val \<Rightarrow> endianness \<Rightarrow> nat \<Rightarrow> 'f gen_ctx \<Rightarrow> ('f val \<times> 'f gen_ctx) option" where
  "val_to_bits fp v e n ctx = do {
     c \<leftarrow> expect_constant v;
     let final_bits = bits_of_size e n (fp_to_bits_le fp c);
     Some (mk_array (map (\<lambda>bit. if bit then VConst 1 else VConst 0) final_bits) ctx) }"

definition val_not :: "'f::field prime_ops \<Rightarrow> 'f val \<Rightarrow> ty \<Rightarrow> 'f val option" where
  "val_not fp v out_type = do {
     c \<leftarrow> expect_constant v;
     let bits = fp_to_bits_le fp c;
     bit_size \<leftarrow> get_bit_size out_type;
     let negated_bits = map (\<lambda>i. \<not> (if i < length bits then bits ! i else False)) [0..<bit_size];
     map_option VConst (fp_from_bits_le fp negated_bits) }"

definition val_alloc :: "'f gen_ctx \<Rightarrow> 'f val \<times> 'f gen_ctx" where
  "val_alloc ctx = (VPtr (length (gc_cells ctx)), ctx\<lparr>gc_cells := gc_cells ctx @ [VInvalid]\<rparr>)"

definition ptr_write :: "'f val \<Rightarrow> 'f val \<Rightarrow> 'f gen_ctx \<Rightarrow> 'f gen_ctx option" where
  "ptr_write ptr v ctx = do {
     p \<leftarrow> expect_ptr ptr;
     cells \<leftarrow> upd_opt (gc_cells ctx) p v;
     Some (ctx\<lparr>gc_cells := cells\<rparr>) }"

definition ptr_read :: "'f val \<Rightarrow> 'f gen_ctx \<Rightarrow> 'f val option" where
  "ptr_read ptr ctx = do { p \<leftarrow> expect_ptr ptr; nth_opt (gc_cells ctx) p }"

definition expect_constant_bool :: "'f::field val \<Rightarrow> bool option" where
  "expect_constant_bool v = do { c \<leftarrow> expect_constant v; Some (c = 1) }"

definition val_select :: "'f::field val \<Rightarrow> 'f val \<Rightarrow> 'f val \<Rightarrow> 'f val option" where
  "val_select cond if_t if_f = do {
     t \<leftarrow> val_mul cond if_t;
     n \<leftarrow> val_sub (VConst 1) cond;
     f \<leftarrow> val_mul n if_f;
     val_add t f }"

definition write_witness :: "'f::field gen_ctx \<Rightarrow> 'f val \<times> 'f gen_ctx" where
  "write_witness ctx = (let (w, g) = next_witness (gc_gen ctx) in (VLC [(w, 1)], ctx\<lparr>gc_gen := g\<rparr>))"

definition val_rangecheck :: "'f prime_ops \<Rightarrow> 'f val \<Rightarrow> nat \<Rightarrow> unit option" where
  "val_rangecheck fp v max_bits = do {
     c \<leftarrow> expect_constant v;
     ensure (list_all Not (drop max_bits (fp_to_bits_le fp c))) }"

definition val_to_radix ::
  "'f::field prime_ops \<Rightarrow> 'f val \<Rightarrow> 'f val radix \<Rightarrow> endianness \<Rightarrow> nat \<Rightarrow> 'f gen_ctx \<Rightarrow> ('f val \<times> 'f gen_ctx) option" where
  "val_to_radix fp v radix e n ctx = (case radix of
     RadixBytes \<Rightarrow> do {
       c \<leftarrow> expect_constant v;
       let bytes = fp_to_bytes_le fp c;
       let bytes = (if length bytes > n then take n bytes else bytes @ replicate (n - length bytes) 0);
       let bytes = (if e = Big then rev bytes else bytes);
       Some (mk_array (map (\<lambda>byte. VConst (of_nat byte)) bytes) ctx) }
   | RadixDyn _ \<Rightarrow> None)"

text \<open>The lowest 64-bit limb of the representation.\<close>

definition low_limb :: "'f prime_ops \<Rightarrow> 'f \<Rightarrow> u128" where
  "low_limb fp c = of_nat (fp_low_limb fp c)"

definition val_spread :: "'f::field prime_ops \<Rightarrow> 'f val \<Rightarrow> nat \<Rightarrow> 'f val option" where
  "val_spread fp v bits = do {
     c \<leftarrow> expect_constant v;
     spread_val \<leftarrow> spread_bits (low_limb fp c) bits;
     Some (VConst (of_u128 spread_val)) }"

definition val_unspread :: "'f::field prime_ops \<Rightarrow> 'f val \<Rightarrow> nat \<Rightarrow> ('f val \<times> 'f val) option" where
  "val_unspread fp v bits = do {
     c \<leftarrow> expect_constant v;
     (odd_val, even_val) \<leftarrow> unspread_bits (low_limb fp c) (bits * 2);
     Some (VConst (of_u128 odd_val), VConst (of_u128 even_val)) }"

subsection \<open>The value of a value\<close>

text \<open>A constant and a linear combination stand for a field element, given the witness. The constant
  one is witness 0.\<close>

fun eval_val :: "'f::field list \<Rightarrow> 'f val \<Rightarrow> 'f option" where
  "eval_val w (VConst c) = Some c"
| "eval_val w (VLC lc) = Some (lc_val w lc)"
| "eval_val w _ = None"

text \<open>Linear combinations are kept sorted by variable, without repetition.\<close>

definition lc_sorted :: "'f lc \<Rightarrow> bool" where
  "lc_sorted lc \<longleftrightarrow> sorted_wrt (<) (map fst lc)"

fun val_sorted :: "'f val \<Rightarrow> bool" where
  "val_sorted (VLC lc) = lc_sorted lc"
| "val_sorted _ = True"

lemma lc_val_add_lc: "lc_val w (add_lc l r) = lc_val w l + lc_val w r"
  by (induction l r rule: add_lc.induct) (auto simp: Let_def algebra_simps add_eq_0_iff)

lemma fst_add_lc: "fst ` set (add_lc l r) \<subseteq> fst ` set l \<union> fst ` set r"
proof (induction l r rule: add_lc.induct)
  case (1 i c lhs j d rhs)
  then show ?case by (cases "i = j"; cases "c + d = 0"; cases "i < j") (simp_all, blast+)
qed auto

lemma add_lc_sorted: "lc_sorted l \<Longrightarrow> lc_sorted r \<Longrightarrow> lc_sorted (add_lc l r)"
proof (induction l r rule: add_lc.induct)
  case (1 i c lhs j d rhs)
  have sub: "fst ` set (add_lc lhs rhs) \<subseteq> fst ` set lhs \<union> fst ` set rhs"
    "fst ` set (add_lc lhs ((j, d) # rhs)) \<subseteq> fst ` set lhs \<union> fst ` set ((j, d) # rhs)"
    "fst ` set (add_lc ((i, c) # lhs) rhs) \<subseteq> fst ` set ((i, c) # lhs) \<union> fst ` set rhs"
    by (rule fst_add_lc)+
  have l: "\<forall>x \<in> fst ` set lhs. i < x" "\<forall>x \<in> fst ` set rhs. j < x" "lc_sorted lhs" "lc_sorted rhs"
    using 1(5,6) by (auto simp: lc_sorted_def)
  have cons: "lc_sorted ((k, e) # m)" if "lc_sorted m" "\<forall>x \<in> fst ` set m. k < x" for k e and m :: "'a lc"
    using that by (auto simp: lc_sorted_def)
  consider "i = j" | "i < j" | "j < i" by linarith
  then show ?case
  proof cases
    case 1
    have "lc_sorted (add_lc lhs rhs)" using "1.IH" 1 l by (cases "c + d = 0") auto
    moreover have "\<forall>x \<in> fst ` set (add_lc lhs rhs). i < x" using sub(1) l 1 by blast
    ultimately show ?thesis using 1 by (simp add: Let_def cons)
  next
    case 2
    have "lc_sorted (add_lc lhs ((j, d) # rhs))" using "1.IH"(3) 2 l "1.prems"(2) by simp
    moreover have "\<forall>x \<in> fst ` set (add_lc lhs ((j, d) # rhs)). i < x"
      using sub(2) l 2 by (auto dest!: subsetD)
    ultimately show ?thesis using 2 by (simp add: cons)
  next
    case 3
    have "lc_sorted (add_lc ((i, c) # lhs) rhs)" using "1.IH"(4) 3 l "1.prems"(1) by simp
    moreover have "\<forall>x \<in> fst ` set (add_lc ((i, c) # lhs) rhs). j < x"
      using sub(3) l 3 by (auto dest!: subsetD)
    ultimately show ?thesis using 3 by (simp add: cons)
  qed
qed auto

lemma expect_lc_eval:
  "w ! 0 = 1 \<Longrightarrow> eval_val w v = Some x \<Longrightarrow> \<exists>lc. expect_linear_combination v = Some lc \<and> lc_val w lc = x"
  by (cases v) auto

lemma val_add_eval:
  assumes "w ! 0 = 1" "eval_val w a = Some x" "eval_val w b = Some y"
  shows "\<exists>r. val_add a b = Some r \<and> eval_val w r = Some (x + y)"
proof -
  obtain l r where "expect_linear_combination a = Some l" "lc_val w l = x"
    "expect_linear_combination b = Some r" "lc_val w r = y" using assms expect_lc_eval by blast
  then show ?thesis using assms
    by (cases a; cases b) (auto simp: val_add_def lc_val_add_lc)
qed

lemma lc_val_map_neg: "lc_val w (map (\<lambda>(i, c). (i, - c)) lc) = - lc_val w lc"
  by (induction lc) auto

lemma val_neg_eval: "eval_val w a = Some x \<Longrightarrow> \<exists>r. val_neg a = Some r \<and> eval_val w r = Some (- x)"
  by (cases a) (auto simp: lc_val_map_neg)

lemma val_sub_eval:
  assumes "w ! 0 = 1" "eval_val w a = Some x" "eval_val w b = Some y"
  shows "\<exists>r. val_sub a b = Some r \<and> eval_val w r = Some (x - y)"
  using val_neg_eval [OF assms(3)] val_add_eval [OF assms(1,2)] by (fastforce simp: val_sub_def)

lemma lc_val_map_scale: "lc_val w (map (\<lambda>(i, cl). (i, c * cl)) lc) = c * lc_val w lc"
  by (induction lc) (auto simp: algebra_simps)

lemma eval_scale_lc: "eval_val w (scale_lc c lc) = Some (c * lc_val w lc)"
  by (simp add: lc_val_map_scale)

lemma val_mul_eval:
  "eval_val w a = Some x \<Longrightarrow> eval_val w b = Some y \<Longrightarrow> val_mul a b = Some r \<Longrightarrow> eval_val w r = Some (x * y)"
  by (cases a; cases b) (auto simp: eval_scale_lc simp del: scale_lc.simps)

lemma val_div_eval:
  "eval_val w a = Some x \<Longrightarrow> eval_val w b = Some y \<Longrightarrow> val_div a b = Some r \<Longrightarrow> y \<noteq> 0 \<and> eval_val w r = Some (x / y)"
  by (cases a; cases b) (auto simp: val_div_def fdiv_def eval_scale_lc simp del: scale_lc.simps split: if_splits)

lemma lc_sorted_maps [simp]:
  "lc_sorted (map (\<lambda>(i, c). (i, - c)) lc) = lc_sorted lc"
  "lc_sorted (map (\<lambda>(i, cl). (i, k * cl)) lc) = lc_sorted lc"
  "lc_sorted (map (\<lambda>(i, cl). (i, cl / k)) lc) = lc_sorted lc"
  by (simp_all add: lc_sorted_def comp_def case_prod_unfold)

lemma expect_lc_sorted: "expect_linear_combination v = Some lc \<Longrightarrow> val_sorted v \<Longrightarrow> lc_sorted lc"
  by (cases v) (auto simp: lc_sorted_def)

lemma val_add_sorted: "val_sorted a \<Longrightarrow> val_sorted b \<Longrightarrow> val_add a b = Some r \<Longrightarrow> val_sorted r"
proof -
  assume s: "val_sorted a" "val_sorted b" and r: "val_add a b = Some r"
  have "is_const_val r \<or> (\<exists>l m. expect_linear_combination a = Some l \<and> expect_linear_combination b = Some m \<and>
      r = VLC (add_lc l m))"
    using r by (auto simp: val_add_def bind_Some_iff split: val.splits)
  then show ?thesis
  proof
    assume "is_const_val r"
    then show ?thesis by (cases r) auto
  next
    assume "\<exists>l m. expect_linear_combination a = Some l \<and> expect_linear_combination b = Some m \<and>
      r = VLC (add_lc l m)"
    then show ?thesis
      using add_lc_sorted [OF expect_lc_sorted [OF _ s(1)] expect_lc_sorted [OF _ s(2)]] by auto
  qed
qed

lemma val_neg_sorted: "val_sorted a \<Longrightarrow> val_neg a = Some r \<Longrightarrow> val_sorted r"
  by (cases a) auto

lemma val_mul_sorted: "val_sorted a \<Longrightarrow> val_sorted b \<Longrightarrow> val_mul a b = Some r \<Longrightarrow> val_sorted r"
  by (cases a; cases b) auto

lemma val_div_sorted: "val_sorted a \<Longrightarrow> val_sorted b \<Longrightarrow> val_div a b = Some r \<Longrightarrow> val_sorted r"
  by (cases a; cases b) (auto simp: val_div_def fdiv_def bind_Some_iff split: if_splits)

text \<open>C29. Arithmetic on values is arithmetic on what they stand for. On constants and linear
  combinations, addition and subtraction always succeed; where multiplication, division and selection
  succeed their result stands for the product, the quotient (by a divisor that is not zero) and
  \<open>c * a + (1 - c) * b\<close>. All of them keep linear combinations sorted without repetition.\<close>

theorem value_arithmetic:
  assumes "w ! 0 = 1" "eval_val w a = Some x" "eval_val w b = Some y" "eval_val w c = Some z"
    and "val_sorted a" "val_sorted b" "val_sorted c"
  shows "(\<exists>r. val_add a b = Some r \<and> eval_val w r = Some (x + y) \<and> val_sorted r) \<and>
    (\<exists>r. val_sub a b = Some r \<and> eval_val w r = Some (x - y) \<and> val_sorted r) \<and>
    (\<forall>r. val_mul a b = Some r \<longrightarrow> eval_val w r = Some (x * y) \<and> val_sorted r) \<and>
    (\<forall>r. val_div a b = Some r \<longrightarrow> y \<noteq> 0 \<and> eval_val w r = Some (x / y) \<and> val_sorted r) \<and>
    (\<forall>r. val_select c a b = Some r \<longrightarrow> eval_val w r = Some (z * x + (1 - z) * y) \<and> val_sorted r)"
proof (intro conjI allI impI)
  show "\<exists>r. val_add a b = Some r \<and> eval_val w r = Some (x + y) \<and> val_sorted r"
    using val_add_eval [OF assms(1-3)] val_add_sorted assms(5,6) by blast
  have sub_sorted: "val_sub u v = Some r \<Longrightarrow> val_sorted u \<Longrightarrow> val_sorted v \<Longrightarrow> val_sorted r" for u v r :: "'a val"
    using val_neg_sorted val_add_sorted by (auto simp: val_sub_def bind_Some_iff) blast
  then show "\<exists>r. val_sub a b = Some r \<and> eval_val w r = Some (x - y) \<and> val_sorted r"
    using val_sub_eval [OF assms(1-3)] assms(5,6) by blast
  fix r
  show "val_mul a b = Some r \<Longrightarrow> eval_val w r = Some (x * y)" "val_mul a b = Some r \<Longrightarrow> val_sorted r"
    "val_div a b = Some r \<Longrightarrow> y \<noteq> 0" "val_div a b = Some r \<Longrightarrow> eval_val w r = Some (x / y)"
    "val_div a b = Some r \<Longrightarrow> val_sorted r"
    using val_mul_eval [OF assms(2,3)] val_div_eval [OF assms(2,3)] val_mul_sorted val_div_sorted assms(5,6) by blast+
  assume "val_select c a b = Some r"
  then obtain t n f where s: "val_mul c a = Some t" "val_sub (VConst 1) c = Some n" "val_mul n b = Some f"
    "val_add t f = Some r" by (auto simp: val_select_def bind_Some_iff)
  have n: "eval_val w n = Some (1 - z)" using val_sub_eval [OF assms(1) _ assms(4), of "VConst 1" 1] s(2) by auto
  have "eval_val w t = Some (z * x)" "eval_val w f = Some ((1 - z) * y)"
    using val_mul_eval [OF assms(4,2) s(1)] val_mul_eval [OF n assms(3) s(3)] by auto
  then show "eval_val w r = Some (z * x + (1 - z) * y)" using val_add_eval [OF assms(1)] s(4) by fastforce
  have "val_sorted n" using sub_sorted [OF s(2)] assms(7) by simp
  then show "val_sorted r" using s assms(5-7) val_mul_sorted val_add_sorted by metis
qed

theorem value_arithmetic_witness:
  "\<exists>r. val_select (VConst (1 / 2)) (VLC [(1, 2), (3, 1)]) (VLC [(1, - 2), (2, 4)]) = Some r \<and>
     eval_val [1, 10, 20, 30 :: rat] r = Some 55 \<and> val_sorted r"
proof -
  obtain r where r: "val_select (VConst (1 / 2)) (VLC [(1, 2), (3, 1)]) (VLC [(1, - 2), (2, 4 :: rat)]) = Some r"
    by (simp add: val_select_def val_sub_def val_add_def)
  from value_arithmetic [of "[1, 10, 20, 30]" "VLC [(1, 2), (3, 1)]" 50 "VLC [(1, - 2), (2, 4 :: rat)]" 60
      "VConst (1 / 2)" "1 / 2"] r
  have "eval_val [1, 10, 20, 30 :: rat] r = Some 55 \<and> val_sorted r"
    by (simp add: lc_sorted_def)
  with r show ?thesis by blast
qed

subsection \<open>Fixed-width arithmetic\<close>

lemma bit_mask_eq: "1 \<le> bits \<Longrightarrow> bits \<le> 128 \<Longrightarrow> bit_mask bits = Some (mask bits)"
proof -
  assume b: "1 \<le> bits" "bits \<le> 128"
  have "mask bits = (- 1 :: u128)" if "bits = 128"
    unfolding that by (intro bit_word_eqI) (simp add: bit_mask_iff)
  then show ?thesis using b by (simp add: bit_mask_def mask_eq_exp_minus_1 push_bit_eq_mult)
qed

lemma wrap_unsigned_eq: "1 \<le> bits \<Longrightarrow> bits \<le> 128 \<Longrightarrow> wrap_unsigned v bits = Some (take_bit bits v)"
  by (simp add: wrap_unsigned_def bit_mask_eq take_bit_eq_mask)

lemma mod_exp_le: "m \<le> n \<Longrightarrow> (x :: nat) mod 2 ^ n mod 2 ^ m = x mod 2 ^ m"
  by (simp add: mod_mod_cancel le_imp_power_dvd)

lemma unat_take_bit_mod: "unat (take_bit n w) = unat w mod 2 ^ n" for w :: "'a::len word"
  using unsigned_take_bit_eq [of n w, where ?'a = nat] by (simp only: take_bit_eq_mod [of n "unat w"])

lemma unat_wrap_add: "n \<le> LENGTH('a) \<Longrightarrow> unat (take_bit n (a + b)) = (unat a + unat b) mod 2 ^ n"
  for a b :: "'a::len word"
  by (simp only: unat_take_bit_mod unat_word_ariths mod_exp_le)

lemma unat_wrap_mul: "n \<le> LENGTH('a) \<Longrightarrow> unat (take_bit n (a * b)) = (unat a * unat b) mod 2 ^ n"
  for a b :: "'a::len word"
  by (simp only: unat_take_bit_mod unat_word_ariths mod_exp_le)

lemma unat_wrap_sub:
  fixes a b :: "'a::len word"
  assumes "n \<le> LENGTH('a)" "unat b < 2 ^ n"
  shows "unat (take_bit n (a - b)) = (2 ^ n + unat a - unat b) mod 2 ^ n"
proof -
  have "unat (take_bit n (a - b)) + unat b \<le> unat (take_bit n (a - b)) + unat b" by simp
  have "((a - b) + b) = a" by simp
  then have "unat a mod 2 ^ n = (unat (take_bit n (a - b)) + unat b) mod 2 ^ n"
    using unat_wrap_add [OF assms(1), of "a - b" b] by (simp add: unat_take_bit_mod mod_add_left_eq)
  then have "(2 ^ n + unat a - unat b) mod 2 ^ n = (unat (take_bit n (a - b)) + unat b + (2 ^ n - unat b)) mod 2 ^ n"
    using assms(2) by (metis Nat.add_diff_assoc2 add.commute less_imp_le_nat mod_add_left_eq)
  also have "\<dots> = unat (take_bit n (a - b)) mod 2 ^ n" using assms(2) by simp
  also have "\<dots> = unat (take_bit n (a - b))" by (simp add: unat_take_bit_mod)
  finally show ?thesis ..
qed

lemma unat_wrap_shl: "n \<le> LENGTH('a) \<Longrightarrow> unat (take_bit n (push_bit k a)) = (unat a * 2 ^ k) mod 2 ^ n"
  for a :: "'a::len word"
proof -
  assume n: "n \<le> LENGTH('a)"
  have "unat (push_bit k a) = (unat a * 2 ^ k) mod 2 ^ LENGTH('a)"
    using unsigned_push_bit_eq [of k a, where ?'a = nat]
    by (simp only: push_bit_eq_mult [of _ "unat a"] take_bit_eq_mod [of _ "unat a * 2 ^ k"])
  then show ?thesis by (simp only: unat_take_bit_mod mod_exp_le [OF n])
qed

lemma unat_shr: "unat (drop_bit k a) = unat a div 2 ^ k" for a :: "'a::len word"
  by (simp only: unat_drop_bit_eq drop_bit_eq_div [of k "unat a"])

lemma unat_wrap_small: "unat w < 2 ^ n \<Longrightarrow> unat (take_bit n w) = unat w" for w :: "'a::len word"
  by (simp add: unat_take_bit_mod)

lemma unat_of_nat_small: "n < 2 ^ LENGTH('a) \<Longrightarrow> unat (of_nat n :: 'a::len word) = n"
  by (simp add: unat_of_nat)

text \<open>The result of an unsigned operation of the given width, on naturals. A shift takes the low
  seven bits of the amount.\<close>

fun unsigned_result :: "binary_arith_op_kind \<Rightarrow> nat \<Rightarrow> nat \<Rightarrow> nat \<Rightarrow> nat option" where
  "unsigned_result BopAdd bits x y = Some ((x + y) mod 2 ^ bits)"
| "unsigned_result BopSub bits x y = Some ((2 ^ bits + x - y) mod 2 ^ bits)"
| "unsigned_result BopMul bits x y = Some ((x * y) mod 2 ^ bits)"
| "unsigned_result BopDiv bits x y = (if y = 0 then None else Some (x div y))"
| "unsigned_result BopMod bits x y = (if y = 0 then None else Some (x mod y))"
| "unsigned_result BopAnd bits x y = Some (and x y)"
| "unsigned_result BopOr bits x y = Some (or x y)"
| "unsigned_result BopXor bits x y = Some (xor x y)"
| "unsigned_result BopShl bits x y = Some ((x * 2 ^ (y mod 128)) mod 2 ^ bits)"
| "unsigned_result BopShr bits x y = Some (x div 2 ^ (y mod 128))"

lemma length_u128: "LENGTH(128) = 128" by simp

lemma bitwise_bounds:
  assumes "x < 2 ^ n" "y < (2 :: nat) ^ n"
  shows "and x y < 2 ^ n" "or x y < 2 ^ n" "xor x y < 2 ^ n"
proof -
  have "take_bit n x = x" "take_bit n y = y" using assms by (simp_all add: take_bit_nat_eq_self)
  then have "take_bit n (and x y) = and x y" "take_bit n (or x y) = or x y" "take_bit n (xor x y) = xor x y"
    by simp_all
  then show "and x y < 2 ^ n" "or x y < 2 ^ n" "xor x y < 2 ^ n" by (metis take_bit_nat_less_exp)+
qed

lemma arith_u_result:
  fixes a b :: u128
  assumes "1 \<le> bits" "bits \<le> 128" "unat a < 2 ^ bits" "unat b < 2 ^ bits"
  shows "Option.bind (arith_u kind a b) (\<lambda>r. map_option unat (wrap_unsigned r bits)) =
    unsigned_result kind bits (unat a) (unat b)"
proof -
  have n: "bits \<le> LENGTH(128)" using assms(2) by simp
  have sh: "shift_amount b = unat b mod 128"
    by (simp add: shift_amount_def mod_mod_cancel)
  have small: "unat a div k < 2 ^ bits" "unat a mod k < 2 ^ bits" for k
    using assms(3) by (meson div_le_dividend mod_less_eq_dividend le_less_trans)+
  note bitw = bitwise_bounds [OF assms(3,4)]
  note w = wrap_unsigned_eq [OF assms(1,2)]
  have z: "b = 0 \<longleftrightarrow> unat b = 0" by (simp add: unat_eq_0)
  show ?thesis
  proof (cases kind)
    case BopAdd
    then show ?thesis by (simp only: arith_u_def binary_arith_op_kind.case w bind.bind_lunit
          option.map unat_wrap_add [OF n] unsigned_result.simps)
  next
    case BopMul
    then show ?thesis by (simp only: arith_u_def binary_arith_op_kind.case w bind.bind_lunit
          option.map unat_wrap_mul [OF n] unsigned_result.simps)
  next
    case BopSub
    then show ?thesis by (simp only: arith_u_def binary_arith_op_kind.case w bind.bind_lunit
          option.map unat_wrap_sub [OF n assms(4)] unsigned_result.simps)
  next
    case BopShl
    then show ?thesis by (simp only: arith_u_def binary_arith_op_kind.case w bind.bind_lunit
          option.map unat_wrap_shl [OF n] unsigned_result.simps sh)
  next
    case BopDiv
    then show ?thesis using small z by (simp add: arith_u_def w unat_div unat_wrap_small)
  next
    case BopMod
    then show ?thesis using small z by (simp add: arith_u_def w unat_mod unat_wrap_small)
  next
    case BopShr
    then show ?thesis by (simp only: arith_u_def binary_arith_op_kind.case w bind.bind_lunit
          option.map unat_wrap_small unat_shr small unsigned_result.simps sh)
  qed (use bitw assms(3,4) in \<open>simp_all add: arith_u_def w unat_wrap_small unsigned_and_eq unsigned_or_eq unsigned_xor_eq\<close>)
qed

text \<open>C36. Unsigned arithmetic in the generator is arithmetic modulo the width. On two constants whose
  representations fit the width, the result is the constant of the naturals' result: sums, differences
  and products wrap, division and remainder panic exactly on a zero divisor, bitwise operations act on
  the binary digits, and shifts use the low seven bits of the amount.\<close>

theorem unsigned_arith_wraps:
  assumes "1 \<le> bits" "bits \<le> 128" "fp_repr fp a < 2 ^ bits" "fp_repr fp b < 2 ^ bits"
    and "strip_witness out_type = TU bits"
  shows "val_arith fp (VConst a) (VConst b) kind out_type =
    map_option (\<lambda>n. VConst (of_nat n)) (unsigned_result kind bits (fp_repr fp a) (fp_repr fp b))"
proof -
  have le: "(2 :: nat) ^ bits \<le> 2 ^ LENGTH(128)" using assms(2) by (intro power_increasing) auto
  have u: "unat (of_nat (fp_repr fp x) :: u128) = fp_repr fp x"
    "expect_u128 fp (VConst x) = Some (of_nat (fp_repr fp x))"
    "wrap_unsigned (of_nat (fp_repr fp x)) bits = Some (of_nat (fp_repr fp x))"
    if x: "fp_repr fp x < 2 ^ bits" for x
  proof -
    have l: "fp_repr fp x < 2 ^ LENGTH(128)" using x le by linarith
    then show s: "unat (of_nat (fp_repr fp x) :: u128) = fp_repr fp x" by (rule unat_of_nat_small)
    show "expect_u128 fp (VConst x) = Some (of_nat (fp_repr fp x))"
      using l by (simp add: expect_u128_def expect_uint_def)
    have "unat (take_bit bits (of_nat (fp_repr fp x) :: u128)) = unat (of_nat (fp_repr fp x) :: u128)"
      using s x by (intro unat_wrap_small) simp
    then show "wrap_unsigned (of_nat (fp_repr fp x)) bits = Some (of_nat (fp_repr fp x))"
      by (simp add: wrap_unsigned_eq [OF assms(1,2)] word_unat_eq_iff)
  qed
  have "val_arith fp (VConst a) (VConst b) kind out_type =
      Option.bind (arith_u kind (of_nat (fp_repr fp a)) (of_nat (fp_repr fp b)))
        (\<lambda>r. map_option (\<lambda>n. VConst (of_nat n)) (map_option unat (wrap_unsigned r bits)))"
    using assms(1,2) u [OF assms(3)] u [OF assms(4)]
    by (simp add: val_arith_def assms(5) of_u128_def option.map_comp comp_def map_conv_bind_option)
  also have "\<dots> = map_option (\<lambda>n. VConst (of_nat n))
      (Option.bind (arith_u kind (of_nat (fp_repr fp a)) (of_nat (fp_repr fp b)))
        (\<lambda>r. map_option unat (wrap_unsigned r bits)))"
    by (cases "arith_u kind (of_nat (fp_repr fp a)) (of_nat (fp_repr fp b))") simp_all
  finally show ?thesis
    using arith_u_result [OF assms(1,2), of "of_nat (fp_repr fp a)" "of_nat (fp_repr fp b)" kind]
      u(1) [OF assms(3)] u(1) [OF assms(4)] assms(3,4) by simp
qed

text \<open>A representation for the rationals that stands in for that of the scalar field, with numbers
  below \<open>2 ^ 254\<close>.\<close>

definition bits_of :: "nat \<Rightarrow> nat \<Rightarrow> bool list" where
  "bits_of k n = map (\<lambda>i. odd (n div 2 ^ i)) [0..<k]"

fun of_bits :: "bool list \<Rightarrow> nat" where
  "of_bits [] = 0"
| "of_bits (b # bs) = (if b then 1 else 0) + 2 * of_bits bs"

definition rat_repr :: "rat \<Rightarrow> nat" where
  "rat_repr x = nat \<lfloor>x\<rfloor> mod 2 ^ 254"

definition rat_ops :: "rat prime_ops" where
  "rat_ops = \<lparr>fp_repr = rat_repr,
     fp_to_bits_le = (\<lambda>x. bits_of 256 (rat_repr x)),
     fp_to_bytes_le = (\<lambda>x. map (\<lambda>i. rat_repr x div 256 ^ i mod 256) [0..<32]),
     fp_low_limb = (\<lambda>x. rat_repr x mod 2 ^ 64),
     fp_from_bits_le = (\<lambda>bs. if of_bits bs < 2 ^ 254 then Some (of_nat (of_bits bs)) else None),
     fp_less = (\<lambda>x y. rat_repr x < rat_repr y)\<rparr>"

lemma rat_repr_of_nat: "n < 2 ^ 254 \<Longrightarrow> fp_repr rat_ops (of_nat n) = n"
  by (simp add: rat_ops_def rat_repr_def)

theorem unsigned_arith_wraps_witness:
  "val_arith rat_ops (VConst 5) (VConst 7) BopSub (TWitnessOf (TU 8)) = Some (VConst 254) \<and>
   val_arith rat_ops (VConst 200) (VConst 100) BopAdd (TU 8) = Some (VConst 44) \<and>
   val_arith rat_ops (VConst 200) (VConst 0) BopMod (TU 8) = None"
  using unsigned_arith_wraps [of 8 rat_ops 5 7 "TWitnessOf (TU 8)" BopSub]
    unsigned_arith_wraps [of 8 rat_ops 200 100 "TU 8" BopAdd]
    unsigned_arith_wraps [of 8 rat_ops 200 0 "TU 8" BopMod]
  by (simp add: rat_ops_def rat_repr_def)

subsection \<open>Signed comparison\<close>

text \<open>Two's complement of the given width.\<close>

definition signed_value :: "nat \<Rightarrow> nat \<Rightarrow> int" where
  "signed_value bits n = (if n < 2 ^ (bits - 1) then int n else int n - 2 ^ bits)"

lemma signed_less_iff:
  assumes "x < 2 ^ bits" "y < 2 ^ bits"
  shows "signed_value bits x < signed_value bits y \<longleftrightarrow>
    (if 2 ^ (bits - 1) \<le> x \<and> \<not> 2 ^ (bits - 1) \<le> y then True
     else if \<not> 2 ^ (bits - 1) \<le> x \<and> 2 ^ (bits - 1) \<le> y then False else x < y)"
proof -
  have g: "(if x < h then int x else int x - int P) < (if y < h then int y else int y - int P) \<longleftrightarrow>
      (if h \<le> x \<and> \<not> h \<le> y then True else if \<not> h \<le> x \<and> h \<le> y then False else x < y)"
    if "x < P" "y < P" for h P using that by auto
  have "signed_value bits n = (if n < 2 ^ (bits - 1) then int n else int n - int (2 ^ bits))" for n
    by (simp add: signed_value_def)
  then show ?thesis using g [OF assms] by (simp only:)
qed

lemma sint_word_of_int_range:
  "- (2 ^ 127) \<le> k \<Longrightarrow> k < 2 ^ 127 \<Longrightarrow> sint (word_of_int k :: u128) = k"
  by (simp add: signed_of_int signed_take_bit_int_eq_self)

lemma decode_signed_value:
  fixes v :: u128
  assumes "1 \<le> bits" "bits \<le> 128" "unat v < 2 ^ bits"
  shows "\<exists>d. decode_signed v bits = Some d \<and> sint d = signed_value bits (unat v)"
proof -
  have w: "wrap_unsigned v bits = Some v"
    using unat_wrap_small [OF assms(3)] by (simp add: wrap_unsigned_eq [OF assms(1,2)] word_unat_eq_iff)
  have v: "v = word_of_int (int (unat v))" by simp
  have p: "(2 :: int) ^ (bits - 1) \<le> 2 ^ 127" using assms(2) by (intro power_increasing) auto
  have e: "(2 :: int) ^ bits = 2 * 2 ^ (bits - 1)" "(2 :: nat) ^ bits = 2 * 2 ^ (bits - 1)"
    using assms(1) by (simp_all flip: power_Suc)
  have "int (unat v) < int (2 ^ bits)" using assms(3) by (simp only: of_nat_less_iff)
  then have ub: "int (unat v) < 2 ^ bits" by simp
  have low: "sint v = int (unat v)" if "unat v < 2 ^ (bits - 1)"
  proof -
    have "int (unat v) < int (2 ^ (bits - 1))" using that by (simp only: of_nat_less_iff)
    then have "int (unat v) < 2 ^ (bits - 1)" by simp
    then have "int (unat v) < 2 ^ 127" using p by linarith
    then have "sint (word_of_int (int (unat v)) :: u128) = int (unat v)"
      by (intro sint_word_of_int_range) linarith+
    then show ?thesis by simp
  qed
  have high: "sint (word_of_int (int (unat v) - 2 ^ bits) :: u128) = int (unat v) - 2 ^ bits"
    if "\<not> unat v < 2 ^ (bits - 1)"
  proof -
    have "int (2 ^ (bits - 1)) \<le> int (unat v)" using that by (simp only: of_nat_le_iff not_less)
    then have "2 ^ (bits - 1) \<le> int (unat v)" by simp
    then show ?thesis using p e ub by (intro sint_word_of_int_range) linarith+
  qed
  have sub: "v - push_bit n 1 = word_of_int (int (unat v) - 2 ^ n)" for n
    by (simp add: push_bit_eq_mult)
  have bit: "and v (push_bit (bits - 1) 1) = 0 \<longleftrightarrow> unat v < 2 ^ (bits - 1)"
  proof -
    have "and v (push_bit (bits - 1) 1) = 0 \<longleftrightarrow> \<not> bit v (bits - 1)"
      by (simp only: push_bit_of_1 and_exp_eq_0_iff_not_bit)
    also have "\<dots> \<longleftrightarrow> \<not> bit (unat v) (bits - 1)" using assms(1,2) by (simp add: bit_unsigned_iff)
    also have "\<dots> \<longleftrightarrow> even (unat v div 2 ^ (bits - 1))" by (simp only: bit_iff_odd not_not)
    also have "\<dots> \<longleftrightarrow> unat v < 2 ^ (bits - 1)"
    proof -
      have "unat v div 2 ^ (bits - 1) < 2" using assms(3) e by (simp add: less_mult_imp_div_less)
      then have "even (unat v div 2 ^ (bits - 1)) \<longleftrightarrow> unat v div 2 ^ (bits - 1) = 0" by (auto elim!: evenE)
      then show ?thesis by (simp add: div_eq_0_iff)
    qed
    finally show ?thesis .
  qed
  show ?thesis
  proof (cases "bits = 128")
    case True
    show ?thesis
    proof (cases "unat v < 2 ^ (bits - 1)")
      case True
      then show ?thesis using low w \<open>bits = 128\<close> by (simp add: decode_signed_def signed_value_def)
    next
      case False
      have "push_bit bits (1 :: u128) = 0" using True by (intro push_bit_word_beyond) simp
      then have "v = word_of_int (int (unat v) - 2 ^ bits)" using sub [of bits] by (simp only: diff_zero)
      then have "sint v = int (unat v) - 2 ^ bits" using high [OF False] by metis
      then show ?thesis using False w True by (simp add: decode_signed_def signed_value_def)
    qed
  next
    case False
    then show ?thesis
      using w assms(1,2) low high bit sub [of bits]
      by (auto simp: decode_signed_def signed_value_def Let_def)
  qed
qed

text \<open>C37. Comparison of signed integers. On two constants whose representations fit the width, the
  signed less-than is the order of the two's complement values. The assertion of a signed less-than,
  which compares the representations with half the range instead of decoding, agrees with it on widths
  up to 64 (if the field represents half the range as itself).\<close>

theorem signed_comparison:
  assumes "1 \<le> bits" "bits \<le> 128" "fp_repr fp a < 2 ^ bits" "fp_repr fp b < 2 ^ bits"
  shows "val_slt fp (VConst a) (VConst b) bits =
      Some (VConst (if signed_value bits (fp_repr fp a) < signed_value bits (fp_repr fp b) then 1 else 0)) \<and>
    (bits \<le> 64 \<longrightarrow> strip_witness lhs_type = TI bits \<longrightarrow> fp_repr fp (of_nat (2 ^ (bits - 1))) = 2 ^ (bits - 1) \<longrightarrow>
     assert_cmp fp CmpLt (VConst a) (VConst b) lhs_type =
       (if signed_value bits (fp_repr fp a) < signed_value bits (fp_repr fp b) then Some () else None))"
proof (intro conjI impI)
  have le: "(2 :: nat) ^ bits \<le> 2 ^ LENGTH(128)" using assms(2) by (intro power_increasing) auto
  have d: "\<exists>e d. expect_u128 fp (VConst x) = Some e \<and> decode_signed e bits = Some d \<and>
      sint d = signed_value bits (fp_repr fp x)" if x: "fp_repr fp x < 2 ^ bits" for x
  proof -
    have l: "fp_repr fp x < 2 ^ LENGTH(128)" using x le by linarith
    then have s: "unat (of_nat (fp_repr fp x) :: u128) = fp_repr fp x" by (rule unat_of_nat_small)
    have "expect_u128 fp (VConst x) = Some (of_nat (fp_repr fp x))"
      using l by (simp add: expect_u128_def expect_uint_def)
    then show ?thesis
      using decode_signed_value [OF assms(1,2), of "of_nat (fp_repr fp x)"] s x by simp
  qed
  show "val_slt fp (VConst a) (VConst b) bits =
      Some (VConst (if signed_value bits (fp_repr fp a) < signed_value bits (fp_repr fp b) then 1 else 0))"
    using d [OF assms(3)] d [OF assms(4)] by (auto simp: val_slt_def)
  assume "bits \<le> 64" "strip_witness lhs_type = TI bits" "fp_repr fp (of_nat (2 ^ (bits - 1))) = 2 ^ (bits - 1)"
  then show "assert_cmp fp CmpLt (VConst a) (VConst b) lhs_type =
       (if signed_value bits (fp_repr fp a) < signed_value bits (fp_repr fp b) then Some () else None)"
    using assms(1) by (simp add: assert_cmp_def Let_def ensure_def signed_less_iff [OF assms(3,4)])
qed

theorem signed_comparison_witness:
  "val_slt rat_ops (VConst 255) (VConst 1) 8 = Some (VConst 1) \<and>
   assert_cmp rat_ops CmpLt (VConst 255) (VConst 1) (TI 8) = Some () \<and>
   assert_cmp rat_ops CmpLt (VConst 1) (VConst 128) (TI 8) = None"
proof -
  have r: "fp_repr rat_ops (of_nat (2 ^ (8 - 1))) = 2 ^ (8 - 1)" by (rule rat_repr_of_nat) simp
  have "fp_repr rat_ops 255 = 255" "fp_repr rat_ops 128 = 128" "fp_repr rat_ops 1 = 1"
    by (simp_all add: rat_ops_def rat_repr_def)
  then show ?thesis
    using signed_comparison [of 8 rat_ops 255 1 "TI 8"] signed_comparison [of 8 rat_ops 1 128 "TI 8"] r
    by (simp add: signed_value_def)
qed

end
