(* ===== verification/R1CS_Bitops.thy ===== *)
theory R1CS_Bitops
  imports R1CS_Gen
begin

text \<open>
  The bit-level operations of the generator's values (\<^verbatim>\<open>bit_range\<close>, \<^verbatim>\<open>not\<close>, \<^verbatim>\<open>sext\<close>,
  \<^verbatim>\<open>rangecheck\<close>, \<^verbatim>\<open>to_bits\<close> in \<^verbatim>\<open>compiler/src/compiler/codegen/hlssa_to_r1cs.rs\<close>) as arithmetic
  on the numbers that constants represent. What the field's library documents of its bits is the
  hypothesis \<open>bigint_spec\<close>: 256 bits, of which a list that denotes a number below the modulus is one element of the
  field, and a list from the modulus on none. It says nothing of longer lists, which the code does not make.
\<close>

definition bigint_spec :: "'f::field prime_ops \<Rightarrow> nat \<Rightarrow> bool" where
  "bigint_spec fp p \<longleftrightarrow> p \<le> 2 ^ 256 \<and>
     (\<forall>x. fp_repr fp x < p \<and> fp_to_bits_le fp x = bits_of 256 (fp_repr fp x)) \<and>
     (\<forall>bs. length bs \<le> 256 \<longrightarrow> fp_from_bits_le fp bs = (if of_bits bs < p then Some (of_nat (of_bits bs)) else None))"

lemma bigint_rat_ops: "bigint_spec rat_ops (2 ^ 254)"
  by (auto simp: bigint_spec_def rat_ops_def rat_repr_def)

lemma of_bits_slice: "of_bits (map (\<lambda>i. odd (n div 2 ^ i)) [a..<a + k]) = n div 2 ^ a mod 2 ^ k"
proof (induction k arbitrary: a)
  case (Suc k)
  have "[a..<a + Suc k] = a # [Suc a..<Suc a + k]" by (simp add: upt_conv_Cons del: upt_Suc)
  then have "of_bits (map (\<lambda>i. odd (n div 2 ^ i)) [a..<a + Suc k]) =
      (n div 2 ^ a) mod 2 + 2 * (n div 2 ^ Suc a mod 2 ^ k)"
    using Suc [of "Suc a"] by (simp add: odd_iff_mod_2_eq_one del: upt_Suc)
  also have "\<dots> = n div 2 ^ a mod 2 ^ Suc k"
    by (simp only: power_Suc2 [of _ a] div_mult2_eq) (metis add.commute mod_mult2_eq mult.commute power_Suc)
  finally show ?case .
qed simp

lemma take_drop_bits: "take w (drop off (bits_of k n)) = map (\<lambda>i. odd (n div 2 ^ i)) [off..<off + min w (k - off)]"
  by (rule nth_equalityI) (auto simp: bits_of_def)

lemma of_bits_take_drop:
  assumes "n < 2 ^ k"
  shows "of_bits (take w (drop off (bits_of k n))) = n div 2 ^ off mod 2 ^ w"
proof -
  have "n div 2 ^ off mod 2 ^ min w (k - off) = n div 2 ^ off mod 2 ^ w"
  proof (cases "w \<le> k - off")
    case False
    have "n div 2 ^ off < 2 ^ (k - off)"
    proof (cases "off \<le> k")
      case True
      then show ?thesis using assms by (simp add: less_mult_imp_div_less flip: power_add)
    next
      case False
      then have "n < 2 ^ off" using assms by (meson less_le_trans nat_le_linear one_le_numeral power_increasing)
      then show ?thesis by simp
    qed
    moreover have "(2 :: nat) ^ (k - off) \<le> 2 ^ w" using False by (intro power_increasing) auto
    ultimately have "n div 2 ^ off < 2 ^ w" by linarith
    then show ?thesis using \<open>n div 2 ^ off < 2 ^ (k - off)\<close> False by (simp add: min_def)
  qed (simp add: min_def)
  then show ?thesis by (simp add: take_drop_bits of_bits_slice)
qed

lemma bigint_specD:
  assumes "bigint_spec fp p"
  shows "fp_repr fp x < p" "fp_repr fp x < 2 ^ 256" "fp_to_bits_le fp x = bits_of 256 (fp_repr fp x)"
    "of_bits bs < p \<Longrightarrow> length bs \<le> 256 \<Longrightarrow> fp_from_bits_le fp bs = Some (of_nat (of_bits bs))"
  using assms by (auto simp: bigint_spec_def intro: less_le_trans)

lemma nth_bits_of: "i < k \<Longrightarrow> bits_of k n ! i = odd (n div 2 ^ i)"
  by (simp add: bits_of_def)

lemma length_bits_of [simp]: "length (bits_of k n) = k"
  by (simp add: bits_of_def)

lemma bits_of_zero_tail:
  assumes "n < 2 ^ 256"
  shows "list_all Not (drop k (bits_of 256 n)) \<longleftrightarrow> n < 2 ^ k"
proof -
  have e: "of_bits (drop k (bits_of 256 n)) = n div 2 ^ k"
    using of_bits_take_drop [OF assms, of 256 k] assms
    by (simp add: order.strict_trans1 [OF div_le_dividend])
  have "of_bits bs = 0 \<longleftrightarrow> list_all Not bs" for bs by (induction bs) auto
  then have "list_all Not (drop k (bits_of 256 n)) \<longleftrightarrow> n div 2 ^ k = 0" using e by metis
  then show ?thesis by (simp add: div_eq_0_iff)
qed

lemma of_bits_complement: "of_bits (map Not bs) = 2 ^ length bs - 1 - of_bits bs"
proof -
  have "of_bits (map Not bs) + of_bits bs = 2 ^ length bs - 1"
  proof (induction bs)
    case (Cons b bs)
    have "(1 :: nat) \<le> 2 ^ length bs" by simp
    with Cons show ?case by (cases b; simp; linarith)
  qed simp
  then show ?thesis by simp
qed

text \<open>C38. Bit-level operations on constants, as arithmetic on the numbers they represent. A bit range is
  a quotient and a remainder; a range check of \<open>n\<close> bits holds exactly below \<open>2 ^ n\<close>; negation in a
  width that the field can hold subtracts from the largest number of that width; sign extension turns
  the two's complement of one width into that of the other.\<close>

theorem bit_operations:
  assumes "bigint_spec fp p"
  shows "val_bit_range fp (VConst c) off w = Some (VConst (of_nat (fp_repr fp c div 2 ^ off mod 2 ^ w))) \<and>
    val_rangecheck fp (VConst c) n = (if fp_repr fp c < 2 ^ n then Some () else None) \<and>
    (get_bit_size t = Some n \<longrightarrow> n \<le> 256 \<longrightarrow> 2 ^ n \<le> p \<longrightarrow>
       val_not fp (VConst c) t = Some (VConst (of_nat (2 ^ n - 1 - fp_repr fp c mod 2 ^ n)))) \<and>
    (1 \<le> i \<longrightarrow> i \<le> j \<longrightarrow> j < 128 \<longrightarrow> fp_repr fp c < 2 ^ i \<longrightarrow> of_nat (fp_repr fp c) = c \<longrightarrow>
       val_sext fp (VConst c) i j = Some (VConst (of_nat (nat (signed_value i (fp_repr fp c) mod 2 ^ j)))))"
proof (intro conjI impI)
  note s = bigint_specD [OF assms]
  have "fp_repr fp c div 2 ^ off mod 2 ^ w < p"
    by (meson s(1) div_le_dividend mod_less_eq_dividend le_less_trans)
  then show "val_bit_range fp (VConst c) off w = Some (VConst (of_nat (fp_repr fp c div 2 ^ off mod 2 ^ w)))"
    using of_bits_take_drop [OF s(2), of w off] by (simp add: val_bit_range_def s(3) s(4) Let_def)
  show "val_rangecheck fp (VConst c) n = (if fp_repr fp c < 2 ^ n then Some () else None)"
    using bits_of_zero_tail [OF s(2)] by (simp add: val_rangecheck_def s(3) ensure_def)
next
  note s = bigint_specD [OF assms]
  assume a: "get_bit_size t = Some n" "n \<le> 256" "2 ^ n \<le> p"
  have m: "map (\<lambda>i. \<not> (if i < length (bits_of 256 (fp_repr fp c)) then bits_of 256 (fp_repr fp c) ! i else False)) [0..<n]
      = map Not (take n (drop 0 (bits_of 256 (fp_repr fp c))))"
    using a(2) by (intro nth_equalityI) auto
  have "of_bits (map Not (take n (drop 0 (bits_of 256 (fp_repr fp c))))) = 2 ^ n - 1 - fp_repr fp c mod 2 ^ n"
    using of_bits_take_drop [OF s(2), of n 0 c] a(2) by (simp add: of_bits_complement)
  moreover have "2 ^ n - 1 - fp_repr fp c mod 2 ^ n < p"
  proof -
    have "(1 :: nat) \<le> 2 ^ n" by simp
    then show ?thesis using a(3) by linarith
  qed
  ultimately show "val_not fp (VConst c) t = Some (VConst (of_nat (2 ^ n - 1 - fp_repr fp c mod 2 ^ n)))"
    unfolding val_not_def using a(1) m by (simp add: s(3) s(4) Let_def del: drop_0)
next
  note s = bigint_specD [OF assms]
  assume a: "1 \<le> i" "i \<le> j" "j < 128" "fp_repr fp c < 2 ^ i" "of_nat (fp_repr fp c) = c"
  let ?x = "fp_repr fp c"
  have h: "?x div 2 ^ (i - 1) < 2" "(2 :: nat) ^ i = 2 * 2 ^ (i - 1)"
    using a(1,4) by (simp_all add: less_mult_imp_div_less flip: power_Suc)
  have sign: "odd (?x div 2 ^ (i - 1)) \<longleftrightarrow> \<not> ?x < 2 ^ (i - 1)"
  proof -
    have "odd q \<longleftrightarrow> q \<noteq> 0" if "q < 2" for q :: nat using that by (cases q) auto
    then have "odd (?x div 2 ^ (i - 1)) \<longleftrightarrow> ?x div 2 ^ (i - 1) \<noteq> 0" using h(1) .
    then show ?thesis by (simp add: div_eq_0_iff)
  qed
  have bit: "bits_of 256 ?x ! (i - Suc 0) = odd (?x div 2 ^ (i - 1))"
    using a(1-3) by (simp add: nth_bits_of)
  have le: "(2 :: nat) ^ i \<le> 2 ^ j" using a(2) by (intro power_increasing) auto
  show "val_sext fp (VConst c) i j = Some (VConst (of_nat (nat (signed_value i ?x mod 2 ^ j))))"
  proof (cases "?x < 2 ^ (i - 1)")
    case True
    have "int ?x < int (2 ^ j)" using less_le_trans [OF a(4) le] by (simp only: of_nat_less_iff)
    then have "int ?x < 2 ^ j" by simp
    then show ?thesis using True sign bit a by (simp add: val_sext_def s(3) Let_def signed_value_def)
  next
    case False
    have g: "(int x - int P) mod int Q = int (x + Q - P)" if "P \<le> Q" "x < P" for x P Q
    proof -
      have "(int x - int P) mod int Q = (int x - int P + int Q) mod int Q" by simp
      also have "int x - int P + int Q = int (x + Q - P)" using that by linarith
      also have "\<dots> mod int Q = int (x + Q - P)" using that by (simp flip: of_nat_mod)
      finally show ?thesis .
    qed
    have "(int ?x - 2 ^ i) mod 2 ^ j = int (?x + 2 ^ j - 2 ^ i)" using g [OF le a(4)] by simp
    then have "nat (signed_value i ?x mod 2 ^ j) = ?x + 2 ^ j - 2 ^ i" using False by (simp add: signed_value_def)
    moreover have "of_nat (x + Q - P) = (of_nat x + (of_nat Q - of_nat P) :: 'a)" if "P \<le> Q" for x P Q
      using that by (simp add: of_nat_diff add_diff_eq)
    from this [OF le, of ?x] have "of_nat (?x + 2 ^ j - 2 ^ i) = c + (2 ^ j - 2 ^ i)" by (simp add: a(5))
    ultimately have "of_nat (nat (signed_value i ?x mod 2 ^ j)) = c + (2 ^ j - 2 ^ i)" by simp
    moreover have "i - Suc 0 < 256" using a by simp
    ultimately show ?thesis using False sign bit a by (simp add: val_sext_def s(3) Let_def)
  qed
qed

theorem bit_operations_witness:
  "val_bit_range rat_ops (VConst 214) 2 4 = Some (VConst 5) \<and>
   val_not rat_ops (VConst 214) (TU 8) = Some (VConst 41) \<and>
   val_sext rat_ops (VConst 214) 8 16 = Some (VConst 65494)"
proof -
  have r: "fp_repr rat_ops 214 = 214" by (simp add: rat_ops_def rat_repr_def)
  show ?thesis
    using bit_operations [OF bigint_rat_ops, of 214 2 4 8 "TU 8" 8 16] by (simp add: r signed_value_def)
qed

end
