(* ===== verification/Symbolic_Executor.thy ===== *)
theory Symbolic_Executor
  imports HL_Opcodes
begin

text \<open>
  The symbolic execution engine (\<^verbatim>\<open>compiler/src/compiler/analysis/symbolic_executor.rs\<close>): it runs a
  high-level program over the values and the context of a client. The traits \<^verbatim>\<open>Value\<close> and
  \<^verbatim>\<open>Context\<close> are the record \<open>sym_ops\<close>; an operation returns \<open>None\<close> where it panics. Execution
  need not terminate (calls may recurse, blocks may loop), so it takes fuel; running out is an outcome
  of its own, different from a panic, and more fuel never changes any other outcome.
\<close>

subsection \<open>The client's operations\<close>

record ('v, 'c, 'f) sym_ops =
  so_ult :: "'v \<Rightarrow> 'v \<Rightarrow> 'c \<Rightarrow> ('v \<times> 'c) option"
  so_slt :: "'v \<Rightarrow> 'v \<Rightarrow> nat \<Rightarrow> 'c \<Rightarrow> ('v \<times> 'c) option"
  so_eq :: "'v \<Rightarrow> 'v \<Rightarrow> 'c \<Rightarrow> ('v \<times> 'c) option"
  so_arith :: "'v \<Rightarrow> 'v \<Rightarrow> binary_arith_op_kind \<Rightarrow> ty \<Rightarrow> 'c \<Rightarrow> ('v \<times> 'c) option"
  so_assert_bool :: "'v \<Rightarrow> 'c \<Rightarrow> 'c option"
  so_assert_cmp :: "cmp_kind \<Rightarrow> 'v \<Rightarrow> 'v \<Rightarrow> ty \<Rightarrow> 'c \<Rightarrow> 'c option"
  so_assert_r1c :: "'v \<Rightarrow> 'v \<Rightarrow> 'v \<Rightarrow> 'c \<Rightarrow> 'c option"
  so_array_get :: "'v \<Rightarrow> 'v \<Rightarrow> ty \<Rightarrow> 'c \<Rightarrow> ('v \<times> 'c) option"
  so_tuple_get :: "'v \<Rightarrow> nat \<Rightarrow> ty \<Rightarrow> 'c \<Rightarrow> ('v \<times> 'c) option"
  so_array_set :: "'v \<Rightarrow> 'v \<Rightarrow> 'v \<Rightarrow> ty \<Rightarrow> 'c \<Rightarrow> ('v \<times> 'c) option"
  so_sext :: "'v \<Rightarrow> nat \<Rightarrow> nat \<Rightarrow> ty \<Rightarrow> 'c \<Rightarrow> ('v \<times> 'c) option"
  so_bit_range :: "'v \<Rightarrow> nat \<Rightarrow> nat \<Rightarrow> ty \<Rightarrow> 'c \<Rightarrow> ('v \<times> 'c) option"
  so_cast :: "'v \<Rightarrow> cast_target \<Rightarrow> ty \<Rightarrow> 'c \<Rightarrow> ('v \<times> 'c) option"
  so_constrain :: "'v \<Rightarrow> 'v \<Rightarrow> 'v \<Rightarrow> 'c \<Rightarrow> 'c option"
  so_to_bits :: "'v \<Rightarrow> endianness \<Rightarrow> nat \<Rightarrow> ty \<Rightarrow> 'c \<Rightarrow> ('v \<times> 'c) option"
  so_to_radix :: "'v \<Rightarrow> 'v radix \<Rightarrow> endianness \<Rightarrow> nat \<Rightarrow> ty \<Rightarrow> 'c \<Rightarrow> ('v \<times> 'c) option"
  so_not :: "'v \<Rightarrow> ty \<Rightarrow> 'c \<Rightarrow> ('v \<times> 'c) option"
  so_of_u :: "nat \<Rightarrow> u128 \<Rightarrow> 'c \<Rightarrow> ('v \<times> 'c) option"
  so_of_i :: "nat \<Rightarrow> u128 \<Rightarrow> 'c \<Rightarrow> ('v \<times> 'c) option"
  so_of_field :: "'f \<Rightarrow> 'c \<Rightarrow> ('v \<times> 'c) option"
  so_mk_array :: "'v list \<Rightarrow> sequence_target_type \<Rightarrow> ty \<Rightarrow> 'c \<Rightarrow> ('v \<times> 'c) option"
  so_mk_tuple :: "'v list \<Rightarrow> ty list \<Rightarrow> 'c \<Rightarrow> ('v \<times> 'c) option"
  so_alloc :: "ty \<Rightarrow> 'c \<Rightarrow> ('v \<times> 'c) option"
  so_ptr_write :: "'v \<Rightarrow> 'v \<Rightarrow> 'c \<Rightarrow> 'c option"
  so_ptr_read :: "'v \<Rightarrow> ty \<Rightarrow> 'c \<Rightarrow> ('v \<times> 'c) option"
  so_expect_constant_bool :: "'v \<Rightarrow> 'c \<Rightarrow> (bool \<times> 'c) option"
  so_select :: "'v \<Rightarrow> 'v \<Rightarrow> 'v \<Rightarrow> ty \<Rightarrow> 'c \<Rightarrow> ('v \<times> 'c) option"
  so_write_witness :: "'v \<Rightarrow> ty option \<Rightarrow> 'c \<Rightarrow> ('v \<times> 'c) option"
  so_fresh_witness :: "ty \<Rightarrow> 'c \<Rightarrow> ('v \<times> 'c) option"
  so_value_of :: "'v \<Rightarrow> 'c \<Rightarrow> ('v \<times> 'c) option"
  so_mem_op :: "'v \<Rightarrow> ref_count_op \<Rightarrow> 'c \<Rightarrow> 'c option"
  so_rangecheck :: "'v \<Rightarrow> nat \<Rightarrow> 'c \<Rightarrow> 'c option"
  so_spread :: "'v \<Rightarrow> nat \<Rightarrow> 'c \<Rightarrow> ('v \<times> 'c) option"
  so_unspread :: "'v \<Rightarrow> nat \<Rightarrow> 'c \<Rightarrow> (('v \<times> 'v) \<times> 'c) option"
  so_on_call :: "function_id \<Rightarrow> 'v list \<Rightarrow> ty list \<Rightarrow> ty list \<Rightarrow> bool \<Rightarrow> 'c \<Rightarrow> (('v list \<times> 'v list option) \<times> 'c) option"
  so_on_return :: "'v list \<Rightarrow> ty list \<Rightarrow> 'c \<Rightarrow> ('v list \<times> 'c) option"
  so_on_jmp :: "block_id \<Rightarrow> 'v list \<Rightarrow> ty list \<Rightarrow> 'c \<Rightarrow> ('v list \<times> 'c) option"
  so_lookup :: "'v lookup_target \<Rightarrow> 'v list \<Rightarrow> 'v \<Rightarrow> 'c \<Rightarrow> 'c option"
  so_dlookup :: "'v lookup_target \<Rightarrow> 'v list \<Rightarrow> 'v \<Rightarrow> 'c \<Rightarrow> 'c option"
  so_todo :: "string \<Rightarrow> ty list \<Rightarrow> 'c \<Rightarrow> ('v list \<times> 'c) option"
  so_slice_push :: "'v \<Rightarrow> 'v list \<Rightarrow> slice_op_dir \<Rightarrow> 'c \<Rightarrow> ('v \<times> 'c) option"
  so_slice_len :: "'v \<Rightarrow> 'c \<Rightarrow> ('v \<times> 'c) option"
  so_on_guard :: "opcode \<Rightarrow> 'v \<Rightarrow> 'v list \<Rightarrow> ty list \<Rightarrow> 'c \<Rightarrow> ('v list \<times> 'c) option"

subsection \<open>The scope\<close>

text \<open>Locals are layered over the constants, which are looked up on a miss.\<close>

type_synonym 'v scope = "value_id \<rightharpoonup> 'v"

definition scope_index :: "'v scope \<Rightarrow> 'v scope \<Rightarrow> value_id \<Rightarrow> 'v option" where
  "scope_index consts locals v = (case locals v of Some x \<Rightarrow> Some x | None \<Rightarrow> consts v)"

definition scope_insert :: "value_id \<Rightarrow> 'v \<Rightarrow> 'v scope \<Rightarrow> 'v scope" where
  "scope_insert v x locals = locals(v \<mapsto> x)"

definition scope_insert_all :: "(value_id \<times> 'v) list \<Rightarrow> 'v scope \<Rightarrow> 'v scope" where
  "scope_insert_all vxs locals = fold (\<lambda>(v, x). scope_insert v x) vxs locals"

fun scope_target :: "(value_id \<Rightarrow> 'v option) \<Rightarrow> value_id lookup_target \<Rightarrow> 'v lookup_target option" where
  "scope_target sc (LtRangecheck n) = Some (LtRangecheck n)"
| "scope_target sc (LtSpread n) = Some (LtSpread n)"
| "scope_target sc (LtDynRangecheck v) = map_option LtDynRangecheck (sc v)"
| "scope_target sc (LtArray arr) = map_option LtArray (sc arr)"

fun scope_radix :: "(value_id \<Rightarrow> 'v option) \<Rightarrow> value_id radix \<Rightarrow> 'v radix option" where
  "scope_radix sc RadixBytes = Some RadixBytes"
| "scope_radix sc (RadixDyn v) = map_option RadixDyn (sc v)"

text \<open>Every interned constant turned into a value, once, in the order of the snapshot.\<close>

fun constant_value :: "('v, 'c, 'f) sym_ops \<Rightarrow> 'f hl_constant \<Rightarrow> 'c \<Rightarrow> ('v \<times> 'c) option" where
  "constant_value S (ConstU n val) ctx = so_of_u S n val ctx"
| "constant_value S (ConstI n val) ctx = so_of_i S n val ctx"
| "constant_value S (ConstField val) ctx = so_of_field S val ctx"
| "constant_value S (ConstFnPtr _) ctx = None"

definition materialize_constants ::
  "('v, 'c, 'f) sym_ops \<Rightarrow> (value_id \<times> 'f hl_constant) list \<Rightarrow> 'c \<Rightarrow> ('v scope \<times> 'c) option" where
  "materialize_constants S cs ctx = opt_fold (\<lambda>(vid, cv) (consts, ctx). do {
     (v, ctx) \<leftarrow> constant_value S cv ctx;
     Some (consts(vid \<mapsto> v), ctx) }) cs (Map.empty, ctx)"

subsection \<open>One instruction\<close>

text \<open>The state of a running function: its locals, the globals of the program and the client's
  context. An operation with one result puts it into the locals.\<close>

type_synonym ('v, 'c) exec_state = "'v scope \<times> 'v option list \<times> 'c"

definition put_result :: "value_id \<Rightarrow> ('v, 'c) exec_state \<Rightarrow> ('v \<times> 'c) option \<Rightarrow> ('v, 'c) exec_state option" where
  "put_result r st m = (case st of (locals, globals, _) \<Rightarrow>
     do { (v, ctx) \<leftarrow> m; Some (scope_insert r v locals, globals, ctx) })"

definition put_ctx :: "('v, 'c) exec_state \<Rightarrow> 'c option \<Rightarrow> ('v, 'c) exec_state option" where
  "put_ctx st m = (case st of (locals, globals, _) \<Rightarrow> do { ctx \<leftarrow> m; Some (locals, globals, ctx) })"

text \<open>Comparisons, arithmetic, conversions and bit operations.\<close>

definition exec_compute ::
  "('v, 'c, 'f) sym_ops \<Rightarrow> (value_id \<Rightarrow> ty option) \<Rightarrow> 'v scope \<Rightarrow> opcode \<Rightarrow> ('v, 'c) exec_state \<Rightarrow>
   ('v, 'c) exec_state option" where
  "exec_compute S type_of consts instr st = (case st of (locals, globals, ctx) \<Rightarrow>
     let sc = scope_index consts locals in
     case instr of
       OpCmp kind r a b \<Rightarrow> do {
         lhs_type \<leftarrow> type_of a;
         a \<leftarrow> sc a; b \<leftarrow> sc b;
         put_result r st (case kind of
           CmpEq \<Rightarrow> so_eq S a b ctx
         | CmpLt \<Rightarrow> (case strip_witness lhs_type of
             TI bits \<Rightarrow> so_slt S a b bits ctx
           | _ \<Rightarrow> so_ult S a b ctx)) }
     | OpBinaryArithOp kind r a b \<Rightarrow> do {
         a \<leftarrow> sc a; b \<leftarrow> sc b; t \<leftarrow> type_of r;
         put_result r st (so_arith S a b kind t ctx) }
     | OpCast r a target \<Rightarrow> do {
         a \<leftarrow> sc a; t \<leftarrow> type_of r;
         put_result r st (so_cast S a target t ctx) }
     | OpSExt r a from_bits to_bits \<Rightarrow> do {
         a \<leftarrow> sc a; t \<leftarrow> type_of r;
         put_result r st (so_sext S a from_bits to_bits t ctx) }
     | OpBitRange r a offset width \<Rightarrow> do {
         a \<leftarrow> sc a; t \<leftarrow> type_of r;
         put_result r st (so_bit_range S a offset width t ctx) }
     | OpNot r a \<Rightarrow> do {
         a \<leftarrow> sc a; t \<leftarrow> type_of r;
         put_result r st (so_not S a t ctx) }
     | OpSelect r cond if_t if_f \<Rightarrow> do {
         cond \<leftarrow> sc cond; if_t \<leftarrow> sc if_t; if_f \<leftarrow> sc if_f; t \<leftarrow> type_of r;
         put_result r st (so_select S cond if_t if_f t ctx) }
     | OpToBits r a endianness n \<Rightarrow> do {
         a \<leftarrow> sc a; t \<leftarrow> type_of r;
         put_result r st (so_to_bits S a endianness n t ctx) }
     | OpToRadix r a radix endianness n \<Rightarrow> do {
         a \<leftarrow> sc a; radix \<leftarrow> scope_radix sc radix; t \<leftarrow> type_of r;
         put_result r st (so_to_radix S a radix endianness n t ctx) }
     | OpSpread r a bits \<Rightarrow> do {
         a \<leftarrow> sc a;
         put_result r st (so_spread S a bits ctx) }
     | OpUnspread result_odd result_even a bits \<Rightarrow> do {
         a \<leftarrow> sc a;
         ((odd_val, even_val), ctx) \<leftarrow> so_unspread S a bits ctx;
         Some (scope_insert result_even even_val (scope_insert result_odd odd_val locals), globals, ctx) }
     | OpValueOf r a \<Rightarrow> do {
         a \<leftarrow> sc a;
         put_result r st (so_value_of S a ctx) }
     | _ \<Rightarrow> None)"

text \<open>Arrays, slices, tuples, pointers and globals.\<close>

definition exec_memory ::
  "('v, 'c, 'f) sym_ops \<Rightarrow> (value_id \<Rightarrow> ty option) \<Rightarrow> 'v scope \<Rightarrow> opcode \<Rightarrow> ('v, 'c) exec_state \<Rightarrow>
   ('v, 'c) exec_state option" where
  "exec_memory S type_of consts instr st = (case st of (locals, globals, ctx) \<Rightarrow>
     let sc = scope_index consts locals in
     case instr of
       OpMkSeq r elems seq_type elem_type \<Rightarrow> do {
         a \<leftarrow> opt_map sc elems;
         put_result r st (so_mk_array S a seq_type elem_type ctx) }
     | OpMkRepeated r element seq_type n elem_type \<Rightarrow> do {
         elem \<leftarrow> sc element;
         put_result r st (so_mk_array S (replicate n elem) seq_type elem_type ctx) }
     | OpAlloc r elem_type \<Rightarrow> put_result r st (so_alloc S elem_type ctx)
     | OpStore ptr v \<Rightarrow> do {
         ptr \<leftarrow> sc ptr; v \<leftarrow> sc v;
         put_ctx st (so_ptr_write S ptr v ctx) }
     | OpLoad r ptr \<Rightarrow> do {
         ptr \<leftarrow> sc ptr; t \<leftarrow> type_of r;
         put_result r st (so_ptr_read S ptr t ctx) }
     | OpArrayGet r a i \<Rightarrow> do {
         a \<leftarrow> sc a; i \<leftarrow> sc i; t \<leftarrow> type_of r;
         put_result r st (so_array_get S a i t ctx) }
     | OpArraySet r arr i v \<Rightarrow> do {
         a \<leftarrow> sc arr; i \<leftarrow> sc i; v \<leftarrow> sc v; t \<leftarrow> type_of r;
         put_result r st (so_array_set S a i v t ctx) }
     | OpSlicePush dir r sl values \<Rightarrow> do {
         sl \<leftarrow> sc sl; vals \<leftarrow> opt_map sc values;
         put_result r st (so_slice_push S sl vals dir ctx) }
     | OpSliceLen r sl \<Rightarrow> do {
         sl \<leftarrow> sc sl;
         put_result r st (so_slice_len S sl ctx) }
     | OpTupleProj r a idx \<Rightarrow> do {
         a \<leftarrow> sc a; t \<leftarrow> type_of r;
         put_result r st (so_tuple_get S a idx t ctx) }
     | OpMkTuple r elems element_types \<Rightarrow> do {
         elems \<leftarrow> opt_map sc elems;
         put_result r st (so_mk_tuple S elems element_types ctx) }
     | OpMemOp kind v \<Rightarrow> do {
         v \<leftarrow> sc v;
         put_ctx st (so_mem_op S v kind ctx) }
     | OpReadGlobal r offset _ \<Rightarrow> do {
         slot \<leftarrow> nth_opt globals offset;
         v \<leftarrow> slot;
         Some (scope_insert r v locals, globals, ctx) }
     | OpInitGlobal global v \<Rightarrow> do {
         v \<leftarrow> sc v;
         globals \<leftarrow> upd_opt globals global (Some v);
         Some (locals, globals, ctx) }
     | OpDropGlobal global \<Rightarrow> do {
         globals \<leftarrow> upd_opt globals global None;
         Some (locals, globals, ctx) }
     | _ \<Rightarrow> None)"

text \<open>Assertions, witnesses, constraints, lookups and guards. The derivative opcodes are not
  supported (\<^verbatim>\<open>todo!()\<close>).\<close>

definition exec_constrain ::
  "('v, 'c, 'f) sym_ops \<Rightarrow> (value_id \<Rightarrow> ty option) \<Rightarrow> 'v scope \<Rightarrow> opcode \<Rightarrow> ('v, 'c) exec_state \<Rightarrow>
   ('v, 'c) exec_state option" where
  "exec_constrain S type_of consts instr st = (case st of (locals, globals, ctx) \<Rightarrow>
     let sc = scope_index consts locals in
     case instr of
       OpAssertR1C a b c \<Rightarrow> do {
         a \<leftarrow> sc a; b \<leftarrow> sc b; c \<leftarrow> sc c;
         put_ctx st (so_assert_r1c S a b c ctx) }
     | OpWriteWitness r a _ \<Rightarrow> do {
         a \<leftarrow> sc a;
         (case r of
            Some r \<Rightarrow> do {
              t \<leftarrow> type_of r;
              put_result r st (so_write_witness S a (Some t) ctx) }
          | None \<Rightarrow> put_ctx st (map_option snd (so_write_witness S a None ctx))) }
     | OpFreshWitness r result_type \<Rightarrow> put_result r st (so_fresh_witness S result_type ctx)
     | OpConstrain a b c \<Rightarrow> do {
         a \<leftarrow> sc a; b \<leftarrow> sc b; c \<leftarrow> sc c;
         put_ctx st (so_constrain S a b c ctx) }
     | OpAssert v \<Rightarrow> do {
         v \<leftarrow> sc v;
         put_ctx st (so_assert_bool S v ctx) }
     | OpAssertCmp kind a b \<Rightarrow> do {
         lhs_type \<leftarrow> type_of a;
         a \<leftarrow> sc a; b \<leftarrow> sc b;
         put_ctx st (so_assert_cmp S kind a b lhs_type ctx) }
     | OpRangecheck v max_bits \<Rightarrow> do {
         v \<leftarrow> sc v;
         put_ctx st (so_rangecheck S v max_bits ctx) }
     | OpLookup target args flag \<Rightarrow> do {
         target \<leftarrow> scope_target sc target;
         args \<leftarrow> opt_map sc args;
         flag_value \<leftarrow> sc flag;
         put_ctx st (so_lookup S target args flag_value ctx) }
     | OpDLookup target args flag \<Rightarrow> do {
         target \<leftarrow> scope_target sc target;
         args \<leftarrow> opt_map sc args;
         flag_value \<leftarrow> sc flag;
         put_ctx st (so_dlookup S target args flag_value ctx) }
     | OpTodo payload results result_types \<Rightarrow> do {
         (result_values, ctx) \<leftarrow> so_todo S payload result_types ctx;
         ensure (length result_values = length results);
         Some (scope_insert_all (zip results result_values) locals, globals, ctx) }
     | OpGuard condition inner \<Rightarrow> do {
         condition_val \<leftarrow> sc condition;
         inputs \<leftarrow> opt_map sc (get_inputs inner);
         result_types \<leftarrow> opt_map type_of (get_results inner);
         (results, ctx) \<leftarrow> so_on_guard S inner condition_val inputs result_types ctx;
         Some (scope_insert_all (zip (get_results inner) results) locals, globals, ctx) }
     | _ \<Rightarrow> None)"

definition exec_simple ::
  "('v, 'c, 'f) sym_ops \<Rightarrow> (value_id \<Rightarrow> ty option) \<Rightarrow> 'v scope \<Rightarrow> opcode \<Rightarrow> ('v, 'c) exec_state \<Rightarrow>
   ('v, 'c) exec_state option" where
  "exec_simple S type_of consts instr st =
     (if (case instr of OpCmp _ _ _ _ \<Rightarrow> True | OpBinaryArithOp _ _ _ _ \<Rightarrow> True | OpCast _ _ _ \<Rightarrow> True
          | OpSExt _ _ _ _ \<Rightarrow> True | OpBitRange _ _ _ _ \<Rightarrow> True | OpNot _ _ \<Rightarrow> True | OpSelect _ _ _ _ \<Rightarrow> True
          | OpToBits _ _ _ _ \<Rightarrow> True | OpToRadix _ _ _ _ _ \<Rightarrow> True | OpSpread _ _ _ \<Rightarrow> True
          | OpUnspread _ _ _ _ \<Rightarrow> True | OpValueOf _ _ \<Rightarrow> True | _ \<Rightarrow> False)
      then exec_compute S type_of consts instr st
      else if (case instr of OpMkSeq _ _ _ _ \<Rightarrow> True | OpMkRepeated _ _ _ _ _ \<Rightarrow> True | OpAlloc _ _ \<Rightarrow> True
          | OpStore _ _ \<Rightarrow> True | OpLoad _ _ \<Rightarrow> True | OpArrayGet _ _ _ \<Rightarrow> True | OpArraySet _ _ _ _ \<Rightarrow> True
          | OpSlicePush _ _ _ _ \<Rightarrow> True | OpSliceLen _ _ \<Rightarrow> True | OpTupleProj _ _ _ \<Rightarrow> True
          | OpMkTuple _ _ _ \<Rightarrow> True | OpMemOp _ _ \<Rightarrow> True | OpReadGlobal _ _ _ \<Rightarrow> True
          | OpInitGlobal _ _ \<Rightarrow> True | OpDropGlobal _ \<Rightarrow> True | _ \<Rightarrow> False)
      then exec_memory S type_of consts instr st
      else exec_constrain S type_of consts instr st)"

subsection \<open>Functions, blocks, calls\<close>

datatype 'a outcome = Ret 'a | Panic | OutOfFuel

fun of_option :: "'a option \<Rightarrow> 'a outcome" where
  "of_option (Some x) = Ret x"
| "of_option None = Panic"

fun and_then :: "'a outcome \<Rightarrow> ('a \<Rightarrow> 'b outcome) \<Rightarrow> 'b outcome" where
  "and_then (Ret x) f = f x"
| "and_then Panic f = Panic"
| "and_then OutOfFuel f = OutOfFuel"

lemma of_option_Ret [simp]: "of_option m = Ret x \<longleftrightarrow> m = Some x"
  by (cases m) auto

lemma and_then_Ret: "and_then m f = Ret y \<longleftrightarrow> (\<exists>x. m = Ret x \<and> f x = Ret y)"
  by (cases m) auto

text \<open>The types of a program, per function and value; asking for a missing one panics.\<close>

type_synonym type_info = "function_id \<Rightarrow> (value_id \<Rightarrow> ty option) option"

text \<open>What running a function takes and gives: arguments, globals, context; results, globals,
  context.\<close>

type_synonym ('v, 'c) runner =
  "function_id \<Rightarrow> 'v list \<Rightarrow> 'v option list \<Rightarrow> 'c \<Rightarrow> ('v list \<times> 'v option list \<times> 'c) outcome"

text \<open>An unconstrained call is answered by the context; a constrained one runs the function.\<close>

definition exec_call ::
  "('v, 'c, 'f) sym_ops \<Rightarrow> 'f hlssa \<Rightarrow> ('v, 'c) runner \<Rightarrow> (value_id \<Rightarrow> ty option) \<Rightarrow> 'v scope \<Rightarrow>
   value_id list \<Rightarrow> function_id \<Rightarrow> value_id list \<Rightarrow> bool \<Rightarrow> ('v, 'c) exec_state \<Rightarrow> ('v, 'c) exec_state outcome" where
  "exec_call S ssa call type_of consts returns fid arguments unconstrained st =
     (case st of (locals, globals, ctx) \<Rightarrow>
      and_then (of_option (opt_map (scope_index consts locals) arguments)) (\<lambda>params.
      and_then (if unconstrained
          then of_option (do {
            f \<leftarrow> get_function fid ssa;
            param_types \<leftarrow> get_param_types f;
            result_types \<leftarrow> opt_map type_of returns;
            ((_, res), ctx) \<leftarrow> so_on_call S fid params param_types result_types True ctx;
            outputs \<leftarrow> res;
            Some (outputs, globals, ctx) })
          else call fid params globals ctx) (\<lambda>(outputs, globals, ctx).
      of_option (do {
        vals \<leftarrow> opt_map (nth_opt outputs) [0..<length returns];
        Some (scope_insert_all (zip returns vals) locals, globals, ctx) }))))"

definition exec_instr ::
  "('v, 'c, 'f) sym_ops \<Rightarrow> 'f hlssa \<Rightarrow> ('v, 'c) runner \<Rightarrow> (value_id \<Rightarrow> ty option) \<Rightarrow> 'v scope \<Rightarrow>
   opcode \<Rightarrow> ('v, 'c) exec_state \<Rightarrow> ('v, 'c) exec_state outcome" where
  "exec_instr S ssa call type_of consts instr st = (case instr of
     OpCall returns (CallStatic fid) arguments unconstrained \<Rightarrow>
       exec_call S ssa call type_of consts returns fid arguments unconstrained st
   | OpCall _ (CallDynamic _) _ _ \<Rightarrow> Panic
   | _ \<Rightarrow> of_option (exec_simple S type_of consts instr st))"

primrec exec_instrs ::
  "('v, 'c, 'f) sym_ops \<Rightarrow> 'f hlssa \<Rightarrow> ('v, 'c) runner \<Rightarrow> (value_id \<Rightarrow> ty option) \<Rightarrow> 'v scope \<Rightarrow>
   opcode list \<Rightarrow> ('v, 'c) exec_state \<Rightarrow> ('v, 'c) exec_state outcome" where
  "exec_instrs S ssa call type_of consts [] st = Ret st"
| "exec_instrs S ssa call type_of consts (i # is) st =
     and_then (exec_instr S ssa call type_of consts i st) (exec_instrs S ssa call type_of consts is)"

text \<open>The blocks of a function, from the given one on; each block costs one unit of fuel.\<close>

primrec run_blocks ::
  "nat \<Rightarrow> ('v, 'c, 'f) sym_ops \<Rightarrow> 'f hlssa \<Rightarrow> ('v, 'c) runner \<Rightarrow> (value_id \<Rightarrow> ty option) \<Rightarrow> 'v scope \<Rightarrow>
   hl_function \<Rightarrow> block_id \<Rightarrow> ('v, 'c) exec_state \<Rightarrow> ('v list \<times> 'v option list \<times> 'c) outcome" where
  "run_blocks 0 S ssa call type_of consts f bid st = OutOfFuel"
| "run_blocks (Suc n) S ssa call type_of consts f bid st =
     and_then (of_option (get_block bid f)) (\<lambda>block.
     and_then (exec_instrs S ssa call type_of consts (b_instructions block) st) (\<lambda>(locals, globals, ctx).
     and_then (of_option (b_terminator block)) (\<lambda>terminator.
     case terminator of
       Return returns \<Rightarrow> of_option (do {
         outputs \<leftarrow> opt_map (scope_index consts locals) returns;
         (outputs, ctx) \<leftarrow> so_on_return S outputs (f_returns f) ctx;
         Some (outputs, globals, ctx) })
     | Jmp target params \<Rightarrow>
         and_then (of_option (do {
           params \<leftarrow> opt_map (scope_index consts locals) params;
           target_block \<leftarrow> get_block target f;
           (params, ctx) \<leftarrow> so_on_jmp S target params (map snd (b_parameters target_block)) ctx;
           Some (scope_insert_all (zip (get_parameter_values target_block) params) locals, globals, ctx) }))
         (run_blocks n S ssa call type_of consts f target)
     | JmpIf cond if_true if_false \<Rightarrow>
         and_then (of_option (do {
           cond \<leftarrow> scope_index consts locals cond;
           (b, ctx) \<leftarrow> so_expect_constant_bool S cond ctx;
           Some (b, locals, globals, ctx) }))
         (\<lambda>(b, st). run_blocks n S ssa call type_of consts f (if b then if_true else if_false) st))))"

text \<open>A function: the context may answer the call itself; otherwise the entry block runs.\<close>

primrec run_fn ::
  "nat \<Rightarrow> ('v, 'c, 'f) sym_ops \<Rightarrow> 'f hlssa \<Rightarrow> type_info \<Rightarrow> 'v scope \<Rightarrow> ('v, 'c) runner" where
  "run_fn 0 S ssa type_info consts = (\<lambda>fid inputs globals ctx. OutOfFuel)"
| "run_fn (Suc n) S ssa type_info consts = (\<lambda>fid inputs globals ctx.
     and_then (of_option (do {
       f \<leftarrow> get_function fid ssa;
       type_of \<leftarrow> type_info fid;
       entry \<leftarrow> get_entry f;
       ((inputs, call_result), ctx) \<leftarrow>
         so_on_call S fid inputs (map snd (b_parameters entry)) (f_returns f) False ctx;
       Some (f, type_of, entry, inputs, call_result, ctx) }))
     (\<lambda>(f, type_of, entry, inputs, call_result, ctx).
       case call_result of
         Some result \<Rightarrow> Ret (result, globals, ctx)
       | None \<Rightarrow> run_blocks n S ssa (run_fn n S ssa type_info consts) type_of consts f (f_entry_block f)
           (scope_insert_all (zip (get_parameter_values entry) inputs) Map.empty, globals, ctx)))"

definition run ::
  "nat \<Rightarrow> ('v, 'c, 'f) sym_ops \<Rightarrow> 'f hlssa \<Rightarrow> type_info \<Rightarrow> function_id \<Rightarrow> 'v list \<Rightarrow> 'c \<Rightarrow> 'c outcome" where
  "run fuel S ssa type_info entry_point params ctx =
     and_then (of_option (materialize_constants S (s_constants ssa) ctx)) (\<lambda>(consts, ctx).
     and_then (run_fn fuel S ssa type_info consts entry_point params (replicate (num_globals ssa) None) ctx)
       (\<lambda>(_, _, ctx). Ret ctx))"

subsection \<open>More fuel changes nothing\<close>

definition fuel_le :: "'a outcome \<Rightarrow> 'a outcome \<Rightarrow> bool" where
  "fuel_le a b \<longleftrightarrow> a = OutOfFuel \<or> a = b"

definition runner_le :: "('v, 'c) runner \<Rightarrow> ('v, 'c) runner \<Rightarrow> bool" where
  "runner_le c d \<longleftrightarrow> (\<forall>fid inputs globals ctx. fuel_le (c fid inputs globals ctx) (d fid inputs globals ctx))"

lemma fuel_le_refl [simp, intro]: "fuel_le a a"
  by (simp add: fuel_le_def)

lemma fuel_le_and_then:
  assumes "fuel_le a b" "\<And>x. fuel_le (f x) (g x)"
  shows "fuel_le (and_then a f) (and_then b g)"
proof (cases a)
  case (Ret x)
  then show ?thesis using assms(1) assms(2) [of x] by (auto simp: fuel_le_def)
qed (use assms(1) in \<open>auto simp: fuel_le_def\<close>)

lemma exec_call_le:
  "runner_le c d \<Longrightarrow> fuel_le (exec_call S ssa c ty_of consts rs fid as u st) (exec_call S ssa d ty_of consts rs fid as u st)"
  unfolding exec_call_def
  by (cases st) (auto simp: runner_le_def intro!: fuel_le_and_then)

lemma exec_instr_le:
  "runner_le c d \<Longrightarrow> fuel_le (exec_instr S ssa c ty_of consts i st) (exec_instr S ssa d ty_of consts i st)"
  by (auto simp: exec_instr_def exec_call_le split: opcode.split call_target.split)

lemma exec_instrs_le:
  "runner_le c d \<Longrightarrow> fuel_le (exec_instrs S ssa c ty_of consts is st) (exec_instrs S ssa d ty_of consts is st)"
  by (induction "is" arbitrary: st) (auto intro!: fuel_le_and_then exec_instr_le)

lemma run_blocks_le:
  "runner_le c d \<Longrightarrow> n \<le> m \<Longrightarrow>
     fuel_le (run_blocks n S ssa c ty_of consts f bid st) (run_blocks m S ssa d ty_of consts f bid st)"
proof (induction n arbitrary: m bid st)
  case (Suc n)
  then obtain k where m: "m = Suc k" "n \<le> k" by (cases m) auto
  show ?case unfolding m(1) run_blocks.simps
    by (auto intro!: fuel_le_and_then Suc.IH [OF Suc.prems(1) m(2)] exec_instrs_le [OF Suc.prems(1)]
        split: terminator.split)
qed (simp add: fuel_le_def)

lemma run_fn_le: "n \<le> m \<Longrightarrow> runner_le (run_fn n S ssa ti consts) (run_fn m S ssa ti consts)"
proof (induction n arbitrary: m)
  case (Suc n)
  then obtain k where m: "m = Suc k" "n \<le> k" by (cases m) auto
  show ?case unfolding m(1) run_fn.simps runner_le_def
    by (auto intro!: fuel_le_and_then run_blocks_le [OF Suc.IH [OF m(2)] m(2)] split: option.split)
qed (simp add: runner_le_def fuel_le_def)

text \<open>Fuel only decides whether the run is seen to end: a run that returns or panics within some fuel does the
  same within any more.\<close>

theorem run_fuel_irrelevant:
  assumes "run n S ssa ti entry params ctx \<noteq> OutOfFuel" "n \<le> m"
  shows "run m S ssa ti entry params ctx = run n S ssa ti entry params ctx"
proof -
  have "fuel_le (run n S ssa ti entry params ctx) (run m S ssa ti entry params ctx)"
    unfolding run_def
    by (auto intro!: fuel_le_and_then run_fn_le [OF assms(2), unfolded runner_le_def, rule_format])
  then show ?thesis using assms(1) by (simp add: fuel_le_def)
qed

subsection \<open>The contract of a client\<close>

text \<open>What an operation keeps: from a context that satisfies the invariant it leads, if it does not
  panic, to one that does and that extends it, with a result that is valid there.\<close>

definition keeps :: "('c \<Rightarrow> bool) \<Rightarrow> ('c \<Rightarrow> 'c \<Rightarrow> bool) \<Rightarrow> ('c \<Rightarrow> 'a \<Rightarrow> bool) \<Rightarrow> 'c \<Rightarrow> ('a \<times> 'c) option \<Rightarrow> bool" where
  "keeps valid le P c m \<longleftrightarrow> (\<forall>x c'. m = Some (x, c') \<longrightarrow> valid c' \<and> le c c' \<and> P c' x)"

definition keeps_ctx :: "('c \<Rightarrow> bool) \<Rightarrow> ('c \<Rightarrow> 'c \<Rightarrow> bool) \<Rightarrow> 'c \<Rightarrow> 'c option \<Rightarrow> bool" where
  "keeps_ctx valid le c m \<longleftrightarrow> (\<forall>c'. m = Some c' \<longrightarrow> valid c' \<and> le c c')"

fun ok_target :: "('v \<Rightarrow> bool) \<Rightarrow> 'v lookup_target \<Rightarrow> bool" where
  "ok_target P (LtDynRangecheck v) = P v"
| "ok_target P (LtArray v) = P v"
| "ok_target P _ = True"

fun ok_radix :: "('v \<Rightarrow> bool) \<Rightarrow> 'v radix \<Rightarrow> bool" where
  "ok_radix P (RadixDyn v) = P v"
| "ok_radix P RadixBytes = True"

locale sym_client =
  fixes S :: "('v, 'c, 'f) sym_ops"
    and valid :: "'c \<Rightarrow> bool"
    and le :: "'c \<Rightarrow> 'c \<Rightarrow> bool"
    and ok :: "'c \<Rightarrow> 'v \<Rightarrow> bool"
  assumes le_refl: "le c c"
    and le_trans: "le c c' \<Longrightarrow> le c' c'' \<Longrightarrow> le c c''"
    and ok_mono: "le c c' \<Longrightarrow> ok c a \<Longrightarrow> ok c' a"
    and ult: "valid c \<Longrightarrow> ok c a \<Longrightarrow> ok c b \<Longrightarrow> keeps valid le ok c (so_ult S a b c)"
    and slt: "valid c \<Longrightarrow> ok c a \<Longrightarrow> ok c b \<Longrightarrow> keeps valid le ok c (so_slt S a b n c)"
    and eq: "valid c \<Longrightarrow> ok c a \<Longrightarrow> ok c b \<Longrightarrow> keeps valid le ok c (so_eq S a b c)"
    and arith: "valid c \<Longrightarrow> ok c a \<Longrightarrow> ok c b \<Longrightarrow> keeps valid le ok c (so_arith S a b kind t c)"
    and assert_bool: "valid c \<Longrightarrow> ok c a \<Longrightarrow> keeps_ctx valid le c (so_assert_bool S a c)"
    and assert_cmp: "valid c \<Longrightarrow> ok c a \<Longrightarrow> ok c b \<Longrightarrow> keeps_ctx valid le c (so_assert_cmp S ck a b t c)"
    and assert_r1c: "valid c \<Longrightarrow> ok c a \<Longrightarrow> ok c b \<Longrightarrow> ok c d \<Longrightarrow> keeps_ctx valid le c (so_assert_r1c S a b d c)"
    and array_get: "valid c \<Longrightarrow> ok c a \<Longrightarrow> ok c b \<Longrightarrow> keeps valid le ok c (so_array_get S a b t c)"
    and tuple_get: "valid c \<Longrightarrow> ok c a \<Longrightarrow> keeps valid le ok c (so_tuple_get S a n t c)"
    and array_set: "valid c \<Longrightarrow> ok c a \<Longrightarrow> ok c b \<Longrightarrow> ok c d \<Longrightarrow> keeps valid le ok c (so_array_set S a b d t c)"
    and sext: "valid c \<Longrightarrow> ok c a \<Longrightarrow> keeps valid le ok c (so_sext S a n m t c)"
    and bit_range: "valid c \<Longrightarrow> ok c a \<Longrightarrow> keeps valid le ok c (so_bit_range S a n m t c)"
    and cast: "valid c \<Longrightarrow> ok c a \<Longrightarrow> keeps valid le ok c (so_cast S a ct t c)"
    and constrain: "valid c \<Longrightarrow> ok c a \<Longrightarrow> ok c b \<Longrightarrow> ok c d \<Longrightarrow> keeps_ctx valid le c (so_constrain S a b d c)"
    and to_bits: "valid c \<Longrightarrow> ok c a \<Longrightarrow> keeps valid le ok c (so_to_bits S a e n t c)"
    and to_radix: "valid c \<Longrightarrow> ok c a \<Longrightarrow> ok_radix (ok c) rx \<Longrightarrow> keeps valid le ok c (so_to_radix S a rx e n t c)"
    and not_op: "valid c \<Longrightarrow> ok c a \<Longrightarrow> keeps valid le ok c (so_not S a t c)"
    and of_u: "valid c \<Longrightarrow> keeps valid le ok c (so_of_u S n w c)"
    and of_i: "valid c \<Longrightarrow> keeps valid le ok c (so_of_i S n w c)"
    and of_field: "valid c \<Longrightarrow> keeps valid le ok c (so_of_field S f c)"
    and mk_array: "valid c \<Longrightarrow> \<forall>v \<in> set vs. ok c v \<Longrightarrow> keeps valid le ok c (so_mk_array S vs st t c)"
    and mk_tuple: "valid c \<Longrightarrow> \<forall>v \<in> set vs. ok c v \<Longrightarrow> keeps valid le ok c (so_mk_tuple S vs ts c)"
    and alloc: "valid c \<Longrightarrow> keeps valid le ok c (so_alloc S t c)"
    and ptr_write: "valid c \<Longrightarrow> ok c a \<Longrightarrow> ok c b \<Longrightarrow> keeps_ctx valid le c (so_ptr_write S a b c)"
    and ptr_read: "valid c \<Longrightarrow> ok c a \<Longrightarrow> keeps valid le ok c (so_ptr_read S a t c)"
    and expect_constant_bool: "valid c \<Longrightarrow> ok c a \<Longrightarrow> keeps valid le (\<lambda>_ _. True) c (so_expect_constant_bool S a c)"
    and select: "valid c \<Longrightarrow> ok c a \<Longrightarrow> ok c b \<Longrightarrow> ok c d \<Longrightarrow> keeps valid le ok c (so_select S a b d t c)"
    and write_witness: "valid c \<Longrightarrow> ok c a \<Longrightarrow> keeps valid le ok c (so_write_witness S a ot c)"
    and fresh_witness: "valid c \<Longrightarrow> keeps valid le ok c (so_fresh_witness S t c)"
    and value_of: "valid c \<Longrightarrow> ok c a \<Longrightarrow> keeps valid le ok c (so_value_of S a c)"
    and mem_op: "valid c \<Longrightarrow> ok c a \<Longrightarrow> keeps_ctx valid le c (so_mem_op S a rc c)"
    and rangecheck: "valid c \<Longrightarrow> ok c a \<Longrightarrow> keeps_ctx valid le c (so_rangecheck S a n c)"
    and spread: "valid c \<Longrightarrow> ok c a \<Longrightarrow> keeps valid le ok c (so_spread S a n c)"
    and unspread: "valid c \<Longrightarrow> ok c a \<Longrightarrow> keeps valid le (\<lambda>c (x, y). ok c x \<and> ok c y) c (so_unspread S a n c)"
    and on_call: "valid c \<Longrightarrow> \<forall>v \<in> set vs. ok c v \<Longrightarrow> keeps valid le (\<lambda>c (ps, res). (\<forall>v \<in> set ps. ok c v) \<and>
        (case res of None \<Rightarrow> True | Some rs \<Rightarrow> \<forall>v \<in> set rs. ok c v)) c (so_on_call S fid vs ts us u c)"
    and on_return: "valid c \<Longrightarrow> \<forall>v \<in> set vs. ok c v \<Longrightarrow> keeps valid le (\<lambda>c vs. \<forall>v \<in> set vs. ok c v) c (so_on_return S vs ts c)"
    and on_jmp: "valid c \<Longrightarrow> \<forall>v \<in> set vs. ok c v \<Longrightarrow> keeps valid le (\<lambda>c vs. \<forall>v \<in> set vs. ok c v) c (so_on_jmp S bid vs ts c)"
    and lookup: "valid c \<Longrightarrow> ok_target (ok c) lt \<Longrightarrow> \<forall>v \<in> set vs. ok c v \<Longrightarrow> ok c a \<Longrightarrow> keeps_ctx valid le c (so_lookup S lt vs a c)"
    and dlookup: "valid c \<Longrightarrow> ok_target (ok c) lt \<Longrightarrow> \<forall>v \<in> set vs. ok c v \<Longrightarrow> ok c a \<Longrightarrow> keeps_ctx valid le c (so_dlookup S lt vs a c)"
    and todo: "valid c \<Longrightarrow> keeps valid le (\<lambda>c vs. \<forall>v \<in> set vs. ok c v) c (so_todo S str ts c)"
    and slice_push: "valid c \<Longrightarrow> ok c a \<Longrightarrow> \<forall>v \<in> set vs. ok c v \<Longrightarrow> keeps valid le ok c (so_slice_push S a vs dir c)"
    and slice_len: "valid c \<Longrightarrow> ok c a \<Longrightarrow> keeps valid le ok c (so_slice_len S a c)"
    and on_guard: "valid c \<Longrightarrow> ok c a \<Longrightarrow> \<forall>v \<in> set vs. ok c v \<Longrightarrow>
        keeps valid le (\<lambda>c vs. \<forall>v \<in> set vs. ok c v) c (so_on_guard S inner a vs ts c)"
begin

definition scope_ok :: "'c \<Rightarrow> 'v scope \<Rightarrow> bool" where
  "scope_ok c sc \<longleftrightarrow> (\<forall>v x. sc v = Some x \<longrightarrow> ok c x)"

definition globals_ok :: "'c \<Rightarrow> 'v option list \<Rightarrow> bool" where
  "globals_ok c gs \<longleftrightarrow> (\<forall>x. Some x \<in> set gs \<longrightarrow> ok c x)"

definition state_ok :: "'v scope \<Rightarrow> ('v, 'c) exec_state \<Rightarrow> bool" where
  "state_ok consts = (\<lambda>(locals, gs, c). valid c \<and> scope_ok c consts \<and> scope_ok c locals \<and> globals_ok c gs)"

lemma scope_ok_mono: "le c d \<Longrightarrow> scope_ok c sc \<Longrightarrow> scope_ok d sc"
  using ok_mono by (auto simp: scope_ok_def)

lemma globals_ok_mono: "le c d \<Longrightarrow> globals_ok c gs \<Longrightarrow> globals_ok d gs"
  using ok_mono by (auto simp: globals_ok_def)

lemma scope_index_ok: "scope_ok c consts \<Longrightarrow> scope_ok c locals \<Longrightarrow> scope_index consts locals v = Some x \<Longrightarrow> ok c x"
  by (auto simp: scope_index_def scope_ok_def split: option.splits)

lemma scope_indices_ok:
  "scope_ok c consts \<Longrightarrow> scope_ok c locals \<Longrightarrow> opt_map (scope_index consts locals) vs = Some xs \<Longrightarrow>
     \<forall>x \<in> set xs. ok c x"
  using scope_index_ok by (induction vs arbitrary: xs) (auto simp: bind_Some_iff)

lemma scope_insert_ok: "scope_ok c sc \<Longrightarrow> ok c x \<Longrightarrow> scope_ok c (scope_insert v x sc)"
  by (auto simp: scope_ok_def scope_insert_def)

lemma scope_insert_all_ok:
  "scope_ok c sc \<Longrightarrow> \<forall>(v, x) \<in> set vxs. ok c x \<Longrightarrow> scope_ok c (scope_insert_all vxs sc)"
  unfolding scope_insert_all_def
  by (induction vxs arbitrary: sc) (auto simp: scope_insert_ok)

lemma zip_ok: "\<forall>x \<in> set xs. ok c x \<Longrightarrow> \<forall>(v, x) \<in> set (zip vs xs). ok c x"
  by (auto dest: set_zip_rightD)

text \<open>The state a step leads to is valid and extends the old one.\<close>

definition step_ok :: "'v scope \<Rightarrow> ('v, 'c) exec_state \<Rightarrow> ('v, 'c) exec_state option \<Rightarrow> bool" where
  "step_ok consts st m \<longleftrightarrow> (\<forall>st'. m = Some st' \<longrightarrow> state_ok consts st' \<and> le (snd (snd st)) (snd (snd st')))"

lemma step_okI: "state_ok consts st' \<Longrightarrow> le (snd (snd st)) (snd (snd st')) \<Longrightarrow> step_ok consts st (Some st')"
  by (simp add: step_ok_def)

lemma step_ok_None [simp]: "step_ok consts st None"
  by (simp add: step_ok_def)

lemma step_ok_bind: "(\<And>x. m = Some x \<Longrightarrow> step_ok consts st (f x)) \<Longrightarrow> step_ok consts st (Option.bind m f)"
  by (cases m) auto

lemma put_result_ok:
  "state_ok consts st \<Longrightarrow> keeps valid le ok (snd (snd st)) m \<Longrightarrow> step_ok consts st (put_result r st m)"
  by (cases st)
    (auto simp: put_result_def step_ok_def keeps_def state_ok_def bind_Some_iff
      intro: scope_ok_mono globals_ok_mono scope_insert_ok)

lemma put_ctx_ok:
  "state_ok consts st \<Longrightarrow> keeps_ctx valid le (snd (snd st)) m \<Longrightarrow> step_ok consts st (put_ctx st m)"
  by (cases st)
    (auto simp: put_ctx_def step_ok_def keeps_ctx_def state_ok_def bind_Some_iff
      intro: scope_ok_mono globals_ok_mono)

lemma exec_compute_ok: "state_ok consts st \<Longrightarrow> step_ok consts st (exec_compute S type_of consts instr st)"
proof -
  assume st: "state_ok consts st"
  obtain locals globals ctx where e: "st = (locals, globals, ctx)" by (cases st) auto
  have v: "valid ctx" and sc: "scope_index consts locals u = Some x \<Longrightarrow> ok ctx x" for u x
    using st scope_index_ok by (auto simp: e state_ok_def)
  have rx: "scope_radix (scope_index consts locals) r = Some r' \<Longrightarrow> ok_radix (ok ctx) r'" for r r'
    using sc by (cases r) auto
  note p = put_result_ok [OF st, unfolded e, simplified]
  show ?thesis
  proof (cases instr)
    case (OpUnspread r_odd r_even a bits)
    have "step_ok consts st (do {
         ((odd_val, even_val), ctx) \<leftarrow> so_unspread S x bits ctx;
         Some (scope_insert r_even even_val (scope_insert r_odd odd_val locals), globals, ctx) })"
      if "ok ctx x" for x
      using st unspread [OF v that, of bits]
      by (auto simp: e step_ok_def keeps_def state_ok_def bind_Some_iff
        intro!: scope_insert_ok intro: scope_ok_mono globals_ok_mono)
    then show ?thesis unfolding OpUnspread e exec_compute_def
      by (simp only: Let_def prod.case opcode.case) (rule step_ok_bind, blast intro: sc)
  qed ((simp only: exec_compute_def e opcode.case prod.case Let_def step_ok_None; (intro step_ok_bind p)?;
      auto intro!: ult slt eq arith cast sext bit_range not_op
      select to_bits to_radix spread value_of v intro: sc rx split: cmp_kind.split ty.split)+)
qed

lemma globals_upd_ok:
  "globals_ok c gs \<Longrightarrow> upd_opt gs i x = Some gs' \<Longrightarrow> (\<And>y. x = Some y \<Longrightarrow> ok c y) \<Longrightarrow> globals_ok c gs'"
  by (auto simp: globals_ok_def dest!: subsetD [OF set_update_subset_insert])

lemma exec_memory_ok: "state_ok consts st \<Longrightarrow> step_ok consts st (exec_memory S type_of consts instr st)"
proof -
  assume st: "state_ok consts st"
  obtain locals globals ctx where e: "st = (locals, globals, ctx)" by (cases st) auto
  have v: "valid ctx" and so: "scope_ok ctx consts" "scope_ok ctx locals" and g: "globals_ok ctx globals"
    and sc: "scope_index consts locals u = Some x \<Longrightarrow> ok ctx x" for u x
    using st scope_index_ok by (auto simp: e state_ok_def)
  note scs = scope_indices_ok [OF so]
  have insert: "step_ok consts (locals, globals, ctx) (Some (scope_insert r x locals, globals, ctx))" if "ok ctx x" for r x
    using st that le_refl by (auto simp: e step_ok_def state_ok_def intro: scope_insert_ok)
  have global: "step_ok consts (locals, globals, ctx) (Some (locals, gs, ctx))" if "globals_ok ctx gs" for gs
    using st that le_refl by (auto simp: e step_ok_def state_ok_def)
  have in_globals: "nth_opt globals i = Some (Some x) \<Longrightarrow> ok ctx x" for i x
    using g nth_mem [of i globals] by (auto simp: globals_ok_def)
  note p = put_result_ok [OF st, unfolded e, simplified] put_ctx_ok [OF st, unfolded e, simplified]
  show ?thesis
  proof (cases instr)
    case (OpReadGlobal r offset t)
    then show ?thesis unfolding e exec_memory_def using in_globals
      by (auto simp del: nth_opt_Some intro!: step_ok_bind insert)
  next
    case (OpInitGlobal i x)
    then show ?thesis unfolding e exec_memory_def
      by (auto simp del: upd_opt_Some intro!: step_ok_bind global globals_upd_ok [OF g] dest: sc)
  next
    case (OpDropGlobal i)
    then show ?thesis unfolding e exec_memory_def
      by (auto simp del: upd_opt_Some intro!: step_ok_bind global globals_upd_ok [OF g])
  qed ((simp only: exec_memory_def e opcode.case prod.case Let_def step_ok_None; (intro step_ok_bind p)?;
      auto intro!: mk_array mk_tuple alloc ptr_write ptr_read array_get
      array_set slice_push slice_len tuple_get mem_op v intro: sc bspec [OF scs])+)
qed

lemma put_results_ok:
  assumes "state_ok consts (locals, globals, ctx)"
    and "keeps valid le (\<lambda>c vs. \<forall>v \<in> set vs. ok c v) ctx m"
  shows "step_ok consts (locals, globals, ctx) (do {
    (vals, ctx) \<leftarrow> m;
    ensure (P vals);
    Some (scope_insert_all (zip rs vals) locals, globals, ctx) })"
  using assms
  by (auto simp: step_ok_def keeps_def state_ok_def bind_Some_iff
    intro!: scope_insert_all_ok zip_ok intro: scope_ok_mono globals_ok_mono)

lemma exec_constrain_ok: "state_ok consts st \<Longrightarrow> step_ok consts st (exec_constrain S type_of consts instr st)"
proof -
  assume st: "state_ok consts st"
  obtain locals globals ctx where e: "st = (locals, globals, ctx)" by (cases st) auto
  have v: "valid ctx" and so: "scope_ok ctx consts" "scope_ok ctx locals"
    and sc: "scope_index consts locals u = Some x \<Longrightarrow> ok ctx x" for u x
    using st scope_index_ok by (auto simp: e state_ok_def)
  note scs = scope_indices_ok [OF so]
  have tg: "scope_target (scope_index consts locals) t = Some t' \<Longrightarrow> ok_target (ok ctx) t'" for t t'
    using sc by (cases t) auto
  have ww: "keeps_ctx valid le ctx (map_option snd (so_write_witness S x None ctx))" if "ok ctx x" for x
    using write_witness [OF v that] by (auto simp: keeps_def keeps_ctx_def)
  note p = put_result_ok [OF st, unfolded e, simplified] put_ctx_ok [OF st, unfolded e, simplified]
  show ?thesis
  proof (cases instr)
    case (OpTodo payload rs ts)
    then show ?thesis unfolding e exec_constrain_def
      using put_results_ok [OF st [unfolded e] todo [OF v, of payload ts], where P = "\<lambda>vs. length vs = length rs"]
      by simp
  next
    case (OpWriteWitness r a t)
    show ?thesis unfolding e exec_constrain_def OpWriteWitness
      by (simp only: Let_def prod.case opcode.case)
        (rule step_ok_bind, cases r, auto intro!: step_ok_bind p write_witness ww v intro: sc)
  next
    case (OpGuard c inner)
    have g: "step_ok consts (locals, globals, ctx) (do {
        (results, ctx) \<leftarrow> so_on_guard S inner a vs ts ctx;
        Some (scope_insert_all (zip rs results) locals, globals, ctx) })"
      if "ok ctx a" "\<forall>v \<in> set vs. ok ctx v" for a vs ts rs
      using put_results_ok [OF st [unfolded e] on_guard [OF v that], where P = "\<lambda>_. True"] by simp
    show ?thesis unfolding e exec_constrain_def OpGuard
      by (simp only: Let_def prod.case opcode.case)
        (rule step_ok_bind, rule step_ok_bind, rule step_ok_bind, rule g, erule sc, erule scs)
  qed ((simp only: exec_constrain_def e opcode.case prod.case Let_def step_ok_None; (intro step_ok_bind p)?;
      auto intro!: assert_r1c fresh_witness constrain
      assert_bool assert_cmp rangecheck lookup dlookup v intro: sc tg bspec [OF scs])+)
qed

lemma exec_simple_ok: "state_ok consts st \<Longrightarrow> step_ok consts st (exec_simple S type_of consts instr st)"
  unfolding exec_simple_def by (simp add: exec_compute_ok exec_memory_ok exec_constrain_ok)

text \<open>The same for outcomes, and for what runs a function.\<close>

definition result_ok :: "'c \<Rightarrow> 'v list \<times> 'v option list \<times> 'c \<Rightarrow> bool" where
  "result_ok c = (\<lambda>(vs, gs, _). valid c \<and> (\<forall>v \<in> set vs. ok c v) \<and> globals_ok c gs)"

definition runner_ok :: "'v scope \<Rightarrow> ('v, 'c) runner \<Rightarrow> bool" where
  "runner_ok consts call \<longleftrightarrow> (\<forall>fid vs gs c. valid c \<longrightarrow> scope_ok c consts \<longrightarrow> (\<forall>v \<in> set vs. ok c v) \<longrightarrow> globals_ok c gs \<longrightarrow>
     (\<forall>r. call fid vs gs c = Ret r \<longrightarrow> result_ok (snd (snd r)) r \<and> le c (snd (snd r))))"

definition step_out :: "'v scope \<Rightarrow> ('v, 'c) exec_state \<Rightarrow> ('v, 'c) exec_state outcome \<Rightarrow> bool" where
  "step_out consts st m \<longleftrightarrow> (\<forall>st'. m = Ret st' \<longrightarrow> state_ok consts st' \<and> le (snd (snd st)) (snd (snd st')))"

lemma step_outD: "step_out consts st m \<Longrightarrow> m = Ret st' \<Longrightarrow> state_ok consts st' \<and> le (snd (snd st)) (snd (snd st'))"
  unfolding step_out_def by blast

lemma step_out_Panic: "step_out consts st Panic"
  by (simp add: step_out_def)

lemma nth_opts_ok: "\<forall>v \<in> set vs. ok c v \<Longrightarrow> opt_map (nth_opt vs) is = Some xs \<Longrightarrow> \<forall>x \<in> set xs. ok c x"
  by (induction "is" arbitrary: xs) (auto simp: bind_Some_iff)

lemma exec_call_ok:
  assumes "runner_ok consts call" "state_ok consts st"
  shows "step_out consts st (exec_call S ssa call type_of consts rs fid args unconstrained st)"
proof -
  obtain locals globals ctx where e: "st = (locals, globals, ctx)" by (cases st) auto
  have v: "valid ctx" and so: "scope_ok ctx consts" "scope_ok ctx locals" and g: "globals_ok ctx globals"
    using assms(2) by (auto simp: e state_ok_def)
  show ?thesis unfolding step_out_def
  proof (intro allI impI)
    fix st' assume "exec_call S ssa call type_of consts rs fid args unconstrained st = Ret st'"
    then obtain params outputs gs c vals where
      ps: "opt_map (scope_index consts locals) args = Some params"
      and r: "(if unconstrained
          then of_option (do {
            f \<leftarrow> get_function fid ssa;
            param_types \<leftarrow> get_param_types f;
            result_types \<leftarrow> opt_map type_of rs;
            ((_, res), ctx) \<leftarrow> so_on_call S fid params param_types result_types True ctx;
            outputs \<leftarrow> res;
            Some (outputs, globals, ctx) })
          else call fid params globals ctx) = Ret (outputs, gs, c)"
      and vals: "opt_map (nth_opt outputs) [0..<length rs] = Some vals"
      and st': "st' = (scope_insert_all (zip rs vals) locals, gs, c)"
      unfolding exec_call_def e by (auto simp: and_then_Ret bind_Some_iff)
    have ok: "\<forall>v \<in> set params. ok ctx v" using scope_indices_ok [OF so ps] .
    have "result_ok c (outputs, gs, c) \<and> le ctx c"
    proof (cases unconstrained)
      case True
      with r obtain ts us ps where h: "so_on_call S fid params ts us True ctx = Some ((ps, Some outputs), c)"
        and "gs = globals" by (auto simp: bind_Some_iff)
      then show ?thesis using on_call [OF v ok, of fid ts us True] globals_ok_mono [OF _ g]
        by (auto simp: keeps_def result_ok_def)
    next
      case False
      with r have "call fid params globals ctx = Ret (outputs, gs, c)" by simp
      then show ?thesis using assms(1) v ok g so unfolding runner_ok_def by fastforce
    qed
    then show "state_ok consts st' \<and> le (snd (snd st)) (snd (snd st'))"
      using so scope_ok_mono nth_opts_ok [OF _ vals]
      by (auto simp: e st' state_ok_def result_ok_def intro!: scope_insert_all_ok zip_ok)
  qed
qed

lemma exec_instr_ok:
  assumes "runner_ok consts call" "state_ok consts st"
  shows "step_out consts st (exec_instr S ssa call type_of consts instr st)"
proof -
  have simple: "step_out consts st (of_option (exec_simple S type_of consts instr st))"
    using exec_simple_ok [OF assms(2), of type_of instr] by (auto simp: step_ok_def step_out_def)
  show ?thesis
  proof (cases instr)
    case (OpCall rs target args unconstrained)
    show ?thesis
      by (cases target)
        (simp_all only: OpCall exec_instr_def opcode.case call_target.case exec_call_ok [OF assms] step_out_Panic)
  qed (use simple in \<open>(simp only: exec_instr_def opcode.case)+\<close>)
qed

lemma exec_instrs_ok:
  assumes "runner_ok consts call"
  shows "state_ok consts st \<Longrightarrow> step_out consts st (exec_instrs S ssa call type_of consts is st)"
proof (induction "is" arbitrary: st)
  case (Cons i "is")
  show ?case unfolding step_out_def
  proof (intro allI impI)
    fix st' assume "exec_instrs S ssa call type_of consts (i # is) st = Ret st'"
    then obtain st1 where s: "exec_instr S ssa call type_of consts i st = Ret st1"
      "exec_instrs S ssa call type_of consts is st1 = Ret st'" by (auto simp: and_then_Ret)
    show "state_ok consts st' \<and> le (snd (snd st)) (snd (snd st'))"
    proof -
      have 1: "state_ok consts st1" "le (snd (snd st)) (snd (snd st1))"
        using step_outD [OF exec_instr_ok [OF assms Cons.prems] s(1)] by simp_all
      then show ?thesis using step_outD [OF Cons.IH [OF 1(1)] s(2)] le_trans [OF 1(2)] by simp
    qed
  qed
qed (auto simp: step_out_def le_refl)

lemma run_blocks_ok:
  assumes "runner_ok consts call"
  shows "state_ok consts st \<Longrightarrow> run_blocks n S ssa call type_of consts f bid st = Ret r \<Longrightarrow>
    result_ok (snd (snd r)) r \<and> le (snd (snd st)) (snd (snd r))"
proof (induction n arbitrary: bid st)
  case (Suc n)
  from Suc.prems(2) obtain block locals globals ctx tmn where
    b: "get_block bid f = Some block"
    and i: "exec_instrs S ssa call type_of consts (b_instructions block) st = Ret (locals, globals, ctx)"
    and tm: "b_terminator block = Some tmn"
    and rest: "(case tmn of
       Return returns \<Rightarrow> of_option (do {
         outputs \<leftarrow> opt_map (scope_index consts locals) returns;
         (outputs, ctx) \<leftarrow> so_on_return S outputs (f_returns f) ctx;
         Some (outputs, globals, ctx) })
     | Jmp target params \<Rightarrow>
         and_then (of_option (do {
           params \<leftarrow> opt_map (scope_index consts locals) params;
           target_block \<leftarrow> get_block target f;
           (params, ctx) \<leftarrow> so_on_jmp S target params (map snd (b_parameters target_block)) ctx;
           Some (scope_insert_all (zip (get_parameter_values target_block) params) locals, globals, ctx) }))
         (run_blocks n S ssa call type_of consts f target)
     | JmpIf cond if_true if_false \<Rightarrow>
         and_then (of_option (do {
           cond \<leftarrow> scope_index consts locals cond;
           (b, ctx) \<leftarrow> so_expect_constant_bool S cond ctx;
           Some (b, locals, globals, ctx) }))
         (\<lambda>(b, st). run_blocks n S ssa call type_of consts f (if b then if_true else if_false) st)) = Ret r"
    by (auto simp: and_then_Ret)
  have "state_ok consts (locals, globals, ctx)" and le1: "le (snd (snd st)) ctx"
    using step_outD [OF exec_instrs_ok [OF assms Suc.prems(1)] i] by simp_all
  then have v: "valid ctx" and so: "scope_ok ctx consts" "scope_ok ctx locals" and g: "globals_ok ctx globals"
    by (auto simp: state_ok_def)
  note scs = scope_indices_ok [OF so] and sc = scope_index_ok [OF so]
  show ?case
  proof (cases tmn)
    case (Return returns)
    with rest obtain vs vs' c where h: "opt_map (scope_index consts locals) returns = Some vs"
      "so_on_return S vs (f_returns f) ctx = Some (vs', c)" "r = (vs', globals, c)"
      by (auto simp: bind_Some_iff)
    then show ?thesis using on_return [OF v scs [OF h(1)], of "f_returns f"] globals_ok_mono [OF _ g] le_trans [OF le1]
      by (auto simp: keeps_def result_ok_def)
  next
    case (Jmp target args)
    with rest obtain vs vs' ps ts c where h: "opt_map (scope_index consts locals) args = Some vs"
      "so_on_jmp S target vs ts ctx = Some (vs', c)"
      "run_blocks n S ssa call type_of consts f target
        (scope_insert_all (zip ps vs') locals, globals, c) = Ret r"
      by (clarsimp simp: and_then_Ret bind_Some_iff)
    have k: "valid c" "le ctx c" "\<forall>v \<in> set vs'. ok c v"
      using on_jmp [OF v scs [OF h(1)], of target ts] h(2) by (auto simp: keeps_def)
    then have "state_ok consts (scope_insert_all (zip ps vs') locals, globals, c)"
      using so g scope_ok_mono globals_ok_mono by (auto simp: state_ok_def intro!: scope_insert_all_ok zip_ok)
    then show ?thesis using Suc.IH h(3) le_trans [OF le1 le_trans [OF k(2)]] by fastforce
  next
    case (JmpIf cond if_true if_false)
    with rest obtain x b c where h: "scope_index consts locals cond = Some x"
      "so_expect_constant_bool S x ctx = Some (b, c)"
      "run_blocks n S ssa call type_of consts f (if b then if_true else if_false) (locals, globals, c) = Ret r"
      by (auto simp: and_then_Ret bind_Some_iff)
    have k: "valid c" "le ctx c"
      using expect_constant_bool [OF v sc [OF h(1)]] h(2) by (auto simp: keeps_def)
    then have "state_ok consts (locals, globals, c)"
      using so g scope_ok_mono globals_ok_mono by (auto simp: state_ok_def)
    then show ?thesis using Suc.IH h(3) le_trans [OF le1 le_trans [OF k(2)]] by fastforce
  qed
qed simp

lemma runner_okD:
  "runner_ok consts call \<Longrightarrow> call fid vs gs c = Ret r \<Longrightarrow> valid c \<Longrightarrow> scope_ok c consts \<Longrightarrow> \<forall>v \<in> set vs. ok c v \<Longrightarrow>
     globals_ok c gs \<Longrightarrow> result_ok (snd (snd r)) r \<and> le c (snd (snd r))"
  unfolding runner_ok_def by blast

lemma run_fn_ok: "runner_ok consts (run_fn n S ssa ti consts)"
proof (induction n)
  case (Suc n)
  show ?case unfolding runner_ok_def
  proof (intro allI impI)
    fix fid vs gs c r
    assume c: "valid c" "scope_ok c consts" and vs: "\<forall>v \<in> set vs. ok c v" and gs: "globals_ok c gs"
      and "run_fn (Suc n) S ssa ti consts fid vs gs c = Ret r"
    then obtain f type_of vars ts ps res c' where
      h: "so_on_call S fid vs ts (f_returns f) False c = Some ((ps, res), c')"
      and r: "(case res of Some result \<Rightarrow> Ret (result, gs, c')
         | None \<Rightarrow> run_blocks n S ssa (run_fn n S ssa ti consts) type_of consts f (f_entry_block f)
           (scope_insert_all (zip vars ps) Map.empty, gs, c')) = Ret r"
      by (clarsimp simp: and_then_Ret bind_Some_iff)
    have k: "valid c'" "le c c'" "\<forall>v \<in> set ps. ok c' v" "res = Some rs \<Longrightarrow> \<forall>v \<in> set rs. ok c' v" for rs
      using on_call [OF c(1) vs, of fid ts "f_returns f" False] h
      by (auto simp: keeps_def)
    have g': "globals_ok c' gs" using globals_ok_mono [OF k(2) gs] .
    show "result_ok (snd (snd r)) r \<and> le c (snd (snd r))"
    proof (cases res)
      case None
      have "state_ok consts (scope_insert_all (zip vars ps) Map.empty, gs, c')"
        using k(1,3) g' scope_ok_mono [OF k(2) c(2)] scope_insert_all_ok [of c' Map.empty "zip vars ps"] zip_ok [of ps c' vars]
        by (simp add: state_ok_def) (simp add: scope_ok_def)
      then show ?thesis using run_blocks_ok [OF Suc] r None le_trans [OF k(2)] by fastforce
    next
      case (Some rs)
      then show ?thesis using r k g' by (auto simp: result_ok_def)
    qed
  qed
qed (simp add: runner_ok_def)

lemma materialize_ok:
  assumes "valid c" "materialize_constants S cs c = Some (consts, c')"
  shows "valid c' \<and> le c c' \<and> scope_ok c' consts"
proof -
  let ?P = "\<lambda>(consts, d). valid d \<and> le c d \<and> scope_ok d consts"
  have "?P (consts, c')"
  proof (rule opt_fold_inv [OF assms(2) [unfolded materialize_constants_def]])
    show "?P (Map.empty, c)" using assms(1) le_refl by (simp add: scope_ok_def)
    fix x s s'
    assume p: "?P s" and f: "(case x of (vid, cv) \<Rightarrow> \<lambda>(consts, ctx). do {
       (v, ctx) \<leftarrow> constant_value S cv ctx;
       Some (consts(vid \<mapsto> v), ctx) }) s = Some s'"
    obtain vid cv consts0 d where x: "x = (vid, cv)" "s = (consts0, d)" by (cases x, cases s) blast
    have f': "Option.bind (constant_value S cv d) (\<lambda>(v, ctx). Some (consts0(vid \<mapsto> v), ctx)) = Some s'"
      using f by (simp only: x prod.case)
    obtain v d' where m: "constant_value S cv d = Some (v, d')"
      using f' by (cases "constant_value S cv d") auto
    have s': "s' = (consts0(vid \<mapsto> v), d')" using f' by (simp add: m)
    have d: "valid d" "le c d" "scope_ok d consts0" using p by (simp_all add: x(2))
    have "keeps valid le ok d (constant_value S cv d)"
      using of_u [OF d(1)] of_i [OF d(1)] of_field [OF d(1)] by (cases cv) (simp_all add: keeps_def)
    then have "valid d' \<and> le d d' \<and> ok d' v" using m by (simp add: keeps_def)
    moreover note d(2,3)
    ultimately show "?P s'"
      using le_trans [of c d d'] scope_insert_ok [OF scope_ok_mono [of d d' consts0], of v vid]
      by (simp add: s' scope_insert_def)
  qed
  then show ?thesis by simp
qed

lemma run_ok:
  assumes "valid c" "\<forall>v \<in> set params. ok c v" "run n S ssa ti entry params c = Ret c'"
  shows "valid c' \<and> le c c'"
proof -
  from assms(3) obtain cs d vs gs where h: "materialize_constants S (s_constants ssa) c = Some (cs, d)"
    "run_fn n S ssa ti cs entry params (replicate (num_globals ssa) None) d = Ret (vs, gs, c')"
    unfolding run_def by (auto simp: and_then_Ret)
  have d: "valid d" "le c d" "scope_ok d cs" using materialize_ok [OF assms(1) h(1)] by auto
  have "\<forall>v \<in> set params. ok d v" "globals_ok d (replicate (num_globals ssa) None)"
    using assms(2) ok_mono [OF d(2)] by (auto simp: globals_ok_def)
  then show ?thesis using runner_okD [OF run_fn_ok h(2) d(1,3)] le_trans [OF d(2)] by (auto simp: result_ok_def)
qed

end

end
