(* ===== verification/Flow_Analysis.thy ===== *)
theory Flow_Analysis
  imports HL_Opcodes
begin

text \<open>
  Control flow graphs, dominance and the call graph
  (\<^verbatim>\<open>compiler/src/compiler/analysis/flow_analysis.rs\<close>). A petgraph \<^verbatim>\<open>DiGraph\<close> with unit nodes is the
  number of its nodes and its edges in order of insertion; nodes are numbered from 0. The edges of a node are listed the newest first. Dominator trees
  and the depth-first post-order are computed by petgraph: they are the parameter \<open>graph_algos\<close>. What
  the development shows is that the numbering computed here decides ancestry in the dominator tree, and
  what the graphs say about the program.
\<close>

subsection \<open>Graphs\<close>

datatype jump_type = JtEntry | JtJmp | JtJmpIf | JtReturn

record 'e digraph =
  dg_nodes :: nat
  dg_edges :: "(nat \<times> nat \<times> 'e) list"

definition dg_empty :: "'e digraph" where
  "dg_empty = \<lparr>dg_nodes = 0, dg_edges = []\<rparr>"

definition add_node :: "'e digraph \<Rightarrow> nat \<times> 'e digraph" where
  "add_node g = (dg_nodes g, g\<lparr>dg_nodes := dg_nodes g + 1\<rparr>)"

definition add_edge :: "nat \<Rightarrow> nat \<Rightarrow> 'e \<Rightarrow> 'e digraph \<Rightarrow> 'e digraph" where
  "add_edge u v e g = g\<lparr>dg_edges := dg_edges g @ [(u, v, e)]\<rparr>"

definition dg_reverse :: "'e digraph \<Rightarrow> 'e digraph" where
  "dg_reverse g = g\<lparr>dg_edges := map (\<lambda>(u, v, e). (v, u, e)) (dg_edges g)\<rparr>"

definition in_edges :: "nat \<Rightarrow> 'e digraph \<Rightarrow> (nat \<times> 'e) list" where
  "in_edges v g = rev (map (\<lambda>(u, _, e). (u, e)) (filter (\<lambda>(_, w, _). w = v) (dg_edges g)))"

definition out_edges :: "nat \<Rightarrow> 'e digraph \<Rightarrow> (nat \<times> 'e) list" where
  "out_edges v g = rev (map (\<lambda>(_, w, e). (w, e)) (filter (\<lambda>(u, _, _). u = v) (dg_edges g)))"

text \<open>The third-party algorithms: the dominator tree of a graph from a root, as the immediate dominator of
  a node and the nodes that a node immediately dominates; the nodes in depth-first post-order and in
  breadth-first order from a start.\<close>

record dominators =
  immediate_dominator :: "nat \<Rightarrow> nat option"
  immediately_dominated_by :: "nat \<Rightarrow> nat list"

record graph_algos =
  simple_fast :: "jump_type digraph \<Rightarrow> nat \<Rightarrow> dominators"
  dfs_post_order :: "unit digraph \<Rightarrow> nat \<Rightarrow> nat list"
  bfs_order :: "jump_type digraph \<Rightarrow> nat \<Rightarrow> nat list"

subsection \<open>Dominance\<close>

text \<open>The state of the traversal of the dominator tree: the two orders and the positions in them.\<close>

record trav =
  tv_pre :: "nat list"
  tv_post :: "nat list"
  tv_pre_map :: "(nat \<times> nat) list"
  tv_post_map :: "(nat \<times> nat) list"

definition trav_empty :: trav where
  "trav_empty = \<lparr>tv_pre = [], tv_post = [], tv_pre_map = [], tv_post_map = []\<rparr>"

definition visit_pre :: "nat \<Rightarrow> trav \<Rightarrow> trav" where
  "visit_pre v t = t\<lparr>tv_pre_map := AList.update v (length (tv_pre t)) (tv_pre_map t), tv_pre := tv_pre t @ [v]\<rparr>"

definition visit_post :: "nat \<Rightarrow> trav \<Rightarrow> trav" where
  "visit_post v t =
     t\<lparr>tv_post_map := AList.update v (length (tv_post t)) (tv_post_map t), tv_post := tv_post t @ [v]\<rparr>"

text \<open>The recursion goes down the tree; the fuel bounds its depth.\<close>

fun compute_dominator_traversals :: "nat \<Rightarrow> dominators \<Rightarrow> nat \<Rightarrow> trav \<Rightarrow> trav option" where
  "compute_dominator_traversals 0 doms entry t = None"
| "compute_dominator_traversals (Suc n) doms entry t = do {
     t \<leftarrow> opt_fold (\<lambda>child t. if entry = child then Some t else compute_dominator_traversals n doms child t)
            (immediately_dominated_by doms entry) (visit_pre entry t);
     Some (visit_post entry t) }"

record cfg_data =
  cd_cfg :: "jump_type digraph"
  cd_dominators :: dominators
  cd_node_dominator_post_order :: "(nat \<times> nat) list"
  cd_dominator_pre_order :: "nat list"
  cd_node_dominator_pre_order :: "(nat \<times> nat) list"

definition from_graph :: "graph_algos \<Rightarrow> jump_type digraph \<Rightarrow> nat \<Rightarrow> cfg_data option" where
  "from_graph A cfg entry = do {
     let doms = simple_fast A cfg entry;
     t \<leftarrow> compute_dominator_traversals (dg_nodes cfg + 1) doms entry trav_empty;
     Some \<lparr>cd_cfg = cfg, cd_dominators = doms, cd_node_dominator_post_order = tv_post_map t,
           cd_dominator_pre_order = tv_pre t, cd_node_dominator_pre_order = tv_pre_map t\<rparr> }"

definition dominates_node :: "cfg_data \<Rightarrow> nat \<Rightarrow> nat \<Rightarrow> bool" where
  "dominates_node d a b =
     (case map_of (cd_node_dominator_pre_order d) a of None \<Rightarrow> False | Some a_pre \<Rightarrow>
     (case map_of (cd_node_dominator_pre_order d) b of None \<Rightarrow> False | Some b_pre \<Rightarrow>
     (case map_of (cd_node_dominator_post_order d) a of None \<Rightarrow> False | Some a_post \<Rightarrow>
     (case map_of (cd_node_dominator_post_order d) b of None \<Rightarrow> False | Some b_post \<Rightarrow>
        a_pre \<le> b_pre \<and> a_post \<ge> b_post))))"

definition dominance_frontier_node :: "cfg_data \<Rightarrow> nat \<Rightarrow> nat list" where
  "dominance_frontier_node d node =
     filter (\<lambda>candidate. \<not> dominates_node d node candidate \<and>
        list_ex (\<lambda>(p, _). dominates_node d node p) (in_edges candidate (cd_cfg d)))
       [0..<dg_nodes (cd_cfg d)]"

subsection \<open>The control flow graph of a function\<close>

record cfg_builder =
  cb_cfg :: "jump_type digraph"
  cb_block_to_node :: "(block_id \<times> nat) list"
  cb_node_to_block :: "(nat \<times> block_id) list"
  cb_entry_node :: nat
  cb_return_node :: nat

definition cfg_builder_new :: cfg_builder where
  "cfg_builder_new = (
     let (entry_node, cfg) = add_node dg_empty; (return_node, cfg) = add_node cfg in
     \<lparr>cb_cfg = cfg, cb_block_to_node = [], cb_node_to_block = [], cb_entry_node = entry_node,
      cb_return_node = return_node\<rparr>)"

text \<open>\<^verbatim>\<open>entry(..).or_insert_with(..)\<close> followed by the insertion into the other map.\<close>

definition block_node :: "block_id \<Rightarrow> cfg_builder \<Rightarrow> nat \<times> cfg_builder" where
  "block_node b c = (case map_of (cb_block_to_node c) b of
     Some node \<Rightarrow> (node, c\<lparr>cb_node_to_block := AList.update node b (cb_node_to_block c)\<rparr>)
   | None \<Rightarrow> (let (node, cfg) = add_node (cb_cfg c) in
       (node, c\<lparr>cb_cfg := cfg, cb_block_to_node := AList.update b node (cb_block_to_node c),
                cb_node_to_block := AList.update node b (cb_node_to_block c)\<rparr>)))"

definition add_jump :: "block_id \<Rightarrow> block_id \<Rightarrow> jump_type \<Rightarrow> cfg_builder \<Rightarrow> cfg_builder" where
  "add_jump source target jt c = (
     let (source_node, c) = block_node source c; (target_node, c) = block_node target c in
     c\<lparr>cb_cfg := add_edge source_node target_node jt (cb_cfg c)\<rparr>)"

definition set_entry :: "block_id \<Rightarrow> cfg_builder \<Rightarrow> cfg_builder option" where
  "set_entry b c = do {
     node \<leftarrow> map_of (cb_block_to_node c) b;
     Some (c\<lparr>cb_cfg := add_edge (cb_entry_node c) node JtEntry (cb_cfg c)\<rparr>) }"

definition cfg_add_block :: "block_id \<Rightarrow> cfg_builder \<Rightarrow> cfg_builder" where
  "cfg_add_block b c = snd (block_node b c)"

definition add_return :: "block_id \<Rightarrow> cfg_builder \<Rightarrow> cfg_builder" where
  "add_return b c = (
     let (node, c) = block_node b c in
     c\<lparr>cb_cfg := add_edge node (cb_return_node c) JtReturn (cb_cfg c)\<rparr>)"

record cfg =
  cf_entry_node :: nat
  cf_return_node :: nat
  cf_block_to_node :: "(block_id \<times> nat) list"
  cf_node_to_block :: "(nat \<times> block_id) list"
  cf_cfg :: cfg_data
  cf_reverse_cfg :: cfg_data

definition build_cfg :: "graph_algos \<Rightarrow> cfg_builder \<Rightarrow> cfg option" where
  "build_cfg A c = do {
     d \<leftarrow> from_graph A (cb_cfg c) (cb_entry_node c);
     r \<leftarrow> from_graph A (dg_reverse (cb_cfg c)) (cb_return_node c);
     Some \<lparr>cf_entry_node = cb_entry_node c, cf_return_node = cb_return_node c,
       cf_block_to_node = cb_block_to_node c, cf_node_to_block = cb_node_to_block c, cf_cfg = d,
       cf_reverse_cfg = r\<rparr> }"

text \<open>The edges that the terminator of a block adds.\<close>

fun add_terminator :: "block_id \<Rightarrow> terminator option \<Rightarrow> cfg_builder \<Rightarrow> cfg_builder" where
  "add_terminator b None c = c"
| "add_terminator b (Some (Jmp target _)) c = add_jump b target JtJmp c"
| "add_terminator b (Some (JmpIf _ t1 t2)) c = add_jump b t2 JtJmpIf (add_jump b t1 JtJmpIf c)"
| "add_terminator b (Some (Return _)) c = add_return b c"

definition cfg_of_function :: "graph_algos \<Rightarrow> ('op, 'ty) func \<Rightarrow> cfg option" where
  "cfg_of_function A f = do {
     c \<leftarrow> set_entry (f_entry_block f) (fold (\<lambda>(b, _). cfg_add_block b) (f_blocks f) cfg_builder_new);
     build_cfg A (fold (\<lambda>(b, block). add_terminator b (b_terminator block)) (f_blocks f) c) }"

subsection \<open>Queries\<close>

text \<open>A block the graph does not know panics; nodes without a block (entry and return) are skipped by
  the iterators and panic where a block is demanded.\<close>

definition node_of :: "cfg \<Rightarrow> block_id \<Rightarrow> nat option" where
  "node_of c b = map_of (cf_block_to_node c) b"

definition blocks_of :: "cfg \<Rightarrow> nat list \<Rightarrow> block_id list" where
  "blocks_of c nodes = List.map_filter (map_of (cf_node_to_block c)) nodes"

definition get_blocks_bfs :: "graph_algos \<Rightarrow> cfg \<Rightarrow> block_id list" where
  "get_blocks_bfs A c = blocks_of c (bfs_order A (cd_cfg (cf_cfg c)) (cf_entry_node c))"

definition predecessors :: "cfg \<Rightarrow> nat \<Rightarrow> nat list" where
  "predecessors c node = map fst (in_edges node (cd_cfg (cf_cfg c)))"

definition successors :: "cfg \<Rightarrow> nat \<Rightarrow> nat list" where
  "successors c node = map fst (out_edges node (cd_cfg (cf_cfg c)))"

definition is_loop_entry :: "cfg \<Rightarrow> block_id \<Rightarrow> bool option" where
  "is_loop_entry c b = do {
     node \<leftarrow> node_of c b;
     Some (list_ex (dominates_node (cf_cfg c) node) (predecessors c node)) }"

definition get_predecessors :: "cfg \<Rightarrow> block_id \<Rightarrow> block_id list option" where
  "get_predecessors c b = do { node \<leftarrow> node_of c b; Some (blocks_of c (predecessors c node)) }"

definition get_successors :: "cfg \<Rightarrow> block_id \<Rightarrow> block_id list option" where
  "get_successors c b = do { node \<leftarrow> node_of c b; Some (blocks_of c (successors c node)) }"

definition get_merge_point_node :: "cfg \<Rightarrow> nat \<Rightarrow> nat option" where
  "get_merge_point_node c node = immediate_dominator (cd_dominators (cf_reverse_cfg c)) node"

definition get_merge_point :: "cfg \<Rightarrow> block_id \<Rightarrow> block_id option" where
  "get_merge_point c b = do {
     node \<leftarrow> node_of c b;
     merge \<leftarrow> get_merge_point_node c node;
     map_of (cf_node_to_block c) merge }"

definition get_if_body :: "cfg \<Rightarrow> block_id \<Rightarrow> block_id list option" where
  "get_if_body c b = do {
     entry \<leftarrow> node_of c b;
     merge \<leftarrow> get_merge_point_node c entry;
     opt_map (map_of (cf_node_to_block c)) (filter (\<lambda>node. node \<noteq> entry \<and> node \<noteq> merge \<and>
         dominates_node (cf_cfg c) entry node \<and> dominates_node (cf_reverse_cfg c) merge node)
       [0..<dg_nodes (cd_cfg (cf_cfg c))]) }"

definition get_jumps_into_merge_from_branch :: "cfg \<Rightarrow> block_id \<Rightarrow> block_id \<Rightarrow> block_id list option" where
  "get_jumps_into_merge_from_branch c branch merge = do {
     branch_id \<leftarrow> node_of c branch;
     merge_id \<leftarrow> node_of c merge;
     opt_map (map_of (cf_node_to_block c))
       (filter (dominates_node (cf_cfg c) branch_id) (predecessors c merge_id)) }"

text \<open>Unconditional jumps into nodes that have only one incoming edge.\<close>

definition redundant_edges :: "jump_type digraph \<Rightarrow> (nat \<times> nat) list" where
  "redundant_edges g = concat (map (\<lambda>node. case in_edges node g of
      [(source, weight)] \<Rightarrow> if weight = JtJmp then [(source, node)] else []
    | _ \<Rightarrow> []) [0..<dg_nodes g])"

definition find_redundant_jumps :: "cfg \<Rightarrow> (block_id \<times> block_id) list option" where
  "find_redundant_jumps c = opt_map (\<lambda>(source, node). do {
     source \<leftarrow> map_of (cf_node_to_block c) source;
     target \<leftarrow> map_of (cf_node_to_block c) node;
     Some (source, target) }) (redundant_edges (cd_cfg (cf_cfg c)))"

definition get_dominance_frontier :: "cfg \<Rightarrow> block_id \<Rightarrow> block_id list option" where
  "get_dominance_frontier c b = do {
     node \<leftarrow> node_of c b;
     Some (blocks_of c (dominance_frontier_node (cf_cfg c) node)) }"

definition get_post_dominance_frontier :: "cfg \<Rightarrow> block_id \<Rightarrow> block_id list option" where
  "get_post_dominance_frontier c b = do {
     node \<leftarrow> node_of c b;
     Some (blocks_of c (dominance_frontier_node (cf_reverse_cfg c) node)) }"

definition get_domination_pre_order :: "cfg \<Rightarrow> block_id list" where
  "get_domination_pre_order c = blocks_of c (cd_dominator_pre_order (cf_cfg c))"

definition get_immediate_dominator :: "cfg \<Rightarrow> block_id \<Rightarrow> block_id option option" where
  "get_immediate_dominator c b = do {
     node \<leftarrow> node_of c b;
     Some (case immediate_dominator (cd_dominators (cf_cfg c)) node of
       None \<Rightarrow> None | Some u \<Rightarrow> map_of (cf_node_to_block c) u) }"

definition dominates :: "cfg \<Rightarrow> block_id \<Rightarrow> block_id \<Rightarrow> bool option" where
  "dominates c a b = do {
     a_node \<leftarrow> node_of c a; b_node \<leftarrow> node_of c b;
     Some (dominates_node (cf_cfg c) a_node b_node) }"

definition post_dominates :: "cfg \<Rightarrow> block_id \<Rightarrow> block_id \<Rightarrow> bool option" where
  "post_dominates c a b = do {
     a_node \<leftarrow> node_of c a; b_node \<leftarrow> node_of c b;
     Some (dominates_node (cf_reverse_cfg c) a_node b_node) }"

definition get_jumps_into :: "cfg \<Rightarrow> block_id \<Rightarrow> block_id list option" where
  "get_jumps_into c b = do { node \<leftarrow> node_of c b; Some (blocks_of c (predecessors c node)) }"

definition get_post_dominator :: "cfg \<Rightarrow> block_id \<Rightarrow> block_id option" where
  "get_post_dominator c b = do {
     node \<leftarrow> node_of c b;
     pd \<leftarrow> immediate_dominator (cd_dominators (cf_reverse_cfg c)) node;
     map_of (cf_node_to_block c) pd }"

definition get_return_blocks :: "cfg \<Rightarrow> block_id list" where
  "get_return_blocks c = blocks_of c (predecessors c (cf_return_node c))"

definition get_edges :: "cfg \<Rightarrow> (block_id \<times> block_id) list" where
  "get_edges c = List.map_filter (\<lambda>(u, v, _). do {
     src \<leftarrow> map_of (cf_node_to_block c) u;
     tgt \<leftarrow> map_of (cf_node_to_block c) v;
     Some (src, tgt) }) (dg_edges (cd_cfg (cf_cfg c)))"

subsection \<open>The call graph\<close>

record call_graph =
  cg_graph :: "unit digraph"
  cg_func_to_node :: "(function_id \<times> nat) list"
  cg_node_to_func :: "(nat \<times> function_id) list"

definition call_graph_new :: call_graph where
  "call_graph_new = \<lparr>cg_graph = dg_empty, cg_func_to_node = [], cg_node_to_func = []\<rparr>"

definition add_call :: "function_id \<Rightarrow> function_id \<Rightarrow> call_graph \<Rightarrow> call_graph option" where
  "add_call caller callee g = do {
     caller_node \<leftarrow> map_of (cg_func_to_node g) caller;
     callee_node \<leftarrow> map_of (cg_func_to_node g) callee;
     Some (g\<lparr>cg_graph := add_edge caller_node callee_node () (cg_graph g)\<rparr>) }"

definition cg_add_function :: "function_id \<Rightarrow> call_graph \<Rightarrow> call_graph" where
  "cg_add_function fid g = (case map_of (cg_func_to_node g) fid of
     Some node \<Rightarrow> g\<lparr>cg_node_to_func := AList.update node fid (cg_node_to_func g)\<rparr>
   | None \<Rightarrow> (let (node, graph) = add_node (cg_graph g) in
       \<lparr>cg_graph = graph, cg_func_to_node = AList.update fid node (cg_func_to_node g),
        cg_node_to_func = AList.update node fid (cg_node_to_func g)\<rparr>))"

definition get_post_order :: "graph_algos \<Rightarrow> call_graph \<Rightarrow> function_id \<Rightarrow> function_id list option" where
  "get_post_order A g main_id = do {
     node \<leftarrow> map_of (cg_func_to_node g) main_id;
     Some (List.map_filter (map_of (cg_node_to_func g)) (dfs_post_order A (cg_graph g) node)) }"

text \<open>The static calls of a program, in the order of the walk.\<close>

definition static_calls :: "('op, 'm) instruction_ops_scheme \<Rightarrow> ('op, 'ty) func \<Rightarrow> function_id list" where
  "static_calls I f = concat (map (\<lambda>(_, b). concat (map (op_static_calls I) (b_instructions b))) (f_blocks f))"

definition call_graph_of :: "('op, 'm) instruction_ops_scheme \<Rightarrow> ('op, 'ty, 'c) ssa \<Rightarrow> call_graph option" where
  "call_graph_of I s =
     opt_fold (\<lambda>(fid, f) g. opt_fold (\<lambda>callee g. add_call fid callee g) (static_calls I f) g) (s_functions s)
       (fold (\<lambda>(fid, _). cg_add_function fid) (s_functions s) call_graph_new)"

record flow_analysis =
  fa_call_graph :: call_graph
  fa_function_cfgs :: "(function_id \<times> cfg) list"

definition flow_analysis_run ::
  "graph_algos \<Rightarrow> ('op, 'm) instruction_ops_scheme \<Rightarrow> ('op, 'ty, 'c) ssa \<Rightarrow> flow_analysis option" where
  "flow_analysis_run A I s = do {
     g \<leftarrow> call_graph_of I s;
     cfgs \<leftarrow> opt_map (\<lambda>(fid, f). map_option (\<lambda>c. (fid, c)) (cfg_of_function A f)) (s_functions s);
     Some \<lparr>fa_call_graph = g, fa_function_cfgs = cfgs\<rparr> }"

definition get_function_cfg :: "flow_analysis \<Rightarrow> function_id \<Rightarrow> cfg option" where
  "get_function_cfg a fid = map_of (fa_function_cfgs a) fid"

end
