(* ===== verification/Dominance.thy ===== *)
theory Dominance
  imports Flow_Analysis
begin

text \<open>
  Why the numbering of \<^verbatim>\<open>compute_dominator_traversals\<close> decides dominance
  (\<^verbatim>\<open>compiler/src/compiler/analysis/flow_analysis.rs\<close>): in a tree, a node is an ancestor of another
  exactly when it comes no later in pre-order and no earlier in post-order, and in a dominator tree the
  ancestors of a node are its dominators.
\<close>

subsection \<open>Positions in lists\<close>

definition pos :: "'a list \<Rightarrow> 'a \<Rightarrow> nat" where
  "pos xs x = length (takeWhile ((\<noteq>) x) xs)"

lemma pos_append: "pos (xs @ ys) x = (if x \<in> set xs then pos xs x else length xs + pos ys x)"
  unfolding pos_def by (induction xs) auto

lemma pos_Cons: "pos (y # ys) x = (if x = y then 0 else Suc (pos ys x))"
  by (simp add: pos_def)

lemma pos_less: "x \<in> set xs \<Longrightarrow> pos xs x < length xs"
  unfolding pos_def by (induction xs) auto

lemma pos_concat:
  assumes "distinct (concat xss)" "i < length xss" "x \<in> set (xss ! i)"
  shows "pos (concat xss) x = length (concat (take i xss)) + pos (xss ! i) x"
  using assms
proof (induction xss arbitrary: i)
  case (Cons xs xss)
  show ?case
  proof (cases i)
    case 0
    then show ?thesis using Cons.prems by (simp add: pos_append)
  next
    case (Suc j)
    then have j: "j < length xss" "x \<in> set (xss ! j)" using Cons.prems by auto
    then have "x \<in> set (concat xss)" by (auto intro: nth_mem)
    then have "x \<notin> set xs" using Cons.prems(1) by auto
    then show ?thesis using Cons.IH [OF _ j] Cons.prems(1) Suc by (simp add: pos_append)
  qed
qed simp

lemma pos_concat_less:
  assumes "distinct (concat xss)" "i < j" "j < length xss" "x \<in> set (xss ! i)" "y \<in> set (xss ! j)"
  shows "pos (concat xss) x < pos (concat xss) y"
proof -
  have "length (concat (take (Suc i) xss)) \<le> length (concat (take j xss))"
    using assms(2) by (metis Suc_leI concat_append le_add1 length_append min.absorb2 take_add take_take le_Suc_ex)
  moreover have "length (concat (take (Suc i) xss)) = length (concat (take i xss)) + length (xss ! i)"
    using assms(2,3) by (simp add: take_Suc_conv_app_nth)
  ultimately show ?thesis
    using pos_concat [OF assms(1) _ assms(4)] pos_concat [OF assms(1,3,5)] pos_less [OF assms(4)] assms(2,3) by simp
qed

lemma distinct_concat_index:
  assumes "distinct (concat xss)" "i < length xss" "j < length xss" "x \<in> set (xss ! i)" "x \<in> set (xss ! j)"
  shows "i = j"
  using pos_concat_less [OF assms(1), of i j x x] pos_concat_less [OF assms(1), of j i x x] assms
  by (cases i j rule: linorder_cases) auto

subsection \<open>Trees\<close>

datatype 'a rtree = RNode 'a "'a rtree list"

fun preorder :: "'a rtree \<Rightarrow> 'a list" where
  "preorder (RNode x ts) = x # concat (map preorder ts)"

fun postorder :: "'a rtree \<Rightarrow> 'a list" where
  "postorder (RNode x ts) = concat (map postorder ts) @ [x]"

fun ancestor :: "'a rtree \<Rightarrow> 'a \<Rightarrow> 'a \<Rightarrow> bool" where
  "ancestor (RNode x ts) a b \<longleftrightarrow> x = a \<and> b \<in> set (preorder (RNode x ts)) \<or> (\<exists>t \<in> set ts. ancestor t a b)"

lemma set_postorder [simp]: "set (postorder t) = set (preorder t)"
  by (induction t) auto

lemma length_orders: "length (postorder t) = length (preorder t)"
proof (induction t)
  case (RNode x ts)
  then have "map length (map postorder ts) = map length (map preorder ts)" by simp
  then show ?case by (simp add: length_concat del: map_map)
qed

lemma distinct_postorder: "distinct (postorder t) \<longleftrightarrow> distinct (preorder t)"
  by (metis card_distinct distinct_card length_orders set_postorder)

lemma ancestor_in: "ancestor t a b \<Longrightarrow> a \<in> set (preorder t) \<and> b \<in> set (preorder t)"
  by (induction t) auto

text \<open>Both numbers together decide ancestry.\<close>

lemma ancestor_iff_positions:
  "distinct (preorder t) \<Longrightarrow> a \<in> set (preorder t) \<Longrightarrow> b \<in> set (preorder t) \<Longrightarrow>
   ancestor t a b \<longleftrightarrow> pos (preorder t) a \<le> pos (preorder t) b \<and> pos (postorder t) b \<le> pos (postorder t) a"
proof (induction t)
  case (RNode x ts)
  let ?pre = "map preorder ts" and ?post = "map postorder ts"
  have d: "distinct (concat ?pre)" "x \<notin> set (concat ?pre)" using RNode.prems(1) by auto
  have dp: "distinct (concat ?post)"
    using RNode.prems(1) distinct_postorder [of "RNode x ts"] by (simp del: set_concat)
  have xp: "set (concat ?post) = set (concat ?pre)" by auto
  have no: "\<not> ancestor t a' b'" if "t \<in> set ts" "a' = x \<or> b' = x" for t a' b'
    using ancestor_in [of t a' b'] d(2) that by fastforce
  consider "a = x" | "a \<noteq> x" "b = x" | "a \<noteq> x" "b \<noteq> x" by blast
  then show ?case
  proof cases
    case 1
    have "b = x \<or> b \<in> set (concat ?post)" using RNode.prems(3) by auto
    then have "pos (postorder (RNode x ts)) b \<le> length (concat ?post)"
      using pos_less [of b "concat ?post"] d(2) xp by (auto simp: pos_append pos_Cons simp del: set_concat)
    then show ?thesis using 1 RNode.prems(3) d(2) xp by (simp add: pos_append pos_Cons del: set_concat)
  next
    case 2
    then show ?thesis using no by (auto simp: pos_Cons)
  next
    case 3
    have "\<exists>t \<in> set ts. a \<in> set (preorder t)" using RNode.prems(2) 3 by auto
    then obtain i where i: "i < length ts" "a \<in> set (preorder (ts ! i))" by (metis in_set_conv_nth)
    have "\<exists>t \<in> set ts. b \<in> set (preorder t)" using RNode.prems(3) 3 by auto
    then obtain j where j: "j < length ts" "b \<in> set (preorder (ts ! j))" by (metis in_set_conv_nth)
    have ai: "a \<in> set (concat ?pre)" "b \<in> set (concat ?pre)" using i j by (auto intro: nth_mem)
    have anc: "ancestor (RNode x ts) a b \<longleftrightarrow> i = j \<and> ancestor (ts ! i) a b"
    proof
      assume "ancestor (RNode x ts) a b"
      then have "\<exists>t \<in> set ts. ancestor t a b" using 3 by auto
      then obtain k where k: "k < length ts" "ancestor (ts ! k) a b" by (metis in_set_conv_nth)
      have m: "a \<in> set (preorder (ts ! k))" "b \<in> set (preorder (ts ! k))" using ancestor_in [OF k(2)] by simp_all
      have "k = i" by (rule distinct_concat_index [OF d(1), of k i a]) (simp_all add: k i m)
      moreover have "k = j" by (rule distinct_concat_index [OF d(1), of k j b]) (simp_all add: k j m)
      ultimately have "k = i" "k = j" by simp_all
      then show "i = j \<and> ancestor (ts ! i) a b" using k by simp
    qed (use i in auto)
    have pr: "pos (preorder (RNode x ts)) y = Suc (pos (concat ?pre) y)" if "y \<noteq> x" for y
      using that by (simp add: pos_Cons)
    have po: "pos (postorder (RNode x ts)) y = pos (concat ?post) y" if "y \<in> set (concat ?pre)" for y
      using that xp by (simp add: pos_append del: set_concat)
    note e = anc pr [OF 3(1)] pr [OF 3(2)] po [OF ai(1)] po [OF ai(2)]
    show ?thesis
    proof (cases i j rule: linorder_cases)
      case less
      then show ?thesis
        using pos_concat_less [OF dp less, of a b] i j unfolding e by simp
    next
      case greater
      then show ?thesis
        using pos_concat_less [OF d(1) greater, of b a] i j unfolding e by simp
    next
      case equal
      have "distinct (preorder (ts ! i))" using d(1) i(1) by (simp add: distinct_concat_iff)
      then have ih: "ancestor (ts ! i) a b \<longleftrightarrow> pos (preorder (ts ! i)) a \<le> pos (preorder (ts ! i)) b \<and>
          pos (postorder (ts ! i)) b \<le> pos (postorder (ts ! i)) a"
        using RNode.IH [of "ts ! i"] i j equal by simp
      show ?thesis
        using pos_concat [OF d(1), of i a] pos_concat [OF d(1), of i b] pos_concat [OF dp, of i a]
          pos_concat [OF dp, of i b] i j equal unfolding e ih by simp
    qed
  qed
qed

subsection \<open>The traversal numbers the tree\<close>

fun dom_tree :: "nat \<Rightarrow> dominators \<Rightarrow> nat \<Rightarrow> nat rtree option" where
  "dom_tree 0 D v = None"
| "dom_tree (Suc n) D v = map_option (RNode v) (opt_map (dom_tree n D) (filter ((\<noteq>) v) (immediately_dominated_by D v)))"

lemma visit_commute: "visit_pre a (visit_post b t) = visit_post b (visit_pre a t)"
  by (simp add: visit_pre_def visit_post_def)

lemma fold_visit_commute:
  "fold visit_pre xs (fold visit_post ys t) = fold visit_post ys (fold visit_pre xs t)"
proof -
  have "visit_pre a (fold visit_post ys t) = fold visit_post ys (visit_pre a t)" for a t
    by (induction ys arbitrary: t) (simp_all add: visit_commute)
  then show ?thesis by (induction xs arbitrary: t) simp_all
qed

definition visit_tree :: "nat rtree \<Rightarrow> trav \<Rightarrow> trav" where
  "visit_tree T t = fold visit_post (postorder T) (fold visit_pre (preorder T) t)"

lemma visit_trees:
  "fold visit_tree Ts t = fold visit_post (concat (map postorder Ts)) (fold visit_pre (concat (map preorder Ts)) t)"
  by (induction Ts arbitrary: t) (simp_all add: visit_tree_def fold_visit_commute)

lemma traversal_tree:
  "compute_dominator_traversals n D v t = map_option (\<lambda>T. visit_tree T t) (dom_tree n D v)"
proof (induction n arbitrary: v t)
  case (Suc n)
  have children: "opt_fold (\<lambda>child t. if v = child then Some t else compute_dominator_traversals n D child t) cs s =
      map_option (\<lambda>Ts. fold visit_tree Ts s) (opt_map (dom_tree n D) (filter ((\<noteq>) v) cs))" for cs s
  proof (induction cs arbitrary: s)
    case (Cons c cs)
    show ?case
    proof (cases "v = c")
      case True
      then show ?thesis using Cons by simp
    next
      case False
      then show ?thesis using Cons Suc [of c s]
        by (cases "dom_tree n D c"; cases "opt_map (dom_tree n D) (filter ((\<noteq>) v) cs)") simp_all
    qed
  qed simp
  have "visit_post v (fold visit_tree Ts (visit_pre v t)) = visit_tree (RNode v Ts) t" for Ts
    by (simp add: visit_trees visit_tree_def)
  then show ?case
    by (cases "opt_map (dom_tree n D) (filter ((\<noteq>) v) (immediately_dominated_by D v))") (simp_all add: children)
qed simp

lemma fold_visit_pre:
  "distinct xs \<Longrightarrow> tv_pre (fold visit_pre xs trav_empty) = xs \<and>
     map_of (tv_pre_map (fold visit_pre xs trav_empty)) v = (if v \<in> set xs then Some (pos xs v) else None)"
proof (induction xs arbitrary: v rule: rev_induct)
  case (snoc x xs)
  then have "tv_pre (fold visit_pre xs trav_empty) = xs" by simp
  with snoc show ?case by (simp add: visit_pre_def pos_append pos_Cons)
qed (simp add: trav_empty_def)

lemma fold_visit_post:
  "distinct xs \<Longrightarrow> tv_post t = [] \<Longrightarrow> tv_post_map t = [] \<Longrightarrow> tv_post (fold visit_post xs t) = xs \<and>
     map_of (tv_post_map (fold visit_post xs t)) v = (if v \<in> set xs then Some (pos xs v) else None)"
proof (induction xs arbitrary: v rule: rev_induct)
  case (snoc x xs)
  then have "tv_post (fold visit_post xs t) = xs" by simp
  with snoc show ?case by (simp add: visit_post_def pos_append pos_Cons)
qed simp

lemma fold_visit_fields [simp]:
  "tv_post (fold visit_pre xs t) = tv_post t" "tv_post_map (fold visit_pre xs t) = tv_post_map t"
  "tv_pre (fold visit_post xs t) = tv_pre t" "tv_pre_map (fold visit_post xs t) = tv_pre_map t"
  by (induction xs arbitrary: t) (simp_all add: visit_pre_def visit_post_def)

lemma from_graph_dominates:
  assumes "dom_tree (dg_nodes g + 1) (simple_fast A g r) r = Some T" "distinct (preorder T)"
  shows "\<exists>d. from_graph A g r = Some d \<and> cd_cfg d = g \<and> cd_dominators d = simple_fast A g r \<and>
    cd_dominator_pre_order d = preorder T \<and> (\<forall>a b. dominates_node d a b \<longleftrightarrow> ancestor T a b)"
proof -
  let ?t = "visit_tree T trav_empty"
  have maps: "map_of (tv_pre_map ?t) v = (if v \<in> set (preorder T) then Some (pos (preorder T) v) else None)"
    "map_of (tv_post_map ?t) v = (if v \<in> set (preorder T) then Some (pos (postorder T) v) else None)"
    "tv_pre ?t = preorder T" for v
    using fold_visit_pre [OF assms(2)] fold_visit_post [of "postorder T" "fold visit_pre (preorder T) trav_empty"]
      assms(2) distinct_postorder [of T] by (simp_all add: visit_tree_def) (simp_all add: trav_empty_def)
  define d where "d = \<lparr>cd_cfg = g, cd_dominators = simple_fast A g r, cd_node_dominator_post_order = tv_post_map ?t,
    cd_dominator_pre_order = tv_pre ?t, cd_node_dominator_pre_order = tv_pre_map ?t\<rparr>"
  have f: "from_graph A g r = Some d" unfolding from_graph_def traversal_tree Let_def assms(1) d_def by simp
  have "dominates_node d a b \<longleftrightarrow> ancestor T a b" for a b
  proof -
    have "dominates_node d a b \<longleftrightarrow> a \<in> set (preorder T) \<and> b \<in> set (preorder T) \<and>
        pos (preorder T) a \<le> pos (preorder T) b \<and> pos (postorder T) b \<le> pos (postorder T) a"
      by (simp add: dominates_node_def d_def maps)
    then show ?thesis using ancestor_iff_positions [OF assms(2), of a b] ancestor_in [of T a b] by blast
  qed
  then show ?thesis using f maps(3) by (intro exI [of _ d]) (simp add: d_def)
qed

subsection \<open>Dominance in a graph\<close>

definition edge :: "'e digraph \<Rightarrow> nat \<Rightarrow> nat \<Rightarrow> bool" where
  "edge g u v \<longleftrightarrow> (\<exists>e. (u, v, e) \<in> set (dg_edges g))"

text \<open>Paths from the root, as the list of their nodes with the end first.\<close>

inductive path :: "'e digraph \<Rightarrow> nat \<Rightarrow> nat list \<Rightarrow> bool" for g r where
  path_root: "path g r [r]"
| path_step: "path g r (u # p) \<Longrightarrow> edge g u v \<Longrightarrow> path g r (v # u # p)"

definition reach :: "'e digraph \<Rightarrow> nat \<Rightarrow> nat \<Rightarrow> bool" where
  "reach g r v \<longleftrightarrow> (\<exists>p. path g r (v # p))"

definition dominator :: "'e digraph \<Rightarrow> nat \<Rightarrow> nat \<Rightarrow> nat \<Rightarrow> bool" where
  "dominator g r a b \<longleftrightarrow> reach g r b \<and> (\<forall>p. path g r (b # p) \<longrightarrow> a \<in> set (b # p))"

text \<open>What petgraph documents of the dominator tree: a node that is reachable and not the root has an
  immediate dominator, which every other strict dominator of the node dominates; no other node has
  one; the nodes immediately dominated by a node are listed once.\<close>

definition dominators_spec :: "'e digraph \<Rightarrow> nat \<Rightarrow> dominators \<Rightarrow> bool" where
  "dominators_spec g r D \<longleftrightarrow>
     (\<forall>v. immediate_dominator D v \<noteq> None \<longleftrightarrow> v \<noteq> r \<and> reach g r v) \<and>
     (\<forall>v u. immediate_dominator D v = Some u \<longrightarrow> u \<noteq> v \<and> dominator g r u v \<and>
        (\<forall>w. w \<noteq> v \<longrightarrow> dominator g r w v \<longrightarrow> dominator g r w u)) \<and>
     (\<forall>u. distinct (immediately_dominated_by D u) \<and>
        set (filter ((\<noteq>) u) (immediately_dominated_by D u)) = {v. immediate_dominator D v = Some u})"

definition graph_wf :: "'e digraph \<Rightarrow> bool" where
  "graph_wf g \<longleftrightarrow> (\<forall>(u, v, e) \<in> set (dg_edges g). u < dg_nodes g \<and> v < dg_nodes g)"

lemma path_suffix: "path g r (xs @ u # ys) \<Longrightarrow> path g r (u # ys)"
proof (induction xs)
  case (Cons x xs)
  from Cons.prems have "path g r (xs @ u # ys)" by (cases xs) (auto elim: path.cases)
  then show ?case by (rule Cons.IH)
qed simp

lemma path_reach: "path g r p \<Longrightarrow> x \<in> set p \<Longrightarrow> reach g r x"
  by (metis path_suffix reach_def split_list)

lemma dominator_refl: "reach g r v \<Longrightarrow> dominator g r v v"
  by (simp add: dominator_def)

lemma dominator_reach: "dominator g r a b \<Longrightarrow> reach g r a \<and> reach g r b"
  by (metis dominator_def path_reach reach_def)

lemma dominator_trans:
  assumes "dominator g r a b" "dominator g r b c"
  shows "dominator g r a c"
proof -
  have "a \<in> set (c # p)" if p: "path g r (c # p)" for p
  proof -
    obtain xs ys where s: "c # p = xs @ b # ys" using assms(2) p split_list by (metis dominator_def)
    then have "path g r (b # ys)" using p path_suffix by metis
    then have "a \<in> set (b # ys)" using assms(1) by (simp add: dominator_def)
    then show ?thesis using s by auto
  qed
  then show ?thesis using assms(2) by (simp add: dominator_def)
qed

lemma dominator_antisym:
  assumes "dominator g r a b" "dominator g r b a"
  shows "a = b"
proof (rule ccontr)
  assume ne: "a \<noteq> b"
  have "\<exists>q. path g r (b # q) \<and> length q < length p" if "path g r (b # p)" for p
  proof -
    have "a \<in> set p" using assms(1) that ne by (auto simp: dominator_def)
    then obtain xs ys where s: "p = xs @ a # ys" using split_list by metis
    have "path g r (a # ys)" using path_suffix [of g r "b # xs" a ys] that s by simp
    then have "b \<in> set ys" using assms(2) ne by (auto simp: dominator_def)
    then obtain zs ws where w: "ys = zs @ b # ws" using split_list by metis
    have "path g r (b # ws)" using path_suffix [of g r "b # xs @ a # zs" b ws] that s w by simp
    then show ?thesis using s w by auto
  qed
  then have "\<not> path g r (b # p)" for p by (induction "length p" arbitrary: p rule: less_induct) blast
  then show False using assms(1) by (simp add: dominator_def reach_def)
qed

definition doms :: "'e digraph \<Rightarrow> nat \<Rightarrow> nat \<Rightarrow> nat set" where
  "doms g r v = {x. dominator g r x v}"

lemma finite_doms: "finite (doms g r v)"
proof (cases "reach g r v")
  case True
  then obtain p where "path g r (v # p)" by (auto simp: reach_def)
  then have "doms g r v \<subseteq> set (v # p)" by (auto simp: doms_def dominator_def)
  then show ?thesis using finite_subset by blast
qed (simp add: doms_def dominator_def)

lemma doms_strict: "dominator g r u v \<Longrightarrow> u \<noteq> v \<Longrightarrow> card (doms g r u) < card (doms g r v)"
proof -
  assume u: "dominator g r u v" "u \<noteq> v"
  then have "v \<in> doms g r v" "v \<notin> doms g r u"
    using dominator_refl dominator_reach dominator_antisym by (fastforce simp: doms_def)+
  moreover have "doms g r u \<subseteq> doms g r v" using u dominator_trans by (auto simp: doms_def)
  ultimately show ?thesis using finite_doms psubset_card_mono by (metis psubsetI)
qed

lemma path_bound: "path g r p \<Longrightarrow> graph_wf g \<Longrightarrow> r < dg_nodes g \<Longrightarrow> x \<in> set p \<Longrightarrow> x < dg_nodes g"
  by (induction p rule: path.induct) (auto simp: graph_wf_def edge_def)

lemma doms_bound:
  assumes "graph_wf g" "r < dg_nodes g"
  shows "card (doms g r v) \<le> dg_nodes g"
proof -
  have "x < dg_nodes g" if dom: "dominator g r x v" for x
  proof -
    obtain p where p: "path g r (v # p)" using dom unfolding dominator_def reach_def by blast
    then have "x \<in> set (v # p)" using dom unfolding dominator_def by blast
    then show ?thesis using path_bound [OF p assms] by blast
  qed
  then have "doms g r v \<subseteq> {..<dg_nodes g}" by (auto simp: doms_def)
  then show ?thesis using card_mono [of "{..<dg_nodes g}"] by fastforce
qed

lemma spec_idom:
  assumes "dominators_spec g r D" "immediate_dominator D v = Some u"
  shows "u \<noteq> v" "dominator g r u v" "w \<noteq> v \<Longrightarrow> dominator g r w v \<Longrightarrow> dominator g r w u"
  using assms unfolding dominators_spec_def by blast+

lemma dominator_root: "dominator g r a r \<Longrightarrow> a = r"
  by (auto simp: dominator_def path_root dest: spec [of _ "[]"])

lemma spec_parent:
  assumes "dominators_spec g r D" "dominator g r w v" "w \<noteq> v"
  obtains u where "immediate_dominator D v = Some u"
proof -
  have "v \<noteq> r" using dominator_root assms(2,3) by metis
  then have "immediate_dominator D v \<noteq> None"
    using assms(1) dominator_reach [OF assms(2)] unfolding dominators_spec_def by blast
  then show ?thesis using that by blast
qed

text \<open>A strict dominator dominates a node through one of the nodes it immediately dominates, and two
  dominators of a node dominate one another.\<close>

lemma dominator_child:
  assumes "dominators_spec g r D"
  shows "dominator g r v x \<Longrightarrow> v \<noteq> x \<Longrightarrow> \<exists>w. immediate_dominator D w = Some v \<and> dominator g r w x"
proof (induction "card (doms g r x)" arbitrary: x rule: less_induct)
  case less
  obtain u where u: "immediate_dominator D x = Some u" using spec_parent [OF assms less.prems] .
  note s = spec_idom [OF assms u]
  have vu: "dominator g r v u" using s(3) less.prems by blast
  show ?case
  proof (cases "u = v")
    case True
    then show ?thesis using u dominator_refl dominator_reach less.prems(1) by blast
  next
    case False
    then obtain w where "immediate_dominator D w = Some v" "dominator g r w u"
      using less.hyps [OF doms_strict [OF s(2,1)] vu] by auto
    then show ?thesis using dominator_trans [OF _ s(2)] by blast
  qed
qed

lemma dominator_chain:
  assumes "dominators_spec g r D"
  shows "dominator g r a x \<Longrightarrow> dominator g r b x \<Longrightarrow> dominator g r a b \<or> dominator g r b a"
proof (induction "card (doms g r x)" arbitrary: x rule: less_induct)
  case less
  show ?case
  proof (cases "a = x \<or> b = x")
    case False
    obtain u where u: "immediate_dominator D x = Some u" using spec_parent [OF assms less.prems(1)] False by blast
    note s = spec_idom [OF assms u]
    show ?thesis using less.hyps [OF doms_strict [OF s(2,1)]] s(3) less.prems False by blast
  qed (use less.prems in auto)
qed

lemma distinct_concat_map:
  "distinct cs \<Longrightarrow> (\<And>c. c \<in> set cs \<Longrightarrow> distinct (f c)) \<Longrightarrow>
   (\<And>c d. c \<in> set cs \<Longrightarrow> d \<in> set cs \<Longrightarrow> c \<noteq> d \<Longrightarrow> set (f c) \<inter> set (f d) = {}) \<Longrightarrow> distinct (concat (map f cs))"
proof (induction cs)
  case (Cons c cs)
  have "distinct (concat (map f cs))" by (rule Cons.IH) (use Cons.prems in auto)
  moreover have "set (f c) \<inter> set (f d) = {}" if "d \<in> set cs" for d
    using Cons.prems(1) Cons.prems(3) [of c d] that by auto
  ultimately show ?case using Cons.prems(2) [of c] by auto
qed simp

text \<open>The tree of the traversal: within the fuel, it holds exactly the nodes that its root dominates, each
  once, and its ancestry is dominance.\<close>

lemma dom_tree_correct:
  assumes D: "dominators_spec g r D" and g: "graph_wf g" "r < dg_nodes g"
  shows "reach g r v \<Longrightarrow> dg_nodes g - card (doms g r v) < n \<Longrightarrow>
    \<exists>T. dom_tree n D v = Some T \<and> distinct (preorder T) \<and> set (preorder T) = {x. dominator g r v x} \<and>
      (\<forall>a b. ancestor T a b \<longleftrightarrow> dominator g r v a \<and> dominator g r a b)"
proof (induction n arbitrary: v)
  case (Suc n)
  let ?cs = "filter ((\<noteq>) v) (immediately_dominated_by D v)"
  have cs: "set ?cs = {w. immediate_dominator D w = Some v}" "distinct ?cs"
    using D unfolding dominators_spec_def by (blast, simp)
  have child: "v \<noteq> w" "dominator g r v w" if "w \<in> set ?cs" for w
    using spec_idom [OF D] that unfolding cs(1) by blast+
  have "\<exists>T. dom_tree n D w = Some T \<and> distinct (preorder T) \<and> set (preorder T) = {x. dominator g r w x} \<and>
      (\<forall>a b. ancestor T a b \<longleftrightarrow> dominator g r w a \<and> dominator g r a b)" if w: "w \<in> set ?cs" for w
  proof (rule Suc.IH)
    show "reach g r w" using child(2) [OF w] dominator_reach by blast
    show "dg_nodes g - card (doms g r w) < n"
      using doms_strict [OF child(2) [OF w] child(1) [OF w]] doms_bound [OF g, of w] Suc.prems(2) by linarith
  qed
  then obtain F where F: "\<And>w. w \<in> set ?cs \<Longrightarrow> dom_tree n D w = Some (F w) \<and> distinct (preorder (F w)) \<and>
      set (preorder (F w)) = {x. dominator g r w x} \<and>
      (\<forall>a b. ancestor (F w) a b \<longleftrightarrow> dominator g r w a \<and> dominator g r a b)"
    by metis
  let ?T = "RNode v (map F ?cs)"
  have t: "dom_tree (Suc n) D v = Some ?T" using opt_map_total [of ?cs "dom_tree n D" F] F by simp
  have below: "(\<exists>w \<in> set ?cs. dominator g r w x) \<longleftrightarrow> dominator g r v x \<and> v \<noteq> x" for x
  proof
    assume "\<exists>w \<in> set ?cs. dominator g r w x"
    then obtain w where w: "w \<in> set ?cs" "dominator g r w x" by blast
    have "v \<noteq> x" using dominator_antisym [OF child(2) [OF w(1)]] w child(1) [OF w(1)] by blast
    then show "dominator g r v x \<and> v \<noteq> x" using dominator_trans [OF child(2) [OF w(1)] w(2)] by blast
  next
    assume "dominator g r v x \<and> v \<noteq> x"
    then show "\<exists>w \<in> set ?cs. dominator g r w x" using dominator_child [OF D] unfolding cs(1) by blast
  qed
  have disjoint: "set (preorder (F w)) \<inter> set (preorder (F w')) = {}"
    if "w \<in> set ?cs" "w' \<in> set ?cs" "w \<noteq> w'" for w w'
  proof -
    have "\<not> dominator g r w w'" if h: "w \<in> set ?cs" "w' \<in> set ?cs" "w \<noteq> w'" for w w'
    proof
      assume "dominator g r w w'"
      then have "dominator g r w v" using spec_idom(3) [OF D _ h(3)] h(2) unfolding cs(1) by blast
      then show False using dominator_antisym [OF child(2) [OF h(1)]] child(1) [OF h(1)] by blast
    qed
    then have no: "\<not> dominator g r w w'" "\<not> dominator g r w' w" using that by blast+
    have "\<not> (dominator g r w x \<and> dominator g r w' x)" for x
      using dominator_chain [OF D, of w x w'] no by blast
    then show ?thesis using F [OF that(1)] F [OF that(2)] by auto
  qed
  have "distinct (concat (map (preorder \<circ> F) ?cs))"
  proof (rule distinct_concat_map)
    show "distinct ?cs" by (rule cs(2))
    show "distinct ((preorder \<circ> F) c)" if "c \<in> set ?cs" for c using F [OF that] by simp
    show "set ((preorder \<circ> F) c) \<inter> set ((preorder \<circ> F) d) = {}" if "c \<in> set ?cs" "d \<in> set ?cs" "c \<noteq> d" for c d
      using disjoint [OF that] by simp
  qed
  moreover have "v \<notin> set (concat (map (preorder \<circ> F) ?cs))" using below [of v] F by auto
  ultimately have dist: "distinct (preorder ?T)" by simp
  have set: "set (preorder ?T) = {x. dominator g r v x}"
    using below F dominator_refl [OF Suc.prems(1)] by auto
  have "ancestor ?T a b \<longleftrightarrow> dominator g r v a \<and> dominator g r a b" for a b
  proof -
    have "ancestor ?T a b \<longleftrightarrow> v = a \<and> dominator g r v b \<or> (\<exists>w \<in> set ?cs. dominator g r w a \<and> dominator g r a b)"
      using set F by auto
    also have "\<dots> \<longleftrightarrow> dominator g r v a \<and> dominator g r a b"
      using below [of a] dominator_refl [OF Suc.prems(1)] by blast
    finally show ?thesis .
  qed
  then show ?case using t dist set by blast
qed simp

lemma path_ends: "path g r p \<Longrightarrow> r \<in> set p"
  by (induction p rule: path.induct) auto

lemma root_dominates: "dominator g r r v \<longleftrightarrow> reach g r v"
proof -
  have "r \<in> set (v # p)" if "path g r (v # p)" for p using path_ends [OF that] .
  then show ?thesis unfolding dominator_def by blast
qed

lemma from_graph_dominance:
  assumes "dominators_spec g r (simple_fast A g r)" "graph_wf g" "r < dg_nodes g"
  shows "\<exists>d. from_graph A g r = Some d \<and> cd_cfg d = g \<and> distinct (cd_dominator_pre_order d) \<and>
    set (cd_dominator_pre_order d) = {v. reach g r v} \<and>
    (\<forall>a b. dominates_node d a b \<longleftrightarrow> dominator g r a b)"
proof -
  have "reach g r r" using path_root by (auto simp: reach_def)
  moreover have "dg_nodes g - card (doms g r r) < dg_nodes g + 1" by simp
  ultimately obtain T where T: "dom_tree (dg_nodes g + 1) (simple_fast A g r) r = Some T" "distinct (preorder T)"
    "set (preorder T) = {x. dominator g r r x}" "\<And>a b. ancestor T a b \<longleftrightarrow> dominator g r r a \<and> dominator g r a b"
    using dom_tree_correct [OF assms, of r "dg_nodes g + 1"] by blast
  have "ancestor T a b \<longleftrightarrow> dominator g r a b" for a b
    using T(4) root_dominates dominator_reach by blast
  moreover have "set (preorder T) = {v. reach g r v}" using T(3) root_dominates by blast
  ultimately show ?thesis using from_graph_dominates [OF T(1,2)] T(2) by auto
qed

text \<open>C21. If petgraph's dominator tree is what its documentation says, then
  \<^verbatim>\<open>CFGData::from_graph\<close> succeeds on every graph (its recursion ends), its pre-order lists exactly the
  nodes that the root reaches, each once, and \<^verbatim>\<open>dominates_node\<close>, which only compares the numbers of the two
  traversals, holds exactly when every path from the root to the second node goes through the first.\<close>

theorem numbering_decides_dominance:
  assumes "dominators_spec g r (simple_fast A g r)" "graph_wf g" "r < dg_nodes g"
  shows "\<exists>d. from_graph A g r = Some d \<and> cd_cfg d = g \<and> distinct (cd_dominator_pre_order d) \<and>
    set (cd_dominator_pre_order d) = {v. reach g r v} \<and>
    (\<forall>a b. dominates_node d a b \<longleftrightarrow> dominator g r a b)"
  by (rule from_graph_dominance [OF assms])

subsection \<open>A reference algorithm\<close>

text \<open>petgraph's contract can be met: dominance decided by searching for a path around the candidate. The
  reference algorithm is what the examples run in place of petgraph.\<close>

primrec reach_in :: "nat \<Rightarrow> 'e digraph \<Rightarrow> (nat \<Rightarrow> bool) \<Rightarrow> nat \<Rightarrow> nat \<Rightarrow> bool" where
  "reach_in 0 g P r v \<longleftrightarrow> False"
| "reach_in (Suc k) g P r v \<longleftrightarrow> P v \<and> (v = r \<or> list_ex (\<lambda>(u, w, _). w = v \<and> reach_in k g P r u) (dg_edges g))"

definition naive_dominator :: "'e digraph \<Rightarrow> nat \<Rightarrow> nat \<Rightarrow> nat \<Rightarrow> bool" where
  "naive_dominator g r a b \<longleftrightarrow> reach_in (dg_nodes g) g (\<lambda>_. True) r b \<and> \<not> reach_in (dg_nodes g) g (\<lambda>x. x \<noteq> a) r b"

definition naive_idom :: "'e digraph \<Rightarrow> nat \<Rightarrow> nat \<Rightarrow> nat option" where
  "naive_idom g r v = find (\<lambda>u. u \<noteq> v \<and> naive_dominator g r u v \<and>
     list_all (\<lambda>w. w \<noteq> v \<longrightarrow> naive_dominator g r w v \<longrightarrow> naive_dominator g r w u) [0..<dg_nodes g]) [0..<dg_nodes g]"

definition naive_dominators :: "'e digraph \<Rightarrow> nat \<Rightarrow> dominators" where
  "naive_dominators g r = \<lparr>immediate_dominator = naive_idom g r,
     immediately_dominated_by = (\<lambda>u. filter (\<lambda>v. naive_idom g r v = Some u) [0..<dg_nodes g])\<rparr>"

lemma path_splice: "path g r (xs @ u # ys) \<Longrightarrow> path g r (u # zs) \<Longrightarrow> path g r (xs @ u # zs)"
proof (induction xs)
  case (Cons x xs)
  from Cons.prems(1) obtain y q where y: "xs @ u # ys = y # q" "edge g y x" "path g r (y # q)"
    by (cases rule: path.cases) auto
  then have "path g r (xs @ u # zs)" using Cons by simp
  moreover obtain q' where "xs @ u # zs = y # q'" using y(1) by (cases xs) auto
  ultimately show ?case using path_step y(2) by simp
qed simp

lemma path_distinct: "path g r (v # p) \<Longrightarrow> \<exists>q. path g r (v # q) \<and> distinct (v # q) \<and> set (v # q) \<subseteq> set (v # p)"
proof (induction "length p" arbitrary: p rule: less_induct)
  case less
  show ?case
  proof (cases "distinct (v # p)")
    case False
    then obtain xs u ys zs where d: "v # p = xs @ [u] @ ys @ [u] @ zs" using not_distinct_decomp by blast
    then have u: "path g r (u # zs)" using path_suffix [of g r "xs @ u # ys" u zs] less.prems by simp
    have s: "path g r (xs @ u # zs)" using path_splice [OF _ u, of xs "ys @ u # zs"] less.prems d by simp
    obtain p' where p': "xs @ u # zs = v # p'" using d by (cases xs) auto
    have "length (v # p') < length (v # p)" unfolding d p' [symmetric] by simp
    moreover have "set (v # p') \<subseteq> set (v # p)" unfolding d p' [symmetric] by auto
    ultimately show ?thesis using less.hyps [of p'] s p' by auto
  qed (use less.prems in blast)
qed

lemma reach_in_path:
  "reach_in k g P r v \<longleftrightarrow> (\<exists>p. path g r (v # p) \<and> length (v # p) \<le> k \<and> (\<forall>x \<in> set (v # p). P x))"
proof (induction k arbitrary: v)
  case (Suc k)
  have step: "(\<exists>p. path g r (v # p) \<and> length (v # p) \<le> Suc k \<and> (\<forall>x \<in> set (v # p). P x)) \<longleftrightarrow>
    P v \<and> (v = r \<or> (\<exists>u p. edge g u v \<and> path g r (u # p) \<and> length (u # p) \<le> k \<and> (\<forall>x \<in> set (u # p). P x)))"
  proof
    assume "\<exists>p. path g r (v # p) \<and> length (v # p) \<le> Suc k \<and> (\<forall>x \<in> set (v # p). P x)"
    then obtain p where p: "path g r (v # p)" "length (v # p) \<le> Suc k" "\<forall>x \<in> set (v # p). P x" by blast
    from p(1) show "P v \<and> (v = r \<or> (\<exists>u p. edge g u v \<and> path g r (u # p) \<and> length (u # p) \<le> k \<and> (\<forall>x \<in> set (u # p). P x)))"
      by (cases rule: path.cases) (use p(2,3) in auto)
  next
    assume a: "P v \<and> (v = r \<or> (\<exists>u p. edge g u v \<and> path g r (u # p) \<and> length (u # p) \<le> k \<and> (\<forall>x \<in> set (u # p). P x)))"
    show "\<exists>p. path g r (v # p) \<and> length (v # p) \<le> Suc k \<and> (\<forall>x \<in> set (v # p). P x)"
    proof (cases "v = r")
      case True
      then show ?thesis using a path_root by (intro exI [of _ "[]"]) simp
    next
      case False
      then obtain u p where "edge g u v" "path g r (u # p)" "length (u # p) \<le> k" "\<forall>x \<in> set (u # p). P x"
        using a by blast
      then show ?thesis using a path_step by (intro exI [of _ "u # p"]) simp
    qed
  qed
  have "list_ex (\<lambda>(u, w, _). w = v \<and> reach_in k g P r u) (dg_edges g) \<longleftrightarrow> (\<exists>u. edge g u v \<and> reach_in k g P r u)"
    by (auto simp: list_ex_iff edge_def)
  then show ?case unfolding step reach_in.simps Suc by blast
qed simp

lemma reach_in_all:
  assumes "graph_wf g" "r < dg_nodes g"
  shows "reach_in (dg_nodes g) g P r v \<longleftrightarrow> (\<exists>p. path g r (v # p) \<and> (\<forall>x \<in> set (v # p). P x))"
proof
  assume "\<exists>p. path g r (v # p) \<and> (\<forall>x \<in> set (v # p). P x)"
  then obtain p where p: "path g r (v # p)" "\<forall>x \<in> set (v # p). P x" by blast
  obtain q where q: "path g r (v # q)" "distinct (v # q)" "set (v # q) \<subseteq> set (v # p)"
    using path_distinct [OF p(1)] by blast
  have "set (v # q) \<subseteq> {..<dg_nodes g}" using path_bound [OF q(1) assms] by blast
  then have "length (v # q) \<le> dg_nodes g"
    using card_mono [of "{..<dg_nodes g}" "set (v # q)"] distinct_card [OF q(2)] by simp
  then show "reach_in (dg_nodes g) g P r v" using q p(2) by (auto simp: reach_in_path)
qed (auto simp: reach_in_path)

lemma naive_dominator_iff:
  assumes "graph_wf g" "r < dg_nodes g"
  shows "naive_dominator g r a b \<longleftrightarrow> dominator g r a b"
proof -
  have "(\<forall>x \<in> set (b # p). x \<noteq> a) \<longleftrightarrow> a \<notin> set (b # p)" for p by metis
  then show ?thesis unfolding naive_dominator_def reach_in_all [OF assms] dominator_def reach_def by blast
qed

lemma obtains_Max:
  fixes f :: "'a \<Rightarrow> nat"
  assumes "finite S" "x \<in> S"
  obtains u where "u \<in> S" "\<And>w. w \<in> S \<Longrightarrow> f w \<le> f u"
proof -
  have "Max (f ` S) \<in> f ` S" using assms by (intro Max_in) auto
  then obtain u where "u \<in> S" "f u = Max (f ` S)" by auto
  then show thesis using that assms(1) Max_ge [of "f ` S"] by (metis finite_imageI imageI)
qed

text \<open>Dominators of a node form a chain, whence the immediate one.\<close>

lemma dominators_chain:
  assumes "dominator g r a x" "dominator g r b x"
  shows "dominator g r a b \<or> dominator g r b a"
proof (rule ccontr)
  assume "\<not> ?thesis"
  then obtain pa pb where pa: "path g r (a # pa)" "b \<notin> set (a # pa)" and pb: "path g r (b # pb)" "a \<notin> set (b # pb)"
    using assms dominator_reach unfolding dominator_def by metis
  obtain p where p: "path g r (x # p)" using assms(1) unfolding dominator_def reach_def by blast
  have "a \<in> set (x # p)" using assms(1) p unfolding dominator_def by blast
  then obtain xs c ys where s: "x # p = xs @ c # ys" "c = a \<or> c = b" "\<forall>y \<in> set xs. \<not> (y = a \<or> y = b)"
    using split_list_first_prop [of "x # p" "\<lambda>y. y = a \<or> y = b"] by blast
  have new: "\<exists>q'. xs @ c # q = x # q'" for q using s(1) by (cases xs) auto
  from s(2) show False
  proof
    assume "c = a"
    then have "path g r (xs @ a # pa)" using path_splice pa(1) p s(1) by metis
    then have "b \<in> set (xs @ a # pa)" using assms(2) new [of pa] \<open>c = a\<close> unfolding dominator_def by metis
    then show False using s(3) pa(2) by auto
  next
    assume "c = b"
    then have "path g r (xs @ b # pb)" using path_splice pb(1) p s(1) by metis
    then have "a \<in> set (xs @ b # pb)" using assms(1) new [of pb] \<open>c = b\<close> unfolding dominator_def by metis
    then show False using s(3) pb(2) by auto
  qed
qed

definition is_idom :: "'e digraph \<Rightarrow> nat \<Rightarrow> nat \<Rightarrow> nat \<Rightarrow> bool" where
  "is_idom g r v u \<longleftrightarrow> u \<noteq> v \<and> dominator g r u v \<and> (\<forall>w. w \<noteq> v \<longrightarrow> dominator g r w v \<longrightarrow> dominator g r w u)"

lemma is_idom_unique: "is_idom g r v u \<Longrightarrow> is_idom g r v u' \<Longrightarrow> u = u'"
  using dominator_antisym unfolding is_idom_def by blast

lemma is_idom_exists:
  assumes "reach g r v" "v \<noteq> r"
  shows "\<exists>u. is_idom g r v u"
proof -
  let ?S = "doms g r v - {v}"
  have "r \<in> ?S" using assms root_dominates by (auto simp: doms_def)
  moreover have "finite ?S" using finite_doms by blast
  ultimately obtain u where u: "u \<in> ?S" "\<And>w. w \<in> ?S \<Longrightarrow> card (doms g r w) \<le> card (doms g r u)"
    using obtains_Max [of ?S r "\<lambda>w. card (doms g r w)"] by blast
  have "dominator g r w u" if "w \<noteq> v" "dominator g r w v" for w
  proof (rule ccontr)
    assume n: "\<not> dominator g r w u"
    have "dominator g r u v" using u(1) by (simp add: doms_def)
    then have "dominator g r u w" using dominators_chain [of g r w v u] that(2) n by blast
    moreover have "u \<noteq> w" using n dominator_refl dominator_reach [OF \<open>dominator g r u v\<close>] by blast
    ultimately have "card (doms g r u) < card (doms g r w)" by (rule doms_strict)
    then show False using u(2) [of w] that by (simp add: doms_def)
  qed
  then show ?thesis using u(1) by (auto simp: is_idom_def doms_def)
qed

lemma naive_idom_iff:
  assumes "graph_wf g" "r < dg_nodes g"
  shows "naive_idom g r v = Some u \<longleftrightarrow> is_idom g r v u"
proof -
  have bound: "dominator g r a b \<Longrightarrow> a < dg_nodes g" for a b
    using dominator_reach path_bound [OF _ assms] unfolding reach_def by (meson list.set_intros(1))
  have test: "(u \<noteq> v \<and> naive_dominator g r u v \<and>
     list_all (\<lambda>w. w \<noteq> v \<longrightarrow> naive_dominator g r w v \<longrightarrow> naive_dominator g r w u) [0..<dg_nodes g]) \<longleftrightarrow> is_idom g r v u" for u
    unfolding is_idom_def naive_dominator_iff [OF assms] list_all_iff using bound by auto
  have "naive_idom g r v = find (is_idom g r v) [0..<dg_nodes g]" unfolding naive_idom_def test by simp
  moreover have "find (is_idom g r v) [0..<dg_nodes g] = Some u" if "is_idom g r v u"
  proof -
    have "dominator g r u v" using that by (simp add: is_idom_def)
    then have "u \<in> set [0..<dg_nodes g]" using bound by simp
    then have "find (is_idom g r v) [0..<dg_nodes g] \<noteq> None" using that by (auto simp: find_None_iff)
    then obtain u' where u': "find (is_idom g r v) [0..<dg_nodes g] = Some u'" by blast
    then have "is_idom g r v u'" by (auto simp: find_Some_iff)
    then show ?thesis using u' is_idom_unique that by blast
  qed
  ultimately show ?thesis by (auto simp: find_Some_iff)
qed

lemma naive_dominators_ok:
  assumes "graph_wf g" "r < dg_nodes g"
  shows "dominators_spec g r (naive_dominators g r)"
proof -
  note idom = naive_idom_iff [OF assms]
  have "immediate_dominator (naive_dominators g r) v \<noteq> None \<longleftrightarrow> v \<noteq> r \<and> reach g r v" for v
  proof
    assume "immediate_dominator (naive_dominators g r) v \<noteq> None"
    then obtain u where "is_idom g r v u" using idom by (auto simp: naive_dominators_def)
    then show "v \<noteq> r \<and> reach g r v" using dominator_root dominator_reach unfolding is_idom_def by blast
  next
    assume "v \<noteq> r \<and> reach g r v"
    then show "immediate_dominator (naive_dominators g r) v \<noteq> None"
      using is_idom_exists idom by (fastforce simp: naive_dominators_def)
  qed
  moreover have "u \<noteq> v \<and> dominator g r u v \<and> (\<forall>w. w \<noteq> v \<longrightarrow> dominator g r w v \<longrightarrow> dominator g r w u)"
    if "immediate_dominator (naive_dominators g r) v = Some u" for u v
    using that idom by (simp add: naive_dominators_def is_idom_def)
  moreover have "v < dg_nodes g" if "is_idom g r v u" for u v
    using that dominator_reach path_bound [OF _ assms] unfolding is_idom_def reach_def by (meson list.set_intros(1))
  then have "distinct (immediately_dominated_by (naive_dominators g r) u) \<and>
      set (filter ((\<noteq>) u) (immediately_dominated_by (naive_dominators g r) u)) =
        {v. immediate_dominator (naive_dominators g r) v = Some u}" for u
    by (auto simp: naive_dominators_def idom is_idom_def)
  ultimately show ?thesis unfolding dominators_spec_def by blast
qed

text \<open>A branch whose sides meet: the meeting point is dominated by the branching node and not by the side.\<close>

definition branch_graph :: "jump_type digraph" where
  "branch_graph = \<lparr>dg_nodes = 3, dg_edges = [(0, 1, JtJmpIf), (0, 2, JtJmpIf), (1, 2, JtJmp)]\<rparr>"

definition naive_algos :: graph_algos where
  "naive_algos = \<lparr>simple_fast = naive_dominators,
     dfs_post_order = (\<lambda>g r. filter (reach_in (dg_nodes g) g (\<lambda>_. True) r) [0..<dg_nodes g]),
     bfs_order = (\<lambda>g r. filter (reach_in (dg_nodes g) g (\<lambda>_. True) r) [0..<dg_nodes g])\<rparr>"

lemma branch_edge: "edge branch_graph u v \<longleftrightarrow> u = 0 \<and> v = 1 \<or> u = 0 \<and> v = 2 \<or> u = 1 \<and> v = 2"
  by (auto simp: edge_def branch_graph_def)

lemma branch_paths: "path branch_graph 0 [0]" "path branch_graph 0 [1, 0]" "path branch_graph 0 [2, 0]"
  using path_root [of branch_graph 0] path_step [of branch_graph 0 0 "[]"] by (simp_all add: branch_edge)

lemma branch_reach: "reach branch_graph 0 v \<longleftrightarrow> v \<le> 2"
proof
  have "path branch_graph 0 p \<Longrightarrow> hd p \<le> 2" for p
    by (induction p rule: path.induct) (auto simp: branch_edge)
  then show "reach branch_graph 0 v \<Longrightarrow> v \<le> 2" by (fastforce simp: reach_def)
  assume "v \<le> 2"
  then have "v = 0 \<or> v = 1 \<or> v = 2" by linarith
  then show "reach branch_graph 0 v" using branch_paths by (auto simp: reach_def)
qed

lemma branch_dominator: "dominator branch_graph 0 u v \<longleftrightarrow> v \<le> 2 \<and> (u = v \<or> u = 0)"
proof
  assume d: "dominator branch_graph 0 u v"
  then have "v \<le> 2" using branch_reach by (simp add: dominator_def)
  then have "v = 0 \<or> v = 1 \<or> v = 2" by linarith
  then show "v \<le> 2 \<and> (u = v \<or> u = 0)"
    using d branch_paths unfolding dominator_def by (elim disjE) auto
next
  assume v: "v \<le> 2 \<and> (u = v \<or> u = 0)"
  then have "reach branch_graph 0 v" using branch_reach by simp
  then show "dominator branch_graph 0 u v" using v dominator_refl root_dominates by blast
qed

lemma numbering_decides_dominance_witness:
  "\<exists>d. from_graph naive_algos branch_graph 0 = Some d \<and> dominates_node d 0 2 \<and> \<not> dominates_node d 1 2"
proof -
  have "graph_wf branch_graph" "0 < dg_nodes branch_graph" by (simp_all add: graph_wf_def branch_graph_def)
  moreover from this have "dominators_spec branch_graph 0 (simple_fast naive_algos branch_graph 0)"
    using naive_dominators_ok by (simp add: naive_algos_def)
  ultimately obtain d where
    "from_graph naive_algos branch_graph 0 = Some d" "\<And>a b. dominates_node d a b \<longleftrightarrow> dominator branch_graph 0 a b"
    using numbering_decides_dominance by blast
  then show ?thesis by (auto simp: branch_dominator)
qed

end
