(* ===== verification/Cfg_Blocks.thy ===== *)
theory Cfg_Blocks
  imports Dominance
begin

text \<open>
  What the control flow graph of a function says about its blocks
  (\<^verbatim>\<open>CFGBuilder\<close> and \<^verbatim>\<open>CFG\<close> in \<^verbatim>\<open>compiler/src/compiler/analysis/flow_analysis.rs\<close>): the builder
  keeps the two maps between blocks and nodes inverse, and its edges are exactly the jumps of the terminators,
  so that the dominator pre-order of the graph lists the blocks that the entry block reaches.
\<close>

subsection \<open>Blocks that the entry reaches\<close>

fun term_targets :: "terminator option \<Rightarrow> block_id list" where
  "term_targets (Some (Jmp target _)) = [target]"
| "term_targets (Some (JmpIf _ t1 t2)) = [t1, t2]"
| "term_targets _ = []"

text \<open>Paths from the entry block, as the list of their blocks with the end first.\<close>

inductive block_path :: "('op, 'ty) func \<Rightarrow> block_id list \<Rightarrow> bool" for f where
  path_entry: "block_path f [f_entry_block f]"
| path_jump: "block_path f (b # p) \<Longrightarrow> map_of (f_blocks f) b = Some block \<Longrightarrow>
    t \<in> set (term_targets (b_terminator block)) \<Longrightarrow> block_path f (t # b # p)"

definition block_reach :: "('op, 'ty) func \<Rightarrow> block_id \<Rightarrow> bool" where
  "block_reach f b \<longleftrightarrow> (\<exists>p. block_path f (b # p))"

definition block_dominates :: "('op, 'ty) func \<Rightarrow> block_id \<Rightarrow> block_id \<Rightarrow> bool" where
  "block_dominates f a b \<longleftrightarrow> block_reach f b \<and> (\<forall>p. block_path f (b # p) \<longrightarrow> a \<in> set (b # p))"

lemma reach_entry: "block_reach f (f_entry_block f)"
  using path_entry by (auto simp: block_reach_def)

lemma reach_jump:
  "block_reach f b \<Longrightarrow> map_of (f_blocks f) b = Some block \<Longrightarrow> t \<in> set (term_targets (b_terminator block)) \<Longrightarrow>
    block_reach f t"
  using path_jump unfolding block_reach_def by blast

subsection \<open>The builder\<close>

text \<open>A node stands for the entry, the return or a block.\<close>

datatype node_ref = NEntry | NReturn | NBlock block_id

fun node_num :: "cfg_builder \<Rightarrow> node_ref \<Rightarrow> nat option" where
  "node_num c NEntry = Some (cb_entry_node c)"
| "node_num c NReturn = Some (cb_return_node c)"
| "node_num c (NBlock b) = map_of (cb_block_to_node c) b"

definition builder_ok :: "cfg_builder \<Rightarrow> (node_ref \<times> node_ref) set \<Rightarrow> bool" where
  "builder_ok c R \<longleftrightarrow> cb_entry_node c = 0 \<and> cb_return_node c = 1 \<and> 2 \<le> dg_nodes (cb_cfg c) \<and>
     (\<forall>b n. map_of (cb_block_to_node c) b = Some n \<longleftrightarrow> map_of (cb_node_to_block c) n = Some b) \<and>
     (\<forall>b n. map_of (cb_block_to_node c) b = Some n \<longrightarrow> 2 \<le> n \<and> n < dg_nodes (cb_cfg c)) \<and>
     (\<forall>u v. edge (cb_cfg c) u v \<longleftrightarrow> (\<exists>(s, t) \<in> R. node_num c s = Some u \<and> node_num c t = Some v)) \<and>
     (\<forall>(s, t) \<in> R. node_num c s \<noteq> None \<and> node_num c t \<noteq> None)"

lemma node_num_less: "builder_ok c R \<Longrightarrow> node_num c s = Some u \<Longrightarrow> u < dg_nodes (cb_cfg c)"
  by (cases s) (auto simp: builder_ok_def)

lemma node_num_inj: "builder_ok c R \<Longrightarrow> node_num c s = Some u \<Longrightarrow> node_num c t = Some u \<Longrightarrow> s = t"
  by (cases s; cases t) (fastforce simp: builder_ok_def)+

lemma builder_ok_wf: "builder_ok c R \<Longrightarrow> graph_wf (cb_cfg c)"
proof -
  assume ok: "builder_ok c R"
  have "u < dg_nodes (cb_cfg c) \<and> v < dg_nodes (cb_cfg c)" if "(u, v, e) \<in> set (dg_edges (cb_cfg c))" for u v e
  proof -
    have "edge (cb_cfg c) u v" using that by (auto simp: edge_def)
    then obtain s t where "node_num c s = Some u" "node_num c t = Some v" using ok by (auto simp: builder_ok_def)
    then show ?thesis using node_num_less [OF ok] by blast
  qed
  then show ?thesis by (auto simp: graph_wf_def)
qed

lemma builder_new_ok: "builder_ok cfg_builder_new {}"
  by (auto simp: builder_ok_def cfg_builder_new_def add_node_def dg_empty_def edge_def)

lemma block_node_ok:
  assumes ok: "builder_ok c R" and n: "block_node b c = (n, c')"
  shows "builder_ok c' R \<and> map_of (cb_block_to_node c') b = Some n \<and>
    map_of (cb_block_to_node c) \<subseteq>\<^sub>m map_of (cb_block_to_node c')"
proof (cases "map_of (cb_block_to_node c) b")
  case (Some m)
  then have c': "n = m" "c' = c\<lparr>cb_node_to_block := AList.update m b (cb_node_to_block c)\<rparr>"
    using n by (auto simp: block_node_def)
  have "map_of (cb_node_to_block c) m = Some b" using ok Some by (simp add: builder_ok_def)
  then have same: "map_of (cb_node_to_block c') = map_of (cb_node_to_block c)"
    by (simp add: c' update_conv' fun_upd_idem)
  have num: "node_num c' s = node_num c s" for s by (cases s) (simp_all add: c')
  have "builder_ok c' R" using ok unfolding builder_ok_def same num by (simp add: c')
  then show ?thesis using Some by (simp add: c')
next
  case None
  let ?m = "dg_nodes (cb_cfg c)"
  have c': "n = ?m" "c' = c\<lparr>cb_cfg := (cb_cfg c)\<lparr>dg_nodes := ?m + 1\<rparr>,
      cb_block_to_node := AList.update b ?m (cb_block_to_node c), cb_node_to_block := AList.update ?m b (cb_node_to_block c)\<rparr>"
    using n None by (auto simp: block_node_def add_node_def)
  have maps: "map_of (cb_block_to_node c') = (map_of (cb_block_to_node c))(b \<mapsto> ?m)"
    "map_of (cb_node_to_block c') = (map_of (cb_node_to_block c))(?m \<mapsto> b)"
    by (simp_all add: c' update_conv')
  have fresh: "map_of (cb_block_to_node c) b' \<noteq> Some ?m" "map_of (cb_node_to_block c) ?m = None" for b'
    using ok by (auto simp: builder_ok_def) (metis less_irrefl not_None_eq)
  have le: "map_of (cb_block_to_node c) \<subseteq>\<^sub>m map_of (cb_block_to_node c')"
    unfolding maps using None by (auto simp: map_le_def dom_def)
  have num: "node_num c' s = Some u" if "node_num c s = Some u" for s u
    using that le by (cases s) (auto simp: c' map_le_def dom_def)
  have edges: "edge (cb_cfg c') u v \<longleftrightarrow> edge (cb_cfg c) u v" for u v by (simp add: c' edge_def)
  have "edge (cb_cfg c) u v \<longleftrightarrow> (\<exists>(s, t) \<in> R. node_num c' s = Some u \<and> node_num c' t = Some v)" for u v
  proof -
    have "(node_num c' s = Some u \<and> node_num c' t = Some v) \<longleftrightarrow> (node_num c s = Some u \<and> node_num c t = Some v)"
      if st: "(s, t) \<in> R" for s t
    proof -
      have "node_num c s \<noteq> None" "node_num c t \<noteq> None" using ok st unfolding builder_ok_def by fast+
      then obtain x y where "node_num c s = Some x" "node_num c t = Some y" by blast
      then show ?thesis using num by auto
    qed
    moreover have "edge (cb_cfg c) u v \<longleftrightarrow> (\<exists>(s, t) \<in> R. node_num c s = Some u \<and> node_num c t = Some v)"
      using ok by (simp add: builder_ok_def)
    ultimately show ?thesis by fastforce
  qed
  moreover have "\<forall>(s, t) \<in> R. node_num c' s \<noteq> None \<and> node_num c' t \<noteq> None"
    using ok num unfolding builder_ok_def by fastforce
  moreover have "map_of (cb_block_to_node c') b' = Some n' \<longleftrightarrow> map_of (cb_node_to_block c') n' = Some b'" for b' n'
  proof -
    have "map_of (cb_block_to_node c) b' = Some n' \<longleftrightarrow> map_of (cb_node_to_block c) n' = Some b'"
      using ok by (simp add: builder_ok_def)
    moreover have "map_of (cb_node_to_block c) n' \<noteq> Some b" using ok None unfolding builder_ok_def by (metis option.distinct(1))
    ultimately show ?thesis unfolding maps using fresh(1) by auto
  qed
  moreover have "2 \<le> n' \<and> n' < dg_nodes (cb_cfg c')" if "map_of (cb_block_to_node c') b' = Some n'" for b' n'
    using ok that unfolding maps by (auto simp: builder_ok_def c' split: if_splits) fastforce
  moreover have "cb_entry_node c' = 0" "cb_return_node c' = 1" "2 \<le> dg_nodes (cb_cfg c')"
    using ok by (auto simp: builder_ok_def c')
  ultimately have "builder_ok c' R" unfolding builder_ok_def edges by blast
  then show ?thesis using le maps c'(1) by simp
qed

lemma add_edge_ok:
  assumes ok: "builder_ok c R" and "node_num c s = Some u" "node_num c t = Some v"
  shows "builder_ok (c\<lparr>cb_cfg := add_edge u v e (cb_cfg c)\<rparr>) (insert (s, t) R)"
proof -
  let ?c = "c\<lparr>cb_cfg := add_edge u v e (cb_cfg c)\<rparr>"
  have num: "node_num ?c = node_num c" by (rule ext, rename_tac s, case_tac s) simp_all
  have "edge (cb_cfg ?c) x y \<longleftrightarrow> edge (cb_cfg c) x y \<or> x = u \<and> y = v" for x y
    by (auto simp: edge_def add_edge_def)
  moreover have "edge (cb_cfg c) x y \<longleftrightarrow> (\<exists>(s, t) \<in> R. node_num c s = Some x \<and> node_num c t = Some y)" for x y
    using ok by (simp add: builder_ok_def)
  ultimately have "edge (cb_cfg ?c) x y \<longleftrightarrow> (\<exists>(s, t) \<in> insert (s, t) R. node_num c s = Some x \<and> node_num c t = Some y)" for x y
    using assms(2,3) by auto
  moreover have "\<forall>(s, t) \<in> insert (s, t) R. node_num c s \<noteq> None \<and> node_num c t \<noteq> None"
    using ok assms(2,3) by (auto simp: builder_ok_def)
  ultimately show ?thesis using ok unfolding builder_ok_def num by (simp add: add_edge_def)
qed

subsection \<open>The whole graph\<close>

definition ends_function :: "terminator option \<Rightarrow> bool" where
  "ends_function tm \<longleftrightarrow> (case tm of Some (Return _) \<Rightarrow> True | _ \<Rightarrow> False)"

definition block_edges :: "block_id \<Rightarrow> terminator option \<Rightarrow> (node_ref \<times> node_ref) set" where
  "block_edges b tm = (\<lambda>t. (NBlock b, NBlock t)) ` set (term_targets tm) \<union>
     (if ends_function tm then {(NBlock b, NReturn)} else {})"

definition jump_edges :: "('op, 'ty) func \<Rightarrow> (node_ref \<times> node_ref) set" where
  "jump_edges f = insert (NEntry, NBlock (f_entry_block f)) (\<Union>(b, block) \<in> set (f_blocks f). block_edges b (b_terminator block))"

abbreviation nodes_le :: "cfg_builder \<Rightarrow> cfg_builder \<Rightarrow> bool" where
  "nodes_le c c' \<equiv> map_of (cb_block_to_node c) \<subseteq>\<^sub>m map_of (cb_block_to_node c')"

lemma add_jump_ok:
  assumes "builder_ok c R"
  shows "builder_ok (add_jump b t jt c) (insert (NBlock b, NBlock t) R) \<and> nodes_le c (add_jump b t jt c)"
proof -
  obtain n c1 where 1: "block_node b c = (n, c1)" by fastforce
  obtain m c2 where 2: "block_node t c1 = (m, c2)" by fastforce
  note s = block_node_ok [OF assms 1]
  note s' = block_node_ok [OF s [THEN conjunct1] 2]
  have "node_num c2 (NBlock b) = Some n" "node_num c2 (NBlock t) = Some m"
    using s s' by (auto simp: map_le_def dom_def)
  then show ?thesis using add_edge_ok [of c2 R] s s' map_le_trans by (auto simp: add_jump_def 1 2)
qed

lemma add_return_ok:
  assumes "builder_ok c R"
  shows "builder_ok (add_return b c) (insert (NBlock b, NReturn) R) \<and> nodes_le c (add_return b c)"
proof -
  obtain n c1 where 1: "block_node b c = (n, c1)" by fastforce
  note s = block_node_ok [OF assms 1]
  then show ?thesis using add_edge_ok [of c1 R "NBlock b" n NReturn] by (simp add: add_return_def 1)
qed

lemma add_terminator_ok:
  assumes "builder_ok c R"
  shows "builder_ok (add_terminator b tm c) (block_edges b tm \<union> R) \<and> nodes_le c (add_terminator b tm c)"
proof (cases tm)
  case None
  then show ?thesis using assms by (simp add: block_edges_def ends_function_def)
next
  case (Some t)
  show ?thesis
  proof (cases t)
    case (Jmp target ps)
    then show ?thesis using Some add_jump_ok [OF assms] by (simp add: block_edges_def ends_function_def)
  next
    case (JmpIf cond t1 t2)
    have "block_edges b tm \<union> R = insert (NBlock b, NBlock t2) (insert (NBlock b, NBlock t1) R)"
      using Some JmpIf by (auto simp: block_edges_def ends_function_def)
    moreover have "nodes_le c (add_jump b t2 JtJmpIf (add_jump b t1 JtJmpIf c))"
      using add_jump_ok [OF add_jump_ok [OF assms, THEN conjunct1]] add_jump_ok [OF assms] map_le_trans by blast
    ultimately show ?thesis
      using Some JmpIf add_jump_ok [OF add_jump_ok [OF assms, THEN conjunct1]] by simp
  next
    case (Return rs)
    then show ?thesis using Some add_return_ok [OF assms] by (simp add: block_edges_def ends_function_def)
  qed
qed

lemma add_blocks_ok:
  "builder_ok c R \<Longrightarrow> builder_ok (fold (\<lambda>(b, _). cfg_add_block b) bs c) R \<and>
     (\<forall>b. b \<in> fst ` set bs \<or> map_of (cb_block_to_node c) b \<noteq> None \<longrightarrow>
        map_of (cb_block_to_node (fold (\<lambda>(b, _). cfg_add_block b) bs c)) b \<noteq> None)"
proof (induction bs arbitrary: c)
  case (Cons x bs)
  obtain b block where x: "x = (b, block)" by fastforce
  obtain n c1 where 1: "block_node b c = (n, c1)" by fastforce
  note s = block_node_ok [OF Cons.prems 1]
  have keep: "map_of (cb_block_to_node c1) b' \<noteq> None" if "b' = b \<or> map_of (cb_block_to_node c) b' \<noteq> None" for b'
    using s that by (auto simp: map_le_def dom_def)
  show ?case using Cons.IH [OF s [THEN conjunct1]] keep unfolding x by (auto simp: cfg_add_block_def 1)
qed simp

lemma add_terminators_ok:
  "builder_ok c R \<Longrightarrow>
     builder_ok (fold (\<lambda>(b, block). add_terminator b (b_terminator block)) bs c)
       ((\<Union>(b, block) \<in> set bs. block_edges b (b_terminator block)) \<union> R) \<and>
     nodes_le c (fold (\<lambda>(b, block). add_terminator b (b_terminator block)) bs c)"
proof (induction bs arbitrary: c R)
  case (Cons x bs)
  obtain b block where x: "x = (b, block)" by fastforce
  note s = add_terminator_ok [OF Cons.prems, of b "b_terminator block"]
  have "(\<Union>(b, block) \<in> set (x # bs). block_edges b (b_terminator block)) \<union> R =
    (\<Union>(b, block) \<in> set bs. block_edges b (b_terminator block)) \<union> (block_edges b (b_terminator block) \<union> R)"
    unfolding x by auto
  then show ?case using Cons.IH [OF s [THEN conjunct1]] s map_le_trans unfolding x by auto
qed simp

text \<open>Of a function whose entry block exists, the builder makes the graph of its jumps.\<close>

lemma function_builder:
  assumes "map_of (f_blocks f) (f_entry_block f) \<noteq> None"
  shows "\<exists>c. cfg_of_function A f = build_cfg A c \<and> builder_ok c (jump_edges f) \<and>
    (\<forall>b \<in> fst ` set (f_blocks f). map_of (cb_block_to_node c) b \<noteq> None)"
proof -
  let ?c = "fold (\<lambda>(b, _). cfg_add_block b) (f_blocks f) cfg_builder_new"
  note c = add_blocks_ok [OF builder_new_ok, of "f_blocks f"]
  have "f_entry_block f \<in> fst ` set (f_blocks f)" using assms by (simp add: map_of_eq_None_iff)
  then obtain n where n: "map_of (cb_block_to_node ?c) (f_entry_block f) = Some n" using c by blast
  let ?c1 = "?c\<lparr>cb_cfg := add_edge (cb_entry_node ?c) n JtEntry (cb_cfg ?c)\<rparr>"
  let ?c2 = "fold (\<lambda>(b, block). add_terminator b (b_terminator block)) (f_blocks f) ?c1"
  have "builder_ok ?c1 {(NEntry, NBlock (f_entry_block f))}" using add_edge_ok [of ?c "{}"] c n by simp
  note t = add_terminators_ok [OF this, of "f_blocks f"]
  have "cfg_of_function A f = build_cfg A ?c2" by (simp add: cfg_of_function_def set_entry_def n)
  moreover have "builder_ok ?c2 (jump_edges f)" using t by (simp add: jump_edges_def Un_commute)
  moreover have "map_of (cb_block_to_node ?c2) b \<noteq> None" if "b \<in> fst ` set (f_blocks f)" for b
  proof -
    have "map_of (cb_block_to_node ?c1) b \<noteq> None" using c that by simp
    then show ?thesis using t by (auto simp: map_le_def dom_def)
  qed
  ultimately show ?thesis by blast
qed

subsection \<open>Paths of blocks are paths of the graph\<close>

lemma jump_edge_block:
  "distinct (map fst (f_blocks f)) \<Longrightarrow> (NBlock b, NBlock t) \<in> jump_edges f \<longleftrightarrow>
     (\<exists>block. map_of (f_blocks f) b = Some block \<and> t \<in> set (term_targets (b_terminator block)))"
  by (fastforce simp: jump_edges_def block_edges_def split: if_splits)

lemma jump_edge_entry: "(NEntry, t) \<in> jump_edges f \<longleftrightarrow> t = NBlock (f_entry_block f)"
  by (auto simp: jump_edges_def block_edges_def split: if_splits)

lemma jump_edge_no: "(s, NEntry) \<notin> jump_edges f" "(NReturn, t) \<notin> jump_edges f"
  by (auto simp: jump_edges_def block_edges_def split: if_splits)

definition node_of_block :: "cfg_builder \<Rightarrow> block_id \<Rightarrow> nat" where
  "node_of_block c b = the (map_of (cb_block_to_node c) b)"

lemma builder_edge:
  "builder_ok c R \<Longrightarrow> node_num c s = Some u \<Longrightarrow> node_num c t = Some v \<Longrightarrow> edge (cb_cfg c) u v \<longleftrightarrow> (s, t) \<in> R"
proof -
  assume a: "builder_ok c R" "node_num c s = Some u" "node_num c t = Some v"
  have "edge (cb_cfg c) u v \<longleftrightarrow> (\<exists>(s', t') \<in> R. node_num c s' = Some u \<and> node_num c t' = Some v)"
    using a(1) by (simp add: builder_ok_def)
  also have "\<dots> \<longleftrightarrow> (s, t) \<in> R" using node_num_inj [OF a(1)] a(2,3) by blast
  finally show ?thesis .
qed

lemma builder_edge_nodes:
  "builder_ok c R \<Longrightarrow> edge (cb_cfg c) u v \<Longrightarrow> \<exists>s t. (s, t) \<in> R \<and> node_num c s = Some u \<and> node_num c t = Some v"
  unfolding builder_ok_def by blast

text \<open>The builder holds the graph of the function.\<close>

definition represents :: "cfg_builder \<Rightarrow> ('op, 'ty) func \<Rightarrow> bool" where
  "represents c f \<longleftrightarrow> builder_ok c (jump_edges f) \<and> distinct (map fst (f_blocks f))"

lemma representsD:
  assumes "represents c f"
  shows "builder_ok c (jump_edges f)" "distinct (map fst (f_blocks f))" "node_num c NEntry = Some 0"
    "node_num c NReturn = Some 1"
  using assms by (simp_all add: represents_def builder_ok_def)

lemma jump_target_known:
  "represents c f \<Longrightarrow> (s, NBlock t) \<in> jump_edges f \<Longrightarrow> node_num c (NBlock t) = Some (node_of_block c t)"
proof -
  assume "represents c f" "(s, NBlock t) \<in> jump_edges f"
  then have "node_num c (NBlock t) \<noteq> None" using representsD(1) unfolding builder_ok_def by blast
  then show ?thesis by (auto simp: node_of_block_def)
qed

lemma block_path_path:
  assumes "represents c f"
  shows "block_path f p \<Longrightarrow> path (cb_cfg c) 0 (map (node_of_block c) p @ [0]) \<and>
     (\<forall>b \<in> set p. node_num c (NBlock b) = Some (node_of_block c b))"
proof (induction rule: block_path.induct)
  case path_entry
  have e: "(NEntry, NBlock (f_entry_block f)) \<in> jump_edges f" by (simp add: jump_edge_entry)
  note k = jump_target_known [OF assms e]
  have "edge (cb_cfg c) 0 (node_of_block c (f_entry_block f))" using builder_edge [OF representsD(1) [OF assms] representsD(3) [OF assms] k] e by blast
  then show ?case using k path_step [OF path_root] by simp
next
  case (path_jump b p block t)
  have e: "(NBlock b, NBlock t) \<in> jump_edges f" using path_jump(2,3) jump_edge_block [OF representsD(2) [OF assms]] by blast
  note k = jump_target_known [OF assms e]
  have "node_num c (NBlock b) = Some (node_of_block c b)" using path_jump.IH by simp
  then have "edge (cb_cfg c) (node_of_block c b) (node_of_block c t)" using builder_edge [OF representsD(1) [OF assms] _ k] e by blast
  moreover have "path (cb_cfg c) 0 (node_of_block c b # map (node_of_block c) p @ [0])" using path_jump.IH by simp
  ultimately have "path (cb_cfg c) 0 (map (node_of_block c) (t # b # p) @ [0])" using path_step by simp
  then show ?case using k path_jump.IH by auto
qed

lemma path_block_path:
  assumes "represents c f"
  shows "path (cb_cfg c) 0 p \<Longrightarrow> p = [0] \<or> (\<exists>q. block_path f q \<and> p = map (node_of_block c) q @ [0]) \<or>
     hd p = 1"
proof (induction p rule: path.induct)
  note ok = representsD(1) [OF assms] and keys = representsD(2) [OF assms] and entry_node = representsD(3) [OF assms]
    and one = representsD(4) [OF assms]
  case (path_step u p v)
  obtain s t where st: "(s, t) \<in> jump_edges f" "node_num c s = Some u" "node_num c t = Some v"
    using builder_edge_nodes [OF ok path_step.hyps(2)] by blast
  show ?case
  proof (cases t)
    case NReturn
    then show ?thesis using st(3) one by simp
  next
    case (NBlock b)
    have v: "v = node_of_block c b" using st(3) NBlock by (simp add: node_of_block_def)
    from path_step.IH show ?thesis
    proof (elim disjE exE conjE)
      assume "u # p = [0]"
      then have "s = NEntry" "p = []" using node_num_inj [OF ok st(2)] entry_node by auto
      then have "b = f_entry_block f" using st(1) NBlock jump_edge_entry by blast
      then have "block_path f [b]" "v # u # p = map (node_of_block c) [b] @ [0]"
        using path_entry v \<open>u # p = [0]\<close> by simp_all
      then show ?thesis by blast
    next
      fix q
      assume q: "block_path f q" "u # p = map (node_of_block c) q @ [0]"
      then obtain b' q' where q': "q = b' # q'" using block_path.cases by (metis list.exhaust list.distinct(1))
      have "node_num c (NBlock b') = Some u" using block_path_path [OF assms q(1)] q(2) q' by simp
      then have "s = NBlock b'" using node_num_inj [OF ok st(2)] by blast
      then obtain block where "map_of (f_blocks f) b' = Some block" "b \<in> set (term_targets (b_terminator block))"
        using st(1) NBlock jump_edge_block [OF keys] by blast
      then have "block_path f (b # q)" using path_jump q(1) q' by blast
      moreover have "v # u # p = map (node_of_block c) (b # q) @ [0]" using q(2) v by simp
      ultimately show ?thesis by blast
    next
      assume "hd (u # p) = 1"
      then have "s = NReturn" using node_num_inj [OF ok st(2)] one by simp
      then show ?thesis using st(1) jump_edge_no by blast
    qed
  qed (use st(1) jump_edge_no in blast)
qed simp

lemma block_node_num:
  "represents c f \<Longrightarrow> map_of (cb_block_to_node c) b = Some n \<Longrightarrow> n = node_of_block c b \<and> 2 \<le> n"
  unfolding represents_def builder_ok_def node_of_block_def by (metis option.sel)

lemma path_to_block:
  assumes r: "represents c f" and b: "map_of (cb_block_to_node c) b = Some n"
  shows "path (cb_cfg c) 0 (n # p) \<longleftrightarrow> (\<exists>q. block_path f (b # q) \<and> p = map (node_of_block c) q @ [0])"
proof
  assume "path (cb_cfg c) 0 (n # p)"
  then obtain q where q: "block_path f q" "n # p = map (node_of_block c) q @ [0]"
    using path_block_path [OF r] block_node_num [OF r b] by fastforce
  then obtain b' q' where q': "q = b' # q'" using block_path.cases by (metis list.exhaust list.distinct(1))
  then have "node_num c (NBlock b') = Some n" using block_path_path [OF r q(1)] q(2) by simp
  then have "b' = b" using node_num_inj [OF representsD(1) [OF r], of "NBlock b'" n "NBlock b"] b by simp
  then show "\<exists>q. block_path f (b # q) \<and> p = map (node_of_block c) q @ [0]" using q q' by auto
next
  assume "\<exists>q. block_path f (b # q) \<and> p = map (node_of_block c) q @ [0]"
  then obtain q where "block_path f (b # q)" "p = map (node_of_block c) q @ [0]" by blast
  then show "path (cb_cfg c) 0 (n # p)" using block_path_path [OF r] block_node_num [OF r b] by fastforce
qed

lemma reach_block:
  "represents c f \<Longrightarrow> map_of (cb_block_to_node c) b = Some n \<Longrightarrow> reach (cb_cfg c) 0 n \<longleftrightarrow> block_reach f b"
  unfolding reach_def block_reach_def using path_to_block by blast

lemma block_reach_known: "represents c f \<Longrightarrow> block_reach f b \<Longrightarrow> map_of (cb_block_to_node c) b = Some (node_of_block c b)"
  unfolding block_reach_def using block_path_path by fastforce

lemma dominator_block:
  assumes r: "represents c f" and a: "map_of (cb_block_to_node c) a = Some m"
    and b: "map_of (cb_block_to_node c) b = Some n"
  shows "dominator (cb_cfg c) 0 m n \<longleftrightarrow> block_dominates f a b"
proof -
  have "m \<in> set (n # map (node_of_block c) q @ [0]) \<longleftrightarrow> a \<in> set (b # q)" if q: "block_path f (b # q)" for q
  proof -
    have "node_of_block c x = m \<longleftrightarrow> x = a" if "x \<in> set (b # q)" for x
    proof -
      have "node_num c (NBlock x) = Some (node_of_block c x)" using block_path_path [OF r q] that by blast
      then show ?thesis
        using node_num_inj [OF representsD(1) [OF r], of "NBlock x" m "NBlock a"] a block_node_num [OF r a] by auto
    qed
    moreover have "n = node_of_block c b" "m \<noteq> 0" using block_node_num [OF r b] block_node_num [OF r a] by simp_all
    ultimately show ?thesis by auto
  qed
  moreover have "(\<forall>p. path (cb_cfg c) 0 (n # p) \<longrightarrow> m \<in> set (n # p)) \<longleftrightarrow>
      (\<forall>q. block_path f (b # q) \<longrightarrow> m \<in> set (n # map (node_of_block c) q @ [0]))"
    unfolding path_to_block [OF r b] by blast
  ultimately show ?thesis unfolding dominator_def block_dominates_def reach_block [OF r b] by blast
qed

subsection \<open>The graph of a function\<close>

definition dominators_ok :: "graph_algos \<Rightarrow> bool" where
  "dominators_ok A \<longleftrightarrow> (\<forall>g r. graph_wf g \<longrightarrow> r < dg_nodes g \<longrightarrow> dominators_spec g r (simple_fast A g r))"

lemma naive_algos_ok: "dominators_ok naive_algos"
  by (simp add: dominators_ok_def naive_algos_def naive_dominators_ok)

lemma build_cfg_ok:
  assumes A: "dominators_ok A" and r: "represents c f"
  shows "\<exists>k. build_cfg A c = Some k \<and> cf_block_to_node k = cb_block_to_node c \<and>
    cf_node_to_block k = cb_node_to_block c \<and> cd_cfg (cf_cfg k) = cb_cfg c \<and>
    set (cd_dominator_pre_order (cf_cfg k)) = {v. reach (cb_cfg c) 0 v} \<and>
    distinct (cd_dominator_pre_order (cf_cfg k)) \<and>
    (\<forall>a b. dominates_node (cf_cfg k) a b \<longleftrightarrow> dominator (cb_cfg c) 0 a b)"
proof -
  let ?r = "dg_reverse (cb_cfg c)"
  have n: "2 \<le> dg_nodes (cb_cfg c)" "cb_entry_node c = 0" "cb_return_node c = 1"
    using representsD(1) [OF r] by (simp_all add: builder_ok_def)
  have wf: "graph_wf (cb_cfg c)" by (rule builder_ok_wf [OF representsD(1) [OF r]])
  then have wfr: "graph_wf ?r" by (auto simp: graph_wf_def dg_reverse_def)
  have nr: "dg_nodes ?r = dg_nodes (cb_cfg c)" by (simp add: dg_reverse_def)
  obtain d where d: "from_graph A (cb_cfg c) 0 = Some d" "cd_cfg d = cb_cfg c"
    "set (cd_dominator_pre_order d) = {v. reach (cb_cfg c) 0 v}" "distinct (cd_dominator_pre_order d)"
    "\<And>a b. dominates_node d a b \<longleftrightarrow> dominator (cb_cfg c) 0 a b"
    using from_graph_dominance [of "cb_cfg c" 0 A] A wf n unfolding dominators_ok_def by fastforce
  obtain e where e: "from_graph A ?r 1 = Some e"
    using from_graph_dominance [of ?r 1 A] A wfr n nr unfolding dominators_ok_def by fastforce
  show ?thesis using d e n by (simp add: build_cfg_def)
qed

lemma set_map_filter: "set (List.map_filter h xs) = {y. \<exists>x \<in> set xs. h x = Some y}"
  by (force simp: List.map_filter_def)

lemma successors_edge: "v \<in> set (successors k n) \<longleftrightarrow> edge (cd_cfg (cf_cfg k)) n v"
  by (force simp: successors_def out_edges_def edge_def)

lemma distinct_map_filter:
  "distinct xs \<Longrightarrow> (\<And>x y z. h x = Some z \<Longrightarrow> h y = Some z \<Longrightarrow> x = y) \<Longrightarrow> distinct (List.map_filter h xs)"
  by (induction xs) (auto simp: set_map_filter split: option.splits)

lemma cfg_of_function_blocks:
  assumes "dominators_ok A" "map_of (f_blocks f) (f_entry_block f) \<noteq> None" "distinct (map fst (f_blocks f))"
  shows "\<exists>c. cfg_of_function A f = Some c \<and> set (get_domination_pre_order c) = {b. block_reach f b} \<and>
    (\<forall>a \<in> fst ` set (f_blocks f). \<forall>b \<in> fst ` set (f_blocks f). dominates c a b = Some (block_dominates f a b)) \<and>
    (\<forall>(b, block) \<in> set (f_blocks f). \<exists>bs. get_successors c b = Some bs \<and> set bs = set (term_targets (b_terminator block))) \<and>
    distinct (get_domination_pre_order c)"
proof -
  obtain c where c: "cfg_of_function A f = build_cfg A c" "builder_ok c (jump_edges f)"
    "\<And>b. b \<in> fst ` set (f_blocks f) \<Longrightarrow> map_of (cb_block_to_node c) b \<noteq> None"
    using function_builder [OF assms(2), of A] by (elim exE conjE) (rule that, auto)
  have r: "represents c f" using c(2) assms(3) by (simp add: represents_def)
  obtain k where k: "build_cfg A c = Some k" "cf_block_to_node k = cb_block_to_node c"
    "cf_node_to_block k = cb_node_to_block c" "cd_cfg (cf_cfg k) = cb_cfg c"
    "set (cd_dominator_pre_order (cf_cfg k)) = {v. reach (cb_cfg c) 0 v}" "distinct (cd_dominator_pre_order (cf_cfg k))"
    "\<And>a b. dominates_node (cf_cfg k) a b \<longleftrightarrow> dominator (cb_cfg c) 0 a b"
    using build_cfg_ok [OF assms(1) r] by blast
  have n2b: "map_of (cb_node_to_block c) n = Some b \<longleftrightarrow> map_of (cb_block_to_node c) b = Some n" for n b
    using c(2) by (simp add: builder_ok_def)
  have "b \<in> set (get_domination_pre_order k) \<longleftrightarrow> block_reach f b" for b
  proof -
    have "b \<in> set (get_domination_pre_order k) \<longleftrightarrow> (\<exists>n. map_of (cb_block_to_node c) b = Some n \<and> reach (cb_cfg c) 0 n)"
      unfolding get_domination_pre_order_def blocks_of_def set_map_filter k(3,5) n2b by auto
    then show ?thesis using reach_block [OF r] block_reach_known [OF r] by metis
  qed
  moreover have "dominates k a b = Some (block_dominates f a b)"
    if ab: "a \<in> fst ` set (f_blocks f)" "b \<in> fst ` set (f_blocks f)" for a b
  proof -
    obtain m n where "map_of (cb_block_to_node c) a = Some m" "map_of (cb_block_to_node c) b = Some n"
      using c(3) [OF ab(1)] c(3) [OF ab(2)] by blast
    then show ?thesis using dominator_block [OF r] by (simp add: dominates_def node_of_def k)
  qed
  moreover have "\<exists>bs. get_successors k b = Some bs \<and> set bs = set (term_targets (b_terminator block))"
    if b: "(b, block) \<in> set (f_blocks f)" for b block
  proof -
    have m: "map_of (f_blocks f) b = Some block" using b assms(3) by simp
    obtain n where n: "map_of (cb_block_to_node c) b = Some n" using c(3) [of b] b by force
    have "t \<in> set (blocks_of k (successors k n)) \<longleftrightarrow> t \<in> set (term_targets (b_terminator block))" for t
    proof -
      have "t \<in> set (blocks_of k (successors k n)) \<longleftrightarrow> (\<exists>v. edge (cb_cfg c) n v \<and> map_of (cb_block_to_node c) t = Some v)"
        using k(3,4) by (simp add: blocks_of_def set_map_filter n2b Bex_def successors_edge)
      also have "\<dots> \<longleftrightarrow> (NBlock b, NBlock t) \<in> jump_edges f"
      proof
        assume "\<exists>v. edge (cb_cfg c) n v \<and> map_of (cb_block_to_node c) t = Some v"
        then show "(NBlock b, NBlock t) \<in> jump_edges f" using builder_edge [OF c(2), of "NBlock b" n "NBlock t"] n by auto
      next
        assume e: "(NBlock b, NBlock t) \<in> jump_edges f"
        note t = jump_target_known [OF r e]
        show "\<exists>v. edge (cb_cfg c) n v \<and> map_of (cb_block_to_node c) t = Some v"
          using builder_edge [OF c(2) _ t, of "NBlock b" n] n t e by auto
      qed
      also have "\<dots> \<longleftrightarrow> t \<in> set (term_targets (b_terminator block))" using jump_edge_block [OF assms(3)] m by auto
      finally show ?thesis .
    qed
    then show ?thesis by (auto simp: get_successors_def node_of_def k n)
  qed
  moreover have "distinct (get_domination_pre_order k)"
    unfolding get_domination_pre_order_def blocks_of_def k(3) by (rule distinct_map_filter [OF k(6)]) (simp add: n2b)
  moreover have "cfg_of_function A f = Some k" using c(1) k(1) by simp
  ultimately show ?thesis by (intro exI [of _ k]) blast
qed

text \<open>C10. For a function whose entry block exists, the control flow graph is built without a panic, its
  dominator pre-order lists exactly the blocks that jumps lead to from the entry block, one block dominates
  another exactly when every sequence of jumps from the entry to the second goes through the first, and the
  successors of a block are the targets of its terminator.\<close>

theorem cfg_of_function_correct:
  assumes "dominators_ok A" "map_of (f_blocks f) (f_entry_block f) \<noteq> None" "distinct (map fst (f_blocks f))"
  shows "\<exists>c. cfg_of_function A f = Some c \<and> set (get_domination_pre_order c) = {b. block_reach f b} \<and>
    (\<forall>a \<in> fst ` set (f_blocks f). \<forall>b \<in> fst ` set (f_blocks f). dominates c a b = Some (block_dominates f a b)) \<and>
    (\<forall>(b, block) \<in> set (f_blocks f). \<exists>bs. get_successors c b = Some bs \<and> set bs = set (term_targets (b_terminator block)))"
  using cfg_of_function_blocks [OF assms] by blast

text \<open>A function that branches, with a block that nothing jumps to.\<close>

definition branch_function :: "(nat, nat) func" where
  "branch_function = \<lparr>f_entry_block = 0, f_blocks =
     [(0, \<lparr>b_parameters = [], b_instructions = [], b_terminator = Some (JmpIf 7 1 2)\<rparr>),
      (1, \<lparr>b_parameters = [], b_instructions = [], b_terminator = Some (Jmp 2 [])\<rparr>),
      (2, \<lparr>b_parameters = [], b_instructions = [], b_terminator = Some (Return [])\<rparr>),
      (3, \<lparr>b_parameters = [], b_instructions = [], b_terminator = Some (Jmp 2 [])\<rparr>)],
     f_name = ''branch'', f_returns = [], f_next_block = 4\<rparr>"

lemma branch_function_reach: "block_reach branch_function b \<longleftrightarrow> b \<le> 2"
proof
  have "block_path branch_function p \<Longrightarrow> hd p \<le> 2" for p
    by (induction p rule: block_path.induct) (auto simp: branch_function_def split: if_splits)
  then show "block_reach branch_function b \<Longrightarrow> b \<le> 2" by (fastforce simp: block_reach_def)
next
  assume "b \<le> 2"
  then have "b = 0 \<or> b = 1 \<or> b = 2" by linarith
  moreover have 0: "block_reach branch_function 0" using reach_entry [of branch_function] by (simp add: branch_function_def)
  ultimately show "block_reach branch_function b"
    using reach_jump [OF 0] by (auto simp: branch_function_def)
qed

lemma cfg_of_function_correct_witness:
  "\<exists>c. cfg_of_function naive_algos branch_function = Some c \<and> set (get_domination_pre_order c) = {0, 1, 2}"
proof -
  have "map_of (f_blocks branch_function) (f_entry_block branch_function) \<noteq> None"
    "distinct (map fst (f_blocks branch_function))" by (simp_all add: branch_function_def)
  moreover have "{b. block_reach branch_function b} = {0, 1, 2}" by (auto simp: branch_function_reach)
  ultimately show ?thesis using cfg_of_function_correct [OF naive_algos_ok, of branch_function] by auto
qed

end
