(* ===== verification/Unreachable_Passes.thy ===== *)
theory Unreachable_Passes
  imports Symbolic_Executor Cfg_Blocks
begin

text \<open>
  The passes that remove what is never executed
  (\<^verbatim>\<open>compiler/src/compiler/passes/remove_unreachable_blocks.rs\<close>,
  \<^verbatim>\<open>remove_unreachable_functions.rs\<close>), and the argument that they change nothing: a program that agrees with
  another on the blocks that jumps reach and on the functions that calls reach runs exactly like it, for every
  client of the symbolic executor.
\<close>

subsection \<open>The passes\<close>

definition remove_unreachable_in :: "cfg \<Rightarrow> ('op, 'ty) func \<Rightarrow> ('op, 'ty) func option" where
  "remove_unreachable_in c f = (
     let reachable = get_domination_pre_order c; all_blocks = map fst (f_blocks f) in
     opt_fold (\<lambda>b f. if b \<in> set reachable then Some f else map_option snd (take_block b f)) all_blocks f)"

definition remove_unreachable_blocks :: "flow_analysis \<Rightarrow> ('op, 'ty, 'c) ssa \<Rightarrow> ('op, 'ty, 'c) ssa option" where
  "remove_unreachable_blocks fa s = do {
     fs \<leftarrow> opt_map (\<lambda>(fid, f). do {
       c \<leftarrow> get_function_cfg fa fid;
       f \<leftarrow> remove_unreachable_in c f;
       Some (fid, f) }) (s_functions s);
     Some (s\<lparr>s_functions := fs\<rparr>) }"

definition remove_unreachable_functions ::
  "graph_algos \<Rightarrow> flow_analysis \<Rightarrow> ('op, 'ty, 'c) ssa \<Rightarrow> ('op, 'ty, 'c) ssa option" where
  "remove_unreachable_functions A fa s = do {
     reachable \<leftarrow> get_post_order A (fa_call_graph fa) (s_main_id s);
     Some (fold (\<lambda>fid s. if fid \<in> set reachable then s else snd (delete_function fid s))
       (map fst (s_functions s)) s) }"

subsection \<open>Programs that run alike\<close>

definition func_sim :: "('op, 'ty) func \<Rightarrow> ('op, 'ty) func \<Rightarrow> bool" where
  "func_sim f f' \<longleftrightarrow> f_entry_block f' = f_entry_block f \<and> f_returns f' = f_returns f \<and>
     (\<forall>b. block_reach f b \<longrightarrow> get_block b f' = get_block b f)"

definition calls_within :: "function_id set \<Rightarrow> hl_function \<Rightarrow> bool" where
  "calls_within F f \<longleftrightarrow> (\<forall>b block i. get_block b f = Some block \<longrightarrow> i \<in> set (b_instructions block) \<longrightarrow>
     set (get_static_call_targets i) \<subseteq> F)"

text \<open>The functions of \<open>F\<close> only call functions of \<open>F\<close>, and the other program has them too.\<close>

definition ssa_sim :: "function_id set \<Rightarrow> 'f hlssa \<Rightarrow> 'f hlssa \<Rightarrow> bool" where
  "ssa_sim F s s' \<longleftrightarrow> s_constants s' = s_constants s \<and> num_globals s' = num_globals s \<and>
     (\<forall>fid \<in> F. rel_option func_sim (get_function fid s) (get_function fid s')) \<and>
     (\<forall>fid \<in> F. \<forall>f. get_function fid s = Some f \<longrightarrow> calls_within F f)"

lemma func_sim_entry: "func_sim f f' \<Longrightarrow> get_entry f' = get_entry f"
  using reach_entry [of f] by (auto simp: func_sim_def get_entry_def get_block_def)

text \<open>An instruction only sees the program through the parameter types of the functions it calls.\<close>

definition same_signatures :: "function_id set \<Rightarrow> 'f hlssa \<Rightarrow> 'f hlssa \<Rightarrow> bool" where
  "same_signatures F s s' \<longleftrightarrow> (\<forall>fid \<in> F.
     Option.bind (get_function fid s') get_param_types = Option.bind (get_function fid s) get_param_types)"

lemma ssa_sim_signatures: "ssa_sim F s s' \<Longrightarrow> same_signatures F s s'"
  unfolding same_signatures_def
proof
  fix fid assume "ssa_sim F s s'" "fid \<in> F"
  then have "rel_option func_sim (get_function fid s) (get_function fid s')" by (simp add: ssa_sim_def)
  then show "Option.bind (get_function fid s') get_param_types = Option.bind (get_function fid s) get_param_types"
    by (cases "get_function fid s") (auto simp: option_rel_Some1 get_param_types_def func_sim_entry)
qed

lemma exec_instr_sim:
  assumes "same_signatures F s s'" "set (get_static_call_targets i) \<subseteq> F" "\<And>fid. fid \<in> F \<Longrightarrow> call' fid = call fid"
  shows "exec_instr S s' call' ty_of consts i st = exec_instr S s call ty_of consts i st"
proof (cases "\<exists>rs fid as u. i = OpCall rs (CallStatic fid) as u")
  case True
  then obtain rs fid as u where i: "i = OpCall rs (CallStatic fid) as u" by blast
  then have F: "fid \<in> F" using assms(2) by simp
  have p: "Option.bind (get_function fid s') (\<lambda>f. Option.bind (get_param_types f) k) =
      Option.bind (get_function fid s) (\<lambda>f. Option.bind (get_param_types f) k)" for k :: "ty list \<Rightarrow> 'z option"
    using assms(1) F by (metis bind_assoc same_signatures_def)
  show ?thesis unfolding i exec_instr_def exec_call_def by (simp add: p assms(3) [OF F] cong: if_cong)
next
  case False
  then show ?thesis unfolding exec_instr_def by (cases i) (auto split: call_target.split)
qed

lemma exec_instrs_sim:
  assumes "same_signatures F s s'" "\<And>fid. fid \<in> F \<Longrightarrow> call' fid = call fid"
  shows "(\<And>i. i \<in> set is \<Longrightarrow> set (get_static_call_targets i) \<subseteq> F) \<Longrightarrow>
    exec_instrs S s' call' ty_of consts is st = exec_instrs S s call ty_of consts is st"
proof (induction "is" arbitrary: st)
  case (Cons i "is")
  have "exec_instrs S s' call' ty_of consts is = exec_instrs S s call ty_of consts is"
    by (rule ext) (use Cons in auto)
  then show ?case using exec_instr_sim [OF assms(1) _ assms(2), of i] Cons.prems by simp
qed simp

lemma run_blocks_sim:
  assumes s: "ssa_sim F s s'" and call: "\<And>fid. fid \<in> F \<Longrightarrow> call' fid = call fid"
    and f: "func_sim f f'" "calls_within F f"
  shows "block_reach f b \<Longrightarrow>
    run_blocks n S s' call' ty_of consts f' b st = run_blocks n S s call ty_of consts f b st"
proof (induction n arbitrary: b st)
  case (Suc n)
  have b: "get_block b f' = get_block b f" using f(1) Suc.prems by (simp add: func_sim_def)
  show ?case
  proof (cases "get_block b f")
    case (Some block)
    have i: "exec_instrs S s' call' ty_of consts (b_instructions block) =
        exec_instrs S s call ty_of consts (b_instructions block)"
      by (rule ext, rule exec_instrs_sim [OF ssa_sim_signatures [OF s] call]) (use f(2) Some in \<open>auto simp: calls_within_def\<close>)
    have t: "run_blocks n S s' call' ty_of consts f' t = run_blocks n S s call ty_of consts f t \<and>
        get_block t f' = get_block t f"
      if "t \<in> set (term_targets (b_terminator block))" for t
    proof -
      have "block_reach f t" using reach_jump [OF Suc.prems, of block t] Some that by (simp add: get_block_def)
      then show ?thesis using Suc.IH f(1) by (auto simp: func_sim_def)
    qed
    have r: "f_returns f' = f_returns f" using f(1) by (simp add: func_sim_def)
    show ?thesis
    proof (cases "b_terminator block")
      case None
      then show ?thesis unfolding run_blocks.simps b Some by (simp add: i)
    next
      case (Some tm)
      then show ?thesis unfolding run_blocks.simps b \<open>get_block b f = Some block\<close> r
        using t by (cases tm) (simp_all add: i cong: if_cong)
    qed
  qed (simp add: b)
qed simp

lemma run_fn_sim:
  assumes s: "ssa_sim F s s'"
  shows "fid \<in> F \<Longrightarrow> run_fn n S s' ti consts fid = run_fn n S s ti consts fid"
proof (induction n arbitrary: fid)
  case (Suc n)
  have rel: "rel_option func_sim (get_function fid s) (get_function fid s')" using s Suc.prems by (simp add: ssa_sim_def)
  show ?case
  proof (cases "get_function fid s")
    case None
    then show ?thesis using rel by simp
  next
    case (Some f)
    then obtain f' where f': "get_function fid s' = Some f'" "func_sim f f'" using rel by (auto simp: option_rel_Some1)
    have c: "calls_within F f" using s Suc.prems Some by (auto simp: ssa_sim_def)
    have b: "run_blocks n S s' (run_fn n S s' ti consts) ty_of consts f' (f_entry_block f) st =
        run_blocks n S s (run_fn n S s ti consts) ty_of consts f (f_entry_block f) st" for ty_of st
      by (rule run_blocks_sim [OF s Suc.IH f'(2) c reach_entry])
    have e: "f_entry_block f' = f_entry_block f" "f_returns f' = f_returns f" using f'(2) by (simp_all add: func_sim_def)
    show ?thesis
    proof (intro ext)
      fix inputs globals ctx
      show "run_fn (Suc n) S s' ti consts fid inputs globals ctx = run_fn (Suc n) S s ti consts fid inputs globals ctx"
      proof (cases "ti fid = None \<or> get_entry f = None")
        case False
        then obtain ty_of entry where "ti fid = Some ty_of" "get_entry f = Some entry" by auto
        then show ?thesis
          by (cases "so_on_call S fid inputs (map snd (b_parameters entry)) (f_returns f) False ctx")
            (auto simp: Some f'(1) func_sim_entry [OF f'(2)] e b split: option.split)
      qed (auto simp: Some f'(1) func_sim_entry [OF f'(2)])
    qed
  qed
qed simp

lemma run_sim:
  assumes "ssa_sim F s s'" "entry \<in> F"
  shows "run n S s' ti entry params ctx = run n S s ti entry params ctx"
  using assms(1) unfolding run_def run_fn_sim [OF assms] by (simp add: ssa_sim_def)

subsection \<open>Removing blocks\<close>

lemma remove_unreachable_in_blocks:
  assumes "distinct (map fst (f_blocks f))"
  shows "\<exists>f'. remove_unreachable_in c f = Some f' \<and> f_entry_block f' = f_entry_block f \<and> f_returns f' = f_returns f \<and>
    (\<forall>b. get_block b f' = (if b \<in> set (get_domination_pre_order c) then get_block b f else None))"
proof -
  let ?R = "set (get_domination_pre_order c)"
  let ?step = "\<lambda>b f. if b \<in> ?R then Some f else map_option snd (take_block b f)"
  have loop: "distinct bs \<Longrightarrow> (\<And>b. b \<in> set bs \<Longrightarrow> get_block b g \<noteq> None) \<Longrightarrow>
      \<exists>f'. opt_fold ?step bs g = Some f' \<and> f_entry_block f' = f_entry_block g \<and> f_returns f' = f_returns g \<and>
        (\<forall>b. get_block b f' = (if b \<in> set bs - ?R then None else get_block b g))" for bs g
  proof (induction bs arbitrary: g)
    case (Cons b bs)
    show ?case
    proof (cases "b \<in> ?R")
      case True
      then have "set (b # bs) - ?R = set bs - ?R" "opt_fold ?step (b # bs) g = opt_fold ?step bs g" by auto
      moreover have "distinct bs" "\<And>b. b \<in> set bs \<Longrightarrow> get_block b g \<noteq> None" using Cons.prems by simp_all
      ultimately show ?thesis using Cons.IH [of g] by presburger
    next
      case False
      obtain blk where "get_block b g = Some blk" using Cons.prems(2) [of b] by auto
      then have t: "?step b g = Some (g\<lparr>f_blocks := AList.delete b (f_blocks g)\<rparr>)"
        using False by (simp add: take_block_def get_block_def)
      let ?g = "g\<lparr>f_blocks := AList.delete b (f_blocks g)\<rparr>"
      have g: "get_block b' ?g = (if b' = b then None else get_block b' g)" for b' by (simp add: get_block_def)
      have "get_block b' ?g \<noteq> None" if "b' \<in> set bs" for b' using that Cons.prems g by auto
      then obtain f' where f': "opt_fold ?step bs ?g = Some f'" "f_entry_block f' = f_entry_block ?g"
        "f_returns f' = f_returns ?g" "\<forall>b. get_block b f' = (if b \<in> set bs - ?R then None else get_block b ?g)"
        using Cons.IH [of ?g] Cons.prems(1) by auto
      have "get_block b' f' = (if b' \<in> set (b # bs) - ?R then None else get_block b' g)" for b'
        using f'(4) g False by auto
      then show ?thesis using f'(1-3) t by (intro exI [of _ f']) simp
    qed
  qed simp
  have known: "get_block b f \<noteq> None \<longleftrightarrow> b \<in> set (map fst (f_blocks f))" for b
    by (simp add: get_block_def map_of_eq_None_iff)
  from loop [OF assms, of f] known obtain f' where f': "opt_fold ?step (map fst (f_blocks f)) f = Some f'"
    "f_entry_block f' = f_entry_block f" "f_returns f' = f_returns f"
    "\<forall>b. get_block b f' = (if b \<in> set (map fst (f_blocks f)) - ?R then None else get_block b f)" by blast
  have "get_block b f' = (if b \<in> ?R then get_block b f else None)" for b
    using f'(4) known [of b] by (cases "get_block b f") auto
  then show ?thesis using f'(1-3) by (intro exI [of _ f']) (simp add: remove_unreachable_in_def)
qed

text \<open>A program the graphs can be built for: hash maps have distinct keys and every function has its entry
  block.\<close>

definition program_wf :: "('op, 'ty, 'c) ssa \<Rightarrow> bool" where
  "program_wf s \<longleftrightarrow> distinct (map fst (s_functions s)) \<and>
     (\<forall>(fid, f) \<in> set (s_functions s). distinct (map fst (f_blocks f)) \<and> map_of (f_blocks f) (f_entry_block f) \<noteq> None)"

lemma map_of_list_all2:
  "list_all2 (\<lambda>(k, v) (k', v'). k = k' \<and> P v v') xs ys \<Longrightarrow> rel_option P (map_of xs k) (map_of ys k)"
  by (induction rule: list_all2_induct) auto

lemma flow_analysis_cfgs:
  assumes "flow_analysis_run A I s = Some fa" "(fid, f) \<in> set (s_functions s)" "program_wf s"
  shows "\<exists>c. get_function_cfg fa fid = Some c \<and> cfg_of_function A f = Some c"
proof -
  have cfgs: "opt_map (\<lambda>(fid, f). map_option (\<lambda>c. (fid, c)) (cfg_of_function A f)) (s_functions s) = Some (fa_function_cfgs fa)"
    using assms(1) by (auto simp: flow_analysis_run_def bind_Some_iff)
  have "list_all2 (\<lambda>(k, v) (k', v'). k = k' \<and> cfg_of_function A v = Some v') (s_functions s) (fa_function_cfgs fa)"
    using cfgs unfolding opt_map_Some_iff by (rule list_all2_mono) auto
  from map_of_list_all2 [OF this, of fid]
  have "rel_option (\<lambda>v c. cfg_of_function A v = Some c) (map_of (s_functions s) fid) (map_of (fa_function_cfgs fa) fid)" .
  moreover have "map_of (s_functions s) fid = Some f" using assms(2,3) by (simp add: program_wf_def)
  ultimately show ?thesis by (auto simp: get_function_cfg_def option_rel_Some1)
qed

lemma remove_unreachable_blocks_sim:
  assumes A: "dominators_ok A" and wf: "program_wf s" and fa: "flow_analysis_run A I s = Some fa"
  shows "\<exists>s'. remove_unreachable_blocks fa s = Some s' \<and> ssa_sim UNIV s s' \<and> s_main_id s' = s_main_id s"
proof -
  let ?step = "\<lambda>(fid, f). do { c \<leftarrow> get_function_cfg fa fid; f \<leftarrow> remove_unreachable_in c f; Some (fid, f) }"
  have step: "\<exists>f'. ?step (fid, f) = Some (fid, f') \<and> func_sim f f'" if m: "(fid, f) \<in> set (s_functions s)" for fid f
  proof -
    obtain c where c: "get_function_cfg fa fid = Some c" "cfg_of_function A f = Some c"
      using flow_analysis_cfgs [OF fa m wf] by blast
    have f: "map_of (f_blocks f) (f_entry_block f) \<noteq> None" "distinct (map fst (f_blocks f))"
      using wf m by (auto simp: program_wf_def)
    have r: "set (get_domination_pre_order c) = {b. block_reach f b}"
      using cfg_of_function_blocks [OF A f] c(2) by auto
    show ?thesis
      using remove_unreachable_in_blocks [OF f(2), of c] c(1) r by (auto simp: func_sim_def)
  qed
  obtain fs where fs: "opt_map ?step (s_functions s) = Some fs" using step by (cases "opt_map ?step (s_functions s)") (force simp: opt_map_None_iff, blast)
  have "list_all2 (\<lambda>x y. x \<in> set (s_functions s) \<and> ?step x = Some y) (s_functions s) fs"
    using fs unfolding opt_map_Some_iff by (auto simp: list_all2_conv_all_nth)
  then have "list_all2 (\<lambda>(k, v) (k', v'). k = k' \<and> func_sim v v') (s_functions s) fs"
    by (rule list_all2_mono) (use step in fastforce)
  then have "rel_option func_sim (get_function fid s) (map_of fs fid)" for fid
    using map_of_list_all2 by (fastforce simp: get_function_def)
  then show ?thesis
    using fs by (auto simp: remove_unreachable_blocks_def ssa_sim_def get_function_def num_globals_def calls_within_def)
qed

text \<open>C11. Removing the blocks that the dominator pre-order of the control flow graph does not list succeeds
  and changes no run: for every client, entry point, arguments and context, the program returns, panics or runs
  on as before.\<close>

theorem remove_unreachable_blocks_runs:
  assumes "dominators_ok A" "program_wf s" "flow_analysis_run A I s = Some fa"
  shows "\<exists>s'. remove_unreachable_blocks fa s = Some s' \<and>
    (\<forall>n S ti entry params ctx. run n S s' ti entry params ctx = run n S s ti entry params ctx)"
proof -
  obtain s' where s': "remove_unreachable_blocks fa s = Some s'" "ssa_sim UNIV s s'"
    using remove_unreachable_blocks_sim [OF assms] by blast
  then show ?thesis by (intro exI [of _ s'] conjI allI run_sim [OF s'(2) UNIV_I])
qed

subsection \<open>Removing functions\<close>

text \<open>What petgraph documents of the depth-first walk: it visits the nodes that the start reaches.\<close>

definition post_order_ok :: "graph_algos \<Rightarrow> bool" where
  "post_order_ok A \<longleftrightarrow> (\<forall>g r. graph_wf g \<longrightarrow> r < dg_nodes g \<longrightarrow> set (dfs_post_order A g r) = {v. reach g r v})"

lemma naive_post_order_ok: "post_order_ok naive_algos"
proof -
  have "reach g r v \<Longrightarrow> v < dg_nodes g" if "graph_wf g" "r < dg_nodes g" for g :: "unit digraph" and r v
    using path_bound [OF _ that] unfolding reach_def by (meson list.set_intros(1))
  moreover have "reach_in (dg_nodes g) g (\<lambda>_. True) r v \<longleftrightarrow> reach g r v"
    if "graph_wf g" "r < dg_nodes g" for g :: "unit digraph" and r v
    unfolding reach_in_all [OF that] reach_def by simp
  ultimately show ?thesis by (auto simp: post_order_ok_def naive_algos_def)
qed

definition call_graph_ok :: "call_graph \<Rightarrow> (function_id \<times> function_id) set \<Rightarrow> bool" where
  "call_graph_ok g R \<longleftrightarrow>
     (\<forall>fid n. map_of (cg_node_to_func g) n = Some fid \<longleftrightarrow> map_of (cg_func_to_node g) fid = Some n) \<and>
     (\<forall>(a, b) \<in> R. map_of (cg_func_to_node g) a \<noteq> None \<and> map_of (cg_func_to_node g) b \<noteq> None) \<and>
     (\<forall>fid n. map_of (cg_func_to_node g) fid = Some n \<longrightarrow> n < dg_nodes (cg_graph g)) \<and>
     (\<forall>u v. edge (cg_graph g) u v \<longleftrightarrow>
        (\<exists>(a, b) \<in> R. map_of (cg_func_to_node g) a = Some u \<and> map_of (cg_func_to_node g) b = Some v))"

lemma call_graph_ok_wf: "call_graph_ok g R \<Longrightarrow> graph_wf (cg_graph g)"
proof -
  assume ok: "call_graph_ok g R"
  have "u < dg_nodes (cg_graph g) \<and> v < dg_nodes (cg_graph g)" if "(u, v, e) \<in> set (dg_edges (cg_graph g))" for u v e
  proof -
    have "edge (cg_graph g) u v" using that by (auto simp: edge_def)
    then show ?thesis using ok by (auto simp: call_graph_ok_def)
  qed
  then show ?thesis by (auto simp: graph_wf_def)
qed

lemma cg_add_function_ok:
  assumes "call_graph_ok g {}"
  shows "call_graph_ok (cg_add_function fid g) {} \<and>
    map_of (cg_func_to_node (cg_add_function fid g)) fid \<noteq> None \<and>
    map_of (cg_func_to_node g) \<subseteq>\<^sub>m map_of (cg_func_to_node (cg_add_function fid g))"
proof (cases "map_of (cg_func_to_node g) fid")
  case None
  let ?m = "dg_nodes (cg_graph g)"
  have fresh: "map_of (cg_func_to_node g) b \<noteq> Some ?m" "map_of (cg_node_to_func g) n \<noteq> Some fid" for b n
    using assms None unfolding call_graph_ok_def by (metis less_irrefl, metis option.distinct(1))
  have "n < Suc ?m" if "map_of (cg_func_to_node g) b = Some n" for b n
    using assms that less_Suc_eq unfolding call_graph_ok_def by blast
  moreover have "\<not> edge (cg_graph g) u v" for u v using assms by (auto simp: call_graph_ok_def)
  moreover have "map_of (cg_func_to_node g) b = Some n \<longleftrightarrow> map_of (cg_node_to_func g) n = Some b" for b n
    using assms by (simp add: call_graph_ok_def)
  ultimately show ?thesis using None fresh
    by (auto simp: cg_add_function_def add_node_def call_graph_ok_def edge_def map_le_def dom_def)
next
  case (Some m)
  then have m: "map_of (cg_node_to_func g) m = Some fid" using assms by (simp add: call_graph_ok_def)
  have e: "cg_add_function fid g = g\<lparr>cg_node_to_func := AList.update m fid (cg_node_to_func g)\<rparr>"
    using Some by (simp add: cg_add_function_def)
  have n: "map_of (cg_node_to_func (cg_add_function fid g)) = map_of (cg_node_to_func g)"
    unfolding e using m by (simp add: fun_upd_idem)
  have "call_graph_ok (cg_add_function fid g) {}" using assms unfolding call_graph_ok_def n by (simp add: e)
  then show ?thesis using Some by (simp add: e)
qed

lemma cg_add_functions_ok:
  "call_graph_ok g {} \<Longrightarrow> call_graph_ok (fold (\<lambda>(fid, _). cg_add_function fid) fs g) {} \<and>
     map_of (cg_func_to_node g) \<subseteq>\<^sub>m map_of (cg_func_to_node (fold (\<lambda>(fid, _). cg_add_function fid) fs g)) \<and>
     (\<forall>fid \<in> fst ` set fs. map_of (cg_func_to_node (fold (\<lambda>(fid, _). cg_add_function fid) fs g)) fid \<noteq> None)"
proof (induction fs arbitrary: g)
  case (Cons x fs)
  obtain fid f where x: "x = (fid, f)" by fastforce
  note s = cg_add_function_ok [OF Cons.prems, of fid]
  note ih = Cons.IH [OF s [THEN conjunct1]]
  let ?h = "fold (\<lambda>(fid, _). cg_add_function fid) fs (cg_add_function fid g)"
  have "map_of (cg_func_to_node ?h) fid \<noteq> None" using ih s by (auto simp: map_le_def dom_def)
  then show ?case using ih s map_le_trans unfolding x by auto
qed simp

lemma add_call_ok:
  assumes "call_graph_ok g R" "add_call a b g = Some g'"
  shows "call_graph_ok g' (insert (a, b) R) \<and> cg_func_to_node g' = cg_func_to_node g"
proof -
  obtain u v where uv: "map_of (cg_func_to_node g) a = Some u" "map_of (cg_func_to_node g) b = Some v"
    and g': "g' = g\<lparr>cg_graph := add_edge u v () (cg_graph g)\<rparr>"
    using assms(2) by (auto simp: add_call_def bind_Some_iff)
  have "edge (cg_graph g') x y \<longleftrightarrow> edge (cg_graph g) x y \<or> x = u \<and> y = v" for x y
    by (auto simp: edge_def g' add_edge_def)
  then show ?thesis using assms(1) uv unfolding call_graph_ok_def by (auto simp: g' add_edge_def)
qed

lemma add_calls_ok:
  "opt_fold (\<lambda>callee g. add_call fid callee g) cs g = Some g' \<Longrightarrow> call_graph_ok g R \<Longrightarrow>
     call_graph_ok g' (Pair fid ` set cs \<union> R) \<and> cg_func_to_node g' = cg_func_to_node g"
proof (induction cs arbitrary: g R)
  case (Cons c cs)
  then obtain h where h: "add_call fid c g = Some h" "opt_fold (\<lambda>callee g. add_call fid callee g) cs h = Some g'"
    by (auto simp: bind_Some_iff)
  note s = add_call_ok [OF Cons.prems(2) h(1)]
  then show ?case using Cons.IH [OF h(2) s [THEN conjunct1]] by simp
qed simp

definition call_edges :: "('op, 'm) instruction_ops_scheme \<Rightarrow> (function_id \<times> ('op, 'ty) func) list \<Rightarrow> (function_id \<times> function_id) set" where
  "call_edges I fs = (\<Union>(fid, f) \<in> set fs. Pair fid ` set (static_calls I f))"

lemma add_all_calls_ok:
  "opt_fold (\<lambda>(fid, f) g. opt_fold (\<lambda>callee g. add_call fid callee g) (static_calls I f) g) fs g = Some g' \<Longrightarrow>
     call_graph_ok g R \<Longrightarrow> call_graph_ok g' (call_edges I fs \<union> R) \<and> cg_func_to_node g' = cg_func_to_node g"
proof (induction fs arbitrary: g R)
  case (Cons x fs)
  obtain fid f where x: "x = (fid, f)" by fastforce
  then obtain h where h: "opt_fold (\<lambda>callee g. add_call fid callee g) (static_calls I f) g = Some h"
    "opt_fold (\<lambda>(fid, f) g. opt_fold (\<lambda>callee g. add_call fid callee g) (static_calls I f) g) fs h = Some g'"
    using Cons.prems by (auto simp: bind_Some_iff)
  note s = add_calls_ok [OF h(1) Cons.prems(2)]
  have "call_edges I (x # fs) \<union> R = call_edges I fs \<union> (Pair fid ` set (static_calls I f) \<union> R)"
    unfolding x by (auto simp: call_edges_def)
  then show ?case using Cons.IH [OF h(2) s [THEN conjunct1]] s by simp
qed (simp add: call_edges_def)

lemma call_graph_of_ok:
  assumes "call_graph_of I s = Some g"
  shows "call_graph_ok g (call_edges I (s_functions s))"
    "\<forall>fid \<in> fst ` set (s_functions s). map_of (cg_func_to_node g) fid \<noteq> None"
proof -
  let ?g = "fold (\<lambda>(fid, _). cg_add_function fid) (s_functions s) call_graph_new"
  have "call_graph_ok call_graph_new {}" by (simp add: call_graph_ok_def call_graph_new_def dg_empty_def edge_def)
  note n = cg_add_functions_ok [OF this, of "s_functions s"]
  have "opt_fold (\<lambda>(fid, f) g. opt_fold (\<lambda>callee g. add_call fid callee g) (static_calls I f) g) (s_functions s) ?g = Some g"
    using assms by (simp add: call_graph_of_def)
  from add_all_calls_ok [OF this, of "{}"] n
  show "call_graph_ok g (call_edges I (s_functions s))"
    "\<forall>fid \<in> fst ` set (s_functions s). map_of (cg_func_to_node g) fid \<noteq> None" by auto
qed

lemma hl_calls_within:
  assumes "(a, f) \<in> set fs" "\<And>b. (a, b) \<in> call_edges hl_instruction fs \<Longrightarrow> b \<in> F"
  shows "calls_within F f"
proof -
  have "c \<in> F" if "get_block b f = Some block" "i \<in> set (b_instructions block)" "c \<in> set (get_static_call_targets i)" for b block i c
  proof -
    have "(b, block) \<in> set (f_blocks f)" using that(1) by (simp add: get_block_def map_of_SomeD)
    then have "c \<in> set (static_calls hl_instruction f)" using that(2,3) by (force simp: static_calls_def hl_instruction_def)
    then have "(a, c) \<in> call_edges hl_instruction fs" using assms(1) by (force simp: call_edges_def)
    then show ?thesis by (rule assms(2))
  qed
  then show ?thesis by (auto simp: calls_within_def)
qed

lemma rel_option_refl: "(\<And>x. R x x) \<Longrightarrow> rel_option R m m"
  by (cases m) simp_all

lemma func_sim_refl: "func_sim f f"
  by (simp add: func_sim_def)

lemma delete_functions:
  "get_function i (fold (\<lambda>fid s. if fid \<in> K then s else snd (delete_function fid s)) fids s) =
     (if i \<in> set fids - K then None else get_function i s) \<and>
   s_constants (fold (\<lambda>fid s. if fid \<in> K then s else snd (delete_function fid s)) fids s) = s_constants s \<and>
   num_globals (fold (\<lambda>fid s. if fid \<in> K then s else snd (delete_function fid s)) fids s) = num_globals s"
  by (induction fids arbitrary: s) (auto simp: delete_function_def get_function_def num_globals_def)

lemma remove_unreachable_functions_sim:
  assumes A: "post_order_ok A" and wf: "program_wf s" and fa: "flow_analysis_run A hl_instruction s = Some fa"
    and main: "get_function (s_main_id s) s \<noteq> None"
  shows "\<exists>s' F. remove_unreachable_functions A fa s = Some s' \<and> ssa_sim F s s' \<and> s_main_id s \<in> F"
proof -
  let ?g = "fa_call_graph fa" and ?E = "call_edges hl_instruction (s_functions s)"
  have g: "call_graph_of hl_instruction s = Some ?g" using fa by (auto simp: flow_analysis_run_def bind_Some_iff)
  note ok = call_graph_of_ok [OF g]
  have keys: "fid \<in> fst ` set (s_functions s) \<longleftrightarrow> get_function fid s \<noteq> None" for fid
    by (simp add: get_function_def map_of_eq_None_iff)
  then obtain r where r: "map_of (cg_func_to_node ?g) (s_main_id s) = Some r" using ok(2) main by blast
  then have rn: "r < dg_nodes (cg_graph ?g)" using ok(1) unfolding call_graph_ok_def by blast
  let ?F = "{fid. \<exists>n. map_of (cg_func_to_node ?g) fid = Some n \<and> reach (cg_graph ?g) r n}"
  let ?ids = "List.map_filter (map_of (cg_node_to_func ?g)) (dfs_post_order A (cg_graph ?g) r)"
  have "set (dfs_post_order A (cg_graph ?g) r) = {v. reach (cg_graph ?g) r v}"
    using A rn call_graph_ok_wf [OF ok(1)] unfolding post_order_ok_def by blast
  moreover have "map_of (cg_node_to_func ?g) n = Some fid \<longleftrightarrow> map_of (cg_func_to_node ?g) fid = Some n" for n fid
    using ok(1) unfolding call_graph_ok_def by blast
  ultimately have ids: "set ?ids = ?F" unfolding set_map_filter by auto
  let ?s = "fold (\<lambda>fid s. if fid \<in> set ?ids then s else snd (delete_function fid s)) (map fst (s_functions s)) s"
  have "remove_unreachable_functions A fa s = Some ?s"
    by (simp add: remove_unreachable_functions_def get_post_order_def r)
  moreover have "reach (cg_graph ?g) r r" using path_root by (auto simp: reach_def)
  then have "s_main_id s \<in> ?F" using r by blast
  moreover have "ssa_sim ?F s ?s"
  proof -
    have "rel_option func_sim (get_function fid s) (get_function fid ?s)" if "fid \<in> ?F" for fid
    proof -
      have "get_function fid ?s = get_function fid s"
      proof -
        have "fid \<notin> set (map fst (s_functions s)) - set ?ids" using ids that by blast
        then show ?thesis
          using delete_functions [of fid "set ?ids" "map fst (s_functions s)" s, THEN conjunct1] by (metis (no_types, lifting))
      qed
      then show ?thesis using rel_option_refl func_sim_refl by metis
    qed
    moreover have "calls_within ?F f" if f: "fid \<in> ?F" "get_function fid s = Some f" for fid f
    proof (rule hl_calls_within)
      show "(fid, f) \<in> set (s_functions s)" using f(2) by (simp add: get_function_def map_of_SomeD)
      fix b assume e: "(fid, b) \<in> ?E"
      obtain n where n: "map_of (cg_func_to_node ?g) fid = Some n" "reach (cg_graph ?g) r n" using f(1) by blast
      obtain m where m: "map_of (cg_func_to_node ?g) b = Some m"
        using ok(1) e unfolding call_graph_ok_def by blast
      then have "edge (cg_graph ?g) n m" using ok(1) e n(1) unfolding call_graph_ok_def by blast
      then show "b \<in> ?F" using m n(2) path_step unfolding reach_def by blast
    qed
    moreover have "s_constants ?s = s_constants s" "num_globals ?s = num_globals s"
      using delete_functions [of _ "set ?ids" "map fst (s_functions s)" s] by blast+
    ultimately show ?thesis unfolding ssa_sim_def by blast
  qed
  ultimately show ?thesis by blast
qed

text \<open>C22. Deleting the functions that the call graph does not reach from the main function succeeds and changes
  no run of the main function.\<close>

theorem remove_unreachable_functions_runs:
  assumes "post_order_ok A" "program_wf s" "flow_analysis_run A hl_instruction s = Some fa"
    "get_function (s_main_id s) s \<noteq> None"
  shows "\<exists>s'. remove_unreachable_functions A fa s = Some s' \<and>
    (\<forall>n S ti params ctx. run n S s' ti (s_main_id s) params ctx = run n S s ti (s_main_id s) params ctx)"
proof -
  obtain s' F where s': "remove_unreachable_functions A fa s = Some s'" "ssa_sim F s s'" "s_main_id s \<in> F"
    using remove_unreachable_functions_sim [OF assms] by blast
  then show ?thesis by (intro exI [of _ s'] conjI allI run_sim [OF s'(2,3)])
qed

subsection \<open>A program with a dead block and a dead function\<close>

definition dead_block_main :: hl_function where
  "dead_block_main = \<lparr>f_entry_block = 0, f_blocks =
     [(0, \<lparr>b_parameters = [], b_instructions = [OpCall [] (CallStatic 1) [] False], b_terminator = Some (Jmp 1 [])\<rparr>),
      (1, \<lparr>b_parameters = [], b_instructions = [], b_terminator = Some (Return [])\<rparr>),
      (2, \<lparr>b_parameters = [], b_instructions = [], b_terminator = Some (Jmp 1 [])\<rparr>)],
     f_name = ''main'', f_returns = [], f_next_block = 3\<rparr>"

definition empty_function :: hl_function where
  "empty_function = \<lparr>f_entry_block = 0, f_blocks =
     [(0, \<lparr>b_parameters = [], b_instructions = [], b_terminator = Some (Return [])\<rparr>)],
     f_name = ''callee'', f_returns = [], f_next_block = 1\<rparr>"

definition dead_code_program :: "nat hlssa" where
  "dead_code_program = \<lparr>s_functions = [(0, dead_block_main), (1, empty_function), (2, empty_function)],
     s_global_types = [], s_globals_init_fn = None, s_globals_deinit_fn = None, s_main_id = 0,
     s_next_function_id = 3, s_next_value_id = 0, s_constants = []\<rparr>"

lemma dead_code_program_wf: "program_wf dead_code_program"
  by (simp add: program_wf_def dead_code_program_def dead_block_main_def empty_function_def)

lemma flow_analysis_total:
  assumes "dominators_ok A" "program_wf s" "call_graph_of I s \<noteq> None"
  shows "\<exists>fa. flow_analysis_run A I s = Some fa"
proof -
  have "\<exists>c. cfg_of_function A f = Some c" if "(fid, f) \<in> set (s_functions s)" for fid f
  proof -
    have "map_of (f_blocks f) (f_entry_block f) \<noteq> None" "distinct (map fst (f_blocks f))"
      using assms(2) that by (auto simp: program_wf_def)
    then show ?thesis using cfg_of_function_blocks [OF assms(1)] by blast
  qed
  then have "opt_map (\<lambda>(fid, f). map_option (\<lambda>c. (fid, c)) (cfg_of_function A f)) (s_functions s) \<noteq> None"
    unfolding opt_map_None_iff by (force split: prod.splits)
  then show ?thesis using assms(3) by (auto simp: flow_analysis_run_def)
qed

lemma dead_code_analysis: "\<exists>fa. flow_analysis_run naive_algos hl_instruction dead_code_program = Some fa"
proof (rule flow_analysis_total [OF naive_algos_ok dead_code_program_wf])
  show "call_graph_of hl_instruction dead_code_program \<noteq> None"
    by (simp add: call_graph_of_def dead_code_program_def dead_block_main_def empty_function_def static_calls_def
        hl_instruction_def cg_add_function_def call_graph_new_def dg_empty_def add_node_def add_call_def)
qed

lemma remove_unreachable_blocks_runs_witness:
  "\<exists>fa s'. remove_unreachable_blocks fa dead_code_program = Some s' \<and>
    (\<forall>n S ti entry params ctx. run n S s' ti entry params ctx = run n S dead_code_program ti entry params ctx)"
  using dead_code_analysis remove_unreachable_blocks_runs [OF naive_algos_ok dead_code_program_wf] by blast

lemma remove_unreachable_functions_runs_witness:
  "\<exists>fa s'. remove_unreachable_functions naive_algos fa dead_code_program = Some s' \<and>
    (\<forall>n S ti params ctx. run n S s' ti 0 params ctx = run n S dead_code_program ti 0 params ctx)"
proof -
  have "s_main_id dead_code_program = 0" "get_function (s_main_id dead_code_program) dead_code_program \<noteq> None"
    by (simp_all add: dead_code_program_def get_function_def)
  then show ?thesis
    using dead_code_analysis remove_unreachable_functions_runs [OF naive_post_order_ok dead_code_program_wf] by metis
qed

end
