(* ===== verification/Value_Replacement.thy ===== *)
theory Value_Replacement
  imports Unreachable_Passes
begin

text \<open>
  Renaming values (\<^verbatim>\<open>ValueReplacements\<close> in \<^verbatim>\<open>compiler/src/compiler/passes/fix_double_jumps.rs\<close>)
  and the passes built on it: merging blocks (\<^verbatim>\<open>FixDoubleJumps\<close>), propagating known conditions
  (\<^verbatim>\<open>condition_propagation.rs\<close>), dropping witness wrappers (\<^verbatim>\<open>strip_witness_of.rs\<close>) and turning
  witness writes into sinks or fresh witnesses (\<^verbatim>\<open>witness_write_to_void.rs\<close>,
  \<^verbatim>\<open>witness_write_to_fresh.rs\<close>).
\<close>

subsection \<open>Following links\<close>

text \<open>A loop that follows a partial function until it is undefined, with as many rounds as the fuel says.\<close>

fun follow :: "nat \<Rightarrow> ('a \<Rightarrow> 'a option) \<Rightarrow> 'a \<Rightarrow> 'a option" where
  "follow 0 nxt x = None"
| "follow (Suc n) nxt x = (case nxt x of None \<Rightarrow> Some x | Some y \<Rightarrow> follow n nxt y)"

definition links :: "('a \<Rightarrow> 'a option) \<Rightarrow> ('a \<times> 'a) set" where
  "links nxt = {(a, b). nxt a = Some b}"

lemma follow_Some: "follow n nxt x = Some w \<Longrightarrow> (x, w) \<in> (links nxt)\<^sup>* \<and> nxt w = None"
proof (induction n arbitrary: x)
  case (Suc n)
  show ?case
  proof (cases "nxt x")
    case (Some y)
    then have "(x, y) \<in> links nxt" by (simp add: links_def)
    then show ?thesis using Suc Some by (auto intro: converse_rtrancl_into_rtrancl)
  qed (use Suc.prems in simp)
qed simp

text \<open>A node that leads to an end is on no cycle.\<close>

lemma links_end_no_cycle:
  assumes "(x, w) \<in> (links nxt)\<^sup>*" "nxt w = None" "nxt x = Some y"
  shows "(y, w) \<in> (links nxt)\<^sup>*" "(y, x) \<notin> (links nxt)\<^sup>*"
proof -
  have first: "(b, c) \<in> (links nxt)\<^sup>*" if "(a, c) \<in> (links nxt)\<^sup>*" "nxt a = Some b" "a \<noteq> c" for a b c
    using that(1)
  proof (cases rule: converse_rtranclE)
    case (step b')
    then show ?thesis using that(2) by (simp add: links_def)
  qed (use that(3) in blast)
  have "x \<noteq> w" using assms(2,3) by auto
  then show "(y, w) \<in> (links nxt)\<^sup>*" by (rule first [OF assms(1,3)])
  show "(y, x) \<notin> (links nxt)\<^sup>*"
  proof
    assume yx: "(y, x) \<in> (links nxt)\<^sup>*"
    from assms(1) have "(w, x) \<in> (links nxt)\<^sup>*"
    proof (induction rule: rtrancl_induct)
      case (step b c)
      then have c: "nxt b = Some c" by (simp add: links_def)
      show ?case
      proof (cases "b = x")
        case True
        then show ?thesis using c assms(3) yx by simp
      qed (rule first [OF step.IH c])
    qed simp
    then show False using assms(2) \<open>x \<noteq> w\<close> by (cases rule: converse_rtranclE) (auto simp: links_def)
  qed
qed

lemma follow_total:
  assumes "finite {a. nxt a \<noteq> None}"
  shows "(x, w) \<in> (links nxt)\<^sup>* \<Longrightarrow> nxt w = None \<Longrightarrow> card {a. nxt a \<noteq> None \<and> (x, a) \<in> (links nxt)\<^sup>*} < n \<Longrightarrow>
    follow n nxt x = Some w"
proof (induction n arbitrary: x)
  case (Suc n)
  show ?case
  proof (cases "nxt x")
    case None
    then have "x = w" using Suc.prems(1) by (auto elim: converse_rtranclE simp: links_def)
    then show ?thesis using None by simp
  next
    case (Some y)
    note e = links_end_no_cycle [OF Suc.prems(1,2) Some]
    let ?S = "\<lambda>x. {a. nxt a \<noteq> None \<and> (x, a) \<in> (links nxt)\<^sup>*}"
    have "?S y \<subseteq> ?S x" using Some by (auto simp: links_def intro: converse_rtrancl_into_rtrancl)
    moreover have "x \<in> ?S x" "x \<notin> ?S y" using Some e(2) by auto
    moreover have "finite (?S x)" using assms by (rule rev_finite_subset) blast
    ultimately have "card (?S y) < card (?S x)" by (intro psubset_card_mono) auto
    then show ?thesis using Suc.IH [OF e(1) Suc.prems(2)] Suc.prems(3) Some by simp
  qed
qed simp

lemma follow_alist:
  assumes "\<And>a b. nxt a = Some b \<Longrightarrow> a \<in> fst ` set xs"
  shows "follow (length xs + 1) nxt x = Some w \<longleftrightarrow> (x, w) \<in> (links nxt)\<^sup>* \<and> nxt w = None"
proof
  assume a: "(x, w) \<in> (links nxt)\<^sup>* \<and> nxt w = None"
  have sub: "{a. nxt a \<noteq> None} \<subseteq> fst ` set xs" using assms by blast
  have "card {a. nxt a \<noteq> None \<and> (x, a) \<in> (links nxt)\<^sup>*} \<le> card (fst ` set xs)"
    using sub by (intro card_mono) auto
  also have "\<dots> \<le> length xs" by (metis card_length set_map length_map)
  finally show "follow (length xs + 1) nxt x = Some w"
    using a by (intro follow_total [OF finite_subset [OF sub]]) simp_all
qed (rule follow_Some)

text \<open>Without cycles, following always ends.\<close>

lemma links_end:
  assumes "finite {a. nxt a \<noteq> None}" "acyclic (links nxt)"
  shows "\<exists>w. (x, w) \<in> (links nxt)\<^sup>* \<and> nxt w = None"
proof -
  have "links nxt \<subseteq> {a. nxt a \<noteq> None} \<times> the ` nxt ` {a. nxt a \<noteq> None}" by (force simp: links_def)
  then have "finite (links nxt)" using assms(1) finite_subset by blast
  then have "wf ((links nxt)\<inverse>)" using assms(2) finite_acyclic_wf_converse by blast
  then show ?thesis
  proof (induction x rule: wf_induct_rule)
    case (less x)
    show ?case
    proof (cases "nxt x")
      case (Some y)
      then have "(x, y) \<in> links nxt" by (simp add: links_def)
      then show ?thesis using less [of y] by (auto intro: converse_rtrancl_into_rtrancl)
    qed auto
  qed
qed

subsection \<open>Replacements\<close>

type_synonym replacements = "(value_id \<times> value_id) list"

datatype replace_scope = ScopeInputs | ScopeOperands

definition vr_new :: replacements where "vr_new = []"

definition vr_insert :: "value_id \<Rightarrow> value_id \<Rightarrow> replacements \<Rightarrow> replacements" where
  "vr_insert replaced replacement r = AList.update replaced replacement r"

definition vr_next :: "replacements \<Rightarrow> value_id \<Rightarrow> value_id option" where
  "vr_next r current = (case map_of r current of
     Some nxt \<Rightarrow> if nxt \<noteq> current then Some nxt else None
   | None \<Rightarrow> None)"

definition get_replacement :: "replacements \<Rightarrow> value_id \<Rightarrow> value_id option" where
  "get_replacement r v = follow (length r + 1) (vr_next r) v"

text \<open>Assigning every value of a list in place panics when one of them has no replacement.\<close>

definition replacing :: "replacements \<Rightarrow> value_id list \<Rightarrow> ((value_id \<Rightarrow> value_id) \<Rightarrow> 'a) \<Rightarrow> 'a option" where
  "replacing r vs k = (if \<forall>v \<in> set vs. get_replacement r v \<noteq> None then Some (k (\<lambda>v. the (get_replacement r v))) else None)"

definition replace_instruction :: "replacements \<Rightarrow> opcode \<Rightarrow> opcode option" where
  "replace_instruction r i = replacing r (get_operands i) (\<lambda>g. map_operands g i)"

definition replace_inputs :: "replacements \<Rightarrow> opcode \<Rightarrow> opcode option" where
  "replace_inputs r i = replacing r (get_inputs i) (\<lambda>g. map_inputs g i)"

fun replace_terminator :: "replacements \<Rightarrow> terminator \<Rightarrow> terminator option" where
  "replace_terminator r (Jmp t params) = map_option (Jmp t) (opt_map (get_replacement r) params)"
| "replace_terminator r (JmpIf cond t e) = map_option (\<lambda>c. JmpIf c t e) (get_replacement r cond)"
| "replace_terminator r (Return vals) = map_option Return (opt_map (get_replacement r) vals)"

definition replace_in_block :: "(opcode \<Rightarrow> opcode option) \<Rightarrow> replacements \<Rightarrow> hl_block \<Rightarrow> hl_block option" where
  "replace_in_block op r block = do {
     is \<leftarrow> opt_map op (b_instructions block);
     tm \<leftarrow> b_terminator block;
     tm \<leftarrow> replace_terminator r tm;
     Some (block\<lparr>b_instructions := is, b_terminator := Some tm\<rparr>) }"

definition on_blocks :: "(hl_block \<Rightarrow> hl_block option) \<Rightarrow> hl_function \<Rightarrow> hl_function option" where
  "on_blocks h f = do {
     bs \<leftarrow> opt_map (\<lambda>(b, block). map_option (Pair b) (h block)) (f_blocks f);
     Some (f\<lparr>f_blocks := bs\<rparr>) }"

definition apply_to_function :: "replacements \<Rightarrow> replace_scope \<Rightarrow> hl_function \<Rightarrow> hl_function option" where
  "apply_to_function r scope = on_blocks (replace_in_block (case scope of
     ScopeInputs \<Rightarrow> replace_inputs r | ScopeOperands \<Rightarrow> replace_instruction r) r)"

lemma get_replacement_iff:
  "get_replacement r v = Some w \<longleftrightarrow> (v, w) \<in> (links (vr_next r))\<^sup>* \<and> vr_next r w = None"
  unfolding get_replacement_def
  by (rule follow_alist) (auto simp: vr_next_def split: option.splits if_splits dest: map_of_SomeD intro: rev_image_eqI)

text \<open>The bounded loop of \<^verbatim>\<open>get_replacement\<close> has enough rounds: it returns the value at the end of the chain
  of replacements whenever there is one, and panics exactly on the values that lead into a cycle.\<close>

theorem get_replacement_complete:
  "get_replacement r v = Some w \<longleftrightarrow> (v, w) \<in> (links (vr_next r))\<^sup>* \<and> vr_next r w = None"
  by (rule get_replacement_iff)

subsection \<open>Where replaced values remain\<close>

fun term_values :: "terminator option \<Rightarrow> value_id list" where
  "term_values (Some (Jmp _ params)) = params"
| "term_values (Some (JmpIf cond _ _)) = [cond]"
| "term_values (Some (Return vals)) = vals"
| "term_values None = []"

definition block_values :: "hl_block \<Rightarrow> value_id set" where
  "block_values b = (\<Union>i \<in> set (b_instructions b). set (get_operands i)) \<union> set (term_values (b_terminator b))"

definition function_values :: "hl_function \<Rightarrow> value_id set" where
  "function_values f = (\<Union>(_, b) \<in> set (f_blocks f). block_values b)"

lemma replacing_Some:
  "replacing r vs k = Some y \<longleftrightarrow> (\<forall>v \<in> set vs. get_replacement r v \<noteq> None) \<and> y = k (\<lambda>v. the (get_replacement r v))"
  by (auto simp: replacing_def)

lemma operands_of_map: "get_operands (map_operands g i) = map g (get_operands i)"
  by (induction i) auto

lemma get_replacement_end: "get_replacement r v = Some w \<Longrightarrow> vr_next r w = None"
  by (simp add: get_replacement_iff)

lemma opt_map_elem: "opt_map f xs = Some ys \<Longrightarrow> y \<in> set ys \<Longrightarrow> \<exists>x \<in> set xs. f x = Some y"
  by (induction xs arbitrary: ys) (auto simp: bind_Some_iff)

lemma replace_instruction_end:
  assumes "replace_instruction r i = Some i'" "v \<in> set (get_operands i')"
  shows "vr_next r v = None"
proof -
  have "\<forall>v \<in> set (get_operands i). get_replacement r v \<noteq> None" "i' = map_operands (\<lambda>v. the (get_replacement r v)) i"
    using assms(1) by (auto simp: replace_instruction_def replacing_Some)
  then obtain u w where "get_replacement r u = Some w" "v = w" using assms(2) by (force simp: operands_of_map)
  then show ?thesis by (simp add: get_replacement_end)
qed

lemma replace_terminator_end:
  assumes "replace_terminator r tm = Some tm'" "v \<in> set (term_values (Some tm'))"
  shows "vr_next r v = None"
proof -
  have "\<exists>u. get_replacement r u = Some v"
    using assms by (cases tm) (auto dest: opt_map_elem)
  then show ?thesis using get_replacement_end by blast
qed

lemma replace_in_block_end:
  assumes "replace_in_block (replace_instruction r) r block = Some block'" "v \<in> block_values block'"
  shows "vr_next r v = None"
proof -
  obtain js tm tm' where b: "opt_map (replace_instruction r) (b_instructions block) = Some js"
    "b_terminator block = Some tm" "replace_terminator r tm = Some tm'"
    "block' = block\<lparr>b_instructions := js, b_terminator := Some tm'\<rparr>"
    using assms(1) by (auto simp: replace_in_block_def bind_Some_iff)
  have "\<exists>i. replace_instruction r i = Some j" if "j \<in> set js" for j
    using opt_map_elem [OF b(1) that] by blast
  then have "vr_next r v = None" if "j \<in> set js" "v \<in> set (get_operands j)" for j
    using replace_instruction_end that by blast
  then show ?thesis using assms(2) b(4) replace_terminator_end [OF b(3)] by (auto simp: block_values_def)
qed

lemma on_blocks_Some:
  "on_blocks h f = Some f' \<longleftrightarrow> (\<exists>bs. f' = f\<lparr>f_blocks := bs\<rparr> \<and>
     list_all2 (\<lambda>(b, block) (b', block'). b' = b \<and> h block = Some block') (f_blocks f) bs)"
proof -
  have r: "(\<lambda>x y. (case x of (b, block) \<Rightarrow> map_option (Pair b) (h block)) = Some y) =
      (\<lambda>(b, block) (b', block'). b' = b \<and> h block = Some block')"
    by (intro ext) (auto split: prod.splits)
  show ?thesis unfolding on_blocks_def bind_Some_iff opt_map_Some_iff r by auto
qed

lemma on_blocks_block:
  assumes "on_blocks h f = Some f'" "(b, block') \<in> set (f_blocks f')"
  shows "\<exists>block. (b, block) \<in> set (f_blocks f) \<and> h block = Some block'"
  using assms unfolding on_blocks_Some by (force simp: list_all2_conv_all_nth in_set_conv_nth)

lemma replaced_function_end:
  assumes "on_blocks (\<lambda>block. replace_in_block (replace_instruction r) r (pre block)) f = Some f'" "v \<in> function_values f'"
  shows "vr_next r v = None"
  using on_blocks_block [OF assms(1)] replace_in_block_end assms(2) by (fastforce simp: function_values_def)

subsection \<open>Witness writes into sinks\<close>

text \<open>The value that a write or a read of a witness stands for.\<close>

definition direct_value :: "opcode \<Rightarrow> (value_id \<times> value_id) option" where
  "direct_value i = (case i of
     OpWriteWitness r b _ \<Rightarrow> map_option (\<lambda>r. (r, b)) r
   | OpValueOf r v \<Rightarrow> Some (r, v)
   | _ \<Rightarrow> None)"

definition written_value :: "opcode \<Rightarrow> (value_id \<times> value_id) option" where
  "written_value i = (case i of OpGuard _ inner \<Rightarrow> direct_value inner | _ \<Rightarrow> direct_value i)"

definition void_direct :: "opcode \<Rightarrow> opcode" where
  "void_direct i = (case i of OpWriteWitness _ b pinned \<Rightarrow> OpWriteWitness None b pinned | _ \<Rightarrow> i)"

definition void_write :: "opcode \<Rightarrow> opcode" where
  "void_write i = (case i of OpGuard c inner \<Rightarrow> OpGuard c (void_direct inner) | _ \<Rightarrow> void_direct i)"

definition is_value_of :: "opcode \<Rightarrow> bool" where
  "is_value_of i = (case i of OpValueOf _ _ \<Rightarrow> True
   | OpGuard _ inner \<Rightarrow> (case inner of OpValueOf _ _ \<Rightarrow> True | _ \<Rightarrow> False)
   | _ \<Rightarrow> False)"

definition collect_replacements :: "(opcode \<Rightarrow> (value_id \<times> value_id) option) \<Rightarrow> hl_function \<Rightarrow> replacements" where
  "collect_replacements w f = fold (\<lambda>(_, block) r. fold (\<lambda>i r. case w i of
      Some (replaced, replacement) \<Rightarrow> vr_insert replaced replacement r | None \<Rightarrow> r) (b_instructions block) r) (f_blocks f) vr_new"

definition witness_write_to_void_function :: "hl_function \<Rightarrow> hl_function option" where
  "witness_write_to_void_function f = (
     let r = collect_replacements written_value f in
     on_blocks (\<lambda>block. replace_in_block (replace_instruction r) r
       (block\<lparr>b_instructions := filter (\<lambda>i. \<not> is_value_of i) (map void_write (b_instructions block))\<rparr>)) f)"

definition on_functions :: "(function_id \<Rightarrow> hl_function \<Rightarrow> hl_function option) \<Rightarrow> 'f hlssa \<Rightarrow> 'f hlssa option" where
  "on_functions h s = do {
     fs \<leftarrow> opt_map (\<lambda>(fid, f). map_option (Pair fid) (h fid f)) (s_functions s);
     Some (s\<lparr>s_functions := fs\<rparr>) }"

definition witness_write_to_void :: "'f hlssa \<Rightarrow> 'f hlssa option" where
  "witness_write_to_void s = on_functions (\<lambda>_. witness_write_to_void_function) s"

definition function_instructions :: "hl_function \<Rightarrow> opcode set" where
  "function_instructions f = (\<Union>(_, b) \<in> set (f_blocks f). set (b_instructions b))"

lemma collect_replacements_keys:
  "map_of (collect_replacements w f) v \<noteq> None \<longleftrightarrow> (\<exists>i \<in> function_instructions f. \<exists>b. w i = Some (v, b))"
  "map_of (collect_replacements w f) v = Some b \<Longrightarrow> \<exists>i \<in> function_instructions f. w i = Some (v, b)"
proof -
  let ?ins = "\<lambda>i r. case w i of Some (a, b) \<Rightarrow> vr_insert a b r | None \<Rightarrow> r"
  have inner: "(map_of (fold ?ins is r) v \<noteq> None \<longleftrightarrow> map_of r v \<noteq> None \<or> (\<exists>i \<in> set is. \<exists>b. w i = Some (v, b))) \<and>
      (\<forall>b. map_of (fold ?ins is r) v = Some b \<longrightarrow> map_of r v = Some b \<or> (\<exists>i \<in> set is. w i = Some (v, b)))" for "is" r
  proof (induction "is" arbitrary: r)
    case (Cons i "is")
    show ?case
    proof (cases "w i")
      case (Some p)
      then show ?thesis using Cons.IH [of "vr_insert (fst p) (snd p) r"]
        by (cases p) (auto simp: vr_insert_def split: if_splits)
    qed (use Cons.IH [of r] in auto)
  qed simp
  have outer: "(map_of (fold (\<lambda>(_, block). fold ?ins (b_instructions block)) bs r) v \<noteq> None \<longleftrightarrow>
        map_of r v \<noteq> None \<or> (\<exists>(_, block) \<in> set bs. \<exists>i \<in> set (b_instructions block). \<exists>b. w i = Some (v, b))) \<and>
      (\<forall>b. map_of (fold (\<lambda>(_, block). fold ?ins (b_instructions block)) bs r) v = Some b \<longrightarrow>
        map_of r v = Some b \<or> (\<exists>(_, block) \<in> set bs. \<exists>i \<in> set (b_instructions block). w i = Some (v, b)))" for bs r
  proof (induction bs arbitrary: r)
    case (Cons x bs)
    obtain c block where x: "x = (c, block)" by fastforce
    note ih = Cons.IH [of "fold ?ins (b_instructions block) r"] and n = inner [of "b_instructions block" r]
    show ?case unfolding x using ih n by (intro conjI allI impI) auto
  qed simp
  show "map_of (collect_replacements w f) v \<noteq> None \<longleftrightarrow> (\<exists>i \<in> function_instructions f. \<exists>b. w i = Some (v, b))"
    using outer [of "f_blocks f" vr_new]
    by (force simp: collect_replacements_def function_instructions_def vr_new_def)
  show "\<exists>i \<in> function_instructions f. w i = Some (v, b)" if "map_of (collect_replacements w f) v = Some b"
    using outer [of "f_blocks f" vr_new] that
    by (force simp: collect_replacements_def function_instructions_def vr_new_def)
qed

lemma direct_value_map: "direct_value (map_operands g i) = map_option (map_prod g g) (direct_value i)"
  by (cases i) (simp_all add: direct_value_def option.map_comp comp_def)

lemma written_value_map: "written_value (map_operands g i) = map_option (map_prod g g) (written_value i)"
  by (cases i) (simp_all add: written_value_def direct_value_map [unfolded direct_value_def] direct_value_def
    option.map_comp comp_def)

lemma written_value_voided: "\<not> is_value_of (void_write i) \<Longrightarrow> written_value (void_write i) = None"
proof (cases i)
  case (OpGuard c inner)
  then show "\<not> is_value_of (void_write i) \<Longrightarrow> ?thesis"
    by (cases inner) (simp_all add: written_value_def void_write_def void_direct_def is_value_of_def direct_value_def)
qed (simp_all add: written_value_def void_write_def void_direct_def is_value_of_def direct_value_def)

text \<open>What the pass removes is gone: a function after it has no definition of a witness, and no use of one
  that it had.\<close>

lemma witness_write_to_void_removes:
  assumes "witness_write_to_void_function f = Some f'"
    "\<And>i a b. i \<in> function_instructions f \<Longrightarrow> written_value i = Some (a, b) \<Longrightarrow> a \<noteq> b"
  shows "\<forall>i \<in> function_instructions f'. written_value i = None"
    "\<forall>i \<in> function_instructions f. \<forall>a b. written_value i = Some (a, b) \<longrightarrow> a \<notin> function_values f'"
proof -
  let ?r = "collect_replacements written_value f"
  let ?pre = "\<lambda>block :: hl_block. block\<lparr>b_instructions := filter (\<lambda>i. \<not> is_value_of i) (map void_write (b_instructions block))\<rparr>"
  have f': "on_blocks (\<lambda>block. replace_in_block (replace_instruction ?r) ?r (?pre block)) f = Some f'"
    using assms(1) by (simp add: witness_write_to_void_function_def Let_def)
  show "\<forall>i \<in> function_instructions f'. written_value i = None"
  proof
    fix j assume "j \<in> function_instructions f'"
    then obtain b block' where b: "(b, block') \<in> set (f_blocks f')" "j \<in> set (b_instructions block')"
      by (auto simp: function_instructions_def)
    obtain block where "replace_in_block (replace_instruction ?r) ?r (?pre block) = Some block'"
      using on_blocks_block [OF f' b(1)] by blast
    then obtain js where js: "opt_map (replace_instruction ?r) (b_instructions (?pre block)) = Some js"
      "b_instructions block' = js" by (auto simp: replace_in_block_def bind_Some_iff)
    obtain i where i: "i \<in> set (b_instructions (?pre block))" "replace_instruction ?r i = Some j"
      using opt_map_elem [OF js(1)] b(2) js(2) by blast
    then have "written_value i = None" using written_value_voided by auto
    moreover have "\<exists>g. j = map_operands g i" using i(2) by (auto simp: replace_instruction_def replacing_Some)
    ultimately show "written_value j = None" by (auto simp: written_value_map)
  qed
  show "\<forall>i \<in> function_instructions f. \<forall>a b. written_value i = Some (a, b) \<longrightarrow> a \<notin> function_values f'"
  proof (intro ballI allI impI notI)
    fix i a b assume i: "i \<in> function_instructions f" "written_value i = Some (a, b)" and a: "a \<in> function_values f'"
    have "vr_next ?r a = None" by (rule replaced_function_end [OF f' a])
    moreover obtain c where c: "map_of ?r a = Some c"
      using collect_replacements_keys(1) [of written_value f a] i by blast
    moreover have "a \<noteq> c" using collect_replacements_keys(2) [OF c] assms(2) by blast
    ultimately show False by (simp add: vr_next_def)
  qed
qed

subsection \<open>Witness wrappers\<close>

fun strip_instruction :: "opcode \<Rightarrow> opcode option" where
  "strip_instruction (OpFreshWitness result t) = Some (OpFreshWitness result (strip_all_witness t))"
| "strip_instruction (OpMkSeq result elems st t) = Some (OpMkSeq result elems st (strip_all_witness t))"
| "strip_instruction (OpMkRepeated result e st n t) = Some (OpMkRepeated result e st n (strip_all_witness t))"
| "strip_instruction (OpAlloc result t) = Some (OpAlloc result (strip_all_witness t))"
| "strip_instruction (OpMkTuple result elems ts) = Some (OpMkTuple result elems (map strip_all_witness ts))"
| "strip_instruction (OpReadGlobal result offset t) = Some (OpReadGlobal result offset (strip_all_witness t))"
| "strip_instruction (OpTodo payload results ts) = Some (OpTodo payload results (map strip_all_witness ts))"
| "strip_instruction (OpGuard _ _) = None"
| "strip_instruction i = Some i"

fun witness_cast :: "opcode \<Rightarrow> (value_id \<times> value_id) option" where
  "witness_cast (OpCast result v CastWitnessOf) = Some (result, v)"
| "witness_cast _ = None"

definition strip_block :: "hl_block \<Rightarrow> hl_block option" where
  "strip_block block = do {
     is \<leftarrow> opt_map strip_instruction (filter (\<lambda>i. witness_cast i = None) (b_instructions block));
     Some (block\<lparr>b_parameters := map (map_prod id strip_all_witness) (b_parameters block), b_instructions := is\<rparr>) }"

definition strip_function :: "hl_function \<Rightarrow> hl_function option" where
  "strip_function f = do {
     let r = collect_replacements witness_cast f;
     f \<leftarrow> on_blocks strip_block (f\<lparr>f_returns := map strip_all_witness (f_returns f)\<rparr>);
     on_blocks (replace_in_block (replace_instruction r) r) f }"

definition strip_witness_of :: "'f hlssa \<Rightarrow> 'f hlssa option" where
  "strip_witness_of s = on_functions (\<lambda>_. strip_function) (set_global_types (map strip_all_witness (s_global_types s)) s)"

fun witness_free :: "ty \<Rightarrow> bool" where
  "witness_free (TWitnessOf _) = False"
| "witness_free (TArray t _) = witness_free t"
| "witness_free (TSlice t) = witness_free t"
| "witness_free (TRef t) = witness_free t"
| "witness_free (TTuple ts) = list_all witness_free ts"
| "witness_free _ = True"

definition annotated_types :: "opcode \<Rightarrow> ty list" where
  "annotated_types i = (case i of OpFreshWitness _ t \<Rightarrow> [t] | OpMkSeq _ _ _ t \<Rightarrow> [t] | OpMkRepeated _ _ _ _ t \<Rightarrow> [t]
   | OpAlloc _ t \<Rightarrow> [t] | OpMkTuple _ _ ts \<Rightarrow> ts | OpReadGlobal _ _ t \<Rightarrow> [t] | OpTodo _ _ ts \<Rightarrow> ts | _ \<Rightarrow> [])"

definition is_guard :: "opcode \<Rightarrow> bool" where
  "is_guard i = (case i of OpGuard _ _ \<Rightarrow> True | _ \<Rightarrow> False)"

definition clean_instruction :: "opcode \<Rightarrow> bool" where
  "clean_instruction i \<longleftrightarrow> witness_cast i = None \<and> \<not> is_guard i \<and> list_all witness_free (annotated_types i)"

definition clean_block :: "hl_block \<Rightarrow> bool" where
  "clean_block block \<longleftrightarrow> (\<forall>(_, t) \<in> set (b_parameters block). witness_free t) \<and> (\<forall>i \<in> set (b_instructions block). clean_instruction i)"

lemma strip_all_witness_free: "witness_free (strip_all_witness t)"
  by (induction t rule: strip_all_witness.induct) (auto simp: list_all_iff)

lemma strip_instruction_clean: "strip_instruction i = Some j \<Longrightarrow> witness_cast i = None \<Longrightarrow> clean_instruction j"
  by (cases i) (auto simp: clean_instruction_def is_guard_def annotated_types_def strip_all_witness_free list_all_iff)

lemma witness_cast_map: "witness_cast (map_operands g i) = map_option (map_prod g g) (witness_cast i)"
proof (cases i)
  case (OpCast r v target)
  then show ?thesis by (cases target) simp_all
qed simp_all

lemma clean_instruction_map: "clean_instruction (map_operands g i) = clean_instruction i"
proof -
  have "is_guard (map_operands g i) = is_guard i" "annotated_types (map_operands g i) = annotated_types i"
    by (cases i; simp add: is_guard_def annotated_types_def)+
  then show ?thesis by (simp add: clean_instruction_def witness_cast_map)
qed

lemma strip_block_clean: "strip_block b = Some b' \<Longrightarrow> clean_block b'"
proof -
  assume "strip_block b = Some b'"
  then obtain js where js: "opt_map strip_instruction (filter (\<lambda>i. witness_cast i = None) (b_instructions b)) = Some js"
    and b': "b' = b\<lparr>b_parameters := map (map_prod id strip_all_witness) (b_parameters b), b_instructions := js\<rparr>"
    by (auto simp: strip_block_def bind_Some_iff)
  have "clean_instruction j" if "j \<in> set js" for j
    using opt_map_elem [OF js that] strip_instruction_clean by auto
  then show ?thesis by (auto simp: clean_block_def b' strip_all_witness_free)
qed

lemma replace_in_block_clean:
  assumes "replace_in_block (replace_instruction r) r b = Some b'" "clean_block b"
  shows "clean_block b'"
proof -
  obtain js where js: "opt_map (replace_instruction r) (b_instructions b) = Some js" "b_instructions b' = js"
    "b_parameters b' = b_parameters b" using assms(1) by (auto simp: replace_in_block_def bind_Some_iff)
  have "clean_instruction j" if j: "j \<in> set js" for j
  proof -
    obtain i where "i \<in> set (b_instructions b)" "replace_instruction r i = Some j" using opt_map_elem [OF js(1) j] by blast
    then show ?thesis using assms(2) by (auto simp: replace_instruction_def replacing_Some clean_instruction_map clean_block_def)
  qed
  then show ?thesis using assms(2) js by (simp add: clean_block_def)
qed

lemma strip_function_ok:
  assumes "strip_function f = Some f'"
    "\<And>i a b. i \<in> function_instructions f \<Longrightarrow> witness_cast i = Some (a, b) \<Longrightarrow> a \<noteq> b"
  shows "\<forall>(_, block) \<in> set (f_blocks f'). clean_block block"
    "\<forall>t \<in> set (f_returns f'). witness_free t"
    "\<forall>i \<in> function_instructions f. \<forall>a b. witness_cast i = Some (a, b) \<longrightarrow> a \<notin> function_values f'"
proof -
  let ?r = "collect_replacements witness_cast f"
  obtain g where g: "on_blocks strip_block (f\<lparr>f_returns := map strip_all_witness (f_returns f)\<rparr>) = Some g"
    "on_blocks (replace_in_block (replace_instruction ?r) ?r) g = Some f'"
    using assms(1) by (auto simp: strip_function_def bind_Some_iff Let_def)
  show "\<forall>(_, block) \<in> set (f_blocks f'). clean_block block"
  proof safe
    fix b block' assume "(b, block') \<in> set (f_blocks f')"
    then obtain block where b: "(b, block) \<in> set (f_blocks g)" "replace_in_block (replace_instruction ?r) ?r block = Some block'"
      using on_blocks_block [OF g(2)] by blast
    then obtain block0 where "strip_block block0 = Some block" using on_blocks_block [OF g(1)] by blast
    then show "clean_block block'" using strip_block_clean replace_in_block_clean [OF b(2)] by blast
  qed
  have "f_returns f' = map strip_all_witness (f_returns f)" using g by (auto simp: on_blocks_Some)
  then show "\<forall>t \<in> set (f_returns f'). witness_free t" by (auto simp: strip_all_witness_free)
  show "\<forall>i \<in> function_instructions f. \<forall>a b. witness_cast i = Some (a, b) \<longrightarrow> a \<notin> function_values f'"
  proof (intro ballI allI impI notI)
    fix i a b assume i: "i \<in> function_instructions f" "witness_cast i = Some (a, b)" and a: "a \<in> function_values f'"
    have "vr_next ?r a = None" using replaced_function_end [where pre = "\<lambda>b. b"] g(2) a by simp
    moreover obtain c where c: "map_of ?r a = Some c" using collect_replacements_keys(1) [of witness_cast f a] i by blast
    moreover have "a \<noteq> c" using collect_replacements_keys(2) [OF c] assms(2) by blast
    ultimately show False by (simp add: vr_next_def)
  qed
qed

text \<open>C24. Stripping leaves no trace of witness wrappers: if it succeeds, no parameter, return or annotated type of
  the function mentions a witness, no cast to a witness remains, and nothing uses the result of a cast it
  removed.\<close>

theorem strip_witness_removes_wrappers:
  assumes "strip_function f = Some f'"
    "\<And>i a b. i \<in> function_instructions f \<Longrightarrow> witness_cast i = Some (a, b) \<Longrightarrow> a \<noteq> b"
  shows "(\<forall>(_, block) \<in> set (f_blocks f'). clean_block block) \<and> (\<forall>t \<in> set (f_returns f'). witness_free t) \<and>
    (\<forall>i \<in> function_instructions f. \<forall>a b. witness_cast i = Some (a, b) \<longrightarrow> a \<notin> function_values f')"
  by (intro conjI strip_function_ok [OF assms])

text \<open>C23. Turning witness writes into sinks leaves no definition of a witness: afterwards no write has a result and no
  value is read back, also under a guard, and nothing uses the results that the writes and reads had.\<close>

theorem void_writes_leave_no_witness:
  assumes "witness_write_to_void_function f = Some f'"
    "\<And>i a b. i \<in> function_instructions f \<Longrightarrow> written_value i = Some (a, b) \<Longrightarrow> a \<noteq> b"
  shows "(\<forall>i \<in> function_instructions f'. written_value i = None) \<and>
    (\<forall>i \<in> function_instructions f. \<forall>a b. written_value i = Some (a, b) \<longrightarrow> a \<notin> function_values f')"
  by (intro conjI witness_write_to_void_removes [OF assms])

definition witness_function :: hl_function where
  "witness_function = \<lparr>f_entry_block = 0, f_blocks = [(0, \<lparr>b_parameters = [(0, TU 8)],
      b_instructions = [OpCast 1 0 CastWitnessOf, OpWriteWitness (Some 2) 0 False, OpValueOf 3 2, OpAssertCmp CmpEq 1 3],
      b_terminator = Some (Return [3])\<rparr>)],
    f_name = ''main'', f_returns = [TWitnessOf (TU 8)], f_next_block = 1\<rparr>"

lemma witness_function_instructions:
  "function_instructions witness_function =
     {OpCast 1 0 CastWitnessOf, OpWriteWitness (Some 2) 0 False, OpValueOf 3 2, OpAssertCmp CmpEq 1 3}"
  by (auto simp: function_instructions_def witness_function_def)

lemmas replacement_simps = collect_replacements_def vr_new_def vr_insert_def on_blocks_def replace_in_block_def
  replace_instruction_def replacing_def get_replacement_def vr_next_def

lemma strip_witness_removes_wrappers_witness:
  "\<exists>f'. strip_function witness_function = Some f' \<and> f_returns f' = [TU 8] \<and> 1 \<notin> function_values f'"
proof -
  obtain f' where f': "strip_function witness_function = Some f'" "f_returns f' = [TU 8]"
    by (simp add: strip_function_def strip_block_def witness_function_def replacement_simps)
  have "a \<noteq> b" if "i \<in> function_instructions witness_function" "witness_cast i = Some (a, b)" for i a b
    using that by (auto simp: witness_function_instructions)
  from strip_witness_removes_wrappers [OF f'(1) this] f' show ?thesis
    by (auto simp: witness_function_instructions)
qed

lemma void_writes_leave_no_witness_witness:
  "\<exists>f'. witness_write_to_void_function witness_function = Some f' \<and> 2 \<notin> function_values f' \<and> 3 \<notin> function_values f'"
proof -
  obtain f' where f': "witness_write_to_void_function witness_function = Some f'"
    by (simp add: witness_write_to_void_function_def witness_function_def written_value_def direct_value_def
      void_write_def void_direct_def is_value_of_def replacement_simps)
  have "a \<noteq> b" if "i \<in> function_instructions witness_function" "written_value i = Some (a, b)" for i a b
    using that by (auto simp: witness_function_instructions written_value_def direct_value_def)
  from void_writes_leave_no_witness [OF f' this] f' show ?thesis
    by (auto simp: witness_function_instructions written_value_def direct_value_def)
qed

end
