(* ===== verification/R1CS_Run.thy ===== *)
theory R1CS_Run
  imports Symbolic_Executor R1CS_Gen LogUp
begin

text \<open>
  The constraint generator as a client of the symbolic execution engine
  (\<^verbatim>\<open>compiler/src/compiler/codegen/hlssa_to_r1cs.rs\<close>: the two trait implementations and
  \<^verbatim>\<open>R1CGen::run\<close>). Whatever program it runs, the generator ends in a state that refers only to
  witnesses and tables it has allocated; together with the theorems on sealing this gives a system
  that stays within its own layout.
\<close>

subsection \<open>The generator's operations as a client\<close>

text \<open>Operations that only compute a value, and operations that only check.\<close>

definition pure_op :: "'c \<Rightarrow> 'a option \<Rightarrow> ('a \<times> 'c) option" where
  "pure_op ctx m = map_option (\<lambda>v. (v, ctx)) m"

definition check_op :: "'c \<Rightarrow> unit option \<Rightarrow> 'c option" where
  "check_op ctx m = map_option (\<lambda>_. ctx) m"

text \<open>Dynamic lookups, todos, guards and \<^verbatim>\<open>value_of\<close> panic; casts, reference counts and the hooks on
  returns and jumps do nothing.\<close>

definition r1cs_ops :: "'f::field prime_ops \<Rightarrow> ('f val, 'f gen_ctx, 'f) sym_ops" where
  "r1cs_ops fp = \<lparr>
     so_ult = (\<lambda>a b ctx. pure_op ctx (val_lt fp a b)),
     so_slt = (\<lambda>a b bits ctx. pure_op ctx (val_slt fp a b bits)),
     so_eq = (\<lambda>a b ctx. pure_op ctx (val_eq a b)),
     so_arith = (\<lambda>a b kind t ctx. pure_op ctx (val_arith fp a b kind t)),
     so_assert_bool = (\<lambda>v ctx. check_op ctx (assert_bool v)),
     so_assert_cmp = (\<lambda>kind a b t ctx. check_op ctx (assert_cmp fp kind a b t)),
     so_assert_r1c = (\<lambda>a b c ctx. check_op ctx (assert_r1c a b c)),
     so_array_get = (\<lambda>a i t ctx. pure_op ctx (array_get fp a i ctx)),
     so_tuple_get = (\<lambda>v i t ctx. pure_op ctx (tuple_get v i)),
     so_array_set = (\<lambda>a i v t ctx. array_set fp a i v ctx),
     so_sext = (\<lambda>v n m t ctx. pure_op ctx (val_sext fp v n m)),
     so_bit_range = (\<lambda>v n m t ctx. pure_op ctx (val_bit_range fp v n m)),
     so_cast = (\<lambda>v target t ctx. Some (v, ctx)),
     so_constrain = gen_constrain,
     so_to_bits = (\<lambda>v e n t ctx. val_to_bits fp v e n ctx),
     so_to_radix = (\<lambda>v r e n t ctx. val_to_radix fp v r e n ctx),
     so_not = (\<lambda>v t ctx. pure_op ctx (val_not fp v t)),
     so_of_u = (\<lambda>s v ctx. Some (VConst (of_u128 v), ctx)),
     so_of_i = (\<lambda>s v ctx. Some (VConst (of_u128 v), ctx)),
     so_of_field = (\<lambda>f ctx. Some (VConst f, ctx)),
     so_mk_array = (\<lambda>vs s t ctx. Some (mk_array vs ctx)),
     so_mk_tuple = (\<lambda>vs ts ctx. Some (mk_tuple vs, ctx)),
     so_alloc = (\<lambda>t ctx. Some (val_alloc ctx)),
     so_ptr_write = ptr_write,
     so_ptr_read = (\<lambda>p t ctx. pure_op ctx (ptr_read p ctx)),
     so_expect_constant_bool = (\<lambda>v ctx. pure_op ctx (expect_constant_bool v)),
     so_select = (\<lambda>c a b t ctx. pure_op ctx (val_select c a b)),
     so_write_witness = (\<lambda>v t ctx. Some (write_witness ctx)),
     so_fresh_witness = (\<lambda>t ctx. Some (write_witness ctx)),
     so_value_of = (\<lambda>v ctx. None),
     so_mem_op = (\<lambda>v k ctx. Some ctx),
     so_rangecheck = (\<lambda>v n ctx. check_op ctx (val_rangecheck fp v n)),
     so_spread = (\<lambda>v n ctx. pure_op ctx (val_spread fp v n)),
     so_unspread = (\<lambda>v n ctx. pure_op ctx (val_unspread fp v n)),
     so_on_call = (\<lambda>fid ps ts us unconstrained ctx.
        map_option (\<lambda>(r, ctx). ((ps, r), ctx)) (gen_on_call unconstrained ctx)),
     so_on_return = (\<lambda>vs ts ctx. Some (vs, ctx)),
     so_on_jmp = (\<lambda>b vs ts ctx. Some (vs, ctx)),
     so_lookup = gen_lookup fp,
     so_dlookup = (\<lambda>target args flag ctx. None),
     so_todo = (\<lambda>payload ts ctx. None),
     so_slice_push = gen_slice_push,
     so_slice_len = gen_slice_len,
     so_on_guard = (\<lambda>inner c vs ts ctx. None)\<rparr>"

lemma r1cs_ops_simps [simp]:
  "so_cast (r1cs_ops fp) v target t ctx = Some (v, ctx)"
  "so_of_u (r1cs_ops fp) s w ctx = Some (VConst (of_u128 w), ctx)"
  "so_of_field (r1cs_ops fp) f ctx = Some (VConst f, ctx)"
  "so_fresh_witness (r1cs_ops fp) t ctx = Some (write_witness ctx)"
  "so_constrain (r1cs_ops fp) = gen_constrain"
  "so_lookup (r1cs_ops fp) = gen_lookup fp"
  "so_on_return (r1cs_ops fp) vs ts ctx = Some (vs, ctx)"
  "so_on_call (r1cs_ops fp) fid ps ts us u ctx =
     map_option (\<lambda>(r, ctx). ((ps, r), ctx)) (gen_on_call u ctx)"
  by (simp_all add: r1cs_ops_def)

definition gen_init :: "'f r1c_gen \<Rightarrow> 'f gen_ctx" where
  "gen_init g = \<lparr>gc_gen = g, gc_arrays = [], gc_cells = []\<rparr>"

text \<open>\<^verbatim>\<open>R1CGen::run\<close>: the main function must have no parameters.\<close>

definition gen_run :: "nat \<Rightarrow> 'f::field prime_ops \<Rightarrow> 'f hlssa \<Rightarrow> type_info \<Rightarrow> 'f r1c_gen \<Rightarrow> 'f r1c_gen outcome" where
  "gen_run fuel fp ssa ti g =
     and_then (of_option (do {
       f \<leftarrow> get_function (s_main_id ssa) ssa;
       ts \<leftarrow> get_param_types f;
       ensure (length ts = 0) }))
     (\<lambda>_. and_then (run fuel (r1cs_ops fp) ssa ti (s_main_id ssa) [] (gen_init g)) (\<lambda>ctx. Ret (gc_gen ctx)))"

subsection \<open>What the generator refers to is allocated\<close>

text \<open>Witness 0 is the constant one, which constants are turned into before any witness exists.\<close>

definition bound :: "'f gen_ctx \<Rightarrow> nat" where
  "bound ctx = max 1 (g_next_witness (gc_gen ctx))"

fun val_ok :: "nat \<Rightarrow> nat \<Rightarrow> nat \<Rightarrow> 'f val \<Rightarrow> bool" where
  "val_ok n a c (VConst _) = True"
| "val_ok n a c (VLC lc) = lc_in n lc"
| "val_ok n a c (VArray i) = (i < a)"
| "val_ok n a c (VTuple vs) = list_all (val_ok n a c) vs"
| "val_ok n a c (VPtr p) = (p < c)"
| "val_ok n a c VInvalid = True"

definition ctx_val_ok :: "'f gen_ctx \<Rightarrow> 'f val \<Rightarrow> bool" where
  "ctx_val_ok ctx v = val_ok (bound ctx) (length (gc_arrays ctx)) (length (gc_cells ctx)) v"

definition grows :: "'f gen_ctx \<Rightarrow> 'f gen_ctx \<Rightarrow> bool" where
  "grows c d \<longleftrightarrow> g_next_witness (gc_gen c) \<le> g_next_witness (gc_gen d) \<and>
     length (g_tables (gc_gen c)) \<le> length (g_tables (gc_gen d)) \<and>
     length (gc_arrays c) \<le> length (gc_arrays d) \<and> length (gc_cells c) \<le> length (gc_cells d)"

definition r1c_ok :: "nat \<Rightarrow> 'f r1c \<Rightarrow> bool" where
  "r1c_ok n r \<longleftrightarrow> lc_in n (r1c_a r) \<and> lc_in n (r1c_b r) \<and> lc_in n (r1c_c r)"

fun table_ok :: "nat \<Rightarrow> 'f table \<Rightarrow> bool" where
  "table_ok n (TabOfElems els) = list_all (lc_in n) els"
| "table_ok n _ = True"

definition lookup_in :: "nat \<Rightarrow> nat \<Rightarrow> 'f lookup_constraint \<Rightarrow> bool" where
  "lookup_in n k l \<longleftrightarrow> lk_table_id l < k \<and> list_all (lc_in n) (lk_elements l) \<and> lc_in n (lk_flag l)"

definition gen_ok :: "nat \<Rightarrow> 'f r1c_gen \<Rightarrow> bool" where
  "gen_ok n g \<longleftrightarrow> list_all (r1c_ok n) (g_constraints g) \<and> list_all (table_ok n) (g_tables g) \<and>
     list_all (lookup_in n (length (g_tables g))) (g_lookups g)"

text \<open>The elements of an array were built before it.\<close>

definition array_ok :: "nat \<Rightarrow> nat \<Rightarrow> nat \<Rightarrow> nat \<Rightarrow> 'f array_data \<Rightarrow> bool" where
  "array_ok n c k i d \<longleftrightarrow> list_all (val_ok n i c) (ad_data d) \<and>
     (case ad_table_id d of None \<Rightarrow> True | Some t \<Rightarrow> t < k)"

definition ctx_ok :: "'f gen_ctx \<Rightarrow> bool" where
  "ctx_ok ctx \<longleftrightarrow> gen_ok (bound ctx) (gc_gen ctx) \<and>
     (\<forall>i < length (gc_arrays ctx).
        array_ok (bound ctx) (length (gc_cells ctx)) (length (g_tables (gc_gen ctx))) i (gc_arrays ctx ! i)) \<and>
     list_all (ctx_val_ok ctx) (gc_cells ctx)"

lemma bound_pos [simp]: "0 < bound ctx"
  by (simp add: bound_def)

lemma lc_in_le: "lc_in n lc \<Longrightarrow> n \<le> m \<Longrightarrow> lc_in m lc"
  by (auto simp: lc_in_def)

lemma val_ok_mono: "val_ok n a c v \<Longrightarrow> n \<le> n' \<Longrightarrow> a \<le> a' \<Longrightarrow> c \<le> c' \<Longrightarrow> val_ok n' a' c' v"
  by (induction v) (auto simp: lc_in_le list_all_iff)

lemma grows_refl: "grows c c"
  by (simp add: grows_def)

lemma grows_trans: "grows c d \<Longrightarrow> grows d e \<Longrightarrow> grows c e"
  by (auto simp: grows_def)

lemma grows_bound: "grows c d \<Longrightarrow> bound c \<le> bound d"
  by (auto simp: grows_def bound_def)

lemma ctx_val_ok_mono: "grows c d \<Longrightarrow> ctx_val_ok c v \<Longrightarrow> ctx_val_ok d v"
  unfolding ctx_val_ok_def by (erule val_ok_mono) (auto simp: grows_bound, auto simp: grows_def)

lemma r1c_ok_mono: "r1c_ok n r \<Longrightarrow> n \<le> m \<Longrightarrow> r1c_ok m r"
  by (auto simp: r1c_ok_def intro: lc_in_le)

lemma table_ok_mono: "table_ok n t \<Longrightarrow> n \<le> m \<Longrightarrow> table_ok m t"
  by (cases t) (auto simp: list_all_iff intro: lc_in_le)

lemma lookup_in_mono: "lookup_in n k l \<Longrightarrow> n \<le> m \<Longrightarrow> k \<le> j \<Longrightarrow> lookup_in m j l"
  by (auto simp: lookup_in_def list_all_iff intro: lc_in_le)

lemma gen_ok_mono: "gen_ok n g \<Longrightarrow> n \<le> m \<Longrightarrow> gen_ok m g"
  by (auto simp: gen_ok_def list_all_iff intro: r1c_ok_mono table_ok_mono lookup_in_mono)

lemma array_ok_mono: "array_ok n c k i d \<Longrightarrow> n \<le> n' \<Longrightarrow> c \<le> c' \<Longrightarrow> k \<le> k' \<Longrightarrow> array_ok n' c' k' i d"
  by (auto simp: array_ok_def list_all_iff intro: val_ok_mono split: option.splits)

lemma expect_lc_ok: "ctx_val_ok ctx v \<Longrightarrow> expect_linear_combination v = Some lc \<Longrightarrow> lc_in (bound ctx) lc"
  by (cases v) (auto simp: ctx_val_ok_def lc_in_def)

lemma expect_lcs_ok:
  "\<forall>v \<in> set vs. ctx_val_ok ctx v \<Longrightarrow> opt_map expect_linear_combination vs = Some lcs \<Longrightarrow> list_all (lc_in (bound ctx)) lcs"
  by (induction vs arbitrary: lcs) (auto simp: bind_Some_iff expect_lc_ok)

lemma VConst_ok [simp]: "ctx_val_ok ctx (VConst c)"
  by (simp add: ctx_val_ok_def)

lemma VLC_ok [simp]: "ctx_val_ok ctx (VLC lc) = lc_in (bound ctx) lc"
  by (simp add: ctx_val_ok_def)

lemma ctx_okD:
  "ctx_ok ctx \<Longrightarrow> array_at ctx v = Some (a, d) \<Longrightarrow> a < length (gc_arrays ctx) \<and> d = gc_arrays ctx ! a \<and>
     array_ok (bound ctx) (length (gc_cells ctx)) (length (g_tables (gc_gen ctx))) a d"
  by (auto simp: ctx_ok_def array_at_def bind_Some_iff)

lemma array_elems_ok:
  assumes "ctx_ok ctx" "array_at ctx v = Some (a, d)" "x \<in> set (ad_data d)"
  shows "ctx_val_ok ctx x"
  using ctx_okD [OF assms(1,2)] assms(3)
  by (auto simp: array_ok_def list_all_iff ctx_val_ok_def intro: val_ok_mono)

text \<open>An operation that computes a value from valid ones keeps everything.\<close>

lemma keeps_pure:
  "ctx_ok ctx \<Longrightarrow> (\<And>x. m = Some x \<Longrightarrow> P ctx x) \<Longrightarrow> keeps ctx_ok grows P ctx (pure_op ctx m)"
  by (auto simp: keeps_def pure_op_def grows_refl)

lemma keeps_check: "ctx_ok ctx \<Longrightarrow> keeps_ctx ctx_ok grows ctx (check_op ctx m)"
  by (auto simp: keeps_ctx_def check_op_def grows_refl)

lemma is_const_ok: "is_const_val v \<Longrightarrow> ctx_val_ok ctx v"
  by (cases v) auto

lemma mk_array_ok:
  assumes "ctx_ok ctx" "\<forall>v \<in> set vs. ctx_val_ok ctx v"
  shows "keeps ctx_ok grows ctx_val_ok ctx (Some (mk_array vs ctx))"
  using assms
  by (auto simp: keeps_def mk_array_def ctx_ok_def grows_def ctx_val_ok_def bound_def nth_append less_Suc_eq
      array_ok_def list_all_iff elim!: val_ok_mono split: option.splits)

lemma val_alloc_ok:
  assumes "ctx_ok ctx"
  shows "keeps ctx_ok grows ctx_val_ok ctx (Some (val_alloc ctx))"
proof -
  have g: "grows ctx (snd (val_alloc ctx))" by (simp add: val_alloc_def grows_def)
  have "list_all (ctx_val_ok (snd (val_alloc ctx))) (gc_cells (snd (val_alloc ctx)))"
    using assms ctx_val_ok_mono [OF g] by (auto simp: val_alloc_def ctx_ok_def list_all_iff) (simp add: ctx_val_ok_def)
  then show ?thesis using assms g
    by (auto simp: keeps_def ctx_ok_def val_alloc_def ctx_val_ok_def bound_def intro: array_ok_mono)
qed

lemma write_witness_ok:
  assumes "ctx_ok ctx"
  shows "keeps ctx_ok grows ctx_val_ok ctx (Some (write_witness ctx))"
proof -
  obtain ctx' where w: "write_witness ctx = (VLC [(g_next_witness (gc_gen ctx), 1)], ctx')"
    "ctx' = ctx\<lparr>gc_gen := (gc_gen ctx)\<lparr>g_next_witness := g_next_witness (gc_gen ctx) + 1\<rparr>\<rparr>"
    by (simp add: write_witness_def next_witness_def)
  have g: "grows ctx ctx'" by (simp add: w grows_def)
  have c: "list_all (ctx_val_ok ctx') (gc_cells ctx')"
    using assms ctx_val_ok_mono [OF g] by (auto simp: w(2) ctx_ok_def list_all_iff)
  have "gen_ok (bound ctx') (gc_gen ctx')"
    using assms gen_ok_mono [OF _ grows_bound [OF g]] by (auto simp: w(2) ctx_ok_def gen_ok_def)
  then have "ctx_ok ctx'" using assms c grows_bound [OF g]
    by (auto simp: ctx_ok_def w(2) intro: array_ok_mono)
  then show ?thesis using g by (simp add: keeps_def w(1)) (simp add: w(2) bound_def lc_in_def)
qed

text \<open>Arithmetic on linear combinations introduces no witness.\<close>

lemma lc_in_add_lc: "lc_in n l \<Longrightarrow> lc_in n r \<Longrightarrow> lc_in n (add_lc l r)"
  using fst_add_lc [of l r] by (fastforce simp: lc_in_def)

lemma lc_in_one [simp]: "lc_in (bound ctx) [(0, c)]"
  by (simp add: lc_in_def)

lemma val_add_ok: "ctx_val_ok ctx a \<Longrightarrow> ctx_val_ok ctx b \<Longrightarrow> val_add a b = Some r \<Longrightarrow> ctx_val_ok ctx r"
  by (cases a; cases b) (auto simp: val_add_def intro!: lc_in_add_lc)

lemma val_neg_ok: "ctx_val_ok ctx a \<Longrightarrow> val_neg a = Some r \<Longrightarrow> ctx_val_ok ctx r"
  by (cases a) (auto simp: lc_in_def)

lemma val_sub_ok: "ctx_val_ok ctx a \<Longrightarrow> ctx_val_ok ctx b \<Longrightarrow> val_sub a b = Some r \<Longrightarrow> ctx_val_ok ctx r"
  using val_neg_ok val_add_ok by (fastforce simp: val_sub_def bind_Some_iff)

lemma val_mul_ok: "ctx_val_ok ctx a \<Longrightarrow> ctx_val_ok ctx b \<Longrightarrow> val_mul a b = Some r \<Longrightarrow> ctx_val_ok ctx r"
  by (cases a; cases b) (auto simp: lc_in_def)

lemma val_div_ok: "ctx_val_ok ctx a \<Longrightarrow> ctx_val_ok ctx b \<Longrightarrow> val_div a b = Some r \<Longrightarrow> ctx_val_ok ctx r"
  by (cases b) (auto simp: val_div_def bind_Some_iff intro: val_mul_ok [of ctx a "VConst _"] split: val.splits)

lemma val_arith_field_ok:
  "ctx_val_ok ctx a \<Longrightarrow> ctx_val_ok ctx b \<Longrightarrow> val_arith_field k a b = Some r \<Longrightarrow> ctx_val_ok ctx r"
  by (cases k) (auto intro: val_add_ok val_sub_ok val_mul_ok val_div_ok)

lemma val_arith_ok:
  "ctx_val_ok ctx a \<Longrightarrow> ctx_val_ok ctx b \<Longrightarrow> val_arith fp a b k t = Some r \<Longrightarrow> ctx_val_ok ctx r"
  by (cases "strip_witness t")
    (auto simp: val_arith_def bind_Some_iff dest: val_arith_field_ok [of ctx a b k r] split: if_splits)

lemma val_select_ok:
  "ctx_val_ok ctx c \<Longrightarrow> ctx_val_ok ctx a \<Longrightarrow> ctx_val_ok ctx b \<Longrightarrow> val_select c a b = Some r \<Longrightarrow> ctx_val_ok ctx r"
proof -
  assume ok: "ctx_val_ok ctx c" "ctx_val_ok ctx a" "ctx_val_ok ctx b" and "val_select c a b = Some r"
  then obtain t n f where "val_mul c a = Some t" "val_sub (VConst 1) c = Some n" "val_mul n b = Some f"
    "val_add t f = Some r" by (auto simp: val_select_def bind_Some_iff)
  then show ?thesis
    using val_mul_ok [OF ok(1,2)] val_sub_ok [OF VConst_ok ok(1)] val_mul_ok [OF _ ok(3)] val_add_ok by metis
qed

lemma val_sext_ok: "ctx_val_ok ctx a \<Longrightarrow> val_sext fp a n m = Some r \<Longrightarrow> ctx_val_ok ctx r"
  by (auto simp: val_sext_def bind_Some_iff Let_def split: if_splits)

lemma const_results_ok:
  "val_lt fp a b = Some r \<Longrightarrow> ctx_val_ok ctx r"
  "val_slt fp a b n = Some r \<Longrightarrow> ctx_val_ok ctx r"
  "val_eq a b = Some r \<Longrightarrow> ctx_val_ok ctx r"
  "val_bit_range fp a n m = Some r \<Longrightarrow> ctx_val_ok ctx r"
  "val_not fp a t = Some r \<Longrightarrow> ctx_val_ok ctx r"
  "val_spread fp a n = Some r \<Longrightarrow> ctx_val_ok ctx r"
  by (auto simp: val_lt_def val_slt_def val_eq_def val_bit_range_def val_not_def val_spread_def Let_def bind_Some_iff)

lemma unspread_ok: "val_unspread fp a n = Some (x, y) \<Longrightarrow> ctx_val_ok ctx x \<and> ctx_val_ok ctx y"
  by (auto simp: val_unspread_def bind_Some_iff)

lemma tuple_get_ok: "ctx_val_ok ctx v \<Longrightarrow> tuple_get v i = Some r \<Longrightarrow> ctx_val_ok ctx r"
  by (cases v) (auto simp: tuple_get_def ctx_val_ok_def list_all_length)

lemma array_get_ok: "ctx_ok ctx \<Longrightarrow> array_get fp a i ctx = Some r \<Longrightarrow> ctx_val_ok ctx r"
  by (auto simp: array_get_def bind_Some_iff intro: array_elems_ok [OF _ _ nth_mem])

lemma ptr_read_ok: "ctx_ok ctx \<Longrightarrow> ptr_read p ctx = Some r \<Longrightarrow> ctx_val_ok ctx r"
  by (auto simp: ptr_read_def bind_Some_iff ctx_ok_def list_all_length)

lemma ptr_write_ok: "ctx_ok ctx \<Longrightarrow> ctx_val_ok ctx v \<Longrightarrow> keeps_ctx ctx_ok grows ctx (ptr_write p v ctx)"
  by (auto simp: keeps_ctx_def ptr_write_def bind_Some_iff ctx_ok_def grows_def ctx_val_ok_def bound_def
      list_all_iff dest!: subsetD [OF set_update_subset_insert])

lemma array_set_ok:
  assumes "ctx_ok ctx" "ctx_val_ok ctx v"
  shows "keeps ctx_ok grows ctx_val_ok ctx (array_set fp a i v ctx)"
proof -
  have "keeps ctx_ok grows ctx_val_ok ctx (Some (mk_array ((ad_data d)[k := v]) ctx))"
    if "array_at ctx a = Some (j, d)" for j d k
    using array_elems_ok [OF assms(1) that] assms(2)
    by (intro mk_array_ok [OF assms(1)]) (auto dest!: subsetD [OF set_update_subset_insert])
  then show ?thesis unfolding keeps_def array_set_def
    by (fastforce simp: bind_Some_iff)
qed

lemma slice_push_ok:
  assumes "ctx_ok ctx" "\<forall>v \<in> set vs. ctx_val_ok ctx v"
  shows "keeps ctx_ok grows ctx_val_ok ctx (gen_slice_push a vs dir ctx)"
proof -
  have "keeps ctx_ok grows ctx_val_ok ctx (Some (mk_array (vs @ ad_data d) ctx))"
    "keeps ctx_ok grows ctx_val_ok ctx (Some (mk_array (ad_data d @ vs) ctx))"
    if "array_at ctx a = Some (j, d)" for j d
    using array_elems_ok [OF assms(1) that] assms(2) by (auto intro!: mk_array_ok [OF assms(1)])
  then show ?thesis unfolding keeps_def gen_slice_push_def
    by (cases dir) (fastforce simp: bind_Some_iff)+
qed

lemma slice_len_ok: "ctx_ok ctx \<Longrightarrow> keeps ctx_ok grows ctx_val_ok ctx (gen_slice_len a ctx)"
  by (auto simp: keeps_def gen_slice_len_def bind_Some_iff grows_refl)

lemma to_bits_ok: "ctx_ok ctx \<Longrightarrow> keeps ctx_ok grows ctx_val_ok ctx (val_to_bits fp v e n ctx)"
  by (cases "expect_constant v") (auto simp: val_to_bits_def Let_def keeps_def [of _ _ _ _ None] intro!: mk_array_ok)

lemma to_radix_ok: "ctx_ok ctx \<Longrightarrow> keeps ctx_ok grows ctx_val_ok ctx (val_to_radix fp v r e n ctx)"
  by (cases "expect_constant v"; cases r)
    (auto simp: val_to_radix_def Let_def keeps_def [of _ _ _ _ None] intro!: mk_array_ok)

lemma mk_tuple_ok: "ctx_ok ctx \<Longrightarrow> \<forall>v \<in> set vs. ctx_val_ok ctx v \<Longrightarrow>
    keeps ctx_ok grows ctx_val_ok ctx (Some (mk_tuple vs, ctx))"
  by (simp add: keeps_def mk_tuple_def ctx_val_ok_def grows_refl list_all_iff)

text \<open>Constraints and lookups.\<close>

lemma ctx_ok_gen:
  assumes "ctx_ok ctx" "gen_ok (bound ctx) g" "g_next_witness g = g_next_witness (gc_gen ctx)"
    "length (g_tables (gc_gen ctx)) \<le> length (g_tables g)"
  shows "ctx_ok (ctx\<lparr>gc_gen := g\<rparr>) \<and> grows ctx (ctx\<lparr>gc_gen := g\<rparr>)"
proof -
  have "ctx_val_ok (ctx\<lparr>gc_gen := g\<rparr>) = ctx_val_ok ctx" by (auto simp: fun_eq_iff ctx_val_ok_def bound_def assms(3))
  then show ?thesis using assms by (auto simp: ctx_ok_def grows_def bound_def intro: array_ok_mono)
qed

lemma constrain_ok:
  assumes "ctx_ok ctx" "ctx_val_ok ctx a" "ctx_val_ok ctx b" "ctx_val_ok ctx c"
  shows "keeps_ctx ctx_ok grows ctx (gen_constrain a b c ctx)"
proof -
  have "gen_ok (bound ctx) ((gc_gen ctx)\<lparr>g_constraints := g_constraints (gc_gen ctx) @ [r]\<rparr>)" if "r1c_ok (bound ctx) r" for r
    using assms(1) that by (auto simp: ctx_ok_def gen_ok_def)
  then have "ctx_ok (ctx\<lparr>gc_gen := (gc_gen ctx)\<lparr>g_constraints := g_constraints (gc_gen ctx) @ [r]\<rparr>\<rparr>) \<and>
      grows ctx (ctx\<lparr>gc_gen := (gc_gen ctx)\<lparr>g_constraints := g_constraints (gc_gen ctx) @ [r]\<rparr>\<rparr>)"
    if "r1c_ok (bound ctx) r" for r using that by (intro ctx_ok_gen [OF assms(1)]) auto
  then show ?thesis using assms(2-4)
    by (auto simp: keeps_ctx_def gen_constrain_def bind_Some_iff r1c_ok_def expect_lc_ok)
qed

lemma range_table_ok:
  "gen_ok n g \<Longrightarrow> range_table g = Some g' \<Longrightarrow> gen_ok n g' \<and> g_next_witness g' = g_next_witness g \<and>
     length (g_tables g) \<le> length (g_tables g') \<and> 0 < length (g_tables g')"
  by (auto simp: range_table_def gen_ok_def bind_Some_iff list_all_iff split: list.splits table.splits if_splits
      intro: lookup_in_mono)

lemma push_lookup_ok:
  assumes "gen_ok n g" "k < length (g_tables g)" "list_all (lc_in n) els" "lc_in n flag"
  shows "gen_ok n (push_lookup k els flag g) \<and> g_next_witness (push_lookup k els flag g) = g_next_witness g \<and>
    g_tables (push_lookup k els flag g) = g_tables g"
  using assms by (auto simp: gen_ok_def push_lookup_def lookup_in_def)

lemma add_table_ok:
  "gen_ok n g \<Longrightarrow> table_ok n t \<Longrightarrow> gen_ok n (g\<lparr>g_tables := g_tables g @ [t]\<rparr>)"
  by (auto simp: gen_ok_def list_all_iff intro: lookup_in_mono)

lemma spread_position_less: "spread_position k bits ts = Some i \<Longrightarrow> k \<le> i \<and> i < k + length ts"
proof (induction ts arbitrary: k)
  case (Cons t ts)
  then show ?case by (cases t) (fastforce split: if_splits)+
qed simp

lemma flatten_ok:
  assumes "\<And>i. i < length arrays \<Longrightarrow> \<forall>v \<in> set (ad_data (arrays ! i)). val_ok n (length arrays) c v"
    and "flatten_array_into_table m arrays data out = Some out'"
    and "\<forall>v \<in> set data. val_ok n (length arrays) c v" "list_all (lc_in n) out" "0 < n"
  shows "list_all (lc_in n) out'"
  using assms(2-4)
proof (induction m arbitrary: data out out')
  case (Suc m)
  from Suc.prems(1) show ?case unfolding flatten_array_into_table.simps
  proof (rule opt_fold_inv)
    fix v s s'
    assume v: "v \<in> set data" and s: "list_all (lc_in n) s"
      and e: "(case v of VArray inner \<Rightarrow> do {
           d \<leftarrow> nth_opt arrays inner;
           flatten_array_into_table m arrays (ad_data d) s }
         | _ \<Rightarrow> do { lc \<leftarrow> expect_linear_combination v; Some (s @ [lc]) }) = Some s'"
    show "list_all (lc_in n) s'"
    proof (cases v)
      case (VArray i)
      with e have "i < length arrays" "flatten_array_into_table m arrays (ad_data (arrays ! i)) s = Some s'"
        by (auto simp: bind_Some_iff)
      then show ?thesis using Suc.IH assms(1) s by blast
    qed (use e v s Suc.prems(2) assms(5) in \<open>auto simp: lc_in_def\<close>)
  qed (rule Suc.prems(3))
qed simp

lemma lookup_ok_ctx:
  assumes "ctx_ok ctx" "\<forall>v \<in> set args. ctx_val_ok ctx v" "ctx_val_ok ctx flag"
  shows "keeps_ctx ctx_ok grows ctx (gen_lookup fp target args flag ctx)"
  unfolding keeps_ctx_def
proof (intro allI impI)
  fix ctx' assume l: "gen_lookup fp target args flag ctx = Some ctx'"
  then obtain fl els where fe: "expect_linear_combination flag = Some fl"
    "opt_map expect_linear_combination args = Some els" by (auto simp: gen_lookup_def bind_Some_iff)
  have ok: "lc_in (bound ctx) fl" "list_all (lc_in (bound ctx)) els"
    using fe expect_lc_ok [OF assms(3)] expect_lcs_ok [OF assms(2)] by auto
  have g: "gen_ok (bound ctx) (gc_gen ctx)" using assms(1) by (simp add: ctx_ok_def)
  have push: "ctx_ok (ctx\<lparr>gc_gen := push_lookup k els fl g\<rparr>) \<and> grows ctx (ctx\<lparr>gc_gen := push_lookup k els fl g\<rparr>)"
    if "gen_ok (bound ctx) g" "g_next_witness g = g_next_witness (gc_gen ctx)"
      "length (g_tables (gc_gen ctx)) \<le> length (g_tables g)" "k < length (g_tables g)" for g k
    using push_lookup_ok [OF that(1,4) ok(2,1)] that by (intro ctx_ok_gen [OF assms(1)]) auto
  have range: "ctx_ok ctx' \<and> grows ctx ctx'"
    if "range_table (gc_gen ctx) = Some g'" "ctx' = ctx\<lparr>gc_gen := push_lookup 0 els fl g'\<rparr>" for g'
    using range_table_ok [OF g that(1)] that(2) push by auto
  show "ctx_ok ctx' \<and> grows ctx ctx'"
  proof (cases target)
    case (LtRangecheck i)
    then show ?thesis using l range by (auto simp: gen_lookup_def fe bind_Some_iff split: if_splits)
  next
    case (LtDynRangecheck v)
    then show ?thesis using l range by (auto simp: gen_lookup_def fe bind_Some_iff split: if_splits)
  next
    case (LtSpread bits)
    show ?thesis
    proof (cases "spread_position 0 bits (g_tables (gc_gen ctx))")
      case None
      then show ?thesis using l LtSpread push [OF add_table_ok [OF g, of "TabSpread bits"]]
        by (auto simp: gen_lookup_def fe Let_def)
    next
      case (Some i)
      then show ?thesis using l LtSpread push [OF g, of i] spread_position_less [OF Some]
        by (auto simp: gen_lookup_def fe Let_def)
    qed
  next
    case (LtArray arr)
    with l obtain a d where at: "array_at ctx arr = Some (a, d)" by (auto simp: gen_lookup_def fe bind_Some_iff)
    note ad = ctx_okD [OF assms(1) at]
    show ?thesis
    proof (cases "ad_table_id d")
      case (Some idx)
      then show ?thesis using l LtArray at push [OF g, of idx] ad
        by (auto simp: gen_lookup_def fe array_ok_def)
    next
      case None
      let ?g = "\<lambda>e. (gc_gen ctx)\<lparr>g_tables := g_tables (gc_gen ctx) @ [TabOfElems e]\<rparr>"
      let ?i = "length (g_tables (gc_gen ctx))"
      from l LtArray at None obtain e where
        e: "flatten_array_into_table (a + 1) (gc_arrays ctx) (ad_data d) [] = Some e"
        and c: "ctx' = ctx\<lparr>gc_gen := push_lookup ?i els fl (?g e),
          gc_arrays := (gc_arrays ctx)[a := d\<lparr>ad_table_id := Some ?i\<rparr>]\<rparr>"
        by (auto simp: gen_lookup_def fe bind_Some_iff Let_def)
      have el: "\<forall>v \<in> set (ad_data (gc_arrays ctx ! i)).
          val_ok (bound ctx) (length (gc_arrays ctx)) (length (gc_cells ctx)) v" if "i < length (gc_arrays ctx)" for i
        using assms(1) that by (fastforce simp: ctx_ok_def array_ok_def list_all_iff elim: val_ok_mono)
      have "list_all (lc_in (bound ctx)) e"
        by (rule flatten_ok [OF el e]) (use el ad in auto)
      then have p: "ctx_ok (ctx\<lparr>gc_gen := push_lookup ?i els fl (?g e)\<rparr>)"
        "grows ctx (ctx\<lparr>gc_gen := push_lookup ?i els fl (?g e)\<rparr>)"
        using push [OF add_table_ok [OF g, of "TabOfElems e"]] by auto
      have "array_ok (bound ctx) (length (gc_cells ctx)) (Suc ?i) a (d\<lparr>ad_table_id := Some ?i\<rparr>)"
        using ad by (auto simp: array_ok_def)
      then have "ctx_ok ctx'"
        using p(1) ad unfolding c
        by (auto simp: ctx_ok_def bound_def ctx_val_ok_def push_lookup_def nth_list_update list_all_iff)
      then show ?thesis using p(2) by (simp add: c grows_def)
    qed
  qed
qed

subsection \<open>The generator keeps the contract of a client\<close>

lemma keeps_None [simp]: "keeps V le P c None" "keeps_ctx V le c None"
  by (simp_all add: keeps_def keeps_ctx_def)

lemma keeps_id: "ctx_ok c \<Longrightarrow> P c v \<Longrightarrow> keeps ctx_ok grows P c (Some (v, c))"
  by (simp add: keeps_def grows_refl)

lemma keeps_ctx_id: "ctx_ok c \<Longrightarrow> keeps_ctx ctx_ok grows c (Some c)"
  by (simp add: keeps_ctx_def grows_refl)

lemma keeps_on_call:
  "ctx_ok c \<Longrightarrow> \<forall>v \<in> set vs. ctx_val_ok c v \<Longrightarrow> keeps ctx_ok grows (\<lambda>c (ps, res). (\<forall>v \<in> set ps. ctx_val_ok c v) \<and>
     (case res of None \<Rightarrow> True | Some rs \<Rightarrow> \<forall>v \<in> set rs. ctx_val_ok c v)) c
     (map_option (\<lambda>(r, ctx). ((vs, r), ctx)) (gen_on_call u c))"
  by (auto simp: keeps_def gen_on_call_def grows_refl)

interpretation r1cs: sym_client "r1cs_ops fp" ctx_ok grows ctx_val_ok
proof
  show "grows c c" "grows c d \<Longrightarrow> grows d e \<Longrightarrow> grows c e" for c d e :: "'a gen_ctx"
    by (rule grows_refl, rule grows_trans)
  show "grows c d \<Longrightarrow> ctx_val_ok c v \<Longrightarrow> ctx_val_ok d v" for c d and v :: "'a val"
    by (rule ctx_val_ok_mono)
qed (auto simp: r1cs_ops_def keeps_check constrain_ok lookup_ok_ctx array_set_ok slice_push_ok slice_len_ok
    to_bits_ok to_radix_ok mk_array_ok mk_tuple_ok val_alloc_ok ptr_write_ok write_witness_ok keeps_id keeps_ctx_id keeps_on_call
    intro!: keeps_pure
    intro: const_results_ok val_arith_ok array_get_ok tuple_get_ok val_sext_ok ptr_read_ok val_select_ok
    dest: unspread_ok)

subsection \<open>Properties\<close>

lemma opt_fold_cong:
  "(\<And>x s. x \<in> set xs \<Longrightarrow> f x s = g x s) \<Longrightarrow> opt_fold f xs s = opt_fold g xs s"
proof (induction xs arbitrary: s)
  case (Cons x xs)
  then show ?case by (cases "g x s") auto
qed simp

lemma flatten_fuel:
  assumes "\<And>i. i < length arrays \<Longrightarrow> \<forall>j. VArray j \<in> set (ad_data (arrays ! i)) \<longrightarrow> j < i"
  shows "\<forall>j. VArray j \<in> set data \<longrightarrow> j < i \<Longrightarrow> i < n \<Longrightarrow> i < m \<Longrightarrow>
    flatten_array_into_table n arrays data out = flatten_array_into_table m arrays data out"
proof (induction n arbitrary: m i data out)
  case (Suc n)
  then obtain k where m: "m = Suc k" by (cases m) auto
  show ?case unfolding m flatten_array_into_table.simps
  proof (rule opt_fold_cong)
    fix v s assume v: "v \<in> set data"
    show "(case v of VArray inner \<Rightarrow> do { d \<leftarrow> nth_opt arrays inner; flatten_array_into_table n arrays (ad_data d) s }
         | _ \<Rightarrow> do { lc \<leftarrow> expect_linear_combination v; Some (s @ [lc]) }) =
       (case v of VArray inner \<Rightarrow> do { d \<leftarrow> nth_opt arrays inner; flatten_array_into_table k arrays (ad_data d) s }
         | _ \<Rightarrow> do { lc \<leftarrow> expect_linear_combination v; Some (s @ [lc]) })"
    proof (cases v)
      case (VArray j)
      with v Suc.prems(1) have j: "j < i" by blast
      show ?thesis
      proof (cases "j < length arrays")
        case True
        then have "flatten_array_into_table n arrays (ad_data (arrays ! j)) s =
            flatten_array_into_table k arrays (ad_data (arrays ! j)) s"
          using Suc.prems(2,3) j m assms by (intro Suc.IH [of _ j]) auto
        then show ?thesis using VArray True by (simp add: nth_opt_def)
      qed (simp add: VArray nth_opt_def)
    qed simp_all
  qed
qed simp

text \<open>Flattening never runs out of fuel: in a valid context, an array that is turned into a table gives
  the same rows, or panics alike, with any fuel from the address of the array on.\<close>

theorem flatten_fuel_enough:
  assumes "ctx_ok ctx" "array_at ctx v = Some (a, d)" "a + 1 \<le> n"
  shows "flatten_array_into_table n (gc_arrays ctx) (ad_data d) out =
    flatten_array_into_table (a + 1) (gc_arrays ctx) (ad_data d) out"
proof -
  have e: "\<forall>j. VArray j \<in> set (ad_data (gc_arrays ctx ! i)) \<longrightarrow> j < i" if "i < length (gc_arrays ctx)" for i
    using assms(1) that by (fastforce simp: ctx_ok_def array_ok_def list_all_iff)
  then show ?thesis using ctx_okD [OF assms(1,2)] assms(3) by (intro flatten_fuel [OF e, of _ a]) auto
qed

text \<open>The context after building \<open>[[1, 2], [3, 4]]\<close>.\<close>

definition sample_ctx :: "rat gen_ctx" where
  "sample_ctx = \<lparr>gc_gen = r1c_gen_new,
     gc_arrays = [\<lparr>ad_table_id = None, ad_data = [VConst 1, VConst 2]\<rparr>,
                  \<lparr>ad_table_id = None, ad_data = [VConst 3, VConst 4]\<rparr>,
                  \<lparr>ad_table_id = None, ad_data = [VArray 0, VArray 1]\<rparr>], gc_cells = []\<rparr>"

theorem flatten_fuel_enough_witness:
  "flatten_array_into_table 9 (gc_arrays sample_ctx) [VArray 0, VArray 1] [] =
    Some [[(0, 1)], [(0, 2)], [(0, 3)], [(0, 4 :: rat)]]"
proof -
  have ok: "ctx_ok sample_ctx"
    by (auto simp: ctx_ok_def sample_ctx_def gen_ok_def r1c_gen_new_def array_ok_def nth_Cons' less_Suc_eq numeral_3_eq_3)
  have at: "array_at sample_ctx (VArray 2) = Some (2, \<lparr>ad_table_id = None, ad_data = [VArray 0, VArray 1]\<rparr>)"
    by (simp add: array_at_def sample_ctx_def nth_opt_def)
  have "flatten_array_into_table 9 (gc_arrays sample_ctx) [VArray 0, VArray 1] [] =
      flatten_array_into_table (2 + 1) (gc_arrays sample_ctx) [VArray 0, VArray 1] []"
    using flatten_fuel_enough [OF ok at, of 9] by simp
  then show ?thesis by (simp add: sample_ctx_def nth_opt_def eval_nat_numeral)
qed

lemma gen_init_ok: "gen_ok (max 1 (g_next_witness g)) g \<Longrightarrow> ctx_ok (gen_init g)"
  by (simp add: ctx_ok_def gen_init_def bound_def)

lemma r1c_gen_new_ok: "gen_ok n r1c_gen_new"
  by (simp add: gen_ok_def r1c_gen_new_def)

lemma gen_run_ok:
  assumes "gen_run fuel fp ssa ti r1c_gen_new = Ret g"
  shows "gen_ok (max 1 (g_next_witness g)) g"
proof -
  from assms obtain ctx where r: "run fuel (r1cs_ops fp) ssa ti (s_main_id ssa) [] (gen_init r1c_gen_new) = Ret ctx"
    and g: "g = gc_gen ctx" by (auto simp: gen_run_def and_then_Ret)
  have "ctx_ok ctx" using r1cs.run_ok [OF gen_init_ok [OF r1c_gen_new_ok] _ r] by simp
  then show ?thesis by (simp add: ctx_ok_def bound_def g)
qed

text \<open>The shape of lookups that sealing handles: one element into a range table, two into the others.\<close>

definition lookups_fit :: "'f r1c_gen \<Rightarrow> bool" where
  "lookups_fit g \<longleftrightarrow> list_all (\<lambda>l. length (lk_elements l) =
     (if wide (g_tables g ! lk_table_id l) then 2 else 1)) (g_lookups g)"

lemma gen_ok_wf:
  assumes "gen_ok (max 1 (g_next_witness g)) g" "0 < g_next_witness g" "lookups_fit g"
  shows "wf_gen g"
proof -
  have "max 1 (g_next_witness g) = g_next_witness g" using assms(2) by simp
  with assms show ?thesis
    by (fastforce simp: wf_gen_def gen_ok_def lookups_fit_def lookup_wf_def lookup_in_def r1c_ok_def list_all_iff)
qed

text \<open>C1. From program to witness check without a panic. If the generator runs a program to its end,
  allocates a witness, and its lookups have as many elements as their tables' rows, then the sealed
  system exists and lies within its own layout: checking any witness of the layout's size against it
  returns a verdict.\<close>

theorem generated_system_is_checkable:
  assumes "gen_run fuel fp ssa ti r1c_gen_new = Ret g" "0 < g_next_witness g" "lookups_fit g"
  shows "\<exists>r. seal g = Some r \<and> wl_algebraic_size (r_witness_layout r) = g_next_witness g \<and>
    (\<forall>pre_w post_w a b c. length pre_w + length post_w = witness_size (r_witness_layout r) \<longrightarrow>
       check_witgen_output r pre_w post_w a b c \<noteq> None)"
proof -
  have "wf_gen g" using gen_ok_wf [OF gen_run_ok [OF assms(1)] assms(2,3)] .
  then obtain r where r: "seal g = Some r" "r1cs_fits (witness_size (r_witness_layout r)) r"
    "wl_algebraic_size (r_witness_layout r) = g_next_witness g" using sealed_fits by blast
  have "check_witgen_output r pre_w post_w a b c \<noteq> None"
    if "length pre_w + length post_w = witness_size (r_witness_layout r)" for pre_w post_w a b c
    using check_not_None r(2) that by metis
  with r show ?thesis by blast
qed

text \<open>A program that writes the constant one and a fresh witness, calls a function that squares its
  argument, constrains the square with a fresh witness, and looks the argument up in an array.\<close>

definition square_function :: hl_function where
  "square_function = \<lparr>f_entry_block = 0,
     f_blocks = [(0, \<lparr>b_parameters = [(10, TWitnessOf TField)],
                   b_instructions = [OpFreshWitness 11 TField, OpConstrain 10 10 11],
                   b_terminator = Some (Jmp 1 [11])\<rparr>),
                 (1, \<lparr>b_parameters = [(12, TWitnessOf TField)], b_instructions = [],
                   b_terminator = Some (Return [12])\<rparr>)],
     f_name = ''square'', f_returns = [TWitnessOf TField], f_next_block = 2\<rparr>"

definition main_function :: hl_function where
  "main_function = \<lparr>f_entry_block = 0,
     f_blocks = [(0, \<lparr>b_parameters = [],
                   b_instructions = [OpWriteWitness (Some 2) 0 True, OpFreshWitness 3 TField,
                     OpCall [4] (CallStatic 1) [3] False, OpMkSeq 5 [1, 0, 4] (SeqArray 3) (TWitnessOf TField),
                     OpLookup (LtArray 5) [3, 0] 2],
                   b_terminator = Some (Return [])\<rparr>)],
     f_name = ''main'', f_returns = [], f_next_block = 1\<rparr>"

definition main_program :: "rat hlssa" where
  "main_program = \<lparr>s_functions = [(0, main_function), (1, square_function)], s_global_types = [],
     s_globals_init_fn = None, s_globals_deinit_fn = None, s_main_id = 0, s_next_function_id = 2,
     s_next_value_id = 13, s_constants = [(0, ConstField 1), (1, ConstU 32 7)]\<rparr>"

definition main_types :: type_info where
  "main_types fid = Some (\<lambda>v. Some (TWitnessOf TField))"

definition main_gen :: "rat r1c_gen" where
  "main_gen = \<lparr>g_constraints = [\<lparr>r1c_a = [(1, 1)], r1c_b = [(1, 1)], r1c_c = [(2, 1)]\<rparr>],
     g_tables = [TabOfElems [[(0, 7)], [(0, 1)], [(2, 1)]]],
     g_lookups = [\<lparr>lk_table_id = 0, lk_elements = [[(1, 1)], [(0, 1)]], lk_flag = [(0, 1)]\<rparr>],
     g_next_witness = 3\<rparr>"

lemmas program_simps = main_program_def main_function_def square_function_def main_types_def get_function_def
  get_entry_def get_block_def get_param_types_def get_parameter_values_def num_globals_def

lemmas run_simps = run_def materialize_constants_def exec_instr_def exec_call_def exec_simple_def exec_compute_def
  exec_memory_def exec_constrain_def put_result_def put_ctx_def scope_index_def scope_insert_def
  scope_insert_all_def

lemma of_u128_7 [simp]: "of_u128 7 = (7 :: rat)"
  by (simp add: of_u128_def)

lemma main_run: "gen_run 4 rat_ops main_program main_types r1c_gen_new = Ret main_gen"
  by (simp add: gen_run_def gen_init_def r1c_gen_new_def run_simps program_simps eval_nat_numeral r1cs_ops_def
      write_witness_def next_witness_def gen_constrain_def gen_on_call_def mk_array_def gen_lookup_def array_at_def
      push_lookup_def main_gen_def nth_opt_def ensure_def)

theorem run_fuel_irrelevant_witness:
  "\<exists>ctx. run 100 (r1cs_ops rat_ops) main_program main_types 0 [] (gen_init r1c_gen_new) = Ret ctx \<and>
     gc_gen ctx = main_gen"
proof -
  have m: "s_main_id main_program = 0" by (simp add: main_program_def)
  from main_run obtain ctx where
    c: "run 4 (r1cs_ops rat_ops) main_program main_types 0 [] (gen_init r1c_gen_new) = Ret ctx" "gc_gen ctx = main_gen"
    by (auto simp: gen_run_def and_then_Ret m)
  then show ?thesis
    using run_fuel_irrelevant [of 4 "r1cs_ops rat_ops" main_program main_types 0 "[]" "gen_init r1c_gen_new" 100] by simp
qed

theorem generated_system_is_checkable_witness:
  "\<exists>r. seal main_gen = Some r \<and> wl_algebraic_size (r_witness_layout r) = 3"
proof -
  have "0 < g_next_witness main_gen" "lookups_fit main_gen" "g_next_witness main_gen = 3"
    by (simp_all add: main_gen_def lookups_fit_def wide_def)
  with generated_system_is_checkable [OF main_run] show ?thesis by fastforce
qed

end
