(* ===== verification/Deduplicate_Phis.thy ===== *)
theory Deduplicate_Phis
  imports Unreachable_Passes R1CS_Run
begin

text \<open>
  The pass that merges equal jumps (\<^verbatim>\<open>compiler/src/compiler/passes/deduplicate_phis.rs\<close>): blocks that jump to
  the same target with the same arguments jump to one new block that does. Runs take more steps and are otherwise
  the same, for clients that pass the arguments of a jump on unchanged. The order in which the hash map of the
  pass iterates is a parameter.
\<close>

subsection \<open>The pass\<close>

type_synonym unifications = "((block_id \<times> value_id list) \<times> block_id list) list"

definition collect_unifications :: "('op, 'ty) func \<Rightarrow> unifications" where
  "collect_unifications f = fold (\<lambda>(b, block) us. case b_terminator block of
      Some (Jmp target inputs) \<Rightarrow>
        if length inputs > 0
        then AList.update (target, inputs) ((case map_of us (target, inputs) of None \<Rightarrow> [] | Some bs \<Rightarrow> bs) @ [b]) us
        else us
    | _ \<Rightarrow> us) (f_blocks f) []"

definition unify_jumps :: "(block_id \<times> value_id list) \<times> block_id list \<Rightarrow> ('op, 'ty) func \<Rightarrow> ('op, 'ty) func option" where
  "unify_jumps u f = (case u of ((target, inputs), sources) \<Rightarrow>
     if length sources \<le> 1 then Some f
     else do {
       let (new_block, f) = add_block f;
       f \<leftarrow> terminate_block_with_jmp new_block target inputs f;
       opt_fold (\<lambda>b f. terminate_block_with_jmp b new_block [] f) sources f })"

definition deduplicate_function :: "(unifications \<Rightarrow> unifications) \<Rightarrow> ('op, 'ty) func \<Rightarrow> ('op, 'ty) func option" where
  "deduplicate_function ord f = opt_fold unify_jumps (ord (collect_unifications f)) f"

definition deduplicate_phis :: "(unifications \<Rightarrow> unifications) \<Rightarrow> ('op, 'ty, 'c) ssa \<Rightarrow> ('op, 'ty, 'c) ssa option" where
  "deduplicate_phis ord s = do {
     fs \<leftarrow> opt_map (\<lambda>(fid, f). map_option (Pair fid) (deduplicate_function ord f)) (s_functions s);
     Some (s\<lparr>s_functions := fs\<rparr>) }"

subsection \<open>What it does to a function\<close>

text \<open>Identifiers below the counter of the function: the pass invents blocks above it.\<close>

definition func_ids_ok :: "('op, 'ty) func \<Rightarrow> bool" where
  "func_ids_ok f \<longleftrightarrow> distinct (map fst (f_blocks f)) \<and> f_entry_block f < f_next_block f \<and>
     (\<forall>(b, block) \<in> set (f_blocks f). b < f_next_block f \<and> (\<forall>t \<in> set (term_targets (b_terminator block)). t < f_next_block f))"

text \<open>The new function is the old one, except that a jump may take a detour through a new block.\<close>

definition detour :: "('op, 'ty) func \<Rightarrow> ('op, 'ty) func \<Rightarrow> ('op, 'ty) block \<Rightarrow> ('op, 'ty) block \<Rightarrow> bool" where
  "detour f f' block block' \<longleftrightarrow> block' = block \<or> (\<exists>t ins nb. b_terminator block = Some (Jmp t ins) \<and>
     f_next_block f \<le> nb \<and> nb < f_next_block f' \<and> block' = block\<lparr>b_terminator := Some (Jmp nb [])\<rparr> \<and>
     get_block nb f' = Some \<lparr>b_parameters = [], b_instructions = [], b_terminator = Some (Jmp t ins)\<rparr>)"

definition dedup_sim :: "('op, 'ty) func \<Rightarrow> ('op, 'ty) func \<Rightarrow> bool" where
  "dedup_sim f f' \<longleftrightarrow> f_entry_block f' = f_entry_block f \<and> f_returns f' = f_returns f \<and> f_next_block f \<le> f_next_block f' \<and>
     (\<forall>b < f_next_block f. rel_option (detour f f') (get_block b f) (get_block b f'))"

lemma get_block_put: "get_block b (put_block c block f) = (if b = c then Some block else get_block b f)"
  by (simp add: get_block_def put_block_def)

lemma put_block_fields [simp]:
  "f_entry_block (put_block c block f) = f_entry_block f" "f_returns (put_block c block f) = f_returns f"
  "f_next_block (put_block c block f) = f_next_block f"
  by (simp_all add: put_block_def)

lemma terminate_block:
  "get_block b f = Some block \<Longrightarrow> terminate_block_with_jmp b t ins f = Some (put_block b (block\<lparr>b_terminator := Some (Jmp t ins)\<rparr>) f)"
  by (simp add: terminate_block_with_jmp_def terminate_block_with_def get_block_def set_terminator_def)

lemma detour_mono:
  assumes "detour f g x y" "f_next_block g \<le> f_next_block h"
    "\<And>nb. f_next_block f \<le> nb \<Longrightarrow> nb < f_next_block g \<Longrightarrow> get_block nb h = get_block nb g"
  shows "detour f h x y"
proof (cases "y = x")
  case False
  then obtain t ins nb where d: "b_terminator x = Some (Jmp t ins)" "f_next_block f \<le> nb" "nb < f_next_block g"
    "y = x\<lparr>b_terminator := Some (Jmp nb [])\<rparr>"
    "get_block nb g = Some \<lparr>b_parameters = [], b_instructions = [], b_terminator = Some (Jmp t ins)\<rparr>"
    using assms(1) unfolding detour_def by auto
  then have "nb < f_next_block h" "get_block nb h = get_block nb g" using assms(2,3) by simp_all
  then show ?thesis using d unfolding detour_def
    by - (rule disjI2, rule exI [of _ t], rule exI [of _ ins], rule exI [of _ nb], simp)
qed (simp add: detour_def)

lemma unify_jumps_sim:
  assumes sim: "dedup_sim f g" and ids: "func_ids_ok f"
    and sources: "\<And>b. b \<in> set sources \<Longrightarrow> \<exists>block. get_block b f = Some block \<and> b_terminator block = Some (Jmp target inputs)"
  shows "\<exists>h. unify_jumps ((target, inputs), sources) g = Some h \<and> dedup_sim f h"
proof (cases "length sources \<le> 1")
  case False
  let ?nb = "f_next_block g"
  let ?new = "\<lparr>b_parameters = [], b_instructions = [], b_terminator = Some (Jmp target inputs)\<rparr>"
  let ?g = "put_block ?nb ?new (snd (add_block g))"
  have known: "b < f_next_block f" if "get_block b f = Some block" for b block
    using ids that by (auto simp: func_ids_ok_def get_block_def dest: map_of_SomeD)
  have t: "terminate_block_with_jmp ?nb target inputs (snd (add_block g)) = Some ?g"
    by (subst terminate_block [where block = block_empty]) (simp_all add: add_block_def get_block_def block_empty_def put_block_def)
  have gb: "get_block b ?g = (if b = ?nb then Some ?new else get_block b g)" for b
    by (simp add: get_block_put) (simp add: add_block_def get_block_def)
  have le: "f_next_block f \<le> ?nb" "f_next_block ?g = Suc ?nb" using sim by (simp_all add: dedup_sim_def add_block_def)
  have "rel_option (detour f ?g) (get_block b f) (get_block b ?g)" if b: "b < f_next_block f" for b
  proof -
    have r: "rel_option (detour f g) (get_block b f) (get_block b g)" "b \<noteq> ?nb" using sim b by (auto simp: dedup_sim_def)
    have "detour f ?g block block'" if "detour f g block block'" for block block'
      by (rule detour_mono [OF that]) (use le(2) in \<open>simp_all add: gb\<close>)
    then show ?thesis using r by (simp add: gb option.rel_mono_strong)
  qed
  then have sim': "dedup_sim f ?g" using sim le by (simp add: dedup_sim_def add_block_def)
  have loop: "set bs \<subseteq> set sources \<Longrightarrow> dedup_sim f k \<Longrightarrow> get_block ?nb k = Some ?new \<Longrightarrow> ?nb < f_next_block k \<Longrightarrow>
      \<exists>h. opt_fold (\<lambda>b f. terminate_block_with_jmp b ?nb [] f) bs k = Some h \<and> dedup_sim f h" for bs k
  proof (induction bs arbitrary: k)
    case (Cons b bs)
    obtain block where bl: "get_block b f = Some block" "b_terminator block = Some (Jmp target inputs)"
      using sources [of b] Cons.prems(1) by auto
    have b: "b < f_next_block f" by (rule known [OF bl(1)])
    then obtain block' where b': "get_block b k = Some block'" "detour f k block block'"
    proof -
      have "rel_option (detour f k) (get_block b f) (get_block b k)" using Cons.prems(2) b by (simp add: dedup_sim_def)
      then show thesis using bl(1) that by (auto simp: option_rel_Some1)
    qed
    let ?b = "block'\<lparr>b_terminator := Some (Jmp ?nb [])\<rparr>" and ?k = "put_block b (block'\<lparr>b_terminator := Some (Jmp ?nb [])\<rparr>) k"
    have kb: "get_block c ?k = (if c = b then Some ?b else get_block c k)" for c by (rule get_block_put)
    have new: "?b = block\<lparr>b_terminator := Some (Jmp ?nb [])\<rparr>" using b'(2) by (auto simp: detour_def)
    have "detour f ?k block ?b"
      using bl(2) le Cons.prems(3,4) b unfolding detour_def kb new
      by - (rule disjI2, rule exI [of _ target], rule exI [of _ inputs], rule exI [of _ ?nb], simp add: get_block_put)
    moreover have "detour f ?k x y" if "detour f k x y" for x y
      by (rule detour_mono [OF that]) (use b in \<open>simp_all add: kb\<close>)
    ultimately have "rel_option (detour f ?k) (get_block c f) (get_block c ?k)" if "c < f_next_block f" for c
      using Cons.prems(2) that bl(1) unfolding dedup_sim_def kb by (auto intro: option.rel_mono_strong)
    then have "dedup_sim f ?k" using Cons.prems(2) by (simp add: dedup_sim_def)
    then show ?case using Cons.IH [of ?k] Cons.prems b le kb [of ?nb] terminate_block [OF b'(1)] by simp
  qed simp
  show ?thesis using loop [OF subset_refl sim'] False t gb [of ?nb] le
    by (simp add: unify_jumps_def add_block_def)
qed (use sim in \<open>simp add: unify_jumps_def\<close>)

lemma set_alist_update: "x \<in> set (AList.update k v xs) \<Longrightarrow> x = (k, v) \<or> x \<in> set xs"
  by (induction xs) (auto split: if_splits)

definition unifications_of :: "('op, 'ty) func \<Rightarrow> unifications \<Rightarrow> bool" where
  "unifications_of f us \<longleftrightarrow> (\<forall>t ins bs b. ((t, ins), bs) \<in> set us \<longrightarrow> b \<in> set bs \<longrightarrow>
     (\<exists>block. (b, block) \<in> set (f_blocks f) \<and> b_terminator block = Some (Jmp t ins)))"

lemma collect_unifications_ok: "unifications_of f (collect_unifications f)"
proof -
  let ?step = "\<lambda>(b, block) us. case b_terminator block of
      Some (Jmp target inputs) \<Rightarrow>
        if length inputs > 0
        then AList.update (target, inputs) ((case map_of us (target, inputs) of None \<Rightarrow> [] | Some bs \<Rightarrow> bs) @ [b]) us
        else us
    | _ \<Rightarrow> us"
  have step: "unifications_of f (?step (b, block) us)"
    if "(b, block) \<in> set (f_blocks f)" "unifications_of f us" for b block us
  proof (cases "b_terminator block")
    case (Some tm)
    show ?thesis
    proof (cases tm)
      case (Jmp t ins)
      let ?old = "case map_of us (t, ins) of None \<Rightarrow> [] | Some bs \<Rightarrow> bs"
      have old: "\<exists>blk. (c, blk) \<in> set (f_blocks f) \<and> b_terminator blk = Some (Jmp t ins)" if "c \<in> set ?old" for c
        using that \<open>unifications_of f us\<close> unfolding unifications_of_def
        by (cases "map_of us (t, ins)") (auto dest: map_of_SomeD)
      have "unifications_of f (AList.update (t, ins) (?old @ [b]) us)"
        unfolding unifications_of_def
      proof (intro allI impI)
        fix t' ins' bs c
        assume m: "((t', ins'), bs) \<in> set (AList.update (t, ins) (?old @ [b]) us)" and c: "c \<in> set bs"
        from set_alist_update [OF m]
        show "\<exists>block. (c, block) \<in> set (f_blocks f) \<and> b_terminator block = Some (Jmp t' ins')"
        proof
          assume "((t', ins'), bs) = ((t, ins), ?old @ [b])"
          then show ?thesis using c old [of c] that(1) Some Jmp by auto
        next
          assume "((t', ins'), bs) \<in> set us"
          then show ?thesis using c that(2) unfolding unifications_of_def by blast
        qed
      qed
      then show ?thesis using Some Jmp that(2) by simp
    qed (use Some that(2) in simp_all)
  qed (use that(2) in simp)
  have "set xs \<subseteq> set (f_blocks f) \<Longrightarrow> unifications_of f us \<Longrightarrow> unifications_of f (fold ?step xs us)" for xs us
  proof (induction xs arbitrary: us)
    case (Cons x xs)
    obtain b block where x: "x = (b, block)" by fastforce
    have "unifications_of f (?step (b, block) us)" using step [of b block us] Cons.prems by (simp add: x)
    then show ?case using Cons unfolding x by simp
  qed simp
  from this [of "f_blocks f" "[]"] show ?thesis
    unfolding collect_unifications_def by (simp add: unifications_of_def [of f "[]"])
qed

lemma deduplicate_function_sim:
  assumes ids: "func_ids_ok f" and ord: "\<And>us. mset (ord us) = mset us"
  shows "\<exists>f'. deduplicate_function ord f = Some f' \<and> dedup_sim f f'"
  unfolding deduplicate_function_def
proof (rule opt_fold_total)
  show "dedup_sim f f" by (auto simp: dedup_sim_def detour_def option.rel_refl)
  fix u g
  assume u: "u \<in> set (ord (collect_unifications f))" and g: "dedup_sim f g"
  obtain t ins bs where e: "u = ((t, ins), bs)" by (metis surj_pair)
  have "u \<in> set (collect_unifications f)" using u ord by (metis set_mset_mset)
  then have "\<exists>block. get_block b f = Some block \<and> b_terminator block = Some (Jmp t ins)" if b: "b \<in> set bs" for b
  proof -
    obtain block where "(b, block) \<in> set (f_blocks f)" "b_terminator block = Some (Jmp t ins)"
      using collect_unifications_ok \<open>u \<in> set (collect_unifications f)\<close> b unfolding unifications_of_def e by blast
    then show ?thesis using ids by (auto simp: get_block_def func_ids_ok_def)
  qed
  then show "\<exists>h. unify_jumps u g = Some h \<and> dedup_sim f h" unfolding e by (rule unify_jumps_sim [OF g ids])
qed

subsection \<open>Runs\<close>

definition passes_arguments :: "('v, 'c, 'f) sym_ops \<Rightarrow> bool" where
  "passes_arguments S \<longleftrightarrow> (\<forall>t vs ts c. so_on_jmp S t vs ts c = Some (vs, c))"

definition dedup_ssa_sim :: "'f hlssa \<Rightarrow> 'f hlssa \<Rightarrow> bool" where
  "dedup_ssa_sim s s' \<longleftrightarrow> s_constants s' = s_constants s \<and> num_globals s' = num_globals s \<and>
     s_main_id s' = s_main_id s \<and>
     (\<forall>fid. rel_option (\<lambda>f f'. func_ids_ok f \<and> dedup_sim f f') (get_function fid s) (get_function fid s'))"

lemma dedup_block:
  assumes "dedup_sim f f'" "b < f_next_block f"
  shows "get_block b f = None \<and> get_block b f' = None \<or>
    (\<exists>block block'. get_block b f = Some block \<and> get_block b f' = Some block' \<and> detour f f' block block' \<and>
      b_parameters block' = b_parameters block \<and> b_instructions block' = b_instructions block)"
proof -
  have "rel_option (detour f f') (get_block b f) (get_block b f')" using assms by (simp add: dedup_sim_def)
  then show ?thesis by (cases rule: option.rel_cases) (auto simp: detour_def)
qed

lemma dedup_param_types:
  assumes "func_ids_ok f" "dedup_sim f f'"
  shows "get_param_types f' = get_param_types f" "map_option b_parameters (get_entry f') = map_option b_parameters (get_entry f)"
proof -
  have e: "f_entry_block f' = f_entry_block f" "f_entry_block f < f_next_block f"
    using assms by (simp_all add: dedup_sim_def func_ids_ok_def)
  have "get_entry f = get_block (f_entry_block f) f" "get_entry f' = get_block (f_entry_block f) f'"
    by (simp_all add: get_entry_def get_block_def e)
  then show "map_option b_parameters (get_entry f') = map_option b_parameters (get_entry f)"
    using dedup_block [OF assms(2) e(2)] by auto
  then show "get_param_types f' = get_param_types f"
    by (cases "get_entry f"; cases "get_entry f'") (simp_all add: get_param_types_def)
qed

lemma dedup_signatures: "dedup_ssa_sim s s' \<Longrightarrow> same_signatures UNIV s s'"
  unfolding same_signatures_def
proof
  fix fid assume "dedup_ssa_sim s s'"
  then have "rel_option (\<lambda>f f'. func_ids_ok f \<and> dedup_sim f f') (get_function fid s) (get_function fid s')"
    by (simp add: dedup_ssa_sim_def)
  then show "Option.bind (get_function fid s') get_param_types = Option.bind (get_function fid s) get_param_types"
    by (cases rule: option.rel_cases) (simp_all add: dedup_param_types)
qed

text \<open>The end of a block, as a function of how to go on.\<close>

definition exec_end ::
  "('v, 'c, 'f) sym_ops \<Rightarrow> 'v scope \<Rightarrow> hl_function \<Rightarrow> terminator option \<Rightarrow>
   (block_id \<Rightarrow> ('v, 'c) exec_state \<Rightarrow> ('v list \<times> 'v option list \<times> 'c) outcome) \<Rightarrow> ('v, 'c) exec_state \<Rightarrow>
   ('v list \<times> 'v option list \<times> 'c) outcome" where
  "exec_end S consts f tm go = (\<lambda>(locals, globals, ctx).
     and_then (of_option tm) (\<lambda>terminator. case terminator of
       Return returns \<Rightarrow> of_option (do {
         outputs \<leftarrow> opt_map (scope_index consts locals) returns;
         (outputs, ctx) \<leftarrow> so_on_return S outputs (f_returns f) ctx;
         Some (outputs, globals, ctx) })
     | Jmp target params \<Rightarrow>
         and_then (of_option (do {
           params \<leftarrow> opt_map (scope_index consts locals) params;
           target_block \<leftarrow> get_block target f;
           (params, ctx) \<leftarrow> so_on_jmp S target params (map snd (b_parameters target_block)) ctx;
           Some (scope_insert_all (zip (get_parameter_values target_block) params) locals, globals, ctx) }))
         (go target)
     | JmpIf cond if_true if_false \<Rightarrow>
         and_then (of_option (do {
           cond \<leftarrow> scope_index consts locals cond;
           (b, ctx) \<leftarrow> so_expect_constant_bool S cond ctx;
           Some (b, locals, globals, ctx) }))
         (\<lambda>(b, st). go (if b then if_true else if_false) st)))"

lemma run_blocks_end:
  "run_blocks (Suc n) S ssa call ty_of consts f b st =
     and_then (of_option (get_block b f)) (\<lambda>block.
     and_then (exec_instrs S ssa call ty_of consts (b_instructions block) st)
       (exec_end S consts f (b_terminator block) (run_blocks n S ssa call ty_of consts f)))"
  by (simp add: exec_end_def)

lemma fuel_le_trans: "fuel_le a b \<Longrightarrow> fuel_le b c \<Longrightarrow> fuel_le a c"
  by (auto simp: fuel_le_def)

lemma exec_end_le:
  assumes "f_returns g = f_returns f"
    and "\<And>t. t \<in> set (term_targets tm) \<Longrightarrow> map_option b_parameters (get_block t g) = map_option b_parameters (get_block t f)"
    and "\<And>t st. t \<in> set (term_targets tm) \<Longrightarrow> fuel_le (go t st) (go' t st)"
  shows "fuel_le (exec_end S consts f tm go st) (exec_end S consts g tm go' st)"
proof (cases tm)
  case (Some x)
  obtain locals globals ctx where st: "st = (locals, globals, ctx)" by (cases st)
  show ?thesis
  proof (cases x)
    case (Jmp t ps)
    have p: "map_option b_parameters (get_block t g) = map_option b_parameters (get_block t f)"
      using assms(2) Some Jmp by simp
    have "(do { params \<leftarrow> opt_map (scope_index consts locals) ps; target_block \<leftarrow> get_block t f;
           (params, ctx) \<leftarrow> so_on_jmp S t params (map snd (b_parameters target_block)) ctx;
           Some (scope_insert_all (zip (get_parameter_values target_block) params) locals, globals, ctx) }) =
      (do { params \<leftarrow> opt_map (scope_index consts locals) ps; target_block \<leftarrow> get_block t g;
           (params, ctx) \<leftarrow> so_on_jmp S t params (map snd (b_parameters target_block)) ctx;
           Some (scope_insert_all (zip (get_parameter_values target_block) params) locals, globals, ctx) })"
      using p by (cases "get_block t f"; cases "get_block t g") (simp_all add: get_parameter_values_def)
    then show ?thesis
      using assms(3) Some Jmp by (auto simp: exec_end_def st intro!: fuel_le_and_then)
  next
    case (JmpIf c t1 t2)
    then show ?thesis using assms(3) Some by (auto simp: exec_end_def st intro!: fuel_le_and_then)
  qed (use Some assms(1) in \<open>simp add: exec_end_def st\<close>)
qed (simp add: exec_end_def)

lemma exec_instrs_dedup_le:
  assumes "same_signatures UNIV s s'" "runner_le call call'"
  shows "fuel_le (exec_instrs S s call ty_of consts is st) (exec_instrs S s' call' ty_of consts is st)"
    "fuel_le (exec_instrs S s' call ty_of consts is st) (exec_instrs S s call' ty_of consts is st)"
  using exec_instrs_le [OF assms(2), of S s] exec_instrs_sim [OF assms(1), of call' call' "is" S]
    exec_instrs_sim [OF assms(1), of call call "is" S] by simp_all

text \<open>A jump through an empty block without parameters.\<close>

lemma detour_step:
  assumes "passes_arguments S"
    "get_block nb f = Some \<lparr>b_parameters = [], b_instructions = [], b_terminator = Some (Jmp t ins)\<rparr>"
  shows "exec_end S consts f (Some (Jmp nb [])) go st = go nb st"
    "run_blocks (Suc n) S s call ty_of consts f nb st =
       exec_end S consts f (Some (Jmp t ins)) (run_blocks n S s call ty_of consts f) st"
  using assms
  by (cases st; simp add: exec_end_def passes_arguments_def get_parameter_values_def scope_insert_all_def)
    (simp add: run_blocks_end assms(2) del: run_blocks.simps)

lemma dedup_targets:
  assumes "func_ids_ok f" "dedup_sim f f'" "get_block b f = Some block" "t \<in> set (term_targets (b_terminator block))"
  shows "t < f_next_block f" "map_option b_parameters (get_block t f') = map_option b_parameters (get_block t f)"
proof -
  have "(b, block) \<in> set (f_blocks f)" using assms(3) by (simp add: get_block_def map_of_SomeD)
  then show l: "t < f_next_block f" using assms(1,4) by (auto simp: func_ids_ok_def)
  show "map_option b_parameters (get_block t f') = map_option b_parameters (get_block t f)"
    using dedup_block [OF assms(2) l] by auto
qed

lemma run_blocks_dedup:
  assumes S: "passes_arguments S" and s: "same_signatures UNIV s s'" and call: "runner_le call call'"
    and f: "func_ids_ok f" "dedup_sim f f'"
  shows "b < f_next_block f \<Longrightarrow>
    fuel_le (run_blocks n S s call ty_of consts f b st) (run_blocks (2 * n) S s' call' ty_of consts f' b st)"
proof (induction n arbitrary: b st)
  case (Suc n)
  let ?go = "run_blocks n S s call ty_of consts f"
  let ?go' = "run_blocks (2 * n) S s' call' ty_of consts f'"
  let ?go1 = "run_blocks (Suc (2 * n)) S s' call' ty_of consts f'"
  have two: "2 * Suc n = Suc (Suc (2 * n))" by simp
  have r: "f_returns f' = f_returns f" using f(2) by (simp add: dedup_sim_def)
  from dedup_block [OF f(2) Suc.prems] show ?case
  proof (elim disjE conjE exE)
    fix block block'
    assume b: "get_block b f = Some block" "get_block b f' = Some block'" "detour f f' block block'"
      "b_instructions block' = b_instructions block"
    note t = dedup_targets [OF f b(1)]
    have go: "fuel_le (?go t st) (?go' t st)" if "t \<in> set (term_targets (b_terminator block))" for t st
      by (rule Suc.IH [OF t(1) [OF that]])
    have go1: "fuel_le (?go t st) (?go1 t st)" if "t \<in> set (term_targets (b_terminator block))" for t st
      by (rule fuel_le_trans [OF go [OF that] run_blocks_le]) (simp_all add: runner_le_def)
    have "fuel_le (exec_end S consts f (b_terminator block) ?go st) (exec_end S consts f' (b_terminator block') ?go1 st)" for st
      using b(3) unfolding detour_def
    proof (elim disjE exE conjE)
      assume "block' = block"
      then show ?thesis by (simp only:) (rule exec_end_le [OF r], erule t(2), erule go1)
    next
      fix t ins nb
      assume d: "b_terminator block = Some (Jmp t ins)" "block' = block\<lparr>b_terminator := Some (Jmp nb [])\<rparr>"
        "get_block nb f' = Some \<lparr>b_parameters = [], b_instructions = [], b_terminator = Some (Jmp t ins)\<rparr>"
      have "exec_end S consts f' (b_terminator block') ?go1 st = exec_end S consts f' (Some (Jmp t ins)) ?go' st"
        unfolding d(2) using detour_step [OF S d(3)] by (simp del: run_blocks.simps)
      moreover have "fuel_le (exec_end S consts f (b_terminator block) ?go st) (exec_end S consts f' (b_terminator block) ?go' st)"
        by (rule exec_end_le [OF r], erule t(2), erule go)
      ultimately show ?thesis using d(1) by simp
    qed
    then show ?thesis
      unfolding two run_blocks_end b(1,2,4) of_option.simps and_then.simps
      by (intro fuel_le_and_then exec_instrs_dedup_le [OF s call])
  qed (simp add: two)
qed (simp add: fuel_le_def)

lemma run_blocks_dedup_back:
  assumes S: "passes_arguments S" and s: "same_signatures UNIV s s'" and call: "runner_le call call'"
    and f: "func_ids_ok f" "dedup_sim f f'"
  shows "b < f_next_block f \<Longrightarrow>
    fuel_le (run_blocks n S s' call ty_of consts f' b st) (run_blocks n S s call' ty_of consts f b st)"
proof (induction n arbitrary: b st)
  case (Suc n)
  let ?go = "run_blocks n S s call' ty_of consts f"
  let ?go' = "run_blocks n S s' call ty_of consts f'"
  have r: "f_returns f = f_returns f'" using f(2) by (simp add: dedup_sim_def)
  from dedup_block [OF f(2) Suc.prems] show ?case
  proof (elim disjE conjE exE)
    fix block block'
    assume b: "get_block b f = Some block" "get_block b f' = Some block'" "detour f f' block block'"
      "b_instructions block' = b_instructions block"
    note t = dedup_targets [OF f b(1)]
    have go: "fuel_le (?go' t st) (?go t st)" if "t \<in> set (term_targets (b_terminator block))" for t st
      by (rule Suc.IH [OF t(1) [OF that]])
    have "fuel_le (exec_end S consts f' (b_terminator block') ?go' st) (exec_end S consts f (b_terminator block) ?go st)" for st
      using b(3) unfolding detour_def
    proof (elim disjE exE conjE)
      assume "block' = block"
      then show ?thesis by (simp only:) (rule exec_end_le [OF r], erule t(2) [symmetric], erule go)
    next
      fix t' ins nb
      assume d: "b_terminator block = Some (Jmp t' ins)" "block' = block\<lparr>b_terminator := Some (Jmp nb [])\<rparr>"
        "get_block nb f' = Some \<lparr>b_parameters = [], b_instructions = [], b_terminator = Some (Jmp t' ins)\<rparr>"
      have e: "exec_end S consts f' (b_terminator block') ?go' st = ?go' nb st"
        unfolding d(2) using detour_step(1) [OF S d(3)] by simp
      show ?thesis
      proof (cases n)
        case (Suc m)
        have hop: "fuel_le (run_blocks m S s' call ty_of consts f' t st) (?go t st)"
          if "t \<in> set (term_targets (b_terminator block))" for t st
          by (rule fuel_le_trans [OF run_blocks_le go [OF that]]) (use Suc in \<open>simp_all add: runner_le_def\<close>)
        have "fuel_le (exec_end S consts f' (b_terminator block) (run_blocks m S s' call ty_of consts f') st)
            (exec_end S consts f (b_terminator block) ?go st)"
          by (rule exec_end_le [OF r], erule t(2) [symmetric], erule hop)
        then show ?thesis unfolding e unfolding Suc detour_step(2) [OF S d(3)] d(1) .
      next
        case 0
        then have "?go' nb st = OutOfFuel" by simp
        then show ?thesis unfolding e by (simp add: fuel_le_def)
      qed
    qed
    then show ?thesis
      unfolding run_blocks_end b(1,2,4) of_option.simps and_then.simps
      by (intro fuel_le_and_then exec_instrs_dedup_le [OF s call])
  qed simp
qed (simp add: fuel_le_def)

lemma run_fn_dedup:
  assumes S: "passes_arguments S" and s: "dedup_ssa_sim s s'"
  shows "runner_le (run_fn n S s ti consts) (run_fn (2 * n) S s' ti consts)"
    "runner_le (run_fn n S s' ti consts) (run_fn n S s ti consts)"
proof (induction n)
  case (Suc n)
  note sig = dedup_signatures [OF s]
  have rel: "rel_option (\<lambda>f f'. func_ids_ok f \<and> dedup_sim f f') (get_function fid s) (get_function fid s')" for fid
    using s by (simp add: dedup_ssa_sim_def)
  define k where "k = Suc (2 * n)"
  have up: "runner_le (run_fn (2 * n) S s' ti consts) (run_fn k S s' ti consts)" by (rule run_fn_le) (simp add: k_def)
  have two: "2 * Suc n = Suc k" by (simp add: k_def)
  { fix fid inputs globals ctx
    have "fuel_le (run_fn (Suc n) S s ti consts fid inputs globals ctx) (run_fn (2 * Suc n) S s' ti consts fid inputs globals ctx) \<and>
      fuel_le (run_fn (Suc n) S s' ti consts fid inputs globals ctx) (run_fn (Suc n) S s ti consts fid inputs globals ctx)"
    proof (cases "get_function fid s")
      case None
      then show ?thesis using rel [of fid] by (simp add: two)
    next
      case (Some f)
      then obtain f' where f': "get_function fid s' = Some f'" "func_ids_ok f" "dedup_sim f f'"
        using rel [of fid] by (auto simp: option_rel_Some1)
      have e: "f_entry_block f' = f_entry_block f" "f_returns f' = f_returns f" "f_entry_block f < f_next_block f"
        using f' by (simp_all add: dedup_sim_def func_ids_ok_def)
      have p: "map_option b_parameters (get_entry f') = map_option b_parameters (get_entry f)"
        by (rule dedup_param_types [OF f'(2,3)])
      have b: "fuel_le (run_blocks n S s (run_fn n S s ti consts) ty_of consts f (f_entry_block f) st)
          (run_blocks k S s' (run_fn k S s' ti consts) ty_of consts f' (f_entry_block f) st)" for ty_of st
        by (rule fuel_le_trans [OF run_blocks_dedup [OF S sig Suc.IH(1) f'(2,3) e(3)] run_blocks_le [OF up]]) (simp add: k_def)
      have b': "fuel_le (run_blocks n S s' (run_fn n S s' ti consts) ty_of consts f' (f_entry_block f) st)
          (run_blocks n S s (run_fn n S s ti consts) ty_of consts f (f_entry_block f) st)" for ty_of st
        by (rule run_blocks_dedup_back [OF S sig Suc.IH(2) f'(2,3) e(3)])
      show ?thesis
      proof (cases "ti fid = None \<or> get_entry f = None")
        case False
        then obtain ty_of entry where 1: "ti fid = Some ty_of" "get_entry f = Some entry" by auto
        then obtain entry' where 2: "get_entry f' = Some entry'" "b_parameters entry' = b_parameters entry"
          using p by (cases "get_entry f'") auto
        have v: "get_parameter_values entry' = get_parameter_values entry" by (simp add: get_parameter_values_def 2)
        show ?thesis unfolding two
          by (cases "so_on_call S fid inputs (map snd (b_parameters entry)) (f_returns f) False ctx")
            (auto simp: Some f'(1) 1 2 v e b b' simp del: run_blocks.simps split: option.split)
      qed (use p in \<open>cases "get_entry f'"; auto simp: two Some f'(1)\<close>)
    qed }
  then show "runner_le (run_fn (Suc n) S s ti consts) (run_fn (2 * Suc n) S s' ti consts)"
    "runner_le (run_fn (Suc n) S s' ti consts) (run_fn (Suc n) S s ti consts)"
    unfolding runner_le_def by blast+
qed (simp_all add: runner_le_def fuel_le_def)

lemma run_dedup:
  assumes "passes_arguments S" "dedup_ssa_sim s s'"
  shows "fuel_le (run n S s ti entry params ctx) (run (2 * n) S s' ti entry params ctx)"
    "fuel_le (run n S s' ti entry params ctx) (run n S s ti entry params ctx)"
proof -
  have c: "s_constants s' = s_constants s" "num_globals s' = num_globals s" using assms(2) by (simp_all add: dedup_ssa_sim_def)
  show "fuel_le (run n S s ti entry params ctx) (run (2 * n) S s' ti entry params ctx)"
    unfolding run_def c
    by (auto intro!: fuel_le_and_then run_fn_dedup(1) [OF assms, unfolded runner_le_def, rule_format])
  show "fuel_le (run n S s' ti entry params ctx) (run n S s ti entry params ctx)"
    unfolding run_def c
    by (auto intro!: fuel_le_and_then run_fn_dedup(2) [OF assms, unfolded runner_le_def, rule_format])
qed

definition program_ids_ok :: "('op, 'ty, 'c) ssa \<Rightarrow> bool" where
  "program_ids_ok s \<longleftrightarrow> (\<forall>(fid, f) \<in> set (s_functions s). func_ids_ok f)"

lemma deduplicate_phis_sim:
  assumes ids: "program_ids_ok s" and ord: "\<And>us. mset (ord us) = mset us"
  shows "\<exists>s'. deduplicate_phis ord s = Some s' \<and> dedup_ssa_sim s s'"
proof -
  let ?step = "\<lambda>(fid, f). map_option (Pair fid) (deduplicate_function ord f)"
  have step: "\<exists>f'. ?step (fid, f) = Some (fid, f') \<and> func_ids_ok f \<and> dedup_sim f f'" if "(fid, f) \<in> set (s_functions s)" for fid f
  proof -
    have "func_ids_ok f" using ids that by (auto simp: program_ids_ok_def)
    then show ?thesis using deduplicate_function_sim [OF _ ord] by fastforce
  qed
  obtain fs where fs: "opt_map ?step (s_functions s) = Some fs"
    using step by (cases "opt_map ?step (s_functions s)") (force simp: opt_map_None_iff, blast)
  have "list_all2 (\<lambda>x y. x \<in> set (s_functions s) \<and> ?step x = Some y) (s_functions s) fs"
    using fs unfolding opt_map_Some_iff by (auto simp: list_all2_conv_all_nth)
  then have "list_all2 (\<lambda>(k, v) (k', v'). k = k' \<and> func_ids_ok v \<and> dedup_sim v v') (s_functions s) fs"
    by (rule list_all2_mono) (use step in fastforce)
  then have "rel_option (\<lambda>f f'. func_ids_ok f \<and> dedup_sim f f') (get_function fid s) (map_of fs fid)" for fid
    using map_of_list_all2 [of "\<lambda>f f'. func_ids_ok f \<and> dedup_sim f f'"] by (fastforce simp: get_function_def)
  then show ?thesis
    using fs by (auto simp: deduplicate_phis_def dedup_ssa_sim_def get_function_def num_globals_def)
qed

text \<open>C14. Deduplicating jumps succeeds and preserves runs, in whatever order the hash maps iterate, for every client
  that passes the arguments of a jump on: a run that ends within some fuel ends in the same way after the pass
  within twice the fuel, and a run of the new program that ends is a run of the old one.\<close>

theorem deduplicate_phis_runs:
  assumes "passes_arguments S" "program_ids_ok s" "\<And>us. mset (ord us) = mset us"
  shows "\<exists>s'. deduplicate_phis ord s = Some s' \<and>
    (\<forall>n ti entry params ctx.
      fuel_le (run n S s ti entry params ctx) (run (2 * n) S s' ti entry params ctx) \<and>
      fuel_le (run n S s' ti entry params ctx) (run n S s ti entry params ctx))"
proof -
  obtain s' where s': "deduplicate_phis ord s = Some s'" "dedup_ssa_sim s s'"
    using deduplicate_phis_sim [OF assms(2,3)] by blast
  then show ?thesis by (intro exI [of _ s'] conjI allI run_dedup [OF assms(1) s'(2)])
qed

text \<open>A branch whose sides jump with the same argument, run by the constraint generator.\<close>

definition twin_jumps :: hl_function where
  "twin_jumps = \<lparr>f_entry_block = 0, f_blocks =
     [(0, \<lparr>b_parameters = [(0, TU 1)], b_instructions = [], b_terminator = Some (JmpIf 0 1 2)\<rparr>),
      (1, \<lparr>b_parameters = [], b_instructions = [], b_terminator = Some (Jmp 3 [0])\<rparr>),
      (2, \<lparr>b_parameters = [], b_instructions = [], b_terminator = Some (Jmp 3 [0])\<rparr>),
      (3, \<lparr>b_parameters = [(1, TU 1)], b_instructions = [], b_terminator = Some (Return [1])\<rparr>)],
     f_name = ''main'', f_returns = [TU 1], f_next_block = 4\<rparr>"

definition twin_program :: "rat hlssa" where
  "twin_program = \<lparr>s_functions = [(0, twin_jumps)], s_global_types = [], s_globals_init_fn = None,
     s_globals_deinit_fn = None, s_main_id = 0, s_next_function_id = 1, s_next_value_id = 2, s_constants = []\<rparr>"

lemma deduplicate_phis_runs_witness:
  "\<exists>s'. deduplicate_phis rev twin_program = Some s' \<and>
    length (f_blocks (snd (hd (s_functions s')))) = 5 \<and>
    (\<forall>n ti params ctx. fuel_le (run n (r1cs_ops rat_ops) twin_program ti 0 params ctx)
       (run (2 * n) (r1cs_ops rat_ops) s' ti 0 params ctx))"
proof -
  have "passes_arguments (r1cs_ops rat_ops)" by (simp add: passes_arguments_def r1cs_ops_def)
  moreover have "program_ids_ok twin_program"
    by (simp add: program_ids_ok_def func_ids_ok_def twin_program_def twin_jumps_def)
  ultimately obtain s' where s': "deduplicate_phis rev twin_program = Some s'"
    "\<And>n ti params ctx. fuel_le (run n (r1cs_ops rat_ops) twin_program ti 0 params ctx)
       (run (2 * n) (r1cs_ops rat_ops) s' ti 0 params ctx)"
    using deduplicate_phis_runs [of "r1cs_ops rat_ops" twin_program rev] by auto
  have "length (f_blocks (snd (hd (s_functions s')))) = 5"
    using s'(1) by (auto simp: deduplicate_phis_def twin_program_def twin_jumps_def deduplicate_function_def
      collect_unifications_def unify_jumps_def add_block_def terminate_block_with_jmp_def terminate_block_with_def
      put_block_def)
  then show ?thesis using s' by blast
qed

end
