(* ===== verification/Jump_Passes.thy ===== *)
theory Jump_Passes
  imports Value_Replacement Deduplicate_Phis
begin

text \<open>
  Passes over the control flow graph that rename values: merging a block into the only one that jumps to it
  (\<^verbatim>\<open>FixDoubleJumps\<close> in \<^verbatim>\<open>compiler/src/compiler/passes/fix_double_jumps.rs\<close>) and propagating the
  condition of a branch into the blocks that its targets dominate
  (\<^verbatim>\<open>compiler/src/compiler/passes/condition_propagation.rs\<close>). The second is right where every branch goes to
  blocks of its own; the theory ends with a program on which it is not.
\<close>

subsection \<open>Merging blocks\<close>

text \<open>The state of the loop: the function, where blocks were merged to, and the parameters' arguments. The two
  \<^verbatim>\<open>while let\<close> loops follow merges; their fuel is one more than the number of merges.\<close>

type_synonym merges = "(block_id \<times> block_id) list"

definition chase :: "merges \<Rightarrow> block_id \<Rightarrow> block_id option" where
  "chase m b = follow (length m + 1) (map_of m) b"

definition merge_jump ::
  "block_id \<times> block_id \<Rightarrow> hl_function \<times> merges \<times> replacements \<Rightarrow> (hl_function \<times> merges \<times> replacements) option" where
  "merge_jump jump st = (case (jump, st) of ((source, target), (f, m, r)) \<Rightarrow> do {
     source \<leftarrow> chase m source;
     target \<leftarrow> chase m target;
     (target_block, f) \<leftarrow> take_block target f;
     source_block \<leftarrow> get_block source f;
     jump_args \<leftarrow> (case b_terminator source_block of Some (Jmp _ params) \<Rightarrow> Some params | _ \<Rightarrow> None);
     let r = fold (\<lambda>((param, _), arg) r. vr_insert param arg r) (zip (b_parameters target_block) jump_args) r;
     tm \<leftarrow> b_terminator target_block;
     let source_block = source_block\<lparr>b_instructions := b_instructions source_block @ b_instructions target_block,
       b_terminator := Some tm\<rparr>;
     Some (put_block source source_block f, AList.update target source m, r) })"

definition fix_double_jumps_function :: "cfg \<Rightarrow> hl_function \<Rightarrow> hl_function option" where
  "fix_double_jumps_function c f = do {
     jumps \<leftarrow> find_redundant_jumps c;
     (f, m, r) \<leftarrow> opt_fold merge_jump jumps (f, [], vr_new);
     apply_to_function r ScopeOperands f }"

definition fix_double_jumps :: "flow_analysis \<Rightarrow> 'f hlssa \<Rightarrow> 'f hlssa option" where
  "fix_double_jumps fa s = on_functions (\<lambda>fid f. do {
     c \<leftarrow> get_function_cfg fa fid;
     fix_double_jumps_function c f }) s"

text \<open>Merged blocks are gone from the function, and merges have no cycle.\<close>

definition merges_ok :: "hl_function \<times> merges \<times> replacements \<Rightarrow> bool" where
  "merges_ok st \<longleftrightarrow> (case st of (f, m, r) \<Rightarrow> acyclic (links (map_of m)) \<and> (\<forall>b. map_of m b \<noteq> None \<longrightarrow> get_block b f = None))"

lemma chase_iff: "chase m b = Some w \<longleftrightarrow> (b, w) \<in> (links (map_of m))\<^sup>* \<and> map_of m w = None"
  unfolding chase_def by (rule follow_alist) (auto dest: map_of_SomeD intro: rev_image_eqI)

lemma chase_total: "acyclic (links (map_of m)) \<Longrightarrow> \<exists>w. chase m b = Some w"
  using links_end [of "map_of m" b] finite_dom_map_of [of m] unfolding chase_iff by (simp add: dom_def)

lemma links_update:
  assumes "map_of m t = None"
  shows "links (map_of (AList.update t s m)) = insert (t, s) (links (map_of m))"
  using assms by (auto simp: links_def split: if_splits)

lemma merge_jump_ok:
  assumes "merge_jump jump st = Some st'" "merges_ok st"
  shows "merges_ok st'"
proof -
  obtain source target f m r where e: "jump = (source, target)" "st = (f, m, r)" by (metis surj_pair)
  obtain s t target_block g source_block sb r' where
    1: "chase m source = Some s" "chase m target = Some t" "take_block t f = Some (target_block, g)"
      "get_block s g = Some source_block" and
    2: "st' = (put_block s sb g, AList.update t s m, r')"
    using assms(1) unfolding e merge_jump_def by (auto simp: bind_Some_iff Let_def)
  have g: "get_block b g = (if b = t then None else get_block b f)" for b
    using 1(3) by (auto simp: take_block_def get_block_def bind_Some_iff)
  have m: "map_of m s = None" "map_of m t = None" using 1(1,2) by (simp_all add: chase_iff)
  have ne: "s \<noteq> t" using 1(4) g by auto
  have ok: "acyclic (links (map_of m))" "\<And>b. map_of m b \<noteq> None \<Longrightarrow> get_block b f = None"
    using assms(2) unfolding e merges_ok_def by auto
  have "(s, t) \<notin> (links (map_of m))\<^sup>*" using m(1) ne by (auto elim: converse_rtranclE simp: links_def)
  then have "acyclic (links (map_of (AList.update t s m)))" unfolding links_update [OF m(2)] using ok(1) by simp
  moreover have "get_block b (put_block s sb g) = None" if "map_of (AList.update t s m) b \<noteq> None" for b sb
    using that ok(2) [of b] m(1) ne by (auto simp: get_block_put g split: if_splits)
  ultimately show ?thesis using 2 by (auto simp: merges_ok_def)
qed

text \<open>C25. Following merges always ends: along the whole loop of \<^verbatim>\<open>FixDoubleJumps\<close> the merges form no
  cycle and lead only from blocks that are gone to others, so that for every jump both loops return within their
  fuel, and what they return has not been merged into another block.\<close>

theorem fix_double_jumps_loops_end:
  assumes "opt_fold merge_jump jumps (f, [], vr_new) = Some (g, m, r)"
  shows "(\<exists>w. chase m b = Some w \<and> map_of m w = None) \<and> (map_of m b = None \<or> get_block b g = None)"
proof -
  have "merges_ok (f, [], vr_new)" by (simp add: merges_ok_def links_def acyclic_def)
  then have "merges_ok (g, m, r)" using opt_fold_inv [OF assms, of merges_ok] merge_jump_ok by blast
  then show ?thesis using chase_total [of m b] by (auto simp: merges_ok_def chase_iff)
qed

text \<open>Three blocks in a row, the second with a parameter: both jumps are merged.\<close>

definition chain_function :: hl_function where
  "chain_function = \<lparr>f_entry_block = 0, f_blocks =
     [(0, \<lparr>b_parameters = [(0, TField)], b_instructions = [], b_terminator = Some (Jmp 1 [0])\<rparr>),
      (1, \<lparr>b_parameters = [(1, TField)], b_instructions = [], b_terminator = Some (Jmp 2 [])\<rparr>),
      (2, \<lparr>b_parameters = [], b_instructions = [], b_terminator = Some (Return [1])\<rparr>)],
     f_name = ''main'', f_returns = [TField], f_next_block = 3\<rparr>"

lemma chain_merges: "\<exists>g r. opt_fold merge_jump [(0, 1), (1, 2)] (chain_function, [], vr_new) = Some (g, [(1, 0), (2, 0)], r)"
  by (simp add: merge_jump_def chase_def chain_function_def take_block_def get_block_def put_block_def eval_nat_numeral)

lemma fix_double_jumps_loops_end_witness: "\<exists>w. chase [(1, 0), (2, 0)] 2 = Some w \<and> map_of [(1, 0 :: block_id), (2, 0)] w = None"
  using fix_double_jumps_loops_end [THEN conjunct1] chain_merges by blast

subsection \<open>Propagating conditions\<close>

definition branch_conditions :: "hl_function \<Rightarrow> (block_id \<times> value_id \<times> bool) list" where
  "branch_conditions f = concat (map (\<lambda>(_, block). case b_terminator block of
      Some (JmpIf cond then_b else_b) \<Rightarrow> [(then_b, cond, True), (else_b, cond, False)]
    | _ \<Rightarrow> []) (f_blocks f))"

definition condition_replacements ::
  "(value_id \<times> bool) list \<Rightarrow> 'f hlssa \<Rightarrow> replacements \<times> 'f hlssa" where
  "condition_replacements known s = fold (\<lambda>(vid, value) (r, s).
     let (const_id, s) = add_const (ConstU 1 (if value then 1 else 0)) s in (vr_insert vid const_id r, s)) known (vr_new, s)"

definition propagate_block ::
  "cfg \<Rightarrow> (block_id \<times> value_id \<times> bool) list \<Rightarrow> block_id \<Rightarrow> hl_function \<times> 'f hlssa \<Rightarrow> (hl_function \<times> 'f hlssa) option" where
  "propagate_block c replaces b st = (case st of (f, s) \<Rightarrow> do {
     dominated \<leftarrow> opt_map (\<lambda>(cond_block, known). map_option (\<lambda>d. (d, known)) (dominates c cond_block b)) replaces;
     let (r, s) = condition_replacements (map snd (filter fst dominated)) s;
     block \<leftarrow> get_block b f;
     block \<leftarrow> replace_in_block (replace_inputs r) r block;
     Some (put_block b block f, s) })"

definition condition_propagation_function :: "cfg \<Rightarrow> hl_function \<times> 'f hlssa \<Rightarrow> (hl_function \<times> 'f hlssa) option" where
  "condition_propagation_function c st =
     opt_fold (propagate_block c (branch_conditions (fst st))) (get_domination_pre_order c) st"

definition condition_propagation :: "flow_analysis \<Rightarrow> 'f hlssa \<Rightarrow> 'f hlssa option" where
  "condition_propagation fa s = opt_fold (\<lambda>fid s. do {
     c \<leftarrow> get_function_cfg fa fid;
     (f, s) \<leftarrow> take_function fid s;
     (f, s) \<leftarrow> condition_propagation_function c (f, s);
     Some (put_function fid f s) }) (map fst (s_functions s)) s"

text \<open>The blocks of a function as a graph, to speak of dominance.\<close>

definition block_graph :: "('op, 'ty) func \<Rightarrow> unit digraph" where
  "block_graph f = \<lparr>dg_nodes = f_next_block f,
     dg_edges = concat (map (\<lambda>(b, block). map (\<lambda>t. (b, t, ())) (term_targets (b_terminator block))) (f_blocks f))\<rparr>"

lemma block_graph_edge:
  "distinct (map fst (f_blocks f)) \<Longrightarrow> edge (block_graph f) b t \<longleftrightarrow>
     (\<exists>block. map_of (f_blocks f) b = Some block \<and> t \<in> set (term_targets (b_terminator block)))"
  by (force simp: edge_def block_graph_def)

lemma block_path_graph:
  assumes "distinct (map fst (f_blocks f))"
  shows "block_path f p \<longleftrightarrow> path (block_graph f) (f_entry_block f) p"
proof
  show "block_path f p \<Longrightarrow> path (block_graph f) (f_entry_block f) p"
    by (induction rule: block_path.induct) (auto intro: path_root path_step simp: block_graph_edge [OF assms])
  show "path (block_graph f) (f_entry_block f) p \<Longrightarrow> block_path f p"
    by (induction rule: path.induct) (auto intro: path_entry path_jump simp: block_graph_edge [OF assms])
qed

lemma block_dominates_graph:
  "distinct (map fst (f_blocks f)) \<Longrightarrow> block_dominates f a b \<longleftrightarrow> dominator (block_graph f) (f_entry_block f) a b"
  by (simp add: block_dominates_def dominator_def block_reach_def reach_def block_path_graph)

lemma dominated_by_branch:
  assumes T: "dominator g r T b" "T \<noteq> r" and J: "\<And>u. edge g u T \<Longrightarrow> u = J" and d: "dominator g r d J"
    and p: "path g r (b # p)"
  shows "\<exists>xs ys. b # p = xs @ T # J # ys \<and> T \<notin> set xs \<and> d \<notin> set xs \<and> d \<noteq> T"
proof -
  have via: "\<exists>ys. q = J # ys" if "path g r (T # q)" for q
    using that T(2) J by (cases rule: path.cases) auto
  have "T \<in> set (b # p)" using T(1) p by (simp add: dominator_def)
  then obtain xs q where s: "b # p = xs @ T # q" "T \<notin> set xs" using split_list_first by metis
  then have Tq: "path g r (T # q)" using p path_suffix by metis
  then obtain ys where q: "q = J # ys" using via by blast
  have "J \<in> set (T # q)" if "path g r (T # q)" for q using via [OF that] by auto
  then have JT: "dominator g r J T" unfolding dominator_def reach_def using Tq by blast
  have dT: "d \<noteq> T"
  proof
    assume "d = T"
    then have e: "J = T" using dominator_antisym d JT by metis
    have "\<not> path g r (T # q)" for q
    proof (induction q rule: length_induct)
      case (1 q)
      show ?case
      proof
        assume "path g r (T # q)"
        then obtain ys where "q = T # ys" using via e by blast
        then show False using 1 path_suffix [of g r "[T]" T ys] \<open>path g r (T # q)\<close> by auto
      qed
    qed
    then show False using Tq by blast
  qed
  have "d \<notin> set xs"
  proof
    assume "d \<in> set xs"
    then obtain xs1 xs2 where x: "xs = xs1 @ d # xs2" using split_list by metis
    have "\<not> dominator g r T d" using dominator_antisym [of g r T d] dominator_trans [OF d JT] dT by blast
    moreover have "reach g r d" using dominator_reach [OF d] by blast
    ultimately obtain qd where qd: "path g r (d # qd)" "T \<notin> set (d # qd)" unfolding dominator_def by blast
    have full: "path g r (xs1 @ d # qd)"
      using path_splice [of g r xs1 d "xs2 @ T # q" qd] p s(1) x qd(1) by simp
    obtain q' where "xs1 @ d # qd = b # q'" using s(1) x by (cases xs1) auto
    then have "T \<in> set (xs1 @ d # qd)" using T(1) full unfolding dominator_def by metis
    then show False using s(2) x qd(2) by auto
  qed
  then show ?thesis using s q dT by auto
qed

text \<open>What justifies the replacement: let the target \<open>T\<close> of a branch in \<open>J\<close> dominate \<open>b\<close>, let \<open>T\<close>
  be no entry and have \<open>J\<close> as its only predecessor, and let \<open>d\<close>, where the condition is defined, dominate
  \<open>J\<close>. Then every execution that arrives at \<open>b\<close> took the branch from \<open>J\<close> to \<open>T\<close>, and since the last
  time it did, \<open>d\<close> has not run again: the condition still has the value it was tested for.\<close>

lemma condition_still_holds:
  assumes "distinct (map fst (f_blocks f))" "block_dominates f T b" "T \<noteq> f_entry_block f"
    "\<And>u block. map_of (f_blocks f) u = Some block \<Longrightarrow> T \<in> set (term_targets (b_terminator block)) \<Longrightarrow> u = J"
    "block_dominates f d J" "block_path f (b # p)"
  shows "\<exists>xs ys. b # p = xs @ T # J # ys \<and> T \<notin> set xs \<and> d \<notin> set (xs @ [T])"
proof -
  have "\<exists>xs ys. b # p = xs @ T # J # ys \<and> T \<notin> set xs \<and> d \<notin> set xs \<and> d \<noteq> T"
  proof (rule dominated_by_branch)
    show "dominator (block_graph f) (f_entry_block f) T b" "dominator (block_graph f) (f_entry_block f) d J"
      "path (block_graph f) (f_entry_block f) (b # p)"
      using assms by (simp_all add: block_dominates_graph block_path_graph)
    show "u = J" if "edge (block_graph f) u T" for u
      using that assms(4) by (auto simp: block_graph_edge [OF assms(1)])
  qed (rule assms(3))
  then show ?thesis by auto
qed

subsection \<open>What the pass replaces\<close>

text \<open>A control flow graph describes a function when its dominator pre-order lists the reachable blocks, each once, and
  it decides dominance. \<open>cfg_of_function\<close> builds such a graph.\<close>

definition cfg_describes :: "cfg \<Rightarrow> ('op, 'ty) func \<Rightarrow> bool" where
  "cfg_describes c f \<longleftrightarrow> distinct (get_domination_pre_order c) \<and> set (get_domination_pre_order c) = {b. block_reach f b} \<and>
     (\<forall>a \<in> fst ` set (f_blocks f). \<forall>b \<in> fst ` set (f_blocks f). dominates c a b = Some (block_dominates f a b))"

lemma cfg_of_function_describes:
  assumes "dominators_ok A" "map_of (f_blocks f) (f_entry_block f) \<noteq> None" "distinct (map fst (f_blocks f))"
  shows "\<exists>c. cfg_of_function A f = Some c \<and> cfg_describes c f"
  using cfg_of_function_blocks [OF assms] by (auto simp: cfg_describes_def)

text \<open>Every target of a branch is a block of its own: not the entry, not the other target, and no other block jumps to it.\<close>

definition split_branches :: "('op, 'ty) func \<Rightarrow> bool" where
  "split_branches f \<longleftrightarrow> (\<forall>(J, block) \<in> set (f_blocks f). \<forall>v t e. b_terminator block = Some (JmpIf v t e) \<longrightarrow> t \<noteq> e \<and>
     (\<forall>T \<in> {t, e}. T \<noteq> f_entry_block f \<and> T \<in> fst ` set (f_blocks f) \<and>
       (\<forall>(u, block') \<in> set (f_blocks f). T \<in> set (term_targets (b_terminator block')) \<longrightarrow> u = J)))"

text \<open>The value \<open>v\<close> is known in the block \<open>b\<close>: every path to \<open>b\<close> took the branch on \<open>v\<close> in \<open>J\<close> to the target of
  that value, and since then went through no block that dominates \<open>J\<close>, so that neither \<open>v\<close> was computed again nor the
  branch taken the other way.\<close>

definition known_at :: "('op, 'ty) func \<Rightarrow> block_id \<Rightarrow> value_id \<Rightarrow> bool \<Rightarrow> bool" where
  "known_at f b v value \<longleftrightarrow> (\<exists>J block t e. map_of (f_blocks f) J = Some block \<and> b_terminator block = Some (JmpIf v t e) \<and> t \<noteq> e \<and>
     (\<forall>p. block_path f (b # p) \<longrightarrow> (\<exists>xs ys. b # p = xs @ (if value then t else e) # J # ys \<and>
        (\<forall>d. block_dominates f d J \<longrightarrow> d \<notin> set (xs @ [if value then t else e])))))"

lemma branch_conditions_iff: "(T, v, value) \<in> set (branch_conditions f) \<longleftrightarrow>
  (\<exists>(J, block) \<in> set (f_blocks f). \<exists>t e. b_terminator block = Some (JmpIf v t e) \<and> T = (if value then t else e))"
proof -
  have "(T, v, value) \<in> set (case b_terminator block of Some (JmpIf cond then_b else_b) \<Rightarrow> [(then_b, cond, True), (else_b, cond, False)]
      | _ \<Rightarrow> []) \<longleftrightarrow> (\<exists>t e. b_terminator block = Some (JmpIf v t e) \<and> T = (if value then t else e))" for block :: hl_block
    by (cases "b_terminator block"; cases "the (b_terminator block)") auto
  then show ?thesis by (auto simp: branch_conditions_def split_def)
qed

lemma branch_target_known:
  assumes f: "distinct (map fst (f_blocks f))" "split_branches f"
    and T: "(T, v, value) \<in> set (branch_conditions f)" "block_dominates f T b"
  shows "known_at f b v value"
proof -
  obtain J block t e where J: "(J, block) \<in> set (f_blocks f)" "b_terminator block = Some (JmpIf v t e)"
    "T = (if value then t else e)" using T(1) by (auto simp: branch_conditions_iff)
  have T': "T \<in> {t, e}" using J(3) by simp
  have split: "t \<noteq> e \<and> (\<forall>T \<in> {t, e}. T \<noteq> f_entry_block f \<and> T \<in> fst ` set (f_blocks f) \<and>
       (\<forall>(u, block') \<in> set (f_blocks f). T \<in> set (term_targets (b_terminator block')) \<longrightarrow> u = J))"
    using f(2) J(1,2) unfolding split_branches_def by blast
  then have s: "t \<noteq> e" "T \<noteq> f_entry_block f" "\<And>u block'. (u, block') \<in> set (f_blocks f) \<Longrightarrow>
      T \<in> set (term_targets (b_terminator block')) \<Longrightarrow> u = J"
    using T' by blast+
  have "\<exists>xs ys. b # p = xs @ T # J # ys \<and> (\<forall>d. block_dominates f d J \<longrightarrow> d \<notin> set (xs @ [T]))"
    if p: "block_path f (b # p)" for p
  proof -
    let ?xs = "takeWhile (\<lambda>x. x \<noteq> T) (b # p)"
    have split: "\<exists>ys. b # p = ?xs @ T # J # ys \<and> d \<notin> set (?xs @ [T])" if d: "block_dominates f d J" for d
    proof -
      obtain xs ys where xs: "b # p = xs @ T # J # ys" "T \<notin> set xs" "d \<notin> set (xs @ [T])"
        using condition_still_holds [OF f(1) T(2) s(2) _ d p] s(3) map_of_SomeD by metis
      then have "?xs = xs" unfolding xs(1) by (subst takeWhile_append2) auto
      then show ?thesis using xs by auto
    qed
    have "block_dominates f J J"
    proof -
      obtain xs q where q: "b # p = xs @ T # q" using T(2) p unfolding block_dominates_def by (metis split_list)
      then have "path (block_graph f) (f_entry_block f) (xs @ T # q)" using p block_path_graph [OF f(1)] by simp
      then have "block_path f (T # q)" using path_suffix block_path_graph [OF f(1)] by metis
      then obtain u q' block' where "block_path f (u # q')" "map_of (f_blocks f) u = Some block'"
        "T \<in> set (term_targets (b_terminator block'))" using s(2) by (cases rule: block_path.cases) auto
      then have "block_reach f J" using s(3) [OF map_of_SomeD] by (auto simp: block_reach_def)
      then show ?thesis by (auto simp: block_dominates_def)
    qed
    then show ?thesis using split by metis
  qed
  moreover have "map_of (f_blocks f) J = Some block" using f(1) J(1) by simp
  ultimately show ?thesis unfolding known_at_def J(3) using J(2) s(1) by blast
qed

text \<open>The replacements of a block: for every condition known by some branch that dominates the block, an interned constant.\<close>

lemma condition_replacements_props:
  fixes s :: "'f hlssa"
  assumes "const_inv s" "condition_replacements known s = (r, s')"
  shows "const_inv s'" "\<And>u d. get_const u s = Some d \<Longrightarrow> get_const u s' = Some d" "fst ` set r = fst ` set known"
    "\<And>v k. (v, k) \<in> set r \<Longrightarrow> \<exists>bit. (v, bit) \<in> set known \<and> get_const k s' = Some (ConstU 1 (if bit then 1 else 0))"
proof -
  define step where "step = (\<lambda>(vid :: value_id, bit) (r, s :: 'f hlssa).
    let (const_id, s) = add_const (ConstU 1 (if bit then 1 else 0)) s in (vr_insert vid const_id r, s))"
  define bit_of where "bit_of bit = (ConstU 1 (if bit then 1 else 0) :: 'f hl_constant)" for bit
  have step: "step (v, bit) (r, s) = (vr_insert v k r, s1)" if "add_const (bit_of bit) s = (k, s1)" for v bit r s k s1
    using that by (simp add: step_def bit_of_def)
  have "const_inv s' \<and> (\<forall>u d. get_const u s = Some d \<longrightarrow> get_const u s' = Some d) \<and> fst ` set r = fst ` set r0 \<union> fst ` set known \<and>
      (\<forall>v k. (v, k) \<in> set r \<longrightarrow> (v, k) \<in> set r0 \<or> (\<exists>bit. (v, bit) \<in> set known \<and> get_const k s' = Some (bit_of bit)))"
    if "fold step known (r0, s) = (r, s')" "const_inv s" for r0
    using that
  proof (induction known arbitrary: r0 s)
    case (Cons p known)
    obtain v bit where p: "p = (v, bit)" by fastforce
    obtain k s1 where a: "add_const (bit_of bit) s = (k, s1)" by fastforce
    note c = add_const_props [OF Cons.prems(2) a]
    have "fold step known (vr_insert v k r0, s1) = (r, s')" using Cons.prems(1) by (simp add: p step [OF a])
    note IH = Cons.IH [OF this c(1)]
    note kept = IH [THEN conjunct2, THEN conjunct1, rule_format] and keys = IH [THEN conjunct2, THEN conjunct2, THEN conjunct1]
      and new = IH [THEN conjunct2, THEN conjunct2, THEN conjunct2, rule_format]
    have ins: "set (vr_insert v k r0) \<subseteq> insert (v, k) (set r0)" for r0 :: replacements
      by (induction r0) (auto simp: vr_insert_def)
    have dom: "fst ` set (vr_insert v k r0) = insert v (fst ` set r0)" for r0 :: replacements
      by (induction r0) (auto simp: vr_insert_def)
    have k: "get_const k s' = Some (bit_of bit)" by (rule kept [OF c(2)])
    have "(v', k') \<in> set r0 \<or> (\<exists>bit. (v', bit) \<in> set (p # known) \<and> get_const k' s' = Some (bit_of bit))"
      if "(v', k') \<in> set r" for v' k'
      using new [OF that] ins [of r0] k by (auto simp: p)
    moreover have "get_const u s' = Some d" if "get_const u s = Some d" for u d by (rule kept [OF c(4) [OF that]])
    moreover have "fst ` set r = fst ` set r0 \<union> fst ` set (p # known)" using keys dom by (simp add: p)
    ultimately show ?case using IH [THEN conjunct1] by blast
  qed auto
  note all = this
  have "fold step known ([], s) = (r, s')"
    using assms(2) by (simp add: condition_replacements_def vr_new_def step_def)
  note P = all [OF this assms(1)]
  show "const_inv s'" using P by simp
  show "get_const u s' = Some d" if "get_const u s = Some d" for u d using P that by simp
  show "fst ` set r = fst ` set known" using P by simp
  show "\<exists>bit. (v, bit) \<in> set known \<and> get_const k s' = Some (ConstU 1 (if bit then 1 else 0))" if "(v, k) \<in> set r" for v k
    using P that by (simp add: bit_of_def)
qed

text \<open>What the pass makes of a block: it replaces the inputs of its instructions and of its terminator by a table that holds
  exactly the conditions of the branches whose target dominates the block, each with an interned constant of one bit
  that such a branch gives it.\<close>

definition block_propagated :: "cfg \<Rightarrow> (block_id \<times> value_id \<times> bool) list \<Rightarrow> 'f hlssa \<Rightarrow> block_id \<Rightarrow> replacements \<Rightarrow> bool" where
  "block_propagated c replaces s b r \<longleftrightarrow>
     fst ` set r = {v. \<exists>T bit. (T, v, bit) \<in> set replaces \<and> dominates c T b = Some True} \<and>
     (\<forall>(v, k) \<in> set r. \<exists>T bit. (T, v, bit) \<in> set replaces \<and> dominates c T b = Some True \<and>
        get_const k s = Some (ConstU 1 (if bit then 1 else 0)))"

lemma block_propagated_mono:
  "block_propagated c replaces s b r \<Longrightarrow> (\<And>u d. get_const u s = Some d \<Longrightarrow> get_const u s' = Some d) \<Longrightarrow>
    block_propagated c replaces s' b r"
  unfolding block_propagated_def by blast

lemma propagate_block_props:
  assumes "propagate_block c replaces b (f, s) = Some (f', s')" "const_inv s"
  shows "\<exists>r block block'. get_block b f = Some block \<and> replace_in_block (replace_inputs r) r block = Some block' \<and>
      f' = put_block b block' f \<and> block_propagated c replaces s' b r"
    and "const_inv s'" and "\<And>u d. get_const u s = Some d \<Longrightarrow> get_const u s' = Some d"
proof -
  obtain ds where d: "opt_map (\<lambda>(cond_block, known). map_option (\<lambda>d. (d, known)) (dominates c cond_block b)) replaces = Some ds"
    using assms(1) by (auto simp: propagate_block_def bind_Some_iff)
  obtain r s1 where cr: "condition_replacements (map snd (filter fst ds)) s = (r, s1)" by fastforce
  obtain block block' where r: "condition_replacements (map snd (filter fst ds)) s = (r, s')"
    and b: "get_block b f = Some block" "replace_in_block (replace_inputs r) r block = Some block'" "f' = put_block b block' f"
    using assms(1) by (auto simp: propagate_block_def bind_Some_iff Let_def d cr)
  note p = condition_replacements_props [OF assms(2) r]
  have "(True, v, x) \<in> set ds \<longleftrightarrow> (\<exists>T. (T, v, x) \<in> set replaces \<and> dominates c T b = Some True)" for v x
    using d
  proof (induction replaces arbitrary: ds)
    case (Cons p replaces)
    obtain T w y where p: "p = (T, w, y)" by (metis prod_cases3)
    obtain dm ds' where ds: "dominates c T b = Some dm" "ds = (dm, w, y) # ds'"
      "opt_map (\<lambda>(cond_block, known). map_option (\<lambda>d. (d, known)) (dominates c cond_block b)) replaces = Some ds'"
      using Cons.prems by (auto simp: p bind_Some_iff)
    show ?case using Cons.IH [OF ds(3)] ds(1) by (auto simp: p ds(2))
  qed simp
  then have known: "(v, x) \<in> set (map snd (filter fst ds)) \<longleftrightarrow> (\<exists>T. (T, v, x) \<in> set replaces \<and> dominates c T b = Some True)" for v x
    by force
  have "fst ` set r = {v. \<exists>T bit. (T, v, bit) \<in> set replaces \<and> dominates c T b = Some True}"
  proof -
    have "v \<in> fst ` set r \<longleftrightarrow> (\<exists>bit. (v, bit) \<in> set (map snd (filter fst ds)))" for v unfolding p(3) by force
    then show ?thesis unfolding known by blast
  qed
  moreover have "\<exists>T bit. (T, v, bit) \<in> set replaces \<and> dominates c T b = Some True \<and>
      get_const k s' = Some (ConstU 1 (if bit then 1 else 0))" if "(v, k) \<in> set r" for v k
    using p(4) [OF that] unfolding known by blast
  ultimately have "block_propagated c replaces s' b r" unfolding block_propagated_def by blast
  then show "\<exists>r block block'. get_block b f = Some block \<and> replace_in_block (replace_inputs r) r block = Some block' \<and>
      f' = put_block b block' f \<and> block_propagated c replaces s' b r" using b by blast
  show "const_inv s'" by (rule p(1))
  show "get_const u s' = Some d" if "get_const u s = Some d" for u d by (rule p(2) [OF that])
qed

lemma propagate_blocks_props:
  assumes "opt_fold (propagate_block c replaces) bs (f, s) = Some (f', s')" "const_inv s" "distinct bs"
  shows "const_inv s' \<and> (\<forall>u d. get_const u s = Some d \<longrightarrow> get_const u s' = Some d) \<and>
    (\<forall>b. b \<notin> set bs \<longrightarrow> get_block b f' = get_block b f) \<and>
    (\<forall>b \<in> set bs. \<exists>r block block'. get_block b f = Some block \<and> replace_in_block (replace_inputs r) r block = Some block' \<and>
      get_block b f' = Some block' \<and> block_propagated c replaces s' b r)"
  using assms
proof (induction bs arbitrary: f s)
  case (Cons b bs)
  obtain f1 s1 where 1: "propagate_block c replaces b (f, s) = Some (f1, s1)"
    "opt_fold (propagate_block c replaces) bs (f1, s1) = Some (f', s')"
    using Cons.prems(1) by (auto simp: bind_Some_iff)
  note p = propagate_block_props [OF 1(1) Cons.prems(2)]
  obtain r block block' where r: "get_block b f = Some block" "replace_in_block (replace_inputs r) r block = Some block'"
    "f1 = put_block b block' f" "block_propagated c replaces s1 b r" using p(1) by blast
  have IH: "const_inv s' \<and> (\<forall>u d. get_const u s1 = Some d \<longrightarrow> get_const u s' = Some d) \<and>
    (\<forall>b. b \<notin> set bs \<longrightarrow> get_block b f' = get_block b f1) \<and>
    (\<forall>b \<in> set bs. \<exists>r block block'. get_block b f1 = Some block \<and> replace_in_block (replace_inputs r) r block = Some block' \<and>
      get_block b f' = Some block' \<and> block_propagated c replaces s' b r)"
    using Cons.IH [OF 1(2) p(2)] Cons.prems(3) by simp
  have f1: "get_block d f1 = (if d = b then Some block' else get_block d f)" for d by (simp add: r(3) get_block_put)
  have kept: "get_const u s' = Some d" if "get_const u s1 = Some d" for u d using IH that by blast
  have "get_block b f' = Some block'" using IH Cons.prems(3) f1 [of b] by simp
  then have first: "\<exists>r block block'. get_block b f = Some block \<and> replace_in_block (replace_inputs r) r block = Some block' \<and>
      get_block b f' = Some block' \<and> block_propagated c replaces s' b r"
    using r block_propagated_mono [OF r(4) kept] by blast
  have rest: "\<exists>r block block'. get_block d f = Some block \<and> replace_in_block (replace_inputs r) r block = Some block' \<and>
      get_block d f' = Some block' \<and> block_propagated c replaces s' d r" if d: "d \<in> set bs" for d
  proof -
    have "get_block d f1 = get_block d f" using d Cons.prems(3) f1 [of d] by auto
    then show ?thesis using IH [THEN conjunct2, THEN conjunct2, THEN conjunct2, rule_format, OF d] by (simp only:)
  qed
  have "get_const u s' = Some d" if "get_const u s = Some d" for u d by (rule kept [OF p(3) [OF that]])
  moreover have "get_block d f' = get_block d f" if "d \<notin> set (b # bs)" for d using IH that f1 [of d] by simp
  ultimately show ?case using IH first rest by simp
qed simp

lemma branch_target_block: "split_branches f \<Longrightarrow> (T, v, value) \<in> set (branch_conditions f) \<Longrightarrow> T \<in> fst ` set (f_blocks f)"
proof -
  assume f: "split_branches f" "(T, v, value) \<in> set (branch_conditions f)"
  then obtain J block t e where "(J, block) \<in> set (f_blocks f)" "b_terminator block = Some (JmpIf v t e)" "T \<in> {t, e}"
    by (auto simp: branch_conditions_iff split: if_splits)
  then show ?thesis using f(1) unfolding split_branches_def by blast
qed

text \<open>C19. Condition propagation in a function whose branches go to blocks of their own: every reachable block gets its
  operands replaced by a table that sends the condition of every branch whose target dominates the block to a constant,
  and for every entry of the table the constant is \<open>1\<close> or \<open>0\<close> and the condition is known in the block to have that value:
  every path to it took the branch to that side, and since then neither the block that defines the condition nor any
  other that dominates the branch ran again. No other block changes and no constant is lost.\<close>

theorem propagated_conditions_hold:
  assumes "condition_propagation_function c (f, s) = Some (f', s')" "cfg_describes c f" "split_branches f"
    "distinct (map fst (f_blocks f))" "const_inv s"
  shows "(\<forall>b. if block_reach f b
      then \<exists>r block block'. get_block b f = Some block \<and> get_block b f' = Some block' \<and>
        replace_in_block (replace_inputs r) r block = Some block' \<and>
        fst ` set r = {v. \<exists>T bit. (T, v, bit) \<in> set (branch_conditions f) \<and> block_dominates f T b} \<and>
        (\<forall>(v, k) \<in> set r. \<exists>bit. get_const k s' = Some (ConstU 1 (if bit then 1 else 0)) \<and> known_at f b v bit)
      else get_block b f' = get_block b f) \<and>
    (\<forall>u d. get_const u s = Some d \<longrightarrow> get_const u s' = Some d)"
proof -
  let ?bs = "get_domination_pre_order c"
  have c: "distinct ?bs" "set ?bs = {b. block_reach f b}"
    "\<And>a b. a \<in> fst ` set (f_blocks f) \<Longrightarrow> b \<in> fst ` set (f_blocks f) \<Longrightarrow> dominates c a b = Some (block_dominates f a b)"
    using assms(2) unfolding cfg_describes_def by blast+
  have P: "const_inv s' \<and> (\<forall>u d. get_const u s = Some d \<longrightarrow> get_const u s' = Some d) \<and>
    (\<forall>b. b \<notin> set ?bs \<longrightarrow> get_block b f' = get_block b f) \<and>
    (\<forall>b \<in> set ?bs. \<exists>r block block'. get_block b f = Some block \<and> replace_in_block (replace_inputs r) r block = Some block' \<and>
      get_block b f' = Some block' \<and> block_propagated c (branch_conditions f) s' b r)"
    using propagate_blocks_props [OF _ assms(5) c(1)] assms(1) by (simp add: condition_propagation_function_def)
  have "\<exists>r block block'. get_block b f = Some block \<and> get_block b f' = Some block' \<and>
      replace_in_block (replace_inputs r) r block = Some block' \<and>
      fst ` set r = {v. \<exists>T bit. (T, v, bit) \<in> set (branch_conditions f) \<and> block_dominates f T b} \<and>
      (\<forall>(v, k) \<in> set r. \<exists>bit. get_const k s' = Some (ConstU 1 (if bit then 1 else 0)) \<and> known_at f b v bit)"
    if b: "block_reach f b" for b
  proof -
    obtain r block block' where r: "get_block b f = Some block" "replace_in_block (replace_inputs r) r block = Some block'"
      "get_block b f' = Some block'" "block_propagated c (branch_conditions f) s' b r"
      using P b c(2) by blast
    have "b \<in> fst ` set (f_blocks f)" using r(1) map_of_SomeD by (force simp: get_block_def)
    then have dom: "dominates c T b = Some True \<longleftrightarrow> block_dominates f T b" if "(T, v, bit) \<in> set (branch_conditions f)" for T v bit
      using c(3) branch_target_block [OF assms(3) that] by simp
    have "fst ` set r = {v. \<exists>T bit. (T, v, bit) \<in> set (branch_conditions f) \<and> block_dominates f T b}"
      using r(4) dom unfolding block_propagated_def by blast
    moreover have "\<exists>bit. get_const k s' = Some (ConstU 1 (if bit then 1 else 0)) \<and> known_at f b v bit" if "(v, k) \<in> set r" for v k
    proof -
      obtain T bit where T: "(T, v, bit) \<in> set (branch_conditions f)" "dominates c T b = Some True"
        "get_const k s' = Some (ConstU 1 (if bit then 1 else 0))"
        using r(4) \<open>(v, k) \<in> set r\<close> unfolding block_propagated_def by blast
      then show ?thesis using branch_target_known [OF assms(4,3) T(1)] dom by blast
    qed
    ultimately show ?thesis using r by blast
  qed
  then show ?thesis using P c(2) by simp
qed

text \<open>\<^verbatim>\<open>fn main(c: u1) { if c { assert(c) } else { return c } }\<close>\<close>

definition fork_function :: hl_function where
  "fork_function = \<lparr>f_entry_block = 0, f_blocks = [
      (0, \<lparr>b_parameters = [(1, TU 1)], b_instructions = [], b_terminator = Some (JmpIf 1 1 2)\<rparr>),
      (1, \<lparr>b_parameters = [], b_instructions = [OpAssert 1], b_terminator = Some (Return [1])\<rparr>),
      (2, \<lparr>b_parameters = [], b_instructions = [], b_terminator = Some (Return [1])\<rparr>)],
    f_name = ''main'', f_returns = [TU 1], f_next_block = 3\<rparr>"

definition fork_program :: "rat hlssa" where
  "fork_program = (hlssa_new :: rat hlssa)\<lparr>s_functions := [(0, fork_function)], s_next_value_id := 2, s_constants := []\<rparr>"

definition fork_cfg :: cfg where
  "fork_cfg = (let d = \<lparr>cd_cfg = \<lparr>dg_nodes = 3, dg_edges = [(0, 1, JtJmp), (0, 2, JtJmp)]\<rparr>,
       cd_dominators = \<lparr>immediate_dominator = Map.empty, immediately_dominated_by = \<lambda>_. []\<rparr>,
       cd_node_dominator_post_order = [(1, 0), (2, 1), (0, 2)], cd_dominator_pre_order = [0, 1, 2],
       cd_node_dominator_pre_order = [(0, 0), (1, 1), (2, 2)]\<rparr>
     in \<lparr>cf_entry_node = 0, cf_return_node = 3, cf_block_to_node = [(0, 0), (1, 1), (2, 2)],
       cf_node_to_block = [(0, 0), (1, 1), (2, 2)], cf_cfg = d, cf_reverse_cfg = d\<rparr>)"

lemma fork_paths: "block_path fork_function p \<longleftrightarrow> p \<in> {[0], [1, 0], [2, 0]}"
proof
  show "block_path fork_function p \<Longrightarrow> p \<in> {[0], [1, 0], [2, 0]}"
    by (induction p rule: block_path.induct) (auto simp: fork_function_def split: if_splits)
  have 0: "block_path fork_function [0]" using path_entry [of fork_function] by (simp add: fork_function_def)
  show "p \<in> {[0], [1, 0], [2, 0]} \<Longrightarrow> block_path fork_function p"
    using 0 path_jump [OF 0] by (auto simp: fork_function_def)
qed

lemma fork_cfg_describes: "cfg_describes fork_cfg fork_function"
proof -
  have order: "get_domination_pre_order fork_cfg = [0, 1, 2]"
    by (simp add: get_domination_pre_order_def blocks_of_def fork_cfg_def Let_def List.map_filter_def)
  have blocks: "fst ` set (f_blocks fork_function) = {0, 1, 2}" by (simp add: fork_function_def)
  have reach: "block_reach fork_function b \<longleftrightarrow> b \<in> {0, 1, 2}" for b by (auto simp: block_reach_def fork_paths)
  have dom: "block_dominates fork_function a b \<longleftrightarrow> b \<in> {0, 1, 2} \<and> (a = 0 \<or> a = b)" for a b
    unfolding block_dominates_def reach fork_paths by auto
  have "dominates fork_cfg a b = Some (a = 0 \<or> a = b)" if "a \<in> {0, 1, 2}" "b \<in> {0, 1, 2}" for a b
    using that by (auto simp: dominates_def node_of_def dominates_node_def fork_cfg_def Let_def)
  then show ?thesis unfolding cfg_describes_def order blocks dom reach by auto
qed

lemma propagated_conditions_hold_witness:
  "\<exists>f' s' r. condition_propagation_function fork_cfg (fork_function, fork_program) = Some (f', s') \<and> 1 \<in> fst ` set r \<and>
    (\<forall>(v, k) \<in> set r. \<exists>bit. get_const k s' = Some (ConstU 1 (if bit then 1 else 0)) \<and> known_at fork_function 1 v bit)"
proof -
  have order: "get_domination_pre_order fork_cfg = [0, 1, 2]"
    by (simp add: get_domination_pre_order_def blocks_of_def fork_cfg_def Let_def List.map_filter_def)
  have d: "dominates fork_cfg 1 0 = Some False" "dominates fork_cfg 1 1 = Some True" "dominates fork_cfg 1 2 = Some False"
    "dominates fork_cfg 2 0 = Some False" "dominates fork_cfg 2 1 = Some False" "dominates fork_cfg 2 2 = Some True"
    by (simp_all add: dominates_def node_of_def dominates_node_def fork_cfg_def Let_def)
  have "condition_propagation_function fork_cfg (fork_function, fork_program) \<noteq> None"
    by (simp add: condition_propagation_function_def order propagate_block_def branch_conditions_def fork_function_def
      fork_program_def d [simplified] condition_replacements_def add_const_def
      add_const_fast_def add_const_slow_def fresh_value_def get_block_def put_block_def replace_inputs_def replacement_simps)
  then obtain f' s' where run: "condition_propagation_function fork_cfg (fork_function, fork_program) = Some (f', s')" by auto
  have split: "split_branches fork_function" by (auto simp: split_branches_def fork_function_def)
  have names: "distinct (map fst (f_blocks fork_function))" by (simp add: fork_function_def)
  have inv: "const_inv fork_program" by (simp add: const_inv_def fork_program_def hlssa_new_def with_main_def)
  have reach: "block_reach fork_function 1" by (auto simp: block_reach_def fork_paths)
  have "(1, 1, True) \<in> set (branch_conditions fork_function)" by (simp add: branch_conditions_def fork_function_def)
  moreover have "block_dominates fork_function 1 1" using reach by (simp add: block_dominates_def)
  ultimately have target: "1 \<in> {v. \<exists>T bit. (T, v, bit) \<in> set (branch_conditions fork_function) \<and> block_dominates fork_function T 1}"
    by blast
  obtain r where r: "fst ` set r = {v. \<exists>T bit. (T, v, bit) \<in> set (branch_conditions fork_function) \<and> block_dominates fork_function T 1}"
    "\<forall>(v, k) \<in> set r. \<exists>bit. get_const k s' = Some (ConstU 1 (if bit then 1 else 0)) \<and> known_at fork_function 1 v bit"
    using propagated_conditions_hold [OF run fork_cfg_describes split names inv, THEN conjunct1, THEN spec [of _ 1]]
    unfolding if_P [OF reach] by blast
  then show ?thesis using run target by blast
qed

text \<open>A branch on a constant makes the constant itself a value to replace. Below the then-target of a branch on \<open>0\<close> and
  the else-target of a branch on \<open>1\<close> the table sends \<open>0\<close> to \<open>1\<close> and \<open>1\<close> to \<open>0\<close>, and replacing either of them
  panics because of the cycle, although every branch goes to blocks of its own.\<close>

definition nested_function :: hl_function where
  "nested_function = \<lparr>f_entry_block = 0, f_blocks = [
      (0, \<lparr>b_parameters = [], b_instructions = [], b_terminator = Some (JmpIf 10 1 2)\<rparr>),
      (1, \<lparr>b_parameters = [], b_instructions = [], b_terminator = Some (JmpIf 11 3 4)\<rparr>),
      (2, \<lparr>b_parameters = [], b_instructions = [], b_terminator = Some (Return [11])\<rparr>),
      (3, \<lparr>b_parameters = [], b_instructions = [], b_terminator = Some (Return [11])\<rparr>),
      (4, \<lparr>b_parameters = [], b_instructions = [], b_terminator = Some (Return [11])\<rparr>)],
    f_name = ''main'', f_returns = [TU 1], f_next_block = 5\<rparr>"

definition nested_program :: "rat hlssa" where
  "nested_program = (hlssa_new :: rat hlssa)\<lparr>s_functions := [(0, nested_function)], s_next_value_id := 12,
     s_constants := [(10, ConstU 1 0), (11, ConstU 1 1)]\<rparr>"

definition nested_cfg :: cfg where
  "nested_cfg = (let d = \<lparr>cd_cfg = \<lparr>dg_nodes = 5, dg_edges = [(0, 1, JtJmp), (0, 2, JtJmp), (1, 3, JtJmp), (1, 4, JtJmp)]\<rparr>,
       cd_dominators = \<lparr>immediate_dominator = Map.empty, immediately_dominated_by = \<lambda>_. []\<rparr>,
       cd_node_dominator_post_order = [(3, 0), (4, 1), (1, 2), (2, 3), (0, 4)], cd_dominator_pre_order = [0, 1, 3, 4, 2],
       cd_node_dominator_pre_order = [(0, 0), (1, 1), (3, 2), (4, 3), (2, 4)]\<rparr>
     in \<lparr>cf_entry_node = 0, cf_return_node = 5, cf_block_to_node = map (\<lambda>b. (b, b)) [0..<5],
       cf_node_to_block = map (\<lambda>b. (b, b)) [0..<5], cf_cfg = d, cf_reverse_cfg = d\<rparr>)"

lemma nested_paths: "block_path nested_function p \<longleftrightarrow> p \<in> {[0], [1, 0], [2, 0], [3, 1, 0], [4, 1, 0]}"
proof
  show "block_path nested_function p \<Longrightarrow> p \<in> {[0], [1, 0], [2, 0], [3, 1, 0], [4, 1, 0]}"
    by (induction p rule: block_path.induct) (auto simp: nested_function_def split: if_splits)
  have 0: "block_path nested_function [0]" using path_entry [of nested_function] by (simp add: nested_function_def)
  have 1: "block_path nested_function [1, 0]" using path_jump [OF 0] by (simp add: nested_function_def)
  show "p \<in> {[0], [1, 0], [2, 0], [3, 1, 0], [4, 1, 0]} \<Longrightarrow> block_path nested_function p"
    using 0 1 path_jump [OF 0] path_jump [OF 1] by (auto simp: nested_function_def)
qed

lemma nested_order: "get_domination_pre_order nested_cfg = [0, 1, 3, 4, 2]"
  by (simp add: get_domination_pre_order_def blocks_of_def nested_cfg_def Let_def List.map_filter_def upt_rec)

lemma nested_dominates:
  "a \<in> {0, 1, 2, 3, 4} \<Longrightarrow> b \<in> {0, 1, 2, 3, 4} \<Longrightarrow> dominates nested_cfg a b = Some (a = 0 \<or> a = b \<or> a = 1 \<and> b \<in> {3, 4})"
  by (auto simp: dominates_def node_of_def dominates_node_def nested_cfg_def Let_def upt_rec)

lemma nested_cfg_describes: "cfg_describes nested_cfg nested_function"
proof -
  have blocks: "fst ` set (f_blocks nested_function) = {0, 1, 2, 3, 4}" by (simp add: nested_function_def)
  have reach: "block_reach nested_function b \<longleftrightarrow> b \<in> {0, 1, 2, 3, 4}" for b by (auto simp: block_reach_def nested_paths)
  have dom: "block_dominates nested_function a b \<longleftrightarrow> b \<in> {0, 1, 2, 3, 4} \<and> (a = 0 \<or> a = b \<or> a = 1 \<and> b \<in> {3, 4})" for a b
    unfolding block_dominates_def reach nested_paths by auto
  show ?thesis unfolding cfg_describes_def nested_order blocks dom reach using nested_dominates by auto
qed

theorem nested_constant_branches_panic:
  "cfg_describes nested_cfg nested_function \<and> split_branches nested_function \<and> const_inv nested_program \<and>
    condition_propagation_function nested_cfg (nested_function, nested_program) = None"
proof (intro conjI)
  show "cfg_describes nested_cfg nested_function" by (rule nested_cfg_describes)
  show "split_branches nested_function" by (auto simp: split_branches_def nested_function_def)
  show "const_inv nested_program" by (simp add: const_inv_def nested_program_def hlssa_new_def with_main_def)
  show "condition_propagation_function nested_cfg (nested_function, nested_program) = None"
    by (simp add: condition_propagation_function_def nested_order propagate_block_def branch_conditions_def nested_function_def
      nested_program_def nested_dominates nested_dominates [of 1, simplified] condition_replacements_def add_const_def
      add_const_fast_def add_const_slow_def fresh_value_def get_block_def put_block_def replace_inputs_def replacement_simps)
qed

subsection \<open>A branch into a join\<close>

text \<open>The shape of \<^verbatim>\<open>while c { break }; assert(c)\<close>: the exit of the loop is a target of the header's branch
  and of the jump of the \<^verbatim>\<open>break\<close>.\<close>

definition break_loop :: hl_function where
  "break_loop = \<lparr>f_entry_block = 0, f_blocks =
     [(0, \<lparr>b_parameters = [(0, TU 1)], b_instructions = [], b_terminator = Some (Jmp 1 [])\<rparr>),
      (1, \<lparr>b_parameters = [], b_instructions = [], b_terminator = Some (JmpIf 0 2 3)\<rparr>),
      (2, \<lparr>b_parameters = [], b_instructions = [], b_terminator = Some (Jmp 3 [])\<rparr>),
      (3, \<lparr>b_parameters = [], b_instructions = [OpAssert 0], b_terminator = Some (Return [])\<rparr>)],
     f_name = ''main'', f_returns = [], f_next_block = 4\<rparr>"

definition break_program :: "rat hlssa" where
  "break_program = \<lparr>s_functions = [(0, break_loop)], s_global_types = [], s_globals_init_fn = None,
     s_globals_deinit_fn = None, s_main_id = 0, s_next_function_id = 1, s_next_value_id = 1, s_constants = []\<rparr>"

definition break_types :: type_info where
  "break_types fid = Some (\<lambda>_. Some (TU 1))"

text \<open>The graph of the function and the dominator trees of it and of its reverse.\<close>

definition break_graph :: "jump_type digraph" where
  "break_graph = \<lparr>dg_nodes = 6, dg_edges = [(0, 2, JtEntry), (2, 3, JtJmp), (3, 4, JtJmpIf), (3, 5, JtJmpIf), (4, 5, JtJmp),
     (5, 1, JtReturn)]\<rparr>"

definition break_dominators :: dominators where
  "break_dominators = \<lparr>immediate_dominator = map_of [(2, 0), (3, 2), (4, 3), (5, 3), (1, 5)],
     immediately_dominated_by = (\<lambda>v. if v = 0 then [2] else if v = 2 then [3] else if v = 3 then [4, 5]
       else if v = 5 then [1] else [])\<rparr>"

definition break_algos :: graph_algos where
  "break_algos = \<lparr>simple_fast = (\<lambda>g r. if r = 0 then break_dominators else naive_dominators g r),
     dfs_post_order = (\<lambda>_ _. []), bfs_order = (\<lambda>_ _. [])\<rparr>"

lemma break_edge: "edge break_graph u v \<longleftrightarrow> (u, v) \<in> {(0, 2), (2, 3), (3, 4), (3, 5), (4, 5), (5, 1)}"
  by (auto simp: edge_def break_graph_def)

lemma break_paths:
  "path break_graph 0 [0]" "path break_graph 0 [2, 0]" "path break_graph 0 [3, 2, 0]" "path break_graph 0 [4, 3, 2, 0]"
  "path break_graph 0 [5, 3, 2, 0]" "path break_graph 0 [1, 5, 3, 2, 0]" "path break_graph 0 [5, 4, 3, 2, 0]"
proof -
  show "path break_graph 0 [0]" by (rule path_root)
  then show "path break_graph 0 [2, 0]" by (rule path_step) (simp add: break_edge)
  then show "path break_graph 0 [3, 2, 0]" by (rule path_step) (simp add: break_edge)
  then show "path break_graph 0 [4, 3, 2, 0]" "path break_graph 0 [5, 3, 2, 0]"
    by (auto intro!: path_step simp: break_edge)
  then show "path break_graph 0 [1, 5, 3, 2, 0]" "path break_graph 0 [5, 4, 3, 2, 0]"
    by (auto intro!: path_step simp: break_edge)
qed

text \<open>The table is the dominator tree: no node of a path can be missed.\<close>

lemma break_path_nodes:
  "path break_graph 0 p \<Longrightarrow> p \<noteq> [] \<and> hd p \<in> {0, 1, 2, 3, 4, 5} \<and> 0 \<in> set p \<and>
     (hd p \<noteq> 0 \<longrightarrow> 2 \<in> set p) \<and> (hd p \<notin> {0, 2} \<longrightarrow> 3 \<in> set p) \<and> (hd p = 1 \<longrightarrow> 5 \<in> set p)"
proof (induction p rule: path.induct)
  case (path_step u p v)
  have "(u, v) = (0, 2) \<or> (u, v) = (2, 3) \<or> (u, v) = (3, 4) \<or> (u, v) = (3, 5) \<or> (u, v) = (4, 5) \<or> (u, v) = (5, 1)"
    using path_step.hyps(2) by (simp add: break_edge)
  then show ?case using path_step.IH by (elim disjE) simp_all
qed simp

lemma break_reach: "reach break_graph 0 v \<longleftrightarrow> v \<in> {0, 1, 2, 3, 4, 5}"
proof
  assume "reach break_graph 0 v"
  then obtain p where "path break_graph 0 (v # p)" by (auto simp: reach_def)
  from break_path_nodes [OF this] show "v \<in> {0, 1, 2, 3, 4, 5}" by simp
next
  assume "v \<in> {0, 1, 2, 3, 4, 5}"
  then show "reach break_graph 0 v" unfolding reach_def by (elim insertE) (use break_paths in blast)+
qed

lemma break_dominator:
  "dominator break_graph 0 u v \<longleftrightarrow> v \<in> {0, 1, 2, 3, 4, 5} \<and>
     (u = v \<or> u = 0 \<or> u = 2 \<and> v \<noteq> 0 \<or> u = 3 \<and> v \<notin> {0, 2} \<or> u = 5 \<and> v = 1)"
proof
  assume d: "dominator break_graph 0 u v"
  then have v: "v \<in> {0, 1, 2, 3, 4, 5}" using break_reach by (simp add: dominator_def)
  moreover have "path break_graph 0 (v # p) \<Longrightarrow> u \<in> set (v # p)" for p using d unfolding dominator_def by blast
  from this [of "[]"] this [of "[0]"] this [of "[2, 0]"] this [of "[3, 2, 0]"] this [of "[5, 3, 2, 0]"]
    this [of "[4, 3, 2, 0]"]
  have "u = v \<or> u = 0 \<or> u = 2 \<and> v \<noteq> 0 \<or> u = 3 \<and> v \<notin> {0, 2} \<or> u = 5 \<and> v = 1"
    using v break_paths by (elim insertE) auto
  ultimately show "v \<in> {0, 1, 2, 3, 4, 5} \<and>
     (u = v \<or> u = 0 \<or> u = 2 \<and> v \<noteq> 0 \<or> u = 3 \<and> v \<notin> {0, 2} \<or> u = 5 \<and> v = 1)" by blast
next
  assume a: "v \<in> {0, 1, 2, 3, 4, 5} \<and> (u = v \<or> u = 0 \<or> u = 2 \<and> v \<noteq> 0 \<or> u = 3 \<and> v \<notin> {0, 2} \<or> u = 5 \<and> v = 1)"
  have "u \<in> set (v # p)" if "path break_graph 0 (v # p)" for p
    using break_path_nodes [OF that] a by auto
  then show "dominator break_graph 0 u v" using a break_reach unfolding dominator_def by blast
qed

lemma break_spec: "dominators_spec break_graph 0 break_dominators"
  unfolding dominators_spec_def break_dominator break_reach
  by (auto simp: break_dominators_def split: if_splits)

lemmas cfg_simps = cfg_builder_new_def dg_empty_def add_node_def cfg_add_block_def block_node_def set_entry_def
  add_edge_def add_jump_def add_return_def

lemma break_builder:
  "cfg_of_function break_algos break_loop = build_cfg break_algos \<lparr>cb_cfg = break_graph,
     cb_block_to_node = [(0, 2), (1, 3), (2, 4), (3, 5)], cb_node_to_block = [(2, 0), (3, 1), (4, 2), (5, 3)],
     cb_entry_node = 0, cb_return_node = 1\<rparr>"
  by (simp add: cfg_of_function_def break_loop_def break_graph_def cfg_simps eval_nat_numeral)

lemma break_cfg:
  "\<exists>c. cfg_of_function break_algos break_loop = Some c \<and> get_domination_pre_order c = [0, 1, 2, 3] \<and>
    (\<forall>a \<in> {2, 3}. \<forall>b \<in> {0, 1, 2, 3}. dominates c a b = Some (a = b))"
proof -
  have "graph_wf (dg_reverse break_graph)" "1 < dg_nodes (dg_reverse break_graph)"
    by (simp_all add: graph_wf_def dg_reverse_def break_graph_def)
  moreover have "simple_fast break_algos (dg_reverse break_graph) 1 = naive_dominators (dg_reverse break_graph) 1"
    by (simp add: break_algos_def)
  ultimately obtain e where "from_graph break_algos (dg_reverse break_graph) 1 = Some e"
    using from_graph_dominance [of "dg_reverse break_graph" 1 break_algos] naive_dominators_ok by metis
  then show ?thesis
    unfolding break_builder build_cfg_def
    by (simp add: from_graph_def break_algos_def break_dominators_def break_graph_def eval_nat_numeral trav_empty_def
      visit_pre_def visit_post_def get_domination_pre_order_def blocks_of_def List.map_filter_simps dominates_def
      node_of_def dominates_node_def)
qed

text \<open>The program after the pass: the assertion is about the constant 0.\<close>

definition broken_loop :: hl_function where
  "broken_loop = break_loop\<lparr>f_blocks :=
     [(0, \<lparr>b_parameters = [(0, TU 1)], b_instructions = [], b_terminator = Some (Jmp 1 [])\<rparr>),
      (1, \<lparr>b_parameters = [], b_instructions = [], b_terminator = Some (JmpIf 0 2 3)\<rparr>),
      (2, \<lparr>b_parameters = [], b_instructions = [], b_terminator = Some (Jmp 3 [])\<rparr>),
      (3, \<lparr>b_parameters = [], b_instructions = [OpAssert 2], b_terminator = Some (Return [])\<rparr>)]\<rparr>"

definition broken_program :: "rat hlssa" where
  "broken_program = break_program\<lparr>s_functions := [(0, broken_loop)], s_next_value_id := 3,
     s_constants := [(2, ConstU 1 0), (1, ConstU 1 1)]\<rparr>"

lemma break_propagation:
  "\<exists>fa. flow_analysis_run break_algos hl_instruction break_program = Some fa \<and>
    condition_propagation fa break_program = Some broken_program"
proof -
  obtain c where c: "cfg_of_function break_algos break_loop = Some c" "get_domination_pre_order c = [0, 1, 2, 3]"
    "\<forall>a \<in> {2, 3}. \<forall>b \<in> {0, 1, 2, 3}. dominates c a b = Some (a = b)"
    using break_cfg by blast
  then have d: "dominates c 2 0 = Some False" "dominates c 2 1 = Some False" "dominates c 2 2 = Some True"
    "dominates c 2 3 = Some False" "dominates c 3 0 = Some False" "dominates c 3 1 = Some False"
    "dominates c 3 2 = Some False" "dominates c 3 3 = Some True" by simp_all
  have "call_graph_of hl_instruction break_program \<noteq> None"
    by (simp add: call_graph_of_def break_program_def break_loop_def static_calls_def hl_instruction_def)
  then obtain g where g: "call_graph_of hl_instruction break_program = Some g" by blast
  have s: "s_functions break_program = [(0, break_loop)]" by (simp add: break_program_def)
  let ?fa = "\<lparr>fa_call_graph = g, fa_function_cfgs = [(0, c)]\<rparr>"
  have "flow_analysis_run break_algos hl_instruction break_program = Some ?fa"
    by (simp add: flow_analysis_run_def g s c(1))
  moreover have "condition_propagation ?fa break_program = Some broken_program"
    by (simp add: condition_propagation_def get_function_cfg_def take_function_def put_function_def
      condition_propagation_function_def branch_conditions_def propagate_block_def condition_replacements_def c(2) d [simplified]
      add_const_def add_const_fast_def add_const_slow_def fresh_value_def broken_program_def broken_loop_def
      break_program_def break_loop_def get_block_def put_block_def replace_inputs_def replacement_simps)
  ultimately show ?thesis by blast
qed

lemma break_ops:
  "so_expect_constant_bool (r1cs_ops fp) v ctx = pure_op ctx (expect_constant_bool v)"
  "so_assert_bool (r1cs_ops fp) v ctx = check_op ctx (assert_bool v)"
  "so_on_jmp (r1cs_ops fp) b vs ts ctx = Some (vs, ctx)"
  by (simp_all add: r1cs_ops_def)

lemma break_runs:
  "run 6 (r1cs_ops rat_ops) break_program break_types 0 [VConst 1] (gen_init r1c_gen_new) = Ret (gen_init r1c_gen_new)"
  "run 6 (r1cs_ops rat_ops) broken_program break_types 0 [VConst 1] (gen_init r1c_gen_new) = Panic"
  by (simp_all add: run_simps break_program_def break_loop_def broken_program_def broken_loop_def get_function_def
    get_entry_def get_block_def get_parameter_values_def num_globals_def break_types_def eval_nat_numeral break_ops
    gen_on_call_def pure_op_def check_op_def expect_constant_bool_def assert_bool_def ensure_def of_u128_def)

text \<open>C17. Without the condition on the predecessors, the pass changes what a program does. In the loop
  \<^verbatim>\<open>while c { break }; assert(c)\<close> the exit block is the else-target of the header's branch and dominates
  itself, so the pass asserts the constant 0 there, though the \<^verbatim>\<open>break\<close> arrives with \<open>c\<close> true: the run
  with \<open>c = 1\<close> succeeds before the pass and panics after it.\<close>

theorem condition_propagation_breaks_joins:
  "\<exists>fa s'. flow_analysis_run break_algos hl_instruction break_program = Some fa \<and>
    condition_propagation fa break_program = Some s' \<and>
    run 6 (r1cs_ops rat_ops) break_program break_types 0 [VConst 1] (gen_init r1c_gen_new) = Ret (gen_init r1c_gen_new) \<and>
    run 6 (r1cs_ops rat_ops) s' break_types 0 [VConst 1] (gen_init r1c_gen_new) = Panic"
  using break_propagation break_runs by blast

end
