(* ===== verification/Witness_Fresh.thy ===== *)
theory Witness_Fresh
  imports Value_Replacement Deduplicate_Phis
begin

text \<open>
  Passes that rewrite instructions one by one, and the refinement they owe: whenever the old program returns, the
  new one returns the same. The instance is the first step of the constraint generation, which turns every
  \<^verbatim>\<open>WriteWitness\<close> into a \<^verbatim>\<open>FreshWitness\<close>
  (\<^verbatim>\<open>compiler/src/compiler/passes/witness_write_to_fresh.rs\<close>).
\<close>

subsection \<open>The pass\<close>

definition fresh_write :: "type_info \<Rightarrow> function_id \<Rightarrow> opcode \<Rightarrow> opcode option" where
  "fresh_write ti fid i = (case i of
     OpWriteWitness r v _ \<Rightarrow> do {
       types \<leftarrow> ti fid;
       tp \<leftarrow> types v;
       ensure (\<not> is_witness_of tp);
       ensure (is_numeric tp);
       r \<leftarrow> r;
       Some (OpFreshWitness r tp) }
   | _ \<Rightarrow> Some i)"

definition on_instructions :: "(opcode \<Rightarrow> opcode option) \<Rightarrow> hl_function \<Rightarrow> hl_function option" where
  "on_instructions h = on_blocks (\<lambda>block. do {
     js \<leftarrow> opt_map h (b_instructions block);
     Some (block\<lparr>b_instructions := js\<rparr>) })"

definition witness_write_to_fresh :: "type_info \<Rightarrow> 'f hlssa \<Rightarrow> 'f hlssa option" where
  "witness_write_to_fresh ti s = on_functions (\<lambda>fid. on_instructions (fresh_write ti fid)) s"

subsection \<open>Refinement\<close>

definition ret_le :: "'a outcome \<Rightarrow> 'a outcome \<Rightarrow> bool" where
  "ret_le a b \<longleftrightarrow> (\<forall>x. a = Ret x \<longrightarrow> b = Ret x)"

lemma ret_le_refl [simp, intro]: "ret_le a a"
  by (simp add: ret_le_def)

lemma ret_le_trans: "ret_le a b \<Longrightarrow> ret_le b c \<Longrightarrow> ret_le a c"
  by (simp add: ret_le_def)

lemma ret_le_and_then: "ret_le a b \<Longrightarrow> (\<And>x. ret_le (f x) (g x)) \<Longrightarrow> ret_le (and_then a f) (and_then b g)"
  by (auto simp: ret_le_def and_then_Ret)

definition runner_ret_le :: "('v, 'c) runner \<Rightarrow> ('v, 'c) runner \<Rightarrow> bool" where
  "runner_ret_le c d \<longleftrightarrow> (\<forall>fid inputs globals ctx. ret_le (c fid inputs globals ctx) (d fid inputs globals ctx))"

text \<open>One instruction does at least what another does, whatever runs the calls.\<close>

definition instr_refines :: "('v, 'c, 'f) sym_ops \<Rightarrow> (value_id \<Rightarrow> ty option) \<Rightarrow> opcode \<Rightarrow> opcode \<Rightarrow> bool" where
  "instr_refines S ty_of i i' \<longleftrightarrow> (\<forall>s call consts st.
     ret_le (exec_instr S s call ty_of consts i st) (exec_instr S s call ty_of consts i' st))"

definition block_refines :: "('v, 'c, 'f) sym_ops \<Rightarrow> (value_id \<Rightarrow> ty option) \<Rightarrow> hl_block \<Rightarrow> hl_block \<Rightarrow> bool" where
  "block_refines S ty_of b b' \<longleftrightarrow> b_parameters b' = b_parameters b \<and> b_terminator b' = b_terminator b \<and>
     list_all2 (instr_refines S ty_of) (b_instructions b) (b_instructions b')"

definition func_refines :: "('v, 'c, 'f) sym_ops \<Rightarrow> (value_id \<Rightarrow> ty option) \<Rightarrow> hl_function \<Rightarrow> hl_function \<Rightarrow> bool" where
  "func_refines S ty_of f f' \<longleftrightarrow> f_entry_block f' = f_entry_block f \<and> f_returns f' = f_returns f \<and>
     (\<forall>b. rel_option (block_refines S ty_of) (get_block b f) (get_block b f'))"

definition ssa_refines :: "('v, 'c, 'f) sym_ops \<Rightarrow> type_info \<Rightarrow> 'f hlssa \<Rightarrow> 'f hlssa \<Rightarrow> bool" where
  "ssa_refines S ti s s' \<longleftrightarrow> s_constants s' = s_constants s \<and> num_globals s' = num_globals s \<and> s_main_id s' = s_main_id s \<and>
     (\<forall>fid. rel_option (\<lambda>f f'. \<forall>ty_of. ti fid = Some ty_of \<longrightarrow> func_refines S ty_of f f') (get_function fid s) (get_function fid s') \<and>
       Option.bind (get_function fid s') get_param_types = Option.bind (get_function fid s) get_param_types)"

lemma exec_instr_ret_le:
  assumes "same_signatures UNIV s s'" "runner_ret_le call call'"
  shows "ret_le (exec_instr S s call ty_of consts i st) (exec_instr S s' call' ty_of consts i st)"
proof -
  have "ret_le (exec_instr S s call ty_of consts i st) (exec_instr S s call' ty_of consts i st)"
    using assms(2)
    by (cases st) (auto simp: exec_instr_def exec_call_def runner_ret_le_def intro!: ret_le_and_then
      split: opcode.split call_target.split)
  then show ?thesis using exec_instr_sim [OF assms(1), of i call' call' S] by simp
qed

lemma exec_instrs_ret_le:
  assumes "same_signatures UNIV s s'" "runner_ret_le call call'"
  shows "list_all2 (instr_refines S ty_of) is js \<Longrightarrow>
    ret_le (exec_instrs S s call ty_of consts is st) (exec_instrs S s' call' ty_of consts js st)"
proof (induction arbitrary: st rule: list_all2_induct)
  case (Cons i "is" j js)
  have "ret_le (exec_instr S s call ty_of consts i st) (exec_instr S s' call' ty_of consts j st)"
    using Cons.hyps(1) exec_instr_ret_le [OF assms] unfolding instr_refines_def by (blast intro: ret_le_trans)
  then show ?case using Cons.IH by (auto intro: ret_le_and_then)
qed simp

lemma exec_end_ret_le:
  assumes "f_returns g = f_returns f"
    and "\<And>t. map_option b_parameters (get_block t g) = map_option b_parameters (get_block t f)"
    and "\<And>t st. ret_le (go t st) (go' t st)"
  shows "ret_le (exec_end S consts f tm go st) (exec_end S consts g tm go' st)"
proof (cases tm)
  case (Some x)
  obtain locals globals ctx where st: "st = (locals, globals, ctx)" by (cases st)
  show ?thesis
  proof (cases x)
    case (Jmp t ps)
    have "get_block t f = None \<and> get_block t g = None \<or> (\<exists>a b. get_block t f = Some a \<and> get_block t g = Some b \<and> b_parameters b = b_parameters a)"
      using assms(2) [of t] by (cases "get_block t f"; cases "get_block t g") auto
    then show ?thesis
      using assms(3) Some Jmp
      by (elim disjE exE conjE) (auto simp: exec_end_def st get_parameter_values_def ret_le_def and_then_Ret)
  next
    case (JmpIf c t1 t2)
    then show ?thesis using assms(3) Some by (auto simp: exec_end_def st intro!: ret_le_and_then)
  qed (use Some assms(1) in \<open>simp add: exec_end_def st\<close>)
qed (simp add: exec_end_def)

lemma run_blocks_ret_le:
  assumes s: "same_signatures UNIV s s'" and call: "runner_ret_le call call'" and f: "func_refines S ty_of f f'"
  shows "ret_le (run_blocks n S s call ty_of consts f b st) (run_blocks n S s' call' ty_of consts f' b st)"
proof (induction n arbitrary: b st)
  case (Suc n)
  have blk: "rel_option (block_refines S ty_of) (get_block t f) (get_block t f')" for t using f by (simp add: func_refines_def)
  have p: "map_option b_parameters (get_block t f') = map_option b_parameters (get_block t f)" for t
    using blk [of t] by (cases rule: option.rel_cases) (simp_all add: block_refines_def)
  have r: "f_returns f' = f_returns f" using f by (simp add: func_refines_def)
  show ?case
  proof (cases "get_block b f")
    case (Some block)
    then obtain block' where b': "get_block b f' = Some block'" "block_refines S ty_of block block'"
      using blk [of b] by (auto simp: option_rel_Some1)
    then show ?thesis
      unfolding run_blocks_end Some b'(1) of_option.simps and_then.simps
      by (auto simp: block_refines_def intro!: ret_le_and_then exec_instrs_ret_le [OF s call] exec_end_ret_le [OF r p] Suc.IH)
  qed (simp add: ret_le_def)
qed (simp add: ret_le_def)

lemma run_fn_ret_le:
  assumes s: "ssa_refines S ti s s'"
  shows "runner_ret_le (run_fn n S s ti consts) (run_fn n S s' ti consts)"
proof (induction n)
  case (Suc n)
  have sig: "same_signatures UNIV s s'" using s by (simp add: same_signatures_def ssa_refines_def)
  show ?case unfolding runner_ret_le_def
  proof (intro allI)
    fix fid inputs globals ctx
    show "ret_le (run_fn (Suc n) S s ti consts fid inputs globals ctx) (run_fn (Suc n) S s' ti consts fid inputs globals ctx)"
    proof (cases "get_function fid s = None \<or> ti fid = None")
      case True
      then show ?thesis by (auto simp: ret_le_def and_then_Ret bind_Some_iff)
    next
      case False
      then obtain f ty_of where f: "get_function fid s = Some f" "ti fid = Some ty_of" by auto
      have "rel_option (\<lambda>f f'. \<forall>ty_of. ti fid = Some ty_of \<longrightarrow> func_refines S ty_of f f') (get_function fid s) (get_function fid s')"
        using s by (simp add: ssa_refines_def)
      then obtain f' where f': "get_function fid s' = Some f'" "func_refines S ty_of f f'"
        using f by (auto simp: option_rel_Some1)
      have e: "f_entry_block f' = f_entry_block f" "f_returns f' = f_returns f" using f'(2) by (simp_all add: func_refines_def)
      have b: "ret_le (run_blocks n S s (run_fn n S s ti consts) ty_of consts f (f_entry_block f) st)
          (run_blocks n S s' (run_fn n S s' ti consts) ty_of consts f' (f_entry_block f) st)" for st
        by (rule run_blocks_ret_le [OF sig Suc.IH f'(2)])
      show ?thesis
      proof (cases "get_entry f")
        case (Some entry)
        have "rel_option (block_refines S ty_of) (get_entry f) (get_entry f')"
          using f'(2) e by (simp add: func_refines_def get_entry_def get_block_def)
        then obtain entry' where 2: "get_entry f' = Some entry'" "b_parameters entry' = b_parameters entry"
          using Some by (auto simp: option_rel_Some1 block_refines_def)
        have v: "get_parameter_values entry' = get_parameter_values entry" by (simp add: get_parameter_values_def 2)
        show ?thesis
          by (cases "so_on_call S fid inputs (map snd (b_parameters entry)) (f_returns f) False ctx")
            (auto simp: f f'(1) Some 2 v e b split: option.split)
      qed (simp add: f ret_le_def)
    qed
  qed
qed (simp add: runner_ret_le_def ret_le_def)

lemma run_refines:
  "ssa_refines S ti s s' \<Longrightarrow> run n S s ti entry params ctx = Ret ctx' \<Longrightarrow> run n S s' ti entry params ctx = Ret ctx'"
  using run_fn_ret_le [of S ti s s' n]
  by (fastforce simp: run_def ssa_refines_def and_then_Ret runner_ret_le_def ret_le_def)

subsection \<open>The pass refines\<close>

text \<open>A client for which a fresh witness is all that a write is.\<close>

definition writes_are_fresh :: "('v, 'c, 'f) sym_ops \<Rightarrow> bool" where
  "writes_are_fresh S \<longleftrightarrow> (\<forall>v t t' c. so_write_witness S v t c = so_fresh_witness S t' c)"

lemma fresh_write_refines:
  assumes S: "writes_are_fresh S" and i: "fresh_write ti fid i = Some i'"
  shows "instr_refines S ty_of i i'"
proof (cases "\<exists>r v p. i = OpWriteWitness r v p")
  case True
  then obtain r v p where e: "i = OpWriteWitness r v p" by blast
  then obtain w tp where w: "r = Some w" "i' = OpFreshWitness w tp"
    using i by (auto simp: fresh_write_def bind_Some_iff split: if_splits)
  have f: "so_write_witness S x t c = so_fresh_witness S tp c" for x t c
    using S unfolding writes_are_fresh_def by blast
  show ?thesis
    unfolding instr_refines_def e w
    by (auto simp: f exec_instr_def exec_simple_def exec_constrain_def ret_le_def bind_Some_iff put_result_def)
next
  case False
  then have "i' = i" using i by (cases i) (auto simp: fresh_write_def)
  then show ?thesis by (simp add: instr_refines_def)
qed

lemma on_instructions_get_block:
  assumes "on_instructions h f = Some f'"
  shows "f_entry_block f' = f_entry_block f" "f_returns f' = f_returns f"
    "rel_option (\<lambda>b b'. b_parameters b' = b_parameters b \<and> b_terminator b' = b_terminator b \<and>
      list_all2 (\<lambda>i i'. h i = Some i') (b_instructions b) (b_instructions b')) (get_block k f) (get_block k f')"
proof -
  obtain bs where f': "f' = f\<lparr>f_blocks := bs\<rparr>" and bs: "list_all2 (\<lambda>(b, block) (b', block'). b' = b \<and>
      (do { js \<leftarrow> opt_map h (b_instructions block); Some (block\<lparr>b_instructions := js\<rparr>) }) = Some block') (f_blocks f) bs"
    using assms unfolding on_instructions_def on_blocks_Some by blast
  then show "f_entry_block f' = f_entry_block f" "f_returns f' = f_returns f" by simp_all
  have "list_all2 (\<lambda>(b, block) (b', block'). b = b' \<and> b_parameters block' = b_parameters block \<and>
      b_terminator block' = b_terminator block \<and>
      list_all2 (\<lambda>i i'. h i = Some i') (b_instructions block) (b_instructions block')) (f_blocks f) bs"
    using bs by (rule list_all2_mono) (auto simp: bind_Some_iff opt_map_Some_iff)
  from map_of_list_all2 [OF this, of k] show "rel_option (\<lambda>b b'. b_parameters b' = b_parameters b \<and>
      b_terminator b' = b_terminator b \<and>
      list_all2 (\<lambda>i i'. h i = Some i') (b_instructions b) (b_instructions b')) (get_block k f) (get_block k f')"
    by (simp add: f' get_block_def)
qed

lemma on_functions_rel:
  assumes "on_functions h s = Some s'"
  shows "s_constants s' = s_constants s" "num_globals s' = num_globals s" "s_main_id s' = s_main_id s"
    "rel_option (\<lambda>f f'. h fid f = Some f') (get_function fid s) (get_function fid s')"
proof -
  obtain fs where fs: "opt_map (\<lambda>(fid, f). map_option (Pair fid) (h fid f)) (s_functions s) = Some fs"
    "s' = s\<lparr>s_functions := fs\<rparr>" using assms by (auto simp: on_functions_def bind_Some_iff)
  then show "s_constants s' = s_constants s" "num_globals s' = num_globals s" "s_main_id s' = s_main_id s"
    by (simp_all add: num_globals_def)
  have "list_all2 (\<lambda>(k, v) (k', v'). k = k' \<and> h k v = Some v') (s_functions s) fs"
    using fs(1) unfolding opt_map_Some_iff by (rule list_all2_mono) auto
  then have "rel_option (\<lambda>f f'. h fid f = Some f') (map_of (s_functions s) fid) (map_of fs fid)"
    by (induction rule: list_all2_induct) auto
  then show "rel_option (\<lambda>f f'. h fid f = Some f') (get_function fid s) (get_function fid s')"
    by (simp add: get_function_def fs(2))
qed

lemma witness_write_to_fresh_refines:
  assumes S: "writes_are_fresh S" and p: "witness_write_to_fresh ti s = Some s'"
  shows "ssa_refines S ti s s'"
proof -
  note r = on_functions_rel [OF p [unfolded witness_write_to_fresh_def]]
  have f: "func_refines S ty_of f f' \<and> get_param_types f' = get_param_types f"
    if h: "on_instructions (fresh_write ti fid) f = Some f'" for ty_of fid f f'
  proof -
    note b = on_instructions_get_block [OF h]
    have "rel_option (block_refines S ty_of) (get_block k f) (get_block k f')" for k
      using b(3) [of k] fresh_write_refines [OF S]
      by (auto simp: block_refines_def elim!: option.rel_mono_strong list_all2_mono)
    moreover have "get_param_types f' = get_param_types f"
      using b(3) [of "f_entry_block f"] b(1)
      by (cases rule: option.rel_cases) (simp_all add: get_param_types_def get_entry_def get_block_def)
    ultimately show ?thesis using b(1,2) by (simp add: func_refines_def)
  qed
  have "rel_option (\<lambda>f f'. \<forall>ty_of. ti fid = Some ty_of \<longrightarrow> func_refines S ty_of f f') (get_function fid s) (get_function fid s')
      \<and> Option.bind (get_function fid s') get_param_types = Option.bind (get_function fid s) get_param_types" for fid
    using r(4) [of fid] f by (cases rule: option.rel_cases) auto
  then show ?thesis using r(1-3) by (simp add: ssa_refines_def)
qed

text \<open>C15. Composition with the constraint generator: whatever system the generator makes of a program, it makes of
  the program after \<^verbatim>\<open>WitnessWriteToFresh\<close>, constraint by constraint and witness by witness.\<close>

theorem fresh_writes_give_same_system:
  assumes "witness_write_to_fresh ti s = Some s'" "gen_run n fp s ti g = Ret g'"
  shows "gen_run n fp s' ti g = Ret g'"
proof -
  have "writes_are_fresh (r1cs_ops fp)" by (simp add: writes_are_fresh_def r1cs_ops_def)
  note r = witness_write_to_fresh_refines [OF this assms(1)]
  have sig: "Option.bind (get_function fid s') get_param_types = Option.bind (get_function fid s) get_param_types"
    "s_main_id s' = s_main_id s" for fid using r by (simp_all add: ssa_refines_def)
  have p: "Option.bind (get_function fid s') (\<lambda>f. Option.bind (get_param_types f) k) =
      Option.bind (get_function fid s) (\<lambda>f. Option.bind (get_param_types f) k)" for fid and k :: "ty list \<Rightarrow> unit option"
    using sig(1) [of fid] by (metis bind_assoc)
  show ?thesis
    using assms(2) run_refines [OF r] unfolding gen_run_def sig(2) p by (auto simp: and_then_Ret)
qed

definition field_types :: type_info where
  "field_types fid = Some (\<lambda>v. Some TField)"

lemma field_run: "gen_run 4 rat_ops main_program field_types r1c_gen_new = Ret main_gen"
  by (simp add: gen_run_def gen_init_def r1c_gen_new_def run_simps program_simps field_types_def eval_nat_numeral
      r1cs_ops_def write_witness_def next_witness_def gen_constrain_def gen_on_call_def mk_array_def gen_lookup_def
      array_at_def push_lookup_def main_gen_def nth_opt_def ensure_def)

lemma fresh_writes_give_same_system_witness:
  "\<exists>s'. witness_write_to_fresh field_types main_program = Some s' \<and>
    gen_run 4 rat_ops s' field_types r1c_gen_new = Ret main_gen"
proof -
  obtain s' where "witness_write_to_fresh field_types main_program = Some s'"
    by (simp add: witness_write_to_fresh_def on_functions_def on_instructions_def on_blocks_def main_program_def
      main_function_def square_function_def fresh_write_def field_types_def ensure_def is_witness_of_def)
  then show ?thesis using fresh_writes_give_same_system field_run by blast
qed

end
