(* ===== verification/Simplify_Asserts.thy ===== *)
theory Simplify_Asserts
  imports Value_Replacement Complex_Main
begin

text \<open>
  Splitting assertions about computed booleans into assertions about what they were computed from
  (\<^verbatim>\<open>compiler/src/compiler/passes/simplify_asserts.rs\<close>). The recursion over conjunctions follows
  definitions, so it takes fuel; one round more than there are definitions is enough when no value is defined
  through itself.
\<close>

subsection \<open>The pass\<close>

type_synonym defs = "(value_id \<times> opcode) list"

definition collect_defs :: "hl_function \<Rightarrow> defs" where
  "collect_defs f = fold (\<lambda>(_, block). fold (\<lambda>i. fold (\<lambda>r. AList.update r i) (get_results i)) (b_instructions block)) (f_blocks f) []"

text \<open>The product that defines a value, if it is one of the field.\<close>

definition field_product :: "defs \<Rightarrow> (value_id \<Rightarrow> ty option) \<Rightarrow> value_id \<Rightarrow> (value_id \<times> value_id) option option" where
  "field_product d types v = (case map_of d v of
     Some (OpBinaryArithOp BopMul r a b) \<Rightarrow> do {
       t \<leftarrow> types r;
       Some (if strip_witness t = TField then Some (a, b) else None) }
   | _ \<Rightarrow> Some None)"

definition emit_assert_eq :: "defs \<Rightarrow> (value_id \<Rightarrow> ty option) \<Rightarrow> value_id \<Rightarrow> value_id \<Rightarrow> opcode list option" where
  "emit_assert_eq d types lhs rhs = do {
     l \<leftarrow> field_product d types lhs;
     (case l of
        Some (a, b) \<Rightarrow> Some [OpAssertR1C a b rhs]
      | None \<Rightarrow> do {
          r \<leftarrow> field_product d types rhs;
          (case r of
             Some (a, b) \<Rightarrow> Some [OpAssertR1C a b lhs]
           | None \<Rightarrow> Some [OpAssertCmp CmpEq lhs rhs]) }) }"

primrec emit_assert :: "nat \<Rightarrow> defs \<Rightarrow> (value_id \<Rightarrow> ty option) \<Rightarrow> value_id \<Rightarrow> opcode list option" where
  "emit_assert 0 d types v = None"
| "emit_assert (Suc n) d types v = (case map_of d v of
     Some (OpCmp CmpEq _ lhs rhs) \<Rightarrow> emit_assert_eq d types lhs rhs
   | Some (OpCmp CmpLt _ lhs rhs) \<Rightarrow> Some [OpAssertCmp CmpLt lhs rhs]
   | Some (OpBinaryArithOp BopAnd r lhs rhs) \<Rightarrow> do {
       t \<leftarrow> types r;
       if strip_witness t = TU 1
       then do {
         out \<leftarrow> emit_assert n d types lhs;
         more \<leftarrow> emit_assert n d types rhs;
         Some (out @ more) }
       else Some [OpAssert v] }
   | _ \<Rightarrow> Some [OpAssert v])"

definition simplify_instruction :: "defs \<Rightarrow> (value_id \<Rightarrow> ty option) \<Rightarrow> opcode \<Rightarrow> opcode list option" where
  "simplify_instruction d types i = (case i of
     OpAssert v \<Rightarrow> emit_assert (length d + 1) d types v
   | OpAssertCmp CmpEq lhs rhs \<Rightarrow> emit_assert_eq d types lhs rhs
   | _ \<Rightarrow> Some [i])"

definition simplify_function :: "(value_id \<Rightarrow> ty option) \<Rightarrow> hl_function \<Rightarrow> hl_function option" where
  "simplify_function types f = (
     let d = collect_defs f in
     on_blocks (\<lambda>block. do {
       out \<leftarrow> opt_map (simplify_instruction d types) (b_instructions block);
       Some (block\<lparr>b_instructions := concat out\<rparr>) }) f)"

definition simplify_asserts :: "(function_id \<Rightarrow> (value_id \<Rightarrow> ty option) option) \<Rightarrow> 'f hlssa \<Rightarrow> 'f hlssa option" where
  "simplify_asserts ti s = on_functions (\<lambda>fid f. Option.bind (ti fid) (\<lambda>types. simplify_function types f)) s"

subsection \<open>What assertions say\<close>

text \<open>An assignment of field elements to values; \<open>lt\<close> says which values compare as smaller at their types. An
  assignment is consistent with an instruction that computes if the result is what the instruction computes.\<close>

definition holds :: "(value_id \<Rightarrow> value_id \<Rightarrow> bool) \<Rightarrow> (value_id \<Rightarrow> 'f::field) \<Rightarrow> opcode \<Rightarrow> bool" where
  "holds lt e i = (case i of
     OpAssert v \<Rightarrow> e v \<noteq> 0
   | OpAssertCmp CmpEq a b \<Rightarrow> e a = e b
   | OpAssertCmp CmpLt a b \<Rightarrow> lt a b
   | OpAssertR1C a b c \<Rightarrow> e a * e b = e c
   | _ \<Rightarrow> True)"

definition consistent ::
  "(value_id \<Rightarrow> value_id \<Rightarrow> bool) \<Rightarrow> (value_id \<Rightarrow> ty option) \<Rightarrow> (value_id \<Rightarrow> 'f::field) \<Rightarrow> opcode \<Rightarrow> bool" where
  "consistent lt types e i = (case i of
     OpCmp CmpEq r a b \<Rightarrow> e r \<noteq> 0 \<longleftrightarrow> e a = e b
   | OpCmp CmpLt r a b \<Rightarrow> e r \<noteq> 0 \<longleftrightarrow> lt a b
   | OpBinaryArithOp BopAnd r a b \<Rightarrow> map_option strip_witness (types r) = Some (TU 1) \<longrightarrow> (e r \<noteq> 0 \<longleftrightarrow> e a \<noteq> 0 \<and> e b \<noteq> 0)
   | OpBinaryArithOp BopMul r a b \<Rightarrow> map_option strip_witness (types r) = Some TField \<longrightarrow> e r = e a * e b
   | _ \<Rightarrow> True)"

definition defs_ok ::
  "(value_id \<Rightarrow> value_id \<Rightarrow> bool) \<Rightarrow> (value_id \<Rightarrow> ty option) \<Rightarrow> (value_id \<Rightarrow> 'f::field) \<Rightarrow> defs \<Rightarrow> bool" where
  "defs_ok lt types e d \<longleftrightarrow> (\<forall>v i. map_of d v = Some i \<longrightarrow> v \<in> set (get_results i) \<and> consistent lt types e i)"

lemma field_product_ok:
  assumes "defs_ok lt types e d" "field_product d types v = Some (Some (a, b))"
  shows "e v = e a * e b"
proof -
  obtain r t where m: "map_of d v = Some (OpBinaryArithOp BopMul r a b)" "types r = Some t" "strip_witness t = TField"
    using assms(2) unfolding field_product_def
    by (auto split: option.splits opcode.splits binary_arith_op_kind.splits if_splits simp: bind_Some_iff)
  then have "consistent lt types e (OpBinaryArithOp BopMul r a b)" "v = r"
    using assms(1) unfolding defs_ok_def by fastforce+
  then show ?thesis using m by (simp add: consistent_def)
qed

lemma emit_assert_eq_ok:
  assumes "defs_ok lt types e d" "emit_assert_eq d types lhs rhs = Some out"
  shows "(\<forall>i \<in> set out. holds lt e i) \<longleftrightarrow> e lhs = e rhs"
proof -
  obtain l where l: "field_product d types lhs = Some l" using assms(2) by (auto simp: emit_assert_eq_def bind_Some_iff)
  show ?thesis
  proof (cases l)
    case (Some p)
    then show ?thesis
      using assms l field_product_ok [OF assms(1), of lhs "fst p" "snd p"]
      by (cases p) (auto simp: emit_assert_eq_def holds_def)
  next
    case None
    then obtain r where r: "field_product d types rhs = Some r" using assms(2) l by (auto simp: emit_assert_eq_def bind_Some_iff)
    show ?thesis
      using assms l None r field_product_ok [OF assms(1), of rhs "fst (the r)" "snd (the r)"]
      by (cases r) (auto simp: emit_assert_eq_def holds_def)
  qed
qed

lemma emit_assert_ok:
  assumes d: "defs_ok lt types e d"
  shows "emit_assert n d types v = Some out \<Longrightarrow> (\<forall>i \<in> set out. holds lt e i) \<longleftrightarrow> e v \<noteq> 0"
proof (induction n arbitrary: v out)
  case (Suc n)
  show ?case
  proof (cases "map_of d v")
    case (Some i)
    then have i: "v \<in> set (get_results i)" "consistent lt types e i" using d unfolding defs_ok_def by blast+
    have id: "out = [OpAssert v] \<Longrightarrow> ?thesis" by (simp add: holds_def)
    show ?thesis
    proof (cases i)
      case (OpCmp kind r a b)
      show ?thesis
      proof (cases kind)
        case CmpEq
        then show ?thesis using Suc.prems Some OpCmp i emit_assert_eq_ok [OF d, of a b out] by (simp add: consistent_def)
      next
        case CmpLt
        then show ?thesis using Suc.prems Some OpCmp i by (auto simp: consistent_def holds_def)
      qed
    next
      case (OpBinaryArithOp kind r a b)
      show ?thesis
      proof (cases "kind = BopAnd \<and> map_option strip_witness (types r) = Some (TU 1)")
        case True
        then obtain t o1 o2 where "types r = Some t" "strip_witness t = TU 1" "emit_assert n d types a = Some o1"
          "emit_assert n d types b = Some o2" "out = o1 @ o2"
          using Suc.prems Some OpBinaryArithOp by (auto simp: bind_Some_iff)
        then show ?thesis using Suc.IH [of a o1] Suc.IH [of b o2] i OpBinaryArithOp True by (auto simp: consistent_def)
      next
        case False
        then have "out = [OpAssert v]"
          using Suc.prems Some OpBinaryArithOp by (cases kind) (auto simp: bind_Some_iff split: if_splits)
        then show ?thesis by (rule id)
      qed
    qed (use Suc.prems Some id in simp_all)
  qed (use Suc.prems in \<open>auto simp: holds_def\<close>)
qed simp

lemma simplify_instruction_ok:
  assumes "defs_ok lt types e d" "simplify_instruction d types i = Some out"
  shows "(\<forall>j \<in> set out. holds lt e j) \<longleftrightarrow> holds lt e i"
proof (cases i)
  case (OpAssert v)
  then show ?thesis using assms emit_assert_ok by (simp add: simplify_instruction_def holds_def del: emit_assert.simps)
next
  case (OpAssertCmp kind a b)
  show ?thesis
  proof (cases kind)
    case CmpEq
    then have "emit_assert_eq d types a b = Some out" using assms(2) OpAssertCmp by (simp add: simplify_instruction_def)
    then have "(\<forall>j \<in> set out. holds lt e j) \<longleftrightarrow> e a = e b" by (rule emit_assert_eq_ok [OF assms(1)])
    moreover have "holds lt e i \<longleftrightarrow> e a = e b" using OpAssertCmp CmpEq by (simp add: holds_def)
    ultimately show ?thesis by (simp only:)
  qed (use assms(2) OpAssertCmp in \<open>auto simp: simplify_instruction_def\<close>)
qed (use assms in \<open>auto simp: simplify_instruction_def\<close>)

definition defs_from :: "hl_function \<Rightarrow> defs \<Rightarrow> bool" where
  "defs_from f d \<longleftrightarrow> (\<forall>v i. map_of d v = Some i \<longrightarrow> i \<in> function_instructions f \<and> v \<in> set (get_results i))"

lemma defs_from_update:
  assumes "defs_from f d" "i \<in> function_instructions f" "r \<in> set (get_results i)"
  shows "defs_from f (AList.update r i d)"
  unfolding defs_from_def
proof (intro allI impI)
  fix v j assume "map_of (AList.update r i d) v = Some j"
  then have "r = v \<and> i = j \<or> map_of d v = Some j" by (simp add: update_conv' split: if_splits)
  then show "j \<in> function_instructions f \<and> v \<in> set (get_results j)"
    using assms unfolding defs_from_def by (elim disjE conjE) simp_all
qed

lemma defs_from_results:
  "defs_from f d \<Longrightarrow> i \<in> function_instructions f \<Longrightarrow> set rs \<subseteq> set (get_results i) \<Longrightarrow>
    defs_from f (fold (\<lambda>r. AList.update r i) rs d)"
  by (induction rs arbitrary: d) (simp_all add: defs_from_update)

lemma defs_from_block:
  "defs_from f d \<Longrightarrow> set js \<subseteq> function_instructions f \<Longrightarrow>
    defs_from f (fold (\<lambda>i. fold (\<lambda>r. AList.update r i) (get_results i)) js d)"
  by (induction js arbitrary: d) (simp_all add: defs_from_results)

lemma defs_from_blocks:
  "defs_from f d \<Longrightarrow> set bs \<subseteq> set (f_blocks f) \<Longrightarrow>
    defs_from f (fold (\<lambda>(_, block). fold (\<lambda>i. fold (\<lambda>r. AList.update r i) (get_results i)) (b_instructions block)) bs d)"
proof (induction bs arbitrary: d)
  case (Cons x bs)
  obtain b blk where x: "x = (b, blk)" by fastforce
  have "set (b_instructions blk) \<subseteq> function_instructions f" using Cons.prems(2) by (force simp: x function_instructions_def)
  then show ?case using Cons.IH Cons.prems by (simp add: x defs_from_block)
qed simp

lemma collect_defs_ok: "map_of (collect_defs f) v = Some i \<Longrightarrow> i \<in> function_instructions f \<and> v \<in> set (get_results i)"
proof -
  have "defs_from f (collect_defs f)" unfolding collect_defs_def by (rule defs_from_blocks) (simp_all add: defs_from_def)
  then show "map_of (collect_defs f) v = Some i \<Longrightarrow> i \<in> function_instructions f \<and> v \<in> set (get_results i)"
    by (simp add: defs_from_def)
qed

lemma function_instructions_blocks: "function_instructions f = (\<Union>block \<in> snd ` set (f_blocks f). set (b_instructions block))"
  by (force simp: function_instructions_def)

lemma simplify_function_ok:
  assumes "simplify_function types f = Some f'" "\<forall>i \<in> function_instructions f. consistent lt types e i"
  shows "(\<forall>i \<in> function_instructions f'. holds lt e i) \<longleftrightarrow> (\<forall>i \<in> function_instructions f. holds lt e i)"
proof -
  let ?d = "collect_defs f"
  have d: "defs_ok lt types e ?d" using collect_defs_ok [of f] assms(2) unfolding defs_ok_def by blast
  obtain bs where f': "f' = f\<lparr>f_blocks := bs\<rparr>" and bs: "list_all2 (\<lambda>(b, block) (b', block'). b' = b \<and>
      (do { out \<leftarrow> opt_map (simplify_instruction ?d types) (b_instructions block);
            Some (block\<lparr>b_instructions := concat out\<rparr>) }) = Some block') (f_blocks f) bs"
    using assms(1) unfolding simplify_function_def Let_def on_blocks_Some by blast
  have instrs: "list_all2 (\<lambda>i out. simplify_instruction ?d types i = Some out) is out \<Longrightarrow>
      (\<forall>j \<in> set (concat out). holds lt e j) \<longleftrightarrow> (\<forall>i \<in> set is. holds lt e i)" for "is" out
  proof (induction rule: list_all2_induct)
    case (Cons x xs y ys)
    show ?case using simplify_instruction_ok [OF d Cons.hyps(1)] Cons.IH by (auto simp only: concat.simps set_append list.set)
  qed simp
  have "list_all2 (\<lambda>x y. (\<forall>j \<in> set (b_instructions (snd y)). holds lt e j) \<longleftrightarrow>
      (\<forall>i \<in> set (b_instructions (snd x)). holds lt e i)) (f_blocks f) bs"
  proof (rule list_all2_mono [OF bs])
    fix x y
    assume "(\<lambda>(b, block) (b', block'). b' = b \<and>
      (do { out \<leftarrow> opt_map (simplify_instruction ?d types) (b_instructions block);
            Some (block\<lparr>b_instructions := concat out\<rparr>) }) = Some block') x y"
    then obtain out where "opt_map (simplify_instruction ?d types) (b_instructions (snd x)) = Some out"
      "b_instructions (snd y) = concat out"
      by (cases x; cases y) (auto simp: bind_Some_iff)
    then show "(\<forall>j \<in> set (b_instructions (snd y)). holds lt e j) \<longleftrightarrow>
      (\<forall>i \<in> set (b_instructions (snd x)). holds lt e i)"
      using instrs unfolding opt_map_Some_iff by metis
  qed
  then have "(\<forall>y \<in> set bs. \<forall>j \<in> set (b_instructions (snd y)). holds lt e j) \<longleftrightarrow>
      (\<forall>x \<in> set (f_blocks f). \<forall>i \<in> set (b_instructions (snd x)). holds lt e i)"
    by (induction rule: list_all2_induct) auto
  then show ?thesis by (simp add: function_instructions_blocks f')
qed

text \<open>C16. The assertions after the pass say what they said before: for every assignment of field elements to the
  values that agrees with what the instructions of the function compute, all new assertions hold exactly when all
  old ones did. The test of a conjunction becomes the tests of both sides, of a comparison the comparison, of a
  field product a rank-1 constraint.\<close>

theorem simplified_asserts_equivalent:
  assumes "simplify_function types f = Some f'" "\<forall>i \<in> function_instructions f. consistent lt types e i"
  shows "(\<forall>i \<in> function_instructions f'. holds lt e i) \<longleftrightarrow> (\<forall>i \<in> function_instructions f. holds lt e i)"
  by (rule simplify_function_ok [OF assms])

subsection \<open>The recursion ends\<close>

definition conjuncts :: "defs \<Rightarrow> (value_id \<times> value_id) set" where
  "conjuncts d = {(v, a). \<exists>r x y. map_of d v = Some (OpBinaryArithOp BopAnd r x y) \<and> (a = x \<or> a = y)}"

definition types_known :: "defs \<Rightarrow> (value_id \<Rightarrow> ty option) \<Rightarrow> bool" where
  "types_known d types \<longleftrightarrow> (\<forall>v i r. map_of d v = Some i \<longrightarrow> r \<in> set (get_results i) \<longrightarrow> types r \<noteq> None)"

lemma field_product_total: "types_known d types \<Longrightarrow> field_product d types v \<noteq> None"
  unfolding field_product_def types_known_def
  by (auto split: option.split opcode.split binary_arith_op_kind.split) fastforce

lemma emit_assert_eq_total: "types_known d types \<Longrightarrow> emit_assert_eq d types a b \<noteq> None"
  using field_product_total [of d types a] field_product_total [of d types b]
  by (auto simp: emit_assert_eq_def split: option.split)

lemma emit_assert_total:
  assumes t: "types_known d types" and ac: "acyclic (conjuncts d)"
  shows "card {k \<in> fst ` set d. (v, k) \<in> (conjuncts d)\<^sup>*} < n \<Longrightarrow> emit_assert n d types v \<noteq> None"
proof (induction n arbitrary: v)
  case (Suc n)
  let ?S = "\<lambda>v. {k \<in> fst ` set d. (v, k) \<in> (conjuncts d)\<^sup>*}"
  have less: "card (?S a) < n" if m: "map_of d v = Some (OpBinaryArithOp BopAnd r x y)" and a: "a = x \<or> a = y" for a r x y
  proof -
    have va: "(v, a) \<in> conjuncts d" using m a by (auto simp: conjuncts_def)
    then have "?S a \<subseteq> ?S v" by (auto intro: converse_rtrancl_into_rtrancl)
    moreover have "(a, v) \<notin> (conjuncts d)\<^sup>*"
      using ac va by (meson acyclic_def rtrancl_into_trancl2)
    moreover have "v \<in> fst ` set d" using m by (force dest: map_of_SomeD)
    ultimately have "?S a \<subset> ?S v" by blast
    then have "card (?S a) < card (?S v)" by (intro psubset_card_mono) auto
    then show ?thesis using Suc.prems by simp
  qed
  show ?case
  proof (cases "map_of d v")
    case (Some i)
    show ?thesis
    proof (cases i)
      case (OpCmp kind r a b)
      then show ?thesis using Some emit_assert_eq_total [OF t] by (cases kind) auto
    next
      case (OpBinaryArithOp kind r x y)
      show ?thesis
      proof (cases "kind = BopAnd")
        case True
        then have m: "map_of d v = Some (OpBinaryArithOp BopAnd r x y)" using Some OpBinaryArithOp by simp
        then obtain ty where "types r = Some ty" using t unfolding types_known_def by fastforce
        moreover have "emit_assert n d types x \<noteq> None" "emit_assert n d types y \<noteq> None"
          using Suc.IH less [OF m] by blast+
        ultimately show ?thesis using m by auto
      next
        case False
        then show ?thesis using Some OpBinaryArithOp by (cases kind) auto
      qed
    qed (use Some in simp_all)
  qed simp
qed simp

text \<open>C26. When no value is a conjunct of itself and the types are known, following conjunctions ends: the pass
  returns a function.\<close>

theorem simplify_asserts_ends:
  assumes "acyclic (conjuncts (collect_defs f))" "types_known (collect_defs f) types"
  shows "\<exists>f'. simplify_function types f = Some f'"
proof -
  let ?d = "collect_defs f"
  have "card {k \<in> fst ` set ?d. (v, k) \<in> (conjuncts ?d)\<^sup>*} < length ?d + 1" for v
  proof -
    have "card {k \<in> fst ` set ?d. (v, k) \<in> (conjuncts ?d)\<^sup>*} \<le> card (fst ` set ?d)" by (intro card_mono) auto
    also have "\<dots> \<le> length ?d" by (metis card_length length_map set_map)
    finally show ?thesis by simp
  qed
  from emit_assert_total [OF assms(2,1) this]
  have "simplify_instruction ?d types i \<noteq> None" for i
    using emit_assert_eq_total [OF assms(2)]
    by (auto simp: simplify_instruction_def split: opcode.split cmp_kind.split)
  then have all: "opt_map (simplify_instruction ?d types) js \<noteq> None" for js by (auto simp: opt_map_None_iff)
  have "\<exists>b. (do { out \<leftarrow> opt_map (simplify_instruction ?d types) (b_instructions block);
      Some (block\<lparr>b_instructions := concat out\<rparr>) }) = Some b" for block
    using all [of "b_instructions block"] by auto
  then have "opt_map (\<lambda>(b, block). map_option (Pair b) (do {
      out \<leftarrow> opt_map (simplify_instruction ?d types) (b_instructions block);
      Some (block\<lparr>b_instructions := concat out\<rparr>) })) (f_blocks f) \<noteq> None"
    unfolding opt_map_None_iff by (auto split: prod.splits)
  then show ?thesis by (auto simp: simplify_function_def on_blocks_def Let_def)
qed

subsection \<open>An asserted conjunction\<close>

text \<open>\<^verbatim>\<open>assert((a == b) & (a < b)); assert_eq(a * b, c)\<close>: values 0, 1 and 2 are the parameters, 5 is the
  conjunction, 6 the product.\<close>

definition assert_function :: hl_function where
  "assert_function = \<lparr>f_entry_block = 0, f_blocks = [(0, \<lparr>b_parameters = [(0, TField), (1, TField), (2, TField)],
      b_instructions = [OpCmp CmpEq 3 0 1, OpCmp CmpLt 4 0 1, OpBinaryArithOp BopAnd 5 3 4, OpAssert 5,
        OpBinaryArithOp BopMul 6 0 1, OpAssertCmp CmpEq 6 2],
      b_terminator = Some (Return [])\<rparr>)],
    f_name = ''main'', f_returns = [], f_next_block = 1\<rparr>"

definition assert_types :: "value_id \<Rightarrow> ty option" where
  "assert_types = map_of ([(i, TField). i \<leftarrow> [0, 1, 2, 6]] @ [(i, TU 1). i \<leftarrow> [3, 4, 5]])"

definition split_function :: hl_function where
  "split_function = assert_function\<lparr>f_blocks := [(0, \<lparr>b_parameters = [(0, TField), (1, TField), (2, TField)],
      b_instructions = [OpCmp CmpEq 3 0 1, OpCmp CmpLt 4 0 1, OpBinaryArithOp BopAnd 5 3 4,
        OpAssertCmp CmpEq 0 1, OpAssertCmp CmpLt 0 1, OpBinaryArithOp BopMul 6 0 1, OpAssertR1C 0 1 2],
      b_terminator = Some (Return [])\<rparr>)]\<rparr>"

lemma assert_defs: "collect_defs assert_function =
    [(3, OpCmp CmpEq 3 0 1), (4, OpCmp CmpLt 4 0 1), (5, OpBinaryArithOp BopAnd 5 3 4), (6, OpBinaryArithOp BopMul 6 0 1)]"
  by (simp add: collect_defs_def assert_function_def)

lemma assert_function_split: "simplify_function assert_types assert_function = Some split_function"
  unfolding simplify_function_def Let_def assert_defs
  by (simp add: on_blocks_def assert_function_def split_function_def simplify_instruction_def emit_assert_eq_def
    field_product_def assert_types_def eval_nat_numeral)

lemma simplified_asserts_equivalent_witness:
  "\<not> (\<forall>i \<in> function_instructions split_function. holds (\<lambda>_ _. False)
    (\<lambda>v. if v = 2 then 6 else if v = 3 \<or> v = 4 \<or> v = 5 then 0 else if v = 6 then 6 else if v = 0 then 2 else 3 :: rat) i)"
  (is "\<not> (\<forall>i \<in> _. holds ?lt ?e i)")
proof -
  have "\<forall>i \<in> function_instructions assert_function. consistent ?lt assert_types ?e i"
    by (simp add: function_instructions_def assert_function_def consistent_def assert_types_def)
  note simplified_asserts_equivalent [OF assert_function_split this]
  then show ?thesis by (simp add: function_instructions_def assert_function_def holds_def)
qed

lemma simplify_asserts_ends_witness: "\<exists>f'. simplify_function assert_types assert_function = Some f'"
proof (rule simplify_asserts_ends)
  have "conjuncts (collect_defs assert_function) \<subseteq> {(5, 3), (5, 4)}"
    by (auto simp: conjuncts_def assert_defs split: if_splits)
  moreover have "acyclic {(5 :: value_id, 3), (5, 4)}"
    by (rule acyclicI_order [where f = "\<lambda>v. v"]) auto
  ultimately show "acyclic (conjuncts (collect_defs assert_function))" by (rule acyclic_subset [rotated])
  show "types_known (collect_defs assert_function) assert_types"
    by (auto simp: types_known_def assert_defs assert_types_def split: if_splits)
qed

end
