(* ===== verification/HL_Builder.thy ===== *)
theory HL_Builder
  imports HL_Opcodes "HOL-Library.State_Monad"
begin

text \<open>
  Emitting instructions (\<^verbatim>\<open>compiler/src/compiler/ssa/hlssa/builder.rs\<close>, \<^verbatim>\<open>ssa/builder.rs\<close>): an emitter
  is a program, for fresh values and interned constants, and the instructions emitted so far. The trait's
  methods are actions of the state monad; a lowering is an action, and what it proves is stated about the
  instructions it appends.
\<close>

subsection \<open>Emitters\<close>

record 'f emitter =
  em_ssa :: "'f hlssa"
  em_out :: "opcode list"

type_synonym ('f, 'a) emits = "('f emitter, 'a) state"

abbreviation return :: "'a \<Rightarrow> ('s, 'a) state" where
  "return \<equiv> State_Monad.return"

definition em_fresh :: "('f, value_id) emits" where
  "em_fresh = State (\<lambda>e. let (v, s) = fresh_value (em_ssa e) in (v, e\<lparr>em_ssa := s\<rparr>))"

definition em_emit :: "opcode \<Rightarrow> ('f, unit) emits" where
  "em_emit i = State (\<lambda>e. ((), e\<lparr>em_out := em_out e @ [i]\<rparr>))"

definition em_constant :: "'f hl_constant \<Rightarrow> ('f, value_id) emits" where
  "em_constant c = State (\<lambda>e. let (v, s) = add_const c (em_ssa e) in (v, e\<lparr>em_ssa := s\<rparr>))"

subsection \<open>Instructions with one result\<close>

definition em_add :: "value_id \<Rightarrow> value_id \<Rightarrow> ('f, value_id) emits" where
  "em_add lhs rhs = do { r \<leftarrow> em_fresh; em_emit (OpBinaryArithOp BopAdd r lhs rhs); return r }"

definition em_sub :: "value_id \<Rightarrow> value_id \<Rightarrow> ('f, value_id) emits" where
  "em_sub lhs rhs = do { r \<leftarrow> em_fresh; em_emit (OpBinaryArithOp BopSub r lhs rhs); return r }"

definition em_mul :: "value_id \<Rightarrow> value_id \<Rightarrow> ('f, value_id) emits" where
  "em_mul lhs rhs = do { r \<leftarrow> em_fresh; em_emit (OpBinaryArithOp BopMul r lhs rhs); return r }"

definition em_div :: "value_id \<Rightarrow> value_id \<Rightarrow> ('f, value_id) emits" where
  "em_div lhs rhs = do { r \<leftarrow> em_fresh; em_emit (OpBinaryArithOp BopDiv r lhs rhs); return r }"

definition em_modulo :: "value_id \<Rightarrow> value_id \<Rightarrow> ('f, value_id) emits" where
  "em_modulo lhs rhs = do { r \<leftarrow> em_fresh; em_emit (OpBinaryArithOp BopMod r lhs rhs); return r }"

definition em_and :: "value_id \<Rightarrow> value_id \<Rightarrow> ('f, value_id) emits" where
  "em_and lhs rhs = do { r \<leftarrow> em_fresh; em_emit (OpBinaryArithOp BopAnd r lhs rhs); return r }"

definition em_or :: "value_id \<Rightarrow> value_id \<Rightarrow> ('f, value_id) emits" where
  "em_or lhs rhs = do { r \<leftarrow> em_fresh; em_emit (OpBinaryArithOp BopOr r lhs rhs); return r }"

definition em_xor :: "value_id \<Rightarrow> value_id \<Rightarrow> ('f, value_id) emits" where
  "em_xor lhs rhs = do { r \<leftarrow> em_fresh; em_emit (OpBinaryArithOp BopXor r lhs rhs); return r }"

definition em_shl :: "value_id \<Rightarrow> value_id \<Rightarrow> ('f, value_id) emits" where
  "em_shl lhs rhs = do { r \<leftarrow> em_fresh; em_emit (OpBinaryArithOp BopShl r lhs rhs); return r }"

definition em_shr :: "value_id \<Rightarrow> value_id \<Rightarrow> ('f, value_id) emits" where
  "em_shr lhs rhs = do { r \<leftarrow> em_fresh; em_emit (OpBinaryArithOp BopShr r lhs rhs); return r }"

definition em_not :: "value_id \<Rightarrow> ('f, value_id) emits" where
  "em_not v = do { r \<leftarrow> em_fresh; em_emit (OpNot r v); return r }"

definition em_cmp :: "value_id \<Rightarrow> value_id \<Rightarrow> cmp_kind \<Rightarrow> ('f, value_id) emits" where
  "em_cmp lhs rhs kind = do { r \<leftarrow> em_fresh; em_emit (OpCmp kind r lhs rhs); return r }"

definition em_eq :: "value_id \<Rightarrow> value_id \<Rightarrow> ('f, value_id) emits" where
  "em_eq lhs rhs = do { r \<leftarrow> em_fresh; em_emit (OpCmp CmpEq r lhs rhs); return r }"

definition em_lt :: "value_id \<Rightarrow> value_id \<Rightarrow> ('f, value_id) emits" where
  "em_lt lhs rhs = do { r \<leftarrow> em_fresh; em_emit (OpCmp CmpLt r lhs rhs); return r }"

definition em_cast_to_field :: "value_id \<Rightarrow> ('f, value_id) emits" where
  "em_cast_to_field v = do { r \<leftarrow> em_fresh; em_emit (OpCast r v CastField); return r }"

definition em_ensure_field :: "value_id \<Rightarrow> ty \<Rightarrow> ('f, value_id) emits" where
  "em_ensure_field v t = (if is_field (strip_witness t) then return v else em_cast_to_field v)"

definition em_cast_to :: "cast_target \<Rightarrow> value_id \<Rightarrow> ('f, value_id) emits" where
  "em_cast_to target v = do { r \<leftarrow> em_fresh; em_emit (OpCast r v target); return r }"

definition em_cast_to_witness_of :: "value_id \<Rightarrow> ('f, value_id) emits" where
  "em_cast_to_witness_of v = do { r \<leftarrow> em_fresh; em_emit (OpCast r v CastWitnessOf); return r }"

definition em_sext :: "value_id \<Rightarrow> nat \<Rightarrow> nat \<Rightarrow> ('f, value_id) emits" where
  "em_sext v from_bits to_bits = do { r \<leftarrow> em_fresh; em_emit (OpSExt r v from_bits to_bits); return r }"

definition em_bit_range :: "value_id \<Rightarrow> nat \<Rightarrow> nat \<Rightarrow> ('f, value_id) emits" where
  "em_bit_range v offset width = do { r \<leftarrow> em_fresh; em_emit (OpBitRange r v offset width); return r }"

definition em_field_const :: "'f \<Rightarrow> ('f, value_id) emits" where
  "em_field_const x = em_constant (ConstField x)"

definition em_u_const :: "nat \<Rightarrow> u128 \<Rightarrow> ('f, value_id) emits" where
  "em_u_const bits x = em_constant (ConstU bits x)"

definition em_i_const :: "nat \<Rightarrow> u128 \<Rightarrow> ('f, value_id) emits" where
  "em_i_const bits x = em_constant (ConstI bits x)"

definition em_value_of :: "value_id \<Rightarrow> ('f, value_id) emits" where
  "em_value_of v = do { r \<leftarrow> em_fresh; em_emit (OpValueOf r v); return r }"

definition em_write_witness :: "value_id \<Rightarrow> ('f, value_id) emits" where
  "em_write_witness v = do { r \<leftarrow> em_fresh; em_emit (OpWriteWitness (Some r) v False); return r }"

definition em_pinned_write_witness :: "value_id \<Rightarrow> ('f, value_id) emits" where
  "em_pinned_write_witness v = do { r \<leftarrow> em_fresh; em_emit (OpWriteWitness (Some r) v True); return r }"

definition em_array_get :: "value_id \<Rightarrow> value_id \<Rightarrow> ('f, value_id) emits" where
  "em_array_get array index = do { r \<leftarrow> em_fresh; em_emit (OpArrayGet r array index); return r }"

definition em_array_set :: "value_id \<Rightarrow> value_id \<Rightarrow> value_id \<Rightarrow> ('f, value_id) emits" where
  "em_array_set array index v = do { r \<leftarrow> em_fresh; em_emit (OpArraySet r array index v); return r }"

definition em_tuple_proj :: "value_id \<Rightarrow> nat \<Rightarrow> ('f, value_id) emits" where
  "em_tuple_proj tuple idx = do { r \<leftarrow> em_fresh; em_emit (OpTupleProj r tuple idx); return r }"

definition em_mk_tuple :: "value_id list \<Rightarrow> ty list \<Rightarrow> ('f, value_id) emits" where
  "em_mk_tuple elems ts = do { r \<leftarrow> em_fresh; em_emit (OpMkTuple r elems ts); return r }"

definition em_mk_seq :: "value_id list \<Rightarrow> sequence_target_type \<Rightarrow> ty \<Rightarrow> ('f, value_id) emits" where
  "em_mk_seq elems st t = do { r \<leftarrow> em_fresh; em_emit (OpMkSeq r elems st t); return r }"

definition em_mk_repeated :: "value_id \<Rightarrow> sequence_target_type \<Rightarrow> nat \<Rightarrow> ty \<Rightarrow> ('f, value_id) emits" where
  "em_mk_repeated element st n t = do { r \<leftarrow> em_fresh; em_emit (OpMkRepeated r element st n t); return r }"

definition em_select :: "value_id \<Rightarrow> value_id \<Rightarrow> value_id \<Rightarrow> ('f, value_id) emits" where
  "em_select cond if_t if_f = do { r \<leftarrow> em_fresh; em_emit (OpSelect r cond if_t if_f); return r }"

definition em_load :: "value_id \<Rightarrow> ('f, value_id) emits" where
  "em_load ptr = do { r \<leftarrow> em_fresh; em_emit (OpLoad r ptr); return r }"

definition em_alloc :: "ty \<Rightarrow> ('f, value_id) emits" where
  "em_alloc t = do { r \<leftarrow> em_fresh; em_emit (OpAlloc r t); return r }"

definition em_slice_push :: "value_id \<Rightarrow> value_id list \<Rightarrow> slice_op_dir \<Rightarrow> ('f, value_id) emits" where
  "em_slice_push slc values dir = do { r \<leftarrow> em_fresh; em_emit (OpSlicePush dir r slc values); return r }"

definition em_slice_len :: "value_id \<Rightarrow> ('f, value_id) emits" where
  "em_slice_len slc = do { r \<leftarrow> em_fresh; em_emit (OpSliceLen r slc); return r }"

definition em_to_bits :: "value_id \<Rightarrow> endianness \<Rightarrow> nat \<Rightarrow> ('f, value_id) emits" where
  "em_to_bits v endianness n = do { r \<leftarrow> em_fresh; em_emit (OpToBits r v endianness n); return r }"

definition em_to_radix :: "value_id \<Rightarrow> value_id radix \<Rightarrow> endianness \<Rightarrow> nat \<Rightarrow> ('f, value_id) emits" where
  "em_to_radix v radix endianness n = do { r \<leftarrow> em_fresh; em_emit (OpToRadix r v radix endianness n); return r }"

definition em_spread :: "value_id \<Rightarrow> nat \<Rightarrow> ('f, value_id) emits" where
  "em_spread v bits = do { r \<leftarrow> em_fresh; em_emit (OpSpread r v bits); return r }"

definition em_unspread :: "value_id \<Rightarrow> nat \<Rightarrow> ('f, value_id \<times> value_id) emits" where
  "em_unspread v bits = do {
     r_and \<leftarrow> em_fresh;
     r_xor \<leftarrow> em_fresh;
     em_emit (OpUnspread r_and r_xor v bits);
     return (r_and, r_xor) }"

definition em_read_global :: "nat \<Rightarrow> ty \<Rightarrow> ('f, value_id) emits" where
  "em_read_global index t = do { r \<leftarrow> em_fresh; em_emit (OpReadGlobal r index t); return r }"

subsection \<open>Instructions without a result\<close>

definition em_constrain :: "value_id \<Rightarrow> value_id \<Rightarrow> value_id \<Rightarrow> ('f, unit) emits" where
  "em_constrain a b c = em_emit (OpConstrain a b c)"

definition em_store :: "value_id \<Rightarrow> value_id \<Rightarrow> ('f, unit) emits" where
  "em_store ptr v = em_emit (OpStore ptr v)"

definition em_assert_bool :: "value_id \<Rightarrow> ('f, unit) emits" where
  "em_assert_bool v = em_emit (OpAssert v)"

definition em_assert_cmp :: "cmp_kind \<Rightarrow> value_id \<Rightarrow> value_id \<Rightarrow> ('f, unit) emits" where
  "em_assert_cmp kind lhs rhs = em_emit (OpAssertCmp kind lhs rhs)"

definition em_assert_eq :: "value_id \<Rightarrow> value_id \<Rightarrow> ('f, unit) emits" where
  "em_assert_eq lhs rhs = em_emit (OpAssertCmp CmpEq lhs rhs)"

definition em_rangecheck :: "value_id \<Rightarrow> nat \<Rightarrow> ('f, unit) emits" where
  "em_rangecheck v max_bits = em_emit (OpRangecheck v max_bits)"

definition em_mem_op :: "value_id \<Rightarrow> ref_count_op \<Rightarrow> ('f, unit) emits" where
  "em_mem_op v kind = em_emit (OpMemOp kind v)"

definition em_lookup_spread :: "nat \<Rightarrow> value_id \<Rightarrow> value_id \<Rightarrow> value_id \<Rightarrow> ('f, unit) emits" where
  "em_lookup_spread bits key result flag = em_emit (OpLookup (LtSpread bits) [key, result] flag)"

definition em_lookup_rngchk :: "value_id lookup_target \<Rightarrow> value_id \<Rightarrow> value_id \<Rightarrow> ('f, unit) emits" where
  "em_lookup_rngchk target v flag = em_emit (OpLookup target [v] flag)"

definition em_lookup_rngchk_8 :: "value_id \<Rightarrow> value_id \<Rightarrow> ('f, unit) emits" where
  "em_lookup_rngchk_8 v flag = em_emit (OpLookup (LtRangecheck 8) [v] flag)"

definition em_lookup_arr :: "value_id \<Rightarrow> value_id \<Rightarrow> value_id \<Rightarrow> value_id \<Rightarrow> ('f, unit) emits" where
  "em_lookup_arr array index result flag = em_emit (OpLookup (LtArray array) [index, result] flag)"

definition em_init_global :: "nat \<Rightarrow> value_id \<Rightarrow> ('f, unit) emits" where
  "em_init_global global v = em_emit (OpInitGlobal global v)"

definition em_drop_global :: "nat \<Rightarrow> ('f, unit) emits" where
  "em_drop_global global = em_emit (OpDropGlobal global)"

definition em_todo_op :: "string \<Rightarrow> value_id list \<Rightarrow> ty list \<Rightarrow> ('f, unit) emits" where
  "em_todo_op payload results ts = em_emit (OpTodo payload results ts)"

subsection \<open>Calls\<close>

primrec em_fresh_values :: "nat \<Rightarrow> ('f, value_id list) emits" where
  "em_fresh_values 0 = return []"
| "em_fresh_values (Suc n) = do { v \<leftarrow> em_fresh; vs \<leftarrow> em_fresh_values n; return (v # vs) }"

definition em_call :: "function_id \<Rightarrow> value_id list \<Rightarrow> nat \<Rightarrow> ('f, value_id list) emits" where
  "em_call fid args n = do {
     results \<leftarrow> em_fresh_values n; em_emit (OpCall results (CallStatic fid) args False); return results }"

definition em_call_unconstrained :: "function_id \<Rightarrow> value_id list \<Rightarrow> nat \<Rightarrow> ('f, value_id list) emits" where
  "em_call_unconstrained fid args n = do {
     results \<leftarrow> em_fresh_values n; em_emit (OpCall results (CallStatic fid) args True); return results }"

definition em_call_indirect :: "value_id \<Rightarrow> value_id list \<Rightarrow> nat \<Rightarrow> ('f, value_id list) emits" where
  "em_call_indirect fn_ptr args n = do {
     results \<leftarrow> em_fresh_values n; em_emit (OpCall results (CallDynamic fn_ptr) args False); return results }"

end
