(* ===== verification/Types_Analysis.thy ===== *)
theory Types_Analysis
  imports Flow_Analysis Complex_Main
begin

text \<open>
  The types of the values of a function (\<^verbatim>\<open>compiler/src/compiler/analysis/types.rs\<close>): one pass over the
  blocks in dominator pre-order that assigns a type to every result. An error of an opcode is a panic of
  the pass, so both are \<open>None\<close>. What the development shows is that in a function that defines every value
  once, the final assignment obeys the typing rule of every instruction it visited; the rules are an inductive
  relation of their own, stated without the functions of the pass.
\<close>

subsection \<open>The pass\<close>

type_synonym value_types = "value_id \<Rightarrow> ty option"
type_synonym function_types = "function_id \<Rightarrow> (ty list \<times> ty list) option"

fun const_value_type :: "'f hl_constant \<Rightarrow> ty" where
  "const_value_type (ConstU n _) = TU n"
| "const_value_type (ConstI n _) = TI n"
| "const_value_type (ConstField _) = TField"
| "const_value_type (ConstFnPtr _) = TFunction"

fun push_witness_of_to_leaves :: "ty \<Rightarrow> ty option" where
  "push_witness_of_to_leaves (TWitnessOf inner) = Some (TWitnessOf inner)"
| "push_witness_of_to_leaves (TArray inner n) = map_option (\<lambda>t. TArray t n) (push_witness_of_to_leaves inner)"
| "push_witness_of_to_leaves (TSlice inner) = map_option TSlice (push_witness_of_to_leaves inner)"
| "push_witness_of_to_leaves (TTuple elements) = map_option TTuple (opt_map push_witness_of_to_leaves elements)"
| "push_witness_of_to_leaves t = witness_of t"

fun spread_result_type :: "ty \<Rightarrow> ty option" where
  "spread_result_type (TWitnessOf inner) = Option.bind (spread_result_type inner) witness_of"
| "spread_result_type (TU bits) = (if bits > 128 then None else Some (TU (bits * 2)))"
| "spread_result_type (TI bits) = (if bits > 128 then None else Some (TI (bits * 2)))"
| "spread_result_type _ = None"

fun unspread_result_types :: "ty \<Rightarrow> (ty \<times> ty) option" where
  "unspread_result_types (TWitnessOf inner) = do {
     (odd, even) \<leftarrow> unspread_result_types inner;
     odd \<leftarrow> witness_of odd;
     even \<leftarrow> witness_of even;
     Some (odd, even) }"
| "unspread_result_types (TU bits) =
     (if bits mod 2 \<noteq> 0 \<or> bits div 2 > 64 then None else Some (TU (bits div 2), TU (bits div 2)))"
| "unspread_result_types (TI bits) =
     (if bits mod 2 \<noteq> 0 \<or> bits div 2 > 64 then None else Some (TI (bits div 2), TI (bits div 2)))"
| "unspread_result_types _ = None"

text \<open>The wrapper that a result inherits from an operand.\<close>

definition witness_like :: "ty \<Rightarrow> ty \<Rightarrow> ty option" where
  "witness_like value t = (if is_witness_of value then witness_of t else Some t)"

fun cast_result_type :: "ty \<Rightarrow> cast_target \<Rightarrow> ty option" where
  "cast_result_type value CastField = witness_like value TField"
| "cast_result_type value (CastU n) = witness_like value (TU n)"
| "cast_result_type value (CastI n) = witness_like value (TI n)"
| "cast_result_type value CastNop = Some value"
| "cast_result_type value CastArrayToSlice = (case value of TArray elem _ \<Rightarrow> Some (TSlice elem) | _ \<Rightarrow> None)"
| "cast_result_type value CastWitnessOf = witness_of value"

definition sext_result_type :: "ty \<Rightarrow> nat \<Rightarrow> ty option" where
  "sext_result_type value to_bits = (case strip_witness value of
     TI _ \<Rightarrow> witness_like value (TI to_bits)
   | TU _ \<Rightarrow> witness_like value (TU to_bits)
   | _ \<Rightarrow> None)"

definition array_set_result_type :: "ty \<Rightarrow> ty \<Rightarrow> ty option" where
  "array_set_result_type array value = do {
     elem \<leftarrow> get_array_element array;
     Some (if is_witness_of value \<and> \<not> is_witness_of elem
       then (case array of TArray _ n \<Rightarrow> TArray value n | TSlice _ \<Rightarrow> TSlice value | _ \<Rightarrow> array)
       else array) }"

definition select_result_type :: "ty \<Rightarrow> ty \<Rightarrow> ty \<Rightarrow> ty option" where
  "select_result_type cond if_t if_f = do {
     alt \<leftarrow> get_arithmetic_result_type if_t if_f;
     if is_witness_of cond \<and> \<not> is_witness_of alt then witness_of alt else Some alt }"

primrec run_opcode :: "opcode \<Rightarrow> function_types \<Rightarrow> value_types \<Rightarrow> value_types option" where
  "run_opcode (OpCmp _ result lhs rhs) ft m = do {
     l \<leftarrow> m lhs; r \<leftarrow> m rhs;
     Some (m(result \<mapsto> if is_witness_of l \<or> is_witness_of r then TWitnessOf (TU 1) else TU 1)) }"
| "run_opcode (OpBinaryArithOp _ result lhs rhs) ft m = do {
     l \<leftarrow> m lhs; r \<leftarrow> m rhs;
     t \<leftarrow> get_arithmetic_result_type l r;
     Some (m(result \<mapsto> t)) }"
| "run_opcode (OpCast result value target) ft m = do {
     v \<leftarrow> m value; t \<leftarrow> cast_result_type v target; Some (m(result \<mapsto> t)) }"
| "run_opcode (OpSExt result value _ to_bits) ft m = do {
     v \<leftarrow> m value; t \<leftarrow> sext_result_type v to_bits; Some (m(result \<mapsto> t)) }"
| "run_opcode (OpBitRange result value offset width) ft m = do {
     ensure (width \<noteq> 0);
     v \<leftarrow> m value;
     bits \<leftarrow> get_bit_size v;
     ensure (offset + width \<le> bits);
     Some (m(result \<mapsto> v)) }"
| "run_opcode (OpNot result value) ft m = do { v \<leftarrow> m value; Some (m(result \<mapsto> v)) }"
| "run_opcode (OpMkSeq result _ st t) ft m = do { t \<leftarrow> sequence_of st t; Some (m(result \<mapsto> t)) }"
| "run_opcode (OpMkRepeated result _ st _ t) ft m = do { t \<leftarrow> sequence_of st t; Some (m(result \<mapsto> t)) }"
| "run_opcode (OpAlloc result t) ft m = Some (m(result \<mapsto> TRef t))"
| "run_opcode (OpStore _ _) ft m = Some m"
| "run_opcode (OpLoad result ptr) ft m = do {
     p \<leftarrow> m ptr; ensure (is_ref p); t \<leftarrow> get_refered p; Some (m(result \<mapsto> t)) }"
| "run_opcode (OpAssert _) ft m = Some m"
| "run_opcode (OpAssertCmp _ _ _) ft m = Some m"
| "run_opcode (OpAssertR1C _ _ _) ft m = Some m"
| "run_opcode (OpCall results target args _) ft m = (case target of
     CallStatic fid \<Rightarrow> do {
       (params, returns) \<leftarrow> ft fid;
       ensure (length args = length params);
       ensure (length results = length returns);
       Some (m(results [\<mapsto>] returns)) }
   | CallDynamic _ \<Rightarrow> None)"
| "run_opcode (OpArrayGet result array index) ft m = do {
     a \<leftarrow> m array; i \<leftarrow> m index;
     elem \<leftarrow> get_array_element a;
     t \<leftarrow> (if is_witness_of i then push_witness_of_to_leaves elem else Some elem);
     Some (m(result \<mapsto> t)) }"
| "run_opcode (OpArraySet result array _ value) ft m = do {
     a \<leftarrow> m array; v \<leftarrow> m value;
     t \<leftarrow> array_set_result_type a v;
     Some (m(result \<mapsto> t)) }"
| "run_opcode (OpSlicePush _ result slc _) ft m = do { t \<leftarrow> m slc; Some (m(result \<mapsto> t)) }"
| "run_opcode (OpSliceLen result _) ft m = Some (m(result \<mapsto> TU 32))"
| "run_opcode (OpSelect result cond if_t if_f) ft m = do {
     c \<leftarrow> m cond; t \<leftarrow> m if_t; f \<leftarrow> m if_f;
     t \<leftarrow> select_result_type c t f;
     Some (m(result \<mapsto> t)) }"
| "run_opcode (OpToBits result value _ n) ft m = do {
     v \<leftarrow> m value; t \<leftarrow> witness_like v (TU 1); Some (m(result \<mapsto> TArray t n)) }"
| "run_opcode (OpToRadix result value _ _ n) ft m = do {
     v \<leftarrow> m value; t \<leftarrow> witness_like v (TU 8); Some (m(result \<mapsto> TArray t n)) }"
| "run_opcode (OpMemOp _ _) ft m = Some m"
| "run_opcode (OpValueOf result value) ft m = do {
     v \<leftarrow> m value; t \<leftarrow> unwrap_witness_of v; Some (m(result \<mapsto> t)) }"
| "run_opcode (OpWriteWitness result value _) ft m = (case result of
     None \<Rightarrow> Some m
   | Some r \<Rightarrow> do { v \<leftarrow> m value; t \<leftarrow> witness_of v; Some (m(r \<mapsto> t)) })"
| "run_opcode (OpFreshWitness result t) ft m = do { t \<leftarrow> witness_of t; Some (m(result \<mapsto> t)) }"
| "run_opcode (OpNextDCoeff result) ft m = Some (m(result \<mapsto> TField))"
| "run_opcode (OpBumpD _ _ _) ft m = Some m"
| "run_opcode (OpConstrain _ _ _) ft m = Some m"
| "run_opcode (OpLookup _ _ _) ft m = Some m"
| "run_opcode (OpDLookup _ _ _) ft m = Some m"
| "run_opcode (OpMulConst result _ var) ft m = do { t \<leftarrow> m var; Some (m(result \<mapsto> t)) }"
| "run_opcode (OpRangecheck value _) ft m = do {
     v \<leftarrow> m value; ensure (is_field (strip_witness v)); Some m }"
| "run_opcode (OpReadGlobal result _ t) ft m = Some (m(result \<mapsto> t))"
| "run_opcode (OpTupleProj result tuple idx) ft m = do {
     v \<leftarrow> m tuple; t \<leftarrow> get_tuple_element v idx; Some (m(result \<mapsto> t)) }"
| "run_opcode (OpMkTuple result _ ts) ft m = Some (m(result \<mapsto> TTuple ts))"
| "run_opcode (OpTodo _ results ts) ft m = do {
     ensure (length results = length ts); Some (m(results [\<mapsto>] ts)) }"
| "run_opcode (OpInitGlobal _ _) ft m = Some m"
| "run_opcode (OpDropGlobal _) ft m = Some m"
| "run_opcode (OpSpread result value _) ft m = do {
     v \<leftarrow> m value; t \<leftarrow> spread_result_type v; Some (m(result \<mapsto> t)) }"
| "run_opcode (OpUnspread result_odd result_even value _) ft m = do {
     v \<leftarrow> m value; (odd, even) \<leftarrow> unspread_result_types v;
     Some (m(result_odd \<mapsto> odd, result_even \<mapsto> even)) }"
| "run_opcode (OpGuard _ inner) ft m = run_opcode inner ft m"

text \<open>\<^verbatim>\<open>Types::run_function\<close> walks the blocks in dominator pre-order.\<close>

definition types_block :: "hl_function \<Rightarrow> function_types \<Rightarrow> block_id \<Rightarrow> value_types \<Rightarrow> value_types option" where
  "types_block f ft b m = do {
     block \<leftarrow> get_block b f;
     let m = fold (\<lambda>(v, t) m. m(v \<mapsto> t)) (b_parameters block) m;
     opt_fold (\<lambda>i m. run_opcode i ft m) (b_instructions block) m }"

definition types_run_function ::
  "hl_function \<Rightarrow> function_types \<Rightarrow> value_types \<Rightarrow> cfg \<Rightarrow> value_types option" where
  "types_run_function f ft constant_types c =
     opt_fold (types_block f ft) (get_domination_pre_order c) constant_types"

definition function_types_of :: "'f hlssa \<Rightarrow> (function_id \<times> ty list \<times> ty list) list option" where
  "function_types_of s = opt_map (\<lambda>(fid, f). do {
     params \<leftarrow> get_param_types f;
     Some (fid, params, f_returns f) }) (s_functions s)"

definition constant_types :: "'f hlssa \<Rightarrow> value_types" where
  "constant_types s v = map_option const_value_type (map_of (s_constants s) v)"

definition types_run :: "'f hlssa \<Rightarrow> flow_analysis \<Rightarrow> (function_id \<times> value_types) list option" where
  "types_run s fa = do {
     ft \<leftarrow> function_types_of s;
     opt_map (\<lambda>(fid, f). do {
       c \<leftarrow> get_function_cfg fa fid;
       m \<leftarrow> types_run_function f (map_of ft) (constant_types s) c;
       Some (fid, m) }) (s_functions s) }"

subsection \<open>Typing rules\<close>

text \<open>The rules of the type system as relations. A type is that of a witness or of a plain value; a result is a witness
  when an operand that decides it is one.\<close>

definition wrapped :: "bool \<Rightarrow> ty \<Rightarrow> ty" where
  "wrapped w t = (if w then TWitnessOf t else t)"

inductive arith_type :: "ty \<Rightarrow> ty \<Rightarrow> ty \<Rightarrow> bool" where
  unsigned: "arith_type (TU n) (TU k) (TU (max n k))"
| signed: "arith_type (TI n) (TI k) (TI (max n k))"
| field_left: "\<not> is_witness_of b \<Longrightarrow> arith_type TField b TField"
| field_right: "\<not> is_witness_of a \<Longrightarrow> arith_type a TField TField"
| witnesses: "arith_type a b t \<Longrightarrow> \<not> is_witness_of t \<Longrightarrow> arith_type (TWitnessOf a) (TWitnessOf b) (TWitnessOf t)"
| witness_left: "arith_type a b t \<Longrightarrow> \<not> is_witness_of b \<Longrightarrow> \<not> is_witness_of t \<Longrightarrow> arith_type (TWitnessOf a) b (TWitnessOf t)"
| witness_right: "arith_type a b t \<Longrightarrow> \<not> is_witness_of a \<Longrightarrow> \<not> is_witness_of t \<Longrightarrow> arith_type a (TWitnessOf b) (TWitnessOf t)"

inductive cast_type :: "cast_target \<Rightarrow> ty \<Rightarrow> ty \<Rightarrow> bool" where
  "cast_type CastField t (wrapped (is_witness_of t) TField)"
| "cast_type (CastU n) t (wrapped (is_witness_of t) (TU n))"
| "cast_type (CastI n) t (wrapped (is_witness_of t) (TI n))"
| "cast_type CastNop t t"
| "cast_type CastArrayToSlice (TArray e n) (TSlice e)"
| "\<not> is_witness_of t \<Longrightarrow> cast_type CastWitnessOf t (TWitnessOf t)"

inductive bits_of_type :: "ty \<Rightarrow> nat \<Rightarrow> bool" where
  "bits_of_type (TU n) n"
| "bits_of_type (TI n) n"
| "bits_of_type TField 254"
| "bits_of_type t n \<Longrightarrow> bits_of_type (TWitnessOf t) n"

text \<open>Elements of arrays, slices and tuples; those of a witness are witnesses.\<close>

inductive element_type :: "ty \<Rightarrow> ty \<Rightarrow> bool" where
  "element_type (TArray e n) e"
| "element_type (TSlice e) e"
| "element_type a e \<Longrightarrow> \<not> is_witness_of e \<Longrightarrow> element_type (TWitnessOf a) (TWitnessOf e)"

inductive component_type :: "ty \<Rightarrow> nat \<Rightarrow> ty \<Rightarrow> bool" where
  "k < length ts \<Longrightarrow> component_type (TTuple ts) k (ts ! k)"
| "component_type a k e \<Longrightarrow> \<not> is_witness_of e \<Longrightarrow> component_type (TWitnessOf a) k (TWitnessOf e)"

text \<open>What an index that is a witness selects has witnesses at the leaves.\<close>

inductive leaves_witness :: "ty \<Rightarrow> ty \<Rightarrow> bool" where
  "leaves_witness (TWitnessOf t) (TWitnessOf t)"
| "leaves_witness t u \<Longrightarrow> leaves_witness (TArray t n) (TArray u n)"
| "leaves_witness t u \<Longrightarrow> leaves_witness (TSlice t) (TSlice u)"
| "list_all2 leaves_witness ts us \<Longrightarrow> leaves_witness (TTuple ts) (TTuple us)"
| "t \<in> {TField, TFunction} \<union> range TU \<union> range TI \<union> range TRef \<Longrightarrow> leaves_witness t (TWitnessOf t)"

text \<open>Writing a witness into an array of plain elements makes it an array of witnesses.\<close>

inductive written_type :: "ty \<Rightarrow> ty \<Rightarrow> ty \<Rightarrow> bool" where
  kept: "element_type a e \<Longrightarrow> is_witness_of v \<longrightarrow> is_witness_of e \<Longrightarrow> written_type a v a"
| array: "\<not> is_witness_of e \<Longrightarrow> written_type (TArray e n) (TWitnessOf v) (TArray (TWitnessOf v) n)"
| slice: "\<not> is_witness_of e \<Longrightarrow> written_type (TSlice e) (TWitnessOf v) (TSlice (TWitnessOf v))"

text \<open>Spreading doubles the bits, unspreading halves them.\<close>

inductive spread_type :: "ty \<Rightarrow> ty \<Rightarrow> bool" where
  "n \<le> 128 \<Longrightarrow> spread_type (TU n) (TU (2 * n))"
| "n \<le> 128 \<Longrightarrow> spread_type (TI n) (TI (2 * n))"
| "spread_type t u \<Longrightarrow> \<not> is_witness_of u \<Longrightarrow> spread_type (TWitnessOf t) (TWitnessOf u)"

inductive unspread_type :: "ty \<Rightarrow> ty \<Rightarrow> bool" where
  "n \<le> 64 \<Longrightarrow> unspread_type (TU (2 * n)) (TU n)"
| "n \<le> 64 \<Longrightarrow> unspread_type (TI (2 * n)) (TI n)"
| "unspread_type t u \<Longrightarrow> \<not> is_witness_of u \<Longrightarrow> unspread_type (TWitnessOf t) (TWitnessOf u)"

inductive instr_typed :: "function_types \<Rightarrow> value_types \<Rightarrow> opcode \<Rightarrow> bool" for ft m where
  cmp: "m a = Some t \<Longrightarrow> m b = Some u \<Longrightarrow> m r = Some (wrapped (is_witness_of t \<or> is_witness_of u) (TU 1)) \<Longrightarrow>
    instr_typed ft m (OpCmp k r a b)"
| arith: "m a = Some t \<Longrightarrow> m b = Some u \<Longrightarrow> arith_type t u v \<Longrightarrow> m r = Some v \<Longrightarrow> instr_typed ft m (OpBinaryArithOp k r a b)"
| cast: "m a = Some t \<Longrightarrow> cast_type target t u \<Longrightarrow> m r = Some u \<Longrightarrow> instr_typed ft m (OpCast r a target)"
| sext: "m a = Some (wrapped w t) \<Longrightarrow> (t = TU k \<and> u = TU to_bits) \<or> (t = TI k \<and> u = TI to_bits) \<Longrightarrow>
    m r = Some (wrapped w u) \<Longrightarrow> instr_typed ft m (OpSExt r a from_bits to_bits)"
| bit_range: "m a = Some t \<Longrightarrow> bits_of_type t n \<Longrightarrow> 0 < wd \<Longrightarrow> off + wd \<le> n \<Longrightarrow> m r = Some t \<Longrightarrow>
    instr_typed ft m (OpBitRange r a off wd)"
| not_op: "m a = Some t \<Longrightarrow> m r = Some t \<Longrightarrow> instr_typed ft m (OpNot r a)"
| mk_array: "m r = Some (TArray t n) \<Longrightarrow> instr_typed ft m (OpMkSeq r vs (SeqArray n) t)"
| mk_slice: "m r = Some (TSlice t) \<Longrightarrow> instr_typed ft m (OpMkSeq r vs SeqSlice t)"
| repeat_array: "m r = Some (TArray t n) \<Longrightarrow> instr_typed ft m (OpMkRepeated r v (SeqArray n) k t)"
| repeat_slice: "m r = Some (TSlice t) \<Longrightarrow> instr_typed ft m (OpMkRepeated r v SeqSlice k t)"
| alloc: "m r = Some (TRef t) \<Longrightarrow> instr_typed ft m (OpAlloc r t)"
| load: "m p = Some (TRef t) \<Longrightarrow> m r = Some t \<Longrightarrow> instr_typed ft m (OpLoad r p)"
| call: "ft fid = Some (params, returns) \<Longrightarrow> length args = length params \<Longrightarrow> map m rs = map Some returns \<Longrightarrow>
    instr_typed ft m (OpCall rs (CallStatic fid) args u)"
| get_plain: "m a = Some t \<Longrightarrow> m i = Some u \<Longrightarrow> \<not> is_witness_of u \<Longrightarrow> element_type t e \<Longrightarrow> m r = Some e \<Longrightarrow>
    instr_typed ft m (OpArrayGet r a i)"
| get_witness: "m a = Some t \<Longrightarrow> m i = Some (TWitnessOf u) \<Longrightarrow> element_type t e \<Longrightarrow> leaves_witness e e' \<Longrightarrow> m r = Some e' \<Longrightarrow>
    instr_typed ft m (OpArrayGet r a i)"
| set: "m a = Some t \<Longrightarrow> m v = Some u \<Longrightarrow> written_type t u t' \<Longrightarrow> m r = Some t' \<Longrightarrow> instr_typed ft m (OpArraySet r a i v)"
| push: "m s = Some t \<Longrightarrow> m r = Some t \<Longrightarrow> instr_typed ft m (OpSlicePush dir r s vs)"
| len: "m r = Some (TU 32) \<Longrightarrow> instr_typed ft m (OpSliceLen r s)"
| select: "m c = Some t \<Longrightarrow> m a = Some u \<Longrightarrow> m b = Some v \<Longrightarrow> arith_type u v w \<Longrightarrow>
    m r = Some (wrapped (is_witness_of t \<and> \<not> is_witness_of w) w) \<Longrightarrow> instr_typed ft m (OpSelect r c a b)"
| to_bits: "m a = Some t \<Longrightarrow> m r = Some (TArray (wrapped (is_witness_of t) (TU 1)) n) \<Longrightarrow> instr_typed ft m (OpToBits r a e n)"
| to_radix: "m a = Some t \<Longrightarrow> m r = Some (TArray (wrapped (is_witness_of t) (TU 8)) n) \<Longrightarrow> instr_typed ft m (OpToRadix r a rx e n)"
| value_of: "m a = Some (TWitnessOf t) \<Longrightarrow> m r = Some t \<Longrightarrow> instr_typed ft m (OpValueOf r a)"
| write_result: "m a = Some t \<Longrightarrow> \<not> is_witness_of t \<Longrightarrow> m r = Some (TWitnessOf t) \<Longrightarrow> instr_typed ft m (OpWriteWitness (Some r) a p)"
| write_pinned: "instr_typed ft m (OpWriteWitness None a p)"
| fresh: "\<not> is_witness_of t \<Longrightarrow> m r = Some (TWitnessOf t) \<Longrightarrow> instr_typed ft m (OpFreshWitness r t)"
| coeff: "m r = Some TField \<Longrightarrow> instr_typed ft m (OpNextDCoeff r)"
| mul_const: "m a = Some t \<Longrightarrow> m r = Some t \<Longrightarrow> instr_typed ft m (OpMulConst r c a)"
| rangecheck: "m a = Some (wrapped w TField) \<Longrightarrow> instr_typed ft m (OpRangecheck a n)"
| read_global: "m r = Some t \<Longrightarrow> instr_typed ft m (OpReadGlobal r g t)"
| proj: "m a = Some t \<Longrightarrow> component_type t k e \<Longrightarrow> m r = Some e \<Longrightarrow> instr_typed ft m (OpTupleProj r a k)"
| mk_tuple: "m r = Some (TTuple ts) \<Longrightarrow> instr_typed ft m (OpMkTuple r vs ts)"
| todo: "map m rs = map Some ts \<Longrightarrow> instr_typed ft m (OpTodo x rs ts)"
| spread: "m a = Some t \<Longrightarrow> spread_type t u \<Longrightarrow> m r = Some u \<Longrightarrow> instr_typed ft m (OpSpread r a n)"
| unspread: "m a = Some t \<Longrightarrow> unspread_type t u \<Longrightarrow> m r = Some u \<Longrightarrow> m r' = Some u \<Longrightarrow> instr_typed ft m (OpUnspread r r' a n)"
| guard: "instr_typed ft m i \<Longrightarrow> instr_typed ft m (OpGuard c i)"
| no_result: "i \<in> {OpStore p v, OpAssert v, OpAssertCmp ck v w, OpAssertR1C v w x, OpMemOp rc v, OpBumpD dm v w, OpConstrain v w x,
    OpLookup lt vs x, OpDLookup lt vs x, OpInitGlobal g v, OpDropGlobal g} \<Longrightarrow> instr_typed ft m i"

text \<open>An assignment that running the opcode leaves as it is. The assignments of a finished analysis are such.\<close>

definition well_typed :: "function_types \<Rightarrow> value_types \<Rightarrow> opcode \<Rightarrow> bool" where
  "well_typed ft m i \<longleftrightarrow> run_opcode i ft m = Some m"

text \<open>An opcode only looks at the types of its operands: on a larger assignment it gives its results the
  same types.\<close>

lemma map_leD: "m \<subseteq>\<^sub>m M \<Longrightarrow> m v = Some t \<Longrightarrow> M v = Some t"
  by (metis map_le_def domI)

lemma map_upd_same: "m(r \<mapsto> x) = m(r \<mapsto> y) \<longleftrightarrow> x = y"
  by (metis fun_upd_same option.inject)

lemma upds_one:
  assumes "\<exists>t. m' = m(r \<mapsto> t) \<and> (\<forall>M. m \<subseteq>\<^sub>m M \<longrightarrow> g M = Some (M(r \<mapsto> t)))"
  shows "\<exists>ts. length ts = length [r] \<and> m' = m([r] [\<mapsto>] ts) \<and> (\<forall>M. m \<subseteq>\<^sub>m M \<longrightarrow> g M = Some (M([r] [\<mapsto>] ts)))"
proof -
  obtain t where "m' = m(r \<mapsto> t) \<and> (\<forall>M. m \<subseteq>\<^sub>m M \<longrightarrow> g M = Some (M(r \<mapsto> t)))" using assms by blast
  then show ?thesis by (intro exI [of _ "[t]"]) simp
qed

lemma run_opcode_upds:
  "run_opcode i ft m = Some m' \<Longrightarrow> \<exists>ts. length ts = length (get_results i) \<and> m' = m(get_results i [\<mapsto>] ts) \<and>
     (\<forall>M. m \<subseteq>\<^sub>m M \<longrightarrow> run_opcode i ft M = Some (M(get_results i [\<mapsto>] ts)))"
proof (induction i)
  case (OpWriteWitness result v pinned)
  show ?case
  proof (cases result)
    case (Some r)
    obtain t where t: "m v = Some t" "\<not> is_witness_of t" "m' = m(r \<mapsto> TWitnessOf t)"
      using OpWriteWitness Some by (auto simp: bind_Some_iff)
    show ?thesis unfolding Some get_results.simps option_values.simps 
      by (rule upds_one, rule exI [of _ "TWitnessOf t"], intro conjI allI impI, rule t(3))
        (use t(1,2) in \<open>auto simp: bind_Some_iff dest: map_leD\<close>)
  qed (use OpWriteWitness in simp)
next
  case (OpCall results target args unconstrained)
  then obtain fid params returns where "target = CallStatic fid" "ft fid = Some (params, returns)"
    "length args = length params" "length results = length returns" "m' = m(results [\<mapsto>] returns)"
    by (auto split: call_target.splits simp: bind_Some_iff split: if_splits)
  then show ?case by auto
next
  case (OpUnspread result_odd result_even src bits)
  then obtain v odd even where v: "m src = Some v" "unspread_result_types v = Some (odd, even)"
    "m' = m(result_odd \<mapsto> odd, result_even \<mapsto> even)" by (auto simp: bind_Some_iff)
  then show ?case by (intro exI [of _ "[odd, even]"]) (use v in \<open>auto simp: bind_Some_iff map_leD\<close>)
next
  case (OpTodo payload results ts)
  then have "length results = length ts" "m' = m(results [\<mapsto>] ts)" by (auto split: if_splits)
  then show ?case by auto
qed (((simp only: get_results.simps)?, (rule upds_one)?,
  auto simp: bind_Some_iff map_upd_same dest: map_leD split: if_splits)[1])+

text \<open>Running an opcode whose results are new only extends the assignment, and whatever the pass adds later, the
  rule of the opcode keeps holding.\<close>

lemma map_upds_in: "length ts = length xs \<Longrightarrow> x \<in> set xs \<Longrightarrow> (M(xs [\<mapsto>] ts)) x = (m(xs [\<mapsto>] ts)) x"
proof (induction xs arbitrary: ts M m)
  case (Cons y xs)
  then obtain t ts' where ts: "ts = t # ts'" "length ts' = length xs" by (cases ts) auto
  show ?case
  proof (cases "x \<in> set xs")
    case True
    then show ?thesis using Cons.IH [OF ts(2) True, of "M(y \<mapsto> t)" "m(y \<mapsto> t)"] unfolding ts(1) map_upds_Cons by (rule conjunct2 [OF conjI])
  next
    case False
    then show ?thesis using Cons.prems(2) unfolding ts(1) map_upds_Cons by (simp add: map_upds_apply_nontin)
  qed
qed simp

lemma run_opcode_le:
  assumes "run_opcode i ft m = Some m'" "set (get_results i) \<inter> Map.dom m = {}"
  shows "m \<subseteq>\<^sub>m m'" "Map.dom m' = Map.dom m \<union> set (get_results i)" "m' \<subseteq>\<^sub>m M \<Longrightarrow> well_typed ft M i"
proof -
  obtain ts where ts: "length ts = length (get_results i)" "m' = m(get_results i [\<mapsto>] ts)"
    "\<And>M. m \<subseteq>\<^sub>m M \<Longrightarrow> run_opcode i ft M = Some (M(get_results i [\<mapsto>] ts))"
    using run_opcode_upds [OF assms(1)] by blast
  show le: "m \<subseteq>\<^sub>m m'" using assms(2) unfolding ts(2) map_le_def
    by (metis disjoint_iff map_upds_apply_nontin)
  show dom: "Map.dom m' = Map.dom m \<union> set (get_results i)" using ts by auto
  assume M: "m' \<subseteq>\<^sub>m M"
  have "(M(get_results i [\<mapsto>] ts)) x = M x" for x
  proof (cases "x \<in> set (get_results i)")
    case True
    have "(M(get_results i [\<mapsto>] ts)) x = (m(get_results i [\<mapsto>] ts)) x" by (rule map_upds_in [OF ts(1) True])
    also have "\<dots> = M x" using M True dom ts(2) by (metis UnCI map_le_def)
    finally show ?thesis .
  qed (simp add: map_upds_apply_nontin)
  then show "well_typed ft M i"
    using ts(3) [of M] map_le_trans [OF le M] unfolding well_typed_def by (auto simp: fun_eq_iff)
qed

text \<open>The functions of the pass obey the rules.\<close>

lemma wrapped_simps [simp]: "wrapped True t = TWitnessOf t" "wrapped False t = t"
  by (simp_all add: wrapped_def)

lemma witness_like_Some: "witness_like v t = Some u \<Longrightarrow> u = wrapped (is_witness_of v) t"
  by (auto simp: witness_like_def witness_of_Some wrapped_def split: if_splits)

lemma arith_type_not_witness: "is_witness_of (TWitnessOf t)" "\<not> is_witness_of TField" "\<not> is_witness_of (TU n)" "\<not> is_witness_of (TI n)"
  "\<not> is_witness_of (TArray t n)" "\<not> is_witness_of (TSlice t)" "\<not> is_witness_of (TTuple ts)" "\<not> is_witness_of (TRef t)"
  "\<not> is_witness_of TFunction"
  by (simp_all add: is_witness_of_def)

lemma get_arithmetic_result_type_rule: "get_arithmetic_result_type a b = Some t \<Longrightarrow> arith_type a b t"
  by (induction a b arbitrary: t rule: get_arithmetic_result_type.induct; case_tac other)
    (auto simp: bind_Some_iff witness_of_Some arith_type_not_witness intro: arith_type.intros)

lemma cast_result_type_rule: "cast_result_type t target = Some u \<Longrightarrow> cast_type target t u"
  by (cases target) (auto dest!: witness_like_Some simp: witness_of_Some split: ty.splits intro: cast_type.intros)

lemma get_bit_size_rule: "get_bit_size t = Some n \<Longrightarrow> bits_of_type t n"
  by (induction t rule: get_bit_size.induct) (auto intro: bits_of_type.intros)

lemma get_array_element_rule: "get_array_element a = Some e \<Longrightarrow> element_type a e"
  by (induction a arbitrary: e rule: get_array_element.induct)
    (auto simp: bind_Some_iff witness_of_Some intro: element_type.intros)

lemma get_tuple_element_rule: "get_tuple_element a k = Some e \<Longrightarrow> component_type a k e"
  by (induction a k arbitrary: e rule: get_tuple_element.induct)
    (auto simp: bind_Some_iff witness_of_Some intro: component_type.intros)

lemma opt_map_all2: "opt_map f xs = Some ys \<Longrightarrow> (\<And>x y. x \<in> set xs \<Longrightarrow> f x = Some y \<Longrightarrow> R x y) \<Longrightarrow> list_all2 R xs ys"
  by (induction xs arbitrary: ys) (auto simp: bind_Some_iff)

lemma push_witness_of_to_leaves_rule: "push_witness_of_to_leaves t = Some u \<Longrightarrow> leaves_witness t u"
proof (induction t arbitrary: u rule: push_witness_of_to_leaves.induct)
  case (4 elements)
  then obtain us where "opt_map push_witness_of_to_leaves elements = Some us" "u = TTuple us" by auto
  then show ?case using 4 by (auto intro!: leaves_witness.intros opt_map_all2)
qed (auto simp: witness_of_Some intro: leaves_witness.intros)

lemma array_set_result_type_rule:
  assumes "array_set_result_type a v = Some t" shows "written_type a v t"
proof -
  obtain e where e: "element_type a e" "t = (if is_witness_of v \<and> \<not> is_witness_of e
      then (case a of TArray _ n \<Rightarrow> TArray v n | TSlice _ \<Rightarrow> TSlice v | _ \<Rightarrow> a) else a)"
    using assms by (auto simp: array_set_result_type_def bind_Some_iff dest: get_array_element_rule)
  show ?thesis
  proof (cases "is_witness_of v \<and> \<not> is_witness_of e")
    case True
    then obtain v' where v: "v = TWitnessOf v'" by (cases v) (auto simp: is_witness_of_def)
    from e(1) show ?thesis
      by cases (use e(2) True in \<open>auto simp: v is_witness_of_def intro: written_type.intros\<close>)
  next
    case False
    then show ?thesis using e by (auto intro: written_type.kept)
  qed
qed

lemma spread_result_type_rule: "spread_result_type t = Some u \<Longrightarrow> spread_type t u"
proof (induction t arbitrary: u rule: spread_result_type.induct)
  case (2 bits)
  then show ?case using spread_type.intros(1) [of bits] by (auto simp: mult.commute split: if_splits)
next
  case (3 bits)
  then show ?case using spread_type.intros(2) [of bits] by (auto simp: mult.commute split: if_splits)
qed (auto simp: bind_Some_iff witness_of_Some intro: spread_type.intros)

lemma unspread_result_types_rule: "unspread_result_types t = Some (u, v) \<Longrightarrow> unspread_type t u \<and> v = u"
proof (induction t arbitrary: u v rule: unspread_result_types.induct)
  case (2 bits)
  then show ?case using unspread_type.intros(1) [of "bits div 2"] by (auto split: if_splits)
next
  case (3 bits)
  then show ?case using unspread_type.intros(2) [of "bits div 2"] by (auto split: if_splits)
qed (fastforce simp: bind_Some_iff witness_of_Some intro: unspread_type.intros)+

lemma map_upds_map: "length ts = length rs \<Longrightarrow> distinct rs \<Longrightarrow> map (m(rs [\<mapsto>] ts)) rs = map Some ts"
proof (induction rs arbitrary: ts m)
  case (Cons r rs)
  then obtain t ts' where "ts = t # ts'" by (cases ts) auto
  then show ?case using Cons.IH [of ts' "m(r \<mapsto> t)"] Cons.prems by (simp add: map_upds_apply_nontin del: map_upds_twist fun_upd_apply) simp
qed simp

lemma upd_leD: "m(r \<mapsto> t) \<subseteq>\<^sub>m M \<Longrightarrow> M r = Some t"
  by (simp add: map_leD [of "m(r \<mapsto> t)"])

lemma sext_result_type_rule:
  assumes "sext_result_type v n = Some u"
  shows "\<exists>t k u'. v = wrapped (is_witness_of v) t \<and> (t = TU k \<and> u' = TU n \<or> t = TI k \<and> u' = TI n) \<and>
    u = wrapped (is_witness_of v) u'"
  using assms by (cases v)
    (auto simp: sext_result_type_def is_witness_of_def split: ty.splits dest!: witness_like_Some)

lemma strip_field_wrapped: "is_field (strip_witness v) \<Longrightarrow> v = wrapped (is_witness_of v) TField"
  by (cases v) (auto simp: is_witness_of_def is_field_def split: ty.splits)

lemma select_result_type_rule: "select_result_type c t f = Some u \<Longrightarrow>
    \<exists>w. arith_type t f w \<and> u = wrapped (is_witness_of c \<and> \<not> is_witness_of w) w"
  by (auto simp: select_result_type_def bind_Some_iff witness_of_Some wrapped_def split: if_splits
    dest!: get_arithmetic_result_type_rule)

text \<open>An opcode whose results are new obeys its rule in every larger assignment.\<close>

lemmas type_rules = get_arithmetic_result_type_rule cast_result_type_rule get_bit_size_rule get_array_element_rule
  get_tuple_element_rule push_witness_of_to_leaves_rule array_set_result_type_rule spread_result_type_rule
  unspread_result_types_rule

lemma run_opcode_typed:
  assumes "run_opcode i ft m = Some m'" "distinct (get_results i)" "m \<subseteq>\<^sub>m M" "m' \<subseteq>\<^sub>m M"
  shows "instr_typed ft M i"
proof -
  note up = map_leD [OF assms(3)]
  have map_upds_leD: "map M rs = map Some ts" if "m(rs [\<mapsto>] ts) \<subseteq>\<^sub>m M" "length ts = length rs" "distinct rs" for rs ts
    using map_upds_map [OF that(2,3), of m] map_leD [OF that(1)] by (auto simp: list_eq_iff_nth_eq)
  from assms(1,2,4) show ?thesis
proof (induction i)
  case (OpSExt r a from_bits to_bits)
  then obtain v u where v: "M a = Some v" "sext_result_type v to_bits = Some u" "M r = Some u"
    by (auto simp: bind_Some_iff dest: up upd_leD)
  then show ?case using sext_result_type_rule [OF v(2)] instr_typed.sext by metis
next
  case (OpRangecheck a n)
  then obtain v where "m a = Some v" "is_field (strip_witness v)" by (auto simp: bind_Some_iff split: if_splits)
  then show ?case using strip_field_wrapped instr_typed.rangecheck up by metis
next
  case (OpSelect r c a b)
  then obtain t u v w where v: "M c = Some t" "M a = Some u" "M b = Some v" "select_result_type t u v = Some w" "M r = Some w"
    by (auto simp: bind_Some_iff dest!: up upd_leD)
  then show ?case using select_result_type_rule [OF v(4)] instr_typed.select by metis
next
  case (OpCall rs target args u)
  then show ?case using map_upds_leD
    by (auto simp: bind_Some_iff split: call_target.splits if_splits intro: instr_typed.call)
next
  case (OpTodo x rs ts)
  then show ?case using map_upds_leD by (auto split: if_splits intro: instr_typed.todo)
next
  case (OpUnspread r r' a n)
  then obtain t u v where t: "m a = Some t" "unspread_result_types t = Some (u, v)" "m(r \<mapsto> u, r' \<mapsto> v) \<subseteq>\<^sub>m M" "r \<noteq> r'"
    by (auto simp: bind_Some_iff)
  then have "M r = Some u" "M r' = Some v" using map_leD [OF t(3), of r] map_leD [OF t(3), of r'] by auto
  then show ?case using t(1) unspread_result_types_rule [OF t(2)] by (auto intro: instr_typed.unspread up)
next
  case (OpCmp k r a b)
  then show ?case by (auto simp: bind_Some_iff wrapped_def dest!: upd_leD up intro!: instr_typed.cmp)
next
  case (OpArrayGet r a i)
  then obtain t u e v where t: "M a = Some t" "M i = Some u" "get_array_element t = Some e"
    "(if is_witness_of u then push_witness_of_to_leaves e else Some e) = Some v" "M r = Some v"
    by (auto simp: bind_Some_iff dest!: up upd_leD)
  show ?case
  proof (cases "is_witness_of u")
    case True
    then obtain u' where "u = TWitnessOf u'" by (cases u) (auto simp: is_witness_of_def)
    then show ?thesis using t True by (auto intro: instr_typed.get_witness dest: type_rules)
  next
    case False
    then show ?thesis using t by (auto intro: instr_typed.get_plain dest: type_rules)
  qed
next
  case (OpWriteWitness r a p)
  then show ?case by (cases r) (auto simp: bind_Some_iff witness_of_Some dest!: upd_leD up intro: instr_typed.intros)
next
  case (OpMkSeq r vs st t)
  then show ?case by (cases st) (auto dest!: upd_leD intro: instr_typed.intros)
next
  case (OpMkRepeated r v st k t)
  then show ?case by (cases st) (auto dest!: upd_leD intro: instr_typed.intros)
next
  case (OpValueOf r a)
  then show ?case by (auto simp: bind_Some_iff dest!: upd_leD up intro: instr_typed.intros elim!: unwrap_witness_of.elims)
next
  case (OpLoad r p)
  then show ?case by (auto simp: bind_Some_iff dest!: upd_leD up intro: instr_typed.intros elim!: get_refered.elims split: if_splits)
next
  case (OpToBits r a e n)
  then show ?case by (auto simp: bind_Some_iff dest!: upd_leD up witness_like_Some intro: instr_typed.intros)
next
  case (OpToRadix r a e x n)
  then show ?case by (auto simp: bind_Some_iff dest!: upd_leD up witness_like_Some intro: instr_typed.intros)
qed (auto simp: bind_Some_iff witness_of_Some dest!: upd_leD up type_rules split: if_splits intro: instr_typed.intros)
qed

subsection \<open>A function whose values are defined once\<close>

definition block_defs :: "hl_function \<Rightarrow> block_id \<Rightarrow> value_id list" where
  "block_defs f b = (case get_block b f of
     None \<Rightarrow> []
   | Some block \<Rightarrow> map fst (b_parameters block) @ concat (map get_results (b_instructions block)))"

text \<open>Agreement of an assignment with a block: parameters have their declared types, instructions their rules.\<close>

definition block_typed :: "hl_function \<Rightarrow> function_types \<Rightarrow> value_types \<Rightarrow> block_id \<Rightarrow> bool" where
  "block_typed f ft m b \<longleftrightarrow> (\<exists>block. get_block b f = Some block \<and>
     (\<forall>(v, t) \<in> set (b_parameters block). m v = Some t) \<and>
     (\<forall>i \<in> set (b_instructions block). instr_typed ft m i))"

lemma run_opcodes_typed:
  assumes "opt_fold (\<lambda>i m. run_opcode i ft m) is m = Some m'"
    "distinct (concat (map get_results is))" "set (concat (map get_results is)) \<inter> Map.dom m = {}"
  shows "m \<subseteq>\<^sub>m m' \<and> Map.dom m' = Map.dom m \<union> set (concat (map get_results is)) \<and>
    (\<forall>M. m' \<subseteq>\<^sub>m M \<longrightarrow> (\<forall>i \<in> set is. instr_typed ft M i))"
  using assms
proof (induction "is" arbitrary: m)
  case (Cons i "is")
  obtain k where k: "run_opcode i ft m = Some k" "opt_fold (\<lambda>i m. run_opcode i ft m) is k = Some m'"
    using Cons.prems(1) by (auto simp: bind_Some_iff)
  have new: "set (get_results i) \<inter> Map.dom m = {}" using Cons.prems(3) by auto
  note le = run_opcode_le [OF k(1) new]
  have "set (concat (map get_results is)) \<inter> Map.dom k = {}"
    unfolding le(2) using Cons.prems(2,3) by auto
  moreover have "distinct (concat (map get_results is))" using Cons.prems(2) by simp
  ultimately have IH: "k \<subseteq>\<^sub>m m' \<and> Map.dom m' = Map.dom k \<union> set (concat (map get_results is)) \<and>
    (\<forall>M. m' \<subseteq>\<^sub>m M \<longrightarrow> (\<forall>i \<in> set is. instr_typed ft M i))" using Cons.IH [OF k(2)] by blast
  then have "m \<subseteq>\<^sub>m m'" "Map.dom m' = Map.dom m \<union> set (concat (map get_results (i # is)))"
    using le(1,2) by (auto intro: map_le_trans)
  moreover have "instr_typed ft M j" if "m' \<subseteq>\<^sub>m M" "j \<in> set (i # is)" for M j
  proof -
    have "k \<subseteq>\<^sub>m M" "m \<subseteq>\<^sub>m M" using that(1) IH le(1) map_le_trans by blast+
    then have "instr_typed ft M i" using Cons.prems(2) by (intro run_opcode_typed [OF k(1)]) auto
    then show ?thesis using that IH by auto
  qed
  ultimately show ?case by blast
qed simp

lemma params_typed:
  assumes "distinct (map fst ps)" "fst ` set ps \<inter> Map.dom m = {}"
  shows "m \<subseteq>\<^sub>m fold (\<lambda>(v, t) m. m(v \<mapsto> t)) ps m \<and>
    Map.dom (fold (\<lambda>(v, t) m. m(v \<mapsto> t)) ps m) = Map.dom m \<union> fst ` set ps \<and>
    (\<forall>(v, t) \<in> set ps. fold (\<lambda>(v, t) m. m(v \<mapsto> t)) ps m v = Some t)"
  using assms
proof (induction ps arbitrary: m)
  case (Cons p ps)
  obtain v t where p: "p = (v, t)" by fastforce
  let ?k = "m(v \<mapsto> t)"
  have "v \<notin> Map.dom m" using Cons.prems(2) by (simp add: p)
  then have "m \<subseteq>\<^sub>m ?k" by (auto simp: map_le_def)
  have IH: "?k \<subseteq>\<^sub>m fold (\<lambda>(v, t) m. m(v \<mapsto> t)) ps ?k \<and>
      Map.dom (fold (\<lambda>(v, t) m. m(v \<mapsto> t)) ps ?k) = Map.dom ?k \<union> fst ` set ps \<and>
      (\<forall>(v, t) \<in> set ps. fold (\<lambda>(v, t) m. m(v \<mapsto> t)) ps ?k v = Some t)"
  proof (rule Cons.IH)
    show "distinct (map fst ps)" using Cons.prems(1) by (simp add: p)
    have "v \<notin> fst ` set ps" using Cons.prems(1) by (simp add: p)
    then show "fst ` set ps \<inter> Map.dom ?k = {}" using Cons.prems(2) by (auto simp: p simp del: fun_upd_apply)
  qed
  have F: "fold (\<lambda>(v, t) m. m(v \<mapsto> t)) (p # ps) m = fold (\<lambda>(v, t) m. m(v \<mapsto> t)) ps ?k" by (simp add: p)
  have "m \<subseteq>\<^sub>m fold (\<lambda>(v, t) m. m(v \<mapsto> t)) ps ?k" using \<open>m \<subseteq>\<^sub>m ?k\<close> IH map_le_trans by blast
  moreover have "Map.dom (fold (\<lambda>(v, t) m. m(v \<mapsto> t)) ps ?k) = Map.dom m \<union> fst ` set (p # ps)"
    using IH by (simp add: p)
  moreover have "fold (\<lambda>(v, t) m. m(v \<mapsto> t)) ps ?k v = Some t"
    using IH map_leD [of ?k _ v t] by simp
  ultimately show ?case unfolding F using IH by (simp add: p)
qed simp

lemma types_block_typed:
  assumes "types_block f ft b m = Some m'" "distinct (block_defs f b)" "set (block_defs f b) \<inter> Map.dom m = {}"
  shows "m \<subseteq>\<^sub>m m' \<and> Map.dom m' = Map.dom m \<union> set (block_defs f b) \<and> (\<forall>M. m' \<subseteq>\<^sub>m M \<longrightarrow> block_typed f ft M b)"
proof -
  obtain block where b: "get_block b f = Some block"
    and run: "opt_fold (\<lambda>i m. run_opcode i ft m) (b_instructions block)
      (fold (\<lambda>(v, t) m. m(v \<mapsto> t)) (b_parameters block) m) = Some m'"
    using assms(1) by (auto simp: types_block_def bind_Some_iff Let_def)
  let ?k = "fold (\<lambda>(v, t) m. m(v \<mapsto> t)) (b_parameters block) m"
  have defs: "block_defs f b = map fst (b_parameters block) @ concat (map get_results (b_instructions block))"
    by (simp add: block_defs_def b)
  have p: "m \<subseteq>\<^sub>m ?k \<and> Map.dom ?k = Map.dom m \<union> fst ` set (b_parameters block) \<and>
      (\<forall>(v, t) \<in> set (b_parameters block). ?k v = Some t)"
    using assms(2,3) unfolding defs by (intro params_typed) auto
  have r: "?k \<subseteq>\<^sub>m m' \<and> Map.dom m' = Map.dom ?k \<union> set (concat (map get_results (b_instructions block))) \<and>
      (\<forall>M. m' \<subseteq>\<^sub>m M \<longrightarrow> (\<forall>i \<in> set (b_instructions block). instr_typed ft M i))"
    using assms(2,3) p unfolding defs by (intro run_opcodes_typed [OF run]) auto
  have "block_typed f ft M b" if M: "m' \<subseteq>\<^sub>m M" for M
    unfolding block_typed_def
  proof (intro exI conjI)
    have "?k \<subseteq>\<^sub>m M" using r M map_le_trans by blast
    then show "\<forall>(v, t) \<in> set (b_parameters block). M v = Some t" using p by (auto dest: map_leD)
    show "\<forall>i \<in> set (b_instructions block). instr_typed ft M i" using r M by blast
  qed (rule b)
  moreover have "m \<subseteq>\<^sub>m m'" using p r map_le_trans by blast
  moreover have "Map.dom m' = Map.dom m \<union> set (block_defs f b)" unfolding defs using p r by auto
  ultimately show ?thesis by blast
qed

lemma types_blocks_typed:
  assumes "opt_fold (types_block f ft) bs m = Some m'"
    "distinct (concat (map (block_defs f) bs))" "set (concat (map (block_defs f) bs)) \<inter> Map.dom m = {}"
  shows "m \<subseteq>\<^sub>m m' \<and> (\<forall>M. m' \<subseteq>\<^sub>m M \<longrightarrow> (\<forall>b \<in> set bs. block_typed f ft M b))"
  using assms
proof (induction bs arbitrary: m)
  case (Cons b bs)
  obtain k where k: "types_block f ft b m = Some k" "opt_fold (types_block f ft) bs k = Some m'"
    using Cons.prems(1) by (auto simp: bind_Some_iff)
  have b: "m \<subseteq>\<^sub>m k \<and> Map.dom k = Map.dom m \<union> set (block_defs f b) \<and> (\<forall>M. k \<subseteq>\<^sub>m M \<longrightarrow> block_typed f ft M b)"
    using Cons.prems(2,3) by (intro types_block_typed [OF k(1)]) auto
  have "k \<subseteq>\<^sub>m m' \<and> (\<forall>M. m' \<subseteq>\<^sub>m M \<longrightarrow> (\<forall>b \<in> set bs. block_typed f ft M b))"
    using Cons.prems(2,3) b by (intro Cons.IH [OF k(2)]) auto
  moreover from this have "m \<subseteq>\<^sub>m m'" using b map_le_trans by blast
  moreover have "block_typed f ft M b" if "m' \<subseteq>\<^sub>m M" for M
    using b calculation(1) that map_le_trans [of k m' M] by blast
  ultimately show ?case by simp
qed simp

text \<open>C13. The types analysis of a function in which every constant, parameter and result is a different value: if it
  succeeds, its assignment gives every constant its type and every parameter of every reachable block the declared
  type, and it obeys the typing rule of every reachable instruction (\<open>instr_typed\<close>, a relation stated without the
  functions of the pass: what a comparison, an arithmetic operation, a cast, an access or a call makes of the types of
  its operands, and when the result is a witness), although the pass visits each instruction only once.\<close>

theorem types_run_function_typed:
  assumes "types_run_function f ft (constant_types s) c = Some m"
    "distinct (map fst (s_constants s) @ concat (map (block_defs f) (get_domination_pre_order c)))"
  shows "(\<forall>(v, k) \<in> set (s_constants s). m v = Some (const_value_type k)) \<and>
    (\<forall>b \<in> set (get_domination_pre_order c). block_typed f ft m b)"
proof -
  have "Map.dom (constant_types s) = fst ` set (s_constants s)"
    by (auto simp: constant_types_def dom_def map_of_eq_None_iff [symmetric] dom_map_of_conv_image_fst [symmetric])
  then have "constant_types s \<subseteq>\<^sub>m m \<and> (\<forall>M. m \<subseteq>\<^sub>m M \<longrightarrow> (\<forall>b \<in> set (get_domination_pre_order c). block_typed f ft M b))"
    using assms(2) by (intro types_blocks_typed [OF assms(1) [unfolded types_run_function_def]]) auto
  moreover have "constant_types s v = Some (const_value_type k)" if "(v, k) \<in> set (s_constants s)" for v k
    using assms(2) that by (simp add: constant_types_def)
  ultimately show ?thesis by (auto dest: map_leD)
qed

text \<open>\<^verbatim>\<open>fn main(x: WitnessOf u8) { y = Cast(x, Field); z = y + 5; b = (x < x) }\<close>\<close>

definition typed_function :: hl_function where
  "typed_function = \<lparr>f_entry_block = 0, f_blocks = [(0, \<lparr>b_parameters = [(1, TWitnessOf (TU 8))],
      b_instructions = [OpCast 2 1 CastField, OpBinaryArithOp BopAdd 3 2 0, OpCmp CmpLt 4 1 1],
      b_terminator = Some (Return [4])\<rparr>)],
    f_name = ''main'', f_returns = [TWitnessOf (TU 1)], f_next_block = 1\<rparr>"

definition typed_program :: "rat hlssa" where
  "typed_program = (hlssa_new :: rat hlssa)\<lparr>s_functions := [(0, typed_function)], s_next_value_id := 5,
     s_constants := [(0, ConstField 5)]\<rparr>"

definition one_block_cfg :: cfg where
  "one_block_cfg = (let d = \<lparr>cd_cfg = dg_empty, cd_dominators = \<lparr>immediate_dominator = Map.empty, immediately_dominated_by = \<lambda>_. []\<rparr>,
       cd_node_dominator_post_order = [], cd_dominator_pre_order = [0], cd_node_dominator_pre_order = []\<rparr>
     in \<lparr>cf_entry_node = 0, cf_return_node = 1, cf_block_to_node = [(0, 0)], cf_node_to_block = [(0, 0)],
       cf_cfg = d, cf_reverse_cfg = d\<rparr>)"

lemma types_run_function_typed_witness:
  "\<exists>m. types_run_function typed_function Map.empty (constant_types typed_program) one_block_cfg = Some m \<and>
    m 0 = Some TField \<and> block_typed typed_function Map.empty m 0"
proof -
  have order: "get_domination_pre_order one_block_cfg = [0]"
    by (simp add: get_domination_pre_order_def blocks_of_def one_block_cfg_def Let_def List.map_filter_def)
  have "types_run_function typed_function Map.empty (constant_types typed_program) one_block_cfg \<noteq> None"
    by (simp add: types_run_function_def order types_block_def typed_function_def get_block_def constant_types_def
      typed_program_def witness_like_def is_witness_of_def witness_of_def)
  then obtain m where m: "types_run_function typed_function Map.empty (constant_types typed_program) one_block_cfg = Some m"
    by blast
  have "distinct (map fst (s_constants typed_program) @
      concat (map (block_defs typed_function) (get_domination_pre_order one_block_cfg)))"
    by (simp add: order block_defs_def typed_function_def typed_program_def get_block_def)
  from types_run_function_typed [OF m this] m show ?thesis
    by (simp add: order typed_program_def)
qed

end
