(* ===== verification/Intervals.thy ===== *)
theory Intervals
  imports HL_Types "HOL-Library.Signed_Division" "HOL-Library.Log_Nat"
begin

text \<open>
  The intervals of the value range analysis (\<^verbatim>\<open>IntInterval\<close> in
  \<^verbatim>\<open>compiler/src/compiler/analysis/value_range_analysis.rs\<close>): a missing end is unbounded, an interval whose
  lower end exceeds the upper one is empty. Every operation is shown to contain what it abstracts.
\<close>

subsection \<open>The domain\<close>

record int_interval =
  iv_lo :: "int option"
  iv_hi :: "int option"

text \<open>The order of the scalar field BN254, the limbs of \<^verbatim>\<open>ark_bn254\<close>'s \<^verbatim>\<open>MODULUS\<close>.\<close>

definition bn254_modulus :: int where
  "bn254_modulus = 0x30644e72e131a029b85045b68181585d2833e84879b9709143e1f593f0000001"

definition iv_top :: int_interval where
  "iv_top = \<lparr>iv_lo = None, iv_hi = None\<rparr>"

definition iv_empty :: int_interval where
  "iv_empty = \<lparr>iv_lo = Some 1, iv_hi = Some 0\<rparr>"

definition iv_is_empty :: "int_interval \<Rightarrow> bool" where
  "iv_is_empty i = (case (iv_lo i, iv_hi i) of (Some l, Some h) \<Rightarrow> l > h | _ \<Rightarrow> False)"

definition iv_singleton :: "int \<Rightarrow> int_interval" where
  "iv_singleton v = \<lparr>iv_lo = Some v, iv_hi = Some v\<rparr>"

definition iv_closed :: "int \<Rightarrow> int \<Rightarrow> int_interval" where
  "iv_closed lo hi = (if lo > hi then iv_empty else \<lparr>iv_lo = Some lo, iv_hi = Some hi\<rparr>)"

definition unsigned_full :: "nat \<Rightarrow> int_interval" where
  "unsigned_full bits = iv_closed 0 (2 ^ bits - 1)"

definition signed_full :: "nat \<Rightarrow> int_interval" where
  "signed_full bits = (if bits = 0 then iv_singleton 0 else iv_closed (- (2 ^ (bits - 1))) (2 ^ (bits - 1) - 1))"

definition field_top :: int_interval where
  "field_top = iv_closed 0 (bn254_modulus - 1)"

definition iv_for_type :: "ty \<Rightarrow> int_interval" where
  "iv_for_type t = (case strip_witness t of
     TU n \<Rightarrow> unsigned_full n | TI n \<Rightarrow> signed_full n | TField \<Rightarrow> field_top | _ \<Rightarrow> iv_top)"

fun min_lo :: "int option \<Rightarrow> int option \<Rightarrow> int option" where
  "min_lo (Some x) (Some y) = Some (if x \<le> y then x else y)"
| "min_lo _ _ = None"

fun max_hi :: "int option \<Rightarrow> int option \<Rightarrow> int option" where
  "max_hi (Some x) (Some y) = Some (if x \<ge> y then x else y)"
| "max_hi _ _ = None"

fun max_lo :: "int option \<Rightarrow> int option \<Rightarrow> int option" where
  "max_lo None b = b"
| "max_lo a None = a"
| "max_lo (Some x) (Some y) = Some (if x \<ge> y then x else y)"

fun min_hi :: "int option \<Rightarrow> int option \<Rightarrow> int option" where
  "min_hi None b = b"
| "min_hi a None = a"
| "min_hi (Some x) (Some y) = Some (if x \<le> y then x else y)"

definition iv_join :: "int_interval \<Rightarrow> int_interval \<Rightarrow> int_interval" where
  "iv_join a b = (if iv_is_empty a then b else if iv_is_empty b then a
     else \<lparr>iv_lo = min_lo (iv_lo a) (iv_lo b), iv_hi = max_hi (iv_hi a) (iv_hi b)\<rparr>)"

definition iv_intersect :: "int_interval \<Rightarrow> int_interval \<Rightarrow> int_interval" where
  "iv_intersect a b = (if iv_is_empty a \<or> iv_is_empty b then iv_empty
     else let lo = max_lo (iv_lo a) (iv_lo b); hi = min_hi (iv_hi a) (iv_hi b) in
       case (lo, hi) of
         (Some l, Some h) \<Rightarrow> if l > h then iv_empty else \<lparr>iv_lo = lo, iv_hi = hi\<rparr>
       | _ \<Rightarrow> \<lparr>iv_lo = lo, iv_hi = hi\<rparr>)"

subsection \<open>Queries\<close>

text \<open>\<^verbatim>\<open>is_some_and\<close>.\<close>

definition some_and :: "'a option \<Rightarrow> ('a \<Rightarrow> bool) \<Rightarrow> bool" where
  "some_and x P = (case x of Some y \<Rightarrow> P y | None \<Rightarrow> False)"

definition is_non_negative :: "int_interval \<Rightarrow> bool" where
  "is_non_negative i = some_and (iv_lo i) (\<lambda>l. \<not> l < 0)"

definition is_non_positive :: "int_interval \<Rightarrow> bool" where
  "is_non_positive i = some_and (iv_hi i) (\<lambda>h. \<not> h > 0)"

definition fits_in_unsigned_bits :: "int_interval \<Rightarrow> nat \<Rightarrow> bool" where
  "fits_in_unsigned_bits i bits = (some_and (iv_lo i) (\<lambda>l. \<not> l < 0) \<and> some_and (iv_hi i) (\<lambda>h. h < 2 ^ bits))"

definition fits_in_signed_bits :: "int_interval \<Rightarrow> nat \<Rightarrow> bool" where
  "fits_in_signed_bits i bits = (if bits = 0
     then (case (iv_lo i, iv_hi i) of (Some l, Some h) \<Rightarrow> l = 0 \<and> h = 0 | _ \<Rightarrow> False)
     else some_and (iv_lo i) (\<lambda>l. l \<ge> - (2 ^ (bits - 1))) \<and> some_and (iv_hi i) (\<lambda>h. h < 2 ^ (bits - 1)))"

definition is_non_negative_in_signed :: "int_interval \<Rightarrow> nat \<Rightarrow> bool" where
  "is_non_negative_in_signed i bits = (bits \<noteq> 0 \<and>
     some_and (iv_lo i) (\<lambda>l. \<not> l < 0) \<and> some_and (iv_hi i) (\<lambda>h. h < 2 ^ (bits - 1)))"

subsection \<open>Arithmetic\<close>

fun opt_add :: "int option \<Rightarrow> int option \<Rightarrow> int option" where
  "opt_add (Some x) (Some y) = Some (x + y)"
| "opt_add _ _ = None"

fun opt_sub :: "int option \<Rightarrow> int option \<Rightarrow> int option" where
  "opt_sub (Some x) (Some y) = Some (x - y)"
| "opt_sub _ _ = None"

fun opt_mul :: "int option \<Rightarrow> int option \<Rightarrow> int option" where
  "opt_mul (Some x) (Some y) = Some (x * y)"
| "opt_mul None (Some z) = (if z = 0 then Some 0 else None)"
| "opt_mul (Some z) None = (if z = 0 then Some 0 else None)"
| "opt_mul None None = None"

definition iv_add :: "int_interval \<Rightarrow> int_interval \<Rightarrow> int_interval" where
  "iv_add a b = (if iv_is_empty a \<or> iv_is_empty b then iv_empty
     else \<lparr>iv_lo = opt_add (iv_lo a) (iv_lo b), iv_hi = opt_add (iv_hi a) (iv_hi b)\<rparr>)"

definition iv_sub :: "int_interval \<Rightarrow> int_interval \<Rightarrow> int_interval" where
  "iv_sub a b = (if iv_is_empty a \<or> iv_is_empty b then iv_empty
     else \<lparr>iv_lo = opt_sub (iv_lo a) (iv_hi b), iv_hi = opt_sub (iv_hi a) (iv_lo b)\<rparr>)"

text \<open>One step of the loop over the products, for the lower and the upper end.\<close>

fun lower_end :: "int option \<Rightarrow> int option \<Rightarrow> int option" where
  "lower_end (Some a) (Some b) = (if b < a then Some b else Some a)"
| "lower_end _ _ = None"

fun upper_end :: "int option \<Rightarrow> int option \<Rightarrow> int option" where
  "upper_end (Some a) (Some b) = (if b > a then Some b else Some a)"
| "upper_end _ _ = None"

definition iv_mul :: "int_interval \<Rightarrow> int_interval \<Rightarrow> int_interval" where
  "iv_mul a b = (if iv_is_empty a \<or> iv_is_empty b then iv_empty
     else let p0 = opt_mul (iv_lo a) (iv_lo b);
              ps = [opt_mul (iv_lo a) (iv_hi b), opt_mul (iv_hi a) (iv_lo b), opt_mul (iv_hi a) (iv_hi b)] in
       \<lparr>iv_lo = foldl lower_end p0 ps, iv_hi = foldl upper_end p0 ps\<rparr>)"

definition iv_neg :: "int_interval \<Rightarrow> int_interval" where
  "iv_neg a = (if iv_is_empty a then iv_empty
     else \<lparr>iv_lo = map_option uminus (iv_hi a), iv_hi = map_option uminus (iv_lo a)\<rparr>)"

text \<open>The division of \<^verbatim>\<open>BigInt\<close> truncates.\<close>

definition floor_div :: "int \<Rightarrow> int \<Rightarrow> int" where
  "floor_div a d = (let q = a sdiv d; r = a smod d in if r \<noteq> 0 \<and> (r < 0) \<noteq> (d < 0) then q - 1 else q)"

definition div_const_pos :: "int_interval \<Rightarrow> int \<Rightarrow> int_interval" where
  "div_const_pos a d = (if iv_is_empty a then iv_empty
     else \<lparr>iv_lo = map_option (\<lambda>l. floor_div l d) (iv_lo a), iv_hi = map_option (\<lambda>h. floor_div h d) (iv_hi a)\<rparr>)"

subsection \<open>What an interval contains\<close>

definition in_iv :: "int \<Rightarrow> int_interval \<Rightarrow> bool" where
  "in_iv x i \<longleftrightarrow> (\<forall>l. iv_lo i = Some l \<longrightarrow> l \<le> x) \<and> (\<forall>h. iv_hi i = Some h \<longrightarrow> x \<le> h)"

lemma in_iv_simps [simp]:
  "in_iv x iv_top" "\<not> in_iv x iv_empty" "in_iv x (iv_singleton v) \<longleftrightarrow> x = v"
  "in_iv x (iv_closed lo hi) \<longleftrightarrow> lo \<le> x \<and> x \<le> hi"
  "in_iv x (unsigned_full bits) \<longleftrightarrow> 0 \<le> x \<and> x < 2 ^ bits"
  "in_iv x field_top \<longleftrightarrow> 0 \<le> x \<and> x < bn254_modulus"
  by (auto simp: in_iv_def iv_top_def iv_empty_def iv_singleton_def iv_closed_def unsigned_full_def field_top_def)

lemma in_signed_full: "in_iv x (signed_full bits) \<longleftrightarrow> (if bits = 0 then x = 0 else - (2 ^ (bits - 1)) \<le> x \<and> x < 2 ^ (bits - 1))"
  by (auto simp: signed_full_def)

lemma iv_is_empty_iff: "iv_is_empty i \<longleftrightarrow> (\<nexists>x. in_iv x i)"
proof
  show "iv_is_empty i \<Longrightarrow> \<nexists>x. in_iv x i" by (auto simp: iv_is_empty_def in_iv_def split: option.splits)
next
  assume none: "\<nexists>x. in_iv x i"
  show "iv_is_empty i"
  proof (cases "iv_lo i")
    case None
    then have "in_iv (case iv_hi i of Some h \<Rightarrow> h | None \<Rightarrow> 0) i" by (auto simp: in_iv_def split: option.splits)
    then show ?thesis using none by blast
  next
    case (Some l)
    then have "\<not> in_iv l i" using none by blast
    then show ?thesis using Some by (auto simp: in_iv_def iv_is_empty_def split: option.splits)
  qed
qed

lemma in_iv_nonempty [simp]: "in_iv x i \<Longrightarrow> \<not> iv_is_empty i"
  by (auto simp: iv_is_empty_iff)

lemma in_iv_join: "in_iv x a \<or> in_iv x b \<Longrightarrow> in_iv x (iv_join a b)"
proof -
  have "in_iv x \<lparr>iv_lo = min_lo (iv_lo a) (iv_lo b), iv_hi = max_hi (iv_hi a) (iv_hi b)\<rparr>" if "in_iv x a \<or> in_iv x b"
    using that by (cases "iv_lo a"; cases "iv_lo b"; cases "iv_hi a"; cases "iv_hi b") (auto simp: in_iv_def)
  then show "in_iv x a \<or> in_iv x b \<Longrightarrow> in_iv x (iv_join a b)" by (auto simp: iv_join_def dest: in_iv_nonempty)
qed

lemma in_iv_intersect: "in_iv x (iv_intersect a b) \<longleftrightarrow> in_iv x a \<and> in_iv x b"
proof -
  have "in_iv x \<lparr>iv_lo = max_lo (iv_lo a) (iv_lo b), iv_hi = min_hi (iv_hi a) (iv_hi b)\<rparr> \<longleftrightarrow> in_iv x a \<and> in_iv x b"
    by (cases "iv_lo a"; cases "iv_lo b"; cases "iv_hi a"; cases "iv_hi b") (auto simp: in_iv_def)
  moreover have "\<not> in_iv x \<lparr>iv_lo = lo, iv_hi = hi\<rparr>" if "lo = Some l" "hi = Some h" "h < l" for lo hi l h
    using that by (simp add: in_iv_def)
  ultimately show ?thesis
    by (auto simp: iv_intersect_def Let_def split: option.splits dest: in_iv_nonempty)
qed

lemma fits_in_unsigned_bitsD: "fits_in_unsigned_bits i bits \<Longrightarrow> in_iv x i \<Longrightarrow> 0 \<le> x \<and> x < 2 ^ bits"
  by (auto simp: fits_in_unsigned_bits_def some_and_def in_iv_def split: option.splits)

lemma fits_in_signed_bitsD: "fits_in_signed_bits i bits \<Longrightarrow> in_iv x i \<Longrightarrow> in_iv x (signed_full bits)"
  unfolding in_signed_full
  by (auto simp: fits_in_signed_bits_def some_and_def in_iv_def split: option.splits if_splits)

lemma is_non_negativeD: "is_non_negative i \<Longrightarrow> in_iv x i \<Longrightarrow> 0 \<le> x"
  by (auto simp: is_non_negative_def some_and_def in_iv_def split: option.splits)

lemma is_non_positiveD: "is_non_positive i \<Longrightarrow> in_iv x i \<Longrightarrow> x \<le> 0"
  by (auto simp: is_non_positive_def some_and_def in_iv_def split: option.splits)

lemma is_non_negative_in_signedD:
  "is_non_negative_in_signed i bits \<Longrightarrow> in_iv x i \<Longrightarrow> 0 \<le> x \<and> x < 2 ^ (bits - 1) \<and> 0 < bits"
  by (auto simp: is_non_negative_in_signed_def some_and_def in_iv_def split: option.splits)

lemma in_iv_add: "in_iv x a \<Longrightarrow> in_iv y b \<Longrightarrow> in_iv (x + y) (iv_add a b)"
  by (cases "iv_lo a"; cases "iv_lo b"; cases "iv_hi a"; cases "iv_hi b") (auto simp: in_iv_def iv_add_def iv_is_empty_def)

lemma in_iv_sub: "in_iv x a \<Longrightarrow> in_iv y b \<Longrightarrow> in_iv (x - y) (iv_sub a b)"
  by (cases "iv_lo a"; cases "iv_lo b"; cases "iv_hi a"; cases "iv_hi b") (auto simp: in_iv_def iv_sub_def iv_is_empty_def)

lemma in_iv_neg: "in_iv x a \<Longrightarrow> in_iv (- x) (iv_neg a)"
  by (cases "iv_lo a"; cases "iv_hi a") (auto simp: in_iv_def iv_neg_def iv_is_empty_def)

text \<open>A product of two numbers lies between the smallest and the largest product of the ends.\<close>

lemma mult_between:
  fixes x :: int
  assumes "a \<le> x" "x \<le> b" "c \<le> y" "y \<le> d"
  shows "min (min (a * c) (a * d)) (min (b * c) (b * d)) \<le> x * y \<and> x * y \<le> max (max (a * c) (a * d)) (max (b * c) (b * d))"
proof -
  have line: "min (a * z) (b * z) \<le> x * z \<and> x * z \<le> max (a * z) (b * z)" for z :: int
    using assms(1,2) by (cases "z \<ge> 0") (auto simp: min_le_iff_disj le_max_iff_disj mult_right_mono mult_right_mono_neg)
  have col: "min (z * c) (z * d) \<le> z * y \<and> z * y \<le> max (z * c) (z * d)" for z :: int
    using assms(3,4) by (cases "z \<ge> 0") (auto simp: min_le_iff_disj le_max_iff_disj mult_left_mono mult_left_mono_neg)
  show ?thesis using line [of y] col [of a] col [of b] by (auto simp: min_def max_def split: if_splits)
qed

lemma lower_ends: "foldl lower_end (Some a) [Some b, Some c, Some d] = Some (min (min a b) (min c d))"
  by (auto simp: min_def)

lemma upper_ends: "foldl upper_end (Some a) [Some b, Some c, Some d] = Some (max (max a b) (max c d))"
  by (auto simp: max_def)

lemma ends_None: "foldl lower_end None ps = None" "foldl upper_end None ps = None"
  by (induction ps) simp_all

lemma ends_Some:
  "foldl lower_end p ps = Some l \<Longrightarrow> None \<notin> set (p # ps)" "foldl upper_end p ps = Some l \<Longrightarrow> None \<notin> set (p # ps)"
proof (induction ps arbitrary: p)
  case (Cons q ps)
  { case 1 then show ?case using Cons.IH(1) by (cases p; cases q) (auto simp: ends_None split: if_splits) }
  { case 2 then show ?case using Cons.IH(2) by (cases p; cases q) (auto simp: ends_None split: if_splits) }
qed simp_all

lemma in_iv_mul:
  assumes "in_iv x a" "in_iv y b"
  shows "in_iv (x * y) (iv_mul a b)"
proof -
  let ?p0 = "opt_mul (iv_lo a) (iv_lo b)"
  let ?ps = "[opt_mul (iv_lo a) (iv_hi b), opt_mul (iv_hi a) (iv_lo b), opt_mul (iv_hi a) (iv_hi b)]"
  have e: "iv_mul a b = \<lparr>iv_lo = foldl lower_end ?p0 ?ps, iv_hi = foldl upper_end ?p0 ?ps\<rparr>"
    using assms by (simp add: iv_mul_def Let_def)
  show ?thesis
  proof (cases "None \<in> set (?p0 # ?ps)")
    case True
    then have "foldl lower_end ?p0 ?ps = None" "foldl upper_end ?p0 ?ps = None"
      using ends_Some [of ?p0 ?ps] by (meson not_Some_eq)+
    then show ?thesis unfolding e by (simp add: in_iv_def)
  next
    case False
    consider (finite) "iv_lo a \<noteq> None \<and> iv_hi a \<noteq> None \<and> iv_lo b \<noteq> None \<and> iv_hi b \<noteq> None"
      | (left) "iv_lo b = Some 0 \<and> iv_hi b = Some 0" | (right) "iv_lo a = Some 0 \<and> iv_hi a = Some 0"
      using False by (cases "iv_lo a"; cases "iv_hi a"; cases "iv_lo b"; cases "iv_hi b") (auto split: if_splits)
    then show ?thesis
    proof cases
      case finite
      then obtain la ha lb hb where "iv_lo a = Some la" "iv_hi a = Some ha" "iv_lo b = Some lb" "iv_hi b = Some hb" by auto
      then show ?thesis
        using assms mult_between [of la x ha lb y hb] unfolding e by (simp only: opt_mul.simps lower_ends upper_ends) (simp add: in_iv_def)
    next
      case left
      then have "y = 0" using assms(2) by (simp add: in_iv_def)
      then show ?thesis using left unfolding e by (cases "iv_lo a"; cases "iv_hi a") (auto simp: in_iv_def)
    next
      case right
      then have "x = 0" using assms(1) by (simp add: in_iv_def)
      then show ?thesis using right unfolding e by (cases "iv_lo b"; cases "iv_hi b") (auto simp: in_iv_def)
    qed
  qed
qed

lemma floor_div_div:
  assumes "0 < d"
  shows "floor_div a d = a div d"
proof -
  let ?q = "a sdiv d" and ?r = "a smod d"
  have a: "a = d * ?q + ?r" by (simp add: mult_sdiv_smod_eq)
  have r: "- d < ?r" "?r < d" using smod_int_range [of d a] smod_int_compares [of a d] assms by (cases "0 \<le> a"; auto)+
  show ?thesis
  proof (cases "?r < 0")
    case True
    have "a div d = ?q - 1" by (rule int_div_pos_eq [of _ _ _ "?r + d"]) (use a r True in \<open>auto simp: algebra_simps\<close>)
    then show ?thesis using True assms by (simp add: floor_div_def Let_def)
  next
    case False
    have "a div d = ?q" by (rule int_div_pos_eq [of _ _ _ ?r]) (use a r False in auto)
    then show ?thesis using False assms by (simp add: floor_div_def Let_def)
  qed
qed

lemma in_div_const_pos: "0 < d \<Longrightarrow> in_iv x a \<Longrightarrow> in_iv (x div d) (div_const_pos a d)"
  by (cases "iv_lo a"; cases "iv_hi a")
    (auto simp: in_iv_def div_const_pos_def iv_is_empty_def floor_div_div zdiv_mono1)

end
