(* ===== verification/Gadget_Semantics.thy ===== *)
theory Gadget_Semantics
  imports HL_Builder Types_Analysis Intervals
begin

unbundle bit_operations_syntax

text \<open>
  What the instructions of the high-level SSA say of an assignment of field elements to values, and rules that
  carry this through the emitters. An integer value of width \<open>n\<close> stands for a number below \<open>2 ^ n\<close>, signed ones
  in two's complement. Values that the prover chooses (\<^verbatim>\<open>WriteWitness\<close>, \<^verbatim>\<open>FreshWitness\<close>, \<^verbatim>\<open>ValueOf\<close>)
  are not constrained. A cast leaves the field element alone, as the constraint generator does
  (\<^verbatim>\<open>Value::cast\<close> in \<^verbatim>\<open>codegen/hlssa_to_r1cs.rs\<close>). A lowering is sound when every assignment that
  satisfies what it emits satisfies the instruction it replaces.
\<close>

subsection \<open>Numbers that field elements stand for\<close>

type_synonym 'f valuation = "value_id \<Rightarrow> 'f"

definition num :: "nat \<Rightarrow> 'f::field \<Rightarrow> nat \<Rightarrow> bool" where
  "num n a x \<longleftrightarrow> x < 2 ^ n \<and> a = of_nat x"

definition signed_of :: "nat \<Rightarrow> nat \<Rightarrow> int" where
  "signed_of n x = (if x < 2 ^ (n - 1) then int x else int x - 2 ^ n)"

definition encoded :: "nat \<Rightarrow> int \<Rightarrow> nat" where
  "encoded n z = nat (z mod 2 ^ n)"

text \<open>The bits of a number at the even positions.\<close>

fun spread_nat :: "nat \<Rightarrow> nat" where
  "spread_nat x = (if x = 0 then 0 else x mod 2 + 4 * spread_nat (x div 2))"

declare spread_nat.simps [simp del]

text \<open>Checked arithmetic of the language on the numbers: \<open>None\<close> when the program's assertion fails.\<close>

definition fit_unsigned :: "nat \<Rightarrow> int \<Rightarrow> nat option" where
  "fit_unsigned n z = (if 0 \<le> z \<and> z < 2 ^ n then Some (nat z) else None)"

definition fit_signed :: "nat \<Rightarrow> int \<Rightarrow> nat option" where
  "fit_signed n z = (if - (2 ^ (n - 1)) \<le> z \<and> z < 2 ^ (n - 1) then Some (encoded n z) else None)"

fun checked_u :: "nat \<Rightarrow> binary_arith_op_kind \<Rightarrow> nat \<Rightarrow> nat \<Rightarrow> nat option" where
  "checked_u n BopAdd x y = fit_unsigned n (int x + int y)"
| "checked_u n BopSub x y = fit_unsigned n (int x - int y)"
| "checked_u n BopMul x y = fit_unsigned n (int x * int y)"
| "checked_u n BopDiv x y = (if y = 0 then None else Some (x div y))"
| "checked_u n BopMod x y = (if y = 0 then None else Some (x mod y))"
| "checked_u n BopAnd x y = Some (x AND y)"
| "checked_u n BopOr x y = Some (x OR y)"
| "checked_u n BopXor x y = Some (x XOR y)"
| "checked_u n BopShl x y = Some (x * 2 ^ y mod 2 ^ n)"
| "checked_u n BopShr x y = Some (x div 2 ^ y)"

fun checked_s :: "nat \<Rightarrow> binary_arith_op_kind \<Rightarrow> nat \<Rightarrow> nat \<Rightarrow> nat option" where
  "checked_s n BopAdd x y = fit_signed n (signed_of n x + signed_of n y)"
| "checked_s n BopSub x y = fit_signed n (signed_of n x - signed_of n y)"
| "checked_s n BopMul x y = fit_signed n (signed_of n x * signed_of n y)"
| "checked_s n BopDiv x y = (if y = 0 then None else fit_signed n (signed_of n x sdiv signed_of n y))"
| "checked_s n BopMod x y = (if y = 0 then None else fit_signed n (signed_of n x smod signed_of n y))"
| "checked_s n BopAnd x y = Some (x AND y)"
| "checked_s n BopOr x y = Some (x OR y)"
| "checked_s n BopXor x y = Some (x XOR y)"
| "checked_s n BopShl x y = Some (encoded n (signed_of n x * 2 ^ y))"
| "checked_s n BopShr x y = Some (encoded n (signed_of n x div 2 ^ y))"

subsection \<open>What an instruction says\<close>

definition ty_of :: "value_types \<Rightarrow> value_id \<Rightarrow> ty option" where
  "ty_of types v = map_option strip_witness (types v)"

fun field_arith :: "binary_arith_op_kind \<Rightarrow> 'f::field \<Rightarrow> 'f \<Rightarrow> 'f \<Rightarrow> bool" where
  "field_arith BopAdd a b r \<longleftrightarrow> r = a + b"
| "field_arith BopSub a b r \<longleftrightarrow> r = a - b"
| "field_arith BopMul a b r \<longleftrightarrow> r = a * b"
| "field_arith BopDiv a b r \<longleftrightarrow> r * b = a"
| "field_arith _ a b r \<longleftrightarrow> True"

text \<open>The number of the right operand; of a shift, only amounts below the width are meaningful.\<close>

definition right_operand :: "nat \<Rightarrow> binary_arith_op_kind \<Rightarrow> 'f::field \<Rightarrow> nat \<Rightarrow> bool" where
  "right_operand n kind b y \<longleftrightarrow> (if kind = BopShl \<or> kind = BopShr then y < n \<and> b = of_nat y else num n b y)"

lemma right_operand_simps [simp]:
  "right_operand n BopShl b y \<longleftrightarrow> y < n \<and> b = of_nat y" "right_operand n BopShr b y \<longleftrightarrow> y < n \<and> b = of_nat y"
  "kind \<noteq> BopShl \<Longrightarrow> kind \<noteq> BopShr \<Longrightarrow> right_operand n kind b y \<longleftrightarrow> num n b y"
  by (simp_all add: right_operand_def)

definition arith_holds :: "ty option \<Rightarrow> binary_arith_op_kind \<Rightarrow> 'f::field \<Rightarrow> 'f \<Rightarrow> 'f \<Rightarrow> bool" where
  "arith_holds t kind a b r \<longleftrightarrow> (case t of
     Some TField \<Rightarrow> field_arith kind a b r
   | Some (TU n) \<Rightarrow> (\<forall>x y. num n a x \<longrightarrow> right_operand n kind b y \<longrightarrow> (\<exists>z. checked_u n kind x y = Some z \<and> r = of_nat z))
   | Some (TI n) \<Rightarrow> (\<forall>x y. num n a x \<longrightarrow> right_operand n kind b y \<longrightarrow> (\<exists>z. checked_s n kind x y = Some z \<and> r = of_nat z))
   | _ \<Rightarrow> True)"

definition less_holds :: "ty option \<Rightarrow> 'f::field \<Rightarrow> 'f \<Rightarrow> 'f \<Rightarrow> bool" where
  "less_holds t a b r \<longleftrightarrow> (case t of
     Some (TU n) \<Rightarrow> (\<forall>x y. num n a x \<longrightarrow> num n b y \<longrightarrow> r = of_bool (x < y))
   | Some (TI n) \<Rightarrow> (\<forall>x y. num n a x \<longrightarrow> num n b y \<longrightarrow> r = of_bool (signed_of n x < signed_of n y))
   | _ \<Rightarrow> True)"

text \<open>The number below the order of BN254's field that a field element is.\<close>

definition canonical :: "'f::field \<Rightarrow> nat \<Rightarrow> bool" where
  "canonical a x \<longleftrightarrow> int x < bn254_modulus \<and> a = of_nat x"

text \<open>The operations on the bits of one operand, which has an integer type of width \<open>n\<close>.\<close>

definition on_bits :: "ty option \<Rightarrow> 'f::field \<Rightarrow> (nat \<Rightarrow> nat \<Rightarrow> bool) \<Rightarrow> bool" where
  "on_bits t a P \<longleftrightarrow> (case t of
     Some (TU n) \<Rightarrow> \<forall>x. num n a x \<longrightarrow> P n x
   | Some (TI n) \<Rightarrow> \<forall>x. num n a x \<longrightarrow> P n x
   | _ \<Rightarrow> True)"

fun lookup_holds :: "'f::field valuation \<Rightarrow> value_id lookup_target \<Rightarrow> value_id list \<Rightarrow> bool" where
  "lookup_holds e (LtRangecheck n) [v] \<longleftrightarrow> (\<exists>x. num n (e v) x)"
| "lookup_holds e (LtSpread n) [key, v] \<longleftrightarrow> (\<exists>x. num n (e key) x \<and> e v = of_nat (spread_nat x))"
| "lookup_holds e _ _ \<longleftrightarrow> True"

text \<open>The bits of a field element are specified for a witness only: those of a pure one go through arrays, of which
  an assignment says nothing.\<close>

fun sat :: "value_types \<Rightarrow> 'f::field valuation \<Rightarrow> opcode \<Rightarrow> bool" where
  "sat types e (OpCmp CmpEq r a b) \<longleftrightarrow> e r = of_bool (e a = e b)"
| "sat types e (OpCmp CmpLt r a b) \<longleftrightarrow> less_holds (ty_of types a) (e a) (e b) (e r)"
| "sat types e (OpBinaryArithOp kind r a b) \<longleftrightarrow> arith_holds (ty_of types a) kind (e a) (e b) (e r)"
| "sat types e (OpCast r a _) \<longleftrightarrow> e r = e a"
| "sat types e (OpSExt r a from_bits to_bits) \<longleftrightarrow> on_bits (ty_of types a) (e a) (\<lambda>n x.
     x < 2 ^ from_bits \<longrightarrow> e r = of_nat (encoded to_bits (signed_of from_bits x)))"
| "sat types e (OpBitRange r a offset width) \<longleftrightarrow>
     on_bits (ty_of types a) (e a) (\<lambda>n x. e r = of_nat (x div 2 ^ offset mod 2 ^ width)) \<and>
     (types a = Some (TWitnessOf TField) \<longrightarrow> (\<forall>x. canonical (e a) x \<longrightarrow> e r = of_nat (x div 2 ^ offset mod 2 ^ width)))"
| "sat types e (OpNot r a) \<longleftrightarrow> on_bits (ty_of types a) (e a) (\<lambda>n x. e r = of_nat (2 ^ n - 1 - x))"
| "sat types e (OpSelect r cond a b) \<longleftrightarrow> (e cond = 1 \<longrightarrow> e r = e a) \<and> (e cond = 0 \<longrightarrow> e r = e b)"
| "sat types e (OpMulConst r a b) \<longleftrightarrow> e r = e a * e b"
| "sat types e (OpSpread r a bits) \<longleftrightarrow> (\<exists>x. num bits (e a) x \<and> e r = of_nat (spread_nat x))"
| "sat types e (OpUnspread r_odd r_even a bits) \<longleftrightarrow>
     (\<exists>x y. num bits (e r_odd) x \<and> num bits (e r_even) y \<and> e a = of_nat (2 * spread_nat x + spread_nat y))"
| "sat types e (OpConstrain a b c) \<longleftrightarrow> e a * e b = e c"
| "sat types e (OpRangecheck v bits) \<longleftrightarrow> (\<exists>x. num bits (e v) x)"
| "sat types e (OpLookup target args flag) \<longleftrightarrow> (e flag = 1 \<longrightarrow> lookup_holds e target args)"
| "sat types e (OpAssert v) \<longleftrightarrow> e v = 1"
| "sat types e (OpAssertCmp CmpEq a b) \<longleftrightarrow> e a = e b"
| "sat types e (OpAssertCmp CmpLt a b) \<longleftrightarrow> less_holds (ty_of types a) (e a) (e b) 1"
| "sat types e (OpAssertR1C a b c) \<longleftrightarrow> e a * e b = e c"
| "sat types e (OpGuard cond i) \<longleftrightarrow> (e cond = 1 \<longrightarrow> sat types e i)"
| "sat types e _ \<longleftrightarrow> True"

text \<open>An interned constant stands for itself.\<close>

definition const_ok :: "value_types \<Rightarrow> 'f::field valuation \<Rightarrow> value_id \<Rightarrow> 'f hl_constant \<Rightarrow> bool" where
  "const_ok types e v c \<longleftrightarrow> types v = Some (const_value_type c) \<and>
     (case c of ConstU _ k \<Rightarrow> e v = of_nat (unat k) | ConstI _ k \<Rightarrow> e v = of_nat (unat k)
      | ConstField x \<Rightarrow> e v = x | ConstFnPtr _ \<Rightarrow> True)"

definition holds :: "function_types \<Rightarrow> value_types \<Rightarrow> 'f::field valuation \<Rightarrow> opcode \<Rightarrow> bool" where
  "holds ft types e i \<longleftrightarrow> well_typed ft types i \<and> sat types e i"

text \<open>An assignment satisfies what an emitter holds: the instructions, under the types that the types analysis
  gives them, and the constants.\<close>

definition satisfied :: "function_types \<Rightarrow> value_types \<Rightarrow> 'f::field valuation \<Rightarrow> 'f emitter \<Rightarrow> bool" where
  "satisfied ft types e s \<longleftrightarrow> (\<forall>i \<in> set (em_out s). holds ft types e i) \<and>
     (\<forall>(v, c) \<in> set (s_constants (em_ssa s)). const_ok types e v c)"

subsection \<open>Emitters only append\<close>

named_theorems appends_intros
named_theorems emit_rules

definition grows :: "'f emitter \<Rightarrow> 'f emitter \<Rightarrow> bool" where
  "grows s s' \<longleftrightarrow> const_inv (em_ssa s') \<and> set (s_constants (em_ssa s)) \<subseteq> set (s_constants (em_ssa s')) \<and>
     set (em_out s) \<subseteq> set (em_out s')"

definition appends :: "('f, 'a) emits \<Rightarrow> bool" where
  "appends M \<longleftrightarrow> (\<forall>s r s'. run_state M s = (r, s') \<longrightarrow> const_inv (em_ssa s) \<longrightarrow> grows s s')"

lemma appends_return [appends_intros]: "appends (return x)"
  by (auto simp: appends_def grows_def State_Monad.return_def)

lemma appends_bind [appends_intros]:
  assumes "appends M" "\<And>x. appends (N x)"
  shows "appends (State_Monad.bind M N)"
  unfolding appends_def
proof (intro allI impI)
  fix s r s' assume run: "run_state (State_Monad.bind M N) s = (r, s')" and inv: "const_inv (em_ssa s)"
  obtain x s1 where 1: "run_state M s = (x, s1)" by fastforce
  then have 2: "run_state (N x) s1 = (r, s')" using run by (simp add: State_Monad.bind_def)
  have "grows s s1" using assms(1) 1 inv unfolding appends_def by blast
  moreover from this have "grows s1 s'" using assms(2) [of x] 2 unfolding appends_def grows_def by blast
  ultimately show "grows s s'" unfolding grows_def by blast
qed

lemma appends_fresh [appends_intros]: "appends em_fresh"
  by (auto simp: appends_def grows_def em_fresh_def fresh_value_def const_inv_def less_Suc_eq split: prod.splits)

lemma appends_emit [appends_intros]: "appends (em_emit i)"
  by (auto simp: appends_def grows_def em_emit_def)

lemma em_constant_props:
  assumes "run_state (em_constant c) s = (v, s')" "const_inv (em_ssa s)"
  shows "grows s s'" "(v, c) \<in> set (s_constants (em_ssa s'))"
proof -
  obtain t where t: "add_const c (em_ssa s) = (v, t)" "s' = s\<lparr>em_ssa := t\<rparr>"
    using assms(1) by (auto simp: em_constant_def split: prod.splits)
  note p = add_const_props [OF assms(2) t(1)]
  have "set (s_constants (em_ssa s)) \<subseteq> set (s_constants t)"
    using p(4) get_const_iff [OF assms(2)] get_const_iff [OF p(1)] by auto
  then show "grows s s'" using p(1) by (simp add: grows_def t(2))
  show "(v, c) \<in> set (s_constants (em_ssa s'))" using get_const_iff [OF p(1), of v c] p(2) by (simp add: t(2))
qed

lemma appends_constant [appends_intros]: "appends (em_constant c)"
  unfolding appends_def using em_constant_props(1) by blast

lemma appends_if [appends_intros]: "appends M \<Longrightarrow> appends N \<Longrightarrow> appends (if b then M else N)"
  by simp

lemma appends_option [appends_intros]:
  "appends M \<Longrightarrow> (\<And>x. appends (N x)) \<Longrightarrow> appends (case v of None \<Rightarrow> M | Some x \<Rightarrow> N x)"
  by (cases v) simp_all

lemmas em_binary_defs = em_add_def em_sub_def em_mul_def em_div_def em_modulo_def em_and_def em_or_def em_xor_def
  em_shl_def em_shr_def em_eq_def em_lt_def em_select_def

lemmas em_unary_defs = em_not_def em_cast_to_field_def em_cast_to_def em_bit_range_def em_value_of_def
  em_write_witness_def em_spread_def em_unspread_def em_to_radix_def em_array_get_def

lemmas em_check_defs = em_constrain_def em_rangecheck_def em_lookup_spread_def em_lookup_rngchk_8_def
  em_field_const_def em_u_const_def em_ensure_field_def

lemma appends_ops [appends_intros]:
  "appends (em_add a b)" "appends (em_sub a b)" "appends (em_mul a b)" "appends (em_div a b)" "appends (em_modulo a b)"
  "appends (em_and a b)" "appends (em_or a b)" "appends (em_xor a b)" "appends (em_shl a b)" "appends (em_shr a b)"
  "appends (em_eq a b)" "appends (em_lt a b)" "appends (em_select a b c)" "appends (em_not a)" "appends (em_cast_to_field a)"
  "appends (em_cast_to target a)" "appends (em_bit_range a n k)" "appends (em_value_of a)" "appends (em_write_witness a)"
  "appends (em_spread a n)" "appends (em_unspread a n)" "appends (em_to_radix a radix en n)" "appends (em_array_get a b)"
  "appends (em_constrain a b c)" "appends (em_rangecheck a n)" "appends (em_lookup_spread n a b c)"
  "appends (em_lookup_rngchk_8 a b)" "appends (em_field_const x)" "appends (em_u_const n w)" "appends (em_ensure_field a t)"
  unfolding em_binary_defs em_unary_defs em_check_defs by (intro appends_intros)+

subsection \<open>What a satisfied emitter says of the value an action returns\<close>

definition emitting ::
  "function_types \<Rightarrow> value_types \<Rightarrow> 'f::field valuation \<Rightarrow> ('f, 'a) emits \<Rightarrow> ('a \<Rightarrow> bool) \<Rightarrow> bool" where
  "emitting ft types e M Q \<longleftrightarrow> (\<forall>s r s'. run_state M s = (r, s') \<longrightarrow> const_inv (em_ssa s) \<longrightarrow>
     satisfied ft types e s' \<longrightarrow> Q r)"

lemma satisfied_grows: "satisfied ft types e s' \<Longrightarrow> grows s s' \<Longrightarrow> satisfied ft types e s"
  by (auto simp: satisfied_def grows_def)

lemma emitting_return [emit_rules]: "Q x \<Longrightarrow> emitting ft types e (return x) Q"
  by (simp add: emitting_def State_Monad.return_def)

lemma emitting_bind:
  assumes "appends M" "\<And>x. appends (N x)" "emitting ft types e M (\<lambda>x. emitting ft types e (N x) Q)"
  shows "emitting ft types e (State_Monad.bind M N) Q"
  unfolding emitting_def
proof (intro allI impI)
  fix s r s'
  assume run: "run_state (State_Monad.bind M N) s = (r, s')" and inv: "const_inv (em_ssa s)" and sat: "satisfied ft types e s'"
  obtain x s1 where 1: "run_state M s = (x, s1)" by fastforce
  then have 2: "run_state (N x) s1 = (r, s')" using run by (simp add: State_Monad.bind_def)
  have g1: "grows s s1" using assms(1) 1 inv unfolding appends_def by blast
  have "grows s1 s'" using assms(2) [of x] 2 g1 unfolding appends_def grows_def by blast
  then have "emitting ft types e (N x) Q"
    using assms(3) 1 inv satisfied_grows [OF sat] unfolding emitting_def by blast
  then show "Q r" using 2 g1 sat unfolding emitting_def grows_def by blast
qed

lemma emitting_weaken: "emitting ft types e M P \<Longrightarrow> (\<And>x. P x \<Longrightarrow> Q x) \<Longrightarrow> emitting ft types e M Q"
  by (auto simp: emitting_def)

lemma emitting_fresh: "(\<And>r. Q r) \<Longrightarrow> emitting ft types e em_fresh Q"
  by (simp add: emitting_def)

lemma emitting_emit: "(holds ft types e i \<Longrightarrow> Q ()) \<Longrightarrow> emitting ft types e (em_emit i) Q"
  by (auto simp: emitting_def em_emit_def satisfied_def)

lemma emitting_constant: "(\<And>v. const_ok types e v c \<Longrightarrow> Q v) \<Longrightarrow> emitting ft types e (em_constant c) Q"
  unfolding emitting_def satisfied_def using em_constant_props(2) by fast

text \<open>An instruction with one new result.\<close>

lemma emitting_result:
  "(\<And>r. holds ft types e (i r) \<Longrightarrow> Q r) \<Longrightarrow>
   emitting ft types e (State_Monad.bind em_fresh (\<lambda>r. State_Monad.bind (em_emit (i r)) (\<lambda>_. return r))) Q"
  by (intro emitting_bind emitting_fresh emitting_emit emitting_return appends_intros)

subsection \<open>The rules\<close>

lemma ty_of_witness: "witness_of t = Some t' \<Longrightarrow> strip_witness t' = t"
  by (auto simp: witness_of_def split: ty.splits)

lemma ty_of_witness_like: "witness_like v t = Some t' \<Longrightarrow> \<not> is_witness_of t \<Longrightarrow> strip_witness t' = t"
  by (cases t) (auto simp: witness_like_def is_witness_of_def witness_of_def split: if_splits ty.splits)

lemma witness_of_wraps: "witness_of t = Some t' \<longleftrightarrow> t' = TWitnessOf t \<and> \<not> is_witness_of t"
  by (cases t) (auto simp: witness_of_def is_witness_of_def)

lemma arith_type_field_right:
  "get_arithmetic_result_type TField r = Some t \<Longrightarrow> if is_witness_of r then t = TWitnessOf TField else t = TField"
proof (induction r arbitrary: t)
  case (TWitnessOf r)
  then obtain u where "get_arithmetic_result_type TField r = Some u" "witness_of u = Some t" by (auto simp: bind_Some_iff)
  then show ?case using TWitnessOf.IH by (auto simp: witness_of_wraps is_witness_of_def split: if_splits)
qed (simp_all add: is_witness_of_def)

lemma arith_type_field:
  assumes "get_arithmetic_result_type l r = Some t" "strip_witness l = TField"
  shows "strip_witness t = TField"
proof -
  consider "l = TField" | "l = TWitnessOf TField" using assms(2) by (cases l) auto
  then show ?thesis
  proof cases
    case 1
    then show ?thesis using assms(1) arith_type_field_right [of r t] by (auto split: if_splits)
  next
    case 2
    then obtain q u where "get_arithmetic_result_type TField q = Some u" "witness_of u = Some t"
      using assms(1) by (cases r) (auto simp: bind_Some_iff simp del: get_arithmetic_result_type.simps(2))
    then show ?thesis using arith_type_field_right [of q u] by (auto simp: witness_of_wraps is_witness_of_def split: if_splits)
  qed
qed

lemma holds_field_arith:
  assumes "holds ft types e (OpBinaryArithOp kind r a b)" "ty_of types a = Some TField"
  shows "ty_of types r = Some TField \<and> field_arith kind (e a) (e b) (e r)"
proof -
  obtain l q t where "types a = Some l" "types b = Some q" "get_arithmetic_result_type l q = Some t" "types(r \<mapsto> t) = types"
    using assms(1) by (auto simp: holds_def well_typed_def bind_Some_iff)
  moreover from this have "types r = Some t" by (metis fun_upd_same)
  ultimately show ?thesis using assms by (auto simp: holds_def ty_of_def arith_holds_def dest: arith_type_field)
qed

lemma holds_cast:
  assumes "holds ft types e (OpCast r a target)" "target = CastField \<and> t = TField \<or> target = CastU n \<and> t = TU n \<or> target = CastI n \<and> t = TI n"
  shows "ty_of types r = Some t \<and> e r = e a"
proof -
  obtain v u where "types a = Some v" "cast_result_type v target = Some u" "types(r \<mapsto> u) = types"
    using assms(1) by (auto simp: holds_def well_typed_def bind_Some_iff)
  moreover from this have "types r = Some u" by (metis fun_upd_same)
  ultimately show ?thesis
    using assms by (auto simp: holds_def ty_of_def is_witness_of_def dest!: ty_of_witness_like)
qed

lemma holds_same_type:
  assumes "holds ft types e i" "i = OpBitRange r a offset width \<or> i = OpNot r a"
  shows "types r = types a"
proof -
  obtain v where "types a = Some v" "types(r \<mapsto> v) = types"
    using assms by (auto simp: holds_def well_typed_def bind_Some_iff split: if_splits)
  then show ?thesis by (metis fun_upd_same)
qed

lemma holds_select_type:
  assumes "holds ft types e (OpSelect r c a b)" "ty_of types a = Some TField"
  shows "ty_of types r = Some TField"
proof -
  obtain u l q alt t where "types a = Some l" "get_arithmetic_result_type l q = Some alt"
    "t = alt \<or> witness_of alt = Some t" "types(r \<mapsto> t) = types"
    using assms(1) by (auto simp: holds_def well_typed_def select_result_type_def bind_Some_iff split: if_splits)
  moreover from this have "types r = Some t" by (metis fun_upd_same)
  moreover have "strip_witness alt = TField" using calculation(1,2) assms(2) arith_type_field by (auto simp: ty_of_def)
  ultimately show ?thesis by (cases alt) (auto simp: ty_of_def witness_of_wraps is_witness_of_def)
qed

lemma holds_cmp:
  assumes "holds ft types e (OpCmp kind r a b)"
  shows "ty_of types r = Some (TU 1)"
proof -
  obtain t where "types(r \<mapsto> t) = types" "strip_witness t = TU 1"
    using assms by (auto simp: holds_def well_typed_def bind_Some_iff split: if_splits)
  then show ?thesis by (metis fun_upd_same option.simps(9) ty_of_def)
qed

lemma holds_write_witness:
  assumes "holds ft types e (OpWriteWitness (Some r) v pinned)"
  shows "ty_of types r = ty_of types v"
proof -
  obtain u t where u: "types v = Some u" "witness_of u = Some t" "types(r \<mapsto> t) = types"
    using assms by (auto simp: holds_def well_typed_def bind_Some_iff)
  then have "types r = Some t" by (metis fun_upd_same)
  moreover have "strip_witness u = u" using u(2) by (cases u) (auto simp: witness_of_def)
  ultimately show ?thesis using u by (simp add: ty_of_def ty_of_witness)
qed

text \<open>One rule for each method of the emitter: what its instruction gives of the result.\<close>

lemma holds_sat: "holds ft types e i \<Longrightarrow> sat types e i"
  by (simp add: holds_def)

lemma holds_bit_range_type: "holds ft types e (OpBitRange r a offset width) \<Longrightarrow> ty_of types r = ty_of types a"
  using holds_same_type [of ft types e _ r a offset width] by (simp add: ty_of_def)

lemma holds_select_type_imp:
  "holds ft types e (OpSelect r c a b) \<Longrightarrow> ty_of types a = Some TField \<longrightarrow> ty_of types r = Some TField"
  using holds_select_type by blast

lemma holds_field_arith_imp:
  "holds ft types e (OpBinaryArithOp kind r a b) \<Longrightarrow>
    ty_of types a = Some TField \<longrightarrow> ty_of types r = Some TField \<and> field_arith kind (e a) (e b) (e r)"
  using holds_field_arith by blast

lemma emit_binary [emit_rules]:
  "(\<And>r. (ty_of types a = Some TField \<longrightarrow> ty_of types r = Some TField \<and> e r = e a + e b) \<Longrightarrow> Q r) \<Longrightarrow>
    emitting ft types e (em_add a b) Q"
  "(\<And>r. (ty_of types a = Some TField \<longrightarrow> ty_of types r = Some TField \<and> e r = e a - e b) \<Longrightarrow> Q r) \<Longrightarrow>
    emitting ft types e (em_sub a b) Q"
  "(\<And>r. (ty_of types a = Some TField \<longrightarrow> ty_of types r = Some TField \<and> e r = e a * e b) \<Longrightarrow> Q r) \<Longrightarrow>
    emitting ft types e (em_mul a b) Q"
  "(\<And>r. (ty_of types a = Some TField \<longrightarrow> ty_of types r = Some TField \<and> e r * e b = e a) \<Longrightarrow> Q r) \<Longrightarrow>
    emitting ft types e (em_div a b) Q"
  unfolding em_binary_defs by (rule emitting_result, drule holds_field_arith_imp, simp)+

lemma emit_bits [emit_rules]:
  "(\<And>r. arith_holds (ty_of types a) BopXor (e a) (e b) (e r) \<Longrightarrow> Q r) \<Longrightarrow> emitting ft types e (em_xor a b) Q"
  "(\<And>r. ty_of types r = Some (TU 1) \<Longrightarrow> e r = of_bool (e a = e b) \<Longrightarrow> Q r) \<Longrightarrow> emitting ft types e (em_eq a b) Q"
  "(\<And>r. ty_of types r = Some (TU 1) \<Longrightarrow> less_holds (ty_of types a) (e a) (e b) (e r) \<Longrightarrow> Q r) \<Longrightarrow>
    emitting ft types e (em_lt a b) Q"
  "(\<And>r. (ty_of types a = Some TField \<longrightarrow> ty_of types r = Some TField) \<Longrightarrow>
      (e c = 1 \<longrightarrow> e r = e a) \<and> (e c = 0 \<longrightarrow> e r = e b) \<Longrightarrow> Q r) \<Longrightarrow> emitting ft types e (em_select c a b) Q"
  "(\<And>r. ty_of types r = ty_of types a \<Longrightarrow>
      on_bits (ty_of types a) (e a) (\<lambda>n x. e r = of_nat (x div 2 ^ offset mod 2 ^ width)) \<Longrightarrow> Q r) \<Longrightarrow>
    emitting ft types e (em_bit_range a offset width) Q"
  unfolding em_binary_defs em_bit_range_def
  by ((rule emitting_result, drule holds_sat, simp), (rule emitting_result, frule holds_cmp, drule holds_sat, simp)+,
    (rule emitting_result, frule holds_select_type_imp, drule holds_sat, simp),
    (rule emitting_result, frule holds_bit_range_type, drule holds_sat, simp))

lemma emit_casts [emit_rules]:
  "(\<And>r. ty_of types r = Some TField \<Longrightarrow> e r = e a \<Longrightarrow> Q r) \<Longrightarrow> emitting ft types e (em_cast_to_field a) Q"
  "(\<And>r. ty_of types r = Some (TU n) \<Longrightarrow> e r = e a \<Longrightarrow> Q r) \<Longrightarrow> emitting ft types e (em_cast_to (CastU n) a) Q"
  "(\<And>r. ty_of types r = ty_of types a \<Longrightarrow> Q r) \<Longrightarrow> emitting ft types e (em_write_witness a) Q"
  "(\<And>r. Q r) \<Longrightarrow> emitting ft types e (em_value_of a) Q"
  unfolding em_unary_defs
  by (rule emitting_result, drule holds_cast, simp, simp | rule emitting_result, drule holds_write_witness, simp
    | rule emitting_result, assumption)+

lemma emit_ensure_field [emit_rules]:
  "ty_of types a = Some (strip_witness t) \<Longrightarrow> (\<And>r. ty_of types r = Some TField \<Longrightarrow> e r = e a \<Longrightarrow> Q r) \<Longrightarrow>
   emitting ft types e (em_ensure_field a t) Q"
  by (auto simp: em_ensure_field_def is_field_def split: ty.splits intro!: emit_rules)

lemma emit_consts [emit_rules]:
  "(\<And>v. types v = Some TField \<Longrightarrow> ty_of types v = Some TField \<Longrightarrow> e v = x \<Longrightarrow> Q v) \<Longrightarrow>
    emitting ft types e (em_field_const x) Q"
  "(\<And>v. types v = Some (TU n) \<Longrightarrow> ty_of types v = Some (TU n) \<Longrightarrow> e v = of_nat (unat w) \<Longrightarrow> Q v) \<Longrightarrow>
    emitting ft types e (em_u_const n w) Q"
  unfolding em_check_defs by (intro emitting_constant; simp add: const_ok_def ty_of_def)+

lemma emit_checks [emit_rules]:
  "(e a * e b = e c \<Longrightarrow> Q ()) \<Longrightarrow> emitting ft types e (em_constrain a b c) Q"
  "(\<exists>x. num n (e a) x \<Longrightarrow> Q ()) \<Longrightarrow> emitting ft types e (em_rangecheck a n) Q"
  "((e flag = 1 \<longrightarrow> (\<exists>x. num n (e a) x \<and> e b = of_nat (spread_nat x))) \<Longrightarrow> Q ()) \<Longrightarrow>
    emitting ft types e (em_lookup_spread n a b flag) Q"
  "((e flag = 1 \<longrightarrow> (\<exists>x. num 8 (e a) x)) \<Longrightarrow> Q ()) \<Longrightarrow> emitting ft types e (em_lookup_rngchk_8 a flag) Q"
  unfolding em_check_defs by (intro emitting_emit; simp add: holds_def)+

lemma emit_cast [emit_rules]: "(e r = e a \<Longrightarrow> Q ()) \<Longrightarrow> emitting ft types e (em_emit (OpCast r a target)) Q"
  by (intro emitting_emit) (simp add: holds_def)

lemma emit_select [emit_rules]:
  "((e cond = 1 \<longrightarrow> e r = e a) \<and> (e cond = 0 \<longrightarrow> e r = e b) \<Longrightarrow> Q ()) \<Longrightarrow>
    emitting ft types e (em_emit (OpSelect r cond a b)) Q"
  by (intro emitting_emit) (simp add: holds_def)

lemma emit_option [emit_rules]:
  "(v = None \<Longrightarrow> emitting ft types e M Q) \<Longrightarrow> (\<And>x. v = Some x \<Longrightarrow> emitting ft types e (N x) Q) \<Longrightarrow>
    emitting ft types e (case v of None \<Rightarrow> M | Some x \<Rightarrow> N x) Q"
  by (cases v) simp_all

subsection \<open>Idioms of the lowerings\<close>

text \<open>The value a hint is computed from.\<close>

definition pure_of :: "bool \<Rightarrow> value_id \<Rightarrow> ('f, value_id) emits" where
  "pure_of is_witness v = (if is_witness then em_value_of v else return v)"

definition emit_guarded :: "value_id option \<Rightarrow> opcode \<Rightarrow> ('f, unit) emits" where
  "emit_guarded guard i = (case guard of Some condition \<Rightarrow> em_emit (OpGuard condition i) | None \<Rightarrow> em_emit i)"

definition active :: "'f::field valuation \<Rightarrow> value_id option \<Rightarrow> bool" where
  "active e guard \<longleftrightarrow> (case guard of Some condition \<Rightarrow> e condition = 1 | None \<Rightarrow> True)"

lemma active_simps [simp]: "active e None" "active e (Some c) \<longleftrightarrow> e c = 1"
  by (simp_all add: active_def)

lemma active_None: "guard = None \<Longrightarrow> active e guard"
  and active_Some: "guard = Some c \<Longrightarrow> e c = 1 \<Longrightarrow> active e guard"
  by simp_all

lemma appends_idioms [appends_intros]: "appends (pure_of w v)" "appends (emit_guarded guard i)"
  by (auto simp: pure_of_def emit_guarded_def split: option.splits intro!: appends_intros)

lemma emit_pure_of [emit_rules]: "(\<And>r. Q r) \<Longrightarrow> emitting ft types e (pure_of w v) Q"
  by (auto simp: pure_of_def intro!: emit_rules)

lemma emit_emit_guarded [emit_rules]:
  "((active e guard \<longrightarrow> (\<exists>x. num n (e v) x)) \<Longrightarrow> Q ()) \<Longrightarrow> emitting ft types e (emit_guarded guard (OpRangecheck v n)) Q"
  by (cases guard) (auto simp: emit_guarded_def holds_def intro!: emitting_emit)

subsection \<open>The context of a lowering\<close>

text \<open>\<^verbatim>\<open>LoweringContext\<close> of \<^verbatim>\<open>passes/instruction_lowering/mod.rs\<close>: the types and the ranges of the values of the
  function. A rule emits and says whether it lowered the instruction; \<open>None\<close> is a panic. A value without a type is
  one.\<close>

record lowering_context =
  lc_types :: value_types
  lc_ranges :: "(value_id \<Rightarrow> int_interval option) option"

definition lc_range :: "lowering_context \<Rightarrow> value_id \<Rightarrow> int_interval" where
  "lc_range ctx v = (case lc_ranges ctx of
     Some ranges \<Rightarrow> (case ranges v of Some r \<Rightarrow> r | None \<Rightarrow> iv_top)
   | None \<Rightarrow> iv_top)"

type_synonym 'f rule = "lowering_context \<Rightarrow> opcode \<Rightarrow> ('f, bool) emits option"

text \<open>The shape that the rules share: a guarded instruction is lowered by its inner one.\<close>

fun guard_of :: "opcode \<Rightarrow> value_id option" where
  "guard_of (OpGuard condition _) = Some condition"
| "guard_of _ = None"

fun guarded_op :: "opcode \<Rightarrow> opcode" where
  "guarded_op (OpGuard _ inner) = inner"
| "guarded_op i = i"

subsection \<open>Sound rules\<close>

text \<open>What a lowering may rely on: the field is not smaller than BN254's (a prime field of that order, or one
  without a characteristic), types do not nest witnesses, the types the rule sees of the operands are those of the
  rewritten function, their widths are at most 251 bits, the ranges contain the numbers behind the operands, and
  the two operands of an integer operation have the same type. Operations that multiply two integers need operands
  of at most 126 bits, so that the product is below the order of the field, a sign is extended to more bits, and a
  field element is cut at bytes: a part of a byte is not tied to its value, see \<open>Lower_BitRange\<close>.\<close>

definition bn254_like :: "'f::field itself \<Rightarrow> bool" where
  "bn254_like _ \<longleftrightarrow> (\<forall>z. (of_int z :: 'f) = 0 \<longrightarrow> bn254_modulus dvd z)"

definition flat_types :: "value_types \<Rightarrow> bool" where
  "flat_types types \<longleftrightarrow> (\<forall>v t. types v = Some t \<longrightarrow> \<not> is_witness_of (strip_witness t))"

definition in_range :: "lowering_context \<Rightarrow> value_types \<Rightarrow> 'f::field valuation \<Rightarrow> value_id \<Rightarrow> bool" where
  "in_range ctx types e v \<longleftrightarrow> (case ty_of types v of
     Some (TU n) \<Rightarrow> n \<le> 251 \<and> (\<forall>x. num n (e v) x \<longrightarrow> in_iv (int x) (lc_range ctx v))
   | Some (TI n) \<Rightarrow> n \<le> 251 \<and> (\<forall>x. num n (e v) x \<longrightarrow> in_iv (signed_of n x) (lc_range ctx v))
   | _ \<Rightarrow> True)"

definition narrow :: "nat \<Rightarrow> ty option \<Rightarrow> bool" where
  "narrow w t \<longleftrightarrow> (case t of Some (TU n) \<Rightarrow> n \<le> w | Some (TI n) \<Rightarrow> n \<le> w | _ \<Rightarrow> True)"

fun same_operands :: "value_types \<Rightarrow> opcode \<Rightarrow> bool" where
  "same_operands types (OpCmp CmpLt _ a b) \<longleftrightarrow> ty_of types a = ty_of types b"
| "same_operands types (OpAssertCmp CmpLt a b) \<longleftrightarrow> ty_of types a = ty_of types b"
| "same_operands types (OpBinaryArithOp kind _ a b) \<longleftrightarrow> 
     (kind \<in> {BopShl, BopShr} \<or> ty_of types a = ty_of types b) \<and>
     (kind \<in> {BopMul, BopDiv, BopMod, BopShl} \<longrightarrow> narrow 126 (ty_of types a))"
| "same_operands types (OpSExt _ _ from_bits to_bits) \<longleftrightarrow> from_bits \<le> to_bits"
| "same_operands types (OpBitRange _ a offset width) \<longleftrightarrow> (types a = Some (TWitnessOf TField) \<longrightarrow> 8 dvd offset \<and> 8 dvd width)"
| "same_operands types (OpGuard _ i) \<longleftrightarrow> same_operands types i"
| "same_operands types _ \<longleftrightarrow> True"

definition ready :: "lowering_context \<Rightarrow> value_types \<Rightarrow> 'f::field valuation \<Rightarrow> opcode \<Rightarrow> bool" where
  "ready ctx types e i \<longleftrightarrow> flat_types types \<and> same_operands types i \<and>
     (\<forall>v \<in> set (get_inputs i). types v = lc_types ctx v \<and> in_range ctx types e v)"

definition sound_rule :: "'f::field rule \<Rightarrow> bool" where
  "sound_rule R \<longleftrightarrow> (\<forall>ctx i M s s' ft types e. R ctx i = Some M \<longrightarrow> run_state M s = (True, s') \<longrightarrow> const_inv (em_ssa s) \<longrightarrow>
     satisfied ft types e s' \<longrightarrow> ready ctx types e i \<longrightarrow> sat types e i)"

lemma emittingD:
  "emitting ft types e M Q \<Longrightarrow> run_state M s = (r, s') \<Longrightarrow> const_inv (em_ssa s) \<Longrightarrow> satisfied ft types e s' \<Longrightarrow> Q r"
  by (simp add: emitting_def)

lemma sound_ruleI:
  assumes "\<And>ctx i M ft types e. R ctx i = Some M \<Longrightarrow> ready ctx types (e :: 'f::field valuation) i \<Longrightarrow>
    emitting ft types e M (\<lambda>lowered. lowered \<longrightarrow> sat types e i)"
  shows "sound_rule R"
  unfolding sound_rule_def using emittingD [OF assms] by blast

lemma sat_guarded: "sat types e i \<longleftrightarrow> (active e (guard_of i) \<longrightarrow> sat types e (guarded_op i))"
  by (cases i) simp_all

lemma ready_guarded:
  assumes "ready ctx types e i" "types = types"
  shows "ready ctx types e (guarded_op i)" "guard_of i = Some c \<Longrightarrow> types c = lc_types ctx c"
  using assms by (cases i; simp add: ready_def)+

lemma strip_strip: "\<not> is_witness_of (strip_witness t) \<Longrightarrow> strip_witness (strip_witness t) = strip_witness t"
  by (cases "strip_witness t") (auto simp: is_witness_of_def)

lemma flat_ty_of: "flat_types types \<Longrightarrow> types v = Some t \<Longrightarrow> ty_of types v = Some (strip_witness (strip_witness t))"
  by (simp add: flat_types_def ty_of_def strip_strip)

lemma flat_ty_of_once: "flat_types types \<Longrightarrow> types v = Some t \<Longrightarrow> ty_of types v = Some (strip_witness t)"
  by (simp add: ty_of_def)

text \<open>Numbers whose distance is less than the order are equal when their field elements are.\<close>

lemma bn254_eq:
  assumes "bn254_like TYPE('f::field)" "(of_int x :: 'f) = of_int y" "\<bar>x - y\<bar> < bn254_modulus"
  shows "x = y"
proof -
  have "(of_int (x - y) :: 'f) = 0" using assms(2) by simp
  then have "bn254_modulus dvd (x - y)" using assms(1) unfolding bn254_like_def by blast
  then show ?thesis using assms(3) zdvd_imp_le [of bn254_modulus "\<bar>x - y\<bar>"] by (cases "x = y") auto
qed

lemma bn254_bound: "n \<le> 253 \<Longrightarrow> 2 ^ n < bn254_modulus"
proof -
  assume "n \<le> 253"
  then have "(2 :: int) ^ n \<le> 2 ^ 253" by (rule power_increasing) simp
  then show ?thesis by (simp add: bn254_modulus_def)
qed

lemma bn254_inj: "bn254_like TYPE('f::field) \<Longrightarrow> n \<le> 253 \<Longrightarrow> inj_on (of_nat :: nat \<Rightarrow> 'f) {..<2 ^ n}"
proof (rule inj_onI)
  fix x y :: nat
  assume f: "bn254_like TYPE('f)" "n \<le> 253" and xy: "x \<in> {..<2 ^ n}" "y \<in> {..<2 ^ n}" "(of_nat x :: 'f) = of_nat y"
  have "int x < 2 ^ n" "int y < 2 ^ n" using xy by (metis lessThan_iff of_nat_less_iff of_nat_numeral of_nat_power)+
  then have "\<bar>int x - int y\<bar> < bn254_modulus" using bn254_bound [OF f(2)] by linarith
  then show "x = y" using bn254_eq [OF f(1), of "int x" "int y"] xy(3) by simp
qed

lemma bn254_num: "bn254_like TYPE('f::field) \<Longrightarrow> n \<le> 253 \<Longrightarrow> num n (a :: 'f) x \<Longrightarrow> num n a y \<Longrightarrow> x = y"
  using inj_onD [OF bn254_inj, of n x y] by (auto simp: num_def)

end
