(* ===== verification/Lower_Compare.thy ===== *)
theory Lower_Compare
  imports Gadget_Semantics
begin

text \<open>
  Comparisons and assertions on witnesses (\<^verbatim>\<open>passes/instruction_lowering/witness_compare.rs\<close>,
  \<^verbatim>\<open>witness_assert.rs\<close>) become constraints and range checks. They are sound: an assignment that satisfies
  what a rule emits satisfies the comparison or the assertion.
\<close>

subsection \<open>Comparisons\<close>

definition sign_bit :: "value_id \<Rightarrow> nat \<Rightarrow> ('f, value_id) emits" where
  "sign_bit v bits = do {
     sign \<leftarrow> em_bit_range v (bits - 1) 1;
     em_cast_to (CastU 1) sign }"

definition emit_rangecheck :: "value_id option \<Rightarrow> value_id \<Rightarrow> nat \<Rightarrow> ('f, unit) emits" where
  "emit_rangecheck guard v bits = emit_guarded guard (OpRangecheck v bits)"

definition lower_eq :: "value_id \<Rightarrow> value_id \<Rightarrow> value_id \<Rightarrow> ty \<Rightarrow> ty \<Rightarrow> ('f::field, unit) emits" where
  "lower_eq result lhs rhs lhs_type rhs_type = do {
     lhs_field \<leftarrow> em_ensure_field lhs (strip_witness lhs_type);
     rhs_field \<leftarrow> em_ensure_field rhs (strip_witness rhs_type);
     diff \<leftarrow> em_sub lhs_field rhs_field;
     lhs_pure \<leftarrow> pure_of (is_witness_of lhs_type) lhs;
     rhs_pure \<leftarrow> pure_of (is_witness_of rhs_type) rhs;
     result_hint \<leftarrow> em_eq lhs_pure rhs_pure;
     result_hint_field \<leftarrow> em_cast_to_field result_hint;
     result_witness \<leftarrow> em_write_witness result_hint_field;
     em_emit (OpCast result result_witness (CastU 1));
     result_field \<leftarrow> em_cast_to_field result;
     one \<leftarrow> em_field_const 1;
     not_result \<leftarrow> em_sub one result_field;
     quotient \<leftarrow> em_div not_result diff;
     quotient_plus_result \<leftarrow> em_add quotient result_field;
     em_constrain diff quotient_plus_result not_result }"

definition emit_unsigned_lt ::
  "value_id option \<Rightarrow> value_id \<Rightarrow> value_id \<Rightarrow> value_id \<Rightarrow> nat \<Rightarrow> ty \<Rightarrow> ty \<Rightarrow> ('f::field, unit) emits" where
  "emit_unsigned_lt guard result lhs rhs bits lhs_type rhs_type = do {
     lhs_pure \<leftarrow> pure_of (is_witness_of lhs_type) lhs;
     rhs_pure \<leftarrow> pure_of (is_witness_of rhs_type) rhs;
     lhs_hint \<leftarrow> em_cast_to (CastU bits) lhs_pure;
     rhs_hint \<leftarrow> em_cast_to (CastU bits) rhs_pure;
     result_hint \<leftarrow> em_lt lhs_hint rhs_hint;
     result_hint_field \<leftarrow> em_cast_to_field result_hint;
     result_witness \<leftarrow> em_write_witness result_hint_field;
     em_emit (OpCast result result_witness (CastU 1));
     result_field \<leftarrow> em_cast_to_field result;
     emit_rangecheck guard result_field 1;
     lhs_field \<leftarrow> em_ensure_field lhs (strip_witness lhs_type);
     rhs_field \<leftarrow> em_ensure_field rhs (strip_witness rhs_type);
     one \<leftarrow> em_field_const 1;
     true_delta \<leftarrow> em_sub rhs_field lhs_field;
     true_delta \<leftarrow> em_sub true_delta one;
     false_delta \<leftarrow> em_sub lhs_field rhs_field;
     delta_diff \<leftarrow> em_sub true_delta false_delta;
     selected_adjustment \<leftarrow> em_mul result_field delta_diff;
     selected_delta \<leftarrow> em_add false_delta selected_adjustment;
     emit_rangecheck guard selected_delta bits }"

definition lower_unsigned_lt ::
  "value_id option \<Rightarrow> value_id \<Rightarrow> value_id \<Rightarrow> value_id \<Rightarrow> nat \<Rightarrow> ty \<Rightarrow> ty \<Rightarrow> ('f::field, unit) emits option" where
  "lower_unsigned_lt guard result lhs rhs bits lhs_type rhs_type = do {
     ensure (bits > 0);
     Some (emit_unsigned_lt guard result lhs rhs bits lhs_type rhs_type) }"

definition lower_signed_lt ::
  "value_id option \<Rightarrow> value_id \<Rightarrow> value_id \<Rightarrow> value_id \<Rightarrow> nat \<Rightarrow> ty \<Rightarrow> ty \<Rightarrow> ('f::field, unit) emits option" where
  "lower_signed_lt guard result lhs rhs bits lhs_type rhs_type = do {
     ensure (bits > 0);
     Some (do {
       sign_l \<leftarrow> sign_bit lhs bits;
       sign_r \<leftarrow> sign_bit rhs bits;
       signs_differ \<leftarrow> em_xor sign_l sign_r;
       unsigned_result \<leftarrow> em_fresh;
       emit_unsigned_lt guard unsigned_result lhs rhs bits lhs_type rhs_type;
       signed_result \<leftarrow> em_select signs_differ sign_l unsigned_result;
       (case guard of
          Some condition \<Rightarrow> do {
            zero \<leftarrow> em_u_const 1 0;
            em_emit (OpSelect result condition signed_result zero) }
        | None \<Rightarrow> em_emit (OpCast result signed_result (CastU 1))) }) }"

definition lower_lt ::
  "value_id option \<Rightarrow> value_id \<Rightarrow> value_id \<Rightarrow> value_id \<Rightarrow> ty \<Rightarrow> ty \<Rightarrow> ('f::field, unit) emits option" where
  "lower_lt guard result lhs rhs lhs_type rhs_type = (case strip_witness rhs_type of
     TU bits \<Rightarrow> lower_unsigned_lt guard result lhs rhs bits lhs_type rhs_type
   | TI bits \<Rightarrow> lower_signed_lt guard result lhs rhs bits lhs_type rhs_type
   | _ \<Rightarrow> None)"

definition process_cmp :: "lowering_context \<Rightarrow> value_id option \<Rightarrow> opcode \<Rightarrow> ('f::field, bool) emits option" where
  "process_cmp ctx guard i = (case i of
     OpCmp kind result lhs rhs \<Rightarrow> do {
       lhs_type \<leftarrow> lc_types ctx lhs;
       rhs_type \<leftarrow> lc_types ctx rhs;
       if \<not> is_witness_of lhs_type \<and> \<not> is_witness_of rhs_type then Some (return False)
       else do {
         lower \<leftarrow> (case kind of
             CmpEq \<Rightarrow> Some (lower_eq result lhs rhs lhs_type rhs_type)
           | CmpLt \<Rightarrow> lower_lt guard result lhs rhs lhs_type rhs_type);
         Some (do { lower; return True }) } }
   | _ \<Rightarrow> Some (return False))"

definition lower_witness_compare :: "'f::field rule" where
  "lower_witness_compare ctx i = process_cmp ctx (guard_of i) (guarded_op i)"

subsection \<open>Soundness of the comparisons\<close>

lemma appends_compare [appends_intros]:
  "appends (sign_bit v bits)" "appends (emit_rangecheck guard v bits)"
  "appends (lower_eq result lhs rhs lt rt)" "appends (emit_unsigned_lt guard result lhs rhs bits lt rt)"
  by (simp_all add: sign_bit_def emit_rangecheck_def lower_eq_def emit_unsigned_lt_def appends_intros)

lemma emit_emit_rangecheck [emit_rules]:
  "((active e guard \<longrightarrow> (\<exists>x. num n (e v) x)) \<Longrightarrow> Q ()) \<Longrightarrow> emitting ft types e (emit_rangecheck guard v n) Q"
  unfolding emit_rangecheck_def by (rule emit_emit_guarded)

text \<open>The algebra of the gadgets.\<close>

lemma of_nat_eqD:
  "inj_on (of_nat :: nat \<Rightarrow> 'f::field) {..<n} \<Longrightarrow> (of_nat x :: 'f) = of_nat y \<Longrightarrow> x < n \<Longrightarrow> y < n \<Longrightarrow> x = y"
  by (simp add: inj_on_def)

lemma eq_gadget:
  fixes l h q r :: "'f::field"
  assumes "q * (l - h) = 1 - r" "(l - h) * (q + r) = 1 - r"
  shows "(l = h \<longrightarrow> r = 1) \<and> (l \<noteq> h \<longrightarrow> r = 0)"
proof (cases "l = h")
  case False
  have "(l - h) * (q + r) = q * (l - h)" using assms by simp
  then have "(l - h) * r = 0" by (simp add: algebra_simps)
  then show ?thesis using False by simp
qed (use assms in simp)

lemma of_nat_less_gadget:
  fixes x y k :: nat
  assumes "inj_on (of_nat :: nat \<Rightarrow> 'f::field) {..<2 ^ Suc n}" "x < 2 ^ n" "y < 2 ^ n" "k < 2 ^ n"
    "(of_nat y - of_nat x - 1 :: 'f) = of_nat k"
  shows "x < y"
proof -
  have "(of_nat y :: 'f) = of_nat (x + k + 1)" using assms(5) by (simp add: algebra_simps)
  then have "y = x + k + 1" using of_nat_eqD [OF assms(1)] assms(2-4) by simp
  then show ?thesis by simp
qed

lemma of_nat_le_gadget:
  fixes x y k :: nat
  assumes "inj_on (of_nat :: nat \<Rightarrow> 'f::field) {..<2 ^ Suc n}" "x < 2 ^ n" "y < 2 ^ n" "k < 2 ^ n"
    "(of_nat x - of_nat y :: 'f) = of_nat k"
  shows "y \<le> x"
proof -
  have "(of_nat x :: 'f) = of_nat (y + k)" using assms(5) by (simp add: algebra_simps)
  then have "x = y + k" using of_nat_eqD [OF assms(1)] assms(2-4) by simp
  then show ?thesis by simp
qed

lemma lower_eq_sound:
  assumes "flat_types types" "types lhs = Some lt" "types rhs = Some rt"
  shows "emitting ft types e (lower_eq result lhs rhs lt rt) (\<lambda>_. e result = of_bool (e lhs = e rhs))"
  unfolding lower_eq_def
  by (intro emitting_bind emit_rules appends_intros flat_ty_of assms) (simp, elim conjE, erule (1) eq_gadget)

text \<open>The numbers behind a comparison are below \<open>2 ^ n\<close>; the field is large enough to tell their differences
  apart.\<close>

definition differences_fit :: "'f::field itself \<Rightarrow> nat \<Rightarrow> bool" where
  "differences_fit _ n \<longleftrightarrow> inj_on (of_nat :: nat \<Rightarrow> 'f) {..<2 ^ Suc n}"

lemma lt_gadget:
  fixes l h r :: "'f::field"
  assumes "num (Suc 0) r b" "num bits (l - h + r * (2 * h - 1 - 2 * l)) k" "bits \<le> n" "differences_fit TYPE('f) n"
    "num n l x" "num n h y"
  shows "(x < y \<longrightarrow> r = 1) \<and> (\<not> x < y \<longrightarrow> r = 0)"
proof -
  have "(2 :: nat) ^ bits \<le> 2 ^ n" using assms(3) by simp
  moreover have "k < 2 ^ bits" using assms(2) by (simp add: num_def)
  ultimately have k: "k < 2 ^ n" by linarith
  consider "r = 0" | "r = 1" using assms(1) by (auto simp: num_def less_2_cases_iff)
  then show ?thesis
  proof cases
    case 1
    then have "y \<le> x"
      using of_nat_le_gadget [OF assms(4) [unfolded differences_fit_def], of x y k] assms(2,5,6) k by (simp add: num_def)
    then show ?thesis using 1 by simp
  next
    case 2
    then show ?thesis
      using of_nat_less_gadget [OF assms(4) [unfolded differences_fit_def], of x y k] assms(2,5,6) k
      by (simp add: num_def algebra_simps)
  qed
qed

lemma emit_unsigned_lt_checks:
  assumes "flat_types types" "types lhs = Some lt" "types rhs = Some rt"
  shows "emitting ft types e (emit_unsigned_lt guard result lhs rhs bits lt rt) (\<lambda>_. active e guard \<longrightarrow>
    (\<exists>b. num (Suc 0) (e result) b) \<and> (\<exists>k. num bits (e lhs - e rhs + e result * (2 * e rhs - 1 - 2 * e lhs)) k))"
  unfolding emit_unsigned_lt_def
  by (intro emitting_bind emit_rules appends_intros flat_ty_of assms) simp

lemma emit_unsigned_lt_sound:
  fixes e :: "'f::field valuation"
  assumes "flat_types types" "types lhs = Some lt" "types rhs = Some rt"
  shows "emitting ft types e (emit_unsigned_lt guard result lhs rhs bits lt rt) (\<lambda>_. active e guard \<longrightarrow>
    (\<forall>n x y. bits \<le> n \<longrightarrow> differences_fit TYPE('f) n \<longrightarrow> num n (e lhs) x \<longrightarrow> num n (e rhs) y \<longrightarrow>
       e result = of_bool (x < y)))"
  by (rule emitting_weaken [OF emit_unsigned_lt_checks [OF assms]]) (use lt_gadget in fastforce)

text \<open>The signed comparison decides by the signs where they differ and compares the encodings where they agree.\<close>

lemma signed_of_less:
  assumes "x < 2 ^ n" "y < 2 ^ n" "0 < n"
  shows "signed_of n x < signed_of n y \<longleftrightarrow>
    (if x div 2 ^ (n - 1) \<noteq> y div 2 ^ (n - 1) then x div 2 ^ (n - 1) = 1 else x < y)"
proof -
  obtain m where n: "n = Suc m" using assms(3) by (cases n) auto
  have bit: "z div 2 ^ m = (if z < 2 ^ m then 0 else 1)" if "z < 2 ^ n" for z :: nat
    using that by (auto simp: n intro: div_nat_eqI)
  have "int x < 2 ^ n" "int y < 2 ^ n" using assms(1,2) by (metis of_nat_less_iff of_nat_numeral of_nat_power)+
  moreover have "int x < 2 ^ m \<longleftrightarrow> x < 2 ^ m" "int y < 2 ^ m \<longleftrightarrow> y < 2 ^ m"
    by (metis of_nat_less_iff of_nat_numeral of_nat_power)+
  ultimately show ?thesis using assms(1,2) by (auto simp: signed_of_def bit n)
qed

lemma xor_bits: "num 1 a x \<Longrightarrow> num 1 b y \<Longrightarrow> x XOR y = of_bool (x \<noteq> y)"
  by (auto simp: num_def less_2_cases_iff)

lemma div_bit: "x < 2 ^ n \<Longrightarrow> 0 < n \<Longrightarrow> x div 2 ^ (n - 1) mod 2 = x div 2 ^ (n - 1) \<and> x div 2 ^ (n - 1) < (2 :: nat)"
  by (cases n) (auto simp: less_mult_imp_div_less mult.commute)

lemma emit_sign_bit [emit_rules]:
  "ty_of types v = Some (TI bits) \<Longrightarrow>
   (\<And>r. ty_of types r = Some (TU 1) \<Longrightarrow> (\<forall>x. num bits (e v) x \<longrightarrow> e r = of_nat (x div 2 ^ (bits - 1) mod 2)) \<Longrightarrow> Q r) \<Longrightarrow>
   emitting ft types e (sign_bit v bits) Q"
  unfolding sign_bit_def
  by (intro emitting_bind emit_rules appends_intros) (simp add: on_bits_def)

lemma emit_signed_lt_sound:
  fixes e :: "'f::field valuation"
  assumes "flat_types types" "types lhs = Some lt" "types rhs = Some rt" "ty_of types lhs = Some (TI bits)"
    "ty_of types rhs = Some (TI bits)" "lower_signed_lt guard result lhs rhs bits lt rt = Some M"
    "differences_fit TYPE('f) bits"
  shows "emitting ft types e M (\<lambda>_. active e guard \<longrightarrow> less_holds (Some (TI bits)) (e lhs) (e rhs) (e result))"
proof -
  have n: "0 < bits" using assms(6) by (simp add: lower_signed_lt_def split: if_splits)
  have gadget: "e s = of_bool (signed_of bits x < signed_of bits y)"
    if l: "e l = of_nat (x div 2 ^ (bits - 1) mod 2)" and r: "e r = of_nat (y div 2 ^ (bits - 1) mod 2)"
      and xor: "\<forall>x y. num 1 (e l) x \<longrightarrow> num 1 (e r) y \<longrightarrow> e d = of_nat (x XOR y)"
      and xy: "num bits (e lhs) x" "num bits (e rhs) y"
      and u: "e u = of_bool (x < y)" and sel: "(e d = 1 \<longrightarrow> e s = e l) \<and> (e d = 0 \<longrightarrow> e s = e u)" for l r d u s x y
  proof -
    let ?x = "x div 2 ^ (bits - 1)" and ?y = "y div 2 ^ (bits - 1)"
    have b: "?x mod 2 = ?x" "?x < 2" "?y mod 2 = ?y" "?y < 2" using xy n div_bit by (auto simp: num_def)
    have nums: "num 1 (e l) ?x" "num 1 (e r) ?y" using b l r by (simp_all add: num_def)
    then have d: "e d = of_bool (?x \<noteq> ?y)" using xor xor_bits [OF nums] by simp
    have "e s = (if ?x \<noteq> ?y then of_nat ?x else of_bool (x < y))" using d sel l u b(1) by auto
    moreover have "x < 2 ^ bits" "y < 2 ^ bits" using xy by (simp_all add: num_def)
    ultimately show ?thesis using signed_of_less [of x bits y] n b(2) by (auto simp: less_2_cases_iff)
  qed
  show ?thesis
  proof -
    have M: "M = do {
       sign_l \<leftarrow> sign_bit lhs bits;
       sign_r \<leftarrow> sign_bit rhs bits;
       signs_differ \<leftarrow> em_xor sign_l sign_r;
       unsigned_result \<leftarrow> em_fresh;
       emit_unsigned_lt guard unsigned_result lhs rhs bits lt rt;
       signed_result \<leftarrow> em_select signs_differ sign_l unsigned_result;
       (case guard of
          Some condition \<Rightarrow> do {
            zero \<leftarrow> em_u_const 1 0;
            em_emit (OpSelect result condition signed_result zero) }
        | None \<Rightarrow> em_emit (OpCast result signed_result (CastU 1))) }"
      using assms(6) by (simp add: lower_signed_lt_def split: if_splits option.splits)
    show ?thesis
      unfolding M
    proof (intro emitting_bind emit_rules emitting_fresh emitting_weaken [OF emit_unsigned_lt_sound] appends_intros assms(1-5), goal_cases)
      case (1 l r d u w s)
      have "e s = of_bool (signed_of bits x < signed_of bits y)" if "num bits (e lhs) x" "num bits (e rhs) y" for x y
      proof (rule gadget [OF _ _ _ that _ 1(8)])
        show "e l = of_nat (x div 2 ^ (bits - 1) mod 2)" using 1(2) that(1) by blast
        show "e r = of_nat (y div 2 ^ (bits - 1) mod 2)" using 1(4) that(2) by blast
        show "\<forall>x y. num 1 (e l) x \<longrightarrow> num 1 (e r) y \<longrightarrow> e d = of_nat (x XOR y)" using 1(1,5) by (simp add: arith_holds_def)
        show "e u = of_bool (x < y)" using 1(6) 1(9) [THEN active_None] that assms(7) by blast
      qed
      then show ?case using 1 by (simp add: less_holds_def)
    next
      case (2 l r d u w s c z)
      have "e s = of_bool (signed_of bits x < signed_of bits y)" if "num bits (e lhs) x" "num bits (e rhs) y" "e c = 1" for x y
      proof (rule gadget [OF _ _ _ that(1,2) _ 2(8)])
        show "e l = of_nat (x div 2 ^ (bits - 1) mod 2)" using 2(2) that(1) by blast
        show "e r = of_nat (y div 2 ^ (bits - 1) mod 2)" using 2(4) that(2) by blast
        show "\<forall>x y. num 1 (e l) x \<longrightarrow> num 1 (e r) y \<longrightarrow> e d = of_nat (x XOR y)" using 2(1,5) by (simp add: arith_holds_def)
        show "e u = of_bool (x < y)" using 2(6) active_Some [where e = e, OF 2(9) that(3)] that(1,2) assms(7) by blast
      qed
      then show ?case using 2 by (simp add: less_holds_def)
    qed
  qed
qed

lemma bn254_differences: "bn254_like TYPE('f::field) \<Longrightarrow> n \<le> 252 \<Longrightarrow> differences_fit TYPE('f) n"
  unfolding differences_fit_def by (rule bn254_inj) simp_all

lemma readyD:
  "ready ctx types e i \<Longrightarrow> v \<in> set (get_inputs i) \<Longrightarrow> types v = lc_types ctx v"
  "ready ctx types e i \<Longrightarrow> v \<in> set (get_inputs i) \<Longrightarrow> in_range ctx types e v"
  "ready ctx types e i \<Longrightarrow> flat_types types"
  "ready ctx types e i \<Longrightarrow> same_operands types i"
  by (simp_all add: ready_def)

text \<open>Every rule runs something that says it lowered the instruction, or does nothing.\<close>

lemma emit_lowered:
  assumes "appends M" "emitting ft types e M (\<lambda>_. P)"
  shows "emitting ft types e (do { M; return True }) (\<lambda>lowered. lowered \<longrightarrow> P)"
proof (rule emitting_bind [OF assms(1) appends_return])
  show "emitting ft types e M (\<lambda>_. emitting ft types e (return True) (\<lambda>lowered. lowered \<longrightarrow> P))"
    by (rule emitting_weaken [OF assms(2)]) (simp add: emitting_return)
qed

lemma emit_not_lowered: "emitting ft types e (return False) (\<lambda>lowered. lowered \<longrightarrow> P)"
  by (rule emitting_return) simp

lemma emit_not_lowered': "Some (return False) = Some M \<Longrightarrow> emitting ft types e M (\<lambda>lowered. lowered \<longrightarrow> P)"
  using emit_not_lowered by auto

lemma lower_signed_lt_appends: "lower_signed_lt guard result lhs rhs bits lt rt = Some M \<Longrightarrow> appends M"
  by (auto simp: lower_signed_lt_def split: if_splits intro!: appends_intros)

lemma lower_lt_sound:
  fixes e :: "'f::field valuation"
  assumes "bn254_like TYPE('f)" "ready ctx types e (OpCmp CmpLt result lhs rhs)"
    "lc_types ctx lhs = Some lt" "lc_types ctx rhs = Some rt" "lower_lt guard result lhs rhs lt rt = Some M"
  shows "appends M \<and> emitting ft types e M (\<lambda>_. active e guard \<longrightarrow> sat types e (OpCmp CmpLt result lhs rhs))"
proof -
  have t: "types lhs = Some lt" "types rhs = Some rt" "flat_types types" "ty_of types lhs = ty_of types rhs"
    using readyD [OF assms(2)] assms(3,4) by auto
  have w: "n \<le> 252" if "ty_of types rhs = Some (TU n) \<or> ty_of types rhs = Some (TI n)" for n
    using readyD(2) [OF assms(2), of rhs] that by (auto simp: in_range_def)
  have rt: "ty_of types rhs = Some (strip_witness rt)" using t(2) by (simp add: ty_of_def)
  show ?thesis
  proof (cases "strip_witness rt")
    case (TU bits)
    then have M: "M = emit_unsigned_lt guard result lhs rhs bits lt rt"
      using assms(5) by (simp add: lower_lt_def lower_unsigned_lt_def split: if_splits)
    have d: "differences_fit TYPE('f) bits" using w [of bits] rt TU by (intro bn254_differences assms(1)) simp
    have "appends M" unfolding M by (rule appends_compare)
    moreover have "emitting ft types e M (\<lambda>_. active e guard \<longrightarrow> sat types e (OpCmp CmpLt result lhs rhs))" unfolding M
      by (rule emitting_weaken [OF emit_unsigned_lt_sound [OF t(3,1,2)]]) (use d rt TU t(4) in \<open>auto simp: less_holds_def\<close>)
    ultimately show ?thesis by blast
  next
    case (TI bits)
    then have M: "lower_signed_lt guard result lhs rhs bits lt rt = Some M" using assms(5) by (simp add: lower_lt_def)
    have d: "differences_fit TYPE('f) bits" using w [of bits] rt TI by (intro bn254_differences assms(1)) simp
    have "emitting ft types e M (\<lambda>_. active e guard \<longrightarrow> sat types e (OpCmp CmpLt result lhs rhs))"
      by (rule emitting_weaken [OF emit_signed_lt_sound [OF t(3,1,2) _ _ M d]]) (use rt TI t(4) in simp_all)
    then show ?thesis using lower_signed_lt_appends [OF M] by blast
  qed (use assms(5) in \<open>auto simp: lower_lt_def\<close>)
qed

lemma process_cmp_sound:
  fixes e :: "'f::field valuation"
  assumes "bn254_like TYPE('f)" "ready ctx types e i" "process_cmp ctx guard i = Some M"
  shows "emitting ft types e M (\<lambda>lowered. lowered \<longrightarrow> active e guard \<longrightarrow> sat types e i)"
proof (cases "\<exists>kind result lhs rhs. i = OpCmp kind result lhs rhs")
  case True
  then obtain kind result lhs rhs where i: "i = OpCmp kind result lhs rhs" by blast
  obtain lt rt where t: "lc_types ctx lhs = Some lt" "lc_types ctx rhs = Some rt"
    using assms(3) by (auto simp: process_cmp_def i bind_Some_iff)
  have types: "types lhs = Some lt" "types rhs = Some rt" "flat_types types"
    using readyD(1,3) [OF assms(2)] t by (auto simp: i)
  show ?thesis
  proof (cases "is_witness_of lt \<or> is_witness_of rt")
    case True
    show ?thesis
    proof (cases kind)
      case CmpEq
      have "M = do { lower_eq result lhs rhs lt rt; return True }"
        using assms(3) True by (auto simp: process_cmp_def i t CmpEq)
      then show ?thesis unfolding i CmpEq
        by (simp only:) (rule emit_lowered [OF appends_compare(3)], rule emitting_weaken [OF lower_eq_sound [OF types(3,1,2)]], simp)
    next
      case CmpLt
      obtain L where "lower_lt guard result lhs rhs lt rt = Some L" "M = do { L; return True }"
        using assms(3) True by (auto simp: process_cmp_def i t CmpLt bind_Some_iff)
      then show ?thesis unfolding i CmpLt
        using lower_lt_sound [OF assms(1) assms(2) [unfolded i CmpLt] t] by (simp only:) (blast intro: emit_lowered)
    qed
  next
    case False
    then have "M = return False" using assms(3) by (simp add: process_cmp_def i t)
    then show ?thesis by (simp add: emit_not_lowered)
  qed
next
  case False
  then have "M = return False" using assms(3) by (cases i) (auto simp: process_cmp_def)
  then show ?thesis by (simp add: emit_not_lowered)
qed

lemma sound_ruleI_guarded:
  assumes "\<And>ctx i guard M ft types e. P ctx guard i = Some M \<Longrightarrow> ready ctx types (e :: 'f::field valuation) i \<Longrightarrow>
    (\<And>c. guard = Some c \<Longrightarrow> types c = lc_types ctx c) \<Longrightarrow>
    emitting ft types e M (\<lambda>lowered. lowered \<longrightarrow> active e guard \<longrightarrow> sat types e i)"
  shows "sound_rule (\<lambda>ctx i. P ctx (guard_of i) (guarded_op i))"
proof (rule sound_ruleI)
  fix ctx i M ft types and e :: "'f valuation"
  assume "P ctx (guard_of i) (guarded_op i) = Some M" and r: "ready ctx types e i"
  then have "emitting ft types e M (\<lambda>lowered. lowered \<longrightarrow> active e (guard_of i) \<longrightarrow> sat types e (guarded_op i))"
    using assms ready_guarded [OF r refl] by blast
  then show "emitting ft types e M (\<lambda>lowered. lowered \<longrightarrow> sat types e i)" unfolding sat_guarded [of types e i] .
qed

lemma lower_witness_compare_sound:
  assumes "bn254_like TYPE('f::field)"
  shows "sound_rule (lower_witness_compare :: 'f rule)"
  unfolding lower_witness_compare_def [abs_def]
  by (rule sound_ruleI_guarded) (rule process_cmp_sound [OF assms])

end
