(* ===== verification/Lower_Assert.thy ===== *)
theory Lower_Assert
  imports Lower_Compare
begin

text \<open>
  Assertions on witnesses (\<^verbatim>\<open>passes/instruction_lowering/witness_assert.rs\<close>) become constraints, multiplied
  by the guard where there is one, and range checks of differences.
\<close>

subsection \<open>The rule\<close>

text \<open>A guard with its type, which the code looks up where it uses the guard in a constraint.\<close>

definition typed_guard :: "lowering_context \<Rightarrow> value_id option \<Rightarrow> (value_id \<times> ty) option option" where
  "typed_guard ctx guard = (case guard of
     Some condition \<Rightarrow> map_option (\<lambda>t. Some (condition, t)) (lc_types ctx condition)
   | None \<Rightarrow> Some None)"

definition lower_assert_field :: "(value_id \<times> ty) option \<Rightarrow> value_id \<Rightarrow> ('f::field, unit) emits" where
  "lower_assert_field guard value_field = do {
     cond_field \<leftarrow> (case guard of
         Some (condition, t) \<Rightarrow> em_ensure_field condition t
       | None \<Rightarrow> em_field_const 1);
     em_constrain cond_field value_field cond_field }"

definition lower_assert_value ::
  "lowering_context \<Rightarrow> value_id option \<Rightarrow> value_id \<Rightarrow> ('f::field, unit) emits option" where
  "lower_assert_value ctx guard v = do {
     value_type \<leftarrow> lc_types ctx v;
     guard \<leftarrow> typed_guard ctx guard;
     Some (do {
       value_field \<leftarrow> em_ensure_field v (strip_witness value_type);
       lower_assert_field guard value_field }) }"

definition lower_assert_eq ::
  "lowering_context \<Rightarrow> value_id option \<Rightarrow> value_id \<Rightarrow> value_id \<Rightarrow> ('f::field, unit) emits option" where
  "lower_assert_eq ctx guard lhs rhs = do {
     lhs_type \<leftarrow> lc_types ctx lhs;
     rhs_type \<leftarrow> lc_types ctx rhs;
     guard \<leftarrow> typed_guard ctx guard;
     Some (do {
       lhs_field \<leftarrow> em_ensure_field lhs (strip_witness lhs_type);
       rhs_field \<leftarrow> em_ensure_field rhs (strip_witness rhs_type);
       (case guard of
          Some (condition, t) \<Rightarrow> do {
            cond_field \<leftarrow> em_ensure_field condition t;
            diff \<leftarrow> em_sub lhs_field rhs_field;
            zero \<leftarrow> em_field_const 0;
            em_constrain cond_field diff zero }
        | None \<Rightarrow> do {
            one \<leftarrow> em_field_const 1;
            em_constrain lhs_field one rhs_field }) }) }"

definition lower_assert_lt_via_cmp ::
  "lowering_context \<Rightarrow> value_id option \<Rightarrow> value_id \<Rightarrow> value_id \<Rightarrow> ('f::field, unit) emits option" where
  "lower_assert_lt_via_cmp ctx guard lhs rhs = do {
     guard \<leftarrow> typed_guard ctx guard;
     Some (do {
       cmp \<leftarrow> em_lt lhs rhs;
       cmp_field \<leftarrow> em_cast_to_field cmp;
       lower_assert_field guard cmp_field }) }"

definition lower_unsigned_assert_lt ::
  "lowering_context \<Rightarrow> value_id option \<Rightarrow> value_id \<Rightarrow> value_id \<Rightarrow> nat \<Rightarrow> ('f::field, unit) emits option" where
  "lower_unsigned_assert_lt ctx guard lhs rhs bits = do {
     ensure (bits > 0);
     lhs_type \<leftarrow> lc_types ctx lhs;
     rhs_type \<leftarrow> lc_types ctx rhs;
     Some (do {
       lhs_field \<leftarrow> em_ensure_field lhs (strip_witness lhs_type);
       rhs_field \<leftarrow> em_ensure_field rhs (strip_witness rhs_type);
       diff \<leftarrow> em_sub rhs_field lhs_field;
       one \<leftarrow> em_field_const 1;
       diff_minus_one \<leftarrow> em_sub diff one;
       emit_rangecheck guard diff_minus_one bits }) }"

definition lower_assert_lt ::
  "lowering_context \<Rightarrow> value_id option \<Rightarrow> value_id \<Rightarrow> value_id \<Rightarrow> bool \<Rightarrow> bool \<Rightarrow> ('f::field, unit) emits option" where
  "lower_assert_lt ctx guard lhs rhs lhs_witness rhs_witness = do {
     rhs_type \<leftarrow> lc_types ctx rhs;
     (case strip_witness rhs_type of
        TU bits \<Rightarrow> if guard \<noteq> None \<and> \<not> lhs_witness \<and> \<not> rhs_witness then lower_assert_lt_via_cmp ctx guard lhs rhs
          else lower_unsigned_assert_lt ctx guard lhs rhs bits
      | TI _ \<Rightarrow> lower_assert_lt_via_cmp ctx guard lhs rhs
      | _ \<Rightarrow> None) }"

definition lower_assert_r1c ::
  "lowering_context \<Rightarrow> value_id option \<Rightarrow> value_id \<Rightarrow> value_id \<Rightarrow> value_id \<Rightarrow> ('f::field, unit) emits option" where
  "lower_assert_r1c ctx guard a b c = do {
     a_type \<leftarrow> lc_types ctx a;
     b_type \<leftarrow> lc_types ctx b;
     c_type \<leftarrow> lc_types ctx c;
     guard \<leftarrow> typed_guard ctx guard;
     Some (do {
       a_field \<leftarrow> em_ensure_field a (strip_witness a_type);
       b_field \<leftarrow> em_ensure_field b (strip_witness b_type);
       c_field \<leftarrow> em_ensure_field c (strip_witness c_type);
       (case guard of
          Some (condition, t) \<Rightarrow> do {
            product \<leftarrow> em_mul a_field b_field;
            diff \<leftarrow> em_sub product c_field;
            cond_field \<leftarrow> em_ensure_field condition t;
            zero \<leftarrow> em_field_const 0;
            em_constrain cond_field diff zero }
        | None \<Rightarrow> em_constrain a_field b_field c_field) }) }"

text \<open>Running something that says it lowered the instruction.\<close>

definition lowered :: "('f, unit) emits option \<Rightarrow> ('f, bool) emits option" where
  "lowered N = map_option (\<lambda>M. State_Monad.bind M (\<lambda>_. return True)) N"

definition process_assert :: "lowering_context \<Rightarrow> value_id option \<Rightarrow> opcode \<Rightarrow> ('f::field, bool) emits option" where
  "process_assert ctx guard i = (case i of
     OpAssert v \<Rightarrow> do {
       t \<leftarrow> (if guard = None then lc_types ctx v else Some (TWitnessOf TField));
       if guard = None \<and> \<not> is_witness_of t then Some (return False)
       else lowered (lower_assert_value ctx guard v) }
   | OpAssertCmp kind lhs rhs \<Rightarrow> do {
       lhs_type \<leftarrow> lc_types ctx lhs;
       rhs_type \<leftarrow> lc_types ctx rhs;
       if guard = None \<and> \<not> is_witness_of lhs_type \<and> \<not> is_witness_of rhs_type then Some (return False)
       else lowered (case kind of
           CmpEq \<Rightarrow> lower_assert_eq ctx guard lhs rhs
         | CmpLt \<Rightarrow> lower_assert_lt ctx guard lhs rhs (is_witness_of lhs_type) (is_witness_of rhs_type)) }
   | OpAssertR1C a b c \<Rightarrow> do {
       a_type \<leftarrow> lc_types ctx a;
       b_type \<leftarrow> lc_types ctx b;
       c_type \<leftarrow> lc_types ctx c;
       if guard = None \<and> \<not> is_witness_of a_type \<and> \<not> is_witness_of b_type \<and> \<not> is_witness_of c_type
       then Some (return False)
       else lowered (lower_assert_r1c ctx guard a b c) }
   | _ \<Rightarrow> Some (return False))"

definition lower_witness_assert :: "'f::field rule" where
  "lower_witness_assert ctx i = process_assert ctx (guard_of i) (guarded_op i)"

subsection \<open>Soundness\<close>

lemma appends_case_pair [appends_intros]: "appends (N (fst p) (snd p)) \<Longrightarrow> appends (case p of (a, b) \<Rightarrow> N a b)"
  by (simp add: case_prod_unfold)

lemma appends_assert_field [appends_intros]: "appends (lower_assert_field guard v)"
  unfolding lower_assert_field_def by (intro appends_intros)

text \<open>The typed guard is active where the guard is.\<close>

definition guard_ok :: "value_types \<Rightarrow> (value_id \<times> ty) option \<Rightarrow> bool" where
  "guard_ok types guard \<longleftrightarrow> (case guard of Some (c, t) \<Rightarrow> ty_of types c = Some (strip_witness t) | None \<Rightarrow> True)"

lemma typed_guard_ok:
  "typed_guard ctx guard = Some g \<Longrightarrow> (\<And>c. guard = Some c \<Longrightarrow> types c = lc_types ctx c) \<Longrightarrow> guard_ok types g"
  by (auto simp: typed_guard_def guard_ok_def ty_of_def split: option.splits)

lemma typed_guard_active: "typed_guard ctx guard = Some g \<Longrightarrow> active e (map_option fst g) \<longleftrightarrow> active e guard"
  by (auto simp: typed_guard_def split: option.splits)

lemma emit_assert_field [emit_rules]:
  assumes "guard_ok types guard" "(active e (map_option fst guard) \<longrightarrow> e v = 1) \<Longrightarrow> Q ()"
  shows "emitting ft types e (lower_assert_field guard v) Q"
proof (cases guard)
  case None
  have "emitting ft types e (lower_assert_field None v) Q"
    unfolding lower_assert_field_def option.case by (intro emitting_bind emit_rules appends_intros) (use assms(2) None in simp)
  then show ?thesis using None by simp
next
  case (Some p)
  then obtain c t where p: "guard = Some (c, t)" by (cases p) simp
  have "emitting ft types e (lower_assert_field (Some (c, t)) v) Q"
    unfolding lower_assert_field_def option.case prod.case
    by (intro emitting_bind emit_rules appends_intros) (use assms p in \<open>auto simp: guard_ok_def\<close>)
  then show ?thesis using p by simp
qed

lemma lowered_sound:
  assumes "lowered N = Some M" "\<And>L. N = Some L \<Longrightarrow> appends L \<and> emitting ft types e L (\<lambda>_. P)"
  shows "emitting ft types e M (\<lambda>lowered. lowered \<longrightarrow> P)"
  using assms emit_lowered by (auto simp: lowered_def)

text \<open>The rules for the four assertions.\<close>

lemma assert_value:
  fixes e :: "'f::field valuation"
  assumes flat: "flat_types types" and guard_types: "\<And>c. guard = Some c \<Longrightarrow> types c = lc_types ctx c"
    and a: "lower_assert_value ctx guard v = Some L" "types v = lc_types ctx v"
  shows "appends L \<and> emitting ft types e L (\<lambda>_. active e guard \<longrightarrow> e v = 1)"
proof -
  obtain t g where t: "types v = Some t" "typed_guard ctx guard = Some g"
    "L = do { value_field \<leftarrow> em_ensure_field v (strip_witness t); lower_assert_field g value_field }"
    using a by (auto simp: lower_assert_value_def bind_Some_iff)
  note g = typed_guard_ok [where types = types, OF t(2) guard_types] typed_guard_active [where e = e, OF t(2)]
  show ?thesis unfolding t(3)
    by (intro conjI emitting_bind emit_rules appends_intros flat_ty_of [OF flat] t(1) g(1)) (use g(2) in auto)
qed

lemma assert_eq:
  fixes e :: "'f::field valuation"
  assumes flat: "flat_types types" and guard_types: "\<And>c. guard = Some c \<Longrightarrow> types c = lc_types ctx c"
    and a: "lower_assert_eq ctx guard a b = Some L" "types a = lc_types ctx a" "types b = lc_types ctx b"
  shows "appends L \<and> emitting ft types e L (\<lambda>_. active e guard \<longrightarrow> e a = e b)"
proof -
  obtain s t g where t: "types a = Some s" "types b = Some t" "typed_guard ctx guard = Some g"
    "L = do {
       lhs_field \<leftarrow> em_ensure_field a (strip_witness s);
       rhs_field \<leftarrow> em_ensure_field b (strip_witness t);
       (case g of
          Some (condition, t) \<Rightarrow> do {
            cond_field \<leftarrow> em_ensure_field condition t;
            diff \<leftarrow> em_sub lhs_field rhs_field;
            zero \<leftarrow> em_field_const 0;
            em_constrain cond_field diff zero }
        | None \<Rightarrow> do {
            one \<leftarrow> em_field_const 1;
            em_constrain lhs_field one rhs_field }) }"
    using a by (auto simp: lower_assert_eq_def bind_Some_iff)
  note g = typed_guard_ok [where types = types, OF t(3) guard_types] typed_guard_active [where e = e, OF t(3)]
  show ?thesis
  proof (cases g)
    case None
    then show "appends L \<and> emitting ft types e L (\<lambda>_. active e guard \<longrightarrow> e a = e b)"
      unfolding t(4) None option.case
      by (intro conjI emitting_bind emit_rules appends_intros flat_ty_of [OF flat] t(1,2)) simp
  next
    case (Some p)
    obtain c u where p: "p = (c, u)" by fastforce
    show "appends L \<and> emitting ft types e L (\<lambda>_. active e guard \<longrightarrow> e a = e b)"
      unfolding t(4) Some p option.case prod.case
      by (intro conjI emitting_bind emit_rules appends_intros flat_ty_of [OF flat] t(1,2))
        (use g in \<open>auto simp: Some p guard_ok_def\<close>)
  qed
qed

lemma assert_lt_via_cmp:
  fixes e :: "'f::field valuation"
  assumes flat: "flat_types types" and guard_types: "\<And>c. guard = Some c \<Longrightarrow> types c = lc_types ctx c"
    and a: "lower_assert_lt_via_cmp ctx guard a b = Some L"
  shows "appends L \<and> emitting ft types e L (\<lambda>_. active e guard \<longrightarrow> less_holds (ty_of types a) (e a) (e b) 1)"
proof -
  obtain g where t: "typed_guard ctx guard = Some g"
    "L = do { cmp \<leftarrow> em_lt a b; cmp_field \<leftarrow> em_cast_to_field cmp; lower_assert_field g cmp_field }"
    using a by (auto simp: lower_assert_lt_via_cmp_def bind_Some_iff)
  note g = typed_guard_ok [where types = types, OF t(1) guard_types] typed_guard_active [where e = e, OF t(1)]
  show ?thesis unfolding t(2)
    by (intro conjI emitting_bind emit_rules appends_intros g(1)) (use g(2) in auto)
qed

lemma unsigned_assert_lt:
  fixes e :: "'f::field valuation"
  assumes flat: "flat_types types" and guard_types: "\<And>c. guard = Some c \<Longrightarrow> types c = lc_types ctx c"
    and a: "lower_unsigned_assert_lt ctx guard a b bits = Some L" "types a = lc_types ctx a" "types b = lc_types ctx b"
    "bn254_like TYPE('f)" "bits \<le> 252" "ty_of types a = Some (TU bits)"
  shows "appends L \<and> emitting ft types e L (\<lambda>_. active e guard \<longrightarrow> less_holds (ty_of types a) (e a) (e b) 1)"
proof -
  obtain s t where t: "types a = Some s" "types b = Some t"
    "L = do {
       lhs_field \<leftarrow> em_ensure_field a (strip_witness s);
       rhs_field \<leftarrow> em_ensure_field b (strip_witness t);
       diff \<leftarrow> em_sub rhs_field lhs_field;
       one \<leftarrow> em_field_const 1;
       diff_minus_one \<leftarrow> em_sub diff one;
       emit_rangecheck guard diff_minus_one bits }"
    using a(1-3) by (auto simp: lower_unsigned_assert_lt_def bind_Some_iff split: if_splits)
  have "emitting ft types e L (\<lambda>_. active e guard \<longrightarrow> (\<exists>k. num bits (e b - e a - 1) k))"
    unfolding t(3) by (intro emitting_bind emit_rules appends_intros flat_ty_of [OF flat] t(1,2)) auto
  then have "emitting ft types e L (\<lambda>_. active e guard \<longrightarrow> less_holds (ty_of types a) (e a) (e b) 1)"
  proof (rule emitting_weaken)
    have "x < y" if "num bits (e b - e a - 1) k" "num bits (e a) x" "num bits (e b) y" for k x y
      using that bn254_differences [OF a(4,5)] of_nat_less_gadget [of bits x y k, where 'f = 'f]
      by (simp add: num_def differences_fit_def)
    then show "active e guard \<longrightarrow> less_holds (ty_of types a) (e a) (e b) 1"
      if "active e guard \<longrightarrow> (\<exists>k. num bits (e b - e a - 1) k)"
      using that by (auto simp: less_holds_def a(6))
  qed
  moreover have "appends L" unfolding t(3) by (intro appends_intros)
  ultimately show ?thesis by blast
qed

lemma assert_r1c:
  fixes e :: "'f::field valuation"
  assumes flat: "flat_types types" and guard_types: "\<And>c. guard = Some c \<Longrightarrow> types c = lc_types ctx c"
    and a: "lower_assert_r1c ctx guard a b c = Some L" "types a = lc_types ctx a" "types b = lc_types ctx b" "types c = lc_types ctx c"
  shows "appends L \<and> emitting ft types e L (\<lambda>_. active e guard \<longrightarrow> e a * e b = e c)"
proof -
  obtain s t u g where t: "types a = Some s" "types b = Some t" "types c = Some u" "typed_guard ctx guard = Some g"
    "L = do {
       a_field \<leftarrow> em_ensure_field a (strip_witness s);
       b_field \<leftarrow> em_ensure_field b (strip_witness t);
       c_field \<leftarrow> em_ensure_field c (strip_witness u);
       (case g of
          Some (condition, t) \<Rightarrow> do {
            product \<leftarrow> em_mul a_field b_field;
            diff \<leftarrow> em_sub product c_field;
            cond_field \<leftarrow> em_ensure_field condition t;
            zero \<leftarrow> em_field_const 0;
            em_constrain cond_field diff zero }
        | None \<Rightarrow> em_constrain a_field b_field c_field) }"
    using a by (auto simp: lower_assert_r1c_def bind_Some_iff)
  note g = typed_guard_ok [where types = types, OF t(4) guard_types] typed_guard_active [where e = e, OF t(4)]
  show ?thesis
  proof (cases g)
    case None
    show ?thesis unfolding t(5) None option.case
      by (intro conjI emitting_bind emit_rules appends_intros flat_ty_of [OF flat] t(1-3)) simp
  next
    case (Some p)
    obtain d u where p: "p = (d, u)" by fastforce
    show ?thesis unfolding t(5) Some p option.case prod.case
      by (intro conjI emitting_bind emit_rules appends_intros flat_ty_of [OF flat] t(1-3))
        (use g in \<open>auto simp: Some p guard_ok_def\<close>)
  qed
qed

lemma process_assert_sound:
  fixes e :: "'f::field valuation"
  assumes "bn254_like TYPE('f)" "ready ctx types e i" "process_assert ctx guard i = Some M"
    "\<And>c. guard = Some c \<Longrightarrow> types c = lc_types ctx c"
  shows "emitting ft types e M (\<lambda>lowered. lowered \<longrightarrow> active e guard \<longrightarrow> sat types e i)"
proof -
  note r = readyD [OF assms(2)]
  note rules = assert_value assert_eq assert_lt_via_cmp unsigned_assert_lt assert_r1c
  note rules = rules [where e = e and ft = ft and types = types, OF r(3) assms(4)]
  show ?thesis
  proof (cases i)
    case (OpAssert v)
    have "M = return False \<or> lowered (lower_assert_value ctx guard v) = Some M"
      using assms(3) unfolding process_assert_def OpAssert opcode.case bind_Some_iff by (auto split: if_splits)
    then show ?thesis
    proof
      assume "lowered (lower_assert_value ctx guard v) = Some M"
      then show ?thesis by (rule lowered_sound) (use rules(1) r(1) in \<open>auto simp: OpAssert\<close>)
    qed (simp add: emit_not_lowered)
  next
    case (OpAssertCmp kind a b)
    have t: "types a = lc_types ctx a" "types b = lc_types ctx b" using r(1) by (auto simp: OpAssertCmp)
    obtain s t where st: "lc_types ctx a = Some s" "lc_types ctx b = Some t"
      using assms(3) by (auto simp: process_assert_def OpAssertCmp bind_Some_iff)
    have "M = return False \<or> lowered (case kind of CmpEq \<Rightarrow> lower_assert_eq ctx guard a b
        | CmpLt \<Rightarrow> lower_assert_lt ctx guard a b (is_witness_of s) (is_witness_of t)) = Some M"
      using assms(3) unfolding process_assert_def OpAssertCmp opcode.case bind_Some_iff st by (auto split: if_splits)
    then consider "M = return False" | "kind = CmpEq" "lowered (lower_assert_eq ctx guard a b) = Some M"
      | "kind = CmpLt" "lowered (lower_assert_lt ctx guard a b (is_witness_of s) (is_witness_of t)) = Some M"
      by (metis (full_types) cmp_kind.exhaust cmp_kind.case)
    then show ?thesis
    proof cases
      case 2
      show ?thesis by (rule lowered_sound [OF 2(2)]) (use rules(2) t in \<open>auto simp: OpAssertCmp 2(1)\<close>)
    next
      case 3
      have same: "ty_of types a = Some (strip_witness t)" using r(4) t st by (simp add: OpAssertCmp 3(1) ty_of_def)
      have w: "bits \<le> 252" if "strip_witness t = TU bits" for bits
        using r(2) [of a] same that by (auto simp: OpAssertCmp in_range_def)
      show ?thesis
      proof (rule lowered_sound [OF 3(2)])
        fix L :: "('f, unit) emits" assume "lower_assert_lt ctx guard a b (is_witness_of s) (is_witness_of t) = Some L"
        then consider "lower_assert_lt_via_cmp ctx guard a b = Some L"
          | bits where "strip_witness t = TU bits" "lower_unsigned_assert_lt ctx guard a b bits = Some L"
          by (auto simp: lower_assert_lt_def st split: ty.splits if_splits)
        then show "appends L \<and> emitting ft types e L (\<lambda>_. active e guard \<longrightarrow> sat types e i)"
        proof cases
          case 1
          show ?thesis using rules(3) [OF _ 1] by (simp add: OpAssertCmp 3)
        next
          case 2
          then show ?thesis using rules(4) [OF _ 2(2) t assms(1) w] same by (simp add: OpAssertCmp 3)
        qed
      qed
    qed (simp add: emit_not_lowered)
  next
    case (OpAssertR1C a b c)
    have "M = return False \<or> lowered (lower_assert_r1c ctx guard a b c) = Some M"
      using assms(3) unfolding process_assert_def OpAssertR1C opcode.case bind_Some_iff by (auto split: if_splits)
    then show ?thesis
    proof
      assume "lowered (lower_assert_r1c ctx guard a b c) = Some M"
      then show ?thesis by (rule lowered_sound) (use rules(5) r(1) in \<open>auto simp: OpAssertR1C\<close>)
    qed (simp add: emit_not_lowered)
  qed ((rule emit_not_lowered', use assms(3) in \<open>simp only: process_assert_def opcode.case\<close>)+)
qed

lemma lower_witness_assert_sound:
  assumes "bn254_like TYPE('f::field)"
  shows "sound_rule (lower_witness_assert :: 'f rule)"
  unfolding lower_witness_assert_def [abs_def]
  by (rule sound_ruleI_guarded) (rule process_assert_sound [OF assms])

end
