(* ===== verification/Lower_Arith.thy ===== *)
theory Lower_Arith
  imports Lower_Assert
begin

text \<open>
  Integer arithmetic on witnesses (\<^verbatim>\<open>passes/instruction_lowering/witness_integer_arith.rs\<close>) becomes
  arithmetic in the field with range checks that catch overflow; where the ranges of the operands already rule it out
  the check is left out or made narrower. Signed values are decoded with their sign bit and encoded again.
\<close>

subsection \<open>Helpers\<close>

definition integer_bits_and_signedness :: "ty \<Rightarrow> (nat \<times> bool) option" where
  "integer_bits_and_signedness t = (case strip_witness t of
     TU bits \<Rightarrow> Some (bits, False) | TI bits \<Rightarrow> Some (bits, True) | _ \<Rightarrow> None)"

definition two_pow :: "nat \<Rightarrow> 'f::field" where
  "two_pow n = 2 ^ n"

definition guarded_or_zero_field :: "value_id \<Rightarrow> value_id option \<Rightarrow> ('f::field, value_id) emits" where
  "guarded_or_zero_field v guard = (case guard of
     Some condition \<Rightarrow> do { zero \<leftarrow> em_field_const 0; em_select condition v zero }
   | None \<Rightarrow> return v)"

text \<open>The width of a check is at least one bit, an assertion of \<^verbatim>\<open>guarded_rangecheck\<close> that the callers' widths
  meet.\<close>

definition guarded_rangecheck :: "value_id \<Rightarrow> nat \<Rightarrow> value_id option \<Rightarrow> ('f, unit) emits" where
  "guarded_rangecheck v bits guard = emit_guarded guard (OpRangecheck v bits)"

definition unsigned_bit_width :: "int_interval \<Rightarrow> nat option" where
  "unsigned_bit_width r = do {
     lo \<leftarrow> iv_lo r;
     hi \<leftarrow> iv_hi r;
     if lo < 0 then None else Some (nat (bitlen \<bar>hi\<bar>)) }"

definition narrow_rangecheck_width :: "int_interval \<Rightarrow> nat \<Rightarrow> nat" where
  "narrow_rangecheck_width r default_bits = (case unsigned_bit_width r of
     None \<Rightarrow> default_bits
   | Some width \<Rightarrow> min (max width 1) default_bits)"

definition range_fits_field_injectively :: "int_interval \<Rightarrow> bool" where
  "range_fits_field_injectively r = (case (iv_lo r, iv_hi r) of
     (Some lo, Some hi) \<Rightarrow> hi - lo < bn254_modulus | _ \<Rightarrow> False)"

definition is_strictly_negative :: "int_interval \<Rightarrow> bool" where
  "is_strictly_negative r = some_and (iv_hi r) (\<lambda>hi. hi < 0)"

definition known_sign :: "int_interval \<Rightarrow> nat \<Rightarrow> bool option" where
  "known_sign r bits = (if is_non_negative_in_signed r bits then Some False
     else if is_strictly_negative r then Some True else None)"

definition signed_value_from_encoded :: "value_id \<Rightarrow> value_id \<Rightarrow> nat \<Rightarrow> ('f::field, value_id) emits" where
  "signed_value_from_encoded encoded_field sign bits = do {
     sign_shift \<leftarrow> em_field_const (two_pow bits);
     sign_shifted \<leftarrow> em_mul sign sign_shift;
     em_sub encoded_field sign_shifted }"

definition enforce_signed_encoding_sign ::
  "value_id \<Rightarrow> value_id \<Rightarrow> nat \<Rightarrow> value_id option \<Rightarrow> ('f::field, unit) emits" where
  "enforce_signed_encoding_sign enc sign bits guard = (if bits = 1 then do {
       diff \<leftarrow> em_sub enc sign;
       guarded_rangecheck diff 1 guard;
       neg_diff \<leftarrow> em_sub sign enc;
       guarded_rangecheck neg_diff 1 guard }
     else do {
       half \<leftarrow> em_field_const (two_pow (bits - 1));
       sign_half \<leftarrow> em_mul sign half;
       sign_limb \<leftarrow> em_sub enc sign_half;
       guarded_rangecheck sign_limb (bits - 1) guard })"

definition encoding_sign :: "value_id \<Rightarrow> int_interval \<Rightarrow> nat \<Rightarrow> value_id option \<Rightarrow> ('f::field, value_id) emits" where
  "encoding_sign encoded_hint signed_range bits guard = (
     if is_non_negative_in_signed signed_range bits then em_field_const 0
     else if is_strictly_negative signed_range then em_field_const 1
     else do {
       sign_hint \<leftarrow> em_bit_range encoded_hint (bits - 1) 1;
       sign_hint \<leftarrow> em_cast_to_field sign_hint;
       sign \<leftarrow> em_write_witness sign_hint;
       guarded_rangecheck sign 1 guard;
       return sign })"

definition encode_signed_value ::
  "value_id \<Rightarrow> value_id \<Rightarrow> int_interval \<Rightarrow> nat \<Rightarrow> value_id option \<Rightarrow> ('f::field, value_id) emits" where
  "encode_signed_value signed_value encoded_hint signed_range bits guard = do {
     sign \<leftarrow> encoding_sign encoded_hint signed_range bits guard;
     sign_shift \<leftarrow> em_field_const (two_pow bits);
     sign_shifted \<leftarrow> em_mul sign sign_shift;
     enc \<leftarrow> em_add signed_value sign_shifted;
     (if \<not> fits_in_signed_bits signed_range bits \<or> known_sign signed_range bits = None
      then enforce_signed_encoding_sign enc sign bits guard else return ());
     guarded_or_zero_field enc guard }"

text \<open>The sign bit of an operand as a field element: a constant where the range knows it.\<close>

definition operand_sign :: "value_id \<Rightarrow> int_interval \<Rightarrow> nat \<Rightarrow> ('f::field, value_id) emits" where
  "operand_sign v r bits = (case known_sign r bits of
     Some False \<Rightarrow> em_field_const 0
   | Some True \<Rightarrow> em_field_const 1
   | None \<Rightarrow> do { sign_bits \<leftarrow> em_bit_range v (bits - 1) 1; em_cast_to_field sign_bits })"

subsection \<open>Addition, subtraction, multiplication\<close>

definition add_or_sub :: "binary_arith_op_kind \<Rightarrow> value_id \<Rightarrow> value_id \<Rightarrow> ('f, value_id) emits" where
  "add_or_sub kind a b = (if kind = BopAdd then em_add a b else em_sub a b)"

definition add_or_sub_range :: "binary_arith_op_kind \<Rightarrow> int_interval \<Rightarrow> int_interval \<Rightarrow> int_interval" where
  "add_or_sub_range kind a b = (if kind = BopAdd then iv_add a b else iv_sub a b)"

definition check_unsigned :: "value_id \<Rightarrow> int_interval \<Rightarrow> nat \<Rightarrow> value_id option \<Rightarrow> ('f, unit) emits" where
  "check_unsigned v r bits guard = (if fits_in_unsigned_bits r bits then return ()
     else guarded_rangecheck v (narrow_rangecheck_width r bits) guard)"

definition lower_unsigned_addsub ::
  "lowering_context \<Rightarrow> value_id option \<Rightarrow> binary_arith_op_kind \<Rightarrow> value_id \<Rightarrow> value_id \<Rightarrow> value_id \<Rightarrow> nat \<Rightarrow>
   ('f::field, unit) emits option" where
  "lower_unsigned_addsub ctx guard kind result lhs rhs bits = do {
     let r = add_or_sub_range kind (lc_range ctx lhs) (lc_range ctx rhs);
     ensure (fits_in_unsigned_bits r bits \<or> narrow_rangecheck_width r bits \<ge> 1);
     Some (do {
       lhs_field \<leftarrow> em_cast_to_field lhs;
       rhs_field \<leftarrow> em_cast_to_field rhs;
       v \<leftarrow> add_or_sub kind lhs_field rhs_field;
       check_unsigned v r bits guard;
       v \<leftarrow> guarded_or_zero_field v guard;
       em_emit (OpCast result v (CastU bits)) }) }"

definition lower_unsigned_mul ::
  "lowering_context \<Rightarrow> value_id option \<Rightarrow> value_id \<Rightarrow> value_id \<Rightarrow> value_id \<Rightarrow> nat \<Rightarrow> ('f::field, unit) emits option" where
  "lower_unsigned_mul ctx guard result lhs rhs bits = do {
     let r = iv_mul (lc_range ctx lhs) (lc_range ctx rhs);
     ensure (range_fits_field_injectively r);
     ensure (fits_in_unsigned_bits r bits \<or> narrow_rangecheck_width r bits \<ge> 1);
     Some (do {
       lhs_field \<leftarrow> em_cast_to_field lhs;
       rhs_field \<leftarrow> em_cast_to_field rhs;
       v \<leftarrow> em_mul lhs_field rhs_field;
       check_unsigned v r bits guard;
       v \<leftarrow> guarded_or_zero_field v guard;
       em_emit (OpCast result v (CastU bits)) }) }"

definition lower_signed_addsub ::
  "lowering_context \<Rightarrow> value_id option \<Rightarrow> binary_arith_op_kind \<Rightarrow> value_id \<Rightarrow> value_id \<Rightarrow> value_id \<Rightarrow> nat \<Rightarrow>
   ('f::field, unit) emits option" where
  "lower_signed_addsub ctx guard kind result lhs rhs bits = do {
     let lhs_range = lc_range ctx lhs;
     let rhs_range = lc_range ctx rhs;
     let r = add_or_sub_range kind lhs_range rhs_range;
     ensure (bits > 0);
     ensure (range_fits_field_injectively r);
     lhs_type \<leftarrow> lc_types ctx lhs;
     rhs_type \<leftarrow> lc_types ctx rhs;
     Some (do {
       sign_l \<leftarrow> operand_sign lhs lhs_range bits;
       sign_r \<leftarrow> operand_sign rhs rhs_range bits;
       lhs_field \<leftarrow> em_cast_to_field lhs;
       rhs_field \<leftarrow> em_cast_to_field rhs;
       lhs_signed \<leftarrow> signed_value_from_encoded lhs_field sign_l bits;
       rhs_signed \<leftarrow> signed_value_from_encoded rhs_field sign_r bits;
       signed_raw \<leftarrow> add_or_sub kind lhs_signed rhs_signed;
       lhs_pure \<leftarrow> pure_of (is_witness_of lhs_type) lhs;
       rhs_pure \<leftarrow> pure_of (is_witness_of rhs_type) rhs;
       result_hint \<leftarrow> add_or_sub kind lhs_pure rhs_pure;
       result_hint_unsigned \<leftarrow> em_cast_to (CastU bits) result_hint;
       result_value \<leftarrow> encode_signed_value signed_raw result_hint_unsigned r bits guard;
       em_emit (OpCast result result_value (CastI bits)) }) }"

definition lower_signed_mul ::
  "lowering_context \<Rightarrow> value_id option \<Rightarrow> value_id \<Rightarrow> value_id \<Rightarrow> value_id \<Rightarrow> nat \<Rightarrow> ('f::field, unit) emits option" where
  "lower_signed_mul ctx guard result lhs rhs bits = do {
     let lhs_range = lc_range ctx lhs;
     let rhs_range = lc_range ctx rhs;
     let r = iv_mul lhs_range rhs_range;
     ensure (bits > 0);
     ensure (range_fits_field_injectively r);
     lhs_type \<leftarrow> lc_types ctx lhs;
     rhs_type \<leftarrow> lc_types ctx rhs;
     Some (do {
       sign_l \<leftarrow> operand_sign lhs lhs_range bits;
       sign_r \<leftarrow> operand_sign rhs rhs_range bits;
       lhs_field \<leftarrow> em_cast_to_field lhs;
       rhs_field \<leftarrow> em_cast_to_field rhs;
       lhs_signed \<leftarrow> signed_value_from_encoded lhs_field sign_l bits;
       rhs_signed \<leftarrow> signed_value_from_encoded rhs_field sign_r bits;
       lhs_pure \<leftarrow> pure_of (is_witness_of lhs_type) lhs;
       rhs_pure \<leftarrow> pure_of (is_witness_of rhs_type) rhs;
       result_hint \<leftarrow> em_mul lhs_pure rhs_pure;
       result_hint_unsigned \<leftarrow> em_cast_to (CastU bits) result_hint;
       product \<leftarrow> em_mul lhs_signed rhs_signed;
       result_value \<leftarrow> encode_signed_value product result_hint_unsigned r bits guard;
       em_emit (OpCast result result_value (CastI bits)) }) }"

subsection \<open>Division\<close>

record div_mod_result =
  dm_q :: value_id
  dm_r :: value_id
  dm_q_is_witness :: bool
  dm_r_is_witness :: bool

definition quotient_bound :: "int_interval \<Rightarrow> int_interval \<Rightarrow> int_interval" where
  "quotient_bound a_range b_range = (case (iv_hi a_range, iv_lo b_range) of
     (Some a_hi, Some b_lo) \<Rightarrow>
       if \<not> is_non_negative a_range \<or> \<not> b_lo > 0 then iv_top else iv_closed 0 (a_hi sdiv b_lo)
   | _ \<Rightarrow> iv_top)"

definition remainder_bound :: "int_interval \<Rightarrow> int_interval" where
  "remainder_bound b_range = (case iv_hi b_range of
     None \<Rightarrow> iv_top
   | Some b_hi \<Rightarrow> if \<not> b_hi > 0 then iv_top else iv_closed 0 (b_hi - 1))"

definition abs_bound :: "int_interval \<Rightarrow> int_interval" where
  "abs_bound r = (case (iv_lo r, iv_hi r) of
     (Some lo, Some hi) \<Rightarrow>
       (let mx = (if \<bar>lo\<bar> \<ge> \<bar>hi\<bar> then \<bar>lo\<bar> else \<bar>hi\<bar>) in
        if lo \<le> 0 \<and> hi \<ge> 0 then iv_closed 0 mx
        else iv_closed (if \<bar>lo\<bar> \<le> \<bar>hi\<bar> then \<bar>lo\<bar> else \<bar>hi\<bar>) mx)
   | _ \<Rightarrow> iv_top)"

text \<open>The hints of a division are guarded too: an inactive one divides 0 by 1.\<close>

definition guarded_hint :: "value_id \<Rightarrow> value_id \<Rightarrow> nat \<Rightarrow> value_id option \<Rightarrow> bool \<Rightarrow> ('f, value_id \<times> value_id) emits" where
  "guarded_hint dividend_hint divisor_hint bits guard guard_is_witness = (case guard of
     Some condition \<Rightarrow> do {
       condition \<leftarrow> pure_of guard_is_witness condition;
       zero \<leftarrow> em_u_const bits 0;
       one \<leftarrow> em_u_const bits 1;
       dividend_hint \<leftarrow> em_select condition dividend_hint zero;
       divisor_hint \<leftarrow> em_select condition divisor_hint one;
       return (dividend_hint, divisor_hint) }
   | None \<Rightarrow> return (dividend_hint, divisor_hint))"

definition div_mod_checks :: "nat \<Rightarrow> int_interval \<Rightarrow> int_interval \<Rightarrow> nat \<times> nat" where
  "div_mod_checks bits dividend_range divisor_range =
     (narrow_rangecheck_width (quotient_bound dividend_range divisor_range) bits,
      narrow_rangecheck_width (remainder_bound divisor_range) bits)"

definition lower_unsigned_divmod ::
  "value_id \<Rightarrow> value_id \<Rightarrow> nat \<Rightarrow> bool \<Rightarrow> bool \<Rightarrow> int_interval \<Rightarrow> int_interval \<Rightarrow> value_id option \<Rightarrow> bool \<Rightarrow>
   ('f::field, div_mod_result) emits" where
  "lower_unsigned_divmod dividend divisor bits dividend_is_witness divisor_is_witness dividend_range divisor_range
     guard guard_is_witness = (
   if dividend = divisor then do {
     active \<leftarrow> (case guard of Some condition \<Rightarrow> em_cast_to_field condition | None \<Rightarrow> em_field_const 1);
     zero \<leftarrow> em_field_const 0;
     one \<leftarrow> em_field_const 1;
     divisor_field \<leftarrow> em_cast_to_field divisor;
     divisor_minus_one \<leftarrow> em_sub divisor_field one;
     guarded_rangecheck divisor_minus_one bits guard;
     return \<lparr>dm_q = active, dm_r = zero, dm_q_is_witness = guard_is_witness, dm_r_is_witness = False\<rparr> }
   else do {
     dividend_pure \<leftarrow> pure_of dividend_is_witness dividend;
     divisor_pure \<leftarrow> pure_of divisor_is_witness divisor;
     dividend_hint \<leftarrow> em_cast_to (CastU bits) dividend_pure;
     divisor_hint \<leftarrow> em_cast_to (CastU bits) divisor_pure;
     hints \<leftarrow> guarded_hint dividend_hint divisor_hint bits guard guard_is_witness;
     q_hint \<leftarrow> em_div (fst hints) (snd hints);
     q_hint_field \<leftarrow> em_cast_to_field q_hint;
     q_wit \<leftarrow> em_write_witness q_hint_field;
     dividend_field \<leftarrow> em_cast_to_field dividend;
     divisor_field \<leftarrow> em_cast_to_field divisor;
     product \<leftarrow> em_mul q_wit divisor_field;
     r_raw \<leftarrow> em_sub dividend_field product;
     guarded_rangecheck q_wit (fst (div_mod_checks bits dividend_range divisor_range)) guard;
     guarded_rangecheck r_raw (snd (div_mod_checks bits dividend_range divisor_range)) guard;
     one \<leftarrow> em_field_const 1;
     divisor_minus_r \<leftarrow> em_sub divisor_field r_raw;
     divisor_minus_r_minus_one \<leftarrow> em_sub divisor_minus_r one;
     guarded_rangecheck divisor_minus_r_minus_one (snd (div_mod_checks bits dividend_range divisor_range)) guard;
     q \<leftarrow> guarded_or_zero_field q_wit guard;
     r \<leftarrow> guarded_or_zero_field r_raw guard;
     return \<lparr>dm_q = q, dm_r = r, dm_q_is_witness = True, dm_r_is_witness = True\<rparr> })"

text \<open>Whether the guard is a witness; a guard without a type panics.\<close>

definition guard_witness :: "lowering_context \<Rightarrow> value_id option \<Rightarrow> bool option" where
  "guard_witness ctx guard = (case guard of
     Some condition \<Rightarrow> map_option is_witness_of (lc_types ctx condition) | None \<Rightarrow> Some False)"

definition lower_unsigned_divmod_result ::
  "lowering_context \<Rightarrow> value_id option \<Rightarrow> binary_arith_op_kind \<Rightarrow> value_id \<Rightarrow> value_id \<Rightarrow> value_id \<Rightarrow> nat \<Rightarrow>
   ('f::field, unit) emits option" where
  "lower_unsigned_divmod_result ctx guard kind result lhs rhs bits = do {
     ensure (bits > 0);
     guard_is_witness \<leftarrow> guard_witness ctx guard;
     lhs_type \<leftarrow> lc_types ctx lhs;
     rhs_type \<leftarrow> lc_types ctx rhs;
     Some (do {
       divmod \<leftarrow> lower_unsigned_divmod lhs rhs bits (is_witness_of lhs_type) (is_witness_of rhs_type)
         (lc_range ctx lhs) (lc_range ctx rhs) guard guard_is_witness;
       em_emit (OpCast result (if kind = BopDiv then dm_q divmod else dm_r divmod) (CastU bits)) }) }"

text \<open>The sign bit of an operand, as a \<^verbatim>\<open>u1\<close> and as a field element.\<close>

definition operand_sign_u1 :: "value_id \<Rightarrow> int_interval \<Rightarrow> nat \<Rightarrow> ('f::field, value_id \<times> value_id) emits" where
  "operand_sign_u1 v r bits = (case known_sign r bits of
     Some False \<Rightarrow> do { u1 \<leftarrow> em_u_const 1 0; f \<leftarrow> em_field_const 0; return (u1, f) }
   | Some True \<Rightarrow> do { u1 \<leftarrow> em_u_const 1 1; f \<leftarrow> em_field_const 1; return (u1, f) }
   | None \<Rightarrow> do {
       sign_bits \<leftarrow> em_bit_range v (bits - 1) 1;
       u1 \<leftarrow> em_cast_to (CastU 1) sign_bits;
       f \<leftarrow> em_cast_to_field u1;
       return (u1, f) })"

definition write_abs_value :: "value_id \<Rightarrow> value_id \<Rightarrow> nat \<Rightarrow> ('f::field, value_id) emits" where
  "write_abs_value value_field sign bits = do {
     signed_value \<leftarrow> signed_value_from_encoded value_field sign bits;
     two \<leftarrow> em_field_const 2;
     two_sign \<leftarrow> em_mul two sign;
     one \<leftarrow> em_field_const 1;
     factor \<leftarrow> em_sub one two_sign;
     em_mul signed_value factor }"

definition write_signed_magnitude_result ::
  "value_id \<Rightarrow> bool \<Rightarrow> value_id \<Rightarrow> value_id \<Rightarrow> bool \<Rightarrow> nat \<Rightarrow> value_id option \<Rightarrow> ('f::field, value_id) emits" where
  "write_signed_magnitude_result magnitude magnitude_is_witness sign sign_u1 sign_is_witness bits guard = do {
     magnitude_pure \<leftarrow> pure_of magnitude_is_witness magnitude;
     sign_for_hint \<leftarrow> pure_of sign_is_witness sign_u1;
     magnitude_field \<leftarrow> em_cast_to_field magnitude_pure;
     two_n_field \<leftarrow> em_field_const (two_pow bits);
     neg \<leftarrow> em_sub two_n_field magnitude_field;
     encoded_if_nonzero \<leftarrow> em_select sign_for_hint neg magnitude_field;
     zero \<leftarrow> em_field_const 0;
     magnitude_is_zero \<leftarrow> em_eq magnitude_field zero;
     two \<leftarrow> em_field_const 2;
     two_sign \<leftarrow> em_mul two sign;
     one \<leftarrow> em_field_const 1;
     factor \<leftarrow> em_sub one two_sign;
     signed_value \<leftarrow> em_mul magnitude factor;
     encoded_hint \<leftarrow> em_select magnitude_is_zero zero encoded_if_nonzero;
     encoded_hint \<leftarrow> em_cast_to (CastU bits) encoded_hint;
     encode_signed_value signed_value encoded_hint iv_top bits guard }"

definition lower_signed_divmod ::
  "lowering_context \<Rightarrow> value_id option \<Rightarrow> binary_arith_op_kind \<Rightarrow> value_id \<Rightarrow> value_id \<Rightarrow> value_id \<Rightarrow> nat \<Rightarrow>
   ('f::field, unit) emits option" where
  "lower_signed_divmod ctx guard kind result lhs rhs bits = do {
     ensure (bits > 0);
     guard_is_witness \<leftarrow> guard_witness ctx guard;
     lhs_type \<leftarrow> lc_types ctx lhs;
     rhs_type \<leftarrow> lc_types ctx rhs;
     let lhs_witness = is_witness_of lhs_type;
     let rhs_witness = is_witness_of rhs_type;
     let lhs_range = lc_range ctx lhs;
     let rhs_range = lc_range ctx rhs;
     let sign_l_is_witness = (lhs_witness \<and> known_sign lhs_range bits = None);
     let sign_r_is_witness = (if lhs = rhs then sign_l_is_witness else rhs_witness \<and> known_sign rhs_range bits = None);
     let abs_l_is_witness = (lhs_witness \<or> sign_l_is_witness);
     let abs_r_is_witness = (if lhs = rhs then abs_l_is_witness else rhs_witness \<or> sign_r_is_witness);
     let abs_l_range = abs_bound lhs_range;
     let abs_r_range = (if lhs = rhs then abs_l_range else abs_bound rhs_range);
     Some (do {
       sign_l \<leftarrow> operand_sign_u1 lhs lhs_range bits;
       sign_r \<leftarrow> (if lhs = rhs then return sign_l else operand_sign_u1 rhs rhs_range bits);
       lhs_field \<leftarrow> em_cast_to_field lhs;
       rhs_field \<leftarrow> em_cast_to_field rhs;
       abs_l \<leftarrow> write_abs_value lhs_field (snd sign_l) bits;
       abs_r \<leftarrow> (if lhs = rhs then return abs_l else write_abs_value rhs_field (snd sign_r) bits);
       divmod \<leftarrow> lower_unsigned_divmod abs_l abs_r bits abs_l_is_witness abs_r_is_witness abs_l_range abs_r_range
         guard guard_is_witness;
       quotient_sign_u1 \<leftarrow> em_xor (fst sign_l) (fst sign_r);
       quotient_sign \<leftarrow> em_cast_to_field quotient_sign_u1;
       quotient \<leftarrow> write_signed_magnitude_result (dm_q divmod) (dm_q_is_witness divmod) quotient_sign quotient_sign_u1
         (sign_l_is_witness \<or> sign_r_is_witness) bits guard;
       remainder \<leftarrow> write_signed_magnitude_result (dm_r divmod) (dm_r_is_witness divmod) (snd sign_l) (fst sign_l)
         sign_l_is_witness bits guard;
       em_emit (OpCast result (if kind = BopDiv then quotient else remainder) (CastI bits)) }) }"

definition should_lower_integer_arith :: "ty \<Rightarrow> ty \<Rightarrow> bool" where
  "should_lower_integer_arith lhs_ty rhs_ty \<longleftrightarrow>
     (is_witness_of lhs_ty \<or> is_witness_of rhs_ty) \<and> integer_bits_and_signedness lhs_ty \<noteq> None"

definition lower_arith ::
  "lowering_context \<Rightarrow> value_id option \<Rightarrow> binary_arith_op_kind \<Rightarrow> value_id \<Rightarrow> value_id \<Rightarrow> value_id \<Rightarrow> nat \<Rightarrow> bool \<Rightarrow>
   ('f::field, unit) emits option" where
  "lower_arith ctx guard kind result lhs rhs bits is_signed = (
     if kind \<in> {BopAdd, BopSub} then
       if is_signed then lower_signed_addsub ctx guard kind result lhs rhs bits
       else lower_unsigned_addsub ctx guard kind result lhs rhs bits
     else if kind = BopMul then
       if is_signed then lower_signed_mul ctx guard result lhs rhs bits
       else lower_unsigned_mul ctx guard result lhs rhs bits
     else if is_signed then lower_signed_divmod ctx guard kind result lhs rhs bits
     else lower_unsigned_divmod_result ctx guard kind result lhs rhs bits)"

definition process_arith :: "lowering_context \<Rightarrow> value_id option \<Rightarrow> opcode \<Rightarrow> ('f::field, bool) emits option" where
  "process_arith ctx guard i = (case i of
     OpBinaryArithOp kind result lhs rhs \<Rightarrow>
       if kind \<in> {BopAdd, BopSub, BopMul, BopDiv, BopMod} then do {
         lhs_ty \<leftarrow> lc_types ctx lhs;
         rhs_ty \<leftarrow> lc_types ctx rhs;
         if should_lower_integer_arith lhs_ty rhs_ty then do {
           (bits, is_signed) \<leftarrow> integer_bits_and_signedness lhs_ty;
           lowered (lower_arith ctx guard kind result lhs rhs bits is_signed) }
         else Some (return False) }
       else Some (return False)
   | _ \<Rightarrow> Some (return False))"

definition lower_witness_integer_arith :: "'f::field rule" where
  "lower_witness_integer_arith ctx i = process_arith ctx (guard_of i) (guarded_op i)"

subsection \<open>The helpers are sound\<close>

lemma emit_if: "(b \<Longrightarrow> emitting ft types e M Q) \<Longrightarrow> (\<not> b \<Longrightarrow> emitting ft types e N Q) \<Longrightarrow>
    emitting ft types e (if b then M else N) Q"
  by simp

lemma appends_arith [appends_intros]:
  "appends (guarded_or_zero_field v guard)" "appends (guarded_rangecheck v n guard)"
  "appends (signed_value_from_encoded v w n)" "appends (encoding_sign v r n guard)"
  "appends (enforce_signed_encoding_sign v w n guard)" "appends (encode_signed_value v w r n guard)"
  "appends (operand_sign v r n)" "appends (add_or_sub kind v w)" "appends (check_unsigned v r n guard)"
  "appends (guarded_hint v w n guard b)" "appends (lower_unsigned_divmod v w n b c r q guard d)"
  "appends (operand_sign_u1 v r n)" "appends (write_abs_value v w n)"
  "appends (write_signed_magnitude_result v b w u c n guard)"
  unfolding guarded_or_zero_field_def guarded_rangecheck_def signed_value_from_encoded_def encoding_sign_def
    enforce_signed_encoding_sign_def encode_signed_value_def operand_sign_def add_or_sub_def check_unsigned_def
    guarded_hint_def lower_unsigned_divmod_def operand_sign_u1_def write_abs_value_def write_signed_magnitude_result_def
  by (intro appends_intros | simp split: bool.splits option.splits | intro conjI impI allI appends_intros)+

lemma emit_guarded_or_zero [emit_rules]:
  "(\<And>r. (ty_of types v = Some TField \<longrightarrow> ty_of types r = Some TField) \<Longrightarrow> (active e guard \<longrightarrow> e r = e v) \<Longrightarrow> Q r) \<Longrightarrow>
    emitting ft types e (guarded_or_zero_field v guard) Q"
  unfolding guarded_or_zero_field_def by (intro emit_rules emitting_bind appends_intros) simp_all

lemma emit_guarded_rangecheck [emit_rules]:
  "((active e guard \<longrightarrow> (\<exists>x. num n (e v) x)) \<Longrightarrow> Q ()) \<Longrightarrow> emitting ft types e (guarded_rangecheck v n guard) Q"
  unfolding guarded_rangecheck_def by (rule emit_emit_guarded)

lemma num_mono: "num m a x \<Longrightarrow> m \<le> n \<Longrightarrow> num n a x"
proof -
  assume "num m a x" "m \<le> n"
  moreover from this have "(2 :: nat) ^ m \<le> 2 ^ n" by simp
  ultimately show ?thesis unfolding num_def by linarith
qed

lemma narrow_le: "narrow_rangecheck_width r n \<le> n"
  by (simp add: narrow_rangecheck_width_def split: option.splits)

lemma emit_check_unsigned [emit_rules]:
  "((active e guard \<longrightarrow> fits_in_unsigned_bits r n \<or> (\<exists>x. num n (e v) x)) \<Longrightarrow> Q ()) \<Longrightarrow>
    emitting ft types e (check_unsigned v r n guard) Q"
  unfolding check_unsigned_def
  by (intro emit_if emit_rules) (use num_mono [OF _ narrow_le] in blast)+

text \<open>An integer whose field element is in range, or is known to be, is in range.\<close>

lemma unsigned_result:
  assumes "bn254_like TYPE('f::field)" "fits_in_unsigned_bits r n \<or> (\<exists>k. num n (a :: 'f) k)" "a = of_int z" "in_iv z r"
    "\<bar>z\<bar> \<le> 2 ^ 252" "n \<le> 252"
  shows "\<exists>k. fit_unsigned n z = Some k \<and> a = of_nat k"
proof -
  have "0 \<le> z \<and> z < 2 ^ n"
  proof (cases "fits_in_unsigned_bits r n")
    case True
    then show ?thesis using assms(4) fits_in_unsigned_bitsD by blast
  next
    case False
    then obtain k where k: "k < 2 ^ n" "a = of_nat k" using assms(2) by (auto simp: num_def)
    have "int k < 2 ^ n" using k(1) by (metis of_nat_less_iff of_nat_numeral of_nat_power)
    moreover have "(2 :: int) ^ n \<le> 2 ^ 252" using assms(6) by (intro power_increasing) simp_all
    ultimately have "int k < 2 ^ 252" by (rule less_le_trans)
    then have "\<bar>z - int k\<bar> < 2 * 2 ^ 252" using assms(5) by linarith
    then have "z = int k" using bn254_eq [OF assms(1), of z "int k"] bn254_bound [of 253] assms(3) k(2) by (simp add: bn254_modulus_def)
    then show ?thesis using \<open>int k < 2 ^ n\<close> by simp
  qed
  moreover from this have "(of_int z :: 'f) = of_nat (nat z)" by (simp add: of_nat_nat)
  ultimately show ?thesis using assms(3) by (simp add: fit_unsigned_def)
qed

lemma emit_signed_value [emit_rules]:
  "ty_of types a = Some TField \<Longrightarrow> ty_of types sign = Some TField \<Longrightarrow>
   (\<And>r. ty_of types r = Some TField \<Longrightarrow> e r = e a - e sign * 2 ^ n \<Longrightarrow> Q r) \<Longrightarrow>
   emitting ft types e (signed_value_from_encoded a sign n) Q"
  unfolding signed_value_from_encoded_def two_pow_def by (intro emit_rules emitting_bind appends_intros; simp)

lemma signed_of_sign: "signed_of n x = int x - (if 2 ^ (n - 1) \<le> x then 2 ^ n else 0)"
  by (simp add: signed_of_def)

lemma known_sign_value:
  assumes "known_sign r n = Some s" "in_iv (signed_of n x) r" "x < 2 ^ n"
  shows "s \<longleftrightarrow> 2 ^ (n - 1) \<le> x"
proof -
  have "signed_of n x < 0" if "2 ^ (n - 1) \<le> x" "x < 2 ^ n"
    using that of_nat_less_iff [of x "2 ^ n", where 'a = int] by (simp add: signed_of_def)
  moreover have "0 \<le> signed_of n x" if "\<not> 2 ^ (n - 1) \<le> x"
    using that by (simp add: signed_of_def)
  moreover have "signed_of n x < 0" if "s"
    using assms that by (auto simp: known_sign_def is_strictly_negative_def some_and_def in_iv_def split: if_splits option.splits)
  moreover have "0 \<le> signed_of n x" if "\<not> s"
    using assms that is_non_negative_in_signedD [of r n "signed_of n x"] by (auto simp: known_sign_def split: if_splits)
  ultimately show ?thesis using assms(3) by fastforce
qed

lemma sign_bit_value:
  assumes "x < 2 ^ n" "0 < n"
  shows "x div 2 ^ (n - 1) mod 2 = of_bool (2 ^ (n - 1) \<le> (x :: nat))"
proof (cases "2 ^ (n - 1) \<le> x")
  case True
  have "x < 2 * 2 ^ (n - 1)" using assms by (cases n) simp_all
  then have "x div 2 ^ (n - 1) = 1" using True by (intro div_nat_eqI) simp_all
  then show ?thesis using True by simp
qed simp

lemma emit_operand_sign [emit_rules]:
  assumes "ty_of types v = Some (TI n)" "0 < n"
    "\<And>s. ty_of types s = Some TField \<Longrightarrow> (\<forall>x. num n (e v) x \<longrightarrow> in_iv (signed_of n x) r \<longrightarrow> e s = of_bool (2 ^ (n - 1) \<le> x)) \<Longrightarrow> Q s"
  shows "emitting ft types e (operand_sign v r n) Q"
proof (cases "known_sign r n")
  case None
  show ?thesis unfolding operand_sign_def None option.case
    by (intro emit_rules emitting_bind appends_intros, rule assms(3))
      (use assms(1,2) sign_bit_value in \<open>auto simp: on_bits_def num_def\<close>)
next
  case (Some s)
  have v: "s \<longleftrightarrow> 2 ^ (n - 1) \<le> x" if "num n (e v) x" "in_iv (signed_of n x) r" for x
    using known_sign_value [OF Some that(2)] that(1) by (simp add: num_def)
  show ?thesis
  proof (cases s)
    case True
    then have k: "known_sign r n = Some True" using Some by simp
    show ?thesis unfolding operand_sign_def k option.case bool.case
      by (intro emit_rules emitting_bind appends_intros, rule assms(3)) (use v True in auto)
  next
    case False
    then have k: "known_sign r n = Some False" using Some by simp
    show ?thesis unfolding operand_sign_def k option.case bool.case
      by (intro emit_rules emitting_bind appends_intros, rule assms(3)) (use v False in auto)
  qed
qed

lemma signed_value: "e s = of_bool (2 ^ (n - 1) \<le> x) \<Longrightarrow> of_nat x - e s * 2 ^ n = (of_int (signed_of n x) :: 'f::field)"
  by (simp add: signed_of_sign)

lemma emit_encoding_sign [emit_rules]:
  assumes "\<And>s. ty_of types s = Some TField \<Longrightarrow> (is_non_negative_in_signed r n \<longrightarrow> e s = 0) \<Longrightarrow>
      (is_strictly_negative r \<and> \<not> is_non_negative_in_signed r n \<longrightarrow> e s = 1) \<Longrightarrow>
      (active e guard \<longrightarrow> e s = 0 \<or> e s = 1) \<Longrightarrow> Q s"
  shows "emitting ft types e (encoding_sign hint r n guard) Q"
  unfolding encoding_sign_def
  by (intro emit_if emit_rules emitting_bind appends_intros; rule assms)
    (auto simp: ty_of_def num_def less_2_cases_iff)

lemma emit_enforce_sign [emit_rules]:
  assumes "bn254_like TYPE('f::field)" "ty_of types a = Some TField" "ty_of types s = Some TField"
    "(active e guard \<longrightarrow> (\<exists>k < 2 ^ (n - 1). e a - e s * 2 ^ (n - 1) = of_nat k)) \<Longrightarrow> Q ()"
  shows "emitting ft types (e :: 'f valuation) (enforce_signed_encoding_sign a s n guard) Q"
proof -
  have "d = 0" if "num 1 d x" "num 1 (- d) y" for d :: 'f and x y
  proof -
    have "of_nat x = d" "of_nat y = - d" using that by (simp_all add: num_def)
    then have "(of_nat (x + y) :: 'f) = of_nat 0" by simp
    moreover have "x + y < 2 ^ 2" "0 < (2 :: nat) ^ 2" using that by (simp_all add: num_def)
    moreover have "inj_on (of_nat :: nat \<Rightarrow> 'f) {..<2 ^ 2}" by (rule bn254_inj [OF assms(1)]) simp
    ultimately have "x + y = 0" using of_nat_eqD by blast
    then show ?thesis using that by (simp add: num_def)
  qed
  note zero = this
  show ?thesis
  proof (cases "n = 1")
    case True
    show ?thesis unfolding enforce_signed_encoding_sign_def if_P [OF True]
    proof (intro emit_rules emitting_bind appends_intros, goal_cases)
      case (1 d n')
      have d: "e d = e a - e s" "e n' = - (e a - e s)" using 1 assms(2,3) by simp_all
      have "e a - e s = 0" if "active e guard"
        using 1(2,4) that zero [of "e a - e s"] unfolding d by blast
      then show ?case using True by (intro assms(4)) auto
    qed
  next
    case False
    show ?thesis unfolding enforce_signed_encoding_sign_def if_not_P [OF False] two_pow_def
      by (intro emit_rules emitting_bind appends_intros, rule assms(4)) (use assms(2,3) in \<open>auto simp: num_def\<close>)
  qed
qed

text \<open>An integer that the checks let through is representable, and the result is its encoding.\<close>

lemma encoded_value:
  assumes "- (2 ^ (n - 1)) \<le> v" "v < 2 ^ (n - 1)" "0 < n"
  shows "int (encoded n v) = v + (if v < 0 then 2 ^ n else 0)"
proof -
  have p: "(2 :: int) ^ n = 2 * 2 ^ (n - 1)" using assms(3) by (cases n) simp_all
  have "v mod 2 ^ n = v + (if v < 0 then 2 ^ n else 0)"
  proof (cases "v < 0")
    case True
    then have "(v + 2 ^ n) mod 2 ^ n = v + 2 ^ n" using assms p by (intro mod_pos_pos_trivial) simp_all
    then show ?thesis using True by simp
  next
    case False
    then show ?thesis using assms p by (simp add: mod_pos_pos_trivial)
  qed
  moreover have "0 \<le> v + (if v < 0 then 2 ^ n else 0)" using assms p by simp
  ultimately show ?thesis by (simp add: encoded_def)
qed

lemma signed_result:
  fixes sv s :: "'f::field"
  assumes "bn254_like TYPE('f)" "0 < n" "n \<le> 251" "sv = of_int v" "in_iv v r" "\<bar>v\<bar> \<le> 2 ^ 252"
    "is_non_negative_in_signed r n \<longrightarrow> s = 0"
    "is_strictly_negative r \<and> \<not> is_non_negative_in_signed r n \<longrightarrow> s = 1" "s = 0 \<or> s = 1"
    "\<not> fits_in_signed_bits r n \<or> known_sign r n = None \<longrightarrow> (\<exists>k < 2 ^ (n - 1). sv + s * 2 ^ n - s * 2 ^ (n - 1) = of_nat k)"
  shows "fit_signed n v = Some (encoded n v) \<and> sv + s * 2 ^ n = of_nat (encoded n v)"
proof -
  have p: "(2 :: int) ^ n = 2 * 2 ^ (n - 1)" "(2 :: 'f) ^ n = 2 * 2 ^ (n - 1)" using assms(2) by (cases n; simp)+
  have small: "(2 :: int) ^ (n - 1) \<le> 2 ^ 250" using assms(3) by (intro power_increasing) simp_all
  have fit: "- (2 ^ (n - 1)) \<le> v \<and> v < 2 ^ (n - 1) \<and> s = of_bool (v < 0)"
  proof (cases "\<not> fits_in_signed_bits r n \<or> known_sign r n = None")
    case True
    then obtain k where k: "k < 2 ^ (n - 1)" "sv + s * 2 ^ n - s * 2 ^ (n - 1) = of_nat k" using assms(10) by blast
    have "int k < 2 ^ (n - 1)" using k(1) by (metis of_nat_less_iff of_nat_numeral of_nat_power)
    have bound: "\<bar>v - (int k - (if b then 2 ^ (n - 1) else 0))\<bar> < bn254_modulus" for b
    proof -
      have "int k < 2 ^ 250" using \<open>int k < 2 ^ (n - 1)\<close> small by (rule less_le_trans)
      moreover have "0 \<le> (if b then 2 ^ (n - 1) else (0 :: int))" "(if b then 2 ^ (n - 1) else (0 :: int)) \<le> 2 ^ 250"
        using small by simp_all
      moreover have "(2 :: int) ^ 252 = 4 * 2 ^ 250" "(2 :: int) ^ 253 = 8 * 2 ^ 250" by simp_all
      ultimately have "\<bar>v - (int k - (if b then 2 ^ (n - 1) else 0))\<bar> < 2 ^ 253" using assms(6) by linarith
      then show ?thesis using bn254_bound [of 253] by linarith
    qed
    consider "s = 0" | "s = 1" using assms(9) by blast
    then show ?thesis
    proof cases
      case 1
      then have "v = int k" using bn254_eq [OF assms(1), of v "int k"] bound [of False] k(2) assms(4) by simp
      moreover have "- (2 ^ (n - 1)) \<le> int k" by (rule order_trans [of _ 0]) simp_all
      ultimately show ?thesis using \<open>int k < 2 ^ (n - 1)\<close> 1 by simp
    next
      case 2
      then have "v = int k - 2 ^ (n - 1)"
        using bn254_eq [OF assms(1), of v "int k - 2 ^ (n - 1)"] bound [of True] k(2) assms(4) p by (simp add: algebra_simps)
      moreover from this have "v < 0" and "- (2 ^ (n - 1)) \<le> v" using \<open>int k < 2 ^ (n - 1)\<close> by linarith+
      moreover have "v < 2 ^ (n - 1)" using \<open>v < 0\<close> by (rule less_trans) simp
      ultimately show ?thesis using 2 by simp
    qed
  next
    case False
    then have r: "in_iv v (signed_full n)" using fits_in_signed_bitsD assms(5) by blast
    have "s = of_bool (v < 0)"
    proof (cases "is_non_negative_in_signed r n")
      case True
      then show ?thesis using is_non_negative_in_signedD [OF True assms(5)] assms(7) by simp
    next
      case neg: False
      then have "is_strictly_negative r" using False by (simp add: known_sign_def split: if_splits)
      then have "v < 0" using assms(5) by (auto simp: is_strictly_negative_def some_and_def in_iv_def split: option.splits)
      then show ?thesis using \<open>is_strictly_negative r\<close> neg assms(8) by simp
    qed
    then show ?thesis using r assms(2) by (simp add: in_signed_full)
  qed
  have "int (encoded n v) = v + (if v < 0 then 2 ^ n else 0)" using encoded_value fit assms(2) by blast
  then have "(of_nat (encoded n v) :: 'f) = of_int (v + (if v < 0 then 2 ^ n else 0))" by (metis of_int_of_nat_eq)
  then show ?thesis using fit assms(4) by (simp add: fit_signed_def)
qed

lemma emit_sign_check:
  assumes "bn254_like TYPE('f::field)" "ty_of types a = Some TField" "ty_of types s = Some TField"
    "(b \<longrightarrow> active e guard \<longrightarrow> (\<exists>k < 2 ^ (n - 1). e a - e s * 2 ^ (n - 1) = of_nat k)) \<Longrightarrow> Q ()"
  shows "emitting ft types (e :: 'f valuation) (if b then enforce_signed_encoding_sign a s n guard else return ()) Q"
proof (cases b)
  case True
  show ?thesis unfolding if_P [OF True] by (rule emit_enforce_sign [OF assms(1-3)]) (use assms(4) True in blast)
next
  case False
  show ?thesis unfolding if_not_P [OF False] by (rule emitting_return) (use assms(4) False in blast)
qed

lemma emit_encode_signed [emit_rules]:
  assumes "bn254_like TYPE('f::field)" "0 < n" "n \<le> 251" "ty_of types a = Some TField"
    "\<And>w. ty_of types w = Some TField \<Longrightarrow> (\<forall>v. active e guard \<longrightarrow> e a = of_int v \<longrightarrow> in_iv v r \<longrightarrow> \<bar>v\<bar> \<le> 2 ^ 252 \<longrightarrow>
       fit_signed n v = Some (encoded n v) \<and> e w = of_nat (encoded n v)) \<Longrightarrow> Q w"
  shows "emitting ft types (e :: 'f valuation) (encode_signed_value a hint r n guard) Q"
  unfolding encode_signed_value_def two_pow_def
proof (intro emitting_bind emit_sign_check emit_rules appends_intros assms(1), goal_cases)
  case (3 s c m w x)
  have w: "e w = e a + e s * 2 ^ n" "ty_of types w = Some TField" using 3 assms(4) by simp_all
  show ?case
  proof (rule assms(5))
    show "ty_of types x = Some TField" using 3 w by simp
    show "\<forall>v. active e guard \<longrightarrow> e a = of_int v \<longrightarrow> in_iv v r \<longrightarrow> \<bar>v\<bar> \<le> 2 ^ 252 \<longrightarrow>
       fit_signed n v = Some (encoded n v) \<and> e x = of_nat (encoded n v)"
    proof (intro allI impI)
      fix v assume v: "active e guard" "e a = of_int v" "in_iv v r" "\<bar>v\<bar> \<le> 2 ^ 252"
      have "fit_signed n v = Some (encoded n v) \<and> e a + e s * 2 ^ n = of_nat (encoded n v)"
        by (rule signed_result [OF assms(1-3) v(2-4) 3(2,3)]) (use 3(4,10) v(1) w(1) in simp_all)
      then show "fit_signed n v = Some (encoded n v) \<and> e x = of_nat (encoded n v)" using 3(12) v(1) w(1) by simp
    qed
  qed
qed (use assms(4) in simp_all)

subsection \<open>Unsigned addition, subtraction, multiplication\<close>

lemma emit_add_or_sub [emit_rules]:
  "(\<And>r. (ty_of types a = Some TField \<longrightarrow> ty_of types r = Some TField \<and> e r = (if kind = BopAdd then e a + e b else e a - e b)) \<Longrightarrow> Q r) \<Longrightarrow>
    emitting ft types e (add_or_sub kind a b) Q"
  unfolding add_or_sub_def by (cases "kind = BopAdd") (auto intro!: emit_rules)

lemma unsigned_sat:
  assumes "ty_of types lhs = Some (TU n)"
    "\<And>x y. num n (e lhs) x \<Longrightarrow> num n (e rhs) y \<Longrightarrow> \<exists>z. checked_u n kind x y = Some z \<and> e result = of_nat z"
    "kind \<noteq> BopShl" "kind \<noteq> BopShr"
  shows "sat types e (OpBinaryArithOp kind result lhs rhs)"
  using assms by (simp add: arith_holds_def)

lemma int_num_bound: "num n a x \<Longrightarrow> int x < 2 ^ n"
  by (metis num_def of_nat_less_iff of_nat_numeral of_nat_power)

lemma num_251: "num n a x \<Longrightarrow> n \<le> 251 \<Longrightarrow> int x < 2 ^ 251"
  by (rule less_le_trans [OF int_num_bound power_increasing]) simp_all

lemma in_rangeD:
  "in_range ctx types e v \<Longrightarrow> ty_of types v = Some (TU n) \<Longrightarrow> n \<le> 251 \<and> (\<forall>x. num n (e v) x \<longrightarrow> in_iv (int x) (lc_range ctx v))"
  "in_range ctx types e v \<Longrightarrow> ty_of types v = Some (TI n) \<Longrightarrow> n \<le> 251 \<and> (\<forall>x. num n (e v) x \<longrightarrow> in_iv (signed_of n x) (lc_range ctx v))"
  by (simp_all add: in_range_def)

text \<open>What the operands of a lowered operation are.\<close>

lemma arith_operands:
  assumes "ready ctx types e (OpBinaryArithOp kind result lhs rhs)" "kind \<noteq> BopShl" "kind \<noteq> BopShr"
  shows "ty_of types rhs = ty_of types lhs" "in_range ctx types e lhs" "in_range ctx types e rhs" "flat_types types"
    "kind \<in> {BopMul, BopDiv, BopMod} \<Longrightarrow> narrow 126 (ty_of types lhs)"
    "types lhs = lc_types ctx lhs" "types rhs = lc_types ctx rhs"
  using readyD [OF assms(1)] assms(2,3) by auto

lemma lower_unsigned_addsub_sound:
  fixes e :: "'f::field valuation"
  assumes "bn254_like TYPE('f)" "ready ctx types e (OpBinaryArithOp kind result lhs rhs)" "kind \<in> {BopAdd, BopSub}"
    "ty_of types lhs = Some (TU n)" "lower_unsigned_addsub ctx guard kind result lhs rhs n = Some M"
  shows "emitting ft types e M (\<lambda>_. active e guard \<longrightarrow> sat types e (OpBinaryArithOp kind result lhs rhs))"
proof -
  let ?r = "add_or_sub_range kind (lc_range ctx lhs) (lc_range ctx rhs)"
  have k: "kind \<noteq> BopShl" "kind \<noteq> BopShr" using assms(3) by auto
  note o = arith_operands [OF assms(2) k]
  have M: "M = do {
       lhs_field \<leftarrow> em_cast_to_field lhs;
       rhs_field \<leftarrow> em_cast_to_field rhs;
       v \<leftarrow> add_or_sub kind lhs_field rhs_field;
       check_unsigned v ?r n guard;
       v \<leftarrow> guarded_or_zero_field v guard;
       em_emit (OpCast result v (CastU n)) }"
    using assms(5) by (simp add: lower_unsigned_addsub_def Let_def split: if_splits)
  have result: "\<exists>z. checked_u n kind x y = Some z \<and> a = of_nat z"
    if a: "a = (if kind = BopAdd then e lhs + e rhs else e lhs - e rhs)"
      "fits_in_unsigned_bits ?r n \<or> (\<exists>k. num n a k)" and xy: "num n (e lhs) x" "num n (e rhs) y" for a x y
  proof -
    let ?z = "if kind = BopAdd then int x + int y else int x - int y"
    have n: "n \<le> 251" using in_rangeD(1) [OF o(2) assms(4)] by blast
    have iv: "in_iv ?z ?r"
      using in_rangeD(1) [OF o(2) assms(4)] in_rangeD(1) [OF o(3)] o(1) assms(4) xy
      by (auto simp: add_or_sub_range_def intro: in_iv_add in_iv_sub)
    have "int x < 2 ^ 251" "int y < 2 ^ 251" using num_251 [OF xy(1) n] num_251 [OF xy(2) n] .
    moreover have "(2 :: int) ^ 252 = 2 * 2 ^ 251" by simp
    ultimately have "\<bar>if b then int x + int y else int x - int y\<bar> \<le> 2 ^ 252" for b
      by (cases b; simp only: if_True if_False; linarith)
    moreover have "a = of_int ?z" using a(1) xy by (simp add: num_def)
    ultimately have "\<exists>k. fit_unsigned n ?z = Some k \<and> a = of_nat k"
      using unsigned_result [OF assms(1) a(2) _ iv] n by simp
    then show ?thesis using assms(3) by auto
  qed
  show ?thesis unfolding M
  proof (intro emitting_bind emit_rules appends_intros, goal_cases)
    case (1 l r v w)
    then show ?case by (intro impI unsigned_sat [OF assms(4) _ k] result) simp_all
  qed
qed

lemma narrow_TU: "narrow w (Some (TU n)) \<longleftrightarrow> n \<le> w" and narrow_TI: "narrow w (Some (TI n)) \<longleftrightarrow> n \<le> w"
  by (simp_all add: narrow_def)

lemma num_126: "num n a x \<Longrightarrow> n \<le> 126 \<Longrightarrow> int x < 2 ^ 126"
  by (rule less_le_trans [OF int_num_bound power_increasing]) simp_all

lemma product_252: "0 \<le> x \<Longrightarrow> 0 \<le> y \<Longrightarrow> x \<le> 2 ^ 126 \<Longrightarrow> y \<le> 2 ^ 126 \<Longrightarrow> x * y \<le> (2 :: int) ^ 252"
  using mult_mono [of x "2 ^ 126" y "2 ^ 126"] by simp

lemma lower_unsigned_mul_sound:
  fixes e :: "'f::field valuation"
  assumes "bn254_like TYPE('f)" "ready ctx types e (OpBinaryArithOp BopMul result lhs rhs)"
    "ty_of types lhs = Some (TU n)" "lower_unsigned_mul ctx guard result lhs rhs n = Some M"
  shows "emitting ft types e M (\<lambda>_. active e guard \<longrightarrow> sat types e (OpBinaryArithOp BopMul result lhs rhs))"
proof -
  let ?r = "iv_mul (lc_range ctx lhs) (lc_range ctx rhs)"
  note o = arith_operands [OF assms(2), simplified]
  have M: "M = do {
       lhs_field \<leftarrow> em_cast_to_field lhs;
       rhs_field \<leftarrow> em_cast_to_field rhs;
       v \<leftarrow> em_mul lhs_field rhs_field;
       check_unsigned v ?r n guard;
       v \<leftarrow> guarded_or_zero_field v guard;
       em_emit (OpCast result v (CastU n)) }"
    using assms(4) by (simp add: lower_unsigned_mul_def Let_def split: if_splits)
  have result: "\<exists>z. checked_u n BopMul x y = Some z \<and> a = of_nat z"
    if a: "a = e lhs * e rhs" "fits_in_unsigned_bits ?r n \<or> (\<exists>k. num n a k)" and xy: "num n (e lhs) x" "num n (e rhs) y" for a x y
  proof -
    have n: "n \<le> 126" using o(5) by (simp add: assms(3) narrow_TU)
    have iv: "in_iv (int x * int y) ?r"
      using in_rangeD(1) [OF o(2) assms(3)] in_rangeD(1) [OF o(3)] o(1) assms(3) xy by (auto intro: in_iv_mul)
    have "\<bar>int x * int y\<bar> \<le> 2 ^ 252"
      using product_252 [of "int x" "int y"] num_126 [OF xy(1) n] num_126 [OF xy(2) n] by (simp add: abs_mult)
    moreover have "a = of_int (int x * int y)" using a(1) xy by (simp add: num_def)
    ultimately show ?thesis using unsigned_result [OF assms(1) a(2) _ iv] n by simp
  qed
  show ?thesis unfolding M
  proof (intro emitting_bind emit_rules appends_intros, goal_cases)
    case (1 l r v w)
    then show ?case by (intro impI unsigned_sat [OF assms(3)] result) simp_all
  qed
qed

subsection \<open>Signed addition, subtraction, multiplication\<close>

lemma signed_sat:
  assumes "ty_of types lhs = Some (TI n)"
    "\<And>x y. num n (e lhs) x \<Longrightarrow> num n (e rhs) y \<Longrightarrow> \<exists>z. checked_s n kind x y = Some z \<and> e result = of_nat z"
    "kind \<noteq> BopShl" "kind \<noteq> BopShr"
  shows "sat types e (OpBinaryArithOp kind result lhs rhs)"
  using assms by (simp add: arith_holds_def)

lemma signed_of_abs: "x < 2 ^ n \<Longrightarrow> 0 < n \<Longrightarrow> \<bar>signed_of n x\<bar> \<le> 2 ^ (n - 1)"
proof -
  assume x: "x < 2 ^ n" "0 < n"
  have p: "(2 :: int) ^ n = 2 * 2 ^ (n - 1)" using x(2) by (cases n) simp_all
  have "int x < 2 ^ n" using x(1) by (metis of_nat_less_iff of_nat_numeral of_nat_power)
  moreover have "int x < 2 ^ (n - 1) \<longleftrightarrow> x < 2 ^ (n - 1)" by (metis of_nat_less_iff of_nat_numeral of_nat_power)
  ultimately show ?thesis using p by (simp add: signed_of_def)
qed

lemma signed_of_bound: "num n a x \<Longrightarrow> 0 < n \<Longrightarrow> n \<le> m \<Longrightarrow> \<bar>signed_of n x\<bar> \<le> 2 ^ (m - 1)"
  using order_trans [OF signed_of_abs [of x n] power_increasing [of "n - 1" "m - 1" "2 :: int"]] by (simp add: num_def)

text \<open>The two decoded operands and what is computed of them.\<close>

lemma decoded:
  fixes l a s :: "'f::field"
  assumes "l = a - s * 2 ^ n" "\<forall>x. num n a x \<longrightarrow> in_iv (signed_of n x) r \<longrightarrow> s = of_bool (2 ^ (n - 1) \<le> x)"
    "num n a x" "in_iv (signed_of n x) r"
  shows "l = of_int (signed_of n x)"
proof -
  have "a = of_nat x" "s = of_bool (2 ^ (n - 1) \<le> x)" using assms(2-4) by (auto simp: num_def)
  then show ?thesis using signed_value [of "\<lambda>_. s" undefined n x] assms(1) by simp
qed

lemma lower_signed_addsub_sound:
  fixes e :: "'f::field valuation"
  assumes "bn254_like TYPE('f)" "ready ctx types e (OpBinaryArithOp kind result lhs rhs)" "kind \<in> {BopAdd, BopSub}"
    "ty_of types lhs = Some (TI n)" "lower_signed_addsub ctx guard kind result lhs rhs n = Some M"
  shows "emitting ft types e M (\<lambda>_. active e guard \<longrightarrow> sat types e (OpBinaryArithOp kind result lhs rhs))"
proof -
  let ?lr = "lc_range ctx lhs" and ?rr = "lc_range ctx rhs"
  let ?r = "add_or_sub_range kind ?lr ?rr"
  have k: "kind \<noteq> BopShl" "kind \<noteq> BopShr" using assms(3) by auto
  note o = arith_operands [OF assms(2) k]
  have r: "ty_of types rhs = Some (TI n)" using o(1) assms(4) by simp
  obtain lt rt where t: "lc_types ctx lhs = Some lt" "lc_types ctx rhs = Some rt"
    using assms(5) by (auto simp: lower_signed_addsub_def Let_def bind_Some_iff split: if_splits)
  have n: "0 < n" using assms(5) by (simp add: lower_signed_addsub_def Let_def split: if_splits)
  have n': "n \<le> 251" using in_rangeD(2) [OF o(2) assms(4)] by blast
  have M: "M = do {
       sign_l \<leftarrow> operand_sign lhs ?lr n;
       sign_r \<leftarrow> operand_sign rhs ?rr n;
       lhs_field \<leftarrow> em_cast_to_field lhs;
       rhs_field \<leftarrow> em_cast_to_field rhs;
       lhs_signed \<leftarrow> signed_value_from_encoded lhs_field sign_l n;
       rhs_signed \<leftarrow> signed_value_from_encoded rhs_field sign_r n;
       signed_raw \<leftarrow> add_or_sub kind lhs_signed rhs_signed;
       lhs_pure \<leftarrow> pure_of (is_witness_of lt) lhs;
       rhs_pure \<leftarrow> pure_of (is_witness_of rt) rhs;
       result_hint \<leftarrow> add_or_sub kind lhs_pure rhs_pure;
       result_hint_unsigned \<leftarrow> em_cast_to (CastU n) result_hint;
       result_value \<leftarrow> encode_signed_value signed_raw result_hint_unsigned ?r n guard;
       em_emit (OpCast result result_value (CastI n)) }"
    using assms(5) t by (simp add: lower_signed_addsub_def Let_def split: if_splits)
  have result: "\<exists>z. checked_s n kind x y = Some z \<and> b = of_nat z"
    if w: "\<forall>v. w = of_int v \<longrightarrow> in_iv v ?r \<longrightarrow> \<bar>v\<bar> \<le> 2 ^ 252 \<longrightarrow> fit_signed n v = Some (encoded n v) \<and> b = of_nat (encoded n v)"
      and lr: "w = (if kind = BopAdd then l + r else l - r)"
      and l: "l = of_int (signed_of n x)" and r: "r = of_int (signed_of n y)"
      and xy: "num n (e lhs) x" "num n (e rhs) y" for w b l r :: 'f and x y
  proof -
    let ?v = "if kind = BopAdd then signed_of n x + signed_of n y else signed_of n x - signed_of n y"
    have "in_iv ?v ?r"
      using in_rangeD(2) [OF o(2) assms(4)] in_rangeD(2) [OF o(3) \<open>ty_of types rhs = Some (TI n)\<close>] xy
      by (auto simp: add_or_sub_range_def intro: in_iv_add in_iv_sub)
    moreover have "\<bar>if b then signed_of n x + signed_of n y else signed_of n x - signed_of n y\<bar> \<le> 2 ^ 252" for b
    proof -
      have "\<bar>signed_of n x\<bar> \<le> 2 ^ 250" "\<bar>signed_of n y\<bar> \<le> 2 ^ 250"
        using signed_of_bound [OF xy(1) n n'] signed_of_bound [OF xy(2) n n'] by simp_all
      moreover have "(2 :: int) ^ 252 = 4 * 2 ^ 250" by simp
      ultimately show ?thesis by (cases b; simp only: if_True if_False; linarith)
    qed
    moreover have "w = of_int ?v" using lr l r by simp
    ultimately have "fit_signed n ?v = Some (encoded n ?v) \<and> b = of_nat (encoded n ?v)" using w by blast
    then show ?thesis using assms(3) by auto
  qed
  show ?thesis unfolding M
  proof (intro emitting_bind emit_rules appends_intros n n' assms(1,4) r, goal_cases)
    case (6 sl sr lf rf l r raw lp rp h hu w)
    show ?case
    proof (intro impI signed_sat [OF assms(4) _ k])
      fix x y assume a: "active e guard" and xy: "num n (e lhs) x" "num n (e rhs) y"
      have iv: "in_iv (signed_of n x) ?lr" "in_iv (signed_of n y) ?rr"
        using in_rangeD(2) [OF o(2) assms(4)] in_rangeD(2) [OF o(3) \<open>ty_of types rhs = Some (TI n)\<close>] xy by blast+
      have l: "e l = of_int (signed_of n x)" by (rule decoded [OF _ 6(2) xy(1) iv(1)]) (use 6(6,10) in simp)
      have r: "e r = of_int (signed_of n y)" by (rule decoded [OF _ 6(4) xy(2) iv(2)]) (use 6(8,12) in simp)
      have raw: "e raw = (if kind = BopAdd then e l + e r else e l - e r)" using 6(9,13) by simp
      have "\<exists>z. checked_s n kind x y = Some z \<and> e w = of_nat z"
        by (rule result [OF _ raw l r xy]) (use 6(18) a in blast)
      then show "\<exists>z. checked_s n kind x y = Some z \<and> e result = of_nat z" by (simp only: 6(19))
    qed
  qed simp_all
qed

lemma lower_signed_mul_sound:
  fixes e :: "'f::field valuation"
  assumes "bn254_like TYPE('f)" "ready ctx types e (OpBinaryArithOp BopMul result lhs rhs)"
    "ty_of types lhs = Some (TI n)" "lower_signed_mul ctx guard result lhs rhs n = Some M"
  shows "emitting ft types e M (\<lambda>_. active e guard \<longrightarrow> sat types e (OpBinaryArithOp BopMul result lhs rhs))"
proof -
  let ?lr = "lc_range ctx lhs" and ?rr = "lc_range ctx rhs"
  let ?r = "iv_mul ?lr ?rr"
  note o = arith_operands [OF assms(2), simplified]
  have r: "ty_of types rhs = Some (TI n)" using o(1) assms(3) by simp
  obtain lt rt where t: "lc_types ctx lhs = Some lt" "lc_types ctx rhs = Some rt"
    using assms(4) by (auto simp: lower_signed_mul_def Let_def bind_Some_iff split: if_splits)
  have n: "0 < n" using assms(4) by (simp add: lower_signed_mul_def Let_def split: if_splits)
  have n': "n \<le> 126" "n \<le> 251" using o(5) by (simp_all add: assms(3) narrow_TI)
  have M: "M = do {
       sign_l \<leftarrow> operand_sign lhs ?lr n;
       sign_r \<leftarrow> operand_sign rhs ?rr n;
       lhs_field \<leftarrow> em_cast_to_field lhs;
       rhs_field \<leftarrow> em_cast_to_field rhs;
       lhs_signed \<leftarrow> signed_value_from_encoded lhs_field sign_l n;
       rhs_signed \<leftarrow> signed_value_from_encoded rhs_field sign_r n;
       lhs_pure \<leftarrow> pure_of (is_witness_of lt) lhs;
       rhs_pure \<leftarrow> pure_of (is_witness_of rt) rhs;
       result_hint \<leftarrow> em_mul lhs_pure rhs_pure;
       result_hint_unsigned \<leftarrow> em_cast_to (CastU n) result_hint;
       product \<leftarrow> em_mul lhs_signed rhs_signed;
       result_value \<leftarrow> encode_signed_value product result_hint_unsigned ?r n guard;
       em_emit (OpCast result result_value (CastI n)) }"
    using assms(4) t by (simp add: lower_signed_mul_def Let_def split: if_splits)
  show ?thesis unfolding M
  proof (intro emitting_bind emit_rules appends_intros n n' assms(1,3) r, goal_cases)
    case (6 sl sr lf rf l r lp rp h hu raw w)
    show ?case
    proof (intro impI signed_sat [OF assms(3)])
      fix x y assume a: "active e guard" and xy: "num n (e lhs) x" "num n (e rhs) y"
      let ?v = "signed_of n x * signed_of n y"
      have iv: "in_iv (signed_of n x) ?lr" "in_iv (signed_of n y) ?rr"
        using in_rangeD(2) [OF o(2) assms(3)] in_rangeD(2) [OF o(3) \<open>ty_of types rhs = Some (TI n)\<close>] xy by blast+
      have l: "e l = of_int (signed_of n x)" by (rule decoded [OF _ 6(2) xy(1) iv(1)]) (use 6(6,10) in simp)
      have r: "e r = of_int (signed_of n y)" by (rule decoded [OF _ 6(4) xy(2) iv(2)]) (use 6(8,12) in simp)
      have raw: "e raw = of_int ?v" using 6(9,16) l r by simp
      have "\<bar>signed_of n x\<bar> \<le> 2 ^ 126" "\<bar>signed_of n y\<bar> \<le> 2 ^ 126"
        using signed_of_bound [OF xy(1) n, of 127] signed_of_bound [OF xy(2) n, of 127] n' by simp_all
      then have "\<bar>?v\<bar> \<le> 2 ^ 252" using product_252 [of "\<bar>signed_of n x\<bar>" "\<bar>signed_of n y\<bar>"] by (simp only: abs_mult abs_ge_zero)
      moreover have "in_iv ?v ?r" by (rule in_iv_mul [OF iv])
      ultimately have "fit_signed n ?v = Some (encoded n ?v) \<and> e w = of_nat (encoded n ?v)" using 6(18) a raw by blast
      then show "\<exists>z. checked_s n BopMul x y = Some z \<and> e result = of_nat z" by (simp only: 6(19)) simp
    qed simp_all
  qed simp_all
qed

subsection \<open>Division\<close>

lemma emit_guarded_hint [emit_rules]: "(\<And>p. Q p) \<Longrightarrow> emitting ft types e (guarded_hint v w n guard b) Q"
  unfolding guarded_hint_def by (intro emit_rules emitting_bind appends_intros) simp_all

text \<open>Dividing with a remainder has one answer, and the checks tell it apart in the field.\<close>

lemma div_mod_unique: "x = q * y + r \<Longrightarrow> r < y \<Longrightarrow> x div y = q \<and> x mod y = (r :: nat)"
  by simp

lemma div_mod_gadget:
  fixes a b q r :: "'f::field"
  assumes "bn254_like TYPE('f)" "a = of_nat x" "b = of_nat y" "int x \<le> 2 ^ 126" "int y \<le> 2 ^ 126"
    "num n q k" "num m (a - q * b) l" "num m (b - (a - q * b) - 1) j" "n \<le> 126" "m \<le> 126"
  shows "y \<noteq> 0 \<and> q = of_nat (x div y) \<and> a - q * b = of_nat (x mod y)"
proof -
  have k: "int k < 2 ^ 126" "int l < 2 ^ 126" "int j < 2 ^ 126" using num_126 assms(6-10) by blast+
  have kl: "q = of_nat k" "a - q * b = of_nat l" "b - (a - q * b) - 1 = of_nat j" using assms(6-8) by (simp_all add: num_def)
  have p: "int k * int y \<le> 2 ^ 252" using product_252 k assms(5) by simp
  have e: "(2 :: int) ^ 252 = 2 ^ 126 * 2 ^ 126" "(2 :: int) ^ 253 = 2 * 2 ^ 252" "(2 :: int) ^ 126 \<le> 2 ^ 252" by simp_all
  have b: "(2 :: int) ^ 252 < bn254_modulus" "(2 :: int) ^ 253 < bn254_modulus" using bn254_bound [of 252] bn254_bound [of 253] by simp_all
  have "(of_int (int x) :: 'f) = of_int (int k * int y + int l)"
  proof -
    have "a = q * b + (a - q * b)" by simp
    then show ?thesis using kl assms(2,3) by (simp add: diff_eq_eq add.commute)
  qed
  moreover have "0 \<le> int k * int y" by simp
  then have "\<bar>int x - (int k * int y + int l)\<bar> < bn254_modulus" using p k assms(4) e(2,3) b by linarith
  ultimately have "int x = int k * int y + int l" by (rule bn254_eq [OF assms(1)])
  then have x: "x = k * y + l" by (metis of_nat_add of_nat_eq_iff of_nat_mult)
  have "(of_int (int y) :: 'f) = of_int (int l + int j + 1)" using kl assms(3) by (simp add: algebra_simps)
  moreover have "\<bar>int y - (int l + int j + 1)\<bar> < bn254_modulus" using k assms(5) e(2,3) b by linarith
  ultimately have "int y = int l + int j + 1" by (rule bn254_eq [OF assms(1)])
  then have "l < y" by linarith
  then show ?thesis using div_mod_unique [OF x] kl by auto
qed

definition divides :: "'f::field \<Rightarrow> 'f \<Rightarrow> 'f \<Rightarrow> 'f \<Rightarrow> bool" where
  "divides a b q r \<longleftrightarrow> (\<forall>x y. a = of_nat x \<longrightarrow> b = of_nat y \<longrightarrow> int x \<le> 2 ^ 126 \<longrightarrow> int y \<le> 2 ^ 126 \<longrightarrow>
     y \<noteq> 0 \<and> q = of_nat (x div y) \<and> r = of_nat (x mod y))"

lemma divides_itself:
  fixes a :: "'f::field"
  assumes "bn254_like TYPE('f)" "num n (a - 1) k" "n \<le> 126"
  shows "divides a a 1 0"
  unfolding divides_def
proof (intro allI impI)
  fix x y assume xy: "a = of_nat x" "a = of_nat y" "int x \<le> 2 ^ 126" "int y \<le> 2 ^ 126"
  have e: "(2 :: int) ^ 126 < bn254_modulus" "(2 :: int) ^ 127 < bn254_modulus" "(2 :: int) ^ 127 = 2 * 2 ^ 126"
    using bn254_bound [of 126] bn254_bound [of 127] by simp_all
  have k: "int k < 2 ^ 126" "a = of_nat (k + 1)" using num_126 [OF assms(2,3)] assms(2) by (auto simp: num_def algebra_simps)
  have "(of_int (int y) :: 'f) = of_int (int (k + 1))" using xy(2) k(2) by simp
  moreover have "\<bar>int y - int (k + 1)\<bar> < bn254_modulus" using k xy(4) e by linarith
  ultimately have "int y = int (k + 1)" by (rule bn254_eq [OF assms(1)])
  then have y: "y \<noteq> 0" by simp
  have "(of_int (int x) :: 'f) = of_int (int y)" using xy by simp
  moreover have "\<bar>int x - int y\<bar> < bn254_modulus" using xy(3,4) e by linarith
  ultimately have "int x = int y" by (rule bn254_eq [OF assms(1)])
  then show "y \<noteq> 0 \<and> (1 :: 'f) = of_nat (x div y) \<and> (0 :: 'f) = of_nat (x mod y)" using y by simp
qed

lemma emit_unsigned_divmod [emit_rules]:
  assumes "bn254_like TYPE('f::field)" "n \<le> 126"
    "\<And>d. ty_of types (dm_q d) = Some TField \<Longrightarrow> ty_of types (dm_r d) = Some TField \<Longrightarrow>
      (active e guard \<longrightarrow> divides (e dividend) (e divisor) (e (dm_q d)) (e (dm_r d))) \<Longrightarrow> Q d"
  shows "emitting ft types (e :: 'f valuation) (lower_unsigned_divmod dividend divisor n aw bw ra rb guard gw) Q"
proof (cases "dividend = divisor")
  case True
  show ?thesis unfolding lower_unsigned_divmod_def if_P [OF True]
    by (intro emit_rules emitting_bind appends_intros assms(3))
      (use divides_itself [OF assms(1) _ assms(2)] True in \<open>auto simp: active_def\<close>)
next
  case False
  show ?thesis unfolding lower_unsigned_divmod_def if_not_P [OF False]
  proof (intro emit_rules emitting_bind appends_intros assms(3), goal_cases)
    case (3 ap bp ah bh p h qf q af bf pr r one c d q' r')
    have r: "e r = e dividend - e q * e divisor" using 3(6,8,9,10,12,13,14) by simp
    have d: "e d = e divisor - (e dividend - e q * e divisor) - 1" using 3(11,12,19,20,21) r by simp
    show ?case
    proof
      assume a: "active e guard"
      have bits: "fst (div_mod_checks n ra rb) \<le> 126" "snd (div_mod_checks n ra rb) \<le> 126"
        using assms(2) by (simp_all add: div_mod_checks_def order_trans [OF narrow_le])
      obtain k l j where kl: "num (fst (div_mod_checks n ra rb)) (e q) k" "num (snd (div_mod_checks n ra rb)) (e r) l"
        "num (snd (div_mod_checks n ra rb)) (e d) j" using 3(15,16,22) a by blast
      have "divides (e dividend) (e divisor) (e q) (e r)"
        unfolding divides_def r
        using div_mod_gadget [OF assms(1) _ _ _ _ kl(1) kl(2) [unfolded r] kl(3) [unfolded d] bits] by blast
      then show "divides (e dividend) (e divisor) (e (dm_q \<lparr>dm_q = q', dm_r = r', dm_q_is_witness = True, dm_r_is_witness = True\<rparr>))
          (e (dm_r \<lparr>dm_q = q', dm_r = r', dm_q_is_witness = True, dm_r_is_witness = True\<rparr>))"
        using 3(24,26) a by simp
    qed
  qed simp_all
qed

lemma divides_nums:
  "divides a b q r \<Longrightarrow> num n a x \<Longrightarrow> num n b y \<Longrightarrow> n \<le> 126 \<Longrightarrow> y \<noteq> 0 \<and> q = of_nat (x div y) \<and> r = of_nat (x mod y)"
  using num_126 [of n a x] num_126 [of n b y] by (auto simp: divides_def num_def)

lemma lower_unsigned_divmod_sound:
  fixes e :: "'f::field valuation"
  assumes "bn254_like TYPE('f)" "ready ctx types e (OpBinaryArithOp kind result lhs rhs)" "kind \<in> {BopDiv, BopMod}"
    "ty_of types lhs = Some (TU n)" "lower_unsigned_divmod_result ctx guard kind result lhs rhs n = Some M"
  shows "emitting ft types e M (\<lambda>_. active e guard \<longrightarrow> sat types e (OpBinaryArithOp kind result lhs rhs))"
proof -
  have k: "kind \<noteq> BopShl" "kind \<noteq> BopShr" using assms(3) by auto
  note o = arith_operands [OF assms(2) k]
  have n: "n \<le> 126" using o(5) assms(3) by (auto simp: assms(4) narrow_TU)
  obtain g lt rt where M: "M = do {
       divmod \<leftarrow> lower_unsigned_divmod lhs rhs n (is_witness_of lt) (is_witness_of rt)
         (lc_range ctx lhs) (lc_range ctx rhs) guard g;
       em_emit (OpCast result (if kind = BopDiv then dm_q divmod else dm_r divmod) (CastU n)) }"
    using assms(5) by (auto simp: lower_unsigned_divmod_result_def bind_Some_iff split: if_splits)
  have result: "\<exists>z. checked_u n kind x y = Some z \<and> (if kind = BopDiv then q else r) = of_nat z"
    if "divides (e lhs) (e rhs) q r" "num n (e lhs) x" "num n (e rhs) y" for q r x y
    using divides_nums [OF that n] assms(3) by auto
  show ?thesis unfolding M
  proof (intro emitting_bind emit_rules appends_intros assms(1) n, goal_cases)
    case (1 d)
    show ?case
    proof (intro impI unsigned_sat [OF assms(4) _ k])
      fix x y assume a: "active e guard" and xy: "num n (e lhs) x" "num n (e rhs) y"
      then have "divides (e lhs) (e rhs) (e (dm_q d)) (e (dm_r d))" using 1(3) by blast
      from result [OF this xy] show "\<exists>z. checked_u n kind x y = Some z \<and> e result = of_nat z"
        unfolding 1(4) by (simp only: if_distrib [of e])
    qed
  qed
qed

text \<open>Signed division divides the absolute values and puts the signs back.\<close>

lemma emit_operand_sign_u1 [emit_rules]:
  assumes "ty_of types v = Some (TI n)" "0 < n"
    "\<And>s. ty_of types (fst s) = Some (TU 1) \<Longrightarrow> ty_of types (snd s) = Some TField \<Longrightarrow>
      (\<forall>x. num n (e v) x \<longrightarrow> in_iv (signed_of n x) r \<longrightarrow>
        e (fst s) = of_bool (2 ^ (n - 1) \<le> x) \<and> e (snd s) = of_bool (2 ^ (n - 1) \<le> x)) \<Longrightarrow> Q s"
  shows "emitting ft types e (operand_sign_u1 v r n) Q"
proof (cases "known_sign r n")
  case None
  show ?thesis unfolding operand_sign_u1_def None option.case
    by (intro emit_rules emitting_bind appends_intros, rule assms(3))
      (use assms(1,2) sign_bit_value in \<open>auto simp: on_bits_def num_def\<close>)
next
  case (Some s)
  have v: "s \<longleftrightarrow> 2 ^ (n - 1) \<le> x" if "num n (e v) x" "in_iv (signed_of n x) r" for x
    using known_sign_value [OF Some that(2)] that(1) by (simp add: num_def)
  show ?thesis
  proof (cases s)
    case True
    then have k: "known_sign r n = Some True" using Some by simp
    show ?thesis unfolding operand_sign_u1_def k option.case bool.case
      by (intro emit_rules emitting_bind appends_intros, rule assms(3)) (use v True in auto)
  next
    case False
    then have k: "known_sign r n = Some False" using Some by simp
    show ?thesis unfolding operand_sign_u1_def k option.case bool.case
      by (intro emit_rules emitting_bind appends_intros, rule assms(3)) (use v False in auto)
  qed
qed

lemma emit_abs_value [emit_rules]:
  assumes "ty_of types a = Some TField" "ty_of types s = Some TField"
    "\<And>r. ty_of types r = Some TField \<Longrightarrow> e r = (e a - e s * 2 ^ n) * (1 - 2 * e s) \<Longrightarrow> Q r"
  shows "emitting ft types e (write_abs_value a s n) Q"
  unfolding write_abs_value_def
  by (intro emit_rules emitting_bind appends_intros assms; simp)

lemma abs_gadget:
  fixes a s :: "'f::field"
  assumes "a = of_nat x" "s = of_bool (2 ^ (n - 1) \<le> x)" "x < 2 ^ n"
  shows "(a - s * 2 ^ n) * (1 - 2 * s) = of_nat (nat \<bar>signed_of n x\<bar>)"
proof -
  have i: "int x < 2 ^ n" using assms(3) by (metis of_nat_less_iff of_nat_numeral of_nat_power)
  have "a - s * 2 ^ n = of_int (signed_of n x)" using signed_value [of "\<lambda>_. s" undefined n x] assms(1,2) by simp
  then have "(a - s * 2 ^ n) * (1 - 2 * s) = of_int (signed_of n x * (if 2 ^ (n - 1) \<le> x then - 1 else 1))"
    using assms(2) by simp
  also have "signed_of n x * (if 2 ^ (n - 1) \<le> x then - 1 else 1) = int (nat \<bar>signed_of n x\<bar>)"
    using i by (simp add: signed_of_def)
  finally show ?thesis by simp
qed

lemma emit_signed_magnitude [emit_rules]:
  assumes "bn254_like TYPE('f::field)" "0 < n" "n \<le> 251" "ty_of types m = Some TField" "ty_of types s = Some TField"
    "\<And>w. ty_of types w = Some TField \<Longrightarrow> (\<forall>v. active e guard \<longrightarrow> e m * (1 - 2 * e s) = of_int v \<longrightarrow> \<bar>v\<bar> \<le> 2 ^ 252 \<longrightarrow>
       fit_signed n v = Some (encoded n v) \<and> e w = of_nat (encoded n v)) \<Longrightarrow> Q w"
  shows "emitting ft types (e :: 'f valuation) (write_signed_magnitude_result m mw s u sw n guard) Q"
  unfolding write_signed_magnitude_result_def
proof (intro emit_rules emitting_bind appends_intros assms(1-3,6), goal_cases)
qed (use assms(4,5) in auto)

definition sign_known :: "value_types \<Rightarrow> 'f::field valuation \<Rightarrow> value_id \<Rightarrow> nat \<Rightarrow> int_interval \<Rightarrow> value_id \<times> value_id \<Rightarrow> bool" where
  "sign_known types e v n r s \<longleftrightarrow> ty_of types (fst s) = Some (TU 1) \<and> ty_of types (snd s) = Some TField \<and>
     (\<forall>x. num n (e v) x \<longrightarrow> in_iv (signed_of n x) r \<longrightarrow>
        e (fst s) = of_bool (2 ^ (n - 1) \<le> x) \<and> e (snd s) = of_bool (2 ^ (n - 1) \<le> x))"

definition abs_known :: "value_types \<Rightarrow> 'f::field valuation \<Rightarrow> value_id \<Rightarrow> nat \<Rightarrow> int_interval \<Rightarrow> value_id \<Rightarrow> bool" where
  "abs_known types e v n r a \<longleftrightarrow>
     (\<forall>x. num n (e v) x \<longrightarrow> in_iv (signed_of n x) r \<longrightarrow> e a = of_nat (nat \<bar>signed_of n x\<bar>))"

lemma emit_sign_known:
  assumes "ty_of types v = Some (TI n)" "0 < n" "\<And>s. sign_known types e v n r s \<Longrightarrow> Q s"
  shows "emitting ft types e (operand_sign_u1 v r n) Q"
  by (rule emit_operand_sign_u1 [OF assms(1,2)], rule assms(3)) (simp add: sign_known_def)

lemma emit_second_sign:
  assumes "sign_known types e v n r s" "v = w \<Longrightarrow> r = r'" "ty_of types w = Some (TI n)" "0 < n"
    "\<And>s. sign_known types e w n r' s \<Longrightarrow> Q s"
  shows "emitting ft types e (if v = w then return s else operand_sign_u1 w r' n) Q"
  by (rule emit_if, rule emitting_return, rule assms(5)) (use assms in \<open>auto intro: emit_sign_known\<close>)

lemma emit_abs_known:
  assumes "sign_known types e v n r s" "ty_of types f = Some TField" "e f = e v" "\<And>a. abs_known types e v n r a \<Longrightarrow> Q a"
  shows "emitting ft types e (write_abs_value f (snd s) n) Q"
proof (rule emit_abs_value)
  fix a assume a: "e a = (e f - e (snd s) * 2 ^ n) * (1 - 2 * e (snd s))"
  have "e a = of_nat (nat \<bar>signed_of n x\<bar>)" if "num n (e v) x" "in_iv (signed_of n x) r" for x
  proof -
    have "e f = of_nat x" "e (snd s) = of_bool (2 ^ (n - 1) \<le> x)" "x < 2 ^ n"
      using assms(1,3) that by (auto simp: sign_known_def num_def)
    then show ?thesis unfolding a by (rule abs_gadget)
  qed
  then show "Q a" by (intro assms(4)) (simp add: abs_known_def)
qed (use assms(1,2) in \<open>simp_all add: sign_known_def\<close>)

lemma emit_second_abs:
  assumes "abs_known types e v n r a" "v = w \<Longrightarrow> r = r'" "sign_known types e w n r' s" "ty_of types f = Some TField" "e f = e w"
    "\<And>a. abs_known types e w n r' a \<Longrightarrow> Q a"
  shows "emitting ft types e (if v = w then return a else write_abs_value f (snd s) n) Q"
  by (rule emit_if) (use assms in \<open>auto intro: emit_abs_known emitting_return\<close>)

lemma signed_of_neg: "x < 2 ^ n \<Longrightarrow> signed_of n x < 0 \<longleftrightarrow> 2 ^ (n - 1) \<le> x"
proof -
  assume "x < 2 ^ n"
  then have "int x < 2 ^ n" by (metis of_nat_less_iff of_nat_numeral of_nat_power)
  then show ?thesis by (auto simp: signed_of_def)
qed

lemma sdiv_by_signs:
  fixes a b :: int
  assumes "b \<noteq> 0"
  shows "a sdiv b = \<bar>a\<bar> div \<bar>b\<bar> * (if (a < 0) \<noteq> (b < 0) then - 1 else 1)"
    and "a smod b = \<bar>a\<bar> mod \<bar>b\<bar> * (if a < 0 then - 1 else 1)"
proof -
  show *: "a sdiv b = \<bar>a\<bar> div \<bar>b\<bar> * (if (a < 0) \<noteq> (b < 0) then - 1 else 1)"
    using assms by (simp add: signed_divide_int_def sgn_if)
  have "\<bar>a\<bar> = \<bar>a\<bar> div \<bar>b\<bar> * \<bar>b\<bar> + \<bar>a\<bar> mod \<bar>b\<bar>" by simp
  then show "a smod b = \<bar>a\<bar> mod \<bar>b\<bar> * (if a < 0 then - 1 else 1)"
    unfolding signed_modulo_int_def * using assms by (cases "a = 0") (auto simp: abs_if sgn_if split: if_splits)
qed

text \<open>The magnitudes and signs of quotient and remainder.\<close>

lemma signed_divides:
  fixes a b q r :: "'f::field"
  assumes "divides a b q r" "a = of_nat (nat \<bar>x\<bar>)" "b = of_nat (nat \<bar>y\<bar>)" "\<bar>x\<bar> \<le> 2 ^ 126" "\<bar>y\<bar> \<le> 2 ^ 126"
  shows "y \<noteq> 0 \<and> q * (1 - 2 * of_bool ((x < 0) \<noteq> (y < 0))) = of_int (x sdiv y) \<and> r * (1 - 2 * of_bool (x < 0)) = of_int (x smod y) \<and>
    \<bar>x sdiv y\<bar> \<le> 2 ^ 126 \<and> \<bar>x smod y\<bar> \<le> 2 ^ 126"
proof -
  have d: "nat \<bar>y\<bar> \<noteq> 0 \<and> q = of_nat (nat \<bar>x\<bar> div nat \<bar>y\<bar>) \<and> r = of_nat (nat \<bar>x\<bar> mod nat \<bar>y\<bar>)"
    by (rule assms(1) [unfolded divides_def, rule_format, OF assms(2,3)]) (use assms(4,5) in simp_all)
  then have y: "y \<noteq> 0" by simp
  have i: "int (nat \<bar>x\<bar> div nat \<bar>y\<bar>) = \<bar>x\<bar> div \<bar>y\<bar>" "int (nat \<bar>x\<bar> mod nat \<bar>y\<bar>) = \<bar>x\<bar> mod \<bar>y\<bar>"
    by (simp_all add: zdiv_int zmod_int)
  from this have q: "q = of_int (\<bar>x\<bar> div \<bar>y\<bar>)" and r: "r = of_int (\<bar>x\<bar> mod \<bar>y\<bar>)" using d by (metis of_int_of_nat_eq)+
  have "int (nat \<bar>x\<bar> div nat \<bar>y\<bar>) \<le> int (nat \<bar>x\<bar>)" by (simp only: of_nat_le_iff div_le_dividend)
  then have "\<bar>x\<bar> div \<bar>y\<bar> \<le> \<bar>x\<bar>" "0 \<le> \<bar>x\<bar> div \<bar>y\<bar>" unfolding i using y by (simp_all add: pos_imp_zdiv_nonneg_iff)
  moreover have "0 \<le> \<bar>x\<bar> mod \<bar>y\<bar>" "\<bar>x\<bar> mod \<bar>y\<bar> \<le> \<bar>y\<bar>" using y by (simp_all add: pos_mod_bound less_imp_le)
  moreover have "\<bar>x sdiv y\<bar> = \<bar>x\<bar> div \<bar>y\<bar>" "\<bar>x smod y\<bar> = \<bar>x\<bar> mod \<bar>y\<bar>"
    using calculation by (simp_all add: sdiv_by_signs [OF y] abs_mult)
  ultimately have b: "\<bar>x sdiv y\<bar> \<le> 2 ^ 126" "\<bar>x smod y\<bar> \<le> 2 ^ 126" using assms(4,5) by linarith+
  have "q * (1 - 2 * of_bool ((x < 0) \<noteq> (y < 0))) = of_int (x sdiv y)" unfolding sdiv_by_signs [OF y] q by simp
  moreover have "r * (1 - 2 * of_bool (x < 0)) = of_int (x smod y)" unfolding sdiv_by_signs [OF y] r by simp
  ultimately show ?thesis using y b by blast
qed

lemma lower_signed_divmod_sound:
  fixes e :: "'f::field valuation"
  assumes "bn254_like TYPE('f)" "ready ctx types e (OpBinaryArithOp kind result lhs rhs)" "kind \<in> {BopDiv, BopMod}"
    "ty_of types lhs = Some (TI n)" "lower_signed_divmod ctx guard kind result lhs rhs n = Some M"
  shows "emitting ft types e M (\<lambda>_. active e guard \<longrightarrow> sat types e (OpBinaryArithOp kind result lhs rhs))"
proof -
  let ?lr = "lc_range ctx lhs" and ?rr = "lc_range ctx rhs"
  have k: "kind \<noteq> BopShl" "kind \<noteq> BopShr" using assms(3) by auto
  note o = arith_operands [OF assms(2) k]
  have r: "ty_of types rhs = Some (TI n)" using o(1) assms(4) by simp
  have n: "0 < n" using assms(5) by (simp add: lower_signed_divmod_def split: if_splits)
  have n': "n \<le> 126" "n \<le> 251" using o(5) assms(3) by (auto simp: assms(4) narrow_TI)
  obtain aw bw ra rb g mw rw sw sw' where M: "M = do {
       sign_l \<leftarrow> operand_sign_u1 lhs ?lr n;
       sign_r \<leftarrow> (if lhs = rhs then return sign_l else operand_sign_u1 rhs ?rr n);
       lhs_field \<leftarrow> em_cast_to_field lhs;
       rhs_field \<leftarrow> em_cast_to_field rhs;
       abs_l \<leftarrow> write_abs_value lhs_field (snd sign_l) n;
       abs_r \<leftarrow> (if lhs = rhs then return abs_l else write_abs_value rhs_field (snd sign_r) n);
       divmod \<leftarrow> lower_unsigned_divmod abs_l abs_r n aw bw ra rb guard g;
       quotient_sign_u1 \<leftarrow> em_xor (fst sign_l) (fst sign_r);
       quotient_sign \<leftarrow> em_cast_to_field quotient_sign_u1;
       quotient \<leftarrow> write_signed_magnitude_result (dm_q divmod) (dm_q_is_witness divmod) quotient_sign quotient_sign_u1 sw n guard;
       remainder \<leftarrow> write_signed_magnitude_result (dm_r divmod) (dm_r_is_witness divmod) (snd sign_l) (fst sign_l) sw' n guard;
       em_emit (OpCast result (if kind = BopDiv then quotient else remainder) (CastI n)) }"
    using assms(5) by (auto simp: lower_signed_divmod_def Let_def bind_Some_iff split: if_splits)
  show ?thesis unfolding M
  proof (intro emitting_bind emit_second_sign [where v = lhs and r = ?lr] emit_sign_known
      emit_abs_known [where v = lhs and r = ?lr] emit_second_abs [where v = lhs and r = ?lr and r' = ?rr]
      emit_rules appends_intros n n' assms(1,4) r, goal_cases)
    case (15 s s' f g a b d u q w wa)
    show ?case
    proof (intro impI signed_sat [OF assms(4) _ k])
      fix x y assume act: "active e guard" and xy: "num n (e lhs) x" "num n (e rhs) y"
      let ?x = "signed_of n x" and ?y = "signed_of n y"
      have iv: "in_iv ?x ?lr" "in_iv ?y ?rr"
        using in_rangeD(2) [OF o(2) assms(4)] in_rangeD(2) [OF o(3) r] xy by blast+
      have neg: "?x < 0 \<longleftrightarrow> 2 ^ (n - 1) \<le> x" "?y < 0 \<longleftrightarrow> 2 ^ (n - 1) \<le> y"
        using xy signed_of_neg by (auto simp: num_def)
      have ab: "e a = of_nat (nat \<bar>?x\<bar>)" "e b = of_nat (nat \<bar>?y\<bar>)" using 15(7,8) xy iv by (simp_all add: abs_known_def)
      have "\<bar>?x\<bar> \<le> 2 ^ 126" "\<bar>?y\<bar> \<le> 2 ^ 126"
        using signed_of_bound [OF xy(1) n, of 127] signed_of_bound [OF xy(2) n, of 127] n' by simp_all
      note d = signed_divides [OF 15(11) [rule_format, OF act] ab this]
      have l: "e (fst s) = of_bool (?x < 0)" "e (snd s) = of_bool (?x < 0)" "ty_of types (fst s) = Some (TU 1)"
        using 15(1) xy(1) iv(1) neg by (simp_all add: sign_known_def)
      have r: "e (fst s') = of_bool (?y < 0)" using 15(2) xy(2) iv(2) neg by (simp add: sign_known_def)
      have bits: "num 1 (e (fst s)) (of_bool (?x < 0))" "num 1 (e (fst s')) (of_bool (?y < 0))" using l r by (simp_all add: num_def)
      have u: "e q = of_bool ((?x < 0) \<noteq> (?y < 0))"
        using 15(12,14) bits xor_bits [OF bits] l(3) by (auto simp: arith_holds_def)
      have big: "(2 :: int) ^ 126 \<le> 2 ^ 252" by simp
      have "fit_signed n (?x sdiv ?y) = Some (encoded n (?x sdiv ?y)) \<and> e w = of_nat (encoded n (?x sdiv ?y))"
        by (rule 15(16) [rule_format, OF act]) (use d u big in \<open>simp_all only:\<close>, linarith)
      moreover have "fit_signed n (?x smod ?y) = Some (encoded n (?x smod ?y)) \<and> e wa = of_nat (encoded n (?x smod ?y))"
        by (rule 15(18) [rule_format, OF act]) (use d l(2) big in \<open>simp_all only:\<close>, linarith)
      moreover have "y \<noteq> 0" using d by (cases "y = 0") (simp_all add: signed_of_def)
      ultimately show "\<exists>z. checked_s n kind x y = Some z \<and> e result = of_nat z"
        unfolding 15(19) using assms(3) by auto
    qed
  qed (simp_all add: sign_known_def)
qed

subsection \<open>The rule\<close>

lemma lower_arith_appends: "lower_arith ctx guard kind result lhs rhs n sg = Some M \<Longrightarrow> appends M"
  unfolding lower_arith_def lower_unsigned_addsub_def lower_signed_addsub_def lower_unsigned_mul_def lower_signed_mul_def
    lower_unsigned_divmod_result_def lower_signed_divmod_def Let_def
  by (auto simp: bind_Some_iff split: if_splits intro!: appends_intros)

lemma process_arith_appends: "process_arith ctx guard i = Some M \<Longrightarrow> appends M"
  by (cases i) (auto simp: process_arith_def bind_Some_iff lowered_def appends_return split: if_splits
    intro!: appends_intros dest: lower_arith_appends)

lemma process_arith_sound:
  fixes e :: "'f::field valuation"
  assumes "bn254_like TYPE('f)" "ready ctx types e i" "process_arith ctx guard i = Some M"
  shows "emitting ft types e M (\<lambda>hit. hit \<longrightarrow> active e guard \<longrightarrow> sat types e i)"
proof (cases "\<exists>kind result lhs rhs. i = OpBinaryArithOp kind result lhs rhs \<and> M \<noteq> return False")
  case True
  then obtain kind result lhs rhs where i: "i = OpBinaryArithOp kind result lhs rhs" and "M \<noteq> return False" by blast
  then obtain lt n sg L where lt: "lc_types ctx lhs = Some lt" "integer_bits_and_signedness lt = Some (n, sg)"
      "lower_arith ctx guard kind result lhs rhs n sg = Some L" "M = do { L; return True }"
    and kind: "kind \<in> {BopAdd, BopSub, BopMul, BopDiv, BopMod}"
    using assms(3) by (auto simp: process_arith_def lowered_def bind_Some_iff split: if_splits)
  note r = assms(2) [unfolded i]
  have "types lhs = Some lt" "flat_types types" using arith_operands [OF r] kind lt(1) by auto
  then have t: "ty_of types lhs = Some (if sg then TI n else TU n)"
    using lt(2) flat_ty_of_once by (auto simp: integer_bits_and_signedness_def split: ty.splits)
  have "emitting ft types e L (\<lambda>_. active e guard \<longrightarrow> sat types e i)"
  proof (cases sg)
    case True
    then show ?thesis unfolding i
      using lt(3) t kind lower_signed_addsub_sound [OF assms(1) r] lower_signed_divmod_sound [OF assms(1) r]
        lower_signed_mul_sound [OF assms(1), of ctx types e result lhs rhs] r
      by (auto simp: lower_arith_def)
  next
    case False
    then show ?thesis unfolding i
      using lt(3) t kind lower_unsigned_addsub_sound [OF assms(1) r] lower_unsigned_divmod_sound [OF assms(1) r]
        lower_unsigned_mul_sound [OF assms(1), of ctx types e result lhs rhs] r
      by (auto simp: lower_arith_def)
  qed
  then show ?thesis unfolding lt(4) by (rule emit_lowered [OF lower_arith_appends [OF lt(3)]])
next
  case False
  then have "M = return False" using assms(3) by (cases i) (auto simp: process_arith_def)
  then show ?thesis by (simp add: emit_not_lowered)
qed

lemma lower_witness_integer_arith_sound:
  assumes "bn254_like TYPE('f::field)"
  shows "sound_rule (lower_witness_integer_arith :: 'f rule)"
  unfolding lower_witness_integer_arith_def [abs_def]
  by (rule sound_ruleI_guarded) (rule process_arith_sound [OF assms])

end
