(* ===== verification/Lower_Bits.thy ===== *)
theory Lower_Bits
  imports Lower_Arith
begin

unbundle bit_operations_syntax

text \<open>
  Operations on bits (\<^verbatim>\<open>passes/instruction_lowering/witness_bitwise.rs\<close>, \<^verbatim>\<open>witness_spread.rs\<close>):
  conjunction, disjunction and exclusive or are read off the sum of spread operands, 64-bit operands in two limbs;
  negation, sign extension and shifts become arithmetic. Spreading a witness is a lookup of a hint.
\<close>

subsection \<open>Conjunction, disjunction, exclusive or\<close>

record u64_limbs =
  limb_lo :: value_id
  limb_hi :: value_id

definition unsigned_bits :: "lowering_context \<Rightarrow> value_id \<Rightarrow> nat option" where
  "unsigned_bits ctx v = do {
     t \<leftarrow> lc_types ctx v;
     (case strip_witness t of TU bits \<Rightarrow> Some bits | _ \<Rightarrow> None) }"

definition cast_target_for_integer_type :: "ty \<Rightarrow> cast_target option" where
  "cast_target_for_integer_type t = (case strip_witness t of
     TU bits \<Rightarrow> Some (CastU bits) | TI bits \<Rightarrow> Some (CastI bits) | _ \<Rightarrow> None)"

definition spread_as_field :: "value_id \<Rightarrow> nat \<Rightarrow> ('f, value_id) emits" where
  "spread_as_field v bits = do { spread \<leftarrow> em_spread v bits; em_cast_to_field spread }"

text \<open>The operation is one of the three; for another the code is unreachable.\<close>

definition lower_word_bitwise :: "binary_arith_op_kind \<Rightarrow> value_id \<Rightarrow> value_id \<Rightarrow> nat \<Rightarrow> ('f, value_id) emits" where
  "lower_word_bitwise kind lhs rhs bits = do {
     lhs_spread \<leftarrow> spread_as_field lhs bits;
     rhs_spread \<leftarrow> spread_as_field rhs bits;
     input_spread_sum \<leftarrow> em_add lhs_spread rhs_spread;
     input_spread_sum \<leftarrow> em_cast_to (CastU (bits * 2)) input_spread_sum;
     (and_word, xor_word) \<leftarrow> em_unspread input_spread_sum bits;
     (case kind of
        BopAnd \<Rightarrow> return and_word
      | BopXor \<Rightarrow> return xor_word
      | _ \<Rightarrow> em_add and_word xor_word) }"

definition extract_u64_limb :: "value_id \<Rightarrow> nat \<Rightarrow> ('f, value_id) emits" where
  "extract_u64_limb v offset = do { limb \<leftarrow> em_bit_range v offset 32; em_cast_to (CastU 32) limb }"

definition extract_u64_limbs :: "value_id \<Rightarrow> ('f, u64_limbs) emits" where
  "extract_u64_limbs v = do {
     lo \<leftarrow> extract_u64_limb v 0;
     hi \<leftarrow> extract_u64_limb v 32;
     return \<lparr>limb_lo = lo, limb_hi = hi\<rparr> }"

definition derive_low_u32_limb :: "value_id \<Rightarrow> value_id \<Rightarrow> ('f::field, value_id) emits" where
  "derive_low_u32_limb v hi_field = do {
     value_field \<leftarrow> em_cast_to_field v;
     shift \<leftarrow> em_field_const (of_nat (2 ^ 32));
     shifted_hi \<leftarrow> em_mul hi_field shift;
     lo_field \<leftarrow> em_sub value_field shifted_hi;
     em_cast_to (CastU 32) lo_field }"

definition decompose_u64_input :: "value_id \<Rightarrow> bool \<Rightarrow> ('f::field, u64_limbs) emits" where
  "decompose_u64_input v is_witness = (if \<not> is_witness then extract_u64_limbs v
     else do {
       pure_value \<leftarrow> em_value_of v;
       hi_hint \<leftarrow> extract_u64_limb pure_value 32;
       hi_field \<leftarrow> em_cast_to_field hi_hint;
       hi_wit \<leftarrow> em_write_witness hi_field;
       lo \<leftarrow> derive_low_u32_limb v hi_wit;
       hi \<leftarrow> em_cast_to (CastU 32) hi_wit;
       return \<lparr>limb_lo = lo, limb_hi = hi\<rparr> })"

definition lower_u64_limb_bitwise :: "binary_arith_op_kind \<Rightarrow> u64_limbs \<Rightarrow> u64_limbs \<Rightarrow> ('f, u64_limbs) emits" where
  "lower_u64_limb_bitwise kind lhs rhs = do {
     lo \<leftarrow> lower_word_bitwise kind (limb_lo lhs) (limb_lo rhs) 32;
     hi \<leftarrow> lower_word_bitwise kind (limb_hi lhs) (limb_hi rhs) 32;
     return \<lparr>limb_lo = lo, limb_hi = hi\<rparr> }"

definition combine_u32_limbs :: "u64_limbs \<Rightarrow> ('f::field, value_id) emits" where
  "combine_u32_limbs limbs = do {
     lo \<leftarrow> em_cast_to_field (limb_lo limbs);
     hi \<leftarrow> em_cast_to_field (limb_hi limbs);
     shift \<leftarrow> em_field_const (of_nat (2 ^ 32));
     shifted_hi \<leftarrow> em_mul hi shift;
     em_add lo shifted_hi }"

definition lower_u1_bitwise :: "binary_arith_op_kind \<Rightarrow> value_id \<Rightarrow> value_id \<Rightarrow> value_id \<Rightarrow> ('f::field, unit) emits" where
  "lower_u1_bitwise kind result lhs rhs = do {
     lhs_field \<leftarrow> em_cast_to_field lhs;
     rhs_field \<leftarrow> em_cast_to_field rhs;
     result_field \<leftarrow> (case kind of
         BopAnd \<Rightarrow> em_mul lhs_field rhs_field
       | BopOr \<Rightarrow> do {
           sum \<leftarrow> em_add lhs_field rhs_field;
           product \<leftarrow> em_mul lhs_field rhs_field;
           em_sub sum product }
       | _ \<Rightarrow> do {
           sum \<leftarrow> em_add lhs_field rhs_field;
           two \<leftarrow> em_field_const 2;
           product \<leftarrow> em_mul lhs_field rhs_field;
           two_product \<leftarrow> em_mul two product;
           em_sub sum two_product });
     em_emit (OpCast result result_field (CastU 1)) }"

definition lower_binary_bitwise ::
  "lowering_context \<Rightarrow> binary_arith_op_kind \<Rightarrow> value_id \<Rightarrow> value_id \<Rightarrow> value_id \<Rightarrow> bool \<Rightarrow> bool \<Rightarrow> ('f::field, unit) emits option" where
  "lower_binary_bitwise ctx kind result lhs rhs lhs_witness rhs_witness = do {
     bits \<leftarrow> unsigned_bits ctx lhs;
     ensure (bits \<le> 128);
     Some (if bits = 1 then lower_u1_bitwise kind result lhs rhs
       else do {
         result_word \<leftarrow> (if bits = 64 then do {
             lhs_limbs \<leftarrow> decompose_u64_input lhs lhs_witness;
             rhs_limbs \<leftarrow> decompose_u64_input rhs rhs_witness;
             result_limbs \<leftarrow> lower_u64_limb_bitwise kind lhs_limbs rhs_limbs;
             combine_u32_limbs result_limbs }
           else lower_word_bitwise kind lhs rhs bits);
         em_emit (OpCast result result_word (CastU bits)) }) }"

subsection \<open>Negation, sign extension, shifts\<close>

definition lower_not :: "lowering_context \<Rightarrow> value_id \<Rightarrow> value_id \<Rightarrow> ('f::field, unit) emits option" where
  "lower_not ctx result v = do {
     t \<leftarrow> lc_types ctx v;
     (bits, _) \<leftarrow> integer_bits_and_signedness t;
     target \<leftarrow> cast_target_for_integer_type t;
     Some (do {
       ones \<leftarrow> em_field_const (2 ^ bits - 1);
       value_field \<leftarrow> em_cast_to_field v;
       not_value \<leftarrow> em_sub ones value_field;
       em_emit (OpCast result not_value target) }) }"

definition lower_integer_sext ::
  "lowering_context \<Rightarrow> value_id \<Rightarrow> value_id \<Rightarrow> nat \<Rightarrow> nat \<Rightarrow> ('f::field, unit) emits option" where
  "lower_integer_sext ctx result v from_bits to_bits = do {
     ensure (is_non_negative_in_signed (lc_range ctx v) from_bits \<or> from_bits > 0);
     result_type \<leftarrow> lc_types ctx result;
     target \<leftarrow> cast_target_for_integer_type result_type;
     Some (do {
       sign \<leftarrow> (if is_non_negative_in_signed (lc_range ctx v) from_bits then em_field_const 0
         else do { sign_bits \<leftarrow> em_bit_range v (from_bits - 1) 1; em_cast_to_field sign_bits });
       value_field \<leftarrow> em_cast_to_field v;
       extension \<leftarrow> em_field_const (two_pow to_bits - two_pow from_bits);
       offset \<leftarrow> em_mul sign extension;
       extended \<leftarrow> em_add value_field offset;
       em_emit (OpCast result extended target) }) }"

text \<open>A shift multiplies or divides by a power of two. The amount is not a witness.\<close>

definition lower_shift ::
  "lowering_context \<Rightarrow> value_id option \<Rightarrow> binary_arith_op_kind \<Rightarrow> value_id \<Rightarrow> value_id \<Rightarrow> value_id \<Rightarrow> ('f::field, unit) emits option" where
  "lower_shift ctx guard kind result lhs rhs = do {
     rhs_type \<leftarrow> lc_types ctx rhs;
     ensure (\<not> is_witness_of rhs_type);
     bits \<leftarrow> unsigned_bits ctx lhs;
     ensure (kind = BopShr \<or> bits \<ge> 1);
     Some (do {
       one_u \<leftarrow> em_u_const bits 1;
       factor \<leftarrow> em_fresh;
       em_emit (OpBinaryArithOp BopShl factor one_u rhs);
       (if kind = BopShl then do {
          lhs_field \<leftarrow> em_cast_to_field lhs;
          factor_field \<leftarrow> em_cast_to_field factor;
          shifted \<leftarrow> em_mul lhs_field factor_field;
          guarded_rangecheck shifted bits guard;
          em_emit (OpCast result shifted (CastU bits)) }
        else emit_guarded guard (OpBinaryArithOp BopDiv result lhs factor)) }) }"

definition process_bitwise :: "lowering_context \<Rightarrow> value_id option \<Rightarrow> opcode \<Rightarrow> ('f::field, bool) emits option" where
  "process_bitwise ctx guard i = (case i of
     OpBinaryArithOp kind result lhs rhs \<Rightarrow>
       if kind \<in> {BopAnd, BopOr, BopXor} then do {
         lhs_type \<leftarrow> lc_types ctx lhs;
         rhs_type \<leftarrow> lc_types ctx rhs;
         if is_witness_of lhs_type \<or> is_witness_of rhs_type
         then lowered (lower_binary_bitwise ctx kind result lhs rhs (is_witness_of lhs_type) (is_witness_of rhs_type))
         else Some (return False) }
       else if kind \<in> {BopShl, BopShr} then do {
         lhs_type \<leftarrow> lc_types ctx lhs;
         rhs_type \<leftarrow> lc_types ctx rhs;
         if is_witness_of lhs_type \<or> is_witness_of rhs_type then lowered (lower_shift ctx guard kind result lhs rhs)
         else Some (return False) }
       else Some (return False)
   | OpNot result v \<Rightarrow> lowered (lower_not ctx result v)
   | OpSExt result v from_bits to_bits \<Rightarrow> do {
       t \<leftarrow> lc_types ctx v;
       if integer_bits_and_signedness t \<noteq> None then lowered (lower_integer_sext ctx result v from_bits to_bits)
       else Some (return False) }
   | _ \<Rightarrow> Some (return False))"

definition lower_witness_bitwise :: "'f::field rule" where
  "lower_witness_bitwise ctx i = process_bitwise ctx (guard_of i) (guarded_op i)"

subsection \<open>Spreading\<close>

definition cast_target_for_type :: "ty \<Rightarrow> cast_target option" where
  "cast_target_for_type t = (case strip_all_witness t of
     TU bits \<Rightarrow> Some (CastU bits) | TI bits \<Rightarrow> Some (CastI bits) | _ \<Rightarrow> None)"

definition write_spread_witness_and_lookup :: "value_id \<Rightarrow> nat \<Rightarrow> ('f::field, value_id) emits" where
  "write_spread_witness_and_lookup v bits = do {
     value_pure \<leftarrow> em_value_of v;
     value_field \<leftarrow> em_cast_to_field v;
     spread_hint \<leftarrow> em_spread value_pure bits;
     spread_hint_field \<leftarrow> em_cast_to_field spread_hint;
     spread_wit \<leftarrow> em_write_witness spread_hint_field;
     one \<leftarrow> em_field_const 1;
     em_lookup_spread bits value_field spread_wit one;
     return spread_wit }"

definition lower_witness_spread_op ::
  "lowering_context \<Rightarrow> value_id \<Rightarrow> value_id \<Rightarrow> nat \<Rightarrow> ('f::field, unit) emits option" where
  "lower_witness_spread_op ctx result v bits = do {
     result_type \<leftarrow> lc_types ctx result;
     target \<leftarrow> cast_target_for_type result_type;
     Some (do {
       spread_wit \<leftarrow> write_spread_witness_and_lookup v bits;
       em_emit (OpCast result spread_wit target) }) }"

definition write_unspread_result :: "cast_target \<Rightarrow> value_id \<Rightarrow> value_id \<Rightarrow> ('f, unit) emits" where
  "write_unspread_result target result hint = do {
     hint_field \<leftarrow> em_cast_to_field hint;
     hint_wit \<leftarrow> em_write_witness hint_field;
     em_emit (OpCast result hint_wit target) }"

definition lower_witness_unspread ::
  "lowering_context \<Rightarrow> value_id \<Rightarrow> value_id \<Rightarrow> value_id \<Rightarrow> nat \<Rightarrow> ('f::field, unit) emits option" where
  "lower_witness_unspread ctx result_odd result_even v bits = do {
     odd_type \<leftarrow> lc_types ctx result_odd;
     odd_target \<leftarrow> cast_target_for_type odd_type;
     even_type \<leftarrow> lc_types ctx result_even;
     even_target \<leftarrow> cast_target_for_type even_type;
     Some (do {
       value_pure \<leftarrow> em_value_of v;
       (odd_hint, even_hint) \<leftarrow> em_unspread value_pure bits;
       write_unspread_result odd_target result_odd odd_hint;
       write_unspread_result even_target result_even even_hint;
       odd_spread \<leftarrow> write_spread_witness_and_lookup result_odd bits;
       two \<leftarrow> em_field_const 2;
       two_odd_spread \<leftarrow> em_mul two odd_spread;
       value_field \<leftarrow> em_cast_to_field v;
       even_spread \<leftarrow> em_sub value_field two_odd_spread;
       even_field \<leftarrow> em_cast_to_field result_even;
       one \<leftarrow> em_field_const 1;
       em_lookup_spread bits even_field even_spread one }) }"

definition lower_witness_spread :: "'f::field rule" where
  "lower_witness_spread ctx i = (case i of
     OpSpread result v bits \<Rightarrow> do {
       t \<leftarrow> lc_types ctx v;
       if is_witness_of t then lowered (lower_witness_spread_op ctx result v bits) else Some (return False) }
   | OpUnspread result_odd result_even v bits \<Rightarrow> do {
       t \<leftarrow> lc_types ctx v;
       if is_witness_of t then lowered (lower_witness_unspread ctx result_odd result_even v bits) else Some (return False) }
   | _ \<Rightarrow> Some (return False))"

subsection \<open>Numbers\<close>

lemma spread_rec: "spread_nat x = x mod 2 + 4 * spread_nat (x div 2)"
  by (subst spread_nat.simps) (simp add: spread_nat.simps [of 0])

lemma spread_0 [simp]: "spread_nat 0 = 0"
  by (simp add: spread_nat.simps)

text \<open>The sum of two spread numbers carries their conjunction at the odd and their exclusive or at the even
  positions, and the two streams determine the number.\<close>

lemma and_xor_step:
  "(x AND y) mod 2 = of_bool (x mod 2 = 1 \<and> y mod 2 = (1 :: nat))" "(x XOR y) mod 2 = of_bool (x mod 2 \<noteq> y mod 2)"
  by (simp_all add: and_nat_unfold [of x y] xor_nat_unfold [of x y] mod2_eq_if)

lemma and_xor_div: "(x AND y) div 2 = (x div 2) AND (y div (2 :: nat))" "(x XOR y) div 2 = (x div 2) XOR (y div (2 :: nat))"
  using drop_bit_and [of 1 x y] drop_bit_xor [of 1 x y] by (simp_all add: drop_bit_eq_div)

lemma spread_sum: "spread_nat x + spread_nat y = 2 * spread_nat (x AND y) + spread_nat (x XOR y)"
proof (induction x arbitrary: y rule: less_induct)
  case (less x)
  show ?case
  proof (cases "x = 0")
    case False
    have "spread_nat (x div 2) + spread_nat (y div 2) = 2 * spread_nat ((x AND y) div 2) + spread_nat ((x XOR y) div 2)"
      using less.IH [of "x div 2" "y div 2"] False by (simp add: and_xor_div)
    moreover have "x mod 2 + y mod 2 = 2 * ((x AND y) mod 2) + (x XOR y) mod 2"
      unfolding and_xor_step by (auto simp: mod2_eq_if)
    ultimately show ?thesis
      using spread_rec [of x] spread_rec [of y] spread_rec [of "x AND y"] spread_rec [of "x XOR y"] by linarith
  qed simp
qed

lemma base_4: "a + 4 * p = b + 4 * q \<Longrightarrow> a < 4 \<Longrightarrow> b < 4 \<Longrightarrow> a = b \<and> p = (q :: nat)"
  by arith

lemma spread_streams:
  "2 * spread_nat x + spread_nat y = 2 * spread_nat u + spread_nat v \<Longrightarrow> x = u \<and> y = v"
proof (induction "x + y + u + v" arbitrary: x y u v rule: less_induct)
  case less
  have e: "2 * (x mod 2) + y mod 2 + 4 * (2 * spread_nat (x div 2) + spread_nat (y div 2)) =
    2 * (u mod 2) + v mod 2 + 4 * (2 * spread_nat (u div 2) + spread_nat (v div 2))"
    using less.prems unfolding spread_rec [of x] spread_rec [of y] spread_rec [of u] spread_rec [of v] by simp
  have b: "2 * (a mod 2) + c mod 2 < 4" for a c :: nat by (simp add: mod2_eq_if)
  have low: "2 * (x mod 2) + y mod 2 = 2 * (u mod 2) + v mod 2" and
    high: "2 * spread_nat (x div 2) + spread_nat (y div 2) = 2 * spread_nat (u div 2) + spread_nat (v div 2)"
    using base_4 [OF e b b] by blast+
  have m: "x mod 2 = u mod 2 \<and> y mod 2 = v mod 2" using low by (auto simp: mod2_eq_if split: if_splits)
  show ?case
  proof (cases "x + y + u + v = 0")
    case False
    then have "x div 2 + y div 2 + u div 2 + v div 2 < x + y + u + v" by linarith
    then have "x div 2 = u div 2 \<and> y div 2 = v div 2" using less.hyps high by blast
    then show ?thesis using m by (metis mult_div_mod_eq)
  qed simp
qed

lemma spread_bound: "x < 2 ^ n \<Longrightarrow> spread_nat x < 4 ^ n"
proof (induction n arbitrary: x)
  case (Suc n)
  then have "spread_nat (x div 2) < 4 ^ n" by simp
  then show ?case using spread_rec [of x] mod_less_divisor [of 2 x] by simp
qed (simp add: spread_nat.simps)

lemma and_or_xor: "(x AND y) + (x XOR y) = x OR (y :: nat)"
proof -
  have "(x AND y) AND (x XOR y) = 0" by (rule bit_eqI) (auto simp: bit_simps)
  then have "(x AND y) + (x XOR y) = (x AND y) OR (x XOR y)" by (simp add: disjunctive_add_eq_or)
  also have "\<dots> = x OR y" by (rule bit_eqI) (auto simp: bit_simps)
  finally show ?thesis .
qed

fun bit_op :: "binary_arith_op_kind \<Rightarrow> nat \<Rightarrow> nat \<Rightarrow> nat" where
  "bit_op BopAnd x y = x AND y"
| "bit_op BopXor x y = x XOR y"
| "bit_op _ x y = x OR y"

lemma bit_op_bound: "x < 2 ^ n \<Longrightarrow> y < 2 ^ n \<Longrightarrow> bit_op kind x y < 2 ^ n"
proof -
  assume "x < 2 ^ n" "y < 2 ^ n"
  then have "take_bit n x = x" "take_bit n y = y" by (simp_all add: take_bit_nat_eq_self_iff)
  moreover have "take_bit n (bit_op kind x y) = bit_op kind (take_bit n x) (take_bit n y)" by (cases kind) simp_all
  ultimately have "take_bit n (bit_op kind x y) = bit_op kind x y" by simp
  then show ?thesis by (metis take_bit_nat_less_exp)
qed

lemma bit_op_limbs:
  assumes "a < 2 ^ n" "c < 2 ^ n"
  shows "bit_op kind (a + 2 ^ n * b) (c + 2 ^ n * d) = bit_op kind a c + 2 ^ n * bit_op kind b d"
proof -
  let ?z = "bit_op kind (a + 2 ^ n * b) (c + 2 ^ n * d)"
  have t: "take_bit n (x + 2 ^ n * y) = x" "drop_bit n (x + 2 ^ n * y) = y" if "x < 2 ^ n" for x y :: nat
    using that by (simp_all add: take_bit_eq_mod drop_bit_eq_div)
  have "take_bit n ?z = bit_op kind a c" "drop_bit n ?z = bit_op kind b d"
    using t [OF assms(1), of b] t [OF assms(2), of d] by (cases kind; simp)+
  then show ?thesis using bits_ident [of n ?z] by (simp add: push_bit_eq_mult mult.commute add.commute)
qed

subsection \<open>Rules for the new instructions\<close>

lemma emit_spread [emit_rules]:
  "(\<And>r. (\<exists>x. num bits (e a) x \<and> e r = of_nat (spread_nat x)) \<Longrightarrow> Q r) \<Longrightarrow> emitting ft types e (em_spread a bits) Q"
  unfolding em_spread_def by (rule emitting_result, drule holds_sat, simp)

lemma unspread_types:
  assumes "holds ft types e (OpUnspread x y a bits)" "ty_of types a = Some (TU m)" "x \<noteq> y"
  shows "ty_of types x = Some (TU (m div 2)) \<and> ty_of types y = Some (TU (m div 2)) \<and> m div 2 \<le> 64"
proof -
  obtain v odd even where v: "types a = Some v" "unspread_result_types v = Some (odd, even)" "types(x \<mapsto> odd, y \<mapsto> even) = types"
    using assms(1) by (auto simp: holds_def well_typed_def bind_Some_iff)
  have t: "types x = Some odd" "types y = Some even" using v(3) assms(3) by (metis fun_upd_other fun_upd_same)+
  have "v = TU m \<or> v = TWitnessOf (TU m)" using assms(2) v(1) by (cases v) (auto simp: ty_of_def)
  then show ?thesis using v(2) t by (auto simp: ty_of_def witness_of_def bind_Some_iff split: if_splits)
qed

lemma em_fresh_distinct:
  assumes "\<And>x y. x \<noteq> y \<Longrightarrow> appends (N x y)" "\<And>x y. x \<noteq> y \<Longrightarrow> emitting ft types e (N x y) Q"
  shows "emitting ft types e (do { x \<leftarrow> em_fresh; y \<leftarrow> em_fresh; N x y }) Q"
  unfolding emitting_def
proof (intro allI impI)
  fix s r s'
  assume run: "run_state (do { x \<leftarrow> em_fresh; y \<leftarrow> em_fresh; N x y }) s = (r, s')" and inv: "const_inv (em_ssa s)"
    and sat: "satisfied ft types e s'"
  obtain x s1 where 1: "run_state em_fresh s = (x, s1)" by fastforce
  obtain y s2 where 2: "run_state em_fresh s1 = (y, s2)" by fastforce
  have r: "run_state (N x y) s2 = (r, s')" using run 1 2 by (simp add: State_Monad.bind_def)
  have "x \<noteq> y" using 1 2 by (auto simp: em_fresh_def fresh_value_def split: prod.splits)
  moreover have "const_inv (em_ssa s2)" using 1 2 inv appends_fresh unfolding appends_def grows_def by blast
  ultimately show "Q r" using assms(2) r sat unfolding emitting_def by blast
qed

lemma emit_unspread [emit_rules]:
  assumes "ty_of types a = Some (TU m)" "\<And>p. ty_of types (fst p) = Some (TU (m div 2)) \<Longrightarrow> ty_of types (snd p) = Some (TU (m div 2)) \<Longrightarrow>
     m div 2 \<le> 64 \<Longrightarrow> (\<exists>x y. num bits (e (fst p)) x \<and> num bits (e (snd p)) y \<and> e a = of_nat (2 * spread_nat x + spread_nat y)) \<Longrightarrow> Q p"
  shows "emitting ft types e (em_unspread a bits) Q"
  unfolding em_unspread_def
proof (rule em_fresh_distinct)
  fix x y :: value_id
  assume "x \<noteq> y"
  show "emitting ft types e (do { em_emit (OpUnspread x y a bits); return (x, y) }) Q"
    by (intro emitting_bind emitting_emit emitting_return appends_intros assms(2))
      (use assms(1) \<open>x \<noteq> y\<close> unspread_types [of ft types e x y a bits m] in \<open>auto simp: holds_def\<close>)
qed (intro appends_intros)

lemma arith_type_int:
  assumes "get_arithmetic_result_type l r = Some t" "strip_witness l = TU n" "strip_witness r = TU n"
  shows "strip_witness t = TU n"
proof -
  have "l = TU n \<or> l = TWitnessOf (TU n)" "r = TU n \<or> r = TWitnessOf (TU n)" using assms(2,3) by (cases l; cases r; simp)+
  then show ?thesis using assms(1) by (auto simp: witness_of_def bind_Some_iff)
qed

lemma holds_int_arith:
  assumes "holds ft types e (OpBinaryArithOp kind r a b)" "ty_of types a = Some (TU n)" "ty_of types b = Some (TU n)"
  shows "ty_of types r = Some (TU n) \<and> arith_holds (Some (TU n)) kind (e a) (e b) (e r)"
proof -
  obtain l q t where t: "types a = Some l" "types b = Some q" "get_arithmetic_result_type l q = Some t" "types(r \<mapsto> t) = types"
    using assms(1) by (auto simp: holds_def well_typed_def bind_Some_iff)
  then have "types r = Some t" by (metis fun_upd_same)
  then show ?thesis using assms t arith_type_int [OF t(3)] by (auto simp: holds_def ty_of_def)
qed

lemma emit_int_arith:
  assumes "ty_of types a = Some (TU n)" "ty_of types b = Some (TU n)"
    "\<And>r. ty_of types r = Some (TU n) \<Longrightarrow> arith_holds (Some (TU n)) kind (e a) (e b) (e r) \<Longrightarrow> Q r"
  shows "emitting ft types e (do { r \<leftarrow> em_fresh; em_emit (OpBinaryArithOp kind r a b); return r }) Q"
  by (rule emitting_result) (use holds_int_arith assms in blast)

lemma emit_guarded_op: "((active e guard \<longrightarrow> sat types e i) \<Longrightarrow> Q ()) \<Longrightarrow> emitting ft types e (emit_guarded guard i) Q"
  by (cases guard) (auto simp: emit_guarded_def holds_def intro!: emitting_emit)

lemma emit_unspread_any: "(\<And>p. Q p) \<Longrightarrow> emitting ft types e (em_unspread a bits) Q"
  unfolding em_unspread_def by (intro emitting_bind emitting_fresh emitting_emit emitting_return appends_intros)

lemma emit_let_pair: "emitting ft types e (N (fst p) (snd p)) Q \<Longrightarrow> emitting ft types e (case p of (x, y) \<Rightarrow> N x y) Q"
  by (simp add: case_prod_unfold)

lemma appends_let_pair [appends_intros]: "(\<And>x y. appends (N x y)) \<Longrightarrow> appends (case p of (x, y) \<Rightarrow> N x y)"
  by (simp add: case_prod_unfold)

lemma appends_kind [appends_intros]:
  "appends A \<Longrightarrow> appends B \<Longrightarrow> appends C \<Longrightarrow> appends (case kind of BopAnd \<Rightarrow> A | BopOr \<Rightarrow> B | _ \<Rightarrow> C)"
  "appends A \<Longrightarrow> appends B \<Longrightarrow> appends C \<Longrightarrow> appends (case kind of BopAnd \<Rightarrow> A | BopXor \<Rightarrow> B | _ \<Rightarrow> C)"
  by (cases kind; simp)+

lemma appends_bits [appends_intros]:
  "appends (spread_as_field v n)" "appends (lower_word_bitwise kind lhs rhs n)" "appends (extract_u64_limb v n)"
  "appends (extract_u64_limbs v)" "appends (derive_low_u32_limb v h)" "appends (decompose_u64_input v b)"
  "appends (lower_u64_limb_bitwise kind l r)" "appends (combine_u32_limbs l)" "appends (lower_u1_bitwise kind result lhs rhs)"
  "appends (write_spread_witness_and_lookup v n)" "appends (write_unspread_result target v h)"
  unfolding spread_as_field_def lower_word_bitwise_def extract_u64_limb_def extract_u64_limbs_def derive_low_u32_limb_def
    decompose_u64_input_def lower_u64_limb_bitwise_def combine_u32_limbs_def lower_u1_bitwise_def
    write_spread_witness_and_lookup_def write_unspread_result_def em_unspread_def
  by (intro appends_intros)+

subsection \<open>Conjunction, disjunction and exclusive or are sound\<close>

lemma emit_spread_as_field [emit_rules]:
  "(\<And>r. ty_of types r = Some TField \<Longrightarrow> (\<exists>x. num n (e v) x \<and> e r = of_nat (spread_nat x)) \<Longrightarrow> Q r) \<Longrightarrow>
    emitting ft types e (spread_as_field v n) Q"
  unfolding spread_as_field_def by (intro emitting_bind emit_rules appends_intros) simp

lemma spread_gadget:
  assumes "bn254_like TYPE('f::field)" "num n a u" "num n b v" "num n c x" "num n d y" "n \<le> 64"
    "(of_nat (spread_nat u) + of_nat (spread_nat v) :: 'f) = of_nat (2 * spread_nat x + spread_nat y)"
  shows "x = u AND v \<and> y = u XOR v"
proof -
  have four: "spread_nat z < 4 ^ 64" if "z < 2 ^ n" for z
    using less_le_trans [OF spread_bound [OF that] power_increasing [OF assms(6)]] by simp
  have "spread_nat u < 4 ^ 64" "spread_nat v < 4 ^ 64" "spread_nat x < 4 ^ 64" "spread_nat y < 4 ^ 64"
    using assms(2-5) four by (simp_all add: num_def)
  moreover have "(4 :: nat) * 4 ^ 64 = 2 ^ 130" by simp
  ultimately have "spread_nat u + spread_nat v < 2 ^ 130" "2 * spread_nat x + spread_nat y < 2 ^ 130" by linarith+
  moreover have "(of_nat (spread_nat u + spread_nat v) :: 'f) = of_nat (2 * spread_nat x + spread_nat y)" using assms(7) by simp
  ultimately have "spread_nat u + spread_nat v = 2 * spread_nat x + spread_nat y"
    using of_nat_eqD [OF bn254_inj [OF assms(1), of 130]] by simp
  then show ?thesis using spread_sum [of u v] spread_streams by metis
qed

lemma emit_word_bitwise [emit_rules]:
  assumes "bn254_like TYPE('f::field)" "kind \<in> {BopAnd, BopOr, BopXor}"
    "\<And>r. ty_of types r = Some (TU n) \<Longrightarrow> (\<exists>x y. num n (e lhs) x \<and> num n (e rhs) y \<and> e r = of_nat (bit_op kind x y)) \<Longrightarrow> Q r"
  shows "emitting ft types (e :: 'f valuation) (lower_word_bitwise kind lhs rhs n) Q"
  unfolding lower_word_bitwise_def
proof (intro emitting_bind emit_let_pair emit_rules appends_intros, simp add: em_unspread_def appends_intros, goal_cases)
  case (1 ls rs sum c p)
  obtain u v where uv: "num n (e lhs) u" "num n (e rhs) v" "e ls = of_nat (spread_nat u)" "e rs = of_nat (spread_nat v)"
    using 1(2,4) by blast
  obtain x y where xy: "num n (e (fst p)) x" "num n (e (snd p)) y" "e c = of_nat (2 * spread_nat x + spread_nat y)"
    using 1(11) by blast
  have "n \<le> 64" using 1(10) by simp
  moreover have "e c = of_nat (spread_nat u) + of_nat (spread_nat v)" using 1 uv by simp
  ultimately have r: "x = u AND v" "y = u XOR v" using spread_gadget [OF assms(1) uv(1,2) xy(1,2)] xy(3) by auto
  have t: "ty_of types (fst p) = Some (TU n)" "ty_of types (snd p) = Some (TU n)" using 1(8,9) by simp_all
  show ?case
  proof (cases "kind = BopOr")
    case True
    show ?thesis unfolding True binary_arith_op_kind.case em_add_def
    proof (rule emit_int_arith [OF t])
      fix w assume w: "ty_of types w = Some (TU n)" "arith_holds (Some (TU n)) BopAdd (e (fst p)) (e (snd p)) (e w)"
      then obtain z where "fit_unsigned n (int x + int y) = Some z" "e w = of_nat z"
        using xy by (auto simp: arith_holds_def)
      then have "z = x + y" by (auto simp: fit_unsigned_def nat_add_distrib split: if_splits)
      then have "e w = of_nat (u OR v)" using and_or_xor [of u v] r \<open>e w = of_nat z\<close> by simp
      then show "Q w" using w(1) uv True by (intro assms(3)) auto
    qed
  next
    case False
    then consider "kind = BopAnd" "e (fst p) = of_nat (bit_op kind u v)" | "kind = BopXor" "e (snd p) = of_nat (bit_op kind u v)"
      using assms(2) xy r by (auto simp: num_def)
    then show ?thesis
    proof cases
      case 1
      then have "Q (fst p)" using uv(1,2) t by (intro assms(3)) blast+
      then show ?thesis using 1(1) by (simp add: emitting_return)
    next
      case 2
      then have "Q (snd p)" using uv(1,2) t by (intro assms(3)) blast+
      then show ?thesis using 2(1) by (simp add: emitting_return)
    qed
  qed
qed

lemma emit_extract_limb [emit_rules]:
  "(\<And>r. on_bits (ty_of types v) (e v) (\<lambda>n x. e r = of_nat (x div 2 ^ offset mod 2 ^ 32)) \<Longrightarrow> Q r) \<Longrightarrow>
    emitting ft types e (extract_u64_limb v offset) Q"
  unfolding extract_u64_limb_def by (intro emitting_bind emit_rules appends_intros) simp

definition limbs_of :: "'f::field valuation \<Rightarrow> value_id \<Rightarrow> u64_limbs \<Rightarrow> bool" where
  "limbs_of e v l \<longleftrightarrow> (\<forall>x a b. num 64 (e v) x \<longrightarrow> num 32 (e (limb_lo l)) a \<longrightarrow> num 32 (e (limb_hi l)) b \<longrightarrow> x = a + 2 ^ 32 * b)"

lemma limbs_gadget:
  assumes "bn254_like TYPE('f::field)" "num 64 (v :: 'f) x" "num 32 (v - h * of_nat (2 ^ 32)) a" "num 32 h b"
  shows "x = a + 2 ^ 32 * b"
proof -
  have "v = of_nat x" "h = of_nat b" "v - h * of_nat (2 ^ 32) = of_nat a" using assms(2-4) by (simp_all add: num_def)
  then have "(of_nat x :: 'f) = of_nat (a + 2 ^ 32 * b)" by (simp add: diff_eq_eq add.commute mult.commute)
  moreover have "x < 2 ^ 65" "a + 2 ^ 32 * b < 2 ^ 65" using assms(2-4) by (simp_all add: num_def)
  ultimately show ?thesis using of_nat_eqD [OF bn254_inj [OF assms(1), of 65]] by simp
qed

lemma emit_decompose [emit_rules]:
  assumes "bn254_like TYPE('f::field)" "ty_of types v = Some (TU 64)" "\<And>l. limbs_of e v l \<Longrightarrow> Q l"
  shows "emitting ft types (e :: 'f valuation) (decompose_u64_input v w) Q"
proof (cases w)
  case True
  show ?thesis unfolding decompose_u64_input_def derive_low_u32_limb_def
    by (simp only: True not_True_eq_False if_False, intro emitting_bind emit_rules appends_intros assms(3))
      (use limbs_gadget [OF assms(1)] in \<open>auto simp: limbs_of_def\<close>)
next
  case False
  have pure: "limbs_of e v \<lparr>limb_lo = lo, limb_hi = hi\<rparr>"
    if "on_bits (Some (TU 64)) (e v) (\<lambda>n x. e lo = of_nat (x div 2 ^ 0 mod 2 ^ 32))"
      "on_bits (Some (TU 64)) (e v) (\<lambda>n x. e hi = of_nat (x div 2 ^ 32 mod 2 ^ 32))" for lo hi
    unfolding limbs_of_def u64_limbs.simps
  proof (intro allI impI)
    fix x a b assume x: "num 64 (e v) x" and ab: "num 32 (e lo) a" "num 32 (e hi) b"
    have l: "num 32 (e lo) (x mod 2 ^ 32)" "num 32 (e hi) (x div 2 ^ 32 mod 2 ^ 32)" using that x by (simp_all add: on_bits_def num_def)
    have "a = x mod 2 ^ 32" "b = x div 2 ^ 32 mod 2 ^ 32"
      using bn254_num [OF assms(1) _ ab(1) l(1)] bn254_num [OF assms(1) _ ab(2) l(2)] by simp_all
    moreover have "x div 2 ^ 32 mod 2 ^ 32 = x div 2 ^ 32" using x by (simp add: num_def less_mult_imp_div_less)
    ultimately show "x = a + 2 ^ 32 * b" by simp
  qed
  show ?thesis unfolding decompose_u64_input_def extract_u64_limbs_def
    by (simp only: False not_False_eq_True if_True, intro emitting_bind emit_rules appends_intros assms(3) pure)
      (use assms(2) in simp_all)
qed

lemma emit_combine [emit_rules]:
  "(\<And>r. e r = e (limb_lo l) + e (limb_hi l) * of_nat (2 ^ 32) \<Longrightarrow> Q r) \<Longrightarrow> emitting ft types e (combine_u32_limbs l) Q"
  unfolding combine_u32_limbs_def by (intro emitting_bind emit_rules appends_intros) simp

lemma emit_limb_bitwise [emit_rules]:
  assumes "bn254_like TYPE('f::field)" "kind \<in> {BopAnd, BopOr, BopXor}"
    "\<And>r. (\<exists>x y. num 32 (e (limb_lo l)) x \<and> num 32 (e (limb_lo m)) y \<and> e (limb_lo r) = of_nat (bit_op kind x y)) \<Longrightarrow>
       (\<exists>x y. num 32 (e (limb_hi l)) x \<and> num 32 (e (limb_hi m)) y \<and> e (limb_hi r) = of_nat (bit_op kind x y)) \<Longrightarrow> Q r"
  shows "emitting ft types (e :: 'f valuation) (lower_u64_limb_bitwise kind l m) Q"
  unfolding lower_u64_limb_bitwise_def
  by (intro emitting_bind emit_rules appends_intros assms(1,2)) (use assms(3) in simp)

lemma bit_op_checked: "kind \<in> {BopAnd, BopOr, BopXor} \<Longrightarrow> checked_u n kind x y = Some (bit_op kind x y)"
  by auto

lemma limb_bitwise_gadget:
  assumes "limbs_of e lhs l" "limbs_of e rhs m" "num 64 (e lhs) x" "num 64 (e rhs) y"
    "\<exists>a b. num 32 (e (limb_lo l)) a \<and> num 32 (e (limb_lo m)) b \<and> lo = of_nat (bit_op kind a b)"
    "\<exists>a b. num 32 (e (limb_hi l)) a \<and> num 32 (e (limb_hi m)) b \<and> hi = of_nat (bit_op kind a b)"
  shows "lo + hi * of_nat (2 ^ 32) = (of_nat (bit_op kind x y) :: 'f::field)"
proof -
  obtain a b where ab: "num 32 (e (limb_lo l)) a" "num 32 (e (limb_lo m)) b" "lo = of_nat (bit_op kind a b)" using assms(5) by blast
  obtain c d where cd: "num 32 (e (limb_hi l)) c" "num 32 (e (limb_hi m)) d" "hi = of_nat (bit_op kind c d)" using assms(6) by blast
  have "x = a + 2 ^ 32 * c" "y = b + 2 ^ 32 * d" using assms(1-4) ab cd unfolding limbs_of_def by blast+
  moreover have "a < 2 ^ 32" "b < 2 ^ 32" using ab(1,2) unfolding num_def by blast+
  ultimately have "bit_op kind x y = bit_op kind a b + 2 ^ 32 * bit_op kind c d" by (simp only: bit_op_limbs)
  then show ?thesis unfolding ab cd by (simp add: mult.commute)
qed

lemma u1_gadget:
  assumes "num 1 (a :: 'f::field) x" "num 1 b y"
  shows "a * b = of_nat (x AND y)" "a + b - a * b = of_nat (x OR y)" "a + b - 2 * (a * b) = of_nat (x XOR y)"
  using assms by (auto simp: num_def less_2_cases_iff)

lemma emit_u1_bitwise:
  assumes "kind \<in> {BopAnd, BopOr, BopXor}"
  shows "emitting ft types e (lower_u1_bitwise kind result lhs rhs)
    (\<lambda>_. \<forall>x y. num 1 (e lhs) x \<longrightarrow> num 1 (e rhs) y \<longrightarrow> e result = of_nat (bit_op kind x y))"
proof -
  note u = u1_gadget [of "e lhs" _ "e rhs"]
  consider "kind = BopAnd" | "kind = BopOr" | "kind = BopXor" using assms by blast
  then show ?thesis
    by cases (simp only: lower_u1_bitwise_def binary_arith_op_kind.case bit_op.simps,
      intro emitting_bind emit_rules appends_intros, use u in simp)+
qed

lemma narrow_bits: "kind \<in> {BopAnd, BopOr, BopXor} \<Longrightarrow> kind \<noteq> BopShl \<and> kind \<noteq> BopShr"
  by auto

lemma unsigned_bits_Some: "unsigned_bits ctx v = Some n \<longleftrightarrow> (\<exists>t. lc_types ctx v = Some t \<and> strip_witness t = TU n)"
proof (cases "lc_types ctx v")
  case (Some t)
  then show ?thesis by (cases "strip_witness t") (simp_all add: unsigned_bits_def)
qed (simp add: unsigned_bits_def)

lemma lower_binary_bitwise_sound:
  fixes e :: "'f::field valuation"
  assumes "bn254_like TYPE('f)" "ready ctx types e (OpBinaryArithOp kind result lhs rhs)" "kind \<in> {BopAnd, BopOr, BopXor}"
    "lower_binary_bitwise ctx kind result lhs rhs lw rw = Some M"
  shows "appends M \<and> emitting ft types e M (\<lambda>_. sat types e (OpBinaryArithOp kind result lhs rhs))"
proof -
  note k = narrow_bits [OF assms(3), THEN conjunct1] narrow_bits [OF assms(3), THEN conjunct2]
  note o = arith_operands [OF assms(2) k]
  obtain n where n: "unsigned_bits ctx lhs = Some n"
    "M = (if n = 1 then lower_u1_bitwise kind result lhs rhs
       else do {
         result_word \<leftarrow> (if n = 64 then do {
             lhs_limbs \<leftarrow> decompose_u64_input lhs lw;
             rhs_limbs \<leftarrow> decompose_u64_input rhs rw;
             result_limbs \<leftarrow> lower_u64_limb_bitwise kind lhs_limbs rhs_limbs;
             combine_u32_limbs result_limbs }
           else lower_word_bitwise kind lhs rhs n);
         em_emit (OpCast result result_word (CastU n)) })"
    using assms(4) by (auto simp: lower_binary_bitwise_def bind_Some_iff split: if_splits)
  have t: "ty_of types lhs = Some (TU n)" "ty_of types rhs = Some (TU n)"
    using n(1) o(1,4,6) flat_ty_of_once [OF o(4)] by (auto simp: unsigned_bits_Some)
  have n': "n \<le> 251" using in_rangeD(1) [OF o(2) t(1)] by blast
  have sat: "sat types e (OpBinaryArithOp kind result lhs rhs)"
    if "\<And>x y. num n (e lhs) x \<Longrightarrow> num n (e rhs) y \<Longrightarrow> e result = of_nat (bit_op kind x y)"
    by (rule unsigned_sat [OF t(1) _ k]) (use that bit_op_checked [OF assms(3)] in blast)
  have word: "e result = of_nat (bit_op kind x y)"
    if "\<exists>x y. num n (e lhs) x \<and> num n (e rhs) y \<and> e r = of_nat (bit_op kind x y)" "e result = e r" "num n (e lhs) x" "num n (e rhs) y" for r x y
  proof -
    from that(1) obtain u v where uv: "num n (e lhs) u" "num n (e rhs) v" "e r = of_nat (bit_op kind u v)" by blast
    have "x = u" "y = v" using bn254_num [OF assms(1) _ that(3) uv(1)] bn254_num [OF assms(1) _ that(4) uv(2)] n' by simp_all
    then show ?thesis using uv(3) that(2) by simp
  qed
  have "emitting ft types e M (\<lambda>_. sat types e (OpBinaryArithOp kind result lhs rhs))"
  proof (cases "n = 1")
    case True
    show ?thesis unfolding n(2) if_P [OF True]
      by (rule emitting_weaken [OF emit_u1_bitwise [OF assms(3)]]) (rule sat, simp add: True)
  next
    case one: False
    show ?thesis
    proof (cases "n = 64")
      case True
      show ?thesis unfolding n(2) if_not_P [OF one] if_P [OF True]
      proof (intro emitting_bind emit_rules appends_intros assms(1,3) t [unfolded True], goal_cases)
        case (1 l m r c)
        show ?case
          by (rule sat) (use 1 limb_bitwise_gadget [OF 1(1,2) _ _ 1(3,4)] True in simp)
      qed
    next
      case False
      show ?thesis unfolding n(2) if_not_P [OF one] if_not_P [OF False]
        by (intro emitting_bind emit_rules appends_intros assms(1,3) sat) (rule word)
    qed
  qed
  moreover have "appends M" unfolding n(2) by (intro appends_intros)
  ultimately show ?thesis by blast
qed

subsection \<open>Negation, sign extension and shifts are sound\<close>

lemma integer_type_of:
  assumes "flat_types types" "types v = lc_types ctx v" "lc_types ctx v = Some t" "integer_bits_and_signedness t = Some (n, sg)"
  shows "ty_of types v = Some (if sg then TI n else TU n)"
  using assms flat_ty_of_once by (auto simp: integer_bits_and_signedness_def split: ty.splits)

lemma on_bits_int: "on_bits (Some (if sg then TI n else TU n)) a P \<longleftrightarrow> (\<forall>x. num n a x \<longrightarrow> P n x)"
  by (simp add: on_bits_def)

lemma lower_not_sound:
  fixes e :: "'f::field valuation"
  assumes "ready ctx types e (OpNot result v)" "lower_not ctx result v = Some M"
  shows "appends M \<and> emitting ft types e M (\<lambda>_. sat types e (OpNot result v))"
proof -
  obtain t n sg target where M: "lc_types ctx v = Some t" "integer_bits_and_signedness t = Some (n, sg)"
    "M = do {
       ones \<leftarrow> em_field_const (2 ^ n - 1);
       value_field \<leftarrow> em_cast_to_field v;
       not_value \<leftarrow> em_sub ones value_field;
       em_emit (OpCast result not_value target) }"
    using assms(2) by (auto simp: lower_not_def bind_Some_iff)
  have t: "ty_of types v = Some (if sg then TI n else TU n)"
    using integer_type_of [OF _ _ M(1,2)] readyD [OF assms(1)] by simp
  have gadget: "(2 ^ n - 1 - of_nat x :: 'f) = of_nat (2 ^ n - 1 - x)" if "x < 2 ^ n" for x
    using that by (simp add: of_nat_diff)
  have "emitting ft types e M (\<lambda>_. sat types e (OpNot result v))" unfolding M(3)
    by (intro emitting_bind emit_rules appends_intros) (use gadget in \<open>simp add: t on_bits_int num_def\<close>)
  moreover have "appends M" unfolding M(3) by (intro appends_intros)
  ultimately show ?thesis by blast
qed

lemma sext_gadget:
  fixes a s :: "'f::field"
  assumes "a = of_nat x" "s = of_bool (2 ^ (m - 1) \<le> x)" "x < 2 ^ m" "0 < m" "m \<le> k"
  shows "a + s * (2 ^ k - 2 ^ m) = of_nat (encoded k (signed_of m x))"
proof -
  have i: "int x < 2 ^ m" using assms(3) by (metis of_nat_less_iff of_nat_numeral of_nat_power)
  have p: "(2 :: int) ^ m \<le> 2 ^ k" "(2 :: int) ^ (m - 1) \<le> 2 ^ (k - 1)" using assms(5) by (auto intro!: power_increasing)
  have h: "(2 :: int) ^ m = 2 * 2 ^ (m - 1)" using assms(4) by (cases m) simp_all
  have b: "\<bar>signed_of m x\<bar> \<le> 2 ^ (m - 1)" "signed_of m x < 2 ^ (m - 1)"
    using signed_of_abs [OF assms(3,4)] i h by (auto simp: signed_of_def split: if_splits)
  have "- (2 ^ (k - 1)) \<le> signed_of m x" "signed_of m x < 2 ^ (k - 1)" using b p by linarith+
  then have "int (encoded k (signed_of m x)) = signed_of m x + (if signed_of m x < 0 then 2 ^ k else 0)"
    using assms(4,5) by (intro encoded_value) simp_all
  also have "\<dots> = int x + (if 2 ^ (m - 1) \<le> x then 2 ^ k - 2 ^ m else 0)"
    using signed_of_neg [OF assms(3)] by (simp add: signed_of_def)
  finally have "(of_nat (encoded k (signed_of m x)) :: 'f) = of_int (int x + (if 2 ^ (m - 1) \<le> x then 2 ^ k - 2 ^ m else 0))"
    by (metis of_int_of_nat_eq)
  then show ?thesis using assms(1,2) by simp
qed

lemma emit_sext_sign:
  "(\<And>s. ty_of types s = Some TField \<Longrightarrow> (b \<longrightarrow> e s = 0) \<Longrightarrow>
      (\<not> b \<longrightarrow> on_bits (ty_of types v) (e v) (\<lambda>n x. e s = of_nat (x div 2 ^ m mod 2))) \<Longrightarrow> Q s) \<Longrightarrow>
    emitting ft types e (if b then em_field_const 0 else do { sign_bits \<leftarrow> em_bit_range v m 1; em_cast_to_field sign_bits }) Q"
  by (intro emit_if emitting_bind emit_rules appends_intros) simp_all

lemma lower_integer_sext_sound:
  fixes e :: "'f::field valuation"
  assumes "ready ctx types e (OpSExt result v from_bits to_bits)" "lc_types ctx v = Some t"
    "integer_bits_and_signedness t = Some (n, sg)" "lower_integer_sext ctx result v from_bits to_bits = Some M"
  shows "appends M \<and> emitting ft types e M (\<lambda>_. sat types e (OpSExt result v from_bits to_bits))"
proof -
  let ?r = "lc_range ctx v"
  obtain target where M: "is_non_negative_in_signed ?r from_bits \<or> from_bits > 0" "M = do {
       sign \<leftarrow> (if is_non_negative_in_signed ?r from_bits then em_field_const 0
         else do { sign_bits \<leftarrow> em_bit_range v (from_bits - 1) 1; em_cast_to_field sign_bits });
       value_field \<leftarrow> em_cast_to_field v;
       extension \<leftarrow> em_field_const (two_pow to_bits - two_pow from_bits);
       offset \<leftarrow> em_mul sign extension;
       extended \<leftarrow> em_add value_field offset;
       em_emit (OpCast result extended target) }"
    using assms(4) by (auto simp: lower_integer_sext_def bind_Some_iff split: if_splits)
  have t: "ty_of types v = Some (if sg then TI n else TU n)"
    using integer_type_of [OF _ _ assms(2,3)] readyD [OF assms(1)] by simp
  have k: "from_bits \<le> to_bits" using readyD(4) [OF assms(1)] by simp
  have iv: "in_iv (if sg then signed_of n x else int x) ?r" if "num n (e v) x" for x
    using readyD(2) [OF assms(1), of v] in_rangeD [of ctx types e v n] t that by (cases sg) auto
  have small: "0 < from_bits" "x < 2 ^ (from_bits - 1)" if nn: "is_non_negative_in_signed ?r from_bits" and x: "num n (e v) x" for x
  proof -
    note d = is_non_negative_in_signedD [OF nn iv [OF x]]
    show "0 < from_bits" using d by blast
    have "int x < 2 ^ (from_bits - 1)"
    proof (cases sg)
      case True
      then have "signed_of n x = int x" using d int_num_bound [OF x] by (auto simp: signed_of_def split: if_splits)
      then show ?thesis using d True by simp
    qed (use d in simp)
    then show "x < 2 ^ (from_bits - 1)" by (metis of_nat_less_iff of_nat_numeral of_nat_power)
  qed
  have sign: "e s = of_bool (2 ^ (from_bits - 1) \<le> x)"
    if "is_non_negative_in_signed ?r from_bits \<longrightarrow> e s = 0"
      "\<not> is_non_negative_in_signed ?r from_bits \<longrightarrow> on_bits (ty_of types v) (e v) (\<lambda>n x. e s = of_nat (x div 2 ^ (from_bits - 1) mod 2))"
      "num n (e v) x" "x < 2 ^ from_bits" for s x
  proof (cases "is_non_negative_in_signed ?r from_bits")
    case True
    then show ?thesis using that small [OF True that(3)] by simp
  next
    case False
    then have "e s = of_nat (x div 2 ^ (from_bits - 1) mod 2)" using that by (simp add: t on_bits_int)
    then show ?thesis using sign_bit_value [OF that(4)] M(1) False by simp
  qed
  have "emitting ft types e M (\<lambda>_. sat types e (OpSExt result v from_bits to_bits))" unfolding M(2)
  proof (intro emitting_bind emit_sext_sign emit_rules appends_intros, goal_cases)
    case (1 s f c o' w)
    have r: "e result = e v + e s * (2 ^ to_bits - 2 ^ from_bits)" using 1 by (simp add: two_pow_def)
    have "e result = of_nat (encoded to_bits (signed_of from_bits x))" if x: "num n (e v) x" "x < 2 ^ from_bits" for x
      unfolding r
    proof (rule sext_gadget [OF _ _ x(2) _ k])
      show "e v = of_nat x" using x(1) by (simp add: num_def)
      show "e s = of_bool (2 ^ (from_bits - 1) \<le> x)" by (rule sign [OF 1(2,3) x])
      show "0 < from_bits" using M(1) small(1) [OF _ x(1)] by blast
    qed
    then show ?case by (simp add: t on_bits_int)
  qed
  moreover have "appends M" unfolding M(2) by (intro appends_intros)
  ultimately show ?thesis by blast
qed

lemma lower_shift_sound:
  fixes e :: "'f::field valuation"
  assumes "bn254_like TYPE('f)" "ready ctx types e (OpBinaryArithOp kind result lhs rhs)" "kind \<in> {BopShl, BopShr}"
    "lower_shift ctx guard kind result lhs rhs = Some M"
  shows "appends M \<and> emitting ft types e M (\<lambda>_. active e guard \<longrightarrow> sat types e (OpBinaryArithOp kind result lhs rhs))"
proof -
  obtain n where n: "unsigned_bits ctx lhs = Some n" "M = do {
       one_u \<leftarrow> em_u_const n 1;
       factor \<leftarrow> em_fresh;
       em_emit (OpBinaryArithOp BopShl factor one_u rhs);
       (if kind = BopShl then do {
          lhs_field \<leftarrow> em_cast_to_field lhs;
          factor_field \<leftarrow> em_cast_to_field factor;
          shifted \<leftarrow> em_mul lhs_field factor_field;
          guarded_rangecheck shifted n guard;
          em_emit (OpCast result shifted (CastU n)) }
        else emit_guarded guard (OpBinaryArithOp BopDiv result lhs factor)) }"
    using assms(4) by (auto simp: lower_shift_def bind_Some_iff split: if_splits)
  have t: "ty_of types lhs = Some (TU n)"
    using n(1) readyD(1,3) [OF assms(2)] flat_ty_of_once by (auto simp: unsigned_bits_Some)
  have factor: "e f = of_nat (2 ^ y)"
    if "holds ft types e (OpBinaryArithOp BopShl f c rhs)" "ty_of types c = Some (TU n)" "e c = of_nat (unat (1 :: u128))"
      "y < n" "e rhs = of_nat y" for f c y
  proof -
    have "arith_holds (Some (TU n)) BopShl (e c) (e rhs) (e f)" using that(1,2) by (simp add: holds_def)
    moreover have "num n (e c) 1" using that(3,4) one_less_power [of "2 :: nat" n] by (simp add: num_def)
    ultimately have "e f = of_nat (1 * 2 ^ y mod 2 ^ n)" using that(4,5) by (auto simp: arith_holds_def)
    then show ?thesis using that(4) by simp
  qed
  have shr: "sat types e (OpBinaryArithOp BopShr result lhs rhs)"
    if f: "\<And>y. y < n \<Longrightarrow> e rhs = of_nat y \<Longrightarrow> e f = of_nat (2 ^ y)" and d: "sat types e (OpBinaryArithOp BopDiv result lhs f)" for f
    unfolding sat.simps t arith_holds_def option.case ty.case
  proof (intro allI impI)
    fix x y assume x: "num n (e lhs) x" and "right_operand n BopShr (e rhs) y"
    then have y: "y < n" "e rhs = of_nat y" by simp_all
    have "right_operand n BopDiv (e f) (2 ^ y)" using f [OF y] y(1) by (simp add: num_def)
    then have "\<exists>z. checked_u n BopDiv x (2 ^ y) = Some z \<and> e result = of_nat z"
      using d x unfolding sat.simps t arith_holds_def option.case ty.case by blast
    then show "\<exists>z. checked_u n BopShr x y = Some z \<and> e result = of_nat z" by simp
  qed
  have shl: "sat types e (OpBinaryArithOp BopShl result lhs rhs)"
    if k: "kind = BopShl" and f: "\<And>y. y < n \<Longrightarrow> e rhs = of_nat y \<Longrightarrow> e f = of_nat (2 ^ y)"
      and r: "e result = e lhs * e f" "\<exists>k. num n (e lhs * e f) k" for f
    unfolding sat.simps t arith_holds_def option.case ty.case
  proof (intro allI impI)
    fix x y assume x: "num n (e lhs) x" and "right_operand n BopShl (e rhs) y"
    then have y: "y < n" "e rhs = of_nat y" by simp_all
    have n': "n \<le> 126" using readyD(4) [OF assms(2)] t k by (simp add: narrow_TU)
    obtain k where k: "k < 2 ^ n" "e lhs * e f = of_nat k" using r(2) by (auto simp: num_def)
    have "x * 2 ^ y < 2 ^ n * 2 ^ n" using x y(1) by (intro mult_strict_mono) (simp_all add: num_def)
    also have "\<dots> \<le> 2 ^ 252" using power_increasing [of "n + n" 252 "2 :: nat"] n' by (simp add: power_add)
    finally have "x * 2 ^ y < 2 ^ 252" .
    moreover have "k < 2 ^ 252" using k(1) less_le_trans [OF _ power_increasing [of n 252 "2 :: nat"]] n' by simp
    moreover have "(of_nat (x * 2 ^ y) :: 'f) = of_nat k" using k(2) f [OF y] x by (simp add: num_def)
    ultimately have "x * 2 ^ y = k" using of_nat_eqD [OF bn254_inj [OF assms(1), of 252]] by simp
    then show "\<exists>z. checked_u n BopShl x y = Some z \<and> e result = of_nat z" using k r(1) by simp
  qed
  have "emitting ft types e M (\<lambda>_. active e guard \<longrightarrow> sat types e (OpBinaryArithOp kind result lhs rhs))"
  proof (cases "kind = BopShl")
    case True
    show ?thesis unfolding n(2) if_P [OF True]
    proof (intro emitting_bind emitting_fresh emit_rules emitting_emit appends_intros, goal_cases)
      case (1 c f l g w)
      have "sat types e (OpBinaryArithOp BopShl result lhs rhs)" if "active e guard"
      proof (rule shl [OF True, of f])
        show "e f = of_nat (2 ^ y)" if "y < n" "e rhs = of_nat y" for y using factor 1(2-4) that by blast
        show "e result = e lhs * e f" "\<exists>k. num n (e lhs * e f) k" using 1(5-11) that by auto
      qed
      then show ?case unfolding True by blast
    qed
  next
    case False
    then have k: "kind = BopShr" using assms(3) by blast
    show ?thesis unfolding n(2) if_not_P [OF False]
      by (intro emitting_bind emitting_fresh emit_rules emitting_emit emit_guarded_op appends_intros, unfold k)
        (use factor shr in blast)
  qed
  moreover have "appends M" unfolding n(2) by (intro appends_intros)
  ultimately show ?thesis by blast
qed

lemma emit_lowered_pair:
  assumes "appends L \<and> emitting ft types e L (\<lambda>_. P)" "M = do { L; return True }"
  shows "emitting ft types e M (\<lambda>hit. hit \<longrightarrow> P)"
  unfolding assms(2) using assms(1) by (intro emit_lowered) simp_all

lemma lowered_Some: "lowered N = Some M \<longleftrightarrow> (\<exists>L. N = Some L \<and> M = do { L; return True })"
  by (auto simp: lowered_def)

lemma process_bitwise_sound:
  fixes e :: "'f::field valuation"
  assumes "bn254_like TYPE('f)" "ready ctx types e i" "process_bitwise ctx guard i = Some M"
  shows "emitting ft types e M (\<lambda>hit. hit \<longrightarrow> active e guard \<longrightarrow> sat types e i)"
proof (cases "M = return False")
  case False
  have weak: "appends L \<and> emitting ft types e L (\<lambda>_. active e guard \<longrightarrow> sat types e i)"
    if "appends L \<and> emitting ft types e L (\<lambda>_. sat types e i)" for L :: "('f, unit) emits"
    using that by (auto elim: emitting_weaken)
  show ?thesis
  proof (cases i)
    case (OpBinaryArithOp kind result lhs rhs)
    show ?thesis
    proof (cases "kind \<in> {BopAnd, BopOr, BopXor}")
      case True
      then obtain lw rw L where "lower_binary_bitwise ctx kind result lhs rhs lw rw = Some L" "M = do { L; return True }"
        using assms(3) False by (auto simp: process_bitwise_def OpBinaryArithOp bind_Some_iff lowered_Some split: if_splits)
      then show ?thesis
        using emit_lowered_pair [OF weak] lower_binary_bitwise_sound [OF assms(1) assms(2) [unfolded OpBinaryArithOp] True] OpBinaryArithOp
        by blast
    next
      case no: False
      then obtain L where L: "lower_shift ctx guard kind result lhs rhs = Some L" "M = do { L; return True }" and k: "kind \<in> {BopShl, BopShr}"
        using assms(3) False by (auto simp: process_bitwise_def OpBinaryArithOp bind_Some_iff lowered_Some split: if_splits)
      show ?thesis unfolding OpBinaryArithOp
        by (rule emit_lowered_pair [OF lower_shift_sound [OF assms(1) assms(2) [unfolded OpBinaryArithOp] k L(1)] L(2)])
    qed
  next
    case (OpNot result v)
    then obtain L where "lower_not ctx result v = Some L" "M = do { L; return True }"
      using assms(3) by (auto simp: process_bitwise_def lowered_Some)
    then show ?thesis using emit_lowered_pair [OF weak] lower_not_sound [OF assms(2) [unfolded OpNot]] OpNot by blast
  next
    case (OpSExt result v from_bits to_bits)
    then obtain t n sg L where "lc_types ctx v = Some t" "integer_bits_and_signedness t = Some (n, sg)"
        "lower_integer_sext ctx result v from_bits to_bits = Some L" "M = do { L; return True }"
      using assms(3) False by (auto simp: process_bitwise_def bind_Some_iff lowered_Some split: if_splits)
    then show ?thesis
      using emit_lowered_pair [OF weak] lower_integer_sext_sound [OF assms(2) [unfolded OpSExt]] OpSExt by blast
  qed (use assms(3) False in \<open>simp_all add: process_bitwise_def\<close>)
qed (simp add: emit_not_lowered)

lemma lower_witness_bitwise_sound:
  assumes "bn254_like TYPE('f::field)"
  shows "sound_rule (lower_witness_bitwise :: 'f rule)"
  unfolding lower_witness_bitwise_def [abs_def]
  by (rule sound_ruleI_guarded) (rule process_bitwise_sound [OF assms])

lemma lower_bits_appends:
  "lower_binary_bitwise ctx kind result lhs rhs lw rw = Some M \<Longrightarrow> appends M" "lower_not ctx result v = Some M \<Longrightarrow> appends M"
  "lower_integer_sext ctx result v n m = Some M \<Longrightarrow> appends M" "lower_shift ctx guard kind result lhs rhs = Some M \<Longrightarrow> appends M"
  unfolding lower_binary_bitwise_def lower_not_def lower_integer_sext_def lower_shift_def
  by (auto simp: bind_Some_iff split: if_splits intro!: appends_intros)

lemma process_bitwise_appends: "process_bitwise ctx guard i = Some M \<Longrightarrow> appends M"
  by (cases i) (auto simp: process_bitwise_def bind_Some_iff lowered_Some appends_return split: if_splits
    intro!: appends_intros dest: lower_bits_appends)

subsection \<open>Spreading is sound\<close>

lemma emit_spread_lookup [emit_rules]:
  "(\<And>w. ty_of types w = Some TField \<Longrightarrow> (\<exists>x. num n (e v) x \<and> e w = of_nat (spread_nat x)) \<Longrightarrow> Q w) \<Longrightarrow>
    emitting ft types e (write_spread_witness_and_lookup v n) Q"
  unfolding write_spread_witness_and_lookup_def by (intro emitting_bind emit_rules appends_intros) auto

lemma emit_unspread_result [emit_rules]: "Q () \<Longrightarrow> emitting ft types e (write_unspread_result target r h) Q"
  unfolding write_unspread_result_def by (intro emitting_bind emit_rules appends_intros)

lemma lower_witness_spread_appends: "lower_witness_spread ctx i = Some M \<Longrightarrow> appends M"
  by (cases i) (auto simp: lower_witness_spread_def lower_witness_spread_op_def lower_witness_unspread_def bind_Some_iff
    lowered_Some em_unspread_def split: if_splits intro!: appends_intros)

lemma lower_witness_spread_sound: "sound_rule (lower_witness_spread :: 'f::field rule)"
proof (rule sound_ruleI)
  fix ctx i ft types and e :: "'f valuation" and M :: "('f, bool) emits"
  assume M: "lower_witness_spread ctx i = Some M"
  show "emitting ft types e M (\<lambda>hit. hit \<longrightarrow> sat types e i)"
  proof (cases "M = return False")
    case False
    show ?thesis
    proof (cases i)
      case (OpSpread result v n)
      then obtain target where "M = do { spread_wit \<leftarrow> write_spread_witness_and_lookup v n; em_emit (OpCast result spread_wit target); return True }"
        using M False by (auto simp: lower_witness_spread_def lower_witness_spread_op_def bind_Some_iff lowered_Some State_Monad.bind_assoc split: if_splits)
      then show ?thesis unfolding OpSpread by (auto intro!: emitting_bind emit_rules appends_intros)
    next
      case (OpUnspread odd even v n)
      then obtain t u where "M = do {
           value_pure \<leftarrow> em_value_of v;
           (odd_hint, even_hint) \<leftarrow> em_unspread value_pure n;
           write_unspread_result t odd odd_hint;
           write_unspread_result u even even_hint;
           odd_spread \<leftarrow> write_spread_witness_and_lookup odd n;
           two \<leftarrow> em_field_const 2;
           two_odd_spread \<leftarrow> em_mul two odd_spread;
           value_field \<leftarrow> em_cast_to_field v;
           even_spread \<leftarrow> em_sub value_field two_odd_spread;
           even_field \<leftarrow> em_cast_to_field even;
           one \<leftarrow> em_field_const 1;
           em_lookup_spread n even_field even_spread one;
           return True }"
        using M False
        by (auto simp: lower_witness_spread_def lower_witness_unspread_def bind_Some_iff lowered_Some State_Monad.bind_assoc
          case_prod_unfold split: if_splits)
      then show ?thesis unfolding OpUnspread
      proof (simp only:, intro emitting_bind emit_unspread_any emit_let_pair emit_rules appends_intros,
          simp_all add: em_unspread_def appends_intros, goal_cases)
        case (1 w c p v' d k one)
        then obtain x y where "num n (e odd) x" "num n (e even) y" "e v - 2 * of_nat (spread_nat x) = of_nat (spread_nat y)"
          by (metis (no_types, lifting))
        then show ?case by (intro exI conjI) (auto simp: diff_eq_eq)
      qed
    qed (use M False in \<open>simp_all add: lower_witness_spread_def\<close>)
  qed (simp add: emit_not_lowered)
qed

end
