(* ===== verification/Lower_BitRange.thy ===== *)
theory Lower_BitRange
  imports Lower_Bits
begin

unbundle bit_operations_syntax

text \<open>
  Selecting bits of a value (\<^verbatim>\<open>passes/instruction_lowering/bit_range.rs\<close>): a pure integer is masked and
  divided; a witness integer is split into three witnesses that are range checked and add up to it; a witness field
  element is decomposed into bytes that are checked to be those of its number below the order of the field, and the
  bits are read off the bytes. A part of a byte is split off by a gadget that bounds both parts from above only, so
  that it does not determine them.
\<close>

subsection \<open>Pure values\<close>

text \<open>A loop that emits: the body runs once for each element, with what the previous rounds computed.\<close>

fun em_fold :: "('x \<Rightarrow> 's \<Rightarrow> ('f, 's) emits) \<Rightarrow> 'x list \<Rightarrow> 's \<Rightarrow> ('f, 's) emits" where
  "em_fold F [] s = return s"
| "em_fold F (x # xs) s = do { s \<leftarrow> F x s; em_fold F xs s }"

definition bit_mask :: "nat \<Rightarrow> nat \<Rightarrow> nat \<Rightarrow> u128 option" where
  "bit_mask bits offset width = do {
     ensure (bits \<le> 128);
     ensure (width > 0);
     ensure (offset + width \<le> bits);
     Some (if width = 128 then - 1 else push_bit offset (push_bit width 1 - 1)) }"

definition cast_target_for_scalar_type :: "ty \<Rightarrow> cast_target option" where
  "cast_target_for_scalar_type t = (case strip_witness t of
     TField \<Rightarrow> Some CastField | TU bits \<Rightarrow> Some (CastU bits) | TI bits \<Rightarrow> Some (CastI bits) | _ \<Rightarrow> None)"

text \<open>The number of bits split off a byte is between 1 and 7, an assertion of \<^verbatim>\<open>lower_pure_byte_low_bits\<close> and
  \<^verbatim>\<open>split_partial_field_byte\<close> that the remainder modulo 8 meets.\<close>

definition lower_pure_byte_low_bits :: "value_id \<Rightarrow> nat \<Rightarrow> ('f, value_id) emits" where
  "lower_pure_byte_low_bits byte bits = do {
     divisor \<leftarrow> em_u_const 8 (push_bit bits 1);
     high \<leftarrow> em_div byte divisor;
     high_shifted \<leftarrow> em_mul high divisor;
     em_sub byte high_shifted }"

definition first_byte :: "nat \<Rightarrow> nat" where
  "first_byte bits = 32 - bits div 8 - (if bits mod 8 > 0 then 1 else 0)"

definition pure_byte_step ::
  "value_id \<Rightarrow> value_id \<Rightarrow> nat \<Rightarrow> nat \<Rightarrow> value_id \<Rightarrow> ('f, value_id) emits" where
  "pure_byte_step bytes_arr two_to_8 bits i result = do {
     idx \<leftarrow> em_u_const 32 (of_nat i);
     byte \<leftarrow> em_array_get bytes_arr idx;
     byte \<leftarrow> (if i = first_byte bits \<and> bits mod 8 > 0 then lower_pure_byte_low_bits byte (bits mod 8) else return byte);
     byte_field \<leftarrow> em_cast_to_field byte;
     shifted \<leftarrow> em_mul result two_to_8;
     em_add shifted byte_field }"

definition lower_pure_field_low_bits :: "value_id \<Rightarrow> nat \<Rightarrow> ('f::field, value_id) emits" where
  "lower_pure_field_low_bits v bits = (if bits = 0 then em_field_const 0
     else do {
       bytes_arr \<leftarrow> em_to_radix v RadixBytes Big 32;
       two_to_8 \<leftarrow> em_field_const (of_nat 256);
       result \<leftarrow> em_field_const 0;
       em_fold (pure_byte_step bytes_arr two_to_8 bits) [first_byte bits..<32] result })"

text \<open>Whether the bits can be read depends on the type and the bits only, so that the code's functions of the value
  come after the checks here.\<close>

definition lower_pure_field_bit_range_value :: "nat \<Rightarrow> nat \<Rightarrow> (value_id \<Rightarrow> ('f::field, value_id) emits) option" where
  "lower_pure_field_bit_range_value offset width = do {
     ensure (offset + width \<le> 254);
     Some (\<lambda>v. do {
       low_end \<leftarrow> lower_pure_field_low_bits v (offset + width);
       low_start \<leftarrow> lower_pure_field_low_bits v offset;
       selected_shifted \<leftarrow> em_sub low_end low_start;
       divisor \<leftarrow> em_field_const (two_pow offset);
       em_div selected_shifted divisor }) }"

definition lower_pure_int_bit_range_value :: "nat \<Rightarrow> u128 \<Rightarrow> nat \<Rightarrow> value_id \<Rightarrow> ('f, value_id) emits" where
  "lower_pure_int_bit_range_value bits mask_value offset v = do {
     unsigned \<leftarrow> em_cast_to (CastU bits) v;
     mask_id \<leftarrow> em_u_const bits mask_value;
     masked \<leftarrow> em_and unsigned mask_id;
     divisor \<leftarrow> em_u_const bits (push_bit offset 1);
     em_div masked divisor }"

definition lower_pure_bit_range_value :: "ty \<Rightarrow> nat \<Rightarrow> nat \<Rightarrow> (value_id \<Rightarrow> ('f::field, value_id) emits) option" where
  "lower_pure_bit_range_value t offset width = (case strip_witness t of
     TU bits \<Rightarrow> do {
       mask_value \<leftarrow> bit_mask bits offset width;
       Some (lower_pure_int_bit_range_value bits mask_value offset) }
   | TI bits \<Rightarrow> do {
       mask_value \<leftarrow> bit_mask bits offset width;
       Some (lower_pure_int_bit_range_value bits mask_value offset) }
   | TField \<Rightarrow> lower_pure_field_bit_range_value offset width
   | _ \<Rightarrow> None)"

definition lower_pure_bit_range ::
  "lowering_context \<Rightarrow> value_id \<Rightarrow> value_id \<Rightarrow> nat \<Rightarrow> nat \<Rightarrow> ('f::field, unit) emits option" where
  "lower_pure_bit_range ctx result v offset width = do {
     value_type \<leftarrow> lc_types ctx v;
     lower \<leftarrow> lower_pure_bit_range_value value_type offset width;
     result_type \<leftarrow> lc_types ctx result;
     target \<leftarrow> cast_target_for_scalar_type result_type;
     Some (do { extracted \<leftarrow> lower v; em_emit (OpCast result extracted target) }) }"

subsection \<open>Witness integers\<close>

text \<open>A part of the value: its hint is computed from the pure value. No part has no bits.\<close>

definition write_part :: "(value_id \<Rightarrow> ('f, value_id) emits) \<Rightarrow> value_id \<Rightarrow> nat \<Rightarrow> ('f, value_id) emits" where
  "write_part hint pure_value bits = do {
     part_hint \<leftarrow> hint pure_value;
     part_hint \<leftarrow> em_cast_to_field part_hint;
     part \<leftarrow> em_write_witness part_hint;
     em_rangecheck part bits;
     return part }"

definition write_optional_part ::
  "(value_id \<Rightarrow> ('f, value_id) emits) \<Rightarrow> value_id \<Rightarrow> nat \<Rightarrow> ('f, value_id option) emits" where
  "write_optional_part hint pure_value bits = (if bits = 0 then return None
     else do { part \<leftarrow> write_part hint pure_value bits; return (Some part) })"

definition optional_hint :: "ty \<Rightarrow> nat \<Rightarrow> nat \<Rightarrow> (value_id \<Rightarrow> ('f::field, value_id) emits) option" where
  "optional_hint t offset width = (if width = 0 then Some return else lower_pure_bit_range_value t offset width)"

definition reconstruct ::
  "value_id option \<Rightarrow> value_id \<Rightarrow> value_id option \<Rightarrow> nat \<Rightarrow> nat \<Rightarrow> ('f::field, value_id) emits" where
  "reconstruct low result_field high offset width = do {
     reconstructed \<leftarrow> (case low of Some v \<Rightarrow> return v | None \<Rightarrow> em_field_const 0);
     result_shift \<leftarrow> em_field_const (two_pow offset);
     result_shifted \<leftarrow> em_mul result_field result_shift;
     reconstructed \<leftarrow> em_add reconstructed result_shifted;
     (case high of
        Some v \<Rightarrow> do {
          high_shift \<leftarrow> em_field_const (two_pow (offset + width));
          high_shifted \<leftarrow> em_mul v high_shift;
          em_add reconstructed high_shifted }
      | None \<Rightarrow> return reconstructed) }"

definition lower_witness_bit_range ::
  "lowering_context \<Rightarrow> value_id \<Rightarrow> value_id \<Rightarrow> nat \<Rightarrow> nat \<Rightarrow> ('f::field, unit) emits option" where
  "lower_witness_bit_range ctx result v offset width = do {
     value_type \<leftarrow> lc_types ctx v;
     source_bits \<leftarrow> get_bit_size value_type;
     let high_bits = source_bits - offset - width;
     hint \<leftarrow> lower_pure_bit_range_value (strip_witness value_type) offset width;
     low_hint \<leftarrow> optional_hint (strip_witness value_type) 0 offset;
     high_hint \<leftarrow> optional_hint (strip_witness value_type) (offset + width) high_bits;
     result_type \<leftarrow> lc_types ctx result;
     target \<leftarrow> cast_target_for_scalar_type result_type;
     Some (do {
       pure_value \<leftarrow> em_value_of v;
       hint \<leftarrow> hint pure_value;
       hint_field \<leftarrow> em_cast_to_field hint;
       result_witness \<leftarrow> em_write_witness hint_field;
       em_emit (OpCast result result_witness target);
       result_field \<leftarrow> em_cast_to_field result;
       em_rangecheck result_field width;
       low \<leftarrow> write_optional_part low_hint pure_value offset;
       high \<leftarrow> write_optional_part high_hint pure_value high_bits;
       reconstructed \<leftarrow> reconstruct low result_field high offset width;
       value_field \<leftarrow> em_cast_to_field v;
       diff \<leftarrow> em_sub value_field reconstructed;
       zero \<leftarrow> em_field_const 0;
       flag \<leftarrow> em_field_const 1;
       em_constrain flag diff zero }) }"

subsection \<open>Witness field elements\<close>

record byte_state =
  bs_bytes :: "value_id list"
  bs_limbs :: "value_id list"
  bs_sum :: value_id

definition byte_step :: "value_id \<Rightarrow> value_id \<Rightarrow> value_id \<Rightarrow> nat \<Rightarrow> byte_state \<Rightarrow> ('f, byte_state) emits" where
  "byte_step bytes_arr two_to_8 flag i st = do {
     idx \<leftarrow> em_u_const 32 (of_nat i);
     byte \<leftarrow> em_array_get bytes_arr idx;
     byte_field \<leftarrow> em_cast_to_field byte;
     byte_wit \<leftarrow> em_write_witness byte_field;
     em_lookup_rngchk_8 byte_wit flag;
     shifted_limb \<leftarrow> em_mul (bs_limbs st ! (i div 8)) two_to_8;
     limb \<leftarrow> em_add shifted_limb byte_wit;
     shifted_full \<leftarrow> em_mul (bs_sum st) two_to_8;
     full_sum \<leftarrow> em_add shifted_full byte_wit;
     return \<lparr>bs_bytes = bs_bytes st @ [byte_wit], bs_limbs = (bs_limbs st)[i div 8 := limb], bs_sum = full_sum\<rparr> }"

definition decompose_bytes :: "value_id \<Rightarrow> value_id \<Rightarrow> value_id \<Rightarrow> ('f::field, value_id list \<times> value_id list) emits" where
  "decompose_bytes v two_to_8 flag = do {
     zero \<leftarrow> em_field_const 0;
     pure_value \<leftarrow> em_value_of v;
     bytes_arr \<leftarrow> em_to_radix pure_value RadixBytes Big 32;
     st \<leftarrow> em_fold (byte_step bytes_arr two_to_8 flag) [0..<31]
       \<lparr>bs_bytes = [], bs_limbs = replicate 4 zero, bs_sum = zero\<rparr>;
     full_sum_shifted \<leftarrow> em_mul (bs_sum st) two_to_8;
     lsb \<leftarrow> em_sub v full_sum_shifted;
     em_lookup_rngchk_8 lsb flag;
     shifted_limb \<leftarrow> em_mul (bs_limbs st ! 3) two_to_8;
     limb \<leftarrow> em_add shifted_limb lsb;
     return (bs_bytes st @ [lsb], (bs_limbs st)[3 := limb]) }"

definition borrow_of :: "value_id \<Rightarrow> value_id \<Rightarrow> ('f::field, value_id) emits" where
  "borrow_of limb2 limb3 = do {
     limb2_pure \<leftarrow> em_value_of limb2;
     limb3_pure \<leftarrow> em_value_of limb3;
     limb2_u64 \<leftarrow> em_cast_to (CastU 64) limb2_pure;
     limb3_u64 \<leftarrow> em_cast_to (CastU 64) limb3_pure;
     mod_limb2 \<leftarrow> em_u_const 64 0x2833e84879b97091;
     mod_limb3 \<leftarrow> em_u_const 64 0x43e1f593f0000000;
     hi_lt \<leftarrow> em_lt mod_limb2 limb2_u64;
     hi_eq \<leftarrow> em_eq mod_limb2 limb2_u64;
     lo_lt \<leftarrow> em_lt mod_limb3 limb3_u64;
     hi_eq_f \<leftarrow> em_cast_to_field hi_eq;
     lo_lt_f \<leftarrow> em_cast_to_field lo_lt;
     hi_eq_and_lo_lt \<leftarrow> em_mul hi_eq_f lo_lt_f;
     hi_lt_f \<leftarrow> em_cast_to_field hi_lt;
     borrow_hint \<leftarrow> em_add hi_lt_f hi_eq_and_lo_lt;
     borrow_wit \<leftarrow> em_write_witness borrow_hint;
     em_constrain borrow_wit borrow_wit borrow_wit;
     return borrow_wit }"

definition decompose_canonical_field_bytes :: "value_id \<Rightarrow> value_id \<Rightarrow> ('f::field, value_id list) emits" where
  "decompose_canonical_field_bytes v flag = do {
     modulus_hi \<leftarrow> em_field_const (of_nat 0x30644e72e131a029b85045b68181585d);
     modulus_lo_m1 \<leftarrow> em_field_const (of_nat 0x2833e84879b9709143e1f593f0000000);
     two_to_8 \<leftarrow> em_field_const (of_nat 256);
     two_to_64 \<leftarrow> em_field_const (two_pow 64);
     two_to_128 \<leftarrow> em_field_const (two_pow 128);
     (bytes, limbs) \<leftarrow> decompose_bytes v two_to_8 flag;
     hi_upper \<leftarrow> em_mul (limbs ! 0) two_to_64;
     hi \<leftarrow> em_add hi_upper (limbs ! 1);
     lo_upper \<leftarrow> em_mul (limbs ! 2) two_to_64;
     lo \<leftarrow> em_add lo_upper (limbs ! 3);
     borrow_wit \<leftarrow> borrow_of (limbs ! 2) (limbs ! 3);
     borrow_shift \<leftarrow> em_mul borrow_wit two_to_128;
     tmp1 \<leftarrow> em_sub modulus_lo_m1 lo;
     result_lo \<leftarrow> em_add tmp1 borrow_shift;
     tmp3 \<leftarrow> em_sub modulus_hi hi;
     result_hi \<leftarrow> em_sub tmp3 borrow_wit;
     em_rangecheck result_hi 128;
     em_rangecheck result_lo 128;
     return bytes }"

definition split_partial_field_byte :: "value_id \<Rightarrow> nat \<Rightarrow> value_id \<Rightarrow> ('f::field, value_id) emits" where
  "split_partial_field_byte byte_wit lo_size flag = do {
     let hi_size = 8 - lo_size;
     two_to_lo \<leftarrow> em_field_const (of_nat (2 ^ lo_size));
     byte_pure \<leftarrow> em_value_of byte_wit;
     byte_u8 \<leftarrow> em_cast_to (CastU 8) byte_pure;
     divisor \<leftarrow> em_u_const 8 (push_bit lo_size 1);
     hi_hint_u8 \<leftarrow> em_div byte_u8 divisor;
     hi_hint \<leftarrow> em_cast_to_field hi_hint_u8;
     hi_wit \<leftarrow> em_write_witness hi_hint;
     hi_bound \<leftarrow> em_field_const (of_nat (2 ^ hi_size - 1));
     hi_gap \<leftarrow> em_sub hi_bound hi_wit;
     em_lookup_rngchk_8 hi_gap flag;
     hi_shifted \<leftarrow> em_mul hi_wit two_to_lo;
     lo \<leftarrow> em_sub byte_wit hi_shifted;
     lo_bound \<leftarrow> em_field_const (of_nat (2 ^ lo_size - 1));
     lo_gap \<leftarrow> em_sub lo_bound lo;
     em_lookup_rngchk_8 lo_gap flag;
     return lo }"

definition low_bits_step ::
  "value_id \<Rightarrow> value_id \<Rightarrow> nat \<Rightarrow> nat \<times> value_id \<Rightarrow> value_id \<Rightarrow> ('f::field, value_id) emits" where
  "low_bits_step two_to_8 flag bits ib v = do {
     elem \<leftarrow> (if fst ib = first_byte bits \<and> bits mod 8 > 0 then split_partial_field_byte (snd ib) (bits mod 8) flag
       else return (snd ib));
     shifted \<leftarrow> em_mul v two_to_8;
     em_add shifted elem }"

definition lower_field_low_bits_from_bytes :: "value_id list \<Rightarrow> nat \<Rightarrow> value_id \<Rightarrow> ('f::field, value_id) emits" where
  "lower_field_low_bits_from_bytes bytes bits flag = (if bits = 0 then em_field_const 0
     else do {
       two_to_8 \<leftarrow> em_field_const (of_nat 256);
       v \<leftarrow> em_field_const 0;
       em_fold (low_bits_step two_to_8 flag bits) (drop (first_byte bits) (enumerate 0 bytes)) v })"

definition lower_field_bit_range_from_bytes ::
  "value_id list \<Rightarrow> nat \<Rightarrow> nat \<Rightarrow> value_id \<Rightarrow> ('f::field, value_id) emits" where
  "lower_field_bit_range_from_bytes bytes offset width flag = do {
     low_end \<leftarrow> lower_field_low_bits_from_bytes bytes (offset + width) flag;
     low_start \<leftarrow> lower_field_low_bits_from_bytes bytes offset flag;
     selected_shifted \<leftarrow> em_sub low_end low_start;
     divisor \<leftarrow> em_field_const (two_pow offset);
     em_div selected_shifted divisor }"

definition lower_witness_field_bit_range :: "value_id \<Rightarrow> value_id \<Rightarrow> nat \<Rightarrow> nat \<Rightarrow> ('f::field, unit) emits option" where
  "lower_witness_field_bit_range result v offset width = do {
     ensure (offset + width \<le> 254);
     Some (do {
       flag \<leftarrow> em_field_const 1;
       bytes \<leftarrow> decompose_canonical_field_bytes v flag;
       selected \<leftarrow> lower_field_bit_range_from_bytes bytes offset width flag;
       em_emit (OpCast result selected CastField) }) }"

subsection \<open>The rule\<close>

definition lower_bit_range_op ::
  "lowering_context \<Rightarrow> value_id \<Rightarrow> value_id \<Rightarrow> nat \<Rightarrow> nat \<Rightarrow> ('f::field, unit) emits option" where
  "lower_bit_range_op ctx result v offset width = do {
     ensure (width > 0);
     value_type \<leftarrow> lc_types ctx v;
     source_bits \<leftarrow> get_bit_size value_type;
     ensure (offset + width \<le> source_bits);
     if is_witness_of value_type then
       if is_field (strip_witness value_type) then lower_witness_field_bit_range result v offset width
       else lower_witness_bit_range ctx result v offset width
     else lower_pure_bit_range ctx result v offset width }"

definition lower_bit_range :: "'f::field rule" where
  "lower_bit_range ctx i = (case i of
     OpBitRange result v offset width \<Rightarrow> lowered (lower_bit_range_op ctx result v offset width)
   | _ \<Rightarrow> Some (return False))"

subsection \<open>What the parts append\<close>

lemma appends_fold [appends_intros]: "(\<And>x s. appends (F x s)) \<Longrightarrow> appends (em_fold F xs s)"
  by (induction xs arbitrary: s) (simp_all add: appends_intros)

lemma appends_bit_range_parts [appends_intros]:
  "appends (lower_pure_byte_low_bits v n)" "appends (pure_byte_step v w n i r)" "appends (lower_pure_field_low_bits v n)"
  "appends (lower_pure_int_bit_range_value n k m v)" "appends (borrow_of v w)" "appends (byte_step v w f i st)"
  "appends (decompose_bytes v w f)" "appends (decompose_canonical_field_bytes v f)" "appends (split_partial_field_byte v n f)"
  "appends (low_bits_step w f n ib v)" "appends (lower_field_low_bits_from_bytes bytes n f)"
  "appends (lower_field_bit_range_from_bytes bytes offset width f)" "appends (reconstruct low r high offset width)"
  unfolding lower_pure_byte_low_bits_def pure_byte_step_def lower_pure_field_low_bits_def
    lower_pure_int_bit_range_value_def borrow_of_def byte_step_def decompose_bytes_def decompose_canonical_field_bytes_def
    split_partial_field_byte_def low_bits_step_def lower_field_low_bits_from_bytes_def
    lower_field_bit_range_from_bytes_def reconstruct_def Let_def
  by (intro appends_intros)+

lemma pure_bit_range_appends: "lower_pure_bit_range_value t offset width = Some h \<Longrightarrow> appends (h v)"
  unfolding lower_pure_bit_range_value_def lower_pure_field_bit_range_value_def
  by (auto simp: bind_Some_iff split: ty.splits if_splits intro!: appends_intros)

lemma optional_hint_appends: "optional_hint t offset width = Some h \<Longrightarrow> appends (h v)"
  by (auto simp: optional_hint_def appends_return pure_bit_range_appends split: if_splits)

lemma write_optional_part_appends: "(\<And>v. appends (h v)) \<Longrightarrow> appends (write_optional_part h v n)"
  unfolding write_optional_part_def write_part_def by (intro appends_intros)

lemma witness_bit_range_appends: "lower_witness_bit_range ctx result v offset width = Some M \<Longrightarrow> appends M"
  unfolding lower_witness_bit_range_def Let_def
  by (auto simp: bind_Some_iff intro!: appends_intros write_optional_part_appends
    intro: pure_bit_range_appends optional_hint_appends)

lemma lower_bit_range_op_appends: "lower_bit_range_op ctx result v offset width = Some M \<Longrightarrow> appends M"
  unfolding lower_bit_range_op_def lower_pure_bit_range_def lower_witness_field_bit_range_def
  by (auto simp: bind_Some_iff split: if_splits intro!: appends_intros intro: pure_bit_range_appends witness_bit_range_appends)

lemma lower_bit_range_appends: "lower_bit_range ctx i = Some M \<Longrightarrow> appends M"
  by (cases i) (auto simp: lower_bit_range_def lowered_Some appends_return intro!: appends_intros lower_bit_range_op_appends)

subsection \<open>Rules\<close>

lemma emitting_any: "(\<And>r. Q r) \<Longrightarrow> emitting ft types e M Q"
  by (simp add: emitting_def)

text \<open>An invariant of a loop, stated of the elements it has dealt with.\<close>

lemma emitting_fold_from:
  assumes "\<And>x s. appends (F x s)"
    and "\<And>done x rest s. xs = done @ x # rest \<Longrightarrow> P done s \<Longrightarrow> emitting ft types e (F x s) (P (done @ [x]))"
  shows "xs = done @ ys \<Longrightarrow> P done s \<Longrightarrow> emitting ft types e (em_fold F ys s) (P xs)"
proof (induction ys arbitrary: "done" s)
  case (Cons y ys)
  have "emitting ft types e (F y s) (P (done @ [y]))" using assms(2) Cons.prems by simp
  then have "emitting ft types e (F y s) (\<lambda>t. emitting ft types e (em_fold F ys t) (P xs))"
    by (rule emitting_weaken) (use Cons.IH [of "done @ [y]"] Cons.prems(1) in simp)
  then show ?case by (auto intro!: emitting_bind appends_fold assms(1))
qed (simp add: emitting_return)

lemma emitting_fold:
  assumes "\<And>x s. appends (F x s)"
    "\<And>done x rest s. xs = done @ x # rest \<Longrightarrow> P done s \<Longrightarrow> emitting ft types e (F x s) (P (done @ [x]))"
    "P [] s" "\<And>s. P xs s \<Longrightarrow> Q s"
  shows "emitting ft types e (em_fold F xs s) Q"
  using emitting_weaken [OF emitting_fold_from [of F xs P ft types e "[]" xs, OF assms(1,2)] assms(4)] assms(3) by simp

subsection \<open>Integers\<close>

lemma bit_mask_number:
  assumes "bit_mask n offset width = Some k"
  shows "unat k = 2 ^ offset * (2 ^ width - 1) \<and> offset + width \<le> n \<and> n \<le> 128 \<and> 0 < width"
proof -
  have c: "n \<le> 128" "0 < width" "offset + width \<le> n" "k = (if width = 128 then - 1 else push_bit offset (push_bit width 1 - 1))"
    using assms by (auto simp: bit_mask_def split: if_splits)
  have "k = push_bit offset (mask width)"
  proof (cases "width = 128")
    case True
    then have "offset = 0" "k = - 1" using c by simp_all
    then show ?thesis by (simp add: True mask_eq_exp_minus_1)
  qed (use c in \<open>simp add: mask_eq_exp_minus_1 push_bit_of_1\<close>)
  also have "\<dots> = of_nat (2 ^ offset * (2 ^ width - 1))"
    by (simp add: push_bit_eq_mult mask_eq_exp_minus_1 of_nat_diff)
  finally have "unat k = 2 ^ offset * (2 ^ width - 1) mod 2 ^ 128" by (simp only: unat_of_nat) simp
  moreover have "(2 :: nat) ^ offset * (2 ^ width - 1) < 2 ^ 128"
  proof -
    have "(2 :: nat) ^ offset * (2 ^ width - 1) < 2 ^ offset * 2 ^ width" by simp
    also have "\<dots> \<le> 2 ^ 128" unfolding power_add [symmetric] using c by (intro power_increasing) simp_all
    finally show ?thesis .
  qed
  ultimately show ?thesis using c by simp
qed

lemma shift_number: "n < 128 \<Longrightarrow> unat (push_bit n 1 :: u128) = 2 ^ n"
proof -
  assume "n < 128"
  then have "(2 :: nat) ^ n < 2 ^ 128" by (rule power_strict_increasing) simp
  moreover have "(push_bit n 1 :: u128) = of_nat (2 ^ n)" by (simp add: push_bit_of_1)
  ultimately show ?thesis by (simp only: unat_of_nat) simp
qed

lemma masked_bits: "(x AND 2 ^ offset * (2 ^ width - 1)) div 2 ^ offset = x div 2 ^ offset mod (2 ^ width :: nat)"
proof -
  have "x AND 2 ^ offset * (2 ^ width - 1) = x AND push_bit offset (mask width)"
    by (simp add: push_bit_eq_mult mask_eq_exp_minus_1 mult.commute)
  moreover have "drop_bit offset (x AND push_bit offset (mask width)) = drop_bit offset x AND mask width"
    by (simp add: drop_bit_push_bit)
  ultimately show ?thesis by (simp add: drop_bit_eq_div take_bit_eq_mask [symmetric] take_bit_eq_mod)
qed

lemma emit_pure_int_bit_range:
  assumes "bn254_like TYPE('f::field)" "bit_mask n offset width = Some k"
    "\<And>r. (\<forall>x. num n (e v) x \<longrightarrow> e r = of_nat (x div 2 ^ offset mod 2 ^ width)) \<Longrightarrow> Q r"
  shows "emitting ft types (e :: 'f valuation) (lower_pure_int_bit_range_value n k offset v) Q"
proof -
  note k = bit_mask_number [OF assms(2)]
  have small: "(2 :: nat) ^ offset * (2 ^ width - 1) < 2 ^ n" "(2 :: nat) ^ offset < 2 ^ n"
  proof -
    have "(2 :: nat) ^ offset * (2 ^ width - 1) < 2 ^ offset * 2 ^ width" by simp
    also have "\<dots> \<le> 2 ^ n" unfolding power_add [symmetric] using k by (intro power_increasing) simp_all
    finally show "(2 :: nat) ^ offset * (2 ^ width - 1) < 2 ^ n" .
  qed (use k in simp)
  have bits: "e r = of_nat (x div 2 ^ offset mod 2 ^ width)"
    if x: "num n (e u) x" and c: "e m = of_nat (unat k)" "e d = of_nat (unat (push_bit offset 1 :: u128))"
      and land: "arith_holds (Some (TU n)) BopAnd (e u) (e m) (e w)"
      and quot: "arith_holds (Some (TU n)) BopDiv (e w) (e d) (e r)" for u m d w r x
  proof -
    let ?m = "2 ^ offset * (2 ^ width - 1) :: nat"
    have "num n (e m) ?m" using c(1) k small by (simp add: num_def)
    then have "e w = of_nat (x AND ?m)" using land x by (auto simp: arith_holds_def)
    moreover have "x AND ?m < 2 ^ n" using x bit_op_bound [of x n ?m BopAnd] small by (simp add: num_def)
    ultimately have "num n (e w) (x AND ?m)" by (simp add: num_def)
    moreover have "e d = of_nat (2 ^ offset)" unfolding c(2) using k by (subst shift_number) simp_all
    then have "num n (e d) (2 ^ offset)" using small(2) by (simp add: num_def)
    ultimately have "\<exists>z. checked_u n BopDiv (x AND ?m) (2 ^ offset) = Some z \<and> e r = of_nat z"
      using quot unfolding arith_holds_def option.case ty.case right_operand_def by (metis binary_arith_op_kind.distinct)
    then show ?thesis using masked_bits [of x offset width] by simp
  qed
  show ?thesis unfolding lower_pure_int_bit_range_value_def em_and_def em_div_def
    by (intro emitting_bind emit_casts emit_consts emit_int_arith appends_intros) (auto intro!: assms(3) bits)
qed

text \<open>The three parts of a witness integer.\<close>

definition part_ok :: "value_types \<Rightarrow> 'f::field valuation \<Rightarrow> nat \<Rightarrow> value_id option \<Rightarrow> bool" where
  "part_ok types e n part \<longleftrightarrow> (case part of
     None \<Rightarrow> n = 0 | Some v \<Rightarrow> ty_of types v = Some TField \<and> (\<exists>x. num n (e v) x))"

definition part_value :: "'f::field valuation \<Rightarrow> value_id option \<Rightarrow> 'f" where
  "part_value e part = (case part of None \<Rightarrow> 0 | Some v \<Rightarrow> e v)"

definition part_typed :: "value_types \<Rightarrow> value_id option \<Rightarrow> bool" where
  "part_typed types part \<longleftrightarrow> (case part of None \<Rightarrow> True | Some v \<Rightarrow> ty_of types v = Some TField)"

lemma part_ok_typed: "part_ok types e n part \<Longrightarrow> part_typed types part"
  by (simp add: part_ok_def part_typed_def split: option.splits)

lemma part_number: "part_ok types e n part \<Longrightarrow> \<exists>x. num n (part_value e part) x"
  by (cases part) (auto simp: part_ok_def part_value_def num_def)

lemma emit_optional_part [emit_rules]:
  assumes "\<And>v. appends (h v)" "\<And>part. part_ok types e n part \<Longrightarrow> Q part"
  shows "emitting ft types e (write_optional_part h v n) Q"
proof (cases "n = 0")
  case False
  show ?thesis unfolding write_optional_part_def write_part_def if_not_P [OF False]
    by (intro emitting_bind emitting_any [where M = "h v"] emit_rules appends_intros assms)
      (simp add: part_ok_def)
qed (simp add: write_optional_part_def emitting_return assms(2) part_ok_def)

lemma emit_reconstruct [emit_rules]:
  assumes "\<And>v. (part_typed types low \<and> part_typed types high \<and> ty_of types r = Some TField \<longrightarrow>
      e v = part_value e low + e r * 2 ^ offset + part_value e high * 2 ^ (offset + width)) \<Longrightarrow> Q v"
  shows "emitting ft types e (reconstruct low r high offset width) Q"
proof -
  have "emitting ft types e (case low of Some v \<Rightarrow> return v | None \<Rightarrow> em_field_const 0)
    (\<lambda>v. (part_typed types low \<longrightarrow> ty_of types v = Some TField) \<and> e v = part_value e low)"
    by (cases low) (auto simp: part_typed_def part_value_def intro!: emit_rules)
  moreover have "emitting ft types e (do {
       result_shift \<leftarrow> em_field_const (two_pow offset);
       result_shifted \<leftarrow> em_mul r result_shift;
       reconstructed \<leftarrow> em_add l result_shifted;
       (case high of
          Some v \<Rightarrow> do {
            high_shift \<leftarrow> em_field_const (two_pow (offset + width));
            high_shifted \<leftarrow> em_mul v high_shift;
            em_add reconstructed high_shifted }
        | None \<Rightarrow> return reconstructed) }) Q"
    if "(part_typed types low \<longrightarrow> ty_of types l = Some TField) \<and> e l = part_value e low" for l
    by (intro emitting_bind emit_rules appends_intros; rule assms)
      (use that in \<open>simp_all add: part_typed_def two_pow_def part_value_def\<close>)
  ultimately show ?thesis unfolding reconstruct_def
    by (intro emitting_bind appends_intros) (erule emitting_weaken, blast)
qed

lemma parts_gadget:
  assumes "bn254_like TYPE('f::field)" "num n (v :: 'f) x" "n \<le> 251" "offset + width \<le> n"
    "num offset l a" "num width r b" "num (n - offset - width) h c"
    "v - (l + r * 2 ^ offset + h * 2 ^ (offset + width)) = 0"
  shows "r = of_nat (x div 2 ^ offset mod 2 ^ width)"
proof -
  let ?y = "a + 2 ^ offset * (b + 2 ^ width * c)"
  have bounds: "a < 2 ^ offset" "b < 2 ^ width" "c < 2 ^ (n - offset - width)" using assms(5-7) by (simp_all add: num_def)
  have push: "u + 2 ^ k * w < 2 ^ (k + m)" if "u < 2 ^ k" "w < (2 :: nat) ^ m" for u w k m
  proof -
    have "u + 2 ^ k * w < 2 ^ k * (w + 1)" using that(1) by simp
    also have "\<dots> \<le> 2 ^ k * 2 ^ m" using that(2) by (intro mult_le_mono) simp_all
    finally show ?thesis by (simp add: power_add)
  qed
  have "?y < 2 ^ (offset + (width + (n - offset - width)))" using push bounds by blast
  then have "?y < 2 ^ n" using assms(4) by simp
  moreover have "(of_nat x :: 'f) = of_nat ?y"
    using assms(2,5-8) by (simp add: num_def power_add algebra_simps)
  ultimately have "x = ?y"
    using of_nat_eqD [OF bn254_inj [OF assms(1), of n]] assms(2,3) by (simp add: num_def)
  then have "x div 2 ^ offset mod 2 ^ width = b" using bounds by simp
  then show ?thesis using assms(6) by (simp add: num_def)
qed

lemma lower_witness_bit_range_sound:
  fixes e :: "'f::field valuation"
  assumes "bn254_like TYPE('f)" "lower_witness_bit_range ctx result v offset width = Some M"
    "lc_types ctx v = Some t" "strip_witness t = TU n \<or> strip_witness t = TI n" "n \<le> 251" "offset + width \<le> n"
  shows "emitting ft types e M (\<lambda>_. \<forall>x. num n (e v) x \<longrightarrow> e result = of_nat (x div 2 ^ offset mod 2 ^ width))"
proof -
  have size: "get_bit_size t = Some n" using assms(4) by (cases t) auto
  obtain h lh hh target where h: "lower_pure_bit_range_value (strip_witness t) offset width = Some h"
    "optional_hint (strip_witness t) 0 offset = Some lh" "optional_hint (strip_witness t) (offset + width) (n - offset - width) = Some hh"
    "M = do {
       pure_value \<leftarrow> em_value_of v;
       hint \<leftarrow> h pure_value;
       hint_field \<leftarrow> em_cast_to_field hint;
       result_witness \<leftarrow> em_write_witness hint_field;
       em_emit (OpCast result result_witness target);
       result_field \<leftarrow> em_cast_to_field result;
       em_rangecheck result_field width;
       low \<leftarrow> write_optional_part lh pure_value offset;
       high \<leftarrow> write_optional_part hh pure_value (n - offset - width);
       reconstructed \<leftarrow> reconstruct low result_field high offset width;
       value_field \<leftarrow> em_cast_to_field v;
       diff \<leftarrow> em_sub value_field reconstructed;
       zero \<leftarrow> em_field_const 0;
       flag \<leftarrow> em_field_const 1;
       em_constrain flag diff zero }"
    using assms(2) by (auto simp: lower_witness_bit_range_def assms(3) size bind_Some_iff Let_def)
  have a: "\<And>v. appends (h v)" "\<And>v. appends (lh v)" "\<And>v. appends (hh v)"
    using pure_bit_range_appends [OF h(1)] optional_hint_appends [OF h(2)] optional_hint_appends [OF h(3)] .
  show ?thesis unfolding h(4)
  proof (intro emitting_bind emitting_any [where M = "h u" for u] emit_rules appends_intros write_optional_part_appends a,
      goal_cases)
    case (1 p1 h1 h2 w rf low high rec vf diff zero flag)
    obtain a b c where abc: "num offset (part_value e low) a" "num width (e rf) b" "num (n - offset - width) (part_value e high) c"
      using 1(7-9) part_number by blast
    have "e rec = part_value e low + e rf * 2 ^ offset + part_value e high * 2 ^ (offset + width)"
      using 1(5,8-10) part_ok_typed by blast
    moreover have "e diff = 0" "e diff = e v - e rec" using 1(11-20) by auto
    ultimately have "e v - (part_value e low + e rf * 2 ^ offset + part_value e high * 2 ^ (offset + width)) = 0" by simp
    from parts_gadget [OF assms(1) _ assms(5,6) abc this] show ?case using 1(6) by simp
  qed
qed

subsection \<open>Field elements\<close>

text \<open>The number that a list of bytes is, the most significant byte first.\<close>

definition val256 :: "nat list \<Rightarrow> nat" where
  "val256 = foldl (\<lambda>a d. 256 * a + d) 0"

lemma val256_simps [simp]: "val256 [] = 0" "val256 (ns @ [d]) = 256 * val256 ns + d"
  by (simp_all add: val256_def)

lemma val256_append: "val256 (ms @ ns) = val256 ms * 256 ^ length ns + val256 ns"
  by (induction ns rule: rev_induct) (simp_all flip: append_assoc add: algebra_simps)

lemma val256_bound: "(\<forall>d \<in> set ns. d < 256) \<Longrightarrow> val256 ns < 256 ^ length ns"
  by (induction ns rule: rev_induct) auto

lemma val256_drop:
  assumes "\<forall>d \<in> set ns. d < 256" "k \<le> length ns"
  shows "val256 (drop (length ns - k) ns) = val256 ns mod 256 ^ k"
proof -
  let ?l = "take (length ns - k) ns" and ?r = "drop (length ns - k) ns"
  have "val256 ns = val256 ?l * 256 ^ k + val256 ?r" using val256_append [of ?l ?r] assms(2) by simp
  moreover have "val256 ?r < 256 ^ k" using val256_bound [of ?r] assms by (simp add: in_set_dropD)
  ultimately show ?thesis by simp
qed

definition limb :: "nat \<Rightarrow> nat list \<Rightarrow> nat list" where
  "limb l ns = take 8 (drop (8 * l) ns)"

lemma limb_snoc: "limb l (ns @ [d]) = (if l = length ns div 8 then limb l ns @ [d] else limb l ns)"
proof -
  consider "l < length ns div 8" | "l = length ns div 8" | "length ns div 8 < l" by linarith
  then show ?thesis
  proof cases
    case 1
    then have "8 * l + 8 \<le> length ns" by linarith
    then show ?thesis using 1 by (simp add: limb_def)
  next
    case 2
    then have "8 * l \<le> length ns" "length ns < 8 * l + 8" by linarith+
    then show ?thesis using 2 by (simp add: limb_def)
  next
    case 3
    then have "length ns < 8 * l" by linarith
    then show ?thesis using 3 by (simp add: limb_def)
  qed
qed

lemma limb_bound:
  assumes "\<forall>d \<in> set ns. d < 256"
  shows "val256 (limb l ns) < 2 ^ 64"
proof -
  have "val256 (limb l ns) < 256 ^ length (limb l ns)"
    using assms by (intro val256_bound) (auto simp: limb_def dest: in_set_takeD in_set_dropD)
  also have "\<dots> \<le> 256 ^ 8" by (intro power_increasing) (simp_all add: limb_def)
  finally show ?thesis by simp
qed

lemma four_limbs:
  assumes "length ns = 32"
  shows "val256 ns = ((val256 (limb 0 ns) * 2 ^ 64 + val256 (limb 1 ns)) * 2 ^ 64 + val256 (limb 2 ns)) * 2 ^ 64 + val256 (limb 3 ns)"
proof -
  have "ns = ((limb 0 ns @ limb 1 ns) @ limb 2 ns) @ limb 3 ns"
    using assms by (intro nth_equalityI) (auto simp: limb_def nth_append)
  then have "val256 ns = val256 (((limb 0 ns @ limb 1 ns) @ limb 2 ns) @ limb 3 ns)" by simp
  moreover have "length (limb 1 ns) = 8" "length (limb 2 ns) = 8" "length (limb 3 ns) = 8" using assms by (simp_all add: limb_def)
  ultimately show ?thesis unfolding val256_append by simp
qed

text \<open>The loop over the bytes: the bytes, the limbs and the sum are those of the same numbers.\<close>

definition bytes_ok :: "'f::field valuation \<Rightarrow> nat list \<Rightarrow> value_id list \<Rightarrow> bool" where
  "bytes_ok e ns bytes \<longleftrightarrow> (\<forall>d \<in> set ns. d < 256) \<and> list_all2 (\<lambda>v d. e v = of_nat d) bytes ns"

definition limbs_ok :: "value_types \<Rightarrow> 'f::field valuation \<Rightarrow> nat list \<Rightarrow> value_id list \<Rightarrow> bool" where
  "limbs_ok types e ns limbs \<longleftrightarrow> length limbs = 4 \<and>
     (\<forall>l < 4. ty_of types (limbs ! l) = Some TField \<and> e (limbs ! l) = of_nat (val256 (limb l ns)))"

definition byte_state_ok :: "value_types \<Rightarrow> 'f::field valuation \<Rightarrow> nat list \<Rightarrow> byte_state \<Rightarrow> bool" where
  "byte_state_ok types e ns st \<longleftrightarrow> bytes_ok e ns (bs_bytes st) \<and> limbs_ok types e ns (bs_limbs st) \<and>
     ty_of types (bs_sum st) = Some TField \<and> e (bs_sum st) = of_nat (val256 ns)"

lemma bytes_ok_snoc: "bytes_ok e ns bytes \<Longrightarrow> num 8 (e v) d \<Longrightarrow> bytes_ok e (ns @ [d]) (bytes @ [v])"
  by (auto simp: bytes_ok_def num_def intro: list_all2_appendI)

lemma limbs_ok_snoc:
  assumes "limbs_ok types e ns limbs" "length ns < 32" "ty_of types v = Some TField"
    "e v = e (limbs ! (length ns div 8)) * 256 + of_nat d"
  shows "limbs_ok types e (ns @ [d]) (limbs[length ns div 8 := v])"
proof -
  have "length ns div 8 < 4" using assms(2) by linarith
  then show ?thesis using assms by (auto simp: limbs_ok_def limb_snoc nth_list_update mult.commute)
qed

lemma emit_hints [emit_rules]:
  "(\<And>r. Q r) \<Longrightarrow> emitting ft types e (em_array_get v w) Q" "(\<And>r. Q r) \<Longrightarrow> emitting ft types e (em_to_radix v radix en n) Q"
  by (rule emitting_any, assumption)+

lemma emit_byte_step:
  assumes "byte_state_ok types e ns st" "length ns = i" "i < 32" "e flag = 1" "e two_to_8 = 256"
    "\<And>d st'. byte_state_ok types e (ns @ [d]) st' \<Longrightarrow> Q st'"
  shows "emitting ft types e (byte_step bytes_arr two_to_8 flag i st) Q"
  unfolding byte_step_def
proof (intro emitting_bind emit_rules appends_intros, goal_cases)
  case (1 idx byte bf w sl l sf s)
  then obtain d where d: "num 8 (e w) d" using assms(4) by blast
  have i: "i div 8 < 4" using assms(3) by linarith
  have l: "ty_of types l = Some TField" "e l = e (bs_limbs st ! (length ns div 8)) * 256 + of_nat d"
    and s: "ty_of types s = Some TField" "e s = of_nat (val256 (ns @ [d]))"
    using 1 assms(1,2,5) i d by (auto simp: byte_state_ok_def limbs_ok_def num_def mult.commute)
  show ?case
    using assms(1) limbs_ok_snoc [OF _ _ l] assms(2,3) s bytes_ok_snoc [of e _ _ w d] d
    by (intro assms(6) [of d]) (auto simp: byte_state_ok_def)
qed

lemma emit_decompose_bytes:
  assumes "e flag = 1" "e two_to_8 = 256" "ty_of types v = Some TField"
    "\<And>bytes limbs ns. length ns = 32 \<Longrightarrow> bytes_ok e ns bytes \<Longrightarrow> limbs_ok types e ns limbs \<Longrightarrow> e v = of_nat (val256 ns) \<Longrightarrow>
       Q (bytes, limbs)"
  shows "emitting ft types e (decompose_bytes v two_to_8 flag) Q"
proof -
  let ?P = "\<lambda>done st. \<exists>ns. length ns = length done \<and> byte_state_ok types e ns st"
  have loop: "emitting ft types e (em_fold (byte_step arr two_to_8 flag) [0..<31] \<lparr>bs_bytes = [], bs_limbs = replicate 4 zero, bs_sum = zero\<rparr>)
      (\<lambda>st. \<exists>ns. length ns = 31 \<and> byte_state_ok types e ns st)"
    if "ty_of types zero = Some TField" "e zero = 0" for arr zero
  proof (rule emitting_fold [where P = ?P])
    fix "done" i rest st
    assume i: "[0..<31] = done @ i # rest" and "?P done st"
    then obtain ns where ns: "length ns = length done" "byte_state_ok types e ns st" by blast
    have len: "length done < 31" using arg_cong [OF i, of length] by simp
    then have "i = length done" using arg_cong [OF i, of "\<lambda>xs. xs ! length done"] by simp
    then show "emitting ft types e (byte_step arr two_to_8 flag i st) (?P (done @ [i]))"
      using ns len assms(1,2) by (intro emit_byte_step [OF ns(2)]) (auto intro!: exI)
  next
    show "?P [] \<lparr>bs_bytes = [], bs_limbs = replicate 4 zero, bs_sum = zero\<rparr>"
      using that by (auto simp: byte_state_ok_def bytes_ok_def limbs_ok_def limb_def)
  qed (simp_all add: appends_intros)
  show ?thesis unfolding decompose_bytes_def
  proof (intro emitting_bind emit_consts emit_casts(4) emit_hints appends_intros emitting_weaken [OF loop], assumption, assumption,
      elim exE conjE, intro emitting_bind emit_rules appends_intros, goal_cases)
    case (1 zero p arr st ns sh lsb sl l)
    then obtain d where d: "num 8 (e lsb) d" using assms(1) by blast
    have three: "length ns div 8 = 3" using 1(4) by simp
    have l: "ty_of types l = Some TField" "e l = e (bs_limbs st ! (length ns div 8)) * 256 + of_nat d"
      using 1 assms(2) d three by (auto simp: byte_state_ok_def limbs_ok_def num_def mult.commute)
    have "e v = of_nat (val256 (ns @ [d]))"
      using 1 assms(2,3) d by (auto simp: byte_state_ok_def num_def diff_eq_eq mult.commute add.commute)
    then show ?case
      using 1(4,5) limbs_ok_snoc [OF _ _ l] three bytes_ok_snoc [of e _ _ lsb d] d
      by (intro assms(4) [of "ns @ [d]"]) (auto simp: byte_state_ok_def)
  qed
qed

text \<open>The comparison with the order: the bytes are those of a number below it.\<close>

lemma emit_borrow [emit_rules]:
  "(\<And>r. ty_of types r = Some TField \<Longrightarrow> e r * e r = e r \<Longrightarrow> Q r) \<Longrightarrow> emitting ft types e (borrow_of v w) Q"
  unfolding borrow_of_def by (intro emitting_bind emit_rules appends_intros) auto

lemma canonical_gadget:
  assumes "bn254_like TYPE('f::field)" "b * b = (b :: 'f)"
    "num 128 (of_nat 0x30644e72e131a029b85045b68181585d - (of_nat l0 * 2 ^ 64 + of_nat l1) - b :: 'f) k"
    "num 128 (of_nat 0x2833e84879b9709143e1f593f0000000 - (of_nat l2 * 2 ^ 64 + of_nat l3) + b * 2 ^ 128 :: 'f) m"
    "l0 < 2 ^ 64" "l1 < 2 ^ 64" "l2 < 2 ^ 64" "l3 < 2 ^ 64"
  shows "int (((l0 * 2 ^ 64 + l1) * 2 ^ 64 + l2) * 2 ^ 64 + l3) < bn254_modulus"
proof -
  have "b = 0 \<or> b = 1" using assms(2) by (metis mult_cancel_left2)
  then obtain c where c: "b = of_int c" "c = 0 \<or> c = 1" by (metis of_int_0 of_int_1)
  have "int l0 < 2 ^ 64" "int l1 < 2 ^ 64" "int l2 < 2 ^ 64" "int l3 < 2 ^ 64" using assms(5-8) by simp_all
  moreover have "int k < 2 ^ 128" "int m < 2 ^ 128" using assms(3,4) by (simp_all add: num_def)
  moreover note bounds = calculation
  have eq: "x = y" if "(of_int x :: 'f) = of_int y" "\<bar>x - y\<bar> < 2 ^ 253" for x y
    using bn254_eq [OF assms(1) that(1)] that(2) bn254_bound [of 253] by simp
  have "(of_int (0x30644e72e131a029b85045b68181585d - (int l0 * 2 ^ 64 + int l1) - c) :: 'f) = of_int (int k)"
    using assms(3) by (simp add: num_def c)
  then have hi: "0x30644e72e131a029b85045b68181585d - (int l0 * 2 ^ 64 + int l1) - c = int k"
    by (rule eq) (use bounds c(2) in \<open>simp, linarith\<close>)
  have "(of_int (0x2833e84879b9709143e1f593f0000000 - (int l2 * 2 ^ 64 + int l3) + c * 2 ^ 128) :: 'f) = of_int (int m)"
    using assms(4) by (simp add: num_def c)
  then have lo: "0x2833e84879b9709143e1f593f0000000 - (int l2 * 2 ^ 64 + int l3) + c * 2 ^ 128 = int m"
    by (rule eq) (use bounds c(2) in \<open>simp, linarith\<close>)
  show ?thesis using hi lo by (simp add: bn254_modulus_def)
qed

lemma emit_canonical_bytes:
  assumes "bn254_like TYPE('f::field)" "e flag = 1" "ty_of types v = Some TField"
    "\<And>bytes ns. length ns = 32 \<Longrightarrow> bytes_ok e ns bytes \<Longrightarrow> e v = of_nat (val256 ns) \<Longrightarrow> int (val256 ns) < bn254_modulus \<Longrightarrow> Q bytes"
  shows "emitting ft types (e :: 'f valuation) (decompose_canonical_field_bytes v flag) Q"
  unfolding decompose_canonical_field_bytes_def
proof (intro emitting_bind emit_consts appends_intros emit_decompose_bytes emit_let_pair assms(2,3), simp, unfold fst_conv snd_conv,
    intro emitting_bind emit_rules appends_intros, goal_cases)
  case (1 mh ml t8 t64 t128 bytes limbs ns hu hi lu lo b bs t1 rl t3 rh)
  have limb: "ty_of types (limbs ! l) = Some TField \<and> e (limbs ! l) = of_nat (val256 (limb l ns))" if "l < 4" for l
    using 1(18) that by (simp add: limbs_ok_def)
  have d: "\<forall>d \<in> set ns. d < 256" using 1(17) by (simp add: bytes_ok_def)
  have p: "e t64 = 2 ^ 64" "e t128 = 2 ^ 128" using 1(12,15) by (simp_all only: two_pow_def)
  have hi: "ty_of types hi = Some TField" "e hi = of_nat (val256 (limb 0 ns)) * 2 ^ 64 + of_nat (val256 (limb 1 ns))"
    using 1(20,21) limb [of 0] limb [of 1] by (simp_all only: p)
  have lo: "ty_of types lo = Some TField" "e lo = of_nat (val256 (limb 2 ns)) * 2 ^ 64 + of_nat (val256 (limb 3 ns))"
    using 1(22,23) limb [of 2] limb [of 3] by (simp_all only: p)
  have rh: "e rh = of_nat 0x30644e72e131a029b85045b68181585d
      - (of_nat (val256 (limb 0 ns)) * 2 ^ 64 + of_nat (val256 (limb 1 ns))) - e b"
    using 1(2,3,29,30) by (simp only: hi)
  have rl: "e rl = of_nat 0x2833e84879b9709143e1f593f0000000
      - (of_nat (val256 (limb 2 ns)) * 2 ^ 64 + of_nat (val256 (limb 3 ns))) + e b * 2 ^ 128"
    using 1(5,6,24,26-28) by (simp only: lo p)
  obtain k m where "num 128 (e rh) k" "num 128 (e rl) m" using 1(31,32) by blast
  then have "int (val256 ns) < bn254_modulus"
    unfolding four_limbs [OF 1(16)] rh rl by (rule canonical_gadget [OF assms(1) 1(25)]) (rule limb_bound [OF d])+
  then show ?case using 1(16,17,19) by (intro assms(4))
qed

text \<open>The low bits, up to a byte.\<close>

lemma emit_low_bits:
  assumes "length ns = 32" "bytes_ok e ns bytes" "8 dvd bits" "bits \<le> 254"
    "\<And>r. ty_of types r = Some TField \<Longrightarrow> e r = of_nat (val256 ns mod 2 ^ bits) \<Longrightarrow> Q r"
  shows "emitting ft types e (lower_field_low_bits_from_bytes bytes bits flag) Q"
proof (cases "bits = 0")
  case True
  then show ?thesis
    by (auto simp: lower_field_low_bits_from_bytes_def intro!: emit_rules assms(5))
next
  case False
  obtain k where k: "bits = 8 * k" "k \<le> 31" using assms(3,4) by (auto elim!: dvdE)
  let ?s = "first_byte bits" and ?b = "drop (first_byte bits) bytes" and ?n = "drop (first_byte bits) ns"
  have s: "?s = 32 - k" and whole: "bits mod 8 = 0" using k by (simp_all add: first_byte_def)
  have len: "length bytes = 32" and b: "list_all2 (\<lambda>v d. e v = of_nat d) bytes ns" and d: "\<forall>d \<in> set ns. d < 256"
    using assms(1,2) by (auto simp: bytes_ok_def dest: list_all2_lengthD)
  let ?P = "\<lambda>done r. ty_of types r = Some TField \<and> e r = of_nat (val256 (take (length done) ?n))"
  have all: "val256 (take (length (drop ?s (enumerate 0 bytes))) ?n) = val256 ns mod 2 ^ bits"
    using val256_drop [OF d, of k] assms(1) k(2) len unfolding s by (simp add: k(1) power_mult)
  have loop: "emitting ft types e (em_fold (low_bits_step w flag bits) (drop ?s (enumerate 0 bytes)) v) Q"
    if "e w = 256" "ty_of types v = Some TField" "e v = 0" for w v
  proof (rule emitting_fold [where P = ?P])
    fix "done" x rest r
    assume x: "drop ?s (enumerate 0 bytes) = done @ x # rest" and r: "?P done r"
    have l: "length done < k" using arg_cong [OF x, of length] len k s by simp
    have "x = drop ?s (enumerate 0 bytes) ! length done" unfolding x by simp
    then have "e (snd x) = of_nat (?n ! length done)"
      using l k(2) len assms(1) list_all2_nthD [OF b] unfolding s by (simp add: nth_enumerate_eq)
    moreover have "take (Suc (length done)) ?n = take (length done) ?n @ [?n ! length done]"
      using l assms(1) k s by (intro take_Suc_conv_app_nth) simp
    ultimately show "emitting ft types e (low_bits_step w flag bits x r) (?P (done @ [x]))"
      unfolding low_bits_step_def whole
      by (simp only: less_irrefl simp_thms if_False, intro emitting_bind emit_rules appends_intros)
        (use r that(1) in \<open>simp add: mult.commute\<close>)
  next
    show "?P [] v" using that by simp
  next
    show "Q r" if "?P (drop ?s (enumerate 0 bytes)) r" for r
      using that unfolding all by (intro assms(5)) blast+
  qed (intro appends_intros)
  show ?thesis unfolding lower_field_low_bits_from_bytes_def if_not_P [OF False]
    by (intro emitting_bind emit_consts appends_intros loop) simp_all
qed

lemma emit_field_bit_range:
  assumes "bn254_like TYPE('f::field)" "length ns = 32" "bytes_ok e ns bytes" "8 dvd offset" "8 dvd width" "offset + width \<le> 254"
    "\<And>r. e r = of_nat (val256 ns div 2 ^ offset mod 2 ^ width) \<Longrightarrow> Q r"
  shows "emitting ft types (e :: 'f valuation) (lower_field_bit_range_from_bytes bytes offset width flag) Q"
proof -
  let ?N = "val256 ns"
  have "?N mod 2 ^ (offset + width) = 2 ^ offset * (?N div 2 ^ offset mod 2 ^ width) + ?N mod 2 ^ offset"
    by (simp add: power_add mod_mult2_eq)
  then have cut: "(of_nat (?N mod 2 ^ (offset + width)) - of_nat (?N mod 2 ^ offset) :: 'f)
      = of_nat (?N div 2 ^ offset mod 2 ^ width) * 2 ^ offset"
    by (simp only: of_nat_add of_nat_mult) (simp add: mult.commute)
  have "offset \<le> 253" using assms(4,6) by (elim dvdE) presburger
  then have "\<bar>(2 :: int) ^ offset - 0\<bar> < bn254_modulus" using bn254_bound by simp
  then have "(of_int (2 ^ offset) :: 'f) \<noteq> of_int 0" using bn254_eq [OF assms(1), of "2 ^ offset" 0] by fastforce
  then have nz: "(2 :: 'f) ^ offset \<noteq> 0" by simp
  show ?thesis unfolding lower_field_bit_range_from_bytes_def
    by (intro emitting_bind emit_low_bits [OF assms(2,3)] emit_rules appends_intros, (use assms(4-6) in simp_all)[4],
        rule assms(7)) (use cut nz in \<open>auto simp: two_pow_def\<close>)
qed

subsection \<open>The rule is sound\<close>

lemma lower_pure_bit_range_sound:
  fixes e :: "'f::field valuation"
  assumes "bn254_like TYPE('f)" "lower_pure_bit_range ctx result v offset width = Some M"
    "lc_types ctx v = Some t" "strip_witness t = TU n \<or> strip_witness t = TI n"
  shows "emitting ft types e M (\<lambda>_. \<forall>x. num n (e v) x \<longrightarrow> e result = of_nat (x div 2 ^ offset mod 2 ^ width))"
proof -
  obtain k target where k: "bit_mask n offset width = Some k"
    "M = do { extracted \<leftarrow> lower_pure_int_bit_range_value n k offset v; em_emit (OpCast result extracted target) }"
    using assms(2-4) by (auto simp: lower_pure_bit_range_def lower_pure_bit_range_value_def bind_Some_iff)
  show ?thesis unfolding k(2)
    by (intro emitting_bind emit_pure_int_bit_range [OF assms(1) k(1)] emit_rules appends_intros) simp
qed

lemma lower_witness_field_bit_range_sound:
  fixes e :: "'f::field valuation"
  assumes "bn254_like TYPE('f)" "lower_witness_field_bit_range result v offset width = Some M"
    "ty_of types v = Some TField" "8 dvd offset" "8 dvd width"
  shows "emitting ft types e M (\<lambda>_. \<forall>x. canonical (e v) x \<longrightarrow> e result = of_nat (x div 2 ^ offset mod 2 ^ width))"
proof -
  have M: "offset + width \<le> 254" "M = do {
       flag \<leftarrow> em_field_const 1;
       bytes \<leftarrow> decompose_canonical_field_bytes v flag;
       selected \<leftarrow> lower_field_bit_range_from_bytes bytes offset width flag;
       em_emit (OpCast result selected CastField) }"
    using assms(2) by (auto simp: lower_witness_field_bit_range_def split: if_splits)
  have "e result = of_nat (x div 2 ^ offset mod 2 ^ width)"
    if "e v = of_nat N" "int N < bn254_modulus" "e result = of_nat (N div 2 ^ offset mod 2 ^ width)" "canonical (e v) x" for N x
  proof -
    have "int x = int N" using that by (intro bn254_eq [OF assms(1)]) (auto simp: canonical_def)
    then show ?thesis using that(3) by simp
  qed
  note result = this
  show ?thesis unfolding M(2)
    by (intro emitting_bind emit_consts emit_canonical_bytes [OF assms(1) _ assms(3)]
      emit_field_bit_range [OF assms(1) _ _ assms(4,5) M(1)] emit_cast appends_intros, simp, assumption, assumption)
      (use result in metis)
qed

lemma lower_bit_range_op_sound:
  fixes e :: "'f::field valuation"
  assumes "bn254_like TYPE('f)" "ready ctx types e (OpBitRange result v offset width)"
    "lower_bit_range_op ctx result v offset width = Some M"
  shows "emitting ft types e M (\<lambda>_. sat types e (OpBitRange result v offset width))"
proof -
  note r = readyD [OF assms(2)]
  obtain t n where t: "lc_types ctx v = Some t" "get_bit_size t = Some n" "offset + width \<le> n"
    "(if is_witness_of t then
       if is_field (strip_witness t) then lower_witness_field_bit_range result v offset width
       else lower_witness_bit_range ctx result v offset width
     else lower_pure_bit_range ctx result v offset width) = Some M"
    using assms(3) by (auto simp: lower_bit_range_op_def bind_Some_iff split: if_splits)
  have types: "types v = Some t" "ty_of types v = Some (strip_witness t)" using r(1) t(1) by (auto simp: ty_of_def)
  have flat: "\<not> is_witness_of (strip_witness t)" using r(3) types(1) unfolding flat_types_def by blast
  have "get_bit_size (strip_witness t) = Some n" using t(2) by (cases t) simp_all
  then consider "strip_witness t = TField" | "strip_witness t = TU n \<or> strip_witness t = TI n"
    using flat by (cases "strip_witness t") (auto simp: is_witness_of_def)
  then show ?thesis
  proof cases
    case 1
    show ?thesis
    proof (cases "is_witness_of t")
      case True
      then have w: "t = TWitnessOf TField" using 1 by (cases t) (simp_all add: is_witness_of_def)
      have "lower_witness_field_bit_range result v offset width = Some M" using t(4) 1 True by (simp add: is_field_def)
      moreover have "8 dvd offset" "8 dvd width" using r(4) types(1) w by simp_all
      ultimately have "emitting ft types e M (\<lambda>_. \<forall>x. canonical (e v) x \<longrightarrow> e result = of_nat (x div 2 ^ offset mod 2 ^ width))"
        using types(2) 1 by (intro lower_witness_field_bit_range_sound [OF assms(1)]) simp_all
      then show ?thesis by (rule emitting_weaken) (simp add: types 1 on_bits_def)
    next
      case False
      then have "t \<noteq> TWitnessOf TField" by (auto simp: is_witness_of_def)
      then show ?thesis using types 1 by (intro emitting_any) (simp add: on_bits_def)
    qed
  next
    case 2
    have n: "n \<le> 251" using 2 r(2) types by (auto simp: in_range_def)
    have "emitting ft types e M (\<lambda>_. \<forall>x. num n (e v) x \<longrightarrow> e result = of_nat (x div 2 ^ offset mod 2 ^ width))"
    proof (cases "is_witness_of t")
      case True
      then have "lower_witness_bit_range ctx result v offset width = Some M" using t(4) 2 by (auto simp: is_field_def)
      then show ?thesis by (rule lower_witness_bit_range_sound [OF assms(1) _ t(1) 2 n t(3)])
    next
      case False
      then have "lower_pure_bit_range ctx result v offset width = Some M" using t(4) by simp
      then show ?thesis by (rule lower_pure_bit_range_sound [OF assms(1) _ t(1) 2])
    qed
    then show ?thesis by (rule emitting_weaken) (use 2 types in \<open>auto simp: on_bits_def\<close>)
  qed
qed

lemma lower_bit_range_sound:
  assumes "bn254_like TYPE('f::field)"
  shows "sound_rule (lower_bit_range :: 'f rule)"
proof (rule sound_ruleI)
  fix ctx i ft types and e :: "'f valuation" and M :: "('f, bool) emits"
  assume M: "lower_bit_range ctx i = Some M" and r: "ready ctx types e i"
  show "emitting ft types e M (\<lambda>hit. hit \<longrightarrow> sat types e i)"
  proof (cases "M = return False")
    case False
    then obtain result v offset width L where i: "i = OpBitRange result v offset width"
      "lower_bit_range_op ctx result v offset width = Some L" "M = do { L; return True }"
      using M by (cases i) (auto simp: lower_bit_range_def lowered_Some)
    then show ?thesis unfolding i(3)
      by (intro emitting_bind appends_intros lower_bit_range_op_appends [OF i(2)]
        emitting_weaken [OF lower_bit_range_op_sound [OF assms r [unfolded i(1)] i(2)]] emitting_return) simp
  qed (simp add: emit_not_lowered)
qed

subsection \<open>A part of a byte\<close>

text \<open>What the gadget for one low bit emits, for the byte in value 0 and the flag in value 1, and an assignment of
  its values.\<close>

definition split_start :: "rat emitter" where
  "split_start = \<lparr>em_ssa = hlssa_new\<lparr>s_next_value_id := 2\<rparr>, em_out = []\<rparr>"

definition split_end :: "rat emitter" where
  "split_end = snd (run_state (split_partial_field_byte 0 1 1) split_start)"

definition split_types :: value_types where
  "split_types = map_of (zip [0..<15] [TWitnessOf TField, TField, TField, TField, TU 8, TU 8, TU 8, TField, TWitnessOf TField,
     TField, TWitnessOf TField, TWitnessOf TField, TWitnessOf TField, TField, TWitnessOf TField])"

definition split_values :: "rat valuation" where
  "split_values v = (if v < 15 then [5, 1, 2, 5, 5, 2, 2, 2, 3, 127, 124, 6, - 1, 1, 2] ! v else 0)"

lemma split_run:
  "run_state (split_partial_field_byte 0 1 1) split_start = (12, split_end)"
  "em_out split_end = [OpValueOf 3 0, OpCast 4 3 (CastU 8), OpBinaryArithOp BopDiv 6 4 5, OpCast 7 6 CastField,
     OpWriteWitness (Some 8) 7 False, OpBinaryArithOp BopSub 10 9 8, OpLookup (LtRangecheck 8) [10] 1,
     OpBinaryArithOp BopMul 11 8 2, OpBinaryArithOp BopSub 12 0 11, OpBinaryArithOp BopSub 14 13 12,
     OpLookup (LtRangecheck 8) [14] 1]"
  "s_constants (em_ssa split_end) = [(13, ConstField 1), (9, ConstField 127), (5, ConstU 8 2), (2, ConstField 2)]"
  by (simp_all add: split_end_def split_start_def split_partial_field_byte_def Let_def State_Monad.bind_def State_Monad.return_def
    em_field_const_def em_u_const_def em_constant_def add_const_def add_const_fast_def add_const_slow_def hlssa_new_def with_main_def em_value_of_def em_cast_to_def
    em_cast_to_field_def em_div_def em_write_witness_def em_sub_def em_mul_def em_lookup_rngchk_8_def em_fresh_def em_emit_def
    fresh_value_def)

text \<open>C20. The split of a byte into high and low bits does not determine the low bits: its two lookups bound the high
  part by \<open>2 ^ hi - 1\<close> and the low part by \<open>2 ^ lo - 1\<close> from above, and nothing bounds them by zero from below. For the
  byte 5 and one low bit, the assignment with high part 3 and low part -1 satisfies all that is emitted, while the low
  bit of 5 is 1. Selecting the bits of a witness field element at other than byte boundaries (the cast of a
  field element to one bit) is not sound.\<close>

theorem partial_byte_not_determined:
  "satisfied ft split_types split_values split_end \<and>
   fst (run_state (split_partial_field_byte 0 1 1) split_start) = 12 \<and>
   split_values 1 = 1 \<and> num 8 (split_values 0) 5 \<and> split_values 12 = - 1 \<and> split_values 12 \<noteq> of_nat (5 mod 2 ^ 1)"
proof -
  have t: "num 8 (124 :: rat) 124" "num 8 (2 :: rat) 2" by (simp_all add: num_def)
  then have nums: "\<exists>x. num 8 (124 :: rat) x" "\<exists>x. num 8 (2 :: rat) x" by blast+
  have div: "arith_holds (Some (TU 8)) BopDiv (5 :: rat) 2 2" by (auto simp: arith_holds_def num_def)
  have field: "arith_holds (Some TField) k a b r \<longleftrightarrow> field_arith k a b r" for k and a b r :: rat
    by (simp add: arith_holds_def)
  have types: "split_types 0 = Some (TWitnessOf TField)" "split_types 1 = Some TField" "split_types 2 = Some TField"
    "split_types 3 = Some TField" "split_types 4 = Some (TU 8)" "split_types 5 = Some (TU 8)" "split_types 6 = Some (TU 8)"
    "split_types 7 = Some TField" "split_types 8 = Some (TWitnessOf TField)" "split_types 9 = Some TField"
    "split_types 10 = Some (TWitnessOf TField)" "split_types 11 = Some (TWitnessOf TField)"
    "split_types 12 = Some (TWitnessOf TField)" "split_types 13 = Some TField" "split_types 14 = Some (TWitnessOf TField)"
    by (simp_all add: split_types_def upt_rec)
  have "satisfied ft split_types split_values split_end"
    by (simp add: satisfied_def split_run holds_def well_typed_def types fun_upd_idem_iff split_values_def nums div field ty_of_def
      witness_like_def witness_of_def is_witness_of_def is_field_def const_ok_def)
  moreover have "fst (run_state (split_partial_field_byte 0 1 1) split_start) = 12" by (simp only: split_run fst_conv)
  ultimately show ?thesis by (simp add: split_values_def num_def)
qed

end
