(* ===== verification/Value_Range.thy ===== *)
theory Value_Range
  imports Intervals Types_Analysis
begin

unbundle bit_operations_syntax

text \<open>
  The value range analysis (\<^verbatim>\<open>compiler/src/compiler/analysis/value_range_analysis.rs\<close>): for every value an
  interval that contains the integers it stands for, unsigned, two's complement or canonical in the field. The
  analysis starts from the ranges of the types and narrows them in at most eight rounds over the blocks. The ranges
  contain the values of executions in which no arithmetic wraps around; two programs show that others escape them.
\<close>

subsection \<open>The analysis\<close>

type_synonym ranges = "value_id \<Rightarrow> int_interval option"

definition signed_const_to_bigint :: "nat \<Rightarrow> u128 \<Rightarrow> int" where
  "signed_const_to_bigint bits encoded = (
     if bits = 0 then 0
     else let v = uint encoded in
       if bits > 128 then v
       else let two_n = 2 ^ bits; half = drop_bit 1 two_n in if v < half then v else v - two_n)"

text \<open>The canonical integer of a field element is the third-party library's, the parameter \<open>fi\<close>.\<close>

definition constant_bound :: "('f \<Rightarrow> int) \<Rightarrow> 'f hl_constant \<Rightarrow> int_interval" where
  "constant_bound fi c = (case c of
     ConstU _ v \<Rightarrow> iv_singleton (uint v)
   | ConstI bits encoded \<Rightarrow> iv_singleton (signed_const_to_bigint bits encoded)
   | ConstField f \<Rightarrow> iv_singleton (fi f)
   | ConstFnPtr _ \<Rightarrow> iv_top)"

definition compute_constant_bounds :: "('f \<Rightarrow> int) \<Rightarrow> 'f hlssa \<Rightarrow> ranges" where
  "compute_constant_bounds fi s v = map_option (constant_bound fi) (map_of (s_constants s) v)"

definition range_get :: "ranges \<Rightarrow> value_id \<Rightarrow> int_interval" where
  "range_get m v = (case m v of Some r \<Rightarrow> r | None \<Rightarrow> iv_top)"

definition overwrite :: "value_id \<Rightarrow> int_interval \<Rightarrow> ranges \<times> bool \<Rightarrow> ranges \<times> bool" where
  "overwrite v new st = (case st of (m, changed) \<Rightarrow> if m v \<noteq> Some new then (m(v \<mapsto> new), True) else (m, changed))"

text \<open>Most branches cap the new range to the declared type of the result.\<close>

definition overwrite_capped ::
  "value_types \<Rightarrow> value_id \<Rightarrow> int_interval \<Rightarrow> ranges \<times> bool \<Rightarrow> (ranges \<times> bool) option" where
  "overwrite_capped types v r st = do {
     t \<leftarrow> types v;
     Some (overwrite v (iv_intersect r (iv_for_type t)) st) }"

definition next_pow2_minus_one :: "int \<Rightarrow> int" where
  "next_pow2_minus_one m = (
     if m = 0 then 0
     else let bits = nat (bitlen \<bar>m\<bar>); candidate = 2 ^ bits - 1 in
       if candidate \<ge> m then candidate else 2 ^ (bits + 1) - 1)"

fun cast_range :: "cast_target \<Rightarrow> int_interval \<Rightarrow> int_interval" where
  "cast_range CastField r = (if is_non_negative r then r else field_top)"
| "cast_range (CastU n) r = (if fits_in_unsigned_bits r n then r else unsigned_full n)"
| "cast_range (CastI n) r = (if fits_in_signed_bits r n then r else signed_full n)"
| "cast_range CastNop r = r"
| "cast_range CastWitnessOf r = r"
| "cast_range CastArrayToSlice r = iv_top"

definition not_range :: "ty \<Rightarrow> int_interval \<Rightarrow> int_interval" where
  "not_range t r = (case strip_witness t of
     TU n \<Rightarrow> (let mask = 2 ^ n - 1 in case (iv_lo r, iv_hi r) of
       (Some lo, Some hi) \<Rightarrow> iv_closed (mask - hi) (mask - lo) | _ \<Rightarrow> iv_for_type t)
   | TI _ \<Rightarrow> (case (iv_lo r, iv_hi r) of
       (Some lo, Some hi) \<Rightarrow> iv_closed (- hi - 1) (- lo - 1) | _ \<Rightarrow> iv_for_type t)
   | _ \<Rightarrow> iv_for_type t)"

definition div_range :: "ty \<Rightarrow> int_interval \<Rightarrow> int_interval \<Rightarrow> int_interval" where
  "div_range t l r = (
     if is_non_negative l then (case (iv_lo r, iv_hi r) of
         (Some d_lo, Some d_hi) \<Rightarrow> if d_lo = d_hi \<and> d_lo > 0 then div_const_pos l d_lo else iv_for_type t
       | _ \<Rightarrow> iv_for_type t)
     else iv_for_type t)"

definition mod_range :: "ty \<Rightarrow> int_interval \<Rightarrow> int_interval \<Rightarrow> int_interval" where
  "mod_range t l r = (
     if is_non_negative l then (case (iv_lo r, iv_hi r) of
         (Some lo, Some hi) \<Rightarrow> if lo > 0 then iv_closed 0 (hi - 1) else iv_for_type t
       | _ \<Rightarrow> iv_for_type t)
     else iv_for_type t)"

definition bitwise_range :: "bool \<Rightarrow> ty \<Rightarrow> int_interval \<Rightarrow> int_interval \<Rightarrow> int_interval" where
  "bitwise_range is_and t l r = (
     if is_non_negative l \<and> is_non_negative r then (case (iv_hi l, iv_hi r) of
         (Some lh, Some rh) \<Rightarrow>
           if is_and then iv_closed 0 (if lh \<le> rh then lh else rh)
           else iv_closed 0 (next_pow2_minus_one (if lh \<ge> rh then lh else rh))
       | _ \<Rightarrow> iv_for_type t)
     else iv_for_type t)"

fun arith_range :: "binary_arith_op_kind \<Rightarrow> ty \<Rightarrow> int_interval \<Rightarrow> int_interval \<Rightarrow> int_interval" where
  "arith_range BopAdd t l r = iv_add l r"
| "arith_range BopSub t l r = iv_sub l r"
| "arith_range BopMul t l r = iv_mul l r"
| "arith_range BopDiv t l r = div_range t l r"
| "arith_range BopMod t l r = mod_range t l r"
| "arith_range BopAnd t l r = bitwise_range True t l r"
| "arith_range BopOr t l r = bitwise_range False t l r"
| "arith_range BopXor t l r = bitwise_range False t l r"
| "arith_range BopShl t l r = iv_for_type t"
| "arith_range BopShr t l r = iv_for_type t"

definition bit_range_range :: "ty \<Rightarrow> nat \<Rightarrow> int_interval" where
  "bit_range_range t width = (case strip_witness t of
     TI bits \<Rightarrow> if width \<ge> bits then iv_for_type t else unsigned_full width
   | _ \<Rightarrow> unsigned_full width)"

fun transfer :: "opcode \<Rightarrow> value_types \<Rightarrow> ranges \<times> bool \<Rightarrow> (ranges \<times> bool) option" where
  "transfer (OpCast result v target) types st =
     overwrite_capped types result (cast_range target (range_get (fst st) v)) st"
| "transfer (OpSExt result v from_bits _) types st =
     (let in_r = range_get (fst st) v in
      overwrite_capped types result (if fits_in_signed_bits in_r from_bits then in_r else signed_full from_bits) st)"
| "transfer (OpBitRange result _ _ width) types st = do {
     t \<leftarrow> types result;
     overwrite_capped types result (bit_range_range t width) st }"
| "transfer (OpWriteWitness result v _) types st = (case result of
     Some r \<Rightarrow> overwrite_capped types r (range_get (fst st) v) st
   | None \<Rightarrow> Some st)"
| "transfer (OpFreshWitness result t) types st = Some (overwrite result (iv_for_type t) st)"
| "transfer (OpValueOf result v) types st = overwrite_capped types result (range_get (fst st) v) st"
| "transfer (OpCmp _ result _ _) types st = Some (overwrite result (unsigned_full 1) st)"
| "transfer (OpNot result v) types st = do {
     t \<leftarrow> types result;
     overwrite_capped types result (not_range t (range_get (fst st) v)) st }"
| "transfer (OpBinaryArithOp kind result lhs rhs) types st = do {
     t \<leftarrow> types result;
     overwrite_capped types result (arith_range kind t (range_get (fst st) lhs) (range_get (fst st) rhs)) st }"
| "transfer (OpMulConst result const_val var) types st =
     overwrite_capped types result (iv_mul (range_get (fst st) const_val) (range_get (fst st) var)) st"
| "transfer (OpSelect result _ if_t if_f) types st =
     overwrite_capped types result (iv_join (range_get (fst st) if_t) (range_get (fst st) if_f)) st"
| "transfer (OpGuard _ inner) types st = transfer inner types st"
| "transfer i types st = opt_fold (\<lambda>v st. do {
     t \<leftarrow> types v;
     Some (overwrite v (iv_for_type t) st) }) (get_results i) st"

text \<open>The ranges that the jumps into a block pass to its parameters.\<close>

definition pred_args :: "hl_function \<Rightarrow> cfg \<Rightarrow> block_id \<Rightarrow> value_id list list option" where
  "pred_args f c b = do {
     preds \<leftarrow> get_predecessors c b;
     terms \<leftarrow> opt_map (\<lambda>p. do { block \<leftarrow> get_block p f; b_terminator block }) preds;
     Some (List.map_filter (\<lambda>t. case t of Jmp target args \<Rightarrow> if target = b then Some args else None | _ \<Rightarrow> None) terms) }"

definition join_args :: "ranges \<Rightarrow> value_id list list \<Rightarrow> nat \<Rightarrow> int_interval option" where
  "join_args m argss idx = fold (\<lambda>args joined. if idx < length args
     then Some (case joined of None \<Rightarrow> range_get m (args ! idx) | Some j \<Rightarrow> iv_join j (range_get m (args ! idx)))
     else joined) argss None"

definition transfer_params :: "value_id list list \<Rightarrow> (value_id \<times> ty) list \<Rightarrow> ranges \<times> bool \<Rightarrow> ranges \<times> bool" where
  "transfer_params argss params st = fold (\<lambda>(idx, v, t) st.
     overwrite v (case join_args (fst st) argss idx of Some r \<Rightarrow> r | None \<Rightarrow> iv_for_type t) st)
     (enumerate 0 params) st"

definition transfer_block :: "hl_function \<Rightarrow> cfg \<Rightarrow> value_types \<Rightarrow> block_id \<Rightarrow> ranges \<times> bool \<Rightarrow> (ranges \<times> bool) option" where
  "transfer_block f c types b st = do {
     block \<leftarrow> get_block b f;
     st \<leftarrow> (if b \<noteq> f_entry_block f
       then do { argss \<leftarrow> pred_args f c b; Some (transfer_params argss (b_parameters block) st) }
       else Some st);
     opt_fold (\<lambda>i. transfer i types) (b_instructions block) st }"

definition iter_limit :: nat where
  "iter_limit = 8"

text \<open>The rounds: at most \<open>n\<close>, ending after one that changed nothing.\<close>

primrec rounds :: "nat \<Rightarrow> (ranges \<times> bool \<Rightarrow> (ranges \<times> bool) option) \<Rightarrow> ranges \<Rightarrow> ranges option" where
  "rounds 0 step m = Some m"
| "rounds (Suc n) step m = do {
     (m, changed) \<leftarrow> step (m, False);
     if changed then rounds n step m else Some m }"

definition initial_bounds :: "hl_function \<Rightarrow> value_types \<Rightarrow> ranges \<Rightarrow> ranges option" where
  "initial_bounds f types constant_bounds = opt_fold (\<lambda>(_, block) m.
     opt_fold (\<lambda>v m. do { t \<leftarrow> types v; Some (m(v \<mapsto> iv_for_type t)) }) (concat (map get_results (b_instructions block)))
       (fold (\<lambda>(v, t) m. m(v \<mapsto> iv_for_type t)) (b_parameters block) m)) (f_blocks f) constant_bounds"

definition ranges_run_function :: "hl_function \<Rightarrow> cfg \<Rightarrow> value_types \<Rightarrow> ranges \<Rightarrow> ranges option" where
  "ranges_run_function f c types constant_bounds = do {
     m \<leftarrow> initial_bounds f types constant_bounds;
     rounds iter_limit (opt_fold (transfer_block f c types) (get_domination_pre_order c)) m }"

definition ranges_run :: "('f \<Rightarrow> int) \<Rightarrow> 'f hlssa \<Rightarrow> flow_analysis \<Rightarrow> (function_id \<Rightarrow> value_types option) \<Rightarrow>
    (function_id \<times> ranges) list option" where
  "ranges_run fi s fa ti = opt_map (\<lambda>(fid, f). do {
     c \<leftarrow> get_function_cfg fa fid;
     types \<leftarrow> ti fid;
     m \<leftarrow> ranges_run_function f c types (compute_constant_bounds fi s);
     Some (fid, m) }) (s_functions s)"

subsection \<open>What values an instruction computes\<close>

text \<open>The integer that an operation gives. The generator and the virtual machine compute modulo the width of the result,
  in two's complement where it is signed, and modulo the order of the field: a result that does not fit its type wraps
  around.\<close>

definition wrap_signed :: "nat \<Rightarrow> int \<Rightarrow> int" where
  "wrap_signed n x = (if n = 0 then 0 else (x + 2 ^ (n - 1)) mod 2 ^ n - 2 ^ (n - 1))"

fun wrap_to :: "ty \<Rightarrow> int \<Rightarrow> int" where
  "wrap_to (TU n) x = x mod 2 ^ n"
| "wrap_to (TI n) x = wrap_signed n x"
| "wrap_to TField x = x mod bn254_modulus"
| "wrap_to _ x = x"

fun computes :: "binary_arith_op_kind \<Rightarrow> ty \<Rightarrow> int \<Rightarrow> int \<Rightarrow> int \<Rightarrow> bool" where
  "computes BopAdd t x y z \<longleftrightarrow> z = wrap_to t (x + y)"
| "computes BopSub t x y z \<longleftrightarrow> z = wrap_to t (x - y)"
| "computes BopMul t x y z \<longleftrightarrow> z = wrap_to t (x * y)"
| "computes BopDiv t x y z \<longleftrightarrow> y \<noteq> 0 \<and> (if t = TField then (z * y) mod bn254_modulus = x else z = wrap_to t (x sdiv y))"
| "computes BopMod t x y z \<longleftrightarrow> y \<noteq> 0 \<and> z = x smod y"
| "computes BopAnd t x y z \<longleftrightarrow> z = x AND y"
| "computes BopOr t x y z \<longleftrightarrow> z = x OR y"
| "computes BopXor t x y z \<longleftrightarrow> z = x XOR y"
| "computes BopShl t x y z \<longleftrightarrow> True"
| "computes BopShr t x y z \<longleftrightarrow> True"

fun casts :: "cast_target \<Rightarrow> int \<Rightarrow> int \<Rightarrow> bool" where
  "casts CastField x z \<longleftrightarrow> in_iv z field_top \<and> (0 \<le> x \<longrightarrow> z = x)"
| "casts (CastU n) x z \<longleftrightarrow> z = x mod 2 ^ n"
| "casts (CastI n) x z \<longleftrightarrow> z = wrap_signed n x"
| "casts CastNop x z \<longleftrightarrow> z = x"
| "casts CastWitnessOf x z \<longleftrightarrow> z = x"
| "casts CastArrayToSlice x z \<longleftrightarrow> True"

text \<open>The values \<open>V v\<close> that a value takes in executions: each value of a result comes from values of the operands, that
  of an arithmetic operation from one of the pairs of operands \<open>E r\<close> on which executions compute it.\<close>

type_synonym value_sets = "value_id \<Rightarrow> int set"
type_synonym operand_pairs = "value_id \<Rightarrow> (int \<times> int) set"

fun explained :: "value_types \<Rightarrow> value_sets \<Rightarrow> operand_pairs \<Rightarrow> opcode \<Rightarrow> bool" where
  "explained types V E (OpCast r v target) \<longleftrightarrow> (\<forall>z \<in> V r. \<exists>x \<in> V v. casts target x z)"
| "explained types V E (OpSExt r v from_bits _) \<longleftrightarrow> (\<forall>z \<in> V r. z \<in> V v \<and> in_iv z (signed_full from_bits))"
| "explained types V E (OpBitRange r v off width) \<longleftrightarrow> (\<forall>z \<in> V r. (\<exists>x \<in> V v. z = (x div 2 ^ off) mod 2 ^ width) \<or>
     (\<exists>t bits. types r = Some t \<and> strip_witness t = TI bits \<and> bits \<le> width))"
| "explained types V E (OpWriteWitness (Some r) v _) \<longleftrightarrow> V r \<subseteq> V v"
| "explained types V E (OpFreshWitness r t) \<longleftrightarrow> (\<forall>z \<in> V r. in_iv z (iv_for_type t))"
| "explained types V E (OpValueOf r v) \<longleftrightarrow> V r \<subseteq> V v"
| "explained types V E (OpCmp _ r _ _) \<longleftrightarrow> V r \<subseteq> {0, 1}"
| "explained types V E (OpNot r v) \<longleftrightarrow> (\<forall>z \<in> V r. \<exists>x \<in> V v. \<forall>t. types r = Some t \<longrightarrow>
     (case strip_witness t of TU n \<Rightarrow> z = 2 ^ n - 1 - x | TI n \<Rightarrow> z = - x - 1 | _ \<Rightarrow> True))"
| "explained types V E (OpBinaryArithOp kind r a b) \<longleftrightarrow>
     (\<forall>z \<in> V r. \<exists>(x, y) \<in> E r. x \<in> V a \<and> y \<in> V b \<and> (\<forall>t. types r = Some t \<longrightarrow> computes kind (strip_witness t) x y z))"
| "explained types V E (OpMulConst r a b) \<longleftrightarrow> (\<forall>z \<in> V r. \<exists>(x, y) \<in> E r. x \<in> V a \<and> y \<in> V b \<and> z = wrap_to TField (x * y))"
| "explained types V E (OpSelect r _ a b) \<longleftrightarrow> V r \<subseteq> V a \<union> V b"
| "explained types V E (OpGuard _ inner) \<longleftrightarrow> explained types V E inner"
| "explained types V E _ \<longleftrightarrow> True"


definition well_ranged :: "value_types \<Rightarrow> (value_id \<Rightarrow> int set) \<Rightarrow> bool" where
  "well_ranged types V \<longleftrightarrow> (\<forall>v t z. types v = Some t \<longrightarrow> z \<in> V v \<longrightarrow> in_iv z (iv_for_type t))"






subsection \<open>The branches of the transfer function\<close>


lemma next_pow2_minus_one: "0 \<le> m \<Longrightarrow> \<exists>k. next_pow2_minus_one m = 2 ^ k - 1 \<and> m < 2 ^ k"
proof (cases "m = 0")
  case False
  assume "0 \<le> m"
  then have "m < 2 ^ nat (bitlen \<bar>m\<bar>)" using bitlen_bounds [of m] False by simp
  then show ?thesis using False by (auto simp: next_pow2_minus_one_def Let_def intro!: exI [of _ "nat (bitlen \<bar>m\<bar>)"])
qed (auto simp: next_pow2_minus_one_def intro!: exI [of _ 0])









subsection \<open>Containment\<close>




text \<open>The values of a parameter come from the arguments of the jumps to its block, or fit its type when no jump
  passes one.\<close>

definition params_explained :: "(value_id \<Rightarrow> int set) \<Rightarrow> value_id list list \<Rightarrow> (value_id \<times> ty) list \<Rightarrow> bool" where
  "params_explained V argss params \<longleftrightarrow> (\<forall>(idx, v, t) \<in> set (enumerate 0 params). \<forall>z \<in> V v. in_iv z (iv_for_type t) \<and>
     ((\<exists>args \<in> set argss. idx < length args) \<longrightarrow> (\<exists>args \<in> set argss. idx < length args \<and> z \<in> V (args ! idx))))"



definition block_explained :: "hl_function \<Rightarrow> cfg \<Rightarrow> value_types \<Rightarrow> value_sets \<Rightarrow> operand_pairs \<Rightarrow> block_id \<Rightarrow> bool" where
  "block_explained f c types V E b \<longleftrightarrow> (\<forall>block. get_block b f = Some block \<longrightarrow>
     list_all (explained types V E) (b_instructions block) \<and>
     (\<forall>argss. b \<noteq> f_entry_block f \<longrightarrow> pred_args f c b = Some argss \<longrightarrow>
        params_explained V argss (b_parameters block)))"





definition fits_declared :: "hl_function \<Rightarrow> (value_id \<Rightarrow> int set) \<Rightarrow> bool" where
  "fits_declared f V \<longleftrightarrow> (\<forall>(b, block) \<in> set (f_blocks f). \<forall>(v, t) \<in> set (b_parameters block). \<forall>z \<in> V v. in_iv z (iv_for_type t))"














subsection \<open>Arithmetic that wraps around\<close>

text \<open>\<^verbatim>\<open>fn main() -> u8 { 200 + 200 }\<close> without a guard. The range of the sum is that of the integers, \<open>400\<close>, and the
  cap to the type leaves nothing of it, although the generator and the virtual machine compute \<open>144\<close>.\<close>

definition wrapping_function :: hl_function where
  "wrapping_function = \<lparr>f_entry_block = 0, f_blocks = [
      (0, \<lparr>b_parameters = [], b_instructions = [OpBinaryArithOp BopAdd 3 1 1], b_terminator = Some (Return [3])\<rparr>)],
    f_name = ''main'', f_returns = [TU 8], f_next_block = 1\<rparr>"

definition wrapping_program :: "rat hlssa" where
  "wrapping_program = (hlssa_new :: rat hlssa)\<lparr>s_functions := [(0, wrapping_function)], s_next_value_id := 4,
     s_constants := [(1, ConstU 8 200)]\<rparr>"

definition wrapping_types :: value_types where
  "wrapping_types v = (if v \<in> {1, 3} then Some (TU 8) else None)"

definition wrapping_values :: value_sets where
  "wrapping_values v = (if v = 1 then {200} else if v = 3 then {144} else {})"

definition wrapping_pairs :: operand_pairs where
  "wrapping_pairs v = (if v = 3 then {(200, 200)} else {})"

theorem integer_sum_not_contained:
  "\<exists>m. ranges_run_function wrapping_function one_block_cfg wrapping_types (compute_constant_bounds floor wrapping_program) = Some m \<and>
    well_ranged wrapping_types wrapping_values \<and> fits_declared wrapping_function wrapping_values \<and>
    (\<forall>(v, k) \<in> set (s_constants wrapping_program). \<forall>z \<in> wrapping_values v. in_iv z (constant_bound floor k)) \<and>
    block_explained wrapping_function one_block_cfg wrapping_types wrapping_values wrapping_pairs 0 \<and>
    144 \<in> wrapping_values 3 \<and> iv_is_empty (range_get m 3)"
proof -
  have order: "get_domination_pre_order one_block_cfg = [0]"
    by (simp add: get_domination_pre_order_def blocks_of_def one_block_cfg_def Let_def List.map_filter_def)
  have "iter_limit = Suc (Suc 6)" by (simp add: iter_limit_def)
  then obtain k where limit: "iter_limit = Suc (Suc k)" by blast
  have "well_ranged wrapping_types wrapping_values"
    by (auto simp: well_ranged_def wrapping_types_def wrapping_values_def iv_for_type_def)
  moreover have "block_explained wrapping_function one_block_cfg wrapping_types wrapping_values wrapping_pairs 0"
    by (simp add: block_explained_def get_block_def wrapping_function_def wrapping_types_def wrapping_values_def wrapping_pairs_def)
  moreover have "fits_declared wrapping_function wrapping_values" by (simp add: fits_declared_def wrapping_function_def)
  moreover have "\<forall>(v, k) \<in> set (s_constants wrapping_program). \<forall>z \<in> wrapping_values v. in_iv z (constant_bound floor k)"
    by (simp add: wrapping_program_def wrapping_values_def constant_bound_def)
  moreover have "\<exists>m. ranges_run_function wrapping_function one_block_cfg wrapping_types (compute_constant_bounds floor wrapping_program) = Some m \<and>
    iv_is_empty (range_get m 3)"
    by (simp add: ranges_run_function_def order initial_bounds_def wrapping_function_def wrapping_types_def limit transfer_block_def get_block_def overwrite_capped_def overwrite_def range_get_def
      compute_constant_bounds_def wrapping_program_def constant_bound_def take_bit_eq_mod iv_add_def iv_singleton_def iv_is_empty_def
      iv_intersect_def iv_for_type_def unsigned_full_def iv_closed_def iv_empty_def)
  moreover have "144 \<in> wrapping_values 3" by (simp add: wrapping_values_def)
  ultimately show ?thesis by blast
qed

text \<open>\<^verbatim>\<open>fn main() -> Field { 0 - 3 }\<close>. In the same way the range of the difference is empty, although the program
  computes \<open>p - 3\<close>.\<close>

definition minus_function :: hl_function where
  "minus_function = \<lparr>f_entry_block = 0, f_blocks = [
      (0, \<lparr>b_parameters = [], b_instructions = [OpBinaryArithOp BopSub 3 1 2], b_terminator = Some (Return [3])\<rparr>)],
    f_name = ''main'', f_returns = [TField], f_next_block = 1\<rparr>"

definition minus_program :: "rat hlssa" where
  "minus_program = (hlssa_new :: rat hlssa)\<lparr>s_functions := [(0, minus_function)], s_next_value_id := 4,
     s_constants := [(1, ConstField 0), (2, ConstField 3)]\<rparr>"

definition minus_types :: value_types where
  "minus_types v = (if v \<in> {1, 2, 3} then Some TField else None)"

definition minus_values :: "value_id \<Rightarrow> int set" where
  "minus_values v = (if v = 1 then {0} else if v = 2 then {3} else if v = 3 then {bn254_modulus - 3} else {})"

definition minus_pairs :: operand_pairs where
  "minus_pairs v = (if v = 3 then {(0, 3)} else {})"

theorem field_difference_not_contained:
  "\<exists>m. ranges_run_function minus_function one_block_cfg minus_types (compute_constant_bounds floor minus_program) = Some m \<and>
    well_ranged minus_types minus_values \<and> fits_declared minus_function minus_values \<and>
    (\<forall>(v, k) \<in> set (s_constants minus_program). \<forall>z \<in> minus_values v. in_iv z (constant_bound floor k)) \<and>
    block_explained minus_function one_block_cfg minus_types minus_values minus_pairs 0 \<and>
    bn254_modulus - 3 \<in> minus_values 3 \<and> iv_is_empty (range_get m 3)"
proof -
  have order: "get_domination_pre_order one_block_cfg = [0]"
    by (simp add: get_domination_pre_order_def blocks_of_def one_block_cfg_def Let_def List.map_filter_def)
  have p: "(- 3) mod bn254_modulus = bn254_modulus - 3" by (simp add: bn254_modulus_def)
  have "well_ranged minus_types minus_values"
    by (auto simp: well_ranged_def minus_types_def minus_values_def iv_for_type_def bn254_modulus_def)
  moreover have "block_explained minus_function one_block_cfg minus_types minus_values minus_pairs 0"
    by (simp add: block_explained_def get_block_def minus_function_def minus_types_def minus_values_def minus_pairs_def p)
  moreover have "fits_declared minus_function minus_values" by (simp add: fits_declared_def minus_function_def)
  moreover have "\<forall>(v, k) \<in> set (s_constants minus_program). \<forall>z \<in> minus_values v. in_iv z (constant_bound floor k)"
    by (simp add: minus_program_def minus_values_def constant_bound_def)
  moreover have "\<exists>m. ranges_run_function minus_function one_block_cfg minus_types (compute_constant_bounds floor minus_program) = Some m \<and>
    iv_is_empty (range_get m 3)"
    by (simp add: ranges_run_function_def order initial_bounds_def minus_function_def minus_types_def iter_limit_def
      eval_nat_numeral transfer_block_def get_block_def overwrite_capped_def overwrite_def range_get_def
      compute_constant_bounds_def minus_program_def constant_bound_def iv_sub_def iv_singleton_def iv_is_empty_def
      iv_intersect_def iv_for_type_def field_top_def iv_closed_def bn254_modulus_def iv_empty_def)
  moreover have "bn254_modulus - 3 \<in> minus_values 3" by (simp add: minus_values_def)
  ultimately show ?thesis by blast
qed

end
