(* ===== verification/Instruction_Lowering.thy ===== *)
theory Instruction_Lowering
  imports Lower_BitRange Value_Range Cfg_Blocks
begin

text \<open>
  The pass that rewrites instructions by rules (\<^verbatim>\<open>passes/instruction_lowering/mod.rs\<close>): every instruction is offered
  to the rules in turn, and the program is rewritten until no rule applies. The locale \<open>lowering_rules\<close> is the
  contract of a list of rules; a pass over rules that meet it is sound.
\<close>

subsection \<open>The pass\<close>

fun try_lower_instruction ::
  "'f rule list \<Rightarrow> lowering_context \<Rightarrow> opcode \<Rightarrow> 'f emitter \<Rightarrow> (bool \<times> 'f emitter) option" where
  "try_lower_instruction [] ctx i s = Some (False, s)"
| "try_lower_instruction (R # Rs) ctx i s = do {
     lower \<leftarrow> R ctx i;
     let (hit, s) = run_state lower s;
     if hit then Some (True, s) else try_lower_instruction Rs ctx i s }"

definition lower_step ::
  "'f rule list \<Rightarrow> lowering_context \<Rightarrow> opcode \<Rightarrow> bool \<times> 'f emitter \<Rightarrow> (bool \<times> 'f emitter) option" where
  "lower_step Rs ctx i st = do {
     (hit, s) \<leftarrow> try_lower_instruction Rs ctx i (snd st);
     if hit then Some (True, s) else Some (fst st, snd (run_state (em_emit i) s)) }"

text \<open>The instructions of a block are taken out and emitted into it again; the terminator stays.\<close>

fun lower_blocks ::
  "'f rule list \<Rightarrow> lowering_context \<Rightarrow> (block_id \<times> hl_block) list \<Rightarrow> bool \<times> 'f hlssa \<Rightarrow>
   ((block_id \<times> hl_block) list \<times> bool \<times> 'f hlssa) option" where
  "lower_blocks Rs ctx [] st = Some ([], st)"
| "lower_blocks Rs ctx ((bid, block) # bs) st = do {
     (changed, s) \<leftarrow> opt_fold (lower_step Rs ctx) (b_instructions block) (fst st, \<lparr>em_ssa = snd st, em_out = []\<rparr>);
     (bs', st') \<leftarrow> lower_blocks Rs ctx bs (changed, em_ssa s);
     Some ((bid, block\<lparr>b_instructions := em_out s\<rparr>) # bs', st') }"

definition run_on_function ::
  "'f rule list \<Rightarrow> lowering_context \<Rightarrow> hl_function \<Rightarrow> bool \<times> 'f hlssa \<Rightarrow> (hl_function \<times> bool \<times> 'f hlssa) option" where
  "run_on_function Rs ctx f st = do {
     (bs, st') \<leftarrow> lower_blocks Rs ctx (f_blocks f) st;
     Some (f\<lparr>f_blocks := bs\<rparr>, st') }"

definition run_iteration ::
  "graph_algos \<Rightarrow> ('f \<Rightarrow> int) \<Rightarrow> 'f rule list \<Rightarrow> 'f hlssa \<Rightarrow> (bool \<times> 'f hlssa) option" where
  "run_iteration A field_int Rs s = do {
     flow \<leftarrow> flow_analysis_run A hl_instruction s;
     types \<leftarrow> types_run s flow;
     value_ranges \<leftarrow> ranges_run field_int s flow (map_of types);
     opt_fold (\<lambda>fid (changed, s). do {
         function_types \<leftarrow> map_of types fid;
         function_ranges \<leftarrow> map_of value_ranges fid;
         f \<leftarrow> get_function fid s;
         (f', changed, s) \<leftarrow> run_on_function Rs \<lparr>lc_types = function_types, lc_ranges = Some function_ranges\<rparr> f (changed, s);
         Some (changed, s\<lparr>s_functions := AList.update fid f' (s_functions s)\<rparr>) })
       (map fst (s_functions s)) (False, s) }"

definition iteration_limit :: nat where
  "iteration_limit = 32"

text \<open>No fixed point within the limit is a panic.\<close>

fun lower_until_stable ::
  "nat \<Rightarrow> graph_algos \<Rightarrow> ('f \<Rightarrow> int) \<Rightarrow> 'f rule list \<Rightarrow> 'f hlssa \<Rightarrow> 'f hlssa option" where
  "lower_until_stable 0 A field_int Rs s = None"
| "lower_until_stable (Suc n) A field_int Rs s = do {
     (changed, s) \<leftarrow> run_iteration A field_int Rs s;
     if changed then lower_until_stable n A field_int Rs s else Some s }"

definition instruction_lowering ::
  "bool \<Rightarrow> graph_algos \<Rightarrow> ('f \<Rightarrow> int) \<Rightarrow> 'f rule list \<Rightarrow> 'f hlssa \<Rightarrow> 'f hlssa option" where
  "instruction_lowering fixed_point A field_int Rs s = (
     if fixed_point then lower_until_stable iteration_limit A field_int Rs s
     else map_option snd (run_iteration A field_int Rs s))"

subsection \<open>Passes over sound rules\<close>

lemma emitter_grows_refl: "const_inv (em_ssa s) \<Longrightarrow> grows s s"
  by (simp add: grows_def)

lemma emitter_grows_trans: "grows s t \<Longrightarrow> grows t u \<Longrightarrow> grows s u"
  unfolding grows_def by blast

lemma grows_inv: "grows s t \<Longrightarrow> const_inv (em_ssa t)"
  by (simp add: grows_def)

lemma appendsD: "appends M \<Longrightarrow> run_state M s = (r, s') \<Longrightarrow> const_inv (em_ssa s) \<Longrightarrow> grows s s'"
  by (simp add: appends_def)

text \<open>What an assignment of a rewritten function satisfies.\<close>

definition function_satisfied ::
  "function_types \<Rightarrow> value_types \<Rightarrow> 'f::field valuation \<Rightarrow> (block_id \<times> hl_block) list \<Rightarrow> 'f hlssa \<Rightarrow> bool" where
  "function_satisfied ft types e bs s \<longleftrightarrow>
     (\<forall>(_, block) \<in> set bs. \<forall>i \<in> set (b_instructions block). holds ft types e i) \<and>
     (\<forall>(v, c) \<in> set (s_constants s). const_ok types e v c)"

locale lowering_rules =
  fixes rules :: "'f::field rule list"
  assumes rules_append: "R \<in> set rules \<Longrightarrow> R ctx i = Some M \<Longrightarrow> appends M"
    and rules_sound: "bn254_like TYPE('f) \<Longrightarrow> R \<in> set rules \<Longrightarrow> sound_rule R"
begin

lemma try_lower_grows:
  "try_lower_instruction Rs ctx i s = Some (hit, s') \<Longrightarrow> set Rs \<subseteq> set rules \<Longrightarrow> const_inv (em_ssa s) \<Longrightarrow> grows s s'"
proof (induction Rs arbitrary: s)
  case (Cons R Rs)
  obtain M l t where M: "R ctx i = Some M" "run_state M s = (l, t)"
    using Cons.prems(1) by (cases "R ctx i") (auto, fastforce)
  have g: "grows s t" using appendsD rules_append M Cons.prems(2,3) by (metis insert_subset list.simps(15))
  show ?case
  proof (cases l)
    case True
    then show ?thesis using Cons.prems(1) M g by simp
  next
    case False
    then show ?thesis using Cons.prems(1,2) M Cons.IH [of t] g emitter_grows_trans [OF g] by (simp add: grows_inv)
  qed
qed (simp add: emitter_grows_refl)

lemma try_lower_sound:
  assumes "bn254_like TYPE('f)"
  shows "try_lower_instruction Rs ctx i s = Some (True, s') \<Longrightarrow> set Rs \<subseteq> set rules \<Longrightarrow> const_inv (em_ssa s) \<Longrightarrow>
    satisfied ft types e s' \<Longrightarrow> ready ctx types e i \<Longrightarrow> sat types e i"
proof (induction Rs arbitrary: s)
  case (Cons R Rs)
  obtain M l t where M: "R ctx i = Some M" "run_state M s = (l, t)"
    using Cons.prems(1) by (cases "R ctx i") (auto, fastforce)
  have g: "grows s t" using appendsD rules_append M Cons.prems(2,3) by (metis insert_subset list.simps(15))
  show ?case
  proof (cases l)
    case True
    have "sound_rule R" using rules_sound [OF assms] Cons.prems(2) by simp
    then show ?thesis using Cons.prems(1,3-5) M True unfolding sound_rule_def by fastforce
  next
    case False
    then show ?thesis using Cons.prems M Cons.IH [of t] by (simp add: grows_inv [OF g])
  qed
qed simp

lemma lower_step_grows:
  assumes "lower_step rules ctx i st = Some st'" "const_inv (em_ssa (snd st))"
  shows "grows (snd st) (snd st')"
proof -
  obtain l t where t: "try_lower_instruction rules ctx i (snd st) = Some (l, t)"
    "st' = (if l then (True, t) else (fst st, snd (run_state (em_emit i) t)))"
    using assms(1) by (auto simp: lower_step_def bind_Some_iff split: if_splits)
  have g: "grows (snd st) t" by (rule try_lower_grows [OF t(1) _ assms(2)]) simp
  have "grows t (snd (run_state (em_emit i) t))"
    using grows_inv [OF g] by (auto simp: em_emit_def grows_def)
  then show ?thesis using g emitter_grows_trans by (auto simp: t(2))
qed

lemma lower_step_sound:
  assumes "bn254_like TYPE('f)" "lower_step rules ctx i st = Some st'" "const_inv (em_ssa (snd st))"
    "satisfied ft types e (snd st')" "ready ctx types e i"
  shows "sat types e i"
proof -
  obtain l t where t: "try_lower_instruction rules ctx i (snd st) = Some (l, t)"
    "st' = (if l then (True, t) else (fst st, snd (run_state (em_emit i) t)))"
    using assms(2) by (auto simp: lower_step_def bind_Some_iff split: if_splits)
  show ?thesis
  proof (cases l)
    case True
    then show ?thesis using try_lower_sound [OF assms(1)] t assms(3-5) by auto
  next
    case False
    then show ?thesis using t(2) assms(4) by (auto simp: satisfied_def em_emit_def holds_def)
  qed
qed

lemma lower_instructions:
  assumes "bn254_like TYPE('f)"
  shows "opt_fold (lower_step rules ctx) is st = Some st' \<Longrightarrow> const_inv (em_ssa (snd st)) \<Longrightarrow>
    grows (snd st) (snd st') \<and> (satisfied ft types e (snd st') \<longrightarrow> (\<forall>i \<in> set is. ready ctx types e i) \<longrightarrow> (\<forall>i \<in> set is. sat types e i))"
proof (induction "is" arbitrary: st)
  case (Cons i "is")
  obtain t where t: "lower_step rules ctx i st = Some t" "opt_fold (lower_step rules ctx) is t = Some st'"
    using Cons.prems(1) by (auto simp: bind_Some_iff)
  have g: "grows (snd st) (snd t)" by (rule lower_step_grows [OF t(1) Cons.prems(2)])
  note IH = Cons.IH [OF t(2) grows_inv [OF g]]
  have "sat types e i" if "satisfied ft types e (snd st')" "ready ctx types e i"
    using lower_step_sound [OF assms t(1) Cons.prems(2) satisfied_grows that(2)] that(1) IH by blast
  then show ?case using IH emitter_grows_trans [OF g] by auto
qed (simp add: emitter_grows_refl)

lemma lower_blocks_sound:
  assumes "bn254_like TYPE('f)"
  shows "lower_blocks rules ctx bs st = Some (bs', st') \<Longrightarrow> const_inv (snd st) \<Longrightarrow>
    const_inv (snd st') \<and> set (s_constants (snd st)) \<subseteq> set (s_constants (snd st')) \<and>
    (function_satisfied ft types e bs' (snd st') \<longrightarrow> (\<forall>(_, block) \<in> set bs. \<forall>i \<in> set (b_instructions block). ready ctx types e i) \<longrightarrow>
     (\<forall>(_, block) \<in> set bs. \<forall>i \<in> set (b_instructions block). sat types e i))"
proof (induction bs arbitrary: st bs')
  case (Cons b bs)
  obtain bid block where b: "b = (bid, block)" by fastforce
  obtain changed s rest where s:
    "opt_fold (lower_step rules ctx) (b_instructions block) (fst st, \<lparr>em_ssa = snd st, em_out = []\<rparr>) = Some (changed, s)"
    "lower_blocks rules ctx bs (changed, em_ssa s) = Some (rest, st')"
    "bs' = (bid, block\<lparr>b_instructions := em_out s\<rparr>) # rest"
    using Cons.prems(1) unfolding b by (auto simp: bind_Some_iff)
  note one = lower_instructions [OF assms s(1), of ft types e, simplified, OF Cons.prems(2)]
  note IH = Cons.IH [OF s(2), simplified, OF grows_inv [of _ s]]
  have g: "const_inv (em_ssa s)" "set (s_constants (snd st)) \<subseteq> set (s_constants (em_ssa s))"
    using one by (auto simp: grows_def)
  have "satisfied ft types e s" if "function_satisfied ft types e bs' (snd st')"
    using that Cons.IH [OF s(2)] g unfolding s(3) function_satisfied_def satisfied_def by auto
  moreover have "function_satisfied ft types e rest (snd st')" if "function_satisfied ft types e bs' (snd st')"
    using that unfolding s(3) function_satisfied_def by auto
  ultimately show ?case using Cons.IH [OF s(2)] g one unfolding b by auto
qed simp

end

text \<open>The rules for comparisons and assertions meet the contract, in any order.\<close>

lemma lower_lt_appends: "lower_lt guard result lhs rhs lt rt = Some M \<Longrightarrow> appends M"
  by (auto simp: lower_lt_def lower_unsigned_lt_def split: ty.splits if_splits intro!: appends_intros dest: lower_signed_lt_appends)

lemma process_cmp_appends: "process_cmp ctx guard i = Some M \<Longrightarrow> appends M"
  by (cases i) (auto simp: process_cmp_def bind_Some_iff split: if_splits cmp_kind.splits intro!: appends_intros dest: lower_lt_appends)

lemma lowered_appends: "lowered N = Some M \<Longrightarrow> (\<And>L. N = Some L \<Longrightarrow> appends L) \<Longrightarrow> appends M"
  by (auto simp: lowered_def intro!: appends_intros)

lemma lower_assert_appends:
  "lower_assert_value ctx guard v = Some M \<Longrightarrow> appends M"
  "lower_assert_eq ctx guard lhs rhs = Some M \<Longrightarrow> appends M"
  "lower_assert_lt_via_cmp ctx guard lhs rhs = Some M \<Longrightarrow> appends M"
  "lower_unsigned_assert_lt ctx guard lhs rhs bits = Some M \<Longrightarrow> appends M"
  "lower_assert_r1c ctx guard lhs rhs c = Some M \<Longrightarrow> appends M"
  unfolding lower_assert_value_def lower_assert_eq_def lower_assert_lt_via_cmp_def lower_unsigned_assert_lt_def
    lower_assert_r1c_def lower_assert_field_def
  by (auto simp: bind_Some_iff split: if_splits option.splits prod.splits intro!: appends_intros)

lemma lower_assert_lt_appends: "lower_assert_lt ctx guard lhs rhs lw rw = Some M \<Longrightarrow> appends M"
proof -
  assume M: "lower_assert_lt ctx guard lhs rhs lw rw = Some M"
  then obtain t where t: "lc_types ctx rhs = Some t" by (auto simp: lower_assert_lt_def bind_Some_iff)
  show ?thesis
    using M by (cases "strip_witness t") (auto simp: lower_assert_lt_def t split: if_splits dest: lower_assert_appends)
qed

lemma process_assert_appends: "process_assert ctx guard i = Some M \<Longrightarrow> appends M"
  by (cases i) (auto simp: process_assert_def bind_Some_iff appends_return split: if_splits cmp_kind.splits
    elim!: lowered_appends dest: lower_assert_appends lower_assert_lt_appends)

text \<open>The rules of the pass over integer operations on witnesses, in the code's order.\<close>

definition witness_integer_ops :: "'f::field rule list" where
  "witness_integer_ops = [lower_witness_integer_arith, lower_witness_bitwise, lower_witness_spread, lower_bit_range,
     lower_witness_compare, lower_witness_assert]"

lemmas witness_rule_defs = lower_witness_integer_arith_def lower_witness_bitwise_def lower_witness_compare_def
  lower_witness_assert_def

lemmas process_appends = process_arith_appends process_bitwise_appends process_cmp_appends process_assert_appends

lemmas witness_rules_sound = lower_witness_integer_arith_sound lower_witness_bitwise_sound lower_witness_spread_sound
  lower_bit_range_sound lower_witness_compare_sound lower_witness_assert_sound

interpretation integer_ops: lowering_rules "witness_integer_ops :: 'f::field rule list"
proof
  fix R :: "'f rule" and ctx i M
  assume "R \<in> set witness_integer_ops" "R ctx i = Some M"
  then show "appends M"
    by (auto simp: witness_integer_ops_def witness_rule_defs
      dest: process_appends lower_witness_spread_appends lower_bit_range_appends)
next
  fix R :: "'f rule"
  assume "bn254_like TYPE('f)" "R \<in> set witness_integer_ops"
  then show "sound_rule R" using witness_rules_sound by (auto simp: witness_integer_ops_def)
qed

text \<open>C2. The pass that lowers integer operations on witnesses is sound on a function: every assignment of field
  elements that satisfies the rewritten function, and the constants interned for it, satisfies every instruction of
  the original, whatever the prover chose for the hints. Checked arithmetic that would overflow, comparisons,
  bitwise operations, shifts, sign extensions, spreads and assertions mean in the rewritten function what they mean
  in the original. The types of the operands are those of the rewritten function, the ranges contain the numbers, and
  widths and operands are as \<open>ready\<close> says.\<close>

theorem integer_lowering_sound:
  fixes e :: "'f::field valuation"
  assumes "run_on_function witness_integer_ops ctx f (changed, s) = Some (f', changed', s')"
    "bn254_like TYPE('f)" "const_inv s" "function_satisfied ft types e (f_blocks f') s'"
    "\<forall>(_, block) \<in> set (f_blocks f). \<forall>i \<in> set (b_instructions block). ready ctx types e i"
  shows "\<forall>(_, block) \<in> set (f_blocks f). \<forall>i \<in> set (b_instructions block). sat types e i"
proof -
  obtain bs where "lower_blocks witness_integer_ops ctx (f_blocks f) (changed, s) = Some (bs, changed', s')" "f_blocks f' = bs"
    using assms(1) by (auto simp: run_on_function_def bind_Some_iff)
  then show ?thesis using integer_ops.lower_blocks_sound [OF assms(2), where st = "(changed, s)"] assms(3-5) by auto
qed

text \<open>An addition of two bytes, with the assignment of 3, 4 and 7.\<close>

definition sum_function :: "opcode list \<Rightarrow> hl_function" where
  "sum_function is = \<lparr>f_entry_block = 0,
     f_blocks = [(0, \<lparr>b_parameters = [], b_instructions = is, b_terminator = Some (Return [])\<rparr>)],
     f_name = ''sum'', f_returns = [], f_next_block = 1\<rparr>"

definition sum_types :: value_types where
  "sum_types = [0 \<mapsto> TWitnessOf (TU 8), 1 \<mapsto> TWitnessOf (TU 8), 2 \<mapsto> TWitnessOf (TU 8),
     3 \<mapsto> TWitnessOf TField, 4 \<mapsto> TWitnessOf TField, 5 \<mapsto> TWitnessOf TField]"

definition sum_values :: "rat valuation" where
  "sum_values v = (if v = 0 \<or> v = 3 then 3 else if v = 1 \<or> v = 4 then 4 else 7)"

definition sum_program :: "nat \<Rightarrow> rat hlssa" where
  "sum_program n = hlssa_new\<lparr>s_next_value_id := n\<rparr>"

lemma sum_lowered:
  "run_on_function witness_integer_ops \<lparr>lc_types = sum_types, lc_ranges = None\<rparr> (sum_function [OpBinaryArithOp BopAdd 2 0 1])
     (False, sum_program 3) =
   Some (sum_function [OpCast 3 0 CastField, OpCast 4 1 CastField, OpBinaryArithOp BopAdd 5 3 4, OpRangecheck 5 8, OpCast 2 5 (CastU 8)],
     True, sum_program 6)"
  by (simp add: run_on_function_def sum_function_def sum_types_def sum_program_def lower_step_def witness_integer_ops_def
    lower_witness_integer_arith_def process_arith_def should_lower_integer_arith_def integer_bits_and_signedness_def
    is_witness_of_def lowered_def lower_arith_def lower_unsigned_addsub_def add_or_sub_range_def add_or_sub_def
    check_unsigned_def some_and_def all_bool_eq lc_range_def iv_top_def iv_add_def iv_is_empty_def fits_in_unsigned_bits_def
    narrow_rangecheck_width_def unsigned_bit_width_def guarded_or_zero_field_def guarded_rangecheck_def emit_guarded_def
    em_cast_to_field_def em_add_def em_fresh_def em_emit_def fresh_value_def State_Monad.bind_def State_Monad.return_def)

lemma rat_is_bn254_like: "bn254_like TYPE(rat)"
  by (simp add: bn254_like_def)

lemma sum_satisfied: "function_satisfied ft sum_types sum_values (f_blocks (sum_function [OpCast 3 0 CastField,
    OpCast 4 1 CastField, OpBinaryArithOp BopAdd 5 3 4, OpRangecheck 5 8, OpCast 2 5 (CastU 8)])) (sum_program 6)"
proof -
  have "num 8 (7 :: rat) 7" by (simp add: num_def)
  then have seven: "\<exists>x. num 8 (7 :: rat) x" by blast
  show ?thesis
    by (auto simp: seven function_satisfied_def sum_function_def sum_program_def hlssa_new_def with_main_def holds_def well_typed_def
      is_field_def sum_types_def sum_values_def witness_like_def witness_of_def is_witness_of_def ty_of_def arith_holds_def
      intro!: ext)
qed

theorem integer_lowering_sound_witness:
  "sat sum_types sum_values (OpBinaryArithOp BopAdd 2 0 1)"
proof -
  let ?ctx = "\<lparr>lc_types = sum_types, lc_ranges = None\<rparr>" and ?i = "OpBinaryArithOp BopAdd 2 0 1"
  have "ready ?ctx sum_types sum_values ?i"
    by (auto simp: ready_def flat_types_def sum_types_def is_witness_of_def narrow_def ty_of_def in_range_def lc_range_def
      iv_top_def in_iv_def split: if_splits)
  then have r: "\<forall>(_, block) \<in> set (f_blocks (sum_function [?i])). \<forall>i \<in> set (b_instructions block). ready ?ctx sum_types sum_values i"
    by (simp add: sum_function_def)
  have "const_inv (sum_program 3)" by (simp add: const_inv_def sum_program_def hlssa_new_def with_main_def)
  from integer_lowering_sound [OF sum_lowered rat_is_bn254_like this sum_satisfied r]
  show ?thesis by (simp add: sum_function_def)
qed

end
