(* ===== verification/VM_Heap.thy ===== *)
theory VM_Heap
  imports MavPrelude
begin

unbundle bit_operations_syntax

text \<open>
  The heap of the virtual machine (\<^verbatim>\<open>vm/src/array.rs\<close>): objects with a layout word, a reference count
  and a payload, freed when the count drops to zero. The nodes of the backward pass are objects too: bumping a node
  adds to its accumulators, and freeing it passes them on. An operation is \<open>None\<close> when it panics or when it would read
  or write memory that is not a live object of the right kind, which the code does not check.
\<close>

type_synonym u64 = "64 word"

subsection \<open>Layouts\<close>

datatype data_type = DtPrimArray | DtBoxedArray | DtADConst | DtADWitness | DtADSum | DtADMulConst | DtStruct | DtRefCell

definition data_types :: "data_type list" where
  "data_types = [DtPrimArray, DtBoxedArray, DtADConst, DtADWitness, DtADSum, DtADMulConst, DtStruct, DtRefCell]"

fun discriminant :: "data_type \<Rightarrow> nat" where
  "discriminant DtPrimArray = 0"
| "discriminant DtBoxedArray = 1"
| "discriminant DtADConst = 2"
| "discriminant DtADWitness = 3"
| "discriminant DtADSum = 4"
| "discriminant DtADMulConst = 5"
| "discriminant DtStruct = 6"
| "discriminant DtRefCell = 7"

definition layout_new_sized :: "data_type \<Rightarrow> nat \<Rightarrow> u64 option" where
  "layout_new_sized t n = do {
     ensure (n < 2 ^ 56);
     Some (of_nat (discriminant t) OR push_bit 8 (of_nat n)) }"

definition layout_new :: "data_type \<Rightarrow> u64" where
  "layout_new t = of_nat (discriminant t)"

definition layout_array :: "nat \<Rightarrow> bool \<Rightarrow> u64 option" where
  "layout_array n ptr_elems = layout_new_sized (if ptr_elems then DtBoxedArray else DtPrimArray) n"

definition new_struct :: "nat \<Rightarrow> u64 option" where
  "new_struct idx = layout_new_sized DtStruct idx"

definition struct_layout_idx :: "u64 \<Rightarrow> nat" where
  "struct_layout_idx l = unat (drop_bit 8 l)"

definition ref_cell :: "nat \<Rightarrow> bool \<Rightarrow> u64 option" where
  "ref_cell elem_size elem_is_refcounted = do {
     ensure (elem_size < 8);
     layout_new_sized DtRefCell (push_bit 3 (of_bool elem_is_refcounted) OR elem_size) }"

definition ref_cell_elem_size :: "u64 \<Rightarrow> nat" where
  "ref_cell_elem_size l = unat (drop_bit 8 l AND 7)"

definition ref_cell_elem_is_refcounted :: "u64 \<Rightarrow> bool" where
  "ref_cell_elem_is_refcounted l \<longleftrightarrow> drop_bit 8 l AND 8 \<noteq> 0"

text \<open>The low byte names the kind; the code transmutes it, which only the eight discriminants allow.\<close>

definition layout_data_type :: "u64 \<Rightarrow> data_type option" where
  "layout_data_type l = nth_opt data_types (unat (l AND 255))"

definition array_size :: "u64 \<Rightarrow> nat" where
  "array_size l = unat (drop_bit 8 l)"

subsection \<open>Descriptors of structs\<close>

record struct_descriptor =
  sd_fields :: "(nat \<times> bool) list"
  sd_total_size :: nat

text \<open>A field size is a \<^verbatim>\<open>u32\<close>, and their sum is checked to be one.\<close>

definition struct_descriptor_new :: "(nat \<times> bool) list \<Rightarrow> struct_descriptor option" where
  "struct_descriptor_new fs = do {
     total \<leftarrow> opt_fold (\<lambda>(sz, _) total. do { ensure (sz > 0); ensure (total + sz < 2 ^ 32); Some (total + sz) }) fs 0;
     Some \<lparr>sd_fields = fs, sd_total_size = total\<rparr> }"

definition as_struct :: "struct_descriptor list \<Rightarrow> u64 \<Rightarrow> struct_descriptor option" where
  "as_struct tbl l = nth_opt tbl (struct_layout_idx l)"

text \<open>The words of an object with its header of three words; a field element takes four words.\<close>

definition underlying_array_size :: "struct_descriptor list \<Rightarrow> u64 \<Rightarrow> nat option" where
  "underlying_array_size tbl l = do {
     t \<leftarrow> layout_data_type l;
     words \<leftarrow> (case t of
         DtADConst \<Rightarrow> Some 4
       | DtADWitness \<Rightarrow> Some 1
       | DtADMulConst \<Rightarrow> Some 17
       | DtADSum \<Rightarrow> Some 14
       | DtBoxedArray \<Rightarrow> Some (array_size l)
       | DtPrimArray \<Rightarrow> Some (array_size l)
       | DtStruct \<Rightarrow> map_option sd_total_size (as_struct tbl l)
       | DtRefCell \<Rightarrow> Some (ref_cell_elem_size l));
     Some (words + 3) }"

subsection \<open>Objects and the machine\<close>

text \<open>The backward pass keeps three derivatives, of the sides A, B and C of the constraints.\<close>

datatype side = SideA | SideB | SideC

datatype 'f payload =
    PWords "u64 list"
  | PConst 'f
  | PWitness u64
  | PSum u64 u64 "side \<Rightarrow> 'f"
  | PMulConst 'f u64 "side \<Rightarrow> 'f"

record 'f object =
  o_layout :: u64
  o_rc :: u64
  o_table :: u64
  o_data :: "'f payload"

datatype alloc_event = AllocHeap nat | FreeHeap nat

text \<open>The parts of the machine that the heap uses.\<close>

record 'f vm =
  vm_heap :: "u64 \<Rightarrow> 'f object option"
  vm_events :: "alloc_event list"
  vm_out :: "side \<Rightarrow> 'f list"
  vm_structs :: "struct_descriptor list"
  vm_coeffs :: "'f list"
  vm_cnst_off :: nat
  vm_wit_off :: nat

definition put_object :: "u64 \<Rightarrow> 'f object \<Rightarrow> 'f vm \<Rightarrow> 'f vm" where
  "put_object p c vm = vm\<lparr>vm_heap := (vm_heap vm)(p \<mapsto> c)\<rparr>"

text \<open>The allocator of the standard library gives a pointer \<open>p\<close> to memory with arbitrary contents \<open>junk\<close>.\<close>

definition boxed_alloc :: "u64 \<Rightarrow> 'f payload \<Rightarrow> u64 \<Rightarrow> 'f vm \<Rightarrow> 'f vm option" where
  "boxed_alloc p junk layout vm = do {
     arr_size \<leftarrow> underlying_array_size (vm_structs vm) layout;
     Some (put_object p \<lparr>o_layout = layout, o_rc = 1, o_table = - 1, o_data = junk\<rparr>
       (vm\<lparr>vm_events := vm_events vm @ [AllocHeap arr_size]\<rparr>)) }"

definition free_object :: "u64 \<Rightarrow> 'f vm \<Rightarrow> 'f vm option" where
  "free_object p vm = do {
     c \<leftarrow> vm_heap vm p;
     arr_size \<leftarrow> underlying_array_size (vm_structs vm) (o_layout c);
     Some (vm\<lparr>vm_heap := (vm_heap vm)(p := None), vm_events := vm_events vm @ [FreeHeap arr_size]\<rparr>) }"

definition boxed_inc_rc :: "u64 \<Rightarrow> u64 \<Rightarrow> 'f vm \<Rightarrow> 'f vm option" where
  "boxed_inc_rc p by vm = do {
     c \<leftarrow> vm_heap vm p;
     Some (put_object p (c\<lparr>o_rc := o_rc c + by\<rparr>) vm) }"

subsection \<open>Bumping a node of the backward pass\<close>

definition add_out :: "side \<Rightarrow> nat \<Rightarrow> 'f::field \<Rightarrow> 'f vm \<Rightarrow> 'f vm option" where
  "add_out d i amount vm = do {
     ensure (i < length (vm_out vm d));
     Some (vm\<lparr>vm_out := (vm_out vm)(d := (vm_out vm d)[i := vm_out vm d ! i + amount])\<rparr>) }"

text \<open>\<^verbatim>\<open>bump_da\<close>, \<^verbatim>\<open>bump_db\<close>, \<^verbatim>\<open>bump_dc\<close>, for the three sides.\<close>

definition bump :: "side \<Rightarrow> u64 \<Rightarrow> 'f::field \<Rightarrow> 'f vm \<Rightarrow> 'f vm option" where
  "bump d p amount vm = do {
     c \<leftarrow> vm_heap vm p;
     t \<leftarrow> layout_data_type (o_layout c);
     (case (t, o_data c) of
        (DtADConst, PConst v) \<Rightarrow> add_out d 0 (amount * v) vm
      | (DtADWitness, PWitness i) \<Rightarrow> add_out d (unat i) amount vm
      | (DtADSum, PSum a b acc) \<Rightarrow> Some (put_object p (c\<lparr>o_data := PSum a b (acc(d := acc d + amount))\<rparr>) vm)
      | (DtADMulConst, PMulConst k v acc) \<Rightarrow>
          Some (put_object p (c\<lparr>o_data := PMulConst k v (acc(d := acc d + amount))\<rparr>) vm)
      | _ \<Rightarrow> None) }"

definition bump_all :: "u64 \<Rightarrow> (side \<Rightarrow> 'f::field) \<Rightarrow> 'f vm \<Rightarrow> 'f vm option" where
  "bump_all p amount vm = do {
     vm \<leftarrow> bump SideA p (amount SideA) vm;
     vm \<leftarrow> bump SideB p (amount SideB) vm;
     bump SideC p (amount SideC) vm }"

subsection \<open>Dropping a reference\<close>

text \<open>The references to objects among the words of a struct.\<close>

fun struct_refs :: "(nat \<times> bool) list \<Rightarrow> nat \<Rightarrow> u64 list \<Rightarrow> u64 list option" where
  "struct_refs [] field_offset ws = Some []"
| "struct_refs ((sz, refcounted) # fs) field_offset ws = (if refcounted
     then do {
       elem \<leftarrow> nth_opt ws field_offset;
       elems \<leftarrow> struct_refs fs (field_offset + sz) ws;
       Some (elem # elems) }
     else struct_refs fs (field_offset + sz) ws)"

text \<open>What \<^verbatim>\<open>dec_rc\<close> does to an object whose last reference goes: pass on the derivatives, collect the references
  it holds, free it.\<close>

definition release :: "u64 \<Rightarrow> 'f::field vm \<Rightarrow> (u64 list \<times> 'f vm) option" where
  "release p vm = do {
     c \<leftarrow> vm_heap vm p;
     t \<leftarrow> layout_data_type (o_layout c);
     (elems, vm) \<leftarrow> (case (t, o_data c) of
        (DtPrimArray, _) \<Rightarrow> Some ([], vm)
      | (DtBoxedArray, PWords ws) \<Rightarrow> do {
          elems \<leftarrow> opt_map (nth_opt ws) [0..<array_size (o_layout c)];
          Some (elems, vm) }
      | (DtStruct, PWords ws) \<Rightarrow> do {
          desc \<leftarrow> as_struct (vm_structs vm) (o_layout c);
          elems \<leftarrow> struct_refs (sd_fields desc) 0 ws;
          Some (elems, vm) }
      | (DtRefCell, PWords ws) \<Rightarrow>
          if ref_cell_elem_is_refcounted (o_layout c) then do {
            elem \<leftarrow> nth_opt ws 0;
            Some (if elem \<noteq> 0 then [elem] else [], vm) }
          else Some ([], vm)
      | (DtADConst, _) \<Rightarrow> Some ([], vm)
      | (DtADWitness, _) \<Rightarrow> Some ([], vm)
      | (DtADSum, PSum a b acc) \<Rightarrow> do {
          vm \<leftarrow> bump_all a acc vm;
          vm \<leftarrow> bump_all b acc vm;
          Some ([a, b], vm) }
      | (DtADMulConst, PMulConst k v acc) \<Rightarrow> do {
          vm \<leftarrow> bump_all v (\<lambda>d. acc d * k) vm;
          Some ([v], vm) }
      | _ \<Rightarrow> None);
     vm \<leftarrow> free_object p vm;
     Some (elems, vm) }"

definition dec_rc_step :: "u64 list \<Rightarrow> 'f::field vm \<Rightarrow> (u64 list \<times> 'f vm) option" where
  "dec_rc_step queue vm = do {
     c \<leftarrow> vm_heap vm (hd queue);
     if o_rc c = 1 then do {
       (elems, vm) \<leftarrow> release (hd queue) vm;
       Some (tl queue @ elems, vm) }
     else Some (tl queue, put_object (hd queue) (c\<lparr>o_rc := o_rc c - 1\<rparr>) vm) }"

partial_function (option) dec_rc_loop :: "u64 list \<Rightarrow> 'f::field vm \<Rightarrow> 'f vm option" where
  "dec_rc_loop queue vm = (if queue = [] then Some vm
     else do {
       (queue, vm) \<leftarrow> dec_rc_step queue vm;
       dec_rc_loop queue vm })"

definition boxed_dec_rc :: "u64 \<Rightarrow> 'f::field vm \<Rightarrow> 'f vm option" where
  "boxed_dec_rc p vm = dec_rc_loop [p] vm"

subsection \<open>Copy on write\<close>

text \<open>Copying \<open>n\<close> words over the words at an offset.\<close>

definition write_words :: "nat \<Rightarrow> u64 list \<Rightarrow> u64 list \<Rightarrow> u64 list option" where
  "write_words off src ws = do {
     ensure (off + length src \<le> length ws);
     Some (take off ws @ src @ drop (off + length src) ws) }"

text \<open>The pointer \<open>p'\<close> and \<open>junk\<close> are what the allocator gives when a copy is needed.\<close>

definition copy_if_reused :: "u64 \<Rightarrow> u64 list \<Rightarrow> u64 \<Rightarrow> 'f vm \<Rightarrow> (u64 \<times> 'f vm) option" where
  "copy_if_reused p' junk p vm = do {
     c \<leftarrow> vm_heap vm p;
     if o_rc c = 1 then Some (p, vm)
     else (case o_data c of
         PWords ws \<Rightarrow> do {
           ensure (array_size (o_layout c) \<le> length ws);
           ws' \<leftarrow> write_words 0 (take (array_size (o_layout c)) ws) junk;
           vm \<leftarrow> boxed_alloc p' (PWords ws') (o_layout c) vm;
           Some (p', put_object p (c\<lparr>o_rc := o_rc c - 1\<rparr>) vm) }
       | _ \<Rightarrow> None) }"

subsection \<open>Opcodes on objects\<close>

text \<open>The opcodes of \<^verbatim>\<open>vm/src/bytecode.rs\<close> that work on objects. What an opcode reads from the frame is an
  argument, what it writes to the frame a result; \<open>stride\<close> is the number of words of an element.\<close>

definition payload_words :: "'f payload \<Rightarrow> u64 list option" where
  "payload_words d = (case d of PWords ws \<Rightarrow> Some ws | _ \<Rightarrow> None)"

definition get_words :: "u64 \<Rightarrow> 'f vm \<Rightarrow> u64 list option" where
  "get_words p vm = do { c \<leftarrow> vm_heap vm p; payload_words (o_data c) }"

definition set_words :: "u64 \<Rightarrow> nat \<Rightarrow> u64 list \<Rightarrow> 'f vm \<Rightarrow> 'f vm option" where
  "set_words p off src vm = do {
     c \<leftarrow> vm_heap vm p;
     ws \<leftarrow> payload_words (o_data c);
     ws' \<leftarrow> write_words off src ws;
     Some (put_object p (c\<lparr>o_data := PWords ws'\<rparr>) vm) }"

definition read_words :: "u64 \<Rightarrow> nat \<Rightarrow> nat \<Rightarrow> 'f vm \<Rightarrow> u64 list option" where
  "read_words p off n vm = do {
     ws \<leftarrow> get_words p vm;
     ensure (off + n \<le> length ws);
     Some (take n (drop off ws)) }"

definition op_array_alloc :: "u64 \<Rightarrow> u64 list \<Rightarrow> nat \<Rightarrow> u64 \<Rightarrow> u64 list list \<Rightarrow> 'f vm \<Rightarrow> (u64 \<times> 'f vm) option" where
  "op_array_alloc p junk stride meta items vm = do {
     vm \<leftarrow> boxed_alloc p (PWords junk) meta vm;
     vm \<leftarrow> opt_fold (\<lambda>(i, item). set_words p (i * stride) item) (enumerate 0 items) vm;
     Some (p, vm) }"

definition op_array_alloc_repeated ::
  "u64 \<Rightarrow> u64 list \<Rightarrow> nat \<Rightarrow> u64 \<Rightarrow> nat \<Rightarrow> u64 list \<Rightarrow> 'f vm \<Rightarrow> (u64 \<times> 'f vm) option" where
  "op_array_alloc_repeated p junk stride meta n item vm = do {
     vm \<leftarrow> boxed_alloc p (PWords junk) meta vm;
     vm \<leftarrow> opt_fold (\<lambda>i. set_words p (i * stride) item) [0..<n] vm;
     Some (p, vm) }"

fun write_fields :: "u64 \<Rightarrow> (nat \<times> bool) list \<Rightarrow> nat \<Rightarrow> u64 list list \<Rightarrow> 'f vm \<Rightarrow> 'f vm option" where
  "write_fields p ((sz, _) # fs) field_offset (w # ws) vm = do {
     ensure (length w = sz);
     vm \<leftarrow> set_words p field_offset w vm;
     write_fields p fs (field_offset + sz) ws vm }"
| "write_fields p fs field_offset [] vm = Some vm"
| "write_fields p [] field_offset (w # ws) vm = None"

definition op_tuple_alloc :: "u64 \<Rightarrow> u64 list \<Rightarrow> u64 \<Rightarrow> u64 list list \<Rightarrow> 'f vm \<Rightarrow> (u64 \<times> 'f vm) option" where
  "op_tuple_alloc p junk meta ws vm = do {
     vm \<leftarrow> boxed_alloc p (PWords junk) meta vm;
     view \<leftarrow> as_struct (vm_structs vm) meta;
     vm \<leftarrow> write_fields p (sd_fields view) 0 ws vm;
     Some (p, vm) }"

definition op_ref_alloc :: "u64 \<Rightarrow> u64 list \<Rightarrow> u64 \<Rightarrow> 'f vm \<Rightarrow> (u64 \<times> 'f vm) option" where
  "op_ref_alloc p junk meta vm = do {
     vm \<leftarrow> boxed_alloc p (PWords junk) meta vm;
     vm \<leftarrow> set_words p 0 (replicate (ref_cell_elem_size meta) 0) vm;
     Some (p, vm) }"

definition op_ref_store :: "u64 \<Rightarrow> u64 list \<Rightarrow> bool \<Rightarrow> 'f::field vm \<Rightarrow> 'f vm option" where
  "op_ref_store cell source elem_rc vm = do {
     vm \<leftarrow> (if elem_rc then do {
         old \<leftarrow> read_words cell 0 1 vm;
         if hd old \<noteq> 0 then boxed_dec_rc (hd old) vm else Some vm }
       else Some vm);
     set_words cell 0 source vm }"

definition op_ref_load :: "u64 \<Rightarrow> nat \<Rightarrow> 'f vm \<Rightarrow> u64 list option" where
  "op_ref_load cell stride vm = read_words cell 0 stride vm"

text \<open>The product of index and stride wraps at 64 bits.\<close>

definition element_offset :: "u64 \<Rightarrow> nat \<Rightarrow> nat" where
  "element_offset index stride = unat (index * of_nat stride)"

definition op_array_get :: "u64 \<Rightarrow> u64 \<Rightarrow> nat \<Rightarrow> 'f vm \<Rightarrow> u64 list option" where
  "op_array_get array index stride vm = do {
     c \<leftarrow> vm_heap vm array;
     ensure (element_offset index stride < array_size (o_layout c));
     read_words array (element_offset index stride) stride vm }"

definition op_tuple_proj :: "u64 \<Rightarrow> nat \<Rightarrow> nat \<Rightarrow> 'f vm \<Rightarrow> u64 list option" where
  "op_tuple_proj tuple field_offset field_size vm = read_words tuple field_offset field_size vm"

text \<open>The elements of a copied array that the new array now shares with the old one.\<close>

definition share_elements :: "u64 \<Rightarrow> nat \<Rightarrow> nat \<Rightarrow> nat \<Rightarrow> 'f vm \<Rightarrow> 'f vm option" where
  "share_elements p n index stride vm = opt_fold (\<lambda>i vm. if i \<noteq> index
       then do { elem \<leftarrow> read_words p (i * stride) 1 vm; boxed_inc_rc (hd elem) 1 vm }
       else Some vm) [0..<n] vm"

definition op_array_set ::
  "u64 \<Rightarrow> u64 list \<Rightarrow> u64 \<Rightarrow> u64 \<Rightarrow> u64 list \<Rightarrow> nat \<Rightarrow> 'f::field vm \<Rightarrow> (u64 \<times> 'f vm) option" where
  "op_array_set p' junk array index source stride vm = do {
     c \<leftarrow> vm_heap vm array;
     ensure (element_offset index stride < array_size (o_layout c));
     (new_array, vm) \<leftarrow> copy_if_reused p' junk array vm;
     t \<leftarrow> layout_data_type (o_layout c);
     vm \<leftarrow> (if t = DtBoxedArray then
         if new_array = array then do {
           old_elem \<leftarrow> read_words new_array (element_offset index stride) 1 vm;
           boxed_dec_rc (hd old_elem) vm }
         else share_elements new_array (array_size (o_layout c)) (unat index) stride vm
       else Some vm);
     vm \<leftarrow> set_words new_array (element_offset index stride) source vm;
     Some (new_array, vm) }"

definition op_slice_len :: "u64 \<Rightarrow> nat \<Rightarrow> 'f vm \<Rightarrow> u64 option" where
  "op_slice_len array stride vm = do {
     c \<leftarrow> vm_heap vm array;
     ensure (stride \<noteq> 0);
     Some (of_nat (array_size (o_layout c) div stride)) }"

text \<open>Nodes of the backward pass.\<close>

definition op_pure_to_witness_ref :: "u64 \<Rightarrow> 'f \<Rightarrow> 'f vm \<Rightarrow> (u64 \<times> 'f vm) option" where
  "op_pure_to_witness_ref p v vm = do {
     vm \<leftarrow> boxed_alloc p (PConst v) (layout_new DtADConst) vm;
     Some (p, vm) }"

definition op_next_d_coeff :: "'f vm \<Rightarrow> ('f \<times> 'f vm) option" where
  "op_next_d_coeff vm = do {
     v \<leftarrow> nth_opt (vm_coeffs vm) (vm_cnst_off vm);
     Some (v, vm\<lparr>vm_cnst_off := vm_cnst_off vm + 1\<rparr>) }"

definition op_fresh_witness :: "u64 \<Rightarrow> 'f vm \<Rightarrow> (u64 \<times> 'f vm) option" where
  "op_fresh_witness p vm = do {
     let index = of_nat (vm_wit_off vm);
     let vm = vm\<lparr>vm_wit_off := vm_wit_off vm + 1\<rparr>;
     vm \<leftarrow> boxed_alloc p (PWitness index) (layout_new DtADWitness) vm;
     Some (p, vm) }"

definition op_unbox_field :: "u64 \<Rightarrow> 'f vm \<Rightarrow> 'f option" where
  "op_unbox_field p vm = do {
     c \<leftarrow> vm_heap vm p;
     (case o_data c of PConst v \<Rightarrow> Some v | _ \<Rightarrow> None) }"

definition op_mul_const :: "u64 \<Rightarrow> 'f::field \<Rightarrow> u64 \<Rightarrow> 'f vm \<Rightarrow> (u64 \<times> 'f vm) option" where
  "op_mul_const p coeff v vm = do {
     vm \<leftarrow> boxed_alloc p (PMulConst coeff v (\<lambda>_. 0)) (layout_new DtADMulConst) vm;
     Some (p, vm) }"

definition op_add_boxed :: "u64 \<Rightarrow> u64 \<Rightarrow> u64 \<Rightarrow> 'f::field vm \<Rightarrow> (u64 \<times> 'f vm) option" where
  "op_add_boxed p a b vm = do {
     vm \<leftarrow> boxed_alloc p (PSum a b (\<lambda>_. 0)) (layout_new DtADSum) vm;
     Some (p, vm) }"

end
