(* ===== verification/VM_Refcount.thy ===== *)
theory VM_Refcount
  imports Complex_Main VM_Heap
begin

text \<open>
  Reference counting and the derivatives on the heap of the virtual machine. \<open>heap_ok vm R\<close> says that every object
  is well formed, that its count is the number of references to it from the list \<open>R\<close> of outside references and from
  the other objects, and that no reference dangles. \<^verbatim>\<open>dec_rc\<close> keeps that and always returns; the derivatives it passes
  on keep the total of every linear equation.
\<close>

subsection \<open>The references an object holds\<close>

definition held :: "struct_descriptor list \<Rightarrow> 'f object \<Rightarrow> u64 list option" where
  "held tbl c = do {
     t \<leftarrow> layout_data_type (o_layout c);
     (case (t, o_data c) of
        (DtPrimArray, PWords ws) \<Rightarrow> Some []
      | (DtBoxedArray, PWords ws) \<Rightarrow> opt_map (nth_opt ws) [0..<array_size (o_layout c)]
      | (DtStruct, PWords ws) \<Rightarrow> do {
          desc \<leftarrow> as_struct tbl (o_layout c);
          struct_refs (sd_fields desc) 0 ws }
      | (DtRefCell, PWords ws) \<Rightarrow>
          if ref_cell_elem_is_refcounted (o_layout c)
          then map_option (\<lambda>elem. if elem \<noteq> 0 then [elem] else []) (nth_opt ws 0) else Some []
      | (DtADConst, PConst v) \<Rightarrow> Some []
      | (DtADWitness, PWitness i) \<Rightarrow> Some []
      | (DtADSum, PSum a b acc) \<Rightarrow> Some [a, b]
      | (DtADMulConst, PMulConst k v acc) \<Rightarrow> Some [v]
      | _ \<Rightarrow> None) }"

definition ad_node :: "'f object \<Rightarrow> bool" where
  "ad_node c \<longleftrightarrow> (case o_data c of PWords _ \<Rightarrow> False | _ \<Rightarrow> True)"

definition kids :: "struct_descriptor list \<Rightarrow> (u64 \<Rightarrow> 'f object option) \<Rightarrow> u64 \<Rightarrow> u64 list" where
  "kids tbl h p = (case h p of Some c \<Rightarrow> (case held tbl c of Some ks \<Rightarrow> ks | None \<Rightarrow> []) | None \<Rightarrow> [])"

definition rc_of :: "(u64 \<Rightarrow> 'f object option) \<Rightarrow> u64 \<Rightarrow> nat" where
  "rc_of h p = (case h p of Some c \<Rightarrow> unat (o_rc c) | None \<Rightarrow> 0)"

text \<open>The references to \<open>p\<close>, from outside and from the objects.\<close>

definition inner_refs :: "struct_descriptor list \<Rightarrow> (u64 \<Rightarrow> 'f object option) \<Rightarrow> u64 \<Rightarrow> nat" where
  "inner_refs tbl h p = (\<Sum>q\<in>Map.dom h. count_list (kids tbl h q) p)"

definition object_ok :: "struct_descriptor list \<Rightarrow> (side \<Rightarrow> nat) \<Rightarrow> (u64 \<Rightarrow> 'f object option) \<Rightarrow> 'f object \<Rightarrow> bool" where
  "object_ok tbl n h c \<longleftrightarrow> held tbl c \<noteq> None
     \<and> underlying_array_size tbl (o_layout c) \<noteq> None
     \<and> set (the (held tbl c)) \<subseteq> Map.dom h
     \<and> (ad_node c \<longrightarrow> (\<forall>k\<in>set (the (held tbl c)). ad_node (the (h k))))
     \<and> (case o_data c of
          PConst v \<Rightarrow> 0 < n SideA \<and> 0 < n SideB \<and> 0 < n SideC
        | PWitness i \<Rightarrow> unat i < n SideA \<and> unat i < n SideB \<and> unat i < n SideC
        | _ \<Rightarrow> True)"

definition out_len :: "'f vm \<Rightarrow> side \<Rightarrow> nat" where
  "out_len vm d = length (vm_out vm d)"

definition heap_ok :: "'f vm \<Rightarrow> u64 list \<Rightarrow> bool" where
  "heap_ok vm R \<longleftrightarrow> finite (Map.dom (vm_heap vm)) \<and> set R \<subseteq> Map.dom (vm_heap vm)
     \<and> (\<forall>p\<in>Map.dom (vm_heap vm). object_ok (vm_structs vm) (out_len vm) (vm_heap vm) (the (vm_heap vm p)))
     \<and> (\<forall>p\<in>Map.dom (vm_heap vm). 0 < rc_of (vm_heap vm) p
          \<and> count_list R p + inner_refs (vm_structs vm) (vm_heap vm) p = rc_of (vm_heap vm) p)"

lemma heap_okI:
  assumes "finite (Map.dom (vm_heap vm))" "set R \<subseteq> Map.dom (vm_heap vm)"
    "\<And>p. p \<in> Map.dom (vm_heap vm) \<Longrightarrow> object_ok (vm_structs vm) (out_len vm) (vm_heap vm) (the (vm_heap vm p))"
    "\<And>p. p \<in> Map.dom (vm_heap vm) \<Longrightarrow> 0 < rc_of (vm_heap vm) p
       \<and> count_list R p + inner_refs (vm_structs vm) (vm_heap vm) p = rc_of (vm_heap vm) p"
  shows "heap_ok vm R"
  using assms unfolding heap_ok_def by blast

lemma heap_ok_object:
  "heap_ok vm R \<Longrightarrow> vm_heap vm p = Some c \<Longrightarrow> object_ok (vm_structs vm) (out_len vm) (vm_heap vm) c"
  unfolding heap_ok_def by (metis domI option.sel)

lemma heap_ok_finite: "heap_ok vm R \<Longrightarrow> finite (Map.dom (vm_heap vm))"
  by (simp add: heap_ok_def)

lemma heap_ok_root: "heap_ok vm (p # R) \<Longrightarrow> \<exists>c. vm_heap vm p = Some c"
  by (auto simp: heap_ok_def)

lemma heap_ok_rc:
  "heap_ok vm R \<Longrightarrow> vm_heap vm p = Some c \<Longrightarrow>
    0 < unat (o_rc c) \<and> unat (o_rc c) = count_list R p + inner_refs (vm_structs vm) (vm_heap vm) p"
  unfolding heap_ok_def rc_of_def by (metis (no_types, lifting) domI option.simps(5))

subsection \<open>What a bump leaves alone\<close>

text \<open>An object without its accumulators.\<close>

definition strip :: "'f::zero object \<Rightarrow> 'f object" where
  "strip c = c\<lparr>o_data := (case o_data c of
       PSum a b acc \<Rightarrow> PSum a b (\<lambda>_. 0) | PMulConst k v acc \<Rightarrow> PMulConst k v (\<lambda>_. 0) | d \<Rightarrow> d)\<rparr>"

definition same_shape :: "'f::zero vm \<Rightarrow> 'f vm \<Rightarrow> bool" where
  "same_shape vm vm' \<longleftrightarrow> (\<forall>p. map_option strip (vm_heap vm' p) = map_option strip (vm_heap vm p))
     \<and> out_len vm' = out_len vm \<and> vm_structs vm' = vm_structs vm \<and> vm_events vm' = vm_events vm"

lemma strip_simps [simp]:
  "o_layout (strip c) = o_layout c" "o_rc (strip c) = o_rc c" "held tbl (strip c) = held tbl c"
  "ad_node (strip c) = ad_node c"
  by (simp_all add: strip_def held_def ad_node_def split: payload.split)

lemma rc_update_simps [simp]:
  "held tbl (c\<lparr>o_rc := r\<rparr>) = held tbl c" "ad_node (c\<lparr>o_rc := r\<rparr>) = ad_node c"
  by (auto simp: held_def ad_node_def split: data_type.split payload.split)

lemma strip_rc [simp]: "strip (c\<lparr>o_rc := r\<rparr>) = strip c\<lparr>o_rc := r\<rparr>"
  by (simp add: strip_def)

lemma out_len_simps [simp]:
  "out_len (vm\<lparr>vm_heap := h\<rparr>) = out_len vm" "out_len (vm\<lparr>vm_events := ev\<rparr>) = out_len vm"
  "out_len (put_object p c vm) = out_len vm" "out_len (vm\<lparr>vm_wit_off := w\<rparr>) = out_len vm"
  by (simp_all add: out_len_def put_object_def fun_eq_iff)

lemma strip_eqD:
  assumes "strip c = strip c'"
  shows "o_layout c = o_layout c'" "o_rc c = o_rc c'" "held tbl c = held tbl c'" "ad_node c = ad_node c'"
  using assms by (metis strip_simps)+

lemma object_ok_strip: "object_ok tbl n h (strip c) = object_ok tbl n h c"
  by (simp add: object_ok_def) (simp add: strip_def split: payload.split)

lemma same_shape_refl [simp]: "same_shape vm vm"
  by (simp add: same_shape_def)

lemma same_shape_trans: "same_shape vm vm' \<Longrightarrow> same_shape vm' vm'' \<Longrightarrow> same_shape vm vm''"
  by (simp add: same_shape_def)

lemma same_shape_dom: "same_shape vm vm' \<Longrightarrow> Map.dom (vm_heap vm') = Map.dom (vm_heap vm)"
  unfolding same_shape_def Map.dom_def by (metis option.map_disc_iff)

lemma same_shape_at:
  assumes "same_shape vm vm'" "vm_heap vm p = Some c"
  obtains c' where "vm_heap vm' p = Some c'" "strip c' = strip c"
  using assms unfolding same_shape_def by (metis (no_types, lifting) map_option_eq_Some)

lemma same_shape_kids:
  assumes "same_shape vm vm'" shows "kids (vm_structs vm') (vm_heap vm') p = kids (vm_structs vm) (vm_heap vm) p"
proof (cases "vm_heap vm p")
  case None
  then show ?thesis using assms unfolding same_shape_def kids_def
    by (metis (no_types, lifting) map_option_is_None option.simps(4))
next
  case (Some c)
  with assms obtain c' where "vm_heap vm' p = Some c'" "strip c' = strip c" by (rule same_shape_at)
  then show ?thesis using assms Some strip_eqD(3)[of c' c] by (simp add: kids_def same_shape_def)
qed

lemma same_shape_rc:
  assumes "same_shape vm vm'" shows "rc_of (vm_heap vm') p = rc_of (vm_heap vm) p"
proof (cases "vm_heap vm p")
  case None
  then show ?thesis using assms unfolding same_shape_def rc_of_def
    by (metis (no_types, lifting) map_option_is_None option.simps(4))
next
  case (Some c)
  with assms obtain c' where "vm_heap vm' p = Some c'" "strip c' = strip c" by (rule same_shape_at)
  then show ?thesis using Some strip_eqD(2)[of c' c] by (simp add: rc_of_def)
qed

lemma same_shape_object_ok:
  assumes "same_shape vm vm'" "vm_heap vm p = Some c" "vm_heap vm' p = Some c'"
    and ok: "object_ok (vm_structs vm) (out_len vm) (vm_heap vm) c"
  shows "object_ok (vm_structs vm') (out_len vm') (vm_heap vm') c'"
proof -
  have s: "strip c' = strip c" using assms(1-3) unfolding same_shape_def by (metis option.inject option.map(2))
  have h: "ad_node (the (vm_heap vm' k)) = ad_node (the (vm_heap vm k))" if "k \<in> Map.dom (vm_heap vm)" for k
  proof -
    from that obtain d where d: "vm_heap vm k = Some d" by auto
    with assms(1) obtain d' where "vm_heap vm' k = Some d'" "strip d' = strip d" by (rule same_shape_at)
    with d show ?thesis using strip_eqD(4)[of d' d] by simp
  qed
  have "object_ok (vm_structs vm) (out_len vm) (vm_heap vm) (strip c)" using ok by (simp add: object_ok_strip)
  hence "object_ok (vm_structs vm') (out_len vm') (vm_heap vm') (strip c')"
    using s same_shape_dom[OF assms(1)] assms(1) h
    by (auto simp: object_ok_def same_shape_def subset_iff)
  then show ?thesis by (simp add: object_ok_strip)
qed

lemma same_shape_ok:
  assumes s: "same_shape vm vm'" and ok: "heap_ok vm R" shows "heap_ok vm' R"
proof -
  have "object_ok (vm_structs vm') (out_len vm') (vm_heap vm') (the (vm_heap vm' p))"
    if p: "p \<in> Map.dom (vm_heap vm)" for p
  proof -
    from p obtain c where c: "vm_heap vm p = Some c" by auto
    with s obtain c' where c': "vm_heap vm' p = Some c'" by (rule same_shape_at)
    have "object_ok (vm_structs vm) (out_len vm) (vm_heap vm) c" by (rule heap_ok_object[OF ok c])
    with same_shape_object_ok[OF s c c'] c' show ?thesis by simp
  qed
  then show ?thesis using ok
    by (simp only: heap_ok_def same_shape_dom[OF s] same_shape_rc[OF s] inner_refs_def same_shape_kids[OF s]) blast
qed

subsection \<open>Linear equations\<close>

text \<open>A node of the backward pass stands for a linear combination of the outputs; \<open>L p i\<close> is the coefficient of
  output \<open>i\<close> in the node at \<open>p\<close>.\<close>

definition solves :: "(u64 \<Rightarrow> nat \<Rightarrow> 'f::field) \<Rightarrow> 'f vm \<Rightarrow> bool" where
  "solves L vm \<longleftrightarrow> (\<forall>p\<in>Map.dom (vm_heap vm). (case o_data (the (vm_heap vm p)) of
       PConst v \<Rightarrow> L p = (\<lambda>i. if i = 0 then v else 0)
     | PWitness w \<Rightarrow> L p = (\<lambda>i. if i = unat w then 1 else 0)
     | PSum a b _ \<Rightarrow> L p = (\<lambda>i. L a i + L b i)
     | PMulConst k v _ \<Rightarrow> L p = (\<lambda>i. k * L v i)
     | PWords _ \<Rightarrow> True))"

definition acc_of :: "'f::field object \<Rightarrow> side \<Rightarrow> 'f" where
  "acc_of c d = (case o_data c of PSum _ _ acc \<Rightarrow> acc d | PMulConst _ _ acc \<Rightarrow> acc d | _ \<Rightarrow> 0)"

text \<open>The derivative of output \<open>i\<close> with what the accumulators will still add to it.\<close>

definition dtotal :: "(u64 \<Rightarrow> nat \<Rightarrow> 'f::field) \<Rightarrow> 'f vm \<Rightarrow> side \<Rightarrow> nat \<Rightarrow> 'f" where
  "dtotal L vm d i = vm_out vm d ! i + (\<Sum>p\<in>Map.dom (vm_heap vm). acc_of (the (vm_heap vm p)) d * L p i)"

lemma solvesD:
  assumes "solves L vm" "vm_heap vm p = Some c"
  shows "o_data c = PConst v \<Longrightarrow> L p = (\<lambda>i. if i = 0 then v else 0)"
    and "o_data c = PWitness w \<Longrightarrow> L p = (\<lambda>i. if i = unat w then 1 else 0)"
    and "o_data c = PSum a b acc \<Longrightarrow> L p = (\<lambda>i. L a i + L b i)"
    and "o_data c = PMulConst k x acc \<Longrightarrow> L p = (\<lambda>i. k * L x i)"
proof -
  have "p \<in> Map.dom (vm_heap vm)" using assms(2) by auto
  note m = bspec[OF assms(1)[unfolded solves_def] this, unfolded assms(2) option.sel]
  show "o_data c = PConst v \<Longrightarrow> L p = (\<lambda>i. if i = 0 then v else 0)"
    and "o_data c = PWitness w \<Longrightarrow> L p = (\<lambda>i. if i = unat w then 1 else 0)"
    and "o_data c = PSum a b acc \<Longrightarrow> L p = (\<lambda>i. L a i + L b i)"
    and "o_data c = PMulConst k x acc \<Longrightarrow> L p = (\<lambda>i. k * L x i)"
    using m by simp_all
qed

text \<open>Writing an accumulator changes the total by what it adds.\<close>

lemma dtotal_put:
  assumes f: "finite (Map.dom (vm_heap vm))" and p: "vm_heap vm p = Some c"
  shows "dtotal L (put_object p c' vm) d i = dtotal L vm d i + (acc_of c' d - acc_of c d) * L p i"
proof -
  let ?h = "vm_heap vm"
  let ?s = "\<lambda>h. \<Sum>q\<in>Map.dom h. acc_of (the (h q)) d * L q i"
  have r: "(\<Sum>q\<in>Map.dom ?h - {p}. acc_of (the ((?h(p \<mapsto> c')) q)) d * L q i)
      = (\<Sum>q\<in>Map.dom ?h - {p}. acc_of (the (?h q)) d * L q i)"
    by (rule sum.cong) auto
  have i: "Map.dom (?h(p \<mapsto> c')) = Map.dom ?h" using p by auto
  have "p \<in> Map.dom ?h" using p by auto
  then have "?s (?h(p \<mapsto> c')) = ?s ?h + (acc_of c' d - acc_of c d) * L p i"
    unfolding i using f p by (simp add: sum.remove[of _ p] r algebra_simps)
  then show ?thesis by (simp add: dtotal_def put_object_def)
qed

lemma dtotal_add_out:
  assumes "k < length (vm_out vm e)"
  shows "dtotal L (vm\<lparr>vm_out := (vm_out vm)(e := (vm_out vm e)[k := vm_out vm e ! k + x])\<rparr>) d i
    = dtotal L vm d i + (if d = e \<and> i = k then x else 0)"
  using assms by (auto simp: dtotal_def nth_list_update)

lemma same_shape_put:
  assumes "vm_heap vm p = Some c" "strip c' = strip c" shows "same_shape vm (put_object p c' vm)"
  using assms by (simp add: same_shape_def put_object_def out_len_def fun_eq_iff)

text \<open>What bumping side \<open>d\<close> of \<open>p\<close> by \<open>x\<close> does.\<close>

definition bumped :: "(u64 \<Rightarrow> nat \<Rightarrow> 'f::field) \<Rightarrow> u64 \<Rightarrow> (side \<Rightarrow> 'f) \<Rightarrow> 'f vm \<Rightarrow> 'f vm \<Rightarrow> bool" where
  "bumped L p amount vm vm' \<longleftrightarrow> same_shape vm vm' \<and> (\<forall>q. q \<noteq> p \<longrightarrow> vm_heap vm' q = vm_heap vm q)
     \<and> (\<forall>d i. i < out_len vm d \<longrightarrow> dtotal L vm' d i = dtotal L vm d i + amount d * L p i)"

lemma ad_layout:
  assumes "object_ok tbl n h c" "ad_node c"
  shows "layout_data_type (o_layout c) = Some (case o_data c of PConst _ \<Rightarrow> DtADConst | PWitness _ \<Rightarrow> DtADWitness
    | PSum _ _ _ \<Rightarrow> DtADSum | PMulConst _ _ _ \<Rightarrow> DtADMulConst)"
  using assms unfolding object_ok_def held_def ad_node_def
  by (cases "layout_data_type (o_layout c)") (auto split: payload.splits data_type.splits)

lemma bump_ok:
  assumes ok: "heap_ok vm R" and p: "vm_heap vm p = Some c" and ad: "ad_node c" and L: "solves L vm"
  shows "\<exists>vm'. bump d p x vm = Some vm' \<and> bumped L p ((\<lambda>_. 0)(d := x)) vm vm'"
proof -
  note o = heap_ok_object[OF ok p]
  note lt = ad_layout[OF o ad]
  note f = heap_ok_finite[OF ok]
  have n: "case o_data c of PConst v \<Rightarrow> 0 < out_len vm d | PWitness i \<Rightarrow> unat i < out_len vm d | _ \<Rightarrow> True"
    using o by (cases d) (auto simp: object_ok_def split: payload.splits)
  show ?thesis
  proof (cases "o_data c")
    case (PWords ws) then show ?thesis using ad by (simp add: ad_node_def)
  next
    case (PConst v)
    show ?thesis using p lt PConst n solvesD(1)[OF L p PConst]
      by (auto simp: bump_def add_out_def out_len_def bumped_def same_shape_def dtotal_add_out fun_eq_iff)
  next
    case (PWitness w)
    show ?thesis using p lt PWitness n solvesD(2)[OF L p PWitness]
      by (auto simp: bump_def add_out_def out_len_def bumped_def same_shape_def dtotal_add_out fun_eq_iff)
  next
    case (PSum a b acc)
    let ?c = "c\<lparr>o_data := PSum a b (acc(d := acc d + x))\<rparr>"
    have "bumped L p ((\<lambda>_. 0)(d := x)) vm (put_object p ?c vm)"
      using PSum same_shape_put[OF p, of ?c] dtotal_put[OF f p]
      by (auto simp: bumped_def strip_def acc_of_def put_object_def)
    then show ?thesis using p lt PSum by (simp add: bump_def)
  next
    case (PMulConst k v acc)
    let ?c = "c\<lparr>o_data := PMulConst k v (acc(d := acc d + x))\<rparr>"
    have "bumped L p ((\<lambda>_. 0)(d := x)) vm (put_object p ?c vm)"
      using PMulConst same_shape_put[OF p, of ?c] dtotal_put[OF f p]
      by (auto simp: bumped_def strip_def acc_of_def put_object_def)
    then show ?thesis using p lt PMulConst by (simp add: bump_def)
  qed
qed

lemma same_shape_solves:
  assumes s: "same_shape vm vm'" and L: "solves L vm" shows "solves L vm'"
  unfolding solves_def
proof
  fix p assume "p \<in> Map.dom (vm_heap vm')"
  then obtain c where c: "vm_heap vm p = Some c" using same_shape_dom[OF s] by auto
  with s obtain c' where c': "vm_heap vm' p = Some c'" "strip c' = strip c" by (rule same_shape_at)
  then have "o_data (strip c') = o_data (strip c)" by simp
  with L c c'(1) show "case o_data (the (vm_heap vm' p)) of
       PConst v \<Rightarrow> L p = (\<lambda>i. if i = 0 then v else 0)
     | PWitness w \<Rightarrow> L p = (\<lambda>i. if i = unat w then 1 else 0)
     | PSum a b _ \<Rightarrow> L p = (\<lambda>i. L a i + L b i)
     | PMulConst k v _ \<Rightarrow> L p = (\<lambda>i. k * L v i)
     | PWords _ \<Rightarrow> True"
    by (cases "o_data c"; cases "o_data c'") (auto simp: strip_def dest: solvesD[OF L c])
qed

lemma bumped_trans:
  assumes a: "bumped L p a vm vm'" and b: "bumped L p b vm' vm''"
  shows "bumped L p (\<lambda>d. a d + b d) vm vm''"
proof -
  have "out_len vm' = out_len vm" using a by (simp add: bumped_def same_shape_def)
  then show ?thesis using a b same_shape_trans[of vm vm' vm''] by (simp add: bumped_def algebra_simps)
qed

lemma bump_all_ok:
  assumes ok: "heap_ok vm R" and p: "vm_heap vm p = Some c" and ad: "ad_node c" and L: "solves L vm"
  shows "\<exists>vm'. bump_all p x vm = Some vm' \<and> bumped L p x vm vm'"
proof -
  have step: "\<exists>vm2. bump d p (x d) vm1 = Some vm2 \<and> bumped L p ((\<lambda>_. 0)(d := x d)) vm1 vm2"
    if s: "same_shape vm vm1" for vm1 d
  proof -
    obtain c1 where c1: "vm_heap vm1 p = Some c1" "strip c1 = strip c" using same_shape_at[OF s p] by blast
    show ?thesis
      by (rule bump_ok[OF same_shape_ok[OF s ok] c1(1) _ same_shape_solves[OF s L]])
        (use ad strip_eqD(4)[OF c1(2)] in simp)
  qed
  obtain vm1 where 1: "bump SideA p (x SideA) vm = Some vm1" "bumped L p ((\<lambda>_. 0)(SideA := x SideA)) vm vm1"
    using step[OF same_shape_refl] by blast
  then have s1: "same_shape vm vm1" by (simp add: bumped_def)
  obtain vm2 where 2: "bump SideB p (x SideB) vm1 = Some vm2" "bumped L p ((\<lambda>_. 0)(SideB := x SideB)) vm1 vm2"
    using step[OF s1] by blast
  then have s2: "same_shape vm vm2" using s1 same_shape_trans by (auto simp: bumped_def)
  obtain vm3 where 3: "bump SideC p (x SideC) vm2 = Some vm3" "bumped L p ((\<lambda>_. 0)(SideC := x SideC)) vm2 vm3"
    using step[OF s2] by blast
  have "(\<lambda>d. ((\<lambda>_. 0)(SideA := x SideA)) d + ((\<lambda>_. 0)(SideB := x SideB)) d + ((\<lambda>_. 0)(SideC := x SideC)) d) = x"
    (is "?s = x")
  proof
    fix d show "?s d = x d" by (cases d) auto
  qed
  then have "bumped L p x vm vm3" using bumped_trans[OF bumped_trans[OF 1(2) 2(2)] 3(2)] by simp
  then show ?thesis using 1(1) 2(1) 3(1) by (simp add: bump_all_def)
qed

subsection \<open>One step of dropping\<close>

text \<open>How the machine may change when references are dropped: objects go, those that stay keep their layout and
  contents, accumulators apart, and the totals do not move.\<close>

definition shrinks :: "(u64 \<Rightarrow> nat \<Rightarrow> 'f::field) \<Rightarrow> 'f vm \<Rightarrow> 'f vm \<Rightarrow> bool" where
  "shrinks L vm vm' \<longleftrightarrow> vm_structs vm' = vm_structs vm \<and> out_len vm' = out_len vm
     \<and> (\<forall>p c'. vm_heap vm' p = Some c' \<longrightarrow> (\<exists>c. vm_heap vm p = Some c \<and> strip c' = strip c\<lparr>o_rc := o_rc c'\<rparr>))
     \<and> (\<forall>d i. i < out_len vm d \<longrightarrow> dtotal L vm' d i = dtotal L vm d i) \<and> solves L vm'"

definition rc_sum :: "'f vm \<Rightarrow> nat" where
  "rc_sum vm = (\<Sum>p\<in>Map.dom (vm_heap vm). rc_of (vm_heap vm) p)"

lemma shrinks_refl: "solves L vm \<Longrightarrow> shrinks L vm vm"
  by (simp add: shrinks_def)

lemma shrinks_trans:
  assumes a: "shrinks L vm vm'" and b: "shrinks L vm' vm''" shows "shrinks L vm vm''"
proof -
  have "\<exists>c. vm_heap vm p = Some c \<and> strip c'' = strip c\<lparr>o_rc := o_rc c''\<rparr>" if h: "vm_heap vm'' p = Some c''" for p c''
  proof -
    obtain c' where c': "vm_heap vm' p = Some c'" "strip c'' = strip c'\<lparr>o_rc := o_rc c''\<rparr>"
      using b h unfolding shrinks_def by blast
    obtain c where "vm_heap vm p = Some c" "strip c' = strip c\<lparr>o_rc := o_rc c'\<rparr>"
      using a c'(1) unfolding shrinks_def by blast
    with c' show ?thesis by simp
  qed
  then show ?thesis using a b by (simp add: shrinks_def)
qed

lemma inner_refs_remove:
  assumes "finite (Map.dom h)" "p \<in> Map.dom h"
  shows "inner_refs tbl h q = count_list (kids tbl h p) q + inner_refs tbl (h(p := None)) q"
proof -
  have "(\<Sum>r\<in>Map.dom h - {p}. count_list (kids tbl (h(p := None)) r) q) = (\<Sum>r\<in>Map.dom h - {p}. count_list (kids tbl h r) q)"
    by (rule sum.cong) (auto simp: kids_def)
  then show ?thesis using assms by (simp add: inner_refs_def sum.remove[of _ p])
qed

text \<open>When the last reference to \<open>p\<close> goes, no object refers to \<open>p\<close>, and freeing it leaves the references it held.\<close>

lemma last_reference:
  assumes ok: "heap_ok vm (p # R)" and p: "vm_heap vm p = Some c" and rc: "o_rc c = 1"
  shows "p \<notin> set R" "\<And>q. q \<in> Map.dom (vm_heap vm) \<Longrightarrow> p \<notin> set (kids (vm_structs vm) (vm_heap vm) q)"
proof -
  have "1 = Suc (count_list R p) + inner_refs (vm_structs vm) (vm_heap vm) p"
    using heap_ok_rc[OF ok p] rc by simp
  then have z: "count_list R p = 0" "inner_refs (vm_structs vm) (vm_heap vm) p = 0" by simp_all
  from z(1) show "p \<notin> set R" by (simp add: count_list_0_iff)
  show "p \<notin> set (kids (vm_structs vm) (vm_heap vm) q)" if "q \<in> Map.dom (vm_heap vm)" for q
    using z(2) that heap_ok_finite[OF ok] by (simp add: inner_refs_def count_list_0_iff)
qed

lemma heap_ok_kids:
  assumes "heap_ok vm R" "vm_heap vm q = Some c"
  shows "held (vm_structs vm) c = Some (kids (vm_structs vm) (vm_heap vm) q)"
    "set (kids (vm_structs vm) (vm_heap vm) q) \<subseteq> Map.dom (vm_heap vm)"
    "ad_node c \<Longrightarrow> k \<in> set (kids (vm_structs vm) (vm_heap vm) q) \<Longrightarrow> ad_node (the (vm_heap vm k))"
  using heap_ok_object[OF assms] assms(2) by (auto simp: object_ok_def kids_def)

lemma heap_ok_free:
  assumes ok: "heap_ok vm (p # R)" and p: "vm_heap vm p = Some c" and rc: "o_rc c = 1"
  shows "heap_ok (vm\<lparr>vm_heap := (vm_heap vm)(p := None), vm_events := ev\<rparr>) (kids (vm_structs vm) (vm_heap vm) p @ R)"
    (is "heap_ok ?vm (?ks @ R)")
proof -
  let ?h = "vm_heap vm" and ?s = "vm_structs vm"
  let ?H = "?h(p := None)"
  note last = last_reference[OF ok p rc]
  have pd: "p \<in> Map.dom ?h" using p by auto
  have fin: "finite (Map.dom (vm_heap ?vm))" using heap_ok_finite[OF ok] by simp
  have roots: "set (?ks @ R) \<subseteq> Map.dom (vm_heap ?vm)"
    using ok last(1) last(2)[OF pd] heap_ok_kids(2)[OF ok p] by (auto simp: heap_ok_def)
  have obj: "object_ok ?s (out_len ?vm) (vm_heap ?vm) (the (vm_heap ?vm q))" if "q \<in> Map.dom (vm_heap ?vm)" for q
  proof -
    from that obtain d where d: "?h q = Some d" "q \<noteq> p" by (auto split: if_splits)
    have "p \<notin> set (the (held ?s d))" using last(2)[of q] d heap_ok_kids(1)[OF ok d(1)] by auto
    with heap_ok_object[OF ok d(1)] d show ?thesis by (auto simp: object_ok_def out_len_def)
  qed
  have rcs: "0 < rc_of ?H q \<and> count_list (?ks @ R) q + inner_refs ?s ?H q = rc_of ?H q" if "q \<in> Map.dom ?H" for q
  proof -
    from that obtain d where d: "?h q = Some d" "q \<noteq> p" by (auto split: if_splits)
    have "rc_of ?H q = unat (o_rc d)" using d by (simp add: rc_of_def)
    moreover have "count_list (p # R) q = count_list R q" using d(2) by simp
    moreover have "count_list (?ks @ R) q = count_list ?ks q + count_list R q" by simp
    ultimately show ?thesis using heap_ok_rc[OF ok d(1)] inner_refs_remove[OF heap_ok_finite[OF ok] pd, of ?s q]
      by linarith
  qed
  show ?thesis by (rule heap_okI) (use fin roots obj rcs in simp_all)
qed

lemma heap_ok_decrement:
  assumes ok: "heap_ok vm (p # R)" and p: "vm_heap vm p = Some c" and rc: "o_rc c \<noteq> 1"
  shows "heap_ok (put_object p (c\<lparr>o_rc := o_rc c - 1\<rparr>) vm) R" (is "heap_ok ?vm R")
    and "rc_sum (put_object p (c\<lparr>o_rc := o_rc c - 1\<rparr>) vm) < rc_sum vm"
proof -
  let ?h = "vm_heap vm" and ?s = "vm_structs vm"
  note r = heap_ok_rc[OF ok p]
  have u: "unat (o_rc c - 1) = unat (o_rc c) - 1" "2 \<le> unat (o_rc c)"
    using r rc by (metis unat_minus_one unat_0 less_numeral_extra(3))
      (metis One_nat_def Suc_1 Suc_leI le_neq_implies_less r rc unat_1 word_unat_eq_iff)
  have dm: "Map.dom (vm_heap ?vm) = Map.dom ?h" using p by (auto simp: put_object_def)
  have ks: "kids ?s (vm_heap ?vm) q = kids ?s ?h q" for q
    using p by (auto simp: kids_def put_object_def)
  have rcq: "rc_of (vm_heap ?vm) q = (if q = p then rc_of ?h q - 1 else rc_of ?h q)" for q
    using p u by (simp add: rc_of_def put_object_def)
  have obj: "object_ok ?s (out_len ?vm) (vm_heap ?vm) (the (vm_heap ?vm q))" if "q \<in> Map.dom ?h" for q
  proof -
    from that obtain d where d: "?h q = Some d" by auto
    have "ad_node (the (vm_heap ?vm k)) = ad_node (the (?h k))" for k using p by (simp add: put_object_def)
    then have "object_ok ?s (out_len ?vm) (vm_heap ?vm) d = object_ok ?s (out_len vm) ?h d"
      by (simp add: object_ok_def dm)
    moreover have "object_ok ?s n h (c\<lparr>o_rc := o_rc c - 1\<rparr>) = object_ok ?s n h c" for n h
      by (simp add: object_ok_def)
    ultimately show ?thesis using heap_ok_object[OF ok] d p by (auto simp: put_object_def)
  qed
  have rcs: "0 < rc_of (vm_heap ?vm) q \<and> count_list R q + inner_refs ?s (vm_heap ?vm) q = rc_of (vm_heap ?vm) q"
    if "q \<in> Map.dom ?h" for q
  proof -
    have "0 < rc_of ?h q \<and> count_list (p # R) q + inner_refs ?s ?h q = rc_of ?h q" using ok that by (simp add: heap_ok_def)
    moreover have "inner_refs ?s (vm_heap ?vm) q = inner_refs ?s ?h q" by (simp add: inner_refs_def dm ks)
    moreover have "2 \<le> rc_of ?h p" using u(2) p by (simp add: rc_of_def)
    ultimately show ?thesis by (cases "q = p") (simp_all add: rcq)
  qed
  have s: "vm_structs ?vm = ?s" by (simp add: put_object_def)
  have "set R \<subseteq> Map.dom ?h" using ok by (simp add: heap_ok_def)
  then show "heap_ok ?vm R" by (intro heap_okI) (use heap_ok_finite[OF ok] obj rcs in \<open>simp_all add: dm s\<close>)
  have "p \<in> Map.dom ?h" "0 < rc_of ?h p" using p u by (auto simp: rc_of_def)
  then have "rc_sum ?vm < rc_sum vm" unfolding rc_sum_def dm
    by (intro sum_strict_mono_ex1[OF heap_ok_finite[OF ok]]) (auto simp: rcq intro!: bexI[of _ p])
  then show "rc_sum (put_object p (c\<lparr>o_rc := o_rc c - 1\<rparr>) vm) < rc_sum vm" .
qed

lemma rc_sum_free:
  assumes ok: "heap_ok vm (p # R)" and p: "vm_heap vm p = Some c"
  shows "rc_sum (vm\<lparr>vm_heap := (vm_heap vm)(p := None), vm_events := ev\<rparr>) < rc_sum vm"
proof -
  have "p \<in> Map.dom (vm_heap vm)" using p by auto
  moreover have "0 < rc_of (vm_heap vm) p" using heap_ok_rc[OF ok p] p by (simp add: rc_of_def)
  moreover have "(\<Sum>q\<in>Map.dom (vm_heap vm) - {p}. rc_of ((vm_heap vm)(p := None)) q)
      = (\<Sum>q\<in>Map.dom (vm_heap vm) - {p}. rc_of (vm_heap vm) q)"
    by (rule sum.cong) (auto simp: rc_of_def)
  ultimately show ?thesis using heap_ok_finite[OF ok] by (simp add: rc_sum_def sum.remove[of _ p])
qed

lemma rc_sum_same_shape: "same_shape vm vm' \<Longrightarrow> rc_sum vm' = rc_sum vm"
  by (simp add: rc_sum_def same_shape_dom same_shape_rc)

subsection \<open>Releasing an object\<close>

text \<open>Before an object is freed its accumulators have been passed on to the nodes it refers to.\<close>

definition passed_on :: "(u64 \<Rightarrow> nat \<Rightarrow> 'f::field) \<Rightarrow> u64 \<Rightarrow> 'f vm \<Rightarrow> 'f vm \<Rightarrow> bool" where
  "passed_on L p vm vm' \<longleftrightarrow> same_shape vm vm' \<and> vm_heap vm' p = vm_heap vm p
     \<and> (\<forall>d i. i < out_len vm d \<longrightarrow> dtotal L vm' d i = dtotal L vm d i + acc_of (the (vm_heap vm p)) d * L p i)"

lemma released:
  assumes ok: "heap_ok vm (p # R)" and p: "vm_heap vm p = Some c" and rc: "o_rc c = 1"
    and pass: "passed_on L p vm vm1" and L: "solves L vm"
  shows "\<exists>vm'. free_object p vm1 = Some vm' \<and> heap_ok vm' (kids (vm_structs vm) (vm_heap vm) p @ R)
    \<and> shrinks L vm vm' \<and> rc_sum vm' < rc_sum vm"
proof -
  have s: "same_shape vm vm1" and p1: "vm_heap vm1 p = Some c" using pass p by (simp_all add: passed_on_def)
  have ok1: "heap_ok vm1 (p # R)" by (rule same_shape_ok[OF s ok])
  obtain n where n: "underlying_array_size (vm_structs vm1) (o_layout c) = Some n"
    using heap_ok_object[OF ok1 p1] by (auto simp: object_ok_def)
  let ?vm = "vm1\<lparr>vm_heap := (vm_heap vm1)(p := None), vm_events := vm_events vm1 @ [FreeHeap n]\<rparr>"
  have free: "free_object p vm1 = Some ?vm" using p1 n by (simp add: free_object_def)
  have hk: "heap_ok ?vm (kids (vm_structs vm) (vm_heap vm) p @ R)"
    using heap_ok_free[OF ok1 p1 rc, of "vm_events vm1 @ [FreeHeap n]"] by (simp add: same_shape_kids[OF s])
  have "rc_sum ?vm < rc_sum vm" using rc_sum_free[OF ok1 p1] by (simp add: rc_sum_same_shape[OF s])
  moreover have "shrinks L vm ?vm"
  proof -
    have pd: "p \<in> Map.dom (vm_heap vm1)" using p1 by auto
    have sm: "(\<Sum>q\<in>Map.dom (vm_heap vm1) - {p}. acc_of (the (((vm_heap vm1)(p := None)) q)) d * L q i)
        = (\<Sum>q\<in>Map.dom (vm_heap vm1) - {p}. acc_of (the (vm_heap vm1 q)) d * L q i)" for d i
      by (rule sum.cong) auto
    have t: "dtotal L ?vm d i = dtotal L vm1 d i - acc_of c d * L p i" for d i
      using heap_ok_finite[OF ok1] pd p1 sm by (simp add: dtotal_def sum.remove[of _ p])
    have "dtotal L ?vm d i = dtotal L vm d i" if "i < out_len vm d" for d i
      using pass that p unfolding t by (simp add: passed_on_def)
    moreover have "solves L ?vm" using same_shape_solves[OF s L] by (simp add: solves_def)
    moreover have "\<exists>c. vm_heap vm q = Some c \<and> strip c' = strip c\<lparr>o_rc := o_rc c'\<rparr>" if h: "vm_heap ?vm q = Some c'" for q and c' :: "'a object"
    proof -
      have "vm_heap vm1 q = Some c'" using h by (simp split: if_splits)
      moreover have "map_option strip (vm_heap vm1 q) = map_option strip (vm_heap vm q)"
        using s unfolding same_shape_def by blast
      ultimately obtain d where "vm_heap vm q = Some d" "strip d = strip c'" by (cases "vm_heap vm q") simp_all
      moreover have "(strip c')\<lparr>o_rc := o_rc c'\<rparr> = strip c'" by (simp flip: strip_rc)
      ultimately show ?thesis by auto
    qed
    ultimately show ?thesis using s by (simp add: shrinks_def same_shape_def)
  qed
  ultimately show ?thesis using free hk by blast
qed

lemma release_ok:
  assumes ok: "heap_ok vm (p # R)" and p: "vm_heap vm p = Some c" and rc: "o_rc c = 1" and L: "solves L vm"
  shows "\<exists>vm'. release p vm = Some (kids (vm_structs vm) (vm_heap vm) p, vm')
    \<and> heap_ok vm' (kids (vm_structs vm) (vm_heap vm) p @ R) \<and> shrinks L vm vm' \<and> rc_sum vm' < rc_sum vm"
proof -
  let ?ks = "kids (vm_structs vm) (vm_heap vm) p"
  note h = heap_ok_kids(1)[OF ok p]
  have self: "p \<notin> set ?ks" using last_reference(2)[OF ok p rc, of p] p by auto
  have bump_kid: "\<exists>vm2. bump_all k x vm1 = Some vm2 \<and> bumped L k x vm1 vm2"
    if s: "same_shape vm vm1" and k: "k \<in> set ?ks" and ad: "ad_node c" for k x vm1
  proof -
    obtain d where d: "vm_heap vm k = Some d" using heap_ok_kids(2)[OF ok p] k by auto
    then obtain d1 where d1: "vm_heap vm1 k = Some d1" "strip d1 = strip d" using same_shape_at[OF s] by blast
    have "ad_node d" using heap_ok_kids(3)[OF ok p ad k] d by simp
    then show ?thesis using bump_all_ok[OF same_shape_ok[OF s ok] d1(1) _ same_shape_solves[OF s L]]
        strip_eqD(4)[OF d1(2)] by blast
  qed
  have plain: "\<exists>vm'. free_object p vm = Some vm' \<and> heap_ok vm' (?ks @ R) \<and> shrinks L vm vm' \<and> rc_sum vm' < rc_sum vm"
    if "\<And>d. acc_of c d = 0"
    by (rule released[OF ok p rc _ L]) (simp add: passed_on_def p that)
  obtain t where t: "layout_data_type (o_layout c) = Some t" using h by (auto simp: held_def bind_Some_iff)
  show ?thesis
  proof (cases "o_data c")
    case (PSum a b acc)
    have t': "t = DtADSum" using h t PSum by (cases t) (simp_all add: held_def)
    have ks: "?ks = [a, b]" using h t t' PSum by (simp add: held_def)
    have ad: "ad_node c" using PSum by (simp add: ad_node_def)
    obtain vm1 where 1: "bump_all a acc vm = Some vm1" "bumped L a acc vm vm1"
      using bump_kid[OF same_shape_refl _ ad] ks by fastforce
    then have s1: "same_shape vm vm1" by (simp add: bumped_def)
    obtain vm2 where 2: "bump_all b acc vm1 = Some vm2" "bumped L b acc vm1 vm2"
      using bump_kid[OF s1 _ ad] ks by fastforce
    have o: "out_len vm1 = out_len vm" using s1 by (simp add: same_shape_def)
    have "passed_on L p vm vm2"
      using 1(2) 2(2) s1 self ks p PSum solvesD(3)[OF L p PSum] o same_shape_trans[of vm vm1 vm2]
      by (simp add: passed_on_def bumped_def acc_of_def algebra_simps)
    from released[OF ok p rc this L] show ?thesis
      using p t t' PSum 1(1) 2(1) ks by (auto simp: release_def)
  next
    case (PMulConst k v acc)
    have t': "t = DtADMulConst" using h t PMulConst by (cases t) (simp_all add: held_def)
    have ks: "?ks = [v]" using h t t' PMulConst by (simp add: held_def)
    have ad: "ad_node c" using PMulConst by (simp add: ad_node_def)
    obtain vm1 where 1: "bump_all v (\<lambda>d. acc d * k) vm = Some vm1" "bumped L v (\<lambda>d. acc d * k) vm vm1"
      using bump_kid[OF same_shape_refl _ ad] ks by fastforce
    have "passed_on L p vm vm1"
      using 1(2) self ks p PMulConst solvesD(4)[OF L p PMulConst]
      by (simp add: passed_on_def bumped_def acc_of_def algebra_simps)
    from released[OF ok p rc this L] show ?thesis
      using p t t' PMulConst 1(1) ks by (auto simp: release_def)
  next
    case (PWords ws)
    have z: "acc_of c d = 0" for d using PWords by (simp add: acc_of_def)
    obtain vm' where v: "free_object p vm = Some vm'" "heap_ok vm' (?ks @ R) \<and> shrinks L vm vm' \<and> rc_sum vm' < rc_sum vm"
      using plain[OF z] by blast
    have "release p vm = Some (?ks, vm')"
      using h t p PWords v(1) by (cases t) (auto simp: release_def held_def bind_Some_iff)
    then show ?thesis using v(2) by blast
  next
    case (PConst v)
    then show ?thesis using plain h t p by (cases t) (auto simp: release_def held_def acc_of_def)
  next
    case (PWitness w)
    then show ?thesis using plain h t p by (cases t) (auto simp: release_def held_def acc_of_def)
  qed
qed

subsection \<open>Dropping a reference\<close>

lemma dec_rc_step_ok:
  assumes ok: "heap_ok vm (p # Q @ R)" and L: "solves L vm"
  shows "\<exists>Q' vm'. dec_rc_step (p # Q) vm = Some (Q', vm') \<and> heap_ok vm' (Q' @ R)
    \<and> shrinks L vm vm' \<and> rc_sum vm' < rc_sum vm"
proof -
  obtain c where p: "vm_heap vm p = Some c" using heap_ok_root[OF ok] by blast
  show ?thesis
  proof (cases "o_rc c = 1")
    case True
    let ?ks = "kids (vm_structs vm) (vm_heap vm) p"
    obtain vm' where v: "release p vm = Some (?ks, vm')" "heap_ok vm' (?ks @ Q @ R)" "shrinks L vm vm'" "rc_sum vm' < rc_sum vm"
      using release_ok[OF ok p True L] by blast
    have "heap_ok vm' ((Q @ ?ks) @ R)" using v(2) by (auto simp: heap_ok_def ac_simps)
    then show ?thesis using v p True by (simp add: dec_rc_step_def)
  next
    case False
    let ?vm = "put_object p (c\<lparr>o_rc := o_rc c - 1\<rparr>) vm"
    have dm: "Map.dom (vm_heap ?vm) = Map.dom (vm_heap vm)" using p by (auto simp: put_object_def)
    have "acc_of (c\<lparr>o_rc := o_rc c - 1\<rparr>) d = acc_of c d" for d by (simp add: acc_of_def)
    then have "dtotal L ?vm d i = dtotal L vm d i" for d i using dtotal_put[OF heap_ok_finite[OF ok] p, of L "c\<lparr>o_rc := o_rc c - 1\<rparr>"] by simp
    moreover have "solves L ?vm" using L p bspec[OF L[unfolded solves_def], of p] unfolding solves_def dm by (auto simp: put_object_def)
    ultimately have "shrinks L vm ?vm" using p shrinks_refl[OF L] by (auto simp: shrinks_def put_object_def)
    then show ?thesis using heap_ok_decrement[OF ok p False] p False by (simp add: dec_rc_step_def)
  qed
qed

lemma dec_rc_loop_ok:
  assumes "heap_ok vm (Q @ R)" "solves L vm"
  shows "\<exists>vm'. dec_rc_loop Q vm = Some vm' \<and> heap_ok vm' R \<and> shrinks L vm vm'"
  using assms
proof (induction "rc_sum vm" arbitrary: vm Q rule: less_induct)
  case less
  show ?case
  proof (cases Q)
    case Nil
    then show ?thesis using less.prems shrinks_refl by (simp add: dec_rc_loop.simps)
  next
    case (Cons p P)
    obtain Q' vm1 where 1: "dec_rc_step Q vm = Some (Q', vm1)" "heap_ok vm1 (Q' @ R)" "shrinks L vm vm1"
        "rc_sum vm1 < rc_sum vm"
      using dec_rc_step_ok[of vm p P R L] less.prems Cons by auto
    have "solves L vm1" using 1(3) by (simp add: shrinks_def)
    from less.hyps[OF 1(4) 1(2) this] obtain vm' where
      2: "dec_rc_loop Q' vm1 = Some vm'" "heap_ok vm' R" "shrinks L vm1 vm'" by blast
    have "dec_rc_loop Q vm = Some vm'" using Cons 1(1) 2(1) by (subst dec_rc_loop.simps) simp
    then show ?thesis using 2 shrinks_trans[OF 1(3) 2(3)] by blast
  qed
qed

lemma boxed_dec_rc_ok:
  assumes "heap_ok vm (p # R)" "solves L vm"
  shows "\<exists>vm'. boxed_dec_rc p vm = Some vm' \<and> heap_ok vm' R \<and> shrinks L vm vm'"
  using dec_rc_loop_ok[of vm "[p]" R L] assms by (simp add: boxed_dec_rc_def)

subsection \<open>Dropping all references\<close>

text \<open>A heap has no cycle of references when its objects can be ranked.\<close>

definition ranked :: "(u64 \<Rightarrow> nat) \<Rightarrow> 'f vm \<Rightarrow> bool" where
  "ranked rank vm \<longleftrightarrow> (\<forall>p\<in>Map.dom (vm_heap vm). \<forall>k\<in>set (kids (vm_structs vm) (vm_heap vm) p). rank k < rank p)"

lemma held_cong:
  assumes "strip c' = strip c\<lparr>o_rc := r\<rparr>" shows "held tbl c' = held tbl c"
  using assms by (metis rc_update_simps(1) strip_simps(3))

lemma ranked_shrinks:
  assumes r: "ranked rank vm" and s: "shrinks L vm vm'" shows "ranked rank vm'"
  unfolding ranked_def
proof
  fix p assume "p \<in> Map.dom (vm_heap vm')"
  then obtain c' where c': "vm_heap vm' p = Some c'" by auto
  then obtain c where c: "vm_heap vm p = Some c" "strip c' = strip c\<lparr>o_rc := o_rc c'\<rparr>"
    using s unfolding shrinks_def by blast
  have "kids (vm_structs vm') (vm_heap vm') p = kids (vm_structs vm) (vm_heap vm) p"
    using s c c' held_cong[OF c(2)] by (simp add: kids_def shrinks_def)
  then show "\<forall>k\<in>set (kids (vm_structs vm') (vm_heap vm') p). rank k < rank p" using r c(1) by (auto simp: ranked_def)
qed

lemma no_roots_empty:
  assumes ok: "heap_ok vm []" and r: "ranked rank vm" shows "vm_heap vm = Map.empty"
proof (rule ccontr)
  let ?h = "vm_heap vm"
  assume "?h \<noteq> Map.empty"
  then have ne: "Map.dom ?h \<noteq> {}" by simp
  have fin: "finite (rank ` Map.dom ?h)" using heap_ok_finite[OF ok] by simp
  then have "Max (rank ` Map.dom ?h) \<in> rank ` Map.dom ?h" using ne by (intro Max_in) auto
  then obtain p where p: "p \<in> Map.dom ?h" "rank p = Max (rank ` Map.dom ?h)" by force
  have p': "rank q \<le> rank p" if "q \<in> Map.dom ?h" for q using p(2) fin that by simp
  from p(1) obtain c where c: "?h p = Some c" by auto
  have "0 < inner_refs (vm_structs vm) ?h p" using heap_ok_rc[OF ok c] by simp
  then have "\<exists>q\<in>Map.dom ?h. count_list (kids (vm_structs vm) ?h q) p \<noteq> 0"
    unfolding inner_refs_def by (metis less_numeral_extra(3) sum.neutral)
  then obtain q where "q \<in> Map.dom ?h" "p \<in> set (kids (vm_structs vm) ?h q)" by (auto simp: count_list_0_iff)
  then show False using r p' by (fastforce simp: ranked_def)
qed

lemma drop_list_ok:
  assumes "heap_ok vm (Q @ R)" "solves L vm"
  shows "\<exists>vm'. opt_fold boxed_dec_rc Q vm = Some vm' \<and> heap_ok vm' R \<and> shrinks L vm vm'"
  using assms
proof (induction Q arbitrary: vm)
  case Nil
  then show ?case by (simp add: shrinks_refl)
next
  case (Cons p Q)
  obtain vm1 where 1: "boxed_dec_rc p vm = Some vm1" "heap_ok vm1 (Q @ R)" "shrinks L vm vm1"
    using boxed_dec_rc_ok[of vm p "Q @ R" L] Cons.prems by auto
  have "solves L vm1" using 1(3) by (simp add: shrinks_def)
  from Cons.IH[OF 1(2) this] 1 show ?case using shrinks_trans[OF 1(3)] by fastforce
qed

text \<open>The equations of the nodes have a solution when the heap has no cycle.\<close>

lemma solution_exists:
  assumes r: "ranked rank vm" and ok: "heap_ok vm R"
  shows "\<exists>L :: u64 \<Rightarrow> nat \<Rightarrow> 'f::field. solves L vm"
proof -
  let ?h = "vm_heap vm"
  let ?eq = "\<lambda>(L :: u64 \<Rightarrow> nat \<Rightarrow> 'f) p. (case o_data (the (?h p)) of
       PConst v \<Rightarrow> (\<lambda>i. if i = 0 then v else 0)
     | PWitness w \<Rightarrow> (\<lambda>i. if i = unat w then 1 else 0)
     | PSum a b _ \<Rightarrow> (\<lambda>i. L a i + L b i)
     | PMulConst k v _ \<Rightarrow> (\<lambda>i. k * L v i)
     | PWords _ \<Rightarrow> (\<lambda>_. 0))"
  have kid: "rank k < rank p" if "p \<in> Map.dom ?h" "k \<in> set (kids (vm_structs vm) ?h p)" for p k
    using r that by (auto simp: ranked_def)
  have eq_cong: "?eq L p = ?eq L' p"
    if p: "p \<in> Map.dom ?h" and L: "\<And>k. k \<in> Map.dom ?h \<Longrightarrow> rank k < rank p \<Longrightarrow> L k = L' k" for L L' p
  proof -
    from p obtain c where c: "?h p = Some c" by auto
    have k: "L k = L' k" if kk: "k \<in> set (kids (vm_structs vm) ?h p)" for k
      by (rule L) (use kid[OF p kk] heap_ok_kids(2)[OF ok c] kk in auto)
    obtain t where "layout_data_type (o_layout c) = Some t"
      using heap_ok_kids(1)[OF ok c] by (auto simp: held_def bind_Some_iff)
    moreover have "\<forall>k\<in>set (the (held (vm_structs vm) c)). L k = L' k" using k heap_ok_kids(1)[OF ok c] by simp
    moreover have "held (vm_structs vm) c \<noteq> None" using heap_ok_kids(1)[OF ok c] by simp
    ultimately show ?thesis using c by (cases "o_data c"; cases t) (simp_all add: held_def)
  qed
  have "\<exists>L. \<forall>p\<in>Map.dom ?h. rank p < n \<longrightarrow> L p = ?eq L p" for n
  proof (induction n)
    case (Suc n)
    then obtain L where L: "\<forall>p\<in>Map.dom ?h. rank p < n \<longrightarrow> L p = ?eq L p" by blast
    let ?L = "\<lambda>p. if rank p < n then L p else ?eq L p"
    have "?L p = ?eq ?L p" if "p \<in> Map.dom ?h" "rank p < Suc n" for p
    proof -
      have "?eq L p = ?eq ?L p" by (rule eq_cong[OF that(1)]) (use that(2) in auto)
      then show ?thesis using L that by simp
    qed
    then show ?case by (intro exI[of _ ?L]) blast
  qed simp
  then obtain L where "\<forall>p\<in>Map.dom ?h. rank p < Suc (Max (rank ` Map.dom ?h)) \<longrightarrow> L p = ?eq L p" by blast
  then have "L p = ?eq L p" if "p \<in> Map.dom ?h" for p
    using that heap_ok_finite[OF ok] Max_ge[of "rank ` Map.dom ?h" "rank p"] by (simp add: less_Suc_eq_le)
  then have "solves L vm" unfolding solves_def by (auto split: payload.split)
  then show ?thesis by blast
qed

subsection \<open>The invariant under the other operations\<close>

lemma count_list_replicate: "count_list (replicate n x) y = (if x = y then n else 0)"
  by (induction n) auto

lemma inc_rc_ok:
  assumes ok: "heap_ok vm R" and p: "vm_heap vm p = Some c" and no_wrap: "unat (o_rc c) + n < 2 ^ 64"
  shows "\<exists>vm'. boxed_inc_rc p (of_nat n) vm = Some vm' \<and> heap_ok vm' (replicate n p @ R)
    \<and> (\<forall>q. q \<noteq> p \<longrightarrow> vm_heap vm' q = vm_heap vm q) \<and> map_option o_data (vm_heap vm' p) = Some (o_data c)
    \<and> vm_structs vm' = vm_structs vm"
proof -
  let ?h = "vm_heap vm" and ?s = "vm_structs vm"
  let ?c = "c\<lparr>o_rc := o_rc c + of_nat n\<rparr>"
  let ?vm = "put_object p ?c vm"
  have u: "unat (o_rc c + of_nat n) = unat (o_rc c) + n"
    using no_wrap by (simp add: unat_word_ariths unat_of_nat)
  have dm: "Map.dom (vm_heap ?vm) = Map.dom ?h" using p by (auto simp: put_object_def)
  have s: "vm_structs ?vm = ?s" by (simp add: put_object_def)
  have ks: "kids ?s (vm_heap ?vm) q = kids ?s ?h q" for q
    using p by (auto simp: kids_def put_object_def)
  have obj: "object_ok ?s (out_len ?vm) (vm_heap ?vm) (the (vm_heap ?vm q))" if "q \<in> Map.dom ?h" for q
  proof -
    from that obtain d where d: "?h q = Some d" by auto
    have "ad_node (the (vm_heap ?vm k)) = ad_node (the (?h k))" for k using p by (simp add: put_object_def)
    then have "object_ok ?s (out_len ?vm) (vm_heap ?vm) d = object_ok ?s (out_len vm) ?h d"
      by (simp add: object_ok_def dm)
    moreover have "object_ok ?s n h ?c = object_ok ?s n h c" for n h by (simp add: object_ok_def)
    ultimately show ?thesis using heap_ok_object[OF ok] d p by (auto simp: put_object_def)
  qed
  have "rc_of (vm_heap ?vm) q = rc_of ?h q + count_list (replicate n p) q" for q
    using p u by (cases "q = p") (auto simp: rc_of_def put_object_def count_list_replicate)
  then have rcs: "0 < rc_of (vm_heap ?vm) q
      \<and> count_list (replicate n p @ R) q + inner_refs ?s (vm_heap ?vm) q = rc_of (vm_heap ?vm) q" if "q \<in> Map.dom ?h" for q
    using ok that by (simp add: heap_ok_def inner_refs_def dm ks)
  have "set (replicate n p @ R) \<subseteq> Map.dom ?h" using ok p by (auto simp: heap_ok_def)
  then have "heap_ok ?vm (replicate n p @ R)"
    by (intro heap_okI) (use heap_ok_finite[OF ok] obj rcs in \<open>simp_all add: dm s\<close>)
  then show ?thesis using p by (auto simp: boxed_inc_rc_def put_object_def)
qed

text \<open>A new object takes over references that the frame held.\<close>

lemma new_object_ok:
  assumes ok: "heap_ok vm (ks @ R)" and fresh: "vm_heap vm p = None" and rc: "o_rc c = 1"
    and ob: "object_ok (vm_structs vm) (out_len vm) (vm_heap vm) c" and hc: "held (vm_structs vm) c = Some ks"
  shows "heap_ok (put_object p c (vm\<lparr>vm_events := ev\<rparr>)) (p # R)" (is "heap_ok ?vm _")
proof -
  let ?h = "vm_heap vm" and ?s = "vm_structs vm"
  let ?H = "?h(p \<mapsto> c)"
  have pd: "p \<notin> Map.dom ?h" using fresh by auto
  have fin: "finite (Map.dom ?H)" using heap_ok_finite[OF ok] by simp
  have rd: "set (ks @ R) \<subseteq> Map.dom ?h" using ok by (simp add: heap_ok_def)
  have ks: "kids ?s ?H q = (if q = p then ks else kids ?s ?h q)" for q using hc by (simp add: kids_def)
  have obj: "object_ok ?s (out_len vm) ?H (the (?H q))" if q: "q \<in> Map.dom ?H" for q
  proof -
    have mono: "object_ok ?s (out_len vm) ?H d" if d: "object_ok ?s (out_len vm) ?h d" for d
    proof -
      have "k \<noteq> p" if "k \<in> Map.dom ?h" for k using pd that by auto
      with d show ?thesis unfolding object_ok_def by (auto simp: subset_iff)
    qed
    show ?thesis
    proof (cases "q = p")
      case True then show ?thesis using mono[OF ob] by simp
    next
      case False
      with q obtain d where "?h q = Some d" by auto
      with False show ?thesis using mono[OF heap_ok_object[OF ok]] by simp
    qed
  qed
  have old: "p \<notin> set (kids ?s ?h q)" if "q \<in> Map.dom ?h" for q
    using that heap_ok_kids(2)[OF ok, of q] pd by fastforce
  have ir: "inner_refs ?s ?H q = count_list ks q + inner_refs ?s ?h q" for q
  proof -
    have "(\<Sum>r\<in>Map.dom ?h. count_list (if r = p then ks else kids ?s ?h r) q) = inner_refs ?s ?h q"
      unfolding inner_refs_def by (rule sum.cong) (use pd in auto)
    then show ?thesis using heap_ok_finite[OF ok] pd by (simp add: inner_refs_def ks)
  qed
  have rcs: "0 < rc_of ?H q \<and> count_list (p # R) q + inner_refs ?s ?H q = rc_of ?H q" if q: "q \<in> Map.dom ?H" for q
  proof (cases "q = p")
    case True
    have "count_list ks p = 0" "count_list R p = 0" using rd pd by (auto simp: count_list_0_iff)
    moreover have "inner_refs ?s ?h p = 0" using old heap_ok_finite[OF ok] by (simp add: inner_refs_def count_list_0_iff)
    ultimately show ?thesis using True rc by (simp add: ir rc_of_def)
  next
    case False
    with q have "q \<in> Map.dom ?h" by auto
    then have "0 < rc_of ?h q \<and> count_list (ks @ R) q + inner_refs ?s ?h q = rc_of ?h q" using ok by (simp add: heap_ok_def)
    then show ?thesis using False by (simp add: ir rc_of_def ac_simps)
  qed
  have o: "out_len ?vm = out_len vm" by simp
  have "set (p # R) \<subseteq> Map.dom ?H" using rd by auto
  then show ?thesis by (intro heap_okI) (use fin obj rcs in \<open>simp_all add: put_object_def\<close>)
qed

lemma boxed_alloc_Some:
  "boxed_alloc p junk l vm = Some vm' \<longleftrightarrow> (\<exists>n. underlying_array_size (vm_structs vm) l = Some n
     \<and> vm' = put_object p \<lparr>o_layout = l, o_rc = 1, o_table = - 1, o_data = junk\<rparr>
         (vm\<lparr>vm_events := vm_events vm @ [AllocHeap n]\<rparr>))"
  by (auto simp: boxed_alloc_def bind_Some_iff)

lemma ad_layouts [simp]:
  "layout_data_type (layout_new t) = Some t"
  by (cases t) (simp_all add: layout_data_type_def layout_new_def nth_opt_def data_types_def)

lemma ad_sizes [simp]:
  "underlying_array_size tbl (layout_new DtADConst) = Some 7"
  "underlying_array_size tbl (layout_new DtADWitness) = Some 4"
  "underlying_array_size tbl (layout_new DtADMulConst) = Some 20"
  "underlying_array_size tbl (layout_new DtADSum) = Some 17"
  by (simp_all add: underlying_array_size_def)

lemma op_add_boxed_ok:
  assumes ok: "heap_ok vm (a # b # R)" and fresh: "vm_heap vm p = None"
    and ad: "ad_node (the (vm_heap vm a))" "ad_node (the (vm_heap vm b))"
  shows "\<exists>vm'. op_add_boxed p a b vm = Some (p, vm') \<and> heap_ok vm' (p # R)"
proof -
  let ?c = "\<lparr>o_layout = layout_new DtADSum, o_rc = 1, o_table = - 1, o_data = PSum a b (\<lambda>_. 0 :: 'a)\<rparr>"
  have "held (vm_structs vm) ?c = Some [a, b]" by (simp add: held_def)
  moreover from this have "object_ok (vm_structs vm) (out_len vm) (vm_heap vm) ?c"
    using ok ad by (simp add: object_ok_def heap_ok_def)
  ultimately show ?thesis using new_object_ok[of vm "[a, b]" R p ?c] ok fresh
    by (simp add: op_add_boxed_def boxed_alloc_def)
qed

lemma op_mul_const_ok:
  assumes ok: "heap_ok vm (v # R)" and fresh: "vm_heap vm p = None" and ad: "ad_node (the (vm_heap vm v))"
  shows "\<exists>vm'. op_mul_const p k v vm = Some (p, vm') \<and> heap_ok vm' (p # R)"
proof -
  let ?c = "\<lparr>o_layout = layout_new DtADMulConst, o_rc = 1, o_table = - 1, o_data = PMulConst k v (\<lambda>_. 0 :: 'a)\<rparr>"
  have "held (vm_structs vm) ?c = Some [v]" by (simp add: held_def)
  moreover from this have "object_ok (vm_structs vm) (out_len vm) (vm_heap vm) ?c"
    using ok ad by (simp add: object_ok_def heap_ok_def)
  ultimately show ?thesis using new_object_ok[of vm "[v]" R p ?c] ok fresh
    by (simp add: op_mul_const_def boxed_alloc_def)
qed

lemma op_pure_to_witness_ref_ok:
  assumes ok: "heap_ok vm R" and fresh: "vm_heap vm p = None" and n: "\<And>d. 0 < out_len vm d"
  shows "\<exists>vm'. op_pure_to_witness_ref p v vm = Some (p, vm') \<and> heap_ok vm' (p # R)"
proof -
  let ?c = "\<lparr>o_layout = layout_new DtADConst, o_rc = 1, o_table = - 1, o_data = PConst v\<rparr>"
  have "held (vm_structs vm) ?c = Some []" by (simp add: held_def)
  moreover from this have "object_ok (vm_structs vm) (out_len vm) (vm_heap vm) ?c"
    using n by (simp add: object_ok_def held_def)
  ultimately show ?thesis using new_object_ok[of vm "[]" R p ?c] ok fresh
    by (simp add: op_pure_to_witness_ref_def boxed_alloc_def)
qed

lemma op_fresh_witness_ok:
  assumes ok: "heap_ok vm R" and fresh: "vm_heap vm p = None" and n: "\<And>d. vm_wit_off vm < out_len vm d"
    and w: "vm_wit_off vm < 2 ^ 64"
  shows "\<exists>vm'. op_fresh_witness p vm = Some (p, vm') \<and> heap_ok vm' (p # R)"
proof -
  let ?vm = "vm\<lparr>vm_wit_off := vm_wit_off vm + 1\<rparr>"
  let ?c = "\<lparr>o_layout = layout_new DtADWitness, o_rc = 1, o_table = - 1, o_data = PWitness (of_nat (vm_wit_off vm))\<rparr>"
  have ok': "heap_ok ?vm R" using ok by (simp add: heap_ok_def)
  have "unat (of_nat (vm_wit_off vm) :: u64) = vm_wit_off vm" using w by (simp add: unat_of_nat)
  moreover have "held (vm_structs vm) ?c = Some []" by (simp add: held_def)
  moreover from calculation have "object_ok (vm_structs ?vm) (out_len ?vm) (vm_heap ?vm) ?c"
    using n by (simp add: object_ok_def held_def)
  ultimately show ?thesis using new_object_ok[of ?vm "[]" R p ?c] ok' fresh
    by (simp add: op_fresh_witness_def boxed_alloc_def)
qed

subsection \<open>The properties\<close>

text \<open>C7. Dropping a reference is memory safe and keeps the books: when every count is the number of references, \<^verbatim>\<open>dec_rc\<close>
  returns, no reference of the remaining heap dangles and every count is right again without the dropped one, and the
  objects that stay keep their layout and contents.\<close>

theorem dec_rc_safe:
  assumes ok: "heap_ok vm (p # R)" and r: "ranked rank (vm :: 'f::field vm)"
  shows "\<exists>vm'. boxed_dec_rc p vm = Some vm' \<and> heap_ok vm' R
    \<and> (\<forall>q c'. vm_heap vm' q = Some c' \<longrightarrow> (\<exists>c. vm_heap vm q = Some c \<and> strip c' = strip c\<lparr>o_rc := o_rc c'\<rparr>))"
proof -
  obtain L :: "u64 \<Rightarrow> nat \<Rightarrow> 'f" where "solves L vm" using solution_exists[OF r ok] by blast
  from boxed_dec_rc_ok[OF ok this] show ?thesis by (auto simp: shrinks_def)
qed

text \<open>C5. The backward pass computes the derivatives: bumping a node by \<open>x\<close> and dropping every reference of the frame frees
  the whole heap, and leaves in each output what was there, what the accumulators still had to pass on, and \<open>x\<close> times
  the coefficient of that output in the linear combination the node stands for.\<close>

theorem backward_pass_total:
  assumes ok: "heap_ok vm R" and r: "ranked rank vm" and L: "solves L vm"
    and p: "vm_heap vm p = Some c" and ad: "ad_node c"
  shows "\<exists>vm'. Option.bind (bump_all p x vm) (opt_fold boxed_dec_rc R) = Some vm' \<and> vm_heap vm' = Map.empty
    \<and> (\<forall>d i. i < length (vm_out vm d) \<longrightarrow> vm_out vm' d ! i = vm_out vm d ! i
        + (\<Sum>q\<in>Map.dom (vm_heap vm). acc_of (the (vm_heap vm q)) d * L q i) + x d * L p i)"
proof -
  obtain vm1 where 1: "bump_all p x vm = Some vm1" "bumped L p x vm vm1" using bump_all_ok[OF ok p ad L] by blast
  then have s: "same_shape vm vm1" by (simp add: bumped_def)
  then have o: "out_len vm1 = out_len vm" by (simp add: same_shape_def)
  have r1: "ranked rank vm1" using r by (simp add: ranked_def same_shape_dom[OF s] same_shape_kids[OF s])
  obtain vm' where 2: "opt_fold boxed_dec_rc R vm1 = Some vm'" "heap_ok vm' []" "shrinks L vm1 vm'"
    using drop_list_ok[of vm1 R "[]" L] same_shape_ok[OF s ok] same_shape_solves[OF s L] by auto
  have e: "vm_heap vm' = Map.empty" by (rule no_roots_empty[OF 2(2) ranked_shrinks[OF r1 2(3)]])
  have "vm_out vm' d ! i = dtotal L vm d i + x d * L p i" if "i < length (vm_out vm d)" for d i
  proof -
    have "dtotal L vm' d i = dtotal L vm d i + x d * L p i"
      using 1(2) 2(3) that o by (simp add: shrinks_def bumped_def out_len_def)
    then show ?thesis by (simp add: dtotal_def e)
  qed
  then show ?thesis using 1(1) 2(1) e by (simp add: dtotal_def)
qed

text \<open>The heap for \<open>w + 5 * w\<close> with \<open>w\<close> the witness at index 1, and the frame holding the sum.\<close>

definition sum_heap :: "rat vm" where
  "sum_heap = \<lparr>vm_heap = [8 \<mapsto> \<lparr>o_layout = layout_new DtADWitness, o_rc = 2, o_table = - 1, o_data = PWitness 1\<rparr>,
       16 \<mapsto> \<lparr>o_layout = layout_new DtADMulConst, o_rc = 1, o_table = - 1, o_data = PMulConst 5 8 (\<lambda>_. 0)\<rparr>,
       24 \<mapsto> \<lparr>o_layout = layout_new DtADSum, o_rc = 1, o_table = - 1, o_data = PSum 8 16 (\<lambda>_. 0)\<rparr>],
     vm_events = [], vm_out = (\<lambda>_. [0, 0]), vm_structs = [], vm_coeffs = [], vm_cnst_off = 0, vm_wit_off = 2\<rparr>"

definition sum_coeff :: "u64 \<Rightarrow> nat \<Rightarrow> rat" where
  "sum_coeff p i = (if i = 1 then (if p = 8 then 1 else if p = 16 then 5 else 6) else 0)"

lemma sum_heap_ok: "heap_ok sum_heap [24]"
proof (rule heap_okI)
  let ?h = "vm_heap sum_heap" and ?s = "vm_structs sum_heap"
  have dm: "Map.dom ?h = {24, 16, 8}" by (simp add: sum_heap_def)
  have ks: "kids ?s ?h 8 = []" "kids ?s ?h 16 = [8]" "kids ?s ?h 24 = [8, 16]"
    by (simp_all add: kids_def sum_heap_def held_def)
  show "finite (Map.dom ?h)" "set [24] \<subseteq> Map.dom ?h" by (simp_all add: dm)
  show "object_ok ?s (out_len sum_heap) ?h (the (?h p))" if "p \<in> Map.dom ?h" for p
    using that unfolding dm by (auto simp: object_ok_def sum_heap_def held_def ad_node_def out_len_def)
  show "0 < rc_of ?h p \<and> count_list [24] p + inner_refs ?s ?h p = rc_of ?h p" if "p \<in> Map.dom ?h" for p
    using that unfolding dm inner_refs_def by (auto simp: ks) (simp_all add: rc_of_def sum_heap_def)
qed

lemma sum_heap_ranked: "ranked unat sum_heap"
proof -
  have dm: "Map.dom (vm_heap sum_heap) = {24, 16, 8}" by (simp add: sum_heap_def)
  show ?thesis unfolding ranked_def dm by (simp add: kids_def sum_heap_def held_def)
qed

lemma sum_heap_solved: "solves sum_coeff sum_heap"
proof -
  have dm: "Map.dom (vm_heap sum_heap) = {24, 16, 8}" by (simp add: sum_heap_def)
  show ?thesis unfolding solves_def dm by (simp add: sum_heap_def sum_coeff_def fun_eq_iff)
qed

lemma dec_rc_safe_witness: "\<exists>vm'. boxed_dec_rc 24 sum_heap = Some vm' \<and> heap_ok vm' []"
  using dec_rc_safe[OF sum_heap_ok sum_heap_ranked] by blast

lemma backward_pass_total_witness:
  "\<exists>vm'. Option.bind (bump_all 24 (\<lambda>_. 2) sum_heap) (opt_fold boxed_dec_rc [24]) = Some vm'
    \<and> vm_heap vm' = Map.empty \<and> vm_out vm' SideA ! 1 = 12"
proof -
  have c: "vm_heap sum_heap 24 = Some \<lparr>o_layout = layout_new DtADSum, o_rc = 1, o_table = - 1, o_data = PSum 8 16 (\<lambda>_. 0)\<rparr>"
    by (simp add: sum_heap_def)
  have dm: "Map.dom (vm_heap sum_heap) = {24, 16, 8}" by (simp add: sum_heap_def)
  have ad: "ad_node \<lparr>o_layout = layout_new DtADSum, o_rc = 1, o_table = - 1, o_data = PSum 8 16 (\<lambda>_. 0)\<rparr>"
    by (simp add: ad_node_def)
  have z: "(\<Sum>q\<in>Map.dom (vm_heap sum_heap). acc_of (the (vm_heap sum_heap q)) SideA * sum_coeff q 1) = 0"
    unfolding dm by (simp add: acc_of_def sum_heap_def)
  obtain vm' where v: "Option.bind (bump_all 24 (\<lambda>_. 2) sum_heap) (opt_fold boxed_dec_rc [24]) = Some vm'"
    "vm_heap vm' = Map.empty"
    and out: "\<And>d i. i < length (vm_out sum_heap d) \<Longrightarrow> vm_out vm' d ! i = vm_out sum_heap d ! i
        + (\<Sum>q\<in>Map.dom (vm_heap sum_heap). acc_of (the (vm_heap sum_heap q)) d * sum_coeff q i) + 2 * sum_coeff 24 i"
    using backward_pass_total[OF sum_heap_ok sum_heap_ranked sum_heap_solved c ad, of "\<lambda>_. 2"] by blast
  have "vm_out vm' SideA ! 1 = 12" using out[of 1 SideA] z by (simp add: sum_heap_def sum_coeff_def)
  then show ?thesis using v by blast
qed

end
