(* ===== verification/VM_Arrays.thy ===== *)
theory VM_Arrays
  imports VM_Refcount "HOL-Library.Multiset"
begin

text \<open>
  Copy on write: \<^verbatim>\<open>array_set\<close> of \<^verbatim>\<open>vm/src/bytecode.rs\<close> writes in place when it holds the only reference and copies
  otherwise. Either way it behaves as a functional update: the result has the new element, every other object keeps its
  contents, and every reference count is right.
\<close>

subsection \<open>Dropping references beside an object that nothing refers to\<close>

lemma put_put [simp]: "put_object p c (put_object p c' vm) = put_object p c vm"
  by (simp add: put_object_def)

lemma put_same: "vm_heap vm p = Some c \<Longrightarrow> put_object p c vm = vm"
  by (simp add: put_object_def fun_upd_idem)

lemma put_at [simp]: "vm_heap (put_object p c vm) q = (if q = p then Some c else vm_heap vm q)"
  by (simp add: put_object_def)

lemma put_frame [simp]:
  "vm_structs (put_object p c vm) = vm_structs vm" "vm_out (put_object p c vm) = vm_out vm"
  "vm_events (put_object p c vm) = vm_events vm"
  by (simp_all add: put_object_def)

lemma put_swap: "p \<noteq> q \<Longrightarrow> put_object p c (put_object q d vm) = put_object q d (put_object p c vm)"
  by (simp add: put_object_def fun_upd_twist)

lemma put_out: "put_object p c (vm\<lparr>vm_out := o'\<rparr>) = (put_object p c vm)\<lparr>vm_out := o'\<rparr>"
  by (simp add: put_object_def)

lemma put_events: "put_object p c (vm\<lparr>vm_events := ev\<rparr>) = (put_object p c vm)\<lparr>vm_events := ev\<rparr>"
  by (simp add: put_object_def)

lemma bump_put:
  "k \<noteq> a \<Longrightarrow> bump d k x (put_object a c vm) = map_option (put_object a c) (bump d k x vm)"
proof (cases "vm_heap vm k")
  case (Some e)
  assume "k \<noteq> a"
  then show ?thesis using Some
    by (cases "layout_data_type (o_layout e)"; simp add: bump_def; cases "the (layout_data_type (o_layout e))"; cases "o_data e")
       (simp_all add: add_out_def put_swap put_out)
qed (simp add: bump_def)

lemma bump_all_put:
  "k \<noteq> a \<Longrightarrow> bump_all k x (put_object a c vm) = map_option (put_object a c) (bump_all k x vm)"
  by (cases "bump SideA k (x SideA) vm"; cases "bump SideB k (x SideB) (the (bump SideA k (x SideA) vm))")
     (simp_all add: bump_all_def bump_put)

lemma free_put:
  "p \<noteq> a \<Longrightarrow> free_object p (put_object a c vm) = map_option (put_object a c) (free_object p vm)"
  by (cases "vm_heap vm p"; cases "underlying_array_size (vm_structs vm) (o_layout (the (vm_heap vm p)))")
     (auto simp: free_object_def put_object_def fun_upd_twist)

lemma release_put:
  assumes ok: "heap_ok vm R" and p: "vm_heap vm p = Some e" and pa: "p \<noteq> a"
    and ka: "a \<notin> set (kids (vm_structs vm) (vm_heap vm) p)"
  shows "release p (put_object a c vm) = map_option (\<lambda>(ks, vm). (ks, put_object a c vm)) (release p vm)"
proof -
  note h = heap_ok_kids(1)[OF ok p]
  obtain t where t: "layout_data_type (o_layout e) = Some t" using h by (auto simp: held_def bind_Some_iff)
  have none: "free_object p (put_object a c vm) \<bind> (\<lambda>vm. Some (ks, vm))
      = map_option (\<lambda>(ks, vm). (ks, put_object a c vm)) (free_object p vm \<bind> (\<lambda>vm. Some (ks, vm)))" for ks vm
    using pa by (cases "free_object p vm") (simp_all add: free_put)
  show ?thesis
  proof (cases "o_data e")
    case (PWords ws)
    then show ?thesis using p t h pa none
      by (cases t) (auto simp: release_def held_def bind_Some_iff nth_opt_in)
  next
    case (PSum x y acc)
    then have t': "t = DtADSum" using h t by (cases t) (simp_all add: held_def)
    then have "kids (vm_structs vm) (vm_heap vm) p = [x, y]" using PSum h t by (simp add: held_def)
    then have "a \<noteq> x" "a \<noteq> y" using ka by auto
    then show ?thesis using PSum t t' p pa none
      by (cases "bump_all x acc vm"; cases "bump_all y acc (the (bump_all x acc vm))") (simp_all add: release_def bump_all_put)
  next
    case (PMulConst k v acc)
    then have t': "t = DtADMulConst" using h t by (cases t) (simp_all add: held_def)
    then have "kids (vm_structs vm) (vm_heap vm) p = [v]" using PMulConst h t by (simp add: held_def)
    then have "a \<noteq> v" using ka by auto
    then show ?thesis using PMulConst t t' p pa none
      by (cases "bump_all v (\<lambda>d. acc d * k) vm") (simp_all add: release_def bump_all_put)
  next
    case (PConst v)
    then show ?thesis using p t h pa none by (cases t) (simp_all add: release_def held_def)
  next
    case (PWitness v)
    then show ?thesis using p t h pa none by (cases t) (simp_all add: release_def held_def)
  qed
qed

lemma dec_rc_step_put:
  assumes ok: "heap_ok vm (p # R)" and pa: "p \<noteq> a" and ka: "\<And>q. a \<notin> set (kids (vm_structs vm) (vm_heap vm) q)"
  shows "dec_rc_step (p # Q) (put_object a c vm) = map_option (\<lambda>(q, vm). (q, put_object a c vm)) (dec_rc_step (p # Q) vm)"
proof -
  obtain e where p: "vm_heap vm p = Some e" using heap_ok_root[OF ok] by blast
  show ?thesis using p pa release_put[OF ok p pa ka, of c]
    by (cases "release p vm") (auto simp: dec_rc_step_def put_swap)
qed

text \<open>The only reference to \<open>a\<close> is held outside the queue, so the loop never looks at it.\<close>

lemma sole_reference:
  assumes ok: "heap_ok vm (Q @ a # R)" and a: "vm_heap vm a = Some c" and rc: "o_rc c = 1"
  shows "a \<notin> set Q" "a \<notin> set R" "a \<notin> set (kids (vm_structs vm) (vm_heap vm) q)"
proof -
  have "1 = count_list Q a + Suc (count_list R a) + inner_refs (vm_structs vm) (vm_heap vm) a"
    using heap_ok_rc[OF ok a] rc by simp
  then have z: "count_list Q a = 0" "count_list R a = 0" "inner_refs (vm_structs vm) (vm_heap vm) a = 0" by simp_all
  from z(1,2) show "a \<notin> set Q" "a \<notin> set R" by (simp_all add: count_list_0_iff)
  show "a \<notin> set (kids (vm_structs vm) (vm_heap vm) q)"
  proof (cases "q \<in> Map.dom (vm_heap vm)")
    case True
    then show ?thesis using z(3) heap_ok_finite[OF ok] by (simp add: inner_refs_def count_list_0_iff)
  next
    case False
    then have "vm_heap vm q = None" by auto
    then show ?thesis by (simp add: kids_def)
  qed
qed

lemma dec_rc_loop_put:
  assumes "heap_ok vm (Q @ a # R)" "solves L vm" "vm_heap vm a = Some e" "o_rc e = 1"
  shows "dec_rc_loop Q (put_object a c vm) = map_option (put_object a c) (dec_rc_loop Q vm)
    \<and> (\<forall>vm'. dec_rc_loop Q vm = Some vm' \<longrightarrow> vm_heap vm' a = Some e)"
  using assms
proof (induction "rc_sum vm" arbitrary: vm Q rule: less_induct)
  case less
  show ?case
  proof (cases Q)
    case Nil
    then show ?thesis using less.prems by (simp add: dec_rc_loop.simps)
  next
    case (Cons p P)
    note sole = sole_reference[OF less.prems(1,3,4)]
    have ok: "heap_ok vm (p # P @ a # R)" using less.prems(1) Cons by simp
    have pa: "p \<noteq> a" using sole(1) Cons by auto
    obtain Q' vm1 where 1: "dec_rc_step Q vm = Some (Q', vm1)" "heap_ok vm1 (Q' @ a # R)" "shrinks L vm vm1"
        "rc_sum vm1 < rc_sum vm"
      using dec_rc_step_ok[OF ok less.prems(2)] Cons by auto
    have step: "dec_rc_step Q (put_object a d vm) = Some (Q', put_object a d vm1)" for d
      using dec_rc_step_put[OF ok pa sole(3), of P d] 1(1) Cons by simp
    have a1: "vm_heap vm1 a = Some e" using step[of e] 1(1) put_same[OF less.prems(3)]
      by (metis option.inject prod.inject put_at)
    have "solves L vm1" using 1(3) by (simp add: shrinks_def)
    note ih = less.hyps[OF 1(4,2) this a1 less.prems(4)]
    have "dec_rc_loop Q vm = dec_rc_loop Q' vm1"
      "dec_rc_loop Q (put_object a c vm) = dec_rc_loop Q' (put_object a c vm1)"
      using Cons 1(1) step[of c] by (subst dec_rc_loop.simps, simp)+
    then show ?thesis using ih by simp
  qed
qed

subsection \<open>Writing an element\<close>

lemma heap_ok_mset: "mset R = mset R' \<Longrightarrow> heap_ok vm R = heap_ok vm R'"
  unfolding heap_ok_def count_mset[symmetric] set_mset_mset[symmetric] by simp

lemma heap_ok_events [simp]: "heap_ok (vm\<lparr>vm_events := ev\<rparr>) R = heap_ok vm R"
  by (simp add: heap_ok_def)

lemma count_list_update:
  "i < length xs \<Longrightarrow> count_list (xs[i := v]) q + count_list [xs ! i] q = count_list xs q + count_list [v] q"
proof -
  assume i: "i < length xs"
  have "count_list xs q = count_list (take i xs @ xs ! i # drop (Suc i) xs) q" using id_take_nth_drop[OF i] by simp
  then show ?thesis using i by (simp add: upd_conv_take_nth_drop)
qed

lemma set_words_put:
  "set_words p off src (put_object p c vm) = (case o_data c of
     PWords ws \<Rightarrow> map_option (\<lambda>ws'. put_object p (c\<lparr>o_data := PWords ws'\<rparr>) vm) (write_words off src ws) | _ \<Rightarrow> None)"
  by (cases "write_words off src (case o_data c of PWords ws \<Rightarrow> ws | _ \<Rightarrow> [])")
     (auto simp: set_words_def payload_words_def split: payload.split)

lemma read_words_put [simp]:
  "read_words p off n (put_object q c vm) = (if p = q then (case o_data c of
     PWords ws \<Rightarrow> if off + n \<le> length ws then Some (take n (drop off ws)) else None | _ \<Rightarrow> None) else read_words p off n vm)"
  by (auto simp: read_words_def get_words_def payload_words_def split: payload.split)

lemma write_one: "i < length ws \<Longrightarrow> write_words i [v] ws = Some (ws[i := v])"
  by (simp add: write_words_def upd_conv_take_nth_drop)

lemma write_words_length: "write_words off src ws = Some ws' \<Longrightarrow> length ws' = length ws"
  by (auto simp: write_words_def split: if_splits)

lemma boxed_held:
  assumes "layout_data_type (o_layout c) = Some DtBoxedArray" "o_data c = PWords ws" "length ws = array_size (o_layout c)"
  shows "held tbl c = Some ws"
proof -
  have "opt_map (nth_opt ws) [0..<length ws] = Some (map ((!) ws) [0..<length ws])"
    by (rule opt_map_total) (simp add: nth_opt_in)
  then show ?thesis using assms(1,2) unfolding assms(3)[symmetric] map_nth by (simp add: held_def assms(3))
qed

text \<open>Replacing the contents of an object exchanges the references it held for those it holds now.\<close>

lemma heap_ok_replace:
  assumes ok: "heap_ok vm (new @ R)" and p: "vm_heap vm p = Some c"
    and lay: "o_layout c' = o_layout c" "o_rc c' = o_rc c" and w: "\<not> ad_node c" "\<not> ad_node c'"
    and c': "held (vm_structs vm) c' = Some ks'" "object_ok (vm_structs vm) (out_len vm) (vm_heap vm) c'"
    and old: "set old \<subseteq> Map.dom (vm_heap vm)"
    and bal: "\<And>q. count_list ks' q + count_list old q = count_list (kids (vm_structs vm) (vm_heap vm) p) q + count_list new q"
  shows "heap_ok (put_object p c' vm) (old @ R)" (is "heap_ok ?vm _")
proof -
  let ?h = "vm_heap vm" and ?s = "vm_structs vm"
  have dm: "Map.dom (vm_heap ?vm) = Map.dom ?h" using p by (auto split: if_splits)
  have pd: "p \<in> Map.dom ?h" using p by auto
  have ks: "kids ?s (vm_heap ?vm) q = (if q = p then ks' else kids ?s ?h q)" for q using c'(1) by (simp add: kids_def)
  have obj: "object_ok ?s (out_len ?vm) (vm_heap ?vm) (the (vm_heap ?vm q))" if "q \<in> Map.dom ?h" for q
  proof -
    from that obtain d where d: "?h q = Some d" by auto
    have ad: "ad_node (the (vm_heap ?vm k)) = ad_node (the (?h k))" for k using p w by simp
    have "object_ok ?s (out_len ?vm) (vm_heap ?vm) e = object_ok ?s (out_len vm) ?h e" for e
      unfolding object_ok_def dm ad out_len_simps by simp
    then show ?thesis using heap_ok_object[OF ok d] d c'(2) by simp
  qed
  have rc: "rc_of (vm_heap ?vm) q = rc_of ?h q" for q using p lay(2) by (simp add: rc_of_def)
  have ir: "inner_refs ?s (vm_heap ?vm) q + count_list (kids ?s ?h p) q = inner_refs ?s ?h q + count_list ks' q" for q
  proof -
    have "(\<Sum>r\<in>Map.dom ?h - {p}. count_list (kids ?s (vm_heap ?vm) r) q) = (\<Sum>r\<in>Map.dom ?h - {p}. count_list (kids ?s ?h r) q)"
      by (rule sum.cong) (simp_all add: ks)
    then show ?thesis using heap_ok_finite[OF ok] pd
      by (simp add: inner_refs_def dm sum.remove[of _ p]) (simp add: ks)
  qed
  have rcs: "0 < rc_of ?h q \<and> count_list (old @ R) q + inner_refs ?s (vm_heap ?vm) q = rc_of ?h q" if "q \<in> Map.dom ?h" for q
  proof -
    have "0 < rc_of ?h q \<and> count_list (new @ R) q + inner_refs ?s ?h q = rc_of ?h q" using ok that by (simp add: heap_ok_def)
    then show ?thesis using ir[of q] bal[of q] by simp
  qed
  have "set (old @ R) \<subseteq> Map.dom ?h" using ok old by (simp add: heap_ok_def)
  then show ?thesis by (intro heap_okI) (use heap_ok_finite[OF ok] obj rcs in \<open>simp_all add: dm rc\<close>)
qed

text \<open>Every object of the new heap other than \<open>a\<close> has the layout and contents it had, accumulators apart.\<close>

definition keeps :: "u64 \<Rightarrow> 'f::zero vm \<Rightarrow> 'f vm \<Rightarrow> bool" where
  "keeps a vm vm' \<longleftrightarrow> (\<forall>q c'. q \<noteq> a \<longrightarrow> vm_heap vm' q = Some c' \<longrightarrow>
     (\<exists>c. vm_heap vm q = Some c \<and> strip c' = strip c\<lparr>o_rc := o_rc c'\<rparr>))"

lemma offset_one [simp]: "element_offset index (Suc 0) = unat index"
  by (simp add: element_offset_def)

lemma array_object_ok:
  assumes "layout_data_type l = Some (if boxed then DtBoxedArray else DtPrimArray)" "length ws = array_size l"
    and "boxed \<Longrightarrow> set ws \<subseteq> Map.dom h" and "o_layout c = l" "o_data c = PWords ws"
  shows "held tbl c = Some (if boxed then ws else [])" "object_ok tbl n h c"
proof -
  show h: "held tbl c = Some (if boxed then ws else [])"
  proof (cases boxed)
    case True then show ?thesis using boxed_held[of c ws] assms by simp
  next
    case False then show ?thesis using assms by (simp add: held_def)
  qed
  show "object_ok tbl n h c" unfolding object_ok_def h using assms
    by (auto simp: ad_node_def underlying_array_size_def)
qed

lemma array_set_in_place_boxed:
  assumes ok: "heap_ok vm (array # v # R)" and L: "solves L vm" and c: "vm_heap vm array = Some c" and rc: "o_rc c = 1"
    and t: "layout_data_type (o_layout c) = Some DtBoxedArray" and ws: "o_data c = PWords ws" "length ws = array_size (o_layout c)"
    and i: "unat index < length ws"
  shows "\<exists>vm'. op_array_set p' junk array index [v] 1 vm = Some (array, vm') \<and> heap_ok vm' (array # R)
    \<and> get_words array vm' = Some (ws[unat index := v]) \<and> keeps array vm vm'"
proof -
  let ?i = "unat index" and ?s = "vm_structs vm"
  let ?c = "c\<lparr>o_data := PWords (ws[unat index := v])\<rparr>"
  let ?vm = "put_object array ?c vm"
  have ks: "kids ?s (vm_heap vm) array = ws" using boxed_held[OF t ws] c by (simp add: kids_def)
  have wd: "set ws \<subseteq> Map.dom (vm_heap vm)" using heap_ok_kids(2)[OF ok c] ks by simp
  have vd: "v \<in> Map.dom (vm_heap vm)" using ok by (simp add: heap_ok_def)
  have nw: "set (ws[?i := v]) \<subseteq> Map.dom (vm_heap vm)" using wd vd set_update_subset_insert[of ws ?i v] by auto
  note new = array_object_ok[of "o_layout c" True "ws[?i := v]" "vm_heap vm" ?c, simplified, OF t ws(2) nw]
  have ok': "heap_ok vm ([v] @ array # R)" using ok heap_ok_mset[of "array # v # R" "[v] @ array # R" vm] by simp
  have od: "set [ws ! ?i] \<subseteq> Map.dom (vm_heap vm)" using wd nth_mem[OF i] by auto
  have bal: "count_list (ws[?i := v]) q + count_list [ws ! ?i] q
      = count_list (kids ?s (vm_heap vm) array) q + count_list [v] q" for q
    unfolding ks by (rule count_list_update[OF i])
  have "heap_ok ?vm ([ws ! ?i] @ array # R)"
    by (rule heap_ok_replace[OF ok' c _ _ _ _ new od bal]) (simp_all add: ad_node_def ws)
  moreover have "solves L ?vm" using L c unfolding solves_def by (auto split: if_splits)
  moreover have at: "vm_heap ?vm array = Some ?c" by simp
  ultimately obtain vm2 where 2: "dec_rc_loop [ws ! ?i] ?vm = Some vm2" "heap_ok vm2 (array # R)" "shrinks L ?vm vm2"
      "vm_heap vm2 array = Some ?c" "dec_rc_loop [ws ! ?i] (put_object array c ?vm) = Some (put_object array c vm2)"
    using dec_rc_loop_ok[of ?vm "[ws ! ?i]" "array # R" L] dec_rc_loop_put[of ?vm "[ws ! ?i]" array R L ?c c] rc by auto
  have dec: "boxed_dec_rc (ws ! ?i) vm = Some (put_object array c vm2)"
    using 2(5) put_same[OF c] by (simp add: boxed_dec_rc_def)
  have rd: "read_words array ?i (Suc 0) vm = Some [ws ! ?i]"
    using c ws i by (simp add: read_words_def get_words_def payload_words_def take_Suc_conv_app_nth hd_drop_conv_nth take_Suc)
  have st: "set_words array ?i [v] (put_object array c vm2) = Some vm2"
    using ws(1) i put_same[OF 2(4)] by (simp add: set_words_put write_one)
  have "op_array_set p' junk array index [v] 1 vm = Some (array, vm2)"
    using c rc t ws i by (simp add: op_array_set_def copy_if_reused_def rd dec st)
  moreover have "get_words array vm2 = Some (ws[?i := v])" using 2(4) by (simp add: get_words_def payload_words_def)
  moreover have "keeps array vm vm2" unfolding keeps_def
  proof (intro allI impI)
    fix q c' assume q: "q \<noteq> array" "vm_heap vm2 q = Some c'"
    then obtain d where "vm_heap ?vm q = Some d" "strip c' = strip d\<lparr>o_rc := o_rc c'\<rparr>" using 2(3) unfolding shrinks_def by blast
    then show "\<exists>c. vm_heap vm q = Some c \<and> strip c' = strip c\<lparr>o_rc := o_rc c'\<rparr>" using q(1) by auto
  qed
  ultimately show ?thesis using 2(2) by blast
qed

subsection \<open>Copying an array\<close>

definition inc_all :: "u64 list \<Rightarrow> 'f vm \<Rightarrow> 'f vm option" where
  "inc_all es vm = opt_fold (\<lambda>e. boxed_inc_rc e 1) es vm"

lemma inc_put: "e \<noteq> p \<Longrightarrow> boxed_inc_rc e n (put_object p c vm) = map_option (put_object p c) (boxed_inc_rc e n vm)"
  by (cases "vm_heap vm e") (simp_all add: boxed_inc_rc_def put_swap)

text \<open>Sharing reads the elements from the copy, which no count it changes belongs to.\<close>

lemma share_elements_put:
  assumes "o_data c = PWords ws" "p \<notin> set ws" "\<And>j. j \<in> set js \<Longrightarrow> j < length ws"
  shows "opt_fold (\<lambda>j vm. if j \<noteq> i then do { elem \<leftarrow> read_words p (j * 1) 1 vm; boxed_inc_rc (hd elem) 1 vm } else Some vm)
      js (put_object p c vm) = map_option (put_object p c) (inc_all (map ((!) ws) (filter (\<lambda>j. j \<noteq> i) js)) vm)"
  using assms(3)
proof (induction js arbitrary: vm)
  case Nil
  then show ?case by (simp add: inc_all_def)
next
  case (Cons j js)
  have j: "j < length ws" using Cons.prems by simp
  have "ws ! j \<noteq> p" using assms(2) nth_mem[OF j] by auto
  have rd: "read_words p (j * 1) 1 (put_object p c vm) = Some [ws ! j]" for vm
    using assms(1) j by (simp add: take_Suc_conv_app_nth hd_drop_conv_nth take_Suc)
  have ih: "opt_fold (\<lambda>j vm. if j \<noteq> i then do { elem \<leftarrow> read_words p (j * 1) 1 vm; boxed_inc_rc (hd elem) 1 vm } else Some vm)
      js (put_object p c vm) = map_option (put_object p c) (inc_all (map ((!) ws) (filter (\<lambda>j. j \<noteq> i) js)) vm)" for vm
    using Cons.IH Cons.prems by simp
  show ?case
  proof (cases "j = i")
    case True
    then show ?thesis using ih by simp
  next
    case False
    then show ?thesis using ih rd inc_put[OF \<open>ws ! j \<noteq> p\<close>, of 1 c]
      by (cases "boxed_inc_rc (ws ! j) 1 vm") (simp_all add: inc_all_def)
  qed
qed

lemma inc_all_ok:
  assumes "heap_ok vm R" "set es \<subseteq> Map.dom (vm_heap vm)" "\<And>q. rc_of (vm_heap vm) q + length es < 2 ^ 64"
  shows "\<exists>vm'. inc_all es vm = Some vm' \<and> heap_ok vm' (es @ R) \<and> vm_structs vm' = vm_structs vm
    \<and> Map.dom (vm_heap vm') = Map.dom (vm_heap vm)
    \<and> (\<forall>q c'. vm_heap vm' q = Some c' \<longrightarrow> (\<exists>c. vm_heap vm q = Some c \<and> c' = c\<lparr>o_rc := o_rc c'\<rparr>))"
  using assms
proof (induction es arbitrary: vm R)
  case Nil
  have "c = c\<lparr>o_rc := o_rc c\<rparr>" for c :: "'a object" by simp
  then show ?case using Nil by (auto simp: inc_all_def)
next
  case (Cons e es)
  obtain c where c: "vm_heap vm e = Some c" using Cons.prems(2) by auto
  let ?vm = "put_object e (c\<lparr>o_rc := o_rc c + 1\<rparr>) vm"
  have inc: "boxed_inc_rc e 1 vm = Some ?vm" using c by (simp add: boxed_inc_rc_def)
  have u: "unat (o_rc c) + 1 < 2 ^ 64" using Cons.prems(3)[of e] c by (simp add: rc_of_def)
  have ok: "heap_ok ?vm (e # R)" using inc_rc_ok[OF Cons.prems(1) c, of 1] u inc by simp
  have "unat (o_rc c + 1) = unat (o_rc c) + 1" using u by (simp add: unat_word_ariths)
  then have "rc_of (vm_heap ?vm) q + length es < 2 ^ 64" for q
    using Cons.prems(3)[of q] c by (cases "q = e") (simp_all add: rc_of_def)
  moreover have "Map.dom (vm_heap ?vm) = Map.dom (vm_heap vm)" using c by (auto split: if_splits)
  moreover have "set es \<subseteq> Map.dom (vm_heap vm)" using Cons.prems(2) by simp
  ultimately obtain vm' where v: "inc_all es ?vm = Some vm'" "heap_ok vm' (es @ e # R)" "vm_structs vm' = vm_structs vm"
      "Map.dom (vm_heap vm') = Map.dom (vm_heap vm)"
      "\<And>q c'. vm_heap vm' q = Some c' \<Longrightarrow> \<exists>c. vm_heap ?vm q = Some c \<and> c' = c\<lparr>o_rc := o_rc c'\<rparr>"
    using Cons.IH[OF ok] unfolding put_frame by metis
  have "heap_ok vm' ((e # es) @ R)" using v(2) heap_ok_mset[of "es @ e # R" "(e # es) @ R" vm'] by simp
  moreover have "\<exists>c. vm_heap vm q = Some c \<and> c' = c\<lparr>o_rc := o_rc c'\<rparr>" if "vm_heap vm' q = Some c'" for q c'
    using v(5)[OF that] c by (cases "q = e") auto
  ultimately show ?case using v inc by (auto simp: inc_all_def)
qed

text \<open>The machine after the copy is the new object beside a machine in which the frame gave up its reference.\<close>

lemma copy_if_reused_ok:
  assumes ok: "heap_ok vm (array # R)" and c: "vm_heap vm array = Some c" and rc: "o_rc c \<noteq> 1"
    and ws: "o_data c = PWords ws" "length ws = array_size (o_layout c)" "length junk = length ws"
    and fresh: "vm_heap vm p' = None"
  shows "\<exists>vma. copy_if_reused p' junk array vm
      = Some (p', put_object p' \<lparr>o_layout = o_layout c, o_rc = 1, o_table = - 1, o_data = PWords ws\<rparr> vma)
    \<and> heap_ok vma R \<and> vm_structs vma = vm_structs vm \<and> Map.dom (vm_heap vma) = Map.dom (vm_heap vm)
    \<and> (\<forall>q. rc_of (vm_heap vma) q \<le> rc_of (vm_heap vm) q)
    \<and> (\<forall>q d. vm_heap vma q = Some d \<longrightarrow> (\<exists>c. vm_heap vm q = Some c \<and> d = c\<lparr>o_rc := o_rc d\<rparr>))"
proof -
  let ?o = "\<lparr>o_layout = o_layout c, o_rc = 1, o_table = - 1, o_data = PWords ws\<rparr>"
  let ?c = "c\<lparr>o_rc := o_rc c - 1\<rparr>"
  obtain n where n: "underlying_array_size (vm_structs vm) (o_layout c) = Some n"
    using heap_ok_object[OF ok c] by (auto simp: object_ok_def)
  let ?ev = "vm_events vm @ [AllocHeap n]"
  let ?vma = "(put_object array ?c vm)\<lparr>vm_events := ?ev\<rparr>"
  have ne: "array \<noteq> p'" using c fresh by auto
  have "put_object array ?c (put_object p' ?o (vm\<lparr>vm_events := ?ev\<rparr>)) = put_object p' ?o ?vma"
    by (simp add: put_swap[OF ne] put_events)
  then have copy: "copy_if_reused p' junk array vm = Some (p', put_object p' ?o ?vma)"
    using c rc ws n by (simp add: copy_if_reused_def boxed_alloc_def write_words_def)
  have "0 < unat (o_rc c)" using heap_ok_rc[OF ok c] by simp
  then have "unat (o_rc c - 1) = unat (o_rc c) - 1" by (metis unat_0 less_numeral_extra(3) unat_minus_one)
  then have "rc_of (vm_heap ?vma) q \<le> rc_of (vm_heap vm) q" for q using c by (simp add: rc_of_def)
  moreover have "\<exists>c. vm_heap vm q = Some c \<and> d = c\<lparr>o_rc := o_rc d\<rparr>" if "vm_heap ?vma q = Some d" for q d
  proof (cases "q = array")
    case True
    then show ?thesis using that c by auto
  next
    case False
    then show ?thesis using that by (intro exI[of _ d]) simp
  qed
  moreover have "Map.dom (vm_heap ?vma) = Map.dom (vm_heap vm)" using c by (auto split: if_splits)
  ultimately show ?thesis using copy heap_ok_decrement(1)[OF ok c rc]
    by (intro exI[of _ ?vma]) simp
qed

lemma keeps_new:
  assumes "\<And>q d. vm_heap vma q = Some d \<Longrightarrow> \<exists>c. vm_heap vm q = Some c \<and> d = c\<lparr>o_rc := o_rc d\<rparr>"
  shows "keeps p' vm (put_object p' o' vma)"
  unfolding keeps_def
proof (intro allI impI)
  fix q c' assume "q \<noteq> p'" "vm_heap (put_object p' o' vma) q = Some c'"
  then obtain c where "vm_heap vm q = Some c" "c' = c\<lparr>o_rc := o_rc c'\<rparr>" using assms by auto
  then show "\<exists>c. vm_heap vm q = Some c \<and> strip c' = strip c\<lparr>o_rc := o_rc c'\<rparr>" by (metis strip_rc)
qed

lemma array_set_copy_prim:
  assumes ok: "heap_ok vm (array # R)" and c: "vm_heap vm array = Some c" and rc: "o_rc c \<noteq> 1"
    and t: "layout_data_type (o_layout c) = Some DtPrimArray"
    and ws: "o_data c = PWords ws" "length ws = array_size (o_layout c)" "length junk = length ws"
    and w: "write_words (element_offset index stride) source ws = Some ws'" and i: "element_offset index stride < length ws"
    and fresh: "vm_heap vm p' = None"
  shows "\<exists>vm'. op_array_set p' junk array index source stride vm = Some (p', vm') \<and> heap_ok vm' (p' # R)
    \<and> get_words p' vm' = Some ws' \<and> keeps p' vm vm'"
proof -
  let ?o = "\<lambda>ws. \<lparr>o_layout = o_layout c, o_rc = 1, o_table = - 1, o_data = PWords ws\<rparr>"
  obtain vma where v: "copy_if_reused p' junk array vm = Some (p', put_object p' (?o ws) vma)" "heap_ok vma R"
      "Map.dom (vm_heap vma) = Map.dom (vm_heap vm)"
      "\<And>q d. vm_heap vma q = Some d \<Longrightarrow> \<exists>c. vm_heap vm q = Some c \<and> d = c\<lparr>o_rc := o_rc d\<rparr>"
    using copy_if_reused_ok[OF ok c rc ws fresh] by blast
  have "vm_heap vma p' = None" using v(3) fresh by (metis domIff)
  have len: "length ws' = array_size (o_layout c)" using w ws(2) by (simp add: write_words_length)
  note new = array_object_ok[of "o_layout c" False ws' "vm_heap vma" "?o ws'", simplified, OF t len]
  have "heap_ok (put_object p' (?o ws') vma) (p' # R)"
    using new_object_ok[of vma "[]" R p' "?o ws'" "vm_events vma"] v(2) new \<open>vm_heap vma p' = None\<close> by simp
  moreover have "op_array_set p' junk array index source stride vm = Some (p', put_object p' (?o ws') vma)"
    using c t ws(2) i w v(1) by (simp add: op_array_set_def set_words_put)
  moreover have "keeps p' vm (put_object p' (?o ws') vma)" using keeps_new v(4) by blast
  ultimately show ?thesis by (simp add: get_words_def payload_words_def)
qed

lemma array_set_in_place_prim:
  assumes ok: "heap_ok vm (array # R)" and c: "vm_heap vm array = Some c" and rc: "o_rc c = 1"
    and t: "layout_data_type (o_layout c) = Some DtPrimArray"
    and ws: "o_data c = PWords ws" "length ws = array_size (o_layout c)"
    and w: "write_words (element_offset index stride) source ws = Some ws'" and i: "element_offset index stride < length ws"
  shows "\<exists>vm'. op_array_set p' junk array index source stride vm = Some (array, vm') \<and> heap_ok vm' (array # R)
    \<and> get_words array vm' = Some ws' \<and> keeps array vm vm'"
proof -
  let ?c = "c\<lparr>o_data := PWords ws'\<rparr>"
  have len: "length ws' = array_size (o_layout c)" using w ws(2) by (simp add: write_words_length)
  note new = array_object_ok[of "o_layout c" False ws' "vm_heap vm" ?c, simplified, OF t len]
  have "kids (vm_structs vm) (vm_heap vm) array = []"
    using array_object_ok(1)[of "o_layout c" False ws "vm_heap vm" c] t ws c by (simp add: kids_def)
  then have "heap_ok (put_object array ?c vm) ([] @ array # R)"
    using ok by (intro heap_ok_replace[OF _ c _ _ _ _ new, of "[]"]) (simp_all add: ad_node_def ws)
  moreover have "op_array_set p' junk array index source stride vm = Some (array, put_object array ?c vm)"
    using set_words_put[of array "element_offset index stride" source c vm] put_same[OF c] c rc t ws i w
    by (simp add: op_array_set_def copy_if_reused_def)
  moreover have "keeps array vm (put_object array ?c vm)" unfolding keeps_def by (auto simp flip: strip_rc)
  ultimately show ?thesis by (simp add: get_words_def payload_words_def)
qed

lemma others_mset:
  assumes "i < length ws"
  shows "mset (ws[i := v]) = add_mset v (mset (map ((!) ws) (filter (\<lambda>j. j \<noteq> i) [0..<length ws])))"
proof -
  have s: "[0..<length ws] = [0..<i] @ i # [Suc i..<length ws]" using assms
    upt_add_eq_append[of 0 i "length ws - i"] by (simp add: upt_conv_Cons)
  have f: "filter (\<lambda>j. j \<noteq> i) [0..<i] = [0..<i]" "filter (\<lambda>j. j \<noteq> i) [Suc i..<length ws] = [Suc i..<length ws]"
    by (simp_all add: filter_id_conv)
  have "map ((!) ws) [0..<i] = take i ws" "map ((!) ws) [Suc i..<length ws] = drop (Suc i) ws"
    using assms by (auto intro: nth_equalityI)
  then show ?thesis using assms by (simp add: s f upd_conv_take_nth_drop)
qed

lemma array_set_copy_boxed:
  assumes ok: "heap_ok vm (array # v # R)" and c: "vm_heap vm array = Some c" and rc: "o_rc c \<noteq> 1"
    and t: "layout_data_type (o_layout c) = Some DtBoxedArray"
    and ws: "o_data c = PWords ws" "length ws = array_size (o_layout c)" "length junk = length ws"
    and i: "unat index < length ws" and fresh: "vm_heap vm p' = None"
    and no_wrap: "\<And>q. rc_of (vm_heap vm) q + length ws < 2 ^ 64"
  shows "\<exists>vm'. op_array_set p' junk array index [v] 1 vm = Some (p', vm') \<and> heap_ok vm' (p' # R)
    \<and> get_words p' vm' = Some (ws[unat index := v]) \<and> keeps p' vm vm'"
proof -
  let ?i = "unat index" and ?ws = "ws[unat index := v]"
  let ?o = "\<lambda>ws. \<lparr>o_layout = o_layout c, o_rc = 1, o_table = - 1, o_data = PWords ws\<rparr>"
  let ?es = "map ((!) ws) (filter (\<lambda>j. j \<noteq> ?i) [0..<length ws])"
  obtain vma where v: "copy_if_reused p' junk array vm = Some (p', put_object p' (?o ws) vma)" "heap_ok vma (v # R)"
      "Map.dom (vm_heap vma) = Map.dom (vm_heap vm)" "\<And>q. rc_of (vm_heap vma) q \<le> rc_of (vm_heap vm) q"
      "\<And>q d. vm_heap vma q = Some d \<Longrightarrow> \<exists>c. vm_heap vm q = Some c \<and> d = c\<lparr>o_rc := o_rc d\<rparr>"
    using copy_if_reused_ok[OF ok c rc ws fresh] by blast
  have ks: "kids (vm_structs vm) (vm_heap vm) array = ws" using boxed_held[OF t ws(1,2)] c by (simp add: kids_def)
  then have wd: "set ws \<subseteq> Map.dom (vm_heap vma)" using heap_ok_kids(2)[OF ok c] v(3) by simp
  have "length ?es \<le> length ws" by (metis length_filter_le length_map length_upt minus_nat.diff_0)
  then have nw: "rc_of (vm_heap vma) q + length ?es < 2 ^ 64" for q using no_wrap[of q] v(4)[of q] by linarith
  have "set ?es \<subseteq> set ws" by auto
  then have ed: "set ?es \<subseteq> Map.dom (vm_heap vma)" using wd by blast
  obtain vmb where b: "inc_all ?es vma = Some vmb" "heap_ok vmb (?es @ v # R)" "Map.dom (vm_heap vmb) = Map.dom (vm_heap vma)"
      "\<And>q c'. vm_heap vmb q = Some c' \<Longrightarrow> \<exists>c. vm_heap vma q = Some c \<and> c' = c\<lparr>o_rc := o_rc c'\<rparr>"
    using inc_all_ok[OF v(2) ed nw] by blast
  have pf: "p' \<notin> set ws" using wd v(3) fresh by (auto simp: domIff)
  have fb: "vm_heap vmb p' = None" using v(3) b(3) fresh by (metis domIff)
  have "mset (?es @ v # R) = mset (?ws @ R)" using others_mset[OF i] by simp
  then have okb: "heap_ok vmb (?ws @ R)" using b(2) heap_ok_mset by blast
  have "set ?ws \<subseteq> Map.dom (vm_heap vmb)" using okb by (simp add: heap_ok_def)
  note new = array_object_ok[of "o_layout c" True ?ws "vm_heap vmb" "?o ?ws", simplified, OF t ws(2) this]
  have "heap_ok (put_object p' (?o ?ws) vmb) (p' # R)"
    using new_object_ok[of vmb ?ws R p' "?o ?ws" "vm_events vmb"] okb new fb by simp
  moreover have "share_elements p' (length ws) ?i 1 (put_object p' (?o ws) vma) = Some (put_object p' (?o ws) vmb)"
    unfolding share_elements_def using share_elements_put[of "?o ws" ws p' "[0..<length ws]" ?i vma] pf b(1) by simp
  then have "op_array_set p' junk array index [v] 1 vm = Some (p', put_object p' (?o ?ws) vmb)"
    using c t ws i v(1) fresh by (auto simp: op_array_set_def set_words_put write_one)
  moreover have "keeps p' vm (put_object p' (?o ?ws) vmb)"
  proof (rule keeps_new)
    fix q d assume "vm_heap vmb q = Some d"
    then obtain e where e: "vm_heap vma q = Some e" "d = e\<lparr>o_rc := o_rc d\<rparr>" using b(4) by blast
    then obtain c where "vm_heap vm q = Some c" "e = c\<lparr>o_rc := o_rc e\<rparr>" using v(5) by blast
    then show "\<exists>c. vm_heap vm q = Some c \<and> d = c\<lparr>o_rc := o_rc d\<rparr>" using e(2) by (metis object.update_convs(2) object.surjective object.simps(6))
  qed
  ultimately show ?thesis by (simp add: get_words_def payload_words_def)
qed

text \<open>C6. \<^verbatim>\<open>array_set\<close> is a functional update with copy on write: given an index in range, owned references and correct
  counts, it returns an array with the new element in place, which is a new object unless the frame held the only
  reference; every count is right afterwards, and every other object that stays keeps its layout and contents.\<close>

theorem array_set_value:
  assumes ok: "heap_ok vm (array # (if boxed then source else []) @ R)" and r: "ranked rank (vm :: 'f::field vm)"
    and c: "vm_heap vm array = Some c"
    and t: "layout_data_type (o_layout c) = Some (if boxed then DtBoxedArray else DtPrimArray)"
    and ws: "o_data c = PWords ws" "length ws = array_size (o_layout c)" "length junk = length ws"
    and source: "source \<noteq> []" "boxed \<Longrightarrow> length source = 1"
    and w: "write_words (element_offset index (length source)) source ws = Some ws'"
    and fresh: "vm_heap vm p' = None" and no_wrap: "\<And>q. rc_of (vm_heap vm) q + length ws < 2 ^ 64"
  shows "\<exists>a' vm'. op_array_set p' junk array index source (length source) vm = Some (a', vm') \<and> heap_ok vm' (a' # R)
    \<and> get_words a' vm' = Some ws' \<and> keeps a' vm vm' \<and> a' = (if o_rc c = 1 then array else p')"
proof -
  obtain L :: "u64 \<Rightarrow> nat \<Rightarrow> 'f" where L: "solves L vm" using solution_exists[OF r ok] by blast
  have i: "element_offset index (length source) < length ws"
    using w source(1) by (cases source) (auto simp: write_words_def split: if_splits)
  show ?thesis
  proof (cases boxed)
    case False
    then have "heap_ok vm (array # R)" "layout_data_type (o_layout c) = Some DtPrimArray" using ok t by simp_all
    from array_set_in_place_prim[OF this(1) c _ this(2) ws(1,2) w i] array_set_copy_prim[OF this(1) c _ this(2) ws w i fresh]
    show ?thesis by (cases "o_rc c = 1") auto
  next
    case True
    then obtain v where v: "source = [v]" using source(2) by (auto simp: length_Suc_conv)
    have i': "unat index < length ws" using i v by simp
    have w': "ws' = ws[unat index := v]" using w v write_one[OF i', of v] by simp
    have "heap_ok vm (array # v # R)" "layout_data_type (o_layout c) = Some DtBoxedArray" using ok t True v by simp_all
    from array_set_in_place_boxed[OF this(1) L c _ this(2) ws(1,2) i']
      array_set_copy_boxed[OF this(1) c _ this(2) ws i' fresh no_wrap]
    show ?thesis unfolding v w' by (cases "o_rc c = 1") (auto simp del: One_nat_def simp: One_nat_def[symmetric])
  qed
qed

text \<open>A frame with two references to an array of two words: one is the argument, the other sees the old contents.\<close>

definition shared_heap :: "rat vm" where
  "shared_heap = \<lparr>vm_heap = [8 \<mapsto> \<lparr>o_layout = 512, o_rc = 2, o_table = - 1, o_data = PWords [3, 4]\<rparr>],
     vm_events = [], vm_out = (\<lambda>_. []), vm_structs = [], vm_coeffs = [], vm_cnst_off = 0, vm_wit_off = 0\<rparr>"

lemma array_set_value_witness:
  "\<exists>a' vm'. op_array_set 16 [0, 0] 8 1 [7] 1 shared_heap = Some (a', vm') \<and> heap_ok vm' (a' # [8])
    \<and> get_words a' vm' = Some [3, 7] \<and> keeps a' shared_heap vm' \<and> a' = 16"
proof -
  let ?c = "\<lparr>o_layout = 512, o_rc = 2, o_table = - 1, o_data = PWords [3, 4]\<rparr> :: rat object"
  have l: "layout_data_type 512 = Some DtPrimArray" "array_size 512 = 2"
    by (simp_all add: layout_data_type_def nth_opt_def data_types_def array_size_def)
  have ks: "kids (vm_structs shared_heap) (vm_heap shared_heap) 8 = []"
    by (simp add: kids_def shared_heap_def held_def l)
  have dm: "Map.dom (vm_heap shared_heap) = {8}" by (simp add: shared_heap_def)
  have ok: "heap_ok shared_heap [8, 8]"
  proof (rule heap_okI)
    show "object_ok (vm_structs shared_heap) (out_len shared_heap) (vm_heap shared_heap) (the (vm_heap shared_heap p))"
      if "p \<in> Map.dom (vm_heap shared_heap)" for p
      using that unfolding dm by (simp add: object_ok_def shared_heap_def held_def l ad_node_def underlying_array_size_def)
    show "0 < rc_of (vm_heap shared_heap) p
      \<and> count_list [8, 8] p + inner_refs (vm_structs shared_heap) (vm_heap shared_heap) p = rc_of (vm_heap shared_heap) p"
      if "p \<in> Map.dom (vm_heap shared_heap)" for p
      using that unfolding dm inner_refs_def by (simp add: ks) (simp add: rc_of_def shared_heap_def)
  qed (simp_all add: dm)
  have r: "ranked (\<lambda>_. 0) shared_heap" unfolding ranked_def dm by (simp add: ks)
  have "\<exists>a' vm'. op_array_set 16 [0, 0] 8 1 [7] (length [7 :: u64]) shared_heap = Some (a', vm') \<and> heap_ok vm' (a' # [8])
    \<and> get_words a' vm' = Some [3, 7] \<and> keeps a' shared_heap vm' \<and> a' = (if o_rc ?c = 1 then 8 else 16)"
    by (rule array_set_value[where boxed = False and ws = "[3, 4]" and source = "[7]", OF _ r])
      (use ok in \<open>simp_all add: l shared_heap_def rc_of_def write_words_def\<close>)
  then show ?thesis by simp
qed

text \<open>C18. Writing in place leaves the object's lookup table: the array has new contents and still names the table that an
  earlier lookup filled with the old ones. The constraint generator gives an updated array no table, and the other
  backend unassigns it, so that a later lookup reads the wrong table.\<close>

theorem in_place_write_keeps_table:
  assumes c: "vm_heap vm array = Some c" "o_rc c = 1"
    and t: "layout_data_type (o_layout c) = Some DtPrimArray" and ws: "o_data c = PWords ws" "length ws = array_size (o_layout c)"
    and source: "source \<noteq> []" and w: "write_words (element_offset index (length source)) source ws = Some ws'"
  shows "\<exists>vm' c'. op_array_set p' junk array index source (length source) vm = Some (array, vm')
    \<and> vm_heap vm' array = Some c' \<and> o_table c' = o_table c \<and> o_data c' = PWords ws'"
proof -
  have i: "element_offset index (length source) < length ws"
    using w source by (cases source) (auto simp: write_words_def split: if_splits)
  then show ?thesis
    using set_words_put[of array "element_offset index (length source)" source c vm] put_same[OF c(1)] c t ws w
    by (simp add: op_array_set_def copy_if_reused_def)
qed

lemma in_place_write_keeps_table_witness:
  "\<exists>vm' c'. op_array_set 16 [] 8 1 [7] 1
      (put_object 8 \<lparr>o_layout = 512, o_rc = 1, o_table = 3, o_data = PWords [3, 4]\<rparr> shared_heap) = Some (8, vm')
    \<and> vm_heap vm' 8 = Some c' \<and> o_table c' = 3 \<and> o_data c' = PWords [3, 7]"
proof -
  let ?c = "\<lparr>o_layout = 512, o_rc = 1, o_table = 3, o_data = PWords [3, 4]\<rparr> :: rat object"
  have "\<exists>vm' c'. op_array_set 16 [] 8 1 [7] (length [7 :: u64]) (put_object 8 ?c shared_heap) = Some (8, vm')
    \<and> vm_heap vm' 8 = Some c' \<and> o_table c' = o_table ?c \<and> o_data c' = PWords [3, 7]"
    by (rule in_place_write_keeps_table[where ws = "[3, 4]"])
      (simp_all add: layout_data_type_def nth_opt_def data_types_def array_size_def write_words_def)
  then show ?thesis by simp
qed

end
