(* ===== verification/VM_Bits.thy ===== *)
theory VM_Bits
  imports Bits
begin

unbundle bit_operations_syntax

text \<open>
  The bit spreading of the virtual machine (\<^verbatim>\<open>vm/src/bytecode.rs\<close>), on 32 and 64-bit words; it agrees with that of the
  compiler, so that the tables of the machine are those of the constraint system.
\<close>

definition vm_spread_step :: "nat \<Rightarrow> 64 word \<Rightarrow> 64 word \<Rightarrow> 64 word" where
  "vm_spread_step k m x = (x OR push_bit k x) AND m"

definition vm_compact_step :: "nat \<Rightarrow> 64 word \<Rightarrow> 64 word \<Rightarrow> 64 word" where
  "vm_compact_step k m x = (x OR drop_bit k x) AND m"

definition vm_spread_bits :: "32 word \<Rightarrow> 64 word" where
  "vm_spread_bits v =
     (let x = ucast v;
          x = vm_spread_step 16 0x0000FFFF0000FFFF x;
          x = vm_spread_step 8 0x00FF00FF00FF00FF x;
          x = vm_spread_step 4 0x0F0F0F0F0F0F0F0F x;
          x = vm_spread_step 2 0x3333333333333333 x;
          x = vm_spread_step 1 0x5555555555555555 x
      in x)"

definition vm_compact_bits :: "64 word \<Rightarrow> 32 word" where
  "vm_compact_bits x0 =
     (let x = x0 AND 0x5555555555555555;
          x = vm_compact_step 1 0x3333333333333333 x;
          x = vm_compact_step 2 0x0F0F0F0F0F0F0F0F x;
          x = vm_compact_step 4 0x00FF00FF00FF00FF x;
          x = vm_compact_step 8 0x0000FFFF0000FFFF x;
          x = vm_compact_step 16 0x00000000FFFFFFFF x
      in ucast x)"

definition vm_unspread_bits :: "64 word \<Rightarrow> 32 word \<times> 32 word" where
  "vm_unspread_bits v = (let even = vm_compact_bits v; odd = vm_compact_bits (drop_bit 1 v) in (odd, even))"

definition vm_spread_u32 :: "64 word \<Rightarrow> 64 word" where
  "vm_spread_u32 val = vm_spread_bits (ucast val)"

definition vm_unspread_u64 :: "64 word \<Rightarrow> 64 word \<times> 64 word" where
  "vm_unspread_u64 val = (let (and_val, xor_val) = vm_unspread_bits val in (ucast and_val, ucast xor_val))"

text \<open>Truncation to 64 bits commutes with a step of spreading, extension to 128 bits with one of compacting.\<close>

lemma ucast_spread_step: "(ucast (spread_step k m x) :: 64 word) = vm_spread_step k (ucast m) (ucast x)"
  by (rule bit_word_eqI) (auto simp: spread_step_def vm_spread_step_def bit_simps)

lemma ucast_compact_step: "(ucast (vm_compact_step k (ucast m) x) :: u128) = compact_step k m (ucast x)"
  unfolding compact_step_def vm_compact_step_def
  by (rule bit_word_eqI) (auto simp: bit_simps dest: bit_imp_le_length)

lemma low_half: "vm_spread_step 32 0xFFFFFFFF (ucast (v :: 32 word)) = ucast v"
proof -
  have m: "mask 32 = (0xFFFFFFFF :: 64 word)" by (simp add: mask_eq_exp_minus_1)
  show ?thesis unfolding vm_spread_step_def m[symmetric]
    by (rule bit_word_eqI) (auto simp: bit_simps dest: bit_imp_le_length)
qed

lemma ucast_masks:
  "(ucast (0x00000000FFFFFFFF00000000FFFFFFFF :: u128) :: 64 word) = 0xFFFFFFFF"
  "(ucast (0x0000FFFF0000FFFF0000FFFF0000FFFF :: u128) :: 64 word) = 0x0000FFFF0000FFFF"
  "(ucast (0x00FF00FF00FF00FF00FF00FF00FF00FF :: u128) :: 64 word) = 0x00FF00FF00FF00FF"
  "(ucast (0x0F0F0F0F0F0F0F0F0F0F0F0F0F0F0F0F :: u128) :: 64 word) = 0x0F0F0F0F0F0F0F0F"
  "(ucast (0x33333333333333333333333333333333 :: u128) :: 64 word) = 0x3333333333333333"
  "(ucast (0x55555555555555555555555555555555 :: u128) :: 64 word) = 0x5555555555555555"
  by simp_all

lemma spread_u64_vm: "spread_u64 v = Some (vm_spread_bits v)"
proof -
  have v: "(ucast (ucast v :: u128) :: 64 word) = ucast v" by (rule bit_word_eqI) (auto simp: bit_simps dest: bit_imp_le_length)
  have "(32 :: nat) \<le> 64" by simp
  then show ?thesis
    by (simp only: spread_u64_def spread_bits_def Let_def ensure_bind if_True Option.bind.simps ucast_spread_step ucast_masks v
        low_half vm_spread_bits_def)
qed

lemma compact_last: "(\<And>n. 32 \<le> n \<Longrightarrow> \<not> bit x n) \<Longrightarrow> compact_step 32 0x0000000000000000FFFFFFFFFFFFFFFF x = x" for x :: u128
proof -
  assume x: "\<And>n. 32 \<le> n \<Longrightarrow> \<not> bit x n"
  have m: "mask 64 = (0x0000000000000000FFFFFFFFFFFFFFFF :: u128)" by (simp add: mask_eq_exp_minus_1)
  show ?thesis unfolding compact_step_def m[symmetric]
    by (intro bit_word_eqI) (use x in \<open>force simp: bit_simps not_le[symmetric]\<close>)
qed

lemma unspread_u64_vm: "unspread_u64 v = Some (vm_unspread_bits v)"
proof -
  have c: "compact_bits (ucast w) = ucast (vm_compact_bits w)" for w :: "64 word"
  proof -
    let ?y = "vm_compact_step 16 (ucast (0x00000000FFFFFFFF00000000FFFFFFFF :: u128)) (vm_compact_step 8 (ucast (0x0000FFFF0000FFFF0000FFFF0000FFFF :: u128))
      (vm_compact_step 4 (ucast (0x00FF00FF00FF00FF00FF00FF00FF00FF :: u128)) (vm_compact_step 2 (ucast (0x0F0F0F0F0F0F0F0F0F0F0F0F0F0F0F0F :: u128))
      (vm_compact_step 1 (ucast (0x33333333333333333333333333333333 :: u128)) (w AND ucast (0x55555555555555555555555555555555 :: u128))))))"
    have m: "mask 32 = (0xFFFFFFFF :: 64 word)" by (simp add: mask_eq_exp_minus_1)
    have hi: "\<not> bit ?y n" if "32 \<le> n" for n
      unfolding ucast_masks vm_compact_step_def[of 16] m[symmetric] using that by (simp add: bit_simps)
    then have y: "ucast (ucast ?y :: 32 word) = (ucast ?y :: u128)"
      by (intro bit_word_eqI) (auto simp: bit_simps not_le[symmetric])
    have "\<not> bit (ucast ?y :: u128) n" if "32 \<le> n" for n using hi[OF that] by (auto simp: bit_ucast_iff)
    note last = compact_last[OF this]
    have a: "(ucast (w AND ucast (0x55555555555555555555555555555555 :: u128)) :: u128) = ucast w AND 0x55555555555555555555555555555555"
      by (rule bit_word_eqI) (auto simp: bit_simps dest: bit_imp_le_length)
    have "compact_bits (ucast w) = ucast ?y"
      unfolding compact_bits_def Let_def a[symmetric] ucast_compact_step[symmetric] by (rule last[unfolded ucast_compact_step[symmetric]])
    then show ?thesis unfolding y[symmetric] by (simp only: vm_compact_bits_def Let_def ucast_masks)
  qed
  have d: "drop_bit 1 (ucast v :: u128) = ucast (drop_bit 1 v)" by (rule bit_word_eqI) (auto simp: bit_simps dest: bit_imp_le_length)
  have u: "(ucast (ucast x :: u128) :: 32 word) = x" for x :: "32 word" by (rule bit_word_eqI) (auto simp: bit_simps)
  show ?thesis by (simp add: unspread_u64_def unspread_bits_Some d[simplified] c u vm_unspread_bits_def Let_def)
qed

end
