(* ===== verification/VM_Forward.thy ===== *)
theory VM_Forward
  imports R1CS_Artifacts VM_Bits VM_Heap
begin

text \<open>
  The forward pass of the virtual machine as far as it fills the output vectors (\<^verbatim>\<open>vm/src/bytecode.rs\<close>,
  \<^verbatim>\<open>vm/src/interpreter.rs\<close>): the constraint rows, the witness, the multiplicities and the tape of lookups of phase
  one, and phase two, which turns them into the LogUp rows once the challenges are known. The vectors are lists,
  pointers into them are positions, and a read or write outside a vector is \<open>None\<close>.
\<close>

subsection \<open>Field elements as memory\<close>

text \<open>Phase one keeps words where phase two puts field elements: it writes the first of the four limbs of an element.
  The representation of \<^verbatim>\<open>ark_ff\<close> is a parameter: the first limb of an element, the element with another first limb,
  and the first limb of the canonical integer of an element.\<close>

record 'f felt_repr =
  limb :: "'f \<Rightarrow> u64"
  set_limb :: "'f \<Rightarrow> u64 \<Rightarrow> 'f"
  canonical_limb :: "'f \<Rightarrow> u64"

definition repr_ok :: "'f::field felt_repr \<Rightarrow> bool" where
  "repr_ok F \<longleftrightarrow> (\<forall>x v. limb F (set_limb F x v) = v) \<and> (\<forall>x v w. set_limb F (set_limb F x v) w = set_limb F x w)
     \<and> set_limb F 0 0 = 0 \<and> (\<forall>n < 2 ^ 64. canonical_limb F (of_nat n) = of_nat n)"

definition poke :: "'f felt_repr \<Rightarrow> nat \<Rightarrow> u64 \<Rightarrow> 'f list \<Rightarrow> 'f list option" where
  "poke F i v xs = do { x \<leftarrow> nth_opt xs i; upd_opt xs i (set_limb F x v) }"

definition peek :: "'f felt_repr \<Rightarrow> nat \<Rightarrow> 'f list \<Rightarrow> u64 option" where
  "peek F i xs = map_option (limb F) (nth_opt xs i)"

subsection \<open>Phase one\<close>

record vm_table =
  t_mult :: nat
  t_num_indices :: nat
  t_num_values :: nat
  t_length :: nat
  t_wit :: nat
  t_cnst :: nat

record 'f fwd =
  f_a :: "'f list"
  f_b :: "'f list"
  f_c :: "'f list"
  f_wit :: "'f list"
  f_row :: nat
  f_alg :: nat
  f_mult :: nat
  f_look :: nat
  f_cnst_tables :: nat
  f_wit_tables :: nat
  f_tables :: "vm_table list"
  f_rgchk :: "nat option"
  f_spread :: "nat option list"
  f_table_ids :: "u64 \<Rightarrow> u64"

text \<open>The three pointers into the rows move together, and so do the three pointers into the tape.\<close>

definition op_r1c :: "'f \<Rightarrow> 'f \<Rightarrow> 'f \<Rightarrow> 'f fwd \<Rightarrow> 'f fwd option" where
  "op_r1c a b c s = do {
     as \<leftarrow> upd_opt (f_a s) (f_row s) a;
     bs \<leftarrow> upd_opt (f_b s) (f_row s) b;
     cs \<leftarrow> upd_opt (f_c s) (f_row s) c;
     Some (s\<lparr>f_a := as, f_b := bs, f_c := cs, f_row := f_row s + 1\<rparr>) }"

definition op_write_witness :: "'f \<Rightarrow> 'f fwd \<Rightarrow> 'f fwd option" where
  "op_write_witness v s = do {
     wit \<leftarrow> upd_opt (f_wit s) (f_alg s) v;
     Some (s\<lparr>f_wit := wit, f_alg := f_alg s + 1\<rparr>) }"

definition bump_multiplicity :: "'f felt_repr \<Rightarrow> vm_table \<Rightarrow> u64 \<Rightarrow> u64 \<Rightarrow> 'f fwd \<Rightarrow> 'f fwd option" where
  "bump_multiplicity F t key flag s = do {
     m \<leftarrow> peek F (t_mult t + unat key) (f_wit s);
     wit \<leftarrow> poke F (t_mult t + unat key) (m + flag) (f_wit s);
     Some (s\<lparr>f_wit := wit\<rparr>) }"

definition forward_kv_lookup_emit :: "'f felt_repr \<Rightarrow> nat \<Rightarrow> 'f \<Rightarrow> 'f \<Rightarrow> u64 \<Rightarrow> 'f fwd \<Rightarrow> 'f fwd option" where
  "forward_kv_lookup_emit F table_idx key result flag s = do {
     table \<leftarrow> nth_opt (f_tables s) table_idx;
     as \<leftarrow> poke F (f_look s) (of_nat table_idx) (f_a s);
     bs \<leftarrow> upd_opt (f_b s) (f_look s) result;
     cs \<leftarrow> poke F (f_look s) 0 (f_c s);
     let s = s\<lparr>f_a := as, f_b := bs, f_c := cs, f_look := f_look s + 1\<rparr>;
     as \<leftarrow> poke F (f_look s) (of_nat table_idx) (f_a s);
     let s = s\<lparr>f_a := as\<rparr>;
     s \<leftarrow> (if flag \<noteq> 0 then do {
         s \<leftarrow> bump_multiplicity F table (canonical_limb F key) flag s;
         bs \<leftarrow> poke F (f_look s) (canonical_limb F key) (f_b s);
         Some (s\<lparr>f_b := bs\<rparr>) }
       else do {
         bs \<leftarrow> upd_opt (f_b s) (f_look s) key;
         Some (s\<lparr>f_b := bs\<rparr>) });
     cs \<leftarrow> poke F (f_look s) flag (f_c s);
     Some (s\<lparr>f_c := cs, f_look := f_look s + 1\<rparr>) }"

text \<open>Opening a table at the current ends of the sections.\<close>

definition here :: "nat \<Rightarrow> nat \<Rightarrow> 'f fwd \<Rightarrow> vm_table" where
  "here num_values len s = \<lparr>t_mult = f_mult s, t_num_indices = 1, t_num_values = num_values, t_length = len,
     t_wit = f_wit_tables s, t_cnst = f_cnst_tables s\<rparr>"

definition fill_values :: "nat \<Rightarrow> 'f list \<Rightarrow> 'f fwd \<Rightarrow> 'f fwd option" where
  "fill_values off vs s = do {
     as \<leftarrow> opt_fold (\<lambda>(i, v) as. upd_opt as (off + 2 * i) v) (enumerate 0 vs) (f_a s);
     Some (s\<lparr>f_a := as\<rparr>) }"

definition open_range_table :: "'f fwd \<Rightarrow> 'f fwd" where
  "open_range_table s = s\<lparr>f_rgchk := Some (length (f_tables s)), f_tables := f_tables s @ [here 0 256 s],
     f_mult := f_mult s + 256, f_cnst_tables := f_cnst_tables s + 257, f_wit_tables := f_wit_tables s + 256\<rparr>"

definition op_rngchk_8 :: "'f felt_repr \<Rightarrow> 'f \<Rightarrow> 'f \<Rightarrow> 'f fwd \<Rightarrow> 'f fwd option" where
  "op_rngchk_8 F val flag_val s = do {
     let s = (if f_rgchk s = None then open_range_table s else s);
     let flag = canonical_limb F flag_val;
     table_idx \<leftarrow> f_rgchk s;
     table \<leftarrow> nth_opt (f_tables s) table_idx;
     s \<leftarrow> (if flag \<noteq> 0 then do {
         s \<leftarrow> bump_multiplicity F table (canonical_limb F val) flag s;
         as \<leftarrow> poke F (f_look s) (of_nat table_idx) (f_a s);
         bs \<leftarrow> poke F (f_look s) (canonical_limb F val) (f_b s);
         Some (s\<lparr>f_a := as, f_b := bs\<rparr>) }
       else do {
         as \<leftarrow> poke F (f_look s) (of_nat table_idx) (f_a s);
         bs \<leftarrow> upd_opt (f_b s) (f_look s) val;
         Some (s\<lparr>f_a := as, f_b := bs\<rparr>) });
     cs \<leftarrow> poke F (f_look s) flag (f_c s);
     Some (s\<lparr>f_c := cs, f_look := f_look s + 1\<rparr>) }"

definition open_spread_table :: "nat \<Rightarrow> 'f::field fwd \<Rightarrow> 'f fwd option" where
  "open_spread_table bits s = do {
     let len = 2 ^ bits;
     let off = f_cnst_tables s;
     let s = s\<lparr>f_spread := (f_spread s)[bits := Some (length (f_tables s))], f_tables := f_tables s @ [here 1 len s]\<rparr>;
     s \<leftarrow> fill_values off (map (\<lambda>i. of_nat (unat (vm_spread_bits (of_nat i)))) [0..<len]) s;
     Some (s\<lparr>f_mult := f_mult s + len, f_cnst_tables := f_cnst_tables s + (2 * len + 1),
       f_wit_tables := f_wit_tables s + 2 * len\<rparr>) }"

definition op_spread_lookup :: "'f::field felt_repr \<Rightarrow> 'f \<Rightarrow> 'f \<Rightarrow> 'f \<Rightarrow> nat \<Rightarrow> 'f fwd \<Rightarrow> 'f fwd option" where
  "op_spread_lookup F val result flag bits s = do {
     entry \<leftarrow> nth_opt (f_spread s) bits;
     s \<leftarrow> (if entry = None then open_spread_table bits s else Some s);
     table_idx \<leftarrow> f_spread s ! bits;
     forward_kv_lookup_emit F table_idx val result (canonical_limb F flag) s }"

text \<open>The array is given by a name of its object, which \<open>f_table_ids\<close> maps to the table word of the object, and by the
  values of its leaves, which \<^verbatim>\<open>for_each_array_leaf\<close> reads. An address that is used again after its object was freed
  is another name.\<close>

definition open_array_table :: "u64 \<Rightarrow> 'f list \<Rightarrow> 'f fwd \<Rightarrow> 'f fwd option" where
  "open_array_table array leaves s = do {
     let len = length leaves;
     let t = here 1 len s;
     s \<leftarrow> fill_values (f_cnst_tables s) leaves s;
     Some (s\<lparr>f_tables := f_tables s @ [t], f_mult := f_mult s + len, f_cnst_tables := f_cnst_tables s + (2 * len + 1),
       f_wit_tables := f_wit_tables s + 2 * len, f_table_ids := (f_table_ids s)(array := of_nat (length (f_tables s)))\<rparr>) }"

definition op_array_lookup :: "'f felt_repr \<Rightarrow> u64 \<Rightarrow> 'f list \<Rightarrow> 'f \<Rightarrow> 'f \<Rightarrow> 'f \<Rightarrow> 'f fwd \<Rightarrow> 'f fwd option" where
  "op_array_lookup F array leaves index result flag s = do {
     s \<leftarrow> (if f_table_ids s array = - 1 then open_array_table array leaves s else Some s);
     forward_kv_lookup_emit F (unat (f_table_ids s array)) index result (canonical_limb F flag) s }"

text \<open>The opcodes of a run that touch the vectors, in order.\<close>

datatype 'f fwd_op =
    FR1C 'f 'f 'f
  | FWriteWitness 'f
  | FRngchk8 'f 'f
  | FSpread 'f 'f 'f nat
  | FArray u64 "'f list" 'f 'f 'f

fun fwd_exec :: "'f::field felt_repr \<Rightarrow> 'f fwd_op \<Rightarrow> 'f fwd \<Rightarrow> 'f fwd option" where
  "fwd_exec F (FR1C a b c) s = op_r1c a b c s"
| "fwd_exec F (FWriteWitness v) s = op_write_witness v s"
| "fwd_exec F (FRngchk8 val flag) s = op_rngchk_8 F val flag s"
| "fwd_exec F (FSpread val result flag bits) s = op_spread_lookup F val result flag bits s"
| "fwd_exec F (FArray array leaves index result flag) s = op_array_lookup F array leaves index result flag s"

definition fwd_init :: "witness_layout \<Rightarrow> constraints_layout \<Rightarrow> 'f::zero fwd" where
  "fwd_init wl cl = \<lparr>f_a = replicate (constraints_size cl) 0, f_b = replicate (constraints_size cl) 0,
     f_c = replicate (constraints_size cl) 0, f_wit = replicate (pre_commitment_size wl) 0, f_row = 0, f_alg = 0,
     f_mult = multiplicities_start wl, f_look = cl_lookups_data_start cl, f_cnst_tables = cl_tables_data_start cl,
     f_wit_tables = tables_data_start wl - challenges_start wl, f_tables = [], f_rgchk = None,
     f_spread = replicate 17 None, f_table_ids = (\<lambda>_. - 1)\<rparr>"

definition fix_multiplicities_section :: "'f::field felt_repr \<Rightarrow> witness_layout \<Rightarrow> 'f list \<Rightarrow> 'f list option" where
  "fix_multiplicities_section F wl wit = opt_fold (\<lambda>i wit. do {
     m \<leftarrow> peek F i wit;
     upd_opt wit i (of_nat (unat m)) }) [multiplicities_start wl..<multiplicities_end wl] wit"

record 'f phase1 =
  p_pre :: "'f list"
  p_post :: "'f list"
  p_a :: "'f list"
  p_b :: "'f list"
  p_c :: "'f list"
  p_tables :: "vm_table list"

definition run_phase1 ::
  "'f::field felt_repr \<Rightarrow> 'f fwd_op list \<Rightarrow> witness_layout \<Rightarrow> constraints_layout \<Rightarrow> 'f phase1 option" where
  "run_phase1 F ops wl cl = do {
     s \<leftarrow> opt_fold (fwd_exec F) ops (fwd_init wl cl);
     pre \<leftarrow> fix_multiplicities_section F wl (f_wit s);
     Some \<lparr>p_pre = pre, p_post = replicate (post_commitment_size wl) 0, p_a = f_a s, p_b = f_b s, p_c = f_c s,
       p_tables = f_tables s\<rparr> }"

subsection \<open>Phase two\<close>

text \<open>The first loop puts denominators and multiplicities into the rows of the tables, and in place of each inverse the
  product of the denominators so far.\<close>

record 'f rows =
  r_a :: "'f list"
  r_b :: "'f list"
  r_c :: "'f list"

definition put_row :: "nat \<Rightarrow> 'f \<Rightarrow> 'f \<Rightarrow> 'f \<Rightarrow> 'f rows \<Rightarrow> 'f rows option" where
  "put_row i a b c r = do {
     as \<leftarrow> upd_opt (r_a r) i a;
     bs \<leftarrow> upd_opt (r_b r) i b;
     cs \<leftarrow> upd_opt (r_c r) i c;
     Some \<lparr>r_a = as, r_b = bs, r_c = cs\<rparr> }"

definition denominator_step :: "nat \<Rightarrow> 'f::field \<Rightarrow> 'f \<Rightarrow> 'f rows \<times> 'f \<Rightarrow> ('f rows \<times> 'f) option" where
  "denominator_step i denom multiplicity = (\<lambda>(r, running_prod). do {
     bs \<leftarrow> upd_opt (r_b r) i denom;
     cs \<leftarrow> upd_opt (r_c r) i multiplicity;
     let r = r\<lparr>r_b := bs, r_c := cs\<rparr>;
     if multiplicity \<noteq> 0 then do {
       as \<leftarrow> upd_opt (r_a r) i running_prod;
       Some (r\<lparr>r_a := as\<rparr>, running_prod * denom) }
     else Some (r, running_prod) })"

definition narrow_entry :: "'f list \<Rightarrow> 'f::field \<Rightarrow> vm_table \<Rightarrow> nat \<Rightarrow> 'f rows \<times> 'f \<Rightarrow> ('f rows \<times> 'f) option" where
  "narrow_entry pre alpha tbl i st = do {
     multiplicity \<leftarrow> nth_opt pre (t_mult tbl + i);
     denominator_step (t_cnst tbl + i) (alpha - of_nat i) multiplicity st }"

definition wide_entry ::
  "'f list \<Rightarrow> 'f::field \<Rightarrow> 'f \<Rightarrow> vm_table \<Rightarrow> nat \<Rightarrow> 'f rows \<times> 'f \<Rightarrow> ('f rows \<times> 'f) option" where
  "wide_entry pre alpha beta tbl i = (\<lambda>(r, running_prod). do {
     multiplicity \<leftarrow> nth_opt pre (t_mult tbl + i);
     v \<leftarrow> nth_opt (r_a r) (t_cnst tbl + 2 * i);
     let x = - beta * v;
     r \<leftarrow> put_row (t_cnst tbl + 2 * i) beta v (- x) r;
     denominator_step (t_cnst tbl + 2 * i + 1) (alpha - of_nat i - x) multiplicity (r, running_prod) })"

definition fill_table :: "'f list \<Rightarrow> 'f list \<Rightarrow> vm_table \<Rightarrow> 'f::field rows \<times> 'f \<Rightarrow> ('f rows \<times> 'f) option" where
  "fill_table pre post tbl st = do {
     alpha \<leftarrow> nth_opt post 0;
     if t_num_values tbl = 0 then opt_fold (narrow_entry pre alpha tbl) [0..<t_length tbl] st
     else do {
       ensure (t_num_values tbl = 1);
       beta \<leftarrow> nth_opt post 1;
       opt_fold (wide_entry pre alpha beta tbl) [0..<t_length tbl] st } }"

text \<open>The second loop goes back over the rows and replaces the products by the inverses.\<close>

definition invert_row :: "nat \<Rightarrow> 'f::field rows \<times> 'f \<Rightarrow> ('f rows \<times> 'f) option" where
  "invert_row i = (\<lambda>(r, running_inv). do {
     multiplicity \<leftarrow> nth_opt (r_c r) i;
     denom \<leftarrow> nth_opt (r_b r) i;
     running_prod \<leftarrow> nth_opt (r_a r) i;
     if multiplicity \<noteq> 0 then do {
       as \<leftarrow> upd_opt (r_a r) i (running_prod * running_inv);
       Some (r\<lparr>r_a := as\<rparr>, running_inv * denom) }
     else Some (r, running_inv) })"

definition invert_table :: "vm_table \<Rightarrow> 'f::field rows \<times> 'f \<Rightarrow> ('f rows \<times> 'f) option" where
  "invert_table tbl st =
     (if t_num_values tbl = 0 then opt_fold (\<lambda>i. invert_row (t_cnst tbl + i)) (rev [0..<t_length tbl]) st
      else do {
        ensure (t_num_values tbl = 1);
        opt_fold (\<lambda>i. invert_row (t_cnst tbl + 2 * i + 1)) (rev [0..<t_length tbl]) st })"

text \<open>The third loop turns the tape of lookups into rows and witnesses, and counts them into the sums.\<close>

definition absent_lookup :: "nat \<Rightarrow> nat \<Rightarrow> 'f::field \<Rightarrow> 'f rows \<times> 'f list \<Rightarrow> ('f rows \<times> 'f list) option" where
  "absent_lookup cnst wit denom = (\<lambda>(r, post). do {
     r \<leftarrow> put_row cnst 0 denom 0 r;
     post \<leftarrow> upd_opt post wit 0;
     Some (r, post) })"

definition present_lookup ::
  "nat \<Rightarrow> nat \<Rightarrow> nat \<Rightarrow> nat \<Rightarrow> 'f::field \<Rightarrow> 'f rows \<times> 'f list \<Rightarrow> ('f rows \<times> 'f list) option" where
  "present_lookup cnst wit entry sum_row flag = (\<lambda>(r, post). do {
     y \<leftarrow> nth_opt (r_a r) entry;
     denom \<leftarrow> nth_opt (r_b r) entry;
     r \<leftarrow> put_row cnst y denom flag r;
     post \<leftarrow> upd_opt post wit y;
     s \<leftarrow> nth_opt (r_c r) sum_row;
     cs \<leftarrow> upd_opt (r_c r) sum_row (s + y);
     Some (r\<lparr>r_c := cs\<rparr>, post) })"

definition narrow_lookup ::
  "'f felt_repr \<Rightarrow> vm_table \<Rightarrow> nat \<Rightarrow> nat \<Rightarrow> 'f::field rows \<times> 'f list \<Rightarrow> ('f rows \<times> 'f list) option" where
  "narrow_lookup F table cnst wit = (\<lambda>(r, post). do {
     alpha \<leftarrow> nth_opt post 0;
     flag \<leftarrow> peek F cnst (r_c r);
     if flag = 0 then do {
       key \<leftarrow> nth_opt (r_b r) cnst;
       absent_lookup cnst wit (alpha - key) (r, post) }
     else do {
       ix \<leftarrow> peek F cnst (r_b r);
       present_lookup cnst wit (t_cnst table + unat ix) (t_cnst table + t_length table) (of_nat (unat flag)) (r, post) } })"

definition wide_lookup ::
  "'f felt_repr \<Rightarrow> vm_table \<Rightarrow> nat \<Rightarrow> nat \<Rightarrow> 'f::field rows \<times> 'f list \<Rightarrow> ('f rows \<times> 'f list) option" where
  "wide_lookup F table cnst wit = (\<lambda>(r, post). do {
     alpha \<leftarrow> nth_opt post 0;
     ensure (t_num_values table = 1);
     beta \<leftarrow> nth_opt post 1;
     result_value \<leftarrow> nth_opt (r_b r) cnst;
     flag \<leftarrow> peek F (cnst + 1) (r_c r);
     let x = - beta * result_value;
     r \<leftarrow> put_row cnst beta result_value (- x) r;
     post \<leftarrow> upd_opt post wit x;
     if flag = 0 then do {
       key \<leftarrow> nth_opt (r_b r) (cnst + 1);
       absent_lookup (cnst + 1) (wit + 1) (alpha - key - x) (r, post) }
     else do {
       ix \<leftarrow> peek F (cnst + 1) (r_b r);
       present_lookup (cnst + 1) (wit + 1) (t_cnst table + 2 * unat ix + 1) (t_cnst table + 2 * t_length table)
         (of_nat (unat flag)) (r, post) } })"

function lookup_loop ::
  "'f felt_repr \<Rightarrow> vm_table list \<Rightarrow> witness_layout \<Rightarrow> constraints_layout \<Rightarrow> nat
     \<Rightarrow> 'f::field rows \<times> 'f list \<Rightarrow> ('f rows \<times> 'f list) option" where
  "lookup_loop F tables wl cl off st = (if off < cl_lookups_data_size cl then do {
       let cnst = cl_lookups_data_start cl + off;
       let wit = lookups_data_start wl - challenges_start wl + off;
       table_ix \<leftarrow> peek F cnst (r_a (fst st));
       table \<leftarrow> nth_opt tables (unat table_ix);
       if t_num_values table = 0 then do {
         st \<leftarrow> narrow_lookup F table cnst wit st;
         lookup_loop F tables wl cl (off + 1) st }
       else do {
         st \<leftarrow> wide_lookup F table cnst wit st;
         lookup_loop F tables wl cl (off + 2) st } }
     else Some st)"
  by pat_completeness auto
termination by (relation "measure (\<lambda>(F, tables, wl, cl, off, st). cl_lookups_data_size cl - off)") auto

declare lookup_loop.simps [simp del]

text \<open>The last loop scales the inverses by the multiplicities, writes them to the witness and sums them up.\<close>

definition scale_row :: "nat \<Rightarrow> nat \<Rightarrow> nat \<Rightarrow> 'f::field rows \<times> 'f list \<Rightarrow> ('f rows \<times> 'f list) option" where
  "scale_row row wit sum_row = (\<lambda>(r, post). do {
     multiplicity \<leftarrow> nth_opt (r_c r) row;
     if multiplicity \<noteq> 0 then do {
       y \<leftarrow> nth_opt (r_a r) row;
       let elem = y * multiplicity;
       as \<leftarrow> upd_opt (r_a r) row elem;
       post \<leftarrow> upd_opt post wit elem;
       s \<leftarrow> nth_opt as sum_row;
       as \<leftarrow> upd_opt as sum_row (s + elem);
       Some (r\<lparr>r_a := as\<rparr>, post) }
     else Some (r, post) })"

definition wide_scale :: "vm_table \<Rightarrow> nat \<Rightarrow> 'f::field rows \<times> 'f list \<Rightarrow> ('f rows \<times> 'f list) option" where
  "wide_scale tbl i st = do {
     (r, post) \<leftarrow> scale_row (t_cnst tbl + 2 * i + 1) (t_wit tbl + 2 * i + 1) (t_cnst tbl + 2 * t_length tbl) st;
     c \<leftarrow> nth_opt (r_c r) (t_cnst tbl + 2 * i);
     post \<leftarrow> upd_opt post (t_wit tbl + 2 * i) (- c);
     Some (r, post) }"

definition finish_table :: "vm_table \<Rightarrow> 'f::field rows \<times> 'f list \<Rightarrow> ('f rows \<times> 'f list) option" where
  "finish_table tbl st =
     (if t_num_values tbl = 0 then do {
        (r, post) \<leftarrow> opt_fold (\<lambda>i. scale_row (t_cnst tbl + i) (t_wit tbl + i) (t_cnst tbl + t_length tbl)) [0..<t_length tbl] st;
        bs \<leftarrow> upd_opt (r_b r) (t_cnst tbl + t_length tbl) 1;
        Some (r\<lparr>r_b := bs\<rparr>, post) }
      else do {
        ensure (t_num_values tbl = 1);
        (r, post) \<leftarrow> opt_fold (wide_scale tbl) [0..<t_length tbl] st;
        bs \<leftarrow> upd_opt (r_b r) (t_cnst tbl + 2 * t_length tbl) 1;
        Some (r\<lparr>r_b := bs\<rparr>, post) })"

record 'f witgen =
  w_pre :: "'f list"
  w_post :: "'f list"
  w_rows :: "'f rows"

definition run_phase2 ::
  "'f::field felt_repr \<Rightarrow> 'f phase1 \<Rightarrow> 'f list \<Rightarrow> witness_layout \<Rightarrow> constraints_layout \<Rightarrow> 'f witgen option" where
  "run_phase2 F p challenges wl cl = do {
     post \<leftarrow> opt_fold (\<lambda>(i, c) post. upd_opt post i c) (enumerate 0 challenges) (p_post p);
     (r, running_prod) \<leftarrow> opt_fold (fill_table (p_pre p) post) (p_tables p)
       (\<lparr>r_a = p_a p, r_b = p_b p, r_c = p_c p\<rparr>, 1);
     ensure (running_prod \<noteq> 0);
     (r, _) \<leftarrow> opt_fold invert_table (rev (p_tables p)) (r, inverse running_prod);
     st \<leftarrow> lookup_loop F (p_tables p) wl cl 0 (r, post);
     (r, post) \<leftarrow> opt_fold finish_table (p_tables p) st;
     Some \<lparr>w_pre = p_pre p, w_post = post, w_rows = r\<rparr> }"

text \<open>Challenges that are made up, for runs without a transcript.\<close>

fun fake_challenges_from :: "nat \<Rightarrow> 'f::field \<Rightarrow> 'f list" where
  "fake_challenges_from 0 random = []"
| "fake_challenges_from (Suc n) random = random # fake_challenges_from n ((random + 17) * random)"

definition fake_challenges :: "nat \<Rightarrow> 'f::field list" where
  "fake_challenges count = fake_challenges_from count 18765435241434657586764563434227903"

definition run_phase2_with_fake_challenges ::
  "'f::field felt_repr \<Rightarrow> 'f phase1 \<Rightarrow> witness_layout \<Rightarrow> constraints_layout \<Rightarrow> 'f witgen option" where
  "run_phase2_with_fake_challenges F p wl cl = run_phase2 F p (fake_challenges (wl_challenges_size wl)) wl cl"

definition vm_run :: "'f::field felt_repr \<Rightarrow> 'f fwd_op list \<Rightarrow> witness_layout \<Rightarrow> constraints_layout \<Rightarrow> 'f witgen option" where
  "vm_run F ops wl cl = do { p \<leftarrow> run_phase1 F ops wl cl; run_phase2_with_fake_challenges F p wl cl }"

end
