(* ===== verification/VM_Inverses.thy ===== *)
theory VM_Inverses
  imports VM_Forward
begin

text \<open>
  The first half of phase two of witness generation (\<^verbatim>\<open>run_phase2\<close> of \<^verbatim>\<open>vm/src/interpreter.rs\<close>): where
  the rows of the tables lie, and that the two loops over them put the inverse of every denominator that is used into
  its row, with one inversion in all.
\<close>

subsection \<open>The cells of a table\<close>

definition narrow :: "vm_table \<Rightarrow> bool" where
  "narrow t \<longleftrightarrow> t_num_values t = 0"

definition xpos :: "vm_table \<Rightarrow> nat \<Rightarrow> nat" where
  "xpos t i = t_cnst t + 2 * i"

definition ypos :: "vm_table \<Rightarrow> nat \<Rightarrow> nat" where
  "ypos t i = (if narrow t then t_cnst t + i else t_cnst t + 2 * i + 1)"

definition sumpos :: "vm_table \<Rightarrow> nat" where
  "sumpos t = (if narrow t then t_cnst t + t_length t else t_cnst t + 2 * t_length t)"

definition width :: "vm_table \<Rightarrow> nat" where
  "width t = (if narrow t then t_length t + 1 else 2 * t_length t + 1)"

definition wwidth :: "vm_table \<Rightarrow> nat" where
  "wwidth t = (if narrow t then t_length t else 2 * t_length t)"

fun cells :: "vm_table \<times> nat \<Rightarrow> nat set" where
  "cells (t, i) = (if narrow t then {ypos t i} else {xpos t i, ypos t i})"

lemmas pos_defs = xpos_def ypos_def sumpos_def width_def wwidth_def

text \<open>Tables lie one after the other in the constraints, in the witness and among the multiplicities.\<close>

fun placed :: "nat \<Rightarrow> nat \<Rightarrow> nat \<Rightarrow> vm_table list \<Rightarrow> bool" where
  "placed c w m [] \<longleftrightarrow> True"
| "placed c w m (t # ts) \<longleftrightarrow> t_cnst t = c \<and> t_wit t = w \<and> t_mult t = m \<and> t_num_values t \<le> 1
     \<and> placed (c + width t) (w + wwidth t) (m + t_length t) ts"

definition widths :: "vm_table list \<Rightarrow> nat" where
  "widths ts = (\<Sum>t\<leftarrow>ts. width t)"

definition wwidths :: "vm_table list \<Rightarrow> nat" where
  "wwidths ts = (\<Sum>t\<leftarrow>ts. wwidth t)"

definition lengths :: "vm_table list \<Rightarrow> nat" where
  "lengths ts = (\<Sum>t\<leftarrow>ts. t_length t)"

lemma sums_simps [simp]:
  "widths [] = 0" "widths (t # ts) = width t + widths ts"
  "wwidths [] = 0" "wwidths (t # ts) = wwidth t + wwidths ts"
  "lengths [] = 0" "lengths (t # ts) = t_length t + lengths ts"
  by (simp_all add: widths_def wwidths_def lengths_def)

definition entries_of :: "vm_table list \<Rightarrow> (vm_table \<times> nat) list" where
  "entries_of ts = concat (map (\<lambda>t. map (Pair t) [0..<t_length t]) ts)"

lemma entries_of_simps [simp]:
  "entries_of [] = []" "entries_of (t # ts) = map (Pair t) [0..<t_length t] @ entries_of ts"
  by (simp_all add: entries_of_def)

lemma set_entries_of: "(t, i) \<in> set (entries_of ts) \<longleftrightarrow> t \<in> set ts \<and> i < t_length t"
  by (induction ts) auto

lemma cells_region: "i < t_length t \<Longrightarrow> j \<in> cells (t, i) \<Longrightarrow> t_cnst t \<le> j \<and> j < sumpos t"
  by (auto simp: pos_defs split: if_splits)

lemma sumpos_region: "t_cnst t + width t = Suc (sumpos t)"
  by (simp add: pos_defs)

lemma placed_region: "placed c w m ts \<Longrightarrow> t \<in> set ts \<Longrightarrow> c \<le> t_cnst t \<and> sumpos t < c + widths ts"
proof (induction ts arbitrary: c w m)
  case (Cons u ts)
  then show ?case using sumpos_region[of u] by fastforce
qed simp

lemma placed_wit: "placed c w m ts \<Longrightarrow> t \<in> set ts \<Longrightarrow> w \<le> t_wit t \<and> t_wit t + wwidth t \<le> w + wwidths ts"
  by (induction ts arbitrary: c w m) fastforce+

lemma placed_mult: "placed c w m ts \<Longrightarrow> t \<in> set ts \<Longrightarrow> m \<le> t_mult t \<and> t_mult t + t_length t \<le> m + lengths ts"
  by (induction ts arbitrary: c w m) fastforce+

lemma placed_num: "placed c w m ts \<Longrightarrow> t \<in> set ts \<Longrightarrow> t_num_values t \<le> 1"
  by (induction ts arbitrary: c w m) auto

fun dcells :: "(vm_table \<times> nat) list \<Rightarrow> bool" where
  "dcells [] \<longleftrightarrow> True"
| "dcells (p # ps) \<longleftrightarrow> cells p \<inter> (\<Union>q\<in>set ps. cells q) = {} \<and> dcells ps"

lemma dcells_append: "dcells (ps @ qs) \<longleftrightarrow> dcells ps \<and> dcells qs \<and> (\<Union>p\<in>set ps. cells p) \<inter> (\<Union>q\<in>set qs. cells q) = {}"
  by (induction ps) auto

lemma dcells_table: "dcells (map (Pair t) [i..<n])"
proof (induction "n - i" arbitrary: i)
  case (Suc k)
  then have "[i..<n] = i # [Suc i..<n]" by (simp add: upt_conv_Cons)
  moreover have "dcells (map (Pair t) [Suc i..<n])" using Suc by simp
  moreover have "cells (t, i) \<inter> cells (t, j) = {}" if "j \<noteq> i" for j using that by (auto simp: pos_defs; presburger)
  then have "cells (t, i) \<inter> (\<Union>q\<in>set (map (Pair t) [Suc i..<n]). cells q) = {}"
    by (auto simp del: cells.simps simp: disjoint_iff)
  ultimately show ?case by (simp del: cells.simps)
qed simp

lemma placed_dcells: "placed c w m ts \<Longrightarrow> dcells (entries_of ts)"
proof (induction ts arbitrary: c w m)
  case (Cons t ts)
  have "cells (t, i) \<inter> cells (u, j) = {}" if i: "i < t_length t" and u: "u \<in> set ts" and j: "j < t_length u" for i u j
  proof -
    have "c + width t \<le> t_cnst u" using placed_region[OF _ u] Cons.prems by auto
    then show ?thesis using cells_region[OF i] cells_region[OF j] sumpos_region[of t] Cons.prems by fastforce
  qed
  then show ?case using Cons dcells_table[of t 0] by (fastforce simp: dcells_append set_entries_of)
qed simp

subsection \<open>Batch inversion\<close>

definition rows_size :: "nat \<Rightarrow> 'f rows \<Rightarrow> bool" where
  "rows_size n r \<longleftrightarrow> length (r_a r) = n \<and> length (r_b r) = n \<and> length (r_c r) = n"

definition agree :: "nat set \<Rightarrow> 'f rows \<Rightarrow> 'f rows \<Rightarrow> bool" where
  "agree J r r' \<longleftrightarrow> (\<forall>j\<in>J. r_a r' ! j = r_a r ! j \<and> r_b r' ! j = r_b r ! j \<and> r_c r' ! j = r_c r ! j)"

definition mul_of :: "'f list \<Rightarrow> vm_table \<Rightarrow> nat \<Rightarrow> 'f" where
  "mul_of pre t i = pre ! (t_mult t + i)"

text \<open>The denominator of an entry whose value is \<open>v\<close>.\<close>

definition den_of :: "'f::field \<Rightarrow> 'f \<Rightarrow> vm_table \<Rightarrow> nat \<Rightarrow> 'f \<Rightarrow> 'f" where
  "den_of alpha beta t i v = (if narrow t then alpha - of_nat i else alpha - of_nat i + beta * v)"

definition entry_step :: "'f list \<Rightarrow> 'f::field \<Rightarrow> 'f \<Rightarrow> vm_table \<times> nat \<Rightarrow> 'f rows \<times> 'f \<Rightarrow> ('f rows \<times> 'f) option" where
  "entry_step pre alpha beta = (\<lambda>(t, i). if narrow t then narrow_entry pre alpha t i else wide_entry pre alpha beta t i)"

definition entry_invert :: "vm_table \<times> nat \<Rightarrow> 'f::field rows \<times> 'f \<Rightarrow> ('f rows \<times> 'f) option" where
  "entry_invert = (\<lambda>(t, i). invert_row (ypos t i))"

definition entry_done :: "'f list \<Rightarrow> 'f::field \<Rightarrow> 'f \<Rightarrow> 'f rows \<Rightarrow> 'f rows \<Rightarrow> vm_table \<Rightarrow> nat \<Rightarrow> bool" where
  "entry_done pre alpha beta r r' t i \<longleftrightarrow> (let v = r_a r ! xpos t i; d = den_of alpha beta t i v in
     r_a r' ! ypos t i = (if mul_of pre t i \<noteq> 0 then inverse d else r_a r ! ypos t i)
     \<and> r_b r' ! ypos t i = d \<and> r_c r' ! ypos t i = mul_of pre t i
     \<and> (\<not> narrow t \<longrightarrow> r_a r' ! xpos t i = beta \<and> r_b r' ! xpos t i = v \<and> r_c r' ! xpos t i = beta * v))"

definition entry_fits :: "nat \<Rightarrow> 'f list \<Rightarrow> vm_table \<times> nat \<Rightarrow> bool" where
  "entry_fits n pre p \<longleftrightarrow> cells p \<subseteq> {..<n} \<and> t_mult (fst p) + snd p < length pre"

lemma x_not_y: "\<not> narrow t \<Longrightarrow> xpos t i \<noteq> ypos t i"
  by (simp add: pos_defs)

lemma entry_step_ok:
  assumes "rows_size n r" "entry_fits n pre (t, i)"
  shows "\<exists>r'. entry_step pre alpha beta (t, i) (r, P)
      = Some (r', if mul_of pre t i \<noteq> 0 then P * den_of alpha beta t i (r_a r ! xpos t i) else P)
    \<and> rows_size n r' \<and> agree (- cells (t, i)) r r'
    \<and> r_a r' ! ypos t i = (if mul_of pre t i \<noteq> 0 then P else r_a r ! ypos t i)
    \<and> r_b r' ! ypos t i = den_of alpha beta t i (r_a r ! xpos t i) \<and> r_c r' ! ypos t i = mul_of pre t i
    \<and> (\<not> narrow t \<longrightarrow> r_a r' ! xpos t i = beta \<and> r_b r' ! xpos t i = r_a r ! xpos t i
        \<and> r_c r' ! xpos t i = beta * (r_a r ! xpos t i))"
proof (cases "narrow t")
  case True
  then show ?thesis using assms
    by (simp add: entry_step_def narrow_entry_def denominator_step_def rows_size_def entry_fits_def mul_of_def den_of_def
        agree_def nth_opt_in upd_opt_def ypos_def)
next
  case False
  then show ?thesis using assms x_not_y[OF False, of i]
    by (simp add: entry_step_def wide_entry_def put_row_def denominator_step_def rows_size_def entry_fits_def mul_of_def
        den_of_def agree_def nth_opt_in upd_opt_def xpos_def ypos_def)
qed

lemma agree_trans: "agree J r r' \<Longrightarrow> agree J r' r'' \<Longrightarrow> agree J r r''"
  by (simp add: agree_def)

lemma agree_mono: "agree J r r' \<Longrightarrow> K \<subseteq> J \<Longrightarrow> agree K r r'"
  by (auto simp: agree_def)

lemma invert_row_ok:
  assumes "rows_size n r" "j < n"
  shows "invert_row j (r, v) = Some (if r_c r ! j \<noteq> 0
    then (r\<lparr>r_a := (r_a r)[j := r_a r ! j * v]\<rparr>, v * r_b r ! j) else (r, v))"
  using assms by (simp add: invert_row_def rows_size_def nth_opt_in upd_opt_def)

lemma cells_y: "ypos t i \<in> cells (t, i)" and cells_x: "\<not> narrow t \<Longrightarrow> xpos t i \<in> cells (t, i)"
  by auto

text \<open>Going forward over the entries and back again puts the inverse of each denominator into its row.\<close>

lemma batch_inversion:
  assumes "rows_size n r" "\<forall>p\<in>set ps. entry_fits n pre p" "dcells ps" "P \<noteq> 0"
    "\<forall>(t, i)\<in>set ps. mul_of pre t i \<noteq> 0 \<longrightarrow> den_of alpha beta t i (r_a r ! xpos t i) \<noteq> 0"
  shows "\<exists>r1 P' r2. opt_fold (entry_step pre alpha beta) ps (r, P) = Some (r1, P') \<and> P' \<noteq> 0
    \<and> opt_fold entry_invert (rev ps) (r1, inverse P') = Some (r2, inverse P) \<and> rows_size n r2
    \<and> agree (- (\<Union>p\<in>set ps. cells p)) r r2 \<and> (\<forall>(t, i)\<in>set ps. entry_done pre alpha beta r r2 t i)"
  using assms
proof (induction ps arbitrary: r P)
  case Nil
  then show ?case by (simp add: agree_def)
next
  case (Cons p ps)
  obtain t i where p: "p = (t, i)" by (cases p)
  let ?v = "r_a r ! xpos t i" and ?m = "mul_of pre t i"
  let ?d = "den_of alpha beta t i ?v"
  let ?P = "if ?m \<noteq> 0 then P * ?d else P"
  have fits: "entry_fits n pre (t, i)" and d0: "?m \<noteq> 0 \<Longrightarrow> ?d \<noteq> 0" using Cons.prems(2,5) p by auto
  obtain r' where r': "entry_step pre alpha beta (t, i) (r, P) = Some (r', ?P)" "rows_size n r'" "agree (- cells (t, i)) r r'"
      "r_a r' ! ypos t i = (if ?m \<noteq> 0 then P else r_a r ! ypos t i)" "r_b r' ! ypos t i = ?d" "r_c r' ! ypos t i = ?m"
      "\<not> narrow t \<Longrightarrow> r_a r' ! xpos t i = beta \<and> r_b r' ! xpos t i = ?v \<and> r_c r' ! xpos t i = beta * ?v"
    using entry_step_ok[OF Cons.prems(1) fits, of alpha beta P] by blast
  have disj: "cells (t, i) \<inter> (\<Union>q\<in>set ps. cells q) = {}" and dc: "dcells ps" using Cons.prems(3) p by simp_all
  have dj: "x \<notin> cells q" if "x \<in> cells (t, i)" "q \<in> set ps" for x q
    using disj that unfolding disjoint_iff UN_iff by blast
  have same_x: "r_a r' ! xpos u j = r_a r ! xpos u j" if "(u, j) \<in> set ps" "\<not> narrow u" for u j
  proof -
    have "xpos u j \<notin> cells (t, i)" using dj[OF _ that(1)] cells_x[OF that(2), of j] by metis
    then show ?thesis using r'(3) by (auto simp: agree_def)
  qed
  have same_y: "r_a r' ! ypos u j = r_a r ! ypos u j" if "(u, j) \<in> set ps" for u j
  proof -
    have "ypos u j \<notin> cells (t, i)" using dj[OF _ that] cells_y[of u j] by metis
    then show ?thesis using r'(3) by (auto simp: agree_def)
  qed
  have same_den: "den_of alpha beta u j (r_a r' ! xpos u j) = den_of alpha beta u j (r_a r ! xpos u j)" if "(u, j) \<in> set ps" for u j
    using same_x[OF that] by (simp add: den_of_def)
  have dens: "\<forall>(u, j)\<in>set ps. mul_of pre u j \<noteq> 0 \<longrightarrow> den_of alpha beta u j (r_a r' ! xpos u j) \<noteq> 0"
    using Cons.prems(5) same_den by auto
  have P0: "?P \<noteq> 0" using Cons.prems(4) d0 by simp
  have fs: "\<forall>p\<in>set ps. entry_fits n pre p" using Cons.prems(2) by simp
  obtain r1 P' r2 where ih: "opt_fold (entry_step pre alpha beta) ps (r', ?P) = Some (r1, P')" "P' \<noteq> 0"
      "opt_fold entry_invert (rev ps) (r1, inverse P') = Some (r2, inverse ?P)" "rows_size n r2"
      "agree (- (\<Union>p\<in>set ps. cells p)) r' r2" "\<forall>(u, j)\<in>set ps. entry_done pre alpha beta r' r2 u j"
    using Cons.IH[OF r'(2) fs dc P0 dens] by blast
  have keep: "r_a r2 ! j = r_a r' ! j \<and> r_b r2 ! j = r_b r' ! j \<and> r_c r2 ! j = r_c r' ! j" if "j \<in> cells (t, i)" for j
    using ih(5) dj[OF that] unfolding agree_def by simp
  let ?y = "ypos t i"
  have yn: "?y < n" using fits by (auto simp: entry_fits_def split: if_splits)
  let ?r3 = "if ?m \<noteq> 0 then r2\<lparr>r_a := (r_a r2)[?y := inverse ?d]\<rparr> else r2"
  have inv: "P * inverse P = 1" "?m \<noteq> 0 \<Longrightarrow> inverse (P * ?d) * ?d = inverse P"
    using Cons.prems(4) d0 by (simp_all add: mult.assoc[symmetric])
  have "entry_invert (t, i) (r2, inverse ?P) = Some (?r3, inverse P)"
    using keep[OF cells_y] r'(4-6) inv d0
    by (simp add: entry_invert_def invert_row_ok[OF ih(4) yn] mult.assoc[symmetric])
  then have bwd: "opt_fold entry_invert (rev (p # ps)) (r1, inverse P') = Some (?r3, inverse P)"
    using ih(3) p by (simp add: opt_fold_append)
  have len: "?y < length (r_a r2)" using yn ih(4) by (simp add: rows_size_def)
  have own: "entry_done pre alpha beta r ?r3 t i"
    using keep[OF cells_y] keep[OF cells_x] r'(4-7) len x_not_y[of t i] by (auto simp: entry_done_def Let_def)
  have others: "entry_done pre alpha beta r ?r3 u j" if "(u, j) \<in> set ps" for u j
  proof -
    have "ypos u j \<noteq> ?y" using dj[OF cells_y that] cells_y[of u j] by metis
    moreover have "\<not> narrow u \<Longrightarrow> xpos u j \<noteq> ?y" using dj[OF cells_y that] cells_x[of u j] by metis
    moreover have "entry_done pre alpha beta r' r2 u j" using ih(6) that by auto
    ultimately show ?thesis using same_x[OF that] same_y[OF that] same_den[OF that]
      by (auto simp: entry_done_def Let_def)
  qed
  have "agree (- (\<Union>q\<in>set (p # ps). cells q)) r ?r3"
    using ih(5) r'(3) p cells_y[of t i] by (auto simp: agree_def nth_list_update)
  moreover have "rows_size n ?r3" using ih(4) by (simp add: rows_size_def)
  ultimately show ?case using r'(1) ih(1,2) bwd own others p by auto
qed

subsection \<open>The loops over tables as loops over entries\<close>

lemma opt_fold_map: "opt_fold f (map g xs) s = opt_fold (\<lambda>x. f (g x)) xs s"
proof (induction xs arbitrary: s)
  case (Cons x xs)
  then show ?case by (cases "f (g x) s") simp_all
qed simp

lemma opt_fold_Nil: "opt_fold f [] = Some"
  by (rule ext) simp

definition wide_in :: "vm_table list \<Rightarrow> bool" where
  "wide_in ts \<longleftrightarrow> (\<exists>t\<in>set ts. \<not> narrow t)"

text \<open>The second challenge is there when a table needs it.\<close>

definition challenges_ok :: "vm_table list \<Rightarrow> 'f list \<Rightarrow> bool" where
  "challenges_ok ts post \<longleftrightarrow> (ts \<noteq> [] \<longrightarrow> post \<noteq> []) \<and> (wide_in ts \<longrightarrow> 1 < length post)"

lemma fill_table_entries:
  assumes "t_num_values t \<le> 1" "post \<noteq> []" "\<not> narrow t \<longrightarrow> 1 < length post"
  shows "fill_table pre post t st = opt_fold (entry_step pre (post ! 0) (post ! 1)) (map (Pair t) [0..<t_length t]) st"
proof -
  have n1: "\<not> narrow t \<Longrightarrow> t_num_values t = 1" using assms(1) by (simp add: narrow_def)
  then show ?thesis using assms
    by (cases "narrow t") (simp_all add: fill_table_def opt_fold_map entry_step_def nth_opt_in narrow_def)
qed

lemma challenges_ok_Cons: "challenges_ok (t # ts) post \<Longrightarrow> challenges_ok ts post \<and> post \<noteq> [] \<and> (\<not> narrow t \<longrightarrow> 1 < length post)"
  by (auto simp: challenges_ok_def wide_in_def)

lemma fill_tables_entries:
  assumes "\<forall>t\<in>set ts. t_num_values t \<le> 1" "challenges_ok ts post"
  shows "opt_fold (fill_table pre post) ts st = opt_fold (entry_step pre (post ! 0) (post ! 1)) (entries_of ts) st"
  using assms
proof (induction ts arbitrary: st)
  case (Cons t ts)
  note c = challenges_ok_Cons[OF Cons.prems(2)]
  have "fill_table pre post t st = opt_fold (entry_step pre (post ! 0) (post ! 1)) (map (Pair t) [0..<t_length t]) st"
    using fill_table_entries[of t post pre st] Cons.prems(1) c by simp
  moreover have "opt_fold (fill_table pre post) ts = opt_fold (entry_step pre (post ! 0) (post ! 1)) (entries_of ts)"
    using Cons.IH Cons.prems(1) c by (intro ext) auto
  ultimately show ?case by (simp add: opt_fold_append)
qed simp

lemma invert_table_entries:
  assumes "t_num_values t \<le> 1"
  shows "invert_table t st = opt_fold entry_invert (rev (map (Pair t) [0..<t_length t])) st"
proof -
  have n1: "\<not> narrow t \<Longrightarrow> t_num_values t = 1" using assms by (simp add: narrow_def)
  then show ?thesis
    by (cases "narrow t") (simp_all add: invert_table_def opt_fold_map rev_map entry_invert_def ypos_def narrow_def)
qed

lemma invert_tables_entries:
  assumes "\<forall>t\<in>set ts. t_num_values t \<le> 1"
  shows "opt_fold invert_table (rev ts) (st :: 'f::field rows \<times> 'f) = opt_fold entry_invert (rev (entries_of ts)) st"
  using assms
proof (induction ts arbitrary: st)
  case (Cons t ts)
  then have "opt_fold invert_table (rev ts) st = opt_fold entry_invert (rev (entries_of ts)) st" by simp
  moreover have "invert_table t s = opt_fold entry_invert (rev (map (Pair t) [0..<t_length t])) s" for s :: "'f rows \<times> 'f"
    using Cons.prems by (intro invert_table_entries) simp
  ultimately show ?case
    by (cases "opt_fold entry_invert (rev (entries_of ts)) st") (simp_all add: opt_fold_append opt_fold_Nil)
qed simp

text \<open>After the first two loops.\<close>

lemma inverses:
  assumes pl: "placed c w m ts" and size: "rows_size n r" "c + widths ts \<le> n" and pre: "m + lengths ts \<le> length pre"
    and ch: "challenges_ok ts post"
    and den: "\<And>t i. t \<in> set ts \<Longrightarrow> i < t_length t \<Longrightarrow> mul_of pre t i \<noteq> 0 \<Longrightarrow>
      den_of (post ! 0) (post ! 1) t i (r_a r ! xpos t i) \<noteq> 0"
  shows "\<exists>r1 P r2. opt_fold (fill_table pre post) ts (r, 1) = Some (r1, P) \<and> P \<noteq> 0
    \<and> opt_fold invert_table (rev ts) (r1, inverse P) = Some (r2, 1) \<and> rows_size n r2
    \<and> agree (- (\<Union>p\<in>set (entries_of ts). cells p)) r r2
    \<and> (\<forall>t\<in>set ts. \<forall>i<t_length t. entry_done pre (post ! 0) (post ! 1) r r2 t i)"
proof -
  have nv: "\<forall>t\<in>set ts. t_num_values t \<le> 1" using placed_num[OF pl] by blast
  have fits: "\<forall>p\<in>set (entries_of ts). entry_fits n pre p"
  proof
    fix p assume p: "p \<in> set (entries_of ts)"
    then obtain t i where ti: "p = (t, i)" "t \<in> set ts" "i < t_length t" using set_entries_of by (metis surj_pair)
    have "sumpos t < n" using placed_region[OF pl ti(2)] size(2) by linarith
    then have "cells (t, i) \<subseteq> {..<n}" using cells_region[OF ti(3)] by fastforce
    moreover have "t_mult t + i < length pre" using placed_mult[OF pl ti(2)] pre ti(3) by linarith
    ultimately show "entry_fits n pre p" by (simp add: entry_fits_def ti(1) del: cells.simps)
  qed
  have d: "\<forall>(t, i)\<in>set (entries_of ts). mul_of pre t i \<noteq> 0 \<longrightarrow> den_of (post ! 0) (post ! 1) t i (r_a r ! xpos t i) \<noteq> 0"
    using den by (auto simp: set_entries_of)
  obtain r1 P r2 where b: "opt_fold (entry_step pre (post ! 0) (post ! 1)) (entries_of ts) (r, 1) = Some (r1, P)" "P \<noteq> 0"
    "opt_fold entry_invert (rev (entries_of ts)) (r1, inverse P) = Some (r2, inverse 1)" "rows_size n r2"
    "agree (- (\<Union>p\<in>set (entries_of ts). cells p)) r r2"
    "\<forall>(t, i)\<in>set (entries_of ts). entry_done pre (post ! 0) (post ! 1) r r2 t i"
    using batch_inversion[OF size(1) fits placed_dcells[OF pl] _ d, of 1] by auto
  have "\<forall>t\<in>set ts. \<forall>i<t_length t. entry_done pre (post ! 0) (post ! 1) r r2 t i" using b(6) by (auto simp: set_entries_of)
  then show ?thesis using b unfolding fill_tables_entries[OF nv ch] invert_tables_entries[OF nv] by auto
qed

end
