(* ===== verification/VM_Lookups.thy ===== *)
theory VM_Lookups
  imports VM_Inverses
begin

text \<open>
  The loop of phase two over the tape of lookups (\<^verbatim>\<open>run_phase2\<close> of \<^verbatim>\<open>vm/src/interpreter.rs\<close>): the rows and
  witnesses of every lookup, and what the lookups add to the sums of their tables.
\<close>

subsection \<open>The tape of lookups\<close>

text \<open>A lookup as phase one leaves it on the tape: the table, the key, the result of a wide lookup, and the flag.\<close>

record 'f tape_entry =
  te_table :: nat
  te_key :: 'f
  te_result :: 'f
  te_flag :: u64

definition lwidth :: "vm_table list \<Rightarrow> 'f tape_entry \<Rightarrow> nat" where
  "lwidth ts e = (if narrow (ts ! te_table e) then 1 else 2)"

definition lwidths :: "vm_table list \<Rightarrow> 'f tape_entry list \<Rightarrow> nat" where
  "lwidths ts es = (\<Sum>e\<leftarrow>es. lwidth ts e)"

lemma lwidths_simps [simp]:
  "lwidths ts [] = 0" "lwidths ts (e # es) = lwidth ts e + lwidths ts es"
  "lwidths ts (es @ es') = lwidths ts es + lwidths ts es'"
  by (simp_all add: lwidths_def)

definition key_cell :: "'f felt_repr \<Rightarrow> 'f rows \<Rightarrow> nat \<Rightarrow> 'f tape_entry \<Rightarrow> bool" where
  "key_cell F r c e \<longleftrightarrow> limb F (r_c r ! c) = te_flag e
     \<and> (if te_flag e = 0 then r_b r ! c = te_key e else limb F (r_b r ! c) = canonical_limb F (te_key e))"

definition tape_cell :: "'f felt_repr \<Rightarrow> vm_table list \<Rightarrow> 'f rows \<Rightarrow> nat \<Rightarrow> 'f tape_entry \<Rightarrow> bool" where
  "tape_cell F ts r c e \<longleftrightarrow> unat (limb F (r_a r ! c)) = te_table e \<and> te_table e < length ts
     \<and> (if narrow (ts ! te_table e) then key_cell F r c e
        else r_b r ! c = te_result e \<and> key_cell F r (c + 1) e)"

fun on_tape :: "'f felt_repr \<Rightarrow> vm_table list \<Rightarrow> 'f rows \<Rightarrow> nat \<Rightarrow> 'f tape_entry list \<Rightarrow> bool" where
  "on_tape F ts r c [] \<longleftrightarrow> True"
| "on_tape F ts r c (e # es) \<longleftrightarrow> tape_cell F ts r c e \<and> on_tape F ts r (c + lwidth ts e) es"

lemma lwidth_pos: "0 < lwidth ts e"
  by (simp add: lwidth_def)

lemma tape_cell_cong:
  "agree {c..<c + lwidth ts e} r r' \<Longrightarrow> tape_cell F ts r' c e = tape_cell F ts r c e"
  by (auto simp: agree_def tape_cell_def key_cell_def lwidth_def)

lemma on_tape_cong:
  "agree {c..<c + lwidths ts es} r r' \<Longrightarrow> on_tape F ts r' c es = on_tape F ts r c es"
proof (induction es arbitrary: c)
  case (Cons e es)
  have "agree {c..<c + lwidth ts e} r r'" "agree {c + lwidth ts e..<c + lwidth ts e + lwidths ts es} r r'"
    using Cons.prems by (auto intro: agree_mono)
  then show ?case using Cons.IH tape_cell_cong by (metis on_tape.simps(2))
qed simp

text \<open>The entry that a lookup with a flag points at.\<close>

definition te_ix :: "'f felt_repr \<Rightarrow> 'f tape_entry \<Rightarrow> nat" where
  "te_ix F e = unat (canonical_limb F (te_key e))"

definition points_in :: "'f felt_repr \<Rightarrow> vm_table list \<Rightarrow> 'f tape_entry \<Rightarrow> bool" where
  "points_in F ts e \<longleftrightarrow> (te_flag e \<noteq> 0 \<longrightarrow> te_ix F e < t_length (ts ! te_table e))"

definition lookup_x :: "'f::field \<Rightarrow> vm_table list \<Rightarrow> 'f tape_entry \<Rightarrow> 'f" where
  "lookup_x beta ts e = (if narrow (ts ! te_table e) then 0 else - (beta * te_result e))"

definition key_done ::
  "'f::field felt_repr \<Rightarrow> 'f \<Rightarrow> 'f \<Rightarrow> vm_table list \<Rightarrow> 'f rows \<Rightarrow> 'f rows \<Rightarrow> 'f list \<Rightarrow> nat \<Rightarrow> nat \<Rightarrow> 'f tape_entry \<Rightarrow> bool" where
  "key_done F alpha beta ts r0 r post c w e \<longleftrightarrow> (let y = ypos (ts ! te_table e) (te_ix F e) in
     if te_flag e = 0 then r_a r ! c = 0 \<and> r_b r ! c = alpha - te_key e - lookup_x beta ts e \<and> r_c r ! c = 0 \<and> post ! w = 0
     else r_a r ! c = r_a r0 ! y \<and> r_b r ! c = r_b r0 ! y \<and> r_c r ! c = of_nat (unat (te_flag e)) \<and> post ! w = r_a r0 ! y)"

definition lookup_done ::
  "'f::field felt_repr \<Rightarrow> 'f \<Rightarrow> 'f \<Rightarrow> vm_table list \<Rightarrow> 'f rows \<Rightarrow> 'f rows \<Rightarrow> 'f list \<Rightarrow> nat \<Rightarrow> nat \<Rightarrow> 'f tape_entry \<Rightarrow> bool" where
  "lookup_done F alpha beta ts r0 r post c w e \<longleftrightarrow>
     (if narrow (ts ! te_table e) then key_done F alpha beta ts r0 r post c w e
      else r_a r ! c = beta \<and> r_b r ! c = te_result e \<and> r_c r ! c = beta * te_result e
        \<and> post ! w = lookup_x beta ts e \<and> key_done F alpha beta ts r0 r post (c + 1) (w + 1) e)"

fun lookups_done ::
  "'f::field felt_repr \<Rightarrow> 'f \<Rightarrow> 'f \<Rightarrow> vm_table list \<Rightarrow> 'f rows \<Rightarrow> 'f rows \<Rightarrow> 'f list \<Rightarrow> nat \<Rightarrow> nat \<Rightarrow> 'f tape_entry list \<Rightarrow> bool" where
  "lookups_done F alpha beta ts r0 r post c w [] \<longleftrightarrow> True"
| "lookups_done F alpha beta ts r0 r post c w (e # es) \<longleftrightarrow> lookup_done F alpha beta ts r0 r post c w e
     \<and> lookups_done F alpha beta ts r0 r post (c + lwidth ts e) (w + lwidth ts e) es"

text \<open>What the lookups add to the right side of the sum of table \<open>k\<close>.\<close>

definition counted :: "'f::field felt_repr \<Rightarrow> vm_table list \<Rightarrow> 'f rows \<Rightarrow> 'f tape_entry list \<Rightarrow> nat \<Rightarrow> 'f" where
  "counted F ts r0 es k = (\<Sum>e\<leftarrow>es. if te_table e = k \<and> te_flag e \<noteq> 0 then r_a r0 ! ypos (ts ! k) (te_ix F e) else 0)"

text \<open>A lookup changes its own rows and witnesses, and the right side of the sum of its table.\<close>

definition lk_frame :: "nat set \<Rightarrow> nat set \<Rightarrow> nat set \<Rightarrow> 'f rows \<times> 'f list \<Rightarrow> 'f rows \<times> 'f list \<Rightarrow> bool" where
  "lk_frame C W S st st' \<longleftrightarrow> (\<forall>n. rows_size n (fst st) \<longrightarrow> rows_size n (fst st')) \<and> length (snd st') = length (snd st)
     \<and> (\<forall>j. j \<notin> C \<longrightarrow> r_a (fst st') ! j = r_a (fst st) ! j \<and> r_b (fst st') ! j = r_b (fst st) ! j)
     \<and> (\<forall>j. j \<notin> C \<union> S \<longrightarrow> r_c (fst st') ! j = r_c (fst st) ! j) \<and> (\<forall>j. j \<notin> W \<longrightarrow> snd st' ! j = snd st ! j)"

lemma lk_frame_refl [simp]: "lk_frame C W S st st"
  by (simp add: lk_frame_def)

lemma lk_frame_trans: "lk_frame C W S st st' \<Longrightarrow> lk_frame C' W' S st' st'' \<Longrightarrow> lk_frame (C \<union> C') (W \<union> W') S st st''"
  by (simp add: lk_frame_def)

lemma lk_frame_mono: "lk_frame C W S st st' \<Longrightarrow> C \<subseteq> C' \<Longrightarrow> W \<subseteq> W' \<Longrightarrow> S \<subseteq> S' \<Longrightarrow> lk_frame C' W' S' st st'"
  by (auto simp: lk_frame_def)

definition do_key ::
  "'f::field felt_repr \<Rightarrow> 'f \<Rightarrow> vm_table list \<Rightarrow> 'f \<Rightarrow> nat \<Rightarrow> nat \<Rightarrow> 'f tape_entry \<Rightarrow> 'f rows \<times> 'f list \<Rightarrow> ('f rows \<times> 'f list) option" where
  "do_key F alpha ts x c w e st = (let t = ts ! te_table e in
     if te_flag e = 0 then absent_lookup c w (alpha - te_key e - x) st
     else present_lookup c w (ypos t (te_ix F e)) (sumpos t) (of_nat (unat (te_flag e))) st)"

lemma do_key_ok:
  assumes size: "rows_size n r" and cw: "c < n" "w < length post"
    and sp: "sumpos (ts ! te_table e) < n" "c \<noteq> sumpos (ts ! te_table e)"
    and yp: "te_flag e \<noteq> 0 \<Longrightarrow> ypos (ts ! te_table e) (te_ix F e) < n"
  shows "\<exists>r' post'. do_key F alpha ts (lookup_x beta ts e) c w e (r, post) = Some (r', post')
    \<and> lk_frame {c} {w} {sumpos (ts ! te_table e)} (r, post) (r', post')
    \<and> key_done F alpha beta ts r r' post' c w e
    \<and> r_c r' ! sumpos (ts ! te_table e) = r_c r ! sumpos (ts ! te_table e)
        + (if te_flag e \<noteq> 0 then r_a r ! ypos (ts ! te_table e) (te_ix F e) else 0)"
proof (cases "te_flag e = 0")
  case True
  let ?r = "\<lparr>r_a = (r_a r)[c := 0], r_b = (r_b r)[c := alpha - te_key e - lookup_x beta ts e], r_c = (r_c r)[c := 0]\<rparr>"
  have "do_key F alpha ts (lookup_x beta ts e) c w e (r, post) = Some (?r, post[w := 0])"
    using True size cw by (simp add: do_key_def absent_lookup_def put_row_def rows_size_def upd_opt_def)
  moreover have "lk_frame {c} {w} {sumpos (ts ! te_table e)} (r, post) (?r, post[w := 0])"
    by (simp add: lk_frame_def rows_size_def)
  moreover have "key_done F alpha beta ts r ?r (post[w := 0]) c w e"
    using True size cw by (simp add: key_done_def rows_size_def)
  moreover have "r_c ?r ! sumpos (ts ! te_table e) = r_c r ! sumpos (ts ! te_table e)
      + (if te_flag e \<noteq> 0 then r_a r ! ypos (ts ! te_table e) (te_ix F e) else 0)" using True sp(2) by simp
  ultimately show ?thesis by blast
next
  case False
  let ?t = "ts ! te_table e" and ?f = "of_nat (unat (te_flag e))"
  let ?y = "r_a r ! ypos ?t (te_ix F e)" and ?d = "r_b r ! ypos ?t (te_ix F e)"
  let ?cs = "((r_c r)[c := ?f])[sumpos ?t := r_c r ! sumpos ?t + ?y]"
  let ?r = "\<lparr>r_a = (r_a r)[c := ?y], r_b = (r_b r)[c := ?d], r_c = ?cs\<rparr>"
  have "do_key F alpha ts (lookup_x beta ts e) c w e (r, post) = Some (?r, post[w := ?y])"
    using False size cw sp yp
    by (simp add: do_key_def present_lookup_def put_row_def rows_size_def upd_opt_def nth_opt_in Let_def)
  moreover have "lk_frame {c} {w} {sumpos ?t} (r, post) (?r, post[w := ?y])"
    by (simp add: lk_frame_def rows_size_def)
  moreover have "key_done F alpha beta ts r ?r (post[w := ?y]) c w e"
    using False size cw sp by (simp add: key_done_def rows_size_def)
  moreover have "r_c ?r ! sumpos ?t = r_c r ! sumpos ?t + (if te_flag e \<noteq> 0 then ?y else 0)"
    using False size sp by (simp add: rows_size_def)
  ultimately show ?thesis by blast
qed

definition do_lookup ::
  "'f::field felt_repr \<Rightarrow> vm_table \<Rightarrow> nat \<Rightarrow> nat \<Rightarrow> 'f rows \<times> 'f list \<Rightarrow> ('f rows \<times> 'f list) option" where
  "do_lookup F t c w st = (if t_num_values t = 0 then narrow_lookup F t c w st else wide_lookup F t c w st)"

lemma do_lookup_ok:
  assumes size: "rows_size n r" and tape: "tape_cell F ts r c e" and ix: "points_in F ts e"
    and cw: "c + lwidth ts e \<le> n" "w + lwidth ts e \<le> length post"
    and tables: "\<forall>t\<in>set ts. t_num_values t \<le> 1 \<and> sumpos t < c"
    and alpha: "post \<noteq> []" "post ! 0 = alpha" and beta: "\<not> narrow (ts ! te_table e) \<Longrightarrow> 1 < length post \<and> post ! 1 = beta"
  shows "\<exists>r' post'. do_lookup F (ts ! te_table e) c w (r, post) = Some (r', post')
    \<and> lk_frame {c..<c + lwidth ts e} {w..<w + lwidth ts e} {sumpos (ts ! te_table e)} (r, post) (r', post')
    \<and> lookup_done F alpha beta ts r r' post' c w e
    \<and> r_c r' ! sumpos (ts ! te_table e) = r_c r ! sumpos (ts ! te_table e)
        + (if te_flag e \<noteq> 0 then r_a r ! ypos (ts ! te_table e) (te_ix F e) else 0)"
proof -
  let ?t = "ts ! te_table e"
  have tt: "?t \<in> set ts" using tape by (simp add: tape_cell_def)
  then have sp: "sumpos ?t < c" and nv: "t_num_values ?t \<le> 1" using tables by auto
  have yp: "ypos ?t (te_ix F e) < c" if "te_flag e \<noteq> 0"
    using cells_region[OF _ cells_y, of "te_ix F e" ?t] ix that sp by (simp add: points_in_def)
  have cn: "c < n" "w < length post" using cw lwidth_pos[of ts e] by linarith+
  show ?thesis
  proof (cases "narrow ?t")
    case True
    have l1: "{c..<c + lwidth ts e} = {c}" "{w..<w + lwidth ts e} = {w}" using True by (auto simp: lwidth_def)
    have kc: "key_cell F r c e" using tape True by (simp add: tape_cell_def)
    have sn: "sumpos ?t < n" "c \<noteq> sumpos ?t" "te_flag e \<noteq> 0 \<Longrightarrow> ypos ?t (te_ix F e) < n" using sp yp cn by auto
    have "do_lookup F ?t c w (r, post) = do_key F alpha ts (lookup_x beta ts e) c w e (r, post)"
      using True kc size cn alpha
      by (auto simp: do_lookup_def narrow_def narrow_lookup_def do_key_def key_cell_def peek_def rows_size_def nth_opt_in
        lookup_x_def te_ix_def ypos_def sumpos_def Let_def)
    then show ?thesis using do_key_ok[OF size cn sn, of alpha beta] True unfolding l1 by (simp add: lookup_done_def)
  next
    case False
    then have n1: "t_num_values ?t = 1" using nv by (simp add: narrow_def)
    have lw: "lwidth ts e = 2" using False by (simp add: lwidth_def)
    have b: "1 < length post" "post ! 1 = beta" using beta[OF False] by simp_all
    have kc: "r_b r ! c = te_result e" "key_cell F r (c + 1) e" using tape False by (simp_all add: tape_cell_def)
    let ?x = "- (beta * te_result e)"
    let ?r = "\<lparr>r_a = (r_a r)[c := beta], r_b = (r_b r)[c := te_result e], r_c = (r_c r)[c := - ?x]\<rparr>"
    have sz: "rows_size n ?r" using size by (simp add: rows_size_def)
    have cn2: "c + 1 < n" "w + 1 < length (post[w := ?x])" using cw lw by simp_all
    have sn: "sumpos ?t < n" "c + 1 \<noteq> sumpos ?t" "te_flag e \<noteq> 0 \<Longrightarrow> ypos ?t (te_ix F e) < n" using sp yp cn by auto
    have "do_lookup F ?t c w (r, post) = do_key F alpha ts (lookup_x beta ts e) (c + 1) (w + 1) e (?r, post[w := ?x])"
      using False n1 kc size cn cn2 alpha b
      by (auto simp: do_lookup_def narrow_def wide_lookup_def do_key_def key_cell_def peek_def rows_size_def nth_opt_in
        put_row_def upd_opt_def lookup_x_def te_ix_def ypos_def sumpos_def Let_def)
    then obtain r' post' where k: "do_lookup F ?t c w (r, post) = Some (r', post')"
        "lk_frame {c + 1} {w + 1} {sumpos ?t} (?r, post[w := ?x]) (r', post')"
        "key_done F alpha beta ts ?r r' post' (c + 1) (w + 1) e"
        "r_c r' ! sumpos ?t = r_c ?r ! sumpos ?t + (if te_flag e \<noteq> 0 then r_a ?r ! ypos ?t (te_ix F e) else 0)"
      using do_key_ok[OF sz cn2 sn, of alpha beta] by auto
    have fr: "lk_frame {c} {w} {sumpos ?t} (r, post) (?r, post[w := ?x])" by (simp add: lk_frame_def rows_size_def)
    have "{c} \<union> {c + 1} = {c..<c + lwidth ts e}" "{w} \<union> {w + 1} = {w..<w + lwidth ts e}" using lw by auto
    then have frame: "lk_frame {c..<c + lwidth ts e} {w..<w + lwidth ts e} {sumpos ?t} (r, post) (r', post')"
      using lk_frame_trans[OF fr k(2)] by simp
    have own: "r_a r' ! c = beta" "r_b r' ! c = te_result e" "r_c r' ! c = beta * te_result e" "post' ! w = lookup_x beta ts e"
      using k(2) size cn sp False by (auto simp: lk_frame_def rows_size_def lookup_x_def)
    have "key_done F alpha beta ts r r' post' (c + 1) (w + 1) e"
      using k(3) yp by (auto simp: key_done_def Let_def)
    then have "lookup_done F alpha beta ts r r' post' c w e" using own False by (simp add: lookup_done_def)
    moreover have "r_c r' ! sumpos ?t = r_c r ! sumpos ?t + (if te_flag e \<noteq> 0 then r_a r ! ypos ?t (te_ix F e) else 0)"
      using k(4) sp yp by auto
    ultimately show ?thesis using k(1) frame by blast
  qed
qed

lemma lookup_done_cong:
  assumes "\<And>j. j \<in> {c..<c + lwidth ts e} \<Longrightarrow> r_a r' ! j = r_a r ! j \<and> r_b r' ! j = r_b r ! j \<and> r_c r' ! j = r_c r ! j"
    and "\<And>j. j \<in> {w..<w + lwidth ts e} \<Longrightarrow> post' ! j = post ! j"
    and "lookup_done F alpha beta ts r0 r post c w e"
  shows "lookup_done F alpha beta ts r0 r' post' c w e"
proof (cases "narrow (ts ! te_table e)")
  case True
  then show ?thesis using assms(1)[of c] assms(2)[of w] assms(3) by (simp add: lookup_done_def key_done_def lwidth_def Let_def)
next
  case False
  then show ?thesis using assms(1)[of c] assms(1)[of "c + 1"] assms(2)[of w] assms(2)[of "w + 1"] assms(3)
    by (simp add: lookup_done_def key_done_def lwidth_def Let_def)
qed

lemma lookups_done_origin:
  assumes "\<And>e. e \<in> set es \<Longrightarrow> te_flag e \<noteq> 0 \<Longrightarrow> r_a r0' ! ypos (ts ! te_table e) (te_ix F e) = r_a r0 ! ypos (ts ! te_table e) (te_ix F e)
      \<and> r_b r0' ! ypos (ts ! te_table e) (te_ix F e) = r_b r0 ! ypos (ts ! te_table e) (te_ix F e)"
  shows "lookups_done F alpha beta ts r0' r post c w es = lookups_done F alpha beta ts r0 r post c w es"
    and "counted F ts r0' es k = counted F ts r0 es k"
  using assms
proof (induction es arbitrary: c w)
  case (Cons e es)
  {
    case 1
    have "key_done F alpha beta ts r0' r post c w e = key_done F alpha beta ts r0 r post c w e" for c w
      using 1[of e] by (simp add: key_done_def Let_def)
    moreover have "lookups_done F alpha beta ts r0' r post c w es = lookups_done F alpha beta ts r0 r post c w es" for c w
      using Cons.IH(1) 1 by simp
    ultimately show ?case by (simp add: lookup_done_def)
  next
    case 2
    then show ?case using Cons.IH(2) by (auto simp: counted_def)
  }
qed (simp_all add: counted_def)

lemma counted_Cons:
  "counted F ts r0 (e # es) k = (if te_table e = k \<and> te_flag e \<noteq> 0 then r_a r0 ! ypos (ts ! k) (te_ix F e) else 0) + counted F ts r0 es k"
  by (simp add: counted_def)

lemma on_tape_tables: "on_tape F ts r c es \<Longrightarrow> e \<in> set es \<Longrightarrow> te_table e < length ts"
  by (induction es arbitrary: c) (auto simp: tape_cell_def)

lemma lookup_loop_ok:
  assumes "rows_size n r" "on_tape F ts r (L + off) es" "\<forall>e\<in>set es. points_in F ts e"
    and "off + lwidths ts es = cl_lookups_data_size cl" "L = cl_lookups_data_start cl"
    and "W = lookups_data_start wl - challenges_start wl"
    and "L + cl_lookups_data_size cl \<le> n" "W + cl_lookups_data_size cl \<le> length post"
    and tables: "\<forall>t\<in>set ts. t_num_values t \<le> 1 \<and> sumpos t < L"
    and inj: "\<And>j k. j < length ts \<Longrightarrow> k < length ts \<Longrightarrow> sumpos (ts ! j) = sumpos (ts ! k) \<Longrightarrow> j = k"
    and alpha: "ts \<noteq> [] \<Longrightarrow> 0 < W \<and> post ! 0 = alpha" and beta: "wide_in ts \<Longrightarrow> 1 < W \<and> post ! 1 = beta"
  shows "\<exists>r' post'. lookup_loop F ts wl cl off (r, post) = Some (r', post')
    \<and> lk_frame {L + off..<L + cl_lookups_data_size cl} {W + off..<W + cl_lookups_data_size cl} (sumpos ` set ts) (r, post) (r', post')
    \<and> lookups_done F alpha beta ts r r' post' (L + off) (W + off) es
    \<and> (\<forall>k<length ts. r_c r' ! sumpos (ts ! k) = r_c r ! sumpos (ts ! k) + counted F ts r es k)"
  using assms(1-4,7,8) alpha beta
proof (induction es arbitrary: r post off)
  case Nil
  then show ?case by (simp add: lookup_loop.simps counted_def)
next
  case (Cons e es)
  let ?N = "cl_lookups_data_size cl" and ?w = "lwidth ts e" and ?t = "ts ! te_table e"
  have tc: "tape_cell F ts r (L + off) e" using Cons.prems(2) by simp
  then have k: "te_table e < length ts" "unat (limb F (r_a r ! (L + off))) = te_table e" by (simp_all add: tape_cell_def)
  have ne: "ts \<noteq> []" and tin: "?t \<in> set ts" using k(1) by auto
  have wi: "wide_in ts" if "\<not> narrow ?t" using tin that by (auto simp: wide_in_def)
  have le: "off + ?w + lwidths ts es = ?N" using Cons.prems(4) by simp
  have cw: "L + off + ?w \<le> n" "W + off + ?w \<le> length post" using Cons.prems(5,6) le by linarith+
  have tabs: "\<forall>t\<in>set ts. t_num_values t \<le> 1 \<and> sumpos t < L + off" using tables by fastforce
  have al: "post \<noteq> []" "post ! 0 = alpha" using cw lwidth_pos[of ts e] Cons.prems(7)[OF ne] by auto
  have be: "1 < length post \<and> post ! 1 = beta" if "\<not> narrow ?t" using cw Cons.prems(8)[OF wi[OF that]] by linarith
  have pe: "points_in F ts e" using Cons.prems(3) by simp
  obtain r1 post1 where 1: "do_lookup F ?t (L + off) (W + off) (r, post) = Some (r1, post1)"
    "lk_frame {L + off..<L + off + ?w} {W + off..<W + off + ?w} {sumpos ?t} (r, post) (r1, post1)"
    "lookup_done F alpha beta ts r r1 post1 (L + off) (W + off) e"
    "r_c r1 ! sumpos ?t = r_c r ! sumpos ?t + (if te_flag e \<noteq> 0 then r_a r ! ypos ?t (te_ix F e) else 0)"
    using do_lookup_ok[OF Cons.prems(1) tc pe cw tabs al be] by blast
  have size1: "rows_size n r1" and lp: "length post1 = length post" using 1(2) Cons.prems(1) by (auto simp: lk_frame_def)
  have spL: "sumpos ?t < L" using tables tin by blast
  have "agree {L + (off + ?w)..<L + (off + ?w) + lwidths ts es} r r1"
    using 1(2) spL by (simp add: agree_def lk_frame_def)
  from on_tape_cong[OF this] have tape1: "on_tape F ts r1 (L + (off + ?w)) es" using Cons.prems(2) by (simp add: add.assoc)
  have al1: "0 < W \<and> post1 ! 0 = alpha" if "ts \<noteq> []" using Cons.prems(7)[OF that] 1(2) by (simp add: lk_frame_def)
  have be1: "1 < W \<and> post1 ! 1 = beta" if "wide_in ts" using Cons.prems(8)[OF that] 1(2) by (simp add: lk_frame_def)
  have pts: "\<forall>e\<in>set es. points_in F ts e" using Cons.prems(3) by simp
  have post1: "W + ?N \<le> length post1" using Cons.prems(6) lp by simp
  obtain r' post' where 2: "lookup_loop F ts wl cl (off + ?w) (r1, post1) = Some (r', post')"
    "lk_frame {L + (off + ?w)..<L + ?N} {W + (off + ?w)..<W + ?N} (sumpos ` set ts) (r1, post1) (r', post')"
    "lookups_done F alpha beta ts r1 r' post' (L + (off + ?w)) (W + (off + ?w)) es"
    "\<forall>k<length ts. r_c r' ! sumpos (ts ! k) = r_c r1 ! sumpos (ts ! k) + counted F ts r1 es k"
    using Cons.IH[OF size1 tape1 pts le Cons.prems(5) post1 al1 be1] by blast
  have "off < ?N" using le lwidth_pos[of ts e] by linarith
  then have run: "lookup_loop F ts wl cl off (r, post) = Some (r', post')"
    using 1(1) 2(1) k Cons.prems(1,5) assms(5,6)
    by (subst lookup_loop.simps)
      (auto simp: peek_def nth_opt_in rows_size_def do_lookup_def lwidth_def narrow_def Let_def split: if_splits)
  have "lk_frame ({L + off..<L + off + ?w} \<union> {L + (off + ?w)..<L + ?N}) ({W + off..<W + off + ?w} \<union> {W + (off + ?w)..<W + ?N})
      (sumpos ` set ts) (r, post) (r', post')"
    by (rule lk_frame_trans[OF lk_frame_mono[OF 1(2)] 2(2)]) (use tin in auto)
  moreover have "{L + off..<L + off + ?w} \<union> {L + (off + ?w)..<L + ?N} = {L + off..<L + ?N}"
    "{W + off..<W + off + ?w} \<union> {W + (off + ?w)..<W + ?N} = {W + off..<W + ?N}" using le by auto
  ultimately have frame: "lk_frame {L + off..<L + ?N} {W + off..<W + ?N} (sumpos ` set ts) (r, post) (r', post')" by simp
  have own: "lookup_done F alpha beta ts r r' post' (L + off) (W + off) e"
  proof (rule lookup_done_cong[OF _ _ 1(3)])
    fix j assume j: "j \<in> {L + off..<L + off + ?w}"
    then have "j \<notin> sumpos ` set ts" using tables by fastforce
    then show "r_a r' ! j = r_a r1 ! j \<and> r_b r' ! j = r_b r1 ! j \<and> r_c r' ! j = r_c r1 ! j"
      using 2(2) j by (simp add: lk_frame_def)
  qed (use 2(2) in \<open>simp add: lk_frame_def\<close>)
  have origin: "r_a r1 ! ypos (ts ! te_table e') (te_ix F e') = r_a r ! ypos (ts ! te_table e') (te_ix F e')
      \<and> r_b r1 ! ypos (ts ! te_table e') (te_ix F e') = r_b r ! ypos (ts ! te_table e') (te_ix F e')"
    if e': "e' \<in> set es" "te_flag e' \<noteq> 0" for e'
  proof -
    have tl: "te_table e' < length ts" using on_tape_tables[OF tape1 e'(1)] .
    have "te_ix F e' < t_length (ts ! te_table e')" using pts e' by (auto simp: points_in_def)
    then have "ypos (ts ! te_table e') (te_ix F e') < sumpos (ts ! te_table e')" using cells_region[OF _ cells_y] by blast
    moreover have "sumpos (ts ! te_table e') < L" using tables tl by simp
    ultimately show ?thesis using 1(2) by (simp add: lk_frame_def)
  qed
  have dn: "lookups_done F alpha beta ts r r' post' (L + off) (W + off) (e # es)"
    using own 2(3) lookups_done_origin(1)[OF origin] by (simp add: add.assoc)
  have sums: "r_c r' ! sumpos (ts ! j) = r_c r ! sumpos (ts ! j) + counted F ts r (e # es) j" if j: "j < length ts" for j
  proof (cases "j = te_table e")
    case True
    then show ?thesis using 1(4) 2(4) j by (simp add: counted_Cons lookups_done_origin(2)[OF origin] add.assoc)
  next
    case False
    then have "sumpos (ts ! j) \<noteq> sumpos ?t" using inj[OF j k(1)] by blast
    moreover have "sumpos (ts ! j) < L" using tables j by simp
    ultimately have "r_c r1 ! sumpos (ts ! j) = r_c r ! sumpos (ts ! j)" using 1(2) by (simp add: lk_frame_def)
    then show ?thesis using 2(4) j False by (simp add: counted_Cons lookups_done_origin(2)[OF origin])
  qed
  show ?case using run frame dn sums by blast
qed

end
