(* ===== verification/VM_Finish.thy ===== *)
theory VM_Finish
  imports VM_Lookups
begin

text \<open>
  The last loop of phase two (\<^verbatim>\<open>run_phase2\<close> of \<^verbatim>\<open>vm/src/interpreter.rs\<close>): every inverse is multiplied by
  its multiplicity, and the products are written to the witness and summed up.
\<close>

subsection \<open>One entry\<close>

definition xwit :: "vm_table \<Rightarrow> nat \<Rightarrow> nat" where
  "xwit t i = t_wit t + 2 * i"

definition ywit :: "vm_table \<Rightarrow> nat \<Rightarrow> nat" where
  "ywit t i = (if narrow t then t_wit t + i else t_wit t + 2 * i + 1)"

text \<open>The product of an inverse and its multiplicity, and what is left in the row, where unused entries are skipped.\<close>

definition term_at :: "'f::field rows \<Rightarrow> vm_table \<Rightarrow> nat \<Rightarrow> 'f" where
  "term_at r t i = r_a r ! ypos t i * r_c r ! ypos t i"

definition entry_scale :: "vm_table \<times> nat \<Rightarrow> 'f::field rows \<times> 'f list \<Rightarrow> ('f rows \<times> 'f list) option" where
  "entry_scale = (\<lambda>(t, i). if narrow t then scale_row (ypos t i) (ywit t i) (sumpos t) else wide_scale t i)"

definition scaled :: "vm_table \<Rightarrow> nat set \<Rightarrow> 'f::field rows \<times> 'f list \<Rightarrow> 'f rows \<times> 'f list \<Rightarrow> bool" where
  "scaled t I = (\<lambda>(r, post) (r', post'). length (r_a r') = length (r_a r) \<and> r_b r' = r_b r \<and> r_c r' = r_c r
     \<and> length post' = length post
     \<and> (\<forall>j. j \<notin> insert (sumpos t) (ypos t ` I) \<longrightarrow> r_a r' ! j = r_a r ! j)
     \<and> (\<forall>i\<in>I. r_a r' ! ypos t i = (if r_c r ! ypos t i \<noteq> 0 then term_at r t i else r_a r ! ypos t i))
     \<and> r_a r' ! sumpos t = r_a r ! sumpos t + (\<Sum>i\<in>I. term_at r t i)
     \<and> (\<forall>j. j \<notin> {t_wit t..<t_wit t + wwidth t} \<longrightarrow> post' ! j = post ! j)
     \<and> (\<forall>i\<in>I. post' ! ywit t i = (if r_c r ! ypos t i \<noteq> 0 then term_at r t i else post ! ywit t i)
          \<and> (\<not> narrow t \<longrightarrow> post' ! xwit t i = - r_c r ! xpos t i))
     \<and> (\<forall>i. i \<notin> I \<longrightarrow> post' ! ywit t i = post ! ywit t i \<and> (\<not> narrow t \<longrightarrow> post' ! xwit t i = post ! xwit t i)))"

lemma scale_row_ok:
  assumes "rows_size n r" "row < n" "sum_row < n" "row \<noteq> sum_row" "wit < length post"
  shows "scale_row row wit sum_row (r, post) = Some (if r_c r ! row \<noteq> 0
    then (r\<lparr>r_a := ((r_a r)[row := r_a r ! row * r_c r ! row])[sum_row := r_a r ! sum_row + r_a r ! row * r_c r ! row]\<rparr>,
      post[wit := r_a r ! row * r_c r ! row])
    else (r, post))"
  using assms by (simp add: scale_row_def rows_size_def nth_opt_in upd_opt_def Let_def)

lemma y_not_sum: "i < t_length t \<Longrightarrow> ypos t i \<noteq> sumpos t"
  by (simp add: pos_defs)

lemma ypos_inj [simp]: "ypos t i = ypos t j \<longleftrightarrow> i = j"
  by (auto simp: ypos_def)

lemma ywit_inj [simp]: "ywit t i = ywit t j \<longleftrightarrow> i = j"
  by (auto simp: ywit_def)

lemma xwit_inj [simp]: "xwit t i = xwit t j \<longleftrightarrow> i = j"
  by (auto simp: xwit_def)

lemma xwit_not_ywit: "\<not> narrow t \<Longrightarrow> xwit t i \<noteq> ywit t j"
  by (simp add: xwit_def ywit_def) presburger

lemma wit_region: "i < t_length t \<Longrightarrow> ywit t i \<in> {t_wit t..<t_wit t + wwidth t}"
  "\<not> narrow t \<Longrightarrow> i < t_length t \<Longrightarrow> xwit t i \<in> {t_wit t..<t_wit t + wwidth t}"
  by (auto simp: xwit_def ywit_def wwidth_def)

lemma entry_scale_ok:
  assumes size: "rows_size n r" "sumpos t < n" "t_wit t + wwidth t \<le> length post" and i: "i < t_length t"
  shows "\<exists>st. entry_scale (t, i) (r, post) = Some st \<and> scaled t {i} (r, post) st"
proof -
  have y: "ypos t i < n" "ypos t i \<noteq> sumpos t" using cells_region[OF i cells_y] size(2) by auto
  have w: "ywit t i < length post" using wit_region(1)[OF i] size(3) by auto
  note sc = scale_row_ok[OF size(1) y(1) size(2) y(2) w]
  have len: "length (r_a r) = n" "length (r_c r) = n" using size(1) by (simp_all add: rows_size_def)
  show ?thesis
  proof (cases "narrow t")
    case True
    then show ?thesis using sc y w size(2) len wit_region(1)[OF i]
      by (auto simp: entry_scale_def scaled_def term_at_def nth_list_update)
  next
    case False
    have x: "xpos t i < n" using cells_region[OF i cells_x[OF False]] size(2) by auto
    have xw: "xwit t i < length post" using wit_region(2)[OF False i] size(3) by auto
    have pos: "ypos t i = t_cnst t + 2 * i + 1" "ywit t i = t_wit t + 2 * i + 1" "sumpos t = t_cnst t + 2 * t_length t"
      using False by (simp_all add: ypos_def ywit_def sumpos_def)
    have ws: "wide_scale t i st = do {
        (r, post) \<leftarrow> scale_row (ypos t i) (ywit t i) (sumpos t) st;
        c \<leftarrow> nth_opt (r_c r) (xpos t i);
        post \<leftarrow> upd_opt post (xwit t i) (- c);
        Some (r, post) }" for st :: "'a rows \<times> 'a list"
      by (simp only: wide_scale_def pos xpos_def xwit_def)
    let ?e = "term_at r t i" and ?c = "- r_c r ! xpos t i"
    let ?st = "if r_c r ! ypos t i \<noteq> 0
      then (r\<lparr>r_a := ((r_a r)[ypos t i := ?e])[sumpos t := r_a r ! sumpos t + ?e]\<rparr>, (post[ywit t i := ?e])[xwit t i := ?c])
      else (r, post[xwit t i := ?c])"
    have "entry_scale (t, i) (r, post) = Some ?st"
      using sc x xw len False by (simp add: entry_scale_def ws term_at_def nth_opt_in upd_opt_def)
    moreover have "scaled t {i} (r, post) ?st"
      using y w xw size(2) len wit_region(1)[OF i] wit_region(2)[OF False i] xwit_not_ywit[OF False] xwit_not_ywit[OF False, symmetric]
      by (auto simp: scaled_def term_at_def nth_list_update)
    ultimately show ?thesis by blast
  qed
qed

subsection \<open>One table\<close>

lemma scaled_trans:
  assumes "scaled t I st st1" "scaled t {k} st1 st2" "k \<notin> I" "finite I" "insert k I \<subseteq> {..<t_length t}"
  shows "scaled t (insert k I) st st2"
proof -
  obtain r post r1 post1 r2 post2 where st: "st = (r, post)" "st1 = (r1, post1)" "st2 = (r2, post2)" by (metis surj_pair)
  let ?T = "\<lambda>i. if r_c r ! ypos t i \<noteq> 0 then term_at r t i else r_a r ! ypos t i"
  let ?W = "\<lambda>i. if r_c r ! ypos t i \<noteq> 0 then term_at r t i else post ! ywit t i"
  have A: "length (r_a r1) = length (r_a r)" "r_b r1 = r_b r" "r_c r1 = r_c r" "length post1 = length post"
    "\<And>j. j \<notin> insert (sumpos t) (ypos t ` I) \<Longrightarrow> r_a r1 ! j = r_a r ! j"
    "\<And>i. i \<in> I \<Longrightarrow> r_a r1 ! ypos t i = ?T i"
    "r_a r1 ! sumpos t = r_a r ! sumpos t + (\<Sum>i\<in>I. term_at r t i)"
    "\<And>j. j \<notin> {t_wit t..<t_wit t + wwidth t} \<Longrightarrow> post1 ! j = post ! j"
    "\<And>i. i \<in> I \<Longrightarrow> post1 ! ywit t i = ?W i \<and> (\<not> narrow t \<longrightarrow> post1 ! xwit t i = - r_c r ! xpos t i)"
    "\<And>i. i \<notin> I \<Longrightarrow> post1 ! ywit t i = post ! ywit t i \<and> (\<not> narrow t \<longrightarrow> post1 ! xwit t i = post ! xwit t i)"
    using assms(1) unfolding st scaled_def split by blast+
  have B: "length (r_a r2) = length (r_a r1)" "r_b r2 = r_b r1" "r_c r2 = r_c r1" "length post2 = length post1"
    "\<And>j. j \<noteq> sumpos t \<Longrightarrow> j \<noteq> ypos t k \<Longrightarrow> r_a r2 ! j = r_a r1 ! j"
    "r_a r2 ! ypos t k = (if r_c r1 ! ypos t k \<noteq> 0 then term_at r1 t k else r_a r1 ! ypos t k)"
    "r_a r2 ! sumpos t = r_a r1 ! sumpos t + term_at r1 t k"
    "\<And>j. j \<notin> {t_wit t..<t_wit t + wwidth t} \<Longrightarrow> post2 ! j = post1 ! j"
    "post2 ! ywit t k = (if r_c r1 ! ypos t k \<noteq> 0 then term_at r1 t k else post1 ! ywit t k)"
    "\<not> narrow t \<Longrightarrow> post2 ! xwit t k = - r_c r1 ! xpos t k"
    "\<And>i. i \<noteq> k \<Longrightarrow> post2 ! ywit t i = post1 ! ywit t i \<and> (\<not> narrow t \<longrightarrow> post2 ! xwit t i = post1 ! xwit t i)"
    using assms(2) unfolding st scaled_def split by simp_all
  have ys: "ypos t i \<noteq> sumpos t" if "i \<in> insert k I" for i using y_not_sum assms(5) that by blast
  have kI: "r_a r1 ! ypos t k = r_a r ! ypos t k" using A(5)[of "ypos t k"] assms(3) ys[of k] by (auto simp: image_iff)
  have tk: "term_at r1 t k = term_at r t k" using kI A(3) by (simp add: term_at_def)
  have rows: "r_a r2 ! ypos t i = ?T i" if "i \<in> insert k I" for i
    using that B(5)[OF ys[OF that]] B(6) A(3,6) kI tk by (cases "i = k") simp_all
  have wits: "post2 ! ywit t i = ?W i \<and> (\<not> narrow t \<longrightarrow> post2 ! xwit t i = - r_c r ! xpos t i)" if "i \<in> insert k I" for i
    using that B(9,10) B(11)[of i] A(3) A(9)[of i] A(10)[of k] assms(3) tk by (cases "i = k") simp_all
  have "r_a r2 ! sumpos t = r_a r ! sumpos t + (\<Sum>i\<in>insert k I. term_at r t i)"
    using A(7) B(7) tk assms(3,4) by simp
  then show ?thesis using A(1-5,8,10) B(1-5,8,11) rows wits unfolding st scaled_def split by simp
qed

lemma scaled_refl: "scaled t {} st st"
  by (cases st) (simp add: scaled_def)

lemma scaled_size: "scaled t I (r, post) (r', post') \<Longrightarrow> rows_size n r \<Longrightarrow> rows_size n r'"
  by (simp add: scaled_def rows_size_def)

lemma entries_scale_ok:
  assumes "rows_size n r" "sumpos t < n" "t_wit t + wwidth t \<le> length post" "k \<le> t_length t"
  shows "\<exists>st. opt_fold entry_scale (map (Pair t) [0..<k]) (r, post) = Some st \<and> scaled t {..<k} (r, post) st"
  using assms(4)
proof (induction k)
  case 0
  then show ?case by (simp add: scaled_refl)
next
  case (Suc k)
  then obtain r1 post1 where 1: "opt_fold entry_scale (map (Pair t) [0..<k]) (r, post) = Some (r1, post1)"
    "scaled t {..<k} (r, post) (r1, post1)" by (metis Suc_leD surj_pair)
  have s1: "rows_size n r1" using scaled_size[OF 1(2) assms(1)] .
  have w1: "t_wit t + wwidth t \<le> length post1" using 1(2) assms(3) by (simp add: scaled_def)
  obtain st where 2: "entry_scale (t, k) (r1, post1) = Some st" "scaled t {k} (r1, post1) st"
    using entry_scale_ok[OF s1 assms(2) w1, of k] Suc.prems by auto
  have "scaled t (insert k {..<k}) (r, post) st"
    by (rule scaled_trans[OF 1(2) 2(2)]) (use Suc.prems in auto)
  then show ?case using 1(1) 2(1) by (simp add: opt_fold_append lessThan_Suc)
qed

text \<open>What the loop leaves in the rows and the witness of a table.\<close>

definition table_done :: "'f::field rows \<Rightarrow> 'f rows \<times> 'f list \<Rightarrow> vm_table \<Rightarrow> bool" where
  "table_done r = (\<lambda>(r', post') t.
     r_a r' ! sumpos t = r_a r ! sumpos t + (\<Sum>i<t_length t. term_at r t i) \<and> r_b r' ! sumpos t = 1
     \<and> (\<forall>i<t_length t. r_a r' ! ypos t i = (if r_c r ! ypos t i \<noteq> 0 then term_at r t i else r_a r ! ypos t i)
         \<and> (r_c r ! ypos t i \<noteq> 0 \<longrightarrow> post' ! ywit t i = term_at r t i)
         \<and> (\<not> narrow t \<longrightarrow> r_a r' ! xpos t i = r_a r ! xpos t i \<and> post' ! xwit t i = - r_c r ! xpos t i)))"

definition fin_frame :: "nat set \<Rightarrow> nat set \<Rightarrow> nat set \<Rightarrow> 'f rows \<times> 'f list \<Rightarrow> 'f rows \<times> 'f list \<Rightarrow> bool" where
  "fin_frame C S W = (\<lambda>(r, post) (r', post'). length (r_a r') = length (r_a r) \<and> length (r_b r') = length (r_b r)
     \<and> length post' = length post \<and> r_c r' = r_c r \<and> (\<forall>j. j \<notin> S \<longrightarrow> r_b r' ! j = r_b r ! j)
     \<and> (\<forall>j. j \<notin> C \<longrightarrow> r_a r' ! j = r_a r ! j) \<and> (\<forall>j. j \<notin> W \<longrightarrow> post' ! j = post ! j))"

lemma fin_frame_refl [simp]: "fin_frame C S W st st"
  by (cases st) (simp add: fin_frame_def)

lemma fin_frame_trans: "fin_frame C S W st st1 \<Longrightarrow> fin_frame C S W st1 st2 \<Longrightarrow> fin_frame C S W st st2"
  by (simp add: fin_frame_def split: prod.splits)

lemma fin_frame_mono: "fin_frame C S W st st1 \<Longrightarrow> C \<subseteq> C' \<Longrightarrow> S \<subseteq> S' \<Longrightarrow> W \<subseteq> W' \<Longrightarrow> fin_frame C' S' W' st st1"
  by (auto simp: fin_frame_def split: prod.splits)

definition region :: "vm_table \<Rightarrow> nat set" where
  "region t = {t_cnst t..<t_cnst t + width t}"

definition wregion :: "vm_table \<Rightarrow> nat set" where
  "wregion t = {t_wit t..<t_wit t + wwidth t}"

lemma finish_table_entries:
  assumes "t_num_values t \<le> 1"
  shows "finish_table t st = do {
    (r, post) \<leftarrow> opt_fold entry_scale (map (Pair t) [0..<t_length t]) st;
    bs \<leftarrow> upd_opt (r_b r) (sumpos t) 1;
    Some (r\<lparr>r_b := bs\<rparr>, post) }"
proof (cases "narrow t")
  case True
  then show ?thesis by (simp add: finish_table_def opt_fold_map entry_scale_def pos_defs ywit_def narrow_def)
next
  case False
  then have "t_num_values t = 1" using assms by (simp add: narrow_def)
  then show ?thesis using False by (simp add: finish_table_def opt_fold_map entry_scale_def pos_defs narrow_def)
qed

lemma finish_table_ok:
  assumes "rows_size n r" "sumpos t < n" "t_wit t + wwidth t \<le> length post" "t_num_values t \<le> 1"
  shows "\<exists>st. finish_table t (r, post) = Some st \<and> table_done r st t \<and> fin_frame (region t) {sumpos t} (wregion t) (r, post) st"
proof -
  obtain r1 post1 where 1: "opt_fold entry_scale (map (Pair t) [0..<t_length t]) (r, post) = Some (r1, post1)"
    "scaled t {..<t_length t} (r, post) (r1, post1)"
    using entries_scale_ok[OF assms(1-3) order_refl] by (metis surj_pair)
  have s1: "rows_size n r1" using scaled_size[OF 1(2) assms(1)] .
  let ?st = "(r1\<lparr>r_b := (r_b r1)[sumpos t := 1]\<rparr>, post1)"
  have run: "finish_table t (r, post) = Some ?st"
    using 1(1) s1 assms(2,4) by (simp add: finish_table_entries rows_size_def upd_opt_def)
  have ne: "xpos t i \<notin> insert (sumpos t) (ypos t ` {..<t_length t})" if "\<not> narrow t" "i < t_length t" for i
    using that by (auto simp: pos_defs; presburger)
  have "table_done r ?st t" using 1(2) ne s1 assms(2) by (simp add: table_done_def scaled_def rows_size_def)
  moreover have "insert (sumpos t) (ypos t ` {..<t_length t}) \<subseteq> region t"
    by (auto simp: region_def pos_defs)
  then have "fin_frame (region t) {sumpos t} (wregion t) (r, post) ?st"
    using 1(2) unfolding fin_frame_def scaled_def wregion_def split by (simp; blast)
  ultimately show ?thesis using run by blast
qed

subsection \<open>All tables\<close>

lemma cells_in_region: "i < t_length t \<Longrightarrow> ypos t i \<in> region t" "i < t_length t \<Longrightarrow> xpos t i \<in> region t \<or> narrow t"
  "sumpos t \<in> region t"
  by (auto simp: region_def pos_defs)

lemma table_done_origin:
  assumes "r_c r1 = r_c r" "\<And>j. j \<in> region t \<Longrightarrow> r_a r1 ! j = r_a r ! j"
  shows "table_done r1 st t = table_done r st t"
proof -
  have y: "r_a r1 ! ypos t i = r_a r ! ypos t i \<and> term_at r1 t i = term_at r t i" if "i < t_length t" for i
    using assms cells_in_region(1)[OF that] by (simp add: term_at_def)
  have x: "r_a r1 ! xpos t i = r_a r ! xpos t i" if "i < t_length t" "\<not> narrow t" for i
    using assms(2) cells_in_region(2)[OF that(1)] that(2) by blast
  have "(\<Sum>i<t_length t. term_at r1 t i) = (\<Sum>i<t_length t. term_at r t i)" using y by (intro sum.cong) auto
  then show ?thesis using assms(1) assms(2)[OF cells_in_region(3)] x y by (cases st) (simp add: table_done_def)
qed

lemma table_done_frame:
  assumes d: "table_done r st1 t" and f: "fin_frame C S W st1 st2"
    and disj: "region t \<inter> C = {}" "sumpos t \<notin> S" "wregion t \<inter> W = {}"
  shows "table_done r st2 t"
proof -
  obtain r1 post1 r2 post2 where st: "st1 = (r1, post1)" "st2 = (r2, post2)" by (metis surj_pair)
  have a: "r_a r2 ! j = r_a r1 ! j" if "j \<in> region t" for j using f disj(1) that unfolding st fin_frame_def by auto
  have w: "post2 ! j = post1 ! j" if "j \<in> wregion t" for j using f disj(3) that unfolding st fin_frame_def by auto
  have "r_b r2 ! sumpos t = r_b r1 ! sumpos t" using f disj(2) unfolding st fin_frame_def by auto
  then show ?thesis
    using d a[OF cells_in_region(1)] a[OF cells_in_region(3)] cells_in_region(2)[of _ t] a
      w[unfolded wregion_def, OF wit_region(1)] w[unfolded wregion_def, OF wit_region(2)]
    unfolding st table_done_def split by metis
qed

lemma fin_frame_size: "fin_frame C S W (r, post) (r', post') \<Longrightarrow> rows_size n r \<Longrightarrow> rows_size n r'"
  by (simp add: fin_frame_def rows_size_def)

lemma finish_tables_ok:
  assumes "placed c w m ts" "rows_size n r" "c + widths ts \<le> n" "w + wwidths ts \<le> length post"
  shows "\<exists>st. opt_fold finish_table ts (r, post) = Some st \<and> (\<forall>t\<in>set ts. table_done r st t)
    \<and> fin_frame {c..<c + widths ts} (sumpos ` set ts) {w..<w + wwidths ts} (r, post) st"
  using assms
proof (induction ts arbitrary: c w m r post)
  case (Cons t ts)
  have pl: "t_cnst t = c" "t_wit t = w" "t_num_values t \<le> 1" "placed (c + width t) (w + wwidth t) (m + t_length t) ts"
    using Cons.prems(1) by simp_all
  have "sumpos t < n" "t_wit t + wwidth t \<le> length post" using Cons.prems(3,4) pl sumpos_region[of t] by auto
  from finish_table_ok[OF Cons.prems(2) this pl(3)] obtain r1 post1 where 1: "finish_table t (r, post) = Some (r1, post1)"
    "table_done r (r1, post1) t" "fin_frame (region t) {sumpos t} (wregion t) (r, post) (r1, post1)" by (metis surj_pair)
  have le: "c + width t + widths ts \<le> n" "w + wwidth t + wwidths ts \<le> length post1"
    using Cons.prems(3,4) 1(3) by (simp_all add: fin_frame_def)
  obtain st where 2: "opt_fold finish_table ts (r1, post1) = Some st" "\<forall>u\<in>set ts. table_done r1 st u"
    "fin_frame {c + width t..<c + width t + widths ts} (sumpos ` set ts) {w + wwidth t..<w + wwidth t + wwidths ts} (r1, post1) st"
    using Cons.IH[OF pl(4) fin_frame_size[OF 1(3) Cons.prems(2)] le] by blast
  have after: "c + width t \<le> t_cnst u" "w + wwidth t \<le> t_wit u" "sumpos t < sumpos u" if "u \<in> set ts" for u
    using placed_region[OF pl(4) that] placed_wit[OF pl(4) that] sumpos_region[of t] pl(1)
    by (auto simp: sumpos_def[of u])
  have ns: "sumpos t \<notin> sumpos ` set ts" using after(3) by fastforce
  have "table_done r st t"
    by (rule table_done_frame[OF 1(2) 2(3)]) (use ns pl in \<open>simp_all add: region_def wregion_def\<close>)
  moreover have "table_done r st u" if u: "u \<in> set ts" for u
  proof -
    have "r_c r1 = r_c r" using 1(3) by (simp add: fin_frame_def)
    moreover have "r_a r1 ! j = r_a r ! j" if "j \<in> region u" for j
      using 1(3) that after(1)[OF u] pl(1) unfolding fin_frame_def split region_def by auto
    ultimately show ?thesis using 2(2) u table_done_origin by metis
  qed
  moreover have "fin_frame {c..<c + widths (t # ts)} (sumpos ` set (t # ts)) {w..<w + wwidths (t # ts)} (r, post) st"
    by (rule fin_frame_trans[OF fin_frame_mono[OF 1(3)] fin_frame_mono[OF 2(3)]])
      (use pl in \<open>auto simp: region_def wregion_def\<close>)
  ultimately show ?case using 1(1) 2(1) by simp
qed simp

lemma placed_cover:
  "placed c w m ts \<Longrightarrow> c \<le> j \<Longrightarrow> j < c + widths ts \<Longrightarrow> \<exists>t\<in>set ts. j = sumpos t \<or> (\<exists>i<t_length t. j \<in> cells (t, i))"
proof (induction ts arbitrary: c w m)
  case (Cons t ts)
  show ?case
  proof (cases "c + width t \<le> j")
    case True
    then show ?thesis using Cons.IH[of "c + width t" "w + wwidth t" "m + t_length t"] Cons.prems by auto
  next
    case False
    then obtain d where d: "j = c + d" "d < width t" using Cons.prems(2) le_Suc_ex by force
    have "j = sumpos t \<or> (\<exists>i<t_length t. j \<in> cells (t, i))"
    proof (cases "narrow t")
      case True
      then show ?thesis using d Cons.prems(1) by (auto simp: pos_defs)
    next
      case False
      show ?thesis
      proof (cases "d = 2 * t_length t")
        case False
        then have "d div 2 < t_length t" "d = 2 * (d div 2) \<or> d = 2 * (d div 2) + 1" using d(2) \<open>\<not> narrow t\<close> by (auto simp: width_def)
        then show ?thesis using d Cons.prems(1) \<open>\<not> narrow t\<close> by (auto simp: pos_defs intro!: exI[of _ "d div 2"])
      qed (use d Cons.prems(1) False in \<open>simp add: pos_defs\<close>)
    qed
    then show ?thesis by simp
  qed
qed simp

end
