(* ===== verification/VM_Witgen.thy ===== *)
theory VM_Witgen
  imports VM_Finish
begin

text \<open>
  Phase two as a whole (\<^verbatim>\<open>run_phase2\<close> of \<^verbatim>\<open>vm/src/interpreter.rs\<close>): from vectors as phase one leaves them it
  computes rows that satisfy every constraint, among them that the sum of the inverses of a table weighted by their
  multiplicities is the sum of the inverses that the lookups of the table contribute.
\<close>

subsection \<open>What phase one leaves\<close>

definition p_rows :: "'f phase1 \<Rightarrow> 'f rows" where
  "p_rows p = \<lparr>r_a = p_a p, r_b = p_b p, r_c = p_c p\<rparr>"

lemma p_rows_simps [simp]: "r_a (p_rows p) = p_a p" "r_b (p_rows p) = p_b p" "r_c (p_rows p) = p_c p"
  by (simp_all add: p_rows_def)

text \<open>How often the lookups use entry \<open>i\<close> of table \<open>k\<close>.\<close>

definition uses :: "'f felt_repr \<Rightarrow> 'f tape_entry list \<Rightarrow> nat \<Rightarrow> nat \<Rightarrow> nat" where
  "uses F es k i = length (filter (\<lambda>e. (te_table e = k \<and> te_flag e \<noteq> 0) \<and> te_ix F e = i) es)"

definition wit_tables_start :: "witness_layout \<Rightarrow> nat" where
  "wit_tables_start wl = tables_data_start wl - challenges_start wl"

text \<open>Where phase one puts no data the rows are zero.\<close>

definition blank :: "constraints_layout \<Rightarrow> vm_table list \<Rightarrow> 'f::zero rows \<Rightarrow> bool" where
  "blank cl ts r \<longleftrightarrow> (\<forall>j. cl_tables_data_start cl \<le> j \<longrightarrow> j < cl_lookups_data_start cl \<longrightarrow> r_b r ! j = 0 \<and> r_c r ! j = 0
     \<and> ((\<forall>t\<in>set ts. \<forall>i<t_length t. narrow t \<or> j \<noteq> xpos t i) \<longrightarrow> r_a r ! j = 0))"

definition phase1_ok ::
  "'f::field felt_repr \<Rightarrow> witness_layout \<Rightarrow> constraints_layout \<Rightarrow> 'f tape_entry list \<Rightarrow> 'f phase1 \<Rightarrow> bool" where
  "phase1_ok F wl cl es p \<longleftrightarrow>
     rows_size (constraints_size cl) (p_rows p) \<and> length (p_pre p) = pre_commitment_size wl
     \<and> length (p_post p) = post_commitment_size wl
     \<and> placed (cl_tables_data_start cl) (wit_tables_start wl) (multiplicities_start wl) (p_tables p)
     \<and> widths (p_tables p) \<le> cl_tables_data_size cl \<and> wwidths (p_tables p) \<le> wl_tables_data_size wl
     \<and> lengths (p_tables p) \<le> wl_multiplicities_size wl
     \<and> on_tape F (p_tables p) (p_rows p) (cl_lookups_data_start cl) es
     \<and> lwidths (p_tables p) es = cl_lookups_data_size cl
     \<and> cl_lookups_data_size cl \<le> wl_lookups_data_size wl
     \<and> (\<forall>e\<in>set es. points_in F (p_tables p) e \<and> te_flag e \<in> {0, 1})
     \<and> (\<forall>k<length (p_tables p). \<forall>i<t_length (p_tables p ! k).
          mul_of (p_pre p) (p_tables p ! k) i = of_nat (uses F es k i))
     \<and> blank cl (p_tables p) (p_rows p)
     \<and> (\<forall>j<cl_algebraic_size cl. p_a p ! j * p_b p ! j = p_c p ! j)"

definition challenges_fit :: "witness_layout \<Rightarrow> vm_table list \<Rightarrow> 'f list \<Rightarrow> bool" where
  "challenges_fit wl ts cs \<longleftrightarrow> length cs = wl_challenges_size wl \<and> challenges_ok ts cs"

text \<open>No denominator of a table is zero, which is so but for few challenges.\<close>

definition table_dens :: "'f::field list \<Rightarrow> 'f list \<Rightarrow> vm_table \<Rightarrow> 'f list" where
  "table_dens as cs t = map (\<lambda>i. den_of (cs ! 0) (cs ! 1) t i (as ! xpos t i)) [0..<t_length t]"

definition dens_ok :: "vm_table list \<Rightarrow> 'f::field list \<Rightarrow> 'f list \<Rightarrow> bool" where
  "dens_ok ts as cs \<longleftrightarrow> list_all (\<lambda>t. 0 \<notin> set (table_dens as cs t)) ts"

subsection \<open>The sums\<close>

lemma weighted_sum:
  assumes "\<And>e. e \<in> set es \<Longrightarrow> P e \<Longrightarrow> f e < (n :: nat)"
  shows "(\<Sum>e\<leftarrow>es. if P e then g (f e) else 0) = (\<Sum>i<n. of_nat (length (filter (\<lambda>e. P e \<and> f e = i) es)) * (g i :: 'f::field))"
  using assms
proof (induction es)
  case (Cons e es)
  have ih: "(\<Sum>e\<leftarrow>es. if P e then g (f e) else 0) = (\<Sum>i<n. of_nat (length (filter (\<lambda>e. P e \<and> f e = i) es)) * g i)"
    using Cons by simp
  show ?case
  proof (cases "P e")
    case True
    have "(\<Sum>i<n. of_nat (length (filter (\<lambda>e. P e \<and> f e = i) (e # es))) * g i)
        = (\<Sum>i<n. (if i = f e then g i else 0) + of_nat (length (filter (\<lambda>e. P e \<and> f e = i) es)) * g i)"
      using True by (intro sum.cong) (auto simp: distrib_right)
    also have "\<dots> = g (f e) + (\<Sum>e\<leftarrow>es. if P e then g (f e) else 0)"
      using Cons.prems[of e] True by (simp add: sum.distrib ih sum.delta)
    finally show ?thesis using True by simp
  qed (simp add: ih)
qed simp

lemma uses_pos: "e \<in> set es \<Longrightarrow> te_flag e \<noteq> 0 \<Longrightarrow> 0 < uses F es (te_table e) (te_ix F e)"
  by (auto simp: uses_def filter_empty_conv)

lemma uses_le: "uses F es k i \<le> length es"
  by (simp add: uses_def)

lemma length_le_lwidths: "length es \<le> lwidths ts es"
proof (induction es)
  case (Cons e es)
  then show ?case using lwidth_pos[of ts e] by simp
qed simp

subsection \<open>The rows of the lookups\<close>

lemma lookups_rows:
  assumes "lookups_done F alpha beta ts r0 r post c w es" "\<forall>e\<in>set es. te_flag e \<in> {0, 1}"
    "\<forall>e\<in>set es. te_flag e \<noteq> 0 \<longrightarrow> r_a r0 ! ypos (ts ! te_table e) (te_ix F e) * r_b r0 ! ypos (ts ! te_table e) (te_ix F e) = 1"
    "c \<le> j" "j < c + lwidths ts es"
  shows "r_a r ! j * r_b r ! j = r_c r ! j"
  using assms
proof (induction es arbitrary: c w)
  case (Cons e es)
  have key: "r_a r ! d * r_b r ! d = r_c r ! d" if "key_done F alpha beta ts r0 r post d v e" for d v
    using that Cons.prems(2,3) by (cases "te_flag e = 0") (auto simp: key_done_def Let_def)
  show ?case
  proof (cases "c + lwidth ts e \<le> j")
    case True
    then show ?thesis using Cons.IH[of "c + lwidth ts e" "w + lwidth ts e"] Cons.prems by (simp add: add.assoc)
  next
    case False
    then have "j = c \<or> \<not> narrow (ts ! te_table e) \<and> j = c + 1"
      using Cons.prems(4) by (auto simp: lwidth_def split: if_splits)
    then show ?thesis using Cons.prems(1) key by (auto simp: lookup_done_def split: if_splits)
  qed
qed simp

subsection \<open>Where the tables lie\<close>

lemma entries_ofE: "q \<in> set (entries_of ts) \<Longrightarrow> \<exists>u i. q = (u, i) \<and> u \<in> set ts \<and> i < t_length u"
  by (cases q) (simp add: set_entries_of)

lemma placed_regions:
  "placed c w m ts \<Longrightarrow> t \<in> set ts \<Longrightarrow> u \<in> set ts \<Longrightarrow> j \<in> region t \<Longrightarrow> j \<in> region u \<Longrightarrow> t = u"
proof (induction ts arbitrary: c w m)
  case (Cons v ts)
  have pl: "placed (c + width v) (w + wwidth v) (m + t_length v) ts" "t_cnst v = c" using Cons.prems(1) by simp_all
  have "j \<notin> region v" if "x \<in> set ts" "j \<in> region x" for x
    using placed_region[OF pl(1) that(1)] that(2) pl(2) by (auto simp: region_def)
  then show ?case using Cons.IH[OF pl(1)] Cons.prems(2-5) by auto
qed simp

lemma placed_sums_inj:
  "placed c w m ts \<Longrightarrow> j < length ts \<Longrightarrow> k < length ts \<Longrightarrow> sumpos (ts ! j) = sumpos (ts ! k) \<Longrightarrow> j = k"
proof (induction ts arbitrary: c w m j k)
  case (Cons v ts)
  have pl: "placed (c + width v) (w + wwidth v) (m + t_length v) ts" "t_cnst v = c" using Cons.prems(1) by simp_all
  have ne: "sumpos (ts ! i) \<noteq> sumpos v" if "i < length ts" for i
    using placed_region[OF pl(1) nth_mem[OF that]] sumpos_region[of v] pl(2) by (auto simp: sumpos_def[of "ts ! i"])
  then show ?case using Cons.IH[OF pl(1)] Cons.prems(2-4)
    by (cases j; cases k) (use ne in fastforce)+
qed simp

lemma y_not_any_sum:
  "placed c w m ts \<Longrightarrow> t \<in> set ts \<Longrightarrow> i < t_length t \<Longrightarrow> u \<in> set ts \<Longrightarrow> ypos t i \<noteq> sumpos u"
  by (metis cells_in_region(1,3) placed_regions y_not_sum)

lemma cells_sub: "i < t_length t \<Longrightarrow> cells (t, i) \<subseteq> region t"
  using cells_in_region(1,2) by auto

lemma x_not_sum: "i < t_length t \<Longrightarrow> \<not> narrow t \<Longrightarrow> xpos t i \<noteq> sumpos t"
  by (simp add: pos_defs)

lemma x_not_any_sum:
  "placed c w m ts \<Longrightarrow> t \<in> set ts \<Longrightarrow> i < t_length t \<Longrightarrow> \<not> narrow t \<Longrightarrow> u \<in> set ts \<Longrightarrow> xpos t i \<noteq> sumpos u"
  by (metis cells_in_region(2,3) placed_regions x_not_sum)

lemma x_not_any_y:
  assumes "placed c w m ts" "t \<in> set ts" "i < t_length t" "\<not> narrow t" "u \<in> set ts" "k < t_length u"
  shows "xpos t i \<noteq> ypos u k"
proof
  assume e: "xpos t i = ypos u k"
  then have "t = u" using placed_regions[OF assms(1,2,5)] cells_in_region(1)[OF assms(6)] cells_in_region(2)[OF assms(3)] assms(4) by metis
  then show False using e assms(4) by (simp add: pos_defs) presburger
qed

subsection \<open>The run\<close>

lemma put_challenges:
  "k + length cs \<le> length post \<Longrightarrow>
   opt_fold (\<lambda>(i, c) post. upd_opt post i c) (enumerate k cs) post = Some (take k post @ cs @ drop (k + length cs) post)"
proof (induction cs arbitrary: k post)
  case (Cons c cs)
  have "opt_fold (\<lambda>(i, c) post. upd_opt post i c) (enumerate (Suc k) cs) (post[k := c])
      = Some (take (Suc k) (post[k := c]) @ cs @ drop (Suc k + length cs) (post[k := c]))"
    using Cons.prems by (intro Cons.IH) simp
  moreover have "take (Suc k) (post[k := c]) = take k post @ [c]" using Cons.prems by (simp add: take_Suc_conv_app_nth)
  ultimately show ?case using Cons.prems by (simp add: upd_opt_def)
qed simp

lemma den_cong: "challenges_ok ts cs \<Longrightarrow> t \<in> set ts \<Longrightarrow> den_of ((cs @ ds) ! 0) ((cs @ ds) ! 1) t i v = den_of (cs ! 0) (cs ! 1) t i v"
  by (cases "narrow t") (auto simp: den_of_def challenges_ok_def wide_in_def nth_append)

text \<open>The stages of a run: after the inversion, after the lookups, at the end.\<close>

definition stages ::
  "'f::field felt_repr \<Rightarrow> witness_layout \<Rightarrow> constraints_layout \<Rightarrow> 'f tape_entry list \<Rightarrow> 'f phase1 \<Rightarrow> 'f list
     \<Rightarrow> 'f rows \<Rightarrow> 'f rows \<times> 'f list \<Rightarrow> 'f rows \<times> 'f list \<Rightarrow> bool" where
  "stages F wl cl es p post r2 st3 st4 \<longleftrightarrow> (let ts = p_tables p; L = cl_lookups_data_start cl; C = cl_tables_data_start cl;
       N = cl_lookups_data_size cl; W = lookups_data_start wl - challenges_start wl; V = wit_tables_start wl in
     rows_size (constraints_size cl) r2 \<and> agree (- (\<Union>q\<in>set (entries_of ts). cells q)) (p_rows p) r2
     \<and> (\<forall>t\<in>set ts. \<forall>i<t_length t. entry_done (p_pre p) (post ! 0) (post ! 1) (p_rows p) r2 t i)
     \<and> lk_frame {L..<L + N} {W..<W + N} (sumpos ` set ts) (r2, post) st3
     \<and> lookups_done F (post ! 0) (post ! 1) ts r2 (fst st3) (snd st3) L W es
     \<and> (\<forall>k<length ts. r_c (fst st3) ! sumpos (ts ! k) = r_c r2 ! sumpos (ts ! k) + counted F ts r2 es k)
     \<and> (\<forall>t\<in>set ts. table_done (fst st3) st4 t)
     \<and> fin_frame {C..<C + widths ts} (sumpos ` set ts) {V..<V + wwidths ts} st3 st4)"

lemma run_phase2_stages:
  assumes p: "phase1_ok F wl cl es p" and cs: "challenges_fit wl (p_tables p) cs" and d: "dens_ok (p_tables p) (p_a p) cs"
  shows "\<exists>post r2 st3 st4. post = cs @ drop (length cs) (p_post p) \<and> stages F wl cl es p post r2 st3 st4
    \<and> run_phase2 F p cs wl cl = Some \<lparr>w_pre = p_pre p, w_post = snd st4, w_rows = fst st4\<rparr>"
proof -
  let ?ts = "p_tables p" and ?L = "cl_lookups_data_start cl" and ?C = "cl_tables_data_start cl" and ?n = "constraints_size cl"
  let ?N = "cl_lookups_data_size cl" and ?W = "lookups_data_start wl - challenges_start wl" and ?V = "wit_tables_start wl"
  define post where post: "post = cs @ drop (length cs) (p_post p)"
  have lp: "length (p_post p) = post_commitment_size wl" and sz: "rows_size ?n (p_rows p)"
    and pl: "placed ?C ?V (multiplicities_start wl) ?ts"
    and w: "widths ?ts \<le> cl_tables_data_size cl" "wwidths ?ts \<le> wl_tables_data_size wl" "lengths ?ts \<le> wl_multiplicities_size wl"
    and pre: "length (p_pre p) = pre_commitment_size wl"
    and tape: "on_tape F ?ts (p_rows p) ?L es" "lwidths ?ts es = ?N" "?N \<le> wl_lookups_data_size wl"
    and es: "\<forall>e\<in>set es. points_in F ?ts e"
    using p by (simp_all add: phase1_ok_def)
  have ln: "length cs = wl_challenges_size wl" and co: "challenges_ok ?ts cs" using cs by (simp_all add: challenges_fit_def)
  have lpost: "length post = post_commitment_size wl" using lp ln by (simp add: post post_commitment_size_def)
  have put: "opt_fold (\<lambda>(i, c) post. upd_opt post i c) (enumerate 0 cs) (p_post p) = Some post"
    using put_challenges[of 0 cs "p_post p"] lp ln by (simp add: post post_commitment_size_def)
  have ch: "challenges_ok ?ts post" using co by (auto simp: challenges_ok_def post)
  have pos: "?W = wl_challenges_size wl + wl_tables_data_size wl" "?V = wl_challenges_size wl" "?L = ?C + cl_tables_data_size cl"
    "?n = ?L + ?N"
    by (simp_all add: layout_defs wit_tables_start_def cl_lookups_data_start_def cl_tables_data_start_def constraints_size_def)
  have dens: "den_of (post ! 0) (post ! 1) t i (r_a (p_rows p) ! xpos t i) \<noteq> 0" if "t \<in> set ?ts" "i < t_length t" for t i
  proof -
    have "den_of (cs ! 0) (cs ! 1) t i (p_a p ! xpos t i) \<in> set (table_dens (p_a p) cs t)" using that(2) by (simp add: table_dens_def)
    then have "den_of (cs ! 0) (cs ! 1) t i (p_a p ! xpos t i) \<noteq> 0" using d that(1) by (auto simp: dens_ok_def list_all_iff)
    then show ?thesis using den_cong[OF co that(1)] by (simp add: post)
  qed
  have cn: "?C + widths ?ts \<le> ?n" "multiplicities_start wl + lengths ?ts \<le> length (p_pre p)"
    using w pos pre by (simp_all add: pre_commitment_size_def multiplicities_start_def algebraic_end_def)
  obtain r1 P r2 where 1: "opt_fold (fill_table (p_pre p) post) ?ts (p_rows p, 1) = Some (r1, P)" "P \<noteq> 0"
    "opt_fold invert_table (rev ?ts) (r1, inverse P) = Some (r2, 1)" "rows_size ?n r2"
    "agree (- (\<Union>q\<in>set (entries_of ?ts). cells q)) (p_rows p) r2"
    "\<forall>t\<in>set ?ts. \<forall>i<t_length t. entry_done (p_pre p) (post ! 0) (post ! 1) (p_rows p) r2 t i"
    using inverses[OF pl sz cn ch dens] by blast
  have before: "j \<notin> cells q" if "?L \<le> j" "q \<in> set (entries_of ?ts)" for j q
    using that cells_region[of "snd q" "fst q" j] placed_region[OF pl, of "fst q"] w(1) pos(3)
    by (cases q) (fastforce simp: set_entries_of simp del: cells.simps)
  have "agree {?L..<?L + lwidths ?ts es} (p_rows p) r2" by (rule agree_mono[OF 1(5)]) (use before in auto)
  then have tape2: "on_tape F ?ts r2 (?L + 0) es" using on_tape_cong tape(1) by fastforce
  have tabs: "\<forall>t\<in>set ?ts. t_num_values t \<le> 1 \<and> sumpos t < ?L"
    using placed_region[OF pl] placed_num[OF pl] w(1) pos(3) by fastforce
  have al: "0 < ?W \<and> post ! 0 = post ! 0" if "?ts \<noteq> []"
    using that co pos(1) ln[symmetric] by (simp add: challenges_ok_def)
  have be: "1 < ?W \<and> post ! 1 = post ! 1" if "wide_in ?ts" using that co ln pos(1) by (auto simp: challenges_ok_def)
  have b: "0 + lwidths ?ts es = ?N" "?L + ?N \<le> ?n" "?W + ?N \<le> length post"
    using tape lpost pos by (simp_all add: post_commitment_size_def)
  note loop = lookup_loop_ok[where off = 0, OF 1(4) tape2 es b(1) refl refl b(2,3) tabs placed_sums_inj[OF pl] al be]
  obtain r3 post3 where 2: "lookup_loop F ?ts wl cl 0 (r2, post) = Some (r3, post3)"
    "lk_frame {?L..<?L + ?N} {?W..<?W + ?N} (sumpos ` set ?ts) (r2, post) (r3, post3)"
    "lookups_done F (post ! 0) (post ! 1) ?ts r2 r3 post3 ?L ?W es"
    "\<forall>k<length ?ts. r_c r3 ! sumpos (?ts ! k) = r_c r2 ! sumpos (?ts ! k) + counted F ?ts r2 es k"
    using loop[unfolded add_0_right] by blast
  have "rows_size ?n r3" "?V + wwidths ?ts \<le> length post3"
    using 2(2) 1(4) w(2) lpost pos(2) by (simp_all add: lk_frame_def post_commitment_size_def)
  from finish_tables_ok[OF pl this(1) cn(1) this(2)] obtain st4 where 3: "opt_fold finish_table ?ts (r3, post3) = Some st4"
    "\<forall>t\<in>set ?ts. table_done r3 st4 t" "fin_frame {?C..<?C + widths ?ts} (sumpos ` set ?ts) {?V..<?V + wwidths ?ts} (r3, post3) st4"
    by blast
  have "run_phase2 F p cs wl cl = Some \<lparr>w_pre = p_pre p, w_post = snd st4, w_rows = fst st4\<rparr>"
    using put 1(1-3) 2(1) 3(1) by (simp add: run_phase2_def p_rows_def split: prod.splits)
  moreover have "stages F wl cl es p post r2 (r3, post3) st4"
    using 1(4-6) 2(2-4) 3(2,3) by (simp add: stages_def Let_def)
  ultimately show ?thesis using post by blast
qed

subsection \<open>The rows hold\<close>

definition row_holds :: "'f::field rows \<Rightarrow> nat \<Rightarrow> bool" where
  "row_holds r j \<longleftrightarrow> r_a r ! j * r_b r ! j = r_c r ! j"

lemma row_holds_cong:
  "r_a r' ! j = r_a r ! j \<Longrightarrow> r_b r' ! j = r_b r ! j \<Longrightarrow> r_c r' ! j = r_c r ! j \<Longrightarrow> row_holds r' j = row_holds r j"
  by (simp add: row_holds_def)

definition den_at :: "'f::field phase1 \<Rightarrow> 'f list \<Rightarrow> vm_table \<Rightarrow> nat \<Rightarrow> 'f" where
  "den_at p post t i = den_of (post ! 0) (post ! 1) t i (p_a p ! xpos t i)"

lemma den_at_nonzero:
  assumes "challenges_fit wl (p_tables p) cs" "dens_ok (p_tables p) (p_a p) cs" "t \<in> set (p_tables p)" "i < t_length t"
  shows "den_at p (cs @ ds) t i \<noteq> 0"
proof -
  have "den_at p (cs @ ds) t i = den_of (cs ! 0) (cs ! 1) t i (p_a p ! xpos t i)"
    unfolding den_at_def 
    by (rule den_cong[of "p_tables p"]) (use assms(1,3) in \<open>simp_all add: challenges_fit_def\<close>)
  moreover have "\<dots> \<in> set (table_dens (p_a p) cs t)" using assms(4) by (simp add: table_dens_def)
  ultimately show ?thesis using assms(2,3) by (auto simp: dens_ok_def list_all_iff)
qed

lemma stagesD:
  assumes "stages F wl cl es p post r2 (r3, post3) (r4, post4)"
  shows "rows_size (constraints_size cl) r2" "agree (- (\<Union>q\<in>set (entries_of (p_tables p)). cells q)) (p_rows p) r2"
    "t \<in> set (p_tables p) \<Longrightarrow> i < t_length t \<Longrightarrow> entry_done (p_pre p) (post ! 0) (post ! 1) (p_rows p) r2 t i"
    "lk_frame {cl_lookups_data_start cl..<constraints_size cl}
       {lookups_data_start wl - challenges_start wl..<lookups_data_start wl - challenges_start wl + cl_lookups_data_size cl}
       (sumpos ` set (p_tables p)) (r2, post) (r3, post3)"
    "lookups_done F (post ! 0) (post ! 1) (p_tables p) r2 r3 post3 (cl_lookups_data_start cl)
       (lookups_data_start wl - challenges_start wl) es"
    "k < length (p_tables p) \<Longrightarrow>
       r_c r3 ! sumpos (p_tables p ! k) = r_c r2 ! sumpos (p_tables p ! k) + counted F (p_tables p) r2 es k"
    "t \<in> set (p_tables p) \<Longrightarrow> table_done r3 (r4, post4) t"
    "fin_frame {cl_tables_data_start cl..<cl_tables_data_start cl + widths (p_tables p)} (sumpos ` set (p_tables p))
       {wit_tables_start wl..<wit_tables_start wl + wwidths (p_tables p)} (r3, post3) (r4, post4)"
  using assms by (simp_all add: stages_def Let_def constraints_size_def cl_lookups_data_start_def)

lemma phase1_okD:
  assumes "phase1_ok F wl cl es p"
  shows "placed (cl_tables_data_start cl) (wit_tables_start wl) (multiplicities_start wl) (p_tables p)"
    "lwidths (p_tables p) es = cl_lookups_data_size cl"
    "e \<in> set es \<Longrightarrow> points_in F (p_tables p) e" "e \<in> set es \<Longrightarrow> te_flag e \<in> {0, 1}"
    "on_tape F (p_tables p) (p_rows p) (cl_lookups_data_start cl) es"
    "k < length (p_tables p) \<Longrightarrow> i < t_length (p_tables p ! k) \<Longrightarrow> mul_of (p_pre p) (p_tables p ! k) i = of_nat (uses F es k i)"
    "blank cl (p_tables p) (p_rows p)" "j < cl_algebraic_size cl \<Longrightarrow> p_a p ! j * p_b p ! j = p_c p ! j"
  using assms by (simp_all add: phase1_ok_def)

text \<open>The rows of the tables come before those of the lookups.\<close>

lemma phase1_region:
  assumes "phase1_ok F wl cl es p" "t \<in> set (p_tables p)" "j \<in> region t"
  shows "cl_tables_data_start cl \<le> j" "j < cl_tables_data_start cl + widths (p_tables p)" "j < cl_lookups_data_start cl"
proof -
  have "widths (p_tables p) \<le> cl_tables_data_size cl" using assms(1) by (simp add: phase1_ok_def)
  then show "cl_tables_data_start cl \<le> j" "j < cl_tables_data_start cl + widths (p_tables p)" "j < cl_lookups_data_start cl"
    using placed_region[OF phase1_okD(1)[OF assms(1)] assms(2)] sumpos_region[of t] assms(3)
    by (auto simp: region_def cl_lookups_data_start_def cl_tables_data_start_def)
qed

lemma stages_entry:
  assumes st: "stages F wl cl es p post r2 (r3, post3) (r4, post4)" and p: "phase1_ok F wl cl es p"
    and ti: "t \<in> set (p_tables p)" "i < t_length t"
  shows "r_a r2 ! ypos t i = (if mul_of (p_pre p) t i \<noteq> 0 then inverse (den_at p post t i) else 0)"
    "r_b r2 ! ypos t i = den_at p post t i" "r_c r2 ! ypos t i = mul_of (p_pre p) t i"
    "r_b r4 ! ypos t i = r_b r2 ! ypos t i" "r_c r4 ! ypos t i = r_c r2 ! ypos t i"
    "r_a r3 ! ypos t i = r_a r2 ! ypos t i" "r_c r3 ! ypos t i = r_c r2 ! ypos t i"
proof -
  note pl = phase1_okD(1)[OF p]
  note reg = phase1_region[OF p ti(1) cells_in_region(1)[OF ti(2)]]
  have "\<forall>u\<in>set (p_tables p). \<forall>k<t_length u. narrow u \<or> ypos t i \<noteq> xpos u k" using x_not_any_y[OF pl] ti by metis
  then have "p_a p ! ypos t i = 0" using phase1_okD(7)[OF p] reg by (auto simp: blank_def)
  then show "r_a r2 ! ypos t i = (if mul_of (p_pre p) t i \<noteq> 0 then inverse (den_at p post t i) else 0)"
    "r_b r2 ! ypos t i = den_at p post t i" "r_c r2 ! ypos t i = mul_of (p_pre p) t i"
    using stagesD(3)[OF st ti] by (simp_all add: entry_done_def Let_def den_at_def)
  have "ypos t i \<notin> sumpos ` set (p_tables p)" using y_not_any_sum[OF pl ti] by auto
  then show "r_b r4 ! ypos t i = r_b r2 ! ypos t i" "r_c r4 ! ypos t i = r_c r2 ! ypos t i"
    "r_a r3 ! ypos t i = r_a r2 ! ypos t i" "r_c r3 ! ypos t i = r_c r2 ! ypos t i"
    using stagesD(4,8)[OF st] reg(3) by (simp_all add: lk_frame_def fin_frame_def)
qed

lemma stages_y_row:
  assumes st: "stages F wl cl es p post r2 (r3, post3) (r4, post4)" and p: "phase1_ok F wl cl es p"
    and ti: "t \<in> set (p_tables p)" "i < t_length t" and den: "den_at p post t i \<noteq> 0"
  shows "row_holds r4 (ypos t i)" "term_at r3 t i = mul_of (p_pre p) t i * inverse (den_at p post t i)"
proof -
  note e = stages_entry[OF st p ti]
  show "term_at r3 t i = mul_of (p_pre p) t i * inverse (den_at p post t i)" using e by (simp add: term_at_def)
  then show "row_holds r4 (ypos t i)"
    using e den stagesD(7)[OF st ti(1)] ti(2) by (simp add: row_holds_def table_done_def)
qed

lemma stages_x_row:
  assumes st: "stages F wl cl es p post r2 (r3, post3) (r4, post4)" and p: "phase1_ok F wl cl es p"
    and ti: "t \<in> set (p_tables p)" "i < t_length t" and w: "\<not> narrow t"
  shows "row_holds r4 (xpos t i)"
proof -
  have "xpos t i \<in> region t" using cells_in_region(2)[OF ti(2)] w by simp
  note reg = phase1_region[OF p ti(1) this]
  have "xpos t i \<notin> sumpos ` set (p_tables p)" using x_not_any_sum[OF phase1_okD(1)[OF p] ti w] by auto
  then have "r_b r4 ! xpos t i = r_b r2 ! xpos t i" "r_c r4 ! xpos t i = r_c r2 ! xpos t i" "r_a r3 ! xpos t i = r_a r2 ! xpos t i"
    using stagesD(4,8)[OF st] reg(3) by (simp_all add: lk_frame_def fin_frame_def)
  then show ?thesis using stagesD(3)[OF st ti] stagesD(7)[OF st ti(1)] ti(2) w
    by (simp add: row_holds_def entry_done_def Let_def table_done_def)
qed

text \<open>The sum of a table: what its entries add on the left is what its lookups add on the right.\<close>

lemma stages_sum_row:
  assumes st: "stages F wl cl es p post r2 (r3, post3) (r4, post4)" and p: "phase1_ok F wl cl es p"
    and k: "k < length (p_tables p)"
    and char: "\<And>i. i < t_length (p_tables p ! k) \<Longrightarrow> 0 < uses F es k i \<Longrightarrow> (of_nat (uses F es k i) :: 'f::field) \<noteq> 0"
    and den: "\<And>i. i < t_length (p_tables p ! k) \<Longrightarrow> den_at p post (p_tables p ! k) i \<noteq> 0"
  shows "row_holds (r4 :: 'f rows) (sumpos (p_tables p ! k))"
proof -
  let ?t = "p_tables p ! k" and ?P = "\<lambda>e. te_table e = k \<and> te_flag e \<noteq> 0"
  have t: "?t \<in> set (p_tables p)" using k by simp
  note reg = phase1_region[OF p t cells_in_region(3)]
  have "\<forall>u\<in>set (p_tables p). \<forall>i<t_length u. narrow u \<or> sumpos ?t \<noteq> xpos u i"
    using x_not_any_sum[OF phase1_okD(1)[OF p]] t by metis
  then have z: "p_a p ! sumpos ?t = 0" "p_c p ! sumpos ?t = 0" using phase1_okD(7)[OF p] reg by (auto simp: blank_def)
  have nc: "sumpos ?t \<notin> cells q" if q: "q \<in> set (entries_of (p_tables p))" for q
  proof -
    obtain u i where u: "q = (u, i)" "u \<in> set (p_tables p)" "i < t_length u" using entries_ofE[OF q] by blast
    then show ?thesis using y_not_any_sum[OF phase1_okD(1)[OF p] u(2,3) t] x_not_any_sum[OF phase1_okD(1)[OF p] u(2,3) _ t]
      by auto
  qed
  then have r2: "r_a r2 ! sumpos ?t = 0" "r_c r2 ! sumpos ?t = 0" using stagesD(2)[OF st] z by (auto simp: agree_def)
  have "r_a r3 ! sumpos ?t = 0" using stagesD(4)[OF st] reg(3) r2(1) by (simp add: lk_frame_def)
  then have a: "r_a r4 ! sumpos ?t = (\<Sum>i<t_length ?t. of_nat (uses F es k i) * inverse (den_at p post ?t i))"
    and b: "r_b r4 ! sumpos ?t = 1"
    using stagesD(7)[OF st t] stages_y_row(2)[OF st p t _ den] phase1_okD(6)[OF p k] by (simp_all add: table_done_def)
  have val: "r_a r2 ! ypos ?t (te_ix F e) = inverse (den_at p post ?t (te_ix F e))" if e: "e \<in> set es" "?P e" for e
  proof -
    have ix: "te_ix F e < t_length ?t" using phase1_okD(3)[OF p e(1)] e(2) by (auto simp: points_in_def)
    have "0 < uses F es k (te_ix F e)" using uses_pos[OF e(1)] e(2) by auto
    then show ?thesis using stages_entry(1)[OF st p t ix] phase1_okD(6)[OF p k ix] char[OF ix] by simp
  qed
  have "counted F (p_tables p) r2 es k = (\<Sum>e\<leftarrow>es. if ?P e then inverse (den_at p post ?t (te_ix F e)) else 0)"
    unfolding counted_def using val by (intro arg_cong[of _ _ sum_list] map_cong) auto
  also have "\<dots> = (\<Sum>i<t_length ?t. of_nat (uses F es k i) * inverse (den_at p post ?t i))"
    unfolding uses_def using phase1_okD(3)[OF p] by (intro weighted_sum) (auto simp: points_in_def)
  finally have "r_c r3 ! sumpos ?t = (\<Sum>i<t_length ?t. of_nat (uses F es k i) * inverse (den_at p post ?t i))"
    using stagesD(6)[OF st k] r2(2) by simp
  then show ?thesis using a b stagesD(8)[OF st] by (simp add: row_holds_def fin_frame_def)
qed

lemma stages_lookup_row:
  assumes st: "stages F wl cl es p post r2 (r3, post3) (r4, post4)" and p: "phase1_ok F wl cl es p"
    and char: "\<And>n. 0 < n \<Longrightarrow> n \<le> cl_lookups_data_size cl \<Longrightarrow> (of_nat n :: 'f::field) \<noteq> 0"
    and den: "\<And>t i. t \<in> set (p_tables p) \<Longrightarrow> i < t_length t \<Longrightarrow> den_at p post t i \<noteq> 0"
    and j: "cl_lookups_data_start cl \<le> j" "j < constraints_size cl"
  shows "row_holds (r4 :: 'f rows) j"
proof -
  have hit: "r_a r2 ! ypos (p_tables p ! te_table e) (te_ix F e) * r_b r2 ! ypos (p_tables p ! te_table e) (te_ix F e) = 1"
    if e: "e \<in> set es" "te_flag e \<noteq> 0" for e
  proof -
    let ?k = "te_table e" and ?i = "te_ix F e"
    have k: "?k < length (p_tables p)" using on_tape_tables[OF phase1_okD(5)[OF p] e(1)] .
    have ix: "?i < t_length (p_tables p ! ?k)" using phase1_okD(3)[OF p e(1)] e(2) by (simp add: points_in_def)
    have "uses F es ?k ?i \<le> cl_lookups_data_size cl"
      using uses_le[of F es ?k ?i] length_le_lwidths[of es "p_tables p"] phase1_okD(2)[OF p] by linarith
    then have "mul_of (p_pre p) (p_tables p ! ?k) ?i \<noteq> 0" using char uses_pos[OF e] phase1_okD(6)[OF p k ix] by simp
    then show ?thesis using stages_entry(1,2)[OF st p nth_mem[OF k] ix] den[OF nth_mem[OF k] ix] by simp
  qed
  have "row_holds r3 j" unfolding row_holds_def
    by (rule lookups_rows[OF stagesD(5)[OF st]])
      (use hit j phase1_okD(2,4)[OF p] in \<open>auto simp: constraints_size_def cl_lookups_data_start_def\<close>)
  moreover have "j \<notin> region t" if "t \<in> set (p_tables p)" for t using phase1_region[OF p that] j(1) by (metis linorder_not_le)
  then have "j \<notin> sumpos ` set (p_tables p)" using cells_in_region(3) by blast
  moreover have "cl_tables_data_start cl + widths (p_tables p) \<le> j"
    using p j(1) by (simp add: phase1_ok_def cl_lookups_data_start_def cl_tables_data_start_def)
  ultimately show ?thesis using stagesD(8)[OF st] by (simp add: row_holds_def fin_frame_def)
qed

lemma stages_other_row:
  assumes st: "stages F wl cl es p post r2 (r3, post3) (r4, post4)" and p: "phase1_ok F wl cl es p"
    and j: "j < cl_lookups_data_start cl" "\<forall>t\<in>set (p_tables p). j \<notin> region t"
  shows "r_a r4 ! j = p_a p ! j" "r_b r4 ! j = p_b p ! j" "r_c r4 ! j = p_c p ! j"
proof -
  have ns: "j \<notin> sumpos ` set (p_tables p)" using j(2) cells_in_region(3) by blast
  have nc: "j \<notin> cells q" if q: "q \<in> set (entries_of (p_tables p))" for q
  proof -
    obtain u i where u: "q = (u, i)" "u \<in> set (p_tables p)" "i < t_length u" using entries_ofE[OF q] by blast
    have "cells (u, i) \<subseteq> region u" using cells_sub[OF u(3)] .
    then show ?thesis using j(2) u by auto
  qed
  have out: "j \<notin> {cl_tables_data_start cl..<cl_tables_data_start cl + widths (p_tables p)}"
  proof
    assume "j \<in> {cl_tables_data_start cl..<cl_tables_data_start cl + widths (p_tables p)}"
    then obtain t where "t \<in> set (p_tables p)" "j = sumpos t \<or> (\<exists>i<t_length t. j \<in> cells (t, i))"
      using placed_cover[OF phase1_okD(1)[OF p], of j] by auto
    then show False using j(2) cells_in_region(3) cells_sub by blast
  qed
  have "r_a r2 ! j = p_a p ! j \<and> r_b r2 ! j = p_b p ! j \<and> r_c r2 ! j = p_c p ! j"
    using stagesD(2)[OF st] nc by (auto simp: agree_def)
  moreover have "r_a r3 ! j = r_a r2 ! j \<and> r_b r3 ! j = r_b r2 ! j \<and> r_c r3 ! j = r_c r2 ! j"
    using stagesD(4)[OF st] j(1) ns by (simp add: lk_frame_def)
  ultimately show "r_a r4 ! j = p_a p ! j" "r_b r4 ! j = p_b p ! j" "r_c r4 ! j = p_c p ! j"
    using stagesD(8)[OF st] ns out by (simp_all add: fin_frame_def)
qed

lemma phase2_rows:
  assumes p: "phase1_ok F wl cl es p" and cs: "challenges_fit wl (p_tables p) cs" and d: "dens_ok (p_tables p) (p_a p) cs"
    and char: "\<And>n. 0 < n \<Longrightarrow> n \<le> cl_lookups_data_size cl \<Longrightarrow> (of_nat n :: 'f::field) \<noteq> 0"
  shows "\<exists>g. run_phase2 F p cs wl cl = Some g \<and> w_pre g = p_pre p \<and> rows_size (constraints_size cl) (w_rows g)
    \<and> take (length cs) (w_post g) = cs \<and> (\<forall>j<constraints_size cl. row_holds (w_rows g :: 'f rows) j)"
proof -
  obtain r2 st3 st4 where st: "stages F wl cl es p (cs @ drop (length cs) (p_post p)) r2 st3 st4"
    and run: "run_phase2 F p cs wl cl = Some \<lparr>w_pre = p_pre p, w_post = snd st4, w_rows = fst st4\<rparr>"
    using run_phase2_stages[OF p cs d] by blast
  obtain r3 post3 r4 post4 where s: "st3 = (r3, post3)" "st4 = (r4, post4)" by (metis surj_pair)
  note st = st[unfolded s]
  note den = den_at_nonzero[OF cs d]
  have row: "row_holds r4 j" if j: "j < constraints_size cl" for j
  proof (cases "cl_lookups_data_start cl \<le> j")
    case True
    then show ?thesis using stages_lookup_row[OF st p char den] j by blast
  next
    case False
    then have jl: "j < cl_lookups_data_start cl" by simp
    show ?thesis
    proof (cases "\<exists>t\<in>set (p_tables p). j \<in> region t")
      case True
      then obtain t where t: "t \<in> set (p_tables p)" "j \<in> region t" by blast
      obtain k where k: "k < length (p_tables p)" "t = p_tables p ! k" using t(1) by (metis in_set_conv_nth)
      have "placed (t_cnst t) (t_wit t) (t_mult t) [t]" using placed_num[OF phase1_okD(1)[OF p] t(1)] by simp
      from placed_cover[OF this, of j] consider "j = sumpos t" | i where "i < t_length t" "j = ypos t i"
        | i where "i < t_length t" "\<not> narrow t" "j = xpos t i"
        using t(2) by (auto simp: region_def split: if_splits)
      then show ?thesis
      proof cases
        case 1
        have "uses F es k i \<le> cl_lookups_data_size cl" for i
          using uses_le[of F es k i] length_le_lwidths[of es "p_tables p"] phase1_okD(2)[OF p] by linarith
        then show ?thesis using stages_sum_row[OF st p k(1) char] den[OF nth_mem[OF k(1)]] 1 k(2) by blast
      qed (use stages_y_row(1)[OF st p t(1) _ den[OF t(1)]] stages_x_row[OF st p t(1)] in blast)+
    next
      case False
      note same = stages_other_row[OF st p jl, of]
      have "p_a p ! j * p_b p ! j = p_c p ! j"
      proof (cases "j < cl_algebraic_size cl")
        case False
        then show ?thesis using phase1_okD(7)[OF p] jl by (simp add: blank_def cl_tables_data_start_def)
      qed (simp add: phase1_okD(8)[OF p])
      then show ?thesis using same False by (simp add: row_holds_def)
    qed
  qed
  have "length post4 = length (p_post p)" "length cs \<le> length (p_post p)"
    using stagesD(4,8)[OF st] p cs
    by (auto simp: phase1_ok_def challenges_fit_def post_commitment_size_def lk_frame_def fin_frame_def)
  moreover have "post4 ! i = cs ! i" if "i < length cs" for i
    using stagesD(4,8)[OF st] cs that
    by (auto simp: challenges_fit_def lk_frame_def fin_frame_def wit_tables_start_def layout_defs nth_append)
  ultimately have "take (length cs) post4 = cs" by (intro nth_equalityI) simp_all
  moreover have "rows_size (constraints_size cl) r4"
    using stagesD(1,4)[OF st] fin_frame_size[OF stagesD(8)[OF st]] by (simp add: lk_frame_def)
  ultimately show ?thesis using run row by (simp add: s)
qed

end
