(* ===== verification/VM_Tape.thy ===== *)
theory VM_Tape
  imports VM_Witgen
begin

text \<open>
  Phase one as phase two needs it (\<^verbatim>\<open>run_phase1\<close> of \<^verbatim>\<open>vm/src/interpreter.rs\<close>, the opcodes of
  \<^verbatim>\<open>vm/src/bytecode.rs\<close>): every lookup is on the tape, the multiplicities count the lookups, the tables lie one after
  the other, and the rest of their rows is blank.
\<close>

subsection \<open>What a run must respect\<close>

definition f_rows :: "'f fwd \<Rightarrow> 'f rows" where
  "f_rows s = \<lparr>r_a = f_a s, r_b = f_b s, r_c = f_c s\<rparr>"

lemma f_rows_simps [simp]: "r_a (f_rows s) = f_a s" "r_b (f_rows s) = f_b s" "r_c (f_rows s) = f_c s"
  by (simp_all add: f_rows_def)

definition flag_ok :: "'f felt_repr \<Rightarrow> 'f \<Rightarrow> 'f \<Rightarrow> nat \<Rightarrow> bool" where
  "flag_ok F flag key n \<longleftrightarrow> canonical_limb F flag \<in> {0, 1} \<and> (canonical_limb F flag = 1 \<longrightarrow> unat (canonical_limb F key) < n)"

text \<open>A constraint holds, a key that is looked up is in the table.\<close>

fun op_ok :: "'f::field felt_repr \<Rightarrow> 'f fwd_op \<Rightarrow> bool" where
  "op_ok F (FR1C a b c) \<longleftrightarrow> a * b = c"
| "op_ok F (FWriteWitness v) \<longleftrightarrow> True"
| "op_ok F (FRngchk8 val flag) \<longleftrightarrow> flag_ok F flag val 256"
| "op_ok F (FSpread val result flag bits) \<longleftrightarrow> flag_ok F flag val (2 ^ bits)"
| "op_ok F (FArray array leaves index result flag) \<longleftrightarrow> flag_ok F flag index (length leaves)"

fun op_arrays :: "'f fwd_op \<Rightarrow> (u64 \<times> nat) list" where
  "op_arrays (FArray array leaves _ _ _) = [(array, length leaves)]"
| "op_arrays _ = []"

definition ops_ok :: "'f::field felt_repr \<Rightarrow> 'f fwd_op list \<Rightarrow> bool" where
  "ops_ok F ops \<longleftrightarrow> list_all (op_ok F) ops
     \<and> (\<forall>(a, n)\<in>set (concat (map op_arrays ops)). \<forall>(b, m)\<in>set (concat (map op_arrays ops)). a = b \<longrightarrow> n = m)"

text \<open>The sections of the layout are large enough, and the lookups fill theirs.\<close>

definition in_layout :: "witness_layout \<Rightarrow> constraints_layout \<Rightarrow> 'f fwd \<Rightarrow> bool" where
  "in_layout wl cl s \<longleftrightarrow> f_row s \<le> cl_algebraic_size cl \<and> f_alg s \<le> wl_algebraic_size wl
     \<and> f_mult s \<le> multiplicities_end wl \<and> f_look s \<le> constraints_size cl
     \<and> f_cnst_tables s \<le> cl_lookups_data_start cl \<and> f_wit_tables s \<le> wit_tables_start wl + wl_tables_data_size wl"

subsection \<open>The invariant\<close>

text \<open>The tables that are open for range checks, for spreading and for arrays.\<close>

definition table_at :: "vm_table list \<Rightarrow> nat \<Rightarrow> nat \<Rightarrow> nat \<Rightarrow> bool" where
  "table_at ts k nv len \<longleftrightarrow> k < length ts \<and> t_num_values (ts ! k) = nv \<and> t_length (ts ! k) = len"

definition opened :: "(u64 \<Rightarrow> nat) \<Rightarrow> 'f fwd \<Rightarrow> bool" where
  "opened alen s \<longleftrightarrow> (\<forall>k. f_rgchk s = Some k \<longrightarrow> table_at (f_tables s) k 0 256)
     \<and> (\<forall>bits<length (f_spread s). \<forall>k. f_spread s ! bits = Some k \<longrightarrow> table_at (f_tables s) k 1 (2 ^ bits))
     \<and> (\<forall>a. f_table_ids s a \<noteq> - 1 \<longrightarrow> table_at (f_tables s) (unat (f_table_ids s a)) 1 (alen a))"

definition tinv ::
  "'f::field felt_repr \<Rightarrow> witness_layout \<Rightarrow> constraints_layout \<Rightarrow> (u64 \<Rightarrow> nat) \<Rightarrow> 'f tape_entry list \<Rightarrow> 'f fwd \<Rightarrow> bool" where
  "tinv F wl cl alen es s \<longleftrightarrow>
     rows_size (constraints_size cl) (f_rows s) \<and> length (f_wit s) = pre_commitment_size wl
     \<and> placed (cl_tables_data_start cl) (wit_tables_start wl) (multiplicities_start wl) (f_tables s)
     \<and> f_cnst_tables s = cl_tables_data_start cl + widths (f_tables s)
     \<and> f_wit_tables s = wit_tables_start wl + wwidths (f_tables s)
     \<and> f_mult s = multiplicities_start wl + lengths (f_tables s)
     \<and> on_tape F (f_tables s) (f_rows s) (cl_lookups_data_start cl) es
     \<and> f_look s = cl_lookups_data_start cl + lwidths (f_tables s) es
     \<and> (\<forall>e\<in>set es. points_in F (f_tables s) e \<and> te_flag e \<in> {0, 1})
     \<and> (\<forall>k<length (f_tables s). \<forall>i<t_length (f_tables s ! k).
          limb F (mul_of (f_wit s) (f_tables s ! k) i) = of_nat (uses F es k i))
     \<and> (\<forall>j. f_mult s \<le> j \<longrightarrow> j < multiplicities_end wl \<longrightarrow> limb F (f_wit s ! j) = 0)
     \<and> blank cl (f_tables s) (f_rows s)
     \<and> (\<forall>j<cl_algebraic_size cl. row_holds (f_rows s) j)
     \<and> opened alen s"

lemma tinvD:
  assumes "tinv F wl cl alen es s"
  shows "rows_size (constraints_size cl) (f_rows s)" "length (f_wit s) = pre_commitment_size wl"
    "placed (cl_tables_data_start cl) (wit_tables_start wl) (multiplicities_start wl) (f_tables s)"
    "f_cnst_tables s = cl_tables_data_start cl + widths (f_tables s)"
    "f_wit_tables s = wit_tables_start wl + wwidths (f_tables s)"
    "f_mult s = multiplicities_start wl + lengths (f_tables s)"
    "on_tape F (f_tables s) (f_rows s) (cl_lookups_data_start cl) es"
    "f_look s = cl_lookups_data_start cl + lwidths (f_tables s) es"
    "e \<in> set es \<Longrightarrow> points_in F (f_tables s) e" "e \<in> set es \<Longrightarrow> te_flag e \<in> {0, 1}"
    "k < length (f_tables s) \<Longrightarrow> i < t_length (f_tables s ! k) \<Longrightarrow>
       limb F (mul_of (f_wit s) (f_tables s ! k) i) = of_nat (uses F es k i)"
    "f_mult s \<le> j \<Longrightarrow> j < multiplicities_end wl \<Longrightarrow> limb F (f_wit s ! j) = 0"
    "blank cl (f_tables s) (f_rows s)" "j < cl_algebraic_size cl \<Longrightarrow> row_holds (f_rows s) j" "opened alen s"
  using assms unfolding tinv_def by blast+

lemma repr_okD:
  assumes "repr_ok F"
  shows "limb F (set_limb F x v) = v" "set_limb F (set_limb F x v) w = set_limb F x w" "set_limb F 0 0 = 0" "limb F 0 = 0"
    "n < 2 ^ 64 \<Longrightarrow> canonical_limb F (of_nat n) = of_nat n"
  using assms unfolding repr_ok_def by metis+

lemma poke_Some: "poke F i v xs = Some ys \<longleftrightarrow> i < length xs \<and> ys = xs[i := set_limb F (xs ! i) v]"
  by (auto simp: poke_def bind_eq_Some_conv)

lemma peek_Some: "peek F i xs = Some v \<longleftrightarrow> i < length xs \<and> v = limb F (xs ! i)"
  by (auto simp: peek_def)

subsection \<open>Growing\<close>

definition advances :: "'f fwd \<Rightarrow> 'f fwd \<Rightarrow> bool" where
  "advances s s' \<longleftrightarrow> f_row s \<le> f_row s' \<and> f_alg s \<le> f_alg s' \<and> f_mult s \<le> f_mult s' \<and> f_look s \<le> f_look s'
     \<and> f_cnst_tables s \<le> f_cnst_tables s' \<and> f_wit_tables s \<le> f_wit_tables s'"

lemma advances_refl [simp]: "advances s s"
  by (simp add: advances_def)

lemma advances_trans: "advances s s' \<Longrightarrow> advances s' s'' \<Longrightarrow> advances s s''"
  by (auto simp: advances_def)

lemma layout_advances: "in_layout wl cl s' \<Longrightarrow> advances s s' \<Longrightarrow> in_layout wl cl s"
  by (auto simp: in_layout_def advances_def)

subsection \<open>Putting a lookup on the tape\<close>

definition puts_lookup :: "'f::field felt_repr \<Rightarrow> 'f tape_entry \<Rightarrow> 'f fwd \<Rightarrow> 'f fwd \<Rightarrow> bool" where
  "puts_lookup F e s s' \<longleftrightarrow> (let ts = f_tables s; w = lwidth ts e; t = ts ! te_table e in
     f_look s' = f_look s + w \<and> f_tables s' = ts \<and> f_row s' = f_row s \<and> f_alg s' = f_alg s \<and> f_mult s' = f_mult s
     \<and> f_cnst_tables s' = f_cnst_tables s \<and> f_wit_tables s' = f_wit_tables s \<and> f_rgchk s' = f_rgchk s
     \<and> f_spread s' = f_spread s \<and> f_table_ids s' = f_table_ids s
     \<and> length (f_a s') = length (f_a s) \<and> length (f_b s') = length (f_b s) \<and> length (f_c s') = length (f_c s)
     \<and> length (f_wit s') = length (f_wit s)
     \<and> agree (- {f_look s..<f_look s + w}) (f_rows s) (f_rows s')
     \<and> tape_cell F ts (f_rows s') (f_look s) e
     \<and> (\<forall>j. limb F (f_wit s' ! j) = limb F (f_wit s ! j) + (if te_flag e \<noteq> 0 \<and> j = t_mult t + te_ix F e then te_flag e else 0)))"

lemma kv_emits:
  assumes run: "forward_kv_lookup_emit F k key result flag s = Some s'" and F: "repr_ok F"
    and k: "k < 2 ^ 64" "k < length (f_tables s)" and wide: "\<not> narrow (f_tables s ! k)"
  shows "puts_lookup F \<lparr>te_table = k, te_key = key, te_result = result, te_flag = flag\<rparr> s s'"
proof -
  have u: "unat (of_nat k :: u64) = k" using k(1) by (simp add: unat_of_nat take_bit_nat_eq_self)
  note [simp] = repr_okD(1)[OF F] u
  let ?e = "\<lparr>te_table = k, te_key = key, te_result = result, te_flag = flag\<rparr>" and ?ix = "canonical_limb F key"
  let ?l = "f_look s" and ?t = "f_tables s ! k"
  let ?as = "((f_a s)[?l := set_limb F (f_a s ! ?l) (of_nat k)])[?l + 1 := set_limb F (f_a s ! (?l + 1)) (of_nat k)]"
  let ?cs = "((f_c s)[?l := set_limb F (f_c s ! ?l) 0])[?l + 1 := set_limb F (f_c s ! (?l + 1)) flag]"
  have l: "?l + 1 < length (f_a s)" "?l + 1 < length (f_b s)" "?l + 1 < length (f_c s)"
    using run by (auto simp: forward_kv_lookup_emit_def bind_eq_Some_conv poke_Some bump_multiplicity_def Let_def split: if_splits)
  show ?thesis
  proof (cases "flag = 0")
    case True
    then have "s' = s\<lparr>f_a := ?as, f_b := ((f_b s)[?l := result])[?l + 1 := key], f_c := ?cs, f_look := ?l + 2\<rparr>"
      using run k by (auto simp: forward_kv_lookup_emit_def bind_eq_Some_conv poke_Some Let_def)
    then show ?thesis using True k wide l
      by (auto simp: puts_lookup_def lwidth_def agree_def tape_cell_def key_cell_def Let_def nth_list_update)
  next
    case False
    let ?bs = "((f_b s)[?l := result])[?l + 1 := set_limb F (f_b s ! (?l + 1)) ?ix]"
    have "\<exists>wit. s' = s\<lparr>f_a := ?as, f_wit := wit, f_b := ?bs, f_c := ?cs, f_look := ?l + 2\<rparr>
        \<and> length wit = length (f_wit s)
        \<and> (\<forall>j. limb F (wit ! j) = limb F (f_wit s ! j) + (if j = t_mult ?t + unat ?ix then flag else 0))"
      using run False k
      by (auto simp: forward_kv_lookup_emit_def bump_multiplicity_def bind_eq_Some_conv poke_Some peek_Some Let_def nth_list_update)
    then show ?thesis using False k wide l
      by (auto simp: puts_lookup_def lwidth_def agree_def tape_cell_def key_cell_def te_ix_def Let_def nth_list_update)
  qed
qed

lemma rngchk_emits:
  assumes run: "op_rngchk_8 F val fv s = Some s'" and F: "repr_ok F"
    and k: "f_rgchk s = Some k" "k < 2 ^ 64" "k < length (f_tables s)" and narrow: "narrow (f_tables s ! k)"
  shows "puts_lookup F \<lparr>te_table = k, te_key = val, te_result = 0, te_flag = canonical_limb F fv\<rparr> s s'"
proof -
  have u: "unat (of_nat k :: u64) = k" using k(2) by (simp add: unat_of_nat take_bit_nat_eq_self)
  note [simp] = repr_okD(1)[OF F] u
  let ?flag = "canonical_limb F fv" and ?ix = "canonical_limb F val"
  let ?l = "f_look s" and ?t = "f_tables s ! k"
  let ?as = "(f_a s)[?l := set_limb F (f_a s ! ?l) (of_nat k)]"
  let ?cs = "(f_c s)[?l := set_limb F (f_c s ! ?l) ?flag]"
  have l: "?l < length (f_a s)" "?l < length (f_b s)" "?l < length (f_c s)"
    using run k(1) by (auto simp: op_rngchk_8_def bind_eq_Some_conv poke_Some bump_multiplicity_def Let_def split: if_splits)
  show ?thesis
  proof (cases "?flag = 0")
    case True
    then have "s' = s\<lparr>f_a := ?as, f_b := (f_b s)[?l := val], f_c := ?cs, f_look := ?l + 1\<rparr>"
      using run k by (auto simp: op_rngchk_8_def bind_eq_Some_conv poke_Some Let_def)
    then show ?thesis using True k narrow l
      by (auto simp: puts_lookup_def lwidth_def agree_def tape_cell_def key_cell_def Let_def nth_list_update)
  next
    case False
    let ?bs = "(f_b s)[?l := set_limb F (f_b s ! ?l) ?ix]"
    have "\<exists>wit. s' = s\<lparr>f_wit := wit, f_a := ?as, f_b := ?bs, f_c := ?cs, f_look := ?l + 1\<rparr>
        \<and> length wit = length (f_wit s)
        \<and> (\<forall>j. limb F (wit ! j) = limb F (f_wit s ! j) + (if j = t_mult ?t + unat ?ix then ?flag else 0))"
      using run False k
      by (auto simp: op_rngchk_8_def bump_multiplicity_def bind_eq_Some_conv poke_Some peek_Some Let_def nth_list_update)
    then show ?thesis using False k narrow l
      by (auto simp: puts_lookup_def lwidth_def agree_def tape_cell_def key_cell_def te_ix_def Let_def nth_list_update)
  qed
qed

lemma emits_grows: "puts_lookup F e s s' \<Longrightarrow> advances s s'"
  by (simp add: puts_lookup_def advances_def Let_def)

lemma on_tape_snoc: "on_tape F ts r c (es @ [e]) \<longleftrightarrow> on_tape F ts r c es \<and> tape_cell F ts r (c + lwidths ts es) e"
  by (induction es arbitrary: c) (simp_all add: add.assoc)

lemma placed_mult_inj:
  assumes "placed c w m ts" "j < length ts" "k < length ts" "x < t_length (ts ! j)" "y < t_length (ts ! k)"
    "t_mult (ts ! j) + x = t_mult (ts ! k) + y"
  shows "j = k \<and> x = y"
  using assms
proof (induction ts arbitrary: c w m j k)
  case (Cons t ts)
  have pl: "placed (c + width t) (w + wwidth t) (m + t_length t) ts" "t_mult t = m" using Cons.prems(1) by simp_all
  have "m + t_length t \<le> t_mult (ts ! i)" if "i < length ts" for i using placed_mult[OF pl(1) nth_mem[OF that]] by simp
  then show ?case using Cons.IH[OF pl(1)] Cons.prems(2-6) pl(2) by (cases j; cases k) fastforce+
qed simp

lemma uses_snoc:
  "uses F (es @ [e]) k i = uses F es k i + (if te_table e = k \<and> te_flag e \<noteq> 0 \<and> te_ix F e = i then 1 else 0)"
  by (simp add: uses_def)

lemma emits_tinv:
  assumes inv: "tinv F wl cl alen es s" and em: "puts_lookup F e s s'" and fit: "in_layout wl cl s'"
    and e: "points_in F (f_tables s) e" "te_flag e \<in> {0, 1}"
  shows "tinv F wl cl alen (es @ [e]) s'"
proof -
  note I = tinvD[OF inv]
  let ?ts = "f_tables s" and ?w = "lwidth (f_tables s) e"
  have E: "f_look s' = f_look s + ?w" "f_tables s' = ?ts" "f_mult s' = f_mult s"
    "f_cnst_tables s' = f_cnst_tables s" "f_wit_tables s' = f_wit_tables s" "f_rgchk s' = f_rgchk s"
    "f_spread s' = f_spread s" "f_table_ids s' = f_table_ids s" "length (f_wit s') = length (f_wit s)"
    "length (f_a s') = length (f_a s)" "length (f_b s') = length (f_b s)" "length (f_c s') = length (f_c s)"
    "agree (- {f_look s..<f_look s + ?w}) (f_rows s) (f_rows s')" "tape_cell F ?ts (f_rows s') (f_look s) e"
    "\<And>j. limb F (f_wit s' ! j)
        = limb F (f_wit s ! j) + (if te_flag e \<noteq> 0 \<and> j = t_mult (?ts ! te_table e) + te_ix F e then te_flag e else 0)"
    using em by (simp_all add: puts_lookup_def Let_def)
  have k: "te_table e < length ?ts" using E(14) by (simp add: tape_cell_def)
  have before: "f_a s' ! j = f_a s ! j" "f_b s' ! j = f_b s ! j" "f_c s' ! j = f_c s ! j" if "j < f_look s" for j
    using E(13) that by (simp_all add: agree_def)
  have ls: "cl_lookups_data_start cl \<le> f_look s" using I(8) by simp
  have "agree {cl_lookups_data_start cl..<cl_lookups_data_start cl + lwidths ?ts es} (f_rows s) (f_rows s')"
    using before I(8) by (simp add: agree_def)
  then have tape: "on_tape F ?ts (f_rows s') (cl_lookups_data_start cl) (es @ [e])"
    using on_tape_cong[of "cl_lookups_data_start cl" ?ts es] I(7,8) E(14) by (simp add: on_tape_snoc)
  have mult: "limb F (mul_of (f_wit s') (?ts ! j) i) = of_nat (uses F (es @ [e]) j i)" if ji: "j < length ?ts" "i < t_length (?ts ! j)" for j i
  proof (cases "te_flag e = 0")
    case True
    then show ?thesis using I(11)[OF ji] E(15) by (simp add: mul_of_def uses_snoc)
  next
    case False
    then have "te_ix F e < t_length (?ts ! te_table e)" "te_flag e = 1" using e by (auto simp: points_in_def)
    then have "t_mult (?ts ! j) + i = t_mult (?ts ! te_table e) + te_ix F e \<longleftrightarrow> te_table e = j \<and> te_ix F e = i"
      using placed_mult_inj[OF I(3) ji(1) k ji(2)] by auto
    then show ?thesis using I(11)[OF ji] E(15) \<open>te_flag e = 1\<close> by (simp add: mul_of_def uses_snoc)
  qed
  have rest: "limb F (f_wit s' ! j) = 0" if j: "f_mult s' \<le> j" "j < multiplicities_end wl" for j
  proof -
    have "te_flag e \<noteq> 0 \<Longrightarrow> j \<noteq> t_mult (?ts ! te_table e) + te_ix F e"
      using e(1) placed_mult[OF I(3) nth_mem[OF k]] I(6) j(1) E(3) by (auto simp: points_in_def)
    then have "\<not> (te_flag e \<noteq> 0 \<and> j = t_mult (?ts ! te_table e) + te_ix F e)" by blast
    then show ?thesis using E(15)[of j] I(12)[of j] j E(3) by simp
  qed
  have "cl_algebraic_size cl \<le> cl_lookups_data_start cl" by (simp add: cl_lookups_data_start_def)
  then have "row_holds (f_rows s') j" if "j < cl_algebraic_size cl" for j
    using I(14)[OF that] before[of j] ls that by (simp add: row_holds_def)
  moreover have "blank cl ?ts (f_rows s')" using I(13) before ls by (simp add: blank_def)
  moreover have "opened alen s'" using I(15) E(2,6-8) by (simp add: opened_def)
  ultimately show ?thesis unfolding tinv_def using I(1-6,8-10) E(1-5,9-12) e tape mult rest
    by (simp add: rows_size_def)
qed

subsection \<open>Opening a table\<close>

lemma placed_snoc:
  "placed c w m (ts @ [t]) \<longleftrightarrow> placed c w m ts \<and> t_cnst t = c + widths ts \<and> t_wit t = w + wwidths ts
     \<and> t_mult t = m + lengths ts \<and> t_num_values t \<le> 1"
  by (induction ts arbitrary: c w m) (auto simp: add.assoc)

lemma sums_snoc [simp]:
  "widths (ts @ [t]) = widths ts + width t" "wwidths (ts @ [t]) = wwidths ts + wwidth t"
  "lengths (ts @ [t]) = lengths ts + t_length t"
  by (simp_all add: widths_def wwidths_def lengths_def)

lemma on_tape_more:
  "on_tape F ts r c es \<Longrightarrow> on_tape F (ts @ us) r c es \<and> lwidths (ts @ us) es = lwidths ts es"
proof (induction es arbitrary: c)
  case (Cons e es)
  then have "te_table e < length ts" by (simp add: tape_cell_def)
  then have "lwidth (ts @ us) e = lwidth ts e" "tape_cell F (ts @ us) r c e = tape_cell F ts r c e"
    by (simp_all add: lwidth_def tape_cell_def nth_append)
  then show ?case using Cons.IH[of "c + lwidth ts e"] Cons.prems by simp
qed simp

definition xcells :: "vm_table \<Rightarrow> nat set" where
  "xcells t = (if narrow t then {} else xpos t ` {..<t_length t})"

definition opens :: "vm_table \<Rightarrow> 'f fwd \<Rightarrow> 'f fwd \<Rightarrow> bool" where
  "opens t s s' \<longleftrightarrow> t = here (t_num_values t) (t_length t) s \<and> t_num_values t \<le> 1 \<and> f_tables s' = f_tables s @ [t]
     \<and> f_mult s' = f_mult s + t_length t \<and> f_cnst_tables s' = f_cnst_tables s + width t
     \<and> f_wit_tables s' = f_wit_tables s + wwidth t \<and> f_b s' = f_b s \<and> f_c s' = f_c s \<and> f_wit s' = f_wit s
     \<and> f_row s' = f_row s \<and> f_alg s' = f_alg s \<and> f_look s' = f_look s
     \<and> length (f_a s') = length (f_a s) \<and> (\<forall>j. j \<notin> xcells t \<longrightarrow> f_a s' ! j = f_a s ! j)"

lemma opens_grows: "opens t s s' \<Longrightarrow> advances s s'"
  by (simp add: opens_def advances_def)

lemma uses_outside: "(\<And>e. e \<in> set es \<Longrightarrow> te_table e < k) \<Longrightarrow> uses F es k i = 0"
  by (fastforce simp: uses_def filter_empty_conv)

lemma table_at_more: "table_at ts k nv len \<Longrightarrow> table_at (ts @ us) k nv len"
  by (simp add: table_at_def nth_append)

lemma opens_tinv:
  assumes inv: "tinv F wl cl alen es s" and op: "opens t s s'" and fit: "in_layout wl cl s'" and kinds: "opened alen s'"
  shows "tinv F wl cl alen es s'"
proof -
  note I = tinvD[OF inv]
  let ?ts = "f_tables s"
  have O: "t = here (t_num_values t) (t_length t) s" "t_num_values t \<le> 1" "f_tables s' = ?ts @ [t]"
    "f_mult s' = f_mult s + t_length t" "f_cnst_tables s' = f_cnst_tables s + width t"
    "f_wit_tables s' = f_wit_tables s + wwidth t" "f_b s' = f_b s" "f_c s' = f_c s" "f_wit s' = f_wit s"
    "f_look s' = f_look s" "length (f_a s') = length (f_a s)" "\<And>j. j \<notin> xcells t \<Longrightarrow> f_a s' ! j = f_a s ! j"
    using op by (simp_all add: opens_def)
  have tp: "t_cnst t = f_cnst_tables s" "t_wit t = f_wit_tables s" "t_mult t = f_mult s" by (subst O(1), simp add: here_def)+
  have pl: "placed (cl_tables_data_start cl) (wit_tables_start wl) (multiplicities_start wl) (?ts @ [t])"
    using I(3-6) O(2) tp by (simp add: placed_snoc)
  have lay: "f_cnst_tables s' \<le> cl_lookups_data_start cl" "f_mult s' \<le> multiplicities_end wl" using fit by (simp_all add: in_layout_def)
  have xc: "xcells t \<subseteq> {f_cnst_tables s..<cl_lookups_data_start cl}"
    using lay(1) O(5) tp(1) by (auto simp: xcells_def xpos_def width_def)
  have same: "f_a s' ! j = f_a s ! j" if "j < f_cnst_tables s \<or> cl_lookups_data_start cl \<le> j" for j
    using O(12) xc that by fastforce
  have "agree {cl_lookups_data_start cl..<cl_lookups_data_start cl + lwidths ?ts es} (f_rows s) (f_rows s')"
    using same O(7,8) by (simp add: agree_def)
  from on_tape_cong[OF this] have "on_tape F ?ts (f_rows s') (cl_lookups_data_start cl) es" using I(7) by simp
  note tape = on_tape_more[OF this, of "[t]"]
  have tl: "te_table e < length ?ts" if "e \<in> set es" for e using on_tape_tables[OF I(7) that] .
  have mult: "limb F (mul_of (f_wit s') ((?ts @ [t]) ! k) i) = of_nat (uses F es k i)"
    if k: "k < length (?ts @ [t])" "i < t_length ((?ts @ [t]) ! k)" for k i
  proof (cases "k < length ?ts")
    case True
    then show ?thesis using I(11) k O(9) by (simp add: nth_append)
  next
    case False
    then have "k = length ?ts" using k(1) by simp
    then show ?thesis using k(2) I(12) tp(3) lay(2) O(4,9) tl by (simp add: mul_of_def uses_outside)
  qed
  have "blank cl (?ts @ [t]) (f_rows s')" unfolding blank_def
  proof (intro allI impI conjI)
    fix j assume j: "cl_tables_data_start cl \<le> j" "j < cl_lookups_data_start cl"
    show "r_b (f_rows s') ! j = 0" "r_c (f_rows s') ! j = 0" using I(13) j O(7,8) by (simp_all add: blank_def)
    assume x: "\<forall>t\<in>set (?ts @ [t]). \<forall>i<t_length t. narrow t \<or> j \<noteq> xpos t i"
    then have "j \<notin> xcells t" by (auto simp: xcells_def)
    then show "r_a (f_rows s') ! j = 0" using I(13) j x O(12) by (simp add: blank_def)
  qed
  moreover have "row_holds (f_rows s') j" if "j < cl_algebraic_size cl" for j
    using I(4) I(14)[OF that] same that O(7,8) by (simp add: row_holds_def cl_tables_data_start_def)
  moreover have "points_in F (?ts @ [t]) e" if "e \<in> set es" for e
    using I(9)[OF that] tl[OF that] by (simp add: points_in_def nth_append)
  ultimately show ?thesis unfolding tinv_def using I(1,2,4-6,8,10,12) O(3-11) pl tape mult kinds
    by (simp add: rows_size_def)
qed

lemma fill_values_ok:
  assumes "fill_values off vs s = Some s'"
  shows "s' = s\<lparr>f_a := f_a s'\<rparr> \<and> length (f_a s') = length (f_a s)
    \<and> (\<forall>j. j \<notin> (\<lambda>i. off + 2 * i) ` {..<length vs} \<longrightarrow> f_a s' ! j = f_a s ! j)"
proof -
  have "length bs = length as \<and> (\<forall>j. j \<notin> (\<lambda>i. off + 2 * i) ` {k..<k + length vs} \<longrightarrow> bs ! j = as ! j)"
    if "opt_fold (\<lambda>(i, v) as. upd_opt as (off + 2 * i) v) (enumerate k vs) as = Some bs" for k as bs
    using that
  proof (induction vs arbitrary: k as)
    case (Cons v vs)
    then have k: "off + 2 * k < length as"
      "opt_fold (\<lambda>(i, v) as. upd_opt as (off + 2 * i) v) (enumerate (Suc k) vs) (as[off + 2 * k := v]) = Some bs"
      by (auto simp: bind_eq_Some_conv)
    have "bs ! j = as ! j" if j: "j \<notin> (\<lambda>i. off + 2 * i) ` {k..<k + length (v # vs)}" for j
    proof -
      have "j \<notin> (\<lambda>i. off + 2 * i) ` {Suc k..<Suc k + length vs}" "j \<noteq> off + 2 * k" using j by auto
      then show ?thesis using Cons.IH[OF k(2)] by simp
    qed
    then show ?case using Cons.IH[OF k(2)] by simp
  qed simp
  from this[of 0] show ?thesis using assms by (auto simp: fill_values_def bind_eq_Some_conv atLeast0LessThan)
qed

lemma open_range_opens:
  assumes "tinv F wl cl alen es s" and "f_rgchk s = None"
  shows "opens (here 0 256 s) s (open_range_table s)" "opened alen (open_range_table s)"
proof -
  show "opens (here 0 256 s) s (open_range_table s)"
    by (simp add: opens_def open_range_table_def here_def width_def wwidth_def narrow_def)
  show "opened alen (open_range_table s)"
    using tinvD(15)[OF assms(1)] by (auto simp: opened_def open_range_table_def table_at_def here_def nth_append)
qed

lemma open_spread_opens:
  assumes "tinv F wl cl alen es s" and "open_spread_table bits s = Some s'" and "bits < length (f_spread s)"
  shows "opens (here 1 (2 ^ bits) s) s s'" "opened alen s'" "f_spread s' ! bits = Some (length (f_tables s))"
    "length (f_spread s') = length (f_spread s)"
proof -
  let ?s = "s\<lparr>f_spread := (f_spread s)[bits := Some (length (f_tables s))], f_tables := f_tables s @ [here 1 (2 ^ bits) s]\<rparr>"
  obtain s1 where f: "fill_values (f_cnst_tables s) (map (\<lambda>i. of_nat (unat (vm_spread_bits (of_nat i)))) [0..<2 ^ bits]) ?s = Some s1"
    and s': "s' = s1\<lparr>f_mult := f_mult s1 + 2 ^ bits, f_cnst_tables := f_cnst_tables s1 + (2 * 2 ^ bits + 1),
       f_wit_tables := f_wit_tables s1 + 2 * 2 ^ bits\<rparr>"
    using assms(2) by (auto simp: open_spread_table_def Let_def bind_eq_Some_conv)
  obtain as where s1: "s1 = ?s\<lparr>f_a := as\<rparr>" "length as = length (f_a s)"
    "\<forall>j. j \<notin> (\<lambda>i. f_cnst_tables s + 2 * i) ` {..<2 ^ bits} \<longrightarrow> as ! j = f_a s ! j"
    using fill_values_ok[OF f] by (intro that[of "f_a s1"]) (simp_all del: image_iff)
  have x: "xcells (here 1 (2 ^ bits) s) = (\<lambda>i. f_cnst_tables s + 2 * i) ` {..<2 ^ bits}"
    by (simp add: xcells_def narrow_def here_def xpos_def)
  show "opens (here 1 (2 ^ bits) s) s s'" unfolding opens_def x using s1(2,3)
    by (simp add: s' s1(1) here_def width_def wwidth_def narrow_def)
  show "opened alen s'" using tinvD(15)[OF assms(1)] assms(3)
    by (auto simp: opened_def s' s1(1) table_at_def here_def nth_append nth_list_update)
  show "f_spread s' ! bits = Some (length (f_tables s))" "length (f_spread s') = length (f_spread s)"
    using assms(3) by (simp_all add: s' s1(1))
qed

lemma open_array_opens:
  assumes "tinv F wl cl alen es s" and "open_array_table array leaves s = Some s'" and "length leaves = alen array"
    and n: "length (f_tables s) < 2 ^ 64"
  shows "opens (here 1 (length leaves) s) s s'" "opened alen s'" "f_table_ids s' array = of_nat (length (f_tables s))"
proof -
  obtain s1 where f: "fill_values (f_cnst_tables s) leaves s = Some s1"
    and s': "s' = s1\<lparr>f_tables := f_tables s1 @ [here 1 (length leaves) s], f_mult := f_mult s1 + length leaves,
       f_cnst_tables := f_cnst_tables s1 + (2 * length leaves + 1), f_wit_tables := f_wit_tables s1 + 2 * length leaves,
       f_table_ids := (f_table_ids s1)(array := of_nat (length (f_tables s1)))\<rparr>"
    using assms(2) by (auto simp: open_array_table_def Let_def bind_eq_Some_conv)
  obtain as where s1: "s1 = s\<lparr>f_a := as\<rparr>" "length as = length (f_a s)"
    "\<forall>j. j \<notin> (\<lambda>i. f_cnst_tables s + 2 * i) ` {..<length leaves} \<longrightarrow> as ! j = f_a s ! j"
    using fill_values_ok[OF f] by (intro that[of "f_a s1"]) (simp_all del: image_iff)
  have x: "xcells (here 1 (length leaves) s) = (\<lambda>i. f_cnst_tables s + 2 * i) ` {..<length leaves}"
    by (simp add: xcells_def narrow_def here_def xpos_def)
  have u: "unat (of_nat (length (f_tables s)) :: u64) = length (f_tables s)" using n by (simp add: unat_of_nat take_bit_nat_eq_self)
  show "opens (here 1 (length leaves) s) s s'" unfolding opens_def x using s1(2,3)
    by (simp add: s' s1(1) here_def width_def wwidth_def narrow_def)
  show "opened alen s'" using tinvD(15)[OF assms(1)] assms(3) u
    by (auto simp: opened_def s' s1(1) table_at_def here_def nth_append)
  show "f_table_ids s' array = of_nat (length (f_tables s))" by (simp add: s' s1(1))
qed

subsection \<open>A run of phase one\<close>

definition alens :: "(u64 \<Rightarrow> nat) \<Rightarrow> 'f fwd_op \<Rightarrow> bool" where
  "alens alen op \<longleftrightarrow> (\<forall>(a, n)\<in>set (op_arrays op). alen a = n)"

text \<open>Tables are never so many that their number does not fit a word.\<close>

lemma length_le_widths: "length ts \<le> widths ts"
  by (induction ts) (auto simp: width_def)

lemma few_tables:
  assumes "tinv F wl cl alen es s" "in_layout wl cl s" "constraints_size cl < 2 ^ 64"
  shows "length (f_tables s) < 2 ^ 64"
  using tinvD(4)[OF assms(1)] assms(2,3) length_le_widths[of "f_tables s"]
  by (simp add: in_layout_def cl_lookups_data_start_def cl_tables_data_start_def constraints_size_def)

lemma rngchk_after_open:
  "f_rgchk s = None \<Longrightarrow> op_rngchk_8 F val flag s = op_rngchk_8 F val flag (open_range_table s)"
  by (simp add: op_rngchk_8_def open_range_table_def)

lemma points_in_flag:
  "flag_ok F fv key len \<Longrightarrow> table_at ts k nv len \<Longrightarrow>
   points_in F ts \<lparr>te_table = k, te_key = key, te_result = res, te_flag = canonical_limb F fv\<rparr> \<and> canonical_limb F fv \<in> {0, 1}"
  by (auto simp: flag_ok_def table_at_def points_in_def te_ix_def)

lemma rngchk_step:
  assumes inv: "tinv F wl cl alen es s" and run: "op_rngchk_8 F val fv s = Some s'" and k: "f_rgchk s = Some k"
    and fit: "length (f_tables s) < 2 ^ 64" and ok: "flag_ok F fv val 256" and F: "repr_ok F"
    and lay: "in_layout wl cl s'"
  shows "\<exists>es'. tinv F wl cl alen es' s'"
proof -
  have at: "table_at (f_tables s) k 0 256" using tinvD(15)[OF inv] k by (simp add: opened_def)
  then have "k < length (f_tables s)" "k < 2 ^ 64" "narrow (f_tables s ! k)" using fit by (simp_all add: table_at_def narrow_def)
  note em = rngchk_emits[OF run F k this(2,1,3)]
  show ?thesis using emits_tinv[OF inv em lay] points_in_flag[OF ok at] by auto
qed

lemma kv_step:
  assumes inv: "tinv F wl cl alen es s" and run: "forward_kv_lookup_emit F k key result (canonical_limb F fv) s = Some s'"
    and at: "table_at (f_tables s) k 1 len"
    and fit: "length (f_tables s) < 2 ^ 64" and ok: "flag_ok F fv key len" and F: "repr_ok F"
    and lay: "in_layout wl cl s'"
  shows "\<exists>es'. tinv F wl cl alen es' s'"
proof -
  have "k < length (f_tables s)" "k < 2 ^ 64" "\<not> narrow (f_tables s ! k)" using at fit by (simp_all add: table_at_def narrow_def)
  note em = kv_emits[OF run F this(2,1,3)]
  show ?thesis using emits_tinv[OF inv em lay] points_in_flag[OF ok at] by auto
qed

lemma kv_grows: "forward_kv_lookup_emit F k key result flag s = Some s' \<Longrightarrow> advances s s'"
  by (auto simp: forward_kv_lookup_emit_def bump_multiplicity_def bind_eq_Some_conv advances_def Let_def split: if_splits)

lemma rngchk_grows: "op_rngchk_8 F val fv s = Some s' \<Longrightarrow> advances s s'"
  by (auto simp: op_rngchk_8_def bump_multiplicity_def open_range_table_def bind_eq_Some_conv advances_def Let_def split: if_splits)

lemma open_grows:
  "open_spread_table bits s = Some s' \<Longrightarrow> advances s s'" "open_array_table array leaves s = Some s' \<Longrightarrow> advances s s'"
  by (auto simp: open_spread_table_def open_array_table_def fill_values_def bind_eq_Some_conv advances_def Let_def)

lemma exec_grows: "fwd_exec F op s = Some s' \<Longrightarrow> advances s s'"
proof (cases op)
  case (FRngchk8 val flag)
  then show "fwd_exec F op s = Some s' \<Longrightarrow> advances s s'" by (simp add: rngchk_grows)
next
  case (FSpread val result flag bits)
  then show "fwd_exec F op s = Some s' \<Longrightarrow> advances s s'"
    by (auto simp: op_spread_lookup_def bind_eq_Some_conv split: if_splits dest!: kv_grows open_grows intro: advances_trans)
next
  case (FArray array leaves index result flag)
  then show "fwd_exec F op s = Some s' \<Longrightarrow> advances s s'"
    by (auto simp: op_array_lookup_def bind_eq_Some_conv split: if_splits dest!: kv_grows open_grows intro: advances_trans)
qed (auto simp: op_r1c_def op_write_witness_def bind_eq_Some_conv advances_def)

lemma blank_agree:
  "agree {cl_tables_data_start cl..<cl_lookups_data_start cl} r r' \<Longrightarrow> blank cl ts r \<Longrightarrow> blank cl ts r'"
  unfolding blank_def agree_def by (metis atLeastLessThan_iff)

lemma r1c_tinv:
  assumes inv: "tinv F wl cl alen es s" and run: "op_r1c a b c s = Some s'" and ok: "a * b = c" and lay: "in_layout wl cl s'"
  shows "tinv F wl cl alen es s'"
proof -
  note I = tinvD[OF inv]
  let ?i = "f_row s"
  have s': "s' = s\<lparr>f_a := (f_a s)[?i := a], f_b := (f_b s)[?i := b], f_c := (f_c s)[?i := c], f_row := ?i + 1\<rparr>"
    and i: "?i < length (f_a s)" "?i < length (f_b s)" "?i < length (f_c s)"
    using run by (auto simp: op_r1c_def bind_eq_Some_conv)
  have alg: "?i < cl_algebraic_size cl" using lay by (simp add: in_layout_def s')
  have ag: "agree (- {?i}) (f_rows s) (f_rows s')" by (simp add: agree_def s')
  have after: "cl_tables_data_start cl \<le> j \<Longrightarrow> j \<noteq> ?i" "cl_lookups_data_start cl \<le> j \<Longrightarrow> j \<noteq> ?i" for j
    using alg by (simp_all add: cl_tables_data_start_def cl_lookups_data_start_def)
  have "on_tape F (f_tables s) (f_rows s') (cl_lookups_data_start cl) es = on_tape F (f_tables s) (f_rows s) (cl_lookups_data_start cl) es"
    by (rule on_tape_cong[OF agree_mono[OF ag]]) (use after(2) in auto)
  moreover have "blank cl (f_tables s) (f_rows s')"
    by (rule blank_agree[OF agree_mono[OF ag] I(13)]) (use after(1) in auto)
  moreover have "row_holds (f_rows s') j" if "j < cl_algebraic_size cl" for j
    using I(14)[OF that] ok i by (cases "j = ?i") (simp_all add: row_holds_def s')
  moreover have "opened alen s'" using I(15) by (simp add: opened_def s')
  ultimately show ?thesis unfolding tinv_def using I by (simp add: s' rows_size_def)
qed

lemma write_witness_tinv:
  assumes inv: "tinv F wl cl alen es s" and run: "op_write_witness v s = Some s'" and lay: "in_layout wl cl s'"
  shows "tinv F wl cl alen es s'"
proof -
  note I = tinvD[OF inv]
  have s': "s' = s\<lparr>f_wit := (f_wit s)[f_alg s := v], f_alg := f_alg s + 1\<rparr>"
    using run by (auto simp: op_write_witness_def bind_eq_Some_conv)
  have alg: "f_alg s < multiplicities_start wl" using lay by (simp add: in_layout_def s' multiplicities_start_def algebraic_end_def)
  have m: "mul_of (f_wit s') (f_tables s ! k) i = mul_of (f_wit s) (f_tables s ! k) i" if "k < length (f_tables s)" for k i
    using placed_mult[OF I(3) nth_mem[OF that]] alg by (simp add: mul_of_def s')
  have "f_wit s' ! j = f_wit s ! j" if "f_mult s \<le> j" for j using that alg I(6) by (simp add: s')
  moreover have "opened alen s'" using I(15) by (simp add: opened_def s')
  ultimately show ?thesis unfolding tinv_def using I m by (simp add: s' f_rows_def)
qed

lemma exec_tinv:
  assumes inv: "tinv F wl cl alen es s" and run: "fwd_exec F op s = Some s'" and lay: "in_layout wl cl s'"
    and ok: "op_ok F op" "alens alen op" and F: "repr_ok F" and n: "constraints_size cl < 2 ^ 64"
  shows "\<exists>es'. tinv F wl cl alen es' s'"
proof (cases op)
  case (FR1C a b c)
  then show ?thesis using r1c_tinv[OF inv _ _ lay] run ok(1) by auto
next
  case (FWriteWitness v)
  then show ?thesis using write_witness_tinv[OF inv _ lay] run by auto
next
  case (FRngchk8 val fv)
  have flag: "flag_ok F fv val 256" using ok(1) FRngchk8 by simp
  have run: "op_rngchk_8 F val fv s = Some s'" using run FRngchk8 by simp
  have "\<exists>t es k. tinv F wl cl alen es t \<and> f_rgchk t = Some k \<and> op_rngchk_8 F val fv t = Some s'"
  proof (cases "f_rgchk s")
    case None
    let ?t = "open_range_table s"
    have r: "op_rngchk_8 F val fv ?t = Some s'" using run rngchk_after_open[OF None] by metis
    have "in_layout wl cl ?t" using layout_advances[OF lay rngchk_grows[OF r]] .
    from opens_tinv[OF inv open_range_opens(1)[OF inv None] this open_range_opens(2)[OF inv None]]
    show ?thesis using r by (auto simp: open_range_table_def)
  qed (use inv run in blast)
  then obtain t es1 k where t: "tinv F wl cl alen es1 t" "f_rgchk t = Some k" "op_rngchk_8 F val fv t = Some s'" by blast
  have "in_layout wl cl t" using layout_advances[OF lay rngchk_grows[OF t(3)]] .
  from rngchk_step[OF t(1,3,2) few_tables[OF t(1) this n] flag F lay] show ?thesis .
next
  case (FSpread val result fv bits)
  have flag: "flag_ok F fv val (2 ^ bits)" using ok(1) FSpread by simp
  obtain t k where b: "bits < length (f_spread s)"
    and t: "(if f_spread s ! bits = None then open_spread_table bits s else Some s) = Some t"
    and k: "f_spread t ! bits = Some k" and kv: "forward_kv_lookup_emit F k val result (canonical_limb F fv) t = Some s'"
    using run FSpread by (auto simp: op_spread_lookup_def bind_eq_Some_conv split: if_splits)
  have lt: "in_layout wl cl t" using layout_advances[OF lay kv_grows[OF kv]] .
  have inv_t: "tinv F wl cl alen es t" and bt: "bits < length (f_spread t)"
    using t inv b opens_tinv[OF inv open_spread_opens(1)[OF inv _ b] lt open_spread_opens(2)[OF inv _ b]]
      open_spread_opens(4)[OF inv _ b] by (auto split: if_splits)
  have "table_at (f_tables t) k 1 (2 ^ bits)" using tinvD(15)[OF inv_t] bt k by (simp add: opened_def)
  from kv_step[OF inv_t kv this few_tables[OF inv_t lt n] flag F lay] show ?thesis .
next
  case (FArray array leaves index result fv)
  have flag: "flag_ok F fv index (alen array)" and al: "length leaves = alen array" using ok FArray by (simp_all add: alens_def)
  obtain t where t: "(if f_table_ids s array = - 1 then open_array_table array leaves s else Some s) = Some t"
    and kv: "forward_kv_lookup_emit F (unat (f_table_ids t array)) index result (canonical_limb F fv) t = Some s'"
    using run FArray by (auto simp: op_array_lookup_def bind_eq_Some_conv split: if_splits)
  have lt: "in_layout wl cl t" using layout_advances[OF lay kv_grows[OF kv]] .
  have at: "tinv F wl cl alen es t \<and> table_at (f_tables t) (unat (f_table_ids t array)) 1 (alen array)"
  proof (cases "f_table_ids s array = - 1")
    case True
    then have o: "open_array_table array leaves s = Some t" using t by simp
    have fs: "length (f_tables s) < 2 ^ 64" using few_tables[OF inv layout_advances[OF lt open_grows(2)[OF o]] n] .
    note op = open_array_opens[OF inv o al fs]
    have "f_tables t = f_tables s @ [here 1 (length leaves) s]" using op(1) by (simp add: opens_def)
    then have "table_at (f_tables t) (unat (f_table_ids t array)) 1 (alen array)"
      using op(3) fs al by (simp add: table_at_def unat_of_nat take_bit_nat_eq_self here_def nth_append)
    then show ?thesis using opens_tinv[OF inv op(1) lt op(2)] by blast
  next
    case False
    then show ?thesis using t inv tinvD(15)[OF inv] by (auto simp: opened_def)
  qed
  then show ?thesis using kv_step[OF _ kv _ _ flag F lay] few_tables[OF _ lt n] by blast
qed

lemma exec_all_grows: "opt_fold (fwd_exec F) ops s = Some s' \<Longrightarrow> advances s s'"
proof (induction ops arbitrary: s)
  case (Cons op ops)
  then obtain t where "fwd_exec F op s = Some t" "opt_fold (fwd_exec F) ops t = Some s'" by (auto simp: bind_eq_Some_conv)
  then show ?case using exec_grows Cons.IH advances_trans by blast
qed simp

lemma exec_all_tinv:
  assumes "opt_fold (fwd_exec F) ops s = Some s'" "tinv F wl cl alen es s" "in_layout wl cl s'"
    "list_all (op_ok F) ops" "list_all (alens alen) ops" "repr_ok F" "constraints_size cl < 2 ^ 64"
  shows "\<exists>es'. tinv F wl cl alen es' s'"
  using assms
proof (induction ops arbitrary: s es)
  case (Cons op ops)
  then obtain t where t: "fwd_exec F op s = Some t" "opt_fold (fwd_exec F) ops t = Some s'" by (auto simp: bind_eq_Some_conv)
  have "in_layout wl cl t" using layout_advances[OF Cons.prems(3) exec_all_grows[OF t(2)]] .
  then obtain es1 where "tinv F wl cl alen es1 t" using exec_tinv[OF Cons.prems(2) t(1)] Cons.prems(4-7) by auto
  then show ?case using Cons.IH[OF t(2)] Cons.prems(3-7) by auto
qed auto

lemma init_tinv:
  assumes "repr_ok F"
  shows "tinv F wl cl alen [] (fwd_init wl cl)"
  using repr_okD(4)[OF assms]
  by (simp add: tinv_def fwd_init_def rows_size_def wit_tables_start_def blank_def row_holds_def opened_def constraints_size_def
    cl_lookups_data_start_def multiplicities_end_def multiplicities_start_def algebraic_end_def pre_commitment_size_def uses_def)

text \<open>The lengths of the arrays, from the operations.\<close>

lemma ops_ok_alens:
  assumes "ops_ok F ops"
  shows "list_all (alens (\<lambda>a. the (map_of (concat (map op_arrays ops)) a))) ops"
proof -
  let ?L = "concat (map op_arrays ops)"
  have "the (map_of ?L a) = n" if an: "(a, n) \<in> set ?L" for a n
  proof -
    obtain m where m: "map_of ?L a = Some m" using weak_map_of_SomeI[OF an] by blast
    then have "(a, m) \<in> set ?L" by (rule map_of_SomeD)
    then have "m = n" using assms an unfolding ops_ok_def by blast
    then show ?thesis using m by simp
  qed
  then show ?thesis by (auto simp: list_all_iff alens_def)
qed

subsection \<open>Witness generation\<close>

lemma fix_section:
  assumes "k \<le> n" "n \<le> length wit"
  shows "\<exists>pre. opt_fold (\<lambda>i wit. do { m \<leftarrow> peek F i wit; upd_opt wit i (of_nat (unat m)) }) [k..<n] wit = Some pre
    \<and> length pre = length wit \<and> (\<forall>j. k \<le> j \<longrightarrow> j < n \<longrightarrow> pre ! j = of_nat (unat (limb F (wit ! j))))
    \<and> (\<forall>j. j < k \<or> n \<le> j \<longrightarrow> pre ! j = wit ! j)"
  using assms
proof (induction "n - k" arbitrary: k wit)
  case (Suc d)
  let ?wit = "wit[k := of_nat (unat (limb F (wit ! k)))]"
  have "[k..<n] = k # [Suc k..<n]" "k < length wit" using Suc.hyps(2) Suc.prems by (simp_all add: upt_conv_Cons)
  moreover have "d = n - Suc k" "Suc k \<le> n" "n \<le> length ?wit" using Suc.hyps(2) Suc.prems by simp_all
  from Suc.hyps(1)[OF this] obtain pre where
    pre: "opt_fold (\<lambda>i wit. do { m \<leftarrow> peek F i wit; upd_opt wit i (of_nat (unat m)) }) [Suc k..<n] ?wit = Some pre"
    "length pre = length ?wit" "\<forall>j. Suc k \<le> j \<longrightarrow> j < n \<longrightarrow> pre ! j = of_nat (unat (limb F (?wit ! j)))"
    "\<forall>j. j < Suc k \<or> n \<le> j \<longrightarrow> pre ! j = ?wit ! j" by blast
  moreover have "pre ! j = of_nat (unat (limb F (wit ! j)))" if "k \<le> j" "j < n" for j
    using that pre(3,4) Suc.prems by (cases "j = k") (simp_all del: of_nat_unat)
  moreover have "pre ! j = wit ! j" if "j < k \<or> n \<le> j" for j using that pre(4) Suc.hyps(2) by fastforce
  ultimately show ?case by (simp add: peek_def nth_opt_in upd_opt_def del: of_nat_unat)
qed simp

definition fills :: "witness_layout \<Rightarrow> constraints_layout \<Rightarrow> 'f fwd \<Rightarrow> bool" where
  "fills wl cl s \<longleftrightarrow> in_layout wl cl s \<and> f_look s = constraints_size cl \<and> cl_lookups_data_size cl \<le> wl_lookups_data_size wl"

lemma run_phase1_ok:
  assumes F: "repr_ok F" and ops: "ops_ok F ops" and run: "opt_fold (fwd_exec F) ops (fwd_init wl cl) = Some s"
    and fill: "fills wl cl s" and n: "constraints_size cl < 2 ^ 64"
  shows "\<exists>es p. run_phase1 F ops wl cl = Some p \<and> phase1_ok F wl cl es p \<and> p_tables p = f_tables s \<and> p_a p = f_a s"
proof -
  have lay: "in_layout wl cl s" using fill by (simp add: fills_def)
  obtain es where inv: "tinv F wl cl (\<lambda>a. the (map_of (concat (map op_arrays ops)) a)) es s"
    using exec_all_tinv[OF run init_tinv[OF F] lay _ ops_ok_alens[OF ops] F n] ops by (auto simp: ops_ok_def)
  note I = tinvD[OF inv]
  have mm: "multiplicities_start wl \<le> multiplicities_end wl" "multiplicities_end wl \<le> length (f_wit s)"
    using I(2) by (simp_all add: multiplicities_end_def multiplicities_start_def algebraic_end_def pre_commitment_size_def)
  obtain pre where pre: "fix_multiplicities_section F wl (f_wit s) = Some pre" "length pre = length (f_wit s)"
    "\<forall>j. multiplicities_start wl \<le> j \<longrightarrow> j < multiplicities_end wl \<longrightarrow> pre ! j = of_nat (unat (limb F (f_wit s ! j)))"
    using fix_section[OF mm, of F] by (auto simp: fix_multiplicities_section_def)
  let ?p = "\<lparr>p_pre = pre, p_post = replicate (post_commitment_size wl) 0, p_a = f_a s, p_b = f_b s, p_c = f_c s, p_tables = f_tables s\<rparr>"
  have lw: "lwidths (f_tables s) es = cl_lookups_data_size cl"
    using I(8) fill by (simp add: fills_def constraints_size_def cl_lookups_data_start_def)
  have mult: "mul_of pre (f_tables s ! k) i = of_nat (uses F es k i)" if k: "k < length (f_tables s)" "i < t_length (f_tables s ! k)" for k i
  proof -
    have "uses F es k i < 2 ^ 64"
      using uses_le[of F es k i] length_le_lwidths[of es "f_tables s"] lw n by (simp add: constraints_size_def)
    then have u: "unat (of_nat (uses F es k i) :: u64) = uses F es k i" by (simp add: unat_of_nat take_bit_nat_eq_self)
    have "t_mult (f_tables s ! k) + i < multiplicities_end wl" "multiplicities_start wl \<le> t_mult (f_tables s ! k) + i"
      using placed_mult[OF I(3) nth_mem[OF k(1)]] k(2) I(6) lay by (simp_all add: in_layout_def)
    then have "mul_of pre (f_tables s ! k) i = of_nat (unat (limb F (mul_of (f_wit s) (f_tables s ! k) i)))"
      using pre(3) by (simp add: mul_of_def del: of_nat_unat)
    then show ?thesis by (simp only: I(11)[OF k] u)
  qed
  have "run_phase1 F ops wl cl = Some ?p" using run pre(1) by (simp add: run_phase1_def)
  moreover have "widths (f_tables s) \<le> cl_tables_data_size cl" "wwidths (f_tables s) \<le> wl_tables_data_size wl"
    "lengths (f_tables s) \<le> wl_multiplicities_size wl"
    using lay I(4-6) by (simp_all add: in_layout_def cl_lookups_data_start_def cl_tables_data_start_def multiplicities_end_def)
  moreover have pr: "p_rows ?p = f_rows s" by (simp add: p_rows_def f_rows_def)
  ultimately have "phase1_ok F wl cl es ?p" unfolding phase1_ok_def pr using I(1-3,7,9,10,13,14) pre(2) lw mult fill
    by (simp add: fills_def row_holds_def)
  then show ?thesis using \<open>run_phase1 F ops wl cl = Some ?p\<close> by auto
qed

text \<open>C4. Witness generation that has room in its layout ends, and the rows it outputs satisfy every constraint: those of
  the algebra because the program's constraints hold, those of the lookup argument because the multiplicities of phase one
  count the lookups, so that the weighted sum of a table is the sum over its lookups.\<close>

theorem witness_generation_satisfies:
  assumes "repr_ok F" and "ops_ok F ops" and "opt_fold (fwd_exec F) ops (fwd_init wl cl) = Some s" and "fills wl cl s"
    and "constraints_size cl < 2 ^ 64" and char: "\<And>n. 0 < n \<Longrightarrow> n < 2 ^ 64 \<Longrightarrow> (of_nat n :: 'f::field) \<noteq> 0"
    and "challenges_fit wl (f_tables s) cs" and "dens_ok (f_tables s) (f_a s) (cs :: 'f list)"
  shows "\<exists>p g. run_phase1 F ops wl cl = Some p \<and> run_phase2 F p cs wl cl = Some g \<and> w_pre g = p_pre p
    \<and> take (length cs) (w_post g) = cs \<and> rows_size (constraints_size cl) (w_rows g)
    \<and> map2 (*) (r_a (w_rows g)) (r_b (w_rows g)) = r_c (w_rows g)"
proof -
  obtain es p where p: "run_phase1 F ops wl cl = Some p" "phase1_ok F wl cl es p" "p_tables p = f_tables s" "p_a p = f_a s"
    using run_phase1_ok[OF assms(1-5)] by blast
  have "(of_nat n :: 'f) \<noteq> 0" if "0 < n" "n \<le> cl_lookups_data_size cl" for n
    using char that assms(5) by (simp add: constraints_size_def)
  then obtain g where g: "run_phase2 F p cs wl cl = Some g" "w_pre g = p_pre p" "take (length cs) (w_post g) = cs"
    "rows_size (constraints_size cl) (w_rows g)" "\<forall>j<constraints_size cl. row_holds (w_rows g) j"
    using phase2_rows[OF p(2)] assms(7,8) p(3,4) by metis
  have "map2 (*) (r_a (w_rows g)) (r_b (w_rows g)) = r_c (w_rows g)"
    using g(4,5) by (intro nth_equalityI) (simp_all add: rows_size_def row_holds_def)
  then show ?thesis using p(1) g by blast
qed

text \<open>The first limb of a rational, for an example.\<close>

definition rat_limbs :: "rat felt_repr" where
  "rat_limbs = \<lparr>limb = (\<lambda>x. word_of_int \<lfloor>x\<rfloor>),
     set_limb = (\<lambda>x v. x - of_int (uint (word_of_int \<lfloor>x\<rfloor> :: u64)) + of_int (uint v)),
     canonical_limb = (\<lambda>x. word_of_int \<lfloor>x\<rfloor>)\<rparr>"

lemma rat_limbs_ok: "repr_ok rat_limbs"
proof -
  have f: "\<lfloor>x - of_int a + of_int b\<rfloor> = \<lfloor>x\<rfloor> - a + b" for x :: rat and a b
    by (metis diff_add_eq floor_add_int floor_diff_of_int)
  have l: "(word_of_int (\<lfloor>x\<rfloor> - uint (word_of_int \<lfloor>x\<rfloor> :: u64) + uint v) :: u64) = v" for x :: rat and v :: u64
    by (simp add: wi_hom_syms word_of_int_uint)
  show ?thesis unfolding repr_ok_def rat_limbs_def by (simp add: f l word_of_int_uint del: of_int_uint)
qed

definition demo_ops :: "rat fwd_op list" where
  "demo_ops = [FR1C 2 3 6, FArray 7 [10, 20] 1 20 1, FWriteWitness 4, FArray 7 [10, 20] 0 99 0]"

definition demo_wl :: witness_layout where
  "demo_wl = \<lparr>wl_algebraic_size = 1, wl_multiplicities_size = 2, wl_challenges_size = 2, wl_tables_data_size = 4,
     wl_lookups_data_size = 4\<rparr>"

definition demo_cl :: constraints_layout where
  "demo_cl = \<lparr>cl_algebraic_size = 1, cl_tables_data_size = 5, cl_lookups_data_size = 4\<rparr>"

definition demo_table :: vm_table where
  "demo_table = \<lparr>t_mult = 1, t_num_indices = 1, t_num_values = 1, t_length = 2, t_wit = 2, t_cnst = 1\<rparr>"

definition demo_state :: "rat fwd" where
  "demo_state =
    \<lparr>f_a = [2, 10, 0, 20, 0, 0, 0, 0, 0, 0], f_b = [3, 0, 0, 0, 0, 0, 20, 1, 99, 0], f_c = [6, 0, 0, 0, 0, 0, 0, 1, 0, 0],
     f_wit = [4, 0, 1], f_row = 1, f_alg = 1, f_mult = 3, f_look = 10, f_cnst_tables = 6, f_wit_tables = 6,
     f_tables = [demo_table], f_rgchk = None, f_spread = replicate 17 None, f_table_ids = (\<lambda>_. - 1)(7 := 0)\<rparr>"

lemma demo_run: "opt_fold (fwd_exec rat_limbs) demo_ops (fwd_init demo_wl demo_cl) = Some demo_state"
  by (simp add: demo_state_def demo_table_def demo_ops_def demo_wl_def demo_cl_def fwd_init_def layout_defs constraints_size_def cl_lookups_data_start_def
    cl_tables_data_start_def op_r1c_def op_write_witness_def op_array_lookup_def open_array_table_def fill_values_def
    forward_kv_lookup_emit_def bump_multiplicity_def poke_def peek_def nth_opt_def upd_opt_def here_def rat_limbs_def Let_def
    enumerate_eq_zip numeral_nat)

theorem witness_generation_satisfies_witness:
  "\<exists>p g. run_phase1 rat_limbs demo_ops demo_wl demo_cl = Some p \<and> run_phase2 rat_limbs p [100, 3] demo_wl demo_cl = Some g
    \<and> w_pre g = p_pre p \<and> take (length [100, 3 :: rat]) (w_post g) = [100, 3] \<and> rows_size 10 (w_rows g)
    \<and> map2 (*) (r_a (w_rows g)) (r_b (w_rows g)) = r_c (w_rows g)"
proof -
  have ops: "ops_ok rat_limbs demo_ops" by (simp add: ops_ok_def demo_ops_def flag_ok_def rat_limbs_def)
  have size: "constraints_size demo_cl = 10" by (simp add: constraints_size_def demo_cl_def)
  have fill: "fills demo_wl demo_cl demo_state"
    by (simp add: fills_def in_layout_def demo_state_def demo_wl_def demo_cl_def layout_defs wit_tables_start_def
      cl_lookups_data_start_def constraints_size_def)
  have n: "constraints_size demo_cl < 2 ^ 64" by (simp add: size)
  have two: "{0..<2 :: nat} = {0, 1}" by auto
  have fit: "challenges_fit demo_wl (f_tables demo_state) [100, 3 :: rat]"
    by (simp add: challenges_fit_def challenges_ok_def demo_wl_def)
  have den: "dens_ok (f_tables demo_state) (f_a demo_state) [100, 3 :: rat]"
    by (simp add: dens_ok_def table_dens_def den_of_def xpos_def narrow_def demo_state_def demo_table_def two)
  show ?thesis using witness_generation_satisfies[OF rat_limbs_ok ops demo_run fill n _ fit den] unfolding size by simp
qed

end
