(* ===== verification/Spec2Isabelle.thy ===== *)
theory Spec2Isabelle
  imports Bits LogUp R1CS_Bitops Jump_Passes Witness_Fresh Simplify_Asserts Instruction_Lowering VM_Arrays VM_Tape
begin

text \<open>
  A verification library for Mavros, a compiler from Noir programs to rank-1 constraint systems. The
  compiler lowers a program to a high-level SSA, runs many passes on it, and generates two things: the
  constraint system, by executing the program symbolically over linear combinations of witness
  variables, and code that computes the witness.

  \<^bold>\<open>Theories and the code they model\<close>

  \<^item> \<open>MavPrelude\<close>: panics as \<open>None\<close>, checked vector accesses, loops whose body may panic, decimal
    numerals, association lists as hash maps.
  \<^item> \<open>Bits\<close> (\<^verbatim>\<open>compiler/util.rs\<close>): spreading the bits of a number over every second position and
    back. Lemmas: round trips, and that the spread sum of two words carries their conjunction in the
    odd and their exclusive or in the even positions.
  \<^item> \<open>HL_Types\<close> (\<^verbatim>\<open>ssa/hlssa/type_system.rs\<close>): types, subtyping and join of the witness lattice,
    sizes, rendering. Lemmas: partial order, least upper bounds, when the join panics.
  \<^item> \<open>SSA_Core\<close> (\<^verbatim>\<open>ssa/mod.rs\<close>, \<^verbatim>\<open>ssa/traits.rs\<close>): blocks, functions, programs, generic in the
    instruction; the table of interned constants, also as a step relation over threads that take the
    read and the write lock; duplication of a function. The locale \<open>interner\<close> states what an interning
    table promises, \<open>instruction\<close> what a view of an instruction set promises.
  \<^item> \<open>HL_Opcodes\<close> (\<^verbatim>\<open>ssa/hlssa/mod.rs\<close>): the opcodes with their inputs, results and operands, read
    and assigned, and their rendering; the provider of \<open>instruction\<close>.
  \<^item> \<open>R1CS_Artifacts\<close> (\<^verbatim>\<open>mavros-artifacts/src/lib.rs\<close>): the layouts, the constraint system, the checker
    of witnesses, the derivatives and their checker.
  \<^item> \<open>R1CS_Seal\<close>, \<open>LogUp\<close> (\<^verbatim>\<open>codegen/hlssa_to_r1cs.rs\<close>, \<^verbatim>\<open>verify\<close> and \<^verbatim>\<open>seal\<close>): how the
    generator's state becomes a constraint system with a lookup argument. \<open>LogUp\<close> brings the three passes of
    sealing into a closed form and shows what the sealed system says: when it is satisfiable above a prefix of the
    witness, and that it is for a prover that looks up rows of the tables and counts them.
  \<^item> \<open>R1CS_Gen\<close>, \<open>R1CS_Bitops\<close> (same file, \<^verbatim>\<open>Value\<close> and its operations): constants, linear
    combinations, arrays and pointers in a heap; arithmetic, comparisons, bit operations.
  \<^item> \<open>Symbolic_Executor\<close> (\<^verbatim>\<open>analysis/symbolic_executor.rs\<close>): the engine over a record of client
    operations. The locale \<open>sym_client\<close> is the contract of a client: an invariant of the context, an
    order in which contexts grow, and a validity of values that every operation keeps; inside it a run
    is shown to keep them.
  \<^item> \<open>R1CS_Run\<close> (\<^verbatim>\<open>codegen/hlssa_to_r1cs.rs\<close>, the trait implementations and \<^verbatim>\<open>run\<close>): the generator
    as a client of the engine, the interpretation of \<open>sym_client\<close>, and the theorem that leads from a
    program to a system the checker accepts as input.
  \<^item> \<open>Flow_Analysis\<close> (\<^verbatim>\<open>analysis/flow_analysis.rs\<close>): control flow graphs, the two
    traversals of the dominator tree, the queries, the call graph. \<open>Dominance\<close> shows that comparing
    the traversal numbers decides dominance and gives a reference algorithm for dominator trees;
    \<open>Cfg_Blocks\<close> carries this from nodes to blocks and their terminators.
  \<^item> \<open>Unreachable_Passes\<close> (\<^verbatim>\<open>passes/remove_unreachable_blocks.rs\<close>,
    \<^verbatim>\<open>remove_unreachable_functions.rs\<close>) and \<open>Deduplicate_Phis\<close>
    (\<^verbatim>\<open>passes/deduplicate_phis.rs\<close>): the passes, simulations between programs (\<open>ssa_sim\<close>,
    \<open>dedup_ssa_sim\<close>), and that runs of every client of the symbolic executor are preserved.
  \<^item> \<open>Value_Replacement\<close> (\<^verbatim>\<open>ValueReplacements\<close> of \<^verbatim>\<open>passes/fix_double_jumps.rs\<close>,
    \<^verbatim>\<open>passes/witness_write_to_void.rs\<close>, \<^verbatim>\<open>strip_witness_of.rs\<close>): chains of replacements
    and the two passes that remove instructions through them.
  \<^item> \<open>Jump_Passes\<close> (\<^verbatim>\<open>passes/fix_double_jumps.rs\<close>, \<^verbatim>\<open>condition_propagation.rs\<close>):
    merging blocks, propagating conditions. Where every branch goes to blocks of its own, each replaced condition is
    known in its block; a program where it does not, and one on which the pass panics.
  \<^item> \<open>Witness_Fresh\<close> (\<^verbatim>\<open>passes/witness_write_to_fresh.rs\<close>): rewriting instructions one by one and
    the refinement between runs it owes, composed with the constraint generator.
  \<^item> \<open>Simplify_Asserts\<close> (\<^verbatim>\<open>passes/simplify_asserts.rs\<close>): splitting assertions; new and old
    assertions say the same of every assignment that agrees with the definitions.
  \<^item> \<open>Types_Analysis\<close> (\<^verbatim>\<open>analysis/types.rs\<close>): the pass over a function, and the typing rules of the
    opcodes as an inductive relation \<open>instr_typed\<close> of its own; the result obeys the rule of every instruction.
  \<^item> \<open>Intervals\<close>, \<open>Value_Range\<close> (\<^verbatim>\<open>analysis/value_range_analysis.rs\<close>): intervals of integers and their
    operations, the transfer function of every opcode, the bounded iteration; the intervals contain the values of
    executions whose arithmetic does not wrap around, and counterexamples in the integers and in the field without that.
  \<^item> \<open>HL_Builder\<close> (\<^verbatim>\<open>ssa/hlssa/builder.rs\<close>, \<^verbatim>\<open>ssa/builder.rs\<close>): the instruction emitters as actions of
    the state monad.
  \<^item> \<open>Gadget_Semantics\<close>: what an instruction says of an assignment of field elements to values, and the rules
    that carry this through the emitters.
  \<^item> \<open>Lower_Compare\<close>, \<open>Lower_Assert\<close>, \<open>Lower_Arith\<close>, \<open>Lower_Bits\<close>, \<open>Lower_BitRange\<close>
    (\<^verbatim>\<open>witness_compare.rs\<close>, \<^verbatim>\<open>witness_assert.rs\<close>, \<^verbatim>\<open>witness_integer_arith.rs\<close>,
    \<^verbatim>\<open>witness_bitwise.rs\<close>, \<^verbatim>\<open>witness_spread.rs\<close> and \<^verbatim>\<open>bit_range.rs\<close> of
    \<^verbatim>\<open>passes/instruction_lowering\<close>): the rules that turn integer instructions on witnesses into field
    arithmetic, range checks and lookups, each with its soundness; for parts of a byte, that the gadget does not
    determine them.
  \<^item> \<open>Instruction_Lowering\<close> (\<^verbatim>\<open>passes/instruction_lowering/mod.rs\<close>): the pass over a list of rules. The locale
    \<open>lowering_rules\<close> is the contract of such a list, interpreted on the integer rules.
  \<^item> \<open>VM_Heap\<close>, \<open>VM_Refcount\<close>, \<open>VM_Arrays\<close> (\<^verbatim>\<open>vm/src/array.rs\<close> and the opcodes on objects of
    \<^verbatim>\<open>vm/src/bytecode.rs\<close>): layouts and objects; reference counting, which keeps \<open>heap_ok\<close>, ends and
    never touches freed memory; the derivatives of the backward pass and what their propagation conserves; copy on
    write as a functional update, and the lookup table that a write in place leaves behind.
  \<^item> \<open>VM_Bits\<close>, \<open>VM_Forward\<close> (\<^verbatim>\<open>vm/src/bytecode.rs\<close>, \<^verbatim>\<open>run_phase1\<close> and \<^verbatim>\<open>run_phase2\<close> of
    \<^verbatim>\<open>vm/src/interpreter.rs\<close>): bit spreading on machine words, which agrees with \<open>Bits\<close>; the forward pass as far as
    it fills the output vectors. The vectors are lists, the pointers into them positions, and a cell that holds a word is
    a field element whose first limb is the word.
  \<^item> \<open>VM_Inverses\<close>, \<open>VM_Lookups\<close>, \<open>VM_Finish\<close>, \<open>VM_Witgen\<close>, \<open>VM_Tape\<close>: the loops of phase two (one
    inversion for all denominators, the rows of the lookups, the sums), phase two as a whole from what phase one leaves
    (\<open>phase1_ok\<close>), and that phase one leaves it: the rows of witness generation satisfy every constraint.

  \<^bold>\<open>How the code is represented\<close>

  A panic is \<open>None\<close> (for the engine, the outcome \<open>Panic\<close>). Hash maps are association lists, in any
  order. Shared mutable arrays and pointers of the generator are addresses into a heap. Machine integers on
  which the code computes are words of 128 bits; identifiers, sizes and indices are natural numbers. The
  scalar field is any type of class \<open>field\<close>; the representation of its elements, which the arkworks
  library provides, is the parameter \<open>prime_ops\<close>, and \<open>bigint_spec\<close> is what that library documents.
  The graph library's dominator trees and walks are the parameter \<open>graph_algos\<close>; \<open>dominators_ok\<close> and
  \<open>post_order_ok\<close> are what it documents, met by the reference algorithms \<open>naive_algos\<close>. Where a pass
  iterates over a hash map and the order matters, the order is a parameter.

  \<^bold>\<open>Hypotheses that recur\<close>

  The gadgets are sound in a field that is large enough (\<open>bn254_like\<close>) and for the widths the code uses them with;
  decomposing a field element assumes its bits are cut at bytes, and the theorem on parts of a byte shows why. The value
  ranges need arithmetic that does not wrap around (\<open>block_exact\<close>), and condition propagation branches whose targets are
  blocks of their own (\<open>split_branches\<close>). The
  heap theorems assume \<open>heap_ok\<close>, which the empty heap meets and every operation keeps, and that the references
  between objects are well founded (\<open>ranked\<close>). The theorem on witness generation assumes that the layout has room for the
  run (\<open>fills\<close>), that flags are zero or one and that keys looked up are in their tables (\<open>ops_ok\<close>), and that no challenge
  makes a denominator zero (\<open>dens_ok\<close>). Each has a witness on a concrete program, heap or run.

  \<^bold>\<open>Fuel\<close>

  The engine takes one unit of fuel for each nested call and each block; running out is the outcome
  \<open>OutOfFuel\<close>, and more fuel never changes another outcome. Flattening an array at address \<open>a\<close> takes
  \<open>a + 1\<close> units, which is shown to be enough. The traversal of a dominator tree takes one unit more than
  there are nodes, following merges or conjunctions one more than there are merges or definitions; each is
  shown to be enough. Where the code itself bounds an iteration (the rounds of value ranges and of the lowering pass),
  the model has the code's bound, and what it does when the bound is reached.

  \<^bold>\<open>Not modelled\<close>

  Of the virtual machine, the frame stack, the dispatch over encoded instructions, the opcodes on plain words and those
  that differentiate lookups. Of the compiler, the analyses and passes not named above, the emitters that
  build loops and conditionals, the low-level SSA, the bytecode and LLVM backends. Neither are modelled the front
  end (which walks the syntax tree of a third-party compiler), the drivers and command line tools (input, output
  and wiring), the procedural macro for opcodes, the rendering of programs and graphs and the parsing of
  inputs.
\<close>

end
